(* ===== verification/Prelude.thy ===== *)
theory Prelude
  imports Main "HOL-Library.Word"
begin

text \<open>
  What the components of the development share: the machine integers of the Rust sources, the
  result of a computation that may panic, loops that may stop early, and facts on words and lists.

  The kernel and the file system are built in release mode (\<^verbatim>\<open>os/Makefile\<close>,
  \<^verbatim>\<open>MODE := release\<close>; no \<^verbatim>\<open>Cargo.toml\<close> sets \<^verbatim>\<open>overflow-checks\<close>), so \<open>+\<close>, \<open>-\<close> and \<open>*\<close>
  on \<^verbatim>\<open>usize\<close>, \<^verbatim>\<open>u64\<close>, \<^verbatim>\<open>u32\<close> and \<^verbatim>\<open>u8\<close> wrap around, as they do on \<open>'a word\<close>.
\<close>

unbundle bit_operations_syntax

type_synonym usize = "64 word"
type_synonym u64 = "64 word"
type_synonym u32 = "32 word"
type_synonym u8 = "8 word"

section \<open>Computations that may panic\<close>

text \<open>
  Every \<^verbatim>\<open>unwrap\<close>, \<^verbatim>\<open>assert!\<close>, out-of-range index and \<^verbatim>\<open>panic!\<close> of the source is a value of
  \<open>panic\<close>. The panic handler of the kernel (\<^verbatim>\<open>os/src/lang_items.rs\<close>) prints a message and shuts
  the machine down, so nothing runs after a panic.
\<close>

datatype panic =
    UnwrapNone      \<comment> \<open>\<^verbatim>\<open>Option::unwrap\<close> on \<^verbatim>\<open>None\<close>\<close>
  | UnwrapErr       \<comment> \<open>\<^verbatim>\<open>Result::unwrap\<close> on \<^verbatim>\<open>Err\<close>\<close>
  | AssertFailed    \<comment> \<open>\<^verbatim>\<open>assert!\<close> and \<^verbatim>\<open>assert_eq!\<close>\<close>
  | OutOfBounds     \<comment> \<open>an index or a slice out of range\<close>
  | ExplicitPanic   \<comment> \<open>\<^verbatim>\<open>panic!\<close>\<close>
  | OutOfCaches     \<comment> \<open>\<^verbatim>\<open>panic!("Run out of BlockCache!")\<close>\<close>
  | Deadlock        \<comment> \<open>a spin lock taken again by its holder: nothing runs after it either\<close>

datatype 'a res = Ok 'a | Panic panic

fun bind_res :: "'a res \<Rightarrow> ('a \<Rightarrow> 'b res) \<Rightarrow> 'b res" where
  "bind_res (Ok x) f = f x"
| "bind_res (Panic e) f = Panic e"

definition is_ok :: "'a res \<Rightarrow> bool" where
  "is_ok r = (case r of Ok _ \<Rightarrow> True | Panic _ \<Rightarrow> False)"

definition unwrap :: "'a option \<Rightarrow> 'a res" where
  "unwrap x = (case x of None \<Rightarrow> Panic UnwrapNone | Some y \<Rightarrow> Ok y)"

definition assert_that :: "bool \<Rightarrow> unit res" where
  "assert_that b = (if b then Ok () else Panic AssertFailed)"

named_theorems res_simps "rewriting of computations that may panic"

lemma bind_res_cong [fundef_cong]:
  assumes "r = r'" and "\<And>x. r' = Ok x \<Longrightarrow> f x = g x"
  shows "bind_res r f = bind_res r' g"
  using assms by (cases r') auto

lemma bind_res_eq_Ok [res_simps]:
  "(bind_res r f = Ok y) = (\<exists>x. r = Ok x \<and> f x = Ok y)"
  by (cases r) auto

lemma bind_res_eq_Panic [res_simps]:
  "(bind_res r f = Panic e) = (r = Panic e \<or> (\<exists>x. r = Ok x \<and> f x = Panic e))"
  by (cases r) auto

lemma bind_res_assoc: "bind_res (bind_res r f) g = bind_res r (\<lambda>x. bind_res (f x) g)"
  by (cases r) auto

lemma is_ok_simps [simp]: "is_ok (Ok x)" "\<not> is_ok (Panic e)"
  by (auto simp: is_ok_def)

lemma is_ok_iff: "is_ok r = (\<exists>x. r = Ok x)"
  by (cases r) auto

lemma unwrap_simps [simp]: "unwrap None = Panic UnwrapNone" "unwrap (Some x) = Ok x"
  by (auto simp: unwrap_def)

lemma unwrap_eq_Ok [res_simps]: "(unwrap x = Ok y) = (x = Some y)"
  by (cases x) auto

lemma assert_that_simps [simp]:
  "assert_that True = Ok ()" "assert_that False = Panic AssertFailed"
  by (auto simp: assert_that_def)

lemma assert_that_eq_Ok [res_simps]: "(assert_that b = Ok u) = b"
  by (auto simp: assert_that_def)

text \<open>A \<^verbatim>\<open>for\<close> loop whose body may panic.\<close>

fun fold_res :: "('a \<Rightarrow> 's \<Rightarrow> 's res) \<Rightarrow> 'a list \<Rightarrow> 's \<Rightarrow> 's res" where
  "fold_res f [] s = Ok s"
| "fold_res f (x # xs) s = bind_res (f x s) (fold_res f xs)"

lemma fold_res_append:
  "fold_res f (xs @ ys) s = bind_res (fold_res f xs s) (fold_res f ys)"
proof (induction xs arbitrary: s)
  case (Cons x xs)
  then show ?case by (cases "f x s") auto
qed simp

lemma fold_res_invariant:
  assumes "fold_res f xs s = Ok s'" and "I s"
    and "\<And>x s s'. x \<in> set xs \<Longrightarrow> I s \<Longrightarrow> f x s = Ok s' \<Longrightarrow> I s'"
  shows "I s'"
  using assms
proof (induction xs arbitrary: s)
  case (Cons x xs)
  from Cons.prems(1) obtain t where t: "f x s = Ok t" "fold_res f xs t = Ok s'"
    by (auto simp: res_simps)
  have "I t" using Cons.prems(2,3) t(1) by auto
  with Cons t(2) show ?case by auto
qed simp

text \<open>
  The loop of a \<^verbatim>\<open>for\<close> returns as long as every body returns from the states the loop can be in.
  The invariant takes the elements done so far.
\<close>

lemma fold_res_total:
  assumes "I [] s"
    and "\<And>ys x zs s. xs = ys @ x # zs \<Longrightarrow> I ys s \<Longrightarrow> \<exists>s'. f x s = Ok s' \<and> I (ys @ [x]) s'"
  shows "\<exists>s'. fold_res f xs s = Ok s' \<and> I xs s'"
proof -
  have "\<exists>s'. fold_res f zs s = Ok s' \<and> I xs s'" if "xs = ys @ zs" and "I ys s" for ys zs s
    using that
  proof (induction zs arbitrary: ys s)
    case (Cons z zs)
    from assms(2) [OF Cons.prems] obtain t where t: "f z s = Ok t" "I (ys @ [z]) t" by blast
    from Cons.prems(1) have "xs = (ys @ [z]) @ zs" by simp
    from Cons.IH [OF this t(2)] t(1) show ?case by simp
  qed simp
  from this [of "[]" xs s] assms(1) show ?thesis by simp
qed

section \<open>Words\<close>

named_theorems word_nat "words compared through \<open>unat\<close>"

lemmas [word_nat] = word_less_nat_alt word_le_nat_alt

lemma unat_sub1: "(x :: 'a::len word) \<noteq> 0 \<Longrightarrow> unat (x - 1) = unat x - 1"
  by (simp add: unat_minus_one)

lemma word_plus_one_neq [simp]: "(x :: usize) + 1 \<noteq> x" "x \<noteq> (x :: usize) + 1"
  by simp_all

lemma unat_plus_one:
  "(x :: 'a::len word) \<noteq> - 1 \<Longrightarrow> unat (x + 1) = unat x + 1"
  by (metis Suc_eq_plus1 add.commute add.inverse_inverse eq_neg_iff_add_eq_0 unatSuc)

lemma unat_less_64: "unat (x :: usize) < 2 ^ 64"
proof -
  have "unat x < 2 ^ LENGTH(64)" by (rule unsigned_less)
  then show ?thesis by simp
qed

lemma unat_less_32: "unat (x :: u32) < 2 ^ 32"
proof -
  have "unat x < 2 ^ LENGTH(32)" by (rule unsigned_less)
  then show ?thesis by simp
qed

lemma unat_take_bit: "unat (take_bit n (v :: 'a::len word)) = unat v mod 2 ^ n"
  by (simp add: unsigned_take_bit_eq flip: take_bit_eq_mod)

lemma unat_drop_bit: "unat (drop_bit n (v :: 'a::len word)) = unat v div 2 ^ n"
  by (simp add: unat_drop_bit_eq flip: drop_bit_eq_div)

lemma unat_of_nat_64: "n < 2 ^ 64 \<Longrightarrow> unat (of_nat n :: usize) = n"
  by (simp add: unat_of_nat take_bit_eq_mod)

end
