(* ===== verification/Address.thy ===== *)
theory Address
  imports Prelude
begin

text \<open>
  \<^verbatim>\<open>os/src/config.rs\<close> and \<^verbatim>\<open>os/src/mm/address.rs\<close>: the layout constants, the SV39 address and
  page-number types, the conversions between them, the three page-table indexes of a virtual page
  number and the page ranges a \<^verbatim>\<open>MapArea\<close> iterates over.
\<close>

section \<open>Constants\<close>

abbreviation (input) PAGE_SIZE_BITS :: nat where "PAGE_SIZE_BITS \<equiv> 12"
abbreviation (input) PA_WIDTH_SV39 :: nat where "PA_WIDTH_SV39 \<equiv> 56"
abbreviation (input) VA_WIDTH_SV39 :: nat where "VA_WIDTH_SV39 \<equiv> 39"
abbreviation (input) PPN_WIDTH_SV39 :: nat where "PPN_WIDTH_SV39 \<equiv> 44"
abbreviation (input) VPN_WIDTH_SV39 :: nat where "VPN_WIDTH_SV39 \<equiv> 27"

definition PAGE_SIZE :: usize where "PAGE_SIZE = 0x1000"
definition USER_STACK_SIZE :: usize where "USER_STACK_SIZE = 4096 * 2"
definition KERNEL_STACK_SIZE :: usize where "KERNEL_STACK_SIZE = 4096 * 2"
definition MEMORY_END :: usize where "MEMORY_END = 0x80800000"
definition TRAMPOLINE :: usize where "TRAMPOLINE = - 1 - PAGE_SIZE + 1"
definition TRAP_CONTEXT :: usize where "TRAP_CONTEXT = TRAMPOLINE - PAGE_SIZE"

lemmas config_defs = PAGE_SIZE_def USER_STACK_SIZE_def KERNEL_STACK_SIZE_def MEMORY_END_def
  TRAMPOLINE_def TRAP_CONTEXT_def

section \<open>Addresses and page numbers\<close>

datatype PhysAddr = PhysAddr (pa0: usize)
datatype VirtAddr = VirtAddr (va0: usize)
datatype PhysPageNum = PhysPageNum (ppn0: usize)
datatype VirtPageNum = VirtPageNum (vpn0: usize)

text \<open>\<^verbatim>\<open>#[derive(Ord, PartialOrd, Eq, PartialEq)]\<close>: the order of the wrapped number.\<close>

instantiation VirtAddr :: linorder
begin
definition less_eq_VirtAddr :: "VirtAddr \<Rightarrow> VirtAddr \<Rightarrow> bool" where
  "less_eq_VirtAddr a b = (va0 a \<le> va0 b)"
definition less_VirtAddr :: "VirtAddr \<Rightarrow> VirtAddr \<Rightarrow> bool" where
  "less_VirtAddr a b = (va0 a < va0 b)"
instance
  by standard (auto simp: less_eq_VirtAddr_def less_VirtAddr_def VirtAddr.expand)
end

instantiation VirtPageNum :: linorder
begin
definition less_eq_VirtPageNum :: "VirtPageNum \<Rightarrow> VirtPageNum \<Rightarrow> bool" where
  "less_eq_VirtPageNum a b = (vpn0 a \<le> vpn0 b)"
definition less_VirtPageNum :: "VirtPageNum \<Rightarrow> VirtPageNum \<Rightarrow> bool" where
  "less_VirtPageNum a b = (vpn0 a < vpn0 b)"
instance
  by standard (auto simp: less_eq_VirtPageNum_def less_VirtPageNum_def VirtPageNum.expand)
end

instantiation PhysPageNum :: linorder
begin
definition less_eq_PhysPageNum :: "PhysPageNum \<Rightarrow> PhysPageNum \<Rightarrow> bool" where
  "less_eq_PhysPageNum a b = (ppn0 a \<le> ppn0 b)"
definition less_PhysPageNum :: "PhysPageNum \<Rightarrow> PhysPageNum \<Rightarrow> bool" where
  "less_PhysPageNum a b = (ppn0 a < ppn0 b)"
instance
  by standard (auto simp: less_eq_PhysPageNum_def less_PhysPageNum_def PhysPageNum.expand)
end

lemmas page_order_defs = less_eq_VirtAddr_def less_VirtAddr_def less_eq_VirtPageNum_def
  less_VirtPageNum_def less_eq_PhysPageNum_def less_PhysPageNum_def

text \<open>\<^verbatim>\<open>impl From<usize>\<close>: the bits above the width of the type are dropped.\<close>

definition PhysAddr_from :: "usize \<Rightarrow> PhysAddr" where
  "PhysAddr_from v = PhysAddr (v AND (push_bit PA_WIDTH_SV39 1 - 1))"

definition PhysPageNum_from :: "usize \<Rightarrow> PhysPageNum" where
  "PhysPageNum_from v = PhysPageNum (v AND (push_bit PPN_WIDTH_SV39 1 - 1))"

definition VirtAddr_from :: "usize \<Rightarrow> VirtAddr" where
  "VirtAddr_from v = VirtAddr (v AND (push_bit VA_WIDTH_SV39 1 - 1))"

definition VirtPageNum_from :: "usize \<Rightarrow> VirtPageNum" where
  "VirtPageNum_from v = VirtPageNum (v AND (push_bit VPN_WIDTH_SV39 1 - 1))"

text \<open>\<^verbatim>\<open>impl VirtAddr\<close>.\<close>

definition va_floor :: "VirtAddr \<Rightarrow> VirtPageNum" where
  "va_floor a = VirtPageNum (va0 a div PAGE_SIZE)"

definition va_ceil :: "VirtAddr \<Rightarrow> VirtPageNum" where
  "va_ceil a = VirtPageNum ((va0 a - 1 + PAGE_SIZE) div PAGE_SIZE)"

definition va_page_offset :: "VirtAddr \<Rightarrow> usize" where
  "va_page_offset a = va0 a AND (PAGE_SIZE - 1)"

definition va_aligned :: "VirtAddr \<Rightarrow> bool" where
  "va_aligned a = (va_page_offset a = 0)"

definition VirtPageNum_from_va :: "VirtAddr \<Rightarrow> VirtPageNum res" where
  "VirtPageNum_from_va a = bind_res (assert_that (va_page_offset a = 0)) (\<lambda>_. Ok (va_floor a))"

definition VirtAddr_from_vpn :: "VirtPageNum \<Rightarrow> VirtAddr" where
  "VirtAddr_from_vpn p = VirtAddr (push_bit PAGE_SIZE_BITS (vpn0 p))"

text \<open>\<^verbatim>\<open>impl PhysAddr\<close>.\<close>

definition pa_floor :: "PhysAddr \<Rightarrow> PhysPageNum" where
  "pa_floor a = PhysPageNum (pa0 a div PAGE_SIZE)"

definition pa_ceil :: "PhysAddr \<Rightarrow> PhysPageNum" where
  "pa_ceil a = PhysPageNum ((pa0 a - 1 + PAGE_SIZE) div PAGE_SIZE)"

definition pa_page_offset :: "PhysAddr \<Rightarrow> usize" where
  "pa_page_offset a = pa0 a AND (PAGE_SIZE - 1)"

definition pa_aligned :: "PhysAddr \<Rightarrow> bool" where
  "pa_aligned a = (pa_page_offset a = 0)"

definition PhysPageNum_from_pa :: "PhysAddr \<Rightarrow> PhysPageNum res" where
  "PhysPageNum_from_pa a = bind_res (assert_that (pa_page_offset a = 0)) (\<lambda>_. Ok (pa_floor a))"

definition PhysAddr_from_ppn :: "PhysPageNum \<Rightarrow> PhysAddr" where
  "PhysAddr_from_ppn p = PhysAddr (push_bit PAGE_SIZE_BITS (ppn0 p))"

text \<open>
  \<^verbatim>\<open>VirtPageNum::indexes\<close>: the loop runs over \<open>i = 2, 1, 0\<close>, taking nine bits at a time.
\<close>

definition indexes :: "VirtPageNum \<Rightarrow> usize list" where
  "indexes p = snd (fold (\<lambda>i (vpn, idx). (drop_bit 9 vpn, idx[i := vpn AND 511]))
                         [2, 1, 0] (vpn0 p, [0, 0, 0]))"

text \<open>\<^verbatim>\<open>StepByOne\<close>, \<^verbatim>\<open>SimpleRange\<close> and its iterator, at \<^verbatim>\<open>VirtPageNum\<close>.\<close>

definition vpn_step :: "VirtPageNum \<Rightarrow> VirtPageNum" where
  "vpn_step p = VirtPageNum (vpn0 p + 1)"

definition ppn_step :: "PhysPageNum \<Rightarrow> PhysPageNum" where
  "ppn_step p = PhysPageNum (ppn0 p + 1)"

record VPNRange =
  range_l :: VirtPageNum
  range_r :: VirtPageNum

definition VPNRange_new :: "VirtPageNum \<Rightarrow> VirtPageNum \<Rightarrow> VPNRange res" where
  "VPNRange_new start end' =
     bind_res (assert_that (start \<le> end')) (\<lambda>_. Ok \<lparr>range_l = start, range_r = end'\<rparr>)"

record SimpleRangeIterator =
  it_current :: VirtPageNum
  it_end :: VirtPageNum

definition into_iter :: "VPNRange \<Rightarrow> SimpleRangeIterator" where
  "into_iter r = \<lparr>it_current = range_l r, it_end = range_r r\<rparr>"

definition range_next ::
    "SimpleRangeIterator \<Rightarrow> VirtPageNum option \<times> SimpleRangeIterator" where
  "range_next it =
     (if it_current it = it_end it then (None, it)
      else (Some (it_current it), it\<lparr>it_current := vpn_step (it_current it)\<rparr>))"

text \<open>The elements a \<^verbatim>\<open>for\<close> loop over the range sees: \<^verbatim>\<open>next\<close> until it returns \<^verbatim>\<open>None\<close>.\<close>

lemma range_next_measure:
  "range_next it = (Some p, it') \<Longrightarrow>
     unat (vpn0 (it_end it') - vpn0 (it_current it'))
       < unat (vpn0 (it_end it) - vpn0 (it_current it))"
proof -
  assume a: "range_next it = (Some p, it')"
  then have ne: "vpn0 (it_end it) - vpn0 (it_current it) \<noteq> 0"
    by (auto simp: range_next_def VirtPageNum.expand split: if_splits)
  from a have "vpn0 (it_end it') - vpn0 (it_current it')
      = vpn0 (it_end it) - vpn0 (it_current it) - 1"
    by (auto simp: range_next_def vpn_step_def split: if_splits)
  with ne show ?thesis by (simp add: unat_sub1 unat_gt_0)
qed

function range_collect :: "SimpleRangeIterator \<Rightarrow> VirtPageNum list" where
  "range_collect it =
     (case range_next it of (None, _) \<Rightarrow> [] | (Some p, it') \<Rightarrow> p # range_collect it')"
  by pat_completeness auto
termination
  by (relation "measure (\<lambda>it. unat (vpn0 (it_end it) - vpn0 (it_current it)))")
     (auto dest: range_next_measure [OF sym])

declare range_collect.simps [simp del]

definition range_vpns :: "VPNRange \<Rightarrow> VirtPageNum list" where
  "range_vpns r = range_collect (into_iter r)"

section \<open>Facts on addresses\<close>

lemma mask_word: "(v :: usize) AND (push_bit n 1 - 1) = take_bit n v"
  by (simp add: take_bit_eq_mask mask_eq_exp_minus_1)

lemma PhysPageNum_from_take_bit: "PhysPageNum_from v = PhysPageNum (take_bit 44 v)"
  unfolding PhysPageNum_from_def mask_word ..

lemma VirtAddr_from_take_bit: "VirtAddr_from v = VirtAddr (take_bit 39 v)"
  unfolding VirtAddr_from_def mask_word ..

lemma PhysAddr_from_take_bit: "PhysAddr_from v = PhysAddr (take_bit 56 v)"
  unfolding PhysAddr_from_def mask_word ..

lemma VirtPageNum_from_take_bit: "VirtPageNum_from v = VirtPageNum (take_bit 27 v)"
  unfolding VirtPageNum_from_def mask_word ..

lemma div_PAGE_SIZE: "v div PAGE_SIZE = drop_bit 12 v"
  by (simp add: PAGE_SIZE_def drop_bit_eq_div)

lemma and_PAGE_SIZE: "v AND (PAGE_SIZE - 1) = take_bit 12 v"
  using mask_word [of v 12] by (simp add: PAGE_SIZE_def)

lemma page_split: "(v :: usize) = push_bit 12 (drop_bit 12 v) + take_bit 12 v"
  by (metis bits_ident)

text \<open>The three indexes are the three groups of nine bits, the highest first.\<close>

lemma indexes_eq:
  "indexes p = [take_bit 9 (drop_bit 18 (vpn0 p)), take_bit 9 (drop_bit 9 (vpn0 p)),
                take_bit 9 (vpn0 p)]"
proof -
  have "v AND 511 = take_bit 9 v" for v :: usize
    using mask_word [of v 9] by simp
  then show ?thesis by (simp add: indexes_def numeral_2_eq_2)
qed

lemma take_bit_27_split:
  "take_bit 27 (v :: usize) = push_bit 18 (take_bit 9 (drop_bit 18 v))
     OR push_bit 9 (take_bit 9 (drop_bit 9 v)) OR take_bit 9 v"
proof (rule bit_word_eqI)
  fix n assume "n < LENGTH(64)"
  consider "n < 9" | "9 \<le> n" "n < 18" | "18 \<le> n" by linarith
  then show "bit (take_bit 27 v) n = bit (push_bit 18 (take_bit 9 (drop_bit 18 v))
     OR push_bit 9 (take_bit 9 (drop_bit 9 v)) OR take_bit 9 v) n"
    using \<open>n < LENGTH(64)\<close> by cases (auto simp: bit_simps)
qed

lemma take_bit_9_of_27:
  "take_bit 9 (v :: usize) = take_bit 9 (take_bit 27 v)"
  "take_bit 9 (drop_bit 9 (v :: usize)) = take_bit 9 (drop_bit 9 (take_bit 27 v))"
  "take_bit 9 (drop_bit 18 (v :: usize)) = take_bit 9 (drop_bit 18 (take_bit 27 v))"
  by (rule bit_word_eqI; auto simp: bit_simps)+

lemma indexes_length [simp]: "length (indexes p) = 3"
  by (simp add: indexes_eq)

lemma take_bit_9_less: "take_bit 9 (v :: usize) < 512"
  by (simp add: word_less_nat_alt unat_take_bit)

lemma indexes_less: "i \<in> set (indexes p) \<Longrightarrow> i < 512"
  by (auto simp: indexes_eq take_bit_9_less)

lemma indexes_eq_iff: "indexes p = indexes q \<longleftrightarrow> take_bit 27 (vpn0 p) = take_bit 27 (vpn0 q)"
proof
  assume "indexes p = indexes q"
  then show "take_bit 27 (vpn0 p) = take_bit 27 (vpn0 q)"
    by (simp add: indexes_eq take_bit_27_split)
next
  assume e: "take_bit 27 (vpn0 p) = take_bit 27 (vpn0 q)"
  show "indexes p = indexes q"
    unfolding indexes_eq take_bit_9_of_27 [of "vpn0 p"] take_bit_9_of_27 [of "vpn0 q"] e ..
qed

text \<open>A page range visits the page numbers from its start up to, and without, its end.\<close>

lemma range_collect_eq:
  assumes "it_current it \<le> it_end it"
  shows "range_collect it =
    map (\<lambda>n. VirtPageNum (of_nat n)) [unat (vpn0 (it_current it)) ..< unat (vpn0 (it_end it))]"
  using assms
proof (induction it rule: range_collect.induct)
  case (1 it)
  show ?case
  proof (cases "it_current it = it_end it")
    case True
    then show ?thesis by (simp add: range_collect.simps [of it] range_next_def)
  next
    case False
    let ?c = "vpn0 (it_current it)" and ?e = "vpn0 (it_end it)"
    define it' where "it' = it\<lparr>it_current := vpn_step (it_current it)\<rparr>"
    from False 1(2) have lt: "?c < ?e"
      by (auto simp: page_order_defs VirtPageNum.expand order.strict_iff_order)
    then have "?c \<noteq> - 1" by (metis word_n1_ge linorder_not_less)
    then have uc: "unat (?c + 1) = unat ?c + 1" by (rule unat_plus_one)
    have nx: "range_next it = (Some (it_current it), it')"
      using False by (simp add: range_next_def it'_def)
    have "it_current it' \<le> it_end it'"
      using lt uc by (simp add: it'_def vpn_step_def page_order_defs word_nat)
    from 1(1) [OF nx [symmetric] refl this]
    have "range_collect it' = map (\<lambda>n. VirtPageNum (of_nat n)) [unat ?c + 1 ..< unat ?e]"
      by (simp add: it'_def vpn_step_def uc)
    moreover have "[unat ?c ..< unat ?e] = unat ?c # [unat ?c + 1 ..< unat ?e]"
      using lt by (simp add: word_nat upt_conv_Cons)
    ultimately show ?thesis
      by (simp add: range_collect.simps [of it] nx)
  qed
qed

lemma range_vpns_eq:
  "range_l r \<le> range_r r \<Longrightarrow>
   range_vpns r = map (\<lambda>n. VirtPageNum (of_nat n)) [unat (vpn0 (range_l r)) ..< unat (vpn0 (range_r r))]"
  by (simp add: range_vpns_def range_collect_eq into_iter_def)

lemma VPNRange_new_eq_Ok [res_simps]:
  "(VPNRange_new l r = Ok rg) = (l \<le> r \<and> rg = \<lparr>range_l = l, range_r = r\<rparr>)"
  by (auto simp: VPNRange_new_def assert_that_def)

lemma VPNRange_new_Panic: "\<not> l \<le> r \<Longrightarrow> VPNRange_new l r = Panic AssertFailed"
  by (simp add: VPNRange_new_def)

lemma set_range_vpns:
  assumes "range_l r \<le> range_r r"
  shows "set (range_vpns r) = {p. range_l r \<le> p \<and> p < range_r r}" (is "?L = ?R")
proof -
  have "p \<in> ?L \<longleftrightarrow> p \<in> ?R" for p
  proof
    assume "p \<in> ?L"
    then obtain n where n: "p = VirtPageNum (of_nat n)" "unat (vpn0 (range_l r)) \<le> n"
      "n < unat (vpn0 (range_r r))"
      by (auto simp: range_vpns_eq [OF assms])
    have "n < 2 ^ 64" using n(3) unat_less_64 [of "vpn0 (range_r r)"] by simp
    then have "unat (of_nat n :: usize) = n" by (rule unat_of_nat_64)
    with n(2,3) show "p \<in> ?R" unfolding n(1) page_order_defs word_nat by simp
  next
    assume "p \<in> ?R"
    then have "unat (vpn0 p) \<in> set [unat (vpn0 (range_l r)) ..< unat (vpn0 (range_r r))]"
      by (simp add: page_order_defs word_nat)
    moreover have "p = (\<lambda>n. VirtPageNum (of_nat n)) (unat (vpn0 p))" by simp
    ultimately show "p \<in> ?L" unfolding range_vpns_eq [OF assms] set_map
      by (intro image_eqI)
  qed
  then show ?thesis by blast
qed

lemma range_vpns_distinct:
  assumes "range_l r \<le> range_r r"
  shows "distinct (range_vpns r)" and "sorted (range_vpns r)"
proof -
  let ?b = "unat (vpn0 (range_r r))"
  have b: "n < ?b \<Longrightarrow> n < 2 ^ 64" for n using unat_less_64 [of "vpn0 (range_r r)"] by simp
  have u: "n < ?b \<Longrightarrow> unat (of_nat n :: usize) = n" for n
    using b [of n] by (rule unat_of_nat_64)
  show "distinct (range_vpns r)"
    unfolding range_vpns_eq [OF assms] distinct_map
    by (intro conjI distinct_upt inj_onI) (metis VirtPageNum.inject atLeastLessThan_iff set_upt u)
  show "sorted (range_vpns r)"
    unfolding range_vpns_eq [OF assms]
    unfolding sorted_map page_order_defs word_nat
    by (intro sorted_wrt_mono_rel [OF _ sorted_upt]) (simp add: u)
qed

end
