(* ===== verification/Allocator.thy ===== *)
theory Allocator
  imports Prelude
begin

text \<open>
  The contract that the two recycling allocators of the kernel share: \<^verbatim>\<open>StackFrameAllocator\<close>
  (\<^verbatim>\<open>os/src/mm/frame_allocator.rs\<close>, physical frames) and \<^verbatim>\<open>PidAllocator\<close>
  (\<^verbatim>\<open>os/src/task/pid.rs\<close>, process identifiers). Both hand out numbers that are owned by a handle
  (\<^verbatim>\<open>FrameTracker\<close>, \<^verbatim>\<open>PidHandle\<close>) whose \<^verbatim>\<open>Drop\<close> gives the number back. The clients own a list of
  live handles; a request is an allocation or the drop of a live handle.
\<close>

datatype 'a request = Request_alloc | Request_drop 'a

text \<open>
  A client's run: an allocation that fails leaves the client as it was; only handles that are live
  are dropped, as Rust's ownership rules guarantee.
\<close>

fun serve :: "('s \<Rightarrow> ('a \<times> 's) option) \<Rightarrow> ('a \<Rightarrow> 's \<Rightarrow> 's res) \<Rightarrow>
    'a request \<Rightarrow> 's \<times> 'a list \<Rightarrow> ('s \<times> 'a list) res" where
  "serve alloc dealloc Request_alloc (s, live) =
     (case alloc s of None \<Rightarrow> Ok (s, live) | Some (x, s') \<Rightarrow> Ok (s', x # live))"
| "serve alloc dealloc (Request_drop x) (s, live) =
     (if x \<in> set live then bind_res (dealloc x s) (\<lambda>s'. Ok (s', remove1 x live))
      else Ok (s, live))"

definition serve_all :: "('s \<Rightarrow> ('a \<times> 's) option) \<Rightarrow> ('a \<Rightarrow> 's \<Rightarrow> 's res) \<Rightarrow>
    'a request list \<Rightarrow> 's \<times> 'a list \<Rightarrow> ('s \<times> 'a list) res" where
  "serve_all alloc dealloc = fold_res (serve alloc dealloc)"

locale allocator =
  fixes alloc :: "'s \<Rightarrow> ('a \<times> 's) option"
    and dealloc :: "'a \<Rightarrow> 's \<Rightarrow> 's res"
    and inv :: "'s \<Rightarrow> bool"
    and used :: "'s \<Rightarrow> 'a set"
    and pool :: "'s \<Rightarrow> 'a set"
  assumes alloc_Some: "\<lbrakk>inv s; alloc s = Some (x, s')\<rbrakk> \<Longrightarrow>
      inv s' \<and> x \<notin> used s \<and> used s' = insert x (used s) \<and> pool s' = pool s"
    and alloc_None: "\<lbrakk>inv s; alloc s = None\<rbrakk> \<Longrightarrow> used s = pool s"
    and dealloc_used: "\<lbrakk>inv s; x \<in> used s\<rbrakk> \<Longrightarrow>
      \<exists>s'. dealloc x s = Ok s' \<and> inv s' \<and> used s' = used s - {x} \<and> pool s' = pool s"
    and dealloc_twice: "\<lbrakk>inv s; dealloc x s = Ok s'\<rbrakk> \<Longrightarrow> \<exists>e. dealloc x s' = Panic e"
    and used_pool: "inv s \<Longrightarrow> used s \<subseteq> pool s"
begin

text \<open>What the client sees agrees with what the allocator holds: the live handles are distinct and
  are exactly the numbers in use.\<close>

definition agrees :: "'s \<times> 'a list \<Rightarrow> bool" where
  "agrees c = (inv (fst c) \<and> distinct (snd c) \<and> set (snd c) = used (fst c))"

lemma serve_agrees:
  assumes "agrees c"
  shows "\<exists>c'. serve alloc dealloc r c = Ok c' \<and> agrees c' \<and> pool (fst c') = pool (fst c)"
proof (cases c)
  case c: (Pair s live)
  with assms have a: "inv s" "distinct live" "set live = used s"
    by (auto simp: agrees_def)
  show ?thesis
  proof (cases r)
    case Request_alloc
    with c a show ?thesis
      by (cases "alloc s") (auto simp: agrees_def dest: alloc_Some)
  next
    case (Request_drop x)
    show ?thesis
    proof (cases "x \<in> set live")
      case True
      with a obtain s' where "dealloc x s = Ok s'" "inv s'" "used s' = used s - {x}"
        "pool s' = pool s"
        using dealloc_used by blast
      with c Request_drop True a show ?thesis by (auto simp: agrees_def)
    next
      case False
      with c Request_drop a show ?thesis by (auto simp: agrees_def)
    qed
  qed
qed

lemma serve_all_agrees:
  assumes "agrees c"
  shows "\<exists>c'. serve_all alloc dealloc rs c = Ok c' \<and> agrees c' \<and> pool (fst c') = pool (fst c)"
proof -
  let ?I = "\<lambda>_ :: 'a request list. \<lambda>c'. agrees c' \<and> pool (fst c') = pool (fst c)"
  have "\<exists>c'. fold_res (serve alloc dealloc) rs c = Ok c' \<and> ?I rs c'"
  proof (rule fold_res_total [where I = ?I])
    show "?I [] c" using assms by simp
    show "\<exists>c''. serve alloc dealloc r c' = Ok c'' \<and> ?I (ys @ [r]) c''"
      if "?I ys c'" for ys r zs c'
      using that serve_agrees [of c' r] by auto
  qed
  then show ?thesis by (simp add: serve_all_def)
qed

lemma alloc_while_free:
  assumes "agrees c" and "set (snd c) \<noteq> pool (fst c)"
  shows "alloc (fst c) \<noteq> None"
  using assms alloc_None [of "fst c"] by (auto simp: agrees_def simp del: not_None_eq)

end

end
