(* ===== verification/FrameAllocator.thy ===== *)
theory FrameAllocator
  imports Address Allocator
begin

text \<open>
  \<^verbatim>\<open>os/src/mm/frame_allocator.rs\<close>: the stack allocator of physical frames. \<open>FrameTracker\<close> is the
  page number it owns; its \<^verbatim>\<open>Drop\<close> is an explicit call of \<open>frame_dealloc\<close> in the clients. Zeroing a
  fresh frame (\<^verbatim>\<open>FrameTracker::new\<close>) is in \<^verbatim>\<open>PhysMem\<close>, with the rest of the memory accesses.
\<close>

record StackFrameAllocator =
  fa_current :: usize
  fa_end :: usize
  fa_recycled :: "usize list"

definition StackFrameAllocator_new :: StackFrameAllocator where
  "StackFrameAllocator_new = \<lparr>fa_current = 0, fa_end = 0, fa_recycled = []\<rparr>"

definition fa_init :: "StackFrameAllocator \<Rightarrow> PhysPageNum \<Rightarrow> PhysPageNum \<Rightarrow> StackFrameAllocator" where
  "fa_init a l r = a\<lparr>fa_current := ppn0 l, fa_end := ppn0 r\<rparr>"

text \<open>\<^verbatim>\<open>Vec::pop\<close> and \<^verbatim>\<open>Vec::push\<close> work at the end of the list.\<close>

definition fa_alloc :: "StackFrameAllocator \<Rightarrow> (PhysPageNum \<times> StackFrameAllocator) option" where
  "fa_alloc a =
     (if fa_recycled a \<noteq> [] then
        Some (PhysPageNum_from (last (fa_recycled a)),
              a\<lparr>fa_recycled := butlast (fa_recycled a)\<rparr>)
      else if fa_current a = fa_end a then None
      else let a' = a\<lparr>fa_current := fa_current a + 1\<rparr>
           in Some (PhysPageNum_from (fa_current a' - 1), a'))"

definition fa_dealloc :: "PhysPageNum \<Rightarrow> StackFrameAllocator \<Rightarrow> StackFrameAllocator res" where
  "fa_dealloc p a =
     (let ppn = ppn0 p in
      if ppn \<ge> fa_current a \<or> List.find (\<lambda>v. v = ppn) (fa_recycled a) \<noteq> None
      then Panic ExplicitPanic
      else Ok (a\<lparr>fa_recycled := fa_recycled a @ [ppn]\<rparr>))"

text \<open>\<^verbatim>\<open>init_frame_allocator\<close>; \<open>ekernel\<close> is the address of the linker's symbol.\<close>

definition init_frame_allocator :: "usize \<Rightarrow> StackFrameAllocator \<Rightarrow> StackFrameAllocator" where
  "init_frame_allocator ekernel a =
     fa_init a (pa_ceil (PhysAddr_from ekernel)) (pa_floor (PhysAddr_from MEMORY_END))"

section \<open>Invariant and abstract state\<close>

text \<open>
  For an allocator that was initialised with the frames from \<open>l\<close> on: the frames in use are those
  below \<open>current\<close> that are not recycled.
\<close>

definition fa_inv :: "usize \<Rightarrow> StackFrameAllocator \<Rightarrow> bool" where
  "fa_inv l a = (l \<le> fa_current a \<and> fa_current a \<le> fa_end a \<and> unat (fa_end a) \<le> 2 ^ 44 \<and>
     distinct (fa_recycled a) \<and> (\<forall>p \<in> set (fa_recycled a). l \<le> p \<and> p < fa_current a))"

definition fa_used :: "usize \<Rightarrow> StackFrameAllocator \<Rightarrow> PhysPageNum set" where
  "fa_used l a = {p. l \<le> ppn0 p \<and> ppn0 p < fa_current a \<and> ppn0 p \<notin> set (fa_recycled a)}"

definition fa_pool :: "usize \<Rightarrow> StackFrameAllocator \<Rightarrow> PhysPageNum set" where
  "fa_pool l a = {p. l \<le> ppn0 p \<and> ppn0 p < fa_end a}"

lemma PhysPageNum_from_small: "unat v < 2 ^ 44 \<Longrightarrow> PhysPageNum_from v = PhysPageNum v"
  by (simp add: PhysPageNum_from_take_bit word_unat_eq_iff unat_take_bit)

lemma find_eq_is_some [simp]: "(\<exists>y. List.find (\<lambda>v. v = x) xs = Some y) \<longleftrightarrow> x \<in> set xs"
  using find_None_iff [of "\<lambda>v. v = x" xs] by auto

lemma fa_inv_recycled_small:
  assumes "fa_inv l a" and "p \<in> set (fa_recycled a)"
  shows "unat p < 2 ^ 44"
proof -
  have "unat p < unat (fa_current a)" "unat (fa_current a) \<le> unat (fa_end a)"
    "unat (fa_end a) \<le> 2 ^ 44"
    using assms by (auto simp: fa_inv_def word_nat)
  then show ?thesis by linarith
qed

lemma fa_alloc_recycled:
  assumes "fa_inv l a" and "fa_recycled a = ps @ [p]"
  shows "fa_alloc a = Some (PhysPageNum p, a\<lparr>fa_recycled := ps\<rparr>)"
  using assms fa_inv_recycled_small [OF assms(1), of p]
  by (simp add: fa_alloc_def PhysPageNum_from_small)

lemma fa_alloc_fresh:
  assumes "fa_inv l a" and "fa_recycled a = []" and "fa_current a \<noteq> fa_end a"
  shows "fa_alloc a = Some (PhysPageNum (fa_current a), a\<lparr>fa_current := fa_current a + 1\<rparr>)"
    and "unat (fa_current a + 1) = unat (fa_current a) + 1"
proof -
  have lt: "fa_current a < fa_end a" using assms by (simp add: fa_inv_def order.strict_iff_order)
  then have "unat (fa_current a) < 2 ^ 44" using assms by (simp add: fa_inv_def word_nat)
  then show "fa_alloc a = Some (PhysPageNum (fa_current a), a\<lparr>fa_current := fa_current a + 1\<rparr>)"
    using assms by (simp add: fa_alloc_def PhysPageNum_from_small)
  from lt have "fa_current a \<noteq> - 1" by (metis word_n1_ge linorder_not_less)
  then show "unat (fa_current a + 1) = unat (fa_current a) + 1" by (rule unat_plus_one)
qed

lemma fa_alloc_cases:
  assumes "fa_inv l a" and "fa_alloc a = Some (p, a')"
  obtains (recycled) ps where "fa_recycled a = ps @ [ppn0 p]" "a' = a\<lparr>fa_recycled := ps\<rparr>"
  | (fresh) "fa_recycled a = []" "fa_current a < fa_end a" "ppn0 p = fa_current a"
      "a' = a\<lparr>fa_current := fa_current a + 1\<rparr>" "unat (fa_current a + 1) = unat (fa_current a) + 1"
proof (cases "fa_recycled a" rule: rev_cases)
  case Nil
  with assms(2) have ne: "fa_current a \<noteq> fa_end a" by (auto simp: fa_alloc_def)
  show thesis
    using fa_alloc_fresh [OF assms(1) Nil ne] assms Nil ne fresh
    by (auto simp: fa_inv_def order.strict_iff_order)
next
  case (snoc ps q)
  with fa_alloc_recycled [OF assms(1) snoc] assms(2) recycled show thesis by auto
qed

lemma fa_alloc_Some:
  assumes "fa_inv l a" and "fa_alloc a = Some (p, a')"
  shows "fa_inv l a' \<and> p \<notin> fa_used l a \<and> fa_used l a' = insert p (fa_used l a) \<and>
    fa_pool l a' = fa_pool l a"
proof (cases rule: fa_alloc_cases [OF assms])
  case (1 ps)
  with assms(1) show ?thesis
    by (auto simp: fa_inv_def fa_used_def fa_pool_def PhysPageNum.expand)
next
  case 2
  have lt: "q < fa_current a + 1 \<longleftrightarrow> q = fa_current a \<or> q < fa_current a" for q
    using 2(5) by (simp add: word_nat less_Suc_eq word_unat_eq_iff disj_commute)
  from 2 assms(1) have "fa_inv l a'" by (simp add: fa_inv_def word_nat)
  moreover have "fa_used l a' = insert p (fa_used l a)"
  proof (rule set_eqI)
    fix q
    have "q = p \<longleftrightarrow> ppn0 q = fa_current a" using 2(3) by (metis PhysPageNum.expand)
    moreover have "l \<le> fa_current a" using assms(1) by (simp add: fa_inv_def)
    ultimately show "q \<in> fa_used l a' \<longleftrightarrow> q \<in> insert p (fa_used l a)"
      using 2(1,4) by (auto simp: fa_used_def lt)
  qed
  ultimately show ?thesis using 2 by (simp add: fa_used_def fa_pool_def)
qed

lemma fa_alloc_None:
  assumes "fa_inv l a" and "fa_alloc a = None"
  shows "fa_used l a = fa_pool l a"
  using assms by (auto simp: fa_alloc_def fa_used_def fa_pool_def Let_def split: if_splits)

lemma fa_dealloc_eq_Ok:
  "fa_dealloc p a = Ok a' \<longleftrightarrow>
     ppn0 p < fa_current a \<and> ppn0 p \<notin> set (fa_recycled a) \<and>
     a' = a\<lparr>fa_recycled := fa_recycled a @ [ppn0 p]\<rparr>"
  by (auto simp: fa_dealloc_def Let_def not_le split: if_splits)

lemma fa_dealloc_used:
  assumes "fa_inv l a" and "p \<in> fa_used l a"
  shows "fa_dealloc p a = Ok (a\<lparr>fa_recycled := fa_recycled a @ [ppn0 p]\<rparr>)"
    and "fa_inv l (a\<lparr>fa_recycled := fa_recycled a @ [ppn0 p]\<rparr>)"
    and "fa_used l (a\<lparr>fa_recycled := fa_recycled a @ [ppn0 p]\<rparr>) = fa_used l a - {p}"
    and "fa_pool l (a\<lparr>fa_recycled := fa_recycled a @ [ppn0 p]\<rparr>) = fa_pool l a"
  using assms
  by (auto simp: fa_dealloc_eq_Ok fa_used_def fa_inv_def fa_pool_def PhysPageNum.expand)

interpretation frames: allocator fa_alloc fa_dealloc "fa_inv l" "fa_used l" "fa_pool l"
  for l :: usize
proof
  show "fa_inv l s' \<and> p \<notin> fa_used l s \<and> fa_used l s' = insert p (fa_used l s) \<and>
      fa_pool l s' = fa_pool l s"
    if "fa_inv l s" "fa_alloc s = Some (p, s')" for s p s'
    using fa_alloc_Some [OF that] by simp
  show "fa_used l s = fa_pool l s" if "fa_inv l s" "fa_alloc s = None" for s
    using fa_alloc_None [OF that] .
  show "\<exists>s'. fa_dealloc p s = Ok s' \<and> fa_inv l s' \<and> fa_used l s' = fa_used l s - {p} \<and>
      fa_pool l s' = fa_pool l s"
    if "fa_inv l s" "p \<in> fa_used l s" for s p
    using fa_dealloc_used [OF that] by blast
  show "\<exists>e. fa_dealloc p s' = Panic e" if "fa_inv l s" "fa_dealloc p s = Ok s'" for s p s'
    using that unfolding fa_dealloc_eq_Ok by (simp add: fa_dealloc_def)
  show "fa_used l s \<subseteq> fa_pool l s" if "fa_inv l s" for s
    using that by (auto simp: fa_used_def fa_pool_def fa_inv_def)
qed

end
