(* ===== verification/PhysMem.thy ===== *)
theory PhysMem
  imports FrameAllocator
begin

text \<open>
  Physical memory as the kernel sees it: it runs with physical memory mapped identically, so
  \<^verbatim>\<open>PhysPageNum::get_bytes_array\<close>, \<^verbatim>\<open>get_pte_array\<close> and \<^verbatim>\<open>get_mut\<close> (\<^verbatim>\<open>os/src/mm/address.rs\<close>) reach
  the bytes at a physical address. Memory is a function from addresses to bytes; a \<^verbatim>\<open>u64\<close> is eight
  bytes, the lowest first (RISC-V is little-endian). Page tables, trap contexts and user data share
  this memory, so writes through one view are seen through the others.
\<close>

type_synonym phys_mem = "usize \<Rightarrow> u8"

definition load_u64 :: "phys_mem \<Rightarrow> usize \<Rightarrow> u64" where
  "load_u64 m a =
     ucast (m a) OR push_bit 8 (ucast (m (a + 1))) OR push_bit 16 (ucast (m (a + 2))) OR
     push_bit 24 (ucast (m (a + 3))) OR push_bit 32 (ucast (m (a + 4))) OR
     push_bit 40 (ucast (m (a + 5))) OR push_bit 48 (ucast (m (a + 6))) OR
     push_bit 56 (ucast (m (a + 7)))"

definition store_u64 :: "phys_mem \<Rightarrow> usize \<Rightarrow> u64 \<Rightarrow> phys_mem" where
  "store_u64 m a v =
     (\<lambda>x. let k = unat (x - a) in if k < 8 then ucast (drop_bit (8 * k) v) else m x)"

definition store_bytes :: "phys_mem \<Rightarrow> usize \<Rightarrow> u8 list \<Rightarrow> phys_mem" where
  "store_bytes m a bs =
     (\<lambda>x. let k = unat (x - a) in if k < length bs then bs ! k else m x)"

definition load_bytes :: "phys_mem \<Rightarrow> usize \<Rightarrow> nat \<Rightarrow> u8 list" where
  "load_bytes m a n = map (\<lambda>k. m (a + of_nat k)) [0..<n]"

text \<open>The first byte of a page, and its 4096 bytes (\<^verbatim>\<open>get_bytes_array\<close>).\<close>

definition page_base :: "PhysPageNum \<Rightarrow> usize" where
  "page_base p = pa0 (PhysAddr_from_ppn p)"

definition get_bytes_array :: "phys_mem \<Rightarrow> PhysPageNum \<Rightarrow> u8 list" where
  "get_bytes_array m p = load_bytes m (page_base p) 4096"

text \<open>The state of the memory subsystem: memory and the global \<^verbatim>\<open>FRAME_ALLOCATOR\<close>.\<close>

record mm_state =
  mem :: phys_mem
  FRAME_ALLOCATOR :: StackFrameAllocator

text \<open>\<^verbatim>\<open>FrameTracker::new\<close> clears the frame it takes over.\<close>

definition FrameTracker_new :: "PhysPageNum \<Rightarrow> mm_state \<Rightarrow> mm_state" where
  "FrameTracker_new p s = s\<lparr>mem := store_bytes (mem s) (page_base p) (replicate 4096 0)\<rparr>"

definition frame_alloc :: "mm_state \<Rightarrow> PhysPageNum option \<times> mm_state" where
  "frame_alloc s =
     (case fa_alloc (FRAME_ALLOCATOR s) of
        None \<Rightarrow> (None, s)
      | Some (p, a) \<Rightarrow> (Some p, FrameTracker_new p (s\<lparr>FRAME_ALLOCATOR := a\<rparr>)))"

definition frame_dealloc :: "PhysPageNum \<Rightarrow> mm_state \<Rightarrow> mm_state res" where
  "frame_dealloc p s =
     bind_res (fa_dealloc p (FRAME_ALLOCATOR s)) (\<lambda>a. Ok (s\<lparr>FRAME_ALLOCATOR := a\<rparr>))"

text \<open>Dropping a \<^verbatim>\<open>Vec<FrameTracker>\<close>: its elements in order.\<close>

definition drop_frames :: "PhysPageNum list \<Rightarrow> mm_state \<Rightarrow> mm_state res" where
  "drop_frames ps = fold_res frame_dealloc ps"

section \<open>Loads and stores\<close>

lemma load_u64_cong:
  assumes "\<And>k. k < 8 \<Longrightarrow> m (a + of_nat k) = m' (a + of_nat k)"
  shows "load_u64 m a = load_u64 m' a"
  using assms [of 0] assms [of 1] assms [of 2] assms [of 3] assms [of 4] assms [of 5]
    assms [of 6] assms [of 7]
  by (simp add: load_u64_def)

lemma take_next_byte:
  "take_bit (k + 8) (v :: u64) = take_bit k v OR push_bit k (ucast (ucast (drop_bit k v) :: u8))"
  by (rule bit_word_eqI) (auto simp: bit_simps)

lemma bytes_of_u64:
  "ucast (ucast (v :: u64) :: u8) OR push_bit 8 (ucast (ucast (drop_bit 8 v) :: u8)) OR
     push_bit 16 (ucast (ucast (drop_bit 16 v) :: u8)) OR
     push_bit 24 (ucast (ucast (drop_bit 24 v) :: u8)) OR
     push_bit 32 (ucast (ucast (drop_bit 32 v) :: u8)) OR
     push_bit 40 (ucast (ucast (drop_bit 40 v) :: u8)) OR
     push_bit 48 (ucast (ucast (drop_bit 48 v) :: u8)) OR
     push_bit 56 (ucast (ucast (drop_bit 56 v) :: u8)) = v"
proof -
  have "take_bit 64 v = v" by (rule bit_word_eqI) (simp add: bit_simps)
  then show ?thesis
    using take_next_byte [of 0 v] take_next_byte [of 8 v] take_next_byte [of 16 v]
      take_next_byte [of 24 v] take_next_byte [of 32 v] take_next_byte [of 40 v]
      take_next_byte [of 48 v] take_next_byte [of 56 v]
    by (simp add: or.assoc)
qed

lemma load_store_u64 [simp]: "load_u64 (store_u64 m a v) a = v"
  unfolding load_u64_def store_u64_def Let_def
  by (simp add: bytes_of_u64)

lemma load_store_u64_other:
  assumes "\<And>k. k < 8 \<Longrightarrow> 8 \<le> unat (b + of_nat k - a)"
  shows "load_u64 (store_u64 m a v) b = load_u64 m b"
proof (rule load_u64_cong)
  fix k :: nat assume "k < 8"
  from assms [OF this] show "store_u64 m a v (b + of_nat k) = m (b + of_nat k)"
    by (simp add: store_u64_def Let_def)
qed

lemma length_load_bytes [simp]: "length (load_bytes m a n) = n"
  by (simp add: load_bytes_def)

section \<open>Pages\<close>

text \<open>The page numbers that SV39 can address: those every \<^verbatim>\<open>PhysPageNum::from\<close> gives.\<close>

definition ppn_ok :: "PhysPageNum \<Rightarrow> bool" where
  "ppn_ok p = (unat (ppn0 p) < 2 ^ 44)"

lemma ppn_ok_from [simp]: "ppn_ok (PhysPageNum_from v)"
  by (simp add: ppn_ok_def PhysPageNum_from_take_bit unat_take_bit)

lemma unat_page_base: "ppn_ok p \<Longrightarrow> unat (page_base p) = unat (ppn0 p) * 4096"
  by (simp add: ppn_ok_def page_base_def PhysAddr_from_ppn_def push_bit_eq_mult unat_word_ariths)

lemma unat_page_offset:
  assumes "ppn_ok p" and "n < 4096"
  shows "unat (page_base p + of_nat n) = unat (ppn0 p) * 4096 + n"
proof -
  have "unat (of_nat n :: usize) = n" using assms(2) by (intro unat_of_nat_64) simp
  moreover have "unat (ppn0 p) * 4096 + n < 2 ^ 64" using assms by (simp add: ppn_ok_def)
  ultimately show ?thesis using assms(1) by (simp add: unat_word_ariths unat_page_base)
qed

text \<open>The address \<open>x\<close> lies in page \<open>p\<close>.\<close>

definition in_page :: "PhysPageNum \<Rightarrow> usize \<Rightarrow> bool" where
  "in_page p x = (unat (x - page_base p) < 4096)"

lemma in_page_iff: "ppn_ok p \<Longrightarrow> in_page p x \<longleftrightarrow> unat x div 4096 = unat (ppn0 p)"
proof -
  assume p: "ppn_ok p"
  then have b: "unat (page_base p) = unat (ppn0 p) * 4096" "unat (ppn0 p) < 2 ^ 44"
    by (simp_all add: unat_page_base ppn_ok_def)
  have d: "unat (x - page_base p) =
    (if unat (page_base p) \<le> unat x then unat x - unat (page_base p)
     else unat x + 2 ^ 64 - unat (page_base p))"
    by (simp add: unat_sub_if')
  have "unat x < 2 ^ 64" by (rule unat_less_64)
  then show ?thesis unfolding in_page_def d b(1)
    using b(2) by (auto simp: div_nat_eqI not_le)
qed

lemma in_page_unique: "\<lbrakk>ppn_ok p; ppn_ok q; in_page p x; in_page q x\<rbrakk> \<Longrightarrow> p = q"
  by (metis in_page_iff word_unat_eq_iff PhysPageNum.expand)

lemma in_page_offset: "\<lbrakk>ppn_ok p; n < 4096\<rbrakk> \<Longrightarrow> in_page p (page_base p + of_nat n)"
  by (simp add: in_page_def unat_of_nat_64)

lemma FrameTracker_new_in_page: "in_page p x \<Longrightarrow> mem (FrameTracker_new p s) x = 0"
  by (simp add: FrameTracker_new_def store_bytes_def in_page_def Let_def)

lemma FrameTracker_new_other: "\<not> in_page p x \<Longrightarrow> mem (FrameTracker_new p s) x = mem s x"
  by (simp add: FrameTracker_new_def store_bytes_def in_page_def Let_def)

lemma FrameTracker_new_alloc [simp]:
  "FRAME_ALLOCATOR (FrameTracker_new p s) = FRAME_ALLOCATOR s"
  by (simp add: FrameTracker_new_def)

section \<open>Allocation of frames\<close>

text \<open>The invariant of the allocator, the frames in use and the free frames, on the whole state.\<close>

definition frames_inv :: "usize \<Rightarrow> mm_state \<Rightarrow> bool" where
  "frames_inv l s = fa_inv l (FRAME_ALLOCATOR s)"

definition frames_used :: "usize \<Rightarrow> mm_state \<Rightarrow> PhysPageNum set" where
  "frames_used l s = fa_used l (FRAME_ALLOCATOR s)"

lemma frames_mem_update [simp]:
  "frames_inv l (s\<lparr>mem := m\<rparr>) = frames_inv l s"
  "frames_used l (s\<lparr>mem := m\<rparr>) = frames_used l s"
  by (simp_all add: frames_inv_def frames_used_def)

lemma fa_used_ok: "fa_inv l a \<Longrightarrow> p \<in> fa_used l a \<Longrightarrow> ppn_ok p"
  by (auto simp: fa_inv_def fa_used_def ppn_ok_def word_nat)

lemma frames_used_ok: "\<lbrakk>frames_inv l s; p \<in> frames_used l s\<rbrakk> \<Longrightarrow> ppn_ok p"
  by (auto simp: frames_inv_def frames_used_def dest: fa_used_ok)

lemma frame_alloc_Some:
  assumes "frames_inv l s" and "frame_alloc s = (Some p, s')"
  shows "frames_inv l s'" and "p \<notin> frames_used l s"
    and "frames_used l s' = insert p (frames_used l s)" and "ppn_ok p"
    and "in_page p x \<Longrightarrow> mem s' x = 0" and "\<not> in_page p x \<Longrightarrow> mem s' x = mem s x"
proof -
  from assms(2) obtain a where a: "fa_alloc (FRAME_ALLOCATOR s) = Some (p, a)"
    "s' = FrameTracker_new p (s\<lparr>FRAME_ALLOCATOR := a\<rparr>)"
    by (auto simp: frame_alloc_def split: option.splits)
  note al = fa_alloc_Some [OF assms(1) [unfolded frames_inv_def] a(1)]
  show "frames_inv l s'" "p \<notin> frames_used l s"
    "frames_used l s' = insert p (frames_used l s)"
    using al a(2) by (simp_all add: frames_inv_def frames_used_def)
  then show "ppn_ok p" by (metis frames_used_ok insertI1)
  show "in_page p x \<Longrightarrow> mem s' x = 0" "\<not> in_page p x \<Longrightarrow> mem s' x = mem s x"
    using a(2) by (simp_all add: FrameTracker_new_in_page FrameTracker_new_other)
qed

lemma frame_alloc_None: "frame_alloc s = (None, s') \<Longrightarrow> s' = s"
  by (auto simp: frame_alloc_def split: option.splits)

lemma frame_dealloc_used:
  assumes "frames_inv l s" and "p \<in> frames_used l s"
  shows "\<exists>s'. frame_dealloc p s = Ok s' \<and> frames_inv l s' \<and>
    frames_used l s' = frames_used l s - {p} \<and> mem s' = mem s"
  using frames.dealloc_used [of l "FRAME_ALLOCATOR s" p] assms
  by (auto simp: frames_inv_def frames_used_def frame_dealloc_def)

definition frames_free :: "usize \<Rightarrow> mm_state \<Rightarrow> PhysPageNum set" where
  "frames_free l s = fa_pool l (FRAME_ALLOCATOR s) - fa_used l (FRAME_ALLOCATOR s)"

lemma frames_free_mem_update [simp]: "frames_free l (s\<lparr>mem := m\<rparr>) = frames_free l s"
  by (simp add: frames_free_def)

lemma finite_frames_free [simp]: "finite (frames_free l s)"
proof -
  have "fa_pool l (FRAME_ALLOCATOR s) \<subseteq> range PhysPageNum" by (auto intro: range_eqI [of _ _ "ppn0 _"])
  then show ?thesis unfolding frames_free_def by (meson finite_Diff finite_imageI finite_subset finite)
qed

text \<open>An allocation takes one free frame, and fails only when there is none.\<close>

lemma frame_alloc_free:
  assumes "frames_inv l s" and "frame_alloc s = (Some p, s')"
  shows "p \<in> frames_free l s" and "frames_free l s' = frames_free l s - {p}"
    and "card (frames_free l s') = card (frames_free l s) - 1"
proof -
  from assms(2) obtain a where a: "fa_alloc (FRAME_ALLOCATOR s) = Some (p, a)"
    "s' = FrameTracker_new p (s\<lparr>FRAME_ALLOCATOR := a\<rparr>)"
    by (auto simp: frame_alloc_def split: option.splits)
  note al = fa_alloc_Some [OF assms(1) [unfolded frames_inv_def] a(1)]
  have "fa_used l a \<subseteq> fa_pool l a" using al by (intro frames.used_pool) simp
  then show "p \<in> frames_free l s" using al by (auto simp: frames_free_def)
  moreover show "frames_free l s' = frames_free l s - {p}"
    using al a(2) by (auto simp: frames_free_def)
  ultimately show "card (frames_free l s') = card (frames_free l s) - 1" by simp
qed

lemma frame_alloc_total:
  assumes "frames_inv l s" and "frames_free l s \<noteq> {}"
  shows "\<exists>p s'. frame_alloc s = (Some p, s')"
proof (cases "fa_alloc (FRAME_ALLOCATOR s)")
  case None
  with assms(1) have "frames_free l s = {}"
    by (simp add: frames_free_def frames_inv_def fa_alloc_None)
  with assms(2) show ?thesis by simp
qed (auto simp: frame_alloc_def)

end
