(* ===== verification/PageTable.thy ===== *)
theory PageTable
  imports PhysMem
begin

text \<open>
  \<^verbatim>\<open>os/src/mm/page_table.rs\<close>, the page-table part: SV39 page-table entries, the three-level walk,
  creation of the intermediate tables, \<^verbatim>\<open>map\<close>, \<^verbatim>\<open>unmap\<close> and \<^verbatim>\<open>translate\<close>. A \<^verbatim>\<open>&mut PageTableEntry\<close>
  is the place of the entry in memory: the page of the table and the index in it.
\<close>

section \<open>Entries\<close>

type_synonym PTEFlags = u8

definition PTE_V :: PTEFlags where "PTE_V = push_bit 0 1"
definition PTE_R :: PTEFlags where "PTE_R = push_bit 1 1"
definition PTE_W :: PTEFlags where "PTE_W = push_bit 2 1"
definition PTE_X :: PTEFlags where "PTE_X = push_bit 3 1"
definition PTE_U :: PTEFlags where "PTE_U = push_bit 4 1"
definition PTE_G :: PTEFlags where "PTE_G = push_bit 5 1"
definition PTE_A :: PTEFlags where "PTE_A = push_bit 6 1"
definition PTE_D :: PTEFlags where "PTE_D = push_bit 7 1"

lemmas PTE_flag_defs = PTE_V_def PTE_R_def PTE_W_def PTE_X_def PTE_U_def PTE_G_def PTE_A_def
  PTE_D_def

text \<open>\<^verbatim>\<open>PTEFlags::from_bits\<close>: \<^verbatim>\<open>None\<close> when a bit outside the declared flags is set.\<close>

definition PTEFlags_from_bits :: "u8 \<Rightarrow> PTEFlags option" where
  "PTEFlags_from_bits b =
     (if b AND NOT (PTE_V OR PTE_R OR PTE_W OR PTE_X OR PTE_U OR PTE_G OR PTE_A OR PTE_D) = 0
      then Some b else None)"

datatype PageTableEntry = PageTableEntry (pte_bits: usize)

definition PTE_new :: "PhysPageNum \<Rightarrow> PTEFlags \<Rightarrow> PageTableEntry" where
  "PTE_new p flags = PageTableEntry (push_bit 10 (ppn0 p) OR ucast flags)"

definition PTE_empty :: PageTableEntry where
  "PTE_empty = PageTableEntry 0"

definition pte_ppn :: "PageTableEntry \<Rightarrow> PhysPageNum" where
  "pte_ppn e = PhysPageNum_from (drop_bit 10 (pte_bits e) AND (push_bit 44 1 - 1))"

text \<open>All eight bits are declared flags, so the \<^verbatim>\<open>unwrap\<close> in \<^verbatim>\<open>flags\<close> never panics
  (\<open>PTEFlags_from_bits_Some\<close>) and the \<open>None\<close> branch is not reached.\<close>

definition pte_flags :: "PageTableEntry \<Rightarrow> PTEFlags" where
  "pte_flags e = (case PTEFlags_from_bits (ucast (pte_bits e)) of Some f \<Rightarrow> f | None \<Rightarrow> 0)"

definition pte_is_valid :: "PageTableEntry \<Rightarrow> bool" where
  "pte_is_valid e = (pte_flags e AND PTE_V \<noteq> 0)"

definition pte_readable :: "PageTableEntry \<Rightarrow> bool" where
  "pte_readable e = (pte_flags e AND PTE_R \<noteq> 0)"

definition pte_writable :: "PageTableEntry \<Rightarrow> bool" where
  "pte_writable e = (pte_flags e AND PTE_W \<noteq> 0)"

definition pte_executable :: "PageTableEntry \<Rightarrow> bool" where
  "pte_executable e = (pte_flags e AND PTE_X \<noteq> 0)"

text \<open>\<^verbatim>\<open>PhysPageNum::get_pte_array\<close>: the 512 entries of a page. The indexes of \<^verbatim>\<open>indexes\<close> are below
  512, so no access is out of range.\<close>

definition pte_addr :: "PhysPageNum \<Rightarrow> usize \<Rightarrow> usize" where
  "pte_addr p i = page_base p + 8 * i"

definition get_pte :: "phys_mem \<Rightarrow> PhysPageNum \<Rightarrow> usize \<Rightarrow> PageTableEntry" where
  "get_pte m p i = PageTableEntry (load_u64 m (pte_addr p i))"

definition set_pte :: "phys_mem \<Rightarrow> PhysPageNum \<Rightarrow> usize \<Rightarrow> PageTableEntry \<Rightarrow> phys_mem" where
  "set_pte m p i e = store_u64 m (pte_addr p i) (pte_bits e)"

type_synonym pte_ref = "PhysPageNum \<times> usize"

section \<open>Tables\<close>

record PageTable =
  root_ppn :: PhysPageNum
  pt_frames :: "PhysPageNum list"

definition PageTable_new :: "mm_state \<Rightarrow> (PageTable \<times> mm_state) res" where
  "PageTable_new s =
     (case frame_alloc s of (f, s') \<Rightarrow>
        bind_res (unwrap f) (\<lambda>frame. Ok (\<lparr>root_ppn = frame, pt_frames = [frame]\<rparr>, s')))"

definition token :: "PageTable \<Rightarrow> usize" where
  "token pt = push_bit 60 8 OR ppn0 (root_ppn pt)"

definition from_token :: "usize \<Rightarrow> PageTable" where
  "from_token satp = \<lparr>root_ppn = PhysPageNum_from (satp AND (push_bit 44 1 - 1)), pt_frames = []\<rparr>"

text \<open>
  The loop of \<^verbatim>\<open>find_pte\<close> over \<^verbatim>\<open>i in 0..3\<close>: the list holds \<^verbatim>\<open>idxs[i..3]\<close>, and \<^verbatim>\<open>i == 2\<close> is the
  last element.
\<close>

fun find_pte_loop :: "phys_mem \<Rightarrow> PhysPageNum \<Rightarrow> usize list \<Rightarrow> pte_ref option" where
  "find_pte_loop m ppn [] = None"
| "find_pte_loop m ppn (i # is) =
     (if \<not> pte_is_valid (get_pte m ppn i) then None
      else if is = [] then Some (ppn, i)
      else find_pte_loop m (pte_ppn (get_pte m ppn i)) is)"

definition find_pte :: "PageTable \<Rightarrow> VirtPageNum \<Rightarrow> mm_state \<Rightarrow> pte_ref option" where
  "find_pte pt vpn s = find_pte_loop (mem s) (root_ppn pt) (indexes vpn)"

fun find_pte_create_loop ::
    "PhysPageNum \<Rightarrow> usize list \<Rightarrow> PageTable \<times> mm_state \<Rightarrow>
     (pte_ref option \<times> PageTable \<times> mm_state) res" where
  "find_pte_create_loop ppn [] (pt, s) = Ok (None, pt, s)"
| "find_pte_create_loop ppn (i # is) (pt, s) =
     (if is = [] then Ok (Some (ppn, i), pt, s)
      else if \<not> pte_is_valid (get_pte (mem s) ppn i) then
        (case frame_alloc s of (f, s1) \<Rightarrow>
           bind_res (unwrap f) (\<lambda>frame.
             let s2 = s1\<lparr>mem := set_pte (mem s1) ppn i (PTE_new frame PTE_V)\<rparr>;
                 pt2 = pt\<lparr>pt_frames := pt_frames pt @ [frame]\<rparr>
             in find_pte_create_loop (pte_ppn (get_pte (mem s2) ppn i)) is (pt2, s2)))
      else find_pte_create_loop (pte_ppn (get_pte (mem s) ppn i)) is (pt, s))"

definition find_pte_create ::
    "VirtPageNum \<Rightarrow> PageTable \<times> mm_state \<Rightarrow> (pte_ref option \<times> PageTable \<times> mm_state) res" where
  "find_pte_create vpn c = find_pte_create_loop (root_ppn (fst c)) (indexes vpn) c"

definition translate :: "PageTable \<Rightarrow> VirtPageNum \<Rightarrow> mm_state \<Rightarrow> PageTableEntry option" where
  "translate pt vpn s = map_option (\<lambda>(p, i). get_pte (mem s) p i) (find_pte pt vpn s)"

definition translate_va :: "PageTable \<Rightarrow> VirtAddr \<Rightarrow> mm_state \<Rightarrow> PhysAddr option" where
  "translate_va pt va s =
     map_option (\<lambda>(p, i).
       let aligned_pa = PhysAddr_from_ppn (pte_ppn (get_pte (mem s) p i));
           offset = va_page_offset va
       in PhysAddr_from (pa0 aligned_pa + offset)) (find_pte pt (va_floor va) s)"

definition pt_map ::
    "VirtPageNum \<Rightarrow> PhysPageNum \<Rightarrow> PTEFlags \<Rightarrow> PageTable \<times> mm_state \<Rightarrow> (PageTable \<times> mm_state) res" where
  "pt_map vpn ppn flags c =
     bind_res (find_pte_create vpn c) (\<lambda>(r, pt, s).
     bind_res (unwrap r) (\<lambda>(p, i).
     bind_res (assert_that (\<not> pte_is_valid (get_pte (mem s) p i))) (\<lambda>_.
     Ok (pt, s\<lparr>mem := set_pte (mem s) p i (PTE_new ppn (flags OR PTE_V))\<rparr>))))"

definition pt_unmap :: "VirtPageNum \<Rightarrow> PageTable \<times> mm_state \<Rightarrow> (PageTable \<times> mm_state) res" where
  "pt_unmap vpn c = (case c of (pt, s) \<Rightarrow>
     bind_res (unwrap (find_pte pt vpn s)) (\<lambda>(p, i).
     bind_res (assert_that (pte_is_valid (get_pte (mem s) p i))) (\<lambda>_.
     Ok (pt, s\<lparr>mem := set_pte (mem s) p i PTE_empty\<rparr>))))"

section \<open>Entries in memory\<close>

lemma PTEFlags_from_bits_Some [simp]: "PTEFlags_from_bits b = Some b"
proof -
  have "PTE_V OR PTE_R OR PTE_W OR PTE_X OR PTE_U OR PTE_G OR PTE_A OR PTE_D = - 1"
    by (simp add: PTE_flag_defs)
  then show ?thesis by (simp add: PTEFlags_from_bits_def)
qed

lemma pte_flags_eq: "pte_flags e = ucast (pte_bits e)"
  by (simp add: pte_flags_def)

lemma pte_is_valid_bit: "pte_is_valid e \<longleftrightarrow> bit (pte_bits e) 0"
  unfolding pte_is_valid_def PTE_V_def bit_iff_and_push_bit_not_eq_0 [symmetric] pte_flags_eq
  by (simp add: bit_simps)

lemma pte_new_flags [simp]: "pte_flags (PTE_new p f) = f"
  unfolding pte_flags_eq PTE_new_def by (rule bit_word_eqI) (auto simp: bit_simps)

lemma pte_new_ppn [simp]: "ppn_ok p \<Longrightarrow> pte_ppn (PTE_new p f) = p"
proof -
  assume p: "ppn_ok p"
  have b: "\<not> bit (ppn0 p) n" if "44 \<le> n" for n
  proof -
    have "take_bit 44 (ppn0 p) = ppn0 p"
      using p by (simp add: ppn_ok_def word_unat_eq_iff unat_take_bit)
    with that show ?thesis by (metis bit_take_bit_iff not_le)
  qed
  have "take_bit 44 (take_bit 44 (drop_bit 10 (push_bit 10 (ppn0 p) OR ucast f))) = ppn0 p"
  proof (rule bit_word_eqI)
    fix n assume "n < LENGTH(64)"
    then show "bit (take_bit 44 (take_bit 44 (drop_bit 10 (push_bit 10 (ppn0 p) OR ucast f)))) n
        = bit (ppn0 p) n"
      using b [of n] by (cases "n < 44") (auto simp: bit_simps dest: bit_imp_le_length)
  qed
  then show ?thesis
    unfolding pte_ppn_def PTE_new_def PhysPageNum_from_take_bit mask_word
    by (metis PhysPageNum.collapse PageTableEntry.sel)
qed

lemma pte_new_valid [simp]: "pte_is_valid (PTE_new p (f OR PTE_V))" "pte_is_valid (PTE_new p PTE_V)"
  unfolding pte_is_valid_def PTE_V_def bit_iff_and_push_bit_not_eq_0 [symmetric] pte_new_flags
  by (simp_all add: bit_simps)

lemma pte_empty_invalid [simp]: "\<not> pte_is_valid PTE_empty" "\<not> pte_is_valid (PageTableEntry 0)"
  by (simp_all add: pte_is_valid_bit PTE_empty_def)

lemma ppn_ok_pte_ppn [simp]: "ppn_ok (pte_ppn e)"
  by (simp add: pte_ppn_def)

lemma unat_pte_addr:
  assumes "ppn_ok p" and "i < 512" and "k < 8"
  shows "unat (pte_addr p i + of_nat k) = unat (ppn0 p) * 4096 + 8 * unat i + k"
proof -
  have i: "unat i < 512" using assms(2) by (simp add: word_nat)
  have "8 * i + of_nat k = of_nat (8 * unat i + k)" by simp
  then have "pte_addr p i + of_nat k = page_base p + of_nat (8 * unat i + k)"
    by (simp add: pte_addr_def add.assoc)
  moreover have "8 * unat i + k < 4096" using i assms(3) by linarith
  ultimately show ?thesis using unat_page_offset [OF assms(1)] by (metis add.assoc)
qed

lemma pte_addr_in_page:
  assumes "ppn_ok p" and "i < 512" and "k < 8"
  shows "in_page p (pte_addr p i + of_nat k)"
  using assms by (simp add: in_page_iff unat_pte_addr word_nat div_nat_eqI)

lemma slots_apart:
  fixes P Q I J k :: nat
  assumes "P \<noteq> Q \<or> I \<noteq> J" "I < 512" "J < 512" "k < 8"
  shows "P * 4096 + 8 * I \<le> Q * 4096 + 8 * J + k \<Longrightarrow>
    P * 4096 + 8 * I + 8 \<le> Q * 4096 + 8 * J + k"
proof -
  assume le: "P * 4096 + 8 * I \<le> Q * 4096 + 8 * J + k"
  have "(P * 512 + I) div 512 = P" "(P * 512 + I) mod 512 = I"
    "(Q * 512 + J) div 512 = Q" "(Q * 512 + J) mod 512 = J"
    using assms(2,3) by simp_all
  with assms(1) have ne: "P * 512 + I \<noteq> Q * 512 + J" by metis
  have "x < y" if "x \<noteq> y" "8 * x \<le> 8 * y + k" for x y :: nat
    using that assms(4) by presburger
  from this [OF ne] le have "P * 512 + I < Q * 512 + J" by simp
  then show ?thesis by linarith
qed

lemma pte_addr_disjoint:
  assumes "ppn_ok p" "ppn_ok q" "i < 512" "j < 512" "(p, i) \<noteq> (q, j)" "k < 8"
  shows "8 \<le> unat (pte_addr q j + of_nat k - pte_addr p i)"
proof -
  have a: "unat (pte_addr p i) = unat (ppn0 p) * 4096 + 8 * unat i"
    using unat_pte_addr [OF assms(1,3), of 0] by simp
  note b = unat_pte_addr [OF assms(2,4,6)]
  have bnd: "unat (ppn0 p) < 2 ^ 44" "unat i < 512" "unat j < 512"
    using assms by (simp_all add: ppn_ok_def word_nat)
  have ne: "unat (ppn0 p) \<noteq> unat (ppn0 q) \<or> unat i \<noteq> unat j"
    using assms(5) by (metis PhysPageNum.expand word_unat_eq_iff)
  show ?thesis
  proof (cases "unat (pte_addr p i) \<le> unat (pte_addr q j + of_nat k)")
    case True
    with slots_apart [OF ne bnd(2,3) assms(6)] show ?thesis
      unfolding unat_sub_if' a b by auto
  next
    case False
    then show ?thesis unfolding unat_sub_if' a b using bnd by auto
  qed
qed

lemma get_set_pte [simp]: "get_pte (set_pte m p i e) p i = e"
  by (simp add: get_pte_def set_pte_def)

lemma get_set_pte_other:
  assumes "ppn_ok p" "ppn_ok q" "i < 512" "j < 512" "(p, i) \<noteq> (q, j)"
  shows "get_pte (set_pte m p i e) q j = get_pte m q j"
  unfolding get_pte_def set_pte_def
  by (intro arg_cong [of _ _ PageTableEntry] load_store_u64_other pte_addr_disjoint assms)

lemma set_pte_outside:
  assumes "ppn_ok p" "i < 512" "\<not> in_page p x"
  shows "set_pte m p i e x = m x"
proof -
  have "\<not> unat (x - pte_addr p i) < 8"
  proof
    assume k: "unat (x - pte_addr p i) < 8"
    have "x = pte_addr p i + of_nat (unat (x - pte_addr p i))" by simp
    with pte_addr_in_page [OF assms(1,2) k] assms(3) show False by simp
  qed
  then show ?thesis by (simp add: set_pte_def store_u64_def Let_def)
qed

lemma get_pte_cong:
  assumes "\<And>x. in_page p x \<Longrightarrow> m x = m' x" and "ppn_ok p" and "i < 512"
  shows "get_pte m p i = get_pte m' p i"
  unfolding get_pte_def
  by (intro arg_cong [of _ _ PageTableEntry] load_u64_cong assms(1) pte_addr_in_page assms(2,3))

text \<open>A fresh frame is an empty table, and taking it changes no other table.\<close>

lemma frame_alloc_get_pte:
  assumes "frames_inv l s" and "frame_alloc s = (Some p, s')" and "i < 512"
  shows "get_pte (mem s') p i = PageTableEntry 0"
    and "ppn_ok q \<Longrightarrow> q \<noteq> p \<Longrightarrow> get_pte (mem s') q i = get_pte (mem s) q i"
proof -
  note al = frame_alloc_Some [OF assms(1,2)]
  have z: "get_pte (mem s') p i = get_pte (\<lambda>_. 0) p i"
    using al(4,5) assms(3) by (intro get_pte_cong) auto
  show "get_pte (mem s') p i = PageTableEntry 0"
    unfolding z by (simp add: get_pte_def load_u64_def)
  show "get_pte (mem s') q i = get_pte (mem s) q i" if "ppn_ok q" "q \<noteq> p"
    using al(4,6) assms(3) that by (intro get_pte_cong) (auto dest: in_page_unique)
qed

section \<open>The tree of tables\<close>

text \<open>
  \<open>node m r \<pi>\<close> is the table that the entries at the indexes \<open>\<pi>\<close> lead to from \<open>r\<close>. A well-formed page
  table is a tree: the tables reached by paths of length at most two are different for different
  paths, and all of them are frames the page table owns. Without this, writing one entry could
  change the translation of an unrelated page.
\<close>

definition follow :: "phys_mem \<Rightarrow> PhysPageNum \<Rightarrow> usize \<Rightarrow> PhysPageNum option" where
  "follow m p i = (if pte_is_valid (get_pte m p i) then Some (pte_ppn (get_pte m p i)) else None)"

fun node :: "phys_mem \<Rightarrow> PhysPageNum \<Rightarrow> usize list \<Rightarrow> PhysPageNum option" where
  "node m p [] = Some p"
| "node m p (i # is) = Option.bind (follow m p i) (\<lambda>q. node m q is)"

definition leaf :: "phys_mem \<Rightarrow> PhysPageNum \<Rightarrow> usize list \<Rightarrow> usize \<Rightarrow> PageTableEntry option" where
  "leaf m r \<pi> k = Option.bind (node m r \<pi>)
     (\<lambda>p. if pte_is_valid (get_pte m p k) then Some (get_pte m p k) else None)"

definition table_path :: "usize list \<Rightarrow> bool" where
  "table_path \<pi> = (length \<pi> \<le> 2 \<and> (\<forall>i \<in> set \<pi>. i < 512))"

definition pt_tree :: "phys_mem \<Rightarrow> PhysPageNum \<Rightarrow> PhysPageNum set \<Rightarrow> bool" where
  "pt_tree m r F =
     ((\<forall>\<pi> p. table_path \<pi> \<longrightarrow> node m r \<pi> = Some p \<longrightarrow> p \<in> F) \<and>
      (\<forall>\<pi> \<rho> p. table_path \<pi> \<longrightarrow> table_path \<rho> \<longrightarrow> node m r \<pi> = Some p \<longrightarrow> node m r \<rho> = Some p \<longrightarrow>
         \<pi> = \<rho>))"

lemma node_append: "node m r (\<pi> @ \<rho>) = Option.bind (node m r \<pi>) (\<lambda>p. node m p \<rho>)"
  by (induction \<pi> arbitrary: r) (auto simp: bind_eq_None_conv split: Option.bind_splits)

lemma node_snoc: "node m r (\<pi> @ [i]) = Option.bind (node m r \<pi>) (\<lambda>p. follow m p i)"
  by (simp add: node_append)

lemma table_path_snoc:
  "table_path (\<pi> @ [i]) \<longleftrightarrow> length \<pi> \<le> 1 \<and> (\<forall>i \<in> set \<pi>. i < 512) \<and> i < 512"
  by (auto simp: table_path_def)

lemma table_path_butlast: "table_path (\<pi> @ [i]) \<Longrightarrow> table_path \<pi>"
  by (auto simp: table_path_def)

lemma pt_tree_mem: "\<lbrakk>pt_tree m r F; table_path \<pi>; node m r \<pi> = Some p\<rbrakk> \<Longrightarrow> p \<in> F"
  by (auto simp: pt_tree_def)

lemma pt_tree_inj:
  "\<lbrakk>pt_tree m r F; table_path \<pi>; table_path \<rho>; node m r \<pi> = Some p; node m r \<rho> = Some p\<rbrakk> \<Longrightarrow> \<pi> = \<rho>"
  by (auto simp: pt_tree_def)

text \<open>Linking a fresh, empty table at an invalid entry adds one node to the tree.\<close>

lemma node_create:
  assumes tree: "pt_tree m r F" and at: "node m r \<pi> = Some p" "table_path (\<pi> @ [i])"
    and inv: "\<not> pte_is_valid (get_pte m p i)"
    and new: "follow m2 p i = Some f" "\<And>j. j < 512 \<Longrightarrow> follow m2 f j = None" "f \<notin> F"
    and old: "\<And>q j. q \<in> F \<Longrightarrow> j < 512 \<Longrightarrow> (q, j) \<noteq> (p, i) \<Longrightarrow> get_pte m2 q j = get_pte m q j"
    and \<rho>: "table_path \<rho>"
  shows "node m2 r \<rho> = (if \<rho> = \<pi> @ [i] then Some f else node m r \<rho>)"
  using \<rho>
proof (induction \<rho> rule: rev_induct)
  case Nil
  then show ?case by simp
next
  case (snoc j \<rho>)
  then have \<rho>: "table_path \<rho>" and j: "j < 512" and len: "length \<rho> \<le> 1"
    by (auto simp: table_path_def)
  have none: "node m r (\<pi> @ [i]) = None" using at inv by (simp add: node_snoc follow_def)
  show ?case
  proof (cases "\<rho> = \<pi> @ [i]")
    case True
    then show ?thesis
      using snoc.IH [OF \<rho>] new(2) [OF j] none unfolding True node_snoc [of _ _ "\<pi> @ [i]"] by simp
  next
    case False
    with snoc.IH [OF \<rho>] have eq: "node m2 r \<rho> = node m r \<rho>" by simp
    show ?thesis
    proof (cases "node m r \<rho>")
      case None
      with eq at show ?thesis by (auto simp: node_snoc)
    next
      case (Some q)
      then have q: "q \<in> F" using tree \<rho> by (blast dest: pt_tree_mem)
      show ?thesis
      proof (cases "(q, j) = (p, i)")
        case True
        then have "\<rho> = \<pi>"
          using pt_tree_inj [OF tree \<rho> table_path_butlast [OF at(2)]] at(1) Some by simp
        with True at eq new Some show ?thesis by (simp add: node_snoc)
      next
        case ne: False
        then have "\<rho> @ [j] \<noteq> \<pi> @ [i]" using Some at by auto
        with eq Some old [OF q j ne] show ?thesis by (auto simp: node_snoc follow_def)
      qed
    qed
  qed
qed

text \<open>Writing an entry of a last-level table changes no node.\<close>

lemma node_set_leaf:
  assumes tree: "pt_tree m r F" and at: "node m r \<pi> = Some p" "table_path \<pi>" "length \<pi> = 2"
    and old: "\<And>q j. q \<in> F \<Longrightarrow> j < 512 \<Longrightarrow> q \<noteq> p \<Longrightarrow> get_pte m2 q j = get_pte m q j"
    and \<rho>: "table_path \<rho>"
  shows "node m2 r \<rho> = node m r \<rho>"
  using \<rho>
proof (induction \<rho> rule: rev_induct)
  case Nil
  then show ?case by simp
next
  case (snoc j \<rho>)
  then have \<rho>: "table_path \<rho>" and j: "j < 512" and len: "length \<rho> \<le> 1"
    by (auto simp: table_path_def)
  show ?case
  proof (cases "node m r \<rho>")
    case None
    with snoc.IH [OF \<rho>] show ?thesis by (simp add: node_snoc)
  next
    case (Some q)
    have "q \<noteq> p" using pt_tree_inj [OF tree \<rho> at(2) Some] at(1,3) len by auto
    moreover have "q \<in> F" using tree \<rho> Some by (blast dest: pt_tree_mem)
    ultimately show ?thesis using snoc.IH [OF \<rho>] Some old [of q j] j
      by (simp add: node_snoc follow_def)
  qed
qed

lemma pt_tree_create:
  assumes "pt_tree m r F" and "f \<notin> F"
    and "\<And>\<rho>. table_path \<rho> \<Longrightarrow> node m2 r \<rho> = (if \<rho> = \<pi> then Some f else node m r \<rho>)"
  shows "pt_tree m2 r (insert f F)"
  using assms unfolding pt_tree_def by (smt (verit) insert_iff option.inject)

lemma pt_tree_cong:
  assumes "pt_tree m r F" and "\<And>\<rho>. table_path \<rho> \<Longrightarrow> node m2 r \<rho> = node m r \<rho>"
  shows "pt_tree m2 r F"
  using assms unfolding pt_tree_def by simp

text \<open>The walk of the code, through nodes and leaves.\<close>

lemma find_pte_loop_eq:
  "find_pte_loop m r (\<pi> @ [k]) =
     Option.bind (node m r \<pi>) (\<lambda>p. if pte_is_valid (get_pte m p k) then Some (p, k) else None)"
  by (induction \<pi> arbitrary: r) (auto simp: follow_def)

definition vpn_path :: "VirtPageNum \<Rightarrow> usize list" where
  "vpn_path vpn = take 2 (indexes vpn)"

definition vpn_slot :: "VirtPageNum \<Rightarrow> usize" where
  "vpn_slot vpn = indexes vpn ! 2"

lemma indexes_split: "indexes vpn = vpn_path vpn @ [vpn_slot vpn]"
  by (simp add: vpn_path_def vpn_slot_def indexes_eq numeral_2_eq_2)

lemma length_vpn_path [simp]: "length (vpn_path vpn) = 2"
  by (simp add: vpn_path_def)

lemma vpn_path_props [simp]: "table_path (vpn_path vpn)" "vpn_slot vpn < 512"
  using indexes_less [of _ vpn] unfolding table_path_def by (auto simp: indexes_split)

lemma vpn_path_slot_eq_iff:
  "vpn_path v = vpn_path w \<and> vpn_slot v = vpn_slot w \<longleftrightarrow>
     take_bit 27 (vpn0 v) = take_bit 27 (vpn0 w)"
  using indexes_eq_iff [of v w] by (auto simp: indexes_split)

lemma find_pte_eq:
  "find_pte pt vpn s = Option.bind (node (mem s) (root_ppn pt) (vpn_path vpn))
     (\<lambda>p. if pte_is_valid (get_pte (mem s) p (vpn_slot vpn)) then Some (p, vpn_slot vpn) else None)"
  by (simp add: find_pte_def indexes_split find_pte_loop_eq)

lemma translate_eq_leaf:
  "translate pt vpn s = leaf (mem s) (root_ppn pt) (vpn_path vpn) (vpn_slot vpn)"
  by (auto simp: translate_def find_pte_eq leaf_def split: Option.bind_splits)

section \<open>Invariant and extension\<close>

text \<open>
  The invariant of a page table in a state of the memory subsystem whose allocator started at
  frame \<open>l\<close>: the tables form a tree in frames that the page table owns and that are in use.
\<close>

definition pt_inv :: "usize \<Rightarrow> PageTable \<times> mm_state \<Rightarrow> bool" where
  "pt_inv l c = (case c of (pt, s) \<Rightarrow>
     frames_inv l s \<and> distinct (pt_frames pt) \<and> set (pt_frames pt) \<subseteq> frames_used l s \<and>
     pt_tree (mem s) (root_ppn pt) (set (pt_frames pt)))"

text \<open>
  \<open>pt_ext l c c'\<close>: from \<open>c\<close> to \<open>c'\<close> the page table only took fresh frames for itself and wrote only
  into frames it owns; no other page of memory changed.
\<close>

definition pt_ext :: "usize \<Rightarrow> PageTable \<times> mm_state \<Rightarrow> PageTable \<times> mm_state \<Rightarrow> bool" where
  "pt_ext l c c' = (case c of (pt, s) \<Rightarrow> case c' of (pt', s') \<Rightarrow>
     root_ppn pt' = root_ppn pt \<and>
     (\<exists>new. pt_frames pt' = pt_frames pt @ new \<and> set new \<inter> frames_used l s = {} \<and>
        frames_used l s' = frames_used l s \<union> set new) \<and>
     (\<forall>x. (\<forall>p \<in> set (pt_frames pt'). \<not> in_page p x) \<longrightarrow> mem s' x = mem s x))"

definition same_leaves :: "PageTable \<times> mm_state \<Rightarrow> PageTable \<times> mm_state \<Rightarrow> bool" where
  "same_leaves c c' = (case c of (pt, s) \<Rightarrow> case c' of (pt', s') \<Rightarrow>
     \<forall>\<pi> k. table_path \<pi> \<longrightarrow> length \<pi> = 2 \<longrightarrow> k < 512 \<longrightarrow>
       leaf (mem s') (root_ppn pt') \<pi> k = leaf (mem s) (root_ppn pt) \<pi> k)"

lemma pt_ext_refl [simp]: "pt_ext l c c"
  by (auto simp: pt_ext_def split: prod.splits)

lemma same_leaves_refl [simp]: "same_leaves c c"
  by (auto simp: same_leaves_def split: prod.splits)

lemma same_leaves_trans: "\<lbrakk>same_leaves a b; same_leaves b c\<rbrakk> \<Longrightarrow> same_leaves a c"
  by (auto simp: same_leaves_def split: prod.splits)

lemma pt_ext_trans:
  assumes "pt_ext l a b" and "pt_ext l b c"
  shows "pt_ext l a c"
proof -
  obtain pa sa pb sb pc sc where abc: "a = (pa, sa)" "b = (pb, sb)" "c = (pc, sc)"
    by (metis prod.exhaust)
  from assms abc obtain n1 n2 where
    n1: "pt_frames pb = pt_frames pa @ n1" "set n1 \<inter> frames_used l sa = {}"
      "frames_used l sb = frames_used l sa \<union> set n1" and
    n2: "pt_frames pc = pt_frames pb @ n2" "set n2 \<inter> frames_used l sb = {}"
      "frames_used l sc = frames_used l sb \<union> set n2"
    by (auto simp: pt_ext_def)
  have "pt_frames pc = pt_frames pa @ (n1 @ n2) \<and> set (n1 @ n2) \<inter> frames_used l sa = {} \<and>
      frames_used l sc = frames_used l sa \<union> set (n1 @ n2)"
    using n1 n2 by auto
  moreover have "mem sc x = mem sa x" if "\<forall>p \<in> set (pt_frames pc). \<not> in_page p x" for x
  proof -
    have "\<forall>p \<in> set (pt_frames pb). \<not> in_page p x" using that n2(1) by auto
    with that assms abc show ?thesis by (simp add: pt_ext_def)
  qed
  moreover have "root_ppn pc = root_ppn pa" using assms abc by (simp add: pt_ext_def)
  ultimately show ?thesis unfolding abc pt_ext_def prod.case by blast
qed

lemma pt_inv_frames_ok: "\<lbrakk>pt_inv l (pt, s); p \<in> set (pt_frames pt)\<rbrakk> \<Longrightarrow> ppn_ok p"
  by (auto simp: pt_inv_def dest: frames_used_ok)

lemma pt_inv_node:
  "\<lbrakk>pt_inv l (pt, s); node (mem s) (root_ppn pt) \<pi> = Some p; table_path \<pi>\<rbrakk> \<Longrightarrow>
     p \<in> set (pt_frames pt) \<and> ppn_ok p"
  by (auto simp: pt_inv_def dest!: pt_tree_mem dest: frames_used_ok)

text \<open>One round of the loop of \<^verbatim>\<open>find_pte_create\<close> that has to create a table.\<close>

lemma create_table:
  assumes inv: "pt_inv l (pt, s)"
    and at: "node (mem s) (root_ppn pt) \<pi> = Some p" "table_path (\<pi> @ [i])"
    and invalid: "\<not> pte_is_valid (get_pte (mem s) p i)"
    and al: "frame_alloc s = (Some f, s1)"
    and s2: "s2 = s1\<lparr>mem := set_pte (mem s1) p i (PTE_new f PTE_V)\<rparr>"
    and pt2: "pt2 = pt\<lparr>pt_frames := pt_frames pt @ [f]\<rparr>"
  shows "pt_inv l (pt2, s2)" and "pt_ext l (pt, s) (pt2, s2)"
    and "same_leaves (pt, s) (pt2, s2)" and "node (mem s2) (root_ppn pt2) (\<pi> @ [i]) = Some f"
    and "pte_ppn (get_pte (mem s2) p i) = f"
proof -
  let ?F = "set (pt_frames pt)" and ?r = "root_ppn pt"
  from inv have fi: "frames_inv l s" and tree: "pt_tree (mem s) ?r ?F"
    and own: "?F \<subseteq> frames_used l s" and dist: "distinct (pt_frames pt)"
    by (auto simp: pt_inv_def)
  note fr = frame_alloc_Some [OF fi al]
  have p: "p \<in> ?F" "ppn_ok p"
    using pt_inv_node [OF inv at(1) table_path_butlast [OF at(2)]] by auto
  have fF: "f \<notin> ?F" using fr(2) own by blast
  have i: "i < 512" using at(2) by (simp add: table_path_snoc)
  have old: "get_pte (mem s2) q j = get_pte (mem s) q j"
    if "q \<in> ?F" "j < 512" "(q, j) \<noteq> (p, i)" for q j
  proof -
    have q: "ppn_ok q" "q \<noteq> f" using that pt_inv_frames_ok [OF inv] fF by auto
    have "get_pte (mem s2) q j = get_pte (mem s1) q j"
      using q that p i by (auto simp: s2 intro: get_set_pte_other)
    with frame_alloc_get_pte(2) [OF fi al that(2) q] show ?thesis by simp
  qed
  have new: "\<not> pte_is_valid (get_pte (mem s2) f j)" if "j < 512" for j
  proof -
    have "get_pte (mem s2) f j = get_pte (mem s1) f j"
      using fF p i that fr(4) by (auto simp: s2 intro: get_set_pte_other)
    with frame_alloc_get_pte(1) [OF fi al that] show ?thesis by simp
  qed
  have at2: "get_pte (mem s2) p i = PTE_new f PTE_V" by (simp add: s2)
  then show "pte_ppn (get_pte (mem s2) p i) = f" using fr(4) by simp
  have nodes: "node (mem s2) ?r \<rho> = (if \<rho> = \<pi> @ [i] then Some f else node (mem s) ?r \<rho>)"
    if "table_path \<rho>" for \<rho>
    by (rule node_create [OF tree at invalid _ _ fF old that])
       (use at2 new fr(4) in \<open>simp_all add: follow_def\<close>)
  then show "node (mem s2) (root_ppn pt2) (\<pi> @ [i]) = Some f" using at(2) by (simp add: pt2)
  show "pt_inv l (pt2, s2)"
    using fr fF dist own pt_tree_create [OF tree fF nodes]
    by (auto simp: pt_inv_def s2 pt2)
  have "mem s2 x = mem s x" if "\<not> in_page f x" "\<not> in_page p x" for x
    using that fr(6) p i by (simp add: s2 set_pte_outside)
  then show "pt_ext l (pt, s) (pt2, s2)"
    using p fr(2,3) by (auto simp: pt_ext_def pt2 s2 intro!: exI [of _ "[f]"])
  show "same_leaves (pt, s) (pt2, s2)"
    unfolding same_leaves_def prod.case
  proof (intro allI impI)
    fix \<rho> k assume \<rho>: "table_path \<rho>" "length \<rho> = 2" "k < (512 :: usize)"
    show "leaf (mem s2) (root_ppn pt2) \<rho> k = leaf (mem s) ?r \<rho> k"
    proof (cases "\<rho> = \<pi> @ [i]")
      case True
      then have "node (mem s) ?r \<rho> = None" using at invalid by (simp add: node_snoc follow_def)
      with nodes [OF \<rho>(1)] True new [OF \<rho>(3)] show ?thesis by (simp add: leaf_def pt2)
    next
      case False
      have "get_pte (mem s2) q k = get_pte (mem s) q k" if q: "node (mem s) ?r \<rho> = Some q" for q
      proof (rule old)
        show "q \<in> ?F" using pt_tree_mem [OF tree \<rho>(1) q] .
        have "q \<noteq> p"
        proof
          assume "q = p"
          then have "\<rho> = \<pi>"
            using pt_tree_inj [OF tree \<rho>(1) table_path_butlast [OF at(2)] q] at(1) by simp
          with \<rho>(2) at(2) show False by (simp add: table_path_snoc)
        qed
        then show "(q, k) \<noteq> (p, i)" by simp
      qed (rule \<rho>(3))
      with nodes [OF \<rho>(1)] False show ?thesis
        by (auto simp: leaf_def pt2 split: Option.bind_splits)
    qed
  qed
qed

section \<open>Operations\<close>

lemma find_pte_create_loop_spec:
  assumes "pt_inv l (pt, s)" and "node (mem s) (root_ppn pt) \<pi> = Some p"
    and "length \<pi> + length is = 3" and "is \<noteq> []" and "\<forall>i \<in> set (\<pi> @ is). i < 512"
    and "find_pte_create_loop p is (pt, s) = Ok (r, pt', s')"
  shows "pt_inv l (pt', s') \<and> pt_ext l (pt, s) (pt', s') \<and> same_leaves (pt, s) (pt', s') \<and>
    (\<exists>q. r = Some (q, last is) \<and> node (mem s') (root_ppn pt') (\<pi> @ butlast is) = Some q)"
  using assms
proof (induction "is" arbitrary: \<pi> p pt s)
  case Nil
  then show ?case by simp
next
  case (Cons i "is")
  show ?case
  proof (cases "is = []")
    case True
    with Cons.prems show ?thesis by auto
  next
    case ne: False
    with Cons.prems(3,5) have tp: "table_path (\<pi> @ [i])"
      by (cases "is") (auto simp: table_path_snoc)
    have len: "length (\<pi> @ [i]) + length is = 3" and idx: "\<forall>i \<in> set ((\<pi> @ [i]) @ is). i < 512"
      using Cons.prems(3,5) by auto
    show ?thesis
    proof (cases "pte_is_valid (get_pte (mem s) p i)")
      case True
      then have "node (mem s) (root_ppn pt) (\<pi> @ [i]) = Some (pte_ppn (get_pte (mem s) p i))"
        using Cons.prems(2) by (simp add: node_snoc follow_def)
      from Cons.IH [OF Cons.prems(1) this len ne idx] Cons.prems(6) True ne
      show ?thesis by fastforce
    next
      case False
      with Cons.prems(6) ne obtain f s1 where al: "frame_alloc s = (Some f, s1)"
        by (auto simp: res_simps split: prod.splits)
      define s2 where "s2 = s1\<lparr>mem := set_pte (mem s1) p i (PTE_new f PTE_V)\<rparr>"
      define pt2 where "pt2 = pt\<lparr>pt_frames := pt_frames pt @ [f]\<rparr>"
      note ct = create_table [OF Cons.prems(1,2) tp False al s2_def pt2_def]
      from Cons.prems(6) ne False al have "find_pte_create_loop f is (pt2, s2) = Ok (r, pt', s')"
        using ct(5) by (simp add: Let_def s2_def pt2_def)
      from Cons.IH [OF ct(1,4) len ne idx this] ct(2,3) ne show ?thesis
        by (auto intro: pt_ext_trans same_leaves_trans)
    qed
  qed
qed

lemma find_pte_create_spec:
  assumes "pt_inv l (pt, s)" and "find_pte_create vpn (pt, s) = Ok (r, pt', s')"
  shows "pt_inv l (pt', s')" and "pt_ext l (pt, s) (pt', s')" and "same_leaves (pt, s) (pt', s')"
    and "\<exists>q. r = Some (q, vpn_slot vpn) \<and>
      node (mem s') (root_ppn pt') (vpn_path vpn) = Some q"
proof -
  have "find_pte_create_loop (root_ppn pt) (indexes vpn) (pt, s) = Ok (r, pt', s')"
    using assms(2) by (simp add: find_pte_create_def)
  from find_pte_create_loop_spec [OF assms(1), of "[]", OF _ _ _ _ this]
  have "pt_inv l (pt', s') \<and> pt_ext l (pt, s) (pt', s') \<and> same_leaves (pt, s) (pt', s') \<and>
    (\<exists>q. r = Some (q, last (indexes vpn)) \<and>
      node (mem s') (root_ppn pt') (butlast (indexes vpn)) = Some q)"
    using indexes_less [of _ vpn] by (auto simp: indexes_split)
  then show "pt_inv l (pt', s')" "pt_ext l (pt, s) (pt', s')" "same_leaves (pt, s) (pt', s')"
    "\<exists>q. r = Some (q, vpn_slot vpn) \<and> node (mem s') (root_ppn pt') (vpn_path vpn) = Some q"
    by (auto simp: indexes_split)
qed

text \<open>Writing one last-level entry.\<close>

lemma set_leaf:
  assumes inv: "pt_inv l (pt, s)"
    and at: "node (mem s) (root_ppn pt) \<pi> = Some p" "table_path \<pi>" "length \<pi> = 2" "k < 512"
    and s2: "s2 = s\<lparr>mem := set_pte (mem s) p k e\<rparr>"
  shows "pt_inv l (pt, s2)" and "pt_ext l (pt, s) (pt, s2)"
    and "\<lbrakk>table_path \<rho>; length \<rho> = 2; j < 512\<rbrakk> \<Longrightarrow>
      leaf (mem s2) (root_ppn pt) \<rho> j =
        (if (\<rho>, j) = (\<pi>, k) then (if pte_is_valid e then Some e else None)
         else leaf (mem s) (root_ppn pt) \<rho> j)"
proof -
  let ?F = "set (pt_frames pt)" and ?r = "root_ppn pt"
  from inv have tree: "pt_tree (mem s) ?r ?F" by (simp add: pt_inv_def)
  have p: "p \<in> ?F" "ppn_ok p" using pt_inv_node [OF inv at(1,2)] by auto
  have old: "get_pte (mem s2) q j = get_pte (mem s) q j"
    if "q \<in> ?F" "j < 512" "(q, j) \<noteq> (p, k)" for q j
    using that p at(4) pt_inv_frames_ok [OF inv] by (auto simp: s2 intro: get_set_pte_other)
  have nodes: "node (mem s2) ?r \<rho> = node (mem s) ?r \<rho>" if "table_path \<rho>" for \<rho>
    by (rule node_set_leaf [OF tree at(1,2,3) _ that]) (auto intro: old)
  show "pt_inv l (pt, s2)"
    using inv pt_tree_cong [OF tree nodes] by (auto simp: pt_inv_def s2)
  show "pt_ext l (pt, s) (pt, s2)"
    using p at(4) by (auto simp: pt_ext_def s2 set_pte_outside)
  show "leaf (mem s2) ?r \<rho> j =
      (if (\<rho>, j) = (\<pi>, k) then (if pte_is_valid e then Some e else None) else leaf (mem s) ?r \<rho> j)"
    if \<rho>: "table_path \<rho>" "length \<rho> = 2" "j < 512"
  proof (cases "(\<rho>, j) = (\<pi>, k)")
    case True
    with nodes [OF \<rho>(1)] at(1) show ?thesis by (simp add: leaf_def s2)
  next
    case False
    have "get_pte (mem s2) q j = get_pte (mem s) q j" if q: "node (mem s) ?r \<rho> = Some q" for q
    proof (rule old)
      show "q \<in> ?F" using pt_tree_mem [OF tree \<rho>(1) q] .
      show "(q, j) \<noteq> (p, k)" using pt_tree_inj [OF tree \<rho>(1) at(2) q] at(1) False by auto
    qed (rule \<rho>(3))
    with nodes [OF \<rho>(1)] False show ?thesis by (auto simp: leaf_def split: Option.bind_splits)
  qed
qed

text \<open>Two page numbers that agree on the 27 bits that SV39 translates.\<close>

definition same_page :: "VirtPageNum \<Rightarrow> VirtPageNum \<Rightarrow> bool" where
  "same_page v w = (take_bit 27 (vpn0 v) = take_bit 27 (vpn0 w))"

lemma same_page_refl [simp]: "same_page v v"
  by (simp add: same_page_def)

lemma same_page_iff: "same_page v w \<longleftrightarrow> (vpn_path v, vpn_slot v) = (vpn_path w, vpn_slot w)"
  by (simp add: same_page_def vpn_path_slot_eq_iff)

lemma pt_map_spec:
  assumes "pt_inv l (pt, s)" and "pt_map vpn ppn flags (pt, s) = Ok (pt', s')"
  shows "pt_inv l (pt', s')" and "pt_ext l (pt, s) (pt', s')" and "translate pt vpn s = None"
    and "translate pt' v s' =
      (if same_page v vpn then Some (PTE_new ppn (flags OR PTE_V)) else translate pt v s)"
proof -
  from assms(2) obtain r pt1 s1 p i where
    create: "find_pte_create vpn (pt, s) = Ok (r, pt1, s1)" and r: "r = Some (p, i)" and
    invalid: "\<not> pte_is_valid (get_pte (mem s1) p i)" and
    res: "pt' = pt1" "s' = s1\<lparr>mem := set_pte (mem s1) p i (PTE_new ppn (flags OR PTE_V))\<rparr>"
    by (auto simp: pt_map_def res_simps split: prod.splits)
  note fc = find_pte_create_spec [OF assms(1) create]
  from fc(4) r have at: "node (mem s1) (root_ppn pt1) (vpn_path vpn) = Some p" "i = vpn_slot vpn"
    by auto
  note sl = set_leaf [OF fc(1) at(1) vpn_path_props(1) length_vpn_path vpn_path_props(2)
      res(2) [unfolded at(2)]]
  show "pt_inv l (pt', s')" using sl(1) by (simp add: res(1))
  show "pt_ext l (pt, s) (pt', s')" using pt_ext_trans [OF fc(2) sl(2)] by (simp add: res(1))
  have leaves: "leaf (mem s1) (root_ppn pt1) (vpn_path v) (vpn_slot v) = translate pt v s" for v
    using fc(3) by (simp add: same_leaves_def translate_eq_leaf)
  show "translate pt vpn s = None"
    using leaves [of vpn] at invalid by (simp add: leaf_def)
  show "translate pt' v s' =
      (if same_page v vpn then Some (PTE_new ppn (flags OR PTE_V)) else translate pt v s)"
    unfolding res(1) translate_eq_leaf [of pt1] same_page_iff
    by (subst sl(3)) (simp_all add: leaves)
qed

lemma pt_unmap_spec:
  assumes "pt_inv l (pt, s)" and "pt_unmap vpn (pt, s) = Ok (pt', s')"
  shows "pt_inv l (pt', s')" and "pt_ext l (pt, s) (pt', s')" and "pt' = pt"
    and "FRAME_ALLOCATOR s' = FRAME_ALLOCATOR s"
    and "translate pt' v s' = (if same_page v vpn then None else translate pt v s)"
proof -
  from assms(2) obtain p i where find: "find_pte pt vpn s = Some (p, i)" and
    res: "pt' = pt" "s' = s\<lparr>mem := set_pte (mem s) p i PTE_empty\<rparr>"
    by (auto simp: pt_unmap_def res_simps split: prod.splits)
  from find have at: "node (mem s) (root_ppn pt) (vpn_path vpn) = Some p" "i = vpn_slot vpn"
    by (auto simp: find_pte_eq split: Option.bind_splits if_splits)
  note sl = set_leaf [OF assms(1) at(1) vpn_path_props(1) length_vpn_path vpn_path_props(2)
      res(2) [unfolded at(2)]]
  show "pt_inv l (pt', s')" "pt_ext l (pt, s) (pt', s')" "pt' = pt" using sl(1,2) res(1) by simp_all
  show "FRAME_ALLOCATOR s' = FRAME_ALLOCATOR s" by (simp add: res(2))
  show "translate pt' v s' = (if same_page v vpn then None else translate pt v s)"
    unfolding translate_eq_leaf res(1) same_page_iff
    by (subst sl(3)) simp_all
qed

lemma pt_unmap_total:
  assumes "translate pt vpn s \<noteq> None"
  shows "\<exists>s'. pt_unmap vpn (pt, s) = Ok (pt, s')"
  using assms
  by (auto simp: pt_unmap_def translate_def find_pte_eq split: Option.bind_splits if_splits)

lemma pt_unmap_unmapped:
  assumes "translate pt vpn s = None"
  shows "pt_unmap vpn (pt, s) = Panic UnwrapNone"
  using assms by (auto simp: pt_unmap_def translate_def)

text \<open>When \<^verbatim>\<open>map\<close> returns, and when it panics.\<close>

lemma find_pte_create_loop_existing:
  "node (mem s) r \<pi> = Some p \<Longrightarrow>
     find_pte_create_loop r (\<pi> @ [k]) (pt, s) = Ok (Some (p, k), pt, s)"
  by (induction \<pi> arbitrary: r) (auto simp: follow_def split: Option.bind_splits if_splits)

lemma pt_map_mapped:
  assumes "translate pt vpn s \<noteq> None"
  shows "pt_map vpn ppn flags (pt, s) = Panic AssertFailed"
proof -
  from assms obtain p where p: "node (mem s) (root_ppn pt) (vpn_path vpn) = Some p"
    "pte_is_valid (get_pte (mem s) p (vpn_slot vpn))"
    by (auto simp: translate_eq_leaf leaf_def split: Option.bind_splits if_splits)
  then show ?thesis
    by (simp add: pt_map_def find_pte_create_def indexes_split find_pte_create_loop_existing)
qed

lemma find_pte_create_loop_total:
  assumes "pt_inv l (pt, s)" and "node (mem s) (root_ppn pt) \<pi> = Some p"
    and "length \<pi> + length is = 3" and "is \<noteq> []" and "\<forall>i \<in> set (\<pi> @ is). i < 512"
    and "length is \<le> Suc (card (frames_free l s))"
  shows "\<exists>r pt' s'. find_pte_create_loop p is (pt, s) = Ok (r, pt', s') \<and>
    card (frames_free l s) < card (frames_free l s') + length is"
  using assms
proof (induction "is" arbitrary: \<pi> p pt s)
  case Nil
  then show ?case by simp
next
  case (Cons i "is")
  show ?case
  proof (cases "is = []")
    case True
    with Cons.prems show ?thesis by auto
  next
    case ne: False
    with Cons.prems(3,5) have tp: "table_path (\<pi> @ [i])"
      by (cases "is") (auto simp: table_path_snoc)
    have len: "length (\<pi> @ [i]) + length is = 3" and idx: "\<forall>i \<in> set ((\<pi> @ [i]) @ is). i < 512"
      using Cons.prems(3,5) by auto
    show ?thesis
    proof (cases "pte_is_valid (get_pte (mem s) p i)")
      case True
      then have "node (mem s) (root_ppn pt) (\<pi> @ [i]) = Some (pte_ppn (get_pte (mem s) p i))"
        using Cons.prems(2) by (simp add: node_snoc follow_def)
      from Cons.IH [OF Cons.prems(1) this len ne idx] Cons.prems(6) True ne
      show ?thesis by fastforce
    next
      case False
      have fi: "frames_inv l s" using Cons.prems(1) by (simp add: pt_inv_def)
      have "frames_free l s \<noteq> {}" using Cons.prems(6) ne by (cases "is") auto
      from frame_alloc_total [OF fi this] obtain f s1 where al: "frame_alloc s = (Some f, s1)"
        by blast
      define s2 where "s2 = s1\<lparr>mem := set_pte (mem s1) p i (PTE_new f PTE_V)\<rparr>"
      define pt2 where "pt2 = pt\<lparr>pt_frames := pt_frames pt @ [f]\<rparr>"
      note ct = create_table [OF Cons.prems(1,2) tp False al s2_def pt2_def]
      have free: "card (frames_free l s2) = card (frames_free l s) - 1"
        using frame_alloc_free(3) [OF fi al] by (simp add: s2_def)
      then have "length is \<le> Suc (card (frames_free l s2))" using Cons.prems(6) by simp
      from Cons.IH [OF ct(1,4) len ne idx this] obtain r pt' s' where
        "find_pte_create_loop f is (pt2, s2) = Ok (r, pt', s')"
        "card (frames_free l s2) < card (frames_free l s') + length is" by blast
      with free ne False al ct(5) show ?thesis by (simp add: Let_def s2_def pt2_def)
    qed
  qed
qed

lemma pt_map_total:
  assumes "pt_inv l (pt, s)" and "translate pt vpn s = None" and "2 \<le> card (frames_free l s)"
  shows "\<exists>pt' s'. pt_map vpn ppn flags (pt, s) = Ok (pt', s') \<and>
    card (frames_free l s) \<le> card (frames_free l s') + 2"
proof -
  have "\<exists>r pt' s'. find_pte_create_loop (root_ppn pt) (indexes vpn) (pt, s) = Ok (r, pt', s') \<and>
      card (frames_free l s) < card (frames_free l s') + length (indexes vpn)"
    by (rule find_pte_create_loop_total [OF assms(1), of "[]"])
       (use assms(3) indexes_less [of _ vpn] in \<open>auto simp: indexes_split\<close>)
  then obtain r pt' s' where c: "find_pte_create vpn (pt, s) = Ok (r, pt', s')" and
    free: "card (frames_free l s) \<le> card (frames_free l s') + 2"
    by (auto simp: find_pte_create_def)
  note fc = find_pte_create_spec [OF assms(1) c]
  from fc(4) obtain q where q: "r = Some (q, vpn_slot vpn)"
    "node (mem s') (root_ppn pt') (vpn_path vpn) = Some q" by blast
  have "leaf (mem s') (root_ppn pt') (vpn_path vpn) (vpn_slot vpn) = None"
    using fc(3) assms(2) by (simp add: same_leaves_def translate_eq_leaf)
  then have "\<not> pte_is_valid (get_pte (mem s') q (vpn_slot vpn))"
    using q(2) by (auto simp: leaf_def split: if_splits)
  with c q(1) free show ?thesis by (simp add: pt_map_def)
qed

text \<open>A new page table: an empty tree.\<close>

lemma PageTable_new_spec:
  assumes "frames_inv l s" and "PageTable_new s = Ok (pt, s')"
  shows "pt_inv l (pt, s')" and "translate pt vpn s' = None"
    and "frames_used l s' = insert (root_ppn pt) (frames_used l s)"
    and "root_ppn pt \<notin> frames_used l s" and "pt_frames pt = [root_ppn pt]"
proof -
  from assms(2) obtain f where al: "frame_alloc s = (Some f, s')" and
    pt: "pt = \<lparr>root_ppn = f, pt_frames = [f]\<rparr>"
    by (auto simp: PageTable_new_def res_simps split: prod.splits)
  note fr = frame_alloc_Some [OF assms(1) al]
  have empty: "follow (mem s') f i = None" if "i < 512" for i
    using frame_alloc_get_pte(1) [OF assms(1) al that] by (simp add: follow_def)
  have node: "node (mem s') f \<pi> = (if \<pi> = [] then Some f else None)" if "table_path \<pi>" for \<pi>
    using that empty by (cases \<pi>) (auto simp: table_path_def)
  then show "pt_inv l (pt, s')"
    using fr by (auto simp: pt_inv_def pt pt_tree_def split: if_splits)
  have "vpn_path vpn \<noteq> []" by (metis length_vpn_path list.size(3) zero_neq_numeral)
  then show "translate pt vpn s' = None"
    using node [OF vpn_path_props(1)] by (simp add: translate_eq_leaf leaf_def pt)
  show "frames_used l s' = insert (root_ppn pt) (frames_used l s)"
    "root_ppn pt \<notin> frames_used l s" "pt_frames pt = [root_ppn pt]"
    using fr pt by simp_all
qed

lemma from_token_root: "ppn_ok (root_ppn pt) \<Longrightarrow> root_ppn (from_token (token pt)) = root_ppn pt"
proof -
  assume "ppn_ok (root_ppn pt)"
  then have t: "take_bit 44 (ppn0 (root_ppn pt)) = ppn0 (root_ppn pt)"
    by (simp add: ppn_ok_def word_unat_eq_iff unat_take_bit)
  have "take_bit 44 (push_bit 60 8 :: usize) = 0" by simp
  with t show ?thesis
    unfolding from_token_def token_def mask_word PhysPageNum_from_take_bit by simp
qed

text \<open>What a page table translates depends only on the memory of its own frames.\<close>

lemma node_mem_cong:
  assumes "pt_inv l (pt, s)" and "table_path \<pi>"
    and "\<And>p x. p \<in> set (pt_frames pt) \<Longrightarrow> in_page p x \<Longrightarrow> m x = mem s x"
  shows "node m (root_ppn pt) \<pi> = node (mem s) (root_ppn pt) \<pi>"
  using assms(2)
proof (induction \<pi> rule: rev_induct)
  case Nil
  then show ?case by simp
next
  case (snoc i \<pi>)
  then have \<pi>: "table_path \<pi>" "i < 512" by (auto simp: table_path_def)
  have "get_pte m p i = get_pte (mem s) p i" if "node (mem s) (root_ppn pt) \<pi> = Some p" for p
    using pt_inv_node [OF assms(1) that \<pi>(1)] \<pi>(2) by (auto intro: get_pte_cong assms(3))
  with snoc.IH [OF \<pi>(1)] show ?case
    by (auto simp: node_snoc follow_def split: Option.bind_splits)
qed

lemma translate_mem_cong:
  assumes "pt_inv l (pt, s)"
    and "\<And>p x. p \<in> set (pt_frames pt) \<Longrightarrow> in_page p x \<Longrightarrow> mem s' x = mem s x"
  shows "translate pt v s' = translate pt v s"
proof -
  have "node (mem s') (root_ppn pt) (vpn_path v) = node (mem s) (root_ppn pt) (vpn_path v)"
    by (rule node_mem_cong [OF assms(1) vpn_path_props(1)]) (rule assms(2))
  moreover have "get_pte (mem s') p (vpn_slot v) = get_pte (mem s) p (vpn_slot v)"
    if "node (mem s) (root_ppn pt) (vpn_path v) = Some p" for p
    using pt_inv_node [OF assms(1) that vpn_path_props(1)] by (auto intro: get_pte_cong assms(2))
  ultimately show ?thesis
    by (auto simp: translate_eq_leaf leaf_def split: Option.bind_splits)
qed

lemma pt_inv_mem_cong:
  assumes "pt_inv l (pt, s)" and "frames_inv l s'" and "set (pt_frames pt) \<subseteq> frames_used l s'"
    and "\<And>p x. p \<in> set (pt_frames pt) \<Longrightarrow> in_page p x \<Longrightarrow> mem s' x = mem s x"
  shows "pt_inv l (pt, s')"
proof -
  have "pt_tree (mem s') (root_ppn pt) (set (pt_frames pt))"
    by (rule pt_tree_cong [of "mem s"])
       (use assms(1) in \<open>auto simp: pt_inv_def intro: node_mem_cong [OF assms(1) _ assms(4)]\<close>)
  with assms(1-3) show ?thesis by (auto simp: pt_inv_def)
qed

lemma translate_same_page: "same_page v w \<Longrightarrow> translate pt v s = translate pt w s"
  by (simp add: translate_eq_leaf same_page_iff)

end
