(* ===== verification/MemorySet.thy ===== *)
theory MemorySet
  imports PageTable "HOL-Library.Multiset"
begin

text \<open>
  \<^verbatim>\<open>os/src/mm/memory_set.rs\<close>: map areas (ranges of virtual pages with the frames that back them) and
  memory sets (a page table with its areas), with the operations behind \<^verbatim>\<open>mmap\<close>, \<^verbatim>\<open>munmap\<close>,
  \<^verbatim>\<open>fork\<close>, \<^verbatim>\<open>exec\<close> and the kernel's own address space.
\<close>

section \<open>Map areas\<close>

datatype MapType = Identical | Framed

type_synonym MapPermission = u8

definition MP_R :: MapPermission where "MP_R = push_bit 1 1"
definition MP_W :: MapPermission where "MP_W = push_bit 2 1"
definition MP_X :: MapPermission where "MP_X = push_bit 3 1"
definition MP_U :: MapPermission where "MP_U = push_bit 4 1"

text \<open>
  \<^verbatim>\<open>BTreeMap<VirtPageNum, FrameTracker>\<close>: the bindings in the order of the keys, which is also the
  order in which dropping the map drops its frames.
\<close>

type_synonym frame_map = "(VirtPageNum \<times> PhysPageNum) list"

definition fm_remove :: "VirtPageNum \<Rightarrow> frame_map \<Rightarrow> frame_map" where
  "fm_remove v m = filter (\<lambda>b. fst b \<noteq> v) m"

definition fm_insert :: "VirtPageNum \<Rightarrow> PhysPageNum \<Rightarrow> frame_map \<Rightarrow> frame_map" where
  "fm_insert v f m = insort_key fst (v, f) (fm_remove v m)"

text \<open>The value that \<^verbatim>\<open>insert\<close> or \<^verbatim>\<open>remove\<close> takes out of the map is dropped at once.\<close>

definition drop_option :: "PhysPageNum option \<Rightarrow> mm_state \<Rightarrow> mm_state res" where
  "drop_option f s = (case f of None \<Rightarrow> Ok s | Some p \<Rightarrow> frame_dealloc p s)"

record MapArea =
  vpn_range :: VPNRange
  data_frames :: frame_map
  map_type :: MapType
  map_perm :: MapPermission

definition MapArea_new :: "VirtAddr \<Rightarrow> VirtAddr \<Rightarrow> MapType \<Rightarrow> MapPermission \<Rightarrow> MapArea res" where
  "MapArea_new start_va end_va t perm =
     bind_res (VPNRange_new (va_floor start_va) (va_ceil end_va)) (\<lambda>r.
     Ok \<lparr>vpn_range = r, data_frames = [], map_type = t, map_perm = perm\<rparr>)"

definition from_another :: "MapArea \<Rightarrow> MapArea res" where
  "from_another a =
     bind_res (VPNRange_new (range_l (vpn_range a)) (range_r (vpn_range a))) (\<lambda>r.
     Ok \<lparr>vpn_range = r, data_frames = [], map_type = map_type a, map_perm = map_perm a\<rparr>)"

text \<open>Dropping a \<^verbatim>\<open>MapArea\<close> drops its frames.\<close>

definition drop_area :: "MapArea \<Rightarrow> mm_state \<Rightarrow> mm_state res" where
  "drop_area a = drop_frames (map snd (data_frames a))"

text \<open>A \<^verbatim>\<open>Result<(), &str>\<close> is \<open>Inl message\<close> or \<open>Inr ()\<close>.\<close>

type_synonym result = "string + unit"
type_synonym area_state = "MapArea \<times> PageTable \<times> mm_state"

definition map_one :: "VirtPageNum \<Rightarrow> area_state \<Rightarrow> (result \<times> area_state) res" where
  "map_one vpn st = (case st of (area, pt, s) \<Rightarrow>
     let finish = (\<lambda>ppn (area, s).
           bind_res (unwrap (PTEFlags_from_bits (map_perm area))) (\<lambda>pte_flags.
           bind_res (pt_map vpn ppn pte_flags (pt, s)) (\<lambda>(pt, s).
           Ok (Inr (), area, pt, s))))
     in case map_type area of
          Framed \<Rightarrow>
            (case frame_alloc s of
               (None, s) \<Rightarrow> Ok (Inl ''No enough physical space'', area, pt, s)
             | (Some frame, s) \<Rightarrow>
                 bind_res (drop_option (map_of (data_frames area) vpn) s) (\<lambda>s.
                 finish frame (area\<lparr>data_frames := fm_insert vpn frame (data_frames area)\<rparr>, s)))
        | Identical \<Rightarrow> finish (PhysPageNum (vpn0 vpn)) (area, s))"

definition unmap_one :: "VirtPageNum \<Rightarrow> area_state \<Rightarrow> area_state res" where
  "unmap_one vpn st = (case st of (area, pt, s) \<Rightarrow>
     bind_res
       (if map_type area = Framed
        then bind_res (drop_option (map_of (data_frames area) vpn) s) (\<lambda>s.
             Ok (area\<lparr>data_frames := fm_remove vpn (data_frames area)\<rparr>, s))
        else Ok (area, s)) (\<lambda>(area, s).
     bind_res (pt_unmap vpn (pt, s)) (\<lambda>(pt, s). Ok (area, pt, s))))"

text \<open>\<^verbatim>\<open>MapArea::map\<close>: the loop returns at the first error.\<close>

fun map_loop :: "VirtPageNum list \<Rightarrow> area_state \<Rightarrow> (result \<times> area_state) res" where
  "map_loop [] st = Ok (Inr (), st)"
| "map_loop (vpn # vpns) st =
     bind_res (map_one vpn st) (\<lambda>(r, st).
       case r of Inr _ \<Rightarrow> map_loop vpns st | Inl e \<Rightarrow> Ok (Inl e, st))"

definition area_map :: "area_state \<Rightarrow> (result \<times> area_state) res" where
  "area_map st = map_loop (range_vpns (vpn_range (fst st))) st"

definition area_unmap :: "area_state \<Rightarrow> area_state res" where
  "area_unmap st = fold_res unmap_one (range_vpns (vpn_range (fst st))) st"

text \<open>
  \<^verbatim>\<open>copy_data\<close>: \<^verbatim>\<open>data[start..]\<close> is the list that is left. The loop copies at least one chunk, also
  when there are no bytes.
\<close>

function copy_loop :: "VirtPageNum \<Rightarrow> u8 list \<Rightarrow> PageTable \<Rightarrow> mm_state \<Rightarrow> mm_state res" where
  "copy_loop vpn data pt s =
     bind_res (unwrap (translate pt vpn s)) (\<lambda>pte.
       let s = s\<lparr>mem := store_bytes (mem s) (page_base (pte_ppn pte)) (take 4096 data)\<rparr>;
           rest = drop 4096 data
       in if rest = [] then Ok s else copy_loop (vpn_step vpn) rest pt s)"
  by pat_completeness auto
termination
  by (relation "measure (\<lambda>(vpn, data, pt, s). length data)") auto

declare copy_loop.simps [simp del]

definition copy_data :: "MapArea \<Rightarrow> PageTable \<Rightarrow> u8 list \<Rightarrow> mm_state \<Rightarrow> mm_state res" where
  "copy_data area pt data s =
     bind_res (assert_that (map_type area = Framed)) (\<lambda>_.
     copy_loop (range_l (vpn_range area)) data pt s)"

section \<open>Memory sets\<close>

record MemorySet =
  page_table :: PageTable
  areas :: "MapArea list"

type_synonym ms_state = "MemorySet \<times> mm_state"

definition new_bare :: "mm_state \<Rightarrow> ms_state res" where
  "new_bare s = bind_res (PageTable_new s) (\<lambda>(pt, s). Ok (\<lparr>page_table = pt, areas = []\<rparr>, s))"

definition ms_token :: "MemorySet \<Rightarrow> usize" where
  "ms_token ms = token (page_table ms)"

definition ms_translate :: "MemorySet \<Rightarrow> VirtPageNum \<Rightarrow> mm_state \<Rightarrow> PageTableEntry option" where
  "ms_translate ms vpn s = translate (page_table ms) vpn s"

text \<open>When mapping fails, \<^verbatim>\<open>push\<close> returns the error and \<^verbatim>\<open>map_area\<close>, a local, is dropped.\<close>

definition push :: "MapArea \<Rightarrow> u8 list option \<Rightarrow> ms_state \<Rightarrow> (result \<times> ms_state) res" where
  "push map_area data st = (case st of (ms, s) \<Rightarrow>
     bind_res (area_map (map_area, page_table ms, s)) (\<lambda>(r, area, pt, s).
       let ms = ms\<lparr>page_table := pt\<rparr> in
       case r of
         Inr _ \<Rightarrow>
           bind_res (case data of None \<Rightarrow> Ok s | Some d \<Rightarrow> copy_data area pt d s) (\<lambda>s.
           Ok (Inr (), ms\<lparr>areas := areas ms @ [area]\<rparr>, s))
       | Inl e \<Rightarrow> bind_res (drop_area area s) (\<lambda>s. Ok (Inl e, ms, s))))"

text \<open>\<^verbatim>\<open>iter().position(p)\<close>.\<close>

fun position :: "('a \<Rightarrow> bool) \<Rightarrow> 'a list \<Rightarrow> nat option" where
  "position P [] = None"
| "position P (x # xs) = (if P x then Some 0 else map_option Suc (position P xs))"

definition remove_nth :: "nat \<Rightarrow> 'a list \<Rightarrow> 'a list" where
  "remove_nth i xs = take i xs @ drop (Suc i) xs"

definition remove_area_with_start_vpn :: "VirtPageNum \<Rightarrow> ms_state \<Rightarrow> ms_state res" where
  "remove_area_with_start_vpn start_vpn st = (case st of (ms, s) \<Rightarrow>
     case position (\<lambda>a. range_l (vpn_range a) = start_vpn) (areas ms) of
       None \<Rightarrow> Ok (ms, s)
     | Some idx \<Rightarrow>
         bind_res (area_unmap (areas ms ! idx, page_table ms, s)) (\<lambda>(area, pt, s).
         bind_res (drop_area area s) (\<lambda>s.
         Ok (ms\<lparr>page_table := pt, areas := remove_nth idx (areas ms)\<rparr>, s))))"

definition owns_vpn :: "VirtPageNum \<Rightarrow> MapArea \<Rightarrow> bool" where
  "owns_vpn vpn area = (map_of (data_frames area) vpn \<noteq> None)"

text \<open>One round of the second loop of \<^verbatim>\<open>remove_mapped_frames\<close>.\<close>

definition remove_mapped_one :: "VirtPageNum \<Rightarrow> ms_state \<Rightarrow> ms_state res" where
  "remove_mapped_one vpn st = (case st of (ms, s) \<Rightarrow>
     bind_res (unwrap (position (owns_vpn vpn) (areas ms))) (\<lambda>index.
     bind_res (unmap_one vpn (areas ms ! index, page_table ms, s)) (\<lambda>(area, pt, s).
     bind_res (drop_option (map_of (data_frames area) vpn) s) (\<lambda>s.
       let area = area\<lparr>data_frames := fm_remove vpn (data_frames area)\<rparr>;
           ms = ms\<lparr>page_table := pt, areas := (areas ms)[index := area]\<rparr>
       in if data_frames area = []
          then Ok (ms\<lparr>areas := remove_nth index (areas ms)\<rparr>, s)
          else Ok (ms, s)))))"

definition remove_mapped_frames :: "VirtAddr \<Rightarrow> VirtAddr \<Rightarrow> ms_state \<Rightarrow> (int \<times> ms_state) res" where
  "remove_mapped_frames start_va end_va st =
     bind_res (VPNRange_new (va_floor start_va) (va_ceil end_va)) (\<lambda>r.
       if \<exists>vpn \<in> set (range_vpns r). position (owns_vpn vpn) (areas (fst st)) = None
       then Ok (-1, st)
       else bind_res (fold_res remove_mapped_one (range_vpns r) st) (\<lambda>st. Ok (0, st)))"

definition recycle_data_pages :: "ms_state \<Rightarrow> ms_state res" where
  "recycle_data_pages st = (case st of (ms, s) \<Rightarrow>
     bind_res (fold_res drop_area (areas ms) s) (\<lambda>s. Ok (ms\<lparr>areas := []\<rparr>, s)))"

definition insert_framed_area ::
    "VirtAddr \<Rightarrow> VirtAddr \<Rightarrow> MapPermission \<Rightarrow> ms_state \<Rightarrow> (result \<times> ms_state) res" where
  "insert_framed_area start_va end_va permission st =
     bind_res (MapArea_new start_va end_va Framed permission) (\<lambda>area. push area None st)"

text \<open>\<^verbatim>\<open>map_trampoline\<close>; \<open>strampoline\<close> is the address of the linker's symbol.\<close>

definition map_trampoline :: "usize \<Rightarrow> ms_state \<Rightarrow> ms_state res" where
  "map_trampoline strampoline st = (case st of (ms, s) \<Rightarrow>
     bind_res (VirtPageNum_from_va (VirtAddr_from TRAMPOLINE)) (\<lambda>vpn.
     bind_res (PhysPageNum_from_pa (PhysAddr_from strampoline)) (\<lambda>ppn.
     bind_res (pt_map vpn ppn (PTE_R OR PTE_X) (page_table ms, s)) (\<lambda>(pt, s).
     Ok (ms\<lparr>page_table := pt\<rparr>, s)))))"

text \<open>
  \<^verbatim>\<open>from_existed_userspace\<close>: a new memory set with the same areas, and the contents of every page of
  every area copied.
\<close>

definition copy_page :: "MemorySet \<Rightarrow> MemorySet \<Rightarrow> VirtPageNum \<Rightarrow> mm_state \<Rightarrow> mm_state res" where
  "copy_page user_space ms vpn s =
     bind_res (unwrap (ms_translate user_space vpn s)) (\<lambda>src.
     bind_res (unwrap (ms_translate ms vpn s)) (\<lambda>dst.
     Ok (s\<lparr>mem := store_bytes (mem s) (page_base (pte_ppn dst)) (get_bytes_array (mem s) (pte_ppn src))\<rparr>)))"

definition copy_area :: "MemorySet \<Rightarrow> MapArea \<Rightarrow> ms_state \<Rightarrow> ms_state res" where
  "copy_area user_space area st =
     bind_res (from_another area) (\<lambda>new_area.
     bind_res (push new_area None st) (\<lambda>(r, ms, s).
       case r of
         Inl _ \<Rightarrow> Panic UnwrapErr
       | Inr _ \<Rightarrow>
           bind_res (fold_res (copy_page user_space ms) (range_vpns (vpn_range area)) s) (\<lambda>s.
           Ok (ms, s))))"

definition from_existed_userspace :: "usize \<Rightarrow> MemorySet \<Rightarrow> mm_state \<Rightarrow> ms_state res" where
  "from_existed_userspace strampoline user_space s =
     bind_res (new_bare s) (\<lambda>st.
     bind_res (map_trampoline strampoline st) (\<lambda>st.
     fold_res (copy_area user_space) (areas user_space) st))"

text \<open>The kernel's address space. The addresses of the linker's symbols are parameters.\<close>

record linker_symbols =
  stext :: usize
  etext :: usize
  srodata :: usize
  erodata :: usize
  sdata :: usize
  edata :: usize
  sbss_with_stack :: usize
  ebss :: usize
  ekernel :: usize
  strampoline :: usize

definition MMIO :: "(usize \<times> usize) list" where
  "MMIO = [(0x10001000, 0x1000)]"

definition push_unwrap :: "MapArea \<Rightarrow> u8 list option \<Rightarrow> ms_state \<Rightarrow> ms_state res" where
  "push_unwrap area data st =
     bind_res (push area data st) (\<lambda>(r, st).
       case r of Inl _ \<Rightarrow> Panic UnwrapErr | Inr _ \<Rightarrow> Ok st)"

definition push_identical :: "usize \<Rightarrow> usize \<Rightarrow> MapPermission \<Rightarrow> ms_state \<Rightarrow> ms_state res" where
  "push_identical start end' perm st =
     bind_res (MapArea_new (VirtAddr_from start) (VirtAddr_from end') Identical perm) (\<lambda>area.
     push_unwrap area None st)"

text \<open>The result of pushing an MMIO area is ignored (\<^verbatim>\<open>.ok()\<close>).\<close>

definition push_mmio :: "usize \<times> usize \<Rightarrow> ms_state \<Rightarrow> ms_state res" where
  "push_mmio pair st =
     bind_res (MapArea_new (VirtAddr_from (fst pair)) (VirtAddr_from (fst pair + snd pair))
                 Identical (MP_R OR MP_W)) (\<lambda>area.
     bind_res (push area None st) (\<lambda>(r, st). Ok st))"

definition new_kernel :: "linker_symbols \<Rightarrow> mm_state \<Rightarrow> ms_state res" where
  "new_kernel y s =
     bind_res (new_bare s) (\<lambda>st.
     bind_res (map_trampoline (strampoline y) st) (\<lambda>st.
     bind_res (push_identical (stext y) (etext y) (MP_R OR MP_X) st) (\<lambda>st.
     bind_res (push_identical (srodata y) (erodata y) MP_R st) (\<lambda>st.
     bind_res (push_identical (sdata y) (edata y) (MP_R OR MP_W) st) (\<lambda>st.
     bind_res (push_identical (sbss_with_stack y) (ebss y) (MP_R OR MP_W) st) (\<lambda>st.
     bind_res (push_identical (ekernel y) MEMORY_END (MP_R OR MP_W) st) (\<lambda>st.
     fold_res push_mmio MMIO st)))))))"

text \<open>
  \<^verbatim>\<open>from_elf\<close>. The ELF reader is the crate \<^verbatim>\<open>xmas_elf\<close>: what it returns for the bytes is the parameter
  \<open>parse\<close>. A program header that the reader refuses (\<^verbatim>\<open>program_header(i)\<close> or \<^verbatim>\<open>get_type()\<close> is an
  error) is \<open>None\<close>.
\<close>

record program_header =
  ph_is_load :: bool
  ph_virtual_addr :: u64
  ph_mem_size :: u64
  ph_offset :: u64
  ph_file_size :: u64
  ph_read :: bool
  ph_write :: bool
  ph_execute :: bool

record elf_file =
  elf_magic :: "u8 list"
  elf_headers :: "program_header option list"
  elf_entry :: u64

definition ph_perm :: "program_header \<Rightarrow> MapPermission" where
  "ph_perm ph = MP_U OR (if ph_read ph then MP_R else 0) OR (if ph_write ph then MP_W else 0)
     OR (if ph_execute ph then MP_X else 0)"

text \<open>\<^verbatim>\<open>&input[a..b]\<close>.\<close>

definition slice :: "'a list \<Rightarrow> usize \<Rightarrow> usize \<Rightarrow> 'a list res" where
  "slice xs a b =
     (if a \<le> b \<and> unat b \<le> length xs then Ok (take (unat b - unat a) (drop (unat a) xs))
      else Panic OutOfBounds)"

definition load_segment ::
    "u8 list \<Rightarrow> program_header option \<Rightarrow> VirtPageNum \<times> ms_state \<Rightarrow> (VirtPageNum \<times> ms_state) res" where
  "load_segment elf_data h c = (case c of (max_end_vpn, st) \<Rightarrow>
     bind_res (unwrap h) (\<lambda>ph.
       if ph_is_load ph then
         bind_res (MapArea_new (VirtAddr_from (ph_virtual_addr ph))
                     (VirtAddr_from (ph_virtual_addr ph + ph_mem_size ph)) Framed (ph_perm ph)) (\<lambda>area.
         bind_res (slice elf_data (ph_offset ph) (ph_offset ph + ph_file_size ph)) (\<lambda>data.
         bind_res (push_unwrap area (Some data) st) (\<lambda>st.
         Ok (range_r (vpn_range area), st))))
       else Ok (max_end_vpn, st)))"

definition from_elf ::
    "(u8 list \<Rightarrow> elf_file option) \<Rightarrow> usize \<Rightarrow> u8 list \<Rightarrow> mm_state \<Rightarrow>
     ((MemorySet \<times> usize \<times> usize) \<times> mm_state) res" where
  "from_elf parse tramp elf_data s =
     bind_res (new_bare s) (\<lambda>st.
     bind_res (map_trampoline tramp st) (\<lambda>st.
     bind_res (unwrap (parse elf_data)) (\<lambda>elf.
     bind_res (assert_that (elf_magic elf = [0x7f, 0x45, 0x4c, 0x46])) (\<lambda>_.
     bind_res (fold_res (load_segment elf_data) (elf_headers elf) (VirtPageNum 0, st)) (\<lambda>(max_end_vpn, st).
       let user_stack_bottom = va0 (VirtAddr_from_vpn max_end_vpn) + PAGE_SIZE;
           user_stack_top = user_stack_bottom + USER_STACK_SIZE
       in bind_res (MapArea_new (VirtAddr_from user_stack_bottom) (VirtAddr_from user_stack_top)
                      Framed (MP_R OR MP_W OR MP_U)) (\<lambda>stack.
          bind_res (push_unwrap stack None st) (\<lambda>st.
          bind_res (MapArea_new (VirtAddr_from TRAP_CONTEXT) (VirtAddr_from TRAMPOLINE)
                      Framed (MP_R OR MP_W)) (\<lambda>trap_cx.
          bind_res (push_unwrap trap_cx None st) (\<lambda>(ms, s).
          Ok ((ms, user_stack_top, elf_entry elf), s))))))))))"

section \<open>Invariant\<close>

text \<open>
  All frames that back the areas of a memory set, area by area.
\<close>

definition area_frames :: "MapArea list \<Rightarrow> PhysPageNum list" where
  "area_frames as = concat (map (\<lambda>a. map snd (data_frames a)) as)"

text \<open>
  An area is right when its bindings are sorted by page, lie in its range, and the page table sends
  every one of these pages to its frame with the permission of the area. An identical area owns no
  frame.
\<close>

definition area_ok :: "PageTable \<Rightarrow> mm_state \<Rightarrow> MapArea \<Rightarrow> bool" where
  "area_ok pt s a =
     (sorted (map fst (data_frames a)) \<and> distinct (map fst (data_frames a)) \<and>
      (map_type a = Identical \<longrightarrow> data_frames a = []) \<and>
      (\<forall>(v, f) \<in> set (data_frames a). range_l (vpn_range a) \<le> v \<and> v < range_r (vpn_range a) \<and>
         translate pt v s = Some (PTE_new f (map_perm a OR PTE_V))))"

text \<open>
  The invariant of a memory set: its page table is a tree in frames of its own, the frames that back
  its areas are pairwise distinct, in use, and none of them is a page-table frame.
\<close>

definition ms_inv :: "usize \<Rightarrow> ms_state \<Rightarrow> bool" where
  "ms_inv l st = (case st of (ms, s) \<Rightarrow>
     pt_inv l (page_table ms, s) \<and>
     (\<forall>a \<in> set (areas ms). area_ok (page_table ms) s a) \<and>
     distinct (area_frames (areas ms)) \<and>
     set (area_frames (areas ms)) \<subseteq> frames_used l s \<and>
     set (area_frames (areas ms)) \<inter> set (pt_frames (page_table ms)) = {})"

section \<open>Frame maps\<close>

lemma fm_remove_absent: "map_of m v = None \<Longrightarrow> fm_remove v m = m"
  by (auto simp: fm_remove_def map_of_eq_None_iff intro!: filter_True)

lemma mset_fm_insert: "map_of m v = None \<Longrightarrow> mset (fm_insert v f m) = add_mset (v, f) (mset m)"
  by (simp add: fm_insert_def fm_remove_absent)

lemma set_fm_insert: "map_of m v = None \<Longrightarrow> set (fm_insert v f m) = insert (v, f) (set m)"
  by (metis mset_fm_insert set_mset_add_mset_insert set_mset_mset)

lemma distinct_fm_insert:
  assumes "map_of m v = None"
  shows "distinct (map fst (fm_insert v f m)) \<longleftrightarrow> distinct (map fst m)"
    and "distinct (map snd (fm_insert v f m)) \<longleftrightarrow> f \<notin> snd ` set m \<and> distinct (map snd m)"
proof -
  have "distinct (map fst (fm_insert v f m)) \<longleftrightarrow> distinct (map fst ((v, f) # m))"
    by (rule mset_eq_imp_distinct_iff) (simp add: mset_fm_insert [OF assms])
  then show "distinct (map fst (fm_insert v f m)) \<longleftrightarrow> distinct (map fst m)"
    using assms by (simp add: map_of_eq_None_iff)
  have "distinct (map snd (fm_insert v f m)) \<longleftrightarrow> distinct (map snd ((v, f) # m))"
    by (rule mset_eq_imp_distinct_iff) (simp add: mset_fm_insert [OF assms])
  then show "distinct (map snd (fm_insert v f m)) \<longleftrightarrow> f \<notin> snd ` set m \<and> distinct (map snd m)"
    by simp
qed

lemma sorted_fm_insert: "sorted (map fst m) \<Longrightarrow> sorted (map fst (fm_insert v f m))"
  by (simp add: fm_insert_def fm_remove_def sorted_insort_key sorted_filter)

section \<open>Mapping an area\<close>

text \<open>
  While a framed area is being mapped: the page table is right, the area is right, and its frames are
  pairwise distinct, in use, no page-table frames and none of the frames \<open>Q\<close> that others own.
\<close>

definition mapping_inv :: "usize \<Rightarrow> PhysPageNum set \<Rightarrow> area_state \<Rightarrow> bool" where
  "mapping_inv l Q st = (case st of (a, pt, s) \<Rightarrow>
     pt_inv l (pt, s) \<and> area_ok pt s a \<and> map_type a = Framed \<and>
     distinct (map snd (data_frames a)) \<and> snd ` set (data_frames a) \<subseteq> frames_used l s \<and>
     snd ` set (data_frames a) \<inter> (set (pt_frames pt) \<union> Q) = {} \<and>
     Q \<subseteq> frames_used l s \<and> Q \<inter> set (pt_frames pt) = {})"

text \<open>
  What mapping the pages \<open>ws\<close> does, whether it got through all of them or not: only these pages get a
  translation, each a fresh zeroed frame, and no page of memory changes that was in use before and is
  not a page-table frame.
\<close>

definition mapping_step :: "usize \<Rightarrow> VirtPageNum set \<Rightarrow> area_state \<Rightarrow> area_state \<Rightarrow> bool" where
  "mapping_step l ws st st' = (case st of (a, pt, s) \<Rightarrow> case st' of (a', pt', s') \<Rightarrow>
     vpn_range a' = vpn_range a \<and> map_type a' = map_type a \<and> map_perm a' = map_perm a \<and>
     set (data_frames a) \<subseteq> set (data_frames a') \<and>
     fst ` set (data_frames a') = fst ` set (data_frames a) \<union> ws \<and>
     (\<forall>b \<in> set (data_frames a') - set (data_frames a).
        snd b \<notin> frames_used l s \<and> (\<forall>x. in_page (snd b) x \<longrightarrow> mem s' x = 0)) \<and>
     (\<forall>v. (\<forall>w \<in> ws. \<not> same_page v w) \<longrightarrow> translate pt' v s' = translate pt v s) \<and>
     frames_used l s' = frames_used l s \<union> snd ` set (data_frames a') \<union> set (pt_frames pt') \<and>
     set (pt_frames pt) \<subseteq> set (pt_frames pt') \<and>
     set (pt_frames pt') \<inter> frames_used l s \<subseteq> set (pt_frames pt) \<and>
     (\<forall>p \<in> frames_used l s - set (pt_frames pt). \<forall>x. in_page p x \<longrightarrow> mem s' x = mem s x))"

lemma mapping_stepD:
  assumes "mapping_step l V (a, pt, s) (a', pt', s')"
  shows "vpn_range a' = vpn_range a" "map_type a' = map_type a" "map_perm a' = map_perm a"
    and "set (data_frames a) \<subseteq> set (data_frames a')"
    and "fst ` set (data_frames a') = fst ` set (data_frames a) \<union> V"
    and "\<lbrakk>b \<in> set (data_frames a'); b \<notin> set (data_frames a)\<rbrakk> \<Longrightarrow> snd b \<notin> frames_used l s"
    and "\<lbrakk>b \<in> set (data_frames a'); b \<notin> set (data_frames a); in_page (snd b) x\<rbrakk> \<Longrightarrow> mem s' x = 0"
    and "(\<forall>w \<in> V. \<not> same_page v w) \<Longrightarrow> translate pt' v s' = translate pt v s"
    and "frames_used l s' = frames_used l s \<union> snd ` set (data_frames a') \<union> set (pt_frames pt')"
    and "set (pt_frames pt) \<subseteq> set (pt_frames pt')"
    and "set (pt_frames pt') \<inter> frames_used l s \<subseteq> set (pt_frames pt)"
    and "\<lbrakk>p \<in> frames_used l s; p \<notin> set (pt_frames pt); in_page p x\<rbrakk> \<Longrightarrow> mem s' x = mem s x"
  using assms unfolding mapping_step_def prod.case by (auto simp del: split_paired_All)

lemma map_one_framed:
  assumes inv: "mapping_inv l Q (a, pt, s)"
    and new: "map_of (data_frames a) vpn = None"
    and rng: "range_l (vpn_range a) \<le> vpn" "vpn < range_r (vpn_range a)"
    and ok: "map_one vpn (a, pt, s) = Ok (Inr u, a', pt', s')"
  shows "mapping_inv l Q (a', pt', s')" and "mapping_step l {vpn} (a, pt, s) (a', pt', s')"
    and "translate pt vpn s = None"
proof -
  from inv have pti: "pt_inv l (pt, s)" and aok: "area_ok pt s a" and fr: "map_type a = Framed"
    and dist: "distinct (map snd (data_frames a))"
    and used: "snd ` set (data_frames a) \<subseteq> frames_used l s"
    and disj: "snd ` set (data_frames a) \<inter> (set (pt_frames pt) \<union> Q) = {}"
    and Q: "Q \<subseteq> frames_used l s" "Q \<inter> set (pt_frames pt) = {}"
    by (auto simp: mapping_inv_def)
  have fi: "frames_inv l s" and ptu: "set (pt_frames pt) \<subseteq> frames_used l s"
    using pti by (auto simp: pt_inv_def)
  from ok fr obtain f s1 where al: "frame_alloc s = (Some f, s1)" and
    a': "a' = a\<lparr>data_frames := fm_insert vpn f (data_frames a)\<rparr>" and
    pm: "pt_map vpn f (map_perm a) (pt, s1) = Ok (pt', s')"
    by (auto simp: map_one_def drop_option_def new res_simps split: prod.splits option.splits)
  note f = frame_alloc_Some [OF fi al]
  have out: "\<not> in_page f x" if "p \<in> frames_used l s" "in_page p x" for p x
    using that f(2,4) frames_used_ok [OF fi that(1)] by (metis in_page_unique)
  have m1: "mem s1 x = mem s x" if "p \<in> frames_used l s" "in_page p x" for p x
    using f(6) out that by blast
  have pti1: "pt_inv l (pt, s1)"
    by (rule pt_inv_mem_cong [OF pti f(1)]) (use ptu f(3) m1 in auto)
  have tr1: "translate pt v s1 = translate pt v s" for v
    by (rule translate_mem_cong [OF pti]) (use ptu m1 in auto)
  note pms = pt_map_spec [OF pti1 pm]
  show none: "translate pt vpn s = None" using pms(3) tr1 by simp
  from pms(2) obtain n where n: "pt_frames pt' = pt_frames pt @ n"
    "set n \<inter> frames_used l s1 = {}" "frames_used l s' = frames_used l s1 \<union> set n"
    and mem': "\<And>x. \<forall>p \<in> set (pt_frames pt'). \<not> in_page p x \<Longrightarrow> mem s' x = mem s1 x"
    by (auto simp: pt_ext_def)
  have keep: "mem s' x = mem s1 x"
    if p: "p \<in> frames_used l s1" "p \<notin> set (pt_frames pt)" and x: "in_page p x" for p x
  proof (rule mem', rule ballI, rule notI)
    fix q assume q: "q \<in> set (pt_frames pt')" "in_page q x"
    have "p = q" using in_page_unique [OF frames_used_ok [OF f(1) p(1)]
        pt_inv_frames_ok [OF pms(1) q(1)] x q(2)] .
    with q(1) p n(1,2) show False by auto
  qed
  have df: "set (data_frames a') = insert (vpn, f) (set (data_frames a))"
    by (simp add: a' set_fm_insert [OF new])
  have tr: "translate pt' v s' =
      (if same_page v vpn then Some (PTE_new f (map_perm a OR PTE_V)) else translate pt v s)" for v
    using pms(4) tr1 by simp
  have "translate pt' v s' = Some (PTE_new g (map_perm a OR PTE_V))"
    if "(v, g) \<in> set (data_frames a)" for v g
  proof -
    have t: "translate pt v s = Some (PTE_new g (map_perm a OR PTE_V))"
      using aok that by (auto simp: area_ok_def)
    then have "\<not> same_page v vpn" using none translate_same_page [of v vpn pt s] by auto
    with t tr show ?thesis by simp
  qed
  then have aok': "area_ok pt' s' a'"
    using aok rng fr distinct_fm_insert(1) [OF new] sorted_fm_insert [of "data_frames a"]
    by (auto simp: area_ok_def df tr) (auto simp: a')
  have fnew: "f \<notin> snd ` set (data_frames a)" using used f(2) by auto
  have d': "distinct (map snd (data_frames a'))"
    using distinct_fm_insert(2) [OF new] dist fnew by (simp add: a')
  have u': "frames_used l s' = insert f (frames_used l s) \<union> set n" using n(3) f(3) by simp
  have fn: "set n \<inter> insert f (frames_used l s) = {}" using n(2) f(3) by simp
  show "mapping_inv l Q (a', pt', s')"
    unfolding mapping_inv_def prod.case
  proof (intro conjI)
    show "pt_inv l (pt', s')" by (rule pms(1))
    show "area_ok pt' s' a'" by (rule aok')
    show "map_type a' = Framed" by (simp add: a' fr)
    show "distinct (map snd (data_frames a'))" by (rule d')
    show "snd ` set (data_frames a') \<subseteq> frames_used l s'" using used u' by (auto simp: df)
    show "snd ` set (data_frames a') \<inter> (set (pt_frames pt') \<union> Q) = {}"
      using disj fn used ptu f(2) Q by (auto simp: df n(1))
    show "Q \<subseteq> frames_used l s'" using Q u' by auto
    show "Q \<inter> set (pt_frames pt') = {}" using Q fn by (auto simp: n(1))
  qed
  show "mapping_step l {vpn} (a, pt, s) (a', pt', s')"
    unfolding mapping_step_def prod.case
  proof (intro conjI)
    show "vpn_range a' = vpn_range a" "map_type a' = map_type a" "map_perm a' = map_perm a"
      by (simp_all add: a')
    show "set (data_frames a) \<subseteq> set (data_frames a')"
      "fst ` set (data_frames a') = fst ` set (data_frames a) \<union> {vpn}"
      by (auto simp: df)
    have "f \<notin> set (pt_frames pt)" using ptu f(2) by auto
    then have "mem s' x = 0" if "in_page f x" for x
      using keep [of f x] f(3) f(5) [OF that] that by simp
    then show "\<forall>b \<in> set (data_frames a') - set (data_frames a).
        snd b \<notin> frames_used l s \<and> (\<forall>x. in_page (snd b) x \<longrightarrow> mem s' x = 0)"
      using f(2) by (auto simp: df)
    show "\<forall>v. (\<forall>w \<in> {vpn}. \<not> same_page v w) \<longrightarrow> translate pt' v s' = translate pt v s"
      by (simp add: tr)
    show "frames_used l s' = frames_used l s \<union> snd ` set (data_frames a') \<union> set (pt_frames pt')"
      using u' used ptu by (auto simp: df n(1))
    show "set (pt_frames pt) \<subseteq> set (pt_frames pt')"
      "set (pt_frames pt') \<inter> frames_used l s \<subseteq> set (pt_frames pt)"
      using fn by (auto simp: n(1))
    show "\<forall>p \<in> frames_used l s - set (pt_frames pt). \<forall>x. in_page p x \<longrightarrow> mem s' x = mem s x"
      using keep m1 f(3) by (metis Diff_iff insertCI)
  qed
qed

lemma map_one_error:
  assumes "mapping_inv l Q (a, pt, s)" and "map_of (data_frames a) vpn = None"
    and "map_one vpn (a, pt, s) = Ok (Inl e, a', pt', s')"
  shows "(a', pt', s') = (a, pt, s)" and "frames_free l s = {}"
proof -
  from assms have fr: "map_type a = Framed" and fi: "frames_inv l s"
    by (auto simp: mapping_inv_def pt_inv_def)
  from assms(2,3) fr obtain s1 where al: "frame_alloc s = (None, s1)"
    and r: "a' = a" "pt' = pt" "s' = s1"
    by (auto simp: map_one_def drop_option_def res_simps split: prod.splits option.splits)
  show "(a', pt', s') = (a, pt, s)" using r frame_alloc_None [OF al] by simp
  show "frames_free l s = {}" using frame_alloc_total [OF fi] al by auto
qed

lemma mapping_step_refl:
  assumes "mapping_inv l Q (a, pt, s)"
  shows "mapping_step l {} (a, pt, s) (a, pt, s)"
  using assms by (auto simp: mapping_step_def mapping_inv_def pt_inv_def)

lemma mapping_step_trans:
  assumes "mapping_inv l Q (b, pu, t)"
    and "mapping_step l V (a, pt, s) (b, pu, t)" and "mapping_step l W (b, pu, t) (c, pv, u)"
  shows "mapping_step l (V \<union> W) (a, pt, s) (c, pv, u)"
proof -
  note s1 = mapping_stepD [OF assms(2)] and s2 = mapping_stepD [OF assms(3)]
  have own: "snd ` set (data_frames b) \<inter> set (pt_frames pu) = {}"
    using assms(1) by (auto simp: mapping_inv_def)
  have used: "frames_used l s \<subseteq> frames_used l t" using s1(9) by blast
  show ?thesis
    unfolding mapping_step_def prod.case
  proof (intro conjI)
    show "vpn_range c = vpn_range a" "map_type c = map_type a" "map_perm c = map_perm a"
      using s1(1-3) s2(1-3) by simp_all
    show "set (data_frames a) \<subseteq> set (data_frames c)" using s1(4) s2(4) by blast
    show "fst ` set (data_frames c) = fst ` set (data_frames a) \<union> (V \<union> W)"
      unfolding s2(5) s1(5) by (rule Un_assoc)
    show "\<forall>v. (\<forall>w \<in> V \<union> W. \<not> same_page v w) \<longrightarrow> translate pv v u = translate pt v s"
      using s1(8) s2(8) by simp
    have "snd ` set (data_frames b) \<subseteq> snd ` set (data_frames c)" using s2(4) by blast
    then show "frames_used l u = frames_used l s \<union> snd ` set (data_frames c) \<union> set (pt_frames pv)"
      unfolding s2(9) [unfolded s1(9)] using s2(10) by auto
    show "set (pt_frames pt) \<subseteq> set (pt_frames pv)" using s1(10) s2(10) by blast
    show "set (pt_frames pv) \<inter> frames_used l s \<subseteq> set (pt_frames pt)"
      using s1(11) s2(11) used by blast
    show "\<forall>p \<in> frames_used l s - set (pt_frames pt). \<forall>x. in_page p x \<longrightarrow> mem u x = mem s x"
    proof (intro ballI allI impI)
      fix p x assume p: "p \<in> frames_used l s - set (pt_frames pt)" and x: "in_page p x"
      then have "p \<in> frames_used l t" "p \<notin> set (pt_frames pu)" using s1(11) used by blast+
      from s2(12) [OF this x] s1(12) [OF _ _ x] p show "mem u x = mem s x" by simp
    qed
    show "\<forall>b' \<in> set (data_frames c) - set (data_frames a).
        snd b' \<notin> frames_used l s \<and> (\<forall>x. in_page (snd b') x \<longrightarrow> mem u x = 0)"
    proof
      fix b' assume b': "b' \<in> set (data_frames c) - set (data_frames a)"
      show "snd b' \<notin> frames_used l s \<and> (\<forall>x. in_page (snd b') x \<longrightarrow> mem u x = 0)"
      proof (cases "b' \<in> set (data_frames b)")
        case True
        then have p: "snd b' \<in> frames_used l t" "snd b' \<notin> set (pt_frames pu)"
          using s1(9) own by auto
        have "mem u x = 0" if "in_page (snd b') x" for x
          using s2(12) [OF p that] s1(7) [OF True _ that] b' by simp
        with s1(6) [OF True] b' show ?thesis by simp
      next
        case False
        with b' s2(6) s2(7) used show ?thesis by blast
      qed
    qed
  qed
qed

lemma map_loop_framed:
  assumes "mapping_inv l Q (a, pt, s)" and "distinct vpns"
    and "\<forall>v \<in> set vpns. map_of (data_frames a) v = None \<and>
      range_l (vpn_range a) \<le> v \<and> v < range_r (vpn_range a)"
    and "map_loop vpns (a, pt, s) = Ok (r, a', pt', s')"
  shows "mapping_inv l Q (a', pt', s') \<and>
    (\<exists>V \<subseteq> set vpns. mapping_step l V (a, pt, s) (a', pt', s') \<and> (\<forall>v \<in> V. translate pt v s = None) \<and>
      (case r of Inr _ \<Rightarrow> V = set vpns | Inl _ \<Rightarrow> V \<noteq> set vpns))"
  using assms
proof (induction vpns arbitrary: a pt s)
  case Nil
  then show ?case using mapping_step_refl [OF Nil.prems(1)] by auto
next
  case (Cons v vpns)
  from Cons.prems(4) obtain r1 b pu t where one: "map_one v (a, pt, s) = Ok (r1, b, pu, t)"
    by (auto simp: res_simps)
  have new: "map_of (data_frames a) v = None" using Cons.prems(3) by simp
  show ?case
  proof (cases r1)
    case (Inl e)
    note er = map_one_error [OF Cons.prems(1) new one [unfolded Inl]]
    from Cons.prems(4) one Inl er(1) have "r = Inl e" "(a', pt', s') = (a, pt, s)"
      by auto
    with Cons.prems(1) mapping_step_refl [OF Cons.prems(1)] show ?thesis
      by (auto intro!: exI [of _ "{}"])
  next
    case (Inr u)
    have rng: "range_l (vpn_range a) \<le> v" "v < range_r (vpn_range a)" using Cons.prems(3) by auto
    note mo = map_one_framed [OF Cons.prems(1) new rng one [unfolded Inr]]
    note st = mapping_stepD [OF mo(2)]
    have rest: "\<forall>w \<in> set vpns. map_of (data_frames b) w = None \<and>
        range_l (vpn_range b) \<le> w \<and> w < range_r (vpn_range b)"
    proof
      fix w assume w: "w \<in> set vpns"
      then have "w \<notin> fst ` set (data_frames a)" "w \<noteq> v" "range_l (vpn_range a) \<le> w \<and> w < range_r (vpn_range a)"
        using Cons.prems(2,3) by (auto simp: map_of_eq_None_iff)
      with st(1,5) show "map_of (data_frames b) w = None \<and>
          range_l (vpn_range b) \<le> w \<and> w < range_r (vpn_range b)"
        unfolding map_of_eq_None_iff by simp
    qed
    have loop: "map_loop vpns (b, pu, t) = Ok (r, a', pt', s')"
      using Cons.prems(4) one Inr by simp
    from Cons.IH [OF mo(1) _ rest loop] Cons.prems(2) obtain V where V: "V \<subseteq> set vpns"
      "mapping_inv l Q (a', pt', s')" "mapping_step l V (b, pu, t) (a', pt', s')"
      "\<forall>w \<in> V. translate pu w t = None"
      "case r of Inr _ \<Rightarrow> V = set vpns | Inl _ \<Rightarrow> V \<noteq> set vpns"
      by auto
    have "mapping_step l ({v} \<union> V) (a, pt, s) (a', pt', s')"
      by (rule mapping_step_trans [OF mo(1,2) V(3)])
    moreover have "translate pt w s = None" if "w \<in> V" for w
    proof (cases "same_page w v")
      case True
      with mo(3) show ?thesis by (simp add: translate_same_page [OF True])
    next
      case False
      with V(4) that st(8) [of w] show ?thesis by simp
    qed
    moreover have "case r of Inr _ \<Rightarrow> insert v V = set (v # vpns) | Inl _ \<Rightarrow> insert v V \<noteq> set (v # vpns)"
      using V(1,5) Cons.prems(2) by (auto split: sum.splits)
    ultimately show ?thesis using V(1,2) mo(3)
      by (intro conjI exI [of _ "insert v V"]) auto
  qed
qed

lemma drop_frames_spec:
  assumes "frames_inv l s" and "distinct ps" and "set ps \<subseteq> frames_used l s"
  shows "\<exists>s'. drop_frames ps s = Ok s' \<and> frames_inv l s' \<and>
    frames_used l s' = frames_used l s - set ps \<and> mem s' = mem s"
  using assms
proof (induction ps arbitrary: s)
  case Nil
  then show ?case by (simp add: drop_frames_def)
next
  case (Cons p ps)
  from frame_dealloc_used [OF Cons.prems(1), of p] Cons.prems(3)
  obtain t where t: "frame_dealloc p s = Ok t" "frames_inv l t"
    "frames_used l t = frames_used l s - {p}" "mem t = mem s" by auto
  have "set ps \<subseteq> frames_used l t" using Cons.prems(2,3) t(3) by auto
  from Cons.IH [OF t(2) _ this] Cons.prems(2) t show ?case by (auto simp: drop_frames_def)
qed

lemma area_frames_append [simp]:
  "area_frames (as @ bs) = area_frames as @ area_frames bs"
  "area_frames [a] = map snd (data_frames a)" "area_frames [] = []"
  by (simp_all add: area_frames_def)

lemma in_area_frames: "a \<in> set as \<Longrightarrow> b \<in> set (data_frames a) \<Longrightarrow> snd b \<in> set (area_frames as)"
  by (auto simp: area_frames_def)

lemma ms_invD:
  assumes "ms_inv l (ms, s)"
  shows "pt_inv l (page_table ms, s)" and "frames_inv l s"
    and "\<And>a. a \<in> set (areas ms) \<Longrightarrow> area_ok (page_table ms) s a"
    and "distinct (area_frames (areas ms))"
    and "set (area_frames (areas ms)) \<subseteq> frames_used l s"
    and "set (area_frames (areas ms)) \<inter> set (pt_frames (page_table ms)) = {}"
    and "set (pt_frames (page_table ms)) \<subseteq> frames_used l s"
  using assms by (auto simp: ms_inv_def pt_inv_def)

lemma area_okD:
  assumes "area_ok pt s a"
  shows "sorted (map fst (data_frames a))" "distinct (map fst (data_frames a))"
    and "map_type a = Identical \<Longrightarrow> data_frames a = []"
    and "(v, f) \<in> set (data_frames a) \<Longrightarrow> translate pt v s = Some (PTE_new f (map_perm a OR PTE_V))"
    and "(v, f) \<in> set (data_frames a) \<Longrightarrow> range_l (vpn_range a) \<le> v"
    and "(v, f) \<in> set (data_frames a) \<Longrightarrow> v < range_r (vpn_range a)"
  using assms by (auto simp: area_ok_def)

lemma area_ok_cong:
  assumes "area_ok pt s a"
    and "\<And>v f. (v, f) \<in> set (data_frames a) \<Longrightarrow> translate pt' v s' = translate pt v s"
  shows "area_ok pt' s' a"
  using assms by (auto simp: area_ok_def)

text \<open>A fresh area while it is being mapped into a memory set.\<close>

lemma area_map_fresh:
  assumes inv: "ms_inv l (ms, s)" and fresh: "data_frames a = []" "map_type a = Framed"
    and rng: "range_l (vpn_range a) \<le> range_r (vpn_range a)"
    and ok: "area_map (a, page_table ms, s) = Ok (r, a', pt', s')"
  obtains V where "mapping_inv l (set (area_frames (areas ms))) (a', pt', s')"
    and "mapping_step l V (a, page_table ms, s) (a', pt', s')"
    and "V \<subseteq> set (range_vpns (vpn_range a))" and "\<forall>v \<in> V. translate (page_table ms) v s = None"
    and "case r of Inr _ \<Rightarrow> V = set (range_vpns (vpn_range a)) | Inl _ \<Rightarrow> V \<noteq> set (range_vpns (vpn_range a))"
    and "\<And>b. b \<in> set (areas ms) \<Longrightarrow> area_ok pt' s' b"
proof -
  note d = ms_invD [OF inv]
  have mi: "mapping_inv l (set (area_frames (areas ms))) (a, page_table ms, s)"
    using d fresh by (auto simp: mapping_inv_def area_ok_def)
  have loop: "map_loop (range_vpns (vpn_range a)) (a, page_table ms, s) = Ok (r, a', pt', s')"
    using ok by (simp add: area_map_def)
  have "\<forall>v \<in> set (range_vpns (vpn_range a)). map_of (data_frames a) v = None \<and>
      range_l (vpn_range a) \<le> v \<and> v < range_r (vpn_range a)"
    using fresh rng by (simp add: set_range_vpns)
  from map_loop_framed [OF mi range_vpns_distinct(1) [OF rng] this loop] obtain V where
    V: "mapping_inv l (set (area_frames (areas ms))) (a', pt', s')"
      "mapping_step l V (a, page_table ms, s) (a', pt', s')" "V \<subseteq> set (range_vpns (vpn_range a))"
      "\<forall>v \<in> V. translate (page_table ms) v s = None"
      "case r of Inr _ \<Rightarrow> V = set (range_vpns (vpn_range a)) | Inl _ \<Rightarrow> V \<noteq> set (range_vpns (vpn_range a))"
    by auto
  have "area_ok pt' s' b" if b: "b \<in> set (areas ms)" for b
  proof (rule area_ok_cong [OF d(3) [OF b]])
    fix v f assume "(v, f) \<in> set (data_frames b)"
    then have "translate (page_table ms) v s \<noteq> None" using area_okD(4) [OF d(3) [OF b]] by simp
    then have "\<forall>w \<in> V. \<not> same_page v w" using V(4) translate_same_page by metis
    then show "translate pt' v s' = translate (page_table ms) v s"
      by (rule mapping_stepD(8) [OF V(2)])
  qed
  then show thesis using that V by blast
qed

lemma push_None_Ok:
  assumes "push a None (ms, s) = Ok (r, ms', s')"
  obtains (mapped) a' pt' where "r = Inr ()" "area_map (a, page_table ms, s) = Ok (Inr (), a', pt', s')"
      "ms' = ms\<lparr>page_table := pt', areas := areas ms @ [a']\<rparr>"
  | (failed) e a' pt' t where "r = Inl e" "area_map (a, page_table ms, s) = Ok (Inl e, a', pt', t)"
      "drop_area a' t = Ok s'" "ms' = ms\<lparr>page_table := pt'\<rparr>"
proof -
  from assms obtain q a' pt' t where am: "area_map (a, page_table ms, s) = Ok (q, a', pt', t)"
    by (auto simp: push_def res_simps)
  show thesis
  proof (cases q)
    case (Inl e)
    with assms am failed show thesis by (auto simp: push_def res_simps)
  next
    case (Inr u)
    with assms am mapped show thesis by (auto simp: push_def res_simps)
  qed
qed

lemma insert_framed_area_Ok:
  assumes "insert_framed_area start_va end_va perm st = Ok c"
  shows "va_floor start_va \<le> va_ceil end_va"
    and "push \<lparr>vpn_range = \<lparr>range_l = va_floor start_va, range_r = va_ceil end_va\<rparr>,
      data_frames = [], map_type = Framed, map_perm = perm\<rparr> None st = Ok c"
  using assms by (auto simp: insert_framed_area_def MapArea_new_def res_simps)

lemma insert_framed_area_ok:
  assumes inv: "ms_inv l (ms, s)"
    and ok: "insert_framed_area start_va end_va perm (ms, s) = Ok (Inr u, ms', s')"
  shows "ms_inv l (ms', s')"
    and "\<lbrakk>va_floor start_va \<le> v; v < va_ceil end_va\<rbrakk> \<Longrightarrow>
      \<exists>f. translate (page_table ms') v s' = Some (PTE_new f (perm OR PTE_V)) \<and>
        f \<notin> frames_used l s \<and> f \<in> frames_used l s' \<and> (\<forall>x. in_page f x \<longrightarrow> mem s' x = 0)"
    and "\<lbrakk>va_floor start_va \<le> v; v < va_ceil end_va\<rbrakk> \<Longrightarrow> translate (page_table ms) v s = None"
    and "(\<forall>w. va_floor start_va \<le> w \<and> w < va_ceil end_va \<longrightarrow> \<not> same_page v w) \<Longrightarrow>
      translate (page_table ms') v s' = translate (page_table ms) v s"
    and "\<lbrakk>p \<in> frames_used l s; p \<notin> set (pt_frames (page_table ms)); in_page p x\<rbrakk> \<Longrightarrow> mem s' x = mem s x"
proof -
  define a where "a = \<lparr>vpn_range = \<lparr>range_l = va_floor start_va, range_r = va_ceil end_va\<rparr>,
    data_frames = [], map_type = Framed, map_perm = perm\<rparr>"
  note rng = insert_framed_area_Ok(1) [OF ok]
  from insert_framed_area_Ok(2) [OF ok] obtain a' pt' where
    am: "area_map (a, page_table ms, s) = Ok (Inr (), a', pt', s')" and
    ms': "ms' = ms\<lparr>page_table := pt', areas := areas ms @ [a']\<rparr>"
    unfolding a_def [symmetric] by (cases rule: push_None_Ok) auto
  have a: "data_frames a = []" "map_type a = Framed" "map_perm a = perm"
    "range_l (vpn_range a) \<le> range_r (vpn_range a)"
    using rng by (simp_all add: a_def)
  from area_map_fresh [OF inv a(1,2,4) am] obtain V where
    mi: "mapping_inv l (set (area_frames (areas ms))) (a', pt', s')" and
    step: "mapping_step l V (a, page_table ms, s) (a', pt', s')" and
    none: "\<forall>v \<in> V. translate (page_table ms) v s = None" and
    V: "V = set (range_vpns (vpn_range a))" and
    aok: "\<And>b. b \<in> set (areas ms) \<Longrightarrow> area_ok pt' s' b"
    by auto
  have V': "v \<in> V \<longleftrightarrow> va_floor start_va \<le> v \<and> v < va_ceil end_va" for v
    unfolding V set_range_vpns [OF a(4)] by (simp add: a_def)
  note sd = mapping_stepD [OF step]
  show "ms_inv l (ms', s')"
    using mi aok ms_invD(4) [OF inv]
    by (auto simp: ms_inv_def ms' mapping_inv_def)
  show "translate (page_table ms) v s = None" if "va_floor start_va \<le> v" "v < va_ceil end_va"
    using none V' that by blast
  show "translate (page_table ms') v s' = translate (page_table ms) v s"
    if "\<forall>w. va_floor start_va \<le> w \<and> w < va_ceil end_va \<longrightarrow> \<not> same_page v w"
    using sd(8) [of v] that V' by (simp add: ms')
  show "mem s' x = mem s x"
    if "p \<in> frames_used l s" "p \<notin> set (pt_frames (page_table ms))" "in_page p x"
    using sd(12) that .
  show "\<exists>f. translate (page_table ms') v s' = Some (PTE_new f (perm OR PTE_V)) \<and>
      f \<notin> frames_used l s \<and> f \<in> frames_used l s' \<and> (\<forall>x. in_page f x \<longrightarrow> mem s' x = 0)"
    if "va_floor start_va \<le> v" "v < va_ceil end_va"
  proof -
    have "v \<in> fst ` set (data_frames a')" using sd(5) V' that by simp
    then obtain f where f: "(v, f) \<in> set (data_frames a')" by auto
    have "area_ok pt' s' a'" using mi by (simp add: mapping_inv_def)
    from area_okD(4) [OF this f] sd(3) a(3)
    have "translate (page_table ms') v s' = Some (PTE_new f (perm OR PTE_V))" by (simp add: ms')
    moreover have "f \<notin> frames_used l s" "\<And>x. in_page f x \<Longrightarrow> mem s' x = 0"
      using sd(6) [OF f] sd(7) [OF f] a(1) by auto
    moreover have "f \<in> frames_used l s'" using sd(9) f by force
    ultimately show ?thesis by blast
  qed
qed

text \<open>
  When the frames run out, \<^verbatim>\<open>insert_framed_area\<close> gives the frames it took back to the allocator, but
  the entries it wrote stay in the page table.
\<close>

lemma insert_framed_area_error:
  assumes inv: "ms_inv l (ms, s)"
    and er: "insert_framed_area start_va end_va perm (ms, s) = Ok (Inl e, ms', s')"
  shows "ms_inv l (ms', s')" and "areas ms' = areas ms"
    and "frames_used l s' = frames_used l s \<union> set (pt_frames (page_table ms'))"
    and "\<lbrakk>translate (page_table ms) v s = None; translate (page_table ms') v s' = Some pte\<rbrakk> \<Longrightarrow>
      pte_ppn pte \<notin> frames_used l s'"
proof -
  define a where "a = \<lparr>vpn_range = \<lparr>range_l = va_floor start_va, range_r = va_ceil end_va\<rparr>,
    data_frames = [], map_type = Framed, map_perm = perm\<rparr>"
  note rng = insert_framed_area_Ok(1) [OF er]
  from insert_framed_area_Ok(2) [OF er] obtain a' pt' t where
    am: "area_map (a, page_table ms, s) = Ok (Inl e, a', pt', t)" and
    dr: "drop_area a' t = Ok s'" and ms': "ms' = ms\<lparr>page_table := pt'\<rparr>"
    unfolding a_def [symmetric] by (cases rule: push_None_Ok) auto
  have a: "data_frames a = []" "map_type a = Framed" "range_l (vpn_range a) \<le> range_r (vpn_range a)"
    using rng by (simp_all add: a_def)
  obtain V where
    mi: "mapping_inv l (set (area_frames (areas ms))) (a', pt', t)" and
    step: "mapping_step l V (a, page_table ms, s) (a', pt', t)" and
    aok: "\<And>b. b \<in> set (areas ms) \<Longrightarrow> area_ok pt' t b"
    by (rule area_map_fresh [OF inv a am]) (rule that)
  note sd = mapping_stepD [OF step]
  from mi have pti: "pt_inv l (pt', t)" and dist: "distinct (map snd (data_frames a'))"
    and used: "snd ` set (data_frames a') \<subseteq> frames_used l t"
    and disj: "snd ` set (data_frames a') \<inter> (set (pt_frames pt') \<union> set (area_frames (areas ms))) = {}"
    and Q: "set (area_frames (areas ms)) \<subseteq> frames_used l t"
      "set (area_frames (areas ms)) \<inter> set (pt_frames pt') = {}"
    by (simp_all add: mapping_inv_def)
  from drop_frames_spec [of l t "map snd (data_frames a')"] pti dist used dr
  have s': "frames_inv l s'" "frames_used l s' = frames_used l t - snd ` set (data_frames a')"
    "mem s' = mem t"
    by (auto simp: drop_area_def pt_inv_def)
  have fresh: "snd ` set (data_frames a') \<inter> frames_used l s = {}" using sd(6) a(1) by auto
  have ptu: "set (pt_frames pt') \<subseteq> frames_used l s'" using s'(2) disj pti by (auto simp: pt_inv_def)
  have pti': "pt_inv l (pt', s')" by (rule pt_inv_mem_cong [OF pti s'(1) ptu]) (simp add: s'(3))
  have tr: "translate pt' v s' = translate pt' v t" for v
    by (rule translate_mem_cong [OF pti]) (simp add: s'(3))
  show "areas ms' = areas ms" by (simp add: ms')
  show "frames_used l s' = frames_used l s \<union> set (pt_frames (page_table ms'))"
    using s'(2) sd(9) fresh disj by (auto simp: ms')
  have "area_ok pt' s' b" if "b \<in> set (areas ms)" for b
    by (rule area_ok_cong [OF aok [OF that] tr])
  then show "ms_inv l (ms', s')"
    using pti' ms_invD(4) [OF inv] Q disj s'(2) by (auto simp: ms_inv_def ms')
  show "pte_ppn pte \<notin> frames_used l s'"
    if "translate (page_table ms) v s = None" "translate (page_table ms') v s' = Some pte"
  proof -
    have t: "translate pt' v t = Some pte" using that(2) tr by (simp add: ms')
    with that(1) sd(8) [of v] obtain w where w: "w \<in> V" "same_page v w" by auto
    then obtain f where f: "(w, f) \<in> set (data_frames a')" using sd(5) by force
    have "area_ok pt' t a'" using mi by (simp add: mapping_inv_def)
    from area_okD(4) [OF this f] t translate_same_page [OF w(2)]
    have "pte = PTE_new f (map_perm a' OR PTE_V)" by auto
    moreover have "ppn_ok f" using used f pti frames_used_ok [of l t f] by (force simp: pt_inv_def)
    ultimately show ?thesis using f s'(2) by force
  qed
qed

end
