(* ===== verification/MemorySetOps.thy ===== *)
theory MemorySetOps
  imports MemorySet
begin

text \<open>
  When mapping an area returns (with enough free frames it always does), and taking pages out of a
  memory set (\<^verbatim>\<open>MemorySet::remove_mapped_frames\<close>, the operation behind \<^verbatim>\<open>munmap\<close>): it either refuses
  and changes nothing, or unmaps exactly the pages of the range and gives exactly their frames back.
\<close>

section \<open>Mapping returns\<close>

text \<open>A page costs at most three frames: its own and two tables.\<close>

lemma map_one_total:
  assumes inv: "mapping_inv l Q (a, pt, s)" and new: "map_of (data_frames a) vpn = None"
    and none: "translate pt vpn s = None" and free: "3 \<le> card (frames_free l s)"
  shows "\<exists>a' pt' s'. map_one vpn (a, pt, s) = Ok (Inr (), a', pt', s') \<and>
    card (frames_free l s) \<le> card (frames_free l s') + 3"
proof -
  from inv have pti: "pt_inv l (pt, s)" and fr: "map_type a = Framed"
    by (auto simp: mapping_inv_def)
  then have fi: "frames_inv l s" and ptu: "set (pt_frames pt) \<subseteq> frames_used l s"
    by (auto simp: pt_inv_def)
  have "frames_free l s \<noteq> {}" using free by auto
  from frame_alloc_total [OF fi this] obtain f s1 where al: "frame_alloc s = (Some f, s1)" by blast
  note f = frame_alloc_Some [OF fi al] and ff = frame_alloc_free [OF fi al]
  have m1: "mem s1 x = mem s x" if "p \<in> set (pt_frames pt)" "in_page p x" for p x
    using that f(2,4,6) ptu frames_used_ok [OF fi, of p] in_page_unique [of p f x] by auto
  have pti1: "pt_inv l (pt, s1)"
    by (rule pt_inv_mem_cong [OF pti f(1)]) (use ptu f(3) m1 in auto)
  have "translate pt vpn s1 = None" using none translate_mem_cong [OF pti m1] by simp
  moreover have "2 \<le> card (frames_free l s1)" using free ff(3) by simp
  ultimately obtain pt' s' where "pt_map vpn f (map_perm a) (pt, s1) = Ok (pt', s')"
    "card (frames_free l s1) \<le> card (frames_free l s') + 2" using pt_map_total [OF pti1] by blast
  with al fr new free ff(3) show ?thesis by (simp add: map_one_def drop_option_def)
qed

lemma map_loop_total:
  assumes "mapping_inv l Q (a, pt, s)" and "distinct vpns"
    and "\<forall>v \<in> set vpns. map_of (data_frames a) v = None \<and>
      range_l (vpn_range a) \<le> v \<and> v < range_r (vpn_range a) \<and> translate pt v s = None"
    and "\<forall>v \<in> set vpns. \<forall>w \<in> set vpns. same_page v w \<longrightarrow> v = w"
    and "3 * length vpns \<le> card (frames_free l s)"
  shows "\<exists>a' pt' s'. map_loop vpns (a, pt, s) = Ok (Inr (), a', pt', s') \<and>
    card (frames_free l s) \<le> card (frames_free l s') + 3 * length vpns"
  using assms
proof (induction vpns arbitrary: a pt s)
  case Nil
  then show ?case by simp
next
  case (Cons v vpns)
  have v: "map_of (data_frames a) v = None" "translate pt v s = None"
    "range_l (vpn_range a) \<le> v" "v < range_r (vpn_range a)"
    and free: "3 \<le> card (frames_free l s)" using Cons.prems(3,5) by auto
  from map_one_total [OF Cons.prems(1) v(1,2) free] obtain b pu t where
    one: "map_one v (a, pt, s) = Ok (Inr (), b, pu, t)"
    and f: "card (frames_free l s) \<le> card (frames_free l t) + 3" by blast
  note mo = map_one_framed [OF Cons.prems(1) v(1,3,4) one] and st = mapping_stepD [OF map_one_framed(2) [OF Cons.prems(1) v(1,3,4) one]]
  have "map_of (data_frames b) w = None \<and> range_l (vpn_range b) \<le> w \<and> w < range_r (vpn_range b) \<and>
      translate pu w t = None" if w: "w \<in> set vpns" for w
  proof -
    have "w \<noteq> v" "\<not> same_page w v" using Cons.prems(2,4) w by auto
    moreover have "w \<notin> fst ` set (data_frames a)" "range_l (vpn_range a) \<le> w \<and> w < range_r (vpn_range a)"
      "translate pt w s = None"
      using Cons.prems(3) w by (auto simp: map_of_eq_None_iff)
    ultimately show ?thesis using st(1,5) st(8) [of w] unfolding map_of_eq_None_iff by simp
  qed
  moreover have "3 * length vpns \<le> card (frames_free l t)" using Cons.prems(5) f by simp
  ultimately obtain a' pt' s' where "map_loop vpns (b, pu, t) = Ok (Inr (), a', pt', s')"
    "card (frames_free l t) \<le> card (frames_free l s') + 3 * length vpns"
    using Cons.IH [OF mo(1)] Cons.prems(2,4) by auto
  with f one show ?case by auto
qed

text \<open>Pages below the 27-bit bound of SV39 are the same page only when they are equal.\<close>

lemma same_page_small:
  assumes "unat (vpn0 v) < 2 ^ 27" and "unat (vpn0 w) < 2 ^ 27"
  shows "same_page v w \<longleftrightarrow> v = w"
proof -
  have "take_bit 27 x = x" if "unat x < 2 ^ 27" for x :: usize
    using that by (simp add: word_unat_eq_iff unat_take_bit)
  with assms show ?thesis by (auto simp: same_page_def intro: VirtPageNum.expand)
qed

lemma insert_framed_area_total:
  assumes inv: "ms_inv l (ms, s)" and rng: "va_floor start_va \<le> va_ceil end_va"
    and small: "unat (vpn0 (va_ceil end_va)) \<le> 2 ^ 27"
    and none: "\<And>v. \<lbrakk>va_floor start_va \<le> v; v < va_ceil end_va\<rbrakk> \<Longrightarrow> translate (page_table ms) v s = None"
    and free: "3 * (unat (vpn0 (va_ceil end_va)) - unat (vpn0 (va_floor start_va))) \<le> card (frames_free l s)"
  shows "\<exists>ms' s'. insert_framed_area start_va end_va perm (ms, s) = Ok (Inr (), ms', s')"
proof -
  define r where "r = \<lparr>range_l = va_floor start_va, range_r = va_ceil end_va\<rparr>"
  define a where "a = \<lparr>vpn_range = r, data_frames = [], map_type = Framed, map_perm = perm\<rparr>"
  have new: "VPNRange_new (va_floor start_va) (va_ceil end_va) = Ok r"
    using rng by (simp add: VPNRange_new_eq_Ok r_def)
  have r: "range_l r \<le> range_r r" using rng by (simp add: r_def)
  have mi: "mapping_inv l (set (area_frames (areas ms))) (a, page_table ms, s)"
    using ms_invD [OF inv] by (auto simp: mapping_inv_def area_ok_def a_def)
  have set: "v \<in> set (range_vpns r) \<longleftrightarrow> va_floor start_va \<le> v \<and> v < va_ceil end_va" for v
    by (simp add: set_range_vpns [OF r]) (simp add: r_def)
  have len: "length (range_vpns r) = unat (vpn0 (va_ceil end_va)) - unat (vpn0 (va_floor start_va))"
    by (simp add: range_vpns_eq [OF r]) (simp add: r_def)
  have "same_page v w \<longrightarrow> v = w" if "v < va_ceil end_va" "w < va_ceil end_va" for v w
    using that small same_page_small [of v w] by (simp add: page_order_defs word_nat)
  moreover have "data_frames a = []" "range_l (vpn_range a) = va_floor start_va"
    "range_r (vpn_range a) = va_ceil end_va" by (simp_all add: a_def r_def)
  ultimately have "\<exists>a' pt' s'. map_loop (range_vpns r) (a, page_table ms, s) = Ok (Inr (), a', pt', s') \<and>
      card (frames_free l s) \<le> card (frames_free l s') + 3 * length (range_vpns r)"
    by (intro map_loop_total [OF mi range_vpns_distinct(1) [OF r]])
       (use none free len in \<open>auto simp: set\<close>)
  then show ?thesis
    by (auto simp: insert_framed_area_def MapArea_new_def new push_def area_map_def a_def)
qed

section \<open>Positions and bindings\<close>

lemma position_Some:
  "position P xs = Some i \<Longrightarrow> i < length xs \<and> P (xs ! i)"
  by (induction xs arbitrary: i) (auto split: if_splits)

lemma position_None: "position P xs = None \<longleftrightarrow> (\<forall>x \<in> set xs. \<not> P x)"
  by (induction xs) auto

lemma remove_nth_update: "i < length xs \<Longrightarrow> remove_nth i (xs[i := y]) = remove_nth i xs"
  by (simp add: remove_nth_def)

text \<open>All pages of a memory set with the frames that back them.\<close>

definition bindings :: "MapArea list \<Rightarrow> frame_map" where
  "bindings as = concat (map data_frames as)"

lemma bindings_simps [simp]:
  "bindings [] = []" "bindings (a # as) = data_frames a @ bindings as"
  "bindings (as @ bs) = bindings as @ bindings bs"
  by (simp_all add: bindings_def)

lemma area_frames_bindings: "area_frames as = map snd (bindings as)"
  by (simp add: area_frames_def bindings_def map_concat comp_def)

lemma set_bindings: "set (bindings as) = (\<Union>a \<in> set as. set (data_frames a))"
  by (auto simp: bindings_def)

lemma owns_vpn_iff: "owns_vpn v a \<longleftrightarrow> v \<in> fst ` set (data_frames a)"
  by (metis owns_vpn_def map_of_eq_None_iff)

lemma binding_translate:
  assumes "ms_inv l (ms, s)" and "(v, f) \<in> set (bindings (areas ms))"
  obtains p where "translate (page_table ms) v s = Some (PTE_new f (p OR PTE_V))" and "ppn_ok f"
proof -
  from assms(2) obtain a where a: "a \<in> set (areas ms)" "(v, f) \<in> set (data_frames a)"
    by (auto simp: set_bindings)
  have "f \<in> set (area_frames (areas ms))" using assms(2) by (force simp: area_frames_bindings)
  then have "ppn_ok f" using ms_invD(2,5) [OF assms(1)] frames_used_ok by blast
  with that area_okD(4) [OF ms_invD(3) [OF assms(1) a(1)] a(2)] show thesis by blast
qed

lemma binding_same_page:
  assumes "ms_inv l (ms, s)" and b: "(v, f) \<in> set (bindings (areas ms))" "(w, g) \<in> set (bindings (areas ms))"
    and "same_page v w"
  shows "(v, f) = (w, g)"
proof -
  obtain p where p: "translate (page_table ms) v s = Some (PTE_new f (p OR PTE_V))" "ppn_ok f"
    by (rule binding_translate [OF assms(1) b(1)])
  obtain q where q: "translate (page_table ms) w s = Some (PTE_new g (q OR PTE_V))" "ppn_ok g"
    by (rule binding_translate [OF assms(1) b(2)])
  have "PTE_new f (p OR PTE_V) = PTE_new g (q OR PTE_V)"
    using p(1) q(1) translate_same_page [OF assms(4)] by simp
  then have "f = g" using pte_new_ppn [OF p(2)] pte_new_ppn [OF q(2)] by metis
  moreover have "inj_on snd (set (bindings (areas ms)))"
    using ms_invD(4) [OF assms(1)] by (simp add: area_frames_bindings distinct_map)
  ultimately show ?thesis using b inj_onD [of snd _ "(v, f)" "(w, g)"] by simp
qed

lemma bindings_distinct:
  assumes "ms_inv l (ms, s)"
  shows "distinct (map fst (bindings (areas ms)))"
proof -
  have "distinct (map snd (bindings (areas ms)))"
    using ms_invD(4) [OF assms] by (simp add: area_frames_bindings)
  moreover have "inj_on fst (set (bindings (areas ms)))"
    using binding_same_page [OF assms] by (auto intro!: inj_onI)
  ultimately show ?thesis by (simp add: distinct_map)
qed

lemma fm_remove_append [simp]: "fm_remove v (xs @ ys) = fm_remove v xs @ fm_remove v ys"
  by (simp add: fm_remove_def)

lemma set_fm_remove: "set (fm_remove v m) = {b \<in> set m. fst b \<noteq> v}"
  by (auto simp: fm_remove_def)

lemma map_of_fm_remove [simp]: "map_of (fm_remove v m) v = None"
  by (auto simp: map_of_eq_None_iff set_fm_remove)

text \<open>One page of an area is given back.\<close>

lemma unmap_one_framed:
  assumes inv: "ms_inv l (ms, s)" and a: "a \<in> set (areas ms)" "(vpn, f) \<in> set (data_frames a)"
  shows "\<exists>s'. unmap_one vpn (a, page_table ms, s) =
        Ok (a\<lparr>data_frames := fm_remove vpn (data_frames a)\<rparr>, page_table ms, s') \<and>
      pt_inv l (page_table ms, s') \<and> frames_used l s' = frames_used l s - {f} \<and>
      (\<forall>v. translate (page_table ms) v s' =
        (if same_page v vpn then None else translate (page_table ms) v s)) \<and>
      (\<forall>x. (\<forall>p \<in> set (pt_frames (page_table ms)). \<not> in_page p x) \<longrightarrow> mem s' x = mem s x)"
proof -
  note d = ms_invD [OF inv] and ok = area_okD [OF ms_invD(3) [OF inv a(1)]]
  have fr: "map_type a = Framed" using ok(3) a(2) by (cases "map_type a") auto
  have mo: "map_of (data_frames a) vpn = Some f" using ok(2) a(2) by simp
  have f: "f \<in> set (area_frames (areas ms))" using in_area_frames [OF a] by simp
  obtain t where t: "frame_dealloc f s = Ok t" "frames_inv l t" "frames_used l t = frames_used l s - {f}"
    "mem t = mem s"
    using frame_dealloc_used [OF d(2), of f] f d(5) by blast
  have ptu: "set (pt_frames (page_table ms)) \<subseteq> frames_used l t" using t(3) d(6,7) f by auto
  have pti: "pt_inv l (page_table ms, t)"
    by (rule pt_inv_mem_cong [OF d(1) t(2) ptu]) (simp add: t(4))
  have tr: "translate (page_table ms) v t = translate (page_table ms) v s" for v
    by (rule translate_mem_cong [OF d(1)]) (simp add: t(4))
  obtain s' where s': "pt_unmap vpn (page_table ms, t) = Ok (page_table ms, s')"
    using pt_unmap_total [of "page_table ms" vpn t] tr ok(4) [OF a(2)] by auto
  note u = pt_unmap_spec [OF pti s']
  have "frames_used l s' = frames_used l t" using u(4) by (simp add: frames_used_def)
  moreover have "unmap_one vpn (a, page_table ms, s) =
      Ok (a\<lparr>data_frames := fm_remove vpn (data_frames a)\<rparr>, page_table ms, s')"
    by (simp add: unmap_one_def fr drop_option_def mo t(1) s')
  moreover have "mem s' x = mem s x" if "\<forall>p \<in> set (pt_frames (page_table ms)). \<not> in_page p x" for x
    using u(2) that t(4) by (auto simp: pt_ext_def)
  ultimately show ?thesis using u(1,5) t(3) tr by auto
qed

lemma remove_mapped_one_spec:
  assumes inv: "ms_inv l (ms, s)" and b: "(vpn, f) \<in> set (bindings (areas ms))"
  shows "\<exists>ms' s'. remove_mapped_one vpn (ms, s) = Ok (ms', s') \<and> ms_inv l (ms', s') \<and>
      page_table ms' = page_table ms \<and> bindings (areas ms') = fm_remove vpn (bindings (areas ms)) \<and>
      frames_used l s' = frames_used l s - {f} \<and>
      (\<forall>v. translate (page_table ms) v s' =
        (if same_page v vpn then None else translate (page_table ms) v s)) \<and>
      (\<forall>x. (\<forall>p \<in> set (pt_frames (page_table ms)). \<not> in_page p x) \<longrightarrow> mem s' x = mem s x)"
proof -
  note d = ms_invD [OF inv]
  obtain i where pos: "position (owns_vpn vpn) (areas ms) = Some i"
    using b position_None [of "owns_vpn vpn" "areas ms"]
    by (cases "position (owns_vpn vpn) (areas ms)") (force simp: set_bindings owns_vpn_iff)+
  define a where "a = areas ms ! i"
  have i: "i < length (areas ms)" "a \<in> set (areas ms)" "owns_vpn vpn a"
    using position_Some [OF pos] by (auto simp: a_def)
  then obtain g where g: "(vpn, g) \<in> set (data_frames a)" by (auto simp: owns_vpn_iff)
  then have "(vpn, g) \<in> set (bindings (areas ms))" using i(2) by (auto simp: set_bindings)
  with b have "g = f" using binding_same_page [OF inv _ b, of vpn g] by simp
  with g have af: "(vpn, f) \<in> set (data_frames a)" by simp
  define a' where "a' = a\<lparr>data_frames := fm_remove vpn (data_frames a)\<rparr>"
  obtain s' where s': "unmap_one vpn (a, page_table ms, s) = Ok (a', page_table ms, s')"
    "pt_inv l (page_table ms, s')" "frames_used l s' = frames_used l s - {f}"
    "\<And>v. translate (page_table ms) v s' = (if same_page v vpn then None else translate (page_table ms) v s)"
    "\<And>x. (\<forall>p \<in> set (pt_frames (page_table ms)). \<not> in_page p x) \<Longrightarrow> mem s' x = mem s x"
    using unmap_one_framed [OF inv i(2) af] unfolding a'_def by blast
  define pre post where "pre = take i (areas ms)" and "post = drop (Suc i) (areas ms)"
  have split: "areas ms = pre @ a # post" unfolding pre_def post_def a_def by (rule id_take_nth_drop [OF i(1)])
  define as' where "as' = pre @ (if data_frames a' = [] then [] else [a']) @ post"
  have upd: "(areas ms)[i := a'] = pre @ a' # post"
    unfolding pre_def post_def by (rule upd_conv_take_nth_drop [OF i(1)])
  have rem: "remove_nth i (areas ms) = pre @ post" by (simp add: remove_nth_def pre_def post_def)
  have none: "map_of (data_frames a') vpn = None" and
    idem: "fm_remove vpn (data_frames a') = data_frames a'"
    by (simp_all add: a'_def fm_remove_absent)
  have run: "remove_mapped_one vpn (ms, s) = Ok (ms\<lparr>areas := as'\<rparr>, s')"
    using pos s'(1) remove_nth_update [OF i(1), of a'] rem upd
    by (simp add: remove_mapped_one_def a_def [symmetric] drop_option_def as'_def idem none)
  have "vpn \<notin> fst ` set (bindings pre)" "vpn \<notin> fst ` set (bindings post)"
    using bindings_distinct [OF inv] af by (force simp: split)+
  then have bs: "bindings as' = fm_remove vpn (bindings (areas ms))"
    by (simp add: as'_def split fm_remove_absent map_of_eq_None_iff) (simp add: a'_def)
  have aok: "area_ok (page_table ms) s' c" if c: "c \<in> set as'" for c
  proof -
    from c have "c = a' \<or> c \<in> set (areas ms)" by (auto simp: as'_def split split: if_splits)
    then obtain c0 where c0: "c0 \<in> set (areas ms)" "vpn_range c = vpn_range c0" "map_perm c = map_perm c0"
      "map_type c = map_type c0" "c = c0 \<or> c = a' \<and> c0 = a"
      using i(2) by (auto simp: a'_def)
    note ok = area_okD [OF d(3) [OF c0(1)]]
    have sub: "set (data_frames c) \<subseteq> set (data_frames c0)" and
      srt: "sorted (map fst (data_frames c))" "distinct (map fst (data_frames c))"
      using c0(5) ok(1,2) by (auto simp: a'_def set_fm_remove fm_remove_def sorted_filter distinct_map_filter)
    have "\<not> same_page v vpn" if "(v, h) \<in> set (data_frames c)" for v h
    proof
      assume "same_page v vpn"
      moreover have "(v, h) \<in> set (bindings as')" using c that by (auto simp: set_bindings)
      then have "v \<noteq> vpn" "(v, h) \<in> set (bindings (areas ms))" by (auto simp: bs set_fm_remove)
      ultimately show False using binding_same_page [OF inv _ b, of v h] by auto
    qed
    then show ?thesis using ok(3-6) sub srt unfolding area_ok_def c0(2-4) s'(4) by auto
  qed
  have "set (area_frames as') \<subseteq> set (area_frames (areas ms))" "distinct (area_frames as')"
    using d(4) by (auto simp: area_frames_bindings bs set_fm_remove fm_remove_def distinct_map_filter)
  moreover have "f \<notin> set (area_frames as')"
  proof
    assume "f \<in> set (area_frames as')"
    then obtain w where "(w, f) \<in> set (bindings (areas ms))" "w \<noteq> vpn"
      by (auto simp: area_frames_bindings bs set_fm_remove)
    moreover have "inj_on snd (set (bindings (areas ms)))"
      using d(4) by (simp add: area_frames_bindings distinct_map)
    ultimately show False using b inj_onD [of snd _ "(w, f)" "(vpn, f)"] by simp
  qed
  ultimately have "ms_inv l (ms\<lparr>areas := as'\<rparr>, s')"
    using s'(2,3) aok d(5,6) by (auto simp: ms_inv_def)
  with run bs s'(3-5) show ?thesis by auto
qed

lemma remove_loop_spec:
  assumes "ms_inv l (ms, s)" and "distinct vpns" and "set vpns \<subseteq> fst ` set (bindings (areas ms))"
  shows "\<exists>ms' s'. fold_res remove_mapped_one vpns (ms, s) = Ok (ms', s') \<and> ms_inv l (ms', s') \<and>
      page_table ms' = page_table ms \<and>
      bindings (areas ms') = filter (\<lambda>b. fst b \<notin> set vpns) (bindings (areas ms)) \<and>
      frames_used l s' = frames_used l s - {f. \<exists>v \<in> set vpns. (v, f) \<in> set (bindings (areas ms))} \<and>
      (\<forall>v. translate (page_table ms) v s' =
        (if \<exists>w \<in> set vpns. same_page v w then None else translate (page_table ms) v s)) \<and>
      (\<forall>x. (\<forall>p \<in> set (pt_frames (page_table ms)). \<not> in_page p x) \<longrightarrow> mem s' x = mem s x)"
  using assms
proof (induction vpns arbitrary: ms s)
  case Nil
  then show ?case by simp
next
  case (Cons v vpns)
  from Cons.prems(3) obtain f where f: "(v, f) \<in> set (bindings (areas ms))" by auto
  from remove_mapped_one_spec [OF Cons.prems(1) f] obtain ms1 s1 where
    one: "remove_mapped_one v (ms, s) = Ok (ms1, s1)" "ms_inv l (ms1, s1)" "page_table ms1 = page_table ms"
      "bindings (areas ms1) = fm_remove v (bindings (areas ms))" "frames_used l s1 = frames_used l s - {f}"
      "\<And>w. translate (page_table ms) w s1 = (if same_page w v then None else translate (page_table ms) w s)"
      "\<And>x. (\<forall>p \<in> set (pt_frames (page_table ms)). \<not> in_page p x) \<Longrightarrow> mem s1 x = mem s x"
    by blast
  have sub: "set vpns \<subseteq> fst ` set (bindings (areas ms1))"
    using Cons.prems(2,3) by (force simp: one(4) set_fm_remove)
  have "distinct vpns" using Cons.prems(2) by simp
  from Cons.IH [OF one(2) this sub] obtain ms' s' where
    rest: "fold_res remove_mapped_one vpns (ms1, s1) = Ok (ms', s')" "ms_inv l (ms', s')"
      "page_table ms' = page_table ms1"
      "bindings (areas ms') = filter (\<lambda>b. fst b \<notin> set vpns) (bindings (areas ms1))"
      "frames_used l s' = frames_used l s1 - {f. \<exists>v \<in> set vpns. (v, f) \<in> set (bindings (areas ms1))}"
      "\<And>w. translate (page_table ms1) w s' =
        (if \<exists>u \<in> set vpns. same_page w u then None else translate (page_table ms1) w s1)"
      "\<And>x. (\<forall>p \<in> set (pt_frames (page_table ms1)). \<not> in_page p x) \<Longrightarrow> mem s' x = mem s1 x"
    by blast
  have "fold_res remove_mapped_one (v # vpns) (ms, s) = Ok (ms', s')" using one(1) rest(1) by simp
  moreover have "page_table ms' = page_table ms" using rest(3) one(3) by simp
  moreover have "bindings (areas ms') = filter (\<lambda>b. fst b \<notin> set (v # vpns)) (bindings (areas ms))"
    by (auto simp: rest(4) one(4) fm_remove_def intro: filter_cong)
  moreover have "frames_used l s' =
      frames_used l s - {f. \<exists>w \<in> set (v # vpns). (w, f) \<in> set (bindings (areas ms))}"
  proof -
    have "{f. \<exists>w \<in> set vpns. (w, f) \<in> set (bindings (areas ms1))} =
        {f. \<exists>w \<in> set vpns. (w, f) \<in> set (bindings (areas ms))}"
      using Cons.prems(2) by (auto simp: one(4) set_fm_remove)
    moreover have "(v, g) \<in> set (bindings (areas ms)) \<longleftrightarrow> g = f" for g
      using binding_same_page [OF Cons.prems(1) _ f, of v g] f by auto
    then have "{f. \<exists>w \<in> set (v # vpns). (w, f) \<in> set (bindings (areas ms))} =
        insert f {f. \<exists>w \<in> set vpns. (w, f) \<in> set (bindings (areas ms))}"
      by auto
    ultimately show ?thesis unfolding rest(5) one(5) by (metis Diff_insert2)
  qed
  moreover have "translate (page_table ms) w s' =
      (if \<exists>u \<in> set (v # vpns). same_page w u then None else translate (page_table ms) w s)" for w
    using rest(6) [of w] one(3,6) by simp
  moreover have "mem s' x = mem s x" if "\<forall>p \<in> set (pt_frames (page_table ms)). \<not> in_page p x" for x
    using that rest(7) one(3,7) by simp
  ultimately show ?case using rest(2) by blast
qed

lemma remove_mapped_frames_unowned:
  assumes "va_floor start_va \<le> va_ceil end_va"
    and "va_floor start_va \<le> v" "v < va_ceil end_va" and "v \<notin> fst ` set (bindings (areas ms))"
  shows "remove_mapped_frames start_va end_va (ms, s) = Ok (-1, ms, s)"
proof -
  have "position (owns_vpn v) (areas ms) = None"
    using assms(4) by (force simp: position_None owns_vpn_iff set_bindings)
  then show ?thesis using assms(1-3)
    by (auto simp: remove_mapped_frames_def VPNRange_new_def assert_that_def set_range_vpns)
qed

lemma remove_mapped_frames_owned:
  assumes inv: "ms_inv l (ms, s)" and rng: "va_floor start_va \<le> va_ceil end_va"
    and own: "\<And>v. va_floor start_va \<le> v \<Longrightarrow> v < va_ceil end_va \<Longrightarrow> v \<in> fst ` set (bindings (areas ms))"
  shows "\<exists>ms' s'. remove_mapped_frames start_va end_va (ms, s) = Ok (0, ms', s') \<and> ms_inv l (ms', s') \<and>
      page_table ms' = page_table ms \<and>
      bindings (areas ms') = filter (\<lambda>b. \<not> (va_floor start_va \<le> fst b \<and> fst b < va_ceil end_va)) (bindings (areas ms)) \<and>
      frames_used l s' = frames_used l s -
        {f. \<exists>v. va_floor start_va \<le> v \<and> v < va_ceil end_va \<and> (v, f) \<in> set (bindings (areas ms))} \<and>
      (\<forall>v. translate (page_table ms) v s' =
        (if \<exists>w. va_floor start_va \<le> w \<and> w < va_ceil end_va \<and> same_page v w then None
         else translate (page_table ms) v s)) \<and>
      (\<forall>x. (\<forall>p \<in> set (pt_frames (page_table ms)). \<not> in_page p x) \<longrightarrow> mem s' x = mem s x)"
proof -
  define r where "r = \<lparr>range_l = va_floor start_va, range_r = va_ceil end_va\<rparr>"
  have r: "range_l r \<le> range_r r" using rng by (simp add: r_def)
  have new: "VPNRange_new (va_floor start_va) (va_ceil end_va) = Ok r"
    using rng by (simp add: VPNRange_new_eq_Ok r_def)
  have set: "v \<in> set (range_vpns r) \<longleftrightarrow> va_floor start_va \<le> v \<and> v < va_ceil end_va" for v
    by (simp add: set_range_vpns [OF r]) (simp add: r_def)
  have sub: "set (range_vpns r) \<subseteq> fst ` set (bindings (areas ms))" using own set by blast
  have all: "\<not> (\<exists>v \<in> set (range_vpns r). position (owns_vpn v) (areas ms) = None)"
    using sub by (force simp: position_None owns_vpn_iff set_bindings)
  show ?thesis
    using remove_loop_spec [OF inv range_vpns_distinct(1) [OF r] sub] all
    unfolding remove_mapped_frames_def new set Bex_def conj_assoc
    by (auto simp: Bex_def set)
qed

text \<open>What a successful \<^verbatim>\<open>insert_framed_area\<close> adds to the bindings.\<close>

lemma insert_framed_area_binds:
  assumes inv: "ms_inv l (ms, s)"
    and ok: "insert_framed_area start_va end_va perm (ms, s) = Ok (Inr u, ms', s')"
  obtains df where "bindings (areas ms') = bindings (areas ms) @ df"
    and "fst ` set df = {v. va_floor start_va \<le> v \<and> v < va_ceil end_va}"
    and "frames_used l s' = frames_used l s \<union> snd ` set df \<union> set (pt_frames (page_table ms'))"
    and "snd ` set df \<inter> (frames_used l s \<union> set (pt_frames (page_table ms'))) = {}"
proof -
  define a where "a = \<lparr>vpn_range = \<lparr>range_l = va_floor start_va, range_r = va_ceil end_va\<rparr>,
    data_frames = [], map_type = Framed, map_perm = perm\<rparr>"
  have a: "data_frames a = []" "map_type a = Framed" "range_l (vpn_range a) \<le> range_r (vpn_range a)"
    using insert_framed_area_Ok(1) [OF ok] by (simp_all add: a_def)
  from insert_framed_area_Ok(2) [OF ok] obtain a' pt' where
    am: "area_map (a, page_table ms, s) = Ok (Inr (), a', pt', s')" and
    ms': "ms' = ms\<lparr>page_table := pt', areas := areas ms @ [a']\<rparr>"
    unfolding a_def [symmetric] by (cases rule: push_None_Ok) auto
  from area_map_fresh [OF inv a am] obtain V where
    mi: "mapping_inv l (set (area_frames (areas ms))) (a', pt', s')" and
    step: "mapping_step l V (a, page_table ms, s) (a', pt', s')" and
    V: "V = set (range_vpns (vpn_range a))"
    by auto
  note sd = mapping_stepD [OF step]
  have "fst ` set (data_frames a') = {v. va_floor start_va \<le> v \<and> v < va_ceil end_va}"
    unfolding sd(5) V set_range_vpns [OF a(3)] by (simp add: a_def)
  moreover have "snd ` set (data_frames a') \<inter> (frames_used l s \<union> set (pt_frames pt')) = {}"
    using sd(6) a(1) mi by (auto simp: mapping_inv_def)
  ultimately show thesis using that [of "data_frames a'"] sd(9) by (simp add: ms')
qed

text \<open>Writing to pages that hold no page table keeps the invariant and every translation.\<close>

lemma ms_inv_write:
  assumes inv: "ms_inv l (ms, s)"
    and m: "\<And>p x. p \<in> set (pt_frames (page_table ms)) \<Longrightarrow> in_page p x \<Longrightarrow> m x = mem s x"
  shows "ms_inv l (ms, s\<lparr>mem := m\<rparr>)"
    and "translate (page_table ms) v (s\<lparr>mem := m\<rparr>) = translate (page_table ms) v s"
proof -
  note d = ms_invD [OF inv]
  show tr: "translate (page_table ms) v (s\<lparr>mem := m\<rparr>) = translate (page_table ms) v s" for v
    by (rule translate_mem_cong [OF d(1)]) (simp add: m)
  have "pt_inv l (page_table ms, s\<lparr>mem := m\<rparr>)"
    by (rule pt_inv_mem_cong [OF d(1)]) (use d(2,7) m in auto)
  moreover have "area_ok (page_table ms) (s\<lparr>mem := m\<rparr>) a" if "a \<in> set (areas ms)" for a
    by (rule area_ok_cong [OF d(3) [OF that] tr])
  ultimately show "ms_inv l (ms, s\<lparr>mem := m\<rparr>)" using d(4-6) by (simp add: ms_inv_def)
qed

lemma store_bytes_outside:
  assumes "ppn_ok p" and "ppn_ok q" and "p \<noteq> q" and "length bs \<le> 4096" and "in_page q x"
  shows "store_bytes m (page_base p) bs x = m x"
proof -
  have "\<not> in_page p x" using assms in_page_unique by blast
  with assms(4) show ?thesis by (simp add: store_bytes_def in_page_def Let_def)
qed

end
