(* ===== verification/UserMem.thy ===== *)
theory UserMem
  imports PageTable
begin

text \<open>
  How the kernel reaches user memory (\<^verbatim>\<open>os/src/mm/page_table.rs\<close>): \<^verbatim>\<open>translated_byte_buffers\<close>,
  \<^verbatim>\<open>translated_str\<close>, \<^verbatim>\<open>translated_ref\<close>, \<^verbatim>\<open>translated_refmut\<close> and the byte iterator of \<^verbatim>\<open>UserBuffer\<close>.
  A slice \<^verbatim>\<open>&'static mut [u8]\<close> of physical memory is its first address and its length.
\<close>

section \<open>Translation of user pointers\<close>

type_synonym byte_slice = "usize \<times> nat"

definition slice_addrs :: "byte_slice \<Rightarrow> usize list" where
  "slice_addrs b = map (\<lambda>k. fst b + of_nat k) [0..<snd b]"

text \<open>\<^verbatim>\<open>ppn.get_bytes_array()[a..b]\<close>.\<close>

definition page_slice :: "PhysPageNum \<Rightarrow> nat \<Rightarrow> nat \<Rightarrow> byte_slice res" where
  "page_slice ppn a b =
     (if a \<le> b \<and> b \<le> 4096 then Ok (page_base ppn + of_nat a, b - a) else Panic OutOfBounds)"

text \<open>One round of the loop: the slice it pushes and the next value of \<^verbatim>\<open>start\<close>.\<close>

definition next_slice :: "PageTable \<Rightarrow> mm_state \<Rightarrow> usize \<Rightarrow> usize \<Rightarrow> (byte_slice \<times> usize) res" where
  "next_slice pt s start end' =
     (let start_va = VirtAddr_from start;
          vpn = va_floor start_va
      in bind_res (unwrap (translate pt vpn s)) (\<lambda>pte.
           let ppn = pte_ppn pte;
               end_va = min (VirtAddr_from_vpn (vpn_step vpn)) (VirtAddr_from end');
               hi = (if va_page_offset end_va = 0 then 4096 else unat (va_page_offset end_va))
           in bind_res (page_slice ppn (unat (va_page_offset start_va)) hi) (\<lambda>b.
              Ok (b, va0 end_va))))"

text \<open>The \<^verbatim>\<open>while\<close> loop; \<open>None\<close> when it does not end.\<close>

partial_function (option) buffers_loop ::
    "PageTable \<Rightarrow> mm_state \<Rightarrow> usize \<Rightarrow> usize \<Rightarrow> byte_slice list \<Rightarrow> byte_slice list res option" where
  "buffers_loop pt s start end' v =
     (if start < end'
      then (case next_slice pt s start end' of
              Panic e \<Rightarrow> Some (Panic e)
            | Ok (b, start') \<Rightarrow> buffers_loop pt s start' end' (v @ [b]))
      else Some (Ok v))"

definition translated_byte_buffers ::
    "usize \<Rightarrow> usize \<Rightarrow> usize \<Rightarrow> mm_state \<Rightarrow> byte_slice list res option" where
  "translated_byte_buffers tok ptr len s = buffers_loop (from_token tok) s ptr (ptr + len) []"

partial_function (option) str_loop ::
    "PageTable \<Rightarrow> mm_state \<Rightarrow> usize \<Rightarrow> u8 list \<Rightarrow> u8 list res option" where
  "str_loop pt s va string =
     (case translate_va pt (VirtAddr_from va) s of
        None \<Rightarrow> Some (Panic UnwrapNone)
      | Some pa \<Rightarrow>
          let ch = mem s (pa0 pa)
          in if ch = 0 then Some (Ok string) else str_loop pt s (va + 1) (string @ [ch]))"

definition translated_str :: "usize \<Rightarrow> usize \<Rightarrow> mm_state \<Rightarrow> u8 list res option" where
  "translated_str tok ptr s = str_loop (from_token tok) s ptr []"

text \<open>\<^verbatim>\<open>translated_ref\<close> and \<^verbatim>\<open>translated_refmut\<close>: the physical address of the value.\<close>

definition translated_ref :: "usize \<Rightarrow> usize \<Rightarrow> mm_state \<Rightarrow> usize res" where
  "translated_ref tok ptr s =
     bind_res (unwrap (translate_va (from_token tok) (VirtAddr_from ptr) s)) (\<lambda>pa. Ok (pa0 pa))"

definition translated_refmut :: "usize \<Rightarrow> usize \<Rightarrow> mm_state \<Rightarrow> usize res" where
  "translated_refmut tok va s =
     bind_res (unwrap (translate_va (from_token tok) (VirtAddr_from va) s)) (\<lambda>pa. Ok (pa0 pa))"

section \<open>User buffers\<close>

definition UserBuffer_len :: "byte_slice list \<Rightarrow> usize" where
  "UserBuffer_len buffers = fold (\<lambda>b total. total + of_nat (snd b)) buffers 0"

record UserBufferIterator =
  buffers :: "byte_slice list"
  current_buffer :: nat
  current_idx :: nat

definition UserBuffer_into_iter :: "byte_slice list \<Rightarrow> UserBufferIterator" where
  "UserBuffer_into_iter bs = \<lparr>buffers = bs, current_buffer = 0, current_idx = 0\<rparr>"

definition UserBuffer_next :: "UserBufferIterator \<Rightarrow> (usize option \<times> UserBufferIterator) res" where
  "UserBuffer_next it =
     (if current_buffer it \<ge> length (buffers it) then Ok (None, it)
      else let b = buffers it ! current_buffer it in
        if current_idx it < snd b then
          let r = fst b + of_nat (current_idx it)
          in if current_idx it + 1 = snd b
             then Ok (Some r, it\<lparr>current_idx := 0, current_buffer := current_buffer it + 1\<rparr>)
             else Ok (Some r, it\<lparr>current_idx := current_idx it + 1\<rparr>)
        else Panic OutOfBounds)"

text \<open>The addresses that a loop over the iterator visits.\<close>

definition iter_left :: "UserBufferIterator \<Rightarrow> nat" where
  "iter_left it = sum_list (map snd (drop (current_buffer it) (buffers it))) - current_idx it"

lemma UserBuffer_next_left:
  assumes "UserBuffer_next it = Ok (Some r, it')"
  shows "iter_left it' < iter_left it"
proof -
  let ?c = "current_buffer it" and ?i = "current_idx it"
  define b where "b = buffers it ! ?c"
  from assms have c: "?c < length (buffers it)" and i: "?i < snd b"
    by (auto simp: UserBuffer_next_def Let_def b_def split: if_splits)
  have d: "drop ?c (buffers it) = b # drop (Suc ?c) (buffers it)"
    unfolding b_def by (rule Cons_nth_drop_Suc [OF c, symmetric])
  from assms c i have "it' = (if ?i + 1 = snd b then it\<lparr>current_idx := 0, current_buffer := ?c + 1\<rparr>
      else it\<lparr>current_idx := ?i + 1\<rparr>)"
    by (auto simp: UserBuffer_next_def Let_def b_def split: if_splits)
  with i show ?thesis by (auto simp: iter_left_def d)
qed

function UserBuffer_collect :: "UserBufferIterator \<Rightarrow> usize list res" where
  "UserBuffer_collect it =
     (case UserBuffer_next it of
        Panic e \<Rightarrow> Panic e
      | Ok (None, _) \<Rightarrow> Ok []
      | Ok (Some r, it') \<Rightarrow> bind_res (UserBuffer_collect it') (\<lambda>rs. Ok (r # rs)))"
  by pat_completeness auto
termination
  by (relation "measure iter_left") (auto dest: UserBuffer_next_left)

declare UserBuffer_collect.simps [simp del]

lemma UserBuffer_collect_aux:
  assumes "\<forall>b \<in> set bs. 0 < snd b" and "c < length bs" and "i < snd (bs ! c)"
  shows "UserBuffer_collect \<lparr>buffers = bs, current_buffer = c, current_idx = i\<rparr> =
    Ok (drop i (slice_addrs (bs ! c)) @ concat (map slice_addrs (drop (Suc c) bs)))"
  using assms
proof (induction "iter_left \<lparr>buffers = bs, current_buffer = c, current_idx = i\<rparr>"
    arbitrary: c i rule: less_induct)
  case less
  let ?it = "\<lparr>buffers = bs, current_buffer = c, current_idx = i\<rparr>" and ?b = "bs ! c"
  have hd: "drop i (slice_addrs ?b) = (fst ?b + of_nat i) # drop (Suc i) (slice_addrs ?b)"
    using less.prems(3) by (subst Cons_nth_drop_Suc [symmetric]) (simp_all add: slice_addrs_def)
  show ?case
  proof (cases "i + 1 = snd ?b")
    case False
    let ?it' = "\<lparr>buffers = bs, current_buffer = c, current_idx = i + 1\<rparr>"
    have nx: "UserBuffer_next ?it = Ok (Some (fst ?b + of_nat i), ?it')"
      using less.prems False by (simp add: UserBuffer_next_def Let_def)
    have "UserBuffer_collect ?it' =
        Ok (drop (i + 1) (slice_addrs ?b) @ concat (map slice_addrs (drop (Suc c) bs)))"
      using less.prems False by (intro less.hyps [OF UserBuffer_next_left [OF nx]]) auto
    then show ?thesis unfolding UserBuffer_collect.simps [of ?it] nx hd by simp
  next
    case True
    let ?it' = "\<lparr>buffers = bs, current_buffer = c + 1, current_idx = 0\<rparr>"
    have nx: "UserBuffer_next ?it = Ok (Some (fst ?b + of_nat i), ?it')"
      using less.prems True by (simp add: UserBuffer_next_def Let_def)
    have tl: "drop (Suc i) (slice_addrs ?b) = []" using True by (simp add: slice_addrs_def)
    have "UserBuffer_collect ?it' = Ok (concat (map slice_addrs (drop (Suc c) bs)))"
    proof (cases "c + 1 < length bs")
      case lt: True
      have "UserBuffer_collect ?it' =
          Ok (drop 0 (slice_addrs (bs ! (c + 1))) @ concat (map slice_addrs (drop (Suc (c + 1)) bs)))"
        using less.prems(1) lt by (intro less.hyps [OF UserBuffer_next_left [OF nx]]) auto
      then show ?thesis using Cons_nth_drop_Suc [of "Suc c" bs] lt by (simp flip: Cons_nth_drop_Suc)
    next
      case False
      then have "UserBuffer_next ?it' = Ok (None, ?it')" by (simp add: UserBuffer_next_def)
      with False show ?thesis unfolding UserBuffer_collect.simps [of ?it'] by simp
    qed
    then show ?thesis unfolding UserBuffer_collect.simps [of ?it] nx hd tl by simp
  qed
qed

text \<open>Iterating over a buffer without empty slices visits the bytes of the slices in order.\<close>

lemma UserBuffer_collect_eq:
  assumes "\<forall>b \<in> set bs. 0 < snd b"
  shows "UserBuffer_collect (UserBuffer_into_iter bs) = Ok (concat (map slice_addrs bs))"
proof (cases bs)
  case Nil
  then show ?thesis
    by (simp add: UserBuffer_into_iter_def UserBuffer_collect.simps [of "\<lparr>buffers = _, current_buffer = _, current_idx = _\<rparr>"]
        UserBuffer_next_def)
next
  case (Cons b bs')
  with assms show ?thesis
    using UserBuffer_collect_aux [of bs 0 0] by (simp add: UserBuffer_into_iter_def)
qed

lemma UserBuffer_len_eq:
  "UserBuffer_len bs = of_nat (length (concat (map slice_addrs bs)))"
proof -
  have "fold (\<lambda>b total. total + of_nat (snd b)) bs n =
      n + of_nat (length (concat (map slice_addrs bs)))" for n :: usize
    by (induction bs arbitrary: n) (simp_all add: slice_addrs_def)
  then show ?thesis by (simp add: UserBuffer_len_def)
qed

section \<open>Translation is right\<close>

text \<open>The physical address of a byte of user memory, when its page is mapped.\<close>

lemma translate_va_eq:
  "translate_va pt va s =
     map_option (\<lambda>pte. PhysAddr (page_base (pte_ppn pte) + va_page_offset va)) (translate pt (va_floor va) s)"
proof -
  have "PhysAddr_from (pa0 (PhysAddr_from_ppn (pte_ppn e)) + va_page_offset va) =
      PhysAddr (page_base (pte_ppn e) + va_page_offset va)" for e
  proof -
    have "unat (va_page_offset va) < 4096"
      by (simp add: va_page_offset_def and_PAGE_SIZE unat_take_bit)
    with unat_page_offset [OF ppn_ok_pte_ppn, of "unat (va_page_offset va)" e]
    have u: "unat (page_base (pte_ppn e) + va_page_offset va) =
        unat (ppn0 (pte_ppn e)) * 4096 + unat (va_page_offset va)" by simp
    have "unat (page_base (pte_ppn e) + va_page_offset va) < 2 ^ 56"
      using ppn_ok_pte_ppn [of e] \<open>unat (va_page_offset va) < 4096\<close> unfolding u ppn_ok_def by simp
    then show ?thesis
      by (simp add: PhysAddr_from_take_bit page_base_def [symmetric] word_unat_eq_iff unat_take_bit)
  qed
  then show ?thesis
    by (cases "find_pte pt (va_floor va) s") (auto simp: translate_va_def translate_def)
qed

definition user_pa :: "PageTable \<Rightarrow> mm_state \<Rightarrow> usize \<Rightarrow> usize" where
  "user_pa pt s va = pa0 (the (translate_va pt (VirtAddr_from va) s))"

text \<open>Every page of the addresses \<open>a, \<dots>, e - 1\<close> is mapped.\<close>

definition user_mapped :: "PageTable \<Rightarrow> mm_state \<Rightarrow> nat \<Rightarrow> nat \<Rightarrow> bool" where
  "user_mapped pt s a e =
     (\<forall>x \<in> {a..<e}. translate pt (va_floor (VirtAddr_from (of_nat x))) s \<noteq> None)"

lemma va_small:
  assumes "unat a < 2 ^ 39"
  shows "VirtAddr_from a = VirtAddr a" and "unat (vpn0 (va_floor (VirtAddr_from a))) = unat a div 4096"
    and "unat (va_page_offset (VirtAddr_from a)) = unat a mod 4096"
proof -
  show v: "VirtAddr_from a = VirtAddr a"
    using assms by (simp add: VirtAddr_from_take_bit word_unat_eq_iff unat_take_bit)
  show "unat (vpn0 (va_floor (VirtAddr_from a))) = unat a div 4096"
    "unat (va_page_offset (VirtAddr_from a)) = unat a mod 4096"
    unfolding v va_floor_def va_page_offset_def div_PAGE_SIZE and_PAGE_SIZE
    by (simp_all add: unat_drop_bit unat_take_bit)
qed

lemma next_page_start:
  assumes "unat a < 2 ^ 39"
  shows "unat (va0 (VirtAddr_from_vpn (vpn_step (va_floor (VirtAddr_from a))))) = (unat a div 4096 + 1) * 4096"
proof -
  let ?v = "vpn0 (va_floor (VirtAddr_from a))"
  have v: "unat ?v = unat a div 4096" by (rule va_small(2) [OF assms])
  have b: "unat a div 4096 < 2 ^ 27" using assms by simp
  from v b show ?thesis
    by (simp add: VirtAddr_from_vpn_def vpn_step_def push_bit_eq_mult unat_word_ariths)
qed

lemma same_page_arith:
  fixes n e h :: nat
  assumes "n < e" and "h = min ((n div 4096 + 1) * 4096) e"
  shows "n < h" and "h \<le> e" and "(if h mod 4096 = 0 then 4096 else h mod 4096) - n mod 4096 = h - n"
    and "n mod 4096 \<le> (if h mod 4096 = 0 then 4096 else h mod 4096)"
    and "\<And>k. k < h - n \<Longrightarrow> (n + k) div 4096 = n div 4096"
    and "\<And>k. k < h - n \<Longrightarrow> (n + k) mod 4096 = n mod 4096 + k"
proof -
  define q r where "q = n div 4096" and "r = n mod 4096"
  have n: "n = q * 4096 + r" "r < 4096" by (simp_all add: q_def r_def)
  have h: "n < h" "h \<le> q * 4096 + 4096" "h \<le> e" using assms n by (auto simp: q_def [symmetric] min_def)
  then show "n < h" "h \<le> e" by simp_all
  have hm: "(if h mod 4096 = 0 then 4096 else h mod 4096) = h - q * 4096"
  proof (cases "h = q * 4096 + 4096")
    case False
    then have "h - q * 4096 < 4096" "h = (h - q * 4096) + q * 4096" "0 < h - q * 4096" using h n by auto
    then show ?thesis by (metis mod_less mod_mult_self1 less_numeral_extra(3))
  qed simp
  show "(if h mod 4096 = 0 then 4096 else h mod 4096) - n mod 4096 = h - n"
    "n mod 4096 \<le> (if h mod 4096 = 0 then 4096 else h mod 4096)"
    unfolding hm r_def [symmetric] using n h by auto
  fix k assume k: "k < h - n"
  then have rk: "r + k < 4096" and nk: "n + k = (r + k) + q * 4096" using n h by auto
  show "(n + k) div 4096 = n div 4096" "(n + k) mod 4096 = n mod 4096 + k"
    unfolding nk q_def [symmetric] r_def [symmetric] mod_mult_self1 using rk by simp_all
qed

lemma next_slice_spec:
  assumes lt: "start < end'" and e: "unat end' < 2 ^ 39"
    and map: "translate pt (va_floor (VirtAddr_from start)) s = Some pte"
  defines "h \<equiv> min ((unat start div 4096 + 1) * 4096) (unat end')"
  shows "\<exists>b. next_slice pt s start end' = Ok (b, of_nat h) \<and> snd b = h - unat start \<and>
    slice_addrs b = map (\<lambda>x. user_pa pt s (of_nat x)) [unat start..<h]"
proof -
  have n: "unat start < unat end'" using lt by (simp add: word_nat)
  then have s: "unat start < 2 ^ 39" using e by simp
  note ar = same_page_arith [OF n h_def [THEN meta_eq_to_obj_eq]]
  have h64: "unat (of_nat h :: usize) = h" using ar(2) e by (intro unat_of_nat_64) simp
  have ee: "VirtAddr_from end' = VirtAddr end'" by (rule va_small(1) [OF e])
  define end_va where "end_va = min (VirtAddr_from_vpn (vpn_step (va_floor (VirtAddr_from start)))) (VirtAddr_from end')"
  have "unat (va0 end_va) = h"
    unfolding end_va_def ee min_def less_eq_VirtAddr_def
    by (simp add: word_nat next_page_start [OF s] h_def min_def)
  then have ev: "va0 end_va = of_nat h" using h64 by (simp add: word_unat_eq_iff)
  have off: "unat (va_page_offset end_va) = h mod 4096"
    using h64 by (simp add: va_page_offset_def and_PAGE_SIZE ev unat_take_bit)
  define hi where "hi = (if va_page_offset end_va = 0 then 4096 else unat (va_page_offset end_va))"
  have hi: "hi = (if h mod 4096 = 0 then 4096 else h mod 4096)"
    unfolding hi_def off [symmetric] by (simp add: unat_gt_0)
  let ?o = "unat start mod 4096" and ?p = "pte_ppn pte"
  let ?b = "(page_base ?p + of_nat ?o, h - unat start)"
  have "page_slice ?p ?o hi = Ok ?b"
    using ar(3,4) unfolding hi [symmetric] by (auto simp: page_slice_def hi)
  then have "next_slice pt s start end' = Ok (?b, of_nat h)"
    unfolding next_slice_def Let_def end_va_def [symmetric] hi_def [symmetric]
    by (simp add: map va_small(3) [OF s] ev)
  moreover have "slice_addrs ?b = map (\<lambda>x. user_pa pt s (of_nat x)) [unat start..<h]"
  proof (rule nth_equalityI)
    show "length (slice_addrs ?b) = length (map (\<lambda>x. user_pa pt s (of_nat x)) [unat start..<h])"
      by (simp add: slice_addrs_def)
    fix k assume "k < length (slice_addrs ?b)"
    then have k: "k < h - unat start" by (simp add: slice_addrs_def)
    let ?a = "of_nat (unat start + k) :: usize"
    have a: "unat ?a = unat start + k" using k ar(2) e by (intro unat_of_nat_64) simp
    then have a39: "unat ?a < 2 ^ 39" using k ar(2) e by simp
    have "va_floor (VirtAddr_from ?a) = va_floor (VirtAddr_from start)"
      by (rule VirtPageNum.expand)
         (simp only: word_unat_eq_iff va_small(2) [OF a39] va_small(2) [OF s] a ar(5) [OF k])
    moreover have "va_page_offset (VirtAddr_from ?a) = of_nat (?o + k)"
    proof -
      have "va_page_offset (VirtAddr_from ?a) = of_nat (unat (va_page_offset (VirtAddr_from ?a)))" by simp
      also have "unat (va_page_offset (VirtAddr_from ?a)) = ?o + k"
        unfolding va_small(3) [OF a39] a by (rule ar(6) [OF k])
      finally show ?thesis .
    qed
    ultimately show "slice_addrs ?b ! k = map (\<lambda>x. user_pa pt s (of_nat x)) [unat start..<h] ! k"
      using k by (simp add: slice_addrs_def user_pa_def translate_va_eq map add.assoc)
  qed
  ultimately show ?thesis by auto
qed

text \<open>
  Below the end of the user address space the loop ends, and the slices it returns are exactly the
  bytes of the range, in order, none of them empty.
\<close>

lemma buffers_loop_spec:
  assumes "start \<le> end'" and "unat end' < 2 ^ 39" and "user_mapped pt s (unat start) (unat end')"
  shows "\<exists>w. buffers_loop pt s start end' v = Some (Ok (v @ w)) \<and> (\<forall>b \<in> set w. 0 < snd b) \<and>
    concat (map slice_addrs w) = map (\<lambda>x. user_pa pt s (of_nat x)) [unat start..<unat end']"
  using assms
proof (induction "unat end' - unat start" arbitrary: start v rule: less_induct)
  case less
  show ?case
  proof (cases "start < end'")
    case False
    then have "start = end'" using less.prems(1) by simp
    then show ?thesis by (subst buffers_loop.simps) simp
  next
    case lt: True
    define h where "h = min ((unat start div 4096 + 1) * 4096) (unat end')"
    have n: "unat start < unat end'" using lt by (simp add: word_nat)
    note ar = same_page_arith [OF n h_def]
    have h64: "unat (of_nat h :: usize) = h" using ar(2) less.prems(2) by (intro unat_of_nat_64) simp
    have "translate pt (va_floor (VirtAddr_from (of_nat (unat start)))) s \<noteq> None"
      using less.prems(3) n unfolding user_mapped_def by (intro bspec [where x = "unat start"]) auto
    then obtain pte where "translate pt (va_floor (VirtAddr_from start)) s = Some pte" by auto
    from next_slice_spec [OF lt less.prems(2) this] obtain b where
      b: "next_slice pt s start end' = Ok (b, of_nat h)" "snd b = h - unat start"
        "slice_addrs b = map (\<lambda>x. user_pa pt s (of_nat x)) [unat start..<h]"
      unfolding h_def by auto
    have "\<exists>w. buffers_loop pt s (of_nat h) end' (v @ [b]) = Some (Ok ((v @ [b]) @ w)) \<and>
        (\<forall>b \<in> set w. 0 < snd b) \<and>
        concat (map slice_addrs w) = map (\<lambda>x. user_pa pt s (of_nat x)) [h..<unat end']"
      using less.hyps [of "of_nat h" "v @ [b]"] less.prems(2,3) n ar(1,2) h64
      by (auto simp: word_nat user_mapped_def)
    then obtain w where w: "buffers_loop pt s (of_nat h) end' (v @ [b]) = Some (Ok ((v @ [b]) @ w))"
      "\<forall>b \<in> set w. 0 < snd b"
      "concat (map slice_addrs w) = map (\<lambda>x. user_pa pt s (of_nat x)) [h..<unat end']" by blast
    have "buffers_loop pt s start end' v = Some (Ok (v @ b # w))"
      by (subst buffers_loop.simps) (simp add: lt b(1) w(1))
    moreover have "concat (map slice_addrs (b # w)) = map (\<lambda>x. user_pa pt s (of_nat x)) [unat start..<unat end']"
      using upt_add_eq_append [of "unat start" h "unat end' - h"] ar(1,2) by (simp add: b(3) w(3))
    moreover have "\<forall>c \<in> set (b # w). 0 < snd c" using w(2) b(2) ar(1) by simp
    ultimately show ?thesis by blast
  qed
qed

lemma translated_str_loop:
  assumes "\<And>k. k \<le> n \<Longrightarrow> translate_va pt (VirtAddr_from (va + of_nat k)) s \<noteq> None"
    and "\<And>k. k < n \<Longrightarrow> mem s (user_pa pt s (va + of_nat k)) \<noteq> 0"
    and "mem s (user_pa pt s (va + of_nat n)) = 0"
  shows "str_loop pt s va acc = Some (Ok (acc @ map (\<lambda>k. mem s (user_pa pt s (va + of_nat k))) [0..<n]))"
  using assms
proof (induction n arbitrary: va acc)
  case 0
  then obtain pa where "translate_va pt (VirtAddr_from va) s = Some pa" by fastforce
  with 0(3) show ?case by (subst str_loop.simps) (simp add: user_pa_def)
next
  case (Suc n)
  from Suc.prems(1) [of 0] obtain pa where pa: "translate_va pt (VirtAddr_from va) s = Some pa"
    by fastforce
  then have ne: "mem s (pa0 pa) \<noteq> 0" using Suc.prems(2) [of 0] by (simp add: user_pa_def)
  have "str_loop pt s (va + 1) (acc @ [mem s (pa0 pa)]) =
      Some (Ok ((acc @ [mem s (pa0 pa)]) @ map (\<lambda>k. mem s (user_pa pt s (va + 1 + of_nat k))) [0..<n]))"
  proof (rule Suc.IH)
    show "translate_va pt (VirtAddr_from (va + 1 + of_nat k)) s \<noteq> None" if "k \<le> n" for k
      using Suc.prems(1) [of "Suc k"] that by (simp add: add.assoc)
    show "mem s (user_pa pt s (va + 1 + of_nat k)) \<noteq> 0" if "k < n" for k
      using Suc.prems(2) [of "Suc k"] that by (simp add: add.assoc)
    show "mem s (user_pa pt s (va + 1 + of_nat n)) = 0"
      using Suc.prems(3) by (simp add: add.assoc)
  qed
  moreover have "map (\<lambda>k. mem s (user_pa pt s (va + of_nat k))) [0..<Suc n] =
      mem s (pa0 pa) # map (\<lambda>k. mem s (user_pa pt s (va + 1 + of_nat k))) [0..<n]"
    unfolding upt_conv_Cons [OF zero_less_Suc] map_Suc_upt [symmetric]
    by (simp add: user_pa_def pa add.assoc)
  ultimately show ?case using ne by (subst str_loop.simps) (simp add: pa Let_def)
qed

text \<open>
  At the upper end of the address space the loop need not end: for a range that ends at \<open>2 ^ 39\<close>,
  \<^verbatim>\<open>VirtAddr::from(end)\<close> is address zero, and once page zero is mapped every round starts there again.
\<close>

lemma next_slice_stuck:
  assumes "translate pt (VirtPageNum 0) s = Some pte"
  shows "next_slice pt s 0 (2 ^ 39) = Ok ((page_base (pte_ppn pte), 4096), 0)"
proof -
  have "VirtAddr_from (2 ^ 39) = VirtAddr 0" "VirtAddr_from 0 = VirtAddr 0"
    by (simp_all add: VirtAddr_from_take_bit)
  moreover have "min x (VirtAddr 0) = VirtAddr 0" for x
    by (simp add: min_def less_eq_VirtAddr_def VirtAddr.expand)
  ultimately show ?thesis using assms
    by (simp add: next_slice_def Let_def va_floor_def va_page_offset_def page_slice_def)
qed

lemma buffers_loop_stuck:
  assumes "translate pt (VirtPageNum 0) s = Some pte"
  shows "buffers_loop pt s 0 (2 ^ 39) v = None"
proof -
  have "\<not> (pt' = pt \<and> s' = s \<and> a = 0 \<and> e = 2 ^ 39)" if "buffers_loop pt' s' a e v = Some r" for pt' s' a e v r
    by (rule buffers_loop.raw_induct [OF _ that, where P = "\<lambda>pt' s' a e v r. \<not> (pt' = pt \<and> s' = s \<and> a = 0 \<and> e = 2 ^ 39)"])
       (use next_slice_stuck [OF assms] in \<open>fastforce split: if_splits\<close>)
  then show ?thesis by (cases "buffers_loop pt s 0 (2 ^ 39) v") fastforce+
qed

end
