(* ===== verification/SyscallMemory.thy ===== *)
theory SyscallMemory
  imports MemorySetOps UserMem
begin

text \<open>
  \<^verbatim>\<open>os/src/syscall/memory.rs\<close>: \<^verbatim>\<open>sys_mmap\<close> and \<^verbatim>\<open>sys_munmap\<close>, with
  \<^verbatim>\<open>current_memory_set_mmap\<close> and \<^verbatim>\<open>current_memory_set_munmap\<close> of \<^verbatim>\<open>os/src/task/mod.rs\<close>. The state is
  the memory set of the current process and the memory subsystem.
\<close>

section \<open>The system calls\<close>

definition page_round_up :: "usize \<Rightarrow> usize" where
  "page_round_up len = ((len + PAGE_SIZE - 1) div PAGE_SIZE) * PAGE_SIZE"

definition current_user_table :: "MemorySet \<Rightarrow> PageTable" where
  "current_user_table ms = from_token (ms_token ms)"

definition prot_perm :: "usize \<Rightarrow> MapPermission" where
  "prot_perm prot = MP_U OR (if prot AND 1 \<noteq> 0 then MP_R else 0)
     OR (if prot AND 2 \<noteq> 0 then MP_W else 0) OR (if prot AND 4 \<noteq> 0 then MP_X else 0)"

definition sys_mmap :: "usize \<Rightarrow> usize \<Rightarrow> usize \<Rightarrow> ms_state \<Rightarrow> (int \<times> ms_state) res" where
  "sys_mmap start len prot st = (case st of (ms, s) \<Rightarrow>
     if start AND (PAGE_SIZE - 1) \<noteq> 0 \<or> prot AND (NOT 7) \<noteq> 0 \<or> prot AND 7 = 0 then Ok (-1, st)
     else
       let len = page_round_up len;
           start_vpn = va_floor (VirtAddr_from start);
           end_vpn = va_ceil (VirtAddr_from (start + len))
       in bind_res (VPNRange_new start_vpn end_vpn) (\<lambda>r.
          if \<exists>vpn \<in> set (range_vpns r). translate (current_user_table ms) vpn s \<noteq> None then Ok (-1, st)
          else
            bind_res (insert_framed_area (VirtAddr_from start) (VirtAddr_from (start + len))
                        (prot_perm prot) st) (\<lambda>(result, st).
            Ok (case result of Inr _ \<Rightarrow> 0 | Inl _ \<Rightarrow> -1, st))))"

definition sys_munmap :: "usize \<Rightarrow> usize \<Rightarrow> ms_state \<Rightarrow> (int \<times> ms_state) res" where
  "sys_munmap start len st = (case st of (ms, s) \<Rightarrow>
     if start AND (PAGE_SIZE - 1) \<noteq> 0 then Ok (-1, st)
     else
       let len = page_round_up len;
           start_vpn = va_floor (VirtAddr_from start);
           end_vpn = va_ceil (VirtAddr_from (start + len))
       in bind_res (VPNRange_new start_vpn end_vpn) (\<lambda>r.
          if \<exists>vpn \<in> set (range_vpns r). translate (current_user_table ms) vpn s = None then Ok (-1, st)
          else remove_mapped_frames (VirtAddr_from start) (VirtAddr_from (start + len)) st))"

section \<open>The pages of a request\<close>

text \<open>
  The pages \<open>n, \<dots>, n + k - 1\<close>; a request for \<open>len\<close> bytes covers \<open>pages_of len\<close> pages.
\<close>

definition page_set :: "nat \<Rightarrow> nat \<Rightarrow> VirtPageNum set" where
  "page_set n k = {v. n \<le> unat (vpn0 v) \<and> unat (vpn0 v) < n + k}"

definition pages_of :: "usize \<Rightarrow> nat" where
  "pages_of len = (unat len + 4095) div 4096"

text \<open>A request that stays below the upper end of the 39-bit address space.\<close>

definition request_ok :: "usize \<Rightarrow> usize \<Rightarrow> bool" where
  "request_ok start len = (unat start mod 4096 = 0 \<and> unat start + pages_of len * 4096 < 2 ^ 39)"

lemma va_ceil_small:
  assumes "unat a < 2 ^ 39"
  shows "unat (vpn0 (va_ceil (VirtAddr_from a))) = (unat a + 4095) div 4096"
proof -
  have c: "a - 1 + PAGE_SIZE = a + 4095" by (simp add: PAGE_SIZE_def)
  have "unat (a + 4095) = unat a + 4095" using assms by (simp add: unat_word_ariths)
  then show ?thesis
    unfolding va_ceil_def va_small(1) [OF assms] VirtAddr.sel VirtPageNum.sel c div_PAGE_SIZE
    by (simp add: unat_drop_bit)
qed

lemma request_range:
  assumes "request_ok start len"
  defines "lo \<equiv> va_floor (VirtAddr_from start)"
    and "hi \<equiv> va_ceil (VirtAddr_from (start + page_round_up len))"
  shows "unat (vpn0 lo) = unat start div 4096" and "unat (vpn0 hi) = unat start div 4096 + pages_of len"
    and "lo \<le> hi" and "unat (vpn0 hi) \<le> 2 ^ 27" and "{v. lo \<le> v \<and> v < hi} = page_set (unat start div 4096) (pages_of len)"
    and "start AND (PAGE_SIZE - 1) = 0"
proof -
  from assms(1) have al: "unat start mod 4096 = 0" and le: "unat start + pages_of len * 4096 < 2 ^ 39"
    by (auto simp: request_ok_def)
  have s: "unat start < 2 ^ 39" using le by simp
  show lo: "unat (vpn0 lo) = unat start div 4096" unfolding lo_def by (rule va_small(2) [OF s])
  have "pages_of len < 2 ^ 27" using le by simp
  then have "unat len + 4095 < 2 ^ 64" unfolding pages_of_def by (simp add: div_less_iff_less_mult)
  then have "unat (len + PAGE_SIZE - 1) = unat len + 4095"
    by (simp add: PAGE_SIZE_def unat_word_ariths flip: add_diff_eq)
  then have "unat ((len + PAGE_SIZE - 1) div PAGE_SIZE) = pages_of len"
    by (simp add: div_PAGE_SIZE unat_drop_bit pages_of_def)
  then have "unat (page_round_up len) = pages_of len * 4096 mod 2 ^ 64"
    unfolding page_round_up_def unat_word_ariths by (simp add: PAGE_SIZE_def)
  then have "unat (page_round_up len) = pages_of len * 4096" using le by simp
  then have sum: "unat (start + page_round_up len) = unat start + pages_of len * 4096"
    using le by (simp add: unat_word_ariths)
  have "unat (vpn0 hi) = (unat start + pages_of len * 4096 + 4095) div 4096"
    unfolding hi_def using va_ceil_small [of "start + page_round_up len"] le sum by simp
  also have "\<dots> = unat start div 4096 + pages_of len"
  proof -
    define q where "q = unat start div 4096"
    have q: "unat start = q * 4096" using al div_mult_mod_eq [of "unat start" 4096] by (simp add: q_def)
    have "unat start + pages_of len * 4096 + 4095 = 4095 + (q + pages_of len) * 4096"
      unfolding q by (simp add: algebra_simps)
    then show ?thesis using q by simp
  qed
  finally show hi: "unat (vpn0 hi) = unat start div 4096 + pages_of len" .
  show "lo \<le> hi" by (simp add: page_order_defs word_nat lo hi)
  show "unat (vpn0 hi) \<le> 2 ^ 27" unfolding hi using le div_mult_mod_eq [of "unat start" 4096] by simp
  show "{v. lo \<le> v \<and> v < hi} = page_set (unat start div 4096) (pages_of len)"
    by (simp add: page_set_def page_order_defs word_nat lo hi)
  show "start AND (PAGE_SIZE - 1) = 0"
    using al by (simp add: and_PAGE_SIZE word_unat_eq_iff unat_take_bit)
qed

lemma from_token_translate:
  assumes "pt_inv l (pt, s)"
  shows "translate (from_token (token pt)) v s' = translate pt v s'"
proof -
  have "pt_tree (mem s) (root_ppn pt) (set (pt_frames pt))" using assms by (simp add: pt_inv_def)
  then have "root_ppn pt \<in> set (pt_frames pt)"
    by (rule pt_tree_mem [of _ _ _ "[]"]) (auto simp: table_path_def)
  then have "ppn_ok (root_ppn pt)" by (rule pt_inv_frames_ok [OF assms])
  then show ?thesis by (simp add: translate_eq_leaf from_token_root)
qed

lemma current_user_table_translate:
  assumes "ms_inv l (ms, s)"
  shows "translate (current_user_table ms) v s = translate (page_table ms) v s"
  unfolding current_user_table_def ms_token_def by (rule from_token_translate [OF ms_invD(1) [OF assms]])

lemma page_set_small:
  assumes "v \<in> page_set n k" and "n + k \<le> 2 ^ 27" and "same_page w v" and "unat (vpn0 w) < 2 ^ 27"
  shows "w = v"
  using assms same_page_small [of w v] by (simp add: page_set_def)

section \<open>What the calls do\<close>

lemma sys_mmap_refused:
  assumes "start AND (PAGE_SIZE - 1) \<noteq> 0 \<or> prot AND (NOT 7) \<noteq> 0 \<or> prot AND 7 = 0"
  shows "sys_mmap start len prot st = Ok (-1, st)"
  using assms by (auto simp: sys_mmap_def split: prod.splits)

lemma request_VPNRange:
  assumes "request_ok start len"
  obtains r where
    "VPNRange_new (va_floor (VirtAddr_from start)) (va_ceil (VirtAddr_from (start + page_round_up len))) = Ok r"
    and "set (range_vpns r) = page_set (unat start div 4096) (pages_of len)"
proof -
  note rr = request_range [OF assms]
  let ?r = "\<lparr>range_l = va_floor (VirtAddr_from start), range_r = va_ceil (VirtAddr_from (start + page_round_up len))\<rparr>"
  have "set (range_vpns ?r) = page_set (unat start div 4096) (pages_of len)"
    using set_range_vpns [of ?r] rr(3,5) by simp
  with that [of ?r] rr(3) show thesis by (simp add: VPNRange_new_eq_Ok)
qed

lemma sys_mmap_busy:
  assumes "ms_inv l (ms, s)" and "request_ok start len"
    and "v \<in> page_set (unat start div 4096) (pages_of len)" and "translate (page_table ms) v s \<noteq> None"
  shows "sys_mmap start len prot (ms, s) = Ok (-1, ms, s)"
proof -
  obtain r where r: "VPNRange_new (va_floor (VirtAddr_from start)) (va_ceil (VirtAddr_from (start + page_round_up len))) = Ok r"
    "set (range_vpns r) = page_set (unat start div 4096) (pages_of len)"
    by (rule request_VPNRange [OF assms(2)])
  have "\<exists>v \<in> set (range_vpns r). translate (current_user_table ms) v s \<noteq> None"
    using assms(3,4) r(2) by (auto simp: current_user_table_translate [OF assms(1)])
  then show ?thesis by (simp add: sys_mmap_def r(1) Let_def)
qed

lemma sys_mmap_free:
  assumes inv: "ms_inv l (ms, s)" and req: "request_ok start len"
    and prot: "prot AND (NOT 7) = 0" "prot AND 7 \<noteq> 0"
    and none: "\<forall>v \<in> page_set (unat start div 4096) (pages_of len). translate (page_table ms) v s = None"
    and free: "3 * pages_of len \<le> card (frames_free l s)"
  obtains ms' s' where "sys_mmap start len prot (ms, s) = Ok (0, ms', s')"
    and "insert_framed_area (VirtAddr_from start) (VirtAddr_from (start + page_round_up len)) (prot_perm prot) (ms, s) =
      Ok (Inr (), ms', s')"
proof -
  note rr = request_range [OF req]
  obtain r where r: "VPNRange_new (va_floor (VirtAddr_from start)) (va_ceil (VirtAddr_from (start + page_round_up len))) = Ok r"
    "set (range_vpns r) = page_set (unat start div 4096) (pages_of len)"
    by (rule request_VPNRange [OF req])
  have in_rng: "translate (page_table ms) v s = None"
    if "va_floor (VirtAddr_from start) \<le> v" "v < va_ceil (VirtAddr_from (start + page_round_up len))" for v
    using that rr(5) none by blast
  obtain ms' s' where ins: "insert_framed_area (VirtAddr_from start) (VirtAddr_from (start + page_round_up len))
      (prot_perm prot) (ms, s) = Ok (Inr (), ms', s')"
    using insert_framed_area_total [OF inv rr(3,4) in_rng, of "prot_perm prot"] free
    by (auto simp: rr(1,2))
  have "\<not> (\<exists>v \<in> set (range_vpns r). translate (current_user_table ms) v s \<noteq> None)"
    using none r(2) by (auto simp: current_user_table_translate [OF inv])
  then have "sys_mmap start len prot (ms, s) = Ok (0, ms', s')"
    using prot rr(6) by (simp add: sys_mmap_def r(1) Let_def ins)
  with ins that show thesis by blast
qed

text \<open>
  What \<^verbatim>\<open>sys_munmap\<close> does on pages that the areas of the process own: exactly these pages are
  unmapped and exactly their frames are given back.
\<close>

lemma sys_munmap_owned:
  assumes inv: "ms_inv l (ms, s)" and req: "request_ok start len"
    and own: "page_set (unat start div 4096) (pages_of len) \<subseteq> fst ` set (bindings (areas ms))"
  shows "\<exists>ms' s'. sys_munmap start len (ms, s) = Ok (0, ms', s') \<and> ms_inv l (ms', s') \<and>
      page_table ms' = page_table ms \<and>
      bindings (areas ms') =
        filter (\<lambda>b. fst b \<notin> page_set (unat start div 4096) (pages_of len)) (bindings (areas ms)) \<and>
      frames_used l s' = frames_used l s -
        {f. \<exists>v \<in> page_set (unat start div 4096) (pages_of len). (v, f) \<in> set (bindings (areas ms))} \<and>
      (\<forall>v. translate (page_table ms) v s' =
        (if \<exists>w \<in> page_set (unat start div 4096) (pages_of len). same_page v w then None
         else translate (page_table ms) v s)) \<and>
      (\<forall>x. (\<forall>p \<in> set (pt_frames (page_table ms)). \<not> in_page p x) \<longrightarrow> mem s' x = mem s x)"
proof -
  note rr = request_range [OF req]
  let ?P = "page_set (unat start div 4096) (pages_of len)"
  have P: "va_floor (VirtAddr_from start) \<le> v \<and> v < va_ceil (VirtAddr_from (start + page_round_up len)) \<longleftrightarrow> v \<in> ?P" for v
    using rr(5) by blast
  then have P': "(\<exists>v. va_floor (VirtAddr_from start) \<le> v \<and> v < va_ceil (VirtAddr_from (start + page_round_up len)) \<and> Q v)
      \<longleftrightarrow> (\<exists>v \<in> ?P. Q v)" for Q by blast
  obtain r where r: "VPNRange_new (va_floor (VirtAddr_from start)) (va_ceil (VirtAddr_from (start + page_round_up len))) = Ok r"
    "set (range_vpns r) = ?P"
    by (rule request_VPNRange [OF req])
  have "translate (page_table ms) v s \<noteq> None" if "v \<in> ?P" for v
  proof -
    from that own obtain f where "(v, f) \<in> set (bindings (areas ms))" by auto
    then show ?thesis by (rule binding_translate [OF inv]) simp
  qed
  then have "\<not> (\<exists>v \<in> set (range_vpns r). translate (current_user_table ms) v s = None)"
    using r(2) by (simp add: current_user_table_translate [OF inv])
  then have "sys_munmap start len (ms, s) =
      remove_mapped_frames (VirtAddr_from start) (VirtAddr_from (start + page_round_up len)) (ms, s)"
    using rr(6) unfolding sys_munmap_def Let_def r(1) by auto
  moreover have "v \<in> fst ` set (bindings (areas ms))"
    if "va_floor (VirtAddr_from start) \<le> v" "v < va_ceil (VirtAddr_from (start + page_round_up len))" for v
    using that own P by blast
  note remove_mapped_frames_owned [OF inv rr(3) this, unfolded P P']
  ultimately show ?thesis by auto
qed

end
