(* ===== verification/Isolation.thy ===== *)
theory Isolation
  imports MemorySetOps
begin

text \<open>
  Memory sets do not interfere: an operation on one memory set leaves every memory set that owns
  other frames as it was, its translations and the contents of its pages included.
\<close>

definition owned_frames :: "MemorySet \<Rightarrow> PhysPageNum set" where
  "owned_frames ms = set (pt_frames (page_table ms)) \<union> set (area_frames (areas ms))"

text \<open>\<open>keeps l ms s ms' s'\<close>: the step from \<open>ms\<close> to \<open>ms'\<close> touched nothing that others own.\<close>

definition keeps :: "usize \<Rightarrow> MemorySet \<Rightarrow> mm_state \<Rightarrow> MemorySet \<Rightarrow> mm_state \<Rightarrow> bool" where
  "keeps l ms s ms' s' =
     (ms_inv l (ms', s') \<and> frames_used l s - owned_frames ms \<subseteq> frames_used l s' \<and>
      owned_frames ms' \<inter> frames_used l s \<subseteq> owned_frames ms \<and>
      (\<forall>p \<in> frames_used l s - owned_frames ms. \<forall>x. in_page p x \<longrightarrow> mem s' x = mem s x))"

lemma ms_inv_owned: "ms_inv l (ms, s) \<Longrightarrow> owned_frames ms \<subseteq> frames_used l s"
  using ms_invD(5,7) [of l ms s] by (auto simp: owned_frames_def)

lemma keeps_other:
  assumes k: "keeps l ms s ms' s'" and other: "ms_inv l (ot, s)" and d: "owned_frames ot \<inter> owned_frames ms = {}"
  shows "ms_inv l (ot, s')" and "owned_frames ot \<inter> owned_frames ms' = {}"
    and "translate (page_table ot) v s' = translate (page_table ot) v s"
    and "\<lbrakk>p \<in> owned_frames ot; in_page p x\<rbrakk> \<Longrightarrow> mem s' x = mem s x"
proof -
  have sub: "owned_frames ot \<subseteq> frames_used l s - owned_frames ms" using ms_inv_owned [OF other] d by blast
  show m: "mem s' x = mem s x" if "p \<in> owned_frames ot" "in_page p x" for p x
    using k sub that by (auto simp: keeps_def)
  note o = ms_invD [OF other]
  have fi: "frames_inv l s'" using k by (auto simp: keeps_def dest: ms_invD(2))
  have us: "owned_frames ot \<subseteq> frames_used l s'" using k sub by (auto simp: keeps_def)
  have pt: "pt_inv l (page_table ot, s')"
    by (rule pt_inv_mem_cong [OF o(1) fi]) (use us m in \<open>auto simp: owned_frames_def\<close>)
  have tr: "translate (page_table ot) v s' = translate (page_table ot) v s" for v
    by (rule translate_mem_cong [OF o(1)]) (use m in \<open>auto simp: owned_frames_def\<close>)
  show "translate (page_table ot) v s' = translate (page_table ot) v s" by (rule tr)
  have "area_ok (page_table ot) s' a" if "a \<in> set (areas ot)" for a
    by (rule area_ok_cong [OF o(3) [OF that] tr])
  then show "ms_inv l (ot, s')" using pt o(4,6) us by (auto simp: ms_inv_def owned_frames_def)
  show "owned_frames ot \<inter> owned_frames ms' = {}"
    using k sub d by (auto simp: keeps_def)
qed

lemma insert_framed_area_keeps:
  assumes inv: "ms_inv l (ms, s)"
    and res: "insert_framed_area start_va end_va perm (ms, s) = Ok (r, ms', s')"
  shows "keeps l ms s ms' s'"
proof -
  define a where "a = \<lparr>vpn_range = \<lparr>range_l = va_floor start_va, range_r = va_ceil end_va\<rparr>,
    data_frames = [], map_type = Framed, map_perm = perm\<rparr>"
  have a: "data_frames a = []" "map_type a = Framed" "range_l (vpn_range a) \<le> range_r (vpn_range a)"
    using insert_framed_area_Ok(1) [OF res] by (simp_all add: a_def)
  note pu = insert_framed_area_Ok(2) [OF res, folded a_def]
  show ?thesis
  proof (cases r)
    case (Inr u)
    from pu Inr obtain a' pt' where am: "area_map (a, page_table ms, s) = Ok (Inr (), a', pt', s')"
      and ms': "ms' = ms\<lparr>page_table := pt', areas := areas ms @ [a']\<rparr>"
      by (cases rule: push_None_Ok) auto
    obtain V where step: "mapping_step l V (a, page_table ms, s) (a', pt', s')"
      by (rule area_map_fresh [OF inv a am]) (rule that)
    note sd = mapping_stepD [OF step]
    have "ms_inv l (ms', s')" using insert_framed_area_ok(1) [OF inv] res Inr by blast
    moreover have "snd ` set (data_frames a') \<inter> frames_used l s = {}" using sd(6) a(1) by auto
    ultimately show ?thesis using sd(9,11,12)
      by (auto simp: keeps_def owned_frames_def ms')
  next
    case (Inl e)
    from pu Inl obtain a' pt' t where am: "area_map (a, page_table ms, s) = Ok (Inl e, a', pt', t)"
      and dr: "drop_area a' t = Ok s'" and ms': "ms' = ms\<lparr>page_table := pt'\<rparr>"
      by (cases rule: push_None_Ok) auto
    obtain V where step: "mapping_step l V (a, page_table ms, s) (a', pt', t)"
      and mi: "mapping_inv l (set (area_frames (areas ms))) (a', pt', t)"
      by (rule area_map_fresh [OF inv a am]) (rule that)
    note sd = mapping_stepD [OF step]
    from mi have "frames_inv l t" "distinct (map snd (data_frames a'))"
      "snd ` set (data_frames a') \<subseteq> frames_used l t"
      by (simp_all add: mapping_inv_def pt_inv_def)
    from drop_frames_spec [of l t "map snd (data_frames a')"] this dr
    have "mem s' = mem t" by (auto simp: drop_area_def)
    moreover note er = insert_framed_area_error(1,3) [OF inv res [unfolded Inl]]
    ultimately show ?thesis using sd(11,12)
      by (auto simp: keeps_def owned_frames_def ms')
  qed
qed

lemma remove_mapped_frames_keeps:
  assumes inv: "ms_inv l (ms, s)" and rng: "va_floor start_va \<le> va_ceil end_va"
    and res: "remove_mapped_frames start_va end_va (ms, s) = Ok (r, ms', s')"
  shows "keeps l ms s ms' s'"
proof (cases "\<forall>v. va_floor start_va \<le> v \<and> v < va_ceil end_va \<longrightarrow> v \<in> fst ` set (bindings (areas ms))")
  case False
  then obtain v where "va_floor start_va \<le> v" "v < va_ceil end_va" "v \<notin> fst ` set (bindings (areas ms))"
    by blast
  from remove_mapped_frames_unowned [OF rng this] res have "ms' = ms" "s' = s" by auto
  with inv show ?thesis by (simp add: keeps_def)
next
  case True
  then obtain ms1 s1 where rm: "remove_mapped_frames start_va end_va (ms, s) = Ok (0, ms1, s1)"
    "ms_inv l (ms1, s1)" "page_table ms1 = page_table ms" 
    "bindings (areas ms1) = filter (\<lambda>b. \<not> (va_floor start_va \<le> fst b \<and> fst b < va_ceil end_va)) (bindings (areas ms))"
    "frames_used l s1 = frames_used l s -
        {f. \<exists>v. va_floor start_va \<le> v \<and> v < va_ceil end_va \<and> (v, f) \<in> set (bindings (areas ms))}"
    "\<forall>x. (\<forall>p \<in> set (pt_frames (page_table ms)). \<not> in_page p x) \<longrightarrow> mem s1 x = mem s x"
    using remove_mapped_frames_owned [OF inv rng] by blast
  from rm(1) res have eq: "ms1 = ms'" "s1 = s'" by auto
  have "mem s' x = mem s x" if p: "p \<in> frames_used l s - owned_frames ms" "in_page p x" for p x
  proof -
    have "\<not> in_page q x" if "q \<in> set (pt_frames (page_table ms))" for q
      using p that in_page_unique [of p q x] frames_used_ok [OF ms_invD(2) [OF inv]] ms_invD(7) [OF inv]
      by (auto simp: owned_frames_def)
    with rm(6) show ?thesis by (simp add: eq)
  qed
  moreover have "owned_frames ms' \<subseteq> owned_frames ms"
    using rm(3,4) by (auto simp: eq owned_frames_def area_frames_bindings)
  moreover have "frames_used l s - owned_frames ms \<subseteq> frames_used l s'"
    using rm(5) by (force simp: eq owned_frames_def area_frames_bindings)
  ultimately show ?thesis using rm(2) by (auto simp: keeps_def eq)
qed

lemma keeps_refl: "ms_inv l (ms, s) \<Longrightarrow> keeps l ms s ms s"
  by (simp add: keeps_def)

text \<open>A new memory set takes a frame that nobody owns.\<close>

lemma new_bare_spec:
  assumes fi: "frames_inv l s" and n: "new_bare s = Ok (ms, s')"
  shows "ms_inv l (ms, s')" and "translate (page_table ms) v s' = None" and "areas ms = []"
    and "\<And>ot. ms_inv l (ot, s) \<Longrightarrow> ms_inv l (ot, s') \<and> owned_frames ot \<inter> owned_frames ms = {}"
    and "\<And>ot. ms_inv l (ot, s) \<Longrightarrow> translate (page_table ot) v s' = translate (page_table ot) v s"
proof -
  from n obtain pt where pt: "PageTable_new s = Ok (pt, s')" and ms: "ms = \<lparr>page_table = pt, areas = []\<rparr>"
    by (auto simp: new_bare_def res_simps)
  note p = PageTable_new_spec [OF fi pt]
  show inv: "ms_inv l (ms, s')" and "areas ms = []" using p(1) by (simp_all add: ms ms_inv_def)
  show "translate (page_table ms) v s' = None" using p(2) by (simp add: ms)
  from pt obtain f where al: "frame_alloc s = (Some f, s')" and f: "root_ppn pt = f"
    by (auto simp: PageTable_new_def res_simps split: prod.splits)
  note fr = frame_alloc_Some [OF fi al]
  define none where "none = \<lparr>page_table = \<lparr>root_ppn = f, pt_frames = []\<rparr>, areas = []\<rparr>"
  have o: "owned_frames none = {}" "owned_frames ms = {f}"
    using p(5) f by (simp_all add: owned_frames_def none_def ms)
  have "mem s' x = mem s x" if "q \<in> frames_used l s" "in_page q x" for q x
    using that fr(2,4,6) in_page_unique [of q f x] frames_used_ok [OF fi that(1)] by auto
  then have k: "keeps l none s ms s'" using inv fr(2,3) by (auto simp: keeps_def o)
  show "ms_inv l (ot, s') \<and> owned_frames ot \<inter> owned_frames ms = {}" if "ms_inv l (ot, s)" for ot
    using keeps_other(1,2) [OF k that] by (simp add: o(1))
  show "translate (page_table ot) v s' = translate (page_table ot) v s" if "ms_inv l (ot, s)" for ot
    by (rule keeps_other(3) [OF k that]) (simp add: o(1))
qed

end
