(* ===== verification/Boot.thy ===== *)
theory Boot
  imports MemorySetOps
begin

text \<open>
  The memory subsystem as \<^verbatim>\<open>mm::init\<close> (\<^verbatim>\<open>os/src/mm/mod.rs\<close>) leaves it, and a fresh memory set on it.
  The kernel image ends at \<open>image_end\<close> (the linker's \<^verbatim>\<open>ekernel\<close>); memory is all zero. The states that follow from here are those
  the components start from.
\<close>

definition boot_mm :: "usize \<Rightarrow> mm_state" where
  "boot_mm image_end =
     \<lparr>mem = (\<lambda>_. 0), FRAME_ALLOCATOR = init_frame_allocator image_end StackFrameAllocator_new\<rparr>"

lemma card_fa_pool: "card (fa_pool l a) = unat (fa_end a) - unat l"
proof -
  have "(\<lambda>p. unat (ppn0 p)) ` fa_pool l a = {unat l ..< unat (fa_end a)}"
  proof (rule set_eqI, rule iffI)
    fix n assume n: "n \<in> {unat l ..< unat (fa_end a)}"
    then have "unat (of_nat n :: usize) = n" by (intro unat_of_nat_64) (use unat_less_64 [of "fa_end a"] in simp)
    with n show "n \<in> (\<lambda>p. unat (ppn0 p)) ` fa_pool l a"
      by (intro image_eqI [of _ _ "PhysPageNum (of_nat n)"]) (auto simp: fa_pool_def word_nat)
  qed (auto simp: fa_pool_def word_nat)
  moreover have "inj_on (\<lambda>p. unat (ppn0 p)) (fa_pool l a)"
    by (auto intro!: inj_onI PhysPageNum.expand simp: word_unat_eq_iff)
  ultimately show ?thesis by (metis card_atLeastLessThan card_image)
qed

text \<open>With the kernel's image ending at \<open>0x80400000\<close>, 1024 frames are free.\<close>

lemma boot_alloc:
  "FRAME_ALLOCATOR (boot_mm 0x80400000) = \<lparr>fa_current = 0x80400, fa_end = 0x80800, fa_recycled = []\<rparr>"
  by (simp add: boot_mm_def init_frame_allocator_def fa_init_def StackFrameAllocator_new_def
      pa_ceil_def pa_floor_def PhysAddr_from_take_bit PAGE_SIZE_def MEMORY_END_def take_bit_eq_mod)

lemma boot_frames:
  "frames_inv 0x80400 (boot_mm 0x80400000)" "frames_used 0x80400 (boot_mm 0x80400000) = {}"
  "card (frames_free 0x80400 (boot_mm 0x80400000)) = 1024"
proof -
  show "frames_inv 0x80400 (boot_mm 0x80400000)"
    by (simp add: frames_inv_def boot_alloc fa_inv_def)
  show u: "frames_used 0x80400 (boot_mm 0x80400000) = {}"
    by (auto simp: frames_used_def boot_alloc fa_used_def)
  then have "frames_free 0x80400 (boot_mm 0x80400000) = fa_pool 0x80400 (FRAME_ALLOCATOR (boot_mm 0x80400000))"
    by (simp add: frames_free_def frames_used_def)
  then show "card (frames_free 0x80400 (boot_mm 0x80400000)) = 1024"
    by (simp add: card_fa_pool boot_alloc)
qed

text \<open>A fresh page table and a fresh memory set.\<close>

lemma PageTable_new_total:
  assumes "frames_inv l s" and "frames_free l s \<noteq> {}"
  obtains pt s' where "PageTable_new s = Ok (pt, s')" and "card (frames_free l s') = card (frames_free l s) - 1"
proof -
  from frame_alloc_total [OF assms] obtain f s' where al: "frame_alloc s = (Some f, s')" by blast
  with that frame_alloc_free(3) [OF assms(1) al] show thesis by (simp add: PageTable_new_def)
qed

lemma boot_page_table:
  obtains pt s where "PageTable_new (boot_mm 0x80400000) = Ok (pt, s)" and "pt_inv 0x80400 (pt, s)"
    and "\<And>v. translate pt v s = None" and "card (frames_free 0x80400 s) = 1023"
proof -
  have "frames_free 0x80400 (boot_mm 0x80400000) \<noteq> {}" using boot_frames(3) by auto
  then obtain pt s where n: "PageTable_new (boot_mm 0x80400000) = Ok (pt, s)"
    "card (frames_free 0x80400 s) = card (frames_free 0x80400 (boot_mm 0x80400000)) - 1"
    by (rule PageTable_new_total [OF boot_frames(1)])
  have "card (frames_free 0x80400 s) = 1023" using n(2) boot_frames(3) by simp
  from that [OF n(1) PageTable_new_spec(1,2) [OF boot_frames(1) n(1)] this] show thesis .
qed

lemma boot_memory_set:
  obtains ms s where "new_bare (boot_mm 0x80400000) = Ok (ms, s)" and "ms_inv 0x80400 (ms, s)"
    and "\<And>v. translate (page_table ms) v s = None" and "card (frames_free 0x80400 s) = 1023"
    and "areas ms = []"
proof -
  obtain pt s where pt: "PageTable_new (boot_mm 0x80400000) = Ok (pt, s)" "pt_inv 0x80400 (pt, s)"
    "\<And>v. translate pt v s = None" "card (frames_free 0x80400 s) = 1023"
    by (rule boot_page_table) (rule that)
  define ms where "ms = \<lparr>page_table = pt, areas = []\<rparr>"
  have "new_bare (boot_mm 0x80400000) = Ok (ms, s)" by (simp add: new_bare_def pt(1) ms_def)
  moreover have "ms_inv 0x80400 (ms, s)" using pt(2) by (simp add: ms_inv_def ms_def)
  ultimately show thesis using that pt(3,4) by (simp add: ms_def)
qed

end
