(* ===== verification/OutOfFrames.thy ===== *)
theory OutOfFrames
  imports Boot
begin

text \<open>
  What happens when the frames run out: a machine with four frames on which mapping an area of two pages
  stops after the first page.
\<close>

section \<open>Running out of frames\<close>

lemma frame_alloc_end: "frame_alloc s = (r, s') \<Longrightarrow> fa_end (FRAME_ALLOCATOR s') = fa_end (FRAME_ALLOCATOR s)"
  by (auto simp: frame_alloc_def fa_alloc_def Let_def split: option.splits if_splits)

lemma find_pte_create_loop_end:
  "find_pte_create_loop p is (pt, s) = Ok (r, pt', s') \<Longrightarrow> fa_end (FRAME_ALLOCATOR s') = fa_end (FRAME_ALLOCATOR s)"
proof (induction "is" arbitrary: p pt s)
  case (Cons i "is")
  then show ?case
    by (auto simp: Let_def res_simps split: if_splits prod.splits dest!: frame_alloc_end Cons.IH)
qed auto

lemma pt_map_end: "pt_map v p f (pt, s) = Ok (pt', s') \<Longrightarrow> fa_end (FRAME_ALLOCATOR s') = fa_end (FRAME_ALLOCATOR s)"
  by (auto simp: pt_map_def res_simps find_pte_create_def split: prod.splits dest!: find_pte_create_loop_end)

text \<open>A page table that maps a page has at least three frames.\<close>

lemma pt_inv_three_frames:
  assumes inv: "pt_inv l (pt, s)" and tr: "translate pt v s \<noteq> None"
  shows "3 \<le> card (set (pt_frames pt))"
proof -
  obtain i j where p: "vpn_path v = [i, j]"
    by (rule that) (simp add: vpn_path_def indexes_eq numeral_2_eq_2)
  from tr obtain c where c: "node (mem s) (root_ppn pt) [i, j] = Some c"
    by (auto simp: translate_eq_leaf leaf_def p split: Option.bind_splits)
  then obtain b where b: "node (mem s) (root_ppn pt) [i] = Some b"
    by (auto split: Option.bind_splits)
  have tp: "table_path [i, j]" "table_path [i]" "table_path []"
    using vpn_path_props(1) [of v] by (auto simp: p table_path_def)
  have t: "pt_tree (mem s) (root_ppn pt) (set (pt_frames pt))" using inv by (simp add: pt_inv_def)
  have a: "node (mem s) (root_ppn pt) [] = Some (root_ppn pt)" by simp
  have "c \<noteq> b" "c \<noteq> root_ppn pt" "b \<noteq> root_ppn pt"
    using pt_tree_inj [OF t] tp a b c by blast+
  then have "card {root_ppn pt, b, c} = 3" by auto
  moreover have "{root_ppn pt, b, c} \<subseteq> set (pt_frames pt)"
    using pt_tree_mem [OF t] tp a b c by blast
  ultimately show ?thesis by (metis List.finite_set card_mono)
qed


text \<open>A machine with four frames: a memory set and one page of an area use all of them.\<close>

lemma small_boot_alloc:
  "FRAME_ALLOCATOR (boot_mm 0x807FC000) = \<lparr>fa_current = 0x807FC, fa_end = 0x80800, fa_recycled = []\<rparr>"
  by (simp add: boot_mm_def init_frame_allocator_def fa_init_def StackFrameAllocator_new_def
      pa_ceil_def pa_floor_def PhysAddr_from_take_bit PAGE_SIZE_def MEMORY_END_def take_bit_eq_mod)

lemma small_boot:
  obtains ms s where "new_bare (boot_mm 0x807FC000) = Ok (ms, s)" and "ms_inv 0x807FC (ms, s)"
    and "\<And>v. translate (page_table ms) v s = None" and "card (frames_free 0x807FC s) = 3" and "areas ms = []"
    and "fa_end (FRAME_ALLOCATOR s) = 0x80800"
proof -
  let ?s = "boot_mm 0x807FC000"
  have fi: "frames_inv 0x807FC ?s" by (simp add: frames_inv_def small_boot_alloc fa_inv_def)
  have "fa_used 0x807FC (FRAME_ALLOCATOR ?s) = {}" by (auto simp: small_boot_alloc fa_used_def)
  then have "frames_free 0x807FC ?s = fa_pool 0x807FC (FRAME_ALLOCATOR ?s)"
    by (simp add: frames_free_def)
  then have c: "card (frames_free 0x807FC ?s) = 4" by (simp add: card_fa_pool small_boot_alloc)
  then have "frames_free 0x807FC ?s \<noteq> {}" by auto
  then obtain pt s where pt: "PageTable_new ?s = Ok (pt, s)"
    "card (frames_free 0x807FC s) = card (frames_free 0x807FC ?s) - 1"
    by (rule PageTable_new_total [OF fi])
  define ms where "ms = \<lparr>page_table = pt, areas = []\<rparr>"
  have "fa_end (FRAME_ALLOCATOR s) = 0x80800"
    using pt(1) by (auto simp: PageTable_new_def res_simps small_boot_alloc split: prod.splits dest!: frame_alloc_end)
  moreover have "new_bare ?s = Ok (ms, s)" by (simp add: new_bare_def pt(1) ms_def)
  moreover have "ms_inv 0x807FC (ms, s)" "\<And>v. translate (page_table ms) v s = None"
    using PageTable_new_spec(1,2) [OF fi pt(1)] by (simp_all add: ms_inv_def ms_def)
  ultimately show thesis using that pt(2) c by (simp add: ms_def)
qed

lemma map_one_end:
  assumes "map_type a = Framed" and "map_of (data_frames a) v = None"
    and "map_one v (a, pt, s) = Ok (Inr u, a', pt', s')"
  shows "fa_end (FRAME_ALLOCATOR s') = fa_end (FRAME_ALLOCATOR s)"
  using assms
  by (auto simp: map_one_def drop_option_def res_simps split: prod.splits option.splits
      dest!: pt_map_end frame_alloc_end)

lemma insert_runs_out:
  obtains ms s e ms' s' pte where "ms_inv 0x807FC (ms, s)" and "card (frames_free 0x807FC s) = 3"
    and "insert_framed_area (VirtAddr 0x10000000) (VirtAddr 0x10002000) (MP_R OR MP_U) (ms, s) = Ok (Inl e, ms', s')"
    and "translate (page_table ms) (VirtPageNum 0x10000) s = None"
    and "translate (page_table ms') (VirtPageNum 0x10000) s' = Some pte"
proof -
  obtain ms s where b: "ms_inv 0x807FC (ms, s)" "\<And>v. translate (page_table ms) v s = None"
    "card (frames_free 0x807FC s) = 3" "areas ms = []" "fa_end (FRAME_ALLOCATOR s) = 0x80800"
    by (rule small_boot) (rule that)
  let ?r = "\<lparr>range_l = VirtPageNum 0x10000, range_r = VirtPageNum 0x10002\<rparr>"
  define a where "a = \<lparr>vpn_range = ?r, data_frames = [], map_type = Framed, map_perm = MP_R OR MP_U\<rparr>"
  have rng: "range_vpns ?r = [VirtPageNum 0x10000, VirtPageNum 0x10001]"
    by (subst range_vpns_eq) (simp_all add: page_order_defs upt_rec)
  have mi: "mapping_inv 0x807FC {} (a, page_table ms, s)"
    using ms_invD [OF b(1)] by (auto simp: mapping_inv_def area_ok_def a_def)
  have a: "map_of (data_frames a) v = None" "map_type a = Framed" for v by (simp_all add: a_def)
  obtain a1 pt1 s1 where m1: "map_one (VirtPageNum 0x10000) (a, page_table ms, s) = Ok (Inr (), a1, pt1, s1)"
    using map_one_total [OF mi a(1) b(2), of "VirtPageNum 0x10000"] b(3) by auto
  have v0: "range_l (vpn_range a) \<le> VirtPageNum 0x10000" "VirtPageNum 0x10000 < range_r (vpn_range a)"
    by (simp_all add: a_def page_order_defs)
  note mo = map_one_framed [OF mi a(1) v0 m1] and st = mapping_stepD [OF map_one_framed(2) [OF mi a(1) v0 m1]]
  have d1: "fst ` set (data_frames a1) = {VirtPageNum 0x10000}" using st(5) by (simp add: a_def)
  then obtain f where f: "(VirtPageNum 0x10000, f) \<in> set (data_frames a1)" by fastforce
  from mo(1) have pi: "pt_inv 0x807FC (pt1, s1)" and ok1: "area_ok pt1 s1 a1"
    and dis: "f \<notin> set (pt_frames pt1)" and fu: "f \<in> frames_used 0x807FC s1"
    using f by (force simp: mapping_inv_def)+
  have tr1: "translate pt1 (VirtPageNum 0x10000) s1 = Some (PTE_new f (map_perm a1 OR PTE_V))"
    by (rule area_okD(4) [OF ok1 f])
  then have "3 \<le> card (set (pt_frames pt1))" using pt_inv_three_frames [OF pi, of "VirtPageNum 0x10000"] by simp
  then have four: "4 \<le> card (insert f (set (pt_frames pt1)))" using dis by simp
  have sub: "insert f (set (pt_frames pt1)) \<subseteq> frames_used 0x807FC s1" using fu pi by (auto simp: pt_inv_def)
  have up: "frames_used 0x807FC s1 \<subseteq> fa_pool 0x807FC (FRAME_ALLOCATOR s1)"
    using frames.used_pool pi by (simp add: frames_used_def pt_inv_def frames_inv_def)
  have cp: "card (fa_pool 0x807FC (FRAME_ALLOCATOR s1)) = 4"
    using map_one_end [OF a(2) a(1) m1] by (simp add: card_fa_pool b(5))
  then have fin: "finite (fa_pool 0x807FC (FRAME_ALLOCATOR s1))" by (intro card_ge_0_finite) simp
  have "4 \<le> card (frames_used 0x807FC s1)" using four card_mono [OF finite_subset [OF up fin] sub] by simp
  then have "frames_used 0x807FC s1 = fa_pool 0x807FC (FRAME_ALLOCATOR s1)"
    using card_seteq [OF fin up] cp by simp
  then have "frames_free 0x807FC s1 = {}" by (simp add: frames_free_def frames_used_def)
  then have al: "frame_alloc s1 = (None, s1)"
    using frame_alloc_free(1) [of "0x807FC" s1] pi frame_alloc_None
    by (cases "frame_alloc s1"; cases "fst (frame_alloc s1)") (auto simp: pt_inv_def)
  have m2: "map_one (VirtPageNum 0x10001) (a1, pt1, s1) = Ok (Inl ''No enough physical space'', a1, pt1, s1)"
    using al st(2) by (simp add: map_one_def a)
  have "area_map (a, page_table ms, s) = Ok (Inl ''No enough physical space'', a1, pt1, s1)"
    using m1 m2 by (simp add: area_map_def a_def rng)
  moreover obtain s' where dr: "drop_area a1 s1 = Ok s'" "mem s' = mem s1"
    using drop_frames_spec [of "0x807FC" s1 "map snd (data_frames a1)"] mo(1)
    by (auto simp: drop_area_def mapping_inv_def pt_inv_def)
  moreover have "va_floor (VirtAddr 0x10000000) = VirtPageNum 0x10000" "va_ceil (VirtAddr 0x10002000) = VirtPageNum 0x10002"
    by (simp_all add: va_floor_def va_ceil_def PAGE_SIZE_def)
  ultimately have "insert_framed_area (VirtAddr 0x10000000) (VirtAddr 0x10002000) (MP_R OR MP_U) (ms, s) =
      Ok (Inl ''No enough physical space'', ms\<lparr>page_table := pt1\<rparr>, s')"
    by (simp add: insert_framed_area_def MapArea_new_def VPNRange_new_def page_order_defs push_def a_def)
  moreover have "translate pt1 (VirtPageNum 0x10000) s' = Some (PTE_new f (map_perm a1 OR PTE_V))"
    using tr1 translate_mem_cong [OF pi, of s'] dr(2) by simp
  ultimately show thesis using that b(1-3) by simp
qed

section \<open>What a failed insertion leaves\<close>

text \<open>
  A loop that fails has mapped the pages before the one that failed, and stopped because no frame was left.
\<close>

lemma map_loop_split:
  assumes "map_loop vpns st = Ok (Inl e, st')"
  obtains us v ws st1 where "vpns = us @ v # ws" and "map_loop us st = Ok (Inr (), st1)"
    and "map_one v st1 = Ok (Inl e, st')"
proof -
  have "\<exists>us v ws st1. vpns = us @ v # ws \<and> map_loop us st = Ok (Inr (), st1) \<and> map_one v st1 = Ok (Inl e, st')"
    using assms
  proof (induction vpns arbitrary: st)
    case (Cons v vpns)
    then obtain r st1 where one: "map_one v st = Ok (r, st1)" by (auto simp: res_simps)
    show ?case
    proof (cases r)
      case (Inl d)
      with Cons.prems one have "map_one v st = Ok (Inl e, st')" by simp
      then have "v # vpns = [] @ v # vpns \<and> map_loop [] st = Ok (Inr (), st) \<and> map_one v st = Ok (Inl e, st')"
        by simp
      then show ?thesis by blast
    next
      case (Inr u)
      with Cons.prems one have "map_loop vpns st1 = Ok (Inl e, st')" by simp
      from Cons.IH [OF this] obtain us w ws st2 where "vpns = us @ w # ws"
        "map_loop us st1 = Ok (Inr (), st2)" "map_one w st2 = Ok (Inl e, st')" by blast
      then have "v # vpns = (v # us) @ w # ws \<and> map_loop (v # us) st = Ok (Inr (), st2) \<and>
          map_one w st2 = Ok (Inl e, st')"
        using one Inr by simp
      then show ?thesis by blast
    qed
  qed simp
  then show thesis using that by blast
qed

text \<open>A page costs at most three frames: one for its contents and two for page tables.\<close>

lemma map_one_frames:
  assumes inv: "mapping_inv l Q (a, pt, s)" and new: "map_of (data_frames a) v = None"
    and rng: "range_l (vpn_range a) \<le> v" "v < range_r (vpn_range a)"
    and ok: "map_one v (a, pt, s) = Ok (Inr u, a', pt', s')"
  shows "card (frames_free l s) \<le> card (frames_free l s') + 3"
  using map_one_total [OF inv new map_one_framed(3) [OF inv new rng ok]] ok
  by (cases "3 \<le> card (frames_free l s)") auto

lemma map_loop_frames:
  assumes "mapping_inv l Q (a, pt, s)" and "distinct vpns"
    and "\<forall>v \<in> set vpns. map_of (data_frames a) v = None \<and>
      range_l (vpn_range a) \<le> v \<and> v < range_r (vpn_range a)"
    and "map_loop vpns (a, pt, s) = Ok (Inr (), a', pt', s')"
  shows "card (frames_free l s) \<le> card (frames_free l s') + 3 * length vpns"
  using assms
proof (induction vpns arbitrary: a pt s)
  case (Cons v vpns)
  from Cons.prems(4) obtain r1 b pu t where one: "map_one v (a, pt, s) = Ok (r1, b, pu, t)"
    by (auto simp: res_simps)
  with Cons.prems(4) obtain u where r1: "r1 = Inr u" by (cases r1) auto
  have new: "map_of (data_frames a) v = None" and rng: "range_l (vpn_range a) \<le> v" "v < range_r (vpn_range a)"
    using Cons.prems(3) by auto
  note mo = map_one_framed [OF Cons.prems(1) new rng one [unfolded r1]]
  note st = mapping_stepD [OF mo(2)]
  have rest: "\<forall>w \<in> set vpns. map_of (data_frames b) w = None \<and>
      range_l (vpn_range b) \<le> w \<and> w < range_r (vpn_range b)"
  proof
    fix w assume w: "w \<in> set vpns"
    then have "w \<notin> fst ` set (data_frames a)" "w \<noteq> v" "range_l (vpn_range a) \<le> w \<and> w < range_r (vpn_range a)"
      using Cons.prems(2,3) by (auto simp: map_of_eq_None_iff)
    with st(1,5) show "map_of (data_frames b) w = None \<and>
        range_l (vpn_range b) \<le> w \<and> w < range_r (vpn_range b)"
      unfolding map_of_eq_None_iff by simp
  qed
  have "map_loop vpns (b, pu, t) = Ok (Inr (), a', pt', s')" using Cons.prems(4) one r1 by simp
  from Cons.IH [OF mo(1) _ rest this] Cons.prems(2)
    map_one_frames [OF Cons.prems(1) new rng one [unfolded r1]] show ?case by simp
qed simp

lemma drop_frames_end:
  "drop_frames ps s = Ok s' \<Longrightarrow> fa_end (FRAME_ALLOCATOR s') = fa_end (FRAME_ALLOCATOR s)"
  by (induction ps arbitrary: s)
     (auto simp: drop_frames_def frame_dealloc_def fa_dealloc_eq_Ok res_simps)

text \<open>The pages mapped before the failure keep their translations; their frames are free again.\<close>

lemma insert_framed_area_leaves:
  assumes inv: "ms_inv l (ms, s)"
    and er: "insert_framed_area start_va end_va perm (ms, s) = Ok (Inl e, ms', s')"
  shows "\<exists>n. card (frames_free l s) \<le> 3 * n \<and>
    n < unat (vpn0 (va_ceil end_va)) - unat (vpn0 (va_floor start_va)) \<and>
    (\<forall>v. va_floor start_va \<le> v \<and> unat (vpn0 v) < unat (vpn0 (va_floor start_va)) + n \<longrightarrow>
      (\<exists>f \<in> frames_free l s'. translate (page_table ms') v s' = Some (PTE_new f (perm OR PTE_V))))"
proof -
  define r where "r = \<lparr>range_l = va_floor start_va, range_r = va_ceil end_va\<rparr>"
  define a where "a = \<lparr>vpn_range = r, data_frames = [], map_type = Framed, map_perm = perm\<rparr>"
  let ?Q = "set (area_frames (areas ms))"
  let ?lo = "unat (vpn0 (va_floor start_va))" and ?hi = "unat (vpn0 (va_ceil end_va))"
  have rng: "range_l r \<le> range_r r" using insert_framed_area_Ok(1) [OF er] by (simp add: r_def)
  from insert_framed_area_Ok(2) [OF er] obtain a' pt' t where
    am: "area_map (a, page_table ms, s) = Ok (Inl e, a', pt', t)" and
    dr: "drop_area a' t = Ok s'" and ms': "ms' = ms\<lparr>page_table := pt'\<rparr>"
    unfolding a_def [symmetric] r_def [symmetric] by (cases rule: push_None_Ok) auto
  have ra: "vpn_range a = r" "data_frames a = []" "map_type a = Framed" "map_perm a = perm" by (simp_all add: a_def)
  from am have "map_loop (range_vpns r) (a, page_table ms, s) = Ok (Inl e, a', pt', t)"
    by (simp add: area_map_def ra)
  then obtain us v ws st1 where sp: "range_vpns r = us @ v # ws"
    "map_loop us (a, page_table ms, s) = Ok (Inr (), st1)" "map_one v st1 = Ok (Inl e, a', pt', t)"
    by (rule map_loop_split)
  obtain a1 pt1 s1 where st1: "st1 = (a1, pt1, s1)" by (cases st1)
  note d = ms_invD [OF inv]
  have mi: "mapping_inv l ?Q (a, page_table ms, s)" using d by (auto simp: mapping_inv_def area_ok_def ra)
  have dis: "distinct (us @ v # ws)" using range_vpns_distinct(1) [OF rng] sp(1) by simp
  have mem: "w \<in> set (us @ v # ws) \<longleftrightarrow> range_l r \<le> w \<and> w < range_r r" for w
    using set_range_vpns [OF rng] unfolding sp(1) by blast
  have all: "\<forall>w \<in> set us. map_of (data_frames a) w = None \<and> range_l (vpn_range a) \<le> w \<and> w < range_r (vpn_range a)"
    using mem by (auto simp: ra)
  note lp = map_loop_framed [OF mi _ all sp(2) [unfolded st1]]
  from lp dis have m1: "mapping_inv l ?Q (a1, pt1, s1)" and step: "mapping_step l (set us) (a, page_table ms, s) (a1, pt1, s1)"
    by auto
  note sd = mapping_stepD [OF step]
  have "v \<notin> fst ` set (data_frames a1)" using sd(5) dis by (simp add: ra)
  then have "map_of (data_frames a1) v = None" by (simp add: map_of_eq_None_iff)
  from map_one_error [OF m1 this sp(3) [unfolded st1]] have eq: "a' = a1" "pt' = pt1" "t = s1" "frames_free l s1 = {}"
    by simp_all
  have cost: "card (frames_free l s) \<le> 3 * length us"
    using map_loop_frames [OF mi _ all sp(2) [unfolded st1]] dis eq(4) by simp
  have len: "length us < ?hi - ?lo"
    using arg_cong [OF sp(1), of length] unfolding range_vpns_eq [OF rng] by (simp add: r_def)
  have us: "us = map (\<lambda>n. VirtPageNum (of_nat n)) [?lo..<?lo + length us]"
  proof -
    have "us = take (length us) (range_vpns r)" by (simp add: sp(1))
    then show ?thesis unfolding range_vpns_eq [OF rng] using len by (simp add: r_def take_map)
  qed
  from m1 have pti: "pt_inv l (pt1, s1)" and dist: "distinct (map snd (data_frames a1))"
    and used: "snd ` set (data_frames a1) \<subseteq> frames_used l s1"
    by (simp_all add: mapping_inv_def)
  from drop_frames_spec [of l s1 "map snd (data_frames a1)"] pti dist used dr
  have s': "frames_inv l s'" "frames_used l s' = frames_used l s1 - snd ` set (data_frames a1)" "mem s' = mem s1"
    by (auto simp: drop_area_def pt_inv_def eq)
  have pool: "fa_pool l (FRAME_ALLOCATOR s') = fa_pool l (FRAME_ALLOCATOR s1)"
    using drop_frames_end [of _ s1 s'] dr by (simp add: drop_area_def eq fa_pool_def)
  have "\<exists>f \<in> frames_free l s'. translate (page_table ms') w s' = Some (PTE_new f (perm OR PTE_V))"
    if w: "va_floor start_va \<le> w" "unat (vpn0 w) < ?lo + length us" for w
  proof -
    have "w = VirtPageNum (of_nat (unat (vpn0 w)))" by (cases w) simp
    moreover have "unat (vpn0 w) \<in> {?lo..<?lo + length us}"
      using w by (simp add: page_order_defs word_nat)
    moreover have "set us = (\<lambda>n. VirtPageNum (of_nat n)) ` {?lo..<?lo + length us}"
      using arg_cong [OF us, of set] by (simp only: set_map set_upt)
    ultimately have "w \<in> set us" by (metis image_eqI)
    then obtain f where f: "(w, f) \<in> set (data_frames a1)" using sd(5) by force
    have "area_ok pt1 s1 a1" using m1 by (simp add: mapping_inv_def)
    from area_okD(4) [OF this f] have "translate pt1 w s1 = Some (PTE_new f (perm OR PTE_V))"
      using sd(3) by (simp add: ra)
    moreover have "translate pt1 w s' = translate pt1 w s1"
      by (rule translate_mem_cong [OF pti]) (simp add: s'(3))
    moreover have "f \<in> frames_free l s'"
    proof -
      have "f \<in> snd ` set (data_frames a1)" using f by force
      moreover from this have "f \<in> fa_pool l (FRAME_ALLOCATOR s1)"
        using used frames.used_pool [of l "FRAME_ALLOCATOR s1"] pti
        by (auto simp: frames_used_def pt_inv_def frames_inv_def)
      ultimately show ?thesis using s'(2) pool by (simp add: frames_free_def frames_used_def)
    qed
    ultimately show ?thesis by (auto simp: ms' eq)
  qed
  with cost len show ?thesis by blast
qed

end
