(* ===== verification/MemoryProperties.thy ===== *)
theory MemoryProperties
  imports SyscallMemory Isolation OutOfFrames
begin

text \<open>
  What the memory subsystem promises, from the system calls down to the frame allocator, each
  property with a run from the boot state where its hypotheses hold.
\<close>

section \<open>Facts the properties share\<close>

lemma sys_mmap_keeps:
  assumes inv: "ms_inv l (ms, s)" and res: "sys_mmap start len prot (ms, s) = Ok (r, ms', s')"
  shows "keeps l ms s ms' s'"
proof (cases "ms' = ms \<and> s' = s")
  case True
  with inv show ?thesis by (simp add: keeps_refl)
next
  case False
  with res have "\<exists>q. insert_framed_area (VirtAddr_from start) (VirtAddr_from (start + page_round_up len))
      (prot_perm prot) (ms, s) = Ok (q, ms', s')"
    by (auto simp: sys_mmap_def Let_def res_simps split: if_splits)
  then obtain q where "insert_framed_area (VirtAddr_from start) (VirtAddr_from (start + page_round_up len))
      (prot_perm prot) (ms, s) = Ok (q, ms', s')" by blast
  then show ?thesis by (rule insert_framed_area_keeps [OF inv])
qed

lemma sys_munmap_keeps:
  assumes inv: "ms_inv l (ms, s)" and res: "sys_munmap start len (ms, s) = Ok (r, ms', s')"
  shows "keeps l ms s ms' s'"
proof (cases "ms' = ms \<and> s' = s")
  case True
  with inv show ?thesis by (simp add: keeps_refl)
next
  case False
  with res have "va_floor (VirtAddr_from start) \<le> va_ceil (VirtAddr_from (start + page_round_up len))"
    "remove_mapped_frames (VirtAddr_from start) (VirtAddr_from (start + page_round_up len)) (ms, s) = Ok (r, ms', s')"
    by (auto simp: sys_munmap_def Let_def res_simps split: if_splits)
  then show ?thesis by (rule remove_mapped_frames_keeps [OF inv])
qed

lemma sys_mmap_zero:
  assumes "sys_mmap start len prot (ms, s) = Ok (0, ms', s')"
  shows "insert_framed_area (VirtAddr_from start) (VirtAddr_from (start + page_round_up len))
      (prot_perm prot) (ms, s) = Ok (Inr (), ms', s')"
proof -
  from assms obtain q where q: "insert_framed_area (VirtAddr_from start) (VirtAddr_from (start + page_round_up len))
      (prot_perm prot) (ms, s) = Ok (q, ms', s')" "(case q of Inr _ \<Rightarrow> 0 | Inl _ \<Rightarrow> -1) = (0 :: int)"
    by (auto simp: sys_mmap_def Let_def res_simps split: if_splits)
  then show ?thesis by (cases q) auto
qed

text \<open>A page number below the bound of SV39 is in the set of pages it is the same page as.\<close>

lemma page_set_same_page:
  assumes "request_ok start len" and "unat (vpn0 v) < 2 ^ 27"
  shows "(\<exists>w \<in> page_set (unat start div 4096) (pages_of len). same_page v w) \<longleftrightarrow>
    v \<in> page_set (unat start div 4096) (pages_of len)"
proof -
  have le: "unat start div 4096 + pages_of len \<le> 2 ^ 27" using request_range(2,4) [OF assms(1)] by simp
  show ?thesis using page_set_small [OF _ le _ assms(2)] same_page_refl by blast
qed

text \<open>A process with one page at \<open>0x10000000\<close>, mapped from the boot state.\<close>

lemma one_page:
  "request_ok 0x10000000 4096" "page_set (unat (0x10000000 :: usize) div 4096) (pages_of 4096) = {VirtPageNum 0x10000}"
  "pages_of 4096 = 1" "(3 :: usize) AND (NOT 7) = 0" "(3 :: usize) AND 7 \<noteq> 0"
proof -
  have e: "unat (vpn0 v) = 0x10000 \<longleftrightarrow> v = VirtPageNum 0x10000" for v
    by (cases v) (simp add: word_unat_eq_iff)
  have p: "page_set n 1 = {v. unat (vpn0 v) = n}" for n by (auto simp: page_set_def)
  show one: "pages_of 4096 = 1" by (simp add: pages_of_def)
  show "page_set (unat (0x10000000 :: usize) div 4096) (pages_of 4096) = {VirtPageNum 0x10000}"
    unfolding one p by (simp add: e)
qed (simp_all add: request_ok_def pages_of_def)

lemma boot_mmap:
  obtains ms0 s0 ms s where "new_bare (boot_mm 0x80400000) = Ok (ms0, s0)" "ms_inv 0x80400 (ms0, s0)"
    and "areas ms0 = []" and "\<And>v. translate (page_table ms0) v s0 = None"
    and "sys_mmap 0x10000000 4096 3 (ms0, s0) = Ok (0, ms, s)"
    and "insert_framed_area (VirtAddr_from 0x10000000) (VirtAddr_from (0x10000000 + page_round_up 4096))
      (prot_perm 3) (ms0, s0) = Ok (Inr (), ms, s)"
proof -
  obtain ms0 s0 where b: "new_bare (boot_mm 0x80400000) = Ok (ms0, s0)" "ms_inv 0x80400 (ms0, s0)"
    "\<And>v. translate (page_table ms0) v s0 = None" "card (frames_free 0x80400 s0) = 1023" "areas ms0 = []"
    by (rule boot_memory_set) (rule that)
  have "3 * pages_of 4096 \<le> card (frames_free 0x80400 s0)" by (simp add: b(4) one_page(3))
  moreover have "\<forall>v \<in> page_set (unat (0x10000000 :: usize) div 4096) (pages_of 4096). translate (page_table ms0) v s0 = None"
    using b(3) by simp
  ultimately obtain ms s where "sys_mmap 0x10000000 4096 3 (ms0, s0) = Ok (0, ms, s)"
    "insert_framed_area (VirtAddr_from 0x10000000) (VirtAddr_from (0x10000000 + page_round_up 4096))
      (prot_perm 3) (ms0, s0) = Ok (Inr (), ms, s)"
    using sys_mmap_free [OF b(2) one_page(1,4,5)] by metis
  then show thesis by (rule that [OF b(1,2,5,3)])
qed

lemma boot_one_page:
  obtains ms s where "ms_inv 0x80400 (ms, s)" and "fst ` set (bindings (areas ms)) = {VirtPageNum 0x10000}"
    and "translate (page_table ms) (VirtPageNum 0x10000) s \<noteq> None"
proof -
  obtain ms0 s0 ms s where b: "ms_inv 0x80400 (ms0, s0)" "areas ms0 = []"
    "insert_framed_area (VirtAddr_from 0x10000000) (VirtAddr_from (0x10000000 + page_round_up 4096))
      (prot_perm 3) (ms0, s0) = Ok (Inr (), ms, s)"
    by (rule boot_mmap) (rule that)
  note inv = insert_framed_area_ok(1) [OF b(1,3)]
  have r: "{v. va_floor (VirtAddr_from 0x10000000) \<le> v \<and> v < va_ceil (VirtAddr_from (0x10000000 + page_round_up 4096))} =
      {VirtPageNum 0x10000}"
    using request_range(5) [OF one_page(1)] one_page(2) by simp
  obtain df where "bindings (areas ms) = df" "fst ` set df = {VirtPageNum 0x10000}"
    using insert_framed_area_binds [OF b(1,3)] b(2) r by (metis append_Nil bindings_simps(1))
  then have d: "fst ` set (bindings (areas ms)) = {VirtPageNum 0x10000}" by simp
  then obtain f where "(VirtPageNum 0x10000, f) \<in> set (bindings (areas ms))" by fastforce
  then have "translate (page_table ms) (VirtPageNum 0x10000) s \<noteq> None"
    by (rule binding_translate [OF inv]) simp
  with inv d that show thesis by blast
qed

text \<open>Two processes in the boot state, the first with one page.\<close>

lemma boot_two:
  obtains a b s where "ms_inv 0x80400 (a, s)" and "ms_inv 0x80400 (b, s)"
    and "owned_frames b \<inter> owned_frames a = {}"
    and "fst ` set (bindings (areas a)) = {VirtPageNum 0x10000}"
proof -
  obtain ms0 s0 where b: "ms_inv 0x80400 (ms0, s0)"
    "\<And>v. translate (page_table ms0) v s0 = None" "card (frames_free 0x80400 s0) = 1023" "areas ms0 = []"
    by (rule boot_memory_set) (rule that)
  have "frames_free 0x80400 s0 \<noteq> {}" using b(3) by auto
  then obtain pt s1 where pt: "PageTable_new s0 = Ok (pt, s1)"
    "card (frames_free 0x80400 s1) = card (frames_free 0x80400 s0) - 1"
    by (rule PageTable_new_total [OF ms_invD(2) [OF b(1)]])
  define ot where "ot = \<lparr>page_table = pt, areas = []\<rparr>"
  have nb: "new_bare s0 = Ok (ot, s1)" by (simp add: new_bare_def pt(1) ot_def)
  note n = new_bare_spec [OF ms_invD(2) [OF b(1)] nb]
  have a1: "ms_inv 0x80400 (ms0, s1)" "owned_frames ot \<inter> owned_frames ms0 = {}"
    using n(4) [OF b(1)] by auto
  have free: "3 * pages_of 4096 \<le> card (frames_free 0x80400 s1)" by (simp add: pt(2) b(3) one_page(3))
  have "\<forall>v \<in> page_set (unat (0x10000000 :: usize) div 4096) (pages_of 4096). translate (page_table ms0) v s1 = None"
    using n(5) [OF b(1)] b(2) by simp
  from sys_mmap_free [OF a1(1) one_page(1,4,5) this free] obtain ms s where
    mm: "sys_mmap 0x10000000 4096 3 (ms0, s1) = Ok (0, ms, s)" by metis
  note k = sys_mmap_keeps [OF a1(1) mm]
  have "fst ` set (bindings (areas ms)) = {VirtPageNum 0x10000}"
  proof (rule insert_framed_area_binds [OF a1(1) sys_mmap_zero [OF mm]])
    fix df assume "bindings (areas ms) = bindings (areas ms0) @ df"
      "fst ` set df = {v. va_floor (VirtAddr_from 0x10000000) \<le> v \<and> v < va_ceil (VirtAddr_from (0x10000000 + page_round_up 4096))}"
    then show ?thesis using request_range(5) [OF one_page(1)] one_page(2) b(4) by simp
  qed
  with that k keeps_other(1,2) [OF k n(1) a1(2)] show thesis by (auto simp: keeps_def)
qed

section \<open>mmap and munmap\<close>

text \<open>
  C3: on a page-aligned request below the upper end of the address space, with a valid \<^verbatim>\<open>prot\<close>, no
  page of the range mapped and enough free frames, \<^verbatim>\<open>sys_mmap\<close> returns 0: every page of the range is
  mapped to a frame that was not in use before, with the requested permissions, and reads as zero;
  every other page keeps its translation, and the memory set stays well-formed.
\<close>

theorem sys_mmap_correct:
  assumes inv: "ms_inv l (ms, s)" and req: "request_ok start len"
    and prot: "prot AND (NOT 7) = 0" "prot AND 7 \<noteq> 0"
    and none: "\<forall>v \<in> page_set (unat start div 4096) (pages_of len). translate (page_table ms) v s = None"
    and free: "3 * pages_of len \<le> card (frames_free l s)"
  shows "\<exists>ms' s'. sys_mmap start len prot (ms, s) = Ok (0, ms', s') \<and> ms_inv l (ms', s') \<and>
    (\<forall>v \<in> page_set (unat start div 4096) (pages_of len).
       \<exists>f. translate (page_table ms') v s' = Some (PTE_new f (prot_perm prot OR PTE_V)) \<and>
         f \<notin> frames_used l s \<and> f \<in> frames_used l s' \<and> (\<forall>x. in_page f x \<longrightarrow> mem s' x = 0)) \<and>
    (\<forall>v. unat (vpn0 v) < 2 ^ 27 \<longrightarrow> v \<notin> page_set (unat start div 4096) (pages_of len) \<longrightarrow>
       translate (page_table ms') v s' = translate (page_table ms) v s)"
proof -
  let ?P = "page_set (unat start div 4096) (pages_of len)"
  obtain ms' s' where run: "sys_mmap start len prot (ms, s) = Ok (0, ms', s')" and
    ins: "insert_framed_area (VirtAddr_from start) (VirtAddr_from (start + page_round_up len)) (prot_perm prot) (ms, s) =
      Ok (Inr (), ms', s')"
    by (rule sys_mmap_free [OF assms])
  have P: "va_floor (VirtAddr_from start) \<le> v \<and> v < va_ceil (VirtAddr_from (start + page_round_up len)) \<longleftrightarrow> v \<in> ?P" for v
    using request_range(5) [OF req] by blast
  note ok = insert_framed_area_ok [OF inv ins]
  have "translate (page_table ms') v s' = translate (page_table ms) v s"
    if "unat (vpn0 v) < 2 ^ 27" "v \<notin> ?P" for v
    using ok(4) [of v] page_set_same_page [OF req that(1)] that(2) by (auto simp: P)
  moreover have "\<exists>f. translate (page_table ms') v s' = Some (PTE_new f (prot_perm prot OR PTE_V)) \<and>
      f \<notin> frames_used l s \<and> f \<in> frames_used l s' \<and> (\<forall>x. in_page f x \<longrightarrow> mem s' x = 0)" if "v \<in> ?P" for v
    using ok(2) P that by blast
  ultimately show ?thesis using run ok(1) by blast
qed

theorem sys_mmap_correct_witness:
  "\<exists>ms s ms' s' f. new_bare (boot_mm 0x80400000) = Ok (ms, s) \<and>
     sys_mmap 0x10000000 5000 3 (ms, s) = Ok (0, ms', s') \<and>
     translate (page_table ms') (VirtPageNum 0x10001) s' = Some (PTE_new f (prot_perm 3 OR PTE_V))"
proof -
  obtain ms s where b: "new_bare (boot_mm 0x80400000) = Ok (ms, s)" "ms_inv 0x80400 (ms, s)"
    "\<And>v. translate (page_table ms) v s = None" "card (frames_free 0x80400 s) = 1023"
    by (rule boot_memory_set) (rule that)
  have p: "request_ok 0x10000000 5000" "3 * pages_of 5000 \<le> card (frames_free 0x80400 s)"
    "(3 :: usize) AND (NOT 7) = 0" "(3 :: usize) AND 7 \<noteq> 0"
    "VirtPageNum 0x10001 \<in> page_set (unat (0x10000000 :: usize) div 4096) (pages_of 5000)"
    using b(4) by (simp_all add: request_ok_def pages_of_def page_set_def)
  from sys_mmap_correct [OF b(2) p(1,3,4) _ p(2)] b(1,3) p(5) show ?thesis by blast
qed

text \<open>
  C10: \<^verbatim>\<open>sys_munmap\<close> on a page-aligned range of pages that the process owns returns 0: exactly the
  pages of the range lose their translation, exactly their frames are given back to the frame
  allocator, and every other page keeps its translation.
\<close>

theorem sys_munmap_correct:
  assumes inv: "ms_inv l (ms, s)" and req: "request_ok start len"
    and own: "page_set (unat start div 4096) (pages_of len) \<subseteq> fst ` set (bindings (areas ms))"
  shows "\<exists>ms' s'. sys_munmap start len (ms, s) = Ok (0, ms', s') \<and> ms_inv l (ms', s') \<and>
    (\<forall>v. unat (vpn0 v) < 2 ^ 27 \<longrightarrow> translate (page_table ms') v s' =
       (if v \<in> page_set (unat start div 4096) (pages_of len) then None else translate (page_table ms) v s)) \<and>
    frames_used l s' = frames_used l s -
      {f. \<exists>v \<in> page_set (unat start div 4096) (pages_of len). (v, f) \<in> set (bindings (areas ms))}"
proof -
  from sys_munmap_owned [OF assms] obtain ms' s' where
    r: "sys_munmap start len (ms, s) = Ok (0, ms', s')" "ms_inv l (ms', s')" "page_table ms' = page_table ms"
      "frames_used l s' = frames_used l s -
        {f. \<exists>v \<in> page_set (unat start div 4096) (pages_of len). (v, f) \<in> set (bindings (areas ms))}"
      "\<And>v. translate (page_table ms) v s' =
        (if \<exists>w \<in> page_set (unat start div 4096) (pages_of len). same_page v w then None
         else translate (page_table ms) v s)"
    by blast
  from r(5) have "translate (page_table ms') v s' =
      (if v \<in> page_set (unat start div 4096) (pages_of len) then None else translate (page_table ms) v s)"
    if "unat (vpn0 v) < 2 ^ 27" for v
    by (simp add: page_set_same_page [OF req that] r(3))
  with r(1,2,4) show ?thesis by blast
qed

theorem sys_munmap_correct_witness:
  "\<exists>ms s ms' s'. sys_munmap 0x10000000 4096 (ms, s) = Ok (0, ms', s') \<and>
     translate (page_table ms) (VirtPageNum 0x10000) s \<noteq> None \<and>
     translate (page_table ms') (VirtPageNum 0x10000) s' = None"
proof -
  obtain ms s f where m: "ms_inv 0x80400 (ms, s)" "fst ` set (bindings (areas ms)) = {VirtPageNum 0x10000}"
    "translate (page_table ms) (VirtPageNum 0x10000) s \<noteq> None"
    by (rule boot_one_page)
  from sys_munmap_correct [OF m(1) one_page(1)] m(2) one_page(2) obtain ms' s' where
    "sys_munmap 0x10000000 4096 (ms, s) = Ok (0, ms', s')"
    "translate (page_table ms') (VirtPageNum 0x10000) s' = None"
    by (auto simp: one_page(2))
  with m(3) show ?thesis by blast
qed

text \<open>
  C18: \<^verbatim>\<open>sys_munmap\<close> undoes \<^verbatim>\<open>sys_mmap\<close>: after mapping a free range and unmapping it again, every page
  has the translation it had before, the process owns the same pages with the same frames, and the
  only frames that are newly in use are page-table frames of the process.
\<close>

theorem mmap_munmap_roundtrip:
  assumes inv: "ms_inv l (ms, s)" and req: "request_ok start len"
    and mm: "sys_mmap start len prot (ms, s) = Ok (0, ms1, s1)"
  shows "\<exists>ms2 s2. sys_munmap start len (ms1, s1) = Ok (0, ms2, s2) \<and> ms_inv l (ms2, s2) \<and>
    bindings (areas ms2) = bindings (areas ms) \<and>
    (\<forall>v. unat (vpn0 v) < 2 ^ 27 \<longrightarrow> translate (page_table ms2) v s2 = translate (page_table ms) v s) \<and>
    frames_used l s2 = frames_used l s \<union> set (pt_frames (page_table ms2))"
proof -
  let ?P = "page_set (unat start div 4096) (pages_of len)"
  note ins = sys_mmap_zero [OF mm]
  note ok = insert_framed_area_ok [OF inv ins]
  have P: "{v. va_floor (VirtAddr_from start) \<le> v \<and> v < va_ceil (VirtAddr_from (start + page_round_up len))} = ?P"
    by (rule request_range(5) [OF req])
  then have Pe: "va_floor (VirtAddr_from start) \<le> v \<and> v < va_ceil (VirtAddr_from (start + page_round_up len)) \<longleftrightarrow> v \<in> ?P" for v
    by blast
  obtain df where df: "bindings (areas ms1) = bindings (areas ms) @ df" "fst ` set df = ?P"
    "frames_used l s1 = frames_used l s \<union> snd ` set df \<union> set (pt_frames (page_table ms1))"
    "snd ` set df \<inter> (frames_used l s \<union> set (pt_frames (page_table ms1))) = {}"
    by (rule insert_framed_area_binds [OF inv ins, unfolded P])
  have "?P \<subseteq> fst ` set (bindings (areas ms1))" using df(1,2) by auto
  from sys_munmap_owned [OF ok(1) req this] obtain ms2 s2 where
    un: "sys_munmap start len (ms1, s1) = Ok (0, ms2, s2)" "ms_inv l (ms2, s2)" "page_table ms2 = page_table ms1"
      "bindings (areas ms2) = filter (\<lambda>b. fst b \<notin> ?P) (bindings (areas ms1))"
      "frames_used l s2 = frames_used l s1 - {f. \<exists>v \<in> ?P. (v, f) \<in> set (bindings (areas ms1))}"
      "\<And>v. translate (page_table ms1) v s2 =
        (if \<exists>w \<in> ?P. same_page v w then None else translate (page_table ms1) v s1)"
    by blast
  have new: "v \<notin> ?P" if "(v, f) \<in> set (bindings (areas ms))" for v f
    by (rule binding_translate [OF inv that]) (use ok(3) [of v] Pe [of v] in auto)
  have "bindings (areas ms2) = bindings (areas ms)"
  proof -
    have "filter (\<lambda>b. fst b \<notin> ?P) (bindings (areas ms)) = bindings (areas ms)"
      using new by (intro filter_True) auto
    moreover have "filter (\<lambda>b. fst b \<notin> ?P) df = []"
      using df(2) by (auto simp: filter_empty_conv)
    ultimately show ?thesis by (simp add: un(4) df(1))
  qed
  moreover have "translate (page_table ms2) v s2 = translate (page_table ms) v s"
    if v: "unat (vpn0 v) < 2 ^ 27" for v
  proof (cases "v \<in> ?P")
    case True
    then have "translate (page_table ms) v s = None" using ok(3) Pe by blast
    with True un(6) [of v] show ?thesis by (auto simp: un(3) page_set_same_page [OF req v])
  next
    case False
    then have no: "\<not> (\<exists>w \<in> ?P. same_page v w)" by (simp add: page_set_same_page [OF req v])
    then have "translate (page_table ms1) v s1 = translate (page_table ms) v s" using ok(4) [of v] Pe by blast
    with no un(6) [of v] show ?thesis by (simp add: un(3))
  qed
  moreover have "{f. \<exists>v \<in> ?P. (v, f) \<in> set (bindings (areas ms1))} = snd ` set df"
    using new df(2) by (force simp: df(1))
  then have "frames_used l s2 = frames_used l s \<union> set (pt_frames (page_table ms2))"
    using df(3,4) by (auto simp: un(3,5))
  ultimately show ?thesis using un(1,2) by blast
qed

theorem mmap_munmap_roundtrip_witness:
  "\<exists>ms0 s0 ms1 s1 ms2 s2. new_bare (boot_mm 0x80400000) = Ok (ms0, s0) \<and>
     sys_mmap 0x10000000 4096 3 (ms0, s0) = Ok (0, ms1, s1) \<and>
     sys_munmap 0x10000000 4096 (ms1, s1) = Ok (0, ms2, s2) \<and> bindings (areas ms2) = []"
proof -
  obtain ms0 s0 ms s where b: "new_bare (boot_mm 0x80400000) = Ok (ms0, s0)" "ms_inv 0x80400 (ms0, s0)"
    "areas ms0 = []" "sys_mmap 0x10000000 4096 3 (ms0, s0) = Ok (0, ms, s)"
    by (rule boot_mmap) (rule that)
  from mmap_munmap_roundtrip [OF b(2) one_page(1) b(4)] obtain ms2 s2 where
    "sys_munmap 0x10000000 4096 (ms, s) = Ok (0, ms2, s2)" "bindings (areas ms2) = bindings (areas ms0)" by blast
  with b(1,3,4) show ?thesis by (intro exI conjI) auto
qed

text \<open>
  C17: isolation of \<^verbatim>\<open>sys_mmap\<close>. Whatever the arguments and whatever the call returns, a memory set of
  another process (one that owns other frames) stays well-formed, still owns no frame of the caller,
  and keeps every translation and every byte of its pages.
\<close>

theorem sys_mmap_isolated:
  assumes "ms_inv l (ms, s)" and "sys_mmap start len prot (ms, s) = Ok (r, ms', s')"
    and "ms_inv l (ot, s)" and "owned_frames ot \<inter> owned_frames ms = {}"
  shows "ms_inv l (ms', s') \<and> ms_inv l (ot, s') \<and> owned_frames ot \<inter> owned_frames ms' = {} \<and>
    (\<forall>v. translate (page_table ot) v s' = translate (page_table ot) v s) \<and>
    (\<forall>p \<in> owned_frames ot. \<forall>x. in_page p x \<longrightarrow> mem s' x = mem s x)"
proof -
  have k: "keeps l ms s ms' s'" by (rule sys_mmap_keeps [OF assms(1,2)])
  then have "ms_inv l (ms', s')" by (simp add: keeps_def)
  with keeps_other [OF k assms(3,4)] show ?thesis by blast
qed

theorem sys_mmap_isolated_witness:
  "\<exists>a b s r a' s'. owned_frames b \<inter> owned_frames a = {} \<and>
     sys_mmap 0x10000000 4096 3 (a, s) = Ok (r, a', s') \<and> ms_inv 0x80400 (b, s') \<and> owned_frames b \<inter> owned_frames a' = {}"
proof -
  obtain a b s where t: "ms_inv 0x80400 (a, s)" "ms_inv 0x80400 (b, s)" "owned_frames b \<inter> owned_frames a = {}"
    "fst ` set (bindings (areas a)) = {VirtPageNum 0x10000}"
    by (rule boot_two)
  obtain f where "(VirtPageNum 0x10000, f) \<in> set (bindings (areas a))" using t(4) by fastforce
  then have "translate (page_table a) (VirtPageNum 0x10000) s \<noteq> None"
    by (rule binding_translate [OF t(1)]) simp
  then have r: "sys_mmap 0x10000000 4096 3 (a, s) = Ok (-1, a, s)"
    by (intro sys_mmap_busy [OF t(1) one_page(1), of "VirtPageNum 0x10000", unfolded one_page(2)]) simp_all
  from sys_mmap_isolated [OF t(1) r t(2,3)] r t(3) show ?thesis by blast
qed

text \<open>
  Isolation of \<^verbatim>\<open>sys_munmap\<close>, in the same form.
\<close>

theorem sys_munmap_isolated:
  assumes "ms_inv l (ms, s)" and "sys_munmap start len (ms, s) = Ok (r, ms', s')"
    and "ms_inv l (ot, s)" and "owned_frames ot \<inter> owned_frames ms = {}"
  shows "ms_inv l (ms', s') \<and> ms_inv l (ot, s') \<and> owned_frames ot \<inter> owned_frames ms' = {} \<and>
    (\<forall>v. translate (page_table ot) v s' = translate (page_table ot) v s) \<and>
    (\<forall>p \<in> owned_frames ot. \<forall>x. in_page p x \<longrightarrow> mem s' x = mem s x)"
proof -
  have k: "keeps l ms s ms' s'" by (rule sys_munmap_keeps [OF assms(1,2)])
  then have "ms_inv l (ms', s')" by (simp add: keeps_def)
  with keeps_other [OF k assms(3,4)] show ?thesis by blast
qed

theorem sys_munmap_isolated_witness:
  "\<exists>a b s r a' s'. owned_frames b \<inter> owned_frames a = {} \<and>
     sys_munmap 0x10000000 4096 (a, s) = Ok (r, a', s') \<and> ms_inv 0x80400 (b, s') \<and> owned_frames b \<inter> owned_frames a' = {}"
proof -
  obtain a b s where t: "ms_inv 0x80400 (a, s)" "ms_inv 0x80400 (b, s)" "owned_frames b \<inter> owned_frames a = {}"
    "fst ` set (bindings (areas a)) = {VirtPageNum 0x10000}"
    by (rule boot_two)
  obtain a' s' where r: "sys_munmap 0x10000000 4096 (a, s) = Ok (0, a', s')"
    using sys_munmap_owned [OF t(1) one_page(1), unfolded one_page(2)] t(4) by auto
  from sys_munmap_isolated [OF t(1) r t(2,3)] r t(3) show ?thesis by blast
qed

lemma page_round_up_nat:
  assumes "pages_of len * 4096 < 2 ^ 64"
  shows "unat (page_round_up len) = pages_of len * 4096"
proof -
  have "unat len + 4095 < 2 ^ 64"
  proof (rule ccontr)
    assume "\<not> unat len + 4095 < 2 ^ 64"
    then have "2 ^ 64 \<le> (unat len + 4095) div 4096 * 4096"
      using div_le_mono [of "2 ^ 64" "unat len + 4095" 4096] by simp
    then show False using assms by (simp add: pages_of_def)
  qed
  then have "unat (len + PAGE_SIZE - 1) = unat len + 4095"
    by (simp add: PAGE_SIZE_def unat_word_ariths)
  then have "unat ((len + PAGE_SIZE - 1) div PAGE_SIZE) = pages_of len"
    by (simp add: div_PAGE_SIZE unat_drop_bit pages_of_def)
  then have "unat (page_round_up len) = pages_of len * 4096 mod 2 ^ 64"
    unfolding page_round_up_def unat_word_ariths by (simp add: PAGE_SIZE_def)
  with assms show ?thesis by simp
qed

text \<open>
  C31: an aligned request with valid protection bits whose last page (the length rounded up) ends at or
  beyond the upper end of the 39-bit address space makes \<^verbatim>\<open>sys_mmap\<close> panic:
  \<^verbatim>\<open>VirtAddr::from(start + len)\<close> loses the upper bits, the end is below the start and the assertion in
  \<^verbatim>\<open>VPNRange::new\<close> fails, so a user program can bring the kernel down. The request itself is of less than
  the whole address space.
\<close>

theorem sys_mmap_panics:
  assumes al: "start AND (PAGE_SIZE - 1) = 0" and prot: "prot AND NOT 7 = 0" "prot AND 7 \<noteq> 0"
    and below: "unat start < 2 ^ 39"
    and past: "2 ^ 39 \<le> unat start + 4096 * pages_of len" and len: "pages_of len < 2 ^ 27"
  shows "sys_mmap start len prot st = Panic AssertFailed"
proof -
  let ?e = "start + page_round_up len"
  have r: "unat (page_round_up len) = 4096 * pages_of len" using page_round_up_nat [of len] len by simp
  have a: "unat start mod 4096 = 0"
    using arg_cong [OF al, of unat] by (simp add: and_PAGE_SIZE unat_take_bit take_bit_nat_def)
  have e: "unat ?e = unat start + 4096 * pages_of len"
    using below len r by (simp add: unat_word_ariths)
  have w: "unat (take_bit 39 ?e) = unat start + 4096 * pages_of len - 2 ^ 39" (is "_ = ?w")
    using below len past unfolding unat_take_bit e take_bit_nat_def
    by (subst le_mod_geq) simp_all
  have "unat (vpn0 (va_ceil (VirtAddr_from ?e))) \<le> (?w + 4095) div 4096"
  proof (cases "take_bit 39 ?e = 0")
    case True then show ?thesis by (simp add: va_ceil_def VirtAddr_from_take_bit PAGE_SIZE_def)
  next
    case False
    then have "unat (take_bit 39 ?e - 1) = ?w - 1" using w by (simp add: unat_minus_one)
    moreover from False have "0 < ?w" unfolding w [symmetric] unat_gt_0 .
    moreover have "?w < 2 ^ 40" using below len by simp
    moreover have "unat (PAGE_SIZE :: usize) = 4096" by (simp add: PAGE_SIZE_def)
    ultimately have "unat (take_bit 39 ?e - 1 + PAGE_SIZE) = ?w + 4095"
      unfolding unat_word_ariths(1) by simp
    then show ?thesis by (simp add: va_ceil_def VirtAddr_from_take_bit PAGE_SIZE_def unat_div)
  qed
  moreover have "unat (vpn0 (va_floor (VirtAddr_from start))) = unat start div 4096"
    using below by (simp add: va_floor_def VirtAddr_from_take_bit PAGE_SIZE_def unat_div unat_take_bit)
  moreover have "(?w + 4095) div 4096 < unat start div 4096"
  proof -
    obtain q where q: "unat start = 4096 * q" using a by (metis mult_div_mod_eq add_0_right)
    have "?w = 4096 * (q + pages_of len - 2 ^ 27)" unfolding q by simp
    then have "(?w + 4095) div 4096 = q + pages_of len - 2 ^ 27" by linarith
    then show ?thesis using past len unfolding q by simp
  qed
  ultimately have "\<not> va_floor (VirtAddr_from start) \<le> va_ceil (VirtAddr_from ?e)"
    by (simp add: page_order_defs word_nat)
  then show ?thesis
    using al prot by (cases st) (simp add: sys_mmap_def Let_def VPNRange_new_Panic)
qed

theorem sys_mmap_panics_witness:
  "\<forall>st. sys_mmap 0x7fffffe000 0x1234 3 st = Panic AssertFailed"
  by (intro allI, rule sys_mmap_panics) (simp_all add: and_PAGE_SIZE pages_of_def)

text \<open>
  C30: when the frames run out in the middle, \<^verbatim>\<open>insert_framed_area\<close> gives the frames it had taken for
  the area back to the allocator but leaves the entries it wrote in the page table. It stops after the
  first \<open>n\<close> pages of the range, where \<open>n\<close> is at least a third of the frames that were free (so at least
  one page as soon as one frame was free), and each of these pages still translates, with the area's
  permissions, to a frame that is free again. The areas are as before and the frames of the new page
  tables stay in use.
\<close>

theorem insert_framed_area_dangling:
  assumes "ms_inv l (ms, s)"
    and "insert_framed_area start_va end_va perm (ms, s) = Ok (Inl e, ms', s')"
  shows "ms_inv l (ms', s') \<and> areas ms' = areas ms \<and>
    frames_used l s' = frames_used l s \<union> set (pt_frames (page_table ms')) \<and>
    (\<forall>v pte. translate (page_table ms) v s = None \<longrightarrow> translate (page_table ms') v s' = Some pte \<longrightarrow>
       pte_ppn pte \<notin> frames_used l s') \<and>
    (\<exists>n. card (frames_free l s) \<le> 3 * n \<and>
       n < unat (vpn0 (va_ceil end_va)) - unat (vpn0 (va_floor start_va)) \<and>
       (\<forall>v. va_floor start_va \<le> v \<and> unat (vpn0 v) < unat (vpn0 (va_floor start_va)) + n \<longrightarrow>
         (\<exists>f \<in> frames_free l s'. translate (page_table ms') v s' = Some (PTE_new f (perm OR PTE_V)))))"
proof -
  have "\<forall>v pte. translate (page_table ms) v s = None \<longrightarrow> translate (page_table ms') v s' = Some pte \<longrightarrow>
      pte_ppn pte \<notin> frames_used l s'"
    using insert_framed_area_error(4) [OF assms] by blast
  with insert_framed_area_error(1-3) [OF assms] insert_framed_area_leaves [OF assms] show ?thesis
    by (intro conjI)
qed

theorem insert_framed_area_dangling_witness:
  "\<exists>ms s e ms' s'. ms_inv 0x807FC (ms, s) \<and> card (frames_free 0x807FC s) = 3 \<and>
     insert_framed_area (VirtAddr 0x10000000) (VirtAddr 0x10002000) (MP_R OR MP_U) (ms, s) = Ok (Inl e, ms', s') \<and>
     (\<exists>f \<in> frames_free 0x807FC s'.
        translate (page_table ms') (VirtPageNum 0x10000) s' = Some (PTE_new f ((MP_R OR MP_U) OR PTE_V)))"
proof -
  obtain ms s e ms' s' pte where r: "ms_inv 0x807FC (ms, s)" "card (frames_free 0x807FC s) = 3"
    "insert_framed_area (VirtAddr 0x10000000) (VirtAddr 0x10002000) (MP_R OR MP_U) (ms, s) = Ok (Inl e, ms', s')"
    by (rule insert_runs_out)
  have v: "va_floor (VirtAddr 0x10000000) = VirtPageNum 0x10000"
    by (simp add: va_floor_def PAGE_SIZE_def)
  from insert_framed_area_dangling [OF r(1,3)] obtain n where n: "card (frames_free 0x807FC s) \<le> 3 * n"
    "\<forall>v. VirtPageNum 0x10000 \<le> v \<and> unat (vpn0 v) < 0x10000 + n \<longrightarrow>
       (\<exists>f \<in> frames_free 0x807FC s'. translate (page_table ms') v s' = Some (PTE_new f ((MP_R OR MP_U) OR PTE_V)))"
    unfolding v by auto
  have "0 < n" using n(1) r(2) by simp
  then have "\<exists>f \<in> frames_free 0x807FC s'.
      translate (page_table ms') (VirtPageNum 0x10000) s' = Some (PTE_new f ((MP_R OR MP_U) OR PTE_V))"
    using n(2) [rule_format, of "VirtPageNum 0x10000"] by simp
  with r show ?thesis by blast
qed

section \<open>Page tables\<close>

text \<open>
  \<^verbatim>\<open>PageTable::map\<close> with two free frames returns exactly when the page is not mapped; then that
  page, and no other, gets the given frame and flags, the table stays a tree in frames of its own,
  and no byte outside the frames of the table changes. On a mapped page it panics.
\<close>

theorem pt_map_correct:
  assumes inv: "pt_inv l (pt, s)" and free: "2 \<le> card (frames_free l s)"
  shows "if translate pt vpn s = None
    then \<exists>pt' s'. pt_map vpn ppn flags (pt, s) = Ok (pt', s') \<and> pt_inv l (pt', s') \<and>
      (\<forall>v. translate pt' v s' =
        (if same_page v vpn then Some (PTE_new ppn (flags OR PTE_V)) else translate pt v s)) \<and>
      (\<forall>x. (\<forall>p \<in> set (pt_frames pt'). \<not> in_page p x) \<longrightarrow> mem s' x = mem s x) \<and>
      frames_used l s' = frames_used l s \<union> set (pt_frames pt')
    else pt_map vpn ppn flags (pt, s) = Panic AssertFailed"
proof (cases "translate pt vpn s = None")
  case True
  from pt_map_total [OF inv True free] obtain pt' s' where m: "pt_map vpn ppn flags (pt, s) = Ok (pt', s')"
    by blast
  note sp = pt_map_spec [OF inv m]
  have "frames_used l s' = frames_used l s \<union> set (pt_frames pt')"
    using sp(2) inv by (auto simp: pt_ext_def pt_inv_def)
  moreover have "\<forall>x. (\<forall>p \<in> set (pt_frames pt'). \<not> in_page p x) \<longrightarrow> mem s' x = mem s x"
    using sp(2) by (simp add: pt_ext_def)
  ultimately show ?thesis using True m sp(1,4) by auto
next
  case False
  with pt_map_mapped [of pt vpn s ppn flags] show ?thesis by simp
qed

theorem pt_map_correct_witness:
  "\<exists>pt s pt' s'. PageTable_new (boot_mm 0x80400000) = Ok (pt, s) \<and>
     pt_map (VirtPageNum 5) (PhysPageNum 7) PTE_R (pt, s) = Ok (pt', s') \<and>
     translate pt' (VirtPageNum 5) s' = Some (PTE_new (PhysPageNum 7) (PTE_R OR PTE_V))"
proof -
  obtain pt s where b: "PageTable_new (boot_mm 0x80400000) = Ok (pt, s)" "pt_inv 0x80400 (pt, s)"
    "\<And>v. translate pt v s = None" "card (frames_free 0x80400 s) = 1023"
    by (rule boot_page_table) (rule that)
  from pt_map_correct [OF b(2), of "VirtPageNum 5" "PhysPageNum 7" PTE_R] b(1,3,4) show ?thesis by auto
qed

text \<open>
  \<^verbatim>\<open>PageTable::unmap\<close> on a mapped page returns: that page, and no other, loses its translation, and
  no byte outside the frames of the table changes. On a page that is not mapped it panics.
\<close>

theorem pt_unmap_correct:
  assumes inv: "pt_inv l (pt, s)"
  shows "if translate pt vpn s = None then pt_unmap vpn (pt, s) = Panic UnwrapNone
    else \<exists>s'. pt_unmap vpn (pt, s) = Ok (pt, s') \<and> pt_inv l (pt, s') \<and>
      (\<forall>v. translate pt v s' = (if same_page v vpn then None else translate pt v s)) \<and>
      (\<forall>x. (\<forall>p \<in> set (pt_frames pt). \<not> in_page p x) \<longrightarrow> mem s' x = mem s x) \<and>
      frames_used l s' = frames_used l s"
proof (cases "translate pt vpn s = None")
  case True
  then show ?thesis by (simp add: pt_unmap_unmapped)
next
  case False
  from pt_unmap_total [OF this] obtain s' where u: "pt_unmap vpn (pt, s) = Ok (pt, s')" by blast
  note sp = pt_unmap_spec [OF inv u]
  have "\<forall>x. (\<forall>p \<in> set (pt_frames pt). \<not> in_page p x) \<longrightarrow> mem s' x = mem s x"
    using sp(2) by (simp add: pt_ext_def)
  moreover have "frames_used l s' = frames_used l s" using sp(4) by (simp add: frames_used_def)
  ultimately show ?thesis using False u sp(1,5) by auto
qed

theorem pt_unmap_correct_witness:
  "\<exists>(ms :: MemorySet) s s'. translate (page_table ms) (VirtPageNum 0x10000) s \<noteq> None \<and>
     pt_unmap (VirtPageNum 0x10000) (page_table ms, s) = Ok (page_table ms, s') \<and>
     translate (page_table ms) (VirtPageNum 0x10000) s' = None"
proof -
  obtain ms s where m: "ms_inv 0x80400 (ms, s)" "translate (page_table ms) (VirtPageNum 0x10000) s \<noteq> None"
    by (rule boot_one_page)
  from pt_unmap_correct [OF ms_invD(1) [OF m(1)], of "VirtPageNum 0x10000"] m(2) obtain s' where
    "pt_unmap (VirtPageNum 0x10000) (page_table ms, s) = Ok (page_table ms, s')"
    "translate (page_table ms) (VirtPageNum 0x10000) s' = None" by auto
  with m(2) show ?thesis by blast
qed

section \<open>Frames\<close>

lemma init_frame_allocator_state:
  assumes "0 < unat kend" and "unat kend \<le> 0x80800000"
  shows "\<exists>l. unat l = (unat kend + 4095) div 4096 \<and>
    init_frame_allocator kend StackFrameAllocator_new =
      \<lparr>fa_current = l, fa_end = 0x80800, fa_recycled = []\<rparr>"
proof -
  let ?l = "(kend - 1 + PAGE_SIZE) div PAGE_SIZE"
  have t: "take_bit 56 kend = kend"
    using assms(2) by (simp add: word_unat_eq_iff unat_take_bit)
  have "unat (kend - 1) = unat kend - 1"
    using assms(1) by (simp add: unat_minus_one unat_gt_0)
  moreover from this have "unat (kend - 1) + unat PAGE_SIZE < 2 ^ 64"
    using assms(2) by (simp add: PAGE_SIZE_def)
  ultimately have "unat (kend - 1 + PAGE_SIZE) = unat kend + 4095"
    using assms(1) by (simp add: unat_word_ariths PAGE_SIZE_def)
  then have "unat ?l = (unat kend + 4095) div 4096"
    by (simp add: unat_div PAGE_SIZE_def)
  moreover have "init_frame_allocator kend StackFrameAllocator_new =
      \<lparr>fa_current = ?l, fa_end = 0x80800, fa_recycled = []\<rparr>"
    using t by (simp add: init_frame_allocator_def fa_init_def StackFrameAllocator_new_def
      pa_ceil_def pa_floor_def PhysAddr_from_take_bit PAGE_SIZE_def MEMORY_END_def take_bit_eq_mod)
  ultimately show ?thesis by blast
qed

text \<open>
  C15: for a kernel image that ends anywhere in memory (at an address that need not be a multiple of the
  page size), no sequence of allocations and drops of live frames, started in the state that
  \<^verbatim>\<open>init_frame_allocator\<close> leaves, makes the frame allocator panic: the live frames stay pairwise
  distinct, each of them lies wholly between the end of the image and \<^verbatim>\<open>MEMORY_END\<close>, and an allocation
  fails exactly when as many frames are live as whole pages fit there.
\<close>

theorem frame_allocator_runs:
  assumes "0 < unat kend" and "unat kend \<le> unat MEMORY_END"
  shows "\<exists>a live. serve_all fa_alloc fa_dealloc requests
       (init_frame_allocator kend StackFrameAllocator_new, []) = Ok (a, live) \<and>
     distinct live \<and>
     (\<forall>p \<in> set live. unat kend \<le> 4096 * unat (ppn0 p) \<and> 4096 * unat (ppn0 p) + 4096 \<le> unat MEMORY_END) \<and>
     (fa_alloc a = None \<longleftrightarrow> length live = (unat MEMORY_END - unat kend) div 4096)"
proof -
  let ?a = "init_frame_allocator kend StackFrameAllocator_new"
  have E: "unat MEMORY_END = 0x80800000" by (simp add: MEMORY_END_def)
  obtain l where l: "unat l = (unat kend + 4095) div 4096"
    "?a = \<lparr>fa_current = l, fa_end = 0x80800, fa_recycled = []\<rparr>"
    using init_frame_allocator_state assms E by metis
  have le: "unat l \<le> 0x80800" using l(1) assms(2) E by simp
  have "fa_inv l ?a" using le by (simp add: l(2) fa_inv_def word_nat)
  moreover have "fa_used l ?a = {}" by (auto simp: fa_used_def l(2))
  ultimately have "frames.agrees l (?a, [])" by (simp add: frames.agrees_def)
  from frames.serve_all_agrees [OF this, of requests] obtain a live where
    r: "serve_all fa_alloc fa_dealloc requests (?a, []) = Ok (a, live)" "frames.agrees l (a, live)"
      "fa_pool l a = fa_pool l ?a" by auto
  have pool: "unat kend \<le> 4096 * unat (ppn0 p) \<and> 4096 * unat (ppn0 p) + 4096 \<le> unat MEMORY_END"
    if "p \<in> fa_pool l a" for p
  proof -
    have "unat l \<le> unat (ppn0 p)" "unat (ppn0 p) < 0x80800"
      using that unfolding r(3) by (simp_all add: l(2) fa_pool_def word_nat)
    then show ?thesis unfolding l(1) E by linarith
  qed
  have "card (fa_pool l a) = 0x80800 - unat l" unfolding r(3) card_fa_pool by (simp add: l(2))
  also have "\<dots> = (unat MEMORY_END - unat kend) div 4096" using assms(2) unfolding l(1) E by linarith
  finally have card: "card (fa_pool l a) = (unat MEMORY_END - unat kend) div 4096" .
  have v: "fa_inv l a" "distinct live" "set live = fa_used l a"
    using r(2) by (simp_all add: frames.agrees_def)
  have sub: "set live \<subseteq> fa_pool l a" using frames.used_pool [OF v(1)] v(3) by simp
  have fin: "finite (fa_pool l a)"
    by (rule finite_imageD [of "\<lambda>p. ppn0 p"]) (auto intro!: inj_onI PhysPageNum.expand)
  have "fa_alloc a = None \<longleftrightarrow> set live = fa_pool l a"
    using frames.alloc_while_free [OF r(2)] fa_alloc_None [OF v(1)] v(3) frames.alloc_Some [OF v(1)]
      frames.used_pool by (cases "fa_alloc a") (auto, blast)
  also have "\<dots> \<longleftrightarrow> length live = card (fa_pool l a)"
    using card_seteq [OF fin sub] distinct_card [OF v(2)] by auto
  finally show ?thesis using r(1) v(2) sub pool unfolding card by (intro exI conjI) auto
qed

theorem frame_allocator_runs_witness:
  "\<exists>a live. serve_all fa_alloc fa_dealloc [Request_alloc, Request_alloc, Request_drop (PhysPageNum 0x80424)]
       (init_frame_allocator 0x80423456 StackFrameAllocator_new, []) = Ok (a, live) \<and>
     distinct live \<and> (fa_alloc a = None \<longleftrightarrow> length live = 988)"
  using frame_allocator_runs [of "0x80423456" "[Request_alloc, Request_alloc, Request_drop (PhysPageNum 0x80424)]"]
  by (auto simp: MEMORY_END_def)

section \<open>User memory\<close>

text \<open>
  C19: on a range of user addresses below the end of the address space whose pages are all mapped,
  \<^verbatim>\<open>translated_byte_buffers\<close> ends without a panic, and iterating over the \<^verbatim>\<open>UserBuffer\<close> of its slices
  visits the physical addresses of exactly the \<open>len\<close> bytes of the range, in order.
\<close>

theorem translated_byte_buffers_correct:
  assumes "unat ptr + unat len < 2 ^ 39"
    and "user_mapped (from_token tok) s (unat ptr) (unat ptr + unat len)"
  shows "\<exists>bs. translated_byte_buffers tok ptr len s = Some (Ok bs) \<and> UserBuffer_len bs = len \<and>
    UserBuffer_collect (UserBuffer_into_iter bs) =
      Ok (map (\<lambda>x. user_pa (from_token tok) s (of_nat x)) [unat ptr..<unat ptr + unat len])"
proof -
  have e: "unat (ptr + len) = unat ptr + unat len" using assms(1) by (simp add: unat_word_ariths)
  then have "ptr \<le> ptr + len" "unat (ptr + len) < 2 ^ 39" using assms(1) by (simp_all add: word_nat)
  from buffers_loop_spec [OF this, of "from_token tok" s "[]"] assms(2) obtain bs where
    "translated_byte_buffers tok ptr len s = Some (Ok bs)" "\<forall>b \<in> set bs. 0 < snd b"
    "concat (map slice_addrs bs) =
      map (\<lambda>x. user_pa (from_token tok) s (of_nat x)) [unat ptr..<unat ptr + unat len]"
    by (auto simp: translated_byte_buffers_def e)
  moreover from this(3) have "UserBuffer_len bs = len"
    unfolding UserBuffer_len_eq by simp
  ultimately show ?thesis by (simp add: UserBuffer_collect_eq)
qed

theorem translated_byte_buffers_correct_witness:
  "\<exists>ms s bs. translated_byte_buffers (ms_token ms) 0x10000010 16 s = Some (Ok bs) \<and> UserBuffer_len bs = 16"
proof -
  obtain ms s where m: "ms_inv 0x80400 (ms, s)" "translate (page_table ms) (VirtPageNum 0x10000) s \<noteq> None"
    by (rule boot_one_page)
  have "va_floor (VirtAddr_from (of_nat x)) = VirtPageNum 0x10000" if "0x10000010 \<le> x" "x < 0x10000020" for x
  proof -
    have x: "unat (of_nat x :: usize) = x" using that by (intro unat_of_nat_64) simp
    then have "unat (vpn0 (va_floor (VirtAddr_from (of_nat x)))) = 0x10000"
      using va_small(2) [of "of_nat x"] that by (simp add: div_nat_eqI)
    then show ?thesis by (cases "va_floor (VirtAddr_from (of_nat x))") (simp add: word_unat_eq_iff)
  qed
  then have "user_mapped (from_token (ms_token ms)) s (unat (0x10000010 :: usize)) (unat (0x10000010 :: usize) + unat (16 :: usize))"
    using m(2) current_user_table_translate [OF m(1)]
    by (auto simp: user_mapped_def current_user_table_def simp del: not_None_eq)
  from translated_byte_buffers_correct [OF _ this] show ?thesis by auto
qed

lemma next_slice_top:
  assumes "translate pt (va_floor (VirtAddr_from start)) s = Some pte"
  shows "next_slice pt s start (2 ^ 39) =
    Ok ((page_base (pte_ppn pte) + va_page_offset (VirtAddr_from start),
      4096 - unat (va_page_offset (VirtAddr_from start))), 0)"
proof -
  have "VirtAddr_from (2 ^ 39) = VirtAddr 0" by (simp add: VirtAddr_from_take_bit)
  moreover have "min x (VirtAddr 0) = VirtAddr 0" for x
    by (simp add: min_def less_eq_VirtAddr_def VirtAddr.expand)
  moreover have "unat (va_page_offset a) < 4096" for a
    unfolding va_page_offset_def and_PAGE_SIZE unat_take_bit take_bit_nat_def by simp
  moreover have "va_page_offset (VirtAddr 0) = 0" by (simp add: va_page_offset_def)
  ultimately show ?thesis using assms
    by (simp add: next_slice_def Let_def page_slice_def less_imp_le)
qed

text \<open>
  C32: on any range of at least one byte that ends at the upper end of the 39-bit address space
  \<^verbatim>\<open>translated_byte_buffers\<close> never returns slices: if the first page or page zero is not mapped it
  panics, and if both are mapped its loop does not end, because \<^verbatim>\<open>VirtAddr::from(end)\<close> is zero, so that
  after the first round every round starts at address zero again (and pushes another slice).
\<close>

theorem translated_byte_buffers_hangs:
  assumes "unat ptr + unat len = 2 ^ 39" and "0 < unat len"
  shows "translated_byte_buffers tok ptr len s =
    (if translate (from_token tok) (va_floor (VirtAddr_from ptr)) s = None \<or>
        translate (from_token tok) (VirtPageNum 0) s = None
     then Some (Panic UnwrapNone) else None)"
proof -
  let ?pt = "from_token tok"
  define e :: usize where "e = 2 ^ 39"
  have e: "ptr + len = e" using assms(1) by (simp add: e_def word_unat_eq_iff unat_word_ariths)
  have lt: "ptr < e" "0 < e" using assms by (simp_all add: e_def word_nat)
  have z: "va_floor (VirtAddr_from 0) = VirtPageNum 0"
    by (simp add: va_floor_def VirtAddr_from_take_bit)
  have none: "next_slice ?pt s a e = Panic UnwrapNone"
    if "translate ?pt (va_floor (VirtAddr_from a)) s = None" for a
    using that by (simp add: next_slice_def Let_def)
  show ?thesis
  proof (cases "translate ?pt (va_floor (VirtAddr_from ptr)) s")
    case None
    then show ?thesis unfolding translated_byte_buffers_def e
      by (subst buffers_loop.simps) (simp add: lt none)
  next
    case (Some pte)
    have first: "buffers_loop ?pt s ptr e [] = buffers_loop ?pt s 0 e
        [(page_base (pte_ppn pte) + va_page_offset (VirtAddr_from ptr),
          4096 - unat (va_page_offset (VirtAddr_from ptr)))]"
      by (subst buffers_loop.simps) (simp add: lt next_slice_top [OF Some, folded e_def])
    show ?thesis
    proof (cases "translate ?pt (VirtPageNum 0) s")
      case None
      then show ?thesis unfolding translated_byte_buffers_def e first
        by (subst buffers_loop.simps) (use lt(2) in \<open>simp add: Some none z\<close>)
    next
      case zero: (Some pte0)
      show ?thesis unfolding translated_byte_buffers_def e first buffers_loop_stuck [OF zero, folded e_def]
        by (simp add: Some zero)
    qed
  qed
qed

theorem translated_byte_buffers_hangs_witness:
  "\<exists>pt s. translate pt (VirtPageNum 0) s \<noteq> None \<and> translated_byte_buffers (token pt) 0 (2 ^ 39) s = None"
proof -
  obtain pt0 s0 where b: "pt_inv 0x80400 (pt0, s0)" "\<And>v. translate pt0 v s0 = None" "card (frames_free 0x80400 s0) = 1023"
    by (rule boot_page_table) (rule that)
  obtain pt s where m: "pt_map (VirtPageNum 0) (PhysPageNum 7) PTE_R (pt0, s0) = Ok (pt, s)"
    using pt_map_total [OF b(1,2), of "VirtPageNum 0" "PhysPageNum 7" PTE_R] b(3) by auto
  note sp = pt_map_spec [OF b(1) m]
  have t: "translate pt (VirtPageNum 0) s \<noteq> None" using sp(4) by simp
  moreover have "translate (from_token (token pt)) (VirtPageNum 0) s = translate pt (VirtPageNum 0) s"
    using from_token_translate [OF sp(1)] .
  moreover have "va_floor (VirtAddr_from 0) = VirtPageNum 0"
    by (simp add: va_floor_def VirtAddr_from_take_bit)
  ultimately have "translated_byte_buffers (token pt) 0 (2 ^ 39) s = None"
    using translated_byte_buffers_hangs [of 0 "2 ^ 39" "token pt" s] by simp
  with t show ?thesis by (intro exI conjI)
qed

text \<open>
  \<^verbatim>\<open>translated_str\<close> on a string that ends with a zero byte, all of whose bytes are in mapped pages,
  returns the bytes before the zero.
\<close>

theorem translated_str_correct:
  assumes "\<And>k. k \<le> n \<Longrightarrow> translate_va (from_token tok) (VirtAddr_from (ptr + of_nat k)) s \<noteq> None"
    and "\<And>k. k < n \<Longrightarrow> mem s (user_pa (from_token tok) s (ptr + of_nat k)) \<noteq> 0"
    and "mem s (user_pa (from_token tok) s (ptr + of_nat n)) = 0"
  shows "translated_str tok ptr s =
    Some (Ok (map (\<lambda>k. mem s (user_pa (from_token tok) s (ptr + of_nat k))) [0..<n]))"
  using translated_str_loop [OF assms, of "[]"] by (simp add: translated_str_def)

theorem translated_str_correct_witness:
  "\<exists>ms s. ms_inv 0x80400 (ms, s) \<and> translated_str (ms_token ms) 0x10000000 s = Some (Ok [104, 105])"
proof -
  obtain ms s where m: "ms_inv 0x80400 (ms, s)" "fst ` set (bindings (areas ms)) = {VirtPageNum 0x10000}"
    by (rule boot_one_page)
  then obtain f where f: "(VirtPageNum 0x10000, f) \<in> set (bindings (areas ms))" by fastforce
  obtain p where p: "translate (page_table ms) (VirtPageNum 0x10000) s = Some (PTE_new f (p OR PTE_V))" "ppn_ok f"
    by (rule binding_translate [OF m(1) f])
  define t where "t = s\<lparr>mem := store_bytes (mem s) (page_base f) [104, 105, 0]\<rparr>"
  have "f \<in> set (area_frames (areas ms))" using f by (force simp: area_frames_bindings)
  then have out: "store_bytes (mem s) (page_base f) [104, 105, 0] x = mem s x"
    if "q \<in> set (pt_frames (page_table ms))" "in_page q x" for q x
    using that ms_invD(6) [OF m(1)] pt_inv_frames_ok [OF ms_invD(1) [OF m(1)] that(1)]
    by (intro store_bytes_outside [OF p(2)]) auto
  have inv: "ms_inv 0x80400 (ms, t)" unfolding t_def by (rule ms_inv_write(1) [OF m(1) out])
  have tr: "translate (from_token (ms_token ms)) (VirtPageNum 0x10000) t = Some (PTE_new f (p OR PTE_V))"
    unfolding ms_token_def from_token_translate [OF ms_invD(1) [OF inv]] t_def
    using ms_inv_write(2) [OF m(1) out] p(1) by simp
  have pa: "translate_va (from_token (ms_token ms)) (VirtAddr_from (0x10000000 + of_nat k)) t =
      Some (PhysAddr (page_base f + of_nat k))" if "k \<le> 2" for k
  proof -
    have "k \<in> {0, 1, 2}" using that by auto
    then show ?thesis
      using tr p(2) by (auto simp: translate_va_eq va_floor_def va_page_offset_def VirtAddr_from_take_bit
          PAGE_SIZE_def take_bit_eq_mod)
  qed
  have rd: "mem t (user_pa (from_token (ms_token ms)) t (0x10000000 + of_nat k)) = [104, 105, 0] ! k"
    if "k \<le> 2" for k
  proof -
    have "unat (of_nat k :: usize) = k" using that by (intro unat_of_nat_64) simp
    then show ?thesis using that by (simp add: user_pa_def pa [OF that]) (simp add: t_def store_bytes_def)
  qed
  have nz: "([104, 105, 0] :: u8 list) ! k \<noteq> 0" if "k < 2" for k
    using that by (cases k) auto
  have "translated_str (ms_token ms) 0x10000000 t =
    Some (Ok (map (\<lambda>k. mem t (user_pa (from_token (ms_token ms)) t (0x10000000 + of_nat k))) [0..<2]))"
    by (rule translated_str_correct) (use pa rd nz rd [of 2] in auto)
  moreover have "map (\<lambda>k. mem t (user_pa (from_token (ms_token ms)) t (0x10000000 + of_nat k))) [0..<2] = [104, 105]"
    using rd [of 0] rd [of 1] by (simp add: upt_rec)
  ultimately show ?thesis using inv by auto
qed

end
