(* ===== verification/ForkMemory.thy ===== *)
theory ForkMemory
  imports Isolation Boot SyscallMemory
begin

text \<open>
  The address space that \<^verbatim>\<open>fork\<close> makes (\<^verbatim>\<open>MemorySet::from_existed_userspace\<close>): the child sees on every page
  of every area what the parent sees there, on frames of its own.
\<close>

section \<open>Views\<close>

definition area_pages :: "MapArea \<Rightarrow> VirtPageNum set" where
  "area_pages a = {v. range_l (vpn_range a) \<le> v \<and> v < range_r (vpn_range a)}"

text \<open>What a process sees on a page: its flags and its bytes.\<close>

definition user_view :: "MemorySet \<Rightarrow> mm_state \<Rightarrow> VirtPageNum \<Rightarrow> (PTEFlags \<times> u8 list) option" where
  "user_view ms s v = map_option (\<lambda>e. (pte_flags e, get_bytes_array (mem s) (pte_ppn e))) (translate (page_table ms) v s)"

lemma get_bytes_array_cong:
  assumes "ppn_ok p" and "\<And>x. in_page p x \<Longrightarrow> m' x = m x"
  shows "get_bytes_array m' p = get_bytes_array m p"
  using assms in_page_offset [OF assms(1)] by (auto simp: get_bytes_array_def load_bytes_def)

lemma get_bytes_array_store:
  assumes "ppn_ok p" and "length bs = 4096"
  shows "get_bytes_array (store_bytes m (page_base p) bs) p = bs"
proof (rule nth_equalityI)
  show "length (get_bytes_array (store_bytes m (page_base p) bs) p) = length bs"
    using assms(2) by (simp add: get_bytes_array_def load_bytes_def)
  fix i assume "i < length (get_bytes_array (store_bytes m (page_base p) bs) p)"
  then have "i < 4096" by (simp add: get_bytes_array_def load_bytes_def)
  then show "get_bytes_array (store_bytes m (page_base p) bs) p ! i = bs ! i"
    using assms(2) by (simp add: get_bytes_array_def load_bytes_def store_bytes_def Let_def unat_of_nat_64)
qed

lemma length_get_bytes_array [simp]: "length (get_bytes_array m p) = 4096"
  by (simp add: get_bytes_array_def load_bytes_def)

section \<open>Pushing a fresh area\<close>

lemma push_fresh:
  assumes inv: "ms_inv l (ms, s)" and fresh: "data_frames a = []" "map_type a = Framed"
    and rng: "range_l (vpn_range a) \<le> range_r (vpn_range a)" and ok: "push a None (ms, s) = Ok (Inr u, ms', s')"
  obtains a' where "areas ms' = areas ms @ [a']" and "map_perm a' = map_perm a"
    and "vpn_range a' = vpn_range a" and "map_type a' = Framed"
    and "fst ` set (data_frames a') = area_pages a" and "snd ` set (data_frames a') \<inter> frames_used l s = {}"
    and "keeps l ms s ms' s'"
    and "\<And>v. \<forall>w \<in> area_pages a. \<not> same_page v w \<Longrightarrow> translate (page_table ms') v s' = translate (page_table ms) v s"
    and "\<And>p x. \<lbrakk>p \<in> frames_used l s; p \<notin> set (pt_frames (page_table ms)); in_page p x\<rbrakk> \<Longrightarrow> mem s' x = mem s x"
proof -
  from ok obtain a' pt' where am: "area_map (a, page_table ms, s) = Ok (Inr (), a', pt', s')"
    and ms': "ms' = ms\<lparr>page_table := pt', areas := areas ms @ [a']\<rparr>"
    by (cases rule: push_None_Ok) auto
  from area_map_fresh [OF inv fresh rng am] obtain V where
    mi: "mapping_inv l (set (area_frames (areas ms))) (a', pt', s')" and
    step: "mapping_step l V (a, page_table ms, s) (a', pt', s')" and
    V: "V = set (range_vpns (vpn_range a))" and
    aok: "\<And>b. b \<in> set (areas ms) \<Longrightarrow> area_ok pt' s' b" by auto
  have V': "V = area_pages a" unfolding V set_range_vpns [OF rng] area_pages_def by simp
  note sd = mapping_stepD [OF step]
  have inv': "ms_inv l (ms', s')" using mi aok ms_invD(4) [OF inv] by (auto simp: ms_inv_def ms' mapping_inv_def)
  have new: "snd ` set (data_frames a') \<inter> frames_used l s = {}" using sd(6) fresh(1) by auto
  then have "keeps l ms s ms' s'" using inv' sd(9,11,12) by (auto simp: keeps_def owned_frames_def ms')
  then show thesis
    using that [of a'] new sd fresh V' by (simp add: ms')
qed

lemma push_total:
  assumes inv: "ms_inv l (ms, s)" and fresh: "data_frames a = []" "map_type a = Framed"
    and rng: "range_l (vpn_range a) \<le> range_r (vpn_range a)" "unat (vpn0 (range_r (vpn_range a))) \<le> 2 ^ 27"
    and none: "\<And>v. v \<in> area_pages a \<Longrightarrow> translate (page_table ms) v s = None"
    and free: "3 * length (range_vpns (vpn_range a)) \<le> card (frames_free l s)"
  shows "\<exists>ms' s'. push a None (ms, s) = Ok (Inr (), ms', s') \<and>
    card (frames_free l s) \<le> card (frames_free l s') + 3 * length (range_vpns (vpn_range a))"
proof -
  have mi: "mapping_inv l (set (area_frames (areas ms))) (a, page_table ms, s)"
    using ms_invD [OF inv] fresh by (auto simp: mapping_inv_def area_ok_def)
  have "same_page v w \<longrightarrow> v = w" if "v < range_r (vpn_range a)" "w < range_r (vpn_range a)" for v w
    using that rng(2) same_page_small [of v w] by (simp add: page_order_defs word_nat)
  then have "\<exists>a' pt' s'. map_loop (range_vpns (vpn_range a)) (a, page_table ms, s) = Ok (Inr (), a', pt', s') \<and>
      card (frames_free l s) \<le> card (frames_free l s') + 3 * length (range_vpns (vpn_range a))"
    by (intro map_loop_total [OF mi range_vpns_distinct(1) [OF rng(1)]])
       (use none free fresh in \<open>auto simp: set_range_vpns [OF rng(1)] area_pages_def\<close>)
  then show ?thesis by (auto simp: push_def area_map_def)
qed

section \<open>Copying the pages of an area\<close>

text \<open>
  \<open>D\<close> gives the frame of the child for each page. A page that the parent has lost stops the copy with a
  panic.
\<close>

definition copied :: "MemorySet \<Rightarrow> (VirtPageNum \<Rightarrow> PhysPageNum) \<Rightarrow> VirtPageNum set \<Rightarrow> mm_state \<Rightarrow> phys_mem \<Rightarrow> bool" where
  "copied us D V s m =
     ((\<forall>x. (\<forall>v \<in> V. \<not> in_page (D v) x) \<longrightarrow> m x = mem s x) \<and>
      (\<forall>v \<in> V. \<forall>e. translate (page_table us) v s = Some e \<longrightarrow>
         get_bytes_array m (D v) = get_bytes_array (mem s) (pte_ppn e)))"

lemma copy_pages:
  assumes "ms_inv l (ms, s)" and "ms_inv l (us, s)" and "distinct vpns"
    and "\<And>v. v \<in> set vpns \<Longrightarrow> \<exists>e. translate (page_table ms) v s = Some e \<and> pte_ppn e = D v"
    and "inj_on D (set vpns)" and "\<And>v. v \<in> set vpns \<Longrightarrow> D v \<notin> set (pt_frames (page_table ms)) \<union> set (pt_frames (page_table us))"
    and "\<And>w e. \<lbrakk>w \<in> set vpns; translate (page_table us) w s = Some e\<rbrakk> \<Longrightarrow> pte_ppn e \<notin> D ` set vpns"
  shows "if \<forall>v \<in> set vpns. translate (page_table us) v s \<noteq> None
    then \<exists>m. fold_res (copy_page us ms) vpns s = Ok (s\<lparr>mem := m\<rparr>) \<and> copied us D (set vpns) s m
    else \<exists>e. fold_res (copy_page us ms) vpns s = Panic e"
  using assms
proof (induction vpns arbitrary: s)
  case Nil
  show ?case by (auto simp: copied_def intro!: exI [of _ "mem s"])
next
  case (Cons v vs)
  show ?case
  proof (cases "translate (page_table us) v s")
    case None
    then show ?thesis by (simp add: copy_page_def ms_translate_def)
  next
    case (Some es)
    obtain ed where ed: "translate (page_table ms) v s = Some ed" "pte_ppn ed = D v" using Cons.prems(4) by auto
    define m where "m = store_bytes (mem s) (page_base (D v)) (get_bytes_array (mem s) (pte_ppn es))"
    have one: "copy_page us ms v s = Ok (s\<lparr>mem := m\<rparr>)" by (simp add: copy_page_def ms_translate_def Some ed m_def)
    have dok: "ppn_ok (D v)" using ed(2) ppn_ok_pte_ppn by metis
    have same: "m x = mem s x" if "ppn_ok p" "in_page p x" "p \<noteq> D v" for p x
      unfolding m_def by (rule store_bytes_outside [OF dok that(1) that(3) [symmetric] _ that(2)]) simp
    have pt: "m x = mem s x" if "p \<in> set (pt_frames (page_table ms)) \<union> set (pt_frames (page_table us))" "in_page p x" for p x
    proof (rule same [OF _ that(2)])
      show "ppn_ok p" using that(1) frames_used_ok [OF ms_invD(2) [OF Cons.prems(1)]] ms_invD(7) [OF Cons.prems(1)]
          ms_invD(7) [OF Cons.prems(2)] by auto
      show "p \<noteq> D v" using that(1) Cons.prems(6) [of v] by auto
    qed
    have i1: "ms_inv l (ms, s\<lparr>mem := m\<rparr>)" and tm: "translate (page_table ms) w (s\<lparr>mem := m\<rparr>) = translate (page_table ms) w s" for w
      using ms_inv_write [OF Cons.prems(1), of m] pt by auto
    have i2: "ms_inv l (us, s\<lparr>mem := m\<rparr>)" and tu: "translate (page_table us) w (s\<lparr>mem := m\<rparr>) = translate (page_table us) w s" for w
      using ms_inv_write [OF Cons.prems(2), of m] pt by auto
    have IH: "if \<forall>w \<in> set vs. translate (page_table us) w s \<noteq> None
      then \<exists>m'. fold_res (copy_page us ms) vs (s\<lparr>mem := m\<rparr>) = Ok (s\<lparr>mem := m'\<rparr>) \<and> copied us D (set vs) (s\<lparr>mem := m\<rparr>) m'
      else \<exists>e. fold_res (copy_page us ms) vs (s\<lparr>mem := m\<rparr>) = Panic e"
    proof -
      have d: "distinct vs" "inj_on D (set vs)" using Cons.prems(3,5) by auto
      have t: "\<exists>e. translate (page_table ms) w (s\<lparr>mem := m\<rparr>) = Some e \<and> pte_ppn e = D w"
        "D w \<notin> set (pt_frames (page_table ms)) \<union> set (pt_frames (page_table us))" if "w \<in> set vs" for w
        using that Cons.prems(4) [of w] Cons.prems(6) [of w] by (simp_all add: tm)
      have e: "pte_ppn e \<notin> D ` set vs" if "u \<in> set vs" "translate (page_table us) u (s\<lparr>mem := m\<rparr>) = Some e" for u e
        using that Cons.prems(7) [of u e] by (simp add: tu)
      have "if \<forall>w \<in> set vs. translate (page_table us) w (s\<lparr>mem := m\<rparr>) \<noteq> None
        then \<exists>m'. fold_res (copy_page us ms) vs (s\<lparr>mem := m\<rparr>) = Ok (s\<lparr>mem := m\<rparr>\<lparr>mem := m'\<rparr>) \<and> copied us D (set vs) (s\<lparr>mem := m\<rparr>) m'
        else \<exists>e. fold_res (copy_page us ms) vs (s\<lparr>mem := m\<rparr>) = Panic e"
        by (rule Cons.IH [OF i1 i2 d(1) t(1) d(2) t(2)]; (assumption | rule e))
      then show ?thesis by (auto simp: tu split: if_split_asm)
    qed
    have src: "get_bytes_array m (pte_ppn e) = get_bytes_array (mem s) (pte_ppn e)"
      if "w \<in> set (v # vs)" "translate (page_table us) w s = Some e" for w e
      by (rule get_bytes_array_cong) (use same [of "pte_ppn e"] Cons.prems(7) [of w e] that in auto)
    have merge: "copied us D (set (v # vs)) s m'" if c: "copied us D (set vs) (s\<lparr>mem := m\<rparr>) m'" for m'
    proof -
      have out: "m' x = m x" if "\<forall>w \<in> set vs. \<not> in_page (D w) x" for x using c that by (simp add: copied_def)
      have "get_bytes_array m' (D v) = get_bytes_array m (D v)"
      proof (rule get_bytes_array_cong [OF dok])
        fix x assume x: "in_page (D v) x"
        have "\<not> in_page (D w) x" if wv: "w \<in> set vs" for w
        proof
          assume "in_page (D w) x"
          moreover obtain e where "pte_ppn e = D w" using Cons.prems(4) [of w] wv by auto
          then have "ppn_ok (D w)" using ppn_ok_pte_ppn by metis
          ultimately have "D w = D v" using x dok in_page_unique by blast
          then show False using Cons.prems(3,5) wv by (auto simp: inj_on_def)
        qed
        then show "m' x = m x" using out by blast
      qed
      also have "\<dots> = get_bytes_array (mem s) (pte_ppn es)" unfolding m_def by (rule get_bytes_array_store [OF dok]) simp
      finally have v: "get_bytes_array m' (D v) = get_bytes_array (mem s) (pte_ppn es)" .
      moreover have "get_bytes_array m' (D w) = get_bytes_array (mem s) (pte_ppn e)"
        if "w \<in> set vs" "translate (page_table us) w s = Some e" for w e
        using c that src [of w e] by (auto simp: copied_def tu)
      moreover have "m' x = mem s x" if "\<forall>w \<in> set (v # vs). \<not> in_page (D w) x" for x
        using that out [of x] by (simp add: m_def store_bytes_def in_page_def Let_def)
      ultimately show ?thesis using Some by (auto simp: copied_def)
    qed
    show ?thesis using IH merge one Some by (auto split: if_split_asm)
  qed
qed

section \<open>Copying an area\<close>

definition fresh_copy :: "MapArea \<Rightarrow> MapArea" where
  "fresh_copy a = a\<lparr>data_frames := []\<rparr>"

lemma from_another_eq:
  assumes "range_l (vpn_range a) \<le> range_r (vpn_range a)"
  shows "from_another a = Ok (fresh_copy a)"
  using assms by (cases a; cases "vpn_range a") (simp add: from_another_def fresh_copy_def VPNRange_new_def)

text \<open>What copying an area leaves: others keep what they own, and the child has the pages of the area.\<close>

definition area_copied :: "usize \<Rightarrow> MemorySet \<Rightarrow> MapArea \<Rightarrow> ms_state \<Rightarrow> ms_state \<Rightarrow> bool" where
  "area_copied l us a st st' = (case st of (ms, s) \<Rightarrow> case st' of (ms', s') \<Rightarrow>
     keeps l ms s ms' s' \<and>
     set (bindings (areas ms)) \<subseteq> set (bindings (areas ms')) \<and> area_pages a \<subseteq> fst ` set (bindings (areas ms')) \<and>
     (\<forall>v \<in> fst ` set (bindings (areas ms)). (\<forall>w \<in> area_pages a. \<not> same_page v w) \<longrightarrow> user_view ms' s' v = user_view ms s v) \<and>
     (\<forall>v. (\<forall>w \<in> area_pages a. \<not> same_page v w) \<longrightarrow> translate (page_table ms') v s' = translate (page_table ms) v s) \<and>
     (\<forall>v \<in> area_pages a. \<forall>e. translate (page_table us) v s = Some e \<longrightarrow>
        user_view ms' s' v = Some (map_perm a OR PTE_V, get_bytes_array (mem s) (pte_ppn e))))"

lemma copy_area_spec:
  assumes inv: "ms_inv l (ms, s)" and us: "ms_inv l (us, s)" and disj: "owned_frames us \<inter> owned_frames ms = {}"
    and a: "map_type a = Framed" "range_l (vpn_range a) \<le> range_r (vpn_range a)"
    and source: "\<forall>v \<in> area_pages a. \<forall>e. translate (page_table us) v s = Some e \<longrightarrow> pte_ppn e \<in> owned_frames us"
    and pu: "push (fresh_copy a) None (ms, s) = Ok (Inr (), ms1, s1)"
  shows "if \<forall>v \<in> area_pages a. translate (page_table us) v s \<noteq> None
    then \<exists>m. copy_area us a (ms, s) = Ok (ms1, s1\<lparr>mem := m\<rparr>) \<and> area_copied l us a (ms, s) (ms1, s1\<lparr>mem := m\<rparr>)
    else \<exists>e. copy_area us a (ms, s) = Panic e"
proof -
  have src: "pte_ppn e \<in> owned_frames us" if "v \<in> area_pages a" "translate (page_table us) v s = Some e" for v e
    using source that by blast
  have f: "data_frames (fresh_copy a) = []" "map_type (fresh_copy a) = Framed" "vpn_range (fresh_copy a) = vpn_range a"
    "map_perm (fresh_copy a) = map_perm a" using a by (simp_all add: fresh_copy_def)
  then have pages: "area_pages (fresh_copy a) = area_pages a" by (simp add: area_pages_def)
  obtain a' where ar: "areas ms1 = areas ms @ [a']" "map_perm a' = map_perm a" "fst ` set (data_frames a') = area_pages a"
    "snd ` set (data_frames a') \<inter> frames_used l s = {}"
    and k: "keeps l ms s ms1 s1"
    and tr: "\<And>v. \<forall>w \<in> area_pages a. \<not> same_page v w \<Longrightarrow> translate (page_table ms1) v s1 = translate (page_table ms) v s"
    and mm: "\<And>p x. \<lbrakk>p \<in> frames_used l s; p \<notin> set (pt_frames (page_table ms)); in_page p x\<rbrakk> \<Longrightarrow> mem s1 x = mem s x"
    by (rule push_fresh [OF inv f(1,2) _ pu]) (use a(2) f in \<open>auto simp: pages\<close>)
  have inv1: "ms_inv l (ms1, s1)" using k by (simp add: keeps_def)
  note us1 = keeps_other [OF k us disj]
  have aok: "area_ok (page_table ms1) s1 a'" using ms_invD(3) [OF inv1] ar(1) by simp
  define D where "D = (\<lambda>v. the (map_of (data_frames a') v))"
  have D: "(v, D v) \<in> set (data_frames a')" if "v \<in> area_pages a" for v
  proof -
    from that have "v \<in> fst ` set (data_frames a')" by (simp only: ar(3))
    then obtain g where g: "(v, g) \<in> set (data_frames a')" by auto
    then show ?thesis using map_of_eq_Some_iff [OF area_okD(2) [OF aok], of v g] by (simp add: D_def)
  qed
  have Dused: "D v \<in> frames_used l s1" "D v \<notin> frames_used l s" "D v \<notin> set (pt_frames (page_table ms1))" if "v \<in> area_pages a" for v
  proof -
    have af: "D v \<in> set (area_frames (areas ms1))" using in_area_frames [of a' "areas ms1", OF _ D [OF that]] ar(1) by simp
    show "D v \<in> frames_used l s1" "D v \<notin> set (pt_frames (page_table ms1))" using af ms_invD(5,6) [OF inv1] by auto
    have "D v \<in> snd ` set (data_frames a')" using D [OF that] by (rule rev_image_eqI) simp
    then show "D v \<notin> frames_used l s" using ar(4) by blast
  qed
  have Dtr: "translate (page_table ms1) v s1 = Some (PTE_new (D v) (map_perm a OR PTE_V))" if "v \<in> area_pages a" for v
    using area_okD(4) [OF aok D [OF that]] ar(2) by simp
  have Dok: "ppn_ok (D v)" if "v \<in> area_pages a" for v using frames_used_ok [OF ms_invD(2) [OF inv1] Dused(1) [OF that]] .
  have inj: "inj_on D (area_pages a)"
  proof (rule inj_onI)
    fix v w assume vw: "v \<in> area_pages a" "w \<in> area_pages a" "D v = D w"
    have "distinct (map snd (data_frames a'))" using ms_invD(4) [OF inv1] ar(1) by simp
    then show "v = w" using D [OF vw(1)] D [OF vw(2)] vw(3) by (metis eq_key_imp_eq_value fst_conv inj_on_def distinct_map snd_conv)
  qed
  have set: "set (range_vpns (vpn_range a)) = area_pages a" unfolding set_range_vpns [OF a(2)] area_pages_def by simp
  have owned: "set (pt_frames (page_table us)) \<subseteq> frames_used l s" by (rule ms_invD(7) [OF us])
  have main: "if \<forall>v \<in> area_pages a. translate (page_table us) v s1 \<noteq> None
    then \<exists>m. fold_res (copy_page us ms1) (range_vpns (vpn_range a)) s1 = Ok (s1\<lparr>mem := m\<rparr>) \<and> copied us D (area_pages a) s1 m
    else \<exists>e. fold_res (copy_page us ms1) (range_vpns (vpn_range a)) s1 = Panic e"
  proof (rule copy_pages [OF inv1 us1(1) range_vpns_distinct(1) [OF a(2)], unfolded set])
    show "\<exists>e. translate (page_table ms1) v s1 = Some e \<and> pte_ppn e = D v" if "v \<in> area_pages a" for v
      using Dtr [OF that] Dok [OF that] by simp
    show "inj_on D (area_pages a)" by (rule inj)
    show "D v \<notin> set (pt_frames (page_table ms1)) \<union> set (pt_frames (page_table us))" if "v \<in> area_pages a" for v
      using Dused [OF that] owned by blast
    show "pte_ppn e \<notin> D ` area_pages a" if "w \<in> area_pages a" "translate (page_table us) w s1 = Some e" for w e
      using src [of w e] that us1(3) Dused(2) ms_inv_owned [OF us] by auto
  qed
  have area: "copy_area us a (ms, s) =
      bind_res (fold_res (copy_page us ms1) (range_vpns (vpn_range a)) s1) (\<lambda>s. Ok (ms1, s))"
    by (simp add: copy_area_def from_another_eq [OF a(2)] pu)
  show ?thesis
  proof (cases "\<forall>v \<in> area_pages a. translate (page_table us) v s \<noteq> None")
    case False
    then show ?thesis using main by (auto simp: us1(3) area split: if_split_asm)
  next
    case True
    then obtain m where m: "fold_res (copy_page us ms1) (range_vpns (vpn_range a)) s1 = Ok (s1\<lparr>mem := m\<rparr>)"
      "copied us D (area_pages a) s1 m" using main by (auto simp: us1(3))
    have out: "m x = mem s1 x" if "p \<in> frames_used l s \<union> set (pt_frames (page_table ms1))" "in_page p x" for p x
    proof -
      have "\<not> in_page (D v) x" if v: "v \<in> area_pages a" for v
      proof
        assume "in_page (D v) x"
        moreover have "ppn_ok p" using \<open>p \<in> _\<close> frames_used_ok [OF ms_invD(2) [OF inv]] frames_used_ok [OF ms_invD(2) [OF inv1]]
            ms_invD(7) [OF inv1] by blast
        ultimately have "D v = p" using in_page_unique [OF Dok [OF v], of p x] \<open>in_page p x\<close> by blast
        then show False using Dused(2,3) [OF v] \<open>p \<in> _\<close> by blast
      qed
      then show ?thesis using m(2) by (simp add: copied_def)
    qed
    have w: "ms_inv l (ms1, s1\<lparr>mem := m\<rparr>)" "\<And>v. translate (page_table ms1) v (s1\<lparr>mem := m\<rparr>) = translate (page_table ms1) v s1"
      using ms_inv_write [OF inv1, of m] out by auto
    have "m x = mem s x" if "p \<in> frames_used l s - owned_frames ms" "in_page p x" for p x
      using out [of p x] k that by (auto simp: keeps_def)
    then have k2: "keeps l ms s ms1 (s1\<lparr>mem := m\<rparr>)" using k w(1) by (auto simp: keeps_def)
    have bytes: "get_bytes_array m p = get_bytes_array (mem s) p" if "p \<in> frames_used l s" "p \<notin> set (pt_frames (page_table ms))" for p
    proof (rule get_bytes_array_cong)
      show "ppn_ok p" using frames_used_ok [OF ms_invD(2) [OF inv] that(1)] .
      show "m x = mem s x" if "in_page p x" for x using out [of p x] mm [of p x] \<open>p \<in> _\<close> \<open>p \<notin> _\<close> that by simp
    qed
    have old: "user_view ms1 (s1\<lparr>mem := m\<rparr>) v = user_view ms s v"
      if "v \<in> fst ` set (bindings (areas ms))" "\<forall>w \<in> area_pages a. \<not> same_page v w" for v
    proof -
      from that(1) obtain g where g: "(v, g) \<in> set (bindings (areas ms))" by auto
      then obtain b where b: "b \<in> set (areas ms)" "(v, g) \<in> set (data_frames b)" by (auto simp: set_bindings)
      have "g \<in> set (area_frames (areas ms))" using in_area_frames [OF b] by simp
      then have gf: "g \<in> frames_used l s" "g \<notin> set (pt_frames (page_table ms))" using ms_invD(5,6) [OF inv] by auto
      have "ppn_ok g" using frames_used_ok [OF ms_invD(2) [OF inv] gf(1)] .
      then show ?thesis
        using area_okD(4) [OF ms_invD(3) [OF inv b(1)] b(2)] tr [OF that(2)] w(2) bytes [OF gf] by (simp add: user_view_def)
    qed
    have new: "user_view ms1 (s1\<lparr>mem := m\<rparr>) v = Some (map_perm a OR PTE_V, get_bytes_array (mem s) (pte_ppn e))"
      if v: "v \<in> area_pages a" "translate (page_table us) v s = Some e" for v e
    proof -
      have "pte_ppn e \<in> owned_frames us" using src [OF v] .
      then have pf: "pte_ppn e \<in> frames_used l s" "pte_ppn e \<notin> set (pt_frames (page_table ms))"
        using ms_inv_owned [OF us] disj by (auto simp: owned_frames_def)
      have "get_bytes_array m (D v) = get_bytes_array (mem s1) (pte_ppn e)"
        using m(2) v us1(3) by (auto simp: copied_def)
      also have "\<dots> = get_bytes_array (mem s) (pte_ppn e)"
        by (rule get_bytes_array_cong) (use pf mm in auto)
      finally show ?thesis using Dtr [OF v(1)] Dok [OF v(1)] w(2) by (simp add: user_view_def)
    qed
    have "area_copied l us a (ms, s) (ms1, s1\<lparr>mem := m\<rparr>)"
      unfolding area_copied_def prod.case
    proof (intro conjI allI ballI impI)
      show "keeps l ms s ms1 (s1\<lparr>mem := m\<rparr>)" by (rule k2)
      show "set (bindings (areas ms)) \<subseteq> set (bindings (areas ms1))" by (simp add: ar(1))
      show "area_pages a \<subseteq> fst ` set (bindings (areas ms1))" by (simp add: ar(1) ar(3) image_Un)
    qed (use old new tr w(2) in \<open>simp_all\<close>)
    then show ?thesis using True m(1) by (auto simp: area)
  qed
qed

section \<open>The whole address space\<close>

text \<open>The parent is as it was, and owns no frame of the child.\<close>

definition kept :: "usize \<Rightarrow> MemorySet \<Rightarrow> mm_state \<Rightarrow> ms_state \<Rightarrow> bool" where
  "kept l us s0 st = (case st of (ms, s) \<Rightarrow>
     ms_inv l (ms, s) \<and> ms_inv l (us, s) \<and> owned_frames us \<inter> owned_frames ms = {} \<and>
     (\<forall>v. translate (page_table us) v s = translate (page_table us) v s0) \<and>
     (\<forall>p \<in> owned_frames us. \<forall>x. in_page p x \<longrightarrow> mem s x = mem s0 x))"

lemma keptD:
  assumes "kept l us s0 (ms, s)"
  shows "ms_inv l (ms, s)" "ms_inv l (us, s)" "owned_frames us \<inter> owned_frames ms = {}"
    "translate (page_table us) v s = translate (page_table us) v s0"
    "\<lbrakk>p \<in> owned_frames us; in_page p x\<rbrakk> \<Longrightarrow> mem s x = mem s0 x"
  using assms by (auto simp: kept_def)

lemma kept_step:
  assumes "kept l us s0 (ms, s)" and k: "keeps l ms s ms' s'"
  shows "kept l us s0 (ms', s')"
proof -
  note d = keptD [OF assms(1)] and o = keeps_other [OF k keptD(2,3) [OF assms(1)]]
  show ?thesis using k o d(4,5) by (auto simp: kept_def keeps_def)
qed

lemma pt_map_keeps:
  assumes inv: "ms_inv l (ms, s)" and m: "pt_map vpn ppn flags (page_table ms, s) = Ok (pt', s')"
  shows "keeps l ms s (ms\<lparr>page_table := pt'\<rparr>) s'"
proof -
  note d = ms_invD [OF inv] and p = pt_map_spec [OF ms_invD(1) [OF inv] m]
  from p(2) obtain new where n: "pt_frames pt' = pt_frames (page_table ms) @ new" "set new \<inter> frames_used l s = {}"
    "frames_used l s' = frames_used l s \<union> set new"
    and out: "\<And>x. \<forall>q \<in> set (pt_frames pt'). \<not> in_page q x \<Longrightarrow> mem s' x = mem s x"
    by (auto simp: pt_ext_def)
  have ok: "ppn_ok q" if "q \<in> frames_used l s \<union> set (pt_frames pt')" for q
    using that p(1) frames_used_ok [of l s' q] n by (auto simp: pt_inv_def)
  have mm: "mem s' x = mem s x" if "q \<in> frames_used l s - set (pt_frames (page_table ms))" "in_page q x" for q x
  proof (rule out, rule ballI, rule notI)
    fix r assume r: "r \<in> set (pt_frames pt')" "in_page r x"
    have "r = q" using in_page_unique [OF ok ok r(2) that(2)] r(1) that(1) by blast
    then show False using r(1) that(1) n(1,2) by auto
  qed
  have "area_ok pt' s' a" if a: "a \<in> set (areas ms)" for a
  proof (rule area_ok_cong [OF d(3) [OF a]])
    fix v f assume "(v, f) \<in> set (data_frames a)"
    from area_okD(4) [OF d(3) [OF a] this] have "\<not> same_page v vpn" using p(3) translate_same_page [of v vpn] by auto
    then show "translate pt' v s' = translate (page_table ms) v s" using p(4) by simp
  qed
  then have "ms_inv l (ms\<lparr>page_table := pt'\<rparr>, s')" using p(1) d(4-6) n by (auto simp: ms_inv_def)
  then show ?thesis using n mm by (auto simp: keeps_def owned_frames_def)
qed

definition tramp_page :: VirtPageNum where
  "tramp_page = VirtPageNum 0x7FFFFFF"

lemma tramp_vpn: "VirtPageNum_from_va (VirtAddr_from TRAMPOLINE) = Ok tramp_page"
  by (simp add: VirtPageNum_from_va_def VirtAddr_from_take_bit take_bit_eq_mod va_page_offset_def va_floor_def tramp_page_def TRAMPOLINE_def PAGE_SIZE_def)

lemma map_trampoline_Ok:
  assumes "map_trampoline tramp (ms, s) = Ok (ms', s')" and inv: "ms_inv l (ms, s)"
  shows "keeps l ms s ms' s'" and "areas ms' = areas ms"
    and "translate (page_table ms') v s' = (if same_page v tramp_page then
      Some (PTE_new (pa_floor (PhysAddr_from tramp)) (PTE_R OR PTE_X OR PTE_V)) else translate (page_table ms) v s)"
proof -
  from assms(1) obtain pt' where m: "pt_map tramp_page (pa_floor (PhysAddr_from tramp)) (PTE_R OR PTE_X) (page_table ms, s) = Ok (pt', s')"
    and ms': "ms' = ms\<lparr>page_table := pt'\<rparr>"
    by (auto simp: map_trampoline_def tramp_vpn PhysPageNum_from_pa_def res_simps)
  show "keeps l ms s ms' s'" unfolding ms' by (rule pt_map_keeps [OF inv m])
  show "areas ms' = areas ms" by (simp add: ms')
  show "translate (page_table ms') v s' = (if same_page v tramp_page then
      Some (PTE_new (pa_floor (PhysAddr_from tramp)) (PTE_R OR PTE_X OR PTE_V)) else translate (page_table ms) v s)"
    using pt_map_spec(4) [OF ms_invD(1) [OF inv] m] by (simp add: ms' or.assoc)
qed


text \<open>The areas of a user address space: framed, below the page of the trampoline.\<close>

definition user_areas :: "MemorySet \<Rightarrow> bool" where
  "user_areas us = (\<forall>a \<in> set (areas us). map_type a = Framed \<and>
     range_l (vpn_range a) \<le> range_r (vpn_range a) \<and> unat (vpn0 (range_r (vpn_range a))) < 2 ^ 27)"

text \<open>No page of the area has been unmapped.\<close>

definition whole :: "MapArea \<Rightarrow> bool" where
  "whole a = (fst ` set (data_frames a) = area_pages a)"

definition fork_pages :: "MapArea list \<Rightarrow> nat" where
  "fork_pages as = sum_list (map (\<lambda>a. length (range_vpns (vpn_range a))) as)"

lemma fork_pages_simps [simp]:
  "fork_pages [] = 0" "fork_pages (a # as) = length (range_vpns (vpn_range a)) + fork_pages as"
  "fork_pages (as @ bs) = fork_pages as + fork_pages bs"
  by (simp_all add: fork_pages_def)

lemma area_pages_small:
  assumes "user_areas us" and "a \<in> set (areas us)" and "v \<in> area_pages a"
  shows "unat (vpn0 v) < 2 ^ 27 - 1"
proof -
  have "v < range_r (vpn_range a)" "unat (vpn0 (range_r (vpn_range a))) < 2 ^ 27"
    using assms by (auto simp: user_areas_def area_pages_def)
  then show ?thesis by (simp add: page_order_defs word_nat)
qed

lemma user_page_same:
  assumes "user_areas us" and "a \<in> set (areas us)" "v \<in> area_pages a" and "b \<in> set (areas us)" "w \<in> area_pages b"
  shows "same_page v w \<longleftrightarrow> v = w"
  using area_pages_small [OF assms(1-3)] area_pages_small [OF assms(1,4,5)] by (intro same_page_small) simp_all

lemma user_page_tramp:
  assumes "user_areas us" and "a \<in> set (areas us)" "v \<in> area_pages a"
  shows "\<not> same_page v tramp_page" "\<not> same_page tramp_page v"
proof -
  have "unat (vpn0 v) < 2 ^ 27 - 1" by (rule area_pages_small [OF assms])
  moreover have "unat (vpn0 tramp_page) = 2 ^ 27 - 1" by (simp add: tramp_page_def)
  ultimately show "\<not> same_page v tramp_page" "\<not> same_page tramp_page v" using same_page_small [of v tramp_page] same_page_small [of tramp_page v] by auto
qed

lemma binding_view:
  assumes inv: "ms_inv l (us, s)" and a: "a \<in> set (areas us)" "(v, g) \<in> set (data_frames a)"
  shows "translate (page_table us) v s = Some (PTE_new g (map_perm a OR PTE_V))" "g \<in> owned_frames us"
    and "pte_ppn (PTE_new g (map_perm a OR PTE_V)) = g"
    and "user_view us s v = Some (map_perm a OR PTE_V, get_bytes_array (mem s) g)"
proof -
  have g: "g \<in> set (area_frames (areas us))" using in_area_frames [OF a] by simp
  show t: "translate (page_table us) v s = Some (PTE_new g (map_perm a OR PTE_V))"
    by (rule area_okD(4) [OF ms_invD(3) [OF inv a(1)] a(2)])
  show "g \<in> owned_frames us" using g by (simp add: owned_frames_def)
  have "ppn_ok g" using frames_used_ok [OF ms_invD(2) [OF inv]] ms_invD(5) [OF inv] g by auto
  then show "pte_ppn (PTE_new g (map_perm a OR PTE_V)) = g"
    and "user_view us s v = Some (map_perm a OR PTE_V, get_bytes_array (mem s) g)"
    using t by (simp_all add: user_view_def)
qed


text \<open>
  The state of the loop of \<^verbatim>\<open>from_existed_userspace\<close> when the areas \<open>A\<close> are done.
\<close>

definition forking :: "usize \<Rightarrow> usize \<Rightarrow> MemorySet \<Rightarrow> mm_state \<Rightarrow> MapArea list \<Rightarrow> ms_state \<Rightarrow> bool" where
  "forking l tramp us s0 A st = (case st of (ms, s) \<Rightarrow> kept l us s0 (ms, s) \<and>
     (\<forall>a \<in> set A. \<forall>v \<in> area_pages a. v \<in> fst ` set (bindings (areas ms)) \<and> user_view ms s v = user_view us s0 v) \<and>
     (\<forall>v. translate (page_table ms) v s \<noteq> None \<longrightarrow>
        same_page v tramp_page \<or> (\<exists>a \<in> set A. \<exists>w \<in> area_pages a. same_page v w)) \<and>
     translate (page_table ms) tramp_page s = Some (PTE_new (pa_floor (PhysAddr_from tramp)) (PTE_R OR PTE_X OR PTE_V)))"

lemma forkingD:
  assumes "forking l tramp us s0 A (ms, s)"
  shows "kept l us s0 (ms, s)"
    "\<lbrakk>a \<in> set A; v \<in> area_pages a\<rbrakk> \<Longrightarrow> v \<in> fst ` set (bindings (areas ms))"
    "\<lbrakk>a \<in> set A; v \<in> area_pages a\<rbrakk> \<Longrightarrow> user_view ms s v = user_view us s0 v"
    "\<lbrakk>translate (page_table ms) v s = Some e; \<not> same_page v tramp_page; \<And>a w. \<lbrakk>a \<in> set A; w \<in> area_pages a\<rbrakk> \<Longrightarrow> \<not> same_page v w\<rbrakk> \<Longrightarrow> False"
    "translate (page_table ms) tramp_page s = Some (PTE_new (pa_floor (PhysAddr_from tramp)) (PTE_R OR PTE_X OR PTE_V))"
  using assms by (auto simp: forking_def)

lemma areas_apart:
  assumes inv: "ms_inv l (us, s)" and us: "user_areas us" and w: "\<forall>a \<in> set (areas us). whole a"
    and sp: "areas us = A @ a # B" and b: "b \<in> set A" "w \<in> area_pages b" and v: "v \<in> area_pages a"
  shows "\<not> same_page w v"
proof
  assume "same_page w v"
  then have "w = v" using user_page_same [OF us _ b(2) _ v] b(1) sp by auto
  moreover have "v \<in> fst ` set (data_frames a)" "w \<in> fst ` set (data_frames b)"
    using w b v sp by (auto simp: whole_def)
  moreover have "fst ` set (data_frames b) \<subseteq> fst ` set (bindings A)" using b(1) by (auto simp: set_bindings)
  moreover have "fst ` set (bindings A) \<inter> fst ` set (data_frames a) = {}" using bindings_distinct [OF inv] by (auto simp: sp)
  ultimately show False by blast
qed

lemma forking_step:
  assumes f: "forking l tramp us s0 A (ms, s)" and us: "user_areas us" and w: "\<forall>a \<in> set (areas us). whole a"
    and sp: "areas us = A @ a # B" and free: "3 * length (range_vpns (vpn_range a)) \<le> card (frames_free l s)"
  shows "\<exists>ms' s'. copy_area us a (ms, s) = Ok (ms', s') \<and> forking l tramp us s0 (A @ [a]) (ms', s') \<and> keeps l ms s ms' s' \<and>
    card (frames_free l s) \<le> card (frames_free l s') + 3 * length (range_vpns (vpn_range a))"
proof -
  note k = keptD [OF forkingD(1) [OF f]]
  have am: "a \<in> set (areas us)" using sp by simp
  then have ar: "map_type a = Framed" "range_l (vpn_range a) \<le> range_r (vpn_range a)"
    "unat (vpn0 (range_r (vpn_range a))) \<le> 2 ^ 27" and wa: "fst ` set (data_frames a) = area_pages a"
    using us w by (auto simp: user_areas_def whole_def)
  have fc: "data_frames (fresh_copy a) = []" "map_type (fresh_copy a) = Framed" "vpn_range (fresh_copy a) = vpn_range a"
    "area_pages (fresh_copy a) = area_pages a" using ar by (simp_all add: fresh_copy_def area_pages_def)
  have apart: "\<not> same_page x v" "\<not> same_page v x" if "b \<in> set A" "x \<in> area_pages b" "v \<in> area_pages a" for b x v
    using areas_apart [OF k(2) us w sp that] by (simp_all add: same_page_def)
  have none: "translate (page_table ms) v s = None" if "v \<in> area_pages a" for v
  proof (rule ccontr)
    assume "translate (page_table ms) v s \<noteq> None"
    then obtain e where e: "translate (page_table ms) v s = Some e" by blast
    show False by (rule forkingD(4) [OF f e user_page_tramp(1) [OF us am that]]) (rule apart(2) [OF _ _ that])
  qed
  obtain ms1 s1 where pu: "push (fresh_copy a) None (ms, s) = Ok (Inr (), ms1, s1)"
    "card (frames_free l s) \<le> card (frames_free l s1) + 3 * length (range_vpns (vpn_range a))"
    using push_total [OF k(1) fc(1,2)] ar none free by (auto simp: fc)
  have bound: "\<exists>g. (v, g) \<in> set (data_frames a)" if "v \<in> area_pages a" for v
    using that wa by (metis imageE prod.collapse)
  have src: "\<forall>v \<in> area_pages a. \<forall>e. translate (page_table us) v s = Some e \<longrightarrow> pte_ppn e \<in> owned_frames us"
  proof (intro ballI allI impI)
    fix v e assume v: "v \<in> area_pages a" "translate (page_table us) v s = Some e"
    then obtain g where "(v, g) \<in> set (data_frames a)" using bound by blast
    from binding_view [OF k(2) am this] v(2) show "pte_ppn e \<in> owned_frames us" by simp
  qed
  have full: "\<forall>v \<in> area_pages a. translate (page_table us) v s \<noteq> None"
    using bound binding_view(1) [OF k(2) am] by (metis option.distinct(1))
  obtain m where m: "copy_area us a (ms, s) = Ok (ms1, s1\<lparr>mem := m\<rparr>)" "area_copied l us a (ms, s) (ms1, s1\<lparr>mem := m\<rparr>)"
    using copy_area_spec [OF k(1,2,3) ar(1,2) src pu(1)] full by auto
  let ?s = "s1\<lparr>mem := m\<rparr>"
  from m(2) have c: "keeps l ms s ms1 ?s" "set (bindings (areas ms)) \<subseteq> set (bindings (areas ms1))"
    "area_pages a \<subseteq> fst ` set (bindings (areas ms1))"
    "\<And>v. \<lbrakk>v \<in> fst ` set (bindings (areas ms)); \<forall>w \<in> area_pages a. \<not> same_page v w\<rbrakk> \<Longrightarrow> user_view ms1 ?s v = user_view ms s v"
    "\<And>v. \<forall>w \<in> area_pages a. \<not> same_page v w \<Longrightarrow> translate (page_table ms1) v ?s = translate (page_table ms) v s"
    "\<And>v e. \<lbrakk>v \<in> area_pages a; translate (page_table us) v s = Some e\<rbrakk> \<Longrightarrow>
       user_view ms1 ?s v = Some (map_perm a OR PTE_V, get_bytes_array (mem s) (pte_ppn e))"
    by (auto simp: area_copied_def)
  have new: "user_view ms1 ?s v = user_view us s0 v" if v: "v \<in> area_pages a" for v
  proof -
    obtain g where g: "(v, g) \<in> set (data_frames a)" using bound [OF v] ..
    note b = binding_view [OF k(2) am g]
    have "user_view us s0 v = user_view us s v"
      using b(1,3) k(4) [of v] get_bytes_array_cong [of g "mem s" "mem s0"] k(5) [OF b(2)] ppn_ok_pte_ppn
      by (metis (no_types, lifting) option.map(2) user_view_def)
    then show ?thesis using c(6) [OF v b(1)] b(3,4) by simp
  qed
  have "forking l tramp us s0 (A @ [a]) (ms1, ?s)"
    unfolding forking_def prod.case
  proof (intro conjI ballI allI impI)
    show "kept l us s0 (ms1, ?s)" by (rule kept_step [OF forkingD(1) [OF f] c(1)])
    fix b v assume b: "b \<in> set (A @ [a])" "v \<in> area_pages b"
    show "v \<in> fst ` set (bindings (areas ms1))" using b c(2,3) forkingD(2) [OF f, of b v] by (cases "b = a") auto
    show "user_view ms1 ?s v = user_view us s0 v"
    proof (cases "b \<in> set A")
      case True
      then show ?thesis using c(4) forkingD(2,3) [OF f True b(2)] apart(1) [OF True b(2)] by auto
    next
      case False
      then show ?thesis using new b by simp
    qed
  next
    fix v assume t: "translate (page_table ms1) v ?s \<noteq> None"
    show "same_page v tramp_page \<or> (\<exists>b \<in> set (A @ [a]). \<exists>x \<in> area_pages b. same_page v x)"
    proof (rule ccontr)
      assume n: "\<not> ?thesis"
      then have "translate (page_table ms) v s \<noteq> None" using t c(5) [of v] by auto
      then obtain e where e: "translate (page_table ms) v s = Some e" by blast
      show False by (rule forkingD(4) [OF f e]) (use n in auto)
    qed
  next
    show "translate (page_table ms1) tramp_page ?s = Some (PTE_new (pa_floor (PhysAddr_from tramp)) (PTE_R OR PTE_X OR PTE_V))"
      using c(5) [of tramp_page] user_page_tramp(2) [OF us am] forkingD(5) [OF f] by auto
  qed
  then show ?thesis using m(1) pu(2) c(1) by auto
qed


section \<open>The address space of the child\<close>

lemma new_bare_start:
  assumes inv: "ms_inv l (us, s0)" and nb: "new_bare s0 = Ok (ms, s)"
  shows "kept l us s0 (ms, s)" "translate (page_table ms) v s = None"
proof -
  note n = new_bare_spec [OF ms_invD(2) [OF inv] nb]
  from nb obtain pt where pt: "PageTable_new s0 = Ok (pt, s)" by (auto simp: new_bare_def res_simps)
  then obtain f where al: "frame_alloc s0 = (Some f, s)"
    by (auto simp: PageTable_new_def res_simps split: prod.splits)
  note fi = ms_invD(2) [OF inv] and fr = frame_alloc_Some [OF ms_invD(2) [OF inv] al]
  have "mem s x = mem s0 x" if q: "q \<in> owned_frames us" "in_page q x" for q x
  proof -
    have "q \<in> frames_used l s0" using ms_inv_owned [OF inv] q(1) by blast
    then show ?thesis using q(2) fr(2,4,6) in_page_unique [of q f x] frames_used_ok [OF fi] by auto
  qed
  then show "kept l us s0 (ms, s)" using n(1) n(4,5) [OF inv] by (simp add: kept_def)
  show "translate (page_table ms) v s = None" by (rule n(2))
qed

lemma fork_start:
  assumes inv: "ms_inv l (us, s0)" and al: "pa_page_offset (PhysAddr_from tramp) = 0" and free: "3 \<le> card (frames_free l s0)"
  shows "\<exists>ms s ms' s'. new_bare s0 = Ok (ms, s) \<and> map_trampoline tramp (ms, s) = Ok (ms', s') \<and>
    forking l tramp us s0 [] (ms', s') \<and> (\<forall>ot. ms_inv l (ot, s0) \<longrightarrow> kept l ot s0 (ms', s')) \<and>
    card (frames_free l s0) \<le> card (frames_free l s') + 3"
proof -
  have "frames_free l s0 \<noteq> {}" using free by auto
  then obtain pt s where pt: "PageTable_new s0 = Ok (pt, s)" "card (frames_free l s) = card (frames_free l s0) - 1"
    by (rule PageTable_new_total [OF ms_invD(2) [OF inv]])
  define ms where "ms = \<lparr>page_table = pt, areas = []\<rparr>"
  have nb: "new_bare s0 = Ok (ms, s)" by (simp add: new_bare_def pt(1) ms_def)
  note st = new_bare_start [OF inv nb] and i = keptD(1) [OF new_bare_start(1) [OF inv nb]]
  obtain pt' s' where m: "pt_map tramp_page (pa_floor (PhysAddr_from tramp)) (PTE_R OR PTE_X) (pt, s) = Ok (pt', s')"
    "card (frames_free l s) \<le> card (frames_free l s') + 2"
    using pt_map_total [OF ms_invD(1) [OF i] st(2)] pt(2) free by (fastforce simp: ms_def)
  let ?ms = "ms\<lparr>page_table := pt'\<rparr>"
  have t: "map_trampoline tramp (ms, s) = Ok (?ms, s')"
    using m(1) al by (simp add: map_trampoline_def tramp_vpn PhysPageNum_from_pa_def ms_def)
  note tr = map_trampoline_Ok [OF t i]
  have "forking l tramp us s0 [] (?ms, s')"
    using kept_step [OF st(1) tr(1)] tr(3) st(2) same_page_refl [of tramp_page] by (simp add: forking_def)
  moreover have "kept l ot s0 (?ms, s')" if "ms_inv l (ot, s0)" for ot
    by (rule kept_step [OF new_bare_start(1) [OF that nb] tr(1)])
  ultimately show ?thesis using nb t m(2) pt(2) free by (intro exI conjI) auto
qed

lemma fork_total:
  assumes inv: "ms_inv l (us, s0)" and us: "user_areas us" and w: "\<forall>a \<in> set (areas us). whole a"
    and al: "pa_page_offset (PhysAddr_from tramp) = 0" and free: "3 + 3 * fork_pages (areas us) \<le> card (frames_free l s0)"
  shows "\<exists>ms s. from_existed_userspace tramp us s0 = Ok (ms, s) \<and> forking l tramp us s0 (areas us) (ms, s) \<and>
    (\<forall>ot. ms_inv l (ot, s0) \<longrightarrow> kept l ot s0 (ms, s)) \<and>
    card (frames_free l s0) \<le> card (frames_free l s) + 3 + 3 * fork_pages (areas us)"
proof -
  obtain ms s ms1 s1 where st: "new_bare s0 = Ok (ms, s)" "map_trampoline tramp (ms, s) = Ok (ms1, s1)"
    "forking l tramp us s0 [] (ms1, s1)" "\<forall>ot. ms_inv l (ot, s0) \<longrightarrow> kept l ot s0 (ms1, s1)"
    "card (frames_free l s0) \<le> card (frames_free l s1) + 3"
    using fork_start [OF inv al] free by auto
  define I where "I = (\<lambda>A (st :: ms_state). forking l tramp us s0 A st \<and> (\<forall>ot. ms_inv l (ot, s0) \<longrightarrow> kept l ot s0 st) \<and>
     card (frames_free l s0) \<le> card (frames_free l (snd st)) + 3 + 3 * fork_pages A)"
  have "\<exists>st. fold_res (copy_area us) (areas us) (ms1, s1) = Ok st \<and> I (areas us) st"
  proof (rule fold_res_total)
    show "I [] (ms1, s1)" using st by (simp add: I_def)
    fix A a B st assume sp: "areas us = A @ a # B" and i: "I A st"
    obtain m t where st': "st = (m, t)" by (cases st)
    have f: "forking l tramp us s0 A (m, t)" "\<And>ot. ms_inv l (ot, s0) \<Longrightarrow> kept l ot s0 (m, t)"
      "card (frames_free l s0) \<le> card (frames_free l t) + 3 + 3 * fork_pages A"
      using i by (simp_all add: I_def st')
    have fr: "3 * length (range_vpns (vpn_range a)) \<le> card (frames_free l t)" using f(3) free by (simp add: sp)
    obtain m' t' where n: "copy_area us a (m, t) = Ok (m', t')" "forking l tramp us s0 (A @ [a]) (m', t')" "keeps l m t m' t'"
      "card (frames_free l t) \<le> card (frames_free l t') + 3 * length (range_vpns (vpn_range a))"
      using forking_step [OF f(1) us w sp fr] by blast
    have "I (A @ [a]) (m', t')" using n(2,4) f(3) kept_step [OF f(2) n(3)] by (simp add: I_def)
    then show "\<exists>st'. copy_area us a st = Ok st' \<and> I (A @ [a]) st'" using n(1) by (auto simp: st')
  qed
  then show ?thesis using st(1,2) by (auto simp: from_existed_userspace_def I_def)
qed

text \<open>A page of an area that the parent has lost is not skipped.\<close>

lemma copy_area_holes:
  assumes k: "kept l us s0 (ms, s)" and us: "user_areas us" and a: "a \<in> set (areas us)"
    and src: "\<forall>v \<in> area_pages a. translate (page_table us) v s0 \<noteq> None \<longrightarrow> v \<in> fst ` set (bindings (areas us))"
    and run: "copy_area us a (ms, s) = Ok (ms', s')"
  shows "kept l us s0 (ms', s')" and "v \<in> area_pages a \<Longrightarrow> translate (page_table us) v s0 \<noteq> None"
proof -
  note d = keptD [OF k]
  have ar: "map_type a = Framed" "range_l (vpn_range a) \<le> range_r (vpn_range a)" using us a by (auto simp: user_areas_def)
  have "\<exists>ms1 s1. push (fresh_copy a) None (ms, s) = Ok (Inr (), ms1, s1)"
  proof (cases "push (fresh_copy a) None (ms, s)")
    case (Ok t)
    then show ?thesis using run by (cases t; cases "fst t") (auto simp: copy_area_def from_another_eq [OF ar(2)])
  qed (use run in \<open>simp add: copy_area_def from_another_eq [OF ar(2)]\<close>)
  then obtain ms1 s1 where p: "push (fresh_copy a) None (ms, s) = Ok (Inr (), ms1, s1)" by blast
  have sr: "pte_ppn e \<in> owned_frames us" if ve: "v \<in> area_pages a" "translate (page_table us) v s = Some e" for v e
  proof -
    have "v \<in> fst ` set (bindings (areas us))" using src ve d(4) by simp
    then obtain b g where "b \<in> set (areas us)" "(v, g) \<in> set (data_frames b)" by (auto simp: set_bindings)
    from binding_view [OF d(2) this] ve(2) show ?thesis by simp
  qed
  then have "\<forall>v \<in> area_pages a. \<forall>e. translate (page_table us) v s = Some e \<longrightarrow> pte_ppn e \<in> owned_frames us" by blast
  note c = copy_area_spec [OF d(1,2,3) ar this p]
  have full: "\<forall>v \<in> area_pages a. translate (page_table us) v s \<noteq> None"
    and ac: "area_copied l us a (ms, s) (ms', s')" using c run by (auto split: if_split_asm)
  show "v \<in> area_pages a \<Longrightarrow> translate (page_table us) v s0 \<noteq> None" using full d(4) by simp
  show "kept l us s0 (ms', s')" by (rule kept_step [OF k]) (use ac in \<open>simp add: area_copied_def\<close>)
qed

lemma fork_hole_panics:
  assumes inv: "ms_inv l (us, s0)" and us: "user_areas us"
    and src: "\<forall>a \<in> set (areas us). \<forall>v \<in> area_pages a. translate (page_table us) v s0 \<noteq> None \<longrightarrow> v \<in> fst ` set (bindings (areas us))"
    and hole: "a \<in> set (areas us)" "v \<in> area_pages a" "translate (page_table us) v s0 = None"
  shows "\<exists>e. from_existed_userspace tramp us s0 = Panic e"
proof (cases "from_existed_userspace tramp us s0")
  case (Ok st)
  then obtain ms s ms1 s1 where st: "new_bare s0 = Ok (ms, s)" "map_trampoline tramp (ms, s) = Ok (ms1, s1)"
    "fold_res (copy_area us) (areas us) (ms1, s1) = Ok st"
    by (auto simp: from_existed_userspace_def res_simps)
  note n = new_bare_start(1) [OF inv st(1)]
  have k: "kept l us s0 (ms1, s1)" by (rule kept_step [OF n map_trampoline_Ok(1) [OF st(2) keptD(1) [OF n]]])
  obtain A B where sp: "areas us = A @ a # B" using split_list [OF hole(1)] by blast
  with st(3) obtain st1 st2 where f: "fold_res (copy_area us) A (ms1, s1) = Ok st1" "copy_area us a st1 = Ok st2"
    by (auto simp: fold_res_append res_simps)
  have "kept l us s0 st1"
  proof (rule fold_res_invariant [where I = "kept l us s0", OF f(1) k])
    fix b t t' assume b: "b \<in> set A" "kept l us s0 t" "copy_area us b t = Ok t'"
    have "b \<in> set (areas us)" using b(1) sp by simp
    with b show "kept l us s0 t'"
      using copy_area_holes(1) [of l us s0 "fst t" "snd t" b "fst t'" "snd t'"] us src by simp
  qed
  then have "translate (page_table us) v s0 \<noteq> None"
    using copy_area_holes(2) [of l us s0 "fst st1" "snd st1" a "fst st2" "snd st2" v] us src hole f(2) by simp
  then show ?thesis using hole(3) by simp
next
  case (Panic e)
  then show ?thesis by blast
qed


section \<open>Unmapping a part of an area\<close>

text \<open>
  \<^verbatim>\<open>munmap\<close> takes pages out of the areas but never shortens their ranges.
\<close>

definition thinned :: "MapArea list \<Rightarrow> MapArea list \<Rightarrow> bool" where
  "thinned as bs = (\<forall>b \<in> set bs. \<exists>a \<in> set as. vpn_range b = vpn_range a \<and> map_type b = map_type a \<and>
     set (data_frames b) \<subseteq> set (data_frames a))"

lemma thinned_refl [simp]: "thinned as as"
  by (auto simp: thinned_def)

lemma thinned_update:
  assumes "thinned as bs" and "i < length bs" and "vpn_range b = vpn_range (bs ! i)" "map_type b = map_type (bs ! i)"
    and "set (data_frames b) \<subseteq> set (data_frames (bs ! i))"
  shows "thinned as (bs[i := b])"
proof -
  have "bs ! i \<in> set bs" using assms(2) by simp
  then obtain a where "a \<in> set as" "vpn_range b = vpn_range a \<and> map_type b = map_type a \<and> set (data_frames b) \<subseteq> set (data_frames a)"
    using assms(1,3-5) by (fastforce simp: thinned_def)
  then show ?thesis using assms(1) set_update_subset_insert [of bs i b] unfolding thinned_def by blast
qed

lemma thinned_remove: "thinned as bs \<Longrightarrow> thinned as (remove_nth i bs)"
  using set_take_subset [of i bs] set_drop_subset [of "Suc i" bs] by (fastforce simp: thinned_def remove_nth_def)

lemma position_less: "position P xs = Some i \<Longrightarrow> i < length xs"
  by (induction xs arbitrary: i) (auto split: if_splits)

lemma unmap_one_area:
  assumes "unmap_one vpn (a, pt, s) = Ok (a', pt', s')"
  shows "vpn_range a' = vpn_range a" "map_type a' = map_type a" "set (data_frames a') \<subseteq> set (data_frames a)"
  using assms by (auto simp: unmap_one_def res_simps fm_remove_def split: if_split_asm)

lemma remove_mapped_one_thinned:
  assumes "remove_mapped_one vpn st = Ok st'" and "thinned as (areas (fst st))"
  shows "thinned as (areas (fst st'))"
proof -
  obtain ms s where st: "st = (ms, s)" by (cases st)
  from assms(1) obtain i a pt s1 where i: "position (owns_vpn vpn) (areas ms) = Some i"
    and u: "unmap_one vpn (areas ms ! i, page_table ms, s) = Ok (a, pt, s1)"
    and st': "areas (fst st') \<in> {(areas ms)[i := a\<lparr>data_frames := fm_remove vpn (data_frames a)\<rparr>],
      remove_nth i ((areas ms)[i := a\<lparr>data_frames := fm_remove vpn (data_frames a)\<rparr>])}"
    by (auto simp: remove_mapped_one_def st res_simps Let_def unwrap_def split: if_split_asm option.splits)
  have "thinned as ((areas ms)[i := a\<lparr>data_frames := fm_remove vpn (data_frames a)\<rparr>])"
    using assms(2) unmap_one_area [OF u] by (intro thinned_update position_less [OF i]) (auto simp: st fm_remove_def)
  then show ?thesis using st' thinned_remove [of as _ i] by auto
qed

lemma sys_munmap_thinned:
  assumes "sys_munmap start len (ms, s) = Ok (r, ms', s')"
  shows "thinned (areas ms) (areas ms')"
proof (cases "ms' = ms")
  case False
  with assms obtain vpns where "fold_res remove_mapped_one vpns (ms, s) = Ok (ms', s')"
    by (auto simp: sys_munmap_def remove_mapped_frames_def Let_def res_simps split: if_split_asm)
  then have "thinned (areas ms) (areas (fst (ms', s')))"
    by (rule fold_res_invariant [where I = "\<lambda>st. thinned (areas ms) (areas (fst st))"])
       (auto intro: remove_mapped_one_thinned)
  then show ?thesis by simp
qed simp

end
