(* ===== verification/ForkProperties.thy ===== *)
theory ForkProperties
  imports ForkMemory MemoryProperties
begin

text \<open>
  What \<^verbatim>\<open>fork\<close> promises of the address space of the child, and when it breaks the promise.
\<close>

section \<open>A process to fork\<close>

text \<open>Two pages at \<open>0x10000000\<close>, mapped from the boot state.\<close>

lemma two_pages:
  "request_ok 0x10000000 8192" "pages_of 8192 = 2"
  "page_set (unat (0x10000000 :: usize) div 4096) (pages_of 8192) = {VirtPageNum 0x10000, VirtPageNum 0x10001}"
proof -
  have e: "unat (vpn0 v) = 0x10000 \<longleftrightarrow> v = VirtPageNum 0x10000" "unat (vpn0 v) = 0x10001 \<longleftrightarrow> v = VirtPageNum 0x10001" for v
    by (cases v; simp add: word_unat_eq_iff)+
  have p: "page_set n 2 = {v. unat (vpn0 v) = n \<or> unat (vpn0 v) = n + 1}" for n by (auto simp: page_set_def)
  show two: "pages_of 8192 = 2" by (simp add: pages_of_def)
  show "page_set (unat (0x10000000 :: usize) div 4096) (pages_of 8192) = {VirtPageNum 0x10000, VirtPageNum 0x10001}"
    unfolding two p by (auto simp: e)
qed (simp add: request_ok_def pages_of_def)

lemma boot_user:
  obtains a ms s where "ms_inv 0x80400 (ms, s)" and "areas ms = [a]" and "whole a" and "user_areas ms"
    and "area_pages a = {VirtPageNum 0x10000, VirtPageNum 0x10001}"
    and "3 + 3 * fork_pages (areas ms) \<le> card (frames_free 0x80400 s)"
proof -
  let ?lo = "va_floor (VirtAddr_from 0x10000000)" and ?hi = "va_ceil (VirtAddr_from (0x10000000 + page_round_up 8192))"
  note rr = request_range [OF two_pages(1)]
  obtain ms0 s0 where b: "ms_inv 0x80400 (ms0, s0)" "\<And>v. translate (page_table ms0) v s0 = None"
    "card (frames_free 0x80400 s0) = 1023" "areas ms0 = []"
    by (rule boot_memory_set) (rule that)
  define a where "a = \<lparr>vpn_range = \<lparr>range_l = ?lo, range_r = ?hi\<rparr>, data_frames = [], map_type = Framed, map_perm = PTE_U OR PTE_R\<rparr>"
  have lo: "range_l (vpn_range a) \<le> range_r (vpn_range a)" using rr(3) by (simp add: a_def)
  have pages: "area_pages a = {VirtPageNum 0x10000, VirtPageNum 0x10001}" using rr(5) two_pages(3) by (simp add: area_pages_def a_def)
  have len: "length (range_vpns (vpn_range a)) = 2"
    using distinct_card [OF range_vpns_distinct(1) [OF lo]] set_range_vpns [OF lo] pages by (simp add: area_pages_def)
  obtain ms s where p: "push a None (ms0, s0) = Ok (Inr (), ms, s)" "1023 \<le> card (frames_free 0x80400 s) + 6"
    using push_total [OF b(1), of a] b(2,3) rr(4) lo len by (auto simp: a_def)
  obtain a' where a': "areas ms = areas ms0 @ [a']" "vpn_range a' = vpn_range a" "map_type a' = Framed"
    "fst ` set (data_frames a') = area_pages a" "keeps 0x80400 ms0 s0 ms s"
    by (rule push_fresh [OF b(1) _ _ lo p(1)]) (auto simp: a_def)
  have eq: "area_pages a' = area_pages a" by (simp add: area_pages_def a'(2))
  show thesis
  proof (rule that [of ms s a'])
    show "ms_inv 0x80400 (ms, s)" using a'(5) by (simp add: keeps_def)
    show "areas ms = [a']" using a'(1) b(4) by simp
    show "whole a'" using a'(4) eq by (simp add: whole_def)
    show "user_areas ms" using a'(1-3) b(4) lo rr(2) two_pages(2) by (simp add: user_areas_def a_def)
    show "area_pages a' = {VirtPageNum 0x10000, VirtPageNum 0x10001}" using eq pages by simp
    show "3 + 3 * fork_pages (areas ms) \<le> card (frames_free 0x80400 s)" using a'(1,2) b(4) len p(2) by simp
  qed
qed

section \<open>The address space of the child\<close>

text \<open>
  C4: \<^verbatim>\<open>fork\<close> copies the address space. When the areas of the parent are framed, below the trampoline
  and have all their pages, and enough frames are free, \<^verbatim>\<open>from_existed_userspace\<close> returns: the child
  has on every page of every area of the parent the flags and the bytes that the parent has there, on
  frames that the parent does not own; it has the trampoline and no other page; both address spaces
  are well-formed, and no translation and no byte of the parent has changed.
\<close>

theorem fork_copies_memory:
  assumes "ms_inv l (us, s0)" and "user_areas us" and "\<forall>a \<in> set (areas us). whole a"
    and "pa_page_offset (PhysAddr_from tramp) = 0" and "3 + 3 * fork_pages (areas us) \<le> card (frames_free l s0)"
  shows "\<exists>ms s. from_existed_userspace tramp us s0 = Ok (ms, s) \<and> ms_inv l (ms, s) \<and> ms_inv l (us, s) \<and>
    owned_frames us \<inter> owned_frames ms = {} \<and>
    (\<forall>a \<in> set (areas us). \<forall>v \<in> area_pages a. user_view ms s v = user_view us s0 v \<and> user_view ms s v \<noteq> None) \<and>
    translate (page_table ms) tramp_page s = Some (PTE_new (pa_floor (PhysAddr_from tramp)) (PTE_R OR PTE_X OR PTE_V)) \<and>
    (\<forall>v. unat (vpn0 v) < 2 ^ 27 \<longrightarrow> v \<noteq> tramp_page \<longrightarrow> (\<forall>a \<in> set (areas us). v \<notin> area_pages a) \<longrightarrow>
       translate (page_table ms) v s = None) \<and>
    (\<forall>v. translate (page_table us) v s = translate (page_table us) v s0) \<and>
    (\<forall>p \<in> owned_frames us. \<forall>x. in_page p x \<longrightarrow> mem s x = mem s0 x)"
proof -
  obtain ms s where run: "from_existed_userspace tramp us s0 = Ok (ms, s)" and f: "forking l tramp us s0 (areas us) (ms, s)"
    using fork_total [OF assms] by blast
  note k = keptD [OF forkingD(1) [OF f]]
  have view: "user_view us s0 v \<noteq> None" if "a \<in> set (areas us)" "v \<in> area_pages a" for a v
  proof -
    have "v \<in> fst ` set (data_frames a)" using assms(3) that by (simp add: whole_def)
    then obtain g where "(v, g) \<in> set (data_frames a)" by auto
    from binding_view(4) [OF assms(1) that(1) this] show ?thesis by simp
  qed
  have none: "translate (page_table ms) v s = None"
    if v: "unat (vpn0 v) < 2 ^ 27" "v \<noteq> tramp_page" "\<forall>a \<in> set (areas us). v \<notin> area_pages a" for v
  proof (rule ccontr)
    assume "translate (page_table ms) v s \<noteq> None"
    then obtain e where e: "translate (page_table ms) v s = Some e" by blast
    show False
    proof (rule forkingD(4) [OF f e])
      show "\<not> same_page v tramp_page" using same_page_small [OF v(1), of tramp_page] v(2) by (simp add: tramp_page_def)
      show "\<not> same_page v w" if "a \<in> set (areas us)" "w \<in> area_pages a" for a w
        using same_page_small [OF v(1), of w] area_pages_small [OF assms(2) that] v(3) that by auto
    qed
  qed
  show ?thesis
    using run k f none view forkingD(3,5) [OF f] by (intro exI conjI) (auto simp del: split_paired_All)
qed

theorem fork_copies_memory_witness:
  "\<exists>us s0 ms s. from_existed_userspace 0x80200000 us s0 = Ok (ms, s) \<and>
     user_view ms s (VirtPageNum 0x10001) = user_view us s0 (VirtPageNum 0x10001) \<and>
     user_view ms s (VirtPageNum 0x10001) \<noteq> None"
proof -
  obtain a us s0 where b: "ms_inv 0x80400 (us, s0)" "areas us = [a]" "whole a" "user_areas us"
    "area_pages a = {VirtPageNum 0x10000, VirtPageNum 0x10001}" "3 + 3 * fork_pages (areas us) \<le> card (frames_free 0x80400 s0)"
    by (rule boot_user)
  have al: "pa_page_offset (PhysAddr_from 0x80200000) = 0"
    by (simp add: pa_page_offset_def PhysAddr_from_def PAGE_SIZE_def)
  have w: "\<forall>a \<in> set (areas us). whole a" using b(2,3) by simp
  from fork_copies_memory [OF b(1,4) w al b(6)] obtain ms s where
    "from_existed_userspace 0x80200000 us s0 = Ok (ms, s)"
    "\<forall>a \<in> set (areas us). \<forall>v \<in> area_pages a. user_view ms s v = user_view us s0 v \<and> user_view ms s v \<noteq> None" by blast
  with b(2,5) show ?thesis by (metis insertCI list.set_intros(1))
qed

lemma binding_area_unique:
  assumes inv: "ms_inv l (us, s)" and a: "a \<in> set (areas us)" and b: "b \<in> set (areas us)"
    and g: "(w, g) \<in> set (data_frames a)" "(w, h) \<in> set (data_frames b)"
  shows "a = b"
proof (rule ccontr)
  assume ne: "a \<noteq> b"
  obtain A B where sp: "areas us = A @ a # B" using split_list [OF a] by blast
  then have "b \<in> set A \<or> b \<in> set B" using b ne by auto
  then have "(w, h) \<in> set (bindings A) \<union> set (bindings B)" using g(2) by (auto simp: set_bindings)
  then have "w \<in> fst ` set (bindings A) \<union> fst ` set (bindings B)" by (metis Un_iff fst_conv imageI)
  moreover have "w \<in> fst ` set (data_frames a)" using g(1) by (metis fst_conv imageI)
  moreover have "fst ` set (data_frames a) \<inter> (fst ` set (bindings A) \<union> fst ` set (bindings B)) = {}"
    using bindings_distinct [OF inv] by (auto simp: sp)
  ultimately show False by blast
qed

text \<open>
  C38: a process that has unmapped a part of an area cannot fork. \<^verbatim>\<open>sys_munmap\<close> takes the pages out of
  the area but leaves the range of the area as it was, so \<^verbatim>\<open>from_existed_userspace\<close> looks up a page
  that is gone, and the kernel panics.
\<close>

theorem fork_after_partial_munmap_panics:
  assumes inv: "ms_inv l (us, s)" and us: "user_areas us" and w: "\<forall>a \<in> set (areas us). whole a"
    and req: "request_ok start len" and own: "page_set (unat start div 4096) (pages_of len) \<subseteq> fst ` set (bindings (areas us))"
    and un: "sys_munmap start len (us, s) = Ok (0, us', s')"
    and part: "a \<in> set (areas us)" "v \<in> area_pages a" "v \<in> page_set (unat start div 4096) (pages_of len)"
      "w \<in> area_pages a" "w \<notin> page_set (unat start div 4096) (pages_of len)"
  shows "\<exists>e. from_existed_userspace tramp us' s' = Panic e"
proof -
  let ?P = "page_set (unat start div 4096) (pages_of len)"
  from sys_munmap_owned [OF inv req own] un have m: "ms_inv l (us', s')" "page_table us' = page_table us"
    "bindings (areas us') = filter (\<lambda>b. fst b \<notin> ?P) (bindings (areas us))"
    "\<And>v. translate (page_table us) v s' = (if \<exists>w \<in> ?P. same_page v w then None else translate (page_table us) v s)"
    by auto
  have gone: "translate (page_table us') v s' = None" if "v \<in> ?P" for v using m(2,4) same_page_refl that by auto
  have th: "\<exists>a \<in> set (areas us). vpn_range b = vpn_range a \<and> map_type b = map_type a \<and> set (data_frames b) \<subseteq> set (data_frames a)"
    if "b \<in> set (areas us')" for b using sys_munmap_thinned [OF un] that by (simp add: thinned_def)
  have "w \<in> fst ` set (data_frames a)" using w part by (simp add: whole_def)
  then obtain g where g: "(w, g) \<in> set (data_frames a)" by auto
  then have "(w, g) \<in> set (bindings (areas us'))" using m(3) part(1,5) by (auto simp: set_bindings)
  then obtain b where b: "b \<in> set (areas us')" "(w, g) \<in> set (data_frames b)" by (auto simp: set_bindings)
  from th [OF b(1)] obtain c where c: "c \<in> set (areas us)" "vpn_range b = vpn_range c" "(w, g) \<in> set (data_frames c)"
    using b(2) by auto
  have "c = a" by (rule binding_area_unique [OF inv c(1) part(1) c(3) g])
  then have hole: "v \<in> area_pages b" using part(2) c(2) by (simp add: area_pages_def)
  have "user_areas us'" using th us by (fastforce simp: user_areas_def)
  moreover have "\<forall>b \<in> set (areas us'). \<forall>x \<in> area_pages b. translate (page_table us') x s' \<noteq> None \<longrightarrow> x \<in> fst ` set (bindings (areas us'))"
  proof (intro ballI impI)
    fix b x assume x: "b \<in> set (areas us')" "x \<in> area_pages b" "translate (page_table us') x s' \<noteq> None"
    from th [OF x(1)] obtain d where d: "d \<in> set (areas us)" "vpn_range b = vpn_range d" by blast
    then have "x \<in> fst ` set (data_frames d)" using w x(2) by (auto simp: whole_def area_pages_def)
    then obtain h where "(x, h) \<in> set (data_frames d)" by auto
    then have "(x, h) \<in> set (bindings (areas us'))" using gone x(3) d(1) m(3) by (auto simp: set_bindings)
    then show "x \<in> fst ` set (bindings (areas us'))" by (rule rev_image_eqI) simp
  qed
  ultimately show ?thesis using fork_hole_panics [OF m(1) _ _ b(1) hole gone [OF part(3)]] by blast
qed


theorem fork_after_partial_munmap_panics_witness:
  "\<exists>us s us' s' e. sys_munmap 0x10000000 4096 (us, s) = Ok (0, us', s') \<and>
     from_existed_userspace 0x80200000 us' s' = Panic e"
proof -
  obtain a us s where b: "ms_inv 0x80400 (us, s)" "areas us = [a]" "whole a" "user_areas us"
    "area_pages a = {VirtPageNum 0x10000, VirtPageNum 0x10001}"
    by (rule boot_user) (rule that)
  have w: "\<forall>a \<in> set (areas us). whole a" "a \<in> set (areas us)" using b(2,3) by simp_all
  have own: "page_set (unat (0x10000000 :: usize) div 4096) (pages_of 4096) \<subseteq> fst ` set (bindings (areas us))"
    unfolding one_page(2) using b(2,3,5) by (simp add: whole_def)
  obtain us' s' where un: "sys_munmap 0x10000000 4096 (us, s) = Ok (0, us', s')"
    using sys_munmap_owned [OF b(1) one_page(1) own] by blast
  have "\<exists>e. from_existed_userspace 0x80200000 us' s' = Panic e"
    by (rule fork_after_partial_munmap_panics [OF b(1,4) w(1) one_page(1) own un w(2), of "VirtPageNum 0x10000" "VirtPageNum 0x10001"])
       (simp_all only: b(5) one_page(2), simp_all)
  with un show ?thesis by blast
qed

end
