(* ===== verification/BinaryHeap.thy ===== *)
theory BinaryHeap
  imports Prelude "HOL-Library.Multiset"
begin

text \<open>
  \<^verbatim>\<open>alloc::collections::BinaryHeap\<close>, as far as the stride scheduler uses it: \<^verbatim>\<open>push\<close> and \<^verbatim>\<open>pop\<close> on the
  backing vector. The standard library moves elements through a hole; the exchange of two elements
  below has the same effect. It compares with \<open>\<le>\<close> only, which for a type is its \<^verbatim>\<open>PartialOrd\<close>
  (\<open>le x y\<close> when \<^verbatim>\<open>x.partial_cmp(&y)\<close> is \<^verbatim>\<open>Less\<close> or \<^verbatim>\<open>Equal\<close>), so the comparison is a parameter.
\<close>

section \<open>Operations\<close>

definition parent :: "nat \<Rightarrow> nat" where
  "parent i = (i - 1) div 2"

definition exchange :: "nat \<Rightarrow> nat \<Rightarrow> 'a list \<Rightarrow> 'a list" where
  "exchange i j xs = xs[i := xs ! j, j := xs ! i]"

lemma parent_less: "0 < i \<Longrightarrow> parent i < i"
  by (simp add: parent_def)

function sift_up :: "('a \<Rightarrow> 'a \<Rightarrow> bool) \<Rightarrow> nat \<Rightarrow> 'a list \<Rightarrow> 'a list" where
  "sift_up le pos xs =
     (if pos = 0 then xs
      else if le (xs ! pos) (xs ! parent pos) then xs
      else sift_up le (parent pos) (exchange pos (parent pos) xs))"
  by pat_completeness auto
termination
  by (relation "measure (\<lambda>(le, pos, xs). pos)") (auto simp: parent_less)

declare sift_up.simps [simp del]

lemma length_exchange [simp]: "length (exchange i j xs) = length xs"
  by (simp add: exchange_def)

text \<open>The loop of \<^verbatim>\<open>sift_down_to_bottom\<close>: the element goes down along the greater children.\<close>

function sink :: "('a \<Rightarrow> 'a \<Rightarrow> bool) \<Rightarrow> nat \<Rightarrow> 'a list \<Rightarrow> nat \<times> 'a list" where
  "sink le pos xs =
     (let child = 2 * pos + 1 in
      if child + 2 \<le> length xs then
        let child = child + (if le (xs ! child) (xs ! (child + 1)) then 1 else 0)
        in sink le child (exchange pos child xs)
      else if child + 1 = length xs then (child, exchange pos child xs)
      else (pos, xs))"
  by pat_completeness auto
termination
  by (relation "measure (\<lambda>(le, pos, xs). length xs - pos)") auto

declare sink.simps [simp del]

definition sift_down_to_bottom :: "('a \<Rightarrow> 'a \<Rightarrow> bool) \<Rightarrow> 'a list \<Rightarrow> 'a list" where
  "sift_down_to_bottom le xs = (case sink le 0 xs of (pos, ys) \<Rightarrow> sift_up le pos ys)"

definition heap_push :: "('a \<Rightarrow> 'a \<Rightarrow> bool) \<Rightarrow> 'a \<Rightarrow> 'a list \<Rightarrow> 'a list" where
  "heap_push le x xs = sift_up le (length xs) (xs @ [x])"

definition heap_pop :: "('a \<Rightarrow> 'a \<Rightarrow> bool) \<Rightarrow> 'a list \<Rightarrow> ('a \<times> 'a list) option" where
  "heap_pop le xs =
     (if xs = [] then None
      else let item = last xs; data = butlast xs
           in if data = [] then Some (item, [])
              else Some (data ! 0, sift_down_to_bottom le (data[0 := item])))"

section \<open>Exchanges keep the elements\<close>

lemma mset_exchange [simp]: "\<lbrakk>i < length xs; j < length xs\<rbrakk> \<Longrightarrow> mset (exchange i j xs) = mset xs"
  by (simp add: exchange_def mset_swap)

lemma exchange_nth:
  "\<lbrakk>i < length xs; j < length xs; k < length xs\<rbrakk> \<Longrightarrow>
     exchange i j xs ! k = (if k = j then xs ! i else if k = i then xs ! j else xs ! k)"
  by (simp add: exchange_def nth_list_update)

lemma parent_iff: "0 < i \<Longrightarrow> parent i = p \<longleftrightarrow> i = 2 * p + 1 \<or> i = 2 * p + 2"
  by (auto simp: parent_def)

lemma mset_sift_up: "pos < length xs \<Longrightarrow> mset (sift_up le pos xs) = mset xs"
proof (induction le pos xs rule: sift_up.induct)
  case (1 le pos xs)
  show ?case
  proof (cases "pos = 0 \<or> le (xs ! pos) (xs ! parent pos)")
    case True
    then show ?thesis by (auto simp: sift_up.simps [of le pos xs])
  next
    case False
    then have p: "parent pos < length xs" using 1(2) parent_less [of pos] by simp
    with False 1 show ?thesis by (simp add: sift_up.simps [of le pos xs])
  qed
qed

lemma length_sift_up [simp]: "pos < length xs \<Longrightarrow> length (sift_up le pos xs) = length xs"
  using mset_eq_length [OF mset_sift_up] .

lemma sink_spec:
  "pos < length xs \<Longrightarrow> mset (snd (sink le pos xs)) = mset xs \<and> fst (sink le pos xs) < length xs \<and>
     length xs \<le> 2 * fst (sink le pos xs) + 1"
proof (induction le pos xs rule: sink.induct)
  case (1 le pos xs)
  define c where "c = 2 * pos + 1"
  define d where "d = c + (if le (xs ! c) (xs ! (c + 1)) then 1 else 0)"
  consider "c + 2 \<le> length xs" | "c + 1 = length xs" | "length xs \<le> c" by linarith
  then show ?case
  proof cases
    case 1
    then have d: "d < length xs" by (simp add: d_def)
    have s: "sink le pos xs = sink le d (exchange pos d xs)"
      using 1 by (subst sink.simps) (simp add: Let_def c_def d_def)
    show ?thesis using "1.IH" [of c d] 1 d "1.prems" unfolding s by (simp add: c_def d_def)
  next
    case 2
    then have "sink le pos xs = (c, exchange pos c xs)"
      by (subst sink.simps) (simp add: Let_def c_def)
    with 2 "1.prems" show ?thesis by simp
  next
    case 3
    then have "sink le pos xs = (pos, xs)"
      by (subst sink.simps) (simp add: Let_def c_def)
    with 3 "1.prems" show ?thesis by (simp add: c_def)
  qed
qed

lemma mset_heap_push: "mset (heap_push le x xs) = add_mset x (mset xs)"
  by (simp add: heap_push_def mset_sift_up)

lemma mset_sift_down_to_bottom: "xs \<noteq> [] \<Longrightarrow> mset (sift_down_to_bottom le xs) = mset xs"
proof -
  assume "xs \<noteq> []"
  then have s: "mset (snd (sink le 0 xs)) = mset xs" "fst (sink le 0 xs) < length xs"
    using sink_spec [of 0 xs le] by auto
  from s(1) have "length (snd (sink le 0 xs)) = length xs" by (rule mset_eq_length)
  with s show ?thesis
    by (cases "sink le 0 xs") (simp add: sift_down_to_bottom_def mset_sift_up)
qed

lemma mset_heap_pop: "heap_pop le xs = Some (x, ys) \<Longrightarrow> mset xs = add_mset x (mset ys)"
proof -
  assume pop: "heap_pop le xs = Some (x, ys)"
  then have ne: "xs \<noteq> []" by (auto simp: heap_pop_def)
  then have sp: "mset xs = add_mset (last xs) (mset (butlast xs))"
    by (subst append_butlast_last_id [symmetric]) (simp_all del: append_butlast_last_id)
  show ?thesis
  proof (cases "butlast xs")
    case Nil
    with pop ne sp show ?thesis by (auto simp: heap_pop_def)
  next
    case (Cons y zs)
    then have "x = y" "ys = sift_down_to_bottom le (last xs # zs)"
      using pop ne by (auto simp: heap_pop_def Let_def)
    with sp Cons show ?thesis by (simp add: mset_sift_down_to_bottom add_mset_commute)
  qed
qed

lemma heap_pop_None: "heap_pop le xs = None \<longleftrightarrow> xs = []"
  by (auto simp: heap_pop_def Let_def)

section \<open>Heaps over a total preorder\<close>

text \<open>
  The comparison only has to be a total preorder on the elements that are in the heap: for the
  scheduler it is one on every set of strides within half the range of the counter, and on no
  greater set.
\<close>

locale heap_order =
  fixes le :: "'a \<Rightarrow> 'a \<Rightarrow> bool" and C :: "'a set"
  assumes le_refl: "x \<in> C \<Longrightarrow> le x x"
    and le_trans: "\<lbrakk>x \<in> C; y \<in> C; z \<in> C; le x y; le y z\<rbrakk> \<Longrightarrow> le x z"
    and le_total: "\<lbrakk>x \<in> C; y \<in> C\<rbrakk> \<Longrightarrow> le x y \<or> le y x"
begin

definition edge :: "'a list \<Rightarrow> nat \<Rightarrow> bool" where
  "edge xs i = le (xs ! i) (xs ! parent i)"

definition is_heap :: "'a list \<Rightarrow> bool" where
  "is_heap xs = (set xs \<subseteq> C \<and> (\<forall>i. 0 < i \<and> i < length xs \<longrightarrow> edge xs i))"

text \<open>A heap except that the element at \<open>pos\<close> may be greater than its parent.\<close>

definition heap_but_up :: "nat \<Rightarrow> 'a list \<Rightarrow> bool" where
  "heap_but_up pos xs =
     (set xs \<subseteq> C \<and> (\<forall>i. 0 < i \<and> i < length xs \<and> i \<noteq> pos \<longrightarrow> edge xs i) \<and>
      (\<forall>i. 0 < i \<and> i < length xs \<and> parent i = pos \<and> 0 < pos \<longrightarrow> le (xs ! i) (xs ! parent pos)))"

lemma sift_up_heap:
  assumes "pos < length xs" and "heap_but_up pos xs"
  shows "is_heap (sift_up le pos xs)"
  using assms
proof (induction pos arbitrary: xs rule: less_induct)
  case (less pos)
  note sub = less.prems(2) [unfolded heap_but_up_def, THEN conjunct1]
  have inC: "i < length xs \<Longrightarrow> xs ! i \<in> C" for i using sub by auto
  show ?case
  proof (cases "pos = 0 \<or> le (xs ! pos) (xs ! parent pos)")
    case True
    then have "edge xs i" if "0 < i" "i < length xs" for i
      using that less.prems(2) by (cases "i = pos") (auto simp: heap_but_up_def edge_def)
    then show ?thesis using True sub by (auto simp: sift_up.simps [of le pos] is_heap_def)
  next
    case False
    let ?p = "parent pos"
    let ?ys = "exchange pos ?p xs"
    have pos: "0 < pos" "?p < pos" "?p < length xs"
      using False less.prems(1) parent_less [of pos] by auto
    have n: "?ys ! k = (if k = ?p then xs ! pos else if k = pos then xs ! ?p else xs ! k)" if "k < length xs" for k
      using exchange_nth [OF less.prems(1) pos(3) that] .
    have up: "le (xs ! ?p) (xs ! pos)" using False le_total inC less.prems(1) pos(3) by blast
    have e: "edge xs i" if "0 < i" "i < length xs" "i \<noteq> pos" for i
      using less.prems(2) that by (auto simp: heap_but_up_def)
    have g: "le (xs ! i) (xs ! ?p)" if "0 < i" "i < length xs" "parent i = pos" for i
      using less.prems(2) that pos(1) by (auto simp: heap_but_up_def)
    have "edge ?ys i" if i: "0 < i" "i < length xs" "i \<noteq> ?p" for i
    proof -
      have pi: "parent i < length xs" using i parent_less [of i] by simp
      consider "i = pos" | "parent i = pos" | "i \<noteq> pos" "parent i = ?p" | "i \<noteq> pos" "parent i \<noteq> pos" "parent i \<noteq> ?p"
        by blast
      then show ?thesis
      proof cases
        case 1
        then show ?thesis using up i pos by (simp add: edge_def n)
      next
        case 2
        then show ?thesis using g [OF i(1,2)] i pos parent_less [of i] by (simp add: edge_def n less.prems(1))
      next
        case 3
        then have "le (xs ! i) (xs ! pos)"
          using e [OF i(1,2)] up le_trans inC i(2) pos(3) less.prems(1) by (metis edge_def)
        with 3 show ?thesis using i pos by (simp add: edge_def n)
      next
        case 4
        then show ?thesis using e [OF i(1,2)] i pi by (simp add: edge_def n)
      qed
    qed
    moreover have "le (?ys ! i) (?ys ! parent ?p)" if i: "0 < i" "i < length xs" "parent i = ?p" "0 < ?p" for i
    proof -
      have gp: "parent ?p < ?p" "parent ?p < length xs" "edge xs ?p"
        using i(4) pos parent_less [of ?p] e [of ?p] by auto
      show ?thesis
      proof (cases "i = pos")
        case True
        then show ?thesis using gp pos by (simp add: n edge_def less.prems(1))
      next
        case False
        have "le (xs ! i) (xs ! parent ?p)"
          using e [OF i(1,2) False] gp(3) i(3) le_trans inC i(2) pos(3) gp(2) by (metis edge_def)
        moreover have "i \<noteq> ?p" using i(1,3) parent_less [of i] by auto
        ultimately show ?thesis using i False gp pos by (simp add: n)
      qed
    qed
    moreover have "set ?ys \<subseteq> C"
      using sub mset_exchange [OF less.prems(1) pos(3)] by (metis set_mset_mset)
    ultimately have "heap_but_up ?p ?ys" by (simp add: heap_but_up_def)
    from less.IH [OF pos(2) _ this] pos(3) False show ?thesis by (simp add: sift_up.simps [of le pos])
  qed
qed

text \<open>A heap except around \<open>pos\<close>, whose element may be in the wrong order with its neighbours.\<close>

definition heap_but_at :: "nat \<Rightarrow> 'a list \<Rightarrow> bool" where
  "heap_but_at pos xs =
     (set xs \<subseteq> C \<and> (\<forall>i. 0 < i \<and> i < length xs \<and> i \<noteq> pos \<and> parent i \<noteq> pos \<longrightarrow> edge xs i) \<and>
      (\<forall>i. 0 < i \<and> i < length xs \<and> parent i = pos \<and> 0 < pos \<longrightarrow> le (xs ! i) (xs ! parent pos)))"

lemma sink_step:
  assumes h: "heap_but_at pos xs" and pos: "pos < length xs" and d: "d < length xs" "parent d = pos" "0 < d"
    and max: "\<And>i. \<lbrakk>0 < i; i < length xs; parent i = pos\<rbrakk> \<Longrightarrow> le (xs ! i) (xs ! d)"
  shows "heap_but_at d (exchange pos d xs)"
proof -
  let ?ys = "exchange pos d xs"
  have dp: "pos < d" using d parent_less [of d] by simp
  have n: "?ys ! k = (if k = d then xs ! pos else if k = pos then xs ! d else xs ! k)" if "k < length xs" for k
    using exchange_nth [OF pos d(1) that] .
  have e: "edge xs i" if "0 < i" "i < length xs" "i \<noteq> pos" "parent i \<noteq> pos" for i
    using h that by (auto simp: heap_but_at_def)
  have g: "le (xs ! i) (xs ! parent pos)" if "0 < i" "i < length xs" "parent i = pos" "0 < pos" for i
    using h that by (auto simp: heap_but_at_def)
  have "edge ?ys i" if i: "0 < i" "i < length xs" "i \<noteq> d" "parent i \<noteq> d" for i
  proof -
    have pi: "parent i < length xs" "parent i < i" using i parent_less [of i] by simp_all
    consider "i = pos" | "i \<noteq> pos" "parent i = pos" | "i \<noteq> pos" "parent i \<noteq> pos" by blast
    then show ?thesis
    proof cases
      case 1
      then show ?thesis using g [OF d(3,1,2)] i pi dp by (simp add: edge_def n)
    next
      case 2
      then show ?thesis using max [OF i(1,2)] i pi dp by (simp add: edge_def n pos)
    next
      case 3
      then show ?thesis using e [OF i(1,2)] i pi by (simp add: edge_def n)
    qed
  qed
  moreover have "le (?ys ! i) (?ys ! parent d)" if i: "0 < i" "i < length xs" "parent i = d" for i
  proof -
    have "d < i" using i parent_less [of i] by simp
    then show ?thesis using e [OF i(1,2)] i d dp pos by (simp add: edge_def n)
  qed
  moreover have "set ?ys \<subseteq> C"
    using h mset_exchange [OF pos d(1)] by (metis heap_but_at_def set_mset_mset)
  ultimately show ?thesis by (simp add: heap_but_at_def)
qed

lemma sink_heap:
  assumes "heap_but_at pos xs" and "pos < length xs"
  shows "heap_but_at (fst (sink le pos xs)) (snd (sink le pos xs))"
  using assms
proof (induction "length xs - pos" arbitrary: pos xs rule: less_induct)
  case less
  define c where "c = 2 * pos + 1"
  define d where "d = c + (if le (xs ! c) (xs ! (c + 1)) then 1 else 0)"
  have inC: "i < length xs \<Longrightarrow> xs ! i \<in> C" for i using less.prems(1) by (auto simp: heap_but_at_def)
  have pc: "0 < i \<Longrightarrow> parent i = pos \<longleftrightarrow> i = c \<or> i = c + 1" for i by (auto simp: parent_iff c_def)
  consider "c + 2 \<le> length xs" | "c + 1 = length xs" | "length xs \<le> c" by linarith
  then show ?case
  proof cases
    case 1
    then have d: "d < length xs" "parent d = pos" "0 < d" using pc [of d] by (auto simp: d_def c_def)
    have "le (xs ! i) (xs ! d)" if "0 < i" "i < length xs" "parent i = pos" for i
      using that pc [of i] 1 le_refl le_total [OF inC inC, of c "c + 1"] inC by (auto simp: d_def)
    from sink_step [OF less.prems d this] have "heap_but_at d (exchange pos d xs)" .
    moreover have "sink le pos xs = sink le d (exchange pos d xs)"
      using 1 by (subst sink.simps) (simp add: Let_def c_def d_def)
    moreover have "length (exchange pos d xs) - d < length xs - pos"
      using d less.prems(2) parent_less [of d] by simp
    ultimately show ?thesis using less.hyps d(1) by simp
  next
    case 2
    then have d: "c < length xs" "parent c = pos" "0 < c" using pc [of c] by (auto simp: c_def)
    have "le (xs ! i) (xs ! c)" if "0 < i" "i < length xs" "parent i = pos" for i
      using that pc [of i] 2 le_refl inC by auto
    from sink_step [OF less.prems d this] have "heap_but_at c (exchange pos c xs)" .
    moreover have "sink le pos xs = (c, exchange pos c xs)"
      using 2 by (subst sink.simps) (simp add: Let_def c_def)
    ultimately show ?thesis by simp
  next
    case 3
    then have "sink le pos xs = (pos, xs)"
      by (subst sink.simps) (simp add: Let_def c_def)
    with less.prems(1) show ?thesis by simp
  qed
qed

lemma sift_down_heap:
  assumes "set xs \<subseteq> C" and "xs \<noteq> []"
    and "\<And>i. \<lbrakk>0 < i; i < length xs; parent i \<noteq> 0\<rbrakk> \<Longrightarrow> edge xs i"
  shows "is_heap (sift_down_to_bottom le xs)"
proof -
  obtain pos ys where s: "sink le 0 xs = (pos, ys)" by fastforce
  have "heap_but_at 0 xs" using assms by (auto simp: heap_but_at_def)
  from sink_heap [OF this] assms(2) s have h: "heap_but_at pos ys" by simp
  have m: "mset ys = mset xs" "pos < length xs" "length xs \<le> 2 * pos + 1"
    using sink_spec [of 0 xs le] assms(2) s by auto
  have len: "length ys = length xs" using mset_eq_length [OF m(1)] .
  have leaf: "parent i \<noteq> pos" if "0 < i" "i < length ys" for i
    using that m(3) len by (auto simp: parent_iff)
  from h leaf have "heap_but_up pos ys" by (auto simp: heap_but_at_def heap_but_up_def)
  with sift_up_heap m(2) len s show ?thesis by (simp add: sift_down_to_bottom_def)
qed

lemma heap_push_heap:
  assumes "is_heap xs" and "x \<in> C"
  shows "is_heap (heap_push le x xs)"
proof -
  have "edge (xs @ [x]) i" if "0 < i" "i < length xs" for i
    using assms(1) that parent_less [of i] by (simp add: is_heap_def edge_def nth_append)
  moreover have "parent i \<noteq> length xs" if "0 < i" "i < Suc (length xs)" for i
    using that parent_less [of i] by auto
  ultimately have "heap_but_up (length xs) (xs @ [x])"
    using assms by (auto simp: heap_but_up_def is_heap_def)
  then show ?thesis unfolding heap_push_def by (intro sift_up_heap) simp_all
qed

lemma heap_pop_heap:
  assumes "is_heap xs" and "heap_pop le xs = Some (x, ys)"
  shows "is_heap ys"
proof -
  from assms(2) have ne: "xs \<noteq> []" by (auto simp: heap_pop_def)
  define zs where "zs = (butlast xs)[0 := last xs]"
  show ?thesis
  proof (cases "butlast xs = []")
    case True
    with assms(2) ne show ?thesis by (auto simp: heap_pop_def is_heap_def)
  next
    case False
    then have ys: "ys = sift_down_to_bottom le zs" using assms(2) ne by (auto simp: heap_pop_def Let_def zs_def)
    have len: "length zs = length xs - 1" by (simp add: zs_def)
    have nth: "zs ! i = xs ! i" if "0 < i" "i < length zs" for i
      using that by (simp add: zs_def nth_butlast)
    have "set zs \<subseteq> insert (last xs) (set (butlast xs))" unfolding zs_def by (rule set_update_subset_insert)
    also have "\<dots> \<subseteq> set xs" using ne by (auto dest: in_set_butlastD)
    finally have "set zs \<subseteq> C" using assms(1) by (auto simp: is_heap_def)
    moreover have "edge zs i" if i: "0 < i" "i < length zs" "parent i \<noteq> 0" for i
      using assms(1) i len parent_less [of i] nth [of i] nth [of "parent i"] by (simp add: is_heap_def edge_def)
    ultimately show ?thesis unfolding ys using False by (intro sift_down_heap) (auto simp: zs_def)
  qed
qed

lemma heap_top:
  assumes "is_heap xs" and "i < length xs"
  shows "le (xs ! i) (xs ! 0)"
  using assms(2)
proof (induction i rule: less_induct)
  case (less i)
  have inC: "k < length xs \<Longrightarrow> xs ! k \<in> C" for k using assms(1) by (auto simp: is_heap_def)
  show ?case
  proof (cases "i = 0")
    case True
    with less.prems show ?thesis using le_refl inC by simp
  next
    case False
    then have p: "parent i < i" by (simp add: parent_less)
    then have "le (xs ! parent i) (xs ! 0)" using less by simp
    moreover have "le (xs ! i) (xs ! parent i)"
      using assms(1) False less.prems by (auto simp: is_heap_def edge_def)
    moreover have "xs ! i \<in> C" "xs ! parent i \<in> C" "xs ! 0 \<in> C"
      using p less.prems by (auto intro!: inC)
    ultimately show ?thesis using le_trans by blast
  qed
qed

text \<open>\<^verbatim>\<open>pop\<close> returns a greatest element.\<close>

lemma heap_pop_greatest:
  assumes "is_heap xs" and "heap_pop le xs = Some (x, ys)" and "y \<in> set xs"
  shows "le y x"
proof -
  have ne: "xs \<noteq> []" using assms(3) by auto
  have "x = xs ! 0"
  proof (cases "butlast xs = []")
    case True
    then have "length xs = 1" using ne by (cases xs) (auto split: if_splits)
    with assms(2) True ne show ?thesis by (auto simp: heap_pop_def Let_def last_conv_nth)
  next
    case False
    then have "0 < length (butlast xs)" by blast
    with False assms(2) ne nth_butlast [of 0 xs] show ?thesis by (auto simp: heap_pop_def Let_def)
  qed
  moreover from assms(3) obtain i where "i < length xs" "y = xs ! i" by (auto simp: in_set_conv_nth)
  ultimately show ?thesis using heap_top [OF assms(1)] by simp
qed

end

end
