(* ===== verification/Scheduler.thy ===== *)
theory Scheduler
  imports BinaryHeap
begin

text \<open>
  \<^verbatim>\<open>os/src/task/scheduler.rs\<close> and \<^verbatim>\<open>os/src/task/manager.rs\<close>: strides with a comparison that survives the
  wrap-around of the counter, the stride scheduler on a binary heap, and the task manager.
\<close>

section \<open>Strides\<close>

definition BIG_STRIDE :: usize where "BIG_STRIDE = - 1"

record Stride =
  stride_id :: usize
  stride_pass :: usize

datatype Ordering = Less | Equal | Greater

definition usize_cmp :: "usize \<Rightarrow> usize \<Rightarrow> Ordering" where
  "usize_cmp a b = (if a < b then Less else if a = b then Equal else Greater)"

fun ordering_reverse :: "Ordering \<Rightarrow> Ordering" where
  "ordering_reverse Less = Greater"
| "ordering_reverse Equal = Equal"
| "ordering_reverse Greater = Less"

definition Stride_new :: "usize \<Rightarrow> usize \<Rightarrow> Stride" where
  "Stride_new i p = \<lparr>stride_id = i, stride_pass = p\<rparr>"

definition Stride_zeros :: Stride where
  "Stride_zeros = \<lparr>stride_id = 0, stride_pass = 0\<rparr>"

definition abs_diff :: "Stride \<Rightarrow> Stride \<Rightarrow> usize" where
  "abs_diff a b =
     (if stride_pass a < stride_pass b then stride_pass b - stride_pass a
      else stride_pass a - stride_pass b)"

definition stride_cmp :: "Stride \<Rightarrow> Stride \<Rightarrow> Ordering" where
  "stride_cmp a b = ordering_reverse (usize_cmp (stride_pass a) (stride_pass b))"

definition stride_partial_cmp :: "Stride \<Rightarrow> Stride \<Rightarrow> Ordering option" where
  "stride_partial_cmp a b =
     (if abs_diff a b \<le> drop_bit 1 BIG_STRIDE then Some (stride_cmp a b)
      else Some (ordering_reverse (stride_cmp a b)))"

text \<open>\<^verbatim>\<open>PartialOrd::le\<close>, the comparison that \<^verbatim>\<open>BinaryHeap\<close> uses.\<close>

definition stride_le :: "Stride \<Rightarrow> Stride \<Rightarrow> bool" where
  "stride_le a b = (stride_partial_cmp a b \<in> {Some Less, Some Equal})"

section \<open>The stride scheduler\<close>

record StrideScheduler =
  queue :: "Stride list"

definition StrideScheduler_new :: StrideScheduler where
  "StrideScheduler_new = \<lparr>queue = []\<rparr>"

definition create_task :: "usize \<Rightarrow> StrideScheduler \<Rightarrow> StrideScheduler" where
  "create_task i s = s\<lparr>queue := heap_push stride_le (Stride_new i 0) (queue s)\<rparr>"

definition insert_task :: "usize \<Rightarrow> usize \<Rightarrow> StrideScheduler \<Rightarrow> StrideScheduler" where
  "insert_task i p s = s\<lparr>queue := heap_push stride_le (Stride_new i p) (queue s)\<rparr>"

definition find_next_task :: "StrideScheduler \<Rightarrow> usize option \<times> StrideScheduler" where
  "find_next_task s =
     (case heap_pop stride_le (queue s) of
        Some (node, q) \<Rightarrow> (Some (stride_id node), s\<lparr>queue := q\<rparr>)
      | None \<Rightarrow> (None, s))"

section \<open>The task manager\<close>

text \<open>
  What the manager reads and writes of a task control block. The block itself extends this record;
  \<^verbatim>\<open>Arc<TaskControlBlock>\<close> is the pid of the task, which is unique among the live tasks.
\<close>

record sched_info =
  priority :: usize
  pass :: usize

record TaskManager =
  ready_queue :: "usize \<rightharpoonup> usize"
  scheduler :: StrideScheduler

definition TaskManager_new :: TaskManager where
  "TaskManager_new = \<lparr>ready_queue = Map.empty, scheduler = StrideScheduler_new\<rparr>"

text \<open>\<^verbatim>\<open>TaskManager::add\<close>: the task with its new pass, and the manager. A division by zero panics.\<close>

definition tm_add ::
    "usize \<Rightarrow> 'a sched_info_scheme \<Rightarrow> TaskManager \<Rightarrow> ('a sched_info_scheme \<times> TaskManager) res" where
  "tm_add pid task tm =
     (if priority task = 0 then Panic ExplicitPanic
      else let task = task\<lparr>pass := pass task + BIG_STRIDE div priority task\<rparr> in
        Ok (task, tm\<lparr>scheduler := insert_task pid (pass task) (scheduler tm),
                     ready_queue := (ready_queue tm)(pid \<mapsto> pid)\<rparr>))"

text \<open>\<^verbatim>\<open>TaskManager::fetch\<close>: the loop skips strides whose pid is not in the ready queue.\<close>

lemma heap_pop_shorter: "heap_pop le xs = Some (x, ys) \<Longrightarrow> length ys < length xs"
  using mset_eq_length [of xs "x # ys"] mset_heap_pop [of le xs x ys] by simp

lemma find_next_task_shorter:
  "find_next_task s = (Some pid, s') \<Longrightarrow> length (queue s') < length (queue s)"
  by (auto simp: find_next_task_def split: option.splits dest!: heap_pop_shorter)

function fetch_loop :: "(usize \<rightharpoonup> usize) \<Rightarrow> StrideScheduler \<Rightarrow> usize option \<times> StrideScheduler" where
  "fetch_loop ready s =
     (case find_next_task s of
        (None, s) \<Rightarrow> (None, s)
      | (Some pid, s) \<Rightarrow> if pid \<in> dom ready then (Some pid, s) else fetch_loop ready s)"
  by pat_completeness auto
termination
  by (relation "measure (\<lambda>(ready, s). length (queue s))") (auto dest: find_next_task_shorter [OF sym])

declare fetch_loop.simps [simp del]

definition tm_fetch :: "TaskManager \<Rightarrow> usize option \<times> TaskManager" where
  "tm_fetch tm =
     (case fetch_loop (ready_queue tm) (scheduler tm) of
        (None, s) \<Rightarrow> (None, tm\<lparr>scheduler := s\<rparr>)
      | (Some pid, s) \<Rightarrow> (Some pid, tm\<lparr>scheduler := s, ready_queue := (ready_queue tm)(pid := None)\<rparr>))"

section \<open>The comparison on a window\<close>

text \<open>
  The distance of a stride from \<open>base\<close> on the circle of \<^verbatim>\<open>usize\<close>, and the strides within half the
  circle.
\<close>

definition ahead :: "usize \<Rightarrow> Stride \<Rightarrow> nat" where
  "ahead base a = unat (stride_pass a - base)"

definition window :: "usize \<Rightarrow> Stride set" where
  "window base = {a. ahead base a < 2 ^ 63}"

lemma half_BIG_STRIDE: "drop_bit 1 BIG_STRIDE = 2 ^ 63 - 1"
proof -
  have "drop_bit 1 (- 1 :: usize) = mask 63" by (rule bit_word_eqI) (auto simp: bit_simps)
  then show ?thesis by (simp only: BIG_STRIDE_def mask_eq_exp_minus_1)
qed

lemma stride_le_cases:
  "stride_le a b \<longleftrightarrow>
     (if unat (abs_diff a b) < 2 ^ 63 then stride_pass b \<le> stride_pass a else stride_pass a < stride_pass b)"
proof -
  have "abs_diff a b \<le> drop_bit 1 BIG_STRIDE \<longleftrightarrow> unat (abs_diff a b) < 2 ^ 63"
    unfolding half_BIG_STRIDE by (auto simp: word_nat)
  moreover have "abs_diff a b = 0" if "stride_pass a = stride_pass b" using that by (simp add: abs_diff_def)
  ultimately show ?thesis
    by (auto simp: stride_le_def stride_partial_cmp_def stride_cmp_def usize_cmp_def)
qed

text \<open>Within a window the comparison is the comparison of the distances, the smaller one greater.\<close>

lemma stride_le_window:
  assumes "a \<in> window base" and "b \<in> window base"
  shows "stride_le a b \<longleftrightarrow> ahead base b \<le> ahead base a"
proof -
  let ?a = "stride_pass a" and ?b = "stride_pass b"
  have bnd: "unat ?a < 2 ^ 64" "unat ?b < 2 ^ 64" "unat base < 2 ^ 64" by (rule unat_less_64)+
  have a: "ahead base a = (if unat base \<le> unat ?a then unat ?a - unat base else unat ?a + 2 ^ 64 - unat base)"
    and b: "ahead base b = (if unat base \<le> unat ?b then unat ?b - unat base else unat ?b + 2 ^ 64 - unat base)"
    unfolding ahead_def by (simp_all add: unat_sub_if')
  have d: "unat (abs_diff a b) = (if unat ?a < unat ?b then unat ?b - unat ?a else unat ?a - unat ?b)"
    by (simp add: abs_diff_def word_nat unat_sub_if')
  show ?thesis
    using assms bnd unfolding stride_le_cases d window_def mem_Collect_eq a b word_nat
    by (auto split: if_splits)
qed

interpretation stride: heap_order stride_le "window base" for base :: usize
  by unfold_locales (auto simp: stride_le_window)

lemma ahead_shift:
  assumes "ahead base a \<le> ahead base b"
  shows "ahead (stride_pass a) b = ahead base b - ahead base a"
proof -
  define A B where "A = stride_pass a - base" and "B = stride_pass b - base"
  have e: "stride_pass b - stride_pass a = B - A" by (simp add: A_def B_def)
  have "A \<le> B" using assms by (simp add: ahead_def A_def B_def word_nat)
  then show ?thesis unfolding ahead_def e A_def [symmetric] B_def [symmetric] by (rule unat_sub)
qed

section \<open>The invariant of the task manager\<close>

text \<open>
  Every ready task has exactly one stride in the queue, the queue is a heap, and all strides lie
  within half the circle from \<open>base\<close>, the pass of the task that ran last.
\<close>

definition tm_inv :: "usize \<Rightarrow> TaskManager \<Rightarrow> bool" where
  "tm_inv base tm =
     (stride.is_heap base (queue (scheduler tm)) \<and> distinct (map stride_id (queue (scheduler tm))) \<and>
      dom (ready_queue tm) = stride_id ` set (queue (scheduler tm)))"

text \<open>What is in the queue, as a map from pids to passes.\<close>

definition tm_pass :: "TaskManager \<Rightarrow> usize \<rightharpoonup> usize" where
  "tm_pass tm = map_of (map (\<lambda>a. (stride_id a, stride_pass a)) (queue (scheduler tm)))"

lemma tm_pass_Some:
  assumes "tm_inv base tm"
  shows "tm_pass tm pid = Some q \<longleftrightarrow> Stride_new pid q \<in> set (queue (scheduler tm))"
proof -
  have d: "distinct (map fst (map (\<lambda>a. (stride_id a, stride_pass a)) (queue (scheduler tm))))"
    using assms by (simp add: tm_inv_def comp_def)
  have "(pid, q) = (stride_id a, stride_pass a) \<longleftrightarrow> a = Stride_new pid q" for a
    by (cases a) (auto simp: Stride_new_def)
  then show ?thesis unfolding tm_pass_def map_of_eq_Some_iff [OF d] by (auto simp: image_iff)
qed

lemma tm_inv_new: "tm_inv base TaskManager_new"
  by (simp add: tm_inv_def TaskManager_new_def StrideScheduler_new_def stride.is_heap_def)

lemma dom_tm_pass: "tm_inv base tm \<Longrightarrow> dom (tm_pass tm) = dom (ready_queue tm)"
  by (simp add: tm_pass_def tm_inv_def dom_map_of_conv_image_fst image_image)

text \<open>Adding a task that is not ready, whose new pass is within the window.\<close>

lemma tm_add_spec:
  assumes inv: "tm_inv base tm" and new: "ready_queue tm pid = None" and prio: "2 \<le> priority task"
    and p: "pass task = base"
  shows "\<exists>task' tm'. tm_add pid task tm = Ok (task', tm') \<and> tm_inv base tm' \<and>
    task' = task\<lparr>pass := base + BIG_STRIDE div priority task\<rparr> \<and>
    ready_queue tm' = (ready_queue tm)(pid \<mapsto> pid) \<and> tm_pass tm' = (tm_pass tm)(pid \<mapsto> pass task')"
proof -
  define q where "q = base + BIG_STRIDE div priority task"
  define tm' where "tm' = tm\<lparr>scheduler := insert_task pid q (scheduler tm), ready_queue := (ready_queue tm)(pid \<mapsto> pid)\<rparr>"
  have nz: "priority task \<noteq> 0" using prio by auto
  have run: "tm_add pid task tm = Ok (task\<lparr>pass := q\<rparr>, tm')"
    using nz p by (simp add: tm_add_def Let_def q_def tm'_def)
  have "unat (BIG_STRIDE div priority task) = unat BIG_STRIDE div unat (priority task)"
    by (simp add: unat_div_distrib)
  also have "\<dots> \<le> unat BIG_STRIDE div 2" using prio by (intro div_le_mono2) (simp_all add: word_nat)
  also have "\<dots> < 2 ^ 63" using unat_less_64 [of BIG_STRIDE] by simp
  finally have win: "Stride_new pid q \<in> window base" by (simp add: window_def ahead_def Stride_new_def q_def)
  let ?old = "queue (scheduler tm)" and ?new = "queue (scheduler tm')"
  have m: "mset ?new = add_mset (Stride_new pid q) (mset ?old)"
    by (simp add: tm'_def insert_task_def mset_heap_push)
  have s: "set ?new = insert (Stride_new pid q) (set ?old)" using m by (metis set_mset_add_mset_insert set_mset_mset)
  have nin: "pid \<notin> stride_id ` set ?old" using inv new by (auto simp: tm_inv_def)
  have "distinct (map stride_id ?new) \<longleftrightarrow> distinct (map stride_id (Stride_new pid q # ?old))"
    by (rule mset_eq_imp_distinct_iff) (simp add: m)
  then have "distinct (map stride_id ?new)" using inv nin by (simp add: tm_inv_def Stride_new_def)
  moreover have "stride.is_heap base ?new"
    using inv win by (simp add: tm_inv_def tm'_def insert_task_def stride.heap_push_heap)
  moreover have "dom (ready_queue tm') = stride_id ` set ?new"
    unfolding s using inv by (simp add: tm_inv_def tm'_def Stride_new_def)
  ultimately have inv': "tm_inv base tm'" by (simp add: tm_inv_def)
  have "tm_pass tm' x = ((tm_pass tm)(pid \<mapsto> q)) x" for x
  proof (cases "x = pid")
    case True
    then show ?thesis using tm_pass_Some [OF inv', of pid q] s by simp
  next
    case False
    then have "Stride_new x r \<in> set ?new \<longleftrightarrow> Stride_new x r \<in> set ?old" for r
      unfolding s by (auto simp: Stride_new_def)
    then have "tm_pass tm' x = Some r \<longleftrightarrow> tm_pass tm x = Some r" for r
      using tm_pass_Some [OF inv'] tm_pass_Some [OF inv] by simp
    then show ?thesis using False by (metis fun_upd_apply option.exhaust)
  qed
  then have "tm_pass tm' = (tm_pass tm)(pid \<mapsto> q)" by (rule ext)
  with run inv' show ?thesis by (simp add: q_def tm'_def)
qed

text \<open>Fetching: a ready task with the least pass, counted from \<open>base\<close>.\<close>

lemma tm_fetch_spec:
  assumes inv: "tm_inv base tm" and ne: "dom (ready_queue tm) \<noteq> {}"
  shows "\<exists>pid q tm'. tm_fetch tm = (Some pid, tm') \<and> tm_pass tm pid = Some q \<and> tm_inv q tm' \<and>
    ready_queue tm' = (ready_queue tm)(pid := None) \<and> tm_pass tm' = (tm_pass tm)(pid := None) \<and>
    (\<forall>x r. tm_pass tm x = Some r \<longrightarrow> unat (q - base) \<le> unat (r - base))"
proof -
  let ?old = "queue (scheduler tm)"
  from inv have heap: "stride.is_heap base ?old" and dist: "distinct (map stride_id ?old)"
    and dom: "dom (ready_queue tm) = stride_id ` set ?old" by (auto simp: tm_inv_def)
  from ne dom have "?old \<noteq> []" by auto
  then obtain a new where pop: "heap_pop stride_le ?old = Some (a, new)"
    using heap_pop_None [of stride_le ?old] by (cases "heap_pop stride_le ?old") auto
  note m = mset_heap_pop [OF pop]
  have s: "set ?old = insert a (set new)" using m by (metis set_mset_add_mset_insert set_mset_mset)
  define pid q where "pid = stride_id a" and "q = stride_pass a"
  define tm' where "tm' = tm\<lparr>scheduler := (scheduler tm)\<lparr>queue := new\<rparr>, ready_queue := (ready_queue tm)(pid := None)\<rparr>"
  have "find_next_task (scheduler tm) = (Some pid, (scheduler tm)\<lparr>queue := new\<rparr>)"
    by (simp add: find_next_task_def pop pid_def)
  moreover have "pid \<in> dom (ready_queue tm)" unfolding dom s by (simp add: pid_def)
  ultimately have run: "tm_fetch tm = (Some pid, tm')"
    by (simp add: tm_fetch_def fetch_loop.simps [of "ready_queue tm" "scheduler tm"] tm'_def)
  have sub: "set ?old \<subseteq> window base" using heap by (simp add: stride.is_heap_def)
  have least: "ahead base a \<le> ahead base b" if "b \<in> set ?old" for b
    using stride.heap_pop_greatest [OF heap pop that] that s sub stride_le_window [of b base a] by auto
  have "distinct (map stride_id ?old) \<longleftrightarrow> distinct (map stride_id (a # new))"
    by (rule mset_eq_imp_distinct_iff) (simp add: m)
  then have d: "pid \<notin> stride_id ` set new" "distinct (map stride_id new)" using dist by (auto simp: pid_def)
  have in_q: "b \<in> window q" if "b \<in> set new" for b
    using least [of b] that s sub ahead_shift [of base a b] by (auto simp: window_def q_def)
  have "stride.is_heap q new"
    using stride.heap_pop_heap [OF heap pop] in_q by (auto simp: stride.is_heap_def stride.edge_def)
  moreover have "dom (ready_queue tm') = stride_id ` set new"
    using dom d(1) s by (auto simp: tm'_def pid_def)
  ultimately have inv': "tm_inv q tm'" using d(2) by (simp add: tm_inv_def tm'_def)
  have pq: "a = Stride_new pid q" by (cases a) (simp add: pid_def q_def Stride_new_def)
  have "tm_pass tm' x = ((tm_pass tm)(pid := None)) x" for x
  proof (cases "x = pid")
    case True
    then have "tm_pass tm' x = None" using d(1) dom_tm_pass [OF inv'] by (auto simp: tm'_def)
    with True show ?thesis by simp
  next
    case False
    then have "Stride_new x r \<in> set new \<longleftrightarrow> Stride_new x r \<in> set ?old" for r
      unfolding s pq by (auto simp: Stride_new_def)
    then have "tm_pass tm' x = Some r \<longleftrightarrow> tm_pass tm x = Some r" for r
      using tm_pass_Some [OF inv'] tm_pass_Some [OF inv] by (simp add: tm'_def)
    then show ?thesis using False by (metis fun_upd_apply option.exhaust)
  qed
  then have "tm_pass tm' = (tm_pass tm)(pid := None)" by (rule ext)
  moreover have "tm_pass tm pid = Some q" using tm_pass_Some [OF inv] s pq by simp
  moreover have "unat (q - base) \<le> unat (r - base)" if "tm_pass tm x = Some r" for x r
    using least [of "Stride_new x r"] tm_pass_Some [OF inv] that by (simp add: ahead_def Stride_new_def q_def)
  ultimately show ?thesis using run inv' by (auto simp: tm'_def)
qed

lemma tm_fetch_None:
  assumes "tm_inv base tm" and "dom (ready_queue tm) = {}"
  shows "tm_fetch tm = (None, tm)"
proof -
  have "queue (scheduler tm) = []" using assms by (simp add: tm_inv_def)
  then show ?thesis
    by (simp add: tm_fetch_def fetch_loop.simps [of "ready_queue tm"] find_next_task_def heap_pop_def)
qed

end
