(* ===== verification/SchedRun.thy ===== *)
theory SchedRun
  imports Scheduler
begin

text \<open>
  Runs of the scheduler: what the kernel does with the task manager between two fetches, as a
  relation on the manager, the scheduling fields of the live tasks, and the task that runs.
  \<^verbatim>\<open>run_tasks\<close> fetches, \<^verbatim>\<open>suspend_current_and_run_next\<close> adds the running task back, \<^verbatim>\<open>sys_fork\<close> adds a child that
  starts with its parent's fields, \<^verbatim>\<open>sys_set_priority\<close> changes the priority of the running task to at
  least 2, and \<^verbatim>\<open>exit_current_and_run_next\<close> drops it.
\<close>

inductive sched_run :: "TaskManager \<Rightarrow> (usize \<rightharpoonup> sched_info) \<Rightarrow> usize option \<Rightarrow> bool" where
  boot: "\<lbrakk>pass t = 0; 2 \<le> priority t; tm_add pid t TaskManager_new = Ok (t', tm)\<rbrakk> \<Longrightarrow>
    sched_run tm [pid \<mapsto> t'] None"
| fetch: "\<lbrakk>sched_run tm tasks None; tm_fetch tm = (Some pid, tm')\<rbrakk> \<Longrightarrow> sched_run tm' tasks (Some pid)"
| suspend: "\<lbrakk>sched_run tm tasks (Some pid); tasks pid = Some t; tm_add pid t tm = Ok (t', tm')\<rbrakk> \<Longrightarrow>
    sched_run tm' (tasks(pid \<mapsto> t')) None"
| fork: "\<lbrakk>sched_run tm tasks (Some pid); tasks pid = Some t; child \<notin> dom tasks; tm_add child t tm = Ok (t', tm')\<rbrakk> \<Longrightarrow>
    sched_run tm' (tasks(child \<mapsto> t')) (Some pid)"
| set_prio: "\<lbrakk>sched_run tm tasks (Some pid); tasks pid = Some t; 2 \<le> prio\<rbrakk> \<Longrightarrow>
    sched_run tm (tasks(pid \<mapsto> t\<lparr>priority := prio\<rparr>)) (Some pid)"
| exit: "sched_run tm tasks (Some pid) \<Longrightarrow> sched_run tm (tasks(pid := None)) None"

inductive_cases fetchE: "sched_run tm tasks (Some pid)"

text \<open>
  The invariant: the queue holds the passes of the ready tasks, all within half the circle from
  \<open>base\<close>, the pass of the running task or of the last one that ran.
\<close>

definition sched_inv :: "usize \<Rightarrow> TaskManager \<Rightarrow> (usize \<rightharpoonup> sched_info) \<Rightarrow> usize option \<Rightarrow> bool" where
  "sched_inv base tm tasks cur =
     (tm_inv base tm \<and> (\<forall>t \<in> ran tasks. 2 \<le> priority t) \<and>
      (\<forall>pid q. tm_pass tm pid = Some q \<longrightarrow> (\<exists>t. tasks pid = Some t \<and> pass t = q)) \<and>
      (\<forall>pid. cur = Some pid \<longrightarrow> ready_queue tm pid = None \<and> (\<exists>t. tasks pid = Some t \<and> pass t = base)))"

lemma sched_invI:
  assumes "tm_inv base tm" and "\<forall>t \<in> ran tasks. 2 \<le> priority t"
    and "\<And>pid q. tm_pass tm pid = Some q \<Longrightarrow> \<exists>t. tasks pid = Some t \<and> pass t = q"
    and "\<And>pid. cur = Some pid \<Longrightarrow> ready_queue tm pid = None \<and> (\<exists>t. tasks pid = Some t \<and> pass t = base)"
  shows "sched_inv base tm tasks cur"
  using assms by (auto simp: sched_inv_def)

lemma sched_invD:
  assumes "sched_inv base tm tasks cur"
  shows "tm_inv base tm" and "tasks pid = Some t \<Longrightarrow> 2 \<le> priority t"
    and "tm_pass tm pid = Some q \<Longrightarrow> \<exists>t. tasks pid = Some t \<and> pass t = q"
    and "cur = Some pid \<Longrightarrow> ready_queue tm pid = None" and "cur = Some pid \<Longrightarrow> \<exists>t. tasks pid = Some t \<and> pass t = base"
  using assms by (auto simp: sched_inv_def ran_def)

text \<open>Adding a task with the fields of the running one keeps the invariant.\<close>

lemma sched_inv_add:
  assumes inv: "sched_inv base tm tasks (Some pid)" and t: "tasks pid = Some t" and new: "ready_queue tm c = None"
    and add: "tm_add c t tm = Ok (t', tm')" and cur: "cur = (if c = pid then None else Some pid)"
  shows "sched_inv base tm' (tasks(c \<mapsto> t')) cur"
proof -
  note d = sched_invD [OF inv]
  have p: "pass t = base" using d(5) [OF refl] t by auto
  from tm_add_spec [OF d(1) new d(2) [OF t] p] add have a: "tm_inv base tm'"
    "t' = t\<lparr>pass := base + BIG_STRIDE div priority t\<rparr>" "ready_queue tm' = (ready_queue tm)(c \<mapsto> c)"
    "tm_pass tm' = (tm_pass tm)(c \<mapsto> pass t')" by auto
  have "\<forall>s \<in> ran (tasks(c \<mapsto> t')). 2 \<le> priority s"
    using d(2) d(2) [OF t] by (auto simp: ran_def a(2) split: if_splits)
  moreover have "\<exists>s. (tasks(c \<mapsto> t')) x = Some s \<and> pass s = q" if "tm_pass tm' x = Some q" for x q
    using that d(3) [of x q] unfolding a(4) by (auto split: if_splits)
  ultimately show ?thesis
    using a(1,3) d(4,5) [OF refl] cur by (intro sched_invI) (auto split: if_splits)
qed

lemma sched_run_inv: "sched_run tm tasks cur \<Longrightarrow> \<exists>base. sched_inv base tm tasks cur"
proof (induction rule: sched_run.induct)
  case (boot t pid t' tm)
  have "ready_queue TaskManager_new pid = None" by (simp add: TaskManager_new_def)
  from tm_add_spec [OF tm_inv_new this boot(2,1)] boot(3)
  have "tm_inv 0 tm" "t' = t\<lparr>pass := BIG_STRIDE div priority t\<rparr>" "tm_pass tm = (tm_pass TaskManager_new)(pid \<mapsto> pass t')"
    by auto
  then have "sched_inv 0 tm [pid \<mapsto> t'] None"
    using boot(2) by (intro sched_invI) (auto simp: tm_pass_def TaskManager_new_def StrideScheduler_new_def split: if_splits)
  then show ?case ..
next
  case (fetch tm tasks pid tm')
  then obtain base where inv: "sched_inv base tm tasks None" by blast
  note d = sched_invD [OF inv]
  have ne: "dom (ready_queue tm) \<noteq> {}" using tm_fetch_None [OF d(1)] fetch(2) by auto
  from tm_fetch_spec [OF d(1) ne] fetch(2) obtain q where q: "tm_pass tm pid = Some q" "tm_inv q tm'"
    "ready_queue tm' = (ready_queue tm)(pid := None)" "tm_pass tm' = (tm_pass tm)(pid := None)" by auto
  have "sched_inv q tm' tasks (Some pid)"
    using q d(2) d(3) by (intro sched_invI) (auto simp: ran_def split: if_splits)
  then show ?case ..
next
  case (suspend tm tasks pid t t' tm')
  then obtain base where inv: "sched_inv base tm tasks (Some pid)" by blast
  then have "ready_queue tm pid = None" by (rule sched_invD(4)) simp
  from sched_inv_add [OF inv suspend(2) this suspend(3) refl] show ?case by (auto simp del: fun_upd_apply)
next
  case (fork tm tasks pid t child t' tm')
  then obtain base where inv: "sched_inv base tm tasks (Some pid)" by blast
  have "child \<noteq> pid" using fork(2,3) by auto
  moreover have "ready_queue tm child = None"
    using fork(3) sched_invD(1,3) [OF inv] dom_tm_pass [of base tm] by (metis domD domI domIff)
  ultimately show ?case using sched_inv_add [OF inv fork(2) _ fork(4) refl] by (auto simp del: fun_upd_apply)
next
  case (set_prio tm tasks pid t prio)
  then obtain base where inv: "sched_inv base tm tasks (Some pid)" by blast
  note d = sched_invD [OF inv]
  have "\<exists>s. (tasks(pid \<mapsto> t\<lparr>priority := prio\<rparr>)) x = Some s \<and> pass s = q" if "tm_pass tm x = Some q" for x q
    using d(3) [OF that] set_prio(2) by auto
  then have "sched_inv base tm (tasks(pid \<mapsto> t\<lparr>priority := prio\<rparr>)) (Some pid)"
    using d(1) d(2) d(4,5) [OF refl] set_prio(2,3) by (intro sched_invI) (auto simp: ran_def split: if_splits)
  then show ?case ..
next
  case (exit tm tasks pid)
  then obtain base where inv: "sched_inv base tm tasks (Some pid)" by blast
  note d = sched_invD [OF inv]
  have nin: "tm_pass tm pid = None" using d(4) [OF refl] dom_tm_pass [OF d(1)] by (metis domIff)
  have "\<exists>t. (tasks(pid := None)) x = Some t \<and> pass t = q" if "tm_pass tm x = Some q" for x q
    using d(3) [OF that] nin that by (cases "x = pid") auto
  then have "sched_inv base tm (tasks(pid := None)) None"
    using d(1) d(2) by (intro sched_invI) (auto simp: ran_def split: if_splits)
  then show ?case ..
qed

text \<open>Passes in the queue lie within half the circle from the base.\<close>

lemma tm_pass_window:
  assumes "tm_inv base tm" and "tm_pass tm pid = Some q"
  shows "unat (q - base) < 2 ^ 63"
proof -
  have "Stride_new pid q \<in> set (queue (scheduler tm))" using tm_pass_Some [OF assms(1)] assms(2) by simp
  then have "Stride_new pid q \<in> window base" using assms(1) by (auto simp: tm_inv_def stride.is_heap_def)
  then show ?thesis by (simp add: window_def ahead_def Stride_new_def)
qed

lemma circle_diff:
  assumes "unat (q - base) \<le> unat (r - base)" and "unat (r - base) < 2 ^ 63"
  shows "unat (r - q :: usize) = unat (r - base) - unat (q - base)"
proof -
  have "r - q = (r - base) - (q - base)" by simp
  also have "unat \<dots> = unat (r - base) - unat (q - base)" using assms(1) by (intro unat_sub) (simp add: word_nat)
  finally show ?thesis .
qed

end
