(* ===== verification/Pid.thy ===== *)
theory Pid
  imports Allocator Isolation
begin

text \<open>
  \<^verbatim>\<open>os/src/task/pid.rs\<close>: process identifiers and kernel stacks. A \<^verbatim>\<open>PidHandle\<close> is the number it owns; its
  \<^verbatim>\<open>Drop\<close> is an explicit call of \<open>pid_dealloc\<close>.
\<close>

section \<open>Process identifiers\<close>

record PidAllocator =
  pid_current :: usize
  pid_recycled :: "usize list"

definition PidAllocator_new :: PidAllocator where
  "PidAllocator_new = \<lparr>pid_current = 0, pid_recycled = []\<rparr>"

definition pid_alloc :: "PidAllocator \<Rightarrow> usize \<times> PidAllocator" where
  "pid_alloc a =
     (if pid_recycled a \<noteq> [] then
        (last (pid_recycled a), a\<lparr>pid_recycled := butlast (pid_recycled a)\<rparr>)
      else let a' = a\<lparr>pid_current := pid_current a + 1\<rparr> in (pid_current a' - 1, a'))"

definition pid_dealloc :: "usize \<Rightarrow> PidAllocator \<Rightarrow> PidAllocator res" where
  "pid_dealloc pid a =
     bind_res (assert_that (pid < pid_current a)) (\<lambda>_.
     bind_res (assert_that (\<not> list_ex (\<lambda>ppid. ppid = pid) (pid_recycled a))) (\<lambda>_.
     Ok (a\<lparr>pid_recycled := pid_recycled a @ [pid]\<rparr>)))"

section \<open>The identifiers in use\<close>

definition pid_inv :: "PidAllocator \<Rightarrow> bool" where
  "pid_inv a = (distinct (pid_recycled a) \<and> (\<forall>p \<in> set (pid_recycled a). p < pid_current a))"

definition pid_used :: "PidAllocator \<Rightarrow> usize set" where
  "pid_used a = {p. p < pid_current a \<and> p \<notin> set (pid_recycled a)}"

text \<open>
  The counter can be increased \<open>2 ^ 64 - 1\<close> times before it wraps; up to there the allocator keeps
  the contract of the recycling allocators.
\<close>

definition pid_alloc_opt :: "PidAllocator \<Rightarrow> (usize \<times> PidAllocator) option" where
  "pid_alloc_opt a = (if pid_recycled a = [] \<and> pid_current a = - 1 then None else Some (pid_alloc a))"

lemma less_plus_one: "(c :: usize) \<noteq> - 1 \<Longrightarrow> p < c + 1 \<longleftrightarrow> p < c \<or> p = c"
  using unat_plus_one [of c] by (auto simp: word_nat less_Suc_eq word_unat_eq_iff)

lemma pid_alloc_spec:
  assumes "pid_inv a" and "pid_alloc_opt a = Some (p, a')"
  shows "pid_inv a' \<and> p \<notin> pid_used a \<and> pid_used a' = insert p (pid_used a)"
proof (cases "pid_recycled a" rule: rev_cases)
  case Nil
  with assms(2) have c: "pid_current a \<noteq> - 1" "p = pid_current a" "a' = a\<lparr>pid_current := pid_current a + 1\<rparr>"
    by (auto simp: pid_alloc_opt_def pid_alloc_def Let_def split: if_splits)
  then show ?thesis using Nil assms(1) by (auto simp: pid_inv_def pid_used_def less_plus_one)
next
  case (snoc ps q)
  with assms(2) have "p = q" "a' = a\<lparr>pid_recycled := ps\<rparr>"
    by (auto simp: pid_alloc_opt_def pid_alloc_def)
  with snoc assms(1) show ?thesis by (auto simp: pid_inv_def pid_used_def)
qed

lemma pid_dealloc_eq_Ok:
  "pid_dealloc p a = Ok a' \<longleftrightarrow>
     p < pid_current a \<and> p \<notin> set (pid_recycled a) \<and> a' = a\<lparr>pid_recycled := pid_recycled a @ [p]\<rparr>"
  by (auto simp: pid_dealloc_def res_simps list_ex_iff)

lemma pid_dealloc_used:
  assumes "pid_inv a" and "p \<in> pid_used a"
  shows "\<exists>a'. pid_dealloc p a = Ok a' \<and> pid_inv a' \<and> pid_used a' = pid_used a - {p}"
  using assms by (auto simp: pid_dealloc_eq_Ok pid_inv_def pid_used_def)

interpretation pids: allocator pid_alloc_opt pid_dealloc pid_inv pid_used "\<lambda>_. - {- 1}"
proof
  show "pid_inv s' \<and> p \<notin> pid_used s \<and> pid_used s' = insert p (pid_used s) \<and> - {- 1} = - {- 1 :: usize}"
    if "pid_inv s" "pid_alloc_opt s = Some (p, s')" for s p s'
    using pid_alloc_spec [OF that] by simp
  show "pid_used s = - {- 1}" if "pid_inv s" "pid_alloc_opt s = None" for s
    using that by (auto simp: pid_alloc_opt_def pid_used_def order.strict_iff_order split: if_splits)
  show "\<exists>s'. pid_dealloc p s = Ok s' \<and> pid_inv s' \<and> pid_used s' = pid_used s - {p} \<and> - {- 1} = - {- 1 :: usize}"
    if "pid_inv s" "p \<in> pid_used s" for s p
    using pid_dealloc_used [OF that] by simp
  show "\<exists>e. pid_dealloc p s' = Panic e" if "pid_inv s" "pid_dealloc p s = Ok s'" for s p s'
    using that by (auto simp: pid_dealloc_eq_Ok) (auto simp: pid_dealloc_def list_ex_iff)
  show "pid_used s \<subseteq> - {- 1}" if "pid_inv s" for s
    by (auto simp: pid_used_def not_less)
qed

section \<open>Kernel stacks\<close>

definition kernel_stack_position :: "usize \<Rightarrow> usize \<times> usize" where
  "kernel_stack_position pid =
     (let stack_top = TRAMPOLINE - pid * (KERNEL_STACK_SIZE + PAGE_SIZE);
          bottom = stack_top - KERNEL_STACK_SIZE
      in (bottom, stack_top))"

text \<open>
  \<^verbatim>\<open>KernelStack::new\<close> maps the stack into the kernel's memory set; when that fails it returns the
  stack of pid \<^verbatim>\<open>usize::MAX\<close>. The value of a \<^verbatim>\<open>KernelStack\<close> is its pid.
\<close>

definition KernelStack_new :: "usize \<Rightarrow> ms_state \<Rightarrow> (usize \<times> ms_state) res" where
  "KernelStack_new pid st =
     (case kernel_stack_position pid of (bottom, stack_top) \<Rightarrow>
        bind_res (insert_framed_area (VirtAddr_from bottom) (VirtAddr_from stack_top) (MP_R OR MP_W) st) (\<lambda>(r, st).
          case r of Inl _ \<Rightarrow> Ok (- 1, st) | Inr _ \<Rightarrow> Ok (pid, st)))"

definition ks_get_top :: "usize \<Rightarrow> usize" where
  "ks_get_top stack = (case kernel_stack_position stack of (_, stack_top) \<Rightarrow> stack_top)"

definition drop_kernel_stack :: "usize \<Rightarrow> ms_state \<Rightarrow> ms_state res" where
  "drop_kernel_stack stack st =
     (case kernel_stack_position stack of (kernel_stack_bottom, _) \<Rightarrow>
        bind_res (VirtPageNum_from_va (VirtAddr_from kernel_stack_bottom)) (\<lambda>vpn.
        remove_area_with_start_vpn vpn st))"

text \<open>
  The stack of a pid, in units of pages below the trampoline: two pages and, below them, one guard
  page that no stack uses.
\<close>

definition stack_pages :: "usize \<Rightarrow> usize set" where
  "stack_pages pid = {x. fst (kernel_stack_position pid) \<le> x \<and> x < snd (kernel_stack_position pid)}"

lemma kernel_stack_nat:
  assumes "unat pid < 2 ^ 50"
  shows "unat (snd (kernel_stack_position pid)) = 2 ^ 64 - 4096 - unat pid * 12288"
    and "unat (fst (kernel_stack_position pid)) = 2 ^ 64 - 4096 - unat pid * 12288 - 8192"
proof -
  have m: "unat (pid * (KERNEL_STACK_SIZE + PAGE_SIZE)) = unat pid * 12288"
    using assms by (simp add: KERNEL_STACK_SIZE_def PAGE_SIZE_def unat_word_ariths)
  have t: "unat TRAMPOLINE = 2 ^ 64 - 4096" by (simp add: TRAMPOLINE_def PAGE_SIZE_def)
  have top: "unat (TRAMPOLINE - pid * (KERNEL_STACK_SIZE + PAGE_SIZE)) = 2 ^ 64 - 4096 - unat pid * 12288"
    using assms by (subst unat_sub) (simp_all add: word_nat m t)
  then show "unat (snd (kernel_stack_position pid)) = 2 ^ 64 - 4096 - unat pid * 12288"
    by (simp add: kernel_stack_position_def Let_def)
  have k: "unat KERNEL_STACK_SIZE = 8192" by (simp add: KERNEL_STACK_SIZE_def)
  have "unat (TRAMPOLINE - pid * (KERNEL_STACK_SIZE + PAGE_SIZE) - KERNEL_STACK_SIZE) =
      2 ^ 64 - 4096 - unat pid * 12288 - 8192"
    using assms by (subst unat_sub) (simp_all add: word_nat top k)
  then show "unat (fst (kernel_stack_position pid)) = 2 ^ 64 - 4096 - unat pid * 12288 - 8192"
    by (simp add: kernel_stack_position_def Let_def)
qed

text \<open>Stacks of different pids do not overlap, and between two stacks there is a page of neither.\<close>

lemma kernel_stacks_apart:
  assumes "unat p < unat q" and "unat q < 2 ^ 50"
  shows "unat (snd (kernel_stack_position q)) + 4096 \<le> unat (fst (kernel_stack_position p))"
proof -
  have p: "unat p < 2 ^ 50" using assms by simp
  have "unat p * 12288 + 12288 \<le> unat q * 12288" using assms(1) by simp
  moreover have "unat q * 12288 \<le> 2 ^ 64 - 4096" using assms(2) by simp
  ultimately show ?thesis unfolding kernel_stack_nat [OF assms(2)] kernel_stack_nat [OF p] by simp
qed

end
