(* ===== verification/Pipe.thy ===== *)
theory Pipe
  imports Prelude
begin

text \<open>
  \<^verbatim>\<open>os/src/fs/pipe.rs\<close>: the ring buffer of a pipe and the rounds of \<^verbatim>\<open>Pipe::read\<close> and \<^verbatim>\<open>Pipe::write\<close>. A
  round is one iteration of their outer loop, with the buffer held exclusively; between two rounds
  other processes run. The buffer of the caller is the list of addresses that its
  \<^verbatim>\<open>UserBufferIterator\<close> still has to yield.
\<close>

section \<open>The ring buffer\<close>

definition RING_BUFFER_SIZE :: nat where "RING_BUFFER_SIZE = 32"

datatype RingBufferStatus = FULL | EMPTY | NORMAL

text \<open>
  \<^verbatim>\<open>write_end: Option<Weak<Pipe>>\<close> is used only to ask whether the write end is still alive: the field
  holds the number of strong references to it.
\<close>

record PipeRingBuffer =
  arr :: "u8 list"
  head :: nat
  tail :: nat
  status :: RingBufferStatus
  write_end :: "nat option"

definition PipeRingBuffer_new :: PipeRingBuffer where
  "PipeRingBuffer_new = \<lparr>arr = replicate RING_BUFFER_SIZE 0, head = 0, tail = 0, status = EMPTY, write_end = None\<rparr>"

definition set_write_end :: "nat \<Rightarrow> PipeRingBuffer \<Rightarrow> PipeRingBuffer" where
  "set_write_end strong rb = rb\<lparr>write_end := Some strong\<rparr>"

definition read_byte :: "PipeRingBuffer \<Rightarrow> u8 \<times> PipeRingBuffer" where
  "read_byte rb =
     (let rb = rb\<lparr>status := NORMAL\<rparr>;
          c = arr rb ! head rb;
          rb = rb\<lparr>head := (head rb + 1) mod RING_BUFFER_SIZE\<rparr>
      in (c, if head rb = tail rb then rb\<lparr>status := EMPTY\<rparr> else rb))"

definition write_byte :: "u8 \<Rightarrow> PipeRingBuffer \<Rightarrow> PipeRingBuffer" where
  "write_byte byte rb =
     (let rb = rb\<lparr>status := NORMAL\<rparr>;
          rb = rb\<lparr>arr := (arr rb)[tail rb := byte]\<rparr>;
          rb = rb\<lparr>tail := (tail rb + 1) mod RING_BUFFER_SIZE\<rparr>
      in if tail rb = head rb then rb\<lparr>status := FULL\<rparr> else rb)"

definition available_read :: "PipeRingBuffer \<Rightarrow> nat" where
  "available_read rb =
     (if status rb = EMPTY then 0
      else if tail rb > head rb then tail rb - head rb
      else tail rb + RING_BUFFER_SIZE - head rb)"

definition available_write :: "PipeRingBuffer \<Rightarrow> nat" where
  "available_write rb = (if status rb = FULL then 0 else RING_BUFFER_SIZE - available_read rb)"

definition all_write_ends_closed :: "PipeRingBuffer \<Rightarrow> bool res" where
  "all_write_ends_closed rb = bind_res (unwrap (write_end rb)) (\<lambda>strong. Ok (strong = 0))"

section \<open>Rounds of read and write\<close>

text \<open>
  The state of a call in its loop: the addresses left, the bytes moved so far, the ring buffer and
  the memory.
\<close>

record pipe_call =
  buf_iter :: "usize list"
  moved :: usize
  ring :: PipeRingBuffer
  user_mem :: "usize \<Rightarrow> u8"

datatype round_result = Return usize | Suspend | Again

fun read_for :: "nat \<Rightarrow> pipe_call \<Rightarrow> round_result \<times> pipe_call" where
  "read_for 0 st = (Again, st)"
| "read_for (Suc n) st =
     (case buf_iter st of
        byte_ref # rest \<Rightarrow>
          (case read_byte (ring st) of (c, rb) \<Rightarrow>
             read_for n (st\<lparr>buf_iter := rest, moved := moved st + 1, ring := rb,
                            user_mem := (user_mem st)(byte_ref := c)\<rparr>))
      | [] \<Rightarrow> (Return (moved st), st))"

definition read_round :: "pipe_call \<Rightarrow> (round_result \<times> pipe_call) res" where
  "read_round st =
     (let loop_read = available_read (ring st) in
      if loop_read = 0 then
        bind_res (all_write_ends_closed (ring st)) (\<lambda>closed.
        Ok (if closed then Return (moved st) else Suspend, st))
      else Ok (read_for loop_read st))"

fun write_for :: "nat \<Rightarrow> pipe_call \<Rightarrow> round_result \<times> pipe_call" where
  "write_for 0 st = (Again, st)"
| "write_for (Suc n) st =
     (case buf_iter st of
        byte_ref # rest \<Rightarrow>
          write_for n (st\<lparr>buf_iter := rest, moved := moved st + 1,
                          ring := write_byte (user_mem st byte_ref) (ring st)\<rparr>)
      | [] \<Rightarrow> (Return (moved st), st))"

definition write_round :: "pipe_call \<Rightarrow> (round_result \<times> pipe_call) res" where
  "write_round st =
     (let loop_write = available_write (ring st) in
      if loop_write = 0 then Ok (Suspend, st) else Ok (write_for loop_write st))"

section \<open>A bounded queue\<close>

text \<open>
  The contract of a bounded first-in first-out queue of bytes. The rounds of the pipe rely on nothing
  else.
\<close>

locale bounded_queue =
  fixes inv :: "'q \<Rightarrow> bool" and contents :: "'q \<Rightarrow> 'a list"
    and enq :: "'a \<Rightarrow> 'q \<Rightarrow> 'q" and deq :: "'q \<Rightarrow> 'a \<times> 'q"
    and used :: "'q \<Rightarrow> nat" and room :: "'q \<Rightarrow> nat" and capacity :: nat
  assumes used: "inv q \<Longrightarrow> used q = length (contents q)"
    and room: "inv q \<Longrightarrow> room q = capacity - length (contents q)"
    and bounded: "inv q \<Longrightarrow> length (contents q) \<le> capacity"
    and enq: "\<lbrakk>inv q; length (contents q) < capacity\<rbrakk> \<Longrightarrow> inv (enq x q) \<and> contents (enq x q) = contents q @ [x]"
    and deq: "\<lbrakk>inv q; contents q = x # xs\<rbrakk> \<Longrightarrow> fst (deq q) = x \<and> inv (snd (deq q)) \<and> contents (snd (deq q)) = xs"
begin

text \<open>Taking and putting several elements.\<close>

fun deqs :: "nat \<Rightarrow> 'q \<Rightarrow> 'a list \<times> 'q" where
  "deqs 0 q = ([], q)"
| "deqs (Suc n) q = (case deq q of (x, q') \<Rightarrow> case deqs n q' of (xs, q'') \<Rightarrow> (x # xs, q''))"

definition enqs :: "'a list \<Rightarrow> 'q \<Rightarrow> 'q" where
  "enqs xs q = fold enq xs q"

lemma deqs_spec:
  assumes "inv q" and "n \<le> length (contents q)"
  shows "fst (deqs n q) = take n (contents q) \<and> inv (snd (deqs n q)) \<and> contents (snd (deqs n q)) = drop n (contents q)"
  using assms
proof (induction n arbitrary: q)
  case (Suc n)
  then obtain x xs where c: "contents q = x # xs" by (cases "contents q") auto
  note d = deq [OF Suc.prems(1) c]
  have "n \<le> length (contents (snd (deq q)))" using Suc.prems(2) c d by simp
  from Suc.IH [OF _ this] d c show ?case by (simp add: split_beta)
qed simp

lemma enqs_spec:
  assumes "inv q" and "length (contents q) + length xs \<le> capacity"
  shows "inv (enqs xs q) \<and> contents (enqs xs q) = contents q @ xs"
  using assms
proof (induction xs arbitrary: q)
  case (Cons x xs)
  note e = enq [OF Cons.prems(1), of x]
  have "length (contents q) < capacity" using Cons.prems(2) by simp
  with e Cons.IH [of "enq x q"] Cons.prems(2) show ?case by (simp add: enqs_def)
qed (simp add: enqs_def)

end

section \<open>The ring buffer is a bounded queue\<close>

definition rb_inv :: "PipeRingBuffer \<Rightarrow> bool" where
  "rb_inv rb = (length (arr rb) = 32 \<and> head rb < 32 \<and> tail rb < 32 \<and> (status rb = NORMAL \<longleftrightarrow> head rb \<noteq> tail rb))"

definition rb_contents :: "PipeRingBuffer \<Rightarrow> u8 list" where
  "rb_contents rb = map (\<lambda>k. arr rb ! ((head rb + k) mod 32)) [0..<available_read rb]"

lemma rb_inv_new: "rb_inv (PipeRingBuffer_new\<lparr>write_end := w\<rparr>)" "rb_contents (PipeRingBuffer_new\<lparr>write_end := w\<rparr>) = []"
  by (simp_all add: rb_inv_def rb_contents_def PipeRingBuffer_new_def RING_BUFFER_SIZE_def available_read_def)

lemma mod_next: "h < 32 \<Longrightarrow> (h + 1) mod 32 = (if h = 31 then 0 else h + 1)" for h :: nat
  by auto

lemma mod_apart: "\<lbrakk>a < b; b < a + 32\<rbrakk> \<Longrightarrow> a mod 32 \<noteq> b mod 32" for a b :: nat
  using mod_eq_dvd_iff_nat [of a b 32] nat_dvd_not_less [of "b - a" 32] by auto

lemma available_read_bound: "rb_inv rb \<Longrightarrow> available_read rb \<le> 32"
  by (auto simp: rb_inv_def available_read_def RING_BUFFER_SIZE_def)

lemma available_write_eq: "rb_inv rb \<Longrightarrow> available_write rb = 32 - available_read rb"
  by (cases "status rb") (auto simp: rb_inv_def available_read_def available_write_def RING_BUFFER_SIZE_def)

lemma write_byte_eq:
  assumes "rb_inv rb" and "available_read rb < 32"
  shows "rb_inv (write_byte b rb) \<and> available_read (write_byte b rb) = available_read rb + 1 \<and>
    head (write_byte b rb) = head rb \<and> arr (write_byte b rb) = (arr rb)[tail rb := b] \<and>
    (head rb + available_read rb) mod 32 = tail rb"
proof -
  from assms have b: "head rb < 32" "tail rb < 32" "length (arr rb) = 32" by (auto simp: rb_inv_def)
  have n: "(tail rb + 1) mod 32 = (if tail rb = 31 then 0 else tail rb + 1)" by (rule mod_next [OF b(2)])
  show ?thesis
    using assms b n
    by (cases "status rb"; cases "tail rb = 31")
       (auto simp: rb_inv_def write_byte_def Let_def available_read_def RING_BUFFER_SIZE_def)
qed

lemma read_byte_eq:
  assumes "rb_inv rb" and "0 < available_read rb"
  shows "fst (read_byte rb) = arr rb ! head rb \<and> rb_inv (snd (read_byte rb)) \<and>
    available_read (snd (read_byte rb)) = available_read rb - 1 \<and>
    head (snd (read_byte rb)) = (head rb + 1) mod 32 \<and> arr (snd (read_byte rb)) = arr rb"
proof -
  from assms have b: "head rb < 32" "tail rb < 32" "length (arr rb) = 32" by (auto simp: rb_inv_def)
  have n: "(head rb + 1) mod 32 = (if head rb = 31 then 0 else head rb + 1)" by (rule mod_next [OF b(1)])
  show ?thesis
    using assms b n
    by (cases "status rb"; cases "head rb = 31")
       (auto simp: rb_inv_def read_byte_def Let_def available_read_def RING_BUFFER_SIZE_def split: if_splits)
qed

lemma write_byte_contents:
  assumes "rb_inv rb" and "available_read rb < 32"
  shows "rb_contents (write_byte b rb) = rb_contents rb @ [b]"
proof (rule nth_equalityI)
  note w = write_byte_eq [OF assms, of b]
  show "length (rb_contents (write_byte b rb)) = length (rb_contents rb @ [b])"
    using w by (simp add: rb_contents_def)
  fix k assume "k < length (rb_contents (write_byte b rb))"
  then have k: "k < available_read rb + 1" using w by (simp add: rb_contents_def)
  have len: "length (arr rb) = 32" and t: "tail rb < 32" and h: "head rb < 32" using assms(1) by (auto simp: rb_inv_def)
  show "rb_contents (write_byte b rb) ! k = (rb_contents rb @ [b]) ! k"
  proof (cases "k = available_read rb")
    case True
    then show ?thesis using w k len t by (simp add: rb_contents_def nth_append)
  next
    case False
    then have lt: "k < available_read rb" using k by simp
    have "(head rb + k) mod 32 \<noteq> (head rb + available_read rb) mod 32"
      using lt assms(2) mod_apart [of "head rb + k" "head rb + available_read rb"] by simp
    then show ?thesis using w k lt len t by (simp add: rb_contents_def nth_append)
  qed
qed

lemma read_byte_contents:
  assumes "rb_inv rb" and "rb_contents rb = x # xs"
  shows "fst (read_byte rb) = x \<and> rb_inv (snd (read_byte rb)) \<and> rb_contents (snd (read_byte rb)) = xs"
proof -
  have pos: "0 < available_read rb" using assms(2) by (cases "available_read rb") (auto simp: rb_contents_def)
  note r = read_byte_eq [OF assms(1) pos]
  have h: "head rb < 32" using assms(1) by (simp add: rb_inv_def)
  have "rb_contents rb = arr rb ! head rb # rb_contents (snd (read_byte rb))"
  proof -
    have "[0..<available_read rb] = 0 # map Suc [0..<available_read rb - 1]"
      using pos by (simp add: upt_conv_Cons map_Suc_upt)
    then show ?thesis using r h by (simp add: rb_contents_def comp_def mod_simps)
  qed
  with assms(2) r show ?thesis by simp
qed

interpretation ring: bounded_queue rb_inv rb_contents write_byte read_byte available_read available_write 32
proof
  show "available_read q = length (rb_contents q)" for q by (simp add: rb_contents_def)
  show "available_write q = 32 - length (rb_contents q)" if "rb_inv q" for q
    using available_write_eq [OF that] by (simp add: rb_contents_def)
  show "length (rb_contents q) \<le> 32" if "rb_inv q" for q
    using available_read_bound [OF that] by (simp add: rb_contents_def)
  show "rb_inv (write_byte x q) \<and> rb_contents (write_byte x q) = rb_contents q @ [x]"
    if "rb_inv q" "length (rb_contents q) < 32" for q x
    using write_byte_eq [of q x] write_byte_contents [of q x] that by (simp add: rb_contents_def)
  show "fst (read_byte q) = x \<and> rb_inv (snd (read_byte q)) \<and> rb_contents (snd (read_byte q)) = xs"
    if "rb_inv q" "rb_contents q = x # xs" for q x xs
    using read_byte_contents [OF that] .
qed

section \<open>What a round does\<close>

lemma read_for_spec:
  assumes "rb_inv (ring st)" and "n \<le> length (rb_contents (ring st))"
  defines "k \<equiv> min n (length (buf_iter st))"
  shows "\<exists>st'. read_for n st = (if length (buf_iter st) < n then Return (moved st') else Again, st') \<and>
    rb_inv (ring st') \<and> rb_contents (ring st') = drop k (rb_contents (ring st)) \<and>
    write_end (ring st') = write_end (ring st) \<and>
    buf_iter st' = drop k (buf_iter st) \<and> moved st' = moved st + of_nat k \<and>
    user_mem st' = fold (\<lambda>(a, c) m. m(a := c)) (zip (take k (buf_iter st)) (take k (rb_contents (ring st)))) (user_mem st)"
  using assms(1,2) unfolding k_def
proof (induction n arbitrary: st)
  case (Suc n)
  show ?case
  proof (cases "buf_iter st")
    case Nil
    then show ?thesis using Suc.prems by (intro exI [of _ st]) simp
  next
    case it: (Cons a rest)
    from Suc.prems(2) obtain c cs where cs: "rb_contents (ring st) = c # cs"
      by (cases "rb_contents (ring st)") auto
    obtain rb where rb: "read_byte (ring st) = (c, rb)" "rb_inv rb" "rb_contents rb = cs"
      using ring.deq [OF Suc.prems(1) cs] by (cases "read_byte (ring st)") auto
    have we: "write_end rb = write_end (ring st)" using rb(1) by (auto simp: read_byte_def Let_def split: if_splits)
    define st1 where "st1 = st\<lparr>buf_iter := rest, moved := moved st + 1, ring := rb, user_mem := (user_mem st)(a := c)\<rparr>"
    have step: "read_for (Suc n) st = read_for n st1" by (simp add: it rb(1) st1_def)
    have "rb_inv (ring st1)" "n \<le> length (rb_contents (ring st1))" using rb Suc.prems(2) cs by (simp_all add: st1_def)
    from Suc.IH [OF this] show ?thesis unfolding step by (simp add: st1_def it rb(3) cs we add.assoc)
  qed
qed (auto intro: exI [of _ st])

lemma write_for_spec:
  assumes "rb_inv (ring st)" and "length (rb_contents (ring st)) + n \<le> 32"
  defines "k \<equiv> min n (length (buf_iter st))"
  shows "\<exists>st'. write_for n st = (if length (buf_iter st) < n then Return (moved st') else Again, st') \<and>
    rb_inv (ring st') \<and>
    rb_contents (ring st') = rb_contents (ring st) @ map (user_mem st) (take k (buf_iter st)) \<and>
    write_end (ring st') = write_end (ring st) \<and>
    buf_iter st' = drop k (buf_iter st) \<and> moved st' = moved st + of_nat k \<and> user_mem st' = user_mem st"
  using assms(1,2) unfolding k_def
proof (induction n arbitrary: st)
  case (Suc n)
  show ?case
  proof (cases "buf_iter st")
    case Nil
    then show ?thesis using Suc.prems by (intro exI [of _ st]) simp
  next
    case it: (Cons a rest)
    let ?c = "user_mem st a"
    define rb where "rb = write_byte ?c (ring st)"
    have rb: "rb_inv rb" "rb_contents rb = rb_contents (ring st) @ [?c]"
      using ring.enq [OF Suc.prems(1), of ?c] Suc.prems(2) by (simp_all add: rb_def)
    have we: "write_end rb = write_end (ring st)" by (auto simp: rb_def write_byte_def Let_def)
    define st1 where "st1 = st\<lparr>buf_iter := rest, moved := moved st + 1, ring := rb\<rparr>"
    have step: "write_for (Suc n) st = write_for n st1" by (simp add: it st1_def rb_def)
    have "rb_inv (ring st1)" "length (rb_contents (ring st1)) + n \<le> 32" using rb Suc.prems(2) by (simp_all add: st1_def)
    from Suc.IH [OF this] show ?thesis unfolding step by (simp add: st1_def it rb(2) we add.assoc)
  qed
qed (auto intro: exI [of _ st])

lemma read_round_spec:
  assumes inv: "rb_inv (ring st)"
  defines "c \<equiv> rb_contents (ring st)" and "k \<equiv> min (length (rb_contents (ring st))) (length (buf_iter st))"
  shows "if c = [] then read_round st =
        bind_res (all_write_ends_closed (ring st)) (\<lambda>closed. Ok (if closed then Return (moved st) else Suspend, st))
    else \<exists>st'. read_round st = Ok (if length (buf_iter st) < length c then Return (moved st') else Again, st') \<and>
      rb_inv (ring st') \<and> rb_contents (ring st') = drop k c \<and> write_end (ring st') = write_end (ring st) \<and>
      buf_iter st' = drop k (buf_iter st) \<and> moved st' = moved st + of_nat k \<and>
      user_mem st' = fold (\<lambda>(a, c) m. m(a := c)) (zip (take k (buf_iter st)) (take k c)) (user_mem st)"
  using read_for_spec [OF inv order.refl] ring.used [OF inv]
  by (auto simp: read_round_def Let_def c_def k_def)

lemma write_round_spec:
  assumes inv: "rb_inv (ring st)"
  defines "n \<equiv> 32 - length (rb_contents (ring st))"
  defines "k \<equiv> min n (length (buf_iter st))"
  shows "if n = 0 then write_round st = Ok (Suspend, st)
    else \<exists>st'. write_round st = Ok (if length (buf_iter st) < n then Return (moved st') else Again, st') \<and>
      rb_inv (ring st') \<and>
      rb_contents (ring st') = rb_contents (ring st) @ map (user_mem st) (take k (buf_iter st)) \<and>
      write_end (ring st') = write_end (ring st) \<and>
      buf_iter st' = drop k (buf_iter st) \<and> moved st' = moved st + of_nat k \<and> user_mem st' = user_mem st"
  using write_for_spec [OF inv, of n] ring.room [OF inv] ring.bounded [OF inv]
  by (auto simp: write_round_def Let_def n_def k_def)

section \<open>Interleaved readers and writers\<close>

text \<open>
  What a call has moved in a round: the addresses its iterator has yielded.
\<close>

definition yielded :: "pipe_call \<Rightarrow> pipe_call \<Rightarrow> usize list" where
  "yielded st st' = take (length (buf_iter st) - length (buf_iter st')) (buf_iter st)"

text \<open>
  The runs of a pipe: rounds of any calls in any order, and write ends that come and go. Beside the
  ring buffer a state holds all bytes sent and all bytes received so far. The addresses a reader
  fills in a round are distinct, since they are the bytes of a user buffer.
\<close>

inductive pipe_run :: "PipeRingBuffer \<Rightarrow> u8 list \<Rightarrow> u8 list \<Rightarrow> bool" where
  start: "pipe_run (set_write_end 1 PipeRingBuffer_new) [] []"
| reader: "\<lbrakk>pipe_run rb sent received; ring st = rb; distinct (buf_iter st); read_round st = Ok (r, st')\<rbrakk> \<Longrightarrow>
    pipe_run (ring st') sent (received @ map (user_mem st') (yielded st st'))"
| writer: "\<lbrakk>pipe_run rb sent received; ring st = rb; write_round st = Ok (r, st')\<rbrakk> \<Longrightarrow>
    pipe_run (ring st') (sent @ map (user_mem st) (yielded st st')) received"
| ends: "pipe_run rb sent received \<Longrightarrow> pipe_run (set_write_end n rb) sent received"

lemma fold_update_nth:
  "\<lbrakk>distinct as; length bs = length as\<rbrakk> \<Longrightarrow>
     map (fold (\<lambda>(a, c) m. m(a := c)) (zip as bs) m) as = bs"
proof (induction as bs arbitrary: m rule: list_induct2')
  case (4 a as b bs)
  have "fold (\<lambda>(a, c) m. m(a := c)) (zip as bs) m' a = m' a" if "a \<notin> set as" for m' :: "'a \<Rightarrow> 'b"
    using that by (induction as bs arbitrary: m' rule: list_induct2') auto
  note keep = this
  from 4 have "a \<notin> set as" "distinct as" "length bs = length as" by auto
  with keep [of "m(a := b)"] 4(1) [of "m(a := b)"] show ?case by (simp del: fun_upd_apply) simp
qed auto

lemma read_round_moves:
  assumes inv: "rb_inv (ring st)" and d: "distinct (buf_iter st)" and r: "read_round st = Ok (r, st')"
  shows "rb_inv (ring st')" and "map (user_mem st') (yielded st st') @ rb_contents (ring st') = rb_contents (ring st)"
proof -
  let ?c = "rb_contents (ring st)"
  define k where "k = min (length ?c) (length (buf_iter st))"
  have "rb_inv (ring st') \<and> map (user_mem st') (yielded st st') @ rb_contents (ring st') = ?c"
  proof (cases "?c = []")
    case True
    then have "bind_res (all_write_ends_closed (ring st)) (\<lambda>closed. Ok (if closed then Return (moved st) else Suspend, st)) =
        Ok (r, st')" using read_round_spec [OF inv] r by simp
    then have "st' = st" by (auto simp: res_simps)
    with inv show ?thesis by (simp add: yielded_def)
  next
    case False
    with read_round_spec [OF inv] r have s: "rb_inv (ring st')" "rb_contents (ring st') = drop k ?c"
      "buf_iter st' = drop k (buf_iter st)"
      "user_mem st' = fold (\<lambda>(a, c) m. m(a := c)) (zip (take k (buf_iter st)) (take k ?c)) (user_mem st)"
      unfolding k_def by auto
    have y: "yielded st st' = take k (buf_iter st)" by (simp add: yielded_def s(3) k_def min_def)
    have "map (user_mem st') (take k (buf_iter st)) = take k ?c"
      unfolding s(4) using d by (intro fold_update_nth) (simp_all add: k_def)
    with s(1,2) y show ?thesis by simp
  qed
  then show "rb_inv (ring st')" "map (user_mem st') (yielded st st') @ rb_contents (ring st') = ?c" by auto
qed

lemma write_round_moves:
  assumes inv: "rb_inv (ring st)" and r: "write_round st = Ok (r, st')"
  shows "rb_inv (ring st')" and "rb_contents (ring st') = rb_contents (ring st) @ map (user_mem st) (yielded st st')"
proof -
  define n where "n = 32 - length (rb_contents (ring st))"
  have "rb_inv (ring st') \<and> rb_contents (ring st') = rb_contents (ring st) @ map (user_mem st) (yielded st st')"
  proof (cases "n = 0")
    case True
    then have "st' = st" using write_round_spec [OF inv] r by (simp add: n_def)
    with inv show ?thesis by (simp add: yielded_def)
  next
    case False
    with write_round_spec [OF inv] r have "rb_inv (ring st')"
      "rb_contents (ring st') = rb_contents (ring st) @ map (user_mem st) (take (min n (length (buf_iter st))) (buf_iter st))"
      "buf_iter st' = drop (min n (length (buf_iter st))) (buf_iter st)"
      unfolding n_def by auto
    then show ?thesis by (simp add: yielded_def min_def)
  qed
  then show "rb_inv (ring st')" "rb_contents (ring st') = rb_contents (ring st) @ map (user_mem st) (yielded st st')"
    by auto
qed

lemma set_write_end_contents [simp]:
  "rb_inv (set_write_end n rb) = rb_inv rb" "rb_contents (set_write_end n rb) = rb_contents rb"
  by (simp_all add: set_write_end_def rb_inv_def rb_contents_def available_read_def)

lemma pipe_run_fifo: "pipe_run rb sent received \<Longrightarrow> rb_inv rb \<and> received @ rb_contents rb = sent"
proof (induction rule: pipe_run.induct)
  case start
  then show ?case using rb_inv_new by (simp add: set_write_end_def)
next
  case (reader rb sent received st r st')
  then show ?case using read_round_moves [of st r st'] by simp
next
  case (writer rb sent received st r st')
  then show ?case using write_round_moves [of st r st'] by (metis append.assoc)
next
  case (ends rb sent received n)
  then show ?case by simp
qed

end
