(* ===== verification/TrapContext.thy ===== *)
theory TrapContext
  imports PhysMem
begin

text \<open>
  \<^verbatim>\<open>os/src/trap/context.rs\<close> and \<^verbatim>\<open>os/src/task/context.rs\<close>: the contexts that are saved for a task. The trap
  context lies in a page of user space, which the kernel reaches through its frame
  (\<^verbatim>\<open>TaskControlBlockInner::get_trap_cx\<close>); it is 37 machine words in a row, in the order of the fields. The field \<^verbatim>\<open>x\<close> is \<open>regs\<close>.
\<close>

record TrapContext =
  regs :: "usize list"
  sstatus :: usize
  sepc :: usize
  kernel_satp :: usize
  kernel_sp :: usize
  trap_handler :: usize

definition set_sp :: "usize \<Rightarrow> TrapContext \<Rightarrow> TrapContext" where
  "set_sp sp cx = cx\<lparr>regs := (regs cx)[2 := sp]\<rparr>"

text \<open>
  \<^verbatim>\<open>app_init_context\<close>. \<open>user_sstatus\<close> is the value of the register after \<^verbatim>\<open>set_spp(SPP::User)\<close>, which the
  crate \<^verbatim>\<open>riscv\<close> computes.
\<close>

definition app_init_context :: "usize \<Rightarrow> usize \<Rightarrow> usize \<Rightarrow> usize \<Rightarrow> usize \<Rightarrow> usize \<Rightarrow> TrapContext" where
  "app_init_context user_sstatus entry sp satp ksp handler =
     set_sp sp \<lparr>regs = replicate 32 0, sstatus = user_sstatus, sepc = entry, kernel_satp = satp,
                kernel_sp = ksp, trap_handler = handler\<rparr>"

record TaskContext =
  tcx_ra :: usize
  tcx_sp :: usize
  s_regs :: "usize list"

definition TaskContext_zero_init :: TaskContext where
  "TaskContext_zero_init = \<lparr>tcx_ra = 0, tcx_sp = 0, s_regs = replicate 12 0\<rparr>"

text \<open>\<open>trap_return\<close> is the address of the function of that name.\<close>

definition goto_trap_return :: "usize \<Rightarrow> usize \<Rightarrow> TaskContext" where
  "goto_trap_return trap_return kstack_ptr = \<lparr>tcx_ra = trap_return, tcx_sp = kstack_ptr, s_regs = replicate 12 0\<rparr>"

section \<open>The trap context in memory\<close>

definition cx_words :: "TrapContext \<Rightarrow> u64 list" where
  "cx_words cx = regs cx @ [sstatus cx, sepc cx, kernel_satp cx, kernel_sp cx, trap_handler cx]"

definition load_words :: "phys_mem \<Rightarrow> usize \<Rightarrow> nat \<Rightarrow> u64 list" where
  "load_words m a n = map (\<lambda>i. load_u64 m (a + 8 * of_nat i)) [0..<n]"

fun store_words :: "phys_mem \<Rightarrow> usize \<Rightarrow> u64 list \<Rightarrow> phys_mem" where
  "store_words m a [] = m"
| "store_words m a (w # ws) = store_words (store_u64 m a w) (a + 8) ws"

definition load_trap_cx :: "phys_mem \<Rightarrow> PhysPageNum \<Rightarrow> TrapContext" where
  "load_trap_cx m p =
     (let ws = load_words m (page_base p) 37
      in \<lparr>regs = take 32 ws, sstatus = ws ! 32, sepc = ws ! 33, kernel_satp = ws ! 34, kernel_sp = ws ! 35,
          trap_handler = ws ! 36\<rparr>)"

definition store_trap_cx :: "phys_mem \<Rightarrow> PhysPageNum \<Rightarrow> TrapContext \<Rightarrow> phys_mem" where
  "store_trap_cx m p cx = store_words m (page_base p) (cx_words cx)"

lemma store_words_other:
  "\<lbrakk>length ws < 2 ^ 32; \<And>i k. i < length ws \<Longrightarrow> k < 8 \<Longrightarrow> y \<noteq> a + 8 * of_nat i + of_nat k\<rbrakk> \<Longrightarrow> store_words m a ws y = m y"
proof (induction ws arbitrary: m a)
  case (Cons w ws)
  have "store_words (store_u64 m a w) (a + 8) ws y = store_u64 m a w y"
  proof (rule Cons.IH)
    fix i k :: nat assume "i < length ws" "k < 8"
    with Cons.prems(2) [of "Suc i" k] show "y \<noteq> a + 8 + 8 * of_nat i + of_nat k"
      by (simp add: algebra_simps)
  qed (use Cons.prems(1) in simp)
  also have "\<dots> = m y"
  proof -
    have "\<not> unat (y - a) < 8"
    proof
      assume "unat (y - a) < 8"
      with Cons.prems(2) [of 0 "unat (y - a)"] show False by simp
    qed
    then show ?thesis by (simp add: store_u64_def Let_def)
  qed
  finally show ?case by simp
qed simp

lemma unat_8_times:
  assumes "i < 2 ^ 32" and "k < 8"
  shows "unat (8 * of_nat i + of_nat k :: usize) = 8 * i + k"
proof -
  have "8 * of_nat i + of_nat k = (of_nat (8 * i + k) :: usize)" by simp
  moreover have "8 * i + k < 2 ^ 64" using assms by simp
  ultimately show ?thesis by (metis unat_of_nat_64)
qed

lemma load_store_words:
  assumes "i < length ws" and "length ws < 2 ^ 32"
  shows "load_u64 (store_words m a ws) (a + 8 * of_nat i) = ws ! i"
  using assms
proof (induction ws arbitrary: m a i)
  case (Cons w ws)
  show ?case
  proof (cases i)
    case 0
    have "load_u64 (store_words (store_u64 m a w) (a + 8) ws) a = load_u64 (store_u64 m a w) a"
    proof (rule load_u64_cong)
      fix k :: nat assume k: "k < 8"
      show "store_words (store_u64 m a w) (a + 8) ws (a + of_nat k) = store_u64 m a w (a + of_nat k)"
      proof (rule store_words_other)
        fix j k' :: nat assume j: "j < length ws" "k' < 8"
        then have jl: "Suc j < 2 ^ 32" using Cons.prems(2) by simp
        show "a + of_nat k \<noteq> a + 8 + 8 * of_nat j + of_nat k'"
        proof
          assume "a + of_nat k = a + 8 + 8 * of_nat j + of_nat k'"
          then have "(of_nat k :: usize) = 8 * of_nat (Suc j) + of_nat k'" by (simp add: algebra_simps)
          then have "unat (of_nat k :: usize) = 8 * Suc j + k'" using unat_8_times [OF jl j(2)] by simp
          moreover have "unat (of_nat k :: usize) = k" using k by (intro unat_of_nat_64) simp
          ultimately show False using k by simp
        qed
      qed (use Cons.prems(2) in simp)
    qed
    then show ?thesis using 0 by simp
  next
    case (Suc j)
    with Cons.IH [of j "store_u64 m a w" "a + 8"] Cons.prems show ?thesis by (simp add: algebra_simps)
  qed
qed simp

lemma load_words_store: "\<lbrakk>length ws = n; n < 2 ^ 32\<rbrakk> \<Longrightarrow> load_words (store_words m a ws) a n = ws"
  by (rule nth_equalityI) (auto simp: load_words_def load_store_words)

text \<open>What is stored is what is loaded, and only the first 296 bytes of the page change.\<close>

lemma load_store_trap_cx:
  assumes "length (regs cx) = 32"
  shows "load_trap_cx (store_trap_cx m p cx) p = cx"
proof -
  have "load_words (store_trap_cx m p cx) (page_base p) 37 = cx_words cx"
    unfolding store_trap_cx_def by (rule load_words_store) (simp_all add: cx_words_def assms)
  then show ?thesis by (simp add: load_trap_cx_def Let_def cx_words_def assms nth_append)
qed

lemma store_trap_cx_outside:
  assumes "ppn_ok p" and "length (regs cx) = 32" and "\<not> in_page p y"
  shows "store_trap_cx m p cx y = m y"
  unfolding store_trap_cx_def
proof (rule store_words_other)
  show "length (cx_words cx) < 2 ^ 32" by (simp add: cx_words_def assms(2))
  fix i k :: nat assume i: "i < length (cx_words cx)" "k < 8"
  then have "8 * i + k < 4096" by (simp add: cx_words_def assms(2))
  then have "in_page p (page_base p + of_nat (8 * i + k))" by (rule in_page_offset [OF assms(1)])
  with assms(3) show "y \<noteq> page_base p + 8 * of_nat i + of_nat k" by (auto simp: add.assoc)
qed

lemma length_load_trap_cx [simp]: "length (regs (load_trap_cx m p)) = 32"
  by (simp add: load_trap_cx_def Let_def load_words_def)

end
