(* ===== verification/Signal.thy ===== *)
theory Signal
  imports Scheduler TrapContext
begin

text \<open>
  \<^verbatim>\<open>os/src/task/signal.rs\<close>, \<^verbatim>\<open>os/src/task/action.rs\<close> and the delivery of signals in
  \<^verbatim>\<open>os/src/task/mod.rs\<close>. What delivery reads and writes of a task is the record \<open>signal_info\<close>, which the
  task control block extends; beside it the functions take the trap context of the task.
\<close>

section \<open>Signals\<close>

definition MAX_SIG :: nat where "MAX_SIG = 31"

type_synonym SignalFlags = u32

definition sig_bit :: "nat \<Rightarrow> SignalFlags" where
  "sig_bit n = push_bit n 1"

definition SIGDEF :: SignalFlags where "SIGDEF = sig_bit 0"
definition SIGINT :: SignalFlags where "SIGINT = sig_bit 2"
definition SIGILL :: SignalFlags where "SIGILL = sig_bit 4"
definition SIGABRT :: SignalFlags where "SIGABRT = sig_bit 6"
definition SIGFPE :: SignalFlags where "SIGFPE = sig_bit 8"
definition SIGKILL :: SignalFlags where "SIGKILL = sig_bit 9"
definition SIGSEGV :: SignalFlags where "SIGSEGV = sig_bit 11"
definition SIGCONT :: SignalFlags where "SIGCONT = sig_bit 18"
definition SIGSTOP :: SignalFlags where "SIGSTOP = sig_bit 19"

lemmas sig_defs = SIGDEF_def SIGINT_def SIGILL_def SIGABRT_def SIGFPE_def SIGKILL_def SIGSEGV_def
  SIGCONT_def SIGSTOP_def

text \<open>
  \<^verbatim>\<open>bitflags\<close>: \<^verbatim>\<open>contains\<close>, and \<^verbatim>\<open>from_bits\<close>, which here accepts every value, since every bit is a signal.
\<close>

definition sf_contains :: "SignalFlags \<Rightarrow> SignalFlags \<Rightarrow> bool" where
  "sf_contains s f = (s AND f = f)"

definition sf_from_bits :: "u32 \<Rightarrow> SignalFlags option" where
  "sf_from_bits b = (if b AND (- 1) = b then Some b else None)"

definition check_error :: "SignalFlags \<Rightarrow> (int \<times> string) option" where
  "check_error s =
     (if sf_contains s SIGINT then Some (-2, ''Killed, SIGINT=2'')
      else if sf_contains s SIGILL then Some (-4, ''Illegal Instruction, SIGILL=4'')
      else if sf_contains s SIGABRT then Some (-6, ''Aborted, SIGABRT=6'')
      else if sf_contains s SIGFPE then Some (-8, ''Erroneous Arithmetic Operation, SIGFPE=8'')
      else if sf_contains s SIGKILL then Some (-9, ''Killed, SIGKILL=9'')
      else if sf_contains s SIGSEGV then Some (-11, ''Segmentation Fault, SIGSEGV=11'')
      else None)"

record SignalAction =
  handler :: usize
  mask_of :: SignalFlags

definition SignalAction_default :: SignalAction where
  "SignalAction_default = \<lparr>handler = 0, mask_of = 40\<rparr>"

type_synonym SignalActions = "SignalAction list"

definition SignalActions_default :: SignalActions where
  "SignalActions_default = replicate (MAX_SIG + 1) SignalAction_default"

section \<open>Delivery\<close>

record signal_info = sched_info +
  signals :: SignalFlags
  signal_mask :: SignalFlags
  handling_sig :: int
  signal_actions :: SignalActions
  killed :: bool
  frozen :: bool
  trap_ctx_backup :: "TrapContext option"

type_synonym 'a sig_state = "'a signal_info_scheme \<times> TrapContext"

definition call_kernel_signal_handler :: "SignalFlags \<Rightarrow> 'a sig_state \<Rightarrow> 'a sig_state" where
  "call_kernel_signal_handler signal st = (case st of (t, cx) \<Rightarrow>
     (if signal = SIGSTOP then t\<lparr>frozen := True, signals := signals t XOR SIGSTOP\<rparr>
      else if signal = SIGCONT then
        (if sf_contains (signals t) SIGCONT then t\<lparr>signals := signals t XOR SIGCONT, frozen := False\<rparr> else t)
      else t\<lparr>killed := True\<rparr>, cx))"

definition call_user_signal_handler :: "nat \<Rightarrow> SignalFlags \<Rightarrow> 'a sig_state \<Rightarrow> 'a sig_state" where
  "call_user_signal_handler sig signal st = (case st of (t, cx) \<Rightarrow>
     let h = handler (signal_actions t ! sig) in
     if h \<noteq> 0 then
       (t\<lparr>signal_mask := mask_of (signal_actions t ! sig), handling_sig := int sig,
          signals := signals t XOR signal, trap_ctx_backup := Some cx\<rparr>,
        cx\<lparr>sepc := h, regs := (regs cx)[10 := of_nat sig]\<rparr>)
     else (t, cx))"

definition is_kernel_signal :: "SignalFlags \<Rightarrow> bool" where
  "is_kernel_signal s = (s = SIGKILL \<or> s = SIGSTOP \<or> s = SIGCONT \<or> s = SIGDEF)"

text \<open>
  Whether the signal is to be handled now: it is pending, not masked, and not masked by the action
  that is being handled (\<^verbatim>\<open>table[handling_sig as usize]\<close>, which panics out of range).
\<close>

definition to_handle :: "SignalFlags \<Rightarrow> 'a signal_info_scheme \<Rightarrow> bool res" where
  "to_handle signal t =
     (if sf_contains (signals t) signal \<and> \<not> sf_contains (signal_mask t) signal then
        if handling_sig t = -1 then Ok True
        else if 0 \<le> handling_sig t \<and> nat (handling_sig t) < length (signal_actions t)
        then Ok (\<not> sf_contains (mask_of (signal_actions t ! nat (handling_sig t))) signal)
        else Panic OutOfBounds
      else Ok False)"

text \<open>The loop of \<^verbatim>\<open>check_pending_signals\<close> from signal \<open>sig\<close> on; it stops after a user signal.\<close>

function pending_loop :: "nat \<Rightarrow> 'a sig_state \<Rightarrow> 'a sig_state res" where
  "pending_loop sig st =
     (if MAX_SIG < sig then Ok st
      else bind_res (to_handle (sig_bit sig) (fst st)) (\<lambda>b.
        if \<not> b then pending_loop (sig + 1) st
        else if is_kernel_signal (sig_bit sig) then
          pending_loop (sig + 1) (call_kernel_signal_handler (sig_bit sig) st)
        else Ok (call_user_signal_handler sig (sig_bit sig) st)))"
  by pat_completeness auto
termination
  by (relation "measure (\<lambda>(sig, st). Suc MAX_SIG - sig)") auto

declare pending_loop.simps [simp del]

definition check_pending_signals :: "'a sig_state \<Rightarrow> 'a sig_state res" where
  "check_pending_signals st = pending_loop 0 st"

text \<open>
  \<^verbatim>\<open>handle_signals\<close>: after the first check, each round of the loop ends it, or checks again and gives
  up the processor. \<open>handle_signals_round\<close> is \<open>Inl st\<close> when the loop ends and \<open>Inr st\<close> at the call of
  \<^verbatim>\<open>suspend_current_and_run_next\<close>.
\<close>

definition handle_signals_round :: "'a sig_state \<Rightarrow> ('a sig_state + 'a sig_state) res" where
  "handle_signals_round st =
     (if \<not> frozen (fst st) \<or> killed (fst st) then Ok (Inl st)
      else bind_res (check_pending_signals st) (\<lambda>st. Ok (Inr st)))"

section \<open>System calls on signals\<close>

text \<open>
  \<^verbatim>\<open>sys_kill\<close> on the task it found. \<open>signum\<close> is an \<^verbatim>\<open>i32\<close>; in release mode the shift \<^verbatim>\<open>1 << signum\<close> uses the
  low five bits of \<open>signum\<close>.
\<close>

definition shift_one :: "32 word \<Rightarrow> u32" where
  "shift_one signum = push_bit (unat (signum AND 31)) 1"

definition kill_task :: "32 word \<Rightarrow> 'a signal_info_scheme \<Rightarrow> int \<times> 'a signal_info_scheme" where
  "kill_task signum t =
     (case sf_from_bits (shift_one signum) of
        Some flag \<Rightarrow>
          if sf_contains (signals t) flag then (-1, t) else (0, t\<lparr>signals := signals t OR flag\<rparr>)
      | None \<Rightarrow> (-1, t))"

definition sys_sigprocmask :: "u32 \<Rightarrow> 'a signal_info_scheme \<Rightarrow> int \<times> 'a signal_info_scheme" where
  "sys_sigprocmask new_mask t =
     (case sf_from_bits new_mask of
        Some flag \<Rightarrow> (uint (signal_mask t), t\<lparr>signal_mask := flag\<rparr>)
      | None \<Rightarrow> (-1, t))"

text \<open>
  \<^verbatim>\<open>sys_sigretrun\<close> itself. The trap handler then stores its result in \<^verbatim>\<open>x[10]\<close> of the context that has just been
  restored (\<open>finish_call\<close> in \<^verbatim>\<open>Trap\<close>).
\<close>

definition sys_sigreturn :: "'a sig_state \<Rightarrow> (int \<times> 'a sig_state) res" where
  "sys_sigreturn st = (case st of (t, cx) \<Rightarrow>
     let t = t\<lparr>handling_sig := -1\<rparr> in
     bind_res (unwrap (trap_ctx_backup t)) (\<lambda>backup. Ok (0, t, backup)))"

definition check_sigaction_error :: "SignalFlags \<Rightarrow> usize \<Rightarrow> usize \<Rightarrow> bool" where
  "check_sigaction_error signal action old_action =
     (action = 0 \<or> old_action = 0 \<or> signal = SIGKILL \<or> signal = SIGSTOP)"

section \<open>Facts on flags\<close>

lemma sf_from_bits_Some [simp]: "sf_from_bits b = Some b"
  by (simp add: sf_from_bits_def)

lemma bit_sig_bit: "bit (sig_bit n) k \<longleftrightarrow> k = n \<and> n < 32"
  by (auto simp: sig_bit_def bit_simps)

lemma sf_contains_sig_bit: "n < 32 \<Longrightarrow> sf_contains s (sig_bit n) \<longleftrightarrow> bit s n"
  unfolding sf_contains_def
proof
  assume "n < 32" and "s AND sig_bit n = sig_bit n"
  then show "bit s n" by (metis bit_and_iff bit_sig_bit)
next
  assume "n < 32" and "bit s n"
  then show "s AND sig_bit n = sig_bit n" by (intro bit_word_eqI) (auto simp: bit_and_iff bit_sig_bit)
qed

lemma sig_bit_inj: "\<lbrakk>n < 32; sig_bit n = sig_bit m\<rbrakk> \<Longrightarrow> n = m"
  by (metis bit_sig_bit)

lemma bit_xor_sig_bit: "bit (s XOR sig_bit n) k \<longleftrightarrow> (if k = n \<and> n < 32 then \<not> bit s k else bit s k)"
  by (auto simp: bit_xor_iff bit_sig_bit)

lemma is_kernel_sig_bit: "n < 32 \<Longrightarrow> is_kernel_signal (sig_bit n) \<longleftrightarrow> n \<in> {0, 9, 18, 19}"
  by (auto simp: is_kernel_signal_def sig_defs dest: sig_bit_inj)

section \<open>What delivery does\<close>

text \<open>The signals that are to be handled, when no handler is running.\<close>

definition deliverable :: "'a signal_info_scheme \<Rightarrow> nat set" where
  "deliverable t = {n. n \<le> MAX_SIG \<and> bit (signals t) n \<and> \<not> bit (signal_mask t) n}"

lemma to_handle_idle:
  assumes "handling_sig t = -1" and "n \<le> MAX_SIG"
  shows "to_handle (sig_bit n) t = Ok (n \<in> deliverable t)"
  using assms by (auto simp: to_handle_def deliverable_def MAX_SIG_def sf_contains_sig_bit)

lemma pending_loop_skip:
  assumes "handling_sig (fst st) = -1" and "sig \<le> n" and "n \<le> Suc MAX_SIG"
    and "\<forall>k \<in> deliverable (fst st). sig \<le> k \<longrightarrow> n \<le> k"
  shows "pending_loop sig st = pending_loop n st"
  using assms
proof (induction "n - sig" arbitrary: sig)
  case (Suc d)
  then have lt: "sig < n" "sig \<le> MAX_SIG" by auto
  then have "sig \<notin> deliverable (fst st)" using Suc.prems(4) by auto
  then have "pending_loop sig st = pending_loop (sig + 1) st"
    using lt Suc.prems(1) by (subst pending_loop.simps) (simp add: to_handle_idle)
  also have "\<dots> = pending_loop n st" using Suc lt by (intro Suc.hyps(1)) auto
  finally show ?case .
qed simp

text \<open>
  When the least deliverable signal is a user signal, its handler is called and nothing else happens.
\<close>

lemma check_pending_user:
  assumes idle: "handling_sig t = -1" and n: "n \<in> deliverable t" "n \<notin> {0, 9, 18, 19}"
    and least: "\<forall>k \<in> deliverable t. n \<le> k"
  shows "check_pending_signals (t, cx) = Ok (call_user_signal_handler n (sig_bit n) (t, cx))"
proof -
  have le: "n \<le> MAX_SIG" "n < 32" using n(1) by (auto simp: deliverable_def MAX_SIG_def)
  have "pending_loop 0 (t, cx) = pending_loop n (t, cx)"
    by (rule pending_loop_skip) (use idle least le in auto)
  also have "\<dots> = Ok (call_user_signal_handler n (sig_bit n) (t, cx))"
    using le n idle by (subst pending_loop.simps) (simp add: to_handle_idle is_kernel_sig_bit)
  finally show ?thesis by (simp add: check_pending_signals_def)
qed

lemma check_pending_none:
  assumes idle: "handling_sig t = -1" and none: "deliverable t = {}"
  shows "check_pending_signals (t, cx) = Ok (t, cx)"
proof -
  have "pending_loop 0 (t, cx) = pending_loop (Suc MAX_SIG) (t, cx)"
    by (rule pending_loop_skip) (use idle none in auto)
  then show ?thesis by (simp add: check_pending_signals_def pending_loop.simps [of "Suc MAX_SIG"])
qed

text \<open>Delivery never panics on a task whose table and current handler are in range.\<close>

definition sig_ok :: "'a signal_info_scheme \<Rightarrow> bool" where
  "sig_ok t = (length (signal_actions t) = MAX_SIG + 1 \<and> -1 \<le> handling_sig t \<and> handling_sig t \<le> int MAX_SIG)"

lemma call_kernel_sig_ok: "sig_ok (fst st) \<Longrightarrow> sig_ok (fst (call_kernel_signal_handler s st))"
  by (auto simp: call_kernel_signal_handler_def sig_ok_def split: prod.splits)

lemma call_user_sig_ok: "\<lbrakk>sig_ok (fst st); sig \<le> MAX_SIG\<rbrakk> \<Longrightarrow> sig_ok (fst (call_user_signal_handler sig s st))"
  by (auto simp: call_user_signal_handler_def sig_ok_def Let_def split: prod.splits)

lemma to_handle_total: "sig_ok t \<Longrightarrow> \<exists>b. to_handle s t = Ok b"
  by (auto simp: to_handle_def sig_ok_def MAX_SIG_def)

lemma pending_loop_total: "sig_ok (fst st) \<Longrightarrow> \<exists>st'. pending_loop sig st = Ok st' \<and> sig_ok (fst st')"
proof (induction sig st rule: pending_loop.induct)
  case (1 sig st)
  show ?case
  proof (cases "MAX_SIG < sig")
    case True
    with 1(3) show ?thesis by (simp add: pending_loop.simps [of sig])
  next
    case False
    obtain b where b: "to_handle (sig_bit sig) (fst st) = Ok b" using to_handle_total [OF 1(3)] by blast
    show ?thesis
      using 1(1,2) [OF False b] 1(3) False b call_kernel_sig_ok [OF 1(3)]
        call_user_sig_ok [OF 1(3), of sig "sig_bit sig"]
      by (cases "call_user_signal_handler sig (sig_bit sig) st") (auto simp: pending_loop.simps [of sig])
  qed
qed

end
