(* ===== verification/TaskProperties.thy ===== *)
theory TaskProperties
  imports SchedRun Pid Pipe Signal
begin

text \<open>
  The properties of scheduling, process identifiers, pipes, and nested signal handlers.
\<close>

section \<open>Scheduling\<close>

text \<open>
  C8: In every run of the scheduler, with any priorities of at least 2, forks and exits, the manager
  gives out a ready task that is not ahead of any other ready task: on the circle of \<^verbatim>\<open>usize\<close> the pass of
  every other ready task is at most half a turn ahead of its pass. So the order of passes survives
  their wrap-around. When no task is ready, it gives out none.
\<close>

theorem stride_fair:
  assumes "sched_run tm tasks None"
  shows "if dom (ready_queue tm) = {} then tm_fetch tm = (None, tm)
    else \<exists>pid t tm'. tm_fetch tm = (Some pid, tm') \<and> pid \<in> dom (ready_queue tm) \<and> tasks pid = Some t \<and>
      dom (ready_queue tm') = dom (ready_queue tm) - {pid} \<and>
      (\<forall>pid' \<in> dom (ready_queue tm). \<exists>t'. tasks pid' = Some t' \<and> unat (pass t' - pass t) < 2 ^ 63)"
proof -
  obtain base where inv: "sched_inv base tm tasks None" using sched_run_inv [OF assms] by blast
  note d = sched_invD [OF inv]
  show ?thesis
  proof (cases "dom (ready_queue tm) = {}")
    case True
    then show ?thesis using tm_fetch_None [OF d(1)] by simp
  next
    case False
    from tm_fetch_spec [OF d(1) False] obtain pid q tm' where f: "tm_fetch tm = (Some pid, tm')"
      "tm_pass tm pid = Some q" "ready_queue tm' = (ready_queue tm)(pid := None)"
      "\<forall>x r. tm_pass tm x = Some r \<longrightarrow> unat (q - base) \<le> unat (r - base)" by blast
    obtain t where t: "tasks pid = Some t" "pass t = q" using d(3) [OF f(2)] by blast
    have "\<exists>t'. tasks x = Some t' \<and> unat (pass t' - pass t) < 2 ^ 63" if x: "x \<in> dom (ready_queue tm)" for x
    proof -
      obtain r where r: "tm_pass tm x = Some r" using x unfolding dom_tm_pass [OF d(1), symmetric] by (auto dest: domD)
      then obtain t' where t': "tasks x = Some t'" "pass t' = r" using d(3) by blast
      have "unat (r - q) = unat (r - base) - unat (q - base)"
        using spec [OF spec [OF f(4)], of x r] r tm_pass_window [OF d(1) r] by (intro circle_diff) blast+
      also have "\<dots> < 2 ^ 63" using tm_pass_window [OF d(1) r] by simp
      finally show ?thesis using t' t(2) by blast
    qed
    moreover have "pid \<in> dom (ready_queue tm)" using f(2) unfolding dom_tm_pass [OF d(1), symmetric] by (rule domI)
    ultimately show ?thesis using False f(1,3) t(1) by auto
  qed
qed

lemma sched_run_example:
  "sched_run (TaskManager_new\<lparr>scheduler := \<lparr>queue = [Stride_new 1 (BIG_STRIDE div 16)]\<rparr>, ready_queue := [1 \<mapsto> 1]\<rparr>)
    [1 \<mapsto> \<lparr>priority = 16, pass = BIG_STRIDE div 16\<rparr>] None"
  by (rule sched_run.boot [where t = "\<lparr>priority = 16, pass = 0\<rparr>"])
    (simp_all add: tm_add_def TaskManager_new_def StrideScheduler_new_def insert_task_def heap_push_def
      sift_up.simps [of _ 0] BIG_STRIDE_def)

theorem stride_fair_witness:
  "let tm = TaskManager_new\<lparr>scheduler := \<lparr>queue = [Stride_new 1 (BIG_STRIDE div 16)]\<rparr>, ready_queue := [1 \<mapsto> 1]\<rparr> in
   \<exists>t tm'. tm_fetch tm = (Some 1, tm') \<and> dom (ready_queue tm') = {} \<and>
     [1 \<mapsto> \<lparr>priority = 16, pass = BIG_STRIDE div 16\<rparr>] 1 = Some (t :: sched_info)"
  using stride_fair [OF sched_run_example] by (auto simp: TaskManager_new_def)

section \<open>Process identifiers and kernel stacks\<close>

text \<open>
  C27: Along every sequence of allocations of process identifiers and drops of live handles, from the
  initial allocator, no call panics, the live identifiers are distinct, and for any two of them
  below \<open>2 ^ 50\<close> the kernel stacks are apart with at least one page between them.
\<close>

theorem live_kernel_stacks_apart:
  "\<exists>a live. serve_all pid_alloc_opt pid_dealloc requests (PidAllocator_new, []) = Ok (a, live) \<and>
     distinct live \<and> set live = pid_used a \<and>
     (\<forall>p \<in> set live. \<forall>q \<in> set live. p \<noteq> q \<and> unat p < 2 ^ 50 \<and> unat q < 2 ^ 50 \<longrightarrow>
        unat (snd (kernel_stack_position q)) + 4096 \<le> unat (fst (kernel_stack_position p)) \<or>
        unat (snd (kernel_stack_position p)) + 4096 \<le> unat (fst (kernel_stack_position q)))"
proof -
  have "pids.agrees (PidAllocator_new, [])"
    by (auto simp: pids.agrees_def pid_inv_def pid_used_def PidAllocator_new_def)
  from pids.serve_all_agrees [OF this, of requests] obtain c where
    c: "serve_all pid_alloc_opt pid_dealloc requests (PidAllocator_new, []) = Ok c" "pids.agrees c" by blast
  have "p \<noteq> q \<Longrightarrow> unat p < unat q \<or> unat q < unat p" for p q :: usize by (metis nat_neq_iff word_unat_eq_iff)
  with c kernel_stacks_apart show ?thesis by (cases c) (auto simp: pids.agrees_def; blast)
qed

theorem live_kernel_stacks_apart_witness:
  "\<exists>a live. serve_all pid_alloc_opt pid_dealloc [Request_alloc, Request_alloc, Request_drop 0, Request_alloc]
     (PidAllocator_new, []) = Ok (a, live) \<and> distinct live"
  using live_kernel_stacks_apart [of "[Request_alloc, Request_alloc, Request_drop 0, Request_alloc]"] by blast

section \<open>Pipes\<close>

text \<open>
  C9: However the rounds of readers and writers of a pipe interleave, and however its write ends come
  and go, the bytes received are those sent, in the order they were sent and without loss: what was
  sent is what was received followed by what is in the ring buffer, at most 32 bytes.
\<close>

theorem pipe_fifo:
  assumes "pipe_run rb sent received"
  shows "sent = received @ rb_contents rb \<and> length (rb_contents rb) \<le> RING_BUFFER_SIZE"
  using pipe_run_fifo [OF assms] ring.bounded [of rb] by (auto simp: RING_BUFFER_SIZE_def)

text \<open>A run in which a writer sends two bytes and a reader takes one.\<close>

definition example_writer :: pipe_call where
  "example_writer = \<lparr>buf_iter = [0, 1], moved = 0, ring = set_write_end 1 PipeRingBuffer_new, user_mem = (\<lambda>a. if a = 0 then 7 else 9)\<rparr>"

definition example_reader :: "PipeRingBuffer \<Rightarrow> pipe_call" where
  "example_reader rb = \<lparr>buf_iter = [5], moved = 0, ring = rb, user_mem = (\<lambda>_. 0)\<rparr>"

lemmas pipe_eval = example_writer_def example_reader_def set_write_end_def PipeRingBuffer_new_def write_round_def
  read_round_def Let_def available_write_def available_read_def write_byte_def read_byte_def RING_BUFFER_SIZE_def
  yielded_def

lemma pipe_run_example: "\<exists>rb. pipe_run rb [7, 9] [7]"
proof -
  obtain r st where w: "write_round example_writer = Ok (r, st)"
    and st: "map (user_mem example_writer) (yielded example_writer st) = [7, 9]"
    "rb_contents (ring st) = [7, 9]" "rb_inv (ring st)"
    using write_round_spec [of example_writer] write_round_moves [of example_writer] rb_inv_new [of "Some 1"]
    by (fastforce simp: example_writer_def set_write_end_def yielded_def)
  have one: "pipe_run (ring st) [7, 9] []"
    using pipe_run.writer [OF pipe_run.start, of example_writer r st] w st(1) by (simp add: example_writer_def)
  obtain r' st' where "read_round (example_reader (ring st)) = Ok (r', st')"
    "map (user_mem st') (yielded (example_reader (ring st)) st') = [7]"
    using read_round_spec [of "example_reader (ring st)"] st(2,3)
    by (fastforce simp: example_reader_def yielded_def)
  then have "pipe_run (ring st') [7, 9] [7]"
    using pipe_run.reader [OF one, of "example_reader (ring st)" r' st'] by (simp add: example_reader_def)
  then show ?thesis ..
qed

theorem pipe_fifo_witness: "\<exists>rb. pipe_run rb [7, 9] [7] \<and> rb_contents rb = [9]"
proof -
  obtain rb where "pipe_run rb [7, 9] [7]" using pipe_run_example by blast
  with pipe_fifo [OF this] show ?thesis by auto
qed

text \<open>
  C33: A call of \<^verbatim>\<open>read\<close> whose buffer is exactly as long as what the pipe holds gets all these bytes in
  its first round, but does not return: the loop looks at the pipe again before it looks at the
  buffer, finds it empty and, as long as a write end is open, gives up the processor. In the same way
  a call of \<^verbatim>\<open>write\<close> that fills the pipe exactly has written everything and waits all the same.
\<close>

theorem pipe_exact_transfer_waits:
  assumes "rb_inv (ring st)" and "write_end (ring st) = Some ends" and "0 < ends"
  shows "(rb_contents (ring st) \<noteq> [] \<and> length (buf_iter st) = length (rb_contents (ring st)) \<longrightarrow>
      (\<exists>st'. read_round st = Ok (Again, st') \<and> buf_iter st' = [] \<and>
         moved st' = moved st + of_nat (length (buf_iter st)) \<and> read_round st' = Ok (Suspend, st'))) \<and>
    (length (rb_contents (ring st)) < RING_BUFFER_SIZE \<and>
        length (buf_iter st) + length (rb_contents (ring st)) = RING_BUFFER_SIZE \<longrightarrow>
      (\<exists>st'. write_round st = Ok (Again, st') \<and> buf_iter st' = [] \<and>
         moved st' = moved st + of_nat (length (buf_iter st)) \<and> write_round st' = Ok (Suspend, st')))"
proof (intro conjI impI)
  assume r: "rb_contents (ring st) \<noteq> [] \<and> length (buf_iter st) = length (rb_contents (ring st))"
  then obtain st' where st': "read_round st = Ok (Again, st')" "rb_inv (ring st')" "rb_contents (ring st') = []"
    "write_end (ring st') = Some ends" "buf_iter st' = []" "moved st' = moved st + of_nat (length (buf_iter st))"
    using read_round_spec [OF assms(1)] assms(2) by auto
  then have "read_round st' = Ok (Suspend, st')"
    using read_round_spec [OF st'(2)] assms(3) by (simp add: all_write_ends_closed_def)
  with st' show "\<exists>st'. read_round st = Ok (Again, st') \<and> buf_iter st' = [] \<and>
         moved st' = moved st + of_nat (length (buf_iter st)) \<and> read_round st' = Ok (Suspend, st')" by blast
next
  assume w: "length (rb_contents (ring st)) < RING_BUFFER_SIZE \<and>
        length (buf_iter st) + length (rb_contents (ring st)) = RING_BUFFER_SIZE"
  then have k: "32 - length (rb_contents (ring st)) = length (buf_iter st)" "length (buf_iter st) \<noteq> 0"
    by (auto simp: RING_BUFFER_SIZE_def)
  with write_round_spec [OF assms(1)] obtain st' where st': "write_round st = Ok (Again, st')" "rb_inv (ring st')"
    "rb_contents (ring st') = rb_contents (ring st) @ map (user_mem st) (buf_iter st)" "buf_iter st' = []"
    "moved st' = moved st + of_nat (length (buf_iter st))" by auto
  then have "length (rb_contents (ring st')) = 32" using w by (simp add: RING_BUFFER_SIZE_def)
  then have "write_round st' = Ok (Suspend, st')" using write_round_spec [OF st'(2)] by simp
  with st' show "\<exists>st'. write_round st = Ok (Again, st') \<and> buf_iter st' = [] \<and>
         moved st' = moved st + of_nat (length (buf_iter st)) \<and> write_round st' = Ok (Suspend, st')" by blast
qed

definition example_full_write :: pipe_call where
  "example_full_write = \<lparr>buf_iter = map of_nat [0..<32], moved = 0, ring = set_write_end 1 PipeRingBuffer_new, user_mem = (\<lambda>_. 0)\<rparr>"

theorem pipe_exact_transfer_waits_witness:
  "\<exists>st'. write_round example_full_write = Ok (Again, st') \<and> moved st' = 32 \<and> write_round st' = Ok (Suspend, st')"
  using pipe_exact_transfer_waits [of example_full_write 1] rb_inv_new [of "Some 1"]
  by (auto simp: example_full_write_def set_write_end_def RING_BUFFER_SIZE_def)

section \<open>Signals\<close>

definition example_task :: "nat \<Rightarrow> usize \<Rightarrow> signal_info" where
  "example_task n h = \<lparr>priority = 16, pass = 0, signals = sig_bit n, signal_mask = 0, handling_sig = - 1,
     signal_actions = SignalActions_default[n := \<lparr>handler = h, mask_of = 0\<rparr>], killed = False, frozen = False,
     trap_ctx_backup = None\<rparr>"

definition example_cx :: TrapContext where
  "example_cx = app_init_context 0 0x1000 0x2000 0 0 0"

text \<open>
  A pending user signal without a handler blocks every signal with a higher number: delivery stops
  at it, changes nothing and leaves it pending, so all later deliveries do the same.
\<close>

theorem unhandled_signal_starves:
  assumes "handling_sig t = - 1" and "n \<in> deliverable t" and "n \<notin> {0, 9, 18, 19}" and "\<forall>k \<in> deliverable t. n \<le> k"
    and "handler (signal_actions t ! n) = 0"
  shows "check_pending_signals (t, cx) = Ok (t, cx)"
  using check_pending_user [OF assms(1-4), of cx] assms(5) by (simp add: call_user_signal_handler_def)

theorem unhandled_signal_starves_witness:
  "let t = (example_task 10 0x1234)\<lparr>signals := sig_bit 10 OR sig_bit 1\<rparr> in
   10 \<in> deliverable t \<and> check_pending_signals (t, example_cx) = Ok (t, example_cx)"
proof -
  let ?t = "(example_task 10 0x1234)\<lparr>signals := sig_bit 10 OR sig_bit 1\<rparr>"
  have d: "deliverable ?t = {1, 10}"
    by (auto simp: deliverable_def example_task_def bit_or_iff bit_sig_bit MAX_SIG_def)
  have "check_pending_signals (?t, example_cx) = Ok (?t, example_cx)"
  proof (rule unhandled_signal_starves [of _ 1])
    show "1 \<in> deliverable ?t" "\<forall>k \<in> deliverable ?t. 1 \<le> k" unfolding d by auto
  qed (simp_all add: example_task_def SignalActions_default_def SignalAction_default_def MAX_SIG_def)
  with d show ?thesis by simp
qed

text \<open>The loop passes over the signals that are not pending, also while a handler runs.\<close>

lemma pending_loop_not_pending:
  assumes "sig \<le> n" and "n \<le> Suc MAX_SIG" and "\<forall>k. sig \<le> k \<and> k < n \<longrightarrow> \<not> bit (signals (fst st)) k"
  shows "pending_loop sig st = pending_loop n st"
  using assms
proof (induction "n - sig" arbitrary: sig)
  case (Suc d)
  then have lt: "sig < n" "sig \<le> MAX_SIG" "sig < 32" by (auto simp: MAX_SIG_def)
  then have "to_handle (sig_bit sig) (fst st) = Ok False"
    using Suc.prems(3) by (simp add: to_handle_def sf_contains_sig_bit)
  then have "pending_loop sig st = pending_loop (sig + 1) st"
    using lt by (subst pending_loop.simps) simp
  also have "\<dots> = pending_loop n st" using Suc lt by (intro Suc.hyps(1)) auto
  finally show ?case .
qed simp

text \<open>
  C34: A signal that arrives while the handler of another signal runs, masked by neither mask, starts its
  own handler and overwrites the saved context: afterwards two calls of \<^verbatim>\<open>sigreturn\<close> both lead back into
  the first handler, and the context that the first handler interrupted is lost.
\<close>

theorem nested_handler_loses_context:
  assumes "handling_sig t = int n" and "n \<le> MAX_SIG" and "sig_ok t" and "trap_ctx_backup t = Some interrupted"
    and "m \<le> MAX_SIG" and "m \<notin> {0, 9, 18, 19}" and "signals t = sig_bit m"
    and "\<not> bit (signal_mask t) m" and "\<not> bit (mask_of (signal_actions t ! n)) m"
    and "handler (signal_actions t ! m) \<noteq> 0"
  shows "\<exists>t1 cx1. check_pending_signals (t, cx) = Ok (t1, cx1) \<and> trap_ctx_backup t1 = Some cx \<and>
    (\<forall>cx2 cx3. \<exists>t2 t3. sys_sigreturn (t1, cx2) = Ok (0, t2, cx) \<and> sys_sigreturn (t2, cx3) = Ok (0, t3, cx))"
proof -
  have m: "m < 32" using assms(5) by (simp add: MAX_SIG_def)
  have "pending_loop 0 (t, cx) = pending_loop m (t, cx)"
    using assms(5,7) by (intro pending_loop_not_pending) (auto simp: bit_sig_bit)
  moreover have "to_handle (sig_bit m) t = Ok True"
    using assms(1-3,7-9) m by (simp add: to_handle_def sf_contains_sig_bit bit_sig_bit sig_ok_def)
  ultimately have "check_pending_signals (t, cx) = Ok (call_user_signal_handler m (sig_bit m) (t, cx))"
    using assms(5,6) m
    by (simp add: check_pending_signals_def pending_loop.simps [of m] is_kernel_sig_bit)
  with assms(10) show ?thesis
    by (simp add: call_user_signal_handler_def Let_def sys_sigreturn_def)
qed

theorem nested_handler_loses_context_witness:
  "\<exists>t1 cx1. check_pending_signals
     ((example_task 12 0x4444)\<lparr>handling_sig := 10, trap_ctx_backup := Some example_cx\<rparr>, set_sp 0x77 example_cx) =
       Ok (t1, cx1) \<and> trap_ctx_backup t1 = Some (set_sp 0x77 example_cx)"
  using nested_handler_loses_context
    [of "(example_task 12 0x4444)\<lparr>handling_sig := 10, trap_ctx_backup := Some example_cx\<rparr>" 10 example_cx 12 "set_sp 0x77 example_cx"]
  by (auto simp: example_task_def SignalActions_default_def SignalAction_default_def MAX_SIG_def sig_ok_def bit_sig_bit bit_numeral_rec)

text \<open>
  \<^verbatim>\<open>sys_kill\<close> sends the signal whose number is \<open>signum\<close> modulo 32: it sets exactly that pending bit and
  returns 0, or, when the bit is set already, returns -1 and changes nothing. So numbers above 31
  are accepted and send another signal.
\<close>

theorem kill_task_correct:
  fixes t :: "'a signal_info_scheme" and signum :: "32 word"
  defines "n \<equiv> unat (signum AND 31)"
  shows "if bit (signals t) n then kill_task signum t = (- 1, t)
    else \<exists>t'. kill_task signum t = (0, t') \<and> t' = t\<lparr>signals := signals t'\<rparr> \<and>
      (\<forall>k. bit (signals t') k \<longleftrightarrow> k = n \<or> bit (signals t) k)"
proof -
  have "n < 32"
  proof -
    have "signum AND 31 = take_bit 5 signum" by (simp add: take_bit_eq_mask mask_eq_exp_minus_1)
    then show ?thesis using unat_take_bit [of 5 signum] by (simp add: n_def)
  qed
  moreover have "shift_one signum = sig_bit n" by (simp add: shift_one_def sig_bit_def n_def)
  ultimately show ?thesis
    by (auto simp: kill_task_def sf_contains_sig_bit bit_or_iff bit_sig_bit)
qed

theorem kill_task_correct_witness:
  "\<exists>t'. kill_task 33 (example_task 10 0) = (0, t') \<and> bit (signals t') 1"
  using kill_task_correct [of "example_task 10 0" 33] by (auto simp: example_task_def bit_sig_bit)

end
