(* ===== verification/BlockCache.thy ===== *)
theory BlockCache
  imports Prelude "HOL-Library.Multiset"
begin

text \<open>
  \<^verbatim>\<open>easy-fs/src/block_cache.rs\<close>: the write-back cache of 16 blocks between the file system and the block
  device. A \<^verbatim>\<open>BlockDevice\<close> (\<^verbatim>\<open>easy-fs/src/block_dev.rs\<close>) is a function from block ids to blocks; reading a
  block gives what was written last.
\<close>

section \<open>The cache\<close>

definition BLOCK_SZ :: nat where "BLOCK_SZ = 512"
definition BLOCK_CACHE_MAX_NUM :: nat where "BLOCK_CACHE_MAX_NUM = 16"

type_synonym block = "u8 list"
type_synonym device = "usize \<Rightarrow> block"

record BlockCache =
  bc_cache :: block
  bc_block_id :: usize
  bc_modified :: bool

definition BlockCache_new :: "usize \<Rightarrow> device \<Rightarrow> BlockCache" where
  "BlockCache_new block_id dev = \<lparr>bc_cache = dev block_id, bc_block_id = block_id, bc_modified = False\<rparr>"

text \<open>
  \<^verbatim>\<open>get_ref\<close> and \<^verbatim>\<open>get_mut\<close> give the bytes of a value of \<open>sz\<close> bytes at \<open>offset\<close>; writing through the
  mutable reference puts the bytes back.
\<close>

definition bc_get_ref :: "nat \<Rightarrow> nat \<Rightarrow> BlockCache \<Rightarrow> u8 list res" where
  "bc_get_ref offset sz c =
     bind_res (assert_that (offset + sz \<le> BLOCK_SZ)) (\<lambda>_. Ok (take sz (drop offset (bc_cache c))))"

definition patch :: "nat \<Rightarrow> u8 list \<Rightarrow> block \<Rightarrow> block" where
  "patch offset bytes b = take offset b @ bytes @ drop (offset + length bytes) b"

definition bc_modify :: "nat \<Rightarrow> u8 list \<Rightarrow> BlockCache \<Rightarrow> BlockCache res" where
  "bc_modify offset bytes c =
     bind_res (assert_that (offset + length bytes \<le> BLOCK_SZ)) (\<lambda>_.
     Ok (c\<lparr>bc_modified := True, bc_cache := patch offset bytes (bc_cache c)\<rparr>))"

definition bc_sync :: "BlockCache \<Rightarrow> device \<Rightarrow> BlockCache \<times> device" where
  "bc_sync c dev =
     (if bc_modified c then (c\<lparr>bc_modified := False\<rparr>, dev(bc_block_id c := bc_cache c)) else (c, dev))"

section \<open>The manager\<close>

record cache_state =
  cache_queue :: "(usize \<times> BlockCache) list"
  block_device :: device

text \<open>\<^verbatim>\<open>Vec::swap_remove\<close>: the last element takes the place of the removed one.\<close>

definition swap_remove :: "nat \<Rightarrow> 'a list \<Rightarrow> 'a list" where
  "swap_remove idx xs = (if idx < length xs - 1 then (butlast xs)[idx := last xs] else butlast xs)"

fun find_index :: "('a \<Rightarrow> bool) \<Rightarrow> 'a list \<Rightarrow> nat option" where
  "find_index P [] = None"
| "find_index P (y # ys) = (if P y then Some 0 else map_option Suc (find_index P ys))"

text \<open>
  \<^verbatim>\<open>get_block_cache\<close>: after it the block is in the queue. \<open>held\<close> are the blocks whose cache someone
  else holds (\<^verbatim>\<open>Arc::strong_count\<close> above one): they are not swapped out. A cache that is swapped out is
  dropped, and its \<^verbatim>\<open>Drop\<close> writes it back.
\<close>

definition get_block_cache :: "usize set \<Rightarrow> usize \<Rightarrow> cache_state \<Rightarrow> cache_state res" where
  "get_block_cache held block_id st =
     (if map_of (cache_queue st) block_id \<noteq> None then Ok st
      else
        bind_res
          (if length (cache_queue st) = BLOCK_CACHE_MAX_NUM then
             (case find_index (\<lambda>pair. fst pair \<notin> held) (cache_queue st) of
                Some idx \<Rightarrow>
                  Ok \<lparr>cache_queue = swap_remove idx (cache_queue st),
                      block_device = snd (bc_sync (snd (cache_queue st ! idx)) (block_device st))\<rparr>
              | None \<Rightarrow> Panic OutOfCaches)
           else Ok st) (\<lambda>st.
        Ok (st\<lparr>cache_queue := cache_queue st @ [(block_id, BlockCache_new block_id (block_device st))]\<rparr>)))"

fun update_first :: "usize \<Rightarrow> BlockCache \<Rightarrow> (usize \<times> BlockCache) list \<Rightarrow> (usize \<times> BlockCache) list" where
  "update_first k v [] = []"
| "update_first k v ((k', v') # ps) = (if k' = k then (k, v) # ps else (k', v') # update_first k v ps)"

text \<open>\<^verbatim>\<open>get_block_cache(id, ..).lock().read(offset, f)\<close>: the bytes that \<^verbatim>\<open>f\<close> sees.\<close>

definition cache_read :: "usize set \<Rightarrow> usize \<Rightarrow> nat \<Rightarrow> nat \<Rightarrow> cache_state \<Rightarrow> (u8 list \<times> cache_state) res" where
  "cache_read held block_id offset sz st =
     bind_res (get_block_cache held block_id st) (\<lambda>st.
     bind_res (bc_get_ref offset sz (the (map_of (cache_queue st) block_id))) (\<lambda>bytes.
     Ok (bytes, st)))"

text \<open>\<^verbatim>\<open>get_block_cache(id, ..).lock().modify(offset, f)\<close>, where \<^verbatim>\<open>f\<close> leaves \<open>bytes\<close>.\<close>

definition cache_modify :: "usize set \<Rightarrow> usize \<Rightarrow> nat \<Rightarrow> u8 list \<Rightarrow> cache_state \<Rightarrow> cache_state res" where
  "cache_modify held block_id offset bytes st =
     bind_res (get_block_cache held block_id st) (\<lambda>st.
     bind_res (bc_modify offset bytes (the (map_of (cache_queue st) block_id))) (\<lambda>c.
     Ok (st\<lparr>cache_queue := update_first block_id c (cache_queue st)\<rparr>)))"

fun sync_loop :: "(usize \<times> BlockCache) list \<Rightarrow> device \<Rightarrow> (usize \<times> BlockCache) list \<times> device" where
  "sync_loop [] dev = ([], dev)"
| "sync_loop ((k, c) # ps) dev =
     (case bc_sync c dev of (c', dev') \<Rightarrow> case sync_loop ps dev' of (ps', dev'') \<Rightarrow> ((k, c') # ps', dev''))"

definition block_cache_sync_all :: "cache_state \<Rightarrow> cache_state" where
  "block_cache_sync_all st =
     (case sync_loop (cache_queue st) (block_device st) of (q, dev) \<Rightarrow>
        \<lparr>cache_queue = q, block_device = dev\<rparr>)"

section \<open>What the file system sees\<close>

text \<open>A block is what the cache holds of it, or what the device holds when it is not cached.\<close>

definition view :: "cache_state \<Rightarrow> device" where
  "view st b = (case map_of (cache_queue st) b of Some c \<Rightarrow> bc_cache c | None \<Rightarrow> block_device st b)"

text \<open>
  The invariant: a block is cached at most once, under its own id, a cache that is not marked as
  modified agrees with the device, and there are at most 16 caches.
\<close>

definition cache_inv :: "cache_state \<Rightarrow> bool" where
  "cache_inv st =
     (distinct (map fst (cache_queue st)) \<and> length (cache_queue st) \<le> BLOCK_CACHE_MAX_NUM \<and>
      (\<forall>b. length (block_device st b) = BLOCK_SZ) \<and>
      (\<forall>(k, c) \<in> set (cache_queue st). bc_block_id c = k \<and> length (bc_cache c) = BLOCK_SZ \<and>
         (\<not> bc_modified c \<longrightarrow> bc_cache c = block_device st k)))"

lemma cache_invD:
  assumes "cache_inv st"
  shows "distinct (map fst (cache_queue st))" and "length (cache_queue st) \<le> BLOCK_CACHE_MAX_NUM"
    and "length (block_device st b) = BLOCK_SZ"
    and "(k, c) \<in> set (cache_queue st) \<Longrightarrow> bc_block_id c = k"
    and "(k, c) \<in> set (cache_queue st) \<Longrightarrow> length (bc_cache c) = BLOCK_SZ"
    and "\<lbrakk>(k, c) \<in> set (cache_queue st); \<not> bc_modified c\<rbrakk> \<Longrightarrow> bc_cache c = block_device st k"
  using assms by (auto simp: cache_inv_def)

lemma view_length: "cache_inv st \<Longrightarrow> length (view st b) = BLOCK_SZ"
  by (auto simp: view_def split: option.splits dest: map_of_SomeD cache_invD)

lemma find_index_Some: "find_index P xs = Some i \<Longrightarrow> i < length xs \<and> P (xs ! i)"
  by (induction xs arbitrary: i) (auto split: if_splits)

lemma find_index_None: "find_index P xs = None \<longleftrightarrow> (\<forall>y \<in> set xs. \<not> P y)"
  by (induction xs) auto

lemma swap_remove_mset:
  assumes "i < length xs"
  shows "mset xs = add_mset (xs ! i) (mset (swap_remove i xs))"
proof -
  have ne: "xs \<noteq> []" using assms by auto
  have bl: "mset xs = add_mset (last xs) (mset (butlast xs))"
    using ne by (subst append_butlast_last_id [symmetric]) (simp_all del: append_butlast_last_id)
  show ?thesis
  proof (cases "i < length xs - 1")
    case True
    then have i: "i < length (butlast xs)" by simp
    have "add_mset (butlast xs ! i) (mset ((butlast xs)[i := last xs])) =
        add_mset (last xs) (mset (butlast xs))"
      using i by (simp add: mset_update)
    moreover have "butlast xs ! i = xs ! i" using i by (rule nth_butlast)
    ultimately show ?thesis using bl True by (simp add: swap_remove_def)
  next
    case False
    then have "i = length xs - 1" using assms by simp
    then have "xs ! i = last xs" using ne by (simp add: last_conv_nth)
    with False bl show ?thesis by (simp add: swap_remove_def)
  qed
qed

lemma map_of_subset:
  assumes "distinct (map fst xs)" and "distinct (map fst ys)" and "set ys = set xs - {(k, v)}" and "(k, v) \<in> set xs"
  shows "map_of ys = (map_of xs)(k := None)"
proof (rule ext)
  fix b
  have "map_of ys b = Some c \<longleftrightarrow> ((map_of xs)(k := None)) b = Some c" for c
  proof (cases "b = k")
    case True
    have "(k, c) \<notin> set ys" using assms(3) eq_key_imp_eq_value [OF assms(1,4), of c] by auto
    then show ?thesis using True assms(2) by simp
  next
    case False
    then have "(b, c) \<in> set ys \<longleftrightarrow> (b, c) \<in> set xs" using assms(3) by auto
    then show ?thesis using False assms(1,2) by simp
  qed
  then show "map_of ys b = ((map_of xs)(k := None)) b" by (metis option.exhaust)
qed

lemma bc_sync_device:
  assumes "cache_inv st" and "(k, c) \<in> set (cache_queue st)"
  shows "snd (bc_sync c (block_device st)) = (block_device st)(k := bc_cache c)"
  using assms by (auto simp: bc_sync_def cache_inv_def)

text \<open>Swapping a cache out changes nothing that the file system sees.\<close>

lemma evict_spec:
  assumes inv: "cache_inv st" and i: "i < length (cache_queue st)" "cache_queue st ! i = (k, c)"
  defines "st' \<equiv> \<lparr>cache_queue = swap_remove i (cache_queue st), block_device = snd (bc_sync c (block_device st))\<rparr>"
  shows "cache_inv st'" and "view st' = view st" and "map_of (cache_queue st') = (map_of (cache_queue st))(k := None)"
    and "length (cache_queue st') = length (cache_queue st) - 1"
proof -
  let ?q = "cache_queue st" and ?q' = "swap_remove i (cache_queue st)"
  note d = cache_invD [OF inv]
  have kc: "(k, c) \<in> set ?q" using i by (metis nth_mem)
  have m: "mset ?q = add_mset (k, c) (mset ?q')" using swap_remove_mset [OF i(1)] i(2) by simp
  have "distinct (map fst ?q) \<longleftrightarrow> distinct (map fst ((k, c) # ?q'))"
    by (rule mset_eq_imp_distinct_iff) (simp add: m)
  then have d': "k \<notin> fst ` set ?q'" "distinct (map fst ?q')" using d(1) by auto
  have "set ?q = insert (k, c) (set ?q')" using m by (metis set_mset_add_mset_insert set_mset_mset)
  then have s: "set ?q' = set ?q - {(k, c)}" using d'(1) by force
  have dev: "block_device st' = (block_device st)(k := bc_cache c)"
    unfolding st'_def using bc_sync_device [OF inv kc] by simp
  show mo: "map_of (cache_queue st') = (map_of ?q)(k := None)"
    using map_of_subset [OF d(1) d'(2) s kc] by (simp add: st'_def)
  have len: "length ?q' = length ?q - 1" using arg_cong [OF m, where f = size] by simp
  then show "length (cache_queue st') = length ?q - 1" by (simp add: st'_def)
  have ne: "k' \<noteq> k" if "(k', c') \<in> set ?q'" for k' c' using that d'(1) by force
  have "bc_block_id c' = k' \<and> length (bc_cache c') = BLOCK_SZ \<and>
      (\<not> bc_modified c' \<longrightarrow> bc_cache c' = block_device st' k')" if "(k', c') \<in> set ?q'" for k' c'
    using that d(4-6) [of k' c'] ne [OF that] unfolding dev s by simp
  then show "cache_inv st'"
    unfolding cache_inv_def using d(2) d'(2) len d(3) d(5) [OF kc] by (auto simp: st'_def dev [unfolded st'_def, simplified])
  have "map_of ?q k = Some c" using d(1) kc by simp
  then show "view st' = view st" by (auto simp: view_def mo dev fun_eq_iff split: option.splits)
qed

lemma get_block_cache_spec:
  assumes inv: "cache_inv st" and held: "finite held" "card held < BLOCK_CACHE_MAX_NUM"
  shows "\<exists>st' c. get_block_cache held b st = Ok st' \<and> cache_inv st' \<and> view st' = view st \<and>
    map_of (cache_queue st') b = Some c \<and> bc_cache c = view st b \<and>
    (\<forall>h \<in> held. map_of (cache_queue st) h \<noteq> None \<longrightarrow> map_of (cache_queue st') h = map_of (cache_queue st) h)"
proof (cases "map_of (cache_queue st) b")
  case (Some c)
  with inv show ?thesis by (auto simp: get_block_cache_def view_def)
next
  case None
  let ?q = "cache_queue st"
  obtain st1 where st1: "cache_inv st1" "view st1 = view st" "map_of (cache_queue st1) b = None"
    "length (cache_queue st1) < BLOCK_CACHE_MAX_NUM"
    "\<forall>h \<in> held. map_of ?q h \<noteq> None \<longrightarrow> map_of (cache_queue st1) h = map_of ?q h"
    and run: "get_block_cache held b st =
      Ok (st1\<lparr>cache_queue := cache_queue st1 @ [(b, BlockCache_new b (block_device st1))]\<rparr>)"
  proof (cases "length ?q = BLOCK_CACHE_MAX_NUM")
    case False
    with that [of st] inv None cache_invD(2) [OF inv] show thesis by (simp add: get_block_cache_def)
  next
    case True
    have "find_index (\<lambda>pair. fst pair \<notin> held) ?q \<noteq> None"
    proof
      assume "find_index (\<lambda>pair. fst pair \<notin> held) ?q = None"
      then have "fst ` set ?q \<subseteq> held" by (auto simp: find_index_None)
      then have "card (fst ` set ?q) \<le> card held" using held(1) by (rule card_mono [rotated])
      moreover have "card (fst ` set ?q) = length ?q"
        using distinct_card [OF cache_invD(1) [OF inv]] by simp
      ultimately show False using True held(2) by simp
    qed
    then obtain i where i: "find_index (\<lambda>pair. fst pair \<notin> held) ?q = Some i" by blast
    obtain k c where kc: "?q ! i = (k, c)" by fastforce
    have il: "i < length ?q" and kh: "k \<notin> held" using find_index_Some [OF i] kc by auto
    note ev = evict_spec [OF inv il kc]
    have "map_of ?q h = map_of (cache_queue \<lparr>cache_queue = swap_remove i ?q, block_device = snd (bc_sync c (block_device st))\<rparr>) h"
      if "h \<in> held" for h using ev(3) kh that by auto
    with that [OF ev(1,2)] ev(3,4) None True i kc show thesis
      by (auto simp: get_block_cache_def BLOCK_CACHE_MAX_NUM_def)
  qed
  let ?c = "BlockCache_new b (block_device st1)"
  define st2 where "st2 = st1\<lparr>cache_queue := cache_queue st1 @ [(b, ?c)]\<rparr>"
  note d = cache_invD [OF st1(1)]
  have nb: "b \<notin> fst ` set (cache_queue st1)" using st1(3) by (simp add: map_of_eq_None_iff)
  have mo: "map_of (cache_queue st2) = (map_of (cache_queue st1))(b \<mapsto> ?c)"
    using st1(3) by (auto simp: st2_def map_add_def fun_eq_iff split: option.splits)
  have dev2: "block_device st2 = block_device st1" by (simp add: st2_def)
  have "cache_inv st2"
    unfolding cache_inv_def st2_def using d st1(4) nb by (auto simp: BlockCache_new_def)
  moreover have "view st2 = view st1"
    using st1(3) by (intro ext) (auto simp: view_def mo dev2 BlockCache_new_def split: option.split)
  moreover have "bc_cache ?c = view st b"
    using st1(3) unfolding st1(2) [symmetric] by (simp add: view_def BlockCache_new_def)
  moreover have "map_of (cache_queue st2) h = map_of ?q h" if "h \<in> held" "map_of ?q h \<noteq> None" for h
    using st1(5) that None unfolding mo by (metis fun_upd_other)
  ultimately show ?thesis using run st1(2) mo unfolding st2_def [symmetric] by auto
qed

lemma map_of_update_first:
  assumes "distinct (map fst ps)" and "map_of ps k \<noteq> None"
  shows "map_of (update_first k v ps) = (map_of ps)(k \<mapsto> v)"
    and "map fst (update_first k v ps) = map fst ps" and "length (update_first k v ps) = length ps"
proof -
  have "map_of (update_first k v ps) = (map_of ps)(k \<mapsto> v) \<and> map fst (update_first k v ps) = map fst ps"
    using assms by (induction k v ps rule: update_first.induct) (auto split: if_splits)
  then show "map_of (update_first k v ps) = (map_of ps)(k \<mapsto> v)" "map fst (update_first k v ps) = map fst ps"
    by auto
  then show "length (update_first k v ps) = length ps" by (metis length_map)
qed

lemma length_patch [simp]: "offset + length bytes \<le> length b \<Longrightarrow> length (patch offset bytes b) = length b"
  by (simp add: patch_def)

section \<open>Reads and writes through the cache\<close>

lemma cache_read_spec:
  assumes "cache_inv st" and "finite held" "card held < BLOCK_CACHE_MAX_NUM"
  shows "if off + n \<le> BLOCK_SZ
    then \<exists>st'. cache_read held b off n st = Ok (take n (drop off (view st b)), st') \<and> cache_inv st' \<and> view st' = view st
    else cache_read held b off n st = Panic AssertFailed"
  using get_block_cache_spec [OF assms, of b] by (auto simp: cache_read_def bc_get_ref_def)

lemma cache_modify_spec:
  assumes inv: "cache_inv st" and held: "finite held" "card held < BLOCK_CACHE_MAX_NUM"
  shows "if off + length bytes \<le> BLOCK_SZ
    then \<exists>st'. cache_modify held b off bytes st = Ok st' \<and> cache_inv st' \<and>
      view st' = (view st)(b := patch off bytes (view st b))
    else cache_modify held b off bytes st = Panic AssertFailed"
proof -
  obtain st1 c where g: "get_block_cache held b st = Ok st1" "cache_inv st1" "view st1 = view st"
    "map_of (cache_queue st1) b = Some c" "bc_cache c = view st b"
    using get_block_cache_spec [OF assms, of b] by blast
  show ?thesis
  proof (cases "off + length bytes \<le> BLOCK_SZ")
    case False
    then show ?thesis using g by (simp add: cache_modify_def bc_modify_def)
  next
    case True
    let ?c = "c\<lparr>bc_modified := True, bc_cache := patch off bytes (bc_cache c)\<rparr>"
    define st2 where "st2 = st1\<lparr>cache_queue := update_first b ?c (cache_queue st1)\<rparr>"
    note d = cache_invD [OF g(2)]
    note u = map_of_update_first [OF d(1), of b ?c]
    have bc: "(b, c) \<in> set (cache_queue st1)" using g(4) by (rule map_of_SomeD)
    have mo: "map_of (cache_queue st2) = (map_of (cache_queue st1))(b \<mapsto> ?c)" using u(1) g(4) by (simp add: st2_def)
    have dist: "distinct (map fst (cache_queue st2))" using u(2) g(4) d(1) by (simp add: st2_def)
    have "(k, v) \<in> set (cache_queue st2) \<longleftrightarrow> ((map_of (cache_queue st1))(b \<mapsto> ?c)) k = Some v" for k v
      unfolding mo [symmetric] using dist by simp
    then have mem: "(k, v) \<in> set (cache_queue st2) \<Longrightarrow> (k = b \<and> v = ?c) \<or> (k, v) \<in> set (cache_queue st1)" for k v
      by (auto split: if_splits dest: map_of_SomeD)
    have "cache_inv st2"
      unfolding cache_inv_def
    proof (intro conjI ballI)
      show "distinct (map fst (cache_queue st2))" by (rule dist)
      show "length (cache_queue st2) \<le> BLOCK_CACHE_MAX_NUM" using u(3) g(4) d(2) by (simp add: st2_def)
      show "\<forall>b. length (block_device st2 b) = BLOCK_SZ" using d(3) by (simp add: st2_def)
      fix p assume p: "p \<in> set (cache_queue st2)"
      obtain k v where kv: "p = (k, v)" by fastforce
      show "case p of (k, c) \<Rightarrow> bc_block_id c = k \<and> length (bc_cache c) = BLOCK_SZ \<and>
          (\<not> bc_modified c \<longrightarrow> bc_cache c = block_device st2 k)"
        using mem [of k v] p kv d(4-6) [of k v] d(4,5) [OF bc] True by (auto simp: st2_def)
    qed
    moreover have "view st2 = (view st)(b := patch off bytes (view st b))"
    proof -
      have "block_device st2 = block_device st1" by (simp add: st2_def)
      then have "view st2 = (view st1)(b := bc_cache ?c)"
        by (intro ext) (auto simp: view_def mo split: option.split)
      then show ?thesis by (simp add: g(3,5))
    qed
    moreover have "cache_modify held b off bytes st = Ok st2"
      using g(1,4) True by (simp add: cache_modify_def bc_modify_def st2_def)
    ultimately show ?thesis using True by auto
  qed
qed

lemma sync_loop_spec:
  assumes "distinct (map fst ps)" and "\<forall>(k, c) \<in> set ps. bc_block_id c = k \<and> (\<not> bc_modified c \<longrightarrow> bc_cache c = dev k)"
  shows "snd (sync_loop ps dev) = (\<lambda>b. case map_of ps b of Some c \<Rightarrow> bc_cache c | None \<Rightarrow> dev b) \<and>
    fst (sync_loop ps dev) = map (\<lambda>(k, c). (k, c\<lparr>bc_modified := False\<rparr>)) ps"
  using assms
proof (induction ps arbitrary: dev)
  case (Cons p ps)
  obtain k c where p: "p = (k, c)" by fastforce
  define dev1 where "dev1 = dev(k := bc_cache c)"
  have b: "bc_sync c dev = (c\<lparr>bc_modified := False\<rparr>, dev1)"
    using Cons.prems(2) p by (auto simp: bc_sync_def dev1_def)
  have "\<forall>(k', c') \<in> set ps. bc_block_id c' = k' \<and> (\<not> bc_modified c' \<longrightarrow> bc_cache c' = dev1 k')"
    using Cons.prems p unfolding dev1_def by force
  from Cons.IH [OF _ this] Cons.prems(1) p
  have ih: "snd (sync_loop ps dev1) = (\<lambda>b. case map_of ps b of Some c \<Rightarrow> bc_cache c | None \<Rightarrow> dev1 b)"
    "fst (sync_loop ps dev1) = map (\<lambda>(k, c). (k, c\<lparr>bc_modified := False\<rparr>)) ps" by auto
  have k: "map_of ps k = None" using Cons.prems(1) p by (simp add: map_of_eq_None_iff)
  have "(case map_of ps b of Some c \<Rightarrow> bc_cache c | None \<Rightarrow> dev1 b) =
      (case map_of (p # ps) b of Some c \<Rightarrow> bc_cache c | None \<Rightarrow> dev b)" for b
    using k p by (auto simp: dev1_def split: option.split)
  then have "(\<lambda>b. case map_of ps b of Some c \<Rightarrow> bc_cache c | None \<Rightarrow> dev1 b) =
      (\<lambda>b. case map_of (p # ps) b of Some c \<Rightarrow> bc_cache c | None \<Rightarrow> dev b)" by (rule ext)
  moreover obtain ps' dev' where sl: "sync_loop ps dev1 = (ps', dev')" by fastforce
  moreover have "sync_loop (p # ps) dev = ((k, c\<lparr>bc_modified := False\<rparr>) # ps', dev')"
    unfolding p sync_loop.simps b prod.case sl ..
  ultimately show ?case using ih unfolding sl p by simp
qed auto

text \<open>After \<^verbatim>\<open>block_cache_sync_all\<close> the device holds what the file system sees.\<close>

lemma sync_all_spec:
  assumes "cache_inv st"
  shows "cache_inv (block_cache_sync_all st)" and "view (block_cache_sync_all st) = view st"
    and "block_device (block_cache_sync_all st) = view st"
proof -
  note d = cache_invD [OF assms]
  have sl: "snd (sync_loop (cache_queue st) (block_device st)) = view st"
    "fst (sync_loop (cache_queue st) (block_device st)) = map (\<lambda>(k, c). (k, c\<lparr>bc_modified := False\<rparr>)) (cache_queue st)"
    using sync_loop_spec [OF d(1), of "block_device st"] d(4,6) by (auto simp: view_def fun_eq_iff)
  have st': "block_cache_sync_all st = \<lparr>cache_queue = map (\<lambda>(k, c). (k, c\<lparr>bc_modified := False\<rparr>)) (cache_queue st),
      block_device = view st\<rparr>"
    using sl by (cases "sync_loop (cache_queue st) (block_device st)") (simp add: block_cache_sync_all_def)
  then show dev: "block_device (block_cache_sync_all st) = view st" by simp
  have mo: "map_of (map (\<lambda>(k, c). (k, c\<lparr>bc_modified := False\<rparr>)) (cache_queue st)) b =
      map_option (\<lambda>c. c\<lparr>bc_modified := False\<rparr>) (map_of (cache_queue st) b)" for b
    by (simp add: map_of_map)
  show "view (block_cache_sync_all st) = view st"
    unfolding st' by (auto simp: view_def mo fun_eq_iff split: option.splits)
  have "bc_cache c = view st k" if "(k, c) \<in> set (cache_queue st)" for k c
    using that d(1) by (simp add: view_def)
  then show "cache_inv (block_cache_sync_all st)"
    unfolding st' cache_inv_def using d view_length [OF assms]
    by (auto simp: case_prod_beta comp_def)
qed

end
