(* ===== verification/BlockProg.thy ===== *)
theory BlockProg
  imports BlockCache
begin

text \<open>
  Programs over the block cache. The operations of \<^verbatim>\<open>easy-fs\<close> touch the disk only through
  \<^verbatim>\<open>get_block_cache(id, ..).lock().read(..)\<close> and \<^verbatim>\<open>.modify(..)\<close> and through \<^verbatim>\<open>block_cache_sync_all()\<close>.
  An operation is modelled as a program of such accesses (\<open>prog\<close>), so that the same program runs on
  the cache over the device (\<open>run_store\<close>) and on the blocks the cache stands for (\<open>run\<close>); the lemma
  \<open>run_refines\<close> of the locale \<open>block_store\<close> says that the two runs agree, for every program. The file-system
  theories then work with \<open>run\<close> alone.

  The closure given to \<^verbatim>\<open>read\<close> or \<^verbatim>\<open>modify\<close> runs while the lock of the block's cache is held, and it
  may access other blocks. Every access therefore carries the blocks whose locks are held around
  it: an access to one of them never returns, because \<^verbatim>\<open>spin::Mutex\<close> is not reentrant.
\<close>

section \<open>Programs\<close>

datatype 'a prog =
    Done 'a
  | Fail panic
  | Get "usize list" usize nat nat "u8 list \<Rightarrow> 'a prog"   \<comment> \<open>locks held, block, offset, bytes\<close>
  | Put "usize list" usize nat "u8 list" "'a prog"
  | Sync "usize list" "'a prog"

primrec bind_prog :: "'a prog \<Rightarrow> ('a \<Rightarrow> 'b prog) \<Rightarrow> 'b prog" where
  "bind_prog (Done a) f = f a"
| "bind_prog (Fail e) f = Fail e"
| "bind_prog (Get h b off n k) f = Get h b off n (\<lambda>bytes. bind_prog (k bytes) f)"
| "bind_prog (Put h b off bytes p) f = Put h b off bytes (bind_prog p f)"
| "bind_prog (Sync h p) f = Sync h (bind_prog p f)"

definition lift_res :: "'a res \<Rightarrow> 'a prog" where
  "lift_res r = (case r of Ok a \<Rightarrow> Done a | Panic e \<Rightarrow> Fail e)"

text \<open>The program of a closure, run while the lock of block \<open>l\<close> is held.\<close>

primrec holding :: "usize \<Rightarrow> 'a prog \<Rightarrow> 'a prog" where
  "holding l (Done a) = Done a"
| "holding l (Fail e) = Fail e"
| "holding l (Get h b off n k) = Get (h @ [l]) b off n (\<lambda>bytes. holding l (k bytes))"
| "holding l (Put h b off bytes p) = Put (h @ [l]) b off bytes (holding l p)"
| "holding l (Sync h p) = Sync (h @ [l]) (holding l p)"

text \<open>
  \<^verbatim>\<open>.read(offset, |v: &T| ..)\<close> for a type of \<open>n\<close> bytes, and \<^verbatim>\<open>.modify(offset, |v: &mut T| ..)\<close>, whose
  closure gives the bytes that it leaves and its result.
\<close>

definition block_read :: "usize \<Rightarrow> nat \<Rightarrow> nat \<Rightarrow> (u8 list \<Rightarrow> 'a prog) \<Rightarrow> 'a prog" where
  "block_read b off n f = Get [] b off n (\<lambda>bytes. holding b (f bytes))"

definition block_modify :: "usize \<Rightarrow> nat \<Rightarrow> nat \<Rightarrow> (u8 list \<Rightarrow> (u8 list \<times> 'a) prog) \<Rightarrow> 'a prog" where
  "block_modify b off n f =
     Get [] b off n (\<lambda>bytes.
     bind_prog (holding b (f bytes)) (\<lambda>(bytes', r). Put [] b off bytes' (Done r)))"

text \<open>A \<^verbatim>\<open>for\<close> loop over programs.\<close>

fun fold_prog :: "('a \<Rightarrow> 's \<Rightarrow> 's prog) \<Rightarrow> 'a list \<Rightarrow> 's \<Rightarrow> 's prog" where
  "fold_prog f [] s = Done s"
| "fold_prog f (a # as) s = bind_prog (f a s) (fold_prog f as)"

section \<open>Running a program on the blocks\<close>

primrec run :: "'a prog \<Rightarrow> usize list \<Rightarrow> device \<Rightarrow> ('a \<times> device) res" where
  "run (Done a) H d = Ok (a, d)"
| "run (Fail e) H d = Panic e"
| "run (Get h b off n k) H d =
     (if BLOCK_CACHE_MAX_NUM \<le> length (h @ H) then Panic OutOfCaches
      else if b \<in> set (h @ H) then Panic Deadlock
      else if BLOCK_SZ < off + n then Panic AssertFailed
      else run (k (take n (drop off (d b)))) H d)"
| "run (Put h b off bytes p) H d =
     (if BLOCK_CACHE_MAX_NUM \<le> length (h @ H) then Panic OutOfCaches
      else if b \<in> set (h @ H) then Panic Deadlock
      else if BLOCK_SZ < off + length bytes then Panic AssertFailed
      else run p H (d(b := patch off bytes (d b))))"
| "run (Sync h p) H d = (if h @ H = [] then run p H d else Panic Deadlock)"

section \<open>Running a program on a store of blocks\<close>

primrec run_store ::
  "(usize set \<Rightarrow> usize \<Rightarrow> nat \<Rightarrow> nat \<Rightarrow> 's \<Rightarrow> (u8 list \<times> 's) res) \<Rightarrow>
   (usize set \<Rightarrow> usize \<Rightarrow> nat \<Rightarrow> u8 list \<Rightarrow> 's \<Rightarrow> 's res) \<Rightarrow> ('s \<Rightarrow> 's) \<Rightarrow>
   'a prog \<Rightarrow> usize list \<Rightarrow> 's \<Rightarrow> ('a \<times> 's) res" where
  "run_store rd md sy (Done a) H st = Ok (a, st)"
| "run_store rd md sy (Fail e) H st = Panic e"
| "run_store rd md sy (Get h b off n k) H st =
     (if b \<in> set (h @ H) then Panic Deadlock
      else bind_res (rd (set (h @ H)) b off n st) (\<lambda>(bytes, st). run_store rd md sy (k bytes) H st))"
| "run_store rd md sy (Put h b off bytes p) H st =
     (if b \<in> set (h @ H) then Panic Deadlock
      else bind_res (md (set (h @ H)) b off bytes st) (\<lambda>st. run_store rd md sy p H st))"
| "run_store rd md sy (Sync h p) H st =
     (if h @ H = [] then run_store rd md sy p H (sy st) else Panic Deadlock)"

definition run_cached :: "'a prog \<Rightarrow> cache_state \<Rightarrow> ('a \<times> cache_state) res" where
  "run_cached p st = run_store cache_read cache_modify block_cache_sync_all p [] st"

text \<open>The contract of a store of blocks, which the block cache provides and the file system uses.\<close>

locale block_store =
  fixes rd :: "usize set \<Rightarrow> usize \<Rightarrow> nat \<Rightarrow> nat \<Rightarrow> 's \<Rightarrow> (u8 list \<times> 's) res"
    and md :: "usize set \<Rightarrow> usize \<Rightarrow> nat \<Rightarrow> u8 list \<Rightarrow> 's \<Rightarrow> 's res"
    and sy :: "'s \<Rightarrow> 's"
    and inv :: "'s \<Rightarrow> bool"
    and blocks :: "'s \<Rightarrow> device"
  assumes rd_spec: "\<lbrakk>inv st; finite held; card held < BLOCK_CACHE_MAX_NUM\<rbrakk> \<Longrightarrow>
      if off + n \<le> BLOCK_SZ
      then \<exists>st'. rd held b off n st = Ok (take n (drop off (blocks st b)), st') \<and> inv st' \<and> blocks st' = blocks st
      else rd held b off n st = Panic AssertFailed"
    and md_spec: "\<lbrakk>inv st; finite held; card held < BLOCK_CACHE_MAX_NUM\<rbrakk> \<Longrightarrow>
      if off + length bytes \<le> BLOCK_SZ
      then \<exists>st'. md held b off bytes st = Ok st' \<and> inv st' \<and> blocks st' = (blocks st)(b := patch off bytes (blocks st b))
      else md held b off bytes st = Panic AssertFailed"
    and sy_inv: "inv st \<Longrightarrow> inv (sy st)"
    and sy_blocks: "inv st \<Longrightarrow> blocks (sy st) = blocks st"
begin

definition agrees :: "('a \<times> device) res \<Rightarrow> ('a \<times> 's) res \<Rightarrow> bool" where
  "agrees r r' = (case r of
     Ok (a, d) \<Rightarrow> (\<exists>st'. r' = Ok (a, st') \<and> inv st' \<and> blocks st' = d)
   | Panic e \<Rightarrow> e \<noteq> OutOfCaches \<longrightarrow> r' = Panic e)"

lemma held_small: "\<not> BLOCK_CACHE_MAX_NUM \<le> length hs \<Longrightarrow> card (set hs) < BLOCK_CACHE_MAX_NUM"
  using card_length [of hs] by linarith

text \<open>Every program gives on the store what it gives on the blocks.\<close>

lemma run_refines: "inv st \<Longrightarrow> agrees (run p H (blocks st)) (run_store rd md sy p H st)"
proof (induction p arbitrary: st)
  case (Get h b off n k)
  show ?case
  proof (cases "BLOCK_CACHE_MAX_NUM \<le> length (h @ H) \<or> b \<in> set (h @ H)")
    case True
    then show ?thesis by (auto simp: agrees_def)
  next
    case False
    then have "card (set (h @ H)) < BLOCK_CACHE_MAX_NUM" using held_small [of "h @ H"] by blast
    note rd = rd_spec [OF Get.prems _ this, of off n b]
    show ?thesis
    proof (cases "off + n \<le> BLOCK_SZ")
      case True
      with rd obtain st' where st': "rd (set (h @ H)) b off n st = Ok (take n (drop off (blocks st b)), st')"
        "inv st'" "blocks st' = blocks st" by auto
      from Get.IH [OF rangeI st'(2)] False True st' show ?thesis by simp
    next
      case ov: False
      with rd False show ?thesis by (auto simp: agrees_def)
    qed
  qed
next
  case (Put h b off bytes p)
  show ?case
  proof (cases "BLOCK_CACHE_MAX_NUM \<le> length (h @ H) \<or> b \<in> set (h @ H)")
    case True
    then show ?thesis by (auto simp: agrees_def)
  next
    case False
    then have "card (set (h @ H)) < BLOCK_CACHE_MAX_NUM" using held_small [of "h @ H"] by blast
    note md = md_spec [OF Put.prems _ this, of off bytes b]
    show ?thesis
    proof (cases "off + length bytes \<le> BLOCK_SZ")
      case True
      with md obtain st' where st': "md (set (h @ H)) b off bytes st = Ok st'" "inv st'"
        "blocks st' = (blocks st)(b := patch off bytes (blocks st b))" by auto
      from Put.IH [OF st'(2)] False True st'(1) show ?thesis unfolding st'(3) by (simp del: fun_upd_apply)
    next
      case ov: False
      with md False show ?thesis by (auto simp: agrees_def)
    qed
  qed
next
  case (Sync h p)
  from Sync.IH [OF sy_inv [OF Sync.prems]] sy_blocks [OF Sync.prems] show ?case
    by (cases "h @ H = []") (auto simp: agrees_def)
qed (auto simp: agrees_def)

end

interpretation cached: block_store cache_read cache_modify block_cache_sync_all cache_inv view
proof
  show "if off + n \<le> BLOCK_SZ
      then \<exists>st'. cache_read held b off n st = Ok (take n (drop off (view st b)), st') \<and> cache_inv st' \<and> view st' = view st
      else cache_read held b off n st = Panic AssertFailed"
    if "cache_inv st" "finite held" "card held < BLOCK_CACHE_MAX_NUM" for st held off n b
    using that by (rule cache_read_spec)
  show "if off + length bytes \<le> BLOCK_SZ
      then \<exists>st'. cache_modify held b off bytes st = Ok st' \<and> cache_inv st' \<and> view st' = (view st)(b := patch off bytes (view st b))
      else cache_modify held b off bytes st = Panic AssertFailed"
    if "cache_inv st" "finite held" "card held < BLOCK_CACHE_MAX_NUM" for st held off bytes b
    using that by (rule cache_modify_spec)
qed (auto simp: sync_all_spec)

section \<open>Laws of programs\<close>

named_theorems run_simps "rewriting of runs of programs"

lemma run_bind [run_simps]: "run (bind_prog p f) H d = bind_res (run p H d) (\<lambda>(a, d). run (f a) H d)"
  by (induction p arbitrary: d) auto

lemma run_holding [run_simps]: "run (holding b p) H d = run p (b # H) d"
  by (induction p arbitrary: d) auto

lemma run_lift [run_simps]: "run (lift_res r) H d = bind_res r (\<lambda>a. Ok (a, d))"
  by (cases r) (auto simp: lift_res_def)

lemma run_block_read [run_simps]:
  "run (block_read b off n f) H d =
     (if BLOCK_CACHE_MAX_NUM \<le> length H then Panic OutOfCaches
      else if b \<in> set H then Panic Deadlock
      else if BLOCK_SZ < off + n then Panic AssertFailed
      else run (f (take n (drop off (d b)))) (b # H) d)"
  by (simp add: block_read_def run_simps)

lemma run_block_modify:
  assumes "length H < BLOCK_CACHE_MAX_NUM" and "b \<notin> set H" and "off + n \<le> BLOCK_SZ"
    and "run (f (take n (drop off (d b)))) (b # H) d = Ok ((bytes', r), d')" and "length bytes' = n"
  shows "run (block_modify b off n f) H d = Ok (r, d'(b := patch off bytes' (d' b)))"
  using assms by (simp add: block_modify_def run_simps)

lemma run_fold_append:
  "run (fold_prog f (xs @ ys) s) H d = bind_res (run (fold_prog f xs s) H d) (\<lambda>(s, d). run (fold_prog f ys s) H d)"
proof (induction xs arbitrary: s d)
  case (Cons a xs)
  then show ?case by (cases "run (f a s) H d") (auto simp: run_simps)
qed simp

text \<open>A loop returns when every body returns from the states that the loop can be in.\<close>

lemma run_fold_total:
  assumes "I [] s d"
    and "\<And>ys a zs s d. \<lbrakk>xs = ys @ a # zs; I ys s d\<rbrakk> \<Longrightarrow> \<exists>s' d'. run (f a s) H d = Ok (s', d') \<and> I (ys @ [a]) s' d'"
  shows "\<exists>s' d'. run (fold_prog f xs s) H d = Ok (s', d') \<and> I xs s' d'"
proof -
  have "\<exists>s' d'. run (fold_prog f zs s) H d = Ok (s', d') \<and> I xs s' d'" if "xs = ys @ zs" and "I ys s d" for ys zs s d
    using that
  proof (induction zs arbitrary: ys s d)
    case (Cons z zs)
    from assms(2) [OF Cons.prems] obtain s1 d1 where s1: "run (f z s) H d = Ok (s1, d1)" "I (ys @ [z]) s1 d1" by blast
    from Cons.prems(1) have "xs = (ys @ [z]) @ zs" by simp
    from Cons.IH [OF this s1(2)] s1(1) show ?case by (simp add: run_simps)
  qed simp
  from this [of "[]" xs s] assms(1) show ?thesis by simp
qed

lemma patch_whole [simp]: "length bytes = length b \<Longrightarrow> patch 0 bytes b = bytes"
  by (simp add: patch_def)

lemma patch_nth:
  "off + length bytes \<le> length b \<Longrightarrow> i < length b \<Longrightarrow>
     patch off bytes b ! i = (if off \<le> i \<and> i < off + length bytes then bytes ! (i - off) else b ! i)"
  by (auto simp: patch_def nth_append)

lemma take_drop_patch_same: "off + length bytes \<le> length b \<Longrightarrow> take (length bytes) (drop off (patch off bytes b)) = bytes"
  by (simp add: patch_def)

lemma take_drop_patch_other:
  assumes "off + length bytes \<le> length b" and "o' + n \<le> off \<or> off + length bytes \<le> o'" and "o' + n \<le> length b"
  shows "take n (drop o' (patch off bytes b)) = take n (drop o' b)"
  using assms by (intro nth_equalityI) (auto simp: patch_nth)

end
