(* ===== verification/Codec.thy ===== *)
theory Codec
  imports Prelude
begin

text \<open>
  How values lie in memory and on the disk: integers are little-endian, and arrays and
  \<^verbatim>\<open>#[repr(C)]\<close> structures of them are the bytes of their parts one after the other.
\<close>

primrec le_bytes :: "nat \<Rightarrow> 'a::len word \<Rightarrow> u8 list" where
  "le_bytes 0 w = []"
| "le_bytes (Suc n) w = ucast w # le_bytes n (drop_bit 8 w)"

primrec le_word :: "u8 list \<Rightarrow> 'a::len word" where
  "le_word [] = 0"
| "le_word (b # bs) = ucast b OR push_bit 8 (le_word bs)"

definition encode_words :: "nat \<Rightarrow> 'a::len word list \<Rightarrow> u8 list" where
  "encode_words k ws = concat (map (le_bytes k) ws)"

definition decode_words :: "nat \<Rightarrow> u8 list \<Rightarrow> 'a::len word list" where
  "decode_words k bytes = map (\<lambda>i. le_word (take k (drop (k * i) bytes))) [0..<length bytes div k]"

lemma length_le_bytes [simp]: "length (le_bytes n w) = n"
  by (induction n arbitrary: w) auto

lemma le_bytes_nth: "i < n \<Longrightarrow> le_bytes n w ! i = ucast (drop_bit (8 * i) w)"
proof (induction n arbitrary: w i)
  case (Suc n)
  then show ?case by (cases i) (auto simp: drop_bit_drop_bit add.commute)
qed simp

lemma bit_le_word:
  "bit (le_word bs :: 'a::len word) k \<longleftrightarrow> k < LENGTH('a) \<and> k div 8 < length bs \<and> bit (bs ! (k div 8)) (k mod 8)"
proof (induction bs arbitrary: k)
  case (Cons b bs)
  show ?case
  proof (cases "k < 8")
    case True
    then show ?thesis by (auto simp: bit_or_iff bit_push_bit_iff bit_ucast_iff)
  next
    case False
    then have "k div 8 = Suc ((k - 8) div 8)" "(k - 8) mod 8 = k mod 8"
      by (simp_all add: le_div_geq le_mod_geq)
    moreover have "\<not> bit b k" using False bit_imp_le_length [of b k] by auto
    ultimately show ?thesis using False Cons [of "k - 8"]
      by (auto simp: bit_or_iff bit_push_bit_iff bit_ucast_iff)
  qed
qed simp

lemma le_word_le_bytes: "LENGTH('a) \<le> 8 * n \<Longrightarrow> le_word (le_bytes n w) = (w :: 'a::len word)"
proof (rule bit_eqI)
  fix k assume n: "LENGTH('a) \<le> 8 * n" and "possible_bit TYPE('a word) k"
  then have k: "k < LENGTH('a)" by simp
  then have "k div 8 < n" using n by auto
  with k show "bit (le_word (le_bytes n w) :: 'a word) k = bit w k"
    by (simp add: bit_le_word le_bytes_nth bit_ucast_iff bit_drop_bit_eq)
qed

lemma le_bytes_le_word:
  assumes "length bs = n" and "8 * n \<le> LENGTH('a)"
  shows "le_bytes n (le_word bs :: 'a::len word) = bs"
proof (rule nth_equalityI)
  fix i assume "i < length (le_bytes n (le_word bs :: 'a word))"
  then have i: "i < n" by simp
  show "le_bytes n (le_word bs :: 'a word) ! i = bs ! i"
  proof (rule bit_eqI)
    fix k assume "possible_bit TYPE(8 word) k"
    then have k: "k < 8" by simp
    have "(8 * i + k) div 8 = i" "(8 * i + k) mod 8 = k" using k by auto
    moreover have "8 * i + k < LENGTH('a)" using i k assms(2) by linarith
    ultimately show "bit (le_bytes n (le_word bs :: 'a word) ! i) k = bit (bs ! i) k"
      using i k assms(1) by (simp add: le_bytes_nth bit_ucast_iff bit_drop_bit_eq bit_le_word)
  qed
qed (simp add: assms)

lemma length_encode_words [simp]: "length (encode_words k ws) = k * length ws"
  by (induction ws) (auto simp: encode_words_def)

lemma length_decode_words [simp]: "length (decode_words k bytes) = length bytes div k"
  by (simp add: decode_words_def)

lemma encode_words_append: "encode_words k (xs @ ys) = encode_words k xs @ encode_words k ys"
  by (simp add: encode_words_def)

lemma encode_words_slice: "i < length ws \<Longrightarrow> take k (drop (k * i) (encode_words k ws)) = le_bytes k (ws ! i)"
proof (induction ws arbitrary: i)
  case (Cons w ws)
  then show ?case by (cases i) (auto simp: encode_words_def)
qed simp

lemma decode_encode_words:
  assumes "0 < k" and "LENGTH('a) \<le> 8 * k"
  shows "decode_words k (encode_words k ws) = (ws :: 'a::len word list)"
  using assms by (intro nth_equalityI) (auto simp: decode_words_def encode_words_slice le_word_le_bytes)

lemma encode_decode_words:
  assumes "0 < k" and "8 * k \<le> LENGTH('a)" and "k dvd length bytes"
  shows "encode_words k (decode_words k bytes :: 'a::len word list) = bytes"
proof (rule nth_equalityI)
  let ?ws = "decode_words k bytes :: 'a word list"
  show len: "length (encode_words k ?ws) = length bytes" using assms(3) by simp
  fix i assume "i < length (encode_words k ?ws)"
  then have i: "i < length bytes" by (simp only: len)
  define q r where "q = i div k" and "r = i mod k"
  have qr: "i = k * q + r" "r < k" using assms(1) by (simp_all add: q_def r_def)
  have q: "q < length bytes div k"
  proof -
    obtain n where n: "length bytes = k * n" using assms(3) by blast
    have "k * q < k * n" using i qr(1) n by linarith
    then show ?thesis using n assms(1) by simp
  qed
  have sl: "length (take k (drop (k * q) bytes)) = k"
  proof -
    have "Suc q * k \<le> length bytes div k * k" using q by (intro mult_le_mono1) simp
    also have "\<dots> = length bytes" using assms(3) by simp
    finally show ?thesis by (simp add: mult.commute)
  qed
  have "take k (drop (k * q) (encode_words k ?ws)) = take k (drop (k * q) bytes)"
    using q assms(2) sl by (simp add: encode_words_slice le_bytes_le_word decode_words_def)
  then have "take k (drop (k * q) (encode_words k ?ws)) ! r = take k (drop (k * q) bytes) ! r" by simp
  then show "encode_words k ?ws ! i = bytes ! i"
    using qr i len by (simp add: nth_append)
qed

lemma decode_words_nth:
  "i < length bytes div k \<Longrightarrow> decode_words k bytes ! i = le_word (take k (drop (k * i) bytes))"
  by (simp add: decode_words_def)

lemma decode_words_append:
  assumes "0 < k" and "LENGTH('a) \<le> 8 * k"
  shows "decode_words k (take (k * length ws) (encode_words k ws @ rest)) = (ws :: 'a::len word list)"
  using assms by (simp add: decode_encode_words)

end
