(* ===== verification/Layout.thy ===== *)
theory Layout
  imports BlockProg Codec
begin

text \<open>
  \<^verbatim>\<open>easy-fs/src/layout.rs\<close>: the structures on the disk and the operations of a disk inode. The bytes of
  an inode and of an index block are decoded when a closure starts and encoded when it ends.
\<close>

section \<open>Constants\<close>

definition EFS_MAGIC :: u32 where "EFS_MAGIC = 0x3b800001"
definition NAME_LENGTH_LIMIT :: nat where "NAME_LENGTH_LIMIT = 27"
definition INODE_DIRECT_COUNT :: nat where "INODE_DIRECT_COUNT = 28"
definition DIRENT_SZ :: nat where "DIRENT_SZ = 32"
definition INODE_INDIRECT1_COUNT :: nat where "INODE_INDIRECT1_COUNT = BLOCK_SZ div 4"
definition INODE_INDIRECT2_COUNT :: nat where "INODE_INDIRECT2_COUNT = INODE_INDIRECT1_COUNT * INODE_INDIRECT1_COUNT"
definition INDIRECT1_BOUND :: nat where "INDIRECT1_BOUND = INODE_DIRECT_COUNT + INODE_INDIRECT1_COUNT"
definition INDIRECT2_BOUND :: nat where "INDIRECT2_BOUND = INDIRECT1_BOUND + INODE_INDIRECT2_COUNT"

lemmas layout_consts = BLOCK_SZ_def INODE_DIRECT_COUNT_def INODE_INDIRECT1_COUNT_def INODE_INDIRECT2_COUNT_def
  INDIRECT1_BOUND_def INDIRECT2_BOUND_def

section \<open>The super block\<close>

record SuperBlock =
  magic :: u32
  sb_total_blocks :: u32
  inode_bitmap_blocks :: u32
  inode_area_blocks :: u32
  data_bitmap_blocks :: u32
  data_area_blocks :: u32

definition SuperBlock_initialize :: "u32 \<Rightarrow> u32 \<Rightarrow> u32 \<Rightarrow> u32 \<Rightarrow> u32 \<Rightarrow> SuperBlock" where
  "SuperBlock_initialize total_blks ibb iab dbb dab =
     \<lparr>magic = EFS_MAGIC, sb_total_blocks = total_blks, inode_bitmap_blocks = ibb, inode_area_blocks = iab,
      data_bitmap_blocks = dbb, data_area_blocks = dab\<rparr>"

definition is_valid :: "SuperBlock \<Rightarrow> bool" where
  "is_valid sb = (magic sb = EFS_MAGIC)"

definition encode_super :: "SuperBlock \<Rightarrow> u8 list" where
  "encode_super sb = encode_words 4 [magic sb, sb_total_blocks sb, inode_bitmap_blocks sb,
     inode_area_blocks sb, data_bitmap_blocks sb, data_area_blocks sb]"

definition decode_super :: "u8 list \<Rightarrow> SuperBlock" where
  "decode_super bytes = (let ws = decode_words 4 bytes in
     \<lparr>magic = ws ! 0, sb_total_blocks = ws ! 1, inode_bitmap_blocks = ws ! 2, inode_area_blocks = ws ! 3,
      data_bitmap_blocks = ws ! 4, data_area_blocks = ws ! 5\<rparr>)"

section \<open>The disk inode\<close>

datatype DiskInodeType = File | Directory

record DiskInode =
  inode_id :: u32
  di_size :: u32
  direct :: "u32 list"
  indirect1 :: u32
  indirect2 :: u32
  nlink :: u32
  di_type :: DiskInodeType

text \<open>
  \<^verbatim>\<open>size_of::<DiskInode>()\<close>: 33 integers of four bytes, the one byte of the type, and three bytes of
  padding that no assignment changes.
\<close>

definition INODE_SZ :: nat where "INODE_SZ = 136"

fun encode_type :: "DiskInodeType \<Rightarrow> u8" where
  "encode_type File = 0"
| "encode_type Directory = 1"

definition encode_inode :: "DiskInode \<Rightarrow> u8 list \<Rightarrow> u8 list" where
  "encode_inode di old =
     encode_words 4 ([inode_id di, di_size di] @ direct di @ [indirect1 di, indirect2 di, nlink di]) @
     [encode_type (di_type di)] @ drop 133 old"

definition decode_inode :: "u8 list \<Rightarrow> DiskInode" where
  "decode_inode bytes = (let ws = decode_words 4 (take 132 bytes) in
     \<lparr>inode_id = ws ! 0, di_size = ws ! 1, direct = take 28 (drop 2 ws), indirect1 = ws ! 30,
      indirect2 = ws ! 31, nlink = ws ! 32, di_type = (if bytes ! 132 = 0 then File else Directory)\<rparr>)"

definition DiskInode_initialize :: "u32 \<Rightarrow> DiskInodeType \<Rightarrow> DiskInode \<Rightarrow> DiskInode" where
  "DiskInode_initialize inode t di =
     di\<lparr>inode_id := inode, di_size := 0, direct := map (\<lambda>_. 0) (direct di), indirect1 := 0, indirect2 := 0,
        nlink := 1, di_type := t\<rparr>"

definition inc_nlink :: "DiskInode \<Rightarrow> DiskInode" where
  "inc_nlink di = di\<lparr>nlink := nlink di + 1\<rparr>"

definition dec_nlink :: "DiskInode \<Rightarrow> DiskInode" where
  "dec_nlink di = di\<lparr>nlink := nlink di - 1\<rparr>"

definition is_dir :: "DiskInode \<Rightarrow> bool" where
  "is_dir di = (di_type di = Directory)"

definition is_file :: "DiskInode \<Rightarrow> bool" where
  "is_file di = (di_type di = File)"

text \<open>An index block is an array of 128 block ids.\<close>

definition u32s :: "u8 list \<Rightarrow> u32 list" where
  "u32s = decode_words 4"

definition read_index :: "u32 \<Rightarrow> nat \<Rightarrow> u32 prog" where
  "read_index b i =
     block_read (ucast b) 0 BLOCK_SZ (\<lambda>bytes.
       if i < INODE_INDIRECT1_COUNT then Done (u32s bytes ! i) else Fail OutOfBounds)"

definition get_block_id :: "u32 \<Rightarrow> DiskInode \<Rightarrow> u32 prog" where
  "get_block_id inner_id di = (let inner_id = unat inner_id in
     if inner_id < INODE_DIRECT_COUNT then Done (direct di ! inner_id)
     else if inner_id < INDIRECT1_BOUND then read_index (indirect1 di) (inner_id - INODE_DIRECT_COUNT)
     else if inner_id < INDIRECT2_BOUND then
       (let last = inner_id - INDIRECT1_BOUND in
        bind_prog (read_index (indirect2 di) (last div INODE_INDIRECT1_COUNT)) (\<lambda>indirect1.
        read_index indirect1 (last mod INODE_INDIRECT1_COUNT)))
     else Fail ExplicitPanic)"

definition data_blocks_of :: "u32 \<Rightarrow> u32" where
  "data_blocks_of sz = (sz + 512 - 1) div 512"

definition data_blocks :: "DiskInode \<Rightarrow> u32" where
  "data_blocks di = data_blocks_of (di_size di)"

definition total_blocks :: "u32 \<Rightarrow> u32" where
  "total_blocks sz = (let data_blocks = unat (data_blocks_of sz) in
     of_nat (data_blocks + (if INODE_DIRECT_COUNT < data_blocks then 1 else 0) +
       (if INDIRECT1_BOUND < data_blocks
        then 1 + (data_blocks - INDIRECT1_BOUND + INODE_INDIRECT1_COUNT - 1) div INODE_INDIRECT1_COUNT else 0)))"

definition blocks_num_needed :: "u32 \<Rightarrow> DiskInode \<Rightarrow> u32 res" where
  "blocks_num_needed new_size di =
     bind_res (assert_that (di_size di \<le> new_size)) (\<lambda>_. Ok (total_blocks new_size - total_blocks (di_size di)))"

section \<open>Growing a file\<close>

text \<open>
  The loops that fill \<^verbatim>\<open>direct\<close> and \<^verbatim>\<open>indirect1\<close>: \<open>xs[cur]\<close> takes the next new block while \<open>cur\<close> is below
  the limit. The rest of \<open>new_blocks\<close> is the state of the iterator. The number of blocks is at most
  2 to the 23, so the block counts are natural numbers from here on.
\<close>

function fill_loop :: "nat \<Rightarrow> nat \<Rightarrow> u32 list \<Rightarrow> u32 list \<Rightarrow> (nat \<times> u32 list \<times> u32 list) res" where
  "fill_loop cur lim xs new_blocks =
     (if cur < lim then
        (case new_blocks of
           [] \<Rightarrow> Panic UnwrapNone
         | b # new_blocks \<Rightarrow> fill_loop (cur + 1) lim (xs[cur := b]) new_blocks)
      else Ok (cur, xs, new_blocks))"
  by pat_completeness auto
termination by (relation "measure (\<lambda>(cur, lim, _, _). lim - cur)") auto

definition next_block :: "u32 list \<Rightarrow> (u32 \<times> u32 list) res" where
  "next_block new_blocks = (case new_blocks of [] \<Rightarrow> Panic UnwrapNone | b # rest \<Rightarrow> Ok (b, rest))"

text \<open>
  The loop that fills \<^verbatim>\<open>indirect2\<close> from \<open>(a0, b0)\<close> to \<open>(a1, b1)\<close>. \<open>b0\<close> stays below 128: it starts as a
  remainder and wraps to 0.
\<close>

function fill2_loop ::
  "nat \<Rightarrow> nat \<Rightarrow> nat \<Rightarrow> nat \<Rightarrow> u32 list \<Rightarrow> u32 list \<Rightarrow> (u32 list \<times> u32 list) prog" where
  "fill2_loop a0 b0 a1 b1 ind2 new_blocks =
     (if a0 < a1 \<or> (a0 = a1 \<and> b0 < b1) then
        (if INODE_INDIRECT1_COUNT \<le> a0 then
           Fail (if b0 = 0 \<and> new_blocks = [] then UnwrapNone else OutOfBounds)
         else if INODE_INDIRECT1_COUNT \<le> b0 then Fail OutOfBounds
         else
           bind_prog
             (if b0 = 0 then lift_res (bind_res (next_block new_blocks) (\<lambda>(b, rest). Ok (ind2[a0 := b], rest)))
              else Done (ind2, new_blocks)) (\<lambda>(ind2, new_blocks).
           bind_prog
             (block_modify (ucast (ind2 ! a0)) 0 BLOCK_SZ (\<lambda>bytes.
                lift_res (bind_res (next_block new_blocks) (\<lambda>(b, rest).
                  Ok (encode_words 4 ((u32s bytes)[b0 := b]), rest))))) (\<lambda>new_blocks.
           if b0 + 1 = INODE_INDIRECT1_COUNT then fill2_loop (a0 + 1) 0 a1 b1 ind2 new_blocks
           else fill2_loop a0 (b0 + 1) a1 b1 ind2 new_blocks)))
      else Done (ind2, new_blocks))"
  by pat_completeness auto
termination
proof (relation "measure (\<lambda>(a0, b0, a1, b1, _, _). (a1 * 128 + b1 + 1) - (a0 * 128 + b0))", goal_cases)
  case (2 a0 b0 a1 b1 ind2 new_blocks)
  then show ?case by (auto simp: layout_consts)
next
  case (3 a0 b0 a1 b1 ind2 new_blocks)
  then show ?case by (auto simp: layout_consts)
qed simp

declare fill_loop.simps [simp del] fill2_loop.simps [simp del]

definition increase_size :: "u32 \<Rightarrow> u32 list \<Rightarrow> DiskInode \<Rightarrow> DiskInode prog" where
  "increase_size new_size new_blocks di = (let
     current = unat (data_blocks di);
     di = di\<lparr>di_size := new_size\<rparr>;
     total = unat (data_blocks di)
   in
     bind_prog (lift_res (fill_loop current (min total INODE_DIRECT_COUNT) (direct di) new_blocks))
       (\<lambda>(current, xs, new_blocks). let di = di\<lparr>direct := xs\<rparr> in
     if INODE_DIRECT_COUNT < total then
       bind_prog
         (if current = INODE_DIRECT_COUNT then
            lift_res (bind_res (next_block new_blocks) (\<lambda>(b, rest). Ok (di\<lparr>indirect1 := b\<rparr>, rest)))
          else Done (di, new_blocks)) (\<lambda>(di, new_blocks). let
         current = current - INODE_DIRECT_COUNT;
         total = total - INODE_DIRECT_COUNT
       in
       bind_prog
         (block_modify (ucast (indirect1 di)) 0 BLOCK_SZ (\<lambda>bytes.
            lift_res (bind_res (fill_loop current (min total INODE_INDIRECT1_COUNT) (u32s bytes) new_blocks)
              (\<lambda>(current, xs, new_blocks). Ok (encode_words 4 xs, (current, new_blocks)))))) (\<lambda>(current, new_blocks).
       if INODE_INDIRECT1_COUNT < total then
         bind_prog
           (if current = INODE_INDIRECT1_COUNT then
              lift_res (bind_res (next_block new_blocks) (\<lambda>(b, rest). Ok (di\<lparr>indirect2 := b\<rparr>, rest)))
            else Done (di, new_blocks)) (\<lambda>(di, new_blocks). let
           current = current - INODE_INDIRECT1_COUNT;
           total = total - INODE_INDIRECT1_COUNT
         in
         bind_prog
           (block_modify (ucast (indirect2 di)) 0 BLOCK_SZ (\<lambda>bytes.
              bind_prog
                (fill2_loop (current div INODE_INDIRECT1_COUNT) (current mod INODE_INDIRECT1_COUNT)
                   (total div INODE_INDIRECT1_COUNT) (total mod INODE_INDIRECT1_COUNT) (u32s bytes) new_blocks)
                (\<lambda>(xs, _). Done (encode_words 4 xs, ())))) (\<lambda>_.
         Done di))
       else Done di))
     else Done di))"

section \<open>Clearing a file\<close>

definition clear_size :: "DiskInode \<Rightarrow> (u32 list \<times> DiskInode) prog" where
  "clear_size di = (let
     data_blocks = unat (data_blocks di);
     (v, xs) = fold (\<lambda>i (v, xs). (v @ [xs ! i], xs[i := 0])) [0..<min data_blocks INODE_DIRECT_COUNT] ([], direct di);
     di = di\<lparr>di_size := 0, direct := xs\<rparr>
   in
     if INODE_DIRECT_COUNT < data_blocks then (let
       v = v @ [indirect1 di];
       data_blocks = data_blocks - INODE_DIRECT_COUNT
     in
       bind_prog
         (block_modify (ucast (indirect1 di)) 0 BLOCK_SZ (\<lambda>bytes.
            Done (bytes, fold (\<lambda>i v. v @ [u32s bytes ! i]) [0..<min data_blocks INODE_INDIRECT1_COUNT] v))) (\<lambda>v. let
       di = di\<lparr>indirect1 := 0\<rparr>
     in
       if INODE_INDIRECT1_COUNT < data_blocks then (let
         v = v @ [indirect2 di];
         data_blocks = data_blocks - INODE_INDIRECT1_COUNT
       in
         bind_prog (lift_res (assert_that (data_blocks \<le> INODE_INDIRECT2_COUNT))) (\<lambda>_. let
         a1 = data_blocks div INODE_INDIRECT1_COUNT;
         b1 = data_blocks mod INODE_INDIRECT1_COUNT
       in
         bind_prog
           (block_modify (ucast (indirect2 di)) 0 BLOCK_SZ (\<lambda>bytes.
              bind_prog
                (fold_prog (\<lambda>entry v.
                   block_modify (ucast entry) 0 BLOCK_SZ (\<lambda>bytes. Done (bytes, (v @ [entry]) @ u32s bytes)))
                   (take a1 (u32s bytes)) v) (\<lambda>v.
              bind_prog
                (if 0 < b1 then
                   (let entry = u32s bytes ! a1 in
                    block_modify (ucast entry) 0 BLOCK_SZ (\<lambda>bytes. Done (bytes, (v @ [entry]) @ take b1 (u32s bytes))))
                 else Done v) (\<lambda>v.
              Done (bytes, v))))) (\<lambda>v.
         Done (v, di\<lparr>indirect2 := 0\<rparr>))))
       else Done (v, di))) 
     else Done (v, di))"

section \<open>Reading and writing a file\<close>

text \<open>Copying into a slice of a buffer, and a slice of a buffer.\<close>

definition copy_to_slice :: "nat \<Rightarrow> u8 list \<Rightarrow> u8 list \<Rightarrow> u8 list res" where
  "copy_to_slice off src buf =
     (if off + length src \<le> length buf then Ok (patch off src buf) else Panic OutOfBounds)"

definition slice :: "nat \<Rightarrow> nat \<Rightarrow> u8 list \<Rightarrow> u8 list res" where
  "slice off n buf = (if off + n \<le> length buf then Ok (take n (drop off buf)) else Panic OutOfBounds)"

text \<open>
  The loops run with \<open>cur \<le> fin\<close>, where \<open>fin\<close> (\<^verbatim>\<open>end\<close>) is at most the size of the file, a 32-bit integer; so the
  positions are natural numbers. The first result is \<^verbatim>\<open>read_size\<close>, the second the buffer.
\<close>

lemma next_block_end: "cur < (cur div BLOCK_SZ + 1) * BLOCK_SZ"
  by (simp add: BLOCK_SZ_def dividend_less_div_times)

lemma next_block_measure:
  "min ((cur div BLOCK_SZ + 1) * BLOCK_SZ) fin \<noteq> fin \<Longrightarrow>
     fin - min ((cur div BLOCK_SZ + 1) * BLOCK_SZ) fin < fin - cur"
  using next_block_end [of cur] by (auto simp: min_def split: if_splits)

function read_loop :: "DiskInode \<Rightarrow> nat \<Rightarrow> nat \<Rightarrow> nat \<Rightarrow> nat \<Rightarrow> u8 list \<Rightarrow> (nat \<times> u8 list) prog" where
  "read_loop di cur fin inner read_size buf = (let
     endc = min ((cur div BLOCK_SZ + 1) * BLOCK_SZ) fin;
     n = endc - cur
   in
     bind_prog (get_block_id (of_nat inner) di) (\<lambda>block_id.
     bind_prog
       (block_read (ucast block_id) 0 BLOCK_SZ (\<lambda>bytes.
          lift_res (bind_res (slice (cur mod BLOCK_SZ) n bytes) (\<lambda>src. copy_to_slice read_size src buf)))) (\<lambda>buf.
     if endc = fin then Done (read_size + n, buf)
     else read_loop di endc fin (inner + 1) (read_size + n) buf)))"
  by pat_completeness auto
termination
  by (relation "measure (\<lambda>(_, cur, fin, _, _, _). fin - cur)")
     (use next_block_measure in \<open>simp_all only: in_measure split_conv wf_measure\<close>)

function write_loop :: "DiskInode \<Rightarrow> nat \<Rightarrow> nat \<Rightarrow> nat \<Rightarrow> nat \<Rightarrow> u8 list \<Rightarrow> nat prog" where
  "write_loop di cur fin inner write_size buf = (let
     endc = min ((cur div BLOCK_SZ + 1) * BLOCK_SZ) fin;
     n = endc - cur
   in
     bind_prog (get_block_id (of_nat inner) di) (\<lambda>block_id.
     bind_prog
       (block_modify (ucast block_id) 0 BLOCK_SZ (\<lambda>bytes.
          lift_res (bind_res (slice write_size n buf) (\<lambda>src.
            bind_res (copy_to_slice (cur mod BLOCK_SZ) src bytes) (\<lambda>bytes. Ok (bytes, ())))))) (\<lambda>_.
     if endc = fin then Done (write_size + n)
     else write_loop di endc fin (inner + 1) (write_size + n) buf)))"
  by pat_completeness auto
termination
  by (relation "measure (\<lambda>(_, cur, fin, _, _, _). fin - cur)")
     (use next_block_measure in \<open>simp_all only: in_measure split_conv wf_measure\<close>)

declare read_loop.simps [simp del] write_loop.simps [simp del]

definition di_read_at :: "usize \<Rightarrow> u8 list \<Rightarrow> DiskInode \<Rightarrow> (nat \<times> u8 list) prog" where
  "di_read_at offset buf di = (let
     fin = min (offset + of_nat (length buf)) (ucast (di_size di))
   in
     if fin \<le> offset then Done (0, buf)
     else read_loop di (unat offset) (unat fin) (unat offset div BLOCK_SZ) 0 buf)"

definition di_write_at :: "usize \<Rightarrow> u8 list \<Rightarrow> DiskInode \<Rightarrow> nat prog" where
  "di_write_at offset buf di = (let
     fin = min (offset + of_nat (length buf)) (ucast (di_size di))
   in
     bind_prog (lift_res (assert_that (offset \<le> fin))) (\<lambda>_.
     write_loop di (unat offset) (unat fin) (unat offset div BLOCK_SZ) 0 buf))"

end
