(* ===== verification/Bitmap.thy ===== *)
theory Bitmap
  imports BlockProg Codec Allocator
begin

text \<open>
  \<^verbatim>\<open>easy-fs/src/bitmap.rs\<close>: the bitmaps of inodes and of data blocks. A block of a bitmap is an array of
  64 integers of 64 bits. A bitmap gives out its lowest clear bit; it is the third allocator of the
  repository that meets the contract \<open>allocator\<close>.
\<close>

section \<open>Operations\<close>

definition BLOCK_BITS :: nat where "BLOCK_BITS = BLOCK_SZ * 8"

record Bitmap =
  start_block_id :: usize
  bm_blocks :: usize

definition Bitmap_new :: "usize \<Rightarrow> usize \<Rightarrow> Bitmap" where
  "Bitmap_new start n = \<lparr>start_block_id = start, bm_blocks = n\<rparr>"

definition decomposition :: "nat \<Rightarrow> nat \<times> nat \<times> nat" where
  "decomposition b = (b div BLOCK_BITS, b mod BLOCK_BITS div 64, b mod BLOCK_BITS mod 64)"

text \<open>\<^verbatim>\<open>u64::trailing_ones\<close>\<close>

definition trailing_ones :: "u64 \<Rightarrow> nat" where
  "trailing_ones w = length (takeWhile (bit w) [0..<64])"

definition u64s :: "u8 list \<Rightarrow> u64 list" where
  "u64s = decode_words 8"

definition alloc_in_block :: "u8 list \<Rightarrow> u8 list \<times> nat option" where
  "alloc_in_block bytes = (let ws = u64s bytes in
     case find_index (\<lambda>bits64. bits64 \<noteq> - 1) ws of
       Some p \<Rightarrow> (let inner_pos = trailing_ones (ws ! p) in
         (encode_words 8 (ws[p := ws ! p OR push_bit inner_pos 1]), Some (p * 64 + inner_pos)))
     | None \<Rightarrow> (bytes, None))"

fun bm_alloc_loop :: "usize \<Rightarrow> nat list \<Rightarrow> nat option prog" where
  "bm_alloc_loop start [] = Done None"
| "bm_alloc_loop start (block_id # rest) =
     bind_prog
       (block_modify (start + of_nat block_id) 0 BLOCK_SZ (\<lambda>bytes.
          case alloc_in_block bytes of
            (bytes, Some pos) \<Rightarrow> Done (bytes, Some (block_id * BLOCK_BITS + pos))
          | (bytes, None) \<Rightarrow> Done (bytes, None))) (\<lambda>pos.
     case pos of Some _ \<Rightarrow> Done pos | None \<Rightarrow> bm_alloc_loop start rest)"

definition bm_alloc :: "Bitmap \<Rightarrow> nat option prog" where
  "bm_alloc bm = bm_alloc_loop (start_block_id bm) [0..<unat (bm_blocks bm)]"

definition bm_dealloc :: "nat \<Rightarrow> Bitmap \<Rightarrow> unit prog" where
  "bm_dealloc b bm = (case decomposition b of (block_pos, bits64_pos, inner_pos) \<Rightarrow>
     block_modify (start_block_id bm + of_nat block_pos) 0 BLOCK_SZ (\<lambda>bytes. let ws = u64s bytes in
       bind_prog (lift_res (assert_that (0 < ws ! bits64_pos AND push_bit inner_pos 1))) (\<lambda>_.
       Done (encode_words 8 (ws[bits64_pos := ws ! bits64_pos - push_bit inner_pos 1]), ()))))"

definition max_bits :: "Bitmap \<Rightarrow> usize" where
  "max_bits bm = bm_blocks bm * of_nat BLOCK_BITS"

section \<open>One block of a bitmap\<close>

definition block_bit :: "u8 list \<Rightarrow> nat \<Rightarrow> bool" where
  "block_bit bytes j = bit (u64s bytes ! (j div 64)) (j mod 64)"

lemma length_u64s [simp]: "length bytes = BLOCK_SZ \<Longrightarrow> length (u64s bytes) = 64"
  by (simp add: u64s_def BLOCK_SZ_def)

lemma u64s_encode [simp]: "u64s (encode_words 8 ws) = ws"
  by (simp add: u64s_def decode_encode_words)

lemma encode_u64s: "length bytes = BLOCK_SZ \<Longrightarrow> encode_words 8 (u64s bytes) = bytes"
  by (simp add: u64s_def encode_decode_words BLOCK_SZ_def)

lemma trailing_ones_spec:
  assumes "w \<noteq> - 1"
  shows "trailing_ones w < 64" and "\<not> bit w (trailing_ones w)" and "i < trailing_ones w \<Longrightarrow> bit w i"
proof -
  let ?t = "trailing_ones w"
  show below: "bit w i" if "i < trailing_ones w" for i
  proof -
    have "takeWhile (bit w) [0..<64] ! i = [0..<64] ! i" using that unfolding trailing_ones_def by (rule takeWhile_nth)
    moreover have "i < 64" using that length_takeWhile_le [of "bit w" "[0..<64]"] by (simp add: trailing_ones_def)
    moreover have "takeWhile (bit w) [0..<64] ! i \<in> set (takeWhile (bit w) [0..<64])"
      using that by (simp add: trailing_ones_def)
    ultimately show ?thesis by (auto dest: set_takeWhileD)
  qed
  show less: "?t < 64"
  proof (rule ccontr)
    assume "\<not> ?t < 64"
    then have "bit w i" if "i < 64" for i using below [of i] that by simp
    then have "w = - 1" by (intro bit_eqI) (simp add: bit_minus_1_iff)
    with assms show False ..
  qed
  then show "\<not> bit w ?t"
    using nth_length_takeWhile [of "bit w" "[0..<64]"] by (simp add: trailing_ones_def)
qed

lemma find_index_least: "find_index P xs = Some i \<Longrightarrow> j < i \<Longrightarrow> \<not> P (xs ! j)"
proof (induction xs arbitrary: i j)
  case (Cons a xs)
  then show ?case by (cases j) (auto split: if_splits)
qed simp

lemma alloc_in_block_Some:
  assumes len: "length bytes = BLOCK_SZ" and al: "alloc_in_block bytes = (bytes', Some j)"
  shows "length bytes' = BLOCK_SZ" and "j < BLOCK_BITS" and "\<not> block_bit bytes j"
    and "i < j \<Longrightarrow> block_bit bytes i"
    and "i < BLOCK_BITS \<Longrightarrow> block_bit bytes' i \<longleftrightarrow> i = j \<or> block_bit bytes i"
proof -
  let ?ws = "u64s bytes"
  obtain p where p: "find_index (\<lambda>bits64. bits64 \<noteq> - 1) ?ws = Some p"
    using al by (auto simp: alloc_in_block_def Let_def split: option.splits)
  define t where "t = trailing_ones (?ws ! p)"
  have j: "j = p * 64 + t" and b': "bytes' = encode_words 8 (?ws[p := ?ws ! p OR push_bit t 1])"
    using al p by (auto simp: alloc_in_block_def Let_def t_def)
  have pl: "p < 64" and wp: "?ws ! p \<noteq> - 1" using find_index_Some [OF p] len by auto
  note t = trailing_ones_spec [OF wp, folded t_def]
  have jd: "j div 64 = p" "j mod 64 = t" using t(1) by (simp_all add: j)
  show "length bytes' = BLOCK_SZ" using len by (simp add: b' BLOCK_SZ_def)
  show "j < BLOCK_BITS" using pl t(1) by (simp add: j BLOCK_BITS_def BLOCK_SZ_def)
  show "\<not> block_bit bytes j" using t(2) by (simp add: block_bit_def jd)
  show "block_bit bytes i" if "i < j"
  proof (cases "i div 64 = p")
    case True
    then have "i mod 64 < t" using that div_mult_mod_eq [of i 64] unfolding j by linarith
    with True t(3) show ?thesis by (simp add: block_bit_def)
  next
    case False
    moreover have "i div 64 \<le> p" using div_le_mono [of i j 64] that jd(1) by simp
    ultimately have lt: "i div 64 < p" by simp
    have "?ws ! (i div 64) = - 1" using find_index_least [OF p lt] by simp
    then show ?thesis by (simp add: block_bit_def bit_minus_1_iff)
  qed
  show "block_bit bytes' i \<longleftrightarrow> i = j \<or> block_bit bytes i" if "i < BLOCK_BITS"
  proof -
    have i: "i div 64 < 64" using that by (simp add: BLOCK_BITS_def BLOCK_SZ_def)
    have "i = j \<longleftrightarrow> i div 64 = p \<and> i mod 64 = t" using jd by (metis div_mult_mod_eq)
    then show ?thesis using i pl len
      by (auto simp: block_bit_def b' nth_list_update bit_or_iff bit_push_bit_iff bit_exp_iff)
  qed
qed

lemma alloc_in_block_None:
  assumes len: "length bytes = BLOCK_SZ" and al: "alloc_in_block bytes = (bytes', None)"
  shows "bytes' = bytes" and "i < BLOCK_BITS \<Longrightarrow> block_bit bytes i"
proof -
  have f: "find_index (\<lambda>bits64. bits64 \<noteq> - 1) (u64s bytes) = None"
    using al by (auto simp: alloc_in_block_def Let_def split: option.splits)
  show "bytes' = bytes" using al f by (auto simp: alloc_in_block_def Let_def)
  show "block_bit bytes i" if "i < BLOCK_BITS"
  proof -
    have "i div 64 < length (u64s bytes)" using that len by (simp add: BLOCK_BITS_def BLOCK_SZ_def)
    then have "u64s bytes ! (i div 64) = - 1" using f by (simp add: find_index_None)
    then show ?thesis by (simp add: block_bit_def bit_minus_1_iff)
  qed
qed

lemma sub_push_bit:
  assumes "bit (w :: u64) n"
  shows "w - push_bit n 1 = unset_bit n w"
proof -
  have "w = unset_bit n w + push_bit n 1"
  proof -
    have "unset_bit n w AND push_bit n 1 = 0"
      by (rule bit_eqI) (auto simp: bit_and_iff bit_unset_bit_iff bit_push_bit_iff bit_exp_iff)
    then have "unset_bit n w + push_bit n 1 = unset_bit n w OR push_bit n 1"
      by (simp add: disjunctive_add_eq_or)
    also have "\<dots> = w"
      by (rule bit_eqI) (use assms in \<open>auto simp: bit_or_iff bit_unset_bit_iff bit_push_bit_iff bit_exp_iff\<close>)
    finally show ?thesis ..
  qed
  then show ?thesis by (metis add_diff_cancel_right')
qed

lemma and_push_bit: "0 < (w :: u64) AND push_bit n 1 \<longleftrightarrow> n < 64 \<and> bit w n"
proof -
  have "w AND push_bit n 1 = (if bit w n then push_bit n 1 else 0)"
    by (rule bit_eqI) (auto simp: bit_and_iff bit_push_bit_iff bit_exp_iff)
  moreover have "push_bit n (1 :: u64) \<noteq> 0 \<longleftrightarrow> n < 64"
    by (auto simp: exp_eq_zero_iff)
  moreover have "bit w n \<Longrightarrow> n < 64" using bit_imp_le_length [of w n] by simp
  ultimately show ?thesis by (auto simp: word_gt_0)
qed

section \<open>A whole bitmap\<close>

definition bm_region :: "Bitmap \<Rightarrow> usize set" where
  "bm_region bm = (\<lambda>k. start_block_id bm + of_nat k) ` {..<unat (bm_blocks bm)}"

definition bm_bit :: "Bitmap \<Rightarrow> device \<Rightarrow> nat \<Rightarrow> bool" where
  "bm_bit bm d i = block_bit (d (start_block_id bm + of_nat (i div BLOCK_BITS))) (i mod BLOCK_BITS)"

definition bm_pool :: "Bitmap \<Rightarrow> nat set" where
  "bm_pool bm = {..<unat (bm_blocks bm) * BLOCK_BITS}"

definition bm_used :: "Bitmap \<Rightarrow> device \<Rightarrow> nat set" where
  "bm_used bm d = {i \<in> bm_pool bm. bm_bit bm d i}"

text \<open>Every block of the device has 512 bytes.\<close>

definition dev_ok :: "device \<Rightarrow> bool" where
  "dev_ok d = (\<forall>b. length (d b) = BLOCK_SZ)"

lemma dev_ok_upd [intro]: "\<lbrakk>dev_ok d; length bytes = BLOCK_SZ\<rbrakk> \<Longrightarrow> dev_ok (d(b := bytes))"
  by (auto simp: dev_ok_def)

lemma dev_okD [simp]: "dev_ok d \<Longrightarrow> length (d b) = BLOCK_SZ"
  by (simp add: dev_ok_def)

lemma block_bits_pos [simp]: "0 < BLOCK_BITS"
  by (simp add: BLOCK_BITS_def BLOCK_SZ_def)

lemma of_nat_usize_inj: "\<lbrakk>(a :: usize) + of_nat i = a + of_nat j; i < 2 ^ 64; j < 2 ^ 64\<rbrakk> \<Longrightarrow> i = j"
  by (metis add_left_cancel unat_of_nat_64)

lemma bm_bit_upd:
  assumes "k < unat (bm_blocks bm)" and "i \<in> bm_pool bm"
  shows "bm_bit bm (d(start_block_id bm + of_nat k := bytes)) i =
    (if i div BLOCK_BITS = k then block_bit bytes (i mod BLOCK_BITS) else bm_bit bm d i)"
proof -
  have "i div BLOCK_BITS < unat (bm_blocks bm)"
    using assms(2) by (simp add: bm_pool_def less_mult_imp_div_less)
  then have "start_block_id bm + of_nat (i div BLOCK_BITS) = start_block_id bm + of_nat k \<longleftrightarrow> i div BLOCK_BITS = k"
    using of_nat_usize_inj [of "start_block_id bm" "i div BLOCK_BITS" k] assms(1) unat_less_64 [of "bm_blocks bm"]
    by (meson less_trans)
  then show ?thesis by (simp add: bm_bit_def)
qed

lemma run_modify_whole:
  assumes "length H < BLOCK_CACHE_MAX_NUM" and "b \<notin> set H" and "dev_ok d"
    and "run (f (d b)) (b # H) d = Ok ((bytes', r), d')" and "length bytes' = BLOCK_SZ" and "dev_ok d'"
  shows "run (block_modify b 0 BLOCK_SZ f) H d = Ok (r, d'(b := bytes'))"
  using run_block_modify [OF assms(1,2), of 0 BLOCK_SZ f d bytes' r d'] assms(3-) by simp

lemma bm_alloc_loop_spec:
  assumes "n = unat (bm_blocks bm)" and "k \<le> n" and d: "dev_ok d"
    and H: "length H < BLOCK_CACHE_MAX_NUM" "set H \<inter> bm_region bm = {}"
    and below: "\<forall>i < k * BLOCK_BITS. bm_bit bm d i"
  shows "(bm_used bm d = bm_pool bm \<and> run (bm_alloc_loop (start_block_id bm) [k..<n]) H d = Ok (None, d)) \<or>
    (\<exists>i d'. run (bm_alloc_loop (start_block_id bm) [k..<n]) H d = Ok (Some i, d') \<and> dev_ok d' \<and>
       i \<in> bm_pool bm \<and> i \<notin> bm_used bm d \<and> (\<forall>j < i. j \<in> bm_used bm d) \<and>
       bm_used bm d' = insert i (bm_used bm d) \<and> (\<forall>b. b \<notin> bm_region bm \<longrightarrow> d' b = d b))"
  using assms(2) below
proof (induction "n - k" arbitrary: k)
  case 0
  then have "k = n" by simp
  then have "bm_used bm d = bm_pool bm" using 0 assms(1) by (auto simp: bm_used_def bm_pool_def)
  with \<open>k = n\<close> show ?case by simp
next
  case (Suc m)
  then have kn: "k < n" by simp
  let ?b = "start_block_id bm + of_nat k"
  have reg: "?b \<in> bm_region bm" using kn assms(1) by (auto simp: bm_region_def)
  then have bH: "?b \<notin> set H" using H(2) by auto
  have len: "length (d ?b) = BLOCK_SZ" using d by simp
  have blk: "block_bit (d ?b) j \<longleftrightarrow> bm_bit bm d (k * BLOCK_BITS + j)" if "j < BLOCK_BITS" for j
    using that by (simp add: bm_bit_def)
  have upt: "[k..<n] = k # [Suc k..<n]" using kn by (rule upt_conv_Cons)
  obtain bytes' r where al: "alloc_in_block (d ?b) = (bytes', r)" by fastforce
  show ?case
  proof (cases r)
    case None
    note no = alloc_in_block_None [OF len al [unfolded None]]
    have "d(?b := bytes') = d" using no(1) by simp
    then have step: "run (bm_alloc_loop (start_block_id bm) [k..<n]) H d =
        run (bm_alloc_loop (start_block_id bm) [Suc k..<n]) H d"
      using run_modify_whole [OF H(1) bH d, where r = "None :: nat option" and bytes' = bytes' and d' = d
        and f = "\<lambda>bytes. case alloc_in_block bytes of (bytes, Some pos) \<Rightarrow> Done (bytes, Some (k * BLOCK_BITS + pos))
          | (bytes, None) \<Rightarrow> Done (bytes, None)"] al None no(1) len d
      by (simp add: upt run_simps)
    have "\<forall>i < Suc k * BLOCK_BITS. bm_bit bm d i"
    proof (intro allI impI)
      fix i assume i: "i < Suc k * BLOCK_BITS"
      show "bm_bit bm d i"
      proof (cases "i < k * BLOCK_BITS")
        case False
        then have "i = k * BLOCK_BITS + (i - k * BLOCK_BITS)" "i - k * BLOCK_BITS < BLOCK_BITS" using i by auto
        then show ?thesis using no(2) blk by metis
      qed (use Suc.prems in auto)
    qed
    with Suc.hyps(1) [of "Suc k"] Suc.hyps(2) kn show ?thesis unfolding step by simp
  next
    case (Some j)
    note so = alloc_in_block_Some [OF len al [unfolded Some]]
    define i where "i = k * BLOCK_BITS + j"
    define d' where "d' = d(?b := bytes')"
    have i: "i div BLOCK_BITS = k" "i mod BLOCK_BITS = j" using so(2) by (simp_all add: i_def)
    have "i < Suc k * BLOCK_BITS" using so(2) by (simp add: i_def)
    also have "\<dots> \<le> n * BLOCK_BITS" using kn by (intro mult_le_mono1) simp
    finally have ip: "i \<in> bm_pool bm" by (simp add: bm_pool_def assms(1))
    have "run (bm_alloc_loop (start_block_id bm) [k..<n]) H d = Ok (Some i, d')"
      using run_modify_whole [OF H(1) bH d, where r = "Some i" and bytes' = bytes' and d' = d
        and f = "\<lambda>bytes. case alloc_in_block bytes of (bytes, Some pos) \<Rightarrow> Done (bytes, Some (k * BLOCK_BITS + pos))
          | (bytes, None) \<Rightarrow> Done (bytes, None)"] al Some so(1) d
      by (simp add: upt run_simps i_def d'_def)
    moreover have "dev_ok d'" using d so(1) by (auto simp: d'_def)
    moreover have "i \<notin> bm_used bm d" using so(2,3) blk [of j] by (auto simp: bm_used_def i_def)
    moreover have "bm_bit bm d j'" if "j' < i" for j'
    proof (cases "j' < k * BLOCK_BITS")
      case False
      then have "j' = k * BLOCK_BITS + (j' - k * BLOCK_BITS)" "j' - k * BLOCK_BITS < j" using that by (auto simp: i_def)
      then show ?thesis using so(2,4) blk by (metis less_trans)
    qed (use Suc.prems in auto)
    then have "\<forall>j' < i. j' \<in> bm_used bm d" using ip by (auto simp: bm_used_def bm_pool_def)
    moreover have "bm_bit bm d' x \<longleftrightarrow> x = i \<or> bm_bit bm d x" if x: "x \<in> bm_pool bm" for x
    proof (cases "x div BLOCK_BITS = k")
      case True
      then have xk: "x = k * BLOCK_BITS + x mod BLOCK_BITS" by (metis div_mult_mod_eq)
      then have "x = i \<longleftrightarrow> x mod BLOCK_BITS = j" unfolding i_def by linarith
      then show ?thesis using True so(5) [of "x mod BLOCK_BITS"] kn x blk [of "x mod BLOCK_BITS"] assms(1)
        by (simp add: d'_def bm_bit_upd xk [symmetric])
    next
      case False
      then show ?thesis using i(1) kn x assms(1) by (auto simp: d'_def bm_bit_upd)
    qed
    then have "bm_used bm d' = insert i (bm_used bm d)" using ip by (auto simp: bm_used_def)
    moreover have "\<forall>b. b \<notin> bm_region bm \<longrightarrow> d' b = d b" using reg by (auto simp: d'_def)
    ultimately show ?thesis using ip by blast
  qed
qed

lemma bm_alloc_spec:
  assumes "dev_ok d" and "length H < BLOCK_CACHE_MAX_NUM" and "set H \<inter> bm_region bm = {}"
  shows "(bm_used bm d = bm_pool bm \<and> run (bm_alloc bm) H d = Ok (None, d)) \<or>
    (\<exists>i d'. run (bm_alloc bm) H d = Ok (Some i, d') \<and> dev_ok d' \<and>
       i \<in> bm_pool bm \<and> i \<notin> bm_used bm d \<and> (\<forall>j < i. j \<in> bm_used bm d) \<and>
       bm_used bm d' = insert i (bm_used bm d) \<and> (\<forall>b. b \<notin> bm_region bm \<longrightarrow> d' b = d b))"
  using bm_alloc_loop_spec [of "unat (bm_blocks bm)" bm 0 d H] assms by (simp add: bm_alloc_def)

lemma bm_dealloc_run:
  assumes "dev_ok d" and "length H < BLOCK_CACHE_MAX_NUM"
    and bH: "start_block_id bm + of_nat (i div BLOCK_BITS) \<notin> set H"
  shows "run (bm_dealloc i bm) H d =
    (if bm_bit bm d i
     then Ok ((), d(start_block_id bm + of_nat (i div BLOCK_BITS) :=
       encode_words 8 ((u64s (d (start_block_id bm + of_nat (i div BLOCK_BITS))))[i mod BLOCK_BITS div 64 :=
         unset_bit (i mod 64) (u64s (d (start_block_id bm + of_nat (i div BLOCK_BITS))) ! (i mod BLOCK_BITS div 64))])))
     else Panic AssertFailed)"
proof -
  let ?b = "start_block_id bm + of_nat (i div BLOCK_BITS)" and ?p = "i mod BLOCK_BITS div 64"
  let ?w = "u64s (d ?b) ! ?p"
  have m: "i mod BLOCK_BITS mod 64 = i mod 64" by (simp add: BLOCK_BITS_def BLOCK_SZ_def mod_mod_cancel)
  have set_iff: "bm_bit bm d i \<longleftrightarrow> bit ?w (i mod 64)" by (simp add: bm_bit_def block_bit_def m)
  have sz: "length (encode_words 8 ((u64s (d ?b))[?p := w])) = BLOCK_SZ" for w
    using assms(1) by (simp add: BLOCK_SZ_def)
  show ?thesis
  proof (cases "bit ?w (i mod 64)")
    case True
    then have "run (bm_dealloc i bm) H d = Ok ((), d(?b := encode_words 8 ((u64s (d ?b))[?p := ?w - push_bit (i mod 64) 1])))"
      unfolding bm_dealloc_def decomposition_def prod.case m
      by (intro run_modify_whole) (use assms bH sz in \<open>auto simp: run_simps Let_def and_push_bit simp del: push_bit_of_1\<close>)
    with True show ?thesis by (simp add: set_iff sub_push_bit del: push_bit_of_1)
  next
    case False
    then show ?thesis using assms bH
      by (simp add: bm_dealloc_def decomposition_def block_modify_def run_simps Let_def m and_push_bit set_iff
          del: push_bit_of_1)
  qed
qed

lemma bm_dealloc_spec:
  assumes d: "dev_ok d" and H: "length H < BLOCK_CACHE_MAX_NUM" "set H \<inter> bm_region bm = {}" and i: "i \<in> bm_used bm d"
  shows "\<exists>d'. run (bm_dealloc i bm) H d = Ok ((), d') \<and> dev_ok d' \<and> bm_used bm d' = bm_used bm d - {i} \<and>
    (\<forall>b. b \<notin> bm_region bm \<longrightarrow> d' b = d b)"
proof -
  define k where "k = i div BLOCK_BITS"
  define b where "b = start_block_id bm + of_nat k"
  define p where "p = i mod BLOCK_BITS div 64"
  define bytes where "bytes = encode_words 8 ((u64s (d b))[p := unset_bit (i mod 64) (u64s (d b) ! p)])"
  have ip: "i \<in> bm_pool bm" "bm_bit bm d i" using i by (auto simp: bm_used_def)
  have kn: "k < unat (bm_blocks bm)" using ip(1) by (simp add: bm_pool_def k_def less_mult_imp_div_less)
  then have reg: "b \<in> bm_region bm" by (auto simp: bm_region_def b_def)
  have "run (bm_dealloc i bm) H d = Ok ((), d(b := bytes))"
    using bm_dealloc_run [OF d H(1), of bm i] reg H(2) ip(2) by (auto simp: b_def k_def p_def bytes_def)
  moreover have len: "length bytes = BLOCK_SZ" using d by (simp add: bytes_def BLOCK_SZ_def)
  then have "dev_ok (d(b := bytes))" using d by auto
  moreover have "bm_bit bm (d(b := bytes)) x \<longleftrightarrow> x \<noteq> i \<and> bm_bit bm d x" if x: "x \<in> bm_pool bm" for x
  proof (cases "x div BLOCK_BITS = k")
    case True
    let ?j = "x mod BLOCK_BITS"
    have m: "?j mod 64 = x mod 64" "i mod BLOCK_BITS mod 64 = i mod 64"
      by (simp_all add: BLOCK_BITS_def BLOCK_SZ_def mod_mod_cancel)
    have jl: "?j div 64 < 64" by (simp add: BLOCK_BITS_def BLOCK_SZ_def less_mult_imp_div_less)
    have "x = i \<longleftrightarrow> ?j = i mod BLOCK_BITS" using True unfolding k_def by (metis div_mult_mod_eq)
    also have "\<dots> \<longleftrightarrow> ?j div 64 = p \<and> x mod 64 = i mod 64" unfolding p_def m [symmetric] by (metis div_mult_mod_eq)
    finally have xi: "x = i \<longleftrightarrow> ?j div 64 = p \<and> x mod 64 = i mod 64" .
    have "bm_bit bm d x \<longleftrightarrow> bit (u64s (d b) ! (?j div 64)) (x mod 64)"
      using True by (simp add: bm_bit_def block_bit_def m b_def)
    moreover have "block_bit bytes ?j \<longleftrightarrow> x \<noteq> i \<and> bit (u64s (d b) ! (?j div 64)) (x mod 64)"
      using jl d xi by (cases "?j div 64 = p") (auto simp: block_bit_def bytes_def m bit_unset_bit_iff)
    ultimately show ?thesis using True bm_bit_upd [OF kn x, of d bytes] by (simp add: b_def)
  next
    case False
    then show ?thesis using bm_bit_upd [OF kn x, of d bytes] by (auto simp: b_def k_def)
  qed
  then have "bm_used bm (d(b := bytes)) = bm_used bm d - {i}" by (auto simp: bm_used_def)
  moreover have "\<forall>b'. b' \<notin> bm_region bm \<longrightarrow> (d(b := bytes)) b' = d b'" using reg by auto
  ultimately show ?thesis by blast
qed

section \<open>The contract of an allocator\<close>

definition bm_alloc_on :: "Bitmap \<Rightarrow> device \<Rightarrow> (nat \<times> device) option" where
  "bm_alloc_on bm d = (case run (bm_alloc bm) [] d of Ok (Some i, d') \<Rightarrow> Some (i, d') | _ \<Rightarrow> None)"

definition bm_dealloc_on :: "Bitmap \<Rightarrow> nat \<Rightarrow> device \<Rightarrow> device res" where
  "bm_dealloc_on bm i d = bind_res (run (bm_dealloc i bm) [] d) (\<lambda>(_, d'). Ok d')"

interpretation bits: allocator "bm_alloc_on bm" "bm_dealloc_on bm" dev_ok "bm_used bm" "\<lambda>_. bm_pool bm" for bm
proof
  have H: "length ([] :: usize list) < BLOCK_CACHE_MAX_NUM" "set [] \<inter> bm_region bm = {}"
    by (simp_all add: BLOCK_CACHE_MAX_NUM_def)
  fix d d' :: device and i :: nat
  show "dev_ok d' \<and> i \<notin> bm_used bm d \<and> bm_used bm d' = insert i (bm_used bm d) \<and> bm_pool bm = bm_pool bm"
    if "dev_ok d" "bm_alloc_on bm d = Some (i, d')"
    using bm_alloc_spec [OF that(1) H] that(2) by (auto simp: bm_alloc_on_def)
  show "bm_used bm d = bm_pool bm" if "dev_ok d" "bm_alloc_on bm d = None"
    using bm_alloc_spec [OF that(1) H] that(2) by (auto simp: bm_alloc_on_def)
  show "\<exists>d'. bm_dealloc_on bm i d = Ok d' \<and> dev_ok d' \<and> bm_used bm d' = bm_used bm d - {i} \<and> bm_pool bm = bm_pool bm"
    if "dev_ok d" "i \<in> bm_used bm d"
    using bm_dealloc_spec [OF that(1) H that(2)] by (auto simp: bm_dealloc_on_def)
  show "\<exists>e. bm_dealloc_on bm i d' = Panic e" if "dev_ok d" "bm_dealloc_on bm i d = Ok d'"
  proof -
    let ?b = "start_block_id bm + of_nat (i div BLOCK_BITS)" and ?p = "i mod BLOCK_BITS div 64"
    have m: "i mod BLOCK_BITS mod 64 = i mod 64" by (simp add: BLOCK_BITS_def BLOCK_SZ_def mod_mod_cancel)
    have p: "?p < 64" by (simp add: BLOCK_BITS_def BLOCK_SZ_def less_mult_imp_div_less)
    have d': "d' = d(?b := encode_words 8 ((u64s (d ?b))[?p := unset_bit (i mod 64) (u64s (d ?b) ! ?p)]))"
      using bm_dealloc_run [OF that(1) H(1), of bm i] that(2)
      by (auto simp: bm_dealloc_on_def simp del: fun_upd_apply split: if_splits)
    have "dev_ok d'" unfolding d' using that(1) by (auto intro: dev_ok_upd simp: BLOCK_SZ_def)
    moreover have "\<not> bm_bit bm d' i"
      using p that(1) by (simp add: d' bm_bit_def block_bit_def m bit_unset_bit_iff)
    ultimately show ?thesis using bm_dealloc_run [OF _ H(1), of d' bm i] by (auto simp: bm_dealloc_on_def)
  qed
  show "bm_used bm d \<subseteq> bm_pool bm" if "dev_ok d" by (auto simp: bm_used_def)
qed

end
