(* ===== verification/Efs.thy ===== *)
theory Efs
  imports Layout Bitmap
begin

text \<open>
  \<^verbatim>\<open>easy-fs/src/efs.rs\<close>: a file system on a block device. The blocks are, in this order: the super
  block, the bitmap of inodes, the inodes, the bitmap of data blocks, and the data blocks. The
  fields of \<^verbatim>\<open>EasyFileSystem\<close> do not change after it is made, so the structure is a constant of the
  programs below; what changes is on the blocks.
\<close>

record EasyFileSystem =
  inode_bitmap :: Bitmap
  data_bitmap :: Bitmap
  inode_area_start_block :: u32
  data_area_start_block :: u32

definition get_disk_inode_pos :: "u32 \<Rightarrow> EasyFileSystem \<Rightarrow> u32 \<times> nat" where
  "get_disk_inode_pos inode fs = (let
     inode_size = INODE_SZ;
     inodes_per_block = of_nat (BLOCK_SZ div inode_size) :: u32
   in (inode_area_start_block fs + inode div inodes_per_block, unat (inode mod inodes_per_block) * inode_size))"

definition get_data_block_id :: "u32 \<Rightarrow> EasyFileSystem \<Rightarrow> u32" where
  "get_data_block_id data_block_id fs = data_area_start_block fs + data_block_id"

definition alloc_inode :: "EasyFileSystem \<Rightarrow> u32 prog" where
  "alloc_inode fs =
     bind_prog (bm_alloc (inode_bitmap fs)) (\<lambda>pos. bind_prog (lift_res (unwrap pos)) (\<lambda>pos. Done (of_nat pos)))"

definition alloc_data :: "EasyFileSystem \<Rightarrow> u32 prog" where
  "alloc_data fs =
     bind_prog (bm_alloc (data_bitmap fs)) (\<lambda>pos.
     bind_prog (lift_res (unwrap pos)) (\<lambda>pos. Done (of_nat pos + data_area_start_block fs)))"

definition clear_block :: "usize \<Rightarrow> unit prog" where
  "clear_block b = block_modify b 0 BLOCK_SZ (\<lambda>bytes. Done (map (\<lambda>_. 0) bytes, ()))"

definition dealloc_data :: "u32 \<Rightarrow> EasyFileSystem \<Rightarrow> unit prog" where
  "dealloc_data block_id fs =
     bind_prog (clear_block (ucast block_id)) (\<lambda>_.
     bm_dealloc (unat (block_id - data_area_start_block fs)) (data_bitmap fs))"

definition efs_create :: "u32 \<Rightarrow> u32 \<Rightarrow> EasyFileSystem prog" where
  "efs_create total_blks inode_bitmap_blks = (let
     inode_bm = Bitmap_new 1 (ucast inode_bitmap_blks);
     inode_num = max_bits inode_bm;
     inode_area_blks = ucast ((inode_num * of_nat INODE_SZ + of_nat BLOCK_SZ - 1) div of_nat BLOCK_SZ) :: u32;
     inode_total_blks = inode_bitmap_blks + inode_area_blks;
     data_total_blks = total_blks - 1 - inode_total_blks;
     data_bitmap_blks = (data_total_blks + 4096) div 4097;
     data_area_blks = data_total_blks - data_bitmap_blks;
     data_bm = Bitmap_new (ucast (1 + inode_bitmap_blks + inode_area_blks)) (ucast data_bitmap_blks);
     efs = \<lparr>inode_bitmap = inode_bm, data_bitmap = data_bm, inode_area_start_block = 1 + inode_bitmap_blks,
       data_area_start_block = 1 + inode_total_blks + data_bitmap_blks\<rparr>
   in
     bind_prog (fold_prog (\<lambda>i _. clear_block (of_nat i)) [0..<unat total_blks] ()) (\<lambda>_.
     bind_prog
       (block_modify 0 0 24 (\<lambda>_.
          Done (encode_super (SuperBlock_initialize total_blks inode_bitmap_blks inode_area_blks data_bitmap_blks
            data_area_blks), ()))) (\<lambda>_.
     bind_prog (alloc_inode efs) (\<lambda>root.
     bind_prog (lift_res (assert_that (root = 0))) (\<lambda>_.
     case get_disk_inode_pos 0 efs of (root_inode_block_id, root_inode_offset) \<Rightarrow>
     bind_prog
       (block_modify (ucast root_inode_block_id) root_inode_offset INODE_SZ (\<lambda>bytes.
          Done (encode_inode (DiskInode_initialize 0 Directory (decode_inode bytes)) bytes, ()))) (\<lambda>_.
     Sync [] (Done efs)))))))"

definition efs_open :: "EasyFileSystem prog" where
  "efs_open =
     block_read 0 0 24 (\<lambda>bytes. let sb = decode_super bytes in
       bind_prog (lift_res (assert_that (is_valid sb))) (\<lambda>_. let
         inode_total_blks = inode_bitmap_blocks sb + inode_area_blocks sb
       in
         Done \<lparr>inode_bitmap = Bitmap_new 1 (ucast (inode_bitmap_blocks sb)),
           data_bitmap = Bitmap_new (ucast (1 + inode_total_blks)) (ucast (data_bitmap_blocks sb)),
           inode_area_start_block = 1 + inode_bitmap_blocks sb,
           data_area_start_block = 1 + inode_total_blks + data_bitmap_blocks sb\<rparr>))"

end
