(* ===== verification/DirEntry.thy ===== *)
theory DirEntry
  imports Layout
begin

text \<open>
  The directory entries of \<^verbatim>\<open>easy-fs/src/layout.rs\<close>: a name of at most 27 bytes, padded with zero bytes to
  28, and an inode number. A \<^verbatim>\<open>&str\<close> is its list of bytes, which are valid UTF-8.
\<close>

section \<open>UTF-8\<close>

definition continuation :: "u8 \<Rightarrow> bool" where
  "continuation b = (0x80 \<le> b \<and> b \<le> 0xBF)"

text \<open>What \<^verbatim>\<open>core::str::from_utf8\<close> accepts.\<close>

fun valid_utf8 :: "u8 list \<Rightarrow> bool" where
  "valid_utf8 [] = True"
| "valid_utf8 (a # r) =
     (if a < 0x80 then valid_utf8 r
      else if 0xC2 \<le> a \<and> a \<le> 0xDF then
        (case r of b # r \<Rightarrow> continuation b \<and> valid_utf8 r | _ \<Rightarrow> False)
      else if 0xE0 \<le> a \<and> a \<le> 0xEF then
        (case r of b # c # r \<Rightarrow>
           (if a = 0xE0 then 0xA0 \<le> b else True) \<and> (if a = 0xED then b \<le> 0x9F else True) \<and>
           continuation b \<and> continuation c \<and> valid_utf8 r
         | _ \<Rightarrow> False)
      else if 0xF0 \<le> a \<and> a \<le> 0xF4 then
        (case r of b # c # e # r \<Rightarrow>
           (if a = 0xF0 then 0x90 \<le> b else True) \<and> (if a = 0xF4 then b \<le> 0x8F else True) \<and>
           continuation b \<and> continuation c \<and> continuation e \<and> valid_utf8 r
         | _ \<Rightarrow> False)
      else False)"

lemma valid_utf8_ascii: "\<forall>c \<in> set name. c < 0x80 \<Longrightarrow> valid_utf8 name"
  by (induction name) auto

section \<open>Directory entries\<close>

record DirEntry =
  de_name :: "u8 list"
  inode_number :: u32

definition DirEntry_new_zeros :: DirEntry where
  "DirEntry_new_zeros = \<lparr>de_name = replicate (NAME_LENGTH_LIMIT + 1) 0, inode_number = 0\<rparr>"

definition DirEntry_new :: "u8 list \<Rightarrow> u32 \<Rightarrow> DirEntry res" where
  "DirEntry_new name ino =
     bind_res (copy_to_slice 0 name (replicate (NAME_LENGTH_LIMIT + 1) 0)) (\<lambda>bytes.
     Ok \<lparr>de_name = bytes, inode_number = ino\<rparr>)"

definition as_bytes :: "DirEntry \<Rightarrow> u8 list" where
  "as_bytes de = de_name de @ le_bytes 4 (inode_number de)"

text \<open>The entry whose bytes \<^verbatim>\<open>as_bytes_mut\<close> gives, after they have been overwritten.\<close>

definition of_bytes :: "u8 list \<Rightarrow> DirEntry" where
  "of_bytes bytes = \<lparr>de_name = take 28 bytes, inode_number = le_word (take 4 (drop 28 bytes))\<rparr>"

definition dirent_name :: "DirEntry \<Rightarrow> u8 list res" where
  "dirent_name de = (case find_index (\<lambda>c. c = 0) (de_name de) of
     None \<Rightarrow> Panic OutOfBounds
   | Some len \<Rightarrow>
       if valid_utf8 (take len (de_name de)) then Ok (take len (de_name de)) else Panic UnwrapErr)"

section \<open>Round trip\<close>

lemma of_bytes_as_bytes: "length (de_name de) = 28 \<Longrightarrow> of_bytes (as_bytes de) = de"
  by (simp add: of_bytes_def as_bytes_def le_word_le_bytes)

lemma as_bytes_of_bytes: "length bytes = DIRENT_SZ \<Longrightarrow> as_bytes (of_bytes bytes) = bytes"
proof -
  assume len: "length bytes = DIRENT_SZ"
  then have "le_bytes 4 (le_word (take 4 (drop 28 bytes)) :: u32) = take 4 (drop 28 bytes)"
    by (intro le_bytes_le_word) (simp_all add: DIRENT_SZ_def)
  moreover have "take 28 bytes @ take 4 (drop 28 bytes) = take (28 + 4) bytes" by (rule take_add [symmetric])
  ultimately show ?thesis using len by (simp add: as_bytes_def of_bytes_def DIRENT_SZ_def)
qed

lemma length_as_bytes: "length (de_name de) = 28 \<Longrightarrow> length (as_bytes de) = DIRENT_SZ"
  by (simp add: as_bytes_def DIRENT_SZ_def)

lemma find_index_append: "\<forall>x \<in> set xs. \<not> P x \<Longrightarrow> P y \<Longrightarrow> find_index P (xs @ y # ys) = Some (length xs)"
  by (induction xs) auto

text \<open>Names that a directory entry can hold.\<close>

definition good_name :: "u8 list \<Rightarrow> bool" where
  "good_name name = (length name \<le> NAME_LENGTH_LIMIT \<and> 0 \<notin> set name \<and> valid_utf8 name)"

lemma DirEntry_new_good:
  assumes "good_name name"
  shows "\<exists>de. DirEntry_new name ino = Ok de \<and> length (de_name de) = 28 \<and> dirent_name de = Ok name \<and> inode_number de = ino"
proof -
  let ?de = "\<lparr>de_name = name @ replicate (28 - length name) 0, inode_number = ino\<rparr>"
  have l: "length name \<le> 27" using assms by (simp add: good_name_def NAME_LENGTH_LIMIT_def)
  then have "replicate (28 - length name) (0 :: u8) = 0 # replicate (27 - length name) 0"
    by (simp add: Suc_diff_le flip: replicate_Suc)
  then have "find_index (\<lambda>c. c = 0) (name @ replicate (28 - length name) 0) = Some (length name)"
    using assms by (auto simp: good_name_def intro!: find_index_append)
  moreover have "DirEntry_new name ino = Ok ?de"
    using l by (simp add: DirEntry_new_def copy_to_slice_def patch_def NAME_LENGTH_LIMIT_def)
  ultimately show ?thesis using assms l by (simp add: dirent_name_def good_name_def)
qed

end
