(* ===== verification/Vfs.thy ===== *)
theory Vfs
  imports Efs DirEntry
begin

text \<open>
  \<^verbatim>\<open>easy-fs/src/vfs.rs\<close>: the operations on an inode that the kernel and \<^verbatim>\<open>easy-fs-fuse\<close> call. An \<^verbatim>\<open>Inode\<close> is
  the position of its disk inode; the file system it belongs to is an argument. Every operation takes
  the lock of the file system where the source does and releases it on return, and none calls
  another operation while it holds it.
\<close>

record Inode =
  in_block_id :: usize
  in_block_offset :: nat

definition Inode_new :: "u32 \<Rightarrow> nat \<Rightarrow> Inode" where
  "Inode_new block_id block_offset = \<lparr>in_block_id = ucast block_id, in_block_offset = block_offset\<rparr>"

definition root_inode :: "EasyFileSystem \<Rightarrow> Inode" where
  "root_inode efs = (case get_disk_inode_pos 0 efs of (block_id, block_offset) \<Rightarrow> Inode_new block_id block_offset)"

definition read_disk_inode :: "Inode \<Rightarrow> (DiskInode \<Rightarrow> 'a prog) \<Rightarrow> 'a prog" where
  "read_disk_inode ino f = block_read (in_block_id ino) (in_block_offset ino) INODE_SZ (\<lambda>bytes. f (decode_inode bytes))"

definition modify_disk_inode :: "Inode \<Rightarrow> (DiskInode \<Rightarrow> (DiskInode \<times> 'a) prog) \<Rightarrow> 'a prog" where
  "modify_disk_inode ino f =
     block_modify (in_block_id ino) (in_block_offset ino) INODE_SZ (\<lambda>bytes.
       bind_prog (f (decode_inode bytes)) (\<lambda>(di, r). Done (encode_inode di bytes, r)))"

definition vfs_inode_id :: "Inode \<Rightarrow> u32 prog" where
  "vfs_inode_id ino = read_disk_inode ino (\<lambda>di. Done (inode_id di))"

definition vfs_nlink :: "Inode \<Rightarrow> usize prog" where
  "vfs_nlink ino = read_disk_inode ino (\<lambda>di. Done (ucast (nlink di)))"

definition vfs_mode :: "Inode \<Rightarrow> DiskInodeType prog" where
  "vfs_mode ino = read_disk_inode ino (\<lambda>di. Done (if is_dir di then Directory else File))"

section \<open>Looking names up\<close>

text \<open>The entry \<open>i\<close> of a directory, read over the bytes of an old entry.\<close>

definition read_dirent :: "nat \<Rightarrow> DirEntry \<Rightarrow> DiskInode \<Rightarrow> DirEntry prog" where
  "read_dirent i dirent di =
     bind_prog (di_read_at (of_nat DIRENT_SZ * of_nat i) (as_bytes dirent) di) (\<lambda>(n, bytes).
     bind_prog (lift_res (assert_that (n = DIRENT_SZ))) (\<lambda>_. Done (of_bytes bytes)))"

fun find_loop :: "u8 list \<Rightarrow> DiskInode \<Rightarrow> nat list \<Rightarrow> DirEntry \<Rightarrow> u32 option prog" where
  "find_loop name di [] dirent = Done None"
| "find_loop name di (i # is) dirent =
     bind_prog (read_dirent i dirent di) (\<lambda>dirent.
     bind_prog (lift_res (dirent_name dirent)) (\<lambda>nm.
     if nm = name then Done (Some (inode_number dirent)) else find_loop name di is dirent))"

definition find_inode_id :: "u8 list \<Rightarrow> DiskInode \<Rightarrow> u32 option prog" where
  "find_inode_id name di =
     bind_prog (lift_res (assert_that (is_dir di))) (\<lambda>_.
     find_loop name di [0..<unat (di_size di) div DIRENT_SZ] DirEntry_new_zeros)"

definition vfs_find :: "u8 list \<Rightarrow> EasyFileSystem \<Rightarrow> Inode \<Rightarrow> Inode option prog" where
  "vfs_find name fs ino =
     read_disk_inode ino (\<lambda>di.
       bind_prog (find_inode_id name di) (\<lambda>r.
       Done (map_option (\<lambda>inode. case get_disk_inode_pos inode fs of (b, off) \<Rightarrow> Inode_new b off) r)))"

definition vfs_ls :: "Inode \<Rightarrow> u8 list list prog" where
  "vfs_ls ino =
     read_disk_inode ino (\<lambda>di.
       fold_prog (\<lambda>i v.
         bind_prog (read_dirent i DirEntry_new_zeros di) (\<lambda>dirent.
         bind_prog (lift_res (dirent_name dirent)) (\<lambda>nm. Done (v @ [nm]))))
         [0..<unat (di_size di) div DIRENT_SZ] [])"

section \<open>Changing files and directories\<close>

definition vfs_increase_size :: "u32 \<Rightarrow> EasyFileSystem \<Rightarrow> DiskInode \<Rightarrow> DiskInode prog" where
  "vfs_increase_size new_size fs di =
     (if new_size < di_size di then Done di
      else
        bind_prog (lift_res (blocks_num_needed new_size di)) (\<lambda>blocks_needed.
        bind_prog (fold_prog (\<lambda>_ v. bind_prog (alloc_data fs) (\<lambda>b. Done (v @ [b]))) [0..<unat blocks_needed] []) (\<lambda>v.
        increase_size new_size v di)))"

text \<open>The closure of \<^verbatim>\<open>create\<close> and \<^verbatim>\<open>linkat\<close> that appends an entry to the directory.\<close>

definition append_dirent :: "DirEntry res \<Rightarrow> EasyFileSystem \<Rightarrow> DiskInode \<Rightarrow> (DiskInode \<times> unit) prog" where
  "append_dirent dirent fs di = (let
     file_count = unat (di_size di) div DIRENT_SZ;
     new_size = (file_count + 1) * DIRENT_SZ
   in
     bind_prog (vfs_increase_size (of_nat new_size) fs di) (\<lambda>di.
     bind_prog (lift_res dirent) (\<lambda>dirent.
     bind_prog (di_write_at (of_nat (file_count * DIRENT_SZ)) (as_bytes dirent) di) (\<lambda>_. Done (di, ())))))"

definition vfs_create :: "u8 list \<Rightarrow> EasyFileSystem \<Rightarrow> Inode \<Rightarrow> Inode option prog" where
  "vfs_create name fs ino =
     bind_prog
       (read_disk_inode ino (\<lambda>root_inode.
          bind_prog (lift_res (assert_that (is_dir root_inode))) (\<lambda>_. find_inode_id name root_inode))) (\<lambda>found.
     if found \<noteq> None then Done None
     else
       bind_prog (alloc_inode fs) (\<lambda>new_inode_id.
       case get_disk_inode_pos new_inode_id fs of (new_inode_block_id, new_inode_block_offset) \<Rightarrow>
       bind_prog
         (block_modify (ucast new_inode_block_id) new_inode_block_offset INODE_SZ (\<lambda>bytes.
            Done (encode_inode (DiskInode_initialize new_inode_id File (decode_inode bytes)) bytes, ()))) (\<lambda>_.
       bind_prog (modify_disk_inode ino (append_dirent (DirEntry_new name new_inode_id) fs)) (\<lambda>_.
       case get_disk_inode_pos new_inode_id fs of (block_id, block_offset) \<Rightarrow>
       bind_prog (lift_res (assert_that
         ((block_id, block_offset) = (new_inode_block_id, new_inode_block_offset)))) (\<lambda>_.
       Sync [] (Done (Some (Inode_new block_id block_offset))))))))"

definition vfs_clear :: "EasyFileSystem \<Rightarrow> Inode \<Rightarrow> unit prog" where
  "vfs_clear fs ino =
     bind_prog
       (modify_disk_inode ino (\<lambda>di. let sz = di_size di in
          bind_prog (clear_size di) (\<lambda>(data_blocks_dealloc, di).
          bind_prog (lift_res (assert_that (length data_blocks_dealloc = unat (total_blocks sz)))) (\<lambda>_.
          bind_prog (fold_prog (\<lambda>data_block _. dealloc_data data_block fs) data_blocks_dealloc ()) (\<lambda>_.
          Done (di, ())))))) (\<lambda>_.
     Sync [] (Done ()))"

definition vfs_read_at :: "usize \<Rightarrow> u8 list \<Rightarrow> Inode \<Rightarrow> (nat \<times> u8 list) prog" where
  "vfs_read_at offset buf ino = read_disk_inode ino (\<lambda>di. di_read_at offset buf di)"

definition vfs_write_at :: "usize \<Rightarrow> u8 list \<Rightarrow> EasyFileSystem \<Rightarrow> Inode \<Rightarrow> nat prog" where
  "vfs_write_at offset buf fs ino =
     bind_prog
       (modify_disk_inode ino (\<lambda>di.
          bind_prog (vfs_increase_size (ucast (offset + of_nat (length buf))) fs di) (\<lambda>di.
          bind_prog (di_write_at offset buf di) (\<lambda>n. Done (di, n))))) (\<lambda>sz.
     Sync [] (Done sz))"

section \<open>Links\<close>

definition find_in_root :: "u8 list \<Rightarrow> Inode \<Rightarrow> u32 option prog" where
  "find_in_root name ino =
     read_disk_inode ino (\<lambda>root_inode.
       bind_prog (lift_res (assert_that (is_dir root_inode))) (\<lambda>_. find_inode_id name root_inode))"

definition vfs_linkat :: "u8 list \<Rightarrow> u8 list \<Rightarrow> u32 \<Rightarrow> EasyFileSystem \<Rightarrow> Inode \<Rightarrow> int prog" where
  "vfs_linkat oldpath newpath flags fs ino =
     bind_prog (lift_res (assert_that (flags = 0))) (\<lambda>_.
     bind_prog (find_in_root newpath ino) (\<lambda>r.
     if r \<noteq> None then Done (- 1)
     else bind_prog (find_in_root oldpath ino) (\<lambda>r.
     case r of
       Some old_inode_id \<Rightarrow>
         bind_prog (bind_prog (vfs_find oldpath fs ino) (\<lambda>r. lift_res (unwrap r))) (\<lambda>old.
         bind_prog (read_disk_inode old (\<lambda>di. lift_res (assert_that (is_file di)))) (\<lambda>_.
         bind_prog (bind_prog (vfs_find oldpath fs ino) (\<lambda>r. lift_res (unwrap r))) (\<lambda>old.
         bind_prog (modify_disk_inode old (\<lambda>di. Done (inc_nlink di, ()))) (\<lambda>_.
         bind_prog (lift_res (DirEntry_new newpath old_inode_id)) (\<lambda>dirent.
         bind_prog (modify_disk_inode ino (append_dirent (Ok dirent) fs)) (\<lambda>_.
         Done 0))))))
     | None \<Rightarrow> Done (- 1))))"

fun unlink_loop :: "u8 list \<Rightarrow> DiskInode \<Rightarrow> nat \<Rightarrow> nat list \<Rightarrow> DirEntry \<Rightarrow> int prog" where
  "unlink_loop path di file_count [] dirent = Done (- 1)"
| "unlink_loop path di file_count (i # is) dirent =
     bind_prog (read_dirent i dirent di) (\<lambda>dirent.
     bind_prog (lift_res (dirent_name dirent)) (\<lambda>nm.
     if nm = path then
       bind_prog (di_write_at (of_nat (file_count * DIRENT_SZ)) (as_bytes DirEntry_new_zeros) di) (\<lambda>_. Done 0)
     else unlink_loop path di file_count is dirent))"

definition vfs_unlinkat :: "u8 list \<Rightarrow> u32 \<Rightarrow> EasyFileSystem \<Rightarrow> Inode \<Rightarrow> int prog" where
  "vfs_unlinkat path flags fs ino =
     bind_prog (lift_res (assert_that (flags = 0))) (\<lambda>_.
     bind_prog (find_in_root path ino) (\<lambda>r.
     case r of
       Some _ \<Rightarrow>
         bind_prog
           (modify_disk_inode ino (\<lambda>di. let file_count = unat (di_size di) div DIRENT_SZ in
              bind_prog (unlink_loop path di file_count [0..<file_count] DirEntry_new_zeros) (\<lambda>res. Done (di, res)))) (\<lambda>res.
         if res = 0 then
           bind_prog (bind_prog (vfs_find path fs ino) (\<lambda>r. lift_res (unwrap r))) (\<lambda>target.
           bind_prog (modify_disk_inode target (\<lambda>di. Done (dec_nlink di, ()))) (\<lambda>_.
           Done res))
         else Done res)
     | None \<Rightarrow> Done (- 1)))"

end
