(* ===== verification/FileBlocks.thy ===== *)
theory FileBlocks
  imports Vfs
begin

text \<open>
  The blocks of a file. The source keeps them in an inode with direct, indirect and doubly indirect
  entries; here they are one list, in the order in which \<^verbatim>\<open>increase_size\<close> takes them and \<^verbatim>\<open>clear_size\<close>
  gives them back: 28 data blocks, the index block \<^verbatim>\<open>indirect1\<close> and its 128 data blocks, the index
  block \<^verbatim>\<open>indirect2\<close>, and then each lower index block followed by its 128 data blocks.
\<close>

section \<open>Positions in the list\<close>

text \<open>The number of data blocks of a file of \<open>s\<close> bytes and the number of all blocks for \<open>n\<close> data blocks.\<close>

definition nblk :: "nat \<Rightarrow> nat" where
  "nblk s = (s + 511) div 512"

definition tot :: "nat \<Rightarrow> nat" where
  "tot n = n + (if 28 < n then 1 else 0) + (if 156 < n then 1 + (n - 156 + 127) div 128 else 0)"

definition MAX_DATA :: nat where "MAX_DATA = 16540"

text \<open>The position of data block \<open>k\<close>.\<close>

definition dpos :: "nat \<Rightarrow> nat" where
  "dpos k = (if k < 28 then k else if k < 156 then k + 1 else 159 + 129 * ((k - 156) div 128) + (k - 156) mod 128)"

lemma dpos_direct: "k < 28 \<Longrightarrow> dpos k = k"
  by (simp add: dpos_def)

lemma dpos_indirect1: "k < 128 \<Longrightarrow> dpos (28 + k) = 29 + k"
  by (simp add: dpos_def)

lemma dpos_indirect2: "r < 128 \<Longrightarrow> dpos (156 + 128 * q + r) = 159 + 129 * q + r"
  by (simp add: dpos_def)

lemma block_number_cases:
  fixes k :: nat
  obtains "k < 28" | i where "i < 128" "k = 28 + i" | q r where "r < 128" "k = 156 + 128 * q + r"
proof -
  consider "k < 28" | "28 \<le> k" "k < 156" | "156 \<le> k" by linarith
  then show thesis
  proof cases
    case 2
    then show thesis using that(2) [of "k - 28"] by simp
  next
    case 3
    then have "k = 156 + 128 * ((k - 156) div 128) + (k - 156) mod 128" by (simp add: mult_div_mod_eq)
    then show thesis using that(3) [of "(k - 156) mod 128" "(k - 156) div 128"] by simp
  qed (rule that(1))
qed

lemma tot_direct: "n \<le> 28 \<Longrightarrow> tot n = n"
  by (simp add: tot_def)

lemma tot_indirect1: "k \<le> 128 \<Longrightarrow> 0 < k \<Longrightarrow> tot (28 + k) = 29 + k"
  by (simp add: tot_def)

lemma tot_indirect2: "r \<le> 128 \<Longrightarrow> 0 < r \<Longrightarrow> tot (156 + 128 * q + r) = 159 + 129 * q + r"
proof -
  assume r: "r \<le> 128" "0 < r"
  have "(128 * q + r + 127) div 128 = q + 1" using r by (simp add: div_nat_eqI)
  with r show ?thesis by (simp add: tot_def)
qed

text \<open>The first position after the block \<open>k\<close>.\<close>

lemma tot_Suc: "tot (Suc k) = Suc (dpos k)"
proof (cases k rule: block_number_cases)
  case 1
  then show ?thesis by (simp add: tot_direct dpos_direct)
next
  case (2 i)
  then show ?thesis using tot_indirect1 [of "Suc i"] by (simp add: dpos_indirect1)
next
  case (3 q r)
  then show ?thesis using tot_indirect2 [of "Suc r" q] by (simp add: dpos_indirect2)
qed

lemma dpos_strict_mono: "j < k \<Longrightarrow> dpos j < dpos k"
proof (induction k)
  case (Suc k)
  have "dpos k < dpos (Suc k)"
  proof (cases k rule: block_number_cases)
    case (3 q r)
    show ?thesis
    proof (cases "r = 127")
      case True
      then have "Suc k = 156 + 128 * (q + 1) + 0" using 3(2) by simp
      then show ?thesis using True 3 dpos_indirect2 [of 0 "q + 1"] dpos_indirect2 [of r q] by simp
    next
      case False
      then have "Suc k = 156 + 128 * q + Suc r" using 3(2) by simp
      then show ?thesis using False 3 dpos_indirect2 [of "Suc r" q] dpos_indirect2 [of r q] by simp
    qed
  qed (auto simp: dpos_def)
  with Suc show ?case by (auto simp: less_Suc_eq)
qed simp

lemma dpos_inj: "dpos j = dpos k \<longleftrightarrow> j = k"
  using dpos_strict_mono [of j k] dpos_strict_mono [of k j] by (metis less_irrefl nat_neq_iff)

lemma dpos_less_tot: "k < n \<Longrightarrow> dpos k < tot n"
proof -
  assume "k < n"
  then obtain m where n: "n = Suc m" "k \<le> m" by (cases n) auto
  then have "dpos k \<le> dpos m" using dpos_strict_mono [of k m] by (cases "k = m") auto
  with n show ?thesis by (simp add: tot_Suc)
qed

lemma tot_mono: "m \<le> n \<Longrightarrow> tot m \<le> tot n"
proof -
  assume "m \<le> n"
  then have "m = n \<or> (\<exists>k. n = Suc k \<and> m \<le> k)" by (cases n) auto
  then show ?thesis
  proof
    assume "\<exists>k. n = Suc k \<and> m \<le> k"
    then obtain k where k: "n = Suc k" "m \<le> k" by blast
    show ?thesis
    proof (cases m)
      case (Suc j)
      then have "dpos j < dpos k" using k dpos_strict_mono by simp
      with Suc k show ?thesis by (simp add: tot_Suc)
    qed (simp add: tot_def)
  qed simp
qed

text \<open>The index blocks are at the positions 28, 157 and \<open>158 + 129 * q\<close>.\<close>

definition ipos :: "nat \<Rightarrow> bool" where
  "ipos p = (p = 28 \<or> p = 157 \<or> (158 \<le> p \<and> (p - 158) mod 129 = 0))"

lemma ipos_simps [simp]: "ipos 28" "ipos 157" "ipos (158 + 129 * q)"
  by (simp_all add: ipos_def)

lemma ipos_dpos: "\<not> ipos (dpos k)"
proof (cases k rule: block_number_cases)
  case (3 q r)
  then have "(dpos k - 158) mod 129 = (129 * q + Suc r) mod 129" by (simp add: dpos_indirect2)
  also have "\<dots> = Suc r" using 3 by simp
  finally show ?thesis using 3 by (simp add: ipos_def dpos_indirect2)
qed (auto simp: ipos_def dpos_def)

lemma index_less_tot:
  "28 < n \<Longrightarrow> 28 < tot n" "156 < n \<Longrightarrow> 157 < tot n" "156 + 128 * q < n \<Longrightarrow> 158 + 129 * q < tot n"
  using dpos_less_tot [of 28 n] dpos_less_tot [of 156 n] dpos_less_tot [of "156 + 128 * q" n]
    dpos_indirect2 [of 0 q] dpos_indirect2 [of 0 0] dpos_indirect1 [of 0] by auto

section \<open>Sizes\<close>

lemma unat_data_blocks_of:
  assumes "unat sz < 2 ^ 31"
  shows "unat (data_blocks_of sz) = nblk (unat sz)"
proof -
  have e: "sz + 512 - 1 = sz + 511" by simp
  have "unat (sz + 511) = unat sz + 511" using assms by (simp add: unat_word_ariths)
  then show ?thesis unfolding data_blocks_of_def nblk_def e unat_div_distrib by simp
qed

lemma nblk_le: "s \<le> 512 * n \<Longrightarrow> nblk s \<le> n"
  by (simp add: nblk_def less_mult_imp_div_less flip: less_Suc_eq_le)

lemma nblk_ge: "s \<le> 512 * nblk s"
  by (simp add: nblk_def)

lemma nblk_mono: "s \<le> s' \<Longrightarrow> nblk s \<le> nblk s'"
  by (simp add: nblk_def div_le_mono)

lemma block_of_byte: "j < s \<Longrightarrow> j div 512 < nblk s"
  by (simp add: nblk_def)

lemma tot_bound: "n \<le> MAX_DATA \<Longrightarrow> tot n \<le> 16670"
  using tot_mono [of n MAX_DATA] by (simp add: MAX_DATA_def tot_def)

lemma unat_total_blocks:
  assumes "unat sz < 2 ^ 31"
  shows "unat (total_blocks sz) = tot (nblk (unat sz))"
proof -
  have "nblk (unat sz) \<le> 4194304" using assms by (simp add: nblk_def)
  moreover have "tot (nblk (unat sz)) \<le> 2 * nblk (unat sz) + 130"
    by (simp add: tot_def, intro impI, rule order_trans [OF div_le_dividend], simp)
  ultimately have "tot (nblk (unat sz)) < 2 ^ 24" by simp
  then have "unat (of_nat (tot (nblk (unat sz))) :: u32) = tot (nblk (unat sz))"
    by (simp add: unat_of_nat take_bit_eq_mod)
  moreover have "total_blocks sz = of_nat (tot (nblk (unat sz)))"
    unfolding total_blocks_def Let_def unat_data_blocks_of [OF assms] tot_def
    by (rule arg_cong [where f = of_nat]) (simp add: layout_consts)
  ultimately show ?thesis by simp
qed

end
