(* ===== verification/FileData.thy ===== *)
theory FileData
  imports FileBlocks
begin

text \<open>
  The data of a file: when an inode has its blocks in the list \<open>L\<close>, \<^verbatim>\<open>get_block_id\<close> finds data block \<open>k\<close>
  at position \<open>dpos k\<close> of \<open>L\<close>, \<^verbatim>\<open>read_at\<close> reads the bytes of these blocks, and \<^verbatim>\<open>write_at\<close> changes exactly
  the bytes of the range.
\<close>

section \<open>The blocks an inode refers to\<close>

text \<open>Entry \<open>i\<close> of index block \<open>b\<close>.\<close>

definition entry :: "device \<Rightarrow> u32 \<Rightarrow> nat \<Rightarrow> u32" where
  "entry d b i = u32s (d (ucast b)) ! i"

definition maps :: "device \<Rightarrow> DiskInode \<Rightarrow> nat \<Rightarrow> u32 list \<Rightarrow> bool" where
  "maps d di n L =
     (n \<le> MAX_DATA \<and> length (direct di) = 28 \<and>
      (\<forall>k < 28. k < n \<longrightarrow> direct di ! k = L ! k) \<and>
      (28 < n \<longrightarrow> indirect1 di = L ! 28) \<and>
      (\<forall>k < 128. 28 + k < n \<longrightarrow> entry d (L ! 28) k = L ! (29 + k)) \<and>
      (156 < n \<longrightarrow> indirect2 di = L ! 157) \<and>
      (\<forall>q. 156 + 128 * q < n \<longrightarrow> entry d (L ! 157) q = L ! (158 + 129 * q)) \<and>
      (\<forall>q r. r < 128 \<longrightarrow> 156 + 128 * q + r < n \<longrightarrow> entry d (L ! (158 + 129 * q)) r = L ! (159 + 129 * q + r)))"

lemma mapsD:
  assumes "maps d di n L"
  shows "n \<le> MAX_DATA" and "length (direct di) = 28"
    and "\<lbrakk>k < 28; k < n\<rbrakk> \<Longrightarrow> direct di ! k = L ! k"
    and "28 < n \<Longrightarrow> indirect1 di = L ! 28"
    and "\<lbrakk>k < 128; 28 + k < n\<rbrakk> \<Longrightarrow> entry d (L ! 28) k = L ! (29 + k)"
    and "156 < n \<Longrightarrow> indirect2 di = L ! 157"
    and "156 + 128 * q < n \<Longrightarrow> entry d (L ! 157) q = L ! (158 + 129 * q)"
    and "\<lbrakk>r < 128; 156 + 128 * q + r < n\<rbrakk> \<Longrightarrow> entry d (L ! (158 + 129 * q)) r = L ! (159 + 129 * q + r)"
  using assms by (auto simp: maps_def)

lemma mapsI:
  assumes "n \<le> MAX_DATA" and "length (direct di) = 28"
    and "\<And>k. \<lbrakk>k < 28; k < n\<rbrakk> \<Longrightarrow> direct di ! k = L ! k"
    and "28 < n \<Longrightarrow> indirect1 di = L ! 28"
    and "\<And>k. \<lbrakk>k < 128; 28 + k < n\<rbrakk> \<Longrightarrow> entry d (L ! 28) k = L ! (29 + k)"
    and "156 < n \<Longrightarrow> indirect2 di = L ! 157"
    and "\<And>q. 156 + 128 * q < n \<Longrightarrow> entry d (L ! 157) q = L ! (158 + 129 * q)"
    and "\<And>q r. \<lbrakk>r < 128; 156 + 128 * q + r < n\<rbrakk> \<Longrightarrow> entry d (L ! (158 + 129 * q)) r = L ! (159 + 129 * q + r)"
  shows "maps d di n L"
  using assms by (simp add: maps_def)

text \<open>Only the contents of the index blocks matter.\<close>

lemma maps_cong:
  assumes "maps d di n L" and "\<And>p. \<lbrakk>p < tot n; ipos p\<rbrakk> \<Longrightarrow> d' (ucast (L ! p)) = d (ucast (L ! p))"
    and "direct di' = direct di" and "indirect1 di' = indirect1 di" and "indirect2 di' = indirect2 di"
  shows "maps d' di' n L"
proof (rule mapsI)
  note m = mapsD [OF assms(1)]
  show "n \<le> MAX_DATA" "length (direct di') = 28" using m(1,2) assms(3) by auto
  show "direct di' ! k = L ! k" if "k < 28" "k < n" for k using m(3) [OF that] assms(3) by simp
  show "28 < n \<Longrightarrow> indirect1 di' = L ! 28" "156 < n \<Longrightarrow> indirect2 di' = L ! 157" using m(4,6) assms(4,5) by auto
  show "entry d' (L ! 28) k = L ! (29 + k)" if "k < 128" "28 + k < n" for k
    using m(5) [OF that] assms(2) [of 28] index_less_tot(1) that by (simp add: entry_def)
  show "entry d' (L ! 157) q = L ! (158 + 129 * q)" if "156 + 128 * q < n" for q
    using m(7) [OF that] assms(2) [of 157] index_less_tot(2) that by (simp add: entry_def)
  show "entry d' (L ! (158 + 129 * q)) r = L ! (159 + 129 * q + r)" if "r < 128" "156 + 128 * q + r < n" for q r
    using m(8) [OF that] assms(2) [of "158 + 129 * q"] index_less_tot(3) [of q n] that by (simp add: entry_def)
qed

section \<open>Finding a block\<close>

lemma length_u32s [simp]: "length bytes = BLOCK_SZ \<Longrightarrow> length (u32s bytes) = 128"
  by (simp add: u32s_def BLOCK_SZ_def)

lemma u32s_encode [simp]: "u32s (encode_words 4 xs) = xs"
  by (simp add: u32s_def decode_encode_words)

lemma encode_u32s: "length bytes = BLOCK_SZ \<Longrightarrow> encode_words 4 (u32s bytes) = bytes"
  by (simp add: u32s_def encode_decode_words BLOCK_SZ_def)

text \<open>
  The conditions on the locks held around an operation on a file: at most 12 of them, none on a block
  of the file.
\<close>

definition room :: "usize list \<Rightarrow> u32 set \<Rightarrow> bool" where
  "room H B = (length H \<le> 12 \<and> set H \<inter> ucast ` B = {})"

lemma roomD: "\<lbrakk>room H B; b \<in> B\<rbrakk> \<Longrightarrow> ucast b \<notin> set H" "room H B \<Longrightarrow> length H < BLOCK_CACHE_MAX_NUM"
  by (auto simp: room_def BLOCK_CACHE_MAX_NUM_def)

lemma ucast_u32_usize: "(ucast (ucast a :: usize) :: u32) = a"
  by (rule bit_eqI) (simp add: bit_ucast_iff)

lemma unat_ucast_32: "unat (ucast (a :: u32) :: usize) = unat a"
  using unat_less_32 [of a] by (simp add: unsigned_ucast_eq take_bit_eq_mod)

lemma ucast_eq_u32 [simp]: "(ucast a :: usize) = ucast b \<longleftrightarrow> a = (b :: u32)"
  by (metis ucast_u32_usize)

lemma run_read_index:
  assumes "dev_ok d" and "i < 128" and "room H B" and "b \<in> B"
  shows "run (read_index b i) H d = Ok (entry d b i, d)"
  using assms roomD [OF assms(3)] by (simp add: read_index_def run_simps entry_def layout_consts)

lemma get_block_id_spec:
  assumes d: "dev_ok d" and m: "maps d di n L" and k: "k < n" and L: "tot n \<le> length L" and H: "room H (set L)"
  shows "run (get_block_id (of_nat k) di) H d = Ok (L ! dpos k, d)"
proof -
  note md = mapsD [OF m]
  have kM: "k < 16540" using k md(1) by (simp add: MAX_DATA_def)
  then have u: "unat (of_nat k :: u32) = k" by (simp add: unat_of_nat take_bit_eq_mod)
  have gb: "get_block_id (of_nat k) di =
    (if k < 28 then Done (direct di ! k)
     else if k < 156 then read_index (DiskInode.indirect1 di) (k - 28)
     else bind_prog (read_index (indirect2 di) ((k - 156) div 128)) (\<lambda>b. read_index b ((k - 156) mod 128)))"
    using kM by (simp add: get_block_id_def u layout_consts Let_def)
  have inL: "L ! p \<in> set L" if "p < tot n" for p using that L by simp
  show ?thesis
  proof (cases k rule: block_number_cases)
    case 1
    then show ?thesis using md(3) [OF 1 k] by (simp add: gb dpos_direct)
  next
    case (2 i)
    have "run (read_index (L ! 28) i) H d = Ok (L ! (29 + i), d)"
      using run_read_index [OF d 2(1) H inL [OF index_less_tot(1)]] md(5) [of i] 2 k by simp
    then show ?thesis using 2 k md(4) unfolding gb by (simp add: dpos_indirect1)
  next
    case (3 q r)
    then have q: "q < 128" using kM by simp
    have n: "156 < n" "156 + 128 * q < n" using 3 k by auto
    have "run (read_index (L ! 157) q) H d = Ok (L ! (158 + 129 * q), d)"
      using run_read_index [OF d q H inL [OF index_less_tot(2) [OF n(1)]]] md(7) [OF n(2)] by simp
    moreover have "run (read_index (L ! (158 + 129 * q)) r) H d = Ok (L ! (159 + 129 * q + r), d)"
      using run_read_index [OF d 3(1) H inL [OF index_less_tot(3) [OF n(2)]]] md(8) [of r q] 3 k by simp
    moreover have "k - 156 = 128 * q + r" "\<not> k < 28" "\<not> k < 156" using 3 by auto
    ultimately show ?thesis using 3 n md(6) unfolding gb by (simp add: dpos_indirect2 run_simps)
  qed
qed

section \<open>Reading\<close>

text \<open>Byte \<open>j\<close> of the data blocks in \<open>L\<close>, and the bytes of a file.\<close>

definition fbyte :: "device \<Rightarrow> u32 list \<Rightarrow> nat \<Rightarrow> u8" where
  "fbyte d L j = d (ucast (L ! dpos (j div 512))) ! (j mod 512)"

definition contents :: "device \<Rightarrow> u32 list \<Rightarrow> nat \<Rightarrow> u8 list" where
  "contents d L s = map (fbyte d L) [0..<s]"

lemma length_contents [simp]: "length (contents d L s) = s"
  by (simp add: contents_def)

lemma contents_slice: "off + n \<le> s \<Longrightarrow> take n (drop off (contents d L s)) = map (fbyte d L) [off..<off + n]"
  by (simp add: contents_def take_map drop_map)

lemma same_block:
  fixes cur :: nat
  assumes "cur + i < (cur div 512 + 1) * 512"
  shows "(cur + i) div 512 = cur div 512" and "(cur + i) mod 512 = cur mod 512 + i"
proof -
  define q r where "q = cur div 512" and "r = cur mod 512"
  have e: "cur = q * 512 + r" by (simp add: q_def r_def)
  have r: "r + i < 512" using assms unfolding q_def [symmetric] by (simp add: e)
  have s: "cur + i = (r + i) + 512 * q" by (simp add: e)
  have "((r + i) + 512 * q) div 512 = q" "((r + i) + 512 * q) mod 512 = r + i"
    using r by (simp_all only: div_mult_self1 mod_mult_self2 mod_less div_less)
  then show "(cur + i) div 512 = cur div 512" "(cur + i) mod 512 = cur mod 512 + i"
    unfolding q_def [symmetric] r_def [symmetric] s by blast+
qed

lemma block_slice:
  assumes "dev_ok d" and "e \<le> (cur div 512 + 1) * 512" and "cur \<le> e"
  shows "slice (cur mod 512) (e - cur) (d (ucast (L ! dpos (cur div 512)))) = Ok (map (fbyte d L) [cur..<e])"
proof -
  let ?b = "d (ucast (L ! dpos (cur div 512)))"
  have len: "length ?b = 512" using assms(1) by (simp add: BLOCK_SZ_def)
  have fits: "cur mod 512 + (e - cur) \<le> 512"
  proof -
    define q r where "q = cur div 512" and "r = cur mod 512"
    have e: "cur = q * 512 + r" by (simp add: q_def r_def)
    show ?thesis using assms(2,3) unfolding q_def [symmetric] r_def [symmetric] by (simp add: e)
  qed
  have "take (e - cur) (drop (cur mod 512) ?b) = map (fbyte d L) [cur..<e]"
  proof (rule nth_equalityI)
    fix i assume "i < length (take (e - cur) (drop (cur mod 512) ?b))"
    then have i: "i < e - cur" by simp
    then have "cur + i < (cur div 512 + 1) * 512" using assms(2) by simp
    from same_block [OF this] i len fits show "take (e - cur) (drop (cur mod 512) ?b) ! i = map (fbyte d L) [cur..<e] ! i"
      by (simp add: fbyte_def)
  qed (use len fits in simp)
  with len fits show ?thesis by (simp add: slice_def)
qed

lemma patch_append:
  "off + length xs + length ys \<le> length b \<Longrightarrow> patch (off + length xs) ys (patch off xs b) = patch off (xs @ ys) b"
  by (simp add: patch_def add.assoc) (simp add: add.commute add.left_commute)

lemma patch_nil [simp]: "patch off [] b = b"
  by (simp add: patch_def)

lemma next_block_div: "fin \<noteq> (cur div 512 + 1) * 512 \<Longrightarrow> e = min ((cur div 512 + 1) * 512) fin \<Longrightarrow> e \<noteq> fin \<Longrightarrow>
    e div 512 = cur div 512 + 1 \<and> cur < e \<and> e < fin" for cur :: nat
  using next_block_end [of cur] by (auto simp: min_def BLOCK_SZ_def split: if_splits)

lemma read_loop_spec:
  assumes d: "dev_ok d" and m: "maps d di n L" and L: "tot n \<le> length L" and H: "room H (set L)"
    and "cur < fin" and "fin \<le> 512 * n" and "rs + (fin - cur) \<le> length buf"
  shows "run (read_loop di cur fin (cur div 512) rs buf) H d =
    Ok ((rs + (fin - cur), patch rs (map (fbyte d L) [cur..<fin]) buf), d)"
  using assms(5-)
proof (induction "fin - cur" arbitrary: cur rs buf rule: less_induct)
  case less
  define e where "e = min ((cur div 512 + 1) * 512) fin"
  let ?k = "cur div 512" and ?xs = "map (fbyte d L) [cur..<e]"
  let ?b = "L ! dpos ?k"
  have e: "cur < e" "e \<le> fin" "e \<le> (?k + 1) * 512"
    using less.prems(1) next_block_end [of cur] by (auto simp: e_def BLOCK_SZ_def)
  have k: "?k < n" using less.prems(1,2) by (simp add: less_mult_imp_div_less)
  have "?b \<in> set L" using dpos_less_tot [OF k] L by simp
  then have bH: "ucast ?b \<notin> set H" by (rule roomD(1) [OF H])
  have gb: "run (get_block_id (of_nat ?k) di) H d = Ok (?b, d)" by (rule get_block_id_spec [OF d m k L H])
  have cp: "copy_to_slice rs ?xs buf = Ok (patch rs ?xs buf)"
    using less.prems(3) e by (simp add: copy_to_slice_def)
  have step: "run (read_loop di cur fin ?k rs buf) H d =
      (if e = fin then Ok ((rs + (e - cur), patch rs ?xs buf), d)
       else run (read_loop di e fin (?k + 1) (rs + (e - cur)) (patch rs ?xs buf)) H d)"
    unfolding read_loop.simps [of di cur] BLOCK_SZ_def Let_def e_def [symmetric]
    using gb bH roomD(2) [OF H] block_slice [OF d e(3), of L] e(1) cp d
    by (simp add: run_simps BLOCK_SZ_def)
  show ?case
  proof (cases "e = fin")
    case True
    with step show ?thesis by simp
  next
    case False
    then have n: "e div 512 = ?k + 1" "e < fin"
      using next_block_div [OF _ e_def False] e(2) False by (auto simp: e_def min_def split: if_splits)
    have len: "length (patch rs ?xs buf) = length buf" using less.prems(3) e by (intro length_patch) simp
    have "run (read_loop di e fin (e div 512) (rs + (e - cur)) (patch rs ?xs buf)) H d =
      Ok ((rs + (e - cur) + (fin - e), patch (rs + (e - cur)) (map (fbyte d L) [e..<fin]) (patch rs ?xs buf)), d)"
      using less.prems e n len by (intro less.hyps) auto
    moreover have "patch (rs + (e - cur)) (map (fbyte d L) [e..<fin]) (patch rs ?xs buf) =
        patch rs (map (fbyte d L) [cur..<fin]) buf"
    proof -
      have "[cur..<fin] = [cur..<e] @ [e..<fin]" using e upt_add_eq_append [of cur e "fin - e"] by simp
      then show ?thesis using patch_append [of rs ?xs "map (fbyte d L) [e..<fin]" buf] less.prems(3) e by simp
    qed
    ultimately show ?thesis using step False n e by simp
  qed
qed

text \<open>
  \<^verbatim>\<open>read_at\<close> copies the bytes of the file from \<open>offset\<close> on into the buffer, up to the end of the file or of
  the buffer, and returns their number.
\<close>

lemma di_read_at_spec:
  fixes off :: usize
  assumes d: "dev_ok d" and m: "maps d di (nblk (unat (di_size di))) L"
    and L: "tot (nblk (unat (di_size di))) \<le> length L" and H: "room H (set L)"
    and nw: "unat off + length buf < 2 ^ 64"
  defines "n \<equiv> min (length buf) (unat (di_size di) - unat off)"
  shows "run (di_read_at off buf di) H d =
    Ok ((n, take n (drop (unat off) (contents d L (unat (di_size di)))) @ drop n buf), d)"
proof -
  let ?s = "unat (di_size di)"
  let ?fin = "min (off + of_nat (length buf)) (ucast (di_size di) :: usize)"
  have us: "unat (ucast (di_size di) :: usize) = ?s"
    by (rule unat_ucast_32)
  have uo: "unat (off + of_nat (length buf)) = unat off + length buf"
    using nw by (simp add: unat_word_ariths unat_of_nat_64)
  have f: "unat ?fin = min (unat off + length buf) ?s" by (simp add: min_def word_nat uo us)
  show ?thesis
  proof (cases "?fin \<le> off")
    case True
    then have "n = 0" using f by (auto simp: n_def word_nat)
    with True show ?thesis by (simp add: di_read_at_def Let_def)
  next
    case False
    then have lt: "unat off < unat ?fin" by (simp add: word_nat not_le)
    then have n: "unat ?fin = unat off + n" "unat off + n \<le> ?s" "n \<le> length buf" using f by (auto simp: n_def)
    have "run (read_loop di (unat off) (unat ?fin) (unat off div 512) 0 buf) H d =
      Ok ((0 + (unat ?fin - unat off), patch 0 (map (fbyte d L) [unat off..<unat ?fin]) buf), d)"
      using lt n nblk_ge [of ?s] by (intro read_loop_spec [OF d m L H]) auto
    moreover have "patch 0 (map (fbyte d L) [unat off..<unat ?fin]) buf =
        take n (drop (unat off) (contents d L ?s)) @ drop n buf"
      using n by (simp add: contents_slice patch_def)
    ultimately show ?thesis using False n by (simp add: di_read_at_def Let_def BLOCK_SZ_def)
  qed
qed

section \<open>Writing\<close>

text \<open>The data blocks of a file.\<close>

definition data_set :: "u32 list \<Rightarrow> nat \<Rightarrow> u32 set" where
  "data_set L n = (\<lambda>k. L ! dpos k) ` {..<n}"

lemma data_set_subset: "tot n \<le> length L \<Longrightarrow> data_set L n \<subseteq> set L"
  using dpos_less_tot by (fastforce simp: data_set_def)

lemma data_blocks_apart:
  assumes "distinct L" and "tot n \<le> length L" and "j < n" and "k < n"
  shows "L ! dpos j = L ! dpos k \<longleftrightarrow> j = k"
  using assms dpos_less_tot [of j n] dpos_less_tot [of k n] by (simp add: nth_eq_iff_index_eq dpos_inj)

lemma index_not_data:
  assumes "distinct L" and "tot n \<le> length L" and "p < tot n" and "ipos p"
  shows "L ! p \<notin> data_set L n"
proof
  assume "L ! p \<in> data_set L n"
  then obtain k where k: "k < n" "L ! p = L ! dpos k" by (auto simp: data_set_def)
  then have "p = dpos k" using assms dpos_less_tot [OF k(1)] by (simp add: nth_eq_iff_index_eq)
  with assms(4) ipos_dpos show False by simp
qed

lemma maps_data_change:
  assumes "maps d di n L" and "distinct L" and "tot n \<le> length L"
    and "\<And>b. b \<notin> ucast ` data_set L n \<Longrightarrow> d' b = d b"
  shows "maps d' di n L"
  using assms(1)
proof (rule maps_cong)
  fix p assume "p < tot n" "ipos p"
  from index_not_data [OF assms(2,3) this] show "d' (ucast (L ! p)) = d (ucast (L ! p))"
    by (intro assms(4)) auto
qed auto

lemma copy_block:
  assumes "dev_ok d" and "e \<le> (cur div 512 + 1) * 512" and "cur \<le> e" and "length src = e - cur"
  shows "copy_to_slice (cur mod 512) src (d b) = Ok (patch (cur mod 512) src (d b))"
    and "length (patch (cur mod 512) src (d b)) = BLOCK_SZ"
proof -
  have "cur mod 512 + (e - cur) \<le> 512"
  proof -
    define q r where "q = cur div 512" and "r = cur mod 512"
    have e: "cur = q * 512 + r" by (simp add: q_def r_def)
    show ?thesis using assms(2,3) unfolding q_def [symmetric] r_def [symmetric] by (simp add: e)
  qed
  then show "copy_to_slice (cur mod 512) src (d b) = Ok (patch (cur mod 512) src (d b))"
    "length (patch (cur mod 512) src (d b)) = BLOCK_SZ"
    using assms(1,4) by (simp_all add: copy_to_slice_def BLOCK_SZ_def)
qed

lemma fbyte_patch:
  assumes d: "dev_ok d" and L: "distinct L" "tot n \<le> length L" and k: "cur div 512 < n" and j: "j < 512 * n"
    and e: "e \<le> (cur div 512 + 1) * 512" "cur \<le> e" and src: "length src = e - cur"
  shows "fbyte (d(ucast (L ! dpos (cur div 512)) := patch (cur mod 512) src (d (ucast (L ! dpos (cur div 512)))))) L j =
    (if cur \<le> j \<and> j < e then src ! (j - cur) else fbyte d L j)"
proof -
  let ?b = "L ! dpos (cur div 512)"
  have jn: "j div 512 < n" using j by (simp add: less_mult_imp_div_less)
  show ?thesis
  proof (cases "j div 512 = cur div 512")
    case True
    define q where "q = cur div 512"
    have c: "cur = q * 512 + cur mod 512" "j = q * 512 + j mod 512"
      using True by (simp_all add: q_def) (metis div_mult_mod_eq)
    have fits: "cur mod 512 + length src \<le> length (d (ucast ?b))"
      using copy_block [OF d e src, of "ucast ?b"] d by (auto simp: copy_to_slice_def split: if_splits)
    have "cur mod 512 \<le> j mod 512 \<longleftrightarrow> cur \<le> j" "j mod 512 < cur mod 512 + length src \<longleftrightarrow> j < cur + length src"
      "j mod 512 - cur mod 512 = j - cur" using c by linarith+
    with True src e(2) show ?thesis
      using patch_nth [OF fits, of "j mod 512"] d by (auto simp: fbyte_def BLOCK_SZ_def)
  next
    case False
    then have "L ! dpos (j div 512) \<noteq> ?b" using data_blocks_apart [OF L jn k] by simp
    moreover have "\<not> (cur \<le> j \<and> j < e)"
    proof
      assume j': "cur \<le> j \<and> j < e"
      then have "cur + (j - cur) < (cur div 512 + 1) * 512" using e(1) by simp
      from same_block(1) [OF this] j' False show False by simp
    qed
    ultimately show ?thesis by (auto simp: fbyte_def)
  qed
qed

lemma write_loop_spec:
  assumes L: "tot n \<le> length L" "distinct L" and H: "room H (set L)"
    and "dev_ok d" and "maps d di n L"
    and "cur \<le> fin" and "cur < 512 * n" and "fin \<le> 512 * n" and "ws + (fin - cur) \<le> length buf"
  shows "\<exists>d'. run (write_loop di cur fin (cur div 512) ws buf) H d = Ok (ws + (fin - cur), d') \<and> dev_ok d' \<and>
    (\<forall>b. b \<notin> ucast ` data_set L n \<longrightarrow> d' b = d b) \<and>
    (\<forall>j < 512 * n. fbyte d' L j = (if cur \<le> j \<and> j < fin then buf ! (ws + (j - cur)) else fbyte d L j))"
  using assms(4-)
proof (induction "fin - cur" arbitrary: cur ws d rule: less_induct)
  case less
  note d = less.prems(1) and m = less.prems(2)
  define e where "e = min ((cur div 512 + 1) * 512) fin"
  let ?k = "cur div 512"
  let ?b = "L ! dpos ?k"
  define src where "src = take (e - cur) (drop ws buf)"
  define d1 where "d1 = d(ucast ?b := patch (cur mod 512) src (d (ucast ?b)))"
  have e: "cur \<le> e" "e \<le> fin" "e \<le> (?k + 1) * 512"
    using less.prems(3) next_block_end [of cur] by (auto simp: e_def BLOCK_SZ_def)
  have k: "?k < n" using less.prems(4) by (simp add: less_mult_imp_div_less)
  have "?b \<in> set L" using dpos_less_tot [OF k] L by simp
  then have bH: "ucast ?b \<notin> set H" by (rule roomD(1) [OF H])
  have bd: "?b \<in> data_set L n" using k by (auto simp: data_set_def)
  have gb: "run (get_block_id (of_nat ?k) di) H d = Ok (?b, d)" by (rule get_block_id_spec [OF d m k L(1) H])
  have src: "slice ws (e - cur) buf = Ok src" "length src = e - cur"
    using less.prems(6) e by (auto simp: slice_def src_def)
  note cp = copy_block [OF d e(3,1) src(2), of "ucast ?b"]
  have "run (block_modify (ucast ?b) 0 BLOCK_SZ (\<lambda>bytes. lift_res (bind_res (slice ws (e - cur) buf) (\<lambda>src.
      bind_res (copy_to_slice (cur mod 512) src bytes) (\<lambda>bytes. Ok (bytes, ())))))) H d = Ok ((), d1)"
    unfolding d1_def
    by (rule run_modify_whole [OF roomD(2) [OF H] bH d]) (use src(1) cp d in \<open>simp_all add: run_simps\<close>)
  then have step: "run (write_loop di cur fin ?k ws buf) H d =
      (if e = fin then Ok (ws + (e - cur), d1)
       else run (write_loop di e fin (?k + 1) (ws + (e - cur)) buf) H d1)"
    unfolding write_loop.simps [of di cur] BLOCK_SZ_def Let_def e_def [symmetric]
    using gb by (simp add: run_simps BLOCK_SZ_def)
  have ok1: "dev_ok d1" using d cp(2) by (auto simp: d1_def)
  have un1: "d1 b = d b" if "b \<notin> ucast ` data_set L n" for b using that bd by (auto simp: d1_def)
  have fb1: "fbyte d1 L j = (if cur \<le> j \<and> j < e then buf ! (ws + (j - cur)) else fbyte d L j)" if "j < 512 * n" for j
    using fbyte_patch [OF d L(2,1) k that e(3,1) src(2)] less.prems(6) e by (auto simp: d1_def src_def)
  show ?case
  proof (cases "e = fin")
    case True
    with step ok1 un1 fb1 show ?thesis by auto
  next
    case False
    then have n: "e div 512 = ?k + 1" "cur < e" "e < fin"
      using next_block_div [OF _ e_def False] e(2) False by (auto simp: e_def min_def split: if_splits)
    have m1: "maps d1 di n L" by (rule maps_data_change [OF m L(2,1) un1])
    have prems: "fin - e < fin - cur" "e \<le> fin" "e < 512 * n" "ws + (e - cur) + (fin - e) \<le> length buf"
      using n less.prems by auto
    from less.hyps [OF prems(1) ok1 m1 prems(2,3) less.prems(5) prems(4)] obtain d' where
      r: "run (write_loop di e fin (e div 512) (ws + (e - cur)) buf) H d1 = Ok (ws + (e - cur) + (fin - e), d')" "dev_ok d'"
      "\<forall>b. b \<notin> ucast ` data_set L n \<longrightarrow> d' b = d1 b"
      "\<forall>j < 512 * n. fbyte d' L j = (if e \<le> j \<and> j < fin then buf ! (ws + (e - cur) + (j - e)) else fbyte d1 L j)"
      by blast
    have "fbyte d' L j = (if cur \<le> j \<and> j < fin then buf ! (ws + (j - cur)) else fbyte d L j)" if "j < 512 * n" for j
      using r(4) fb1 [OF that] that n(2,3) by auto
    moreover have "run (write_loop di cur fin ?k ws buf) H d = Ok (ws + (fin - cur), d')"
      using step False r(1) n by simp
    ultimately show ?thesis using r(2,3) un1 by auto
  qed
qed

text \<open>
  \<^verbatim>\<open>write_at\<close> inside the file: the bytes of the buffer replace those of the file from \<open>offset\<close> on, and no
  block that is not a data block of the file changes.
\<close>

lemma di_write_at_spec:
  fixes off :: usize
  assumes d: "dev_ok d" and m: "maps d di (nblk (unat (di_size di))) L" and L: "length L = tot (nblk (unat (di_size di)))" "distinct L"
    and H: "room H (set L)" and ok: "unat off + length buf \<le> unat (di_size di)" and lt: "unat off < unat (di_size di)"
  shows "\<exists>d'. run (di_write_at off buf di) H d = Ok (length buf, d') \<and> dev_ok d' \<and>
    (\<forall>b. b \<notin> ucast ` data_set L (nblk (unat (di_size di))) \<longrightarrow> d' b = d b) \<and>
    (\<forall>j < 512 * nblk (unat (di_size di)).
       fbyte d' L j = (if unat off \<le> j \<and> j < unat off + length buf then buf ! (j - unat off) else fbyte d L j))"
proof -
  let ?s = "unat (di_size di)"
  let ?fin = "min (off + of_nat (length buf)) (ucast (di_size di) :: usize)"
  have us: "unat (ucast (di_size di) :: usize) = ?s" by (rule unat_ucast_32)
  have uo: "unat (off + of_nat (length buf)) = unat off + length buf"
    using ok unat_less_32 [of "di_size di"] by (simp add: unat_word_ariths unat_of_nat_64)
  have f: "unat ?fin = unat off + length buf" using ok by (simp add: min_def word_nat uo us)
  have "\<exists>d'. run (write_loop di (unat off) (unat ?fin) (unat off div 512) 0 buf) H d =
      Ok (0 + (unat ?fin - unat off), d') \<and> dev_ok d' \<and>
    (\<forall>b. b \<notin> ucast ` data_set L (nblk ?s) \<longrightarrow> d' b = d b) \<and>
    (\<forall>j < 512 * nblk ?s. fbyte d' L j = (if unat off \<le> j \<and> j < unat ?fin then buf ! (0 + (j - unat off)) else fbyte d L j))"
    using ok lt f nblk_ge [of ?s] L(1) by (intro write_loop_spec [OF _ L(2) H d m]) auto
  moreover have "off \<le> ?fin" using f by (simp add: word_nat)
  then have "run (di_write_at off buf di) H d = run (write_loop di (unat off) (unat ?fin) (unat off div 512) 0 buf) H d"
    unfolding di_write_at_def Let_def BLOCK_SZ_def by (simp add: run_simps)
  ultimately show ?thesis unfolding f add_0 by (simp only: add_diff_cancel_left')
qed

end
