(* ===== verification/FileGrow.thy ===== *)
theory FileGrow
  imports FileData
begin

text \<open>
  Growing a file: \<^verbatim>\<open>increase_size\<close>, given fresh blocks, appends them to the list of the blocks of the file.
  Throughout, \<open>L\<close> is the whole list, the old blocks and the new ones, and the iterator over the new
  blocks is a suffix of it; what grows is the number of data blocks that are in place.
\<close>

section \<open>Blocks in place\<close>

text \<open>\<^verbatim>\<open>get_block_id\<close> finds block \<open>k\<close> of the list.\<close>

definition placed :: "device \<Rightarrow> DiskInode \<Rightarrow> u32 list \<Rightarrow> nat \<Rightarrow> bool" where
  "placed d di L k =
     (if k < 28 then direct di ! k = L ! k
      else if k < 156 then indirect1 di = L ! 28 \<and> entry d (L ! 28) (k - 28) = L ! (k + 1)
      else indirect2 di = L ! 157 \<and>
        entry d (L ! 157) ((k - 156) div 128) = L ! (158 + 129 * ((k - 156) div 128)) \<and>
        entry d (L ! (158 + 129 * ((k - 156) div 128))) ((k - 156) mod 128) = L ! dpos k)"

lemma maps_iff_placed:
  "maps d di n L \<longleftrightarrow> n \<le> MAX_DATA \<and> length (direct di) = 28 \<and> (\<forall>k < n. placed d di L k)"
proof
  assume m: "maps d di n L"
  note md = mapsD [OF m]
  have "placed d di L k" if "k < n" for k
  proof (cases k rule: block_number_cases)
    case 1
    with md(3) that show ?thesis by (simp add: placed_def)
  next
    case (2 i)
    with md(4) md(5) [of i] that show ?thesis by (simp add: placed_def)
  next
    case (3 q r)
    then have "k - 156 = 128 * q + r" by simp
    with 3 md(6) md(7) [of q] md(8) [of r q] that show ?thesis by (simp add: placed_def dpos_indirect2)
  qed
  with md(1,2) show "n \<le> MAX_DATA \<and> length (direct di) = 28 \<and> (\<forall>k < n. placed d di L k)" by blast
next
  assume a: "n \<le> MAX_DATA \<and> length (direct di) = 28 \<and> (\<forall>k < n. placed d di L k)"
  then have p: "placed d di L k" if "k < n" for k using that by blast
  show "maps d di n L"
  proof (rule mapsI)
    show "direct di ! k = L ! k" if "k < 28" "k < n" for k using p [OF that(2)] that(1) by (simp add: placed_def)
    show "indirect1 di = L ! 28" if "28 < n" using p [of 28] that by (simp add: placed_def)
    show "entry d (L ! 28) k = L ! (29 + k)" if "k < 128" "28 + k < n" for k
      using p [of "28 + k"] that by (simp add: placed_def)
    show "indirect2 di = L ! 157" if "156 < n" using p [of 156] that by (simp add: placed_def)
    show "entry d (L ! 157) q = L ! (158 + 129 * q)" if "156 + 128 * q < n" for q
      using p [of "156 + 128 * q"] that by (simp add: placed_def)
    show "entry d (L ! (158 + 129 * q)) r = L ! (159 + 129 * q + r)" if "r < 128" "156 + 128 * q + r < n" for q r
      using p [of "156 + 128 * q + r"] that dpos_indirect2 [of r q] by (simp add: placed_def)
  qed (use a in auto)
qed

lemma maps_extend:
  "\<lbrakk>maps d di n L; n \<le> m; m \<le> MAX_DATA; \<And>k. \<lbrakk>n \<le> k; k < m\<rbrakk> \<Longrightarrow> placed d di L k\<rbrakk> \<Longrightarrow> maps d di m L"
  by (auto simp: maps_iff_placed) (meson not_le)

lemma maps_shorter: "\<lbrakk>maps d di n L; m \<le> n\<rbrakk> \<Longrightarrow> maps d di m L"
  by (auto simp: maps_iff_placed)

lemma maps_prefix:
  assumes "maps d di n L" and "length L = tot n"
  shows "maps d di n (L @ v)"
proof (rule mapsI)
  note m = mapsD [OF assms(1)]
  have ap: "(L @ v) ! p = L ! p" if "p < tot n" for p using that assms(2) by (simp add: nth_append)
  have dp: "(L @ v) ! dpos k = L ! dpos k" if "k < n" for k using ap [OF dpos_less_tot [OF that]] .
  show "n \<le> MAX_DATA" "length (direct di) = 28" using m by auto
  show "direct di ! k = (L @ v) ! k" if "k < 28" "k < n" for k
    using m(3) [OF that] dp [OF that(2)] that(1) by (simp add: dpos_direct)
  show "indirect1 di = (L @ v) ! 28" if "28 < n" using m(4) [OF that] ap [OF index_less_tot(1) [OF that]] by simp
  show "indirect2 di = (L @ v) ! 157" if "156 < n" using m(6) [OF that] ap [OF index_less_tot(2) [OF that]] by simp
  show "entry d ((L @ v) ! 28) k = (L @ v) ! (29 + k)" if "k < 128" "28 + k < n" for k
    using m(5) [OF that] dp [OF that(2)] that(1) ap [OF index_less_tot(1)] that by (simp add: dpos_indirect1)
  show "entry d ((L @ v) ! 157) q = (L @ v) ! (158 + 129 * q)" if "156 + 128 * q < n" for q
    using m(7) [OF that] ap [OF index_less_tot(2)] ap [OF index_less_tot(3) [OF that]] that by simp
  show "entry d ((L @ v) ! (158 + 129 * q)) r = (L @ v) ! (159 + 129 * q + r)" if "r < 128" "156 + 128 * q + r < n" for q r
    using m(8) [OF that] ap [OF index_less_tot(3), of q] dp [OF that(2)] that by (simp add: dpos_indirect2)
qed

lemma entry_upd:
  "entry (d(ucast b := encode_words 4 xs)) b' i = (if b' = b then xs ! i else entry d b' i)"
  by (simp add: entry_def)

section \<open>Filling an array\<close>

lemma fill_loop_spec:
  assumes "lim - cur \<le> length new" and "lim \<le> length xs"
  shows "\<exists>ys. fill_loop cur lim xs new = Ok (max cur lim, ys, drop (lim - cur) new) \<and> length ys = length xs \<and>
    (\<forall>k < length xs. ys ! k = (if cur \<le> k \<and> k < lim then new ! (k - cur) else xs ! k))"
  using assms
proof (induction "lim - cur" arbitrary: cur xs new)
  case 0
  then show ?case by (auto simp: fill_loop.simps [of cur])
next
  case (Suc m)
  then obtain b new' where new: "new = b # new'" by (cases new) auto
  have pre: "m = lim - (cur + 1)" "lim - (cur + 1) \<le> length new'" "lim \<le> length (xs[cur := b])"
    using Suc.hyps(2) Suc.prems new by auto
  from Suc.hyps(1) [OF pre] obtain ys where ys: "fill_loop (cur + 1) lim (xs[cur := b]) new' = Ok (max (cur + 1) lim, ys, drop (lim - (cur + 1)) new')"
    "length ys = length xs"
    "\<forall>k < length xs. ys ! k = (if cur + 1 \<le> k \<and> k < lim then new' ! (k - (cur + 1)) else xs[cur := b] ! k)"
    unfolding length_list_update by blast
  have lt: "cur < lim" using Suc.hyps(2) by simp
  have "fill_loop cur lim xs new = Ok (max cur lim, ys, drop (lim - cur) new)"
    using ys(1) lt new by (simp add: fill_loop.simps [of cur] drop_Cons' max_def)
  moreover have "ys ! k = (if cur \<le> k \<and> k < lim then new ! (k - cur) else xs ! k)" if "k < length xs" for k
    using ys(3) that lt new Suc.prems(2) by (cases "k = cur") (auto simp: nth_Cons')
  ultimately show ?case using ys(2) by blast
qed

text \<open>The new blocks are a suffix of the list.\<close>

lemma fill_from_list:
  assumes "p + (lim - cur) \<le> length L" and "lim \<le> length xs"
  shows "\<exists>ys. fill_loop cur lim xs (drop p L) = Ok (max cur lim, ys, drop (p + (lim - cur)) L) \<and> length ys = length xs \<and>
    (\<forall>k < length xs. ys ! k = (if cur \<le> k \<and> k < lim then L ! (p + (k - cur)) else xs ! k))"
proof -
  have "lim - cur \<le> length (drop p L)" using assms(1) by simp
  from fill_loop_spec [OF this assms(2)] obtain ys where ys:
    "fill_loop cur lim xs (drop p L) = Ok (max cur lim, ys, drop (lim - cur) (drop p L))" "length ys = length xs"
    "\<forall>k < length xs. ys ! k = (if cur \<le> k \<and> k < lim then drop p L ! (k - cur) else xs ! k)" by blast
  moreover have "drop p L ! (k - cur) = L ! (p + (k - cur))" for k by (cases "p \<le> length L") (use assms(1) in auto)
  ultimately show ?thesis by (auto simp: add.commute)
qed

lemma next_from_list: "p < length L \<Longrightarrow> next_block (drop p L) = Ok (L ! p, drop (Suc p) L)"
  by (simp add: next_block_def flip: Cons_nth_drop_Suc)

section \<open>Filling the doubly indirect blocks\<close>

text \<open>The position of the next new block when \<open>128 * a + b\<close> blocks of the last part are in place.\<close>

definition next_pos :: "nat \<Rightarrow> nat \<Rightarrow> nat" where
  "next_pos a b = 158 + 129 * a + (if b = 0 then 0 else Suc b)"

lemma next_pos_Suc: "next_pos a (Suc b) = 160 + 129 * a + b" "next_pos (Suc a) 0 = 287 + 129 * a"
  by (simp_all add: next_pos_def)

text \<open>One round of the loop puts one data block in place.\<close>

lemma fill2_step:
  fixes L :: "u32 list"
  defines "i2 \<equiv> ucast (L ! 157) :: usize"
  assumes d: "dev_ok d" and L: "distinct L" "159 + 129 * a + b < length L" and H: "room H (set L - {L ! 157})"
    and ab: "a < 128" "b < 128" and go: "a < a1 \<or> (a = a1 \<and> b < b1)" and xs: "length xs = 128"
    and di: "indirect2 di = L ! 157" and m: "maps (d(i2 := encode_words 4 xs)) di (156 + 128 * a + b) L"
  shows "\<exists>xs' d'. run (fill2_loop a b a1 b1 xs (drop (next_pos a b) L)) H d =
      run (if b + 1 = 128 then fill2_loop (a + 1) 0 a1 b1 xs' (drop (next_pos (a + 1) 0) L)
           else fill2_loop a (b + 1) a1 b1 xs' (drop (next_pos a (b + 1)) L)) H d' \<and>
    length xs' = 128 \<and> dev_ok d' \<and> (\<forall>x. x \<noteq> ucast (L ! (158 + 129 * a)) \<longrightarrow> d' x = d x) \<and>
    maps (d'(i2 := encode_words 4 xs')) di (Suc (156 + 128 * a + b)) L"
proof -
  let ?p = "158 + 129 * a" and ?D = "d(i2 := encode_words 4 xs)" and ?n = "156 + 128 * a + b"
  define s where "s = L ! ?p"
  define xs' where "xs' = xs[a := s]"
  define new where "new = L ! (159 + 129 * a + b)"
  define d' where "d' = d(ucast s := encode_words 4 ((u32s (d (ucast s)))[b := new]))"
  have pl: "?p < length L" using L(2) by simp
  have apart: "L ! p \<noteq> L ! q" if "p < length L" "q < length L" "p \<noteq> q" for p q
    using that L(1) by (simp add: nth_eq_iff_index_eq)
  have s157: "s \<noteq> L ! 157" unfolding s_def using pl by (intro apart) auto
  have sH: "ucast s \<notin> set H" using roomD(1) [OF H, of s] s157 pl by (auto simp: s_def)
  have xa: "xs ! a = s" if "b \<noteq> 0"
    using mapsD(7) [OF m, of a] that by (simp add: i2_def entry_upd s_def)
  have xs'_eq: "xs' = (if b = 0 then xs[a := s] else xs)" using xa by (auto simp: xs'_def)
  have first: "(if b = 0 then lift_res (bind_res (next_block (drop (next_pos a b) L)) (\<lambda>(b, rest). Ok (xs[a := b], rest)))
      else Done (xs, drop (next_pos a b) L)) = Done (xs', drop (159 + 129 * a + b) L)"
    using next_from_list [OF pl] by (cases "b = 0") (simp_all add: xs'_eq next_pos_def lift_res_def s_def add.assoc)
  have xsa: "xs' ! a = s" using xs ab(1) by (simp add: xs'_def)
  have second: "run (block_modify (ucast (xs' ! a)) 0 BLOCK_SZ (\<lambda>bytes.
      lift_res (bind_res (next_block (drop (159 + 129 * a + b) L)) (\<lambda>(c, rest).
        Ok (encode_words 4 ((u32s bytes)[b := c]), rest))))) H d = Ok (drop (160 + 129 * a + b) L, d')"
    unfolding xsa d'_def
    by (rule run_modify_whole [OF roomD(2) [OF H] sH d])
       (use next_from_list [OF L(2)] d in \<open>simp_all add: run_simps new_def BLOCK_SZ_def add.assoc\<close>)
  have nxt: "next_pos (a + 1) 0 = 160 + 129 * a + b" if "b + 1 = 128" using that by (simp add: next_pos_def)
  have "run (fill2_loop a b a1 b1 xs (drop (next_pos a b) L)) H d =
      run (if b + 1 = 128 then fill2_loop (a + 1) 0 a1 b1 xs' (drop (next_pos (a + 1) 0) L)
           else fill2_loop a (b + 1) a1 b1 xs' (drop (next_pos a (b + 1)) L)) H d'"
    unfolding fill2_loop.simps [of a b] first using go ab second nxt next_pos_Suc(1) [of a b]
    by (simp add: run_simps layout_consts)
  moreover have "dev_ok d'" unfolding d'_def using d by (intro dev_ok_upd) (simp_all add: BLOCK_SZ_def)
  moreover have "maps (d'(i2 := encode_words 4 xs')) di (Suc ?n) L"
  proof (rule maps_extend)
    let ?D' = "d'(i2 := encode_words 4 xs')"
    have "?D' = ?D(ucast s := encode_words 4 ((u32s (d (ucast s)))[b := new]), i2 := encode_words 4 xs')"
      using s157 by (auto simp: d'_def i2_def fun_eq_iff)
    have ent: "entry ?D' c i = (if c = L ! 157 then xs' ! i else if c = s then (u32s (d (ucast s)))[b := new] ! i
        else entry ?D c i)" for c i
      using s157 by (simp add: i2_def d'_def entry_def)
    have us: "length (u32s (d (ucast s))) = 128" using d by simp
    show "maps ?D' di ?n L"
    proof (rule mapsI)
      note md = mapsD [OF m]
      have in28: "28 < length L" "157 < length L" using pl by auto
      have e28: "entry ?D' (L ! 28) k = entry ?D (L ! 28) k" for k
        using apart [of 28 157] apart [of 28 ?p] in28 pl by (simp add: ent s_def)
      show "?n \<le> MAX_DATA" "length (direct di) = 28" using md(1,2) by auto
      show "direct di ! k = L ! k" if "k < 28" "k < ?n" for k using md(3) [OF that] .
      show "indirect1 di = L ! 28" if "28 < ?n" using md(4) [OF that] .
      show "entry ?D' (L ! 28) k = L ! (29 + k)" if "k < 128" "28 + k < ?n" for k using md(5) [OF that] e28 by simp
      show "indirect2 di = L ! 157" by (rule di)
      show "entry ?D' (L ! 157) q = L ! (158 + 129 * q)" if "156 + 128 * q < ?n" for q
      proof -
        have "entry ?D (L ! 157) q = xs ! q" by (simp add: i2_def entry_upd)
        then show ?thesis using md(7) [OF that] xs ab(1) unfolding ent by (cases "q = a") (simp_all add: xs'_def s_def)
      qed
      show "entry ?D' (L ! (158 + 129 * q)) r = L ! (159 + 129 * q + r)" if r: "r < 128" "156 + 128 * q + r < ?n" for q r
      proof (cases "q = a")
        case True
        then have "r < b" "L ! (158 + 129 * q) = s" using r(2) by (auto simp: s_def)
        then show ?thesis using md(8) [OF r] s157 us ab(2) unfolding ent by (simp add: i2_def entry_def)
      next
        case False
        then have "q < a" using r ab by linarith
        then have "L ! (158 + 129 * q) \<noteq> s" "L ! (158 + 129 * q) \<noteq> L ! 157"
          unfolding s_def using pl apart [of "158 + 129 * q" ?p] apart [of "158 + 129 * q" 157] by auto
        then show ?thesis using md(8) [OF r] by (simp add: ent)
      qed
    qed
    show "Suc ?n \<le> MAX_DATA" using ab by (simp add: MAX_DATA_def)
    show "placed ?D' di L k" if "?n \<le> k" "k < Suc ?n" for k
    proof -
      have k: "k = 156 + 128 * a + b" using that by simp
      have kd: "k - 156 = 128 * a + b" "(128 * a + b) div 128 = a" "(128 * a + b) mod 128 = b" "\<not> k < 28" "\<not> k < 156"
        "dpos k = 159 + 129 * a + b" using k ab(2) dpos_indirect2 [OF ab(2), of a] by auto
      have "placed ?D' di L k \<longleftrightarrow> indirect2 di = L ! 157 \<and> entry ?D' (L ! 157) a = s \<and> entry ?D' s b = new"
        using ab(2) by (simp add: placed_def kd s_def new_def del: fun_upd_apply)
      then show ?thesis unfolding ent using s157 us ab xs di by (simp add: xs'_def)
    qed
  qed simp
  moreover have "length xs' = 128" using xs by (simp add: xs'_def)
  moreover have "\<forall>x. x \<noteq> ucast (L ! ?p) \<longrightarrow> d' x = d x" by (simp add: d'_def s_def)
  ultimately show ?thesis by blast
qed

text \<open>The whole loop, from \<open>(a, b)\<close> to \<open>(a1, b1)\<close>.\<close>

lemma fill2_loop_spec:
  fixes L :: "u32 list"
  defines "i2 \<equiv> ucast (L ! 157) :: usize"
  assumes L: "distinct L" "length L = tot (156 + 128 * a1 + b1)" and H: "room H (set L - {L ! 157})"
    and b1: "b1 < 128" and max: "156 + 128 * a1 + b1 \<le> MAX_DATA" "156 < 156 + 128 * a1 + b1" and di: "indirect2 di = L ! 157"
    and "dev_ok d" and "b < 128" and "128 * a + b \<le> 128 * a1 + b1" and "length xs = 128"
    and "maps (d(i2 := encode_words 4 xs)) di (156 + 128 * a + b) L"
  shows "\<exists>xs' rest d'. run (fill2_loop a b a1 b1 xs (drop (next_pos a b) L)) H d = Ok ((xs', rest), d') \<and>
    length xs' = 128 \<and> dev_ok d' \<and>
    (\<forall>x. (\<forall>q. 156 + 128 * q < 156 + 128 * a1 + b1 \<longrightarrow> x \<noteq> ucast (L ! (158 + 129 * q))) \<longrightarrow> d' x = d x) \<and>
    maps (d'(i2 := encode_words 4 xs')) di (156 + 128 * a1 + b1) L"
  using assms(9-)
proof (induction "128 * a1 + b1 - (128 * a + b)" arbitrary: a b xs d)
  case 0
  then have eq: "128 * a + b = 128 * a1 + b1" by simp
  have a: "a = a1" using eq 0(3) b1 by (cases a a1 rule: linorder_cases) linarith+
  then have b: "b = b1" using eq by simp
  have "run (fill2_loop a b a1 b1 xs (drop (next_pos a b) L)) H d = Ok ((xs, drop (next_pos a b) L), d)"
    unfolding a b by (simp add: fill2_loop.simps [of a1 b1])
  then show ?case using 0(2) 0(5) 0(6) unfolding a b by blast
next
  case (Suc m)
  let ?N = "156 + 128 * a1 + b1"
  have lt: "128 * a + b < 128 * a1 + b1" using Suc.hyps(2) by simp
  have go: "a < a1 \<or> (a = a1 \<and> b < b1)" using lt b1 by (cases a a1 rule: linorder_cases) linarith+
  have len: "159 + 129 * a + b < length L"
    using dpos_less_tot [of "156 + 128 * a + b" ?N] lt dpos_indirect2 [OF Suc.prems(2), of a] L(2) by simp
  have a: "a < 128" using lt max(1) by (simp add: MAX_DATA_def)
  from fill2_step [OF Suc.prems(1) L(1) len H a Suc.prems(2) go Suc.prems(4) di Suc.prems(5) [unfolded i2_def], folded i2_def]
  obtain xs' d' where st: "run (fill2_loop a b a1 b1 xs (drop (next_pos a b) L)) H d =
      run (if b + 1 = 128 then fill2_loop (a + 1) 0 a1 b1 xs' (drop (next_pos (a + 1) 0) L)
           else fill2_loop a (b + 1) a1 b1 xs' (drop (next_pos a (b + 1)) L)) H d'"
    "length xs' = 128" "dev_ok d'" "\<forall>x. x \<noteq> ucast (L ! (158 + 129 * a)) \<longrightarrow> d' x = d x"
    "maps (d'(i2 := encode_words 4 xs')) di (Suc (156 + 128 * a + b)) L" by blast
  define a2 b2 where "a2 = (if b + 1 = 128 then a + 1 else a)" and "b2 = (if b + 1 = 128 then 0 else b + 1)"
  have n2: "128 * a2 + b2 = Suc (128 * a + b)" by (simp add: a2_def b2_def)
  have pre: "m = 128 * a1 + b1 - (128 * a2 + b2)" "b2 < 128" "128 * a2 + b2 \<le> 128 * a1 + b1"
    using Suc.hyps(2) n2 lt Suc.prems(2) by (auto simp: b2_def)
  have m2: "maps (d'(i2 := encode_words 4 xs')) di (156 + 128 * a2 + b2) L"
    using st(5) n2 by (metis add.assoc add_Suc_right)
  from Suc.hyps(1) [OF pre(1) st(3) pre(2,3) st(2) m2] obtain xs'' rest d'' where
    r: "run (fill2_loop a2 b2 a1 b1 xs' (drop (next_pos a2 b2) L)) H d' = Ok ((xs'', rest), d'')" "length xs'' = 128" "dev_ok d''"
    "\<forall>x. (\<forall>q. 156 + 128 * q < ?N \<longrightarrow> x \<noteq> ucast (L ! (158 + 129 * q))) \<longrightarrow> d'' x = d' x"
    "maps (d''(i2 := encode_words 4 xs'')) di ?N L" by blast
  have "run (fill2_loop a b a1 b1 xs (drop (next_pos a b) L)) H d = Ok ((xs'', rest), d'')"
    using st(1) r(1) by (auto simp: a2_def b2_def split: if_splits)
  moreover have "d'' x = d x" if x: "\<forall>q. 156 + 128 * q < ?N \<longrightarrow> x \<noteq> ucast (L ! (158 + 129 * q))" for x
    using r(4) st(4) x [rule_format, of a] x lt by simp
  ultimately show ?case using r(2,3,5) by blast
qed

section \<open>The whole of increase_size\<close>

text \<open>The index blocks of a file of \<open>n\<close> data blocks.\<close>

definition index_set :: "u32 list \<Rightarrow> nat \<Rightarrow> u32 set" where
  "index_set L n = {L ! p | p. p < tot n \<and> ipos p}"

lemma index_set_I:
  "28 < n \<Longrightarrow> L ! 28 \<in> index_set L n" "156 < n \<Longrightarrow> L ! 157 \<in> index_set L n"
  "156 + 128 * q < n \<Longrightarrow> L ! (158 + 129 * q) \<in> index_set L n"
  unfolding index_set_def using index_less_tot by (blast intro: ipos_simps)+

text \<open>Filling the direct entries.\<close>

lemma grow_direct:
  assumes m: "maps d di n L" and n: "n \<le> n'" "n' \<le> MAX_DATA" "length L = tot n'"
  defines "m1 \<equiv> max n (min n' 28)"
  shows "\<exists>xs. fill_loop n (min n' 28) (direct di) (drop (tot n) L) = Ok (m1, xs, drop (tot m1) L) \<and>
    maps d (di\<lparr>direct := xs\<rparr>) m1 L"
proof (cases "n < 28")
  case True
  then have tn: "tot n = n" "m1 = min n' 28" "tot m1 = m1" using n(1) by (auto simp: tot_direct m1_def)
  have "min n' 28 \<le> tot n'" using tot_mono [of "min n' 28" n'] tot_direct [of "min n' 28"] by simp
  then have "tot n + (min n' 28 - n) \<le> length L" "min n' 28 \<le> length (direct di)"
    using tn n True mapsD(2) [OF m] by auto
  from fill_from_list [OF this] obtain xs where xs: "fill_loop n (min n' 28) (direct di) (drop (tot n) L) =
      Ok (max n (min n' 28), xs, drop (tot n + (min n' 28 - n)) L)" "length xs = length (direct di)"
    "\<forall>k < length (direct di). xs ! k = (if n \<le> k \<and> k < min n' 28 then L ! (tot n + (k - n)) else direct di ! k)" by blast
  have "maps d (di\<lparr>direct := xs\<rparr>) n L"
    using m xs(2,3) True mapsD(2) [OF m] by (simp add: maps_iff_placed placed_def)
  then have "maps d (di\<lparr>direct := xs\<rparr>) m1 L"
  proof (rule maps_extend)
    show "placed d (di\<lparr>direct := xs\<rparr>) L k" if "n \<le> k" "k < m1" for k
      using that xs(3) tn mapsD(2) [OF m] by (simp add: placed_def)
  qed (use n tn True in auto)
  then show ?thesis using xs(1) tn True n(1) by (auto simp: m1_def)
next
  case False
  then have "m1 = n" "fill_loop n (min n' 28) (direct di) (drop (tot n) L) = Ok (n, direct di, drop (tot n) L)"
    by (auto simp: m1_def fill_loop.simps [of n])
  then show ?thesis using m by (intro exI [of _ "direct di"]) simp
qed

text \<open>Filling the block \<^verbatim>\<open>indirect1\<close>.\<close>

lemma grow_indirect1:
  assumes d: "dev_ok d" and L: "distinct L" "length L = tot n'" and m: "maps d di n L" and n: "28 \<le> n" "n \<le> n'" "28 < n'" "n' \<le> MAX_DATA"
    and H: "room H (set L)"
  defines "m2 \<equiv> max n (min n' 156)"
  defines "p \<equiv> (if n = 28 then 29 else tot n)"
  defines "di1 \<equiv> (if n = 28 then di\<lparr>indirect1 := L ! 28\<rparr> else di)"
  shows "\<exists>d'. run (block_modify (ucast (indirect1 di1)) 0 BLOCK_SZ (\<lambda>bytes.
            lift_res (bind_res (fill_loop (n - 28) (min (n' - 28) 128) (u32s bytes) (drop p L))
              (\<lambda>(current, xs, new_blocks). Ok (encode_words 4 xs, (current, new_blocks)))))) H d =
      Ok ((m2 - 28, drop (tot m2) L), d') \<and> dev_ok d' \<and> (\<forall>x. x \<noteq> ucast (L ! 28) \<longrightarrow> d' x = d x) \<and> maps d' di1 m2 L"
proof -
  let ?b = "L ! 28"
  have len: "28 < length L" using index_less_tot(1) [OF n(3)] L(2) by simp
  have apart: "L ! p \<noteq> L ! q" if "p < length L" "q < length L" "p \<noteq> q" for p q
    using that L(1) by (simp add: nth_eq_iff_index_eq)
  have i1: "indirect1 di1 = ?b" using mapsD(4) [OF m] n(1) by (auto simp: di1_def)
  have bH: "ucast ?b \<notin> set H" using roomD(1) [OF H] len by simp
  have m1: "maps d di1 n L"
    using m by (cases "n = 28") (simp_all add: di1_def maps_iff_placed placed_def)
  let ?xs = "u32s (d (ucast ?b))" and ?lim = "min (n' - 28) 128"
  have lx: "length ?xs = 128" using d by simp
  have tm2: "p + (?lim - (n - 28)) = tot m2"
  proof (cases "n < 156")
    case True
    have "tot n = Suc n" if "n \<noteq> 28" using tot_indirect1 [of "n - 28"] that n True by simp
    then have p: "p = n + 1" by (auto simp: p_def)
    have m2: "m2 = min n' 156" using True n by (auto simp: m2_def)
    have "tot m2 = m2 + 1" using tot_indirect1 [of "m2 - 28"] n m2 by simp
    then show ?thesis using p m2 True n by (auto simp: min_def)
  next
    case False
    then show ?thesis using n by (auto simp: p_def m2_def)
  qed
  moreover have "tot m2 \<le> tot n'" using n by (intro tot_mono) (auto simp: m2_def)
  ultimately have "p + (?lim - (n - 28)) \<le> length L" "?lim \<le> length ?xs" using L(2) lx by auto
  from fill_from_list [OF this] obtain ys where ys: "fill_loop (n - 28) ?lim ?xs (drop p L) =
      Ok (max (n - 28) ?lim, ys, drop (tot m2) L)" "length ys = 128"
    "\<forall>k < 128. ys ! k = (if n - 28 \<le> k \<and> k < ?lim then L ! (p + (k - (n - 28))) else ?xs ! k)"
    unfolding tm2 lx by blast
  define d' where "d' = d(ucast ?b := encode_words 4 ys)"
  have mx: "max (n - 28) ?lim = m2 - 28" using n by (auto simp: m2_def)
  have "run (block_modify (ucast (indirect1 di1)) 0 BLOCK_SZ (\<lambda>bytes.
            lift_res (bind_res (fill_loop (n - 28) ?lim (u32s bytes) (drop p L))
              (\<lambda>(current, xs, new_blocks). Ok (encode_words 4 xs, (current, new_blocks)))))) H d =
      Ok ((m2 - 28, drop (tot m2) L), d')"
    unfolding i1 d'_def
    by (rule run_modify_whole [OF roomD(2) [OF H] bH d]) (use ys mx d in \<open>simp_all add: run_simps BLOCK_SZ_def\<close>)
  moreover have "dev_ok d'" unfolding d'_def using d ys(2) by (intro dev_ok_upd) (simp_all add: BLOCK_SZ_def)
  moreover have "maps d' di1 m2 L"
  proof (rule maps_extend)
    have ent: "entry d' c i = (if c = ?b then ys ! i else entry d c i)" for c i unfolding d'_def by (rule entry_upd)
    have xs_e: "?xs ! i = entry d ?b i" for i by (simp add: entry_def)
    show "maps d' di1 n L"
    proof (rule mapsI)
      note md = mapsD [OF m1]
      show "n \<le> MAX_DATA" "length (direct di1) = 28" using md(1,2) by auto
      show "direct di1 ! k = L ! k" if "k < 28" "k < n" for k using md(3) [OF that] .
      show "indirect1 di1 = L ! 28" by (rule i1)
      show "indirect2 di1 = L ! 157" if "156 < n" using md(6) [OF that] .
      show "entry d' ?b k = L ! (29 + k)" if "k < 128" "28 + k < n" for k
      proof -
        have "\<not> n - 28 \<le> k" using that by simp
        then have "ys ! k = ?xs ! k" using ys(3) that(1) by simp
        then show ?thesis using md(5) [OF that] by (simp add: ent xs_e)
      qed
      have tn: "tot n \<le> length L" using tot_mono [OF n(2)] L(2) by simp
      show "entry d' (L ! 157) q = L ! (158 + 129 * q)" if "156 + 128 * q < n" for q
        using md(7) [OF that] apart [of 157 28] len index_less_tot(2) [of n] that tn by (simp add: ent)
      show "entry d' (L ! (158 + 129 * q)) r = L ! (159 + 129 * q + r)" if "r < 128" "156 + 128 * q + r < n" for q r
        using md(8) [OF that] apart [of "158 + 129 * q" 28] len index_less_tot(3) [of q n] that tn by (simp add: ent)
    qed
    show "placed d' di1 L k" if k: "n \<le> k" "k < m2" for k
    proof -
      have "n < 156" "k < 156" "k < n'" using k n by (auto simp: m2_def)
      moreover have "p = n + 1"
        using tot_indirect1 [of "n - 28"] \<open>n < 156\<close> n(1) by (auto simp: p_def)
      ultimately have "p + (k - 28 - (n - 28)) = k + 1" "n - 28 \<le> k - 28" "k - 28 < ?lim" "k - 28 < 128"
        using k n(1) by auto
      then have "ys ! (k - 28) = L ! (k + 1)" using ys(3) by simp
      then show ?thesis using k n(1) \<open>k < 156\<close> i1 by (simp add: placed_def ent)
    qed
  qed (use n in \<open>auto simp: m2_def MAX_DATA_def\<close>)
  moreover have "\<forall>x. x \<noteq> ucast ?b \<longrightarrow> d' x = d x" by (simp add: d'_def)
  ultimately show ?thesis by blast
qed

text \<open>Filling the doubly indirect blocks.\<close>

lemma grow_indirect2:
  assumes d: "dev_ok d" and L: "distinct L" "length L = tot n'" and m: "maps d di n L" and n: "156 \<le> n" "n \<le> n'" "156 < n'" "n' \<le> MAX_DATA"
    and H: "room H (set L)" "length H \<le> 11"
  defines "p \<equiv> (if n = 156 then 158 else tot n)"
  defines "di1 \<equiv> (if n = 156 then di\<lparr>indirect2 := L ! 157\<rparr> else di)"
  shows "\<exists>d'. run (block_modify (ucast (indirect2 di1)) 0 BLOCK_SZ (\<lambda>bytes.
              bind_prog (fill2_loop ((n - 156) div 128) ((n - 156) mod 128) ((n' - 156) div 128) ((n' - 156) mod 128) (u32s bytes) (drop p L))
                (\<lambda>(xs, _). Done (encode_words 4 xs, ())))) H d = Ok ((), d') \<and> dev_ok d' \<and>
    (\<forall>x. x \<notin> ucast ` index_set L n' \<longrightarrow> d' x = d x) \<and> maps d' di1 n' L"
proof -
  let ?b = "L ! 157"
  define a b a1 b1 where "a = (n - 156) div 128" and "b = (n - 156) mod 128" and "a1 = (n' - 156) div 128" and "b1 = (n' - 156) mod 128"
  have bl: "b < 128" "b1 < 128" by (simp_all add: b_def b1_def)
  have ab: "n = 156 + 128 * a + b" "n' = 156 + 128 * a1 + b1" using n by (simp_all add: a_def b_def a1_def b1_def)
  have len: "157 < length L" using index_less_tot(2) [OF n(3)] L(2) by simp
  have i2: "indirect2 di1 = ?b" using mapsD(6) [OF m] n(1) by (auto simp: di1_def)
  have bH: "ucast ?b \<notin> set H" using roomD(1) [OF H(1)] len by simp
  have H': "room (ucast ?b # H) (set L - {?b})" using H by (auto simp: room_def)
  have m1: "maps d di1 n L"
    using m by (cases "n = 156") (simp_all add: di1_def maps_iff_placed placed_def)
  have p: "p = next_pos a b"
  proof (cases "n = 156")
    case True
    then show ?thesis by (simp add: p_def next_pos_def a_def b_def)
  next
    case False
    then show ?thesis
    proof (cases "b = 0")
      case True
      then obtain a' where "a = Suc a'" using False ab(1) by (cases a) auto
      then show ?thesis using tot_indirect2 [of 128 a'] False True ab(1) by (simp add: p_def next_pos_def)
    next
      case b: False
      then show ?thesis using tot_indirect2 [of b a] bl False ab(1) by (simp add: p_def next_pos_def)
    qed
  qed
  let ?xs = "u32s (d (ucast ?b))"
  have same: "d(ucast ?b := encode_words 4 ?xs) = d" using encode_u32s [of "d (ucast ?b)"] d by simp
  have "\<exists>xs' rest d'. run (fill2_loop a b a1 b1 ?xs (drop (next_pos a b) L)) (ucast ?b # H) d = Ok ((xs', rest), d') \<and>
    length xs' = 128 \<and> dev_ok d' \<and>
    (\<forall>x. (\<forall>q. 156 + 128 * q < 156 + 128 * a1 + b1 \<longrightarrow> x \<noteq> ucast (L ! (158 + 129 * q))) \<longrightarrow> d' x = d x) \<and>
    maps (d'(ucast ?b := encode_words 4 xs')) di1 (156 + 128 * a1 + b1) L"
  proof (rule fill2_loop_spec [OF L(1) _ H' bl(2) _ _ i2 d bl(1)])
    show "maps (d(ucast ?b := encode_words 4 ?xs)) di1 (156 + 128 * a + b) L" unfolding same using m1 ab(1) by simp
    show "length L = tot (156 + 128 * a1 + b1)" "156 + 128 * a1 + b1 \<le> MAX_DATA" "156 < 156 + 128 * a1 + b1"
      using L(2) n(3,4) ab(2) by auto
    show "128 * a + b \<le> 128 * a1 + b1" using n(2) ab by linarith
  qed (use d in simp)
  then obtain xs' rest d' where r: "run (fill2_loop a b a1 b1 ?xs (drop p L)) (ucast ?b # H) d = Ok ((xs', rest), d')"
    "length xs' = 128" "dev_ok d'"
    "\<forall>x. (\<forall>q. 156 + 128 * q < n' \<longrightarrow> x \<noteq> ucast (L ! (158 + 129 * q))) \<longrightarrow> d' x = d x"
    "maps (d'(ucast ?b := encode_words 4 xs')) di1 n' L" unfolding p ab(2) [symmetric] by blast
  let ?d = "d'(ucast ?b := encode_words 4 xs')"
  have "run (block_modify (ucast (indirect2 di1)) 0 BLOCK_SZ (\<lambda>bytes.
      bind_prog (fill2_loop a b a1 b1 (u32s bytes) (drop p L)) (\<lambda>(xs, _). Done (encode_words 4 xs, ())))) H d = Ok ((), ?d)"
    unfolding i2
    by (rule run_modify_whole [OF roomD(2) [OF H(1)] bH d]) (use r(1-3) in \<open>simp_all add: run_simps BLOCK_SZ_def\<close>)
  moreover have "dev_ok ?d" using r(2,3) by (intro dev_ok_upd) (simp_all add: BLOCK_SZ_def)
  moreover have "?d x = d x" if "x \<notin> ucast ` index_set L n'" for x
  proof -
    have "x \<noteq> ucast ?b" using that index_set_I(2) [OF n(3), of L] by auto
    moreover have "x \<noteq> ucast (L ! (158 + 129 * q))" if "156 + 128 * q < n'" for q
      using \<open>x \<notin> ucast ` index_set L n'\<close> index_set_I(3) [OF that, of L] by auto
    ultimately show ?thesis using r(4) by auto
  qed
  ultimately show ?thesis using r(5) unfolding a_def b_def a1_def b1_def by blast
qed

text \<open>
  \<^verbatim>\<open>increase_size\<close> with as many fresh blocks as \<^verbatim>\<open>blocks_num_needed\<close> says: the file has the new size, its blocks
  are the old ones followed by the new ones, and only index blocks are written.
\<close>

lemma increase_size_spec:
  fixes new_size :: u32
  defines "n' \<equiv> nblk (unat new_size)"
  assumes d: "dev_ok d" and m: "maps d di (nblk (unat (di_size di))) L" and L: "length L = tot (nblk (unat (di_size di)))"
    and sz: "unat (di_size di) \<le> unat new_size" "n' \<le> MAX_DATA" and v: "length L + length v = tot n'" "distinct (L @ v)"
    and H: "room H (set (L @ v))" "length H \<le> 11"
  shows "\<exists>di' d'. run (increase_size new_size v di) H d = Ok (di', d') \<and> dev_ok d' \<and> maps d' di' n' (L @ v) \<and>
    di_size di' = new_size \<and> inode_id di' = inode_id di \<and> nlink di' = nlink di \<and> di_type di' = di_type di \<and>
    (\<forall>x. x \<notin> ucast ` index_set (L @ v) n' \<longrightarrow> d' x = d x)"
proof -
  define n where "n = nblk (unat (di_size di))"
  define LL where "LL = L @ v"
  have n: "n \<le> n'" unfolding n_def n'_def by (rule nblk_mono [OF sz(1)])
  have small: "unat new_size < 2 ^ 31" using nblk_ge [of "unat new_size"] sz(2) by (simp add: n'_def MAX_DATA_def)
  have db: "unat (data_blocks di) = n" "unat (data_blocks (di\<lparr>di_size := new_size\<rparr>)) = n'"
    unfolding n_def n'_def data_blocks_def using small sz(1) by (simp_all add: unat_data_blocks_of)
  have LL: "length LL = tot n'" "distinct LL" "v = drop (tot n) LL" using v L by (simp_all add: LL_def n_def)
  have HL: "room H (set LL)" using H(1) by (simp add: LL_def)
  let ?di = "di\<lparr>di_size := new_size\<rparr>"
  have m0: "maps d ?di n LL"
    using maps_prefix [OF m L, of v] by (simp add: LL_def n_def maps_def)
  define m1 m2 where "m1 = max n (min n' 28)" and "m2 = max m1 (min n' 156)"
  from grow_direct [OF m0 n sz(2) LL(1)] obtain xs where xs:
    "fill_loop n (min n' 28) (direct di) v = Ok (m1, xs, drop (tot m1) LL)" "maps d (?di\<lparr>direct := xs\<rparr>) m1 LL"
    unfolding LL(3) m1_def by auto
  let ?di1 = "?di\<lparr>direct := xs\<rparr>"
  let ?goal = "\<lambda>r. \<exists>di' d'. r = Ok (di', d') \<and> dev_ok d' \<and> maps d' di' n' LL \<and>
    di_size di' = new_size \<and> inode_id di' = inode_id di \<and> nlink di' = nlink di \<and> di_type di' = di_type di \<and>
    (\<forall>x. x \<notin> ucast ` index_set LL n' \<longrightarrow> d' x = d x)"
  note unf = increase_size_def Let_def db layout_consts
  show ?thesis unfolding LL_def [symmetric]
  proof (cases "28 < n'")
    case False
    then have "m1 = n'" using n by (simp add: m1_def)
    then show "?goal (run (increase_size new_size v di) H d)"
      using False xs d by (simp add: unf run_simps)
  next
    case n28: True
    have m1: "28 \<le> m1" "m1 \<le> n'" using n28 n by (auto simp: m1_def)
    define p di2 where "p = (if m1 = 28 then 29 else tot m1)" and "di2 = (if m1 = 28 then ?di1\<lparr>indirect1 := LL ! 28\<rparr> else ?di1)"
    have nb: "(if m1 = 28 then lift_res (bind_res (next_block (drop (tot m1) LL)) (\<lambda>(b, rest). Ok (?di1\<lparr>indirect1 := b\<rparr>, rest)))
        else Done (?di1, drop (tot m1) LL)) = Done (di2, drop p LL)"
      using next_from_list [of 28 LL] index_less_tot(1) [OF n28] LL(1) by (auto simp: p_def di2_def tot_direct lift_res_def)
    from grow_indirect1 [OF d LL(2,1) xs(2) m1 n28 sz(2) HL, folded p_def di2_def m2_def] obtain d1 where d1:
      "run (block_modify (ucast (indirect1 di2)) 0 BLOCK_SZ (\<lambda>bytes.
            lift_res (bind_res (fill_loop (m1 - 28) (min (n' - 28) 128) (u32s bytes) (drop p LL))
              (\<lambda>(current, xs, new_blocks). Ok (encode_words 4 xs, (current, new_blocks)))))) H d =
      Ok ((m2 - 28, drop (tot m2) LL), d1)" "dev_ok d1" "\<forall>x. x \<noteq> ucast (LL ! 28) \<longrightarrow> d1 x = d x" "maps d1 di2 m2 LL" by blast
    have keep1: "d1 x = d x" if "x \<notin> ucast ` index_set LL n'" for x
      using that d1(3) index_set_I(1) [OF n28, of LL] by auto
    have fields: "di_size di2 = new_size" "inode_id di2 = inode_id di" "nlink di2 = nlink di" "di_type di2 = di_type di"
      by (auto simp: di2_def)
    show "?goal (run (increase_size new_size v di) H d)"
    proof (cases "156 < n'")
      case False
      then have c: "\<not> 128 < n' - 28" and "m2 = n'" using m1 by (auto simp: m2_def)
      moreover have "run (increase_size new_size v di) H d = Ok (di2, d1)"
        using n28 c xs(1) nb d1(1) by (simp add: unf run_simps split del: if_split)
      ultimately show ?thesis using d1(2,4) keep1 fields by blast
    next
      case n156: True
      then have c: "128 < n' - 28" by simp
      have m2: "156 \<le> m2" "m2 \<le> n'" using n156 m1 by (auto simp: m2_def)
      define p2 di3 where "p2 = (if m2 = 156 then 158 else tot m2)" and "di3 = (if m2 = 156 then di2\<lparr>indirect2 := LL ! 157\<rparr> else di2)"
      have nb2: "(if m2 - 28 = 128 then lift_res (bind_res (next_block (drop (tot m2) LL)) (\<lambda>(b, rest). Ok (di2\<lparr>indirect2 := b\<rparr>, rest)))
          else Done (di2, drop (tot m2) LL)) = Done (di3, drop p2 LL)"
        using next_from_list [of 157 LL] index_less_tot(2) [OF n156] LL(1) m2 tot_indirect1 [of 128] by (auto simp: p2_def di3_def lift_res_def)
      from grow_indirect2 [OF d1(2) LL(2,1) d1(4) m2 n156 sz(2) HL H(2), folded p2_def di3_def] obtain d2 where d2:
        "run (block_modify (ucast (indirect2 di3)) 0 BLOCK_SZ (\<lambda>bytes.
              bind_prog (fill2_loop ((m2 - 156) div 128) ((m2 - 156) mod 128) ((n' - 156) div 128) ((n' - 156) mod 128) (u32s bytes) (drop p2 LL))
                (\<lambda>(xs, _). Done (encode_words 4 xs, ())))) H d1 = Ok ((), d2)" "dev_ok d2"
        "\<forall>x. x \<notin> ucast ` index_set LL n' \<longrightarrow> d2 x = d1 x" "maps d2 di3 n' LL" by blast
      have "run (increase_size new_size v di) H d = Ok (di3, d2)"
        using n28 c xs(1) nb d1(1) nb2 d2(1) m2(1) by (simp add: unf run_simps split del: if_split)
      moreover have "di_size di3 = new_size" "inode_id di3 = inode_id di" "nlink di3 = nlink di" "di_type di3 = di_type di"
        using fields by (auto simp: di3_def)
      moreover have "\<forall>x. x \<notin> ucast ` index_set LL n' \<longrightarrow> d2 x = d x" using keep1 d2(3) by simp
      ultimately show ?thesis using d2(2,4) by blast
    qed
  qed
qed

end
