(* ===== verification/FileClear.thy ===== *)
theory FileClear
  imports FileGrow
begin

text \<open>
  Clearing a file: \<^verbatim>\<open>clear_size\<close> empties the inode and returns the blocks of the file, all of them, in the
  order in which they were taken, without changing a block.
\<close>

lemma take_extend: "k + m \<le> length L \<Longrightarrow> take (k + m) L = take k L @ map (\<lambda>i. L ! (k + i)) [0..<m]"
  by (rule nth_equalityI) (auto simp: nth_append)

lemma take_one_more: "k < length L \<Longrightarrow> take k L @ [L ! k] = take (Suc k) L"
  by (simp add: take_Suc_conv_app_nth)

lemma fold_clear_direct:
  "m \<le> length xs \<Longrightarrow> fold (\<lambda>i (v, xs). (v @ [xs ! i], xs[i := 0])) [0..<m] ([], xs) = (take m xs, replicate m 0 @ drop m xs)"
proof (induction m)
  case (Suc m)
  then have "(replicate m 0 @ drop m xs)[m := 0] = replicate (Suc m) 0 @ drop (Suc m) xs"
    by (intro nth_equalityI) (auto simp: nth_append nth_list_update nth_Cons' simp del: replicate_Suc)
  with Suc show ?case by (simp add: nth_append take_Suc_conv_app_nth)
qed simp

lemma fold_push: "m \<le> length ys \<Longrightarrow> fold (\<lambda>i v. v @ [ys ! i]) [0..<m] v = v @ take m ys"
  by (induction m) (auto simp: take_Suc_conv_app_nth)

text \<open>A closure that leaves its block as it is.\<close>

lemma run_modify_same:
  assumes "length H < BLOCK_CACHE_MAX_NUM" and "b \<notin> set H" and "dev_ok d" and "run (f (d b)) (b # H) d = Ok ((d b, r), d)"
  shows "run (block_modify b 0 BLOCK_SZ f) H d = Ok (r, d)"
  using run_modify_whole [OF assms(1-3), where f = f and bytes' = "d b" and r = r and d' = d] assms(3,4) by simp

text \<open>The data blocks behind the full lower index blocks.\<close>

lemma clear_full_blocks:
  assumes d: "dev_ok d" and L: "158 + 129 * a \<le> length L"
    and H: "length H < BLOCK_CACHE_MAX_NUM" "\<And>q. q < a \<Longrightarrow> ucast (L ! (158 + 129 * q)) \<notin> set H"
    and ent: "\<And>q r. \<lbrakk>q < a; r < 128\<rbrakk> \<Longrightarrow> entry d (L ! (158 + 129 * q)) r = L ! (159 + 129 * q + r)"
  shows "run (fold_prog (\<lambda>entry v. block_modify (ucast entry) 0 BLOCK_SZ (\<lambda>bytes. Done (bytes, (v @ [entry]) @ u32s bytes)))
      (map (\<lambda>q. L ! (158 + 129 * q)) [0..<a]) (take 158 L)) H d = Ok (take (158 + 129 * a) L, d)"
  using assms
proof (induction a)
  case (Suc a)
  let ?f = "\<lambda>entry v. block_modify (ucast entry) 0 BLOCK_SZ (\<lambda>bytes. Done (bytes, (v @ [entry]) @ u32s bytes))"
  let ?s = "L ! (158 + 129 * a)"
  have IH: "run (fold_prog ?f (map (\<lambda>q. L ! (158 + 129 * q)) [0..<a]) (take 158 L)) H d = Ok (take (158 + 129 * a) L, d)"
    using Suc.prems by (intro Suc.IH) auto
  have u: "u32s (d (ucast ?s)) = map (\<lambda>r. L ! (159 + 129 * a + r)) [0..<128]"
    using Suc.prems(5) [of a] d by (intro nth_equalityI) (auto simp: entry_def)
  have "run (?f ?s (take (158 + 129 * a) L)) H d = Ok ((take (158 + 129 * a) L @ [?s]) @ u32s (d (ucast ?s)), d)"
    using Suc.prems(3,4) d by (intro run_modify_same) (simp_all add: run_simps)
  also have "(take (158 + 129 * a) L @ [?s]) @ u32s (d (ucast ?s)) = take (158 + 129 * Suc a) L"
    using Suc.prems(2) take_extend [of "159 + 129 * a" 128 L] take_one_more [of "158 + 129 * a" L] unfolding u by simp
  finally show ?case using IH by (simp add: run_fold_append run_simps)
qed simp

lemma clear_size_spec:
  assumes d: "dev_ok d" and m: "maps d di (nblk (unat (di_size di))) L" and L: "length L = tot (nblk (unat (di_size di)))" "distinct L"
    and H: "room H (set L)" "length H \<le> 11"
  shows "\<exists>di'. run (clear_size di) H d = Ok ((L, di'), d) \<and> di_size di' = 0 \<and> length (direct di') = 28 \<and>
    inode_id di' = inode_id di \<and> nlink di' = nlink di \<and> di_type di' = di_type di"
proof -
  define n where "n = nblk (unat (di_size di))"
  note md = mapsD [OF m, folded n_def]
  have small: "unat (di_size di) < 2 ^ 31" using nblk_ge [of "unat (di_size di)"] md(1) by (simp add: n_def MAX_DATA_def)
  have db: "unat (data_blocks di) = n" unfolding data_blocks_def n_def by (rule unat_data_blocks_of [OF small])
  have Ln: "length L = tot n" using L(1) by (simp add: n_def)
  define xs where "xs = replicate (min n 28) 0 @ drop (min n 28) (direct di)"
  have f1: "fold (\<lambda>i (v, xs). (v @ [xs ! i], xs[i := 0])) [0..<min n 28] ([], direct di) = (take (min n 28) L, xs)"
  proof -
    have "take (min n 28) (direct di) = take (min n 28) L"
      using md(2,3) Ln tot_mono [of "min n 28" n] tot_direct [of "min n 28"]
      by (intro nth_equalityI) auto
    then show ?thesis using fold_clear_direct [of "min n 28" "direct di"] md(2) by (simp add: xs_def)
  qed
  have lx: "length xs = 28" using md(2) by (simp add: xs_def)
  let ?di = "di\<lparr>di_size := 0, direct := xs\<rparr>"
  note unf = clear_size_def Let_def db layout_consts
  show ?thesis
  proof (cases "28 < n")
    case False
    then have "run (clear_size di) H d = Ok ((L, ?di), d)" using f1 Ln tot_direct [of n] by (simp add: unf)
    with lx show ?thesis by (intro exI [of _ ?di]) simp
  next
    case n28: True
    have in28: "28 < length L" using index_less_tot(1) [OF n28] Ln by simp
    define k where "k = min (n - 28) 128"
    have b1: "ucast (L ! 28) \<notin> set H" using roomD(1) [OF H(1)] in28 by simp
    have kl: "29 + k \<le> length L"
      using tot_mono [of "28 + k" n] tot_indirect1 [of k] n28 Ln by (simp add: k_def)
    have u1: "take k (u32s (d (ucast (L ! 28)))) = map (\<lambda>i. L ! (29 + i)) [0..<k]"
      using md(5) d by (intro nth_equalityI) (auto simp: entry_def k_def)
    have v1: "fold (\<lambda>i v. v @ [u32s (d (ucast (L ! 28))) ! i]) [0..<k] (take 28 L @ [L ! 28]) = take (29 + k) L"
      using fold_push [of k "u32s (d (ucast (L ! 28)))" "take 28 L @ [L ! 28]"] d u1 take_extend [of 29 k L] kl take_one_more [OF in28]
      by (simp add: k_def)
    have s1: "run (block_modify (ucast (L ! 28)) 0 BLOCK_SZ (\<lambda>bytes. Done (bytes,
        fold (\<lambda>i v. v @ [u32s bytes ! i]) [0..<k] (take 28 L @ [L ! 28])))) H d = Ok (take (29 + k) L, d)"
      by (rule run_modify_same [OF roomD(2) [OF H(1)] b1 d]) (simp add: v1)
    let ?di1 = "?di\<lparr>indirect1 := 0\<rparr>"
    have mn: "min n 28 = 28" using n28 by simp
    show ?thesis
    proof (cases "156 < n")
      case False
      then have kn: "k = n - 28" "\<not> 128 < n - 28" by (auto simp: k_def)
      then have "take (29 + k) L = L" using tot_indirect1 [of k] n28 Ln False by simp
      then have "run (clear_size di) H d = Ok ((L, ?di1), d)"
        using f1 n28 kn(2) md(4) [OF n28] s1 by (simp add: unf run_simps mn k_def)
      with lx show ?thesis by (intro exI [of _ ?di1]) simp
    next
      case n156: True
      then have k: "k = 128" by (simp add: k_def)
      have in157: "157 < length L" using index_less_tot(2) [OF n156] Ln by simp
      have b2: "ucast (L ! 157) \<notin> set H" using roomD(1) [OF H(1)] in157 by simp
      define a b where "a = (n - 156) div 128" and "b = (n - 156) mod 128"
      have ab: "n = 156 + 128 * a + b" "b < 128" using n156 by (simp_all add: a_def b_def)
      have al: "a \<le> 128" using md(1) ab by (simp add: MAX_DATA_def)
      have la: "158 + 129 * a \<le> length L"
      proof (cases a)
        case (Suc a')
        then show ?thesis using tot_mono [of "156 + 128 * a' + 128" n] tot_indirect2 [of 128 a'] ab Ln by simp
      qed (use in157 in simp)
      let ?bytes = "d (ucast (L ! 157))"
      let ?H = "ucast (L ! 157) # H"
      have apart: "L ! p \<noteq> L ! 157" if "p < length L" "p \<noteq> 157" for p
        using that in157 L(2) by (simp add: nth_eq_iff_index_eq)
      have sH: "ucast (L ! p) \<notin> set ?H" if "p < length L" "p \<noteq> 157" for p
        using roomD(1) [OF H(1), of "L ! p"] apart [OF that] that by simp
      have HL: "length ?H < BLOCK_CACHE_MAX_NUM" using H(2) by (simp add: BLOCK_CACHE_MAX_NUM_def)
      have t: "take a (u32s ?bytes) = map (\<lambda>q. L ! (158 + 129 * q)) [0..<a]"
        using md(7) ab d al by (intro nth_equalityI) (auto simp: entry_def)
      have full: "run (fold_prog (\<lambda>entry v. block_modify (ucast entry) 0 BLOCK_SZ (\<lambda>bytes. Done (bytes, (v @ [entry]) @ u32s bytes)))
          (take a (u32s ?bytes)) (take 158 L)) ?H d = Ok (take (158 + 129 * a) L, d)"
        unfolding t
      proof (rule clear_full_blocks [OF d la HL])
        show "ucast (L ! (158 + 129 * q)) \<notin> set ?H" if "q < a" for q using la that by (intro sH) auto
        show "entry d (L ! (158 + 129 * q)) r = L ! (159 + 129 * q + r)" if "q < a" "r < 128" for q r
          using that ab by (intro md(8)) auto
      qed
      let ?e = "u32s ?bytes ! a"
      have last: "run (if 0 < b then (let entry = ?e in block_modify (ucast entry) 0 BLOCK_SZ (\<lambda>bytes. Done (bytes,
          (take (158 + 129 * a) L @ [entry]) @ take b (u32s bytes)))) else Done (take (158 + 129 * a) L)) ?H d = Ok (L, d)"
      proof (cases "0 < b")
        case True
        have len: "length L = 159 + 129 * a + b" using tot_indirect2 [of b a] ab True Ln by simp
        have e: "?e = L ! (158 + 129 * a)" using md(7) [of a] ab True by (simp add: entry_def)
        have ub: "take b (u32s (d (ucast ?e))) = map (\<lambda>r. L ! (159 + 129 * a + r)) [0..<b]"
          unfolding e using md(8) [of _ a] ab d by (intro nth_equalityI) (auto simp: entry_def)
        have "(take (158 + 129 * a) L @ [?e]) @ take b (u32s (d (ucast ?e))) = L"
          unfolding ub using take_extend [of "159 + 129 * a" b L] take_one_more [of "158 + 129 * a" L] len e by simp
        moreover have "ucast ?e \<notin> set ?H" unfolding e using len by (intro sH) auto
        ultimately show ?thesis using True HL d by (simp add: run_modify_same Let_def)
      next
        case False
        then have "length L = 158 + 129 * a" using tot_indirect2 [of 128 "a - 1"] ab Ln n156 by (cases a) auto
        with False show ?thesis by simp
      qed
      have tk: "take (29 + k) L @ [L ! 157] = take 158 L" using take_one_more [OF in157] by (simp add: k)
      have s2: "run (block_modify (ucast (L ! 157)) 0 BLOCK_SZ (\<lambda>bytes.
              bind_prog
                (fold_prog (\<lambda>entry v. block_modify (ucast entry) 0 BLOCK_SZ (\<lambda>bytes. Done (bytes, (v @ [entry]) @ u32s bytes)))
                   (take a (u32s bytes)) (take (29 + k) L @ [L ! 157])) (\<lambda>v.
              bind_prog
                (if 0 < b then (let entry = u32s bytes ! a in
                     block_modify (ucast entry) 0 BLOCK_SZ (\<lambda>bytes. Done (bytes, (v @ [entry]) @ take b (u32s bytes))))
                 else Done v) (\<lambda>v. Done (bytes, v))))) H d = Ok (L, d)"
        by (rule run_modify_same [OF roomD(2) [OF H(1)] b2 d])
           (use full last in \<open>simp add: tk run_simps split del: if_split\<close>)
      have c: "128 < n - 28" and bound: "n - 156 \<le> 16384" using n156 md(1) by (simp_all add: MAX_DATA_def)
      let ?di2 = "?di1\<lparr>indirect2 := 0\<rparr>"
      have "run (clear_size di) H d = Ok ((L, ?di2), d)"
        using f1 n28 n156 c md(4) [OF n28] md(6) [OF n156] s1 [unfolded k_def] s2 [unfolded k_def a_def b_def] bound
        by (simp add: unf run_simps mn split del: if_split)
      with lx show ?thesis by (intro exI [of _ ?di2]) simp
    qed
  qed
qed

end
