(* ===== verification/FsInv.thy ===== *)
theory FsInv
  imports FileClear
begin

text \<open>
  The invariant of a file system on its blocks, and the frame conditions of its parts. The ghost map
  \<open>F\<close> gives, for every inode in use, the list of the blocks of its file.
\<close>

section \<open>Inodes on the disk\<close>

lemma decode_encode_inode:
  assumes "length (direct di) = 28"
  shows "decode_inode (encode_inode di old) = di"
proof -
  let ?ws = "[inode_id di, di_size di] @ direct di @ [indirect1 di, indirect2 di, nlink di]"
  have len: "length (encode_words 4 ?ws) = 132" using assms by simp
  have ws: "decode_words 4 (take 132 (encode_inode di old)) = ?ws"
    unfolding encode_inode_def using len by (simp only: take_append) (simp add: decode_encode_words)
  have ty: "encode_inode di old ! 132 = encode_type (di_type di)"
    unfolding encode_inode_def using len by (simp add: nth_append)
  have "take 28 (drop 2 ?ws) = direct di" "?ws ! 30 = indirect1 di" "?ws ! 31 = indirect2 di" "?ws ! 32 = nlink di"
    using assms by (simp_all add: nth_append)
  moreover have "(if encode_type (di_type di) = 0 then File else Directory) = di_type di" by (cases "di_type di") auto
  ultimately show ?thesis unfolding decode_inode_def Let_def ws ty by simp
qed

lemma length_encode_inode: "\<lbrakk>length (direct di) = 28; length old = INODE_SZ\<rbrakk> \<Longrightarrow> length (encode_inode di old) = INODE_SZ"
  by (simp add: encode_inode_def INODE_SZ_def)

lemma length_direct_decode: "length bytes = INODE_SZ \<Longrightarrow> length (direct (decode_inode bytes)) = 28"
  by (simp add: decode_inode_def Let_def INODE_SZ_def)

text \<open>The block and the offset of inode \<open>ino\<close>.\<close>

definition iblock :: "EasyFileSystem \<Rightarrow> nat \<Rightarrow> usize" where
  "iblock fs ino = ucast (fst (get_disk_inode_pos (of_nat ino) fs))"

definition ioff :: "nat \<Rightarrow> nat" where
  "ioff ino = ino mod 3 * INODE_SZ"

definition inode_of :: "EasyFileSystem \<Rightarrow> nat \<Rightarrow> Inode" where
  "inode_of fs ino = \<lparr>in_block_id = iblock fs ino, in_block_offset = ioff ino\<rparr>"

definition inode_at :: "device \<Rightarrow> EasyFileSystem \<Rightarrow> nat \<Rightarrow> DiskInode" where
  "inode_at d fs ino = decode_inode (take INODE_SZ (drop (ioff ino) (d (iblock fs ino))))"

lemma ioff_fits: "ioff ino + INODE_SZ \<le> BLOCK_SZ"
proof -
  have "ino mod 3 \<le> 2" by simp
  then have "ino mod 3 * 136 \<le> 2 * 136" by (rule mult_le_mono1)
  then show ?thesis by (simp add: ioff_def INODE_SZ_def BLOCK_SZ_def)
qed

section \<open>The geometry\<close>

definition ib :: "EasyFileSystem \<Rightarrow> nat" where "ib fs = unat (bm_blocks (inode_bitmap fs))"
definition ia :: "EasyFileSystem \<Rightarrow> nat" where "ia fs = unat (inode_area_start_block fs)"
definition dbs :: "EasyFileSystem \<Rightarrow> nat" where "dbs fs = unat (start_block_id (data_bitmap fs))"
definition db :: "EasyFileSystem \<Rightarrow> nat" where "db fs = unat (bm_blocks (data_bitmap fs))"
definition ds :: "EasyFileSystem \<Rightarrow> nat" where "ds fs = unat (data_area_start_block fs)"

definition fs_ok :: "EasyFileSystem \<Rightarrow> bool" where
  "fs_ok fs = (unat (start_block_id (inode_bitmap fs)) = 1 \<and> ia fs = 1 + ib fs \<and> ia fs \<le> dbs fs \<and>
     ds fs = dbs fs + db fs \<and> ds fs + db fs * BLOCK_BITS < 2 ^ 30)"

text \<open>The inodes whose block lies before the bitmap of the data blocks.\<close>

definition in_area :: "EasyFileSystem \<Rightarrow> nat \<Rightarrow> bool" where
  "in_area fs ino = (ia fs + ino div 3 < dbs fs)"

lemma fs_ok_bounds:
  assumes "fs_ok fs"
  shows "ib fs < 2 ^ 30" "ia fs < 2 ^ 30" "dbs fs < 2 ^ 30" "db fs < 2 ^ 30" "ds fs < 2 ^ 30" "1 + ib fs = ia fs" "ia fs \<le> dbs fs"
    "ds fs = dbs fs + db fs"
  using assms by (auto simp: fs_ok_def)

lemma unat_add_of_nat_64: "unat a + k < 2 ^ 64 \<Longrightarrow> unat (a + of_nat k :: usize) = unat a + k"
  by (simp add: unat_word_ariths unat_of_nat_64)

lemma bm_region_range:
  assumes "unat (start_block_id bm) + unat (bm_blocks bm) < 2 ^ 32"
  shows "bm_region bm = {b. unat (start_block_id bm) \<le> unat b \<and> unat b < unat (start_block_id bm) + unat (bm_blocks bm)}"
proof (intro set_eqI iffI)
  fix b assume "b \<in> bm_region bm"
  then show "b \<in> {b. unat (start_block_id bm) \<le> unat b \<and> unat b < unat (start_block_id bm) + unat (bm_blocks bm)}"
    using assms by (auto simp: bm_region_def unat_add_of_nat_64)
next
  fix b :: usize assume "b \<in> {b. unat (start_block_id bm) \<le> unat b \<and> unat b < unat (start_block_id bm) + unat (bm_blocks bm)}"
  then have b: "unat (start_block_id bm) \<le> unat b" "unat b - unat (start_block_id bm) < unat (bm_blocks bm)" by auto
  have "b = start_block_id bm + of_nat (unat b - unat (start_block_id bm))"
    using b unat_less_64 [of b] by (intro word_unat_eq_iff [THEN iffD2]) (simp add: unat_add_of_nat_64)
  with b(2) show "b \<in> bm_region bm" unfolding bm_region_def by blast
qed

lemma inode_region: "fs_ok fs \<Longrightarrow> bm_region (inode_bitmap fs) = {b. 1 \<le> unat b \<and> unat b < ia fs}"
proof -
  assume fs: "fs_ok fs"
  have s: "unat (start_block_id (inode_bitmap fs)) = 1" using fs by (simp add: fs_ok_def)
  have "1 + unat (bm_blocks (inode_bitmap fs)) = ia fs" "ia fs < 2 ^ 32"
    using fs_ok_bounds(2,6) [OF fs] by (simp_all add: ib_def)
  then show ?thesis using bm_region_range [of "inode_bitmap fs"] unfolding s by simp
qed

lemma data_region: "fs_ok fs \<Longrightarrow> bm_region (data_bitmap fs) = {b. dbs fs \<le> unat b \<and> unat b < ds fs}"
proof -
  assume fs: "fs_ok fs"
  have "dbs fs + db fs = ds fs" "ds fs < 2 ^ 32" using fs_ok_bounds(5,8) [OF fs] by simp_all
  then show ?thesis using bm_region_range [of "data_bitmap fs"] unfolding dbs_def [symmetric] db_def [symmetric] by simp
qed

lemma inode_pos:
  assumes fs: "fs_ok fs" and ino: "in_area fs ino"
  shows "unat (iblock fs ino) = ia fs + ino div 3" "get_disk_inode_pos (of_nat ino) fs = (ucast (iblock fs ino), ioff ino)"
    "unat (of_nat ino :: u32) = ino"
proof -
  have small: "ia fs + ino div 3 < 2 ^ 30" using fs_ok_bounds(3) [OF fs] ino by (simp add: in_area_def)
  then have i: "ino < 2 ^ 32" by simp
  show u: "unat (of_nat ino :: u32) = ino" using i by (simp add: unat_of_nat take_bit_eq_mod)
  have "of_nat (BLOCK_SZ div INODE_SZ) = (3 :: u32)" by (simp add: BLOCK_SZ_def INODE_SZ_def)
  then have p: "get_disk_inode_pos (of_nat ino) fs = (inode_area_start_block fs + of_nat ino div 3, unat (of_nat ino mod 3 :: u32) * INODE_SZ)"
    by (simp add: get_disk_inode_pos_def Let_def)
  have "unat (inode_area_start_block fs + of_nat ino div 3) = ia fs + ino div 3"
    using small u by (simp add: unat_word_ariths unat_div_distrib ia_def)
  then show "unat (iblock fs ino) = ia fs + ino div 3" unfolding iblock_def p by (simp add: unat_ucast_32)
  show "get_disk_inode_pos (of_nat ino) fs = (ucast (iblock fs ino), ioff ino)"
    unfolding iblock_def p using u by (simp add: ucast_u32_usize ioff_def unat_mod_distrib)
qed

lemma inode_of_pos:
  assumes "fs_ok fs" and "in_area fs ino"
  shows "(case get_disk_inode_pos (of_nat ino) fs of (b, off) \<Rightarrow> Inode_new b off) = inode_of fs ino"
proof -
  have "ucast (ucast (iblock fs ino) :: u32) = iblock fs ino" by (simp add: iblock_def ucast_u32_usize)
  then show ?thesis unfolding inode_pos(2) [OF assms] by (simp add: Inode_new_def inode_of_def)
qed

text \<open>The ino of the data block behind bit \<open>i\<close> of the bitmap.\<close>

definition dblock :: "EasyFileSystem \<Rightarrow> nat \<Rightarrow> u32" where
  "dblock fs i = of_nat i + data_area_start_block fs"

definition data_pool :: "EasyFileSystem \<Rightarrow> nat set" where
  "data_pool fs = bm_pool (data_bitmap fs)"

lemma unat_dblock:
  assumes "fs_ok fs" and "i \<in> data_pool fs"
  shows "unat (dblock fs i) = ds fs + i" "unat (ucast (dblock fs i) :: usize) = ds fs + i"
    "unat (dblock fs i - data_area_start_block fs) = i"
proof -
  have i: "i < db fs * BLOCK_BITS" using assms(2) by (simp add: data_pool_def bm_pool_def db_def)
  have b: "ds fs + i < 2 ^ 30" using i assms(1) by (simp add: fs_ok_def)
  then have u: "unat (of_nat i :: u32) = i" by (simp add: unat_of_nat take_bit_eq_mod)
  with b show "unat (dblock fs i) = ds fs + i" by (simp add: dblock_def unat_word_ariths ds_def)
  then show "unat (ucast (dblock fs i) :: usize) = ds fs + i" by (simp add: unat_ucast_32)
  show "unat (dblock fs i - data_area_start_block fs) = i" using u by (simp add: dblock_def)
qed

lemma dblock_inj: "\<lbrakk>fs_ok fs; i \<in> data_pool fs; j \<in> data_pool fs; dblock fs i = dblock fs j\<rbrakk> \<Longrightarrow> i = j"
  by (metis unat_dblock(3))

text \<open>The three kinds of blocks that programs write are apart.\<close>

lemma regions_apart:
  assumes "fs_ok fs"
  shows "in_area fs ino \<Longrightarrow> iblock fs ino \<notin> bm_region (data_bitmap fs)"
    "in_area fs ino \<Longrightarrow> iblock fs ino \<notin> bm_region (inode_bitmap fs)"
    "in_area fs ino \<Longrightarrow> i \<in> data_pool fs \<Longrightarrow> iblock fs ino \<noteq> ucast (dblock fs i)"
    "i \<in> data_pool fs \<Longrightarrow> ucast (dblock fs i) \<notin> bm_region (data_bitmap fs)"
    "i \<in> data_pool fs \<Longrightarrow> ucast (dblock fs i) \<notin> bm_region (inode_bitmap fs)"
    "bm_region (inode_bitmap fs) \<inter> bm_region (data_bitmap fs) = {}"
proof -
  note b = fs_ok_bounds [OF assms] and r = inode_region [OF assms] data_region [OF assms]
  show "iblock fs ino \<notin> bm_region (data_bitmap fs)" "iblock fs ino \<notin> bm_region (inode_bitmap fs)" if "in_area fs ino"
    using inode_pos(1) [OF assms that] that by (simp_all add: r in_area_def)
  show "iblock fs ino \<noteq> ucast (dblock fs i)" if "in_area fs ino" "i \<in> data_pool fs"
  proof
    assume "iblock fs ino = ucast (dblock fs i)"
    then have "ia fs + ino div 3 = ds fs + i" using inode_pos(1) [OF assms that(1)] unat_dblock(2) [OF assms that(2)] by simp
    with that(1) b(8) show False by (simp add: in_area_def)
  qed
  show "ucast (dblock fs i) \<notin> bm_region (data_bitmap fs)" "ucast (dblock fs i) \<notin> bm_region (inode_bitmap fs)" if "i \<in> data_pool fs"
    using unat_dblock(2) [OF assms that] b by (simp_all add: r)
  show "bm_region (inode_bitmap fs) \<inter> bm_region (data_bitmap fs) = {}" using b by (auto simp: r)
qed

text \<open>Writing an inode leaves the others as they are.\<close>

lemma inode_at_patch:
  assumes fs: "fs_ok fs" and d: "dev_ok d" and ino: "in_area fs ino" "in_area fs ino'" and di: "length (direct di) = 28"
  shows "inode_at (d(iblock fs ino := patch (ioff ino) (encode_inode di (take INODE_SZ (drop (ioff ino) (d (iblock fs ino))))) (d (iblock fs ino)))) fs ino' =
    (if ino' = ino then di else inode_at d fs ino')"
proof -
  let ?old = "take INODE_SZ (drop (ioff ino) (d (iblock fs ino)))"
  have lo: "length ?old = INODE_SZ" using d ioff_fits [of ino] by simp
  have le: "length (encode_inode di ?old) = INODE_SZ" by (rule length_encode_inode [OF di lo])
  show ?thesis
  proof (cases "ino' = ino")
    case True
    have "take INODE_SZ (drop (ioff ino) (patch (ioff ino) (encode_inode di ?old) (d (iblock fs ino)))) = encode_inode di ?old"
      using take_drop_patch_same [of "ioff ino" "encode_inode di ?old" "d (iblock fs ino)"] le d ioff_fits [of ino] by simp
    then show ?thesis using True decode_encode_inode [OF di] by (simp add: inode_at_def)
  next
    case False
    show ?thesis
    proof (cases "iblock fs ino' = iblock fs ino")
      case True
      then have "ino' div 3 = ino div 3" using inode_pos(1) [OF fs ino(1)] inode_pos(1) [OF fs ino(2)] by simp
      then have "ino' mod 3 \<noteq> ino mod 3" using False by (metis div_mult_mod_eq)
      then have "ioff ino' + INODE_SZ \<le> ioff ino \<or> ioff ino + INODE_SZ \<le> ioff ino'"
        by (auto simp: ioff_def INODE_SZ_def)
      then have "take INODE_SZ (drop (ioff ino') (patch (ioff ino) (encode_inode di ?old) (d (iblock fs ino)))) =
          take INODE_SZ (drop (ioff ino') (d (iblock fs ino)))"
        using le d ioff_fits [of ino] ioff_fits [of ino'] by (intro take_drop_patch_other) simp_all
      then show ?thesis using True False by (simp add: inode_at_def)
    next
      case b: False
      then show ?thesis using False by (simp add: inode_at_def)
    qed
  qed
qed

lemma length_direct_inode_at: "dev_ok d \<Longrightarrow> length (direct (inode_at d fs ino)) = 28"
  unfolding inode_at_def using ioff_fits [of ino] by (intro length_direct_decode) simp

lemma run_read_disk_inode:
  assumes "length H < BLOCK_CACHE_MAX_NUM" and "iblock fs ino \<notin> set H"
  shows "run (read_disk_inode (inode_of fs ino) f) H d = run (f (inode_at d fs ino)) (iblock fs ino # H) d"
  using assms ioff_fits [of ino] by (simp add: read_disk_inode_def inode_of_def run_simps inode_at_def)

lemma run_modify_disk_inode:
  assumes "length H < BLOCK_CACHE_MAX_NUM" and "iblock fs ino \<notin> set H" and d: "dev_ok d"
    and r: "run (f (inode_at d fs ino)) (iblock fs ino # H) d = Ok ((di, r), d')" and di: "length (direct di) = 28"
    and keep: "d' (iblock fs ino) = d (iblock fs ino)"
  shows "run (modify_disk_inode (inode_of fs ino) f) H d =
    Ok (r, d'(iblock fs ino := patch (ioff ino) (encode_inode di (take INODE_SZ (drop (ioff ino) (d' (iblock fs ino))))) (d' (iblock fs ino))))"
proof -
  let ?old = "take INODE_SZ (drop (ioff ino) (d (iblock fs ino)))"
  have lo: "length ?old = INODE_SZ" using d ioff_fits [of ino] by simp
  show ?thesis unfolding modify_disk_inode_def inode_of_def keep
    using r length_encode_inode [OF di lo] ioff_fits [of ino] unfolding inode_at_def
    by (simp, intro run_block_modify [OF assms(1,2), where d' = d' and bytes' = "encode_inode di ?old" and r = r, unfolded keep])
       (simp_all add: run_simps)
qed

end
