(* ===== verification/FsWrite.thy ===== *)
theory FsWrite
  imports FsInv
begin

text \<open>
  The invariant of the whole file system and what the files in it hold. The invariant is stated for a
  map \<open>I\<close> of inodes, which are those on the device or, while an operation has an inode in its hands,
  those on the device but one. The abstract state of a file system is a map from inode numbers to
  files; every operation on a file is one update of that map.
\<close>

section \<open>The invariant\<close>

definition file_ok :: "device \<Rightarrow> DiskInode \<Rightarrow> nat \<Rightarrow> u32 list \<Rightarrow> bool" where
  "file_ok d di ino L = (let s = unat (di_size di) in
     maps d di (nblk s) L \<and> length L = tot (nblk s) \<and> distinct L \<and>
     inode_id di = of_nat ino \<and> (\<forall>j. s \<le> j \<and> j < 512 * nblk s \<longrightarrow> fbyte d L j = 0))"

text \<open>Every bit of the bitmap of data blocks belongs to one file, and free data blocks are zero.\<close>

definition free_data :: "EasyFileSystem \<Rightarrow> device \<Rightarrow> nat set" where
  "free_data fs d = data_pool fs - bm_used (data_bitmap fs) d"

definition fs_inv_on :: "EasyFileSystem \<Rightarrow> (nat \<rightharpoonup> u32 list) \<Rightarrow> (nat \<Rightarrow> DiskInode) \<Rightarrow> device \<Rightarrow> bool" where
  "fs_inv_on fs F I d =
     (fs_ok fs \<and> dev_ok d \<and> dom F = bm_used (inode_bitmap fs) d \<and> (\<forall>ino \<in> dom F. in_area fs ino) \<and>
      (\<forall>ino L. F ino = Some L \<longrightarrow> file_ok d (I ino) ino L) \<and>
      (\<forall>ino ino' L L'. F ino = Some L \<longrightarrow> F ino' = Some L' \<longrightarrow> ino \<noteq> ino' \<longrightarrow> set L \<inter> set L' = {}) \<and>
      (\<Union>L \<in> ran F. set L) = dblock fs ` bm_used (data_bitmap fs) d \<and>
      (\<forall>i \<in> free_data fs d. d (ucast (dblock fs i)) = replicate BLOCK_SZ 0))"

definition fs_inv :: "EasyFileSystem \<Rightarrow> (nat \<rightharpoonup> u32 list) \<Rightarrow> device \<Rightarrow> bool" where
  "fs_inv fs F d = fs_inv_on fs F (inode_at d fs) d"

text \<open>The abstract state.\<close>

record file_abs =
  fa_bytes :: "u8 list"
  fa_nlink :: u32
  fa_type :: DiskInodeType

definition file_of :: "device \<Rightarrow> DiskInode \<Rightarrow> u32 list \<Rightarrow> file_abs" where
  "file_of d di L = \<lparr>fa_bytes = contents d L (unat (di_size di)), fa_nlink = nlink di, fa_type = di_type di\<rparr>"

definition files_on :: "(nat \<rightharpoonup> u32 list) \<Rightarrow> (nat \<Rightarrow> DiskInode) \<Rightarrow> device \<Rightarrow> nat \<rightharpoonup> file_abs" where
  "files_on F I d ino = map_option (file_of d (I ino)) (F ino)"

definition files :: "EasyFileSystem \<Rightarrow> (nat \<rightharpoonup> u32 list) \<Rightarrow> device \<Rightarrow> nat \<rightharpoonup> file_abs" where
  "files fs F d = files_on F (inode_at d fs) d"

lemma fs_inv_onD:
  assumes "fs_inv_on fs F I d"
  shows "fs_ok fs" and "dev_ok d" and "dom F = bm_used (inode_bitmap fs) d" and "F ino = Some L \<Longrightarrow> in_area fs ino"
    and "F ino = Some L \<Longrightarrow> file_ok d (I ino) ino L"
    and "\<lbrakk>F ino = Some L; F ino' = Some L'; ino \<noteq> ino'\<rbrakk> \<Longrightarrow> set L \<inter> set L' = {}"
    and "(\<Union>L \<in> ran F. set L) = dblock fs ` bm_used (data_bitmap fs) d"
    and "i \<in> free_data fs d \<Longrightarrow> d (ucast (dblock fs i)) = replicate BLOCK_SZ 0"
  using assms by (auto simp: fs_inv_on_def)

lemma file_okD:
  assumes "file_ok d di ino L"
  shows "maps d di (nblk (unat (di_size di))) L"
    and "length L = tot (nblk (unat (di_size di)))" and "distinct L" and "inode_id di = of_nat ino"
    and "\<lbrakk>unat (di_size di) \<le> j; j < 512 * nblk (unat (di_size di))\<rbrakk> \<Longrightarrow> fbyte d L j = 0"
  using assms by (auto simp: file_ok_def Let_def)

text \<open>A file depends on its inode and on its blocks only.\<close>

lemma fbyte_cong:
  assumes "length L = tot n" and "j < 512 * n" and "\<And>b. b \<in> set L \<Longrightarrow> d' (ucast b) = d (ucast b)"
  shows "fbyte d' L j = fbyte d L j"
proof -
  have "j div 512 < n" using assms(2) by (simp add: less_mult_imp_div_less)
  then have "L ! dpos (j div 512) \<in> set L" using dpos_less_tot assms(1) by simp
  then show ?thesis using assms(3) by (simp add: fbyte_def)
qed

lemma file_ok_cong:
  assumes f: "file_ok d di ino L" and b: "\<And>b. b \<in> set L \<Longrightarrow> d' (ucast b) = d (ucast b)"
  shows "file_ok d' di ino L" and "file_of d' di L = file_of d di L"
proof -
  note fd = file_okD [OF f]
  let ?s = "unat (di_size di)"
  have "maps d' di (nblk ?s) L"
  proof (rule maps_cong [OF fd(1)])
    fix p assume "p < tot (nblk ?s)" "ipos p"
    then have "L ! p \<in> set L" using fd(2) by simp
    then show "d' (ucast (L ! p)) = d (ucast (L ! p))" by (rule b)
  qed auto
  moreover have fb: "fbyte d' L j = fbyte d L j" if "j < 512 * nblk ?s" for j
    using that b by (intro fbyte_cong [OF fd(2)]) auto
  ultimately show "file_ok d' di ino L" using fd(2-5) by (simp add: file_ok_def Let_def)
  have "map (fbyte d' L) [0..<?s] = map (fbyte d L) [0..<?s]"
    using fb nblk_ge [of ?s] by (intro map_cong) auto
  then show "file_of d' di L = file_of d di L" by (simp add: file_of_def contents_def)
qed

text \<open>The blocks of a file are data blocks in use.\<close>

lemma used_in_pool: "i \<in> bm_used (data_bitmap fs) d \<Longrightarrow> i \<in> data_pool fs"
  by (simp add: bm_used_def data_pool_def)

lemma file_blocks_used:
  assumes "fs_inv_on fs F I d" and "F ino = Some L"
  shows "set L \<subseteq> dblock fs ` bm_used (data_bitmap fs) d" and "set L \<subseteq> dblock fs ` data_pool fs"
proof -
  have "set L \<subseteq> (\<Union>L \<in> ran F. set L)" using assms(2) by (auto simp: ran_def)
  then show "set L \<subseteq> dblock fs ` bm_used (data_bitmap fs) d" unfolding fs_inv_onD(7) [OF assms(1)] .
  then show "set L \<subseteq> dblock fs ` data_pool fs" using used_in_pool by blast
qed

lemma finite_free [simp]: "finite (free_data fs d)"
  by (simp add: free_data_def data_pool_def bm_pool_def)

text \<open>
  Locks that do not get in the way of the data: blocks of inodes, and blocks that are not in the bitmaps and are not
  the data block of a bit in \<open>S\<close>.
\<close>

definition inode_locks :: "EasyFileSystem \<Rightarrow> nat set \<Rightarrow> usize list \<Rightarrow> bool" where
  "inode_locks fs S H = (length H \<le> 10 \<and> (\<forall>b \<in> set H. (\<exists>ino. in_area fs ino \<and> b = iblock fs ino) \<or>
     (b \<notin> bm_region (data_bitmap fs) \<and> b \<notin> bm_region (inode_bitmap fs) \<and> (\<forall>i \<in> data_pool fs \<inter> S. b \<noteq> ucast (dblock fs i)))))"

lemma inode_locks_Nil [simp]: "inode_locks fs S []"
  by (simp add: inode_locks_def)

lemma inode_locks_one [simp]: "in_area fs ino \<Longrightarrow> inode_locks fs S [iblock fs ino]"
  by (auto simp: inode_locks_def)

lemma inode_locks_mono: "\<lbrakk>inode_locks fs S H; S' \<subseteq> S\<rbrakk> \<Longrightarrow> inode_locks fs S' H"
  unfolding inode_locks_def by blast

lemma inode_locks_apart:
  assumes fs: "fs_ok fs" and H: "inode_locks fs S H"
  shows "set H \<inter> bm_region (data_bitmap fs) = {}" "set H \<inter> bm_region (inode_bitmap fs) = {}"
    "length H < BLOCK_CACHE_MAX_NUM" "B \<subseteq> dblock fs ` (data_pool fs \<inter> S) \<Longrightarrow> set H \<inter> ucast ` B = {}"
proof -
  have ex: "(\<exists>ino. in_area fs ino \<and> b = iblock fs ino) \<or>
     (b \<notin> bm_region (data_bitmap fs) \<and> b \<notin> bm_region (inode_bitmap fs) \<and> (\<forall>i \<in> data_pool fs \<inter> S. b \<noteq> ucast (dblock fs i)))"
    if "b \<in> set H" for b using H that by (simp add: inode_locks_def)
  show "set H \<inter> bm_region (data_bitmap fs) = {}" using ex regions_apart(1) [OF fs] by blast
  show "set H \<inter> bm_region (inode_bitmap fs) = {}" using ex regions_apart(2) [OF fs] by blast
  show "length H < BLOCK_CACHE_MAX_NUM" using H by (simp add: inode_locks_def BLOCK_CACHE_MAX_NUM_def)
  show "set H \<inter> ucast ` B = {}" if sub: "B \<subseteq> dblock fs ` (data_pool fs \<inter> S)"
  proof (rule ccontr)
    assume "\<not> ?thesis"
    then obtain b c where b: "b \<in> set H" "b = ucast c" "c \<in> B" by blast
    then obtain i where i: "i \<in> data_pool fs \<inter> S" "c = dblock fs i" using sub by auto
    show False
    proof (cases "\<exists>ino. in_area fs ino \<and> b = iblock fs ino")
      case True
      then obtain ino where "in_area fs ino" "b = iblock fs ino" by blast
      moreover have "i \<in> data_pool fs" using i(1) by simp
      ultimately show False using regions_apart(3) [OF fs] b(2) i(2) by metis
    next
      case False
      with ex [OF b(1)] b(2) i show False by blast
    qed
  qed
qed

lemma inode_locks_room:
  assumes "fs_ok fs" and "inode_locks fs S H" and "B \<subseteq> dblock fs ` (data_pool fs \<inter> S)"
  shows "room H B"
  using inode_locks_apart(4) [OF assms] assms(2) by (simp add: room_def inode_locks_def)

lemma file_room:
  assumes "fs_inv_on fs F I d" and "F ino = Some L" and "inode_locks fs S H" and "bm_used (data_bitmap fs) d \<subseteq> S"
  shows "room H (set L)"
  using file_blocks_used(1) [OF assms(1,2)] assms(4) used_in_pool
  by (intro inode_locks_room [OF fs_inv_onD(1) [OF assms(1)] assms(3)]) blast

text \<open>Locks that the code of an operation on one inode does not meet, with the lock on that inode or without.\<close>

definition clear_of :: "EasyFileSystem \<Rightarrow> nat set \<Rightarrow> usize list \<Rightarrow> bool" where
  "clear_of fs S H = (length H \<le> 9 \<and> (\<forall>b \<in> set H. (\<forall>ino. in_area fs ino \<longrightarrow> b \<noteq> iblock fs ino) \<and>
     b \<notin> bm_region (data_bitmap fs) \<and> b \<notin> bm_region (inode_bitmap fs) \<and> (\<forall>i \<in> data_pool fs \<inter> S. b \<noteq> ucast (dblock fs i))))"

lemma clear_of_Nil [simp]: "clear_of fs S []"
  by (simp add: clear_of_def)

lemma clear_ofD:
  assumes "clear_of fs S H"
  shows "inode_locks fs S H" and "in_area fs ino \<Longrightarrow> iblock fs ino \<notin> set H" and "length H < BLOCK_CACHE_MAX_NUM"
    and "in_area fs ino \<Longrightarrow> inode_locks fs S (iblock fs ino # H)"
  using assms by (auto simp: clear_of_def inode_locks_def BLOCK_CACHE_MAX_NUM_def)

section \<open>Changing one file\<close>

text \<open>
  A change of the device that writes nothing but the bitmaps and the blocks that file \<open>ino\<close> had or gets:
  the invariant holds again when it holds for that file, and every other file is as it was.
\<close>

lemma fs_inv_upd:
  assumes inv: "fs_inv_on fs F I d" and L: "L = (case F ino of Some L \<Rightarrow> L | None \<Rightarrow> [])" and ino: "in_area fs ino"
    and new: "file_ok d' di ino L'" "dev_ok d'" "set L' \<subseteq> set L \<union> dblock fs ` free_data fs d"
    and bits: "bm_used (data_bitmap fs) d' = {i \<in> data_pool fs. dblock fs i \<in> set L' \<or> (i \<in> bm_used (data_bitmap fs) d \<and> dblock fs i \<notin> set L)}"
      "bm_used (inode_bitmap fs) d' = insert ino (bm_used (inode_bitmap fs) d)"
    and zero: "\<And>b. b \<in> set L \<Longrightarrow> b \<notin> set L' \<Longrightarrow> d' (ucast b) = replicate BLOCK_SZ 0"
    and frame: "\<And>x. \<lbrakk>x \<notin> bm_region (data_bitmap fs); x \<notin> bm_region (inode_bitmap fs); x \<notin> ucast ` (set L \<union> set L')\<rbrakk> \<Longrightarrow> d' x = d x"
  shows "fs_inv_on fs (F(ino \<mapsto> L')) (I(ino := di)) d'"
    and "files_on (F(ino \<mapsto> L')) (I(ino := di)) d' = (files_on F I d)(ino \<mapsto> file_of d' di L')"
proof -
  note D = fs_inv_onD [OF inv] and ap = regions_apart [OF fs_inv_onD(1) [OF inv]]
  have inj: "i = j" if "dblock fs i = dblock fs j" "i \<in> data_pool fs" "j \<in> data_pool fs" for i j
    using dblock_inj [OF D(1)] that by blast
  have Lu: "set L \<subseteq> dblock fs ` bm_used (data_bitmap fs) d"
    using L file_blocks_used(1) [OF inv] by (cases "F ino") auto
  have free: "i \<in> data_pool fs" "i \<notin> bm_used (data_bitmap fs) d" if "i \<in> free_data fs d" for i
    using that by (auto simp: free_data_def)
  have keep: "d' (ucast (dblock fs i)) = d (ucast (dblock fs i))"
    if "i \<in> data_pool fs" "dblock fs i \<notin> set L \<union> set L'" for i
    using that ap(4,5) by (intro frame) auto
  have other: "set M \<inter> (set L \<union> set L') = {}" if M: "F k = Some M" "k \<noteq> ino" for k M
  proof -
    have "set M \<inter> set L = {}" using L D(6) M by (cases "F ino") auto
    moreover have "set M \<inter> dblock fs ` free_data fs d = {}"
      using file_blocks_used(1) [OF inv M(1)] used_in_pool inj free by blast
    ultimately show ?thesis using new(3) by blast
  qed
  have fine: "d' (ucast b) = d (ucast b)" if M: "F k = Some M" "k \<noteq> ino" and b: "b \<in> set M" for k M b
    using keep file_blocks_used(2) [OF inv M(1)] other [OF M] b by blast
  note ok = file_ok_cong [OF D(5) fine]
  show "files_on (F(ino \<mapsto> L')) (I(ino := di)) d' = (files_on F I d)(ino \<mapsto> file_of d' di L')"
  proof
    fix k
    show "files_on (F(ino \<mapsto> L')) (I(ino := di)) d' k = ((files_on F I d)(ino \<mapsto> file_of d' di L')) k"
      using ok(2) by (cases "F k") (auto simp: files_on_def)
  qed
  show "fs_inv_on fs (F(ino \<mapsto> L')) (I(ino := di)) d'" unfolding fs_inv_on_def
  proof (intro conjI allI ballI impI)
    show "dom (F(ino \<mapsto> L')) = bm_used (inode_bitmap fs) d'" using D(3) bits(2) by simp
    show "in_area fs k" if "k \<in> dom (F(ino \<mapsto> L'))" for k using that ino D(4) by (auto split: if_splits)
    show "file_ok d' ((I(ino := di)) k) k M" if "(F(ino \<mapsto> L')) k = Some M" for k M
      using that new(1) ok(1) by (cases "k = ino") auto
    show "set M \<inter> set M' = {}" if "(F(ino \<mapsto> L')) k = Some M" "(F(ino \<mapsto> L')) k' = Some M'" "k \<noteq> k'" for k k' M M'
    proof -
      consider "k = ino" "k' \<noteq> ino" | "k \<noteq> ino" "k' = ino" | "k \<noteq> ino" "k' \<noteq> ino" using \<open>k \<noteq> k'\<close> by blast
      then show ?thesis
      proof cases
        case 1
        then show ?thesis using that other [of k' M'] by auto
      next
        case 2
        then show ?thesis using that other [of k M] by auto
      next
        case 3
        then show ?thesis using that D(6) [of k M k' M'] by auto
      qed
    qed
    show "d' (ucast (dblock fs i)) = replicate BLOCK_SZ 0" if i: "i \<in> free_data fs d'" for i
    proof (cases "dblock fs i \<in> set L")
      case True
      then show ?thesis using i zero bits(1) by (auto simp: free_data_def)
    next
      case False
      then have "i \<in> free_data fs d" "i \<in> data_pool fs" "dblock fs i \<notin> set L'" using i bits(1) by (auto simp: free_data_def)
      then show ?thesis using keep False D(8) by auto
    qed
    show "(\<Union>L \<in> ran (F(ino \<mapsto> L')). set L) = dblock fs ` bm_used (data_bitmap fs) d'"
    proof (intro set_eqI iffI)
      fix b assume "b \<in> (\<Union>L \<in> ran (F(ino \<mapsto> L')). set L)"
      then obtain k M where M: "(F(ino \<mapsto> L')) k = Some M" "b \<in> set M" by (auto simp: ran_def)
      show "b \<in> dblock fs ` bm_used (data_bitmap fs) d'"
      proof (cases "k = ino")
        case True
        then have "b \<in> set L'" using M by simp
        moreover then obtain i where "i \<in> data_pool fs" "b = dblock fs i" using new(3) Lu used_in_pool free(1) by blast
        ultimately show ?thesis using bits(1) by auto
      next
        case False
        then have Mk: "F k = Some M" using M(1) by simp
        obtain i where i: "i \<in> bm_used (data_bitmap fs) d" "b = dblock fs i" using file_blocks_used(1) [OF inv Mk] M(2) by blast
        have "b \<notin> set L" using other [OF Mk False] M(2) by blast
        then show ?thesis using i used_in_pool [OF i(1)] bits(1) by auto
      qed
    next
      fix b assume "b \<in> dblock fs ` bm_used (data_bitmap fs) d'"
      then consider "b \<in> set L'" | i where "i \<in> bm_used (data_bitmap fs) d" "b = dblock fs i" "b \<notin> set L" using bits(1) by auto
      then show "b \<in> (\<Union>L \<in> ran (F(ino \<mapsto> L')). set L)"
      proof cases
        case 1
        then show ?thesis by (auto simp: ran_def)
      next
        case 2
        then have "b \<in> (\<Union>L \<in> ran F. set L)" unfolding D(7) by blast
        then obtain k M where M: "F k = Some M" "b \<in> set M" by (auto simp: ran_def)
        then have "k \<noteq> ino" using 2(3) L by auto
        then have "M \<in> ran (F(ino \<mapsto> L'))" using M(1) by (intro ranI [of _ k]) simp
        then show ?thesis using M(2) by blast
      qed
    qed
  qed (use D(1) new(2) in auto)
qed

end
