(* ===== verification/FsGrow.thy ===== *)
theory FsGrow
  imports FsWrite
begin

text \<open>Growing, writing, reading and clearing of files as updates of the abstract state.\<close>

lemma dblock_image: "\<lbrakk>fs_ok fs; A \<subseteq> data_pool fs; i \<in> data_pool fs\<rbrakk> \<Longrightarrow> dblock fs i \<in> dblock fs ` A \<longleftrightarrow> i \<in> A"
  using dblock_inj by blast

lemma used_subset: "bm_used (data_bitmap fs) d \<subseteq> data_pool fs"
  by (rule subsetI) (rule used_in_pool)

section \<open>Allocating data blocks\<close>

lemma finite_bm_used [simp]: "finite (bm_used bm d)"
  by (rule finite_subset [of _ "bm_pool bm"]) (auto simp: bm_used_def bm_pool_def)

text \<open>The first free bit is taken: its number is at most the number of the bits in use.\<close>

lemma first_free: "\<forall>j < i. j \<in> bm_used bm d \<Longrightarrow> i \<le> card (bm_used bm d)"
proof -
  assume "\<forall>j < i. j \<in> bm_used bm d"
  then have "{..<i} \<subseteq> bm_used bm d" by auto
  from card_mono [OF finite_bm_used this] show ?thesis by simp
qed

lemma alloc_data_spec:
  assumes fs: "fs_ok fs" and d: "dev_ok d" and H: "inode_locks fs S H" and free: "free_data fs d \<noteq> {}"
  shows "\<exists>i d'. run (alloc_data fs) H d = Ok (dblock fs i, d') \<and> i \<in> free_data fs d \<and> i \<le> card (bm_used (data_bitmap fs) d) \<and> dev_ok d' \<and>
    bm_used (data_bitmap fs) d' = insert i (bm_used (data_bitmap fs) d) \<and>
    (\<forall>b. b \<notin> bm_region (data_bitmap fs) \<longrightarrow> d' b = d b)"
proof -
  note l = inode_locks_apart [OF fs H]
  have "bm_used (data_bitmap fs) d \<noteq> bm_pool (data_bitmap fs)" using free by (auto simp: free_data_def data_pool_def)
  with bm_alloc_spec [OF d l(3,1)] have "\<exists>i d'. run (bm_alloc (data_bitmap fs)) H d = Ok (Some i, d') \<and> dev_ok d' \<and>
       i \<in> bm_pool (data_bitmap fs) \<and> i \<notin> bm_used (data_bitmap fs) d \<and> (\<forall>j < i. j \<in> bm_used (data_bitmap fs) d) \<and>
       bm_used (data_bitmap fs) d' = insert i (bm_used (data_bitmap fs) d) \<and> (\<forall>b. b \<notin> bm_region (data_bitmap fs) \<longrightarrow> d' b = d b)"
    by argo
  then obtain i d' where
    r: "run (bm_alloc (data_bitmap fs)) H d = Ok (Some i, d')" "dev_ok d'" "i \<in> bm_pool (data_bitmap fs)" "i \<notin> bm_used (data_bitmap fs) d"
    "bm_used (data_bitmap fs) d' = insert i (bm_used (data_bitmap fs) d)" "\<forall>b. b \<notin> bm_region (data_bitmap fs) \<longrightarrow> d' b = d b"
    and least: "\<forall>j < i. j \<in> bm_used (data_bitmap fs) d"
    by blast
  then show ?thesis using first_free [OF least]
    by (intro exI [of _ i] exI [of _ d']) (simp add: alloc_data_def run_simps dblock_def free_data_def data_pool_def)
qed

lemma alloc_many_spec:
  assumes fs: "fs_ok fs" and d: "dev_ok d" and H: "inode_locks fs S H" and "length xs \<le> card (free_data fs d)"
  shows "\<exists>ns d'. run (fold_prog (\<lambda>_ v. bind_prog (alloc_data fs) (\<lambda>b. Done (v @ [b]))) xs v) H d = Ok (v @ map (dblock fs) ns, d') \<and>
    length ns = length xs \<and> distinct ns \<and> set ns \<subseteq> free_data fs d \<and> set ns \<subseteq> {..<card (bm_used (data_bitmap fs) d) + length xs} \<and> dev_ok d' \<and>
    bm_used (data_bitmap fs) d' = bm_used (data_bitmap fs) d \<union> set ns \<and>
    (\<forall>b. b \<notin> bm_region (data_bitmap fs) \<longrightarrow> d' b = d b)"
  using assms(2,4)
proof (induction xs arbitrary: v d)
  case Nil
  then show ?case by (intro exI [of _ "[]"] exI [of _ d]) (simp add: run_simps)
next
  case (Cons a xs)
  have "free_data fs d \<noteq> {}" using Cons.prems(2) by auto
  from alloc_data_spec [OF fs Cons.prems(1) H this] obtain i d1 where
    d1: "run (alloc_data fs) H d = Ok (dblock fs i, d1)" "i \<in> free_data fs d" "dev_ok d1"
    "bm_used (data_bitmap fs) d1 = insert i (bm_used (data_bitmap fs) d)"
    "\<forall>b. b \<notin> bm_region (data_bitmap fs) \<longrightarrow> d1 b = d b" "i \<le> card (bm_used (data_bitmap fs) d)" by blast
  have fr: "free_data fs d1 = free_data fs d - {i}" using d1(4) by (auto simp: free_data_def)
  then have "length xs \<le> card (free_data fs d1)" using Cons.prems(2) d1(2) by simp
  from Cons.IH [OF d1(3) this, of "v @ [dblock fs i]"] obtain ns d' where
    r: "run (fold_prog (\<lambda>_ v. bind_prog (alloc_data fs) (\<lambda>b. Done (v @ [b]))) xs (v @ [dblock fs i])) H d1 =
        Ok ((v @ [dblock fs i]) @ map (dblock fs) ns, d')"
    "length ns = length xs" "distinct ns" "set ns \<subseteq> free_data fs d1" "dev_ok d'"
    "bm_used (data_bitmap fs) d' = bm_used (data_bitmap fs) d1 \<union> set ns"
    "\<forall>b. b \<notin> bm_region (data_bitmap fs) \<longrightarrow> d' b = d1 b"
    and first: "set ns \<subseteq> {..<card (bm_used (data_bitmap fs) d1) + length xs}" by blast
  have "i \<notin> bm_used (data_bitmap fs) d" using d1(2) by (simp add: free_data_def)
  then have "card (bm_used (data_bitmap fs) d1) = Suc (card (bm_used (data_bitmap fs) d))" using d1(4) by simp
  then have "set (i # ns) \<subseteq> {..<card (bm_used (data_bitmap fs) d) + length (a # xs)}" using first d1(6) by auto
  then show ?case
    using d1 r fr by (intro exI [of _ "i # ns"] exI [of _ d']) (auto simp: run_simps)
qed

section \<open>Growing a file\<close>

text \<open>What changes on the device: the bitmap of data blocks and data blocks.\<close>

definition data_only :: "EasyFileSystem \<Rightarrow> device \<Rightarrow> device \<Rightarrow> bool" where
  "data_only fs d d' = (\<forall>x. x \<notin> bm_region (data_bitmap fs) \<longrightarrow> x \<notin> ucast ` dblock fs ` data_pool fs \<longrightarrow> d' x = d x)"

lemma data_onlyI:
  assumes "\<And>x. x \<notin> bm_region (data_bitmap fs) \<Longrightarrow> x \<notin> ucast ` B \<Longrightarrow> d' x = d x" and "B \<subseteq> dblock fs ` data_pool fs"
  shows "data_only fs d d'"
proof -
  have "x \<notin> ucast ` B" if "x \<notin> ucast ` dblock fs ` data_pool fs" for x :: usize using that assms(2) by blast
  then show ?thesis using assms(1) by (auto simp: data_only_def)
qed

lemma data_only_trans: "\<lbrakk>data_only fs d d'; data_only fs d' d''\<rbrakk> \<Longrightarrow> data_only fs d d''"
  by (simp add: data_only_def)

lemma data_only_refl [simp]: "data_only fs d d"
  by (simp add: data_only_def)

lemma data_only_iblock: "\<lbrakk>data_only fs d d'; fs_ok fs; in_area fs ino\<rbrakk> \<Longrightarrow> d' (iblock fs ino) = d (iblock fs ino)"
  using regions_apart(1,3) by (fastforce simp: data_only_def)

lemma bm_used_cong:
  assumes "\<And>b. b \<in> bm_region bm \<Longrightarrow> d' b = d b"
  shows "bm_used bm d' = bm_used bm d"
proof -
  have "d' (start_block_id bm + of_nat (i div BLOCK_BITS)) = d (start_block_id bm + of_nat (i div BLOCK_BITS))"
    if "i \<in> bm_pool bm" for i
    using that by (intro assms) (auto simp: bm_region_def bm_pool_def less_mult_imp_div_less)
  then show ?thesis by (auto simp: bm_used_def bm_bit_def)
qed

lemma data_only_inodes: "\<lbrakk>data_only fs d d'; fs_ok fs\<rbrakk> \<Longrightarrow> bm_used (inode_bitmap fs) d' = bm_used (inode_bitmap fs) d"
proof (rule bm_used_cong)
  fix b assume a: "data_only fs d d'" "fs_ok fs" "b \<in> bm_region (inode_bitmap fs)"
  then have "b \<notin> bm_region (data_bitmap fs)" "b \<notin> ucast ` dblock fs ` data_pool fs"
    using regions_apart(5,6) [OF a(2)] by auto
  with a(1) show "d' b = d b" by (simp add: data_only_def)
qed

lemma file_small:
  assumes "file_ok d di ino L"
  shows "unat (di_size di) \<le> 512 * MAX_DATA" "nblk (unat (di_size di)) \<le> MAX_DATA"
  using mapsD(1) [OF file_okD(1) [OF assms]] nblk_ge [of "unat (di_size di)"] by (simp_all add: MAX_DATA_def)

lemma fbyte_append: "\<lbrakk>length L = tot n; j < 512 * n\<rbrakk> \<Longrightarrow> fbyte d (L @ v) j = fbyte d L j"
proof -
  assume "length L = tot n" "j < 512 * n"
  moreover then have "dpos (j div 512) < tot n" by (intro dpos_less_tot) (simp add: less_mult_imp_div_less)
  ultimately show ?thesis by (simp add: fbyte_def nth_append)
qed

lemma tot_le_dpos: "n \<le> k \<Longrightarrow> tot n \<le> dpos k"
  using dpos_strict_mono by (cases n) (auto simp: tot_Suc tot_direct Suc_le_eq)

text \<open>A grown file: the old bytes, then zero bytes.\<close>

definition extend :: "nat \<Rightarrow> u8 list \<Rightarrow> u8 list" where
  "extend n xs = xs @ replicate (n - length xs) 0"

lemma grown_bytes:
  assumes f: "file_ok d di ino L" and v: "length (L @ v) = tot n'" "distinct (L @ v)" and n: "nblk (unat (di_size di)) \<le> n'"
    and zero: "\<And>b. b \<in> set v \<Longrightarrow> d (ucast b) = replicate BLOCK_SZ 0"
    and keep: "\<And>x. x \<notin> ucast ` index_set (L @ v) n' \<Longrightarrow> x \<in> ucast ` set (L @ v) \<Longrightarrow> d' x = d x" and j: "j < 512 * n'"
  shows "fbyte d' (L @ v) j = (if j < unat (di_size di) then fbyte d L j else 0)"
proof -
  let ?n = "nblk (unat (di_size di))" and ?b = "(L @ v) ! dpos (j div 512)"
  note fd = file_okD [OF f]
  have jn: "j div 512 < n'" using j by (simp add: less_mult_imp_div_less)
  then have p: "dpos (j div 512) < tot n'" by (rule dpos_less_tot)
  then have b: "?b \<in> set (L @ v)" using v(1) nth_mem by metis
  have "?b \<noteq> (L @ v) ! q" if "q < tot n'" "ipos q" for q
    using index_not_data [OF v(2) eq_refl [OF v(1) [symmetric]] that] jn by (metis (no_types, lifting) data_set_def imageI lessThan_iff)
  then have "?b \<notin> index_set (L @ v) n'" by (auto simp: index_set_def)
  then have "d' (ucast ?b) = d (ucast ?b)" using b by (intro keep) auto
  then have same: "fbyte d' (L @ v) j = fbyte d (L @ v) j" by (simp add: fbyte_def)
  show ?thesis
  proof (cases "j < 512 * ?n")
    case True
    then show ?thesis using same fbyte_append [OF fd(2)] fd(5) by simp
  next
    case False
    then have "?n \<le> j div 512" by simp
    then have "tot ?n \<le> dpos (j div 512)" by (rule tot_le_dpos)
    then have "?b \<in> set v" using p v(1) fd(2) by (simp add: nth_append)
    then have "d (ucast ?b) = replicate BLOCK_SZ 0" by (rule zero)
    moreover have "\<not> j < unat (di_size di)" using False nblk_ge [of "unat (di_size di)"] by simp
    ultimately show ?thesis using same by (simp add: fbyte_def BLOCK_SZ_def)
  qed
qed

lemma contents_grown:
  assumes "\<And>j. j < 512 * nblk s' \<Longrightarrow> fbyte d' L' j = (if j < s then fbyte d L j else 0)" and "s \<le> s'"
  shows "contents d' L' s' = extend s' (contents d L s)"
proof (rule nth_equalityI)
  show "length (contents d' L' s') = length (extend s' (contents d L s))" using assms(2) by (simp add: extend_def)
  fix j assume "j < length (contents d' L' s')"
  then have "j < s'" "j < 512 * nblk s'" using nblk_ge [of s'] by simp_all
  then show "contents d' L' s' ! j = extend s' (contents d L s) ! j"
    using assms by (simp add: contents_def extend_def nth_append)
qed

lemma unat_blocks_needed:
  assumes "unat (di_size di) \<le> unat new_size" and "unat new_size \<le> 512 * MAX_DATA"
  shows "\<exists>k. blocks_num_needed new_size di = Ok k \<and> unat k = tot (nblk (unat new_size)) - tot (nblk (unat (di_size di)))"
proof -
  have u: "unat (total_blocks new_size) = tot (nblk (unat new_size))"
    "unat (total_blocks (di_size di)) = tot (nblk (unat (di_size di)))"
    using assms by (auto intro!: unat_total_blocks nblk_le simp: MAX_DATA_def)
  have "tot (nblk (unat (di_size di))) \<le> tot (nblk (unat new_size))" by (intro tot_mono nblk_mono assms(1))
  then have "unat (total_blocks new_size - total_blocks (di_size di)) = tot (nblk (unat new_size)) - tot (nblk (unat (di_size di)))"
    using u by (simp add: unat_sub word_le_nat_alt)
  then show ?thesis using assms(1) by (simp add: blocks_num_needed_def word_le_nat_alt)
qed

text \<open>The number of blocks that a file of \<open>s\<close> bytes still needs to hold \<open>s'\<close> bytes.\<close>

definition need :: "nat \<Rightarrow> nat \<Rightarrow> nat" where
  "need s s' = tot (nblk s') - tot (nblk s)"

text \<open>The bits that can be in use after \<open>n\<close> more blocks have been allocated.\<close>

definition first_bits :: "EasyFileSystem \<Rightarrow> nat \<Rightarrow> device \<Rightarrow> nat set" where
  "first_bits fs n d = bm_used (data_bitmap fs) d \<union> {..<card (bm_used (data_bitmap fs) d) + n}"

lemma used_first_bits: "bm_used (data_bitmap fs) d \<subseteq> first_bits fs n d"
  by (simp add: first_bits_def)

lemma vfs_increase_size_spec:
  fixes new_size :: u32
  assumes inv: "fs_inv_on fs F I d" and F: "F ino = Some L" and H: "inode_locks fs S H"
    and sz: "unat new_size \<le> 512 * MAX_DATA" and free: "need (unat (di_size (I ino))) (unat new_size) \<le> card (free_data fs d)"
    and S: "first_bits fs (need (unat (di_size (I ino))) (unat new_size)) d \<subseteq> S"
  shows "\<exists>di L' d'. run (vfs_increase_size new_size fs (I ino)) H d = Ok (di, d') \<and> data_only fs d d' \<and>
    bm_used (data_bitmap fs) d' \<subseteq> first_bits fs (need (unat (di_size (I ino))) (unat new_size)) d \<and>
    di_size di = max new_size (di_size (I ino)) \<and> fs_inv_on fs (F(ino \<mapsto> L')) (I(ino := di)) d' \<and>
    files_on (F(ino \<mapsto> L')) (I(ino := di)) d' =
      (files_on F I d)(ino \<mapsto> (file_of d (I ino) L)\<lparr>fa_bytes := extend (unat new_size) (fa_bytes (file_of d (I ino) L))\<rparr>)"
proof (cases "new_size < di_size (I ino)")
  case True
  then have "unat new_size - unat (di_size (I ino)) = 0" by (simp add: word_less_nat_alt)
  then have "(file_of d (I ino) L)\<lparr>fa_bytes := extend (unat new_size) (fa_bytes (file_of d (I ino) L))\<rparr> = file_of d (I ino) L"
    by (simp add: file_of_def extend_def)
  moreover have "(files_on F I d)(ino \<mapsto> file_of d (I ino) L) = files_on F I d" using F by (auto simp: files_on_def)
  ultimately show ?thesis
    using inv True F by (intro exI [of _ "I ino"] exI [of _ L] exI [of _ d]) (simp add: vfs_increase_size_def run_simps fun_upd_idem used_first_bits)
next
  case False
  note D = fs_inv_onD [OF inv] and f = fs_inv_onD(5) [OF inv F]
  note fd = file_okD [OF f]
  let ?s = "unat (di_size (I ino))" and ?n' = "nblk (unat new_size)"
  have le: "?s \<le> unat new_size" using False by (simp add: word_less_nat_alt)
  obtain k where k: "blocks_num_needed new_size (I ino) = Ok k" "unat k = need ?s (unat new_size)"
    using unat_blocks_needed [OF le sz] by (auto simp: need_def)
  have "length [0..<unat k] \<le> card (free_data fs d)" using k(2) free by simp
  from alloc_many_spec [OF D(1,2) H this, of "[]"] obtain ns d1 where
    a: "run (fold_prog (\<lambda>_ v. bind_prog (alloc_data fs) (\<lambda>b. Done (v @ [b]))) [0..<unat k] []) H d = Ok (map (dblock fs) ns, d1)"
    "length ns = unat k" "distinct ns" "set ns \<subseteq> free_data fs d" "dev_ok d1"
    "bm_used (data_bitmap fs) d1 = bm_used (data_bitmap fs) d \<union> set ns" "set ns \<subseteq> {..<card (bm_used (data_bitmap fs) d) + unat k}"
    and d1: "\<And>b. b \<notin> bm_region (data_bitmap fs) \<Longrightarrow> d1 b = d b" by auto
  define v where "v = map (dblock fs) ns"
  have pool: "set ns \<subseteq> data_pool fs" using a(4) by (auto simp: free_data_def)
  have sub: "set (L @ v) \<subseteq> dblock fs ` data_pool fs" using file_blocks_used(2) [OF inv F] pool by (auto simp: v_def)
  have keep1: "d1 (ucast b) = d (ucast b)" if "b \<in> dblock fs ` data_pool fs" for b
    using that regions_apart(4) [OF D(1)] d1 by auto
  have len: "length (L @ v) = tot ?n'"
    using fd(2) a(2) k(2) tot_mono [OF nblk_mono [OF le]] by (simp add: v_def need_def)
  have "distinct v" using a(3) pool dblock_inj [OF D(1)] by (auto simp: v_def distinct_map inj_on_def)
  moreover have "set L \<inter> set v = {}"
  proof -
    have "dblock fs i \<notin> set L" if "i \<in> set ns" for i
      using that file_blocks_used(1) [OF inv F] a(4) dblock_inj [OF D(1)] used_in_pool unfolding free_data_def by blast
    then show ?thesis by (auto simp: v_def)
  qed
  ultimately have dist: "distinct (L @ v)" using fd(3) by simp
  have f1: "file_ok d1 (I ino) ino L" using file_ok_cong(1) [OF f keep1] file_blocks_used(2) [OF inv F] by blast
  have nS: "set ns \<subseteq> first_bits fs (need ?s (unat new_size)) d" using a(7) k(2) by (auto simp: first_bits_def)
  have sub': "set (L @ v) \<subseteq> dblock fs ` (data_pool fs \<inter> S)"
    using file_blocks_used(1) [OF inv F] used_subset pool nS used_first_bits S by (fastforce simp: v_def)
  have rm: "room H (set (L @ v))" by (rule inode_locks_room [OF D(1) H sub'])
  have H11: "length H \<le> 11" using H by (simp add: inode_locks_def)
  have lv: "length L + length v = tot ?n'" using len by simp
  from increase_size_spec [OF a(5) file_okD(1,2) [OF f1] le nblk_le [OF sz] lv dist rm H11] obtain di d2 where
    i: "run (increase_size new_size v (I ino)) H d1 = Ok (di, d2)" "dev_ok d2" "maps d2 di ?n' (L @ v)" "di_size di = new_size"
      "inode_id di = inode_id (I ino)" "nlink di = nlink (I ino)" "di_type di = di_type (I ino)"
    and d2: "\<And>x. x \<notin> ucast ` index_set (L @ v) ?n' \<Longrightarrow> d2 x = d1 x" by auto
  have idx: "index_set (L @ v) ?n' \<subseteq> set (L @ v)" using len by (auto simp: index_set_def simp del: set_append)
  have z1: "d1 (ucast b) = replicate BLOCK_SZ 0" if "b \<in> set v" for b
  proof -
    obtain i where "i \<in> set ns" "b = dblock fs i" using \<open>b \<in> set v\<close> by (auto simp: v_def)
    moreover then have "i \<in> free_data fs d" "i \<in> data_pool fs" using a(4) pool by blast+
    ultimately show ?thesis using keep1 [of b] D(8) [of i] by simp
  qed
  have fb: "fbyte d2 (L @ v) j = (if j < ?s then fbyte d L j else 0)" if j: "j < 512 * ?n'" for j
  proof -
    have "fbyte d2 (L @ v) j = (if j < ?s then fbyte d1 L j else 0)"
      using z1 d2 by (intro grown_bytes [OF f1 len dist nblk_mono [OF le] _ _ j]) auto
    moreover have "fbyte d1 L j = fbyte d L j" if "j < ?s"
      using that nblk_ge [of ?s] keep1 file_blocks_used(2) [OF inv F] by (intro fbyte_cong [OF fd(2)]) auto
    ultimately show ?thesis by simp
  qed
  have new: "file_ok d2 di ino (L @ v)" using i len dist fb fd(4) le by (simp add: file_ok_def)
  have frame: "d2 x = d x" if "x \<notin> bm_region (data_bitmap fs)" "x \<notin> ucast ` set (L @ v)" for x
  proof -
    have "x \<notin> ucast ` index_set (L @ v) ?n'" using that(2) idx by blast
    then show ?thesis using d1 d2 that(1) by simp
  qed
  have only: "data_only fs d d2" using frame sub by (rule data_onlyI)
  have reg: "bm_used (data_bitmap fs) d2 = bm_used (data_bitmap fs) d1"
  proof (rule bm_used_cong)
    fix b assume "b \<in> bm_region (data_bitmap fs)"
    then have "b \<notin> ucast ` dblock fs ` data_pool fs" using regions_apart(4) [OF D(1)] by blast
    then have "b \<notin> ucast ` index_set (L @ v) ?n'" using idx sub by blast
    then show "d2 b = d1 b" by (rule d2)
  qed
  have grown: "bm_used (data_bitmap fs) d2 \<subseteq> first_bits fs (need ?s (unat new_size)) d"
    unfolding reg a(6) using nS used_first_bits by blast
  have ex: "L = (case F ino of Some L \<Rightarrow> L | None \<Rightarrow> [])" using F by simp
  have bits: "bm_used (data_bitmap fs) d2 =
      {i \<in> data_pool fs. dblock fs i \<in> set (L @ v) \<or> (i \<in> bm_used (data_bitmap fs) d \<and> dblock fs i \<notin> set L)}"
  proof -
    have "i \<in> bm_used (data_bitmap fs) d" if "i \<in> data_pool fs" "dblock fs i \<in> set L" for i
      using subsetD [OF file_blocks_used(1) [OF inv F] that(2)] dblock_image [OF D(1) used_subset that(1)] by simp
    moreover have "dblock fs i \<in> set v \<longleftrightarrow> i \<in> set ns" if "i \<in> data_pool fs" for i
      using dblock_image [OF D(1) pool that] by (simp add: v_def)
    ultimately show ?thesis unfolding reg a(6) using used_in_pool pool by auto
  qed
  have ibits: "bm_used (inode_bitmap fs) d2 = insert ino (bm_used (inode_bitmap fs) d)"
    using data_only_inodes [OF only D(1)] D(3) F by auto
  have nsub: "set (L @ v) \<subseteq> set L \<union> dblock fs ` free_data fs d" using a(4) by (auto simp: v_def)
  note upd = fs_inv_upd [OF inv ex D(4) [OF F] new i(2) nsub bits ibits]
  have fof: "file_of d2 di (L @ v) = (file_of d (I ino) L)\<lparr>fa_bytes := extend (unat new_size) (fa_bytes (file_of d (I ino) L))\<rparr>"
    using contents_grown [OF fb le] i by (simp add: file_of_def)
  have mx: "max new_size (di_size (I ino)) = new_size" using False by (simp add: max_def)
  show ?thesis
    using k(1) a(1) i(1,4) only grown upd frame False fof mx
    by (intro exI [of _ di] exI [of _ "L @ v"] exI [of _ d2]) (simp add: vfs_increase_size_def run_simps v_def)
qed

end
