(* ===== verification/FsFile.thy ===== *)
theory FsFile
  imports FsGrow
begin

text \<open>Writing, reading and clearing of files, as operations on the abstract state.\<close>

section \<open>Writing the data of an inode\<close>

lemma contents_write:
  assumes "\<And>j. j < s \<Longrightarrow> fbyte d' L j = (if off \<le> j \<and> j < off + length buf then buf ! (j - off) else fbyte d L j)"
    and "off + length buf \<le> s"
  shows "contents d' L s = patch off buf (contents d L s)"
proof (rule nth_equalityI)
  show "length (contents d' L s) = length (patch off buf (contents d L s))" using assms(2) by (simp add: length_patch)
  fix j assume "j < length (contents d' L s)"
  then show "contents d' L s ! j = patch off buf (contents d L s) ! j"
    using assms by (simp add: contents_def patch_nth)
qed

lemma write_on_spec:
  fixes off :: usize
  assumes inv: "fs_inv_on fs F I d" and F: "F ino = Some L" and H: "inode_locks fs S H" "bm_used (data_bitmap fs) d \<subseteq> S"
    and ok: "unat off + length buf \<le> unat (di_size (I ino))" "unat off < unat (di_size (I ino))"
  shows "\<exists>d'. run (di_write_at off buf (I ino)) H d = Ok (length buf, d') \<and> data_only fs d d' \<and> fs_inv_on fs F I d' \<and>
    bm_used (data_bitmap fs) d' = bm_used (data_bitmap fs) d \<and>
    files_on F I d' =
      (files_on F I d)(ino \<mapsto> (file_of d (I ino) L)\<lparr>fa_bytes := patch (unat off) buf (fa_bytes (file_of d (I ino) L))\<rparr>)"
proof -
  note D = fs_inv_onD [OF inv] and f = fs_inv_onD(5) [OF inv F]
  note fd = file_okD [OF f]
  let ?s = "unat (di_size (I ino))"
  have sub: "set L \<subseteq> dblock fs ` data_pool fs" by (rule file_blocks_used(2) [OF inv F])
  have rm: "room H (set L)" by (rule file_room [OF inv F H])
  from di_write_at_spec [OF D(2) fd(1-3) rm ok] obtain d' where
    w: "run (di_write_at off buf (I ino)) H d = Ok (length buf, d')" "dev_ok d'"
    and out: "\<And>b. b \<notin> ucast ` data_set L (nblk ?s) \<Longrightarrow> d' b = d b"
    and fb: "\<And>j. j < 512 * nblk ?s \<Longrightarrow> fbyte d' L j = (if unat off \<le> j \<and> j < unat off + length buf then buf ! (j - unat off) else fbyte d L j)"
    by auto
  have ds: "data_set L (nblk ?s) \<subseteq> set L" using fd(2) by (intro data_set_subset) simp
  have frame: "d' x = d x" if "x \<notin> ucast ` set L" for x
  proof -
    have "x \<notin> ucast ` data_set L (nblk ?s)" using that ds by blast
    then show ?thesis by (rule out)
  qed
  have only: "data_only fs d d'" using frame sub by (intro data_onlyI [of _ "set L"])
  have reg: "bm_used (data_bitmap fs) d' = bm_used (data_bitmap fs) d"
  proof (rule bm_used_cong)
    fix b assume "b \<in> bm_region (data_bitmap fs)"
    then have "b \<notin> ucast ` dblock fs ` data_pool fs" using regions_apart(4) [OF D(1)] by blast
    then have "b \<notin> ucast ` set L" using sub by blast
    then show "d' b = d b" by (rule frame)
  qed
  have "maps d' (I ino) (nblk ?s) L" using fd(2) out by (intro maps_data_change [OF fd(1,3)]) auto
  then have new: "file_ok d' (I ino) ino L" using fd fb ok(1) by (auto simp: file_ok_def Let_def)
  have ex: "L = (case F ino of Some L \<Rightarrow> L | None \<Rightarrow> [])" using F by simp
  have bits: "bm_used (data_bitmap fs) d' = {i \<in> data_pool fs. dblock fs i \<in> set L \<or> (i \<in> bm_used (data_bitmap fs) d \<and> dblock fs i \<notin> set L)}"
  proof -
    have "i \<in> bm_used (data_bitmap fs) d" if "i \<in> data_pool fs" "dblock fs i \<in> set L" for i
      using subsetD [OF file_blocks_used(1) [OF inv F] that(2)] dblock_image [OF D(1) used_subset that(1)] by simp
    then show ?thesis unfolding reg using used_in_pool by auto
  qed
  have ibits: "bm_used (inode_bitmap fs) d' = insert ino (bm_used (inode_bitmap fs) d)"
    using data_only_inodes [OF only D(1)] D(3) F by auto
  note upd = fs_inv_upd [OF inv ex D(4) [OF F] new w(2) Un_upper1 bits ibits]
  have "contents d' L ?s = patch (unat off) buf (contents d L ?s)"
    using fb nblk_ge [of ?s] ok(1) by (intro contents_write) auto
  then have fof: "file_of d' (I ino) L = (file_of d (I ino) L)\<lparr>fa_bytes := patch (unat off) buf (fa_bytes (file_of d (I ino) L))\<rparr>"
    by (simp add: file_of_def)
  have same: "F(ino \<mapsto> L) = F" "I(ino := I ino) = I" using F by auto
  show ?thesis
    using w(1) only reg upd [OF _ frame] fof unfolding same by (intro exI [of _ d']) simp
qed

section \<open>Putting an inode back\<close>

lemma fs_inv_on_cong:
  assumes inv: "fs_inv_on fs F I d" and d': "dev_ok d'" and I: "\<And>ino. ino \<in> dom F \<Longrightarrow> I' ino = I ino"
    and keep: "\<And>x. \<lbrakk>\<And>ino. in_area fs ino \<Longrightarrow> x \<noteq> iblock fs ino\<rbrakk> \<Longrightarrow> d' x = d x"
  shows "fs_inv_on fs F I' d'" and "files_on F I' d' = files_on F I d"
proof -
  note D = fs_inv_onD [OF inv] and ap = regions_apart [OF fs_inv_onD(1) [OF inv]]
  have used: "bm_used (data_bitmap fs) d' = bm_used (data_bitmap fs) d" "bm_used (inode_bitmap fs) d' = bm_used (inode_bitmap fs) d"
    using ap(1,2) by (auto intro!: bm_used_cong keep)
  have data: "d' (ucast (dblock fs i)) = d (ucast (dblock fs i))" if "i \<in> data_pool fs" for i
    using ap(3) that by (intro keep) metis
  have blk: "d' (ucast b) = d (ucast b)" if "F ino = Some L" "b \<in> set L" for ino L b
    using file_blocks_used(2) [OF inv that(1)] that(2) data by blast
  have ok: "file_ok d' (I' ino) ino L" "file_of d' (I' ino) L = file_of d (I ino) L" if L: "F ino = Some L" for ino L
  proof -
    have "I' ino = I ino" using I L by blast
    then show "file_ok d' (I' ino) ino L" "file_of d' (I' ino) L = file_of d (I ino) L"
      using file_ok_cong [OF D(5) [OF L] blk [OF L]] by simp_all
  qed
  have fr: "free_data fs d' = free_data fs d" by (simp add: free_data_def used)
  have z: "d' (ucast (dblock fs i)) = replicate BLOCK_SZ 0" if "i \<in> free_data fs d" for i
    using that data D(8) by (simp add: free_data_def)
  show "fs_inv_on fs F I' d'" unfolding fs_inv_on_def used fr
    using D(1,3,4,6,7) d' ok(1) z by (intro conjI allI ballI impI) auto
  show "files_on F I' d' = files_on F I d"
  proof
    fix ino
    show "files_on F I' d' ino = files_on F I d ino" using ok(2) by (cases "F ino") (auto simp: files_on_def)
  qed
qed

lemma modify_inode_spec:
  assumes fs: "fs_ok fs" and d: "dev_ok d" and ino: "in_area fs ino" and H: "clear_of fs S H"
    and r: "run (f (inode_at d fs ino)) (iblock fs ino # H) d = Ok ((di, r), d')"
    and only: "data_only fs d d'" and new: "fs_inv_on fs F' ((inode_at d fs)(ino := di)) d'" and ino': "F' ino = Some L'"
  shows "\<exists>d''. run (modify_disk_inode (inode_of fs ino) f) H d = Ok (r, d'') \<and> fs_inv fs F' d'' \<and>
    bm_used (data_bitmap fs) d'' = bm_used (data_bitmap fs) d' \<and>
    files fs F' d'' = files_on F' ((inode_at d fs)(ino := di)) d' \<and> (\<forall>x. x \<noteq> iblock fs ino \<longrightarrow> d'' x = d' x)"
proof -
  note D = fs d and N = fs_inv_onD [OF new]
  have "file_ok d' di ino L'" using N(5) [OF ino'] by simp
  then have di: "length (direct di) = 28" using mapsD(2) file_okD(1) by blast
  have ib: "d' (iblock fs ino) = d (iblock fs ino)" by (rule data_only_iblock [OF only D(1) ino])
  let ?b = "iblock fs ino"
  define d'' where "d'' = d'(?b := patch (ioff ino) (encode_inode di (take INODE_SZ (drop (ioff ino) (d' ?b)))) (d' ?b))"
  have run: "run (modify_disk_inode (inode_of fs ino) f) H d = Ok (r, d'')" unfolding d''_def
    using D(2) r di ib clear_ofD(2) [OF H ino] clear_ofD(3) [OF H] by (intro run_modify_disk_inode) simp_all
  have same: "inode_at d' fs k = inode_at d fs k" if "in_area fs k" for k
    using data_only_iblock [OF only D(1) that] by (simp add: inode_at_def)
  have at: "inode_at d'' fs k = ((inode_at d fs)(ino := di)) k" if "k \<in> dom F'" for k
  proof -
    have k: "in_area fs k" using that N(4) by auto
    show ?thesis unfolding d''_def inode_at_patch [OF D(1) N(2) ino k di] using same [OF k] by simp
  qed
  have dev: "dev_ok d''" unfolding d''_def
    using N(2) length_encode_inode [OF di, of "take INODE_SZ (drop (ioff ino) (d' ?b))"] ioff_fits [of ino]
    by (intro dev_ok_upd) (simp_all add: length_patch)
  have keep: "d'' x = d' x" if "\<And>ino. in_area fs ino \<Longrightarrow> x \<noteq> iblock fs ino" for x
    using that [OF ino] by (simp add: d''_def)
  have used: "bm_used (data_bitmap fs) d'' = bm_used (data_bitmap fs) d'"
    using regions_apart(1) [OF D(1)] by (intro bm_used_cong keep) blast
  have "d'' x = d' x" if "x \<noteq> iblock fs ino" for x using that by (simp add: d''_def)
  then show ?thesis using run used fs_inv_on_cong [OF new dev at keep] unfolding fs_inv_def files_def by blast
qed

section \<open>Files\<close>

lemma fs_invD:
  assumes "fs_inv fs F d"
  shows "fs_ok fs" and "dev_ok d" and "F ino = Some L \<Longrightarrow> in_area fs ino" and "F ino = Some L \<Longrightarrow> file_ok d (inode_at d fs ino) ino L"
  using fs_inv_onD [OF assms [unfolded fs_inv_def]] by auto

lemma files_eq_Some:
  "files fs F d ino = Some a \<longleftrightarrow> (\<exists>L. F ino = Some L \<and> a = file_of d (inode_at d fs ino) L)"
  by (auto simp: files_def files_on_def)

lemma length_fa_bytes [simp]: "length (fa_bytes (file_of d di L)) = unat (di_size di)"
  by (simp add: file_of_def)

text \<open>The bytes of a file after a write at \<open>off\<close>.\<close>

definition write_bytes :: "nat \<Rightarrow> u8 list \<Rightarrow> u8 list \<Rightarrow> u8 list" where
  "write_bytes off buf xs = patch off buf (extend (off + length buf) xs)"

text \<open>Growing a file as far as needed and writing to it, with its inode in memory.\<close>

lemma grow_write_spec:
  fixes off :: usize and new :: u32
  assumes inv: "fs_inv_on fs F I d" and F: "F ino = Some L" and buf: "buf \<noteq> []" and new: "unat new = unat off + length buf"
    and sz: "unat new \<le> 512 * MAX_DATA" and free: "need (unat (di_size (I ino))) (unat new) \<le> card (free_data fs d)"
    and H: "clear_of fs S H" and S: "first_bits fs (need (unat (di_size (I ino))) (unat new)) d \<subseteq> S"
  shows "\<exists>di L' d1 d2. run (vfs_increase_size new fs (I ino)) (iblock fs ino # H) d = Ok (di, d1) \<and>
    run (di_write_at off buf di) (iblock fs ino # H) d1 = Ok (length buf, d2) \<and> data_only fs d d2 \<and>
    bm_used (data_bitmap fs) d2 \<subseteq> first_bits fs (need (unat (di_size (I ino))) (unat new)) d \<and>
    fs_inv_on fs (F(ino \<mapsto> L')) (I(ino := di)) d2 \<and>
    files_on (F(ino \<mapsto> L')) (I(ino := di)) d2 =
      (files_on F I d)(ino \<mapsto> (file_of d (I ino) L)\<lparr>fa_bytes := write_bytes (unat off) buf (fa_bytes (file_of d (I ino) L))\<rparr>)"
proof -
  let ?a = "file_of d (I ino) L"
  have ino: "inode_locks fs S (iblock fs ino # H)" by (rule clear_ofD(4) [OF H fs_inv_onD(4) [OF inv F]])
  from vfs_increase_size_spec [OF inv F ino sz free S] obtain di L' d1 where
    g: "run (vfs_increase_size new fs (I ino)) (iblock fs ino # H) d = Ok (di, d1)" "data_only fs d d1"
      "di_size di = max new (di_size (I ino))" "fs_inv_on fs (F(ino \<mapsto> L')) (I(ino := di)) d1"
      "files_on (F(ino \<mapsto> L')) (I(ino := di)) d1 = (files_on F I d)(ino \<mapsto> ?a\<lparr>fa_bytes := extend (unat new) (fa_bytes ?a)\<rparr>)"
    and u: "bm_used (data_bitmap fs) d1 \<subseteq> first_bits fs (need (unat (di_size (I ino))) (unat new)) d"
    by blast
  have s: "unat off + length buf \<le> unat (di_size di)" using g(3) new by (simp add: max_def word_le_nat_alt)
  then have s': "unat off < unat (di_size di)" using buf by (cases buf) auto
  have F1: "(F(ino \<mapsto> L')) ino = Some L'" by simp
  from write_on_spec [OF g(4) F1 ino subset_trans [OF u S], of off buf, unfolded fun_upd_same, OF s s'] obtain d2 where
    w: "run (di_write_at off buf di) (iblock fs ino # H) d1 = Ok (length buf, d2)" "data_only fs d1 d2" "fs_inv_on fs (F(ino \<mapsto> L')) (I(ino := di)) d2"
      "files_on (F(ino \<mapsto> L')) (I(ino := di)) d2 = (files_on (F(ino \<mapsto> L')) (I(ino := di)) d1)
         (ino \<mapsto> (file_of d1 di L')\<lparr>fa_bytes := patch (unat off) buf (fa_bytes (file_of d1 di L'))\<rparr>)"
    and u2: "bm_used (data_bitmap fs) d2 = bm_used (data_bitmap fs) d1"
    by blast
  have "file_of d1 di L' = ?a\<lparr>fa_bytes := extend (unat new) (fa_bytes ?a)\<rparr>"
    using fun_cong [OF g(5), of ino] by (simp add: files_on_def)
  then have "files_on (F(ino \<mapsto> L')) (I(ino := di)) d2 = (files_on F I d)(ino \<mapsto> ?a\<lparr>fa_bytes := write_bytes (unat off) buf (fa_bytes ?a)\<rparr>)"
    unfolding w(4) g(5) by (simp add: write_bytes_def new)
  then show ?thesis using g(1) w(1,3) u [folded u2] data_only_trans [OF g(2) w(2)] by blast
qed

text \<open>The closure of \<^verbatim>\<open>write_at\<close>.\<close>

abbreviation write_closure :: "usize \<Rightarrow> u8 list \<Rightarrow> EasyFileSystem \<Rightarrow> DiskInode \<Rightarrow> (DiskInode \<times> nat) prog" where
  "write_closure off buf fs \<equiv> (\<lambda>di. bind_prog (vfs_increase_size (ucast (off + of_nat (length buf))) fs di)
     (\<lambda>di. bind_prog (di_write_at off buf di) (\<lambda>n. Done (di, n))))"

lemma write_modify_spec:
  fixes off :: usize
  assumes inv: "fs_inv fs F d" and a: "files fs F d ino = Some a" and buf: "buf \<noteq> []"
    and sz: "unat off + length buf \<le> 512 * MAX_DATA"
    and free: "need (length (fa_bytes a)) (unat off + length buf) \<le> card (free_data fs d)"
    and H: "clear_of fs S H" and S: "first_bits fs (need (length (fa_bytes a)) (unat off + length buf)) d \<subseteq> S"
  shows "\<exists>F' d'. run (modify_disk_inode (inode_of fs ino) (write_closure off buf fs)) H d = Ok (length buf, d') \<and> fs_inv fs F' d' \<and>
    files fs F' d' = (files fs F d)(ino \<mapsto> a\<lparr>fa_bytes := write_bytes (unat off) buf (fa_bytes a)\<rparr>) \<and>
    bm_used (data_bitmap fs) d' \<subseteq> first_bits fs (need (length (fa_bytes a)) (unat off + length buf)) d"
proof -
  let ?I = "inode_at d fs" and ?new = "ucast (off + of_nat (length buf)) :: u32"
  obtain L where F: "F ino = Some L" and aL: "a = file_of d (?I ino) L" using a by (auto simp: files_eq_Some)
  note D = fs_invD [OF inv]
  have "unat off + length buf < 2 ^ 32" using sz by (simp add: MAX_DATA_def)
  then have un: "unat ?new = unat off + length buf"
    by (simp add: unsigned_ucast_eq unat_add_of_nat_64 take_bit_eq_mod)
  have lim: "unat ?new \<le> 512 * MAX_DATA" "need (unat (di_size (?I ino))) (unat ?new) \<le> card (free_data fs d)"
    "first_bits fs (need (unat (di_size (?I ino))) (unat ?new)) d \<subseteq> S"
    using un sz free S by (simp_all add: aL)
  from grow_write_spec [OF inv [unfolded fs_inv_def] F buf un lim(1,2) H lim(3)] obtain di L' d1 d2 where
    g: "run (vfs_increase_size ?new fs (?I ino)) (iblock fs ino # H) d = Ok (di, d1)"
      "run (di_write_at off buf di) (iblock fs ino # H) d1 = Ok (length buf, d2)" "data_only fs d d2"
      "fs_inv_on fs (F(ino \<mapsto> L')) (?I(ino := di)) d2"
      "files_on (F(ino \<mapsto> L')) (?I(ino := di)) d2 = (files fs F d)(ino \<mapsto> a\<lparr>fa_bytes := write_bytes (unat off) buf (fa_bytes a)\<rparr>)"
      "bm_used (data_bitmap fs) d2 \<subseteq> first_bits fs (need (length (fa_bytes a)) (unat off + length buf)) d"
    unfolding aL files_def length_fa_bytes un by blast
  have run: "run (write_closure off buf fs (?I ino)) (iblock fs ino # H) d = Ok ((di, length buf), d2)" using g(1,2) by (simp add: run_simps)
  have F1: "(F(ino \<mapsto> L')) ino = Some L'" by simp
  from modify_inode_spec [of fs d ino S H "write_closure off buf fs", OF D(1,2) D(3) [OF F] H run g(3,4) F1] obtain d3 where
    "run (modify_disk_inode (inode_of fs ino) (write_closure off buf fs)) H d = Ok (length buf, d3)" "fs_inv fs (F(ino \<mapsto> L')) d3"
    "files fs (F(ino \<mapsto> L')) d3 = (files fs F d)(ino \<mapsto> a\<lparr>fa_bytes := write_bytes (unat off) buf (fa_bytes a)\<rparr>)"
    "bm_used (data_bitmap fs) d3 = bm_used (data_bitmap fs) d2"
    unfolding g(5) by blast
  with g(6) show ?thesis by (intro exI [of _ "F(ino \<mapsto> L')"] exI [of _ d3]) simp
qed

lemma vfs_write_at_spec:
  fixes off :: usize
  assumes inv: "fs_inv fs F d" and a: "files fs F d ino = Some a" and buf: "buf \<noteq> []"
    and sz: "unat off + length buf \<le> 512 * MAX_DATA"
    and free: "need (length (fa_bytes a)) (unat off + length buf) \<le> card (free_data fs d)"
  shows "\<exists>F' d'. run (vfs_write_at off buf fs (inode_of fs ino)) [] d = Ok (length buf, d') \<and> fs_inv fs F' d' \<and>
    files fs F' d' = (files fs F d)(ino \<mapsto> a\<lparr>fa_bytes := write_bytes (unat off) buf (fa_bytes a)\<rparr>)"
proof -
  from write_modify_spec [OF assms clear_of_Nil subset_UNIV] obtain F' d' where
    r: "run (modify_disk_inode (inode_of fs ino) (write_closure off buf fs)) [] d = Ok (length buf, d')" and i: "fs_inv fs F' d'"
    "files fs F' d' = (files fs F d)(ino \<mapsto> a\<lparr>fa_bytes := write_bytes (unat off) buf (fa_bytes a)\<rparr>)" by blast
  have "run (vfs_write_at off buf fs (inode_of fs ino)) [] d = Ok (length buf, d')" using r by (simp add: vfs_write_at_def run_simps)
  with i show ?thesis by blast
qed

lemma vfs_read_at_spec:
  fixes off :: usize
  assumes inv: "fs_inv fs F d" and a: "files fs F d ino = Some a" and nw: "unat off + length buf < 2 ^ 64"
  defines "n \<equiv> min (length buf) (length (fa_bytes a) - unat off)"
  shows "run (vfs_read_at off buf (inode_of fs ino)) [] d = Ok ((n, take n (drop (unat off) (fa_bytes a)) @ drop n buf), d)"
proof -
  let ?I = "inode_at d fs"
  obtain L where F: "F ino = Some L" and aL: "a = file_of d (?I ino) L" using a by (auto simp: files_eq_Some)
  note D = fs_invD [OF inv]
  note fd = file_okD [OF D(4) [OF F]]
  have "room [iblock fs ino] (set L)"
    by (rule file_room [OF inv [unfolded fs_inv_def] F inode_locks_one [OF D(3) [OF F]] subset_UNIV])
  from di_read_at_spec [OF D(2) fd(1) eq_refl [OF fd(2) [symmetric]] this nw] show ?thesis
    by (simp add: vfs_read_at_def run_read_disk_inode BLOCK_CACHE_MAX_NUM_def n_def aL file_of_def)
qed

section \<open>Clearing a file\<close>

lemma clear_block_spec:
  assumes "dev_ok d" and "length H < BLOCK_CACHE_MAX_NUM" and "b \<notin> set H"
  shows "run (clear_block b) H d = Ok ((), d(b := replicate BLOCK_SZ 0))"
  using run_modify_whole [OF assms(2,3,1), of "\<lambda>bytes. Done (map (\<lambda>_. 0) bytes, ())"] assms(1)
  by (simp add: clear_block_def run_simps map_replicate_const)

lemma dealloc_data_spec:
  assumes fs: "fs_ok fs" and d: "dev_ok d" and H: "inode_locks fs UNIV H" and i: "i \<in> bm_used (data_bitmap fs) d"
  shows "\<exists>d'. run (dealloc_data (dblock fs i) fs) H d = Ok ((), d') \<and> dev_ok d' \<and>
    bm_used (data_bitmap fs) d' = bm_used (data_bitmap fs) d - {i} \<and> d' (ucast (dblock fs i)) = replicate BLOCK_SZ 0 \<and>
    (\<forall>b. b \<notin> bm_region (data_bitmap fs) \<longrightarrow> b \<noteq> ucast (dblock fs i) \<longrightarrow> d' b = d b)"
proof -
  note l = inode_locks_apart [OF fs H]
  have p: "i \<in> data_pool fs" by (rule used_in_pool [OF i])
  let ?b = "ucast (dblock fs i) :: usize" and ?d1 = "d(ucast (dblock fs i) := replicate BLOCK_SZ 0)"
  have b: "?b \<notin> bm_region (data_bitmap fs)" by (rule regions_apart(4) [OF fs p])
  have "?b \<notin> set H" using l(4) [of "{dblock fs i}"] p by auto
  then have c: "run (clear_block ?b) H d = Ok ((), ?d1)" by (rule clear_block_spec [OF d l(3)])
  have u: "bm_used (data_bitmap fs) ?d1 = bm_used (data_bitmap fs) d" using b by (intro bm_used_cong) auto
  have d1: "dev_ok ?d1" using d by (intro dev_ok_upd) simp_all
  from bm_dealloc_spec [OF d1 l(3,1), of i] obtain d' where
    "run (bm_dealloc i (data_bitmap fs)) H ?d1 = Ok ((), d')" "dev_ok d'" "bm_used (data_bitmap fs) d' = bm_used (data_bitmap fs) d - {i}"
    "\<forall>b. b \<notin> bm_region (data_bitmap fs) \<longrightarrow> d' b = ?d1 b"
    using i unfolding u by blast
  then show ?thesis
    using c b by (intro exI [of _ d']) (simp add: dealloc_data_def run_simps unat_dblock(3) [OF fs p])
qed

lemma dealloc_many_spec:
  assumes fs: "fs_ok fs" and H: "inode_locks fs UNIV H" and "dev_ok d" and "set ns \<subseteq> bm_used (data_bitmap fs) d" and "distinct ns"
  shows "\<exists>d'. run (fold_prog (\<lambda>b _. dealloc_data b fs) (map (dblock fs) ns) ()) H d = Ok ((), d') \<and> dev_ok d' \<and>
    bm_used (data_bitmap fs) d' = bm_used (data_bitmap fs) d - set ns \<and>
    (\<forall>i \<in> set ns. d' (ucast (dblock fs i)) = replicate BLOCK_SZ 0) \<and>
    (\<forall>b. b \<notin> bm_region (data_bitmap fs) \<longrightarrow> b \<notin> ucast ` dblock fs ` set ns \<longrightarrow> d' b = d b)"
  using assms(3-)
proof (induction ns arbitrary: d)
  case Nil
  then show ?case by (intro exI [of _ d]) (simp add: run_simps)
next
  case (Cons i ns)
  have i: "i \<in> bm_used (data_bitmap fs) d" using Cons.prems(2) by simp
  from dealloc_data_spec [OF fs Cons.prems(1) H i] obtain d1 where
    a: "run (dealloc_data (dblock fs i) fs) H d = Ok ((), d1)" "dev_ok d1" "bm_used (data_bitmap fs) d1 = bm_used (data_bitmap fs) d - {i}"
      "d1 (ucast (dblock fs i)) = replicate BLOCK_SZ 0"
    and k1: "\<And>b. \<lbrakk>b \<notin> bm_region (data_bitmap fs); b \<noteq> ucast (dblock fs i)\<rbrakk> \<Longrightarrow> d1 b = d b" by blast
  have "set ns \<subseteq> bm_used (data_bitmap fs) d1" "distinct ns" using Cons.prems(2,3) a(3) by auto
  from Cons.IH [OF a(2) this] obtain d' where
    r: "run (fold_prog (\<lambda>b _. dealloc_data b fs) (map (dblock fs) ns) ()) H d1 = Ok ((), d')" "dev_ok d'"
      "bm_used (data_bitmap fs) d' = bm_used (data_bitmap fs) d1 - set ns" "\<forall>i \<in> set ns. d' (ucast (dblock fs i)) = replicate BLOCK_SZ 0"
    and k2: "\<And>b. \<lbrakk>b \<notin> bm_region (data_bitmap fs); b \<notin> ucast ` dblock fs ` set ns\<rbrakk> \<Longrightarrow> d' b = d1 b" by blast
  have p: "i \<in> data_pool fs" by (rule used_in_pool [OF i])
  have "d' (ucast (dblock fs i)) = d1 (ucast (dblock fs i))"
  proof (rule k2 [OF regions_apart(4) [OF fs p]])
    have "set ns \<subseteq> data_pool fs" using Cons.prems(2) used_in_pool by auto
    then have "dblock fs i \<notin> dblock fs ` set ns" using dblock_image [OF fs _ p] Cons.prems(3) by simp
    then show "(ucast (dblock fs i) :: usize) \<notin> ucast ` dblock fs ` set ns" by auto
  qed
  then show ?case using a r k1 k2 by (intro exI [of _ d']) (auto simp: run_simps)
qed

lemma list_of_image: "set xs \<subseteq> f ` A \<Longrightarrow> \<exists>ys. xs = map f ys \<and> set ys \<subseteq> A"
proof (induction xs)
  case (Cons x xs)
  then obtain ys y where "xs = map f ys" "set ys \<subseteq> A" "x = f y" "y \<in> A" by auto
  then show ?case by (intro exI [of _ "y # ys"]) simp
qed simp

lemma vfs_clear_spec:
  assumes inv: "fs_inv fs F d" and a: "files fs F d ino = Some a"
  shows "\<exists>F' d'. run (vfs_clear fs (inode_of fs ino)) [] d = Ok ((), d') \<and> fs_inv fs F' d' \<and>
    files fs F' d' = (files fs F d)(ino \<mapsto> a\<lparr>fa_bytes := []\<rparr>)"
proof -
  let ?I = "inode_at d fs"
  obtain L where F: "F ino = Some L" and aL: "a = file_of d (?I ino) L" using a by (auto simp: files_eq_Some)
  note D = fs_invD [OF inv] and inv' = inv [unfolded fs_inv_def]
  have ino: "in_area fs ino" by (rule D(3) [OF F])
  note fd = file_okD [OF D(4) [OF F]]
  have sub: "set L \<subseteq> dblock fs ` data_pool fs" by (rule file_blocks_used(2) [OF inv' F])
  have rm: "room [iblock fs ino] (set L)" by (rule file_room [OF inv' F inode_locks_one [OF ino] subset_UNIV])
  from clear_size_spec [OF D(2) fd(1-3) rm] obtain di where
    c: "run (clear_size (?I ino)) [iblock fs ino] d = Ok ((L, di), d)" "di_size di = 0" "length (direct di) = 28"
      "inode_id di = inode_id (?I ino)" "nlink di = nlink (?I ino)" "di_type di = di_type (?I ino)" by auto
  obtain ns where L: "L = map (dblock fs) ns" "set ns \<subseteq> bm_used (data_bitmap fs) d"
    using list_of_image [OF file_blocks_used(1) [OF inv' F]] by blast
  have dn: "distinct ns" using fd(3) by (simp add: L(1) distinct_map)
  from dealloc_many_spec [OF D(1) inode_locks_one [OF ino] D(2) L(2) dn, folded L(1)] obtain d1 where
    r: "run (fold_prog (\<lambda>b _. dealloc_data b fs) L ()) [iblock fs ino] d = Ok ((), d1)" "dev_ok d1"
      "bm_used (data_bitmap fs) d1 = bm_used (data_bitmap fs) d - set ns"
    and z: "\<And>i. i \<in> set ns \<Longrightarrow> d1 (ucast (dblock fs i)) = replicate BLOCK_SZ 0"
    and k: "\<And>b. \<lbrakk>b \<notin> bm_region (data_bitmap fs); b \<notin> ucast ` set L\<rbrakk> \<Longrightarrow> d1 b = d b"
    unfolding L(1) set_map by blast
  have only: "data_only fs d d1" by (rule data_onlyI [OF k sub])
  have new: "file_ok d1 di ino []" using c fd(4) by (simp add: file_ok_def maps_def nblk_def tot_def)
  have ex: "L = (case F ino of Some L \<Rightarrow> L | None \<Rightarrow> [])" using F by simp
  have pool: "set ns \<subseteq> data_pool fs" using L(2) used_in_pool by blast
  have bits: "bm_used (data_bitmap fs) d1 = {i \<in> data_pool fs. dblock fs i \<in> set [] \<or> (i \<in> bm_used (data_bitmap fs) d \<and> dblock fs i \<notin> set L)}"
    unfolding r(3) using dblock_image [OF D(1) pool] used_in_pool by (auto simp: L(1))
  have ibits: "bm_used (inode_bitmap fs) d1 = insert ino (bm_used (inode_bitmap fs) d)"
    using data_only_inodes [OF only D(1)] fs_inv_onD(3) [OF inv'] F by auto
  have zL: "d1 (ucast b) = replicate BLOCK_SZ 0" if "b \<in> set L" for b using that z by (auto simp: L(1))
  have fr: "d1 x = d x" if "x \<notin> bm_region (data_bitmap fs)" "x \<notin> ucast ` (set L \<union> set [])" for x using that k by simp
  note upd = fs_inv_upd [OF inv' ex ino new r(2) _ bits ibits zL fr, simplified]
  have fof: "file_of d1 di [] = a\<lparr>fa_bytes := []\<rparr>" using c by (simp add: aL file_of_def contents_def)
  define f where "f = (\<lambda>di. let sz = di_size di in
          bind_prog (clear_size di) (\<lambda>(data_blocks_dealloc, di).
          bind_prog (lift_res (assert_that (length data_blocks_dealloc = unat (total_blocks sz)))) (\<lambda>_.
          bind_prog (fold_prog (\<lambda>data_block _. dealloc_data data_block fs) data_blocks_dealloc ()) (\<lambda>_.
          Done (di, ())))))"
  have "length L = unat (total_blocks (di_size (?I ino)))"
    using fd(2) file_small [OF D(4) [OF F]] unat_total_blocks [of "di_size (?I ino)"] by (simp add: MAX_DATA_def)
  then have run: "run (f (?I ino)) [iblock fs ino] d = Ok ((di, ()), d1)" using c(1) r(1) by (simp add: f_def run_simps)
  have F1: "(F(ino \<mapsto> [])) ino = Some []" by simp
  from modify_inode_spec [of fs d ino UNIV "[]" f, OF D(1,2) ino clear_of_Nil run only upd(1) F1] obtain d2 where
    "run (modify_disk_inode (inode_of fs ino) f) [] d = Ok ((), d2)" "fs_inv fs (F(ino \<mapsto> [])) d2"
    "files fs (F(ino \<mapsto> [])) d2 = (files fs F d)(ino \<mapsto> a\<lparr>fa_bytes := []\<rparr>)"
    unfolding upd(2) fof files_def by blast
  then show ?thesis
    unfolding vfs_clear_def f_def [symmetric] by (intro exI [of _ "F(ino \<mapsto> [])"] exI [of _ d2]) (simp add: run_simps)
qed

end
