(* ===== verification/FsDir.thy ===== *)
theory FsDir
  imports FsFile
begin

text \<open>
  Directories. The bytes of a directory are a list of entries of 32 bytes; looking a name up returns
  the inode number of the first entry with that name, and creating a file or a link appends an entry.
\<close>

section \<open>The entries of a directory\<close>

definition dirent_at :: "u8 list \<Rightarrow> nat \<Rightarrow> DirEntry" where
  "dirent_at bs i = of_bytes (take DIRENT_SZ (drop (DIRENT_SZ * i) bs))"

definition name_of :: "DirEntry \<Rightarrow> u8 list" where
  "name_of de = (case dirent_name de of Ok nm \<Rightarrow> nm | _ \<Rightarrow> [])"

definition dir_ok :: "u8 list \<Rightarrow> bool" where
  "dir_ok bs = (length bs mod DIRENT_SZ = 0 \<and> (\<forall>i < length bs div DIRENT_SZ. is_ok (dirent_name (dirent_at bs i))))"

definition dir_list :: "u8 list \<Rightarrow> (u8 list \<times> u32) list" where
  "dir_list bs = map (\<lambda>i. (name_of (dirent_at bs i), inode_number (dirent_at bs i))) [0..<length bs div DIRENT_SZ]"

lemma dirent_at_length: "i < length bs div DIRENT_SZ \<Longrightarrow> DIRENT_SZ * i + DIRENT_SZ \<le> length bs"
proof -
  assume "i < length bs div DIRENT_SZ"
  then have "Suc i * DIRENT_SZ \<le> length bs div DIRENT_SZ * DIRENT_SZ" by (intro mult_le_mono1) simp
  then have "Suc i * DIRENT_SZ \<le> length bs" using div_times_less_eq_dividend by (rule le_trans)
  then show ?thesis by (simp add: algebra_simps)
qed

lemma length_de_name_at: "i < length bs div DIRENT_SZ \<Longrightarrow> length (de_name (dirent_at bs i)) = 28"
  using dirent_at_length by (fastforce simp: dirent_at_def of_bytes_def DIRENT_SZ_def)

lemma dirent_at_append:
  assumes "length bs mod DIRENT_SZ = 0" and "length (de_name de) = 28" and "i \<le> length bs div DIRENT_SZ"
  shows "dirent_at (bs @ as_bytes de) i = (if i = length bs div DIRENT_SZ then de else dirent_at bs i)"
proof (cases "i = length bs div DIRENT_SZ")
  case True
  then have "DIRENT_SZ * i = length bs" using assms(1) by (auto simp: mult.commute)
  then show ?thesis using True length_as_bytes [OF assms(2)] of_bytes_as_bytes [OF assms(2)] by (simp add: dirent_at_def)
next
  case False
  then have "DIRENT_SZ * i + DIRENT_SZ \<le> length bs" using assms(3) by (intro dirent_at_length) simp
  then show ?thesis using False by (simp add: dirent_at_def)
qed

lemma length_append_dirent:
  "\<lbrakk>length bs mod DIRENT_SZ = 0; length (de_name de) = 28\<rbrakk> \<Longrightarrow>
    length (bs @ as_bytes de) div DIRENT_SZ = Suc (length bs div DIRENT_SZ) \<and> length (bs @ as_bytes de) mod DIRENT_SZ = 0"
  using length_as_bytes [of de] by (auto simp: DIRENT_SZ_def)

lemma dir_append:
  assumes "dir_ok bs" and "length (de_name de) = 28" and "dirent_name de = Ok nm"
  shows "dir_ok (bs @ as_bytes de)" and "dir_list (bs @ as_bytes de) = dir_list bs @ [(nm, inode_number de)]"
proof -
  have m: "length bs mod DIRENT_SZ = 0" using assms(1) by (simp add: dir_ok_def)
  note l = length_append_dirent [OF m assms(2)] and at = dirent_at_append [OF m assms(2)]
  have *: "is_ok (dirent_name (dirent_at (bs @ as_bytes de) i))" if "i < Suc (length bs div DIRENT_SZ)" for i
    using that assms at [of i] by (auto simp: dir_ok_def less_Suc_eq)
  show "dir_ok (bs @ as_bytes de)" unfolding dir_ok_def using l * by simp
  have "map (\<lambda>i. (name_of (dirent_at (bs @ as_bytes de) i), inode_number (dirent_at (bs @ as_bytes de) i))) [0..<length bs div DIRENT_SZ] =
      dir_list bs" unfolding dir_list_def using at by (intro map_cong) auto
  moreover have "dirent_at (bs @ as_bytes de) (length bs div DIRENT_SZ) = de" using at by simp
  ultimately show "dir_list (bs @ as_bytes de) = dir_list bs @ [(nm, inode_number de)]"
    using l assms(3) by (simp add: dir_list_def name_of_def)
qed

section \<open>Reading entries\<close>

text \<open>An inode in memory whose bytes are those of a file.\<close>

definition holds_file :: "device \<Rightarrow> usize list \<Rightarrow> DiskInode \<Rightarrow> u8 list \<Rightarrow> bool" where
  "holds_file d H di bs = (\<exists>ino L. dev_ok d \<and> file_ok d di ino L \<and> room H (set L) \<and> bs = contents d L (unat (di_size di)))"

lemma holds_file_length: "holds_file d H di bs \<Longrightarrow> length bs = unat (di_size di)"
  by (auto simp: holds_file_def)

lemma read_dirent_spec:
  assumes f: "holds_file d H di bs" and i: "i < length bs div DIRENT_SZ" and de: "length (de_name de) = 28"
  shows "run (read_dirent i de di) H d = Ok (dirent_at bs i, d)"
proof -
  obtain ino L where L: "dev_ok d" "file_ok d di ino L" "room H (set L)" "bs = contents d L (unat (di_size di))"
    using f by (auto simp: holds_file_def)
  have le: "DIRENT_SZ * i + DIRENT_SZ \<le> unat (di_size di)" using dirent_at_length [OF i] L(4) by simp
  then have "DIRENT_SZ * i + DIRENT_SZ < 2 ^ 32" using unat_less_32 [of "di_size di"] by linarith
  then have u: "unat (of_nat DIRENT_SZ * of_nat i :: usize) = DIRENT_SZ * i"
    by (simp flip: of_nat_mult add: unat_of_nat_64)
  have nw: "unat (of_nat DIRENT_SZ * of_nat i :: usize) + length (as_bytes de) < 2 ^ 64"
    using u le unat_less_32 [of "di_size di"] length_as_bytes [OF de] by simp
  note fd = file_okD [OF L(2)]
  from di_read_at_spec [OF L(1) fd(1) eq_refl [OF fd(2) [symmetric]] L(3) nw] show ?thesis
    using u le length_as_bytes [OF de] L(4) by (simp add: read_dirent_def run_simps dirent_at_def)
qed

lemma find_loop_spec:
  assumes f: "holds_file d H di bs" and ok: "dir_ok bs" and "set ns \<subseteq> {..<length bs div DIRENT_SZ}" and "length (de_name de) = 28"
  shows "run (find_loop name di ns de) H d =
    Ok (map_of (map (\<lambda>i. (name_of (dirent_at bs i), inode_number (dirent_at bs i))) ns) name, d)"
  using assms(3,4)
proof (induction ns arbitrary: de)
  case (Cons i ns)
  then have i: "i < length bs div DIRENT_SZ" by simp
  then obtain nm where nm: "dirent_name (dirent_at bs i) = Ok nm" using ok by (auto simp: dir_ok_def is_ok_iff)
  show ?case
    using read_dirent_spec [OF f i Cons.prems(2)] nm Cons.IH [OF _ length_de_name_at [OF i]] Cons.prems(1)
    by (simp add: run_simps name_of_def)
qed (simp add: run_simps)

lemma DirEntry_new_zeros_name: "length (de_name DirEntry_new_zeros) = 28"
  by (simp add: DirEntry_new_zeros_def NAME_LENGTH_LIMIT_def)

lemma find_inode_id_spec:
  assumes f: "holds_file d H di bs" and "dir_ok bs" and "is_dir di"
  shows "run (find_inode_id name di) H d = Ok (map_of (dir_list bs) name, d)"
  using find_loop_spec [OF assms(1,2) _ DirEntry_new_zeros_name] assms(3) holds_file_length [OF f]
  by (simp add: find_inode_id_def run_simps dir_list_def lessThan_atLeast0)

lemma holds_file_on:
  assumes inv: "fs_inv_on fs F I d" and F: "F ino = Some L" and H: "inode_locks fs S H" "bm_used (data_bitmap fs) d \<subseteq> S"
  shows "holds_file d H (I ino) (fa_bytes (file_of d (I ino) L))"
proof -
  note D = fs_inv_onD [OF inv]
  have "room H (set L)" by (rule file_room [OF inv F H])
  then show ?thesis using D(2) D(5) [OF F] by (auto simp: holds_file_def file_of_def)
qed

definition directory :: "file_abs \<Rightarrow> bool" where
  "directory a = (fa_type a = Directory \<and> dir_ok (fa_bytes a))"

lemma find_in_root_held:
  assumes inv: "fs_inv fs F d" and a: "files fs F d ino = Some a" and dir: "directory a"
    and H: "clear_of fs S H" "bm_used (data_bitmap fs) d \<subseteq> S"
  shows "run (find_in_root name (inode_of fs ino)) H d = Ok (map_of (dir_list (fa_bytes a)) name, d)"
    and "run (find_inode_id name (inode_at d fs ino)) (iblock fs ino # H) d = Ok (map_of (dir_list (fa_bytes a)) name, d)"
proof -
  obtain L where F: "F ino = Some L" and aL: "a = file_of d (inode_at d fs ino) L" using a by (auto simp: files_eq_Some)
  note ino = fs_invD(3) [OF inv F]
  have h: "holds_file d (iblock fs ino # H) (inode_at d fs ino) (fa_bytes a)" unfolding aL
    by (rule holds_file_on [OF inv [unfolded fs_inv_def] F clear_ofD(4) [OF H(1) ino] H(2)])
  have isd: "is_dir (inode_at d fs ino)" using dir by (simp add: directory_def aL file_of_def is_dir_def)
  show *: "run (find_inode_id name (inode_at d fs ino)) (iblock fs ino # H) d = Ok (map_of (dir_list (fa_bytes a)) name, d)"
    using find_inode_id_spec [OF h _ isd] dir by (simp add: directory_def)
  show "run (find_in_root name (inode_of fs ino)) H d = Ok (map_of (dir_list (fa_bytes a)) name, d)"
    using * isd clear_ofD(2) [OF H(1) ino] clear_ofD(3) [OF H(1)] by (simp add: find_in_root_def run_read_disk_inode run_simps)
qed

lemma find_in_root_spec:
  assumes "fs_inv fs F d" and "files fs F d ino = Some a" and "directory a"
  shows "run (find_in_root name (inode_of fs ino)) [] d = Ok (map_of (dir_list (fa_bytes a)) name, d)"
    and "run (find_inode_id name (inode_at d fs ino)) [iblock fs ino] d = Ok (map_of (dir_list (fa_bytes a)) name, d)"
  using find_in_root_held [OF assms clear_of_Nil subset_UNIV] by simp_all

lemma inode_of_number:
  assumes "fs_ok fs" and "in_area fs (unat n)"
  shows "(case get_disk_inode_pos n fs of (b, off) \<Rightarrow> Inode_new b off) = inode_of fs (unat n)"
  using inode_of_pos [OF assms] by simp

lemma vfs_find_spec:
  assumes inv: "fs_inv fs F d" and a: "files fs F d ino = Some a" and dir: "directory a"
    and ino: "\<And>n. map_of (dir_list (fa_bytes a)) name = Some n \<Longrightarrow> in_area fs (unat n)"
  shows "run (vfs_find name fs (inode_of fs ino)) [] d =
    Ok (map_option (\<lambda>n. inode_of fs (unat n)) (map_of (dir_list (fa_bytes a)) name), d)"
  using find_in_root_spec(2) [OF inv a dir] inode_of_number [OF fs_invD(1) [OF inv] ino]
  by (cases "map_of (dir_list (fa_bytes a)) name")
     (simp_all add: vfs_find_def run_read_disk_inode BLOCK_CACHE_MAX_NUM_def run_simps)

lemma vfs_ls_held:
  assumes inv: "fs_inv fs F d" and a: "files fs F d ino = Some a" and ok: "dir_ok (fa_bytes a)"
    and H: "clear_of fs S H" "bm_used (data_bitmap fs) d \<subseteq> S"
  shows "run (vfs_ls (inode_of fs ino)) H d = Ok (map fst (dir_list (fa_bytes a)), d)"
proof -
  obtain L where F: "F ino = Some L" and aL: "a = file_of d (inode_at d fs ino) L" using a by (auto simp: files_eq_Some)
  let ?di = "inode_at d fs ino" and ?bs = "fa_bytes a"
  note ino = fs_invD(3) [OF inv F]
  have h: "holds_file d (iblock fs ino # H) ?di ?bs" unfolding aL
    by (rule holds_file_on [OF inv [unfolded fs_inv_def] F clear_ofD(4) [OF H(1) ino] H(2)])
  define g where "g = (\<lambda>i v. bind_prog (read_dirent i DirEntry_new_zeros ?di) (\<lambda>dirent.
         bind_prog (lift_res (dirent_name dirent)) (\<lambda>nm. Done (v @ [nm]))))"
  have "run (fold_prog g ns v) (iblock fs ino # H) d = Ok (v @ map (\<lambda>i. name_of (dirent_at ?bs i)) ns, d)"
    if "set ns \<subseteq> {..<length ?bs div DIRENT_SZ}" for ns v
    using that
  proof (induction ns arbitrary: v)
    case (Cons i ns)
    then have i: "i < length ?bs div DIRENT_SZ" by simp
    then obtain nm where "dirent_name (dirent_at ?bs i) = Ok nm" using ok by (auto simp: dir_ok_def is_ok_iff)
    then have "run (g i v) (iblock fs ino # H) d = Ok (v @ [name_of (dirent_at ?bs i)], d)"
      using read_dirent_spec [OF h i DirEntry_new_zeros_name] by (simp add: g_def run_simps name_of_def)
    then show ?case using Cons by (simp add: run_simps)
  qed (simp add: run_simps)
  from this [of "[0..<length ?bs div DIRENT_SZ]" "[]"] show ?thesis
    using holds_file_length [OF h] clear_ofD(2) [OF H(1) ino] clear_ofD(3) [OF H(1)]
    by (simp add: vfs_ls_def run_read_disk_inode g_def dir_list_def comp_def lessThan_atLeast0)
qed

lemma vfs_ls_spec:
  assumes "fs_inv fs F d" and "files fs F d ino = Some a" and "dir_ok (fa_bytes a)"
  shows "run (vfs_ls (inode_of fs ino)) [] d = Ok (map fst (dir_list (fa_bytes a)), d)"
  by (rule vfs_ls_held [OF assms clear_of_Nil subset_UNIV])

section \<open>Appending an entry\<close>

lemma write_bytes_end: "write_bytes (length bs) buf bs = bs @ buf"
  by (simp add: write_bytes_def patch_def extend_def)

lemma append_dirent_held:
  assumes inv: "fs_inv fs F d" and a: "files fs F d ino = Some a" and dir: "directory a"
    and de: "length (de_name de) = 28" and sz: "length (fa_bytes a) + DIRENT_SZ \<le> 512 * MAX_DATA"
    and free: "need (length (fa_bytes a)) (length (fa_bytes a) + DIRENT_SZ) \<le> card (free_data fs d)"
    and H: "clear_of fs S H" and S: "first_bits fs (need (length (fa_bytes a)) (length (fa_bytes a) + DIRENT_SZ)) d \<subseteq> S"
  shows "\<exists>F' d'. run (modify_disk_inode (inode_of fs ino) (append_dirent (Ok de) fs)) H d = Ok ((), d') \<and> fs_inv fs F' d' \<and>
    files fs F' d' = (files fs F d)(ino \<mapsto> a\<lparr>fa_bytes := fa_bytes a @ as_bytes de\<rparr>) \<and>
    bm_used (data_bitmap fs) d' \<subseteq> first_bits fs (need (length (fa_bytes a)) (length (fa_bytes a) + DIRENT_SZ)) d"
proof -
  let ?I = "inode_at d fs"
  obtain L where F: "F ino = Some L" and aL: "a = file_of d (?I ino) L" using a by (auto simp: files_eq_Some)
  note D = fs_invD [OF inv]
  define n where "n = unat (di_size (?I ino))"
  have n: "n div DIRENT_SZ * DIRENT_SZ = n" using dir by (auto simp: directory_def dir_ok_def aL n_def)
  have len: "length (as_bytes de) = DIRENT_SZ" by (rule length_as_bytes [OF de])
  then have ne: "as_bytes de \<noteq> []" by (auto simp: DIRENT_SZ_def)
  have small: "n + DIRENT_SZ < 2 ^ 32" using sz by (simp add: aL n_def MAX_DATA_def DIRENT_SZ_def)
  then have u: "unat (of_nat (n + DIRENT_SZ) :: u32) = unat (of_nat n :: usize) + length (as_bytes de)" "unat (of_nat n :: usize) = n"
    using len by (simp_all add: unat_of_nat take_bit_eq_mod del: of_nat_add)
  have lim: "unat (of_nat (n + DIRENT_SZ) :: u32) \<le> 512 * MAX_DATA" "need (unat (di_size (?I ino))) (unat (of_nat (n + DIRENT_SZ) :: u32)) \<le> card (free_data fs d)"
    "first_bits fs (need (unat (di_size (?I ino))) (unat (of_nat (n + DIRENT_SZ) :: u32))) d \<subseteq> S"
    using u len sz free S by (simp_all add: aL n_def del: of_nat_add)
  from grow_write_spec [OF inv [unfolded fs_inv_def] F ne u(1) lim(1,2) H lim(3)] obtain di L' d1 d2 where
    g: "run (vfs_increase_size (of_nat (n + DIRENT_SZ)) fs (?I ino)) (iblock fs ino # H) d = Ok (di, d1)"
      "run (di_write_at (of_nat n) (as_bytes de) di) (iblock fs ino # H) d1 = Ok (length (as_bytes de), d2)" "data_only fs d d2"
      "fs_inv_on fs (F(ino \<mapsto> L')) (?I(ino := di)) d2"
      "files_on (F(ino \<mapsto> L')) (?I(ino := di)) d2 = (files fs F d)(ino \<mapsto> a\<lparr>fa_bytes := write_bytes n (as_bytes de) (fa_bytes a)\<rparr>)"
    and used: "bm_used (data_bitmap fs) d2 \<subseteq> first_bits fs (need (unat (di_size (?I ino))) (unat (of_nat (n + DIRENT_SZ) :: u32))) d"
    unfolding aL files_def u(2) by blast
  have new: "(n div DIRENT_SZ + 1) * DIRENT_SZ = n + DIRENT_SZ" using n by simp
  have run: "run (append_dirent (Ok de) fs (?I ino)) (iblock fs ino # H) d = Ok ((di, ()), d2)"
    unfolding append_dirent_def Let_def n_def [symmetric] new n using g(1,2) by (simp add: run_simps)
  have F1: "(F(ino \<mapsto> L')) ino = Some L'" by simp
  have wb: "write_bytes n (as_bytes de) (fa_bytes a) = fa_bytes a @ as_bytes de"
    using write_bytes_end [of "fa_bytes a"] by (simp add: aL n_def)
  have used': "bm_used (data_bitmap fs) d2 \<subseteq> first_bits fs (need (length (fa_bytes a)) (length (fa_bytes a) + DIRENT_SZ)) d"
    using used u len by (simp add: aL n_def del: of_nat_add)
  from modify_inode_spec [of fs d ino S H "append_dirent (Ok de) fs", OF D(1,2) D(3) [OF F] H run g(3,4) F1] used' show ?thesis
    unfolding g(5) wb by metis
qed

lemma append_dirent_spec:
  assumes "fs_inv fs F d" and "files fs F d ino = Some a" and "directory a"
    and "length (de_name de) = 28" and "length (fa_bytes a) + DIRENT_SZ \<le> 512 * MAX_DATA"
    and "need (length (fa_bytes a)) (length (fa_bytes a) + DIRENT_SZ) \<le> card (free_data fs d)"
  shows "\<exists>F' d'. run (modify_disk_inode (inode_of fs ino) (append_dirent (Ok de) fs)) [] d = Ok ((), d') \<and> fs_inv fs F' d' \<and>
    files fs F' d' = (files fs F d)(ino \<mapsto> a\<lparr>fa_bytes := fa_bytes a @ as_bytes de\<rparr>)"
  using append_dirent_held [OF assms clear_of_Nil subset_UNIV] by blast

end
