(* ===== verification/FsLink.thy ===== *)
theory FsLink
  imports FsDir
begin

text \<open>Creating files, and links: \<^verbatim>\<open>create\<close>, \<^verbatim>\<open>linkat\<close> and \<^verbatim>\<open>unlinkat\<close> on the abstract state.\<close>

section \<open>Free blocks\<close>

text \<open>The number of free data blocks is a function of the abstract state.\<close>

definition used_blocks :: "(nat \<rightharpoonup> file_abs) \<Rightarrow> nat" where
  "used_blocks A = (\<Sum>ino \<in> dom A. tot (nblk (length (fa_bytes (the (A ino))))))"

definition free_blocks :: "EasyFileSystem \<Rightarrow> (nat \<rightharpoonup> file_abs) \<Rightarrow> nat" where
  "free_blocks fs A = unat (bm_blocks (data_bitmap fs)) * BLOCK_BITS - used_blocks A"

lemma dom_files [simp]: "dom (files fs F d) = dom F"
  by (auto simp: files_def files_on_def dom_def)

lemma finite_dom_files: "fs_inv fs F d \<Longrightarrow> finite (dom F)"
  using fs_inv_onD(3) [of fs F "inode_at d fs" d] by (simp add: fs_inv_def)

lemma card_used:
  assumes inv: "fs_inv fs F d"
  shows "card (bm_used (data_bitmap fs) d) = used_blocks (files fs F d)"
proof -
  note inv' = inv [unfolded fs_inv_def] and D = fs_inv_onD [OF inv [unfolded fs_inv_def]]
  have "inj_on (dblock fs) (bm_used (data_bitmap fs) d)" using dblock_inj [OF D(1)] used_in_pool by (auto intro!: inj_onI)
  then have "card (bm_used (data_bitmap fs) d) = card (\<Union>L \<in> ran F. set L)" unfolding D(7) by (simp add: card_image)
  also have "(\<Union>L \<in> ran F. set L) = (\<Union>ino \<in> dom F. set (the (F ino)))" by (force simp: ran_def)
  also have "card \<dots> = (\<Sum>ino \<in> dom F. card (set (the (F ino))))"
  proof (rule card_UN_disjoint)
    show "\<forall>i \<in> dom F. \<forall>j \<in> dom F. i \<noteq> j \<longrightarrow> set (the (F i)) \<inter> set (the (F j)) = {}" using D(6) by fastforce
  qed (simp_all add: finite_dom_files [OF inv])
  also have "\<dots> = used_blocks (files fs F d)" unfolding used_blocks_def dom_files
  proof (rule sum.cong)
    fix ino assume "ino \<in> dom F"
    then obtain L where L: "F ino = Some L" by blast
    show "card (set (the (F ino))) = tot (nblk (length (fa_bytes (the (files fs F d ino)))))"
      using file_okD(2,3) [OF D(5) [OF L]] L by (simp add: files_def files_on_def distinct_card)
  qed simp
  finally show ?thesis .
qed

lemma card_free:
  assumes "fs_inv fs F d"
  shows "card (free_data fs d) = free_blocks fs (files fs F d)"
    and "used_blocks (files fs F d) \<le> unat (bm_blocks (data_bitmap fs)) * BLOCK_BITS"
proof -
  have c: "card (data_pool fs) = unat (bm_blocks (data_bitmap fs)) * BLOCK_BITS" and "finite (data_pool fs)"
    by (simp_all add: data_pool_def bm_pool_def)
  then show "used_blocks (files fs F d) \<le> unat (bm_blocks (data_bitmap fs)) * BLOCK_BITS"
    using card_mono [OF _ used_subset, of fs d] card_used [OF assms] by simp
  have "card (free_data fs d) = card (data_pool fs) - card (bm_used (data_bitmap fs) d)"
    unfolding free_data_def by (intro card_Diff_subset used_subset) simp
  then show "card (free_data fs d) = free_blocks fs (files fs F d)" unfolding c card_used [OF assms] free_blocks_def .
qed

lemma used_blocks_upd:
  assumes "finite (dom A)" and "A ino = Some f"
  shows "used_blocks (A(ino \<mapsto> g)) + tot (nblk (length (fa_bytes f))) = used_blocks A + tot (nblk (length (fa_bytes g)))"
proof -
  let ?h = "\<lambda>A k. tot (nblk (length (fa_bytes (the (A k)))))"
  have ino: "ino \<in> dom A" "dom (A(ino \<mapsto> g)) = dom A" using assms(2) by auto
  have "used_blocks A = ?h A ino + (\<Sum>k \<in> dom A - {ino}. ?h A k)"
    unfolding used_blocks_def by (rule sum.remove [OF assms(1) ino(1)])
  moreover have "used_blocks (A(ino \<mapsto> g)) = ?h (A(ino \<mapsto> g)) ino + (\<Sum>k \<in> dom A - {ino}. ?h (A(ino \<mapsto> g)) k)"
    unfolding used_blocks_def ino(2) by (rule sum.remove [OF assms(1) ino(1)])
  moreover have "(\<Sum>k \<in> dom A - {ino}. ?h (A(ino \<mapsto> g)) k) = (\<Sum>k \<in> dom A - {ino}. ?h A k)" by (rule sum.cong) auto
  ultimately show ?thesis using assms(2) by simp
qed

definition new_file :: "DiskInodeType \<Rightarrow> file_abs" where
  "new_file t = \<lparr>fa_bytes = [], fa_nlink = 1, fa_type = t\<rparr>"

lemma used_blocks_new: "\<lbrakk>finite (dom A); A i = None\<rbrakk> \<Longrightarrow> used_blocks (A(i \<mapsto> new_file t)) = used_blocks A"
proof -
  assume "finite (dom A)" "A i = None"
  moreover then have "i \<notin> dom A" by auto
  moreover have "(\<Sum>ino \<in> dom A. tot (nblk (length (fa_bytes (the ((A(i \<mapsto> new_file t)) ino)))))) = used_blocks A"
    unfolding used_blocks_def using \<open>i \<notin> dom A\<close> by (intro sum.cong) auto
  ultimately show ?thesis by (simp add: used_blocks_def new_file_def tot_def nblk_def)
qed

section \<open>Changing the number of links\<close>

lemma meta_spec:
  assumes inv: "fs_inv fs F d" and a: "files fs F d ino = Some a"
    and g: "\<And>di. g di = di\<lparr>nlink := h (nlink di)\<rparr>"
  shows "\<exists>d'. run (modify_disk_inode (inode_of fs ino) (\<lambda>di. Done (g di, ()))) [] d = Ok ((), d') \<and> fs_inv fs F d' \<and>
    files fs F d' = (files fs F d)(ino \<mapsto> a\<lparr>fa_nlink := h (fa_nlink a)\<rparr>)"
proof -
  let ?I = "inode_at d fs" and ?di = "g (inode_at d fs ino)"
  obtain L where F: "F ino = Some L" and aL: "a = file_of d (?I ino) L" using a by (auto simp: files_eq_Some)
  note D = fs_invD [OF inv] and inv' = inv [unfolded fs_inv_def]
  have m: "file_ok d ?di ino L" using D(4) [OF F] by (simp add: g file_ok_def maps_def)
  have ok: "file_ok d ((?I(ino := ?di)) k) k M" if "F k = Some M" for k M
    using that m F fs_inv_onD(5) [OF inv' that] by (cases "k = ino") auto
  have new: "fs_inv_on fs F (?I(ino := ?di)) d" unfolding fs_inv_on_def
    using fs_inv_onD [OF inv'] ok by (intro conjI allI ballI impI) auto
  have fin: "files_on F (?I(ino := ?di)) d = (files fs F d)(ino \<mapsto> a\<lparr>fa_nlink := h (fa_nlink a)\<rparr>)"
    using F by (auto simp: files_on_def files_def aL g file_of_def)
  have run: "run ((\<lambda>di. Done (g di, ())) (?I ino)) [iblock fs ino] d = Ok ((?di, ()), d)" by (simp add: run_simps)
  from modify_inode_spec [of fs d ino UNIV "[]" "\<lambda>di. Done (g di, ())", OF D(1,2) D(3) [OF F] clear_of_Nil run data_only_refl new F] show ?thesis
    unfolding fin by blast
qed

section \<open>Creating a file\<close>

lemma alloc_inode_held:
  assumes inv: "fs_inv fs F d" and i: "i \<in> bm_pool (inode_bitmap fs)" "i \<notin> dom F" "\<And>j. j < i \<Longrightarrow> j \<in> dom F"
    and H: "clear_of fs S H"
  shows "\<exists>d'. run (alloc_inode fs) H d = Ok (of_nat i, d') \<and> dev_ok d' \<and>
    bm_used (inode_bitmap fs) d' = insert i (bm_used (inode_bitmap fs) d) \<and>
    (\<forall>b. b \<notin> bm_region (inode_bitmap fs) \<longrightarrow> d' b = d b)"
proof -
  note inv' = inv [unfolded fs_inv_def]
  have dom: "dom F = bm_used (inode_bitmap fs) d" by (rule fs_inv_onD(3) [OF inv'])
  note l = inode_locks_apart [OF fs_invD(1) [OF inv] clear_ofD(1) [OF H]]
  have ne: "bm_used (inode_bitmap fs) d \<noteq> bm_pool (inode_bitmap fs)" using i(1,2) dom by blast
  obtain k d' where k: "run (bm_alloc (inode_bitmap fs)) H d = Ok (Some k, d')" "dev_ok d'" "k \<notin> bm_used (inode_bitmap fs) d"
      "bm_used (inode_bitmap fs) d' = insert k (bm_used (inode_bitmap fs) d)"
    and min: "\<forall>j < k. j \<in> bm_used (inode_bitmap fs) d" and out: "\<forall>b. b \<notin> bm_region (inode_bitmap fs) \<longrightarrow> d' b = d b"
    using bm_alloc_spec [OF fs_inv_onD(2) [OF inv'] l(3,2)] ne by auto
  have "k = i" using k(3) min i(2,3) unfolding dom by (meson linorder_less_linear)
  then show ?thesis using k out by (intro exI [of _ d']) (simp add: alloc_inode_def run_simps)
qed

lemmas alloc_inode_spec = alloc_inode_held [OF _ _ _ _ clear_of_Nil]

lemma init_inode_held:
  assumes inv: "fs_inv fs F d" and i: "F i = None" "in_area fs i"
    and d1: "dev_ok d1" "bm_used (inode_bitmap fs) d1 = insert i (bm_used (inode_bitmap fs) d)"
      "\<And>b. b \<notin> bm_region (inode_bitmap fs) \<Longrightarrow> d1 b = d b"
    and H: "clear_of fs S H"
  shows "\<exists>d'. run (modify_disk_inode (inode_of fs i) (\<lambda>di. Done (DiskInode_initialize (of_nat i) t di, ()))) H d1 = Ok ((), d') \<and>
    bm_used (data_bitmap fs) d' = bm_used (data_bitmap fs) d \<and>
    fs_inv fs (F(i \<mapsto> [])) d' \<and> files fs (F(i \<mapsto> [])) d' = (files fs F d)(i \<mapsto> new_file t) \<and>
    (\<forall>x. x \<noteq> iblock fs i \<longrightarrow> d' x = d1 x)"
proof -
  note inv' = inv [unfolded fs_inv_def] and D = fs_invD [OF inv]
  let ?I = "inode_at d fs" and ?di = "DiskInode_initialize (of_nat i) t (inode_at d1 fs i)"
  have same: "inode_at d1 fs k = ?I k" if "in_area fs k" for k
    using d1(3) [OF regions_apart(2) [OF D(1) that]] by (simp add: inode_at_def)
  have used: "bm_used (data_bitmap fs) d1 = bm_used (data_bitmap fs) d"
    using d1(3) regions_apart(6) [OF D(1)] by (intro bm_used_cong) blast
  have ex: "[] = (case F i of Some L \<Rightarrow> L | None \<Rightarrow> [])" using i(1) by simp
  have ok: "file_ok d1 ?di i []"
    using length_direct_inode_at [OF d1(1)] by (simp add: file_ok_def DiskInode_initialize_def maps_def nblk_def tot_def)
  have bits: "bm_used (data_bitmap fs) d1 =
      {k \<in> data_pool fs. dblock fs k \<in> set [] \<or> (k \<in> bm_used (data_bitmap fs) d \<and> dblock fs k \<notin> set [])}"
    unfolding used using used_in_pool by auto
  have new: "fs_inv_on fs (F(i \<mapsto> [])) (?I(i := ?di)) d1"
    "files_on (F(i \<mapsto> [])) (?I(i := ?di)) d1 = (files_on F ?I d)(i \<mapsto> file_of d1 ?di [])"
    using fs_inv_upd [OF inv' ex i(2) ok d1(1) _ bits d1(2)] d1(3) by simp_all
  have dom: "(?I(i := ?di)) k = ((inode_at d1 fs)(i := ?di)) k" if "k \<in> dom (F(i \<mapsto> []))" for k
    using same fs_inv_onD(4) [OF new(1)] that by (metis domD fun_upd_apply)
  have fof: "file_of d1 ?di [] = new_file t" by (simp add: file_of_def DiskInode_initialize_def contents_def new_file_def)
  have on: "fs_inv_on fs (F(i \<mapsto> [])) ((inode_at d1 fs)(i := ?di)) d1"
    "files_on (F(i \<mapsto> [])) ((inode_at d1 fs)(i := ?di)) d1 = (files fs F d)(i \<mapsto> new_file t)"
    using fs_inv_on_cong [OF new(1) d1(1), of "(inode_at d1 fs)(i := ?di)"] dom new(2) fof by (simp_all add: files_def)
  let ?f = "\<lambda>di. Done (DiskInode_initialize (of_nat i) t di, ())"
  have run: "run (?f (inode_at d1 fs i)) (iblock fs i # H) d1 = Ok ((?di, ()), d1)" by (simp add: run_simps)
  have F1: "(F(i \<mapsto> [])) i = Some []" by simp
  from modify_inode_spec [of fs d1 i S H ?f, OF D(1) d1(1) i(2) H run data_only_refl on(1) F1] show ?thesis
    unfolding on(2) used by blast
qed

lemmas init_inode_spec = init_inode_held [OF _ _ _ _ _ _ clear_of_Nil]

lemma vfs_create_exists:
  assumes "fs_inv fs F d" and "files fs F d ino = Some a" and "directory a" and "map_of (dir_list (fa_bytes a)) name = Some n"
  shows "run (vfs_create name fs (inode_of fs ino)) [] d = Ok (None, d)"
  using find_in_root_spec(1) [OF assms(1-3), of name] assms(4)
  unfolding vfs_create_def find_in_root_def by (simp add: run_simps)

lemma vfs_create_spec:
  assumes inv: "fs_inv fs F d" and a: "files fs F d ino = Some a" and dir: "directory a"
    and nm: "good_name name" "map_of (dir_list (fa_bytes a)) name = None"
    and i: "i \<in> bm_pool (inode_bitmap fs)" "files fs F d i = None" "\<And>j. j < i \<Longrightarrow> files fs F d j \<noteq> None" "in_area fs i"
    and sz: "length (fa_bytes a) + DIRENT_SZ \<le> 512 * MAX_DATA"
    and free: "need (length (fa_bytes a)) (length (fa_bytes a) + DIRENT_SZ) \<le> free_blocks fs (files fs F d)"
  shows "\<exists>de F' d'. DirEntry_new name (of_nat i) = Ok de \<and>
    run (vfs_create name fs (inode_of fs ino)) [] d = Ok (Some (inode_of fs i), d') \<and> fs_inv fs F' d' \<and>
    files fs F' d' = (files fs F d)(i \<mapsto> new_file File, ino \<mapsto> a\<lparr>fa_bytes := fa_bytes a @ as_bytes de\<rparr>)"
proof -
  note D = fs_invD [OF inv]
  let ?A = "files fs F d"
  have Fi: "F i = None" "i \<notin> dom F" "\<And>j. j < i \<Longrightarrow> j \<in> dom F" using i(2,3) dom_files [of fs F d] by blast+
  obtain de where de: "DirEntry_new name (of_nat i) = Ok de" "length (de_name de) = 28"
    using DirEntry_new_good [OF nm(1)] by blast
  obtain d1 where d1: "run (alloc_inode fs) [] d = Ok (of_nat i, d1)" "dev_ok d1"
      "bm_used (inode_bitmap fs) d1 = insert i (bm_used (inode_bitmap fs) d)"
      "\<And>b. b \<notin> bm_region (inode_bitmap fs) \<Longrightarrow> d1 b = d b"
    using alloc_inode_spec [OF inv i(1) Fi(2,3)] by blast
  obtain d2 where d2: "run (modify_disk_inode (inode_of fs i) (\<lambda>di. Done (DiskInode_initialize (of_nat i) File di, ()))) [] d1 = Ok ((), d2)"
      "fs_inv fs (F(i \<mapsto> [])) d2" "files fs (F(i \<mapsto> [])) d2 = ?A(i \<mapsto> new_file File)"
    using init_inode_spec [OF inv Fi(1) i(4) d1(2-4)] by blast
  have ne: "ino \<noteq> i" using a i(2) by auto
  have a2: "files fs (F(i \<mapsto> [])) d2 ino = Some a" using d2(3) a ne by simp
  have fr: "need (length (fa_bytes a)) (length (fa_bytes a) + DIRENT_SZ) \<le> card (free_data fs d2)"
    using free used_blocks_new [of "files fs F d" i File] i(2) finite_dom_files [OF inv]
    unfolding card_free(1) [OF d2(2)] d2(3) by (simp add: free_blocks_def)
  obtain F' d3 where d3: "run (modify_disk_inode (inode_of fs ino) (append_dirent (Ok de) fs)) [] d2 = Ok ((), d3)" "fs_inv fs F' d3"
      "files fs F' d3 = ?A(i \<mapsto> new_file File, ino \<mapsto> a\<lparr>fa_bytes := fa_bytes a @ as_bytes de\<rparr>)"
    using append_dirent_spec [OF d2(2) a2 dir de(2) sz fr] unfolding d2(3) by blast
  define b off where "b = fst (get_disk_inode_pos (of_nat i) fs)" and "off = snd (get_disk_inode_pos (of_nat i) fs)"
  have pos: "get_disk_inode_pos (of_nat i) fs = (b, off)" by (simp add: b_def off_def)
  have new: "Inode_new b off = inode_of fs i" using inode_of_pos [OF D(1) i(4)] by (simp add: pos)
  have upd: "modify_disk_inode (inode_of fs i) (\<lambda>di. Done (DiskInode_initialize (of_nat i) File di, ())) =
      block_modify (ucast b) off INODE_SZ (\<lambda>bytes. Done (encode_inode (DiskInode_initialize (of_nat i) File (decode_inode bytes)) bytes, ()))"
    unfolding new [symmetric] by (simp add: modify_disk_inode_def Inode_new_def)
  have "run (vfs_create name fs (inode_of fs ino)) [] d = Ok (Some (inode_of fs i), d3)"
    using find_in_root_spec(1) [OF inv a dir, of name] nm(2) d1(1) d2(1) d3(1) de(1)
    unfolding vfs_create_def find_in_root_def upd by (simp add: run_simps pos new)
  then show ?thesis using de(1) d3(2,3) by blast
qed

section \<open>Linking\<close>

lemma vfs_linkat_spec:
  assumes inv: "fs_inv fs F d" and a: "files fs F d ino = Some a" and dir: "directory a"
    and old: "map_of (dir_list (fa_bytes a)) oldpath = Some n" "files fs F d (unat n) = Some b" "fa_type b = File"
    and nm: "good_name newpath" "map_of (dir_list (fa_bytes a)) newpath = None"
    and sz: "length (fa_bytes a) + DIRENT_SZ \<le> 512 * MAX_DATA"
    and free: "need (length (fa_bytes a)) (length (fa_bytes a) + DIRENT_SZ) \<le> free_blocks fs (files fs F d)"
  shows "\<exists>de F' d'. DirEntry_new newpath n = Ok de \<and> run (vfs_linkat oldpath newpath 0 fs (inode_of fs ino)) [] d = Ok (0, d') \<and>
    fs_inv fs F' d' \<and> files fs F' d' = (files fs F d)
      (unat n \<mapsto> b\<lparr>fa_nlink := fa_nlink b + 1\<rparr>, ino \<mapsto> a\<lparr>fa_bytes := fa_bytes a @ as_bytes de\<rparr>)"
proof -
  note D = fs_invD [OF inv]
  let ?A = "files fs F d" and ?b = "b\<lparr>fa_nlink := fa_nlink b + 1\<rparr>"
  obtain Lb where Fb: "F (unat n) = Some Lb" "b = file_of d (inode_at d fs (unat n)) Lb" using old(2) by (auto simp: files_eq_Some)
  have area: "in_area fs (unat n)" by (rule D(3) [OF Fb(1)])
  have ne: "unat n \<noteq> ino" using dir old(2,3) a by (auto simp: directory_def)
  obtain de where de: "DirEntry_new newpath n = Ok de" "length (de_name de) = 28" using DirEntry_new_good [OF nm(1)] by blast
  have find: "run (vfs_find oldpath fs (inode_of fs ino)) [] d = Ok (Some (inode_of fs (unat n)), d)"
    using vfs_find_spec [OF inv a dir, of oldpath] old(1) area by simp
  have isf: "run (read_disk_inode (inode_of fs (unat n)) (\<lambda>di. lift_res (assert_that (is_file di)))) [] d = Ok ((), d)"
    using old(3) Fb(2) by (simp add: run_read_disk_inode BLOCK_CACHE_MAX_NUM_def file_of_def is_file_def run_simps)
  obtain d1 where d1: "run (modify_disk_inode (inode_of fs (unat n)) (\<lambda>di. Done (inc_nlink di, ()))) [] d = Ok ((), d1)" "fs_inv fs F d1"
      "files fs F d1 = ?A(unat n \<mapsto> ?b)"
    using meta_spec [OF inv old(2), of inc_nlink "\<lambda>k. k + 1"] by (auto simp: inc_nlink_def)
  have a1: "files fs F d1 ino = Some a" using d1(3) a ne by simp
  have ub: "used_blocks (?A(unat n \<mapsto> ?b)) = used_blocks ?A"
    using used_blocks_upd [of ?A "unat n" b ?b] old(2) finite_dom_files [OF inv] by simp
  have fr: "need (length (fa_bytes a)) (length (fa_bytes a) + DIRENT_SZ) \<le> card (free_data fs d1)"
    using free ub unfolding card_free(1) [OF d1(2)] d1(3) free_blocks_def by simp
  obtain F' d2 where d2: "run (modify_disk_inode (inode_of fs ino) (append_dirent (Ok de) fs)) [] d1 = Ok ((), d2)" "fs_inv fs F' d2"
      "files fs F' d2 = ?A(unat n \<mapsto> ?b, ino \<mapsto> a\<lparr>fa_bytes := fa_bytes a @ as_bytes de\<rparr>)"
    using append_dirent_spec [OF d1(2) a1 dir de(2) sz fr] unfolding d1(3) by blast
  have "run (vfs_linkat oldpath newpath 0 fs (inode_of fs ino)) [] d = Ok (0, d2)"
    using find_in_root_spec(1) [OF inv a dir] nm(2) old(1) find isf d1(1) de(1) d2(1)
    unfolding vfs_linkat_def by (simp add: run_simps)
  then show ?thesis using de(1) d2(2,3) by blast
qed

section \<open>Unlinking\<close>

text \<open>A device is given by the bytes of a file and its other blocks.\<close>

lemma device_eqI:
  assumes d: "dev_ok d" "dev_ok d'" and out: "\<And>b. b \<notin> ucast ` data_set L n \<Longrightarrow> d' b = d b"
    and fb: "\<And>j. j < 512 * n \<Longrightarrow> fbyte d' L j = fbyte d L j"
  shows "d' = d"
proof
  fix x
  show "d' x = d x"
  proof (cases "x \<in> ucast ` data_set L n")
    case True
    then obtain k where k: "k < n" "x = ucast (L ! dpos k)" by (auto simp: data_set_def)
    show ?thesis
    proof (rule nth_equalityI)
      show "length (d' x) = length (d x)" using d by simp
      fix m assume "m < length (d' x)"
      then have m: "m < 512" using d(2) by (simp add: BLOCK_SZ_def)
      then have "512 * k + m < 512 * n" using k(1) by simp
      from fb [OF this] show "d' x ! m = d x ! m" using m by (simp add: fbyte_def k(2))
    qed
  qed (rule out)
qed

lemma write_past_end:
  assumes inv: "fs_inv_on fs F I d" and F: "F ino = Some L" and H: "inode_locks fs UNIV H"
    and s: "unat (di_size (I ino)) mod 512 \<noteq> 0" and buf: "length buf < 2 ^ 32"
  shows "run (di_write_at (of_nat (unat (di_size (I ino)))) buf (I ino)) H d = Ok (0, d)"
proof -
  let ?s = "unat (di_size (I ino))"
  note D = fs_inv_onD [OF inv]
  note fd = file_okD [OF D(5) [OF F]]
  have rm: "room H (set L)" by (rule file_room [OF inv F H subset_UNIV])
  have lt: "?s < 512 * nblk ?s" using s nblk_ge [of ?s] by (metis le_neq_implies_less mod_mult_self1_is_0)
  have "\<not> (?s \<le> j \<and> j < ?s)" for j by simp
  then obtain d' where w: "run (write_loop (I ino) ?s ?s (?s div 512) 0 buf) H d = Ok (0, d')" "dev_ok d'"
      "\<forall>b. b \<notin> ucast ` data_set L (nblk ?s) \<longrightarrow> d' b = d b" "\<forall>j < 512 * nblk ?s. fbyte d' L j = fbyte d L j"
    using write_loop_spec [OF _ fd(3) rm D(2) fd(1) le_refl lt, of 0 buf] lt fd(2) by (simp only: if_False) auto
  have "d' = d" using w(2,3,4) by (intro device_eqI [OF D(2), of d' L "nblk ?s"]) auto
  let ?off = "of_nat ?s :: usize" and ?fin = "min (of_nat ?s + of_nat (length buf)) (ucast (di_size (I ino))) :: usize"
  have us: "unat (ucast (di_size (I ino)) :: usize) = ?s" by (rule unat_ucast_32)
  have uo: "unat ?off = ?s" using us by simp
  have "unat (?off + of_nat (length buf)) = ?s + length buf"
    using uo buf unat_less_32 [of "di_size (I ino)"] by (subst unat_add_of_nat_64) simp_all
  then have f: "unat ?fin = ?s" by (simp add: min_def word_le_nat_alt us)
  then have "?off \<le> ?fin" using uo by (simp add: word_le_nat_alt)
  then have "run (di_write_at ?off buf (I ino)) H d = run (write_loop (I ino) (unat ?off) (unat ?fin) (unat ?off div 512) 0 buf) H d"
    unfolding di_write_at_def Let_def BLOCK_SZ_def by (simp add: run_simps)
  then show ?thesis unfolding uo f using w(1) \<open>d' = d\<close> by simp
qed

lemma unlink_loop_spec:
  assumes f: "holds_file d H di bs" and ok: "dir_ok bs" and "set ns \<subseteq> {..<length bs div DIRENT_SZ}" and "length (de_name de) = 28"
    and "path \<in> (\<lambda>i. name_of (dirent_at bs i)) ` set ns"
    and w: "run (di_write_at (of_nat (n * DIRENT_SZ)) (as_bytes DirEntry_new_zeros) di) H d = Ok (k, d)"
  shows "run (unlink_loop path di n ns de) H d = Ok (0, d)"
  using assms(3-5)
proof (induction ns arbitrary: de)
  case (Cons i ns)
  then have i: "i < length bs div DIRENT_SZ" by simp
  then obtain nm where nm: "dirent_name (dirent_at bs i) = Ok nm" using ok by (auto simp: dir_ok_def is_ok_iff)
  show ?case
    using read_dirent_spec [OF f i Cons.prems(2)] nm Cons.IH [OF _ length_de_name_at [OF i]] Cons.prems(1,3) w
    by (auto simp: run_simps name_of_def)
qed simp

text \<open>
  \<^verbatim>\<open>unlinkat\<close> of a name that is there returns 0 and takes one link off the file, but the directory is as it
  was: the entry of zeros is written past the end, where nothing is written.
\<close>

lemma vfs_unlinkat_spec:
  assumes inv: "fs_inv fs F d" and a: "files fs F d ino = Some a" and dir: "directory a"
    and old: "map_of (dir_list (fa_bytes a)) path = Some n" "files fs F d (unat n) = Some b"
    and sz: "length (fa_bytes a) mod 512 \<noteq> 0"
  shows "\<exists>d'. run (vfs_unlinkat path 0 fs (inode_of fs ino)) [] d = Ok (0, d') \<and> fs_inv fs F d' \<and>
    files fs F d' = (files fs F d)(unat n \<mapsto> b\<lparr>fa_nlink := fa_nlink b - 1\<rparr>)"
proof -
  note D = fs_invD [OF inv] and inv' = inv [unfolded fs_inv_def]
  let ?I = "inode_at d fs" and ?bs = "fa_bytes a"
  obtain L where F: "F ino = Some L" and aL: "a = file_of d (?I ino) L" using a by (auto simp: files_eq_Some)
  obtain Lb where Fb: "F (unat n) = Some Lb" using old(2) by (auto simp: files_eq_Some)
  have H: "inode_locks fs UNIV [iblock fs ino]" by (rule inode_locks_one [OF D(3) [OF F]])
  have h: "holds_file d [iblock fs ino] (?I ino) ?bs" unfolding aL by (rule holds_file_on [OF inv' F H subset_UNIV])
  have len: "length ?bs = unat (di_size (?I ino))" by (rule holds_file_length [OF h])
  have ok: "dir_ok ?bs" "length ?bs mod DIRENT_SZ = 0" using dir by (simp_all add: directory_def dir_ok_def)
  have m: "length ?bs div DIRENT_SZ * DIRENT_SZ = unat (di_size (?I ino))" using ok(2) len by auto
  have buf: "length (as_bytes DirEntry_new_zeros) < 2 ^ 32"
    using length_as_bytes [OF DirEntry_new_zeros_name] by (simp add: DIRENT_SZ_def)
  have w: "run (di_write_at (of_nat (length ?bs div DIRENT_SZ * DIRENT_SZ)) (as_bytes DirEntry_new_zeros) (?I ino)) [iblock fs ino] d = Ok (0, d)"
    unfolding m using write_past_end [OF inv' F H _ buf] sz len by simp
  have "path \<in> (\<lambda>i. name_of (dirent_at ?bs i)) ` set [0..<length ?bs div DIRENT_SZ]"
    using map_of_SomeD [OF old(1)] by (auto simp: dir_list_def)
  from unlink_loop_spec [OF h ok(1) _ DirEntry_new_zeros_name this w]
  have ul: "run (unlink_loop path (?I ino) (length ?bs div DIRENT_SZ) [0..<length ?bs div DIRENT_SZ] DirEntry_new_zeros) [iblock fs ino] d = Ok (0, d)"
    by (simp add: lessThan_atLeast0)
  define f where "f = (\<lambda>di. let file_count = unat (di_size di) div DIRENT_SZ in
      bind_prog (unlink_loop path di file_count [0..<file_count] DirEntry_new_zeros) (\<lambda>res. Done (di, res)))"
  have run: "run (f (?I ino)) [iblock fs ino] d = Ok ((?I ino, 0), d)" using ul by (simp add: f_def len run_simps Let_def)
  have new: "fs_inv_on fs F (?I(ino := ?I ino)) d" using inv' by simp
  obtain d1 where d1: "run (modify_disk_inode (inode_of fs ino) f) [] d = Ok (0, d1)" "fs_inv fs F d1" "files fs F d1 = files fs F d"
    using modify_inode_spec [of fs d ino UNIV "[]" f, OF D(1,2) D(3) [OF F] clear_of_Nil run data_only_refl new F] by (auto simp: files_def)
  have find: "run (vfs_find path fs (inode_of fs ino)) [] d1 = Ok (Some (inode_of fs (unat n)), d1)"
    using vfs_find_spec [OF d1(2) _ dir, of ino path] a old(1) D(3) [OF Fb] by (simp add: d1(3))
  have b1: "files fs F d1 (unat n) = Some b" using old(2) by (simp add: d1(3))
  obtain d2 where d2: "run (modify_disk_inode (inode_of fs (unat n)) (\<lambda>di. Done (dec_nlink di, ()))) [] d1 = Ok ((), d2)" "fs_inv fs F d2"
      "files fs F d2 = (files fs F d)(unat n \<mapsto> b\<lparr>fa_nlink := fa_nlink b - 1\<rparr>)"
    using meta_spec [OF d1(2) b1, of dec_nlink "\<lambda>k. k - 1"] by (auto simp: dec_nlink_def d1(3))
  have "run (vfs_unlinkat path 0 fs (inode_of fs ino)) [] d = Ok (0, d2)"
    using find_in_root_spec(1) [OF inv a dir, of path] old(1) d1(1) find d2(1)
    unfolding vfs_unlinkat_def f_def [symmetric] by (simp add: run_simps)
  then show ?thesis using d2(2,3) by blast
qed

lemma vfs_unlinkat_absent:
  assumes "fs_inv fs F d" and "files fs F d ino = Some a" and "directory a" and "map_of (dir_list (fa_bytes a)) path = None"
  shows "run (vfs_unlinkat path 0 fs (inode_of fs ino)) [] d = Ok (- 1, d)"
  using find_in_root_spec(1) [OF assms(1-3), of path] assms(4) unfolding vfs_unlinkat_def by (simp add: run_simps)

end
