(* ===== verification/FsCreate.thy ===== *)
theory FsCreate
  imports FsLink
begin

text \<open>
  Making a file system: \<^verbatim>\<open>EasyFileSystem::create\<close> on a device with zero blocks past its size gives a file
  system with an empty root directory, and \<^verbatim>\<open>open\<close> reads the same structure back.
\<close>

section \<open>Zero blocks\<close>

lemma u64s_zero: "u64s (replicate BLOCK_SZ 0) = replicate 64 0"
proof -
  have "le_bytes 8 (0 :: u64) = replicate 8 0" by (rule nth_equalityI) (simp_all add: le_bytes_nth)
  then have "encode_words 8 (replicate n (0 :: u64)) = replicate (8 * n) 0" for n
    by (induction n) (simp_all add: encode_words_def replicate_add [symmetric] add.commute)
  from this [of 64] have "replicate BLOCK_SZ 0 = encode_words 8 (replicate 64 (0 :: u64))" by (simp add: BLOCK_SZ_def)
  then show ?thesis by simp
qed

lemma bm_used_zero:
  assumes "\<And>b. b \<in> bm_region bm \<Longrightarrow> d b = replicate BLOCK_SZ 0"
  shows "bm_used bm d = {}"
proof -
  have "\<not> bm_bit bm d i" if "i \<in> bm_pool bm" for i
  proof -
    have "i div BLOCK_BITS < unat (bm_blocks bm)" using that by (simp add: bm_pool_def less_mult_imp_div_less)
    then have z: "d (start_block_id bm + of_nat (i div BLOCK_BITS)) = replicate BLOCK_SZ 0" by (intro assms) (auto simp: bm_region_def)
    have "i mod BLOCK_BITS div 64 < 64" by (simp add: less_mult_imp_div_less BLOCK_BITS_def BLOCK_SZ_def)
    then show ?thesis by (simp add: bm_bit_def block_bit_def z u64s_zero)
  qed
  then show ?thesis by (auto simp: bm_used_def)
qed

lemma clear_all_spec:
  assumes "dev_ok d" and "n < 2 ^ 64" and "length H < BLOCK_CACHE_MAX_NUM" and "\<forall>b \<in> set H. n \<le> unat b"
  shows "run (fold_prog (\<lambda>i _. clear_block (of_nat i)) [0..<n] ()) H d =
    Ok ((), \<lambda>b. if unat b < n then replicate BLOCK_SZ 0 else d b)"
  using assms(2,4)
proof (induction n)
  case (Suc n)
  let ?d = "\<lambda>b. if unat b < n then replicate BLOCK_SZ 0 else d b"
  have ok: "dev_ok ?d" using assms(1) by (simp add: dev_ok_def)
  have u: "unat (of_nat n :: usize) = n" using Suc.prems by (simp add: unat_of_nat_64)
  have "(b = of_nat n) = (unat b = n)" for b :: usize using u by (metis word_unat_eq_iff)
  then have upd: "?d(of_nat n := replicate BLOCK_SZ 0) = (\<lambda>b. if unat b < Suc n then replicate BLOCK_SZ 0 else d b)"
    by (auto simp: less_Suc_eq)
  have "of_nat n \<notin> set H" using u Suc.prems(2) by fastforce
  then have "run (clear_block (of_nat n)) H ?d = Ok ((), ?d(of_nat n := replicate BLOCK_SZ 0))"
    by (rule clear_block_spec [OF ok assms(3)])
  moreover have "\<forall>b \<in> set H. n \<le> unat b" using Suc.prems(2) by auto
  ultimately show ?case using Suc unfolding upd by (simp add: run_fold_append run_simps)
qed (simp add: run_simps)

section \<open>The super block\<close>

lemma length_encode_super: "length (encode_super sb) = 24"
  by (simp add: encode_super_def)

lemma decode_encode_super: "decode_super (encode_super sb) = sb"
  by (simp add: decode_super_def encode_super_def decode_encode_words)

section \<open>Creating a file system\<close>

text \<open>The structure that \<^verbatim>\<open>create\<close> returns.\<close>

definition new_fs :: "u32 \<Rightarrow> u32 \<Rightarrow> EasyFileSystem" where
  "new_fs total_blks ibb = (let
     iab = ucast ((max_bits (Bitmap_new 1 (ucast ibb)) * of_nat INODE_SZ + of_nat BLOCK_SZ - 1) div of_nat BLOCK_SZ);
     dbb = (total_blks - 1 - (ibb + iab) + 4096) div 4097
   in \<lparr>inode_bitmap = Bitmap_new 1 (ucast ibb), data_bitmap = Bitmap_new (ucast (1 + ibb + iab)) (ucast dbb),
       inode_area_start_block = 1 + ibb, data_area_start_block = 1 + (ibb + iab) + dbb\<rparr>)"

lemma unat_inode_area:
  assumes "unat (ibb :: u32) < 2 ^ 20"
  shows "(ucast ((max_bits (Bitmap_new 1 (ucast ibb)) * of_nat INODE_SZ + of_nat BLOCK_SZ - 1) div of_nat BLOCK_SZ) :: u32) = of_nat (1088 * unat ibb)"
proof -
  let ?x = "max_bits (Bitmap_new 1 (ucast ibb)) * of_nat INODE_SZ + of_nat BLOCK_SZ - 1 :: usize"
  have "?x = of_nat (unat ibb * 557056 + 511)"
    by (simp add: max_bits_def Bitmap_new_def BLOCK_BITS_def BLOCK_SZ_def INODE_SZ_def)
  then have "unat ?x = unat ibb * 557056 + 511" using assms by (simp add: unat_of_nat_64 del: of_nat_add of_nat_mult)
  then have "unat (?x div of_nat BLOCK_SZ) = 1088 * unat ibb"
    by (simp add: unat_div_distrib BLOCK_SZ_def div_nat_eqI)
  then show ?thesis using assms
    by (intro word_unat_eq_iff [THEN iffD2]) (simp add: unsigned_ucast_eq unat_of_nat take_bit_eq_mod del: of_nat_mult)
qed

text \<open>What the fields of the structure are.\<close>

lemma new_fs_geometry:
  assumes t: "2 + 1089 * unat ibb \<le> unat total_blks" "unat total_blks < 2 ^ 29"
  defines "fs \<equiv> new_fs total_blks ibb" and "dbb \<equiv> (unat total_blks - (1 + 1089 * unat ibb) + 4096) div 4097"
  shows "ib fs = unat ibb" "ia fs = 1 + unat ibb" "dbs fs = 1 + 1089 * unat ibb" "db fs = dbb" "ds fs = 1 + 1089 * unat ibb + dbb"
    "unat (start_block_id (inode_bitmap fs)) = 1"
proof -
  let ?b = "unat ibb" and ?iab = "of_nat (1088 * unat ibb) :: u32"
  have b: "?b < 2 ^ 20" using t by simp
  have ui: "unat ?iab = 1088 * ?b" using t by (simp add: unat_of_nat take_bit_eq_mod del: of_nat_mult)
  have ut: "unat (ibb + ?iab) = 1089 * ?b" using t ui by (simp add: unat_word_ariths)
  have u1: "unat (1 + (ibb + ?iab)) = 1 + 1089 * ?b" using t ut by (simp add: unat_word_ariths)
  define w where "w = total_blks - 1 - (ibb + ?iab)"
  have "unat w = unat total_blks - (1 + 1089 * ?b)"
    unfolding w_def using t ut u1 by (subst diff_diff_eq) (simp add: unat_sub word_le_nat_alt)
  then have "unat (w + 4096) = unat total_blks - (1 + 1089 * ?b) + 4096" using t by (simp add: unat_word_ariths)
  then have ud: "unat ((total_blks - 1 - (ibb + ?iab) + 4096) div 4097) = dbb"
    unfolding w_def [symmetric] by (simp add: dbb_def unat_div_distrib)
  have dbb: "dbb \<le> 2 ^ 29" unfolding dbb_def using t by simp
  have fs: "fs = \<lparr>inode_bitmap = Bitmap_new 1 (ucast ibb),
      data_bitmap = Bitmap_new (ucast (1 + ibb + ?iab)) (ucast ((total_blks - 1 - (ibb + ?iab) + 4096) div 4097)),
      inode_area_start_block = 1 + ibb, data_area_start_block = 1 + (ibb + ?iab) + (total_blks - 1 - (ibb + ?iab) + 4096) div 4097\<rparr>"
    unfolding fs_def new_fs_def Let_def unat_inode_area [OF b] ..
  note e = fs Bitmap_new_def
  show "ib fs = ?b" "unat (start_block_id (inode_bitmap fs)) = 1" by (simp_all add: ib_def e unat_ucast_32)
  show "ia fs = 1 + ?b" using t by (simp add: ia_def e unat_word_ariths)
  show "dbs fs = 1 + 1089 * ?b" using u1 by (simp add: dbs_def e unat_ucast_32 add.assoc del: of_nat_mult)
  show "db fs = dbb" using ud by (simp add: db_def e unat_ucast_32 del: of_nat_mult)
  show "ds fs = 1 + 1089 * ?b + dbb"
    unfolding ds_def e using u1 ud t dbb by (simp add: unat_word_ariths del: of_nat_mult)
qed

lemma new_fs_ok:
  assumes t: "2 + 1089 * unat ibb \<le> unat total_blks" "unat total_blks < 2 ^ 29" and b: "0 < unat ibb"
  shows "fs_ok (new_fs total_blks ibb)" and "in_area (new_fs total_blks ibb) i \<longleftrightarrow> i < 3264 * unat ibb"
    and "bm_pool (inode_bitmap (new_fs total_blks ibb)) = {..<4096 * unat ibb}"
proof -
  note g = new_fs_geometry [OF t]
  let ?x = "unat total_blks - (1 + 1089 * unat ibb) + 4096"
  have "?x div 4097 * 4097 \<le> ?x" by (rule div_times_less_eq_dividend)
  then have "1 + 1089 * unat ibb + ?x div 4097 + ?x div 4097 * 4096 \<le> unat total_blks + 4096" using t(1) by linarith
  then have "1 + 1089 * unat ibb + ?x div 4097 + ?x div 4097 * 4096 < 2 ^ 30"
    by (rule le_less_trans) (use t(2) in simp)
  then show "fs_ok (new_fs total_blks ibb)"
    unfolding fs_ok_def g by (simp add: BLOCK_BITS_def BLOCK_SZ_def)
  show "in_area (new_fs total_blks ibb) i \<longleftrightarrow> i < 3264 * unat ibb"
    unfolding in_area_def g using less_mult_imp_div_less [of i "1088 * unat ibb" 3] by (auto simp: div_less_iff_less_mult)
  show "bm_pool (inode_bitmap (new_fs total_blks ibb)) = {..<4096 * unat ibb}"
    using g(1) by (auto simp: bm_pool_def ib_def BLOCK_BITS_def BLOCK_SZ_def)
qed

text \<open>The device before the root directory is made: zeros but for the super block.\<close>

definition blank :: "SuperBlock \<Rightarrow> device" where
  "blank sb = (\<lambda>b. if b = 0 then patch 0 (encode_super sb) (replicate BLOCK_SZ 0) else replicate BLOCK_SZ 0)"

lemma dev_ok_blank: "dev_ok (blank sb)"
  by (simp add: dev_ok_def blank_def length_patch length_encode_super BLOCK_SZ_def)

lemma run_super:
  assumes "length H < BLOCK_CACHE_MAX_NUM" and "0 \<notin> set H"
  shows "run (block_modify 0 0 24 (\<lambda>_. Done (encode_super sb, ()))) H (\<lambda>_. replicate BLOCK_SZ 0) = Ok ((), blank sb)"
proof -
  have "(\<lambda>_ :: usize. replicate BLOCK_SZ 0)(0 := patch 0 (encode_super sb) (replicate BLOCK_SZ 0)) = blank sb" by (auto simp: blank_def)
  then show ?thesis
    using run_block_modify [of H 0 0 24 "\<lambda>_. Done (encode_super sb, ())" "\<lambda>_. replicate BLOCK_SZ 0" "encode_super sb" "()"] assms
    by (simp add: BLOCK_SZ_def length_encode_super run_simps)
qed

lemma fs_inv_blank:
  assumes t: "2 + 1089 * unat ibb \<le> unat total_blks" "unat total_blks < 2 ^ 29" and b: "0 < unat ibb"
  shows "fs_inv (new_fs total_blks ibb) Map.empty (blank sb)"
proof -
  let ?fs = "new_fs total_blks ibb"
  note ok = new_fs_ok [OF t b] and g = new_fs_geometry [OF t]
  have zero: "blank sb x = replicate BLOCK_SZ 0" if "0 < unat x" for x using that by (auto simp: blank_def)
  have r0: "bm_used (inode_bitmap ?fs) (blank sb) = {}" "bm_used (data_bitmap ?fs) (blank sb) = {}"
    using inode_region [OF ok(1)] data_region [OF ok(1)] g(3) by (auto intro!: bm_used_zero zero)
  have zf: "blank sb (ucast (dblock ?fs i)) = replicate BLOCK_SZ 0" if "i \<in> data_pool ?fs" for i
    using unat_dblock(2) [OF ok(1) that] g(5) by (intro zero) simp
  show ?thesis unfolding fs_inv_def fs_inv_on_def
    using ok(1) dev_ok_blank r0 zf by (auto simp: free_data_def)
qed

text \<open>
  \<^verbatim>\<open>create\<close> returns, with the whole device cleared but for the super block, the bit and the inode of the
  root directory.
\<close>

lemma efs_create_spec:
  assumes t: "2 + 1089 * unat ibb \<le> unat total_blks" "unat total_blks < 2 ^ 29" and b: "0 < unat ibb"
    and d: "dev_ok d" and z: "\<And>b. unat total_blks \<le> unat b \<Longrightarrow> d b = replicate BLOCK_SZ 0"
  shows "\<exists>d'. run (efs_create total_blks ibb) [] d = Ok (new_fs total_blks ibb, d') \<and>
    fs_inv (new_fs total_blks ibb) [0 \<mapsto> []] d' \<and>
    files (new_fs total_blks ibb) [0 \<mapsto> []] d' = [0 \<mapsto> new_file Directory] \<and>
    run efs_open [] d' = Ok (new_fs total_blks ibb, d')"
proof -
  let ?fs = "new_fs total_blks ibb"
  define iab :: u32 where "iab = ucast ((max_bits (Bitmap_new 1 (ucast ibb)) * of_nat INODE_SZ + of_nat BLOCK_SZ - 1) div of_nat BLOCK_SZ)"
  define dbb where "dbb = (total_blks - 1 - (ibb + iab) + 4096) div 4097"
  define sb where "sb = SuperBlock_initialize total_blks ibb iab dbb (total_blks - 1 - (ibb + iab) - dbb)"
  have fs: "?fs = \<lparr>inode_bitmap = Bitmap_new 1 (ucast ibb), data_bitmap = Bitmap_new (ucast (1 + ibb + iab)) (ucast dbb),
      inode_area_start_block = 1 + ibb, data_area_start_block = 1 + (ibb + iab) + dbb\<rparr>"
    by (simp only: new_fs_def Let_def iab_def dbb_def)
  note ok = new_fs_ok [OF t b] and reg = regions_apart [OF new_fs_ok(1) [OF t b]] and g = new_fs_geometry [OF t]
  define d2 where "d2 = blank sb"
  have clear: "run (fold_prog (\<lambda>i _. clear_block (of_nat i)) [0..<unat total_blks] ()) [] d = Ok ((), \<lambda>_. replicate BLOCK_SZ 0)"
  proof -
    have "(\<lambda>b. if unat b < unat total_blks then replicate BLOCK_SZ 0 else d b) = (\<lambda>_. replicate BLOCK_SZ 0)"
      using z by (auto simp: not_less)
    then show ?thesis using clear_all_spec [OF d, of "unat total_blks" "[]"] t(2) by (simp add: BLOCK_CACHE_MAX_NUM_def)
  qed
  have super: "run (block_modify 0 0 24 (\<lambda>_. Done (encode_super sb, ()))) [] (\<lambda>_. replicate BLOCK_SZ 0) = Ok ((), d2)"
    unfolding d2_def by (rule run_super) (simp_all add: BLOCK_CACHE_MAX_NUM_def)
  have inv: "fs_inv ?fs Map.empty d2" unfolding d2_def by (rule fs_inv_blank [OF t b])
  have i0: "0 \<in> bm_pool (inode_bitmap ?fs)" "in_area ?fs 0" using ok(2,3) b by auto
  obtain d3 where d3: "run (alloc_inode ?fs) [] d2 = Ok (0, d3)" "dev_ok d3"
      "bm_used (inode_bitmap ?fs) d3 = insert 0 (bm_used (inode_bitmap ?fs) d2)" "\<And>b. b \<notin> bm_region (inode_bitmap ?fs) \<Longrightarrow> d3 b = d2 b"
    using alloc_inode_spec [OF inv i0(1)] by auto
  obtain d4 where d4: "run (modify_disk_inode (inode_of ?fs 0) (\<lambda>di. Done (DiskInode_initialize 0 Directory di, ()))) [] d3 = Ok ((), d4)"
      "fs_inv ?fs [0 \<mapsto> []] d4" "files ?fs [0 \<mapsto> []] d4 = (files ?fs Map.empty d2)(0 \<mapsto> new_file Directory)"
      "\<forall>x. x \<noteq> iblock ?fs 0 \<longrightarrow> d4 x = d3 x"
    using init_inode_spec [OF inv _ i0(2) d3(2-4), of Directory] by auto
  define bl off where "bl = fst (get_disk_inode_pos 0 ?fs)" and "off = snd (get_disk_inode_pos 0 ?fs)"
  have pos: "get_disk_inode_pos 0 ?fs = (bl, off)" by (simp add: bl_def off_def)
  have new: "Inode_new bl off = inode_of ?fs 0" using inode_of_pos [OF ok(1) i0(2)] by (simp add: pos)
  have upd: "modify_disk_inode (inode_of ?fs 0) (\<lambda>di. Done (DiskInode_initialize 0 Directory di, ())) =
      block_modify (ucast bl) off INODE_SZ (\<lambda>bytes. Done (encode_inode (DiskInode_initialize 0 Directory (decode_inode bytes)) bytes, ()))"
    unfolding new [symmetric] by (simp add: modify_disk_inode_def Inode_new_def)
  have run: "run (efs_create total_blks ibb) [] d = Ok (?fs, d4)"
    unfolding efs_create_def Let_def iab_def [symmetric] dbb_def [symmetric] fs [symmetric] sb_def [symmetric]
    using clear super d3(1) d4(1) unfolding upd by (simp add: run_simps pos)
  have "0 \<notin> bm_region (inode_bitmap ?fs)" using inode_region [OF ok(1)] by simp
  moreover have "unat (iblock ?fs 0) = ia ?fs" using inode_pos(1) [OF ok(1) i0(2)] by simp
  then have "0 \<noteq> iblock ?fs 0" using g(2) by auto
  ultimately have "d4 0 = d2 0" using d3(4) d4(4) by simp
  then have "take 24 (drop 0 (d4 0)) = encode_super sb"
    using length_encode_super [of sb] by (simp add: d2_def blank_def patch_def)
  then have "run efs_open [] d4 = Ok (?fs, d4)"
    by (simp add: efs_open_def run_block_read BLOCK_CACHE_MAX_NUM_def BLOCK_SZ_def decode_encode_super run_simps Let_def is_valid_def fs)
       (simp add: sb_def SuperBlock_initialize_def add.assoc)
  moreover have "files ?fs Map.empty d2 = Map.empty" by (rule ext) (simp add: files_def files_on_def)
  ultimately show ?thesis using run d4(2,3) by simp
qed

end
