(* ===== verification/FsRun.thy ===== *)
theory FsRun
  imports FsCreate
begin

text \<open>
  Runs of a mounted file system, through the block cache: every sequence of operations on the root
  directory and its files does on the cache and the device what it does on the abstract state.
\<close>

section \<open>A mounted file system\<close>

definition mounted :: "EasyFileSystem \<Rightarrow> cache_state \<Rightarrow> (nat \<rightharpoonup> file_abs) \<Rightarrow> bool" where
  "mounted fs st A = (cache_inv st \<and> (\<exists>F. fs_inv fs F (view st) \<and> files fs F (view st) = A))"

text \<open>The device holds everything that the cache holds.\<close>

definition synced :: "cache_state \<Rightarrow> bool" where
  "synced st = (block_device st = view st)"

lemma run_cached_Ok:
  assumes "cache_inv st" and "run p [] (view st) = Ok (r, d')"
  shows "\<exists>st'. run_cached p st = Ok (r, st') \<and> cache_inv st' \<and> view st' = d'"
  using cached.run_refines [OF assms(1), of p "[]"] assms(2) by (simp add: run_cached_def cached.agrees_def)

lemma run_store_bind: "run_store rd md sy (bind_prog p f) H st = bind_res (run_store rd md sy p H st) (\<lambda>(a, st). run_store rd md sy (f a) H st)"
proof (induction p arbitrary: st)
  case (Get h b off n k)
  then show ?case by (cases "rd (set (h @ H)) b off n st") auto
next
  case (Put h b off bytes p)
  then show ?case by (cases "md (set (h @ H)) b off bytes st") auto
qed auto

lemma mounted_run:
  assumes m: "mounted fs st A"
    and spec: "\<And>F d. \<lbrakk>fs_inv fs F d; files fs F d = A\<rbrakk> \<Longrightarrow> \<exists>F' d'. run p [] d = Ok (r, d') \<and> fs_inv fs F' d' \<and> files fs F' d' = A'"
  shows "\<exists>st'. run_cached p st = Ok (r, st') \<and> mounted fs st' A'"
proof -
  obtain F where F: "cache_inv st" "fs_inv fs F (view st)" "files fs F (view st) = A" using m by (auto simp: mounted_def)
  from spec [OF F(2,3)] obtain F' d' where r: "run p [] (view st) = Ok (r, d')" "fs_inv fs F' d'" "files fs F' d' = A'" by blast
  from run_cached_Ok [OF F(1) r(1)] r(2,3) show ?thesis by (auto simp: mounted_def)
qed

text \<open>An operation that ends in \<^verbatim>\<open>block_cache_sync_all\<close> leaves nothing in the cache that is not on the device.\<close>

lemma mounted_run_sync:
  assumes m: "mounted fs st A"
    and spec: "\<And>F d. \<lbrakk>fs_inv fs F d; files fs F d = A\<rbrakk> \<Longrightarrow>
      \<exists>F' d'. run (bind_prog p (\<lambda>a. Sync [] (Done a))) [] d = Ok (r, d') \<and> fs_inv fs F' d' \<and> files fs F' d' = A'"
  shows "\<exists>st'. run_cached (bind_prog p (\<lambda>a. Sync [] (Done a))) st = Ok (r, st') \<and> mounted fs st' A' \<and> synced st'"
proof -
  obtain F where F: "cache_inv st" "fs_inv fs F (view st)" "files fs F (view st) = A" using m by (auto simp: mounted_def)
  from spec [OF F(2,3)] obtain F' d' where r: "run p [] (view st) = Ok (r, d')" "fs_inv fs F' d'" "files fs F' d' = A'"
    by (auto simp: run_simps bind_res_eq_Ok)
  from run_cached_Ok [OF F(1) r(1)] obtain st1 where st1: "run_cached p st = Ok (r, st1)" "cache_inv st1" "view st1 = d'" by blast
  note s = sync_all_spec [OF st1(2)]
  have "run_cached (bind_prog p (\<lambda>a. Sync [] (Done a))) st = Ok (r, block_cache_sync_all st1)"
    using st1(1) by (simp add: run_cached_def run_store_bind)
  moreover have "mounted fs (block_cache_sync_all st1) A'" using s(1,2) r(2,3) st1(3) by (auto simp: mounted_def)
  moreover have "synced (block_cache_sync_all st1)" using s(2,3) by (simp add: synced_def)
  ultimately show ?thesis by blast
qed

section \<open>Operations on the abstract state\<close>

lemma root_inode_eq: "\<lbrakk>fs_ok fs; in_area fs 0\<rbrakk> \<Longrightarrow> root_inode fs = inode_of fs 0"
  using inode_of_pos [of fs 0] by (simp add: root_inode_def)

text \<open>The root directory names files only.\<close>

definition root_ok :: "(nat \<rightharpoonup> file_abs) \<Rightarrow> bool" where
  "root_ok A = (\<exists>r. A 0 = Some r \<and> directory r \<and>
     (\<forall>n \<in> snd ` set (dir_list (fa_bytes r)). \<exists>f. A (unat n) = Some f \<and> fa_type f = File))"

text \<open>The first free inode of a file system.\<close>

definition next_inode :: "EasyFileSystem \<Rightarrow> (nat \<rightharpoonup> file_abs) \<Rightarrow> nat \<Rightarrow> bool" where
  "next_inode fs A i = (i \<in> bm_pool (inode_bitmap fs) \<and> in_area fs i \<and> A i = None \<and> (\<forall>j < i. A j \<noteq> None))"

text \<open>There is room for a file \<open>f\<close> to grow to \<open>s\<close> bytes.\<close>

definition fits :: "EasyFileSystem \<Rightarrow> (nat \<rightharpoonup> file_abs) \<Rightarrow> file_abs \<Rightarrow> nat \<Rightarrow> bool" where
  "fits fs A f s = (s \<le> 512 * MAX_DATA \<and> need (length (fa_bytes f)) s \<le> free_blocks fs A)"

lemma mounted_write:
  assumes "mounted fs st A" and "A ino = Some f" and "buf \<noteq> []" and "fits fs A f (unat off + length buf)"
  shows "\<exists>st'. run_cached (vfs_write_at off buf fs (inode_of fs ino)) st = Ok (length buf, st') \<and>
    mounted fs st' (A(ino \<mapsto> f\<lparr>fa_bytes := write_bytes (unat off) buf (fa_bytes f)\<rparr>)) \<and> synced st'"
  unfolding vfs_write_at_def
proof (rule mounted_run_sync [OF assms(1)], fold vfs_write_at_def)
  fix F d assume i: "fs_inv fs F d" "files fs F d = A"
  from vfs_write_at_spec [OF i(1), of ino f buf off] assms(2-4) i(2) card_free(1) [OF i(1)]
  show "\<exists>F' d'. run (vfs_write_at off buf fs (inode_of fs ino)) [] d = Ok (length buf, d') \<and> fs_inv fs F' d' \<and>
    files fs F' d' = A(ino \<mapsto> f\<lparr>fa_bytes := write_bytes (unat off) buf (fa_bytes f)\<rparr>)" by (simp add: fits_def)
qed

lemma mounted_create:
  assumes "mounted fs st A" and r: "A 0 = Some r" "directory r" and nm: "good_name name" "name \<notin> fst ` set (dir_list (fa_bytes r))"
    and i: "next_inode fs A i" and f: "fits fs A r (length (fa_bytes r) + DIRENT_SZ)"
  shows "\<exists>de st'. DirEntry_new name (of_nat i) = Ok de \<and>
    run_cached (vfs_create name fs (root_inode fs)) st = Ok (Some (inode_of fs i), st') \<and>
    mounted fs st' (A(i \<mapsto> new_file File, 0 \<mapsto> r\<lparr>fa_bytes := fa_bytes r @ as_bytes de\<rparr>))"
proof -
  obtain de where de: "DirEntry_new name (of_nat i) = Ok de" using DirEntry_new_good [OF nm(1)] by blast
  have nm': "map_of (dir_list (fa_bytes r)) name = None" using nm(2) by (simp add: map_of_eq_None_iff)
  have "\<exists>st'. run_cached (vfs_create name fs (root_inode fs)) st = Ok (Some (inode_of fs i), st') \<and>
    mounted fs st' (A(i \<mapsto> new_file File, 0 \<mapsto> r\<lparr>fa_bytes := fa_bytes r @ as_bytes de\<rparr>))"
  proof (rule mounted_run [OF assms(1)])
    fix F d assume v: "fs_inv fs F d" "files fs F d = A"
    note D = fs_invD [OF v(1)]
    obtain L0 where "F 0 = Some L0" using r(1) v(2) by (auto simp: files_eq_Some)
    then have root: "root_inode fs = inode_of fs 0" using root_inode_eq [OF D(1)] D(3) by blast
    have "i \<in> bm_pool (inode_bitmap fs)" "files fs F d i = None" "\<And>j. j < i \<Longrightarrow> files fs F d j \<noteq> None" "in_area fs i"
      "files fs F d 0 = Some r" using i v(2) r(1) by (auto simp: next_inode_def)
    from vfs_create_spec [OF v(1) this(5) r(2) nm(1) nm' this(1-4)] f v(2) de
    show "\<exists>F' d'. run (vfs_create name fs (root_inode fs)) [] d = Ok (Some (inode_of fs i), d') \<and> fs_inv fs F' d' \<and>
      files fs F' d' = A(i \<mapsto> new_file File, 0 \<mapsto> r\<lparr>fa_bytes := fa_bytes r @ as_bytes de\<rparr>)" by (auto simp: fits_def root)
  qed
  with de show ?thesis by blast
qed

datatype fs_op =
    OpCreate "u8 list"
  | OpWrite nat usize "u8 list"
  | OpClear nat
  | OpLink "u8 list" "u8 list"
  | OpUnlink "u8 list"

fun op_prog :: "EasyFileSystem \<Rightarrow> fs_op \<Rightarrow> unit prog" where
  "op_prog fs (OpCreate name) = bind_prog (vfs_create name fs (root_inode fs)) (\<lambda>_. Done ())"
| "op_prog fs (OpWrite ino off buf) = bind_prog (vfs_write_at off buf fs (inode_of fs ino)) (\<lambda>_. Done ())"
| "op_prog fs (OpClear ino) = vfs_clear fs (inode_of fs ino)"
| "op_prog fs (OpLink oldpath newpath) = bind_prog (vfs_linkat oldpath newpath 0 fs (root_inode fs)) (\<lambda>_. Done ())"
| "op_prog fs (OpUnlink path) = bind_prog (vfs_unlinkat path 0 fs (root_inode fs)) (\<lambda>_. Done ())"

inductive fs_step :: "EasyFileSystem \<Rightarrow> (nat \<rightharpoonup> file_abs) \<Rightarrow> fs_op \<Rightarrow> (nat \<rightharpoonup> file_abs) \<Rightarrow> bool" for fs where
  step_create: "\<lbrakk>A 0 = Some r; good_name name; name \<notin> fst ` set (dir_list (fa_bytes r)); next_inode fs A i;
     fits fs A r (length (fa_bytes r) + DIRENT_SZ); DirEntry_new name (of_nat i) = Ok de\<rbrakk> \<Longrightarrow>
     fs_step fs A (OpCreate name) (A(i \<mapsto> new_file File, 0 \<mapsto> r\<lparr>fa_bytes := fa_bytes r @ as_bytes de\<rparr>))"
| step_create_exists: "\<lbrakk>A 0 = Some r; name \<in> fst ` set (dir_list (fa_bytes r))\<rbrakk> \<Longrightarrow> fs_step fs A (OpCreate name) A"
| step_write: "\<lbrakk>A ino = Some f; fa_type f = File; buf \<noteq> []; fits fs A f (unat off + length buf)\<rbrakk> \<Longrightarrow>
     fs_step fs A (OpWrite ino off buf) (A(ino \<mapsto> f\<lparr>fa_bytes := write_bytes (unat off) buf (fa_bytes f)\<rparr>))"
| step_clear: "\<lbrakk>A ino = Some f; fa_type f = File\<rbrakk> \<Longrightarrow> fs_step fs A (OpClear ino) (A(ino \<mapsto> f\<lparr>fa_bytes := []\<rparr>))"
| step_link: "\<lbrakk>A 0 = Some r; map_of (dir_list (fa_bytes r)) oldpath = Some n; A (unat n) = Some f; good_name newpath;
     newpath \<notin> fst ` set (dir_list (fa_bytes r)); fits fs A r (length (fa_bytes r) + DIRENT_SZ); DirEntry_new newpath n = Ok de\<rbrakk> \<Longrightarrow>
     fs_step fs A (OpLink oldpath newpath)
       (A(unat n \<mapsto> f\<lparr>fa_nlink := fa_nlink f + 1\<rparr>, 0 \<mapsto> r\<lparr>fa_bytes := fa_bytes r @ as_bytes de\<rparr>))"
| step_unlink: "\<lbrakk>A 0 = Some r; map_of (dir_list (fa_bytes r)) path = Some n; A (unat n) = Some f; length (fa_bytes r) mod 512 \<noteq> 0\<rbrakk> \<Longrightarrow>
     fs_step fs A (OpUnlink path) (A(unat n \<mapsto> f\<lparr>fa_nlink := fa_nlink f - 1\<rparr>))"
| step_unlink_absent: "\<lbrakk>A 0 = Some r; path \<notin> fst ` set (dir_list (fa_bytes r))\<rbrakk> \<Longrightarrow> fs_step fs A (OpUnlink path) A"

inductive fs_steps :: "EasyFileSystem \<Rightarrow> (nat \<rightharpoonup> file_abs) \<Rightarrow> fs_op list \<Rightarrow> (nat \<rightharpoonup> file_abs) \<Rightarrow> bool" for fs where
  steps_Nil: "fs_steps fs A [] A"
| steps_Cons: "\<lbrakk>fs_step fs A a B; fs_steps fs B as C\<rbrakk> \<Longrightarrow> fs_steps fs A (a # as) C"

section \<open>Simulation\<close>

lemma root_okD:
  assumes "root_ok A" and "A 0 = Some r"
  shows "directory r" and "map_of (dir_list (fa_bytes r)) name = Some n \<Longrightarrow> \<exists>f. A (unat n) = Some f \<and> fa_type f = File"
  using assms by (force simp: root_ok_def dest: map_of_SomeD)+

lemma root_ok_meta:
  assumes "root_ok A" and "A ino = Some f" and "fa_type f = File" and "fa_type f' = File"
  shows "root_ok (A(ino \<mapsto> f'))"
proof -
  obtain r where r: "A 0 = Some r" "directory r" "\<forall>n \<in> snd ` set (dir_list (fa_bytes r)). \<exists>f. A (unat n) = Some f \<and> fa_type f = File"
    using assms(1) by (auto simp: root_ok_def)
  have "ino \<noteq> 0" using r(1,2) assms(2,3) by (cases "ino = 0") (auto simp: directory_def)
  moreover have "\<exists>g. (A(ino \<mapsto> f')) (unat n) = Some g \<and> fa_type g = File" if "n \<in> snd ` set (dir_list (fa_bytes r))" for n
    using r(3) that assms(4) by auto
  ultimately show ?thesis using r(1,2) by (auto simp: root_ok_def)
qed

lemma root_ok_append:
  assumes ok: "root_ok A" and r: "A 0 = Some r" and nm: "good_name name" "DirEntry_new name n = Ok de"
    and n: "A (unat n) = Some f" "fa_type f = File"
  shows "root_ok (A(0 \<mapsto> r\<lparr>fa_bytes := fa_bytes r @ as_bytes de\<rparr>))"
proof -
  have dir: "fa_type r = Directory" "dir_ok (fa_bytes r)" using root_okD(1) [OF ok r] by (auto simp: directory_def)
  have de: "length (de_name de) = 28" "dirent_name de = Ok name" "inode_number de = n"
    using DirEntry_new_good [OF nm(1), of n] nm(2) by auto
  note ap = dir_append [OF dir(2) de(1,2)]
  have "\<exists>g. (A(0 \<mapsto> r\<lparr>fa_bytes := fa_bytes r @ as_bytes de\<rparr>)) (unat m) = Some g \<and> fa_type g = File"
    if "m \<in> snd ` set (dir_list (fa_bytes r @ as_bytes de))" for m
  proof -
    have "\<exists>g. A (unat m) = Some g \<and> fa_type g = File"
      using that ok r n de(3) unfolding ap(2) by (auto simp: root_ok_def)
    then show ?thesis using r dir(1) by (cases "unat m = 0") auto
  qed
  then show ?thesis using ap(1) dir(1) by (simp add: root_ok_def directory_def)
qed

lemma root_ok_new:
  assumes "root_ok A" and "A i = None"
  shows "root_ok (A(i \<mapsto> f))"
proof -
  obtain r where r: "A 0 = Some r" "directory r" "\<forall>n \<in> snd ` set (dir_list (fa_bytes r)). \<exists>f. A (unat n) = Some f \<and> fa_type f = File"
    using assms(1) by (auto simp: root_ok_def)
  have "\<exists>g. (A(i \<mapsto> f)) (unat n) = Some g \<and> fa_type g = File" if "n \<in> snd ` set (dir_list (fa_bytes r))" for n
    using r(3) that assms(2) by fastforce
  moreover have "i \<noteq> 0" using r(1) assms(2) by (cases "i = 0") auto
  ultimately show ?thesis using r(1,2) by (auto simp: root_ok_def)
qed

lemma root_ok_step:
  assumes "fs_step fs A a B" and "fs_ok fs" and "root_ok A"
  shows "root_ok B"
  using assms(1,3)
proof (induction rule: fs_step.induct)
  case (step_create A r name i de)
  have i: "A i = None" "unat (of_nat i :: u32) = i" using step_create(4) inode_pos(3) [OF assms(2)] by (auto simp: next_inode_def)
  have r: "(A(i \<mapsto> new_file File)) 0 = Some r" using step_create(1) i(1) by (cases "i = 0") auto
  have n: "(A(i \<mapsto> new_file File)) (unat (of_nat i :: u32)) = Some (new_file File)" "fa_type (new_file File) = File"
    using i(2) by (simp_all add: new_file_def)
  show ?case by (rule root_ok_append [OF root_ok_new [OF step_create.prems i(1)] r step_create(2,6) n])
next
  case (step_link A r oldpath n f newpath de)
  let ?f = "f\<lparr>fa_nlink := fa_nlink f + 1\<rparr>"
  have f: "fa_type f = File" using root_okD(2) [OF step_link.prems step_link(1,2)] step_link(3) by auto
  have n0: "unat n \<noteq> 0" using step_link(1,3) f root_okD(1) [OF step_link.prems step_link(1)]
    by (cases "unat n = 0") (auto simp: directory_def)
  have ok: "root_ok (A(unat n \<mapsto> ?f))" using root_ok_meta [OF step_link.prems step_link(3) f] f by simp
  have r: "(A(unat n \<mapsto> ?f)) 0 = Some r" using step_link(1) n0 by simp
  have n: "(A(unat n \<mapsto> ?f)) (unat n) = Some ?f" "fa_type ?f = File" using f by simp_all
  show ?case by (rule root_ok_append [OF ok r step_link(4,7) n])
next
  case (step_unlink A r path n f)
  have f: "fa_type f = File" using root_okD(2) [OF step_unlink.prems step_unlink(1,2)] step_unlink(3) by auto
  then show ?case by (intro root_ok_meta [OF step_unlink.prems step_unlink(3) f]) simp
next
  case (step_write A ino f buf off)
  then show ?case by (intro root_ok_meta [of A ino f]) simp_all
next
  case (step_clear A ino f)
  then show ?case by (intro root_ok_meta [of A ino f]) simp_all
qed

lemma step_simulates:
  assumes step: "fs_step fs A a B" and ok: "root_ok A" and inv: "fs_inv fs F d" "files fs F d = A"
  shows "\<exists>F' d'. run (op_prog fs a) [] d = Ok ((), d') \<and> fs_inv fs F' d' \<and> files fs F' d' = B"
proof -
  note D = fs_invD [OF inv(1)]
  obtain r0 where r0: "A 0 = Some r0" using ok by (auto simp: root_ok_def)
  then obtain L0 where "F 0 = Some L0" using inv(2) by (auto simp: files_eq_Some)
  then have root: "root_inode fs = inode_of fs 0" using root_inode_eq [OF D(1)] D(3) by blast
  show ?thesis using step ok inv
  proof cases
    case (step_create r name i de)
    have nm: "map_of (dir_list (fa_bytes r)) name = None" using step_create(5) by (simp add: map_of_eq_None_iff)
    have i: "i \<in> bm_pool (inode_bitmap fs)" "files fs F d i = None" "\<And>j. j < i \<Longrightarrow> files fs F d j \<noteq> None" "in_area fs i"
      using step_create(6) inv(2) by (auto simp: next_inode_def)
    have "files fs F d 0 = Some r" using step_create(3) inv(2) by simp
    from vfs_create_spec [OF inv(1) this root_okD(1) [OF ok step_create(3)] step_create(4) nm i] step_create inv(2) root
    show ?thesis by (auto simp: run_simps fits_def)
  next
    case (step_create_exists r name)
    then obtain n where n: "map_of (dir_list (fa_bytes r)) name = Some n" using map_of_eq_None_iff [of "dir_list (fa_bytes r)" name] by auto
    have "files fs F d 0 = Some r" using step_create_exists(3) inv(2) by simp
    from vfs_create_exists [OF inv(1) this root_okD(1) [OF ok step_create_exists(3)] n] step_create_exists inv root
    show ?thesis by (auto simp: run_simps)
  next
    case (step_write ino f buf off)
    then show ?thesis using vfs_write_at_spec [OF inv(1), of ino f buf off] card_free(1) [OF inv(1)] inv(2)
      by (auto simp: run_simps fits_def)
  next
    case (step_clear ino f)
    then show ?thesis using vfs_clear_spec [OF inv(1), of ino f] inv(2) by auto
  next
    case (step_link r oldpath n f newpath de)
    have f: "fa_type f = File" using root_okD(2) [OF ok step_link(3,4)] step_link(5) by auto
    have nm: "map_of (dir_list (fa_bytes r)) newpath = None" using step_link(7) by (simp add: map_of_eq_None_iff)
    have "files fs F d 0 = Some r" "files fs F d (unat n) = Some f" using step_link(3,5) inv(2) by simp_all
    from vfs_linkat_spec [OF inv(1) this(1) root_okD(1) [OF ok step_link(3)] step_link(4) this(2) f step_link(6) nm] step_link inv(2) root
    show ?thesis by (auto simp: run_simps fits_def)
  next
    case (step_unlink r path n f)
    have "files fs F d 0 = Some r" "files fs F d (unat n) = Some f" using step_unlink(3,5) inv(2) by simp_all
    from vfs_unlinkat_spec [OF inv(1) this(1) root_okD(1) [OF ok step_unlink(3)] step_unlink(4) this(2) step_unlink(6)] step_unlink inv(2) root
    show ?thesis by (auto simp: run_simps)
  next
    case (step_unlink_absent r path)
    have nm: "map_of (dir_list (fa_bytes r)) path = None" using step_unlink_absent(4) by (simp add: map_of_eq_None_iff)
    have "files fs F d 0 = Some r" using step_unlink_absent(3) inv(2) by simp
    from vfs_unlinkat_absent [OF inv(1) this root_okD(1) [OF ok step_unlink_absent(3)] nm] step_unlink_absent inv root
    show ?thesis by (auto simp: run_simps)
  qed
qed

lemma mounted_fs_ok: "mounted fs st A \<Longrightarrow> fs_ok fs"
  using fs_invD(1) by (auto simp: mounted_def)

lemma steps_simulate:
  assumes "fs_steps fs A as B" and "mounted fs st A" and "root_ok A"
  shows "\<exists>st'. run_cached (fold_prog (\<lambda>a _. op_prog fs a) as ()) st = Ok ((), st') \<and> mounted fs st' B \<and> root_ok B"
  using assms
proof (induction arbitrary: st rule: fs_steps.induct)
  case (steps_Nil A)
  then show ?case by (simp add: run_cached_def)
next
  case (steps_Cons A a B as C)
  have "\<exists>st'. run_cached (op_prog fs a) st = Ok ((), st') \<and> mounted fs st' B"
    by (rule mounted_run [OF steps_Cons.prems(1) step_simulates [OF steps_Cons.hyps(1) steps_Cons.prems(2)]])
  then obtain st1 where st1: "run_cached (op_prog fs a) st = Ok ((), st1)" "mounted fs st1 B" by blast
  have "root_ok B" by (rule root_ok_step [OF steps_Cons.hyps(1) mounted_fs_ok [OF steps_Cons.prems(1)] steps_Cons.prems(2)])
  from steps_Cons.IH [OF st1(2) this] st1(1) show ?case by (simp add: run_cached_def run_store_bind)
qed

end
