(* ===== verification/FsProperties.thy ===== *)
theory FsProperties
  imports FsRun
begin

text \<open>
  The properties of the file system: what the operations of \<^verbatim>\<open>easy-fs\<close> do, through the block cache, to
  the files that a device holds.
\<close>

section \<open>An example\<close>

text \<open>The file system of \<^verbatim>\<open>easy-fs-fuse\<close>: 16384 blocks, one of them for the bitmap of inodes.\<close>

abbreviation ex_fs :: EasyFileSystem where
  "ex_fs \<equiv> new_fs 0x4000 1"

definition ex_entry :: DirEntry where
  "ex_entry = \<lparr>de_name = 97 # replicate 27 0, inode_number = 1\<rparr>"

definition ex_files :: "nat \<rightharpoonup> file_abs" where
  "ex_files = [1 \<mapsto> new_file File, 0 \<mapsto> (new_file Directory)\<lparr>fa_bytes := as_bytes ex_entry\<rparr>]"

lemma ex_geometry: "fs_ok ex_fs" "in_area ex_fs i \<longleftrightarrow> i < 3264" "bm_pool (inode_bitmap ex_fs) = {..<4096}"
  "unat (bm_blocks (data_bitmap ex_fs)) = 4"
proof -
  have t: "2 + 1089 * unat (1 :: u32) \<le> unat (0x4000 :: u32)" "unat (0x4000 :: u32) < 2 ^ 29" "0 < unat (1 :: u32)" by simp_all
  show "fs_ok ex_fs" "in_area ex_fs i \<longleftrightarrow> i < 3264" "bm_pool (inode_bitmap ex_fs) = {..<4096}" using new_fs_ok [OF t] by simp_all
  show "unat (bm_blocks (data_bitmap ex_fs)) = 4" using new_fs_geometry(4) [OF t(1,2)] by (simp add: db_def)
qed

lemma ex_name: "good_name [97]" "DirEntry_new [97] 1 = Ok ex_entry"
  by (simp_all add: good_name_def NAME_LENGTH_LIMIT_def DirEntry_new_def copy_to_slice_def patch_def ex_entry_def)

lemma ex_entry_ok: "length (de_name ex_entry) = 28" "dirent_name ex_entry = Ok [97]" "inode_number ex_entry = 1"
  using DirEntry_new_good [OF ex_name(1), of 1] ex_name(2) by auto

lemma ex_dir: "dir_ok (as_bytes ex_entry)" "dir_list (as_bytes ex_entry) = [([97], 1)]" "length (as_bytes ex_entry) = 32"
proof -
  have "dir_ok []" "dir_list [] = []" by (simp_all add: dir_ok_def dir_list_def)
  then show "dir_ok (as_bytes ex_entry)" "dir_list (as_bytes ex_entry) = [([97], 1)]"
    using dir_append [of "[]", OF _ ex_entry_ok(1,2)] ex_entry_ok(3) by simp_all
  show "length (as_bytes ex_entry) = 32" using length_as_bytes [OF ex_entry_ok(1)] by (simp add: DIRENT_SZ_def)
qed

lemma ex_root_ok: "root_ok [0 \<mapsto> new_file Directory]" "root_ok ex_files"
  using ex_dir by (simp_all add: root_ok_def directory_def new_file_def ex_files_def dir_ok_def [of "[]"] dir_list_def [of "[]"])

lemma ex_free: "free_blocks ex_fs [0 \<mapsto> new_file Directory] = 16384" "free_blocks ex_fs ex_files = 16383"
  using ex_dir(3) ex_geometry(4)
  by (simp_all add: free_blocks_def used_blocks_def ex_files_def new_file_def tot_def nblk_def BLOCK_BITS_def BLOCK_SZ_def)

lemma ex_create: "fs_step ex_fs [0 \<mapsto> new_file Directory] (OpCreate [97]) ex_files"
proof -
  have "fs_step ex_fs [0 \<mapsto> new_file Directory] (OpCreate [97])
      ([0 \<mapsto> new_file Directory](1 \<mapsto> new_file File, 0 \<mapsto> (new_file Directory)\<lparr>fa_bytes := fa_bytes (new_file Directory) @ as_bytes ex_entry\<rparr>))"
    using ex_name ex_geometry ex_free
    by (intro step_create) (auto simp: new_file_def next_inode_def fits_def dir_list_def MAX_DATA_def DIRENT_SZ_def need_def tot_def nblk_def)
  then show ?thesis by (simp add: ex_files_def new_file_def fun_upd_twist)
qed

lemma ex_empty_mounted: "\<exists>st. mounted ex_fs st [0 \<mapsto> new_file Directory]"
proof -
  let ?st = "\<lparr>cache_queue = [], block_device = \<lambda>_. replicate BLOCK_SZ 0\<rparr>"
  have inv: "cache_inv ?st" and v: "view ?st = (\<lambda>_. replicate BLOCK_SZ 0)" by (auto simp: cache_inv_def view_def)
  have "dev_ok (view ?st)" by (simp add: v dev_ok_def)
  then obtain d' where d': "run (efs_create 0x4000 1) [] (view ?st) = Ok (ex_fs, d')" "fs_inv ex_fs [0 \<mapsto> []] d'"
      "files ex_fs [0 \<mapsto> []] d' = [0 \<mapsto> new_file Directory]"
    using efs_create_spec [of 1 "0x4000" "view ?st"] v by auto
  from run_cached_Ok [OF inv d'(1)] d'(2,3) show ?thesis by (auto simp: mounted_def)
qed

lemma ex_mounted: "\<exists>st. mounted ex_fs st ex_files"
proof -
  obtain st where st: "mounted ex_fs st [0 \<mapsto> new_file Directory]" using ex_empty_mounted by blast
  have "\<exists>st'. run_cached (op_prog ex_fs (OpCreate [97])) st = Ok ((), st') \<and> mounted ex_fs st' ex_files"
    by (rule mounted_run [OF st]) (rule step_simulates [OF ex_create ex_root_ok(1)])
  then show ?thesis by blast
qed

lemma ex_fits: "fits ex_fs ex_files (new_file File) 3" "fits ex_fs ex_files ((new_file Directory)\<lparr>fa_bytes := as_bytes ex_entry\<rparr>) 64"
  using ex_free ex_dir(3) by (simp_all add: fits_def MAX_DATA_def need_def tot_def nblk_def new_file_def)

lemma ex_file: "ex_files 1 = Some (new_file File)" "ex_files 0 = Some ((new_file Directory)\<lparr>fa_bytes := as_bytes ex_entry\<rparr>)"
  "fa_bytes (new_file t) = []" "fa_type (new_file t) = t"
  by (simp_all add: ex_files_def new_file_def)

section \<open>The block cache\<close>

text \<open>
  C6: every program of block accesses gives through the block cache, with at most 16 blocks in memory
  and written back when they are swapped out, exactly what it gives on the blocks themselves: the
  same result or the same panic, and a cache that stands for the blocks the program leaves.
\<close>

theorem cache_transparent:
  assumes "cache_inv st" and "run p [] (view st) \<noteq> Panic OutOfCaches"
  shows "case run p [] (view st) of
      Ok (a, d) \<Rightarrow> \<exists>st'. run_cached p st = Ok (a, st') \<and> cache_inv st' \<and> view st' = d
    | Panic e \<Rightarrow> run_cached p st = Panic e"
  using cached.run_refines [OF assms(1), of p "[]"] assms(2)
  by (auto simp: run_cached_def cached.agrees_def split: res.splits prod.splits)

theorem cache_transparent_witness:
  "\<exists>st'. run_cached (block_modify 3 0 2 (\<lambda>bytes. Done ([7, 8], bytes))) \<lparr>cache_queue = [], block_device = \<lambda>_. replicate 512 0\<rparr> =
     Ok ([0, 0], st') \<and> view st' 3 = [7, 8] @ replicate 510 0"
proof -
  let ?st = "\<lparr>cache_queue = [], block_device = \<lambda>_. replicate 512 0\<rparr>" and ?p = "block_modify 3 0 2 (\<lambda>bytes. Done ([7, 8], bytes))"
  have v: "view ?st = (\<lambda>_. replicate 512 0)" by (auto simp: view_def)
  have inv: "cache_inv ?st" by (auto simp: cache_inv_def BLOCK_SZ_def)
  have z: "take 2 (replicate 512 (0 :: u8)) = [0, 0]" by (simp add: numeral_2_eq_2)
  have r: "run ?p [] (view ?st) = Ok ([0, 0], (view ?st)(3 := [7, 8] @ replicate 510 0))"
    unfolding v using z by (simp add: block_modify_def run_simps BLOCK_CACHE_MAX_NUM_def BLOCK_SZ_def patch_def)
  have "case run ?p [] (view ?st) of Ok (a, d) \<Rightarrow> \<exists>st'. run_cached ?p ?st = Ok (a, st') \<and> cache_inv st' \<and> view st' = d
      | Panic e \<Rightarrow> run_cached ?p ?st = Panic e"
    by (rule cache_transparent [OF inv]) (simp add: r)
  then show ?thesis unfolding r by auto
qed

section \<open>Refinement\<close>

text \<open>
  C1: a mounted file system refines the abstract map from inodes to files: every sequence of creations,
  writes, clears, links and unlinks on the root directory and its files that the abstract state allows
  runs through the block cache without a panic, and leaves a cache and a device that again satisfy all
  invariants (disjoint blocks, exact bitmaps, zero free blocks) and hold exactly the abstract files.
\<close>

theorem fs_refines_map:
  assumes "mounted fs st A" and "root_ok A" and "fs_steps fs A ops B"
  shows "\<exists>st'. run_cached (fold_prog (\<lambda>a _. op_prog fs a) ops ()) st = Ok ((), st') \<and> mounted fs st' B \<and> root_ok B"
  using steps_simulate [OF assms(3,1,2)] .

theorem fs_refines_map_witness:
  "\<exists>st st'. run_cached (fold_prog (\<lambda>a _. op_prog ex_fs a) [OpCreate [97], OpWrite 1 0 [1, 2, 3]] ()) st = Ok ((), st') \<and>
     mounted ex_fs st' (ex_files(1 \<mapsto> (new_file File)\<lparr>fa_bytes := [1, 2, 3]\<rparr>))"
proof -
  obtain st where st: "mounted ex_fs st [0 \<mapsto> new_file Directory]" using ex_empty_mounted by blast
  have "fs_step ex_fs ex_files (OpWrite 1 0 [1, 2, 3]) (ex_files(1 \<mapsto> (new_file File)\<lparr>fa_bytes := write_bytes (unat (0 :: usize)) [1, 2, 3] (fa_bytes (new_file File))\<rparr>))"
    using ex_file ex_fits(1) by (intro step_write) (simp_all add: numeral_3_eq_3)
  moreover have "write_bytes (unat (0 :: usize)) [1, 2, 3] (fa_bytes (new_file File)) = [1, 2, 3]"
    by (simp add: write_bytes_def extend_def patch_def ex_file(3))
  ultimately have "fs_steps ex_fs [0 \<mapsto> new_file Directory] [OpCreate [97], OpWrite 1 0 [1, 2, 3]] (ex_files(1 \<mapsto> (new_file File)\<lparr>fa_bytes := [1, 2, 3]\<rparr>))"
    using steps_Cons [OF ex_create steps_Cons [OF _ steps_Nil]] by simp
  from fs_refines_map [OF st ex_root_ok(1) this] show ?thesis by blast
qed

section \<open>Files\<close>

text \<open>
  C7: \<^verbatim>\<open>Inode::write_at\<close> of some bytes, on a file that can grow as far as needed, returns their number;
  the file is extended with zero bytes up to the offset and overwritten there, no other file changes,
  the invariants hold, and all of it is on the device when the call returns.
\<close>

theorem vfs_write_at_correct:
  assumes "mounted fs st A" and "A ino = Some f" and "buf \<noteq> []" and "fits fs A f (unat off + length buf)"
  shows "\<exists>st'. run_cached (vfs_write_at off buf fs (inode_of fs ino)) st = Ok (length buf, st') \<and>
    mounted fs st' (A(ino \<mapsto> f\<lparr>fa_bytes := write_bytes (unat off) buf (fa_bytes f)\<rparr>)) \<and> synced st'"
  by (rule mounted_write [OF assms])

theorem vfs_write_at_correct_witness:
  "\<exists>st st'. run_cached (vfs_write_at 1 [5, 6] ex_fs (inode_of ex_fs 1)) st = Ok (2, st') \<and>
     mounted ex_fs st' (ex_files(1 \<mapsto> (new_file File)\<lparr>fa_bytes := [0, 5, 6]\<rparr>)) \<and> synced st'"
proof -
  obtain st where st: "mounted ex_fs st ex_files" using ex_mounted by blast
  have "fits ex_fs ex_files (new_file File) (unat (1 :: usize) + length [5 :: u8, 6])" using ex_fits(1) by (simp add: numeral_3_eq_3)
  from vfs_write_at_correct [OF st ex_file(1) _ this]
  show ?thesis by (auto simp: write_bytes_def extend_def patch_def ex_file(3) numeral_3_eq_3 numeral_2_eq_2)
qed

text \<open>
  C25: \<^verbatim>\<open>Inode::read_at\<close> copies the bytes of the file from the offset on, as many as the buffer and the file
  have, to the front of the buffer, returns their number, and changes no file.
\<close>

theorem vfs_read_at_correct:
  assumes "mounted fs st A" and "A ino = Some f" and "unat off + length buf < 2 ^ 64"
  shows "\<exists>st'. run_cached (vfs_read_at off buf (inode_of fs ino)) st =
      Ok ((min (length buf) (length (fa_bytes f) - unat off),
        take (length buf) (drop (unat off) (fa_bytes f)) @ drop (length (fa_bytes f) - unat off) buf), st') \<and> mounted fs st' A"
proof (rule mounted_run [OF assms(1)])
  fix F d assume i: "fs_inv fs F d" "files fs F d = A"
  from vfs_read_at_spec [OF i(1) _ assms(3), of ino f] assms(2) i
  show "\<exists>F' d'. run (vfs_read_at off buf (inode_of fs ino)) [] d =
      Ok ((min (length buf) (length (fa_bytes f) - unat off),
        take (length buf) (drop (unat off) (fa_bytes f)) @ drop (length (fa_bytes f) - unat off) buf), d') \<and>
      fs_inv fs F' d' \<and> files fs F' d' = A" by (auto simp: min_def)
qed

theorem vfs_read_at_correct_witness:
  "\<exists>st st'. run_cached (vfs_read_at 31 [9, 9] (inode_of ex_fs 0)) st = Ok ((1, drop 31 (as_bytes ex_entry) @ [9]), st')"
proof -
  obtain st where st: "mounted ex_fs st ex_files" using ex_mounted by blast
  from vfs_read_at_correct [OF st ex_file(2), of 31 "[9, 9]"] show ?thesis using ex_dir(3) by auto
qed

lemma write_bytes_slice:
  "take (length buf) (drop off (write_bytes off buf xs)) = buf" "off + length buf \<le> length (write_bytes off buf xs)"
  by (simp_all add: write_bytes_def patch_def extend_def)

text \<open>
  C13: reading back at the offset of a write gives the bytes that were written, and leaves the files as
  the write left them.
\<close>

theorem write_read_roundtrip:
  assumes "mounted fs st A" and "A ino = Some f" and "buf \<noteq> []" and "fits fs A f (unat off + length buf)" and "length buf' = length buf"
  shows "\<exists>st' st''. run_cached (vfs_write_at off buf fs (inode_of fs ino)) st = Ok (length buf, st') \<and>
    run_cached (vfs_read_at off buf' (inode_of fs ino)) st' = Ok ((length buf, buf), st'') \<and>
    mounted fs st'' (A(ino \<mapsto> f\<lparr>fa_bytes := write_bytes (unat off) buf (fa_bytes f)\<rparr>))"
proof -
  let ?bs = "write_bytes (unat off) buf (fa_bytes f)"
  define B where "B = A(ino \<mapsto> f\<lparr>fa_bytes := ?bs\<rparr>)"
  have B: "B ino = Some (f\<lparr>fa_bytes := ?bs\<rparr>)" by (simp add: B_def)
  have spec: "\<exists>F' d'. run (vfs_write_at off buf fs (inode_of fs ino)) [] d = Ok (length buf, d') \<and> fs_inv fs F' d' \<and> files fs F' d' = B"
    if i: "fs_inv fs F d" "files fs F d = A" for F d
    using vfs_write_at_spec [OF i(1), of ino f buf off] assms(2-4) i(2) card_free(1) [OF i(1)] by (simp add: fits_def B_def)
  obtain st' where w: "run_cached (vfs_write_at off buf fs (inode_of fs ino)) st = Ok (length buf, st')" "mounted fs st' B"
    using mounted_run [OF assms(1), of "vfs_write_at off buf fs (inode_of fs ino)" "length buf" B] spec by blast
  have nw: "unat off + length buf' < 2 ^ 64" using assms(4,5) by (simp add: fits_def MAX_DATA_def)
  have rd: "\<exists>F' d'. run (vfs_read_at off buf' (inode_of fs ino)) [] d = Ok ((length buf, buf), d') \<and> fs_inv fs F' d' \<and> files fs F' d' = B"
    if i: "fs_inv fs F d" "files fs F d = B" for F d
    using vfs_read_at_spec [OF i(1) _ nw, of ino] B i assms(5) write_bytes_slice [where off = "unat off" and buf = buf and xs = "fa_bytes f"]
    by (auto simp: min_def)
  have "\<exists>st''. run_cached (vfs_read_at off buf' (inode_of fs ino)) st' = Ok ((length buf, buf), st'') \<and> mounted fs st'' B"
    by (rule mounted_run [OF w(2)]) (rule rd)
  then show ?thesis using w(1) unfolding B_def by blast
qed

theorem write_read_roundtrip_witness:
  "\<exists>st st' st''. run_cached (vfs_write_at 1 [5, 6] ex_fs (inode_of ex_fs 1)) st = Ok (2, st') \<and>
     run_cached (vfs_read_at 1 [0, 0] (inode_of ex_fs 1)) st' = Ok ((2, [5, 6]), st'')"
proof -
  obtain st where st: "mounted ex_fs st ex_files" using ex_mounted by blast
  have "fits ex_fs ex_files (new_file File) (unat (1 :: usize) + length [5 :: u8, 6])" using ex_fits(1) by (simp add: numeral_3_eq_3)
  from write_read_roundtrip [OF st ex_file(1) _ this, of "[0, 0]"] show ?thesis by (auto simp: numeral_2_eq_2)
qed

text \<open>
  \<^verbatim>\<open>Inode::clear\<close> makes a file empty, gives all its blocks back, keeps every other file, and is on the
  device when it returns.
\<close>

theorem vfs_clear_correct:
  assumes m: "mounted fs st A" and f: "A ino = Some f"
  shows "\<exists>st'. run_cached (vfs_clear fs (inode_of fs ino)) st = Ok ((), st') \<and> mounted fs st' (A(ino \<mapsto> f\<lparr>fa_bytes := []\<rparr>)) \<and>
    synced st' \<and> free_blocks fs (A(ino \<mapsto> f\<lparr>fa_bytes := []\<rparr>)) = free_blocks fs A + tot (nblk (length (fa_bytes f)))"
proof -
  let ?B = "A(ino \<mapsto> f\<lparr>fa_bytes := []\<rparr>)"
  obtain F where F: "fs_inv fs F (view st)" "files fs F (view st) = A" using m by (auto simp: mounted_def)
  have fin: "finite (dom A)" using finite_dom_files [OF F(1)] F(2) dom_files [of fs F "view st"] by simp
  have "used_blocks ?B + tot (nblk (length (fa_bytes f))) = used_blocks A"
    using used_blocks_upd [OF fin f, of "f\<lparr>fa_bytes := []\<rparr>"] by (simp add: tot_def [of 0] nblk_def [of 0])
  then have fr: "free_blocks fs ?B = free_blocks fs A + tot (nblk (length (fa_bytes f)))"
    using card_free(2) [OF F(1)] F(2) by (simp add: free_blocks_def)
  have unit: "(\<lambda>_. Sync [] (Done ())) = (\<lambda>a. Sync [] (Done a))" by auto
  have "\<exists>st'. run_cached (vfs_clear fs (inode_of fs ino)) st = Ok ((), st') \<and> mounted fs st' ?B \<and> synced st'"
    unfolding vfs_clear_def unit
  proof (rule mounted_run_sync [OF m], fold unit, fold vfs_clear_def)
    fix F d assume i: "fs_inv fs F d" "files fs F d = A"
    from vfs_clear_spec [OF i(1), of ino f] f i(2)
    show "\<exists>F' d'. run (vfs_clear fs (inode_of fs ino)) [] d = Ok ((), d') \<and> fs_inv fs F' d' \<and> files fs F' d' = ?B" by simp
  qed
  with fr show ?thesis by blast
qed

theorem vfs_clear_correct_witness:
  "\<exists>st st'. run_cached (vfs_clear ex_fs (inode_of ex_fs 0)) st = Ok ((), st') \<and> synced st' \<and>
     mounted ex_fs st' (ex_files(0 \<mapsto> new_file Directory))"
proof -
  obtain st where st: "mounted ex_fs st ex_files" using ex_mounted by blast
  from vfs_clear_correct [OF st ex_file(2)] show ?thesis by (auto simp: new_file_def)
qed

section \<open>Directories\<close>

lemma mounted_root: "\<lbrakk>mounted fs st A; A 0 = Some r\<rbrakk> \<Longrightarrow> root_inode fs = inode_of fs 0"
  using root_inode_eq [OF fs_invD(1)] fs_invD(3) by (fastforce simp: mounted_def files_eq_Some)

text \<open>
  C24: \<^verbatim>\<open>Inode::create\<close> of a new name in the root directory takes the first free inode, makes an empty file of
  it and appends an entry, so that \<^verbatim>\<open>find\<close> finds it afterwards and every other name gives what it gave; the
  other files are as they were.
\<close>

theorem create_then_find:
  assumes m: "mounted fs st A" and ok: "root_ok A" and r: "A 0 = Some r" and nm: "good_name name" "name \<notin> fst ` set (dir_list (fa_bytes r))"
    and i: "next_inode fs A i" and fit: "fits fs A r (length (fa_bytes r) + DIRENT_SZ)"
  shows "\<exists>st' st'' B. run_cached (vfs_create name fs (root_inode fs)) st = Ok (Some (inode_of fs i), st') \<and>
    run_cached (vfs_find name' fs (root_inode fs)) st' =
      Ok (if name' = name then Some (inode_of fs i)
          else map_option (\<lambda>n. inode_of fs (unat n)) (map_of (dir_list (fa_bytes r)) name'), st'') \<and>
    mounted fs st'' B \<and> root_ok B \<and> B i = Some (new_file File) \<and> (\<forall>j. j \<noteq> i \<longrightarrow> j \<noteq> 0 \<longrightarrow> B j = A j)"
proof -
  note fs = mounted_fs_ok [OF m]
  have area: "in_area fs i" using i by (simp add: next_inode_def)
  note root = mounted_root [OF m r]
  have u: "unat (of_nat i :: u32) = i" by (rule inode_pos(3) [OF fs area])
  have dir: "directory r" by (rule root_okD(1) [OF ok r])
  obtain de where de: "DirEntry_new name (of_nat i) = Ok de" "length (de_name de) = 28" "dirent_name de = Ok name" "inode_number de = of_nat i"
    using DirEntry_new_good [OF nm(1)] by blast
  define r' B where "r' = r\<lparr>fa_bytes := fa_bytes r @ as_bytes de\<rparr>" and "B = A(i \<mapsto> new_file File, 0 \<mapsto> r')"
  have none: "map_of (dir_list (fa_bytes r)) name = None" using nm(2) by (simp add: map_of_eq_None_iff)
  have i0: "i \<noteq> 0" using i r by (cases "i = 0") (auto simp: next_inode_def)
  have step: "fs_step fs A (OpCreate name) B" unfolding B_def r'_def by (rule step_create [OF r nm i fit de(1)])
  have okB: "root_ok B" by (rule root_ok_step [OF step fs ok])
  have c: "\<exists>F' d'. run (vfs_create name fs (inode_of fs 0)) [] d = Ok (Some (inode_of fs i), d') \<and> fs_inv fs F' d' \<and> files fs F' d' = B"
    if inv: "fs_inv fs F d" "files fs F d = A" for F d
    using vfs_create_spec [OF inv(1), of 0 r name i] inv(2) r dir nm(1) none i fit de(1)
    by (auto simp: fits_def next_inode_def B_def r'_def)
  have "\<exists>st'. run_cached (vfs_create name fs (inode_of fs 0)) st = Ok (Some (inode_of fs i), st') \<and> mounted fs st' B"
    by (rule mounted_run [OF m]) (rule c)
  then obtain st' where st': "run_cached (vfs_create name fs (inode_of fs 0)) st = Ok (Some (inode_of fs i), st')" "mounted fs st' B" by blast
  have dl: "dir_list (fa_bytes r') = dir_list (fa_bytes r) @ [(name, of_nat i)]"
    using dir_append(2) [OF _ de(2,3), of "fa_bytes r"] dir de(4) by (simp add: directory_def r'_def)
  have B0: "B 0 = Some r'" by (simp add: B_def)
  let ?res = "if name' = name then Some (inode_of fs i) else map_option (\<lambda>n. inode_of fs (unat n)) (map_of (dir_list (fa_bytes r)) name')"
  have f: "\<exists>F' d'. run (vfs_find name' fs (inode_of fs 0)) [] d = Ok (?res, d') \<and> fs_inv fs F' d' \<and> files fs F' d' = B"
    if inv: "fs_inv fs F d" "files fs F d = B" for F d
  proof -
    have a: "files fs F d 0 = Some r'" using inv(2) B0 by simp
    have ar: "in_area fs (unat n)" if "map_of (dir_list (fa_bytes r')) name' = Some n" for n
      using root_okD(2) [OF okB B0 that] fs_invD(3) [OF inv(1)] inv(2) by (auto simp: files_eq_Some)
    have "map_option (\<lambda>n. inode_of fs (unat n)) (map_of (dir_list (fa_bytes r')) name') = ?res"
      using none u by (auto simp: dl map_add_def split: option.splits)
    then show ?thesis using vfs_find_spec [OF inv(1) a root_okD(1) [OF okB B0] ar] inv by auto
  qed
  have "\<exists>st''. run_cached (vfs_find name' fs (inode_of fs 0)) st' = Ok (?res, st'') \<and> mounted fs st'' B"
    by (rule mounted_run [OF st'(2)]) (rule f)
  then obtain st'' where "run_cached (vfs_find name' fs (inode_of fs 0)) st' = Ok (?res, st'')" "mounted fs st'' B" by blast
  moreover have "B i = Some (new_file File)" "\<forall>j. j \<noteq> i \<longrightarrow> j \<noteq> 0 \<longrightarrow> B j = A j" using i0 by (simp_all add: B_def)
  ultimately show ?thesis using st'(1) okB unfolding root by blast
qed

theorem create_then_find_witness:
  "\<exists>st st' st''. run_cached (vfs_create [98] ex_fs (root_inode ex_fs)) st = Ok (Some (inode_of ex_fs 2), st') \<and>
     run_cached (vfs_find [97] ex_fs (root_inode ex_fs)) st' = Ok (Some (inode_of ex_fs 1), st'')"
proof -
  obtain st where st: "mounted ex_fs st ex_files" using ex_mounted by blast
  have nm: "good_name [98]" by (simp add: good_name_def NAME_LENGTH_LIMIT_def)
  have i: "next_inode ex_fs ex_files 2" using ex_geometry by (auto simp: next_inode_def ex_files_def less_Suc_eq numeral_2_eq_2)
  have fit: "fits ex_fs ex_files ((new_file Directory)\<lparr>fa_bytes := as_bytes ex_entry\<rparr>)
      (length (fa_bytes ((new_file Directory)\<lparr>fa_bytes := as_bytes ex_entry\<rparr>)) + DIRENT_SZ)"
    using ex_fits(2) ex_dir(3) by (simp add: DIRENT_SZ_def)
  from create_then_find [OF st ex_root_ok(2) ex_file(2) nm _ i fit, of "[97]"] show ?thesis using ex_dir(2) by auto
qed

text \<open>
  \<^verbatim>\<open>Inode::linkat\<close> gives a file a second name and counts the link; both names then give the same inode.
\<close>

theorem linkat_shares_inode:
  assumes m: "mounted fs st A" and ok: "root_ok A" and r: "A 0 = Some r" and old: "map_of (dir_list (fa_bytes r)) oldpath = Some n" "A (unat n) = Some f"
    and nm: "good_name newpath" "newpath \<notin> fst ` set (dir_list (fa_bytes r))" and fit: "fits fs A r (length (fa_bytes r) + DIRENT_SZ)"
  shows "\<exists>st' B r'. run_cached (vfs_linkat oldpath newpath 0 fs (root_inode fs)) st = Ok (0, st') \<and> mounted fs st' B \<and> root_ok B \<and>
    B 0 = Some r' \<and> dir_list (fa_bytes r') = dir_list (fa_bytes r) @ [(newpath, n)] \<and>
    B (unat n) = Some (f\<lparr>fa_nlink := fa_nlink f + 1\<rparr>) \<and> (\<forall>j. j \<noteq> unat n \<longrightarrow> j \<noteq> 0 \<longrightarrow> B j = A j)"
proof -
  note fs = mounted_fs_ok [OF m]
  have fty: "fa_type f = File" using root_okD(2) [OF ok r old(1)] old(2) by auto
  have dir: "directory r" by (rule root_okD(1) [OF ok r])
  have n0: "unat n \<noteq> 0" using r old(2) fty dir by (cases "unat n = 0") (auto simp: directory_def)
  obtain de where de: "DirEntry_new newpath n = Ok de" "length (de_name de) = 28" "dirent_name de = Ok newpath" "inode_number de = n"
    using DirEntry_new_good [OF nm(1)] by blast
  define r' B where "r' = r\<lparr>fa_bytes := fa_bytes r @ as_bytes de\<rparr>" and "B = A(unat n \<mapsto> f\<lparr>fa_nlink := fa_nlink f + 1\<rparr>, 0 \<mapsto> r')"
  have none: "map_of (dir_list (fa_bytes r)) newpath = None" using nm(2) by (simp add: map_of_eq_None_iff)
  have "fs_step fs A (OpLink oldpath newpath) B" unfolding B_def r'_def by (rule step_link [OF r old nm fit de(1)])
  then have okB: "root_ok B" by (rule root_ok_step [OF _ fs ok])
  have l: "\<exists>F' d'. run (vfs_linkat oldpath newpath 0 fs (inode_of fs 0)) [] d = Ok (0, d') \<and> fs_inv fs F' d' \<and> files fs F' d' = B"
    if inv: "fs_inv fs F d" "files fs F d = A" for F d
    using vfs_linkat_spec [OF inv(1), of 0 r oldpath n f newpath] inv(2) r dir old fty nm(1) none fit de(1)
    by (auto simp: fits_def B_def r'_def)
  have "\<exists>st'. run_cached (vfs_linkat oldpath newpath 0 fs (inode_of fs 0)) st = Ok (0, st') \<and> mounted fs st' B"
    by (rule mounted_run [OF m]) (rule l)
  moreover have "dir_list (fa_bytes r') = dir_list (fa_bytes r) @ [(newpath, n)]"
    using dir_append(2) [OF _ de(2,3), of "fa_bytes r"] dir de(4) by (simp add: directory_def r'_def)
  moreover have "B 0 = Some r'" "B (unat n) = Some (f\<lparr>fa_nlink := fa_nlink f + 1\<rparr>)" "\<forall>j. j \<noteq> unat n \<longrightarrow> j \<noteq> 0 \<longrightarrow> B j = A j"
    using n0 by (simp_all add: B_def)
  ultimately show ?thesis using okB unfolding mounted_root [OF m r] by blast
qed

theorem linkat_shares_inode_witness:
  "\<exists>st st' B. run_cached (vfs_linkat [97] [98] 0 ex_fs (root_inode ex_fs)) st = Ok (0, st') \<and> mounted ex_fs st' B \<and>
     map_option (\<lambda>r. dir_list (fa_bytes r)) (B 0) = Some [([97], 1), ([98], 1)]"
proof -
  obtain st where st: "mounted ex_fs st ex_files" using ex_mounted by blast
  let ?r = "(new_file Directory)\<lparr>fa_bytes := as_bytes ex_entry\<rparr>"
  have nm: "good_name [98]" by (simp add: good_name_def NAME_LENGTH_LIMIT_def)
  have old: "map_of (dir_list (fa_bytes ?r)) [97] = Some 1" "ex_files (unat (1 :: u32)) = Some (new_file File)" "[98] \<notin> fst ` set (dir_list (fa_bytes ?r))"
    using ex_dir(2) ex_file(1) by simp_all
  have fit: "fits ex_fs ex_files ?r (length (fa_bytes ?r) + DIRENT_SZ)" using ex_fits(2) ex_dir(3) by (simp add: DIRENT_SZ_def)
  obtain st' B r' where "run_cached (vfs_linkat [97] [98] 0 ex_fs (root_inode ex_fs)) st = Ok (0, st')" "mounted ex_fs st' B"
      "B 0 = Some r'" "dir_list (fa_bytes r') = dir_list (fa_bytes ?r) @ [([98], 1)]"
    using linkat_shares_inode [OF st ex_root_ok(2) ex_file(2) old(1,2) nm old(3) fit] by blast
  then show ?thesis using ex_dir(2) by (intro exI [of _ st] exI [of _ st'] exI [of _ B]) simp
qed

text \<open>
  C35: \<^verbatim>\<open>Inode::unlinkat\<close> of an existing name returns 0 and takes one off the link count of the file, but the
  name stays in the directory: the entry of zeros is written past the end of the directory, so the
  name is found afterwards as before. (A directory whose size is a multiple of the block size, where
  the write addresses a block past the file, is left out.)
\<close>

theorem unlinkat_keeps_name:
  assumes m: "mounted fs st A" and ok: "root_ok A" and r: "A 0 = Some r" and old: "map_of (dir_list (fa_bytes r)) path = Some n" "A (unat n) = Some f"
    and sz: "length (fa_bytes r) mod 512 \<noteq> 0"
  shows "\<exists>st' st''. run_cached (vfs_unlinkat path 0 fs (root_inode fs)) st = Ok (0, st') \<and>
    mounted fs st' (A(unat n \<mapsto> f\<lparr>fa_nlink := fa_nlink f - 1\<rparr>)) \<and>
    run_cached (vfs_find path fs (root_inode fs)) st' = Ok (Some (inode_of fs (unat n)), st'')"
proof -
  note fs = mounted_fs_ok [OF m] and root = mounted_root [OF m r]
  have fty: "fa_type f = File" using root_okD(2) [OF ok r old(1)] old(2) by auto
  have dir: "directory r" by (rule root_okD(1) [OF ok r])
  have n0: "unat n \<noteq> 0" using r old(2) fty dir by (cases "unat n = 0") (auto simp: directory_def)
  define B where "B = A(unat n \<mapsto> f\<lparr>fa_nlink := fa_nlink f - 1\<rparr>)"
  have B: "B 0 = Some r" "B (unat n) \<noteq> None" using n0 r by (simp_all add: B_def)
  have u: "\<exists>F' d'. run (vfs_unlinkat path 0 fs (inode_of fs 0)) [] d = Ok (0, d') \<and> fs_inv fs F' d' \<and> files fs F' d' = B"
    if inv: "fs_inv fs F d" "files fs F d = A" for F d
    using vfs_unlinkat_spec [OF inv(1), of 0 r path n f] inv(2) r dir old sz by (auto simp: B_def)
  have "\<exists>st'. run_cached (vfs_unlinkat path 0 fs (inode_of fs 0)) st = Ok (0, st') \<and> mounted fs st' B"
    by (rule mounted_run [OF m]) (rule u)
  then obtain st' where st': "run_cached (vfs_unlinkat path 0 fs (inode_of fs 0)) st = Ok (0, st')" "mounted fs st' B" by blast
  have f: "\<exists>F' d'. run (vfs_find path fs (inode_of fs 0)) [] d = Ok (Some (inode_of fs (unat n)), d') \<and> fs_inv fs F' d' \<and> files fs F' d' = B"
    if inv: "fs_inv fs F d" "files fs F d = B" for F d
  proof -
    have a: "files fs F d 0 = Some r" using inv(2) B(1) by simp
    have "in_area fs (unat n)" using inv(2) B(2) fs_invD(3) [OF inv(1)] by (auto simp: files_eq_Some)
    then show ?thesis using vfs_find_spec [OF inv(1) a dir, of path] old(1) inv by auto
  qed
  have "\<exists>st''. run_cached (vfs_find path fs (inode_of fs 0)) st' = Ok (Some (inode_of fs (unat n)), st'') \<and> mounted fs st'' B"
    by (rule mounted_run [OF st'(2)]) (rule f)
  then show ?thesis using st' unfolding root B_def by blast
qed

theorem unlinkat_keeps_name_witness:
  "\<exists>st st' st''. run_cached (vfs_unlinkat [97] 0 ex_fs (root_inode ex_fs)) st = Ok (0, st') \<and>
     run_cached (vfs_find [97] ex_fs (root_inode ex_fs)) st' = Ok (Some (inode_of ex_fs 1), st'')"
proof -
  obtain st where st: "mounted ex_fs st ex_files" using ex_mounted by blast
  let ?r = "(new_file Directory)\<lparr>fa_bytes := as_bytes ex_entry\<rparr>"
  have old: "map_of (dir_list (fa_bytes ?r)) [97] = Some 1" "ex_files (unat (1 :: u32)) = Some (new_file File)" "length (fa_bytes ?r) mod 512 \<noteq> 0"
    using ex_dir(2,3) ex_file(1) by simp_all
  from unlinkat_keeps_name [OF st ex_root_ok(2) ex_file(2) old] show ?thesis by auto
qed

section \<open>Making a file system\<close>

text \<open>\<^verbatim>\<open>create\<close> ends in \<^verbatim>\<open>block_cache_sync_all\<close>, so what it leaves on the device is all there is.\<close>

definition ends_in_sync :: "'a prog \<Rightarrow> bool" where
  "ends_in_sync p = (\<exists>q. p = bind_prog q (\<lambda>a. Sync [] (Done a)))"

lemma bind_prog_assoc: "bind_prog (bind_prog p f) g = bind_prog p (\<lambda>a. bind_prog (f a) g)"
  by (induction p) auto

lemma ends_in_sync_bind:
  assumes "\<And>a. ends_in_sync (f a)"
  shows "ends_in_sync (bind_prog p f)"
proof -
  obtain q where "\<And>a. f a = bind_prog (q a) (\<lambda>a. Sync [] (Done a))"
    using assms unfolding ends_in_sync_def by metis
  then have "bind_prog p f = bind_prog (bind_prog p q) (\<lambda>a. Sync [] (Done a))"
    unfolding bind_prog_assoc by presburger
  then show ?thesis by (auto simp: ends_in_sync_def)
qed

lemma ends_in_sync_Sync: "ends_in_sync (Sync [] (Done a))"
  unfolding ends_in_sync_def by (rule exI [of _ "Done a"]) simp

lemma efs_create_syncs: "ends_in_sync (efs_create total_blks ibb)"
  unfolding efs_create_def Let_def
  by (intro ends_in_sync_bind) (simp only: split_def, intro ends_in_sync_bind ends_in_sync_Sync)

lemma run_cached_sync:
  assumes "ends_in_sync p" and "cache_inv st" and "run p [] (view st) = Ok (r, d')"
  shows "\<exists>st'. run_cached p st = Ok (r, st') \<and> cache_inv st' \<and> view st' = d' \<and> synced st'"
proof -
  obtain q where q: "p = bind_prog q (\<lambda>a. Sync [] (Done a))" using assms(1) by (auto simp: ends_in_sync_def)
  then have "run q [] (view st) = Ok (r, d')" using assms(3) by (auto simp: run_simps bind_res_eq_Ok)
  from run_cached_Ok [OF assms(2) this] obtain st1 where st1: "run_cached q st = Ok (r, st1)" "cache_inv st1" "view st1 = d'" by blast
  note s = sync_all_spec [OF st1(2)]
  have "run_cached p st = Ok (r, block_cache_sync_all st1)" using st1(1) by (simp add: q run_cached_def run_store_bind)
  then show ?thesis using s st1(3) by (auto simp: synced_def)
qed

text \<open>What is on the device, seen with an empty cache.\<close>

definition cold :: "cache_state \<Rightarrow> cache_state" where
  "cold st = \<lparr>cache_queue = [], block_device = block_device st\<rparr>"

lemma cold_view: "\<lbrakk>cache_inv st; synced st\<rbrakk> \<Longrightarrow> cache_inv (cold st) \<and> view (cold st) = view st"
  by (auto simp: cold_def synced_def cache_inv_def view_def fun_eq_iff)

lemma mounted_cold: "\<lbrakk>mounted fs st A; synced st\<rbrakk> \<Longrightarrow> mounted fs (cold st) A"
  using cold_view by (auto simp: mounted_def)

text \<open>
  C26: \<^verbatim>\<open>EasyFileSystem::create\<close>, on a device whose blocks past the file system are zero, returns with a file
  system that satisfies all invariants and holds an empty root directory and nothing else, and everything
  is on the device: nothing in the cache is newer, and with an empty cache on that device (a restart)
  the same file system is there and \<^verbatim>\<open>open\<close> reads the same structure back from the super block.
\<close>

theorem efs_create_open:
  assumes "2 + 1089 * unat ibb \<le> unat total_blks" and "unat total_blks < 2 ^ 29" and "0 < unat ibb"
    and inv: "cache_inv st" and z: "\<forall>b. unat total_blks \<le> unat b \<longrightarrow> view st b = replicate BLOCK_SZ 0"
  shows "\<exists>fs st' st'' cd. run_cached (efs_create total_blks ibb) st = Ok (fs, st') \<and> mounted fs st' [0 \<mapsto> new_file Directory] \<and>
    root_ok [0 \<mapsto> new_file Directory] \<and> synced st' \<and> run_cached efs_open st' = Ok (fs, st'') \<and>
    mounted fs (cold st') [0 \<mapsto> new_file Directory] \<and> run_cached efs_open (cold st') = Ok (fs, cd)"
proof -
  have d: "dev_ok (view st)" using view_length [OF inv] by (simp add: dev_ok_def)
  obtain d' where r: "run (efs_create total_blks ibb) [] (view st) = Ok (new_fs total_blks ibb, d')"
      "fs_inv (new_fs total_blks ibb) [0 \<mapsto> []] d'" "files (new_fs total_blks ibb) [0 \<mapsto> []] d' = [0 \<mapsto> new_file Directory]"
      "run efs_open [] d' = Ok (new_fs total_blks ibb, d')"
    using efs_create_spec [OF assms(1-3) d] z by blast
  obtain st' where st': "run_cached (efs_create total_blks ibb) st = Ok (new_fs total_blks ibb, st')" "cache_inv st'" "view st' = d'" "synced st'"
    using run_cached_sync [OF efs_create_syncs inv r(1)] by blast
  obtain st'' where s2: "run_cached efs_open st' = Ok (new_fs total_blks ibb, st'')"
    using run_cached_Ok [OF st'(2), of efs_open] r(4) st'(3) by blast
  have m: "mounted (new_fs total_blks ibb) st' [0 \<mapsto> new_file Directory]" using st' r(2,3) by (auto simp: mounted_def)
  obtain cd where "run_cached efs_open (cold st') = Ok (new_fs total_blks ibb, cd)"
    using run_cached_Ok [of "cold st'" efs_open] cold_view [OF st'(2,4)] r(4) st'(3) by auto
  then show ?thesis using st'(1,4) s2 m mounted_cold [OF m st'(4)] ex_root_ok(1) by blast
qed

theorem efs_create_open_witness:
  "\<exists>fs st' cd. run_cached (efs_create 0x4000 1) \<lparr>cache_queue = [], block_device = \<lambda>_. replicate BLOCK_SZ 0\<rparr> = Ok (fs, st') \<and>
     mounted fs st' [0 \<mapsto> new_file Directory] \<and> synced st' \<and> run_cached efs_open (cold st') = Ok (fs, cd)"
proof -
  let ?st = "\<lparr>cache_queue = [], block_device = \<lambda>_. replicate BLOCK_SZ 0\<rparr>"
  have i: "cache_inv ?st" "\<forall>b. unat (0x4000 :: u32) \<le> unat b \<longrightarrow> view ?st b = replicate BLOCK_SZ 0"
    by (auto simp: cache_inv_def view_def)
  have t: "2 + 1089 * unat (1 :: u32) \<le> unat (0x4000 :: u32)" "unat (0x4000 :: u32) < 2 ^ 29" "0 < unat (1 :: u32)" by simp_all
  from efs_create_open [OF t i] show ?thesis by blast
qed

section \<open>Bitmaps, entries and inode numbers\<close>

text \<open>
  From a clear bitmap no sequence of allocations and deallocations of allocated bits panics: the
  live bits are pairwise distinct and inside the bitmap, and an allocation fails only when all bits are
  live.
\<close>

theorem bitmap_allocator_runs:
  assumes d: "dev_ok d" and z: "\<forall>b \<in> bm_region bm. d b = replicate BLOCK_SZ 0"
  shows "\<exists>d' live. serve_all (bm_alloc_on bm) (bm_dealloc_on bm) requests (d, []) = Ok (d', live) \<and>
    distinct live \<and> set live \<subseteq> {..<unat (bm_blocks bm) * 4096} \<and>
    (bm_alloc_on bm d' = None \<longleftrightarrow> length live = unat (bm_blocks bm) * 4096)"
proof -
  have pool: "bm_pool bm = {..<unat (bm_blocks bm) * 4096}" by (simp add: bm_pool_def BLOCK_BITS_def BLOCK_SZ_def)
  have "bits.agrees bm (d, [])" using d bm_used_zero [of bm d] z by (simp add: bits.agrees_def)
  from bits.serve_all_agrees [OF this, of requests] obtain d' live where
    r: "serve_all (bm_alloc_on bm) (bm_dealloc_on bm) requests (d, []) = Ok (d', live)" "bits.agrees bm (d', live)" by auto
  then have l: "dev_ok d'" "distinct live" "set live = bm_used bm d'" by (simp_all add: bits.agrees_def)
  have sub: "set live \<subseteq> {..<unat (bm_blocks bm) * 4096}" using bits.used_pool [OF l(1), of bm] unfolding l(3) pool .
  have "bm_alloc_on bm d' = None \<longleftrightarrow> bm_used bm d' = bm_pool bm"
  proof
    assume full: "bm_used bm d' = bm_pool bm"
    show "bm_alloc_on bm d' = None"
    proof (rule ccontr)
      assume "bm_alloc_on bm d' \<noteq> None"
      then obtain i e where "bm_alloc_on bm d' = Some (i, e)" by auto
      with bits.alloc_Some [OF l(1)] have e: "dev_ok e" "i \<notin> bm_used bm d'" "bm_used bm e = insert i (bm_used bm d')" by blast+
      from bits.used_pool [OF e(1), of bm] e(2,3) full show False by auto
    qed
  qed (rule bits.alloc_None [OF l(1)])
  also have "\<dots> \<longleftrightarrow> length live = unat (bm_blocks bm) * 4096"
    using sub card_subset_eq [of "{..<unat (bm_blocks bm) * 4096}" "set live"] distinct_card [OF l(2)] unfolding pool l(3) [symmetric] by auto
  finally show ?thesis using r(1) l(2) sub by (intro exI [of _ d'] exI [of _ live]) simp
qed

theorem bitmap_allocator_runs_witness:
  "\<exists>d' live. serve_all (bm_alloc_on (Bitmap_new 1 1)) (bm_dealloc_on (Bitmap_new 1 1))
     [Request_alloc, Request_alloc, Request_drop 0] (\<lambda>_. replicate BLOCK_SZ 0, []) = Ok (d', live) \<and> distinct live"
  using bitmap_allocator_runs [of "\<lambda>_. replicate BLOCK_SZ 0" "Bitmap_new 1 1" "[Request_alloc, Request_alloc, Request_drop 0]"]
  by (simp add: dev_ok_def) blast

text \<open>Looking up a name goes through the entries in order and panics at the first one whose name cannot be read.\<close>

lemma find_loop_bad:
  assumes f: "holds_file d H di bs" and ns: "set ns \<subseteq> {..<length bs div DIRENT_SZ}" "\<forall>i \<in> set ns. is_ok (dirent_name (dirent_at bs i))"
    and m: "m < length bs div DIRENT_SZ" "dirent_name (dirent_at bs m) = Panic e" and de: "length (de_name de) = 28"
  shows "run (find_loop name di (ns @ m # rest) de) H d =
    (case map_of (map (\<lambda>i. (name_of (dirent_at bs i), inode_number (dirent_at bs i))) ns) name of
       Some n \<Rightarrow> Ok (Some n, d) | None \<Rightarrow> Panic e)"
  using ns de
proof (induction ns arbitrary: de)
  case Nil
  then show ?case using read_dirent_spec [OF f m(1)] m(2) by (simp add: run_simps)
next
  case (Cons i ns)
  then have i: "i < length bs div DIRENT_SZ" by simp
  obtain nm where nm: "dirent_name (dirent_at bs i) = Ok nm" using Cons.prems(2) by (auto simp: is_ok_iff)
  show ?case
    using read_dirent_spec [OF f i Cons.prems(3)] nm Cons.IH [OF _ _ length_de_name_at [OF i]] Cons.prems(1,2)
    by (simp add: run_simps name_of_def)
qed

lemma find_inode_id_bad:
  assumes f: "holds_file d H di (bs @ as_bytes de)" and ok: "dir_ok bs" and dir: "is_dir di"
    and de: "length (de_name de) = 28" "dirent_name de = Panic e"
  shows "run (find_inode_id name di) H d = (case map_of (dir_list bs) name of Some n \<Rightarrow> Ok (Some n, d) | None \<Rightarrow> Panic e)"
proof -
  let ?bs = "bs @ as_bytes de" and ?n = "length bs div DIRENT_SZ"
  have m: "length bs mod DIRENT_SZ = 0" using ok by (simp add: dir_ok_def)
  have len: "length ?bs div DIRENT_SZ = Suc ?n" using length_append_dirent [OF m de(1)] by simp
  note at = dirent_at_append [OF m de(1)]
  have ns1: "set [0..<?n] \<subseteq> {..<length ?bs div DIRENT_SZ}" "?n < length ?bs div DIRENT_SZ" unfolding len by auto
  have ns2: "\<forall>i \<in> set [0..<?n]. is_ok (dirent_name (dirent_at ?bs i))" "dirent_name (dirent_at ?bs ?n) = Panic e"
    using ok at de(2) by (auto simp: dir_ok_def)
  have l: "map (\<lambda>i. (name_of (dirent_at ?bs i), inode_number (dirent_at ?bs i))) [0..<?n] = dir_list bs"
    unfolding dir_list_def using at by (intro map_cong) auto
  have "[0..<unat (di_size di) div DIRENT_SZ] = [0..<?n] @ ?n # []"
    using holds_file_length [OF f, symmetric] len by simp
  then show ?thesis
    using find_loop_bad [OF f ns1(1) ns2(1) ns1(2) ns2(2) DirEntry_new_zeros_name, of name "[]"] dir
    by (simp only: l find_inode_id_def) (simp add: run_simps)
qed

text \<open>
  C36: a name of at most 27 bytes without a zero byte comes back from the bytes of its directory entry,
  with its inode number. A name of 28 bytes is accepted by \<^verbatim>\<open>DirEntry::new\<close>, but reading the name of the
  entry panics: in a directory that ends with such an entry, \<^verbatim>\<open>find_inode_id\<close> still finds the names of the
  entries before it and panics on every other name. A longer name panics at once.
\<close>

theorem dirent_names:
  assumes utf8: "valid_utf8 name" "0 \<notin> set name"
  shows "(length name \<le> 27 \<longrightarrow> (\<exists>de. DirEntry_new name ino = Ok de \<and> length (as_bytes de) = DIRENT_SZ \<and>
      dirent_name (of_bytes (as_bytes de)) = Ok name \<and> inode_number (of_bytes (as_bytes de)) = ino)) \<and>
    (length name = 28 \<longrightarrow> (\<exists>de. DirEntry_new name ino = Ok de \<and> dirent_name (of_bytes (as_bytes de)) = Panic OutOfBounds \<and>
      (\<forall>d H di bs nm. holds_file d H di (bs @ as_bytes de) \<longrightarrow> dir_ok bs \<longrightarrow> is_dir di \<longrightarrow>
         run (find_inode_id nm di) H d = (case map_of (dir_list bs) nm of Some n \<Rightarrow> Ok (Some n, d) | None \<Rightarrow> Panic OutOfBounds)))) \<and>
    (28 < length name \<longrightarrow> DirEntry_new name ino = Panic OutOfBounds)"
proof (intro conjI impI)
  assume "length name \<le> 27"
  then have "good_name name" using utf8 by (simp add: good_name_def NAME_LENGTH_LIMIT_def)
  from DirEntry_new_good [OF this] obtain de where
    "DirEntry_new name ino = Ok de" "length (de_name de) = 28" "dirent_name de = Ok name" "inode_number de = ino" by blast
  then show "\<exists>de. DirEntry_new name ino = Ok de \<and> length (as_bytes de) = DIRENT_SZ \<and>
      dirent_name (of_bytes (as_bytes de)) = Ok name \<and> inode_number (of_bytes (as_bytes de)) = ino"
    using of_bytes_as_bytes [of de] length_as_bytes [of de] by auto
next
  assume len: "length name = 28"
  let ?de = "\<lparr>de_name = name, inode_number = ino\<rparr>"
  have new: "DirEntry_new name ino = Ok ?de"
    using len by (simp add: DirEntry_new_def copy_to_slice_def NAME_LENGTH_LIMIT_def)
  have "find_index (\<lambda>c. c = 0) name = None" using utf8(2) by (auto simp: find_index_None)
  then have bad: "dirent_name ?de = Panic OutOfBounds" by (simp add: dirent_name_def)
  have len': "length (de_name ?de) = 28" using len by simp
  show "\<exists>de. DirEntry_new name ino = Ok de \<and> dirent_name (of_bytes (as_bytes de)) = Panic OutOfBounds \<and>
      (\<forall>d H di bs nm. holds_file d H di (bs @ as_bytes de) \<longrightarrow> dir_ok bs \<longrightarrow> is_dir di \<longrightarrow>
         run (find_inode_id nm di) H d = (case map_of (dir_list bs) nm of Some n \<Rightarrow> Ok (Some n, d) | None \<Rightarrow> Panic OutOfBounds))"
    using new bad find_inode_id_bad [OF _ _ _ len' bad] of_bytes_as_bytes [OF len'] by (intro exI [of _ ?de]) simp
qed (simp add: DirEntry_new_def copy_to_slice_def NAME_LENGTH_LIMIT_def)

theorem dirent_names_witness:
  "(\<exists>de. DirEntry_new [97] 5 = Ok de \<and> dirent_name (of_bytes (as_bytes de)) = Ok [97]) \<and>
   (\<exists>de. DirEntry_new (replicate 28 97) 5 = Ok de \<and> dirent_name (of_bytes (as_bytes de)) = Panic OutOfBounds)"
proof -
  have v: "valid_utf8 [97]" "valid_utf8 (replicate 28 97)" by (rule valid_utf8_ascii, simp)+
  show ?thesis using dirent_names [OF v(1), of 5] dirent_names [OF v(2), of 5] by auto
qed

lemma run_cached_create:
  assumes "2 + 1089 * unat ibb \<le> unat total_blks" and "unat total_blks < 2 ^ 29" and "0 < unat ibb"
    and inv: "cache_inv st" and z: "\<forall>b. unat total_blks \<le> unat b \<longrightarrow> view st b = replicate BLOCK_SZ 0"
    and r: "run_cached (efs_create total_blks ibb) st = Ok (fs, st')"
  shows "fs = new_fs total_blks ibb"
proof -
  have d: "dev_ok (view st)" using view_length [OF inv] by (simp add: dev_ok_def)
  obtain d' where "run (efs_create total_blks ibb) [] (view st) = Ok (new_fs total_blks ibb, d')"
    using efs_create_spec [OF assms(1-3) d] z by blast
  with run_cached_Ok [OF inv] r show ?thesis by fastforce
qed

lemma new_fs_overrun:
  assumes t: "2 + 1089 * unat ibb \<le> unat total_blks" "unat total_blks < 2 ^ 29" "0 < unat ibb"
    and i: "3264 * unat ibb \<le> i" "i < 4096 * unat ibb"
  shows "i \<in> bm_pool (inode_bitmap (new_fs total_blks ibb)) \<and>
    unat (start_block_id (data_bitmap (new_fs total_blks ibb))) \<le> unat (fst (get_disk_inode_pos (of_nat i) (new_fs total_blks ibb)))"
proof -
  let ?fs = "new_fs total_blks ibb"
  note g = new_fs_geometry [OF t(1,2)]
  have small: "i < 2 ^ 32" "1 + unat ibb + i div 3 < 2 ^ 32" using i t by simp_all
  then have u: "unat (of_nat i :: u32) = i" by (simp add: unat_of_nat take_bit_eq_mod)
  have "of_nat (BLOCK_SZ div INODE_SZ) = (3 :: u32)" by (simp add: BLOCK_SZ_def INODE_SZ_def)
  then have "fst (get_disk_inode_pos (of_nat i) ?fs) = inode_area_start_block ?fs + of_nat i div 3"
    by (simp add: get_disk_inode_pos_def Let_def)
  moreover have "unat (inode_area_start_block ?fs + of_nat i div 3) = 1 + unat ibb + i div 3"
    using small g(2) u by (simp add: unat_word_ariths unat_div_distrib ia_def)
  moreover have "1088 * unat ibb \<le> i div 3" using i(1) by simp
  ultimately show ?thesis using g(3) new_fs_ok(3) [OF t] i(2) by (simp add: dbs_def)
qed

text \<open>
  C37: the inode area that \<^verbatim>\<open>create\<close> sizes for the 4096 inodes of each of its \<open>n\<close> bitmap blocks holds only
  \<open>3264 * n\<close> of them, because a block holds three inodes of 136 bytes. In the file system that \<^verbatim>\<open>create\<close>
  returns, the last \<open>832 * n\<close> of the \<open>4096 * n\<close> numbers that the bitmap of inodes can give out have their
  inode at or behind the start of the bitmap of data blocks.
\<close>

theorem inode_area_overrun:
  assumes t: "2 + 1089 * unat ibb \<le> unat total_blks" "unat total_blks < 2 ^ 29" "0 < unat ibb"
    and st: "cache_inv st" "\<forall>b. unat total_blks \<le> unat b \<longrightarrow> view st b = replicate BLOCK_SZ 0"
    and created: "run_cached (efs_create total_blks ibb) st = Ok (fs, st')"
    and i: "3264 * unat ibb \<le> i" "i < 4096 * unat ibb"
  shows "i \<in> bm_pool (inode_bitmap fs) \<and>
    unat (start_block_id (data_bitmap fs)) \<le> unat (fst (get_disk_inode_pos (of_nat i) fs))"
  unfolding run_cached_create [OF t st created] using new_fs_overrun [OF t i] .

theorem inode_area_overrun_witness:
  "\<exists>fs st'. run_cached (efs_create 0x4000 1) \<lparr>cache_queue = [], block_device = \<lambda>_. replicate BLOCK_SZ 0\<rparr> = Ok (fs, st') \<and>
     3264 \<in> bm_pool (inode_bitmap fs) \<and>
     unat (start_block_id (data_bitmap fs)) \<le> unat (fst (get_disk_inode_pos 3264 fs))"
proof -
  let ?st = "\<lparr>cache_queue = [], block_device = \<lambda>_. replicate BLOCK_SZ 0\<rparr>"
  have i: "cache_inv ?st" "\<forall>b. unat (0x4000 :: u32) \<le> unat b \<longrightarrow> view ?st b = replicate BLOCK_SZ 0"
    by (auto simp: cache_inv_def view_def)
  have t: "2 + 1089 * unat (1 :: u32) \<le> unat (0x4000 :: u32)" "unat (0x4000 :: u32) < 2 ^ 29" "0 < unat (1 :: u32)" by simp_all
  have d: "dev_ok (view ?st)" using view_length [OF i(1)] by (simp add: dev_ok_def)
  have z: "view ?st b = replicate BLOCK_SZ 0" if "unat (0x4000 :: u32) \<le> unat b" for b using i(2) that by blast
  obtain d' where c: "run (efs_create 0x4000 1) [] (view ?st) = Ok (new_fs 0x4000 1, d')"
    using efs_create_spec [OF t d z] by blast
  obtain st' where r: "run_cached (efs_create 0x4000 1) ?st = Ok (new_fs 0x4000 1, st')"
    using run_cached_Ok [OF i(1) c] by blast
  from inode_area_overrun [OF t i r, of 3264] r show ?thesis by (intro exI [of _ "new_fs 0x4000 1"] exI [of _ st']) simp
qed

end
