(* ===== verification/OSInode.thy ===== *)
theory OSInode
  imports FsRun
begin

text \<open>
  \<^verbatim>\<open>os/src/fs/inode.rs\<close> and \<^verbatim>\<open>os/src/fs/mod.rs\<close>: open files of the file system, as the kernel sees them. A
  slice of a user buffer is its bytes; the file system of \<^verbatim>\<open>ROOT_INODE\<close> is an argument.
\<close>

section \<open>Flags and file status\<close>

type_synonym OpenFlags = u32

definition RDONLY :: OpenFlags where "RDONLY = 0"
definition WRONLY :: OpenFlags where "WRONLY = push_bit 0 1"
definition RDWR :: OpenFlags where "RDWR = push_bit 1 1"
definition CREATE :: OpenFlags where "CREATE = push_bit 9 1"
definition TRUNC :: OpenFlags where "TRUNC = push_bit 10 1"

lemmas open_flags = RDONLY_def WRONLY_def RDWR_def CREATE_def TRUNC_def

text \<open>\<^verbatim>\<open>bitflags\<close>: \<^verbatim>\<open>from_bits\<close> refuses a value with a bit that is no flag.\<close>

definition of_from_bits :: "u32 \<Rightarrow> OpenFlags option" where
  "of_from_bits b = (if b AND (WRONLY OR RDWR OR CREATE OR TRUNC) = b then Some b else None)"

definition of_contains :: "OpenFlags \<Rightarrow> OpenFlags \<Rightarrow> bool" where
  "of_contains s f = (s AND f = f)"

definition read_write :: "OpenFlags \<Rightarrow> bool \<times> bool" where
  "read_write f = (if f = 0 then (True, False) else if of_contains f WRONLY then (False, True) else (True, True))"

definition STAT_NULL :: u32 where "STAT_NULL = 0"
definition STAT_DIR :: u32 where "STAT_DIR = 0x4000"
definition STAT_FILE :: u32 where "STAT_FILE = 0x8000"

record Stat =
  st_dev :: u64
  st_ino :: u64
  st_mode :: u32
  st_nlink :: u32
  st_pad :: "u64 list"

definition Stat_new :: Stat where
  "Stat_new = \<lparr>st_dev = 0, st_ino = 0, st_mode = STAT_NULL, st_nlink = 0, st_pad = replicate 7 0\<rparr>"

section \<open>Open files\<close>

record OSInode =
  os_readable :: bool
  os_writable :: bool
  os_offset :: usize
  os_inode :: Inode

definition OSInode_new :: "bool \<Rightarrow> bool \<Rightarrow> Inode \<Rightarrow> OSInode" where
  "OSInode_new rd wr ino = \<lparr>os_readable = rd, os_writable = wr, os_offset = 0, os_inode = ino\<rparr>"

text \<open>
  The loop of \<^verbatim>\<open>read_all\<close>. It reads until the file gives no more bytes; \<open>fuel\<close> bounds the rounds, and
  \<^const>\<open>None\<close> is a loop that has not ended by then.
\<close>

fun read_all_loop :: "nat \<Rightarrow> u8 list \<Rightarrow> u8 list \<Rightarrow> OSInode \<Rightarrow> (u8 list \<times> OSInode) option prog" where
  "read_all_loop 0 buffer v f = Done None"
| "read_all_loop (Suc fuel) buffer v f =
     bind_prog (vfs_read_at (os_offset f) buffer (os_inode f)) (\<lambda>(len, buffer).
     if len = 0 then Done (Some (v, f))
     else read_all_loop fuel buffer (v @ take len buffer) (f\<lparr>os_offset := os_offset f + of_nat len\<rparr>))"

definition read_all :: "nat \<Rightarrow> OSInode \<Rightarrow> (u8 list \<times> OSInode) option prog" where
  "read_all fuel f = read_all_loop fuel (replicate 512 0) [] f"

text \<open>\<^verbatim>\<open>File::read\<close> fills the slices in order and stops when the file gives no byte.\<close>

fun os_read_loop :: "usize \<Rightarrow> u8 list list \<Rightarrow> OSInode \<Rightarrow> (usize \<times> u8 list list \<times> OSInode) prog" where
  "os_read_loop total_read_size [] f = Done (total_read_size, [], f)"
| "os_read_loop total_read_size (buf # slices) f =
     bind_prog (vfs_read_at (os_offset f) buf (os_inode f)) (\<lambda>(read_size, buf).
     if read_size = 0 then Done (total_read_size, buf # slices, f)
     else
       bind_prog (os_read_loop (total_read_size + of_nat read_size) slices (f\<lparr>os_offset := os_offset f + of_nat read_size\<rparr>))
         (\<lambda>(n, slices, f). Done (n, buf # slices, f)))"

definition os_read :: "u8 list list \<Rightarrow> OSInode \<Rightarrow> (usize \<times> u8 list list \<times> OSInode) prog" where
  "os_read slices f = os_read_loop 0 slices f"

fun os_write_loop :: "usize \<Rightarrow> u8 list list \<Rightarrow> EasyFileSystem \<Rightarrow> OSInode \<Rightarrow> (usize \<times> OSInode) prog" where
  "os_write_loop total_write_size [] fs f = Done (total_write_size, f)"
| "os_write_loop total_write_size (buf # slices) fs f =
     bind_prog (vfs_write_at (os_offset f) buf fs (os_inode f)) (\<lambda>write_size.
     bind_prog (lift_res (assert_that (write_size = length buf))) (\<lambda>_.
     os_write_loop (total_write_size + of_nat write_size) slices fs (f\<lparr>os_offset := os_offset f + of_nat write_size\<rparr>)))"

definition os_write :: "u8 list list \<Rightarrow> EasyFileSystem \<Rightarrow> OSInode \<Rightarrow> (usize \<times> OSInode) prog" where
  "os_write slices fs f = os_write_loop 0 slices fs f"

definition os_fstat :: "OSInode \<Rightarrow> Stat prog" where
  "os_fstat f =
     bind_prog (vfs_mode (os_inode f)) (\<lambda>t.
     bind_prog (vfs_inode_id (os_inode f)) (\<lambda>ino.
     bind_prog (vfs_nlink (os_inode f)) (\<lambda>n.
     Done \<lparr>st_dev = 0, st_ino = ucast ino, st_mode = (case t of File \<Rightarrow> STAT_FILE | Directory \<Rightarrow> STAT_DIR),
       st_nlink = ucast n, st_pad = replicate 7 0\<rparr>)))"

definition open_file :: "u8 list \<Rightarrow> OpenFlags \<Rightarrow> EasyFileSystem \<Rightarrow> OSInode option prog" where
  "open_file name flags fs = (case read_write flags of (rd, wr) \<Rightarrow>
     if of_contains flags CREATE then
       bind_prog (vfs_find name fs (root_inode fs)) (\<lambda>found.
       case found of
         Some ino \<Rightarrow> bind_prog (vfs_clear fs ino) (\<lambda>_. Done (Some (OSInode_new rd wr ino)))
       | None \<Rightarrow> bind_prog (vfs_create name fs (root_inode fs)) (\<lambda>r. Done (map_option (OSInode_new rd wr) r)))
     else
       bind_prog (vfs_find name fs (root_inode fs)) (\<lambda>found.
       case found of
         Some ino \<Rightarrow>
           bind_prog (if of_contains flags TRUNC then vfs_clear fs ino else Done ()) (\<lambda>_.
           Done (Some (OSInode_new rd wr ino)))
       | None \<Rightarrow> Done None))"

definition fs_linkat :: "u8 list \<Rightarrow> u8 list \<Rightarrow> u32 \<Rightarrow> EasyFileSystem \<Rightarrow> int prog" where
  "fs_linkat oldpath newpath flags fs = vfs_linkat oldpath newpath flags fs (root_inode fs)"

definition fs_unlinkat :: "u8 list \<Rightarrow> u32 \<Rightarrow> EasyFileSystem \<Rightarrow> int prog" where
  "fs_unlinkat path flags fs = vfs_unlinkat path flags fs (root_inode fs)"

section \<open>Reading a file to its end\<close>

lemma read_all_loop_spec:
  assumes inv: "fs_inv fs F d" and a: "files fs F d ino = Some a"
    and "length buffer = 512" and "os_inode f = inode_of fs ino" and "unat (os_offset f) \<le> length (fa_bytes a)"
    and "(length (fa_bytes a) - unat (os_offset f) + 511) div 512 < fuel"
  shows "run (read_all_loop fuel buffer v f) [] d =
    Ok (Some (v @ drop (unat (os_offset f)) (fa_bytes a), f\<lparr>os_offset := of_nat (length (fa_bytes a))\<rparr>), d)"
  using assms(3-)
proof (induction fuel arbitrary: buffer v f)
  case (Suc fuel)
  let ?o = "unat (os_offset f)" and ?bs = "fa_bytes a"
  obtain L where L: "a = file_of d (inode_at d fs ino) L" using a by (auto simp: files_eq_Some)
  have small: "length ?bs < 2 ^ 32" unfolding L length_fa_bytes by (rule unat_less_32)
  define n where "n = min 512 (length ?bs - ?o)"
  have "?o + length buffer < 2 ^ 64" using Suc.prems(1,3) small by simp
  from vfs_read_at_spec [OF inv a this] have r: "run (vfs_read_at (os_offset f) buffer (os_inode f)) [] d =
      Ok ((n, take n (drop ?o ?bs) @ drop n buffer), d)"
    using Suc.prems(1,2) by (simp add: n_def)
  show ?case
  proof (cases "n = 0")
    case True
    then have "?o = length ?bs" using Suc.prems(3) by (simp add: n_def)
    moreover then have "f\<lparr>os_offset := of_nat (length ?bs)\<rparr> = f" by (metis OSInode.surjective OSInode.update_convs(3) of_nat_unat ucast_id)
    ultimately show ?thesis using r True by (simp add: run_simps)
  next
    case False
    have n: "n \<le> length ?bs - ?o" "n \<le> 512" "n = 512 \<or> n = length ?bs - ?o" by (auto simp: n_def)
    let ?f = "f\<lparr>os_offset := os_offset f + of_nat n\<rparr>"
    have u: "unat (os_offset ?f) = ?o + n" using n small Suc.prems(3) by (simp add: unat_add_of_nat_64)
    have d: "take n (drop ?o ?bs) @ drop (?o + n) ?bs = drop ?o ?bs" by (metis append_take_drop_id drop_drop add.commute)
    have ln: "length (take n (drop ?o ?bs)) = n" using n(1) by simp
    have "(length ?bs - (?o + n) + 511) div 512 < fuel"
    proof (cases "n = 512")
      case True
      then have "length ?bs - (?o + n) + 511 = length ?bs - ?o + 511 - 512" "512 \<le> length ?bs - ?o + 511" using n(1) by simp_all
      then show ?thesis using Suc.prems(4) le_div_geq [of 512 "length ?bs - ?o + 511"] by simp
    next
      case short: False
      then show ?thesis using Suc.prems(4) n(3) False by auto
    qed
    then have "run (read_all_loop fuel (take n (drop ?o ?bs) @ drop n buffer) (v @ take n (drop ?o ?bs)) ?f) [] d =
        Ok (Some ((v @ take n (drop ?o ?bs)) @ drop (?o + n) ?bs, ?f\<lparr>os_offset := of_nat (length ?bs)\<rparr>), d)"
      using Suc.prems(1-3) n u ln by (subst Suc.IH) simp_all
    then show ?thesis using r False ln d by (simp add: run_simps)
  qed
qed simp

section \<open>Writing slices\<close>

lemma write_bytes_append:
  "write_bytes (off + length b) c (write_bytes off b xs) = write_bytes off (b @ c) xs"
proof -
  define ys where "ys = take off (xs @ replicate (off - length xs) 0)"
  have len: "length ys = off" by (simp add: ys_def)
  have w: "write_bytes off b xs = ys @ b @ drop (off + length b) xs" for b
    unfolding write_bytes_def patch_def FsGrow.extend_def ys_def by (cases "off \<le> length xs") (simp_all add: take_append)
  show ?thesis unfolding w using len
    by (simp add: write_bytes_def patch_def FsGrow.extend_def) (simp add: ac_simps)
qed

lemma length_write_bytes: "length (write_bytes off b xs) = max (length xs) (off + length b)"
  by (auto simp: write_bytes_def patch_def FsGrow.extend_def max_def min_def)

text \<open>What is left for the later slices after the first one.\<close>

lemma fits_after:
  assumes inv: "fs_inv fs F d" and a: "files fs F d ino = Some a" and fit: "fits fs (files fs F d) a (off + length b + n)"
  shows "fits fs (files fs F d) a (off + length b)"
    "fits fs ((files fs F d)(ino \<mapsto> a\<lparr>fa_bytes := write_bytes off b (fa_bytes a)\<rparr>)) (a\<lparr>fa_bytes := write_bytes off b (fa_bytes a)\<rparr>) (off + length b + n)"
proof -
  let ?A = "files fs F d" and ?a' = "a\<lparr>fa_bytes := write_bytes off b (fa_bytes a)\<rparr>"
  let ?t = "\<lambda>s. tot (nblk s)"
  have mono: "?t s \<le> ?t s'" if "s \<le> s'" for s s' using that by (intro tot_mono nblk_mono)
  have cap: "used_blocks ?A \<le> unat (bm_blocks (data_bitmap fs)) * BLOCK_BITS" by (rule card_free(2) [OF inv])
  have fin: "finite (dom ?A)" using finite_dom_files [OF inv] by simp
  have upd: "used_blocks (?A(ino \<mapsto> ?a')) + ?t (length (fa_bytes a)) = used_blocks ?A + ?t (max (length (fa_bytes a)) (off + length b))"
    using used_blocks_upd [of ?A ino a ?a'] fin a by (simp add: length_write_bytes)
  have le: "?t (length (fa_bytes a)) \<le> used_blocks ?A"
  proof -
    have "ino \<in> dom ?A" using a by blast
    then have "?t (length (fa_bytes (the (?A ino)))) \<le> used_blocks ?A"
      unfolding used_blocks_def using fin by (intro member_le_sum) auto
    then show ?thesis using a by simp
  qed
  have f: "off + length b + n \<le> 512 * MAX_DATA" "?t (off + length b + n) - ?t (length (fa_bytes a)) \<le> free_blocks fs ?A"
    using fit by (simp_all add: fits_def need_def)
  show "fits fs ?A a (off + length b)"
    using f mono [of "off + length b" "off + length b + n"] by (auto simp: fits_def need_def)
  have "?t (off + length b + n) - ?t (max (length (fa_bytes a)) (off + length b)) \<le> free_blocks fs (?A(ino \<mapsto> ?a'))"
    using f(2) upd cap le mono [of "length (fa_bytes a)" "max (length (fa_bytes a)) (off + length b)"] by (simp add: free_blocks_def)
  then show "fits fs (?A(ino \<mapsto> ?a')) ?a' (off + length b + n)"
    using f(1) by (simp add: fits_def need_def length_write_bytes)
qed

lemma os_write_loop_spec:
  assumes "fs_inv fs F d" and "files fs F d ino = Some a" and "os_inode f = inode_of fs ino" and "[] \<notin> set slices"
    and "fits fs (files fs F d) a (unat (os_offset f) + length (concat slices))" and "slices \<noteq> []"
  shows "\<exists>F' d'. run (os_write_loop tw slices fs f) [] d =
      Ok ((tw + of_nat (length (concat slices)), f\<lparr>os_offset := os_offset f + of_nat (length (concat slices))\<rparr>), d') \<and>
    fs_inv fs F' d' \<and>
    files fs F' d' = (files fs F d)(ino \<mapsto> a\<lparr>fa_bytes := write_bytes (unat (os_offset f)) (concat slices) (fa_bytes a)\<rparr>)"
  using assms
proof (induction slices arbitrary: tw f F d a)
  case (Cons b slices)
  let ?o = "unat (os_offset f)" and ?n = "length (concat slices)" and ?a = "a\<lparr>fa_bytes := write_bytes (unat (os_offset f)) b (fa_bytes a)\<rparr>"
  have fit: "fits fs (files fs F d) a (?o + length b + ?n)" using Cons.prems(5) by (simp add: add.assoc)
  note after = fits_after [OF Cons.prems(1,2) fit]
  have b: "b \<noteq> []" using Cons.prems(4) by auto
  have lim: "?o + length b \<le> 512 * MAX_DATA" "need (length (fa_bytes a)) (?o + length b) \<le> card (free_data fs d)"
    using after(1) card_free(1) [OF Cons.prems(1)] by (simp_all add: fits_def)
  obtain F1 d1 where w: "run (vfs_write_at (os_offset f) b fs (os_inode f)) [] d = Ok (length b, d1)" "fs_inv fs F1 d1"
      "files fs F1 d1 = (files fs F d)(ino \<mapsto> ?a)"
    using vfs_write_at_spec [OF Cons.prems(1,2) b lim] Cons.prems(3) by auto
  let ?f = "f\<lparr>os_offset := os_offset f + of_nat (length b)\<rparr>"
  have u: "unat (os_offset ?f) = ?o + length b" using lim(1) by (simp add: unat_add_of_nat_64 MAX_DATA_def)
  show ?case
  proof (cases "slices = []")
    case True
    then show ?thesis using w by (intro exI [of _ F1] exI [of _ d1]) (simp add: run_simps)
  next
    case False
    have "\<exists>F' d'. run (os_write_loop (tw + of_nat (length b)) slices fs ?f) [] d1 =
        Ok ((tw + of_nat (length b) + of_nat ?n, ?f\<lparr>os_offset := os_offset ?f + of_nat ?n\<rparr>), d') \<and> fs_inv fs F' d' \<and>
      files fs F' d' = (files fs F1 d1)(ino \<mapsto> ?a\<lparr>fa_bytes := write_bytes (unat (os_offset ?f)) (concat slices) (fa_bytes ?a)\<rparr>)"
    proof (rule Cons.IH [OF w(2)])
      show "files fs F1 d1 ino = Some ?a" unfolding w(3) by simp
      show "fits fs (files fs F1 d1) ?a (unat (os_offset ?f) + ?n)" unfolding w(3) u by (rule after(2))
    qed (use Cons.prems(3,4) False in auto)
    then obtain F' d' where r: "run (os_write_loop (tw + of_nat (length b)) slices fs ?f) [] d1 =
        Ok ((tw + of_nat (length b) + of_nat ?n, ?f\<lparr>os_offset := os_offset ?f + of_nat ?n\<rparr>), d')" "fs_inv fs F' d'"
      "files fs F' d' = (files fs F1 d1)(ino \<mapsto> ?a\<lparr>fa_bytes := write_bytes (unat (os_offset ?f)) (concat slices) (fa_bytes ?a)\<rparr>)" by blast
    have "write_bytes (unat (os_offset ?f)) (concat slices) (fa_bytes ?a) = write_bytes ?o (b @ concat slices) (fa_bytes a)"
      unfolding u using write_bytes_append by simp
    then show ?thesis using w r by (intro exI [of _ F'] exI [of _ d']) (simp add: run_simps add.assoc)
  qed
qed simp

section \<open>Reading into slices\<close>

lemma os_read_loop_spec:
  assumes inv: "fs_inv fs F d" and a: "files fs F d ino = Some a" and "os_inode f = inode_of fs ino" and "[] \<notin> set slices"
    and "unat (os_offset f) + length (concat slices) < 2 ^ 64"
  defines "rest \<equiv> \<lambda>f. length (fa_bytes a) - unat (os_offset f)"
  shows "\<exists>slices'. run (os_read_loop tw slices f) [] d =
      Ok ((tw + of_nat (min (length (concat slices)) (rest f)), slices',
        f\<lparr>os_offset := os_offset f + of_nat (min (length (concat slices)) (rest f))\<rparr>), d) \<and>
    map length slices' = map length slices \<and>
    concat slices' = take (length (concat slices)) (drop (unat (os_offset f)) (fa_bytes a)) @ drop (rest f) (concat slices)"
  using assms(3-5)
proof (induction slices arbitrary: tw f)
  case Nil
  then show ?case by (simp add: run_simps)
next
  case (Cons b slices)
  let ?o = "unat (os_offset f)" and ?bs = "fa_bytes a"
  define n where "n = min (length b) (rest f)"
  have nw: "?o + length b < 2 ^ 64" using Cons.prems(3) by simp
  have r: "run (vfs_read_at (os_offset f) b (os_inode f)) [] d = Ok ((n, take n (drop ?o ?bs) @ drop n b), d)"
    using vfs_read_at_spec [OF inv a nw] Cons.prems(1) by (simp add: n_def rest_def)
  show ?case
  proof (cases "n = 0")
    case True
    moreover have "0 < length b" using Cons.prems(2) by auto
    ultimately have "rest f = 0" by (simp add: n_def min_def split: if_splits)
    then show ?thesis using r True by (simp add: run_simps rest_def)
  next
    case False
    let ?f = "f\<lparr>os_offset := os_offset f + of_nat n\<rparr>"
    have n: "n \<le> length b" "n \<le> rest f" "n = length b \<or> n = rest f" by (auto simp: n_def)
    have u: "unat (os_offset ?f) = ?o + n" using nw n(1) by (simp add: unat_add_of_nat_64)
    then have rf: "rest ?f = rest f - n" by (simp add: rest_def)
    obtain slices' where s: "run (os_read_loop (tw + of_nat n) slices ?f) [] d =
        Ok ((tw + of_nat n + of_nat (min (length (concat slices)) (rest ?f)), slices',
          ?f\<lparr>os_offset := os_offset ?f + of_nat (min (length (concat slices)) (rest ?f))\<rparr>), d)"
      "map length slices' = map length slices"
      "concat slices' = take (length (concat slices)) (drop (unat (os_offset ?f)) ?bs) @ drop (rest ?f) (concat slices)"
      using Cons.IH [of ?f "tw + of_nat n"] Cons.prems n(1) u by auto
    have m: "n + min (length (concat slices)) (rest ?f) = min (length (b @ concat slices)) (rest f)"
      using n rf by auto
    have c: "(take n (drop ?o ?bs) @ drop n b) @ concat slices' =
        take (length (b @ concat slices)) (drop ?o ?bs) @ drop (rest f) (b @ concat slices)"
    proof (cases "n = length b")
      case True
      have "take (length b + length (concat slices)) (drop ?o ?bs) =
          take (length b) (drop ?o ?bs) @ take (length (concat slices)) (drop (?o + length b) ?bs)"
        by (simp add: take_add add.commute)
      then show ?thesis using True s(3) u rf n(2) by simp
    next
      case short: False
      then have "n = rest f" "rest ?f = 0" using n(3) rf by auto
      then show ?thesis using s(3) u n(1) by (simp add: rest_def)
    qed
    have ln: "length (take n (drop ?o ?bs) @ drop n b) = length b" using n(1,2) by (simp add: rest_def)
    show ?thesis
      using r False s(1,2) c ln m
      by (intro exI [of _ "(take n (drop ?o ?bs) @ drop n b) # slices'"])
         (simp add: run_simps add.assoc flip: of_nat_add)
  qed
qed

section \<open>Opening a file\<close>

text \<open>
  What \<^verbatim>\<open>open_file\<close> does to the abstract state: it finds the file and empties it when \<^verbatim>\<open>CREATE\<close> or \<^verbatim>\<open>TRUNC\<close> is
  set, or creates it when \<^verbatim>\<open>CREATE\<close> is set, or fails.
\<close>

definition open_abs :: "EasyFileSystem \<Rightarrow> u8 list \<Rightarrow> OpenFlags \<Rightarrow> (nat \<rightharpoonup> file_abs) \<Rightarrow> nat option \<Rightarrow> (nat \<rightharpoonup> file_abs) \<Rightarrow> bool" where
  "open_abs fs name flags A r B = (\<exists>root. A 0 = Some root \<and>
     (case map_of (dir_list (fa_bytes root)) name of
        Some n \<Rightarrow> r = Some (unat n) \<and>
          B = (if of_contains flags CREATE \<or> of_contains flags TRUNC then A(unat n \<mapsto> (the (A (unat n)))\<lparr>fa_bytes := []\<rparr>) else A)
      | None \<Rightarrow>
          if of_contains flags CREATE
          then \<exists>i de. r = Some i \<and> next_inode fs A i \<and> good_name name \<and> fits fs A root (length (fa_bytes root) + DIRENT_SZ) \<and>
            DirEntry_new name (of_nat i) = Ok de \<and> B = A(i \<mapsto> new_file File, 0 \<mapsto> root\<lparr>fa_bytes := fa_bytes root @ as_bytes de\<rparr>)
          else r = None \<and> B = A))"

lemma open_file_spec:
  assumes inv: "fs_inv fs F d" and ok: "root_ok (files fs F d)" and op: "open_abs fs name flags (files fs F d) r B"
  shows "\<exists>F' d'. run (open_file name flags fs) [] d =
      Ok (map_option (\<lambda>i. case read_write flags of (rd, wr) \<Rightarrow> OSInode_new rd wr (inode_of fs i)) r, d') \<and>
    fs_inv fs F' d' \<and> files fs F' d' = B"
proof -
  note D = fs_invD [OF inv]
  let ?A = "files fs F d"
  obtain root where root: "?A 0 = Some root" using op by (auto simp: open_abs_def)
  obtain L0 where "F 0 = Some L0" using root by (auto simp: files_eq_Some)
  then have ri: "root_inode fs = inode_of fs 0" using root_inode_eq [OF D(1)] D(3) by blast
  have dir: "directory root" by (rule root_okD(1) [OF ok root])
  obtain rd wr where rw: "read_write flags = (rd, wr)" by fastforce
  show ?thesis
  proof (cases "map_of (dir_list (fa_bytes root)) name")
    case (Some n)
    obtain b where b: "?A (unat n) = Some b" using root_okD(2) [OF ok root Some] by blast
    have area: "in_area fs (unat n)" using b D(3) by (auto simp: files_eq_Some)
    have find: "run (vfs_find name fs (inode_of fs 0)) [] d = Ok (Some (inode_of fs (unat n)), d)"
      using vfs_find_spec [OF inv root dir, of name] Some area by simp
    obtain F1 d1 where c: "run (vfs_clear fs (inode_of fs (unat n))) [] d = Ok ((), d1)" "fs_inv fs F1 d1" "files fs F1 d1 = ?A(unat n \<mapsto> b\<lparr>fa_bytes := []\<rparr>)"
      using vfs_clear_spec [OF inv b] by blast
    have r: "r = Some (unat n)" "B = (if of_contains flags CREATE \<or> of_contains flags TRUNC then ?A(unat n \<mapsto> b\<lparr>fa_bytes := []\<rparr>) else ?A)"
      using op root Some b by (simp_all add: open_abs_def)
    show ?thesis
    proof (cases "of_contains flags CREATE \<or> of_contains flags TRUNC")
      case True
      then have "run (open_file name flags fs) [] d = Ok (Some (OSInode_new rd wr (inode_of fs (unat n))), d1)"
        using find c(1) rw by (auto simp: open_file_def ri run_simps)
      then show ?thesis using c(2,3) r True rw by auto
    next
      case False
      then have "run (open_file name flags fs) [] d = Ok (Some (OSInode_new rd wr (inode_of fs (unat n))), d)"
        using find rw by (auto simp: open_file_def ri run_simps)
      then show ?thesis using inv r False rw by auto
    qed
  next
    case None
    then have find: "run (vfs_find name fs (inode_of fs 0)) [] d = Ok (None, d)"
      using vfs_find_spec [OF inv root dir, of name] by simp
    show ?thesis
    proof (cases "of_contains flags CREATE")
      case True
      then obtain i de where i: "r = Some i" "next_inode fs ?A i" "good_name name" "fits fs ?A root (length (fa_bytes root) + DIRENT_SZ)"
          "DirEntry_new name (of_nat i) = Ok de" "B = ?A(i \<mapsto> new_file File, 0 \<mapsto> root\<lparr>fa_bytes := fa_bytes root @ as_bytes de\<rparr>)"
        using op root None by (auto simp: open_abs_def)
      have "\<exists>F' d'. run (vfs_create name fs (inode_of fs 0)) [] d = Ok (Some (inode_of fs i), d') \<and> fs_inv fs F' d' \<and> files fs F' d' = B"
        using vfs_create_spec [OF inv root dir i(3) None, of i] i by (auto simp: next_inode_def fits_def)
      then show ?thesis using find True rw i(1) by (auto simp: open_file_def ri run_simps)
    next
      case False
      then show ?thesis using op root None find inv rw by (auto simp: open_file_def open_abs_def ri run_simps)
    qed
  qed
qed

end
