(* ===== verification/Task.thy ===== *)
theory Task
  imports OSInode Signal Pid Pipe SyscallMemory
begin

text \<open>
  \<^verbatim>\<open>os/src/task/task.rs\<close>, \<^verbatim>\<open>processor.rs\<close> and the process operations of \<^verbatim>\<open>os/src/task/mod.rs\<close> and
  \<^verbatim>\<open>manager.rs\<close>: task control blocks, the state of the kernel, and what the scheduler, \<^verbatim>\<open>fork\<close>, \<^verbatim>\<open>exec\<close> and
  exit do to it. An \<^verbatim>\<open>Arc<TaskControlBlock>\<close> is the pid of the task: a pid is in use exactly as long as
  its block, so it names the block. A context switch ends the function that makes it: what runs next is
  a round of \<^verbatim>\<open>run_tasks\<close>.
\<close>

section \<open>The state of the kernel\<close>

datatype TaskStatus = UnInit | Ready | Running | Zombie | Exited

text \<open>
  An open file (\<^verbatim>\<open>Arc<dyn File>\<close>): the console, or a reference to an \<^verbatim>\<open>OSInode\<close> or to the ring buffer of a
  pipe, with whether it is the write end.
\<close>

datatype kfile = Stdin | Stdout | InodeFile nat | PipeFile nat bool

record TaskControlBlock = signal_info +
  tcb_pid :: usize
  kernel_stack :: usize
  trap_cx_ppn :: PhysPageNum
  base_size :: usize
  task_cx :: TaskContext
  task_status :: TaskStatus
  memory_set :: MemorySet
  tcb_parent :: "usize option"
  children :: "usize list"
  exit_code :: "32 word"
  fd_table :: "kfile option list"

text \<open>
  Addresses of functions and linker symbols, the value of \<^verbatim>\<open>sstatus\<close> for user mode, and the parser of
  the crate \<^verbatim>\<open>xmas_elf\<close>.
\<close>

record platform =
  trap_return_addr :: usize
  trap_handler_addr :: usize
  strampoline_addr :: usize
  user_sstatus :: usize
  parse_elf :: "u8 list \<Rightarrow> elf_file option"

record kernel =
  tasks :: "usize \<rightharpoonup> TaskControlBlock"
  cpu_current :: "usize option"
  manager :: TaskManager
  pid_allocator :: PidAllocator
  kernel_space :: MemorySet
  memory :: mm_state
  open_inodes :: "nat \<rightharpoonup> OSInode"
  pipe_buffers :: "nat \<rightharpoonup> PipeRingBuffer"
  next_object :: nat
  initproc :: usize
  root_fs :: EasyFileSystem
  block_cache :: cache_state
  console :: "u8 list"

definition the_task :: "usize \<Rightarrow> kernel \<Rightarrow> TaskControlBlock res" where
  "the_task p k = unwrap (tasks k p)"

definition set_task :: "TaskControlBlock \<Rightarrow> kernel \<Rightarrow> kernel" where
  "set_task t k = k\<lparr>tasks := (tasks k)(tcb_pid t \<mapsto> t)\<rparr>"

section \<open>The task control block\<close>

definition get_trap_cx :: "TaskControlBlock \<Rightarrow> kernel \<Rightarrow> TrapContext" where
  "get_trap_cx t k = load_trap_cx (mem (memory k)) (trap_cx_ppn t)"

definition put_trap_cx :: "TaskControlBlock \<Rightarrow> TrapContext \<Rightarrow> kernel \<Rightarrow> kernel" where
  "put_trap_cx t cx k = k\<lparr>memory := (memory k)\<lparr>mem := store_trap_cx (mem (memory k)) (trap_cx_ppn t) cx\<rparr>\<rparr>"

definition get_user_token :: "TaskControlBlock \<Rightarrow> usize" where
  "get_user_token t = ms_token (memory_set t)"

definition set_prio :: "usize \<Rightarrow> TaskControlBlock \<Rightarrow> TaskControlBlock" where
  "set_prio prio t = t\<lparr>priority := prio\<rparr>"

definition is_zombie :: "TaskControlBlock \<Rightarrow> bool" where
  "is_zombie t = (task_status t = Zombie)"

definition alloc_fd :: "kfile option list \<Rightarrow> nat \<times> kfile option list" where
  "alloc_fd table = (case find_index (\<lambda>f. f = None) table of
     Some fd \<Rightarrow> (fd, table)
   | None \<Rightarrow> (length table, table @ [None]))"

text \<open>The frame of the trap context of a memory set.\<close>

definition trap_frame :: "MemorySet \<Rightarrow> mm_state \<Rightarrow> PhysPageNum res" where
  "trap_frame ms s =
     bind_res (VirtPageNum_from_va (VirtAddr_from TRAP_CONTEXT)) (\<lambda>vpn.
     bind_res (unwrap (ms_translate ms vpn s)) (\<lambda>pte. Ok (pte_ppn pte)))"

text \<open>\<^verbatim>\<open>pid_alloc\<close> and \<^verbatim>\<open>KernelStack::new\<close>, as every new task calls them.\<close>

definition new_kernel_stack :: "kernel \<Rightarrow> (usize \<times> usize \<times> kernel) res" where
  "new_kernel_stack k = (case pid_alloc (pid_allocator k) of (p, a) \<Rightarrow>
     bind_res (KernelStack_new p (kernel_space k, memory k)) (\<lambda>(stack, ks, s).
     Ok (p, stack, k\<lparr>pid_allocator := a, kernel_space := ks, memory := s\<rparr>)))"

text \<open>A new block; descriptors 0, 1 and 2 are the console.\<close>

definition new_block :: "platform \<Rightarrow> MemorySet \<Rightarrow> usize \<Rightarrow> usize \<Rightarrow> PhysPageNum \<Rightarrow> usize \<Rightarrow> TaskControlBlock" where
  "new_block pl ms p stack ppn user_sp =
     \<lparr>priority = 16, pass = 0, signals = 0, signal_mask = 0, handling_sig = -1,
      signal_actions = SignalActions_default, killed = False, frozen = False, trap_ctx_backup = None,
      tcb_pid = p, kernel_stack = stack, trap_cx_ppn = ppn, base_size = user_sp,
      task_cx = goto_trap_return (trap_return_addr pl) (ks_get_top stack), task_status = Ready, memory_set = ms,
      tcb_parent = None, children = [], exit_code = 0, fd_table = [Some Stdin, Some Stdout, Some Stdout]\<rparr>"

definition TaskControlBlock_new :: "platform \<Rightarrow> u8 list \<Rightarrow> kernel \<Rightarrow> (usize \<times> kernel) res" where
  "TaskControlBlock_new pl elf_data k =
     bind_res (from_elf (parse_elf pl) (strampoline_addr pl) elf_data (memory k)) (\<lambda>((ms, user_sp, entry_point), s).
     bind_res (trap_frame ms s) (\<lambda>ppn.
     bind_res (new_kernel_stack (k\<lparr>memory := s\<rparr>)) (\<lambda>(p, stack, k). let
       t = new_block pl ms p stack ppn user_sp;
       cx = app_init_context (user_sstatus pl) entry_point user_sp (ms_token (kernel_space k)) (ks_get_top stack)
              (trap_handler_addr pl)
     in Ok (p, put_trap_cx t cx (set_task t k)))))"

section \<open>\<^verbatim>\<open>exec\<close>\<close>

text \<open>A byte and a word written through \<^verbatim>\<open>translated_refmut\<close>.\<close>

definition put_user_byte :: "usize \<Rightarrow> usize \<Rightarrow> u8 \<Rightarrow> mm_state \<Rightarrow> mm_state res" where
  "put_user_byte tok va c s =
     bind_res (translated_refmut tok va s) (\<lambda>pa. Ok (s\<lparr>mem := (mem s)(pa := c)\<rparr>))"

definition put_user_string :: "usize \<Rightarrow> usize \<Rightarrow> u8 list \<Rightarrow> mm_state \<Rightarrow> mm_state res" where
  "put_user_string tok p bytes s =
     fold_res (\<lambda>i. put_user_byte tok (p + of_nat i) ((bytes @ [0]) ! i)) [0..<length bytes + 1] s"

text \<open>
  The loop that pushes the arguments: \<open>argv\<close> are the physical addresses of the entries of the argument
  array, \<open>user_sp\<close> goes down.
\<close>

fun push_args :: "usize \<Rightarrow> usize list \<Rightarrow> u8 list list \<Rightarrow> usize \<times> mm_state \<Rightarrow> (usize \<times> mm_state) res" where
  "push_args tok (slot # argv) (arg # args) (user_sp, s) = (let
     user_sp = user_sp - of_nat (length arg + 1);
     s = s\<lparr>mem := store_u64 (mem s) slot user_sp\<rparr>
   in bind_res (put_user_string tok user_sp arg s) (\<lambda>s. push_args tok argv args (user_sp, s)))"
| "push_args tok argv args st = Ok st"

definition argv_slots :: "usize \<Rightarrow> usize \<Rightarrow> nat \<Rightarrow> mm_state \<Rightarrow> usize list res" where
  "argv_slots tok argv_base n s =
     fold_res (\<lambda>i v. bind_res (translated_refmut tok (argv_base + of_nat i * 8) s) (\<lambda>pa. Ok (v @ [pa]))) [0..<n + 1] []"

definition drop_memory_set :: "ms_state \<Rightarrow> mm_state res" where
  "drop_memory_set st = (case st of (ms, s) \<Rightarrow>
     bind_res (drop_frames (pt_frames (page_table ms)) s) (\<lambda>s. fold_res drop_area (areas ms) s))"

definition task_exec :: "platform \<Rightarrow> u8 list \<Rightarrow> u8 list list \<Rightarrow> TaskControlBlock \<Rightarrow> kernel \<Rightarrow> kernel res" where
  "task_exec pl elf_data args t k =
     bind_res (from_elf (parse_elf pl) (strampoline_addr pl) elf_data (memory k)) (\<lambda>((ms, user_sp, entry_point), s). let
       user_sp = user_sp - of_nat ((length args + 1) * 8);
       argv_base = user_sp
     in
     bind_res (argv_slots (ms_token ms) argv_base (length args) s) (\<lambda>argv. let
       s = s\<lparr>mem := store_u64 (mem s) (argv ! length args) 0\<rparr>
     in
     bind_res (push_args (ms_token ms) argv args (user_sp, s)) (\<lambda>(user_sp, s). let
       user_sp = user_sp - user_sp mod 8
     in
     bind_res (trap_frame ms s) (\<lambda>ppn.
     bind_res (drop_memory_set (memory_set t, s)) (\<lambda>s. let
       t = t\<lparr>memory_set := ms, trap_cx_ppn := ppn\<rparr>;
       cx = app_init_context (user_sstatus pl) entry_point user_sp (ms_token (kernel_space k)) (ks_get_top (kernel_stack t))
              (trap_handler_addr pl);
       cx = cx\<lparr>regs := (regs cx)[10 := of_nat (length args), 11 := argv_base]\<rparr>
     in Ok (put_trap_cx t cx (set_task t (k\<lparr>memory := s\<rparr>))))))))"

section \<open>\<^verbatim>\<open>fork\<close>\<close>

text \<open>The block of the child; the files are shared with the parent.\<close>

definition fork_block :: "platform \<Rightarrow> TaskControlBlock \<Rightarrow> MemorySet \<Rightarrow> usize \<Rightarrow> usize \<Rightarrow> PhysPageNum \<Rightarrow> TaskControlBlock" where
  "fork_block pl par ms p stack ppn =
     \<lparr>priority = priority par, pass = pass par, signals = 0, signal_mask = signal_mask par, handling_sig = -1,
      signal_actions = signal_actions par, killed = False, frozen = False, trap_ctx_backup = None,
      tcb_pid = p, kernel_stack = stack, trap_cx_ppn = ppn, base_size = base_size par,
      task_cx = goto_trap_return (trap_return_addr pl) (ks_get_top stack), task_status = Ready, memory_set = ms,
      tcb_parent = Some (tcb_pid par), children = [], exit_code = 0, fd_table = fd_table par\<rparr>"

definition task_fork :: "platform \<Rightarrow> TaskControlBlock \<Rightarrow> kernel \<Rightarrow> (usize \<times> kernel) res" where
  "task_fork pl par k =
     bind_res (from_existed_userspace (strampoline_addr pl) (memory_set par) (memory k)) (\<lambda>(ms, s).
     bind_res (new_kernel_stack (k\<lparr>memory := s\<rparr>)) (\<lambda>(p, stack, k).
     bind_res (trap_frame ms (memory k)) (\<lambda>ppn. let
       t = fork_block pl par ms p stack ppn;
       k = put_trap_cx t ((get_trap_cx t k)\<lparr>kernel_sp := ks_get_top stack\<rparr>) k;
       par = par\<lparr>children := children par @ [p]\<rparr>
     in Ok (p, set_task par (set_task t k)))))"

section \<open>The processor and the ready queue\<close>

definition take_current_task :: "kernel \<Rightarrow> usize option \<times> kernel" where
  "take_current_task k = (cpu_current k, k\<lparr>cpu_current := None\<rparr>)"

definition current_task :: "kernel \<Rightarrow> TaskControlBlock res" where
  "current_task k = bind_res (unwrap (cpu_current k)) (\<lambda>p. the_task p k)"

definition current_user_token :: "kernel \<Rightarrow> usize res" where
  "current_user_token k = bind_res (current_task k) (\<lambda>t. Ok (get_user_token t))"

definition add_task :: "usize \<Rightarrow> kernel \<Rightarrow> kernel res" where
  "add_task p k =
     bind_res (the_task p k) (\<lambda>t.
     bind_res (tm_add p t (manager k)) (\<lambda>(t, tm). Ok (set_task t (k\<lparr>manager := tm\<rparr>))))"

definition pid2task :: "usize \<Rightarrow> kernel \<Rightarrow> usize option res" where
  "pid2task p k =
     bind_res (current_task k) (\<lambda>t.
     Ok (if p = tcb_pid t then cpu_current k else ready_queue (manager k) p))"

text \<open>One round of \<^verbatim>\<open>run_tasks\<close>, up to the switch to the task that was fetched.\<close>

definition run_tasks_round :: "kernel \<Rightarrow> kernel res" where
  "run_tasks_round k = (case tm_fetch (manager k) of
     (None, tm) \<Rightarrow> Ok (k\<lparr>manager := tm\<rparr>)
   | (Some p, tm) \<Rightarrow>
       bind_res (the_task p k) (\<lambda>t.
       Ok ((set_task (t\<lparr>task_status := Running\<rparr>) (k\<lparr>manager := tm\<rparr>))\<lparr>cpu_current := Some p\<rparr>)))"

text \<open>\<^verbatim>\<open>suspend_current_and_run_next\<close> and \<^verbatim>\<open>exit_current_and_run_next\<close>, up to the switch to the idle task.\<close>

definition suspend_current_and_run_next :: "kernel \<Rightarrow> kernel res" where
  "suspend_current_and_run_next k = (case take_current_task k of (cur, k) \<Rightarrow>
     bind_res (unwrap cur) (\<lambda>p.
     bind_res (the_task p k) (\<lambda>t.
     add_task p (set_task (t\<lparr>task_status := Ready\<rparr>) k))))"

text \<open>
  The children go to \<^verbatim>\<open>INITPROC\<close>. Its block is borrowed while that of the exiting task is, so the
  exit of \<^verbatim>\<open>INITPROC\<close> itself panics (\<^verbatim>\<open>RefCell::borrow_mut\<close>).
\<close>

definition adopt :: "usize \<Rightarrow> kernel \<Rightarrow> kernel res" where
  "adopt child k =
     bind_res (the_task child k) (\<lambda>c. let k = set_task (c\<lparr>tcb_parent := Some (initproc k)\<rparr>) k in
     bind_res (the_task (initproc k) k) (\<lambda>i.
     Ok (set_task (i\<lparr>children := children i @ [child]\<rparr>) k)))"

definition exit_current_and_run_next :: "32 word \<Rightarrow> kernel \<Rightarrow> kernel res" where
  "exit_current_and_run_next code k = (case take_current_task k of (cur, k) \<Rightarrow>
     bind_res (unwrap cur) (\<lambda>p.
     bind_res (the_task p k) (\<lambda>t.
     bind_res (if p = initproc k then Panic ExplicitPanic else Ok ()) (\<lambda>_.
     bind_res (fold_res adopt (children t) (set_task (t\<lparr>task_status := Zombie, exit_code := code\<rparr>) k)) (\<lambda>k.
     bind_res (recycle_data_pages (memory_set t, memory k)) (\<lambda>(ms, s).
     bind_res (the_task p k) (\<lambda>t.
     Ok (set_task (t\<lparr>children := [], memory_set := ms\<rparr>) (k\<lparr>memory := s\<rparr>)))))))))"

text \<open>The number of rounds that \<^verbatim>\<open>read_all\<close> takes for a file of \<^verbatim>\<open>u32\<close> size is less than this.\<close>

definition READ_ALL_ROUNDS :: nat where "READ_ALL_ROUNDS = 2 ^ 23 + 1"

text \<open>
  \<^verbatim>\<open>INITPROC\<close> is made from the file \<^verbatim>\<open>initproc\<close> when \<^verbatim>\<open>add_initproc\<close> first asks for it; \<^const>\<open>None\<close> would be a
  \<^verbatim>\<open>read_all\<close> that does not end.
\<close>

definition initproc_name :: "u8 list" where
  "initproc_name = [0x69, 0x6E, 0x69, 0x74, 0x70, 0x72, 0x6F, 0x63]"

definition add_initproc :: "platform \<Rightarrow> kernel \<Rightarrow> kernel res option" where
  "add_initproc pl k = (case run_cached (open_file initproc_name RDONLY (root_fs k)) (block_cache k) of
     Panic e \<Rightarrow> Some (Panic e)
   | Ok (None, st) \<Rightarrow> Some (Panic UnwrapNone)
   | Ok (Some inode, st) \<Rightarrow> (case run_cached (read_all READ_ALL_ROUNDS inode) st of
       Panic e \<Rightarrow> Some (Panic e)
     | Ok (None, st) \<Rightarrow> None
     | Ok (Some (v, _), st) \<Rightarrow> Some (
         bind_res (TaskControlBlock_new pl v (k\<lparr>block_cache := st\<rparr>)) (\<lambda>(p, k). add_task p (k\<lparr>initproc := p\<rparr>)))))"

section \<open>Signals of the current task\<close>

definition current_add_signal :: "SignalFlags \<Rightarrow> kernel \<Rightarrow> kernel res" where
  "current_add_signal signal k =
     bind_res (current_task k) (\<lambda>t. Ok (set_task (t\<lparr>signals := signals t OR signal\<rparr>) k))"

definition check_signals_error_of_current :: "kernel \<Rightarrow> (int \<times> string) option res" where
  "check_signals_error_of_current k = bind_res (current_task k) (\<lambda>t. Ok (check_error (signals t)))"

text \<open>
  The functions on signals work on the block and the trap context of the current task. Each call of
  \<^verbatim>\<open>suspend_current_and_run_next\<close> in the loop of \<^verbatim>\<open>handle_signals\<close> gives up the processor: \<open>Inr\<close> is the state
  there, and the next round starts when the task runs again.
\<close>

definition with_current :: "(TaskControlBlock \<times> TrapContext \<Rightarrow> (TaskControlBlock \<times> TrapContext) res) \<Rightarrow> kernel \<Rightarrow> kernel res" where
  "with_current f k =
     bind_res (current_task k) (\<lambda>t.
     bind_res (f (t, get_trap_cx t k)) (\<lambda>(t, cx). Ok (put_trap_cx t cx (set_task t k))))"

definition handle_signals_start :: "kernel \<Rightarrow> kernel res" where
  "handle_signals_start k = with_current check_pending_signals k"

definition handle_signals_loop :: "kernel \<Rightarrow> (kernel + kernel) res" where
  "handle_signals_loop k =
     bind_res (current_task k) (\<lambda>t.
     bind_res (handle_signals_round (t, get_trap_cx t k)) (\<lambda>r.
     case r of
       Inl _ \<Rightarrow> Ok (Inl k)
     | Inr (t, cx) \<Rightarrow> bind_res (suspend_current_and_run_next (put_trap_cx t cx (set_task t k))) (\<lambda>k. Ok (Inr k))))"

end
