(* ===== verification/SyscallProcess.thy ===== *)
theory SyscallProcess
  imports Task
begin

text \<open>
  \<^verbatim>\<open>os/src/syscall/process.rs\<close>. A system call gives its return value and the state of the kernel; \<^verbatim>\<open>isize\<close> is
  an integer. A call may give up the processor instead: it has suspended the task and will return a
  value when the task runs again, it waits in the loop of a \<^verbatim>\<open>File\<close>, or the task has exited.
\<close>

text \<open>
  A call that waits: for a character of the console, for bytes in a pipe, or for room in one. The
  addresses are what the iterator of the user buffer has left, the number is what was moved so far.
\<close>

datatype file_call =
    StdinRead "byte_slice list"
  | PipeRead nat "usize list" usize
  | PipeWrite nat "usize list" usize

datatype call_result = Value int | Suspended int | Blocked file_call | Gone

type_synonym syscall_state = "(call_result \<times> kernel) res"

section \<open>Exit, yield, priority, time\<close>

definition sys_exit :: "32 word \<Rightarrow> kernel \<Rightarrow> syscall_state" where
  "sys_exit code k = bind_res (exit_current_and_run_next code k) (\<lambda>k. Ok (Gone, k))"

definition sys_yield :: "kernel \<Rightarrow> syscall_state" where
  "sys_yield k = bind_res (suspend_current_and_run_next k) (\<lambda>k. Ok (Suspended 0, k))"

definition sys_set_priority :: "usize \<Rightarrow> kernel \<Rightarrow> syscall_state" where
  "sys_set_priority prio k =
     (if sint prio < 2 then Ok (Value (- 1), k)
      else bind_res (current_task k) (\<lambda>t. Ok (Value (sint prio), set_task (set_prio prio t) k)))"

text \<open>
  \<^verbatim>\<open>us\<close> is the time that \<^verbatim>\<open>get_time_us\<close> reads. The structure is written at the start of the first slice,
  wherever that slice ends.
\<close>

definition sys_get_time :: "usize \<Rightarrow> usize \<Rightarrow> kernel \<Rightarrow> syscall_state option" where
  "sys_get_time us ts k = (case current_user_token k of
     Panic e \<Rightarrow> Some (Panic e)
   | Ok tok \<Rightarrow> (case translated_byte_buffers tok ts 16 (memory k) of
       None \<Rightarrow> None
     | Some (Panic e) \<Rightarrow> Some (Panic e)
     | Some (Ok []) \<Rightarrow> Some (Ok (Value (- 1), k))
     | Some (Ok (b # bs)) \<Rightarrow> let
         m = store_u64 (mem (memory k)) (fst b) (us div 1000000);
         m = store_u64 m (fst b + 8) (us mod 1000000)
       in Some (Ok (Value 0, k\<lparr>memory := (memory k)\<lparr>mem := m\<rparr>\<rparr>))))"

definition sys_getpid :: "kernel \<Rightarrow> syscall_state" where
  "sys_getpid k = bind_res (current_task k) (\<lambda>t. Ok (Value (sint (tcb_pid t)), k))"

section \<open>Fork, exec, wait\<close>

definition sys_fork :: "platform \<Rightarrow> kernel \<Rightarrow> syscall_state" where
  "sys_fork pl k =
     bind_res (current_task k) (\<lambda>t.
     bind_res (task_fork pl t k) (\<lambda>(child, k).
     bind_res (the_task child k) (\<lambda>c. let
       cx = get_trap_cx c k;
       k = put_trap_cx c (cx\<lparr>regs := (regs cx)[10 := 0]\<rparr>) k
     in bind_res (add_task child k) (\<lambda>k. Ok (Value (sint child), k)))))"

text \<open>The UTF-8 bytes of a \<^verbatim>\<open>String\<close> whose characters are \<open>cs\<close>: \<^verbatim>\<open>translated_str\<close> makes one character of every byte.\<close>

definition str_bytes :: "u8 list \<Rightarrow> u8 list" where
  "str_bytes cs = concat (map (\<lambda>c. if c < 0x80 then [c] else [0xC0 OR drop_bit 6 c, 0x80 OR (c AND 0x3F)]) cs)"

partial_function (option) args_loop :: "usize \<Rightarrow> mm_state \<Rightarrow> usize \<Rightarrow> u8 list list \<Rightarrow> u8 list list res option" where
  "args_loop tok s args args_vec = (case translated_ref tok args s of
     Panic e \<Rightarrow> Some (Panic e)
   | Ok pa \<Rightarrow> let arg_str_ptr = load_u64 (mem s) pa in
       if arg_str_ptr = 0 then Some (Ok args_vec)
       else (case translated_str tok arg_str_ptr s of
           None \<Rightarrow> None
         | Some (Panic e) \<Rightarrow> Some (Panic e)
         | Some (Ok str) \<Rightarrow> args_loop tok s (args + 8) (args_vec @ [str_bytes str])))"

definition sys_exec :: "platform \<Rightarrow> usize \<Rightarrow> usize \<Rightarrow> kernel \<Rightarrow> syscall_state option" where
  "sys_exec pl path args k = (case current_task k of
     Panic e \<Rightarrow> Some (Panic e)
   | Ok t \<Rightarrow> (case translated_str (get_user_token t) path (memory k) of
       None \<Rightarrow> None
     | Some (Panic e) \<Rightarrow> Some (Panic e)
     | Some (Ok path) \<Rightarrow> (case args_loop (get_user_token t) (memory k) args [] of
         None \<Rightarrow> None
       | Some (Panic e) \<Rightarrow> Some (Panic e)
       | Some (Ok args_vec) \<Rightarrow> (case run_cached (open_file (str_bytes path) RDONLY (root_fs k)) (block_cache k) of
           Panic e \<Rightarrow> Some (Panic e)
         | Ok (None, st) \<Rightarrow> Some (Ok (Value (- 1), k\<lparr>block_cache := st\<rparr>))
         | Ok (Some app_inode, st) \<Rightarrow> (case run_cached (read_all READ_ALL_ROUNDS app_inode) st of
             Panic e \<Rightarrow> Some (Panic e)
           | Ok (None, st) \<Rightarrow> None
           | Ok (Some (all_data, _), st) \<Rightarrow>
               Some (bind_res (task_exec pl all_data args_vec t (k\<lparr>block_cache := st\<rparr>)) (\<lambda>k.
                 Ok (Value (int (length args_vec)), k))))))))"

text \<open>
  The strong references to the block of a task that the kernel holds: in the processor, the ready
  queue, \<^verbatim>\<open>INITPROC\<close> and the children of all tasks.
\<close>

definition live_pids :: "kernel \<Rightarrow> usize list" where
  "live_pids k = filter (\<lambda>q. tasks k q \<noteq> None) (map of_nat [0..<unat (pid_current (pid_allocator k))])"

definition strong_count :: "usize \<Rightarrow> kernel \<Rightarrow> nat" where
  "strong_count p k =
     (if cpu_current k = Some p then 1 else 0) + (if ready_queue (manager k) p \<noteq> None then 1 else 0) +
     (if p = initproc k then 1 else 0) + (\<Sum>q \<leftarrow> live_pids k. count_list (children (the (tasks k q))) p)"

text \<open>The block of a task is dropped: its pid, its kernel stack, and its memory set go back.\<close>

definition drop_task :: "usize \<Rightarrow> kernel \<Rightarrow> kernel res" where
  "drop_task p k =
     bind_res (the_task p k) (\<lambda>t.
     bind_res (pid_dealloc p (pid_allocator k)) (\<lambda>a.
     bind_res (drop_kernel_stack (kernel_stack t) (kernel_space k, memory k)) (\<lambda>(ks, s).
     bind_res (drop_memory_set (memory_set t, s)) (\<lambda>s.
     Ok (k\<lparr>tasks := (tasks k)(p := None), pid_allocator := a, kernel_space := ks, memory := s\<rparr>)))))"

text \<open>Whether a child is meant: \<^verbatim>\<open>pid == -1 || pid as usize == p.getpid()\<close>.\<close>

definition wait_matches :: "usize \<Rightarrow> usize \<Rightarrow> bool" where
  "wait_matches pid child = (pid = - 1 \<or> pid = child)"

definition sys_waitpid :: "usize \<Rightarrow> usize \<Rightarrow> kernel \<Rightarrow> syscall_state" where
  "sys_waitpid pid exit_code_ptr k =
     bind_res (current_task k) (\<lambda>t.
     if \<not> list_ex (wait_matches pid) (children t) then Ok (Value (- 1), k)
     else (case find_index (\<lambda>c. (case tasks k c of Some ct \<Rightarrow> is_zombie ct | None \<Rightarrow> False) \<and> wait_matches pid c) (children t) of
         Some idx \<Rightarrow> let
           child = children t ! idx;
           k = set_task (t\<lparr>children := remove_nth idx (children t)\<rparr>) k
         in
         bind_res (assert_that (1 + strong_count child k = 1)) (\<lambda>_.
         bind_res (the_task child k) (\<lambda>c.
         bind_res (translated_refmut (get_user_token t) exit_code_ptr (memory k)) (\<lambda>pa. let
           k = k\<lparr>memory := (memory k)\<lparr>mem := store_bytes (mem (memory k)) pa (le_bytes 4 (exit_code c))\<rparr>\<rparr>
         in
         bind_res (drop_task child k) (\<lambda>k. Ok (Value (sint child), k)))))
       | None \<Rightarrow> Ok (Value (- 2), k)))"

section \<open>Signals\<close>

definition sys_kill :: "usize \<Rightarrow> 32 word \<Rightarrow> kernel \<Rightarrow> syscall_state" where
  "sys_kill pid signum k =
     bind_res (pid2task pid k) (\<lambda>r. case r of
       None \<Rightarrow> Ok (Value (- 1), k)
     | Some p \<Rightarrow> bind_res (the_task p k) (\<lambda>t. case kill_task signum t of (v, t) \<Rightarrow> Ok (Value v, set_task t k)))"

definition sys_sigprocmask_current :: "u32 \<Rightarrow> kernel \<Rightarrow> syscall_state" where
  "sys_sigprocmask_current m k =
     bind_res (current_task k) (\<lambda>t. case sys_sigprocmask m t of (v, t) \<Rightarrow> Ok (Value v, set_task t k))"

definition sys_sigreturn_current :: "kernel \<Rightarrow> syscall_state" where
  "sys_sigreturn_current k =
     bind_res (current_task k) (\<lambda>t.
     bind_res (sys_sigreturn (t, get_trap_cx t k)) (\<lambda>(v, t, cx). Ok (Value v, put_trap_cx t cx (set_task t k))))"

text \<open>
  \<^verbatim>\<open>sys_sigaction\<close>. When the old action has the mask of the default, its handler is stored in a copy of
  the user's structure, so the user sees nothing of it.
\<close>

definition sys_sigaction :: "32 word \<Rightarrow> usize \<Rightarrow> usize \<Rightarrow> kernel \<Rightarrow> syscall_state" where
  "sys_sigaction signum action old_action k =
     bind_res (current_task k) (\<lambda>t.
     if of_nat MAX_SIG < (scast signum :: usize) then Ok (Value (- 1), k)
     else (case sf_from_bits (shift_one signum) of
         None \<Rightarrow> Ok (Value (- 1), k)
       | Some flag \<Rightarrow>
           if check_sigaction_error flag action old_action then Ok (Value (- 1), k)
           else let old_kernel_action = signal_actions t ! unat signum in
             bind_res (translated_refmut (get_user_token t) old_action (memory k)) (\<lambda>old_pa. let
               m = mem (memory k);
               m = (if mask_of old_kernel_action \<noteq> 40
                    then store_bytes (store_u64 m old_pa (handler old_kernel_action)) (old_pa + 8) (le_bytes 4 (mask_of old_kernel_action))
                    else m);
               s = (memory k)\<lparr>mem := m\<rparr>
             in
             bind_res (translated_ref (get_user_token t) action s) (\<lambda>pa. let
               new_action = \<lparr>handler = load_u64 m pa, mask_of = le_word (load_bytes m (pa + 8) 4)\<rparr>;
               t = t\<lparr>signal_actions := (signal_actions t)[unat signum := new_action]\<rparr>
             in Ok (Value 0, set_task t (k\<lparr>memory := s\<rparr>))))))"

end
