(* ===== verification/SyscallFs.thy ===== *)
theory SyscallFs
  imports SyscallProcess
begin

text \<open>
  \<^verbatim>\<open>os/src/syscall/fs.rs\<close>, \<^verbatim>\<open>os/src/fs/stdio.rs\<close> and the trait \<^verbatim>\<open>File\<close> of \<^verbatim>\<open>os/src/fs/mod.rs\<close>: the system calls
  on file descriptors, down to the console, the pipes and the file system. The characters that
  \<^verbatim>\<open>console_getchar\<close> returns are an argument; what is printed is appended to \<open>console\<close>.
\<close>

section \<open>The files behind a descriptor\<close>

definition file_readable :: "kfile \<Rightarrow> kernel \<Rightarrow> bool res" where
  "file_readable f k = (case f of
     Stdin \<Rightarrow> Ok True
   | Stdout \<Rightarrow> Ok False
   | InodeFile i \<Rightarrow> bind_res (unwrap (open_inodes k i)) (\<lambda>os. Ok (os_readable os))
   | PipeFile p w \<Rightarrow> Ok (\<not> w))"

definition file_writable :: "kfile \<Rightarrow> kernel \<Rightarrow> bool res" where
  "file_writable f k = (case f of
     Stdin \<Rightarrow> Ok False
   | Stdout \<Rightarrow> Ok True
   | InodeFile i \<Rightarrow> bind_res (unwrap (open_inodes k i)) (\<lambda>os. Ok (os_writable os))
   | PipeFile p w \<Rightarrow> Ok w)"

definition load_slices :: "byte_slice list \<Rightarrow> kernel \<Rightarrow> u8 list list" where
  "load_slices bs k = map (\<lambda>b. load_bytes (mem (memory k)) (fst b) (snd b)) bs"

definition store_slices :: "byte_slice list \<Rightarrow> u8 list list \<Rightarrow> kernel \<Rightarrow> kernel" where
  "store_slices bs data k =
     k\<lparr>memory := (memory k)\<lparr>mem := fold (\<lambda>(b, d) m. store_bytes m (fst b) d) (zip bs data) (mem (memory k))\<rparr>\<rparr>"

subsection \<open>The console\<close>

text \<open>A round of the loop of \<^verbatim>\<open>Stdin::read\<close>; \<open>c\<close> is the character that the round gets.\<close>

definition stdin_round :: "usize \<Rightarrow> byte_slice list \<Rightarrow> kernel \<Rightarrow> syscall_state" where
  "stdin_round c bs k =
     (if c = 0 then bind_res (suspend_current_and_run_next k) (\<lambda>k. Ok (Blocked (StdinRead bs), k))
      else
        bind_res (if c = 3 then current_add_signal SIGINT k else Ok k) (\<lambda>k.
        bind_res (if bs = [] then Panic OutOfBounds else Ok (hd bs)) (\<lambda>b.
        Ok (Value 1, k\<lparr>memory := (memory k)\<lparr>mem := (mem (memory k))(fst b := ucast c)\<rparr>\<rparr>))))"

definition stdin_read :: "usize \<Rightarrow> byte_slice list \<Rightarrow> kernel \<Rightarrow> syscall_state" where
  "stdin_read c bs k = bind_res (assert_that (UserBuffer_len bs = 1)) (\<lambda>_. stdin_round c bs k)"

text \<open>
  \<^verbatim>\<open>core::str::from_utf8\<close> accepts the well-formed sequences of the Unicode standard (its table 3-7).
\<close>

definition cont_byte :: "u8 \<Rightarrow> bool" where
  "cont_byte b = (0x80 \<le> b \<and> b \<le> 0xBF)"

fun utf8_valid :: "u8 list \<Rightarrow> bool" where
  "utf8_valid [] = True"
| "utf8_valid (a # bs) =
     (if a < 0x80 then utf8_valid bs
      else case bs of
        [] \<Rightarrow> False
      | b # cs \<Rightarrow>
          if 0xC2 \<le> a \<and> a \<le> 0xDF then cont_byte b \<and> utf8_valid cs
          else case cs of
            [] \<Rightarrow> False
          | c # rest \<Rightarrow>
              if 0xE0 \<le> a \<and> a \<le> 0xEF then
                (if a = 0xE0 then 0xA0 \<le> b \<and> b \<le> 0xBF else if a = 0xED then 0x80 \<le> b \<and> b \<le> 0x9F else cont_byte b) \<and>
                cont_byte c \<and> utf8_valid rest
              else case rest of
                [] \<Rightarrow> False
              | d # es \<Rightarrow>
                  0xF0 \<le> a \<and> a \<le> 0xF4 \<and>
                  (if a = 0xF0 then 0x90 \<le> b \<and> b \<le> 0xBF else if a = 0xF4 then 0x80 \<le> b \<and> b \<le> 0x8F else cont_byte b) \<and>
                  cont_byte c \<and> cont_byte d \<and> utf8_valid es)"

definition stdout_write :: "byte_slice list \<Rightarrow> kernel \<Rightarrow> syscall_state" where
  "stdout_write bs k =
     bind_res (fold_res (\<lambda>d k. if utf8_valid d then Ok (k\<lparr>console := console k @ d\<rparr>) else Panic UnwrapErr)
       (load_slices bs k) k) (\<lambda>k.
     Ok (Value (sint (UserBuffer_len bs)), k))"

subsection \<open>Pipes\<close>

text \<open>
  The strong references to a write end. A call that waits holds one of its own, but then the
  descriptor it was made on is still in the table of the waiting task.
\<close>

definition write_end_refs :: "nat \<Rightarrow> kernel \<Rightarrow> nat" where
  "write_end_refs p k = (\<Sum>q \<leftarrow> live_pids k. count_list (fd_table (the (tasks k q))) (Some (PipeFile p True)))"

definition make_pipe :: "kernel \<Rightarrow> kfile \<times> kfile \<times> kernel" where
  "make_pipe k = (let p = next_object k in
     (PipeFile p False, PipeFile p True,
      k\<lparr>pipe_buffers := (pipe_buffers k)(p \<mapsto> set_write_end 1 PipeRingBuffer_new), next_object := p + 1\<rparr>))"

text \<open>
  The rounds of a call up to its return or the next switch. A round that neither returns nor waits has
  moved at least one byte.
\<close>

lemma read_for_Again: "read_for n st = (Again, st') \<Longrightarrow> length (buf_iter st') + n = length (buf_iter st)"
  by (induction n arbitrary: st) (fastforce split: list.splits prod.splits)+

lemma write_for_Again: "write_for n st = (Again, st') \<Longrightarrow> length (buf_iter st') + n = length (buf_iter st)"
  by (induction n arbitrary: st) (fastforce split: list.splits)+

lemma read_round_Again: "read_round st = Ok (Again, st') \<Longrightarrow> length (buf_iter st') < length (buf_iter st)"
  by (auto simp: read_round_def Let_def res_simps split: if_splits dest: read_for_Again)

lemma write_round_Again: "write_round st = Ok (Again, st') \<Longrightarrow> length (buf_iter st') < length (buf_iter st)"
  by (auto simp: write_round_def Let_def split: if_splits dest: write_for_Again)

function read_rounds :: "pipe_call \<Rightarrow> (round_result \<times> pipe_call) res" where
  "read_rounds st = (case read_round st of
     Ok (Again, st') \<Rightarrow> read_rounds st'
   | r \<Rightarrow> r)"
  by pat_completeness auto
termination
  by (relation "measure (\<lambda>st. length (buf_iter st))") (auto intro: read_round_Again)

function write_rounds :: "pipe_call \<Rightarrow> (round_result \<times> pipe_call) res" where
  "write_rounds st = (case write_round st of
     Ok (Again, st') \<Rightarrow> write_rounds st'
   | r \<Rightarrow> r)"
  by pat_completeness auto
termination
  by (relation "measure (\<lambda>st. length (buf_iter st))") (auto intro: write_round_Again)

declare read_rounds.simps [simp del] write_rounds.simps [simp del]

definition put_pipe :: "nat \<Rightarrow> pipe_call \<Rightarrow> kernel \<Rightarrow> kernel" where
  "put_pipe p st k = k\<lparr>pipe_buffers := (pipe_buffers k)(p \<mapsto> ring st), memory := (memory k)\<lparr>mem := user_mem st\<rparr>\<rparr>"

definition pipe_read :: "nat \<Rightarrow> usize list \<Rightarrow> usize \<Rightarrow> kernel \<Rightarrow> syscall_state" where
  "pipe_read p addrs read_size k =
     bind_res (unwrap (pipe_buffers k p)) (\<lambda>rb.
     bind_res (read_rounds \<lparr>buf_iter = addrs, moved = read_size, ring = set_write_end (write_end_refs p k) rb,
       user_mem = mem (memory k)\<rparr>) (\<lambda>(r, st).
     case r of
       Return n \<Rightarrow> Ok (Value (sint n), put_pipe p st k)
     | _ \<Rightarrow> bind_res (suspend_current_and_run_next (put_pipe p st k)) (\<lambda>k.
         Ok (Blocked (PipeRead p (buf_iter st) (moved st)), k))))"

definition pipe_write :: "nat \<Rightarrow> usize list \<Rightarrow> usize \<Rightarrow> kernel \<Rightarrow> syscall_state" where
  "pipe_write p addrs write_size k =
     bind_res (unwrap (pipe_buffers k p)) (\<lambda>rb.
     bind_res (write_rounds \<lparr>buf_iter = addrs, moved = write_size, ring = set_write_end (write_end_refs p k) rb,
       user_mem = mem (memory k)\<rparr>) (\<lambda>(r, st).
     case r of
       Return n \<Rightarrow> Ok (Value (sint n), put_pipe p st k)
     | _ \<Rightarrow> bind_res (suspend_current_and_run_next (put_pipe p st k)) (\<lambda>k.
         Ok (Blocked (PipeWrite p (buf_iter st) (moved st)), k))))"

subsection \<open>\<^verbatim>\<open>File::read\<close>, \<^verbatim>\<open>File::write\<close> and \<^verbatim>\<open>File::fstat\<close>\<close>

definition inode_read :: "nat \<Rightarrow> byte_slice list \<Rightarrow> kernel \<Rightarrow> syscall_state" where
  "inode_read i bs k =
     bind_res (unwrap (open_inodes k i)) (\<lambda>os.
     bind_res (run_cached (os_read (load_slices bs k) os) (block_cache k)) (\<lambda>((n, data, os), st).
     Ok (Value (sint n), store_slices bs data (k\<lparr>open_inodes := (open_inodes k)(i \<mapsto> os), block_cache := st\<rparr>))))"

definition inode_write :: "nat \<Rightarrow> byte_slice list \<Rightarrow> kernel \<Rightarrow> syscall_state" where
  "inode_write i bs k =
     bind_res (unwrap (open_inodes k i)) (\<lambda>os.
     bind_res (run_cached (os_write (load_slices bs k) (root_fs k) os) (block_cache k)) (\<lambda>((n, os), st).
     Ok (Value (sint n), k\<lparr>open_inodes := (open_inodes k)(i \<mapsto> os), block_cache := st\<rparr>)))"

text \<open>
  The methods that \<^verbatim>\<open>sys_read\<close> and \<^verbatim>\<open>sys_write\<close> call on a file. A pipe takes the bytes of the buffer from
  its iterator, a file of the file system takes its slices.
\<close>

definition file_read :: "usize \<Rightarrow> kfile \<Rightarrow> byte_slice list \<Rightarrow> kernel \<Rightarrow> syscall_state" where
  "file_read c f bs k = (case f of
     Stdin \<Rightarrow> stdin_read c bs k
   | Stdout \<Rightarrow> Ok (Value 0, k)
   | InodeFile i \<Rightarrow> inode_read i bs k
   | PipeFile p w \<Rightarrow> bind_res (assert_that (\<not> w)) (\<lambda>_.
       bind_res (UserBuffer_collect (UserBuffer_into_iter bs)) (\<lambda>addrs. pipe_read p addrs 0 k)))"

definition file_write :: "kfile \<Rightarrow> byte_slice list \<Rightarrow> kernel \<Rightarrow> syscall_state" where
  "file_write f bs k = (case f of
     Stdin \<Rightarrow> Ok (Value 0, k)
   | Stdout \<Rightarrow> stdout_write bs k
   | InodeFile i \<Rightarrow> inode_write i bs k
   | PipeFile p w \<Rightarrow> bind_res (assert_that w) (\<lambda>_.
       bind_res (UserBuffer_collect (UserBuffer_into_iter bs)) (\<lambda>addrs. pipe_write p addrs 0 k)))"

definition file_fstat :: "kfile \<Rightarrow> kernel \<Rightarrow> (Stat \<times> kernel) res" where
  "file_fstat f k = (case f of
     InodeFile i \<Rightarrow>
       bind_res (unwrap (open_inodes k i)) (\<lambda>os.
       bind_res (run_cached (os_fstat os) (block_cache k)) (\<lambda>(st, cache). Ok (st, k\<lparr>block_cache := cache\<rparr>)))
   | _ \<Rightarrow> Ok (Stat_new, k))"

text \<open>A task that waits in a call runs again.\<close>

definition resume_file_call :: "usize \<Rightarrow> file_call \<Rightarrow> kernel \<Rightarrow> syscall_state" where
  "resume_file_call c call k = (case call of
     StdinRead bs \<Rightarrow> stdin_round c bs k
   | PipeRead p addrs n \<Rightarrow> pipe_read p addrs n k
   | PipeWrite p addrs n \<Rightarrow> pipe_write p addrs n k)"

section \<open>The system calls\<close>

text \<open>A user buffer or a string, and what the call does with it; \<^const>\<open>None\<close> when its translation does not end.\<close>

definition with_buffers :: "usize \<Rightarrow> usize \<Rightarrow> usize \<Rightarrow> kernel \<Rightarrow> (byte_slice list \<Rightarrow> syscall_state) \<Rightarrow> syscall_state option" where
  "with_buffers tok ptr len k f = map_option (\<lambda>r. bind_res r f) (translated_byte_buffers tok ptr len (memory k))"

definition with_str :: "usize \<Rightarrow> usize \<Rightarrow> kernel \<Rightarrow> (u8 list \<Rightarrow> syscall_state option) \<Rightarrow> syscall_state option" where
  "with_str tok ptr k f = (case translated_str tok ptr (memory k) of
     None \<Rightarrow> None
   | Some (Panic e) \<Rightarrow> Some (Panic e)
   | Some (Ok cs) \<Rightarrow> f (str_bytes cs))"

definition sys_write :: "usize \<Rightarrow> usize \<Rightarrow> usize \<Rightarrow> kernel \<Rightarrow> syscall_state option" where
  "sys_write fd buf len k = (case current_task k of
     Panic e \<Rightarrow> Some (Panic e)
   | Ok t \<Rightarrow>
       if unat fd \<ge> length (fd_table t) then Some (Ok (Value (- 1), k))
       else (case fd_table t ! unat fd of
           None \<Rightarrow> Some (Ok (Value (- 1), k))
         | Some f \<Rightarrow> (case file_writable f k of
               Panic e \<Rightarrow> Some (Panic e)
             | Ok False \<Rightarrow> Some (Ok (Value (- 1), k))
             | Ok True \<Rightarrow> with_buffers (get_user_token t) buf len k (\<lambda>bs. file_write f bs k))))"

definition sys_read :: "usize \<Rightarrow> usize \<Rightarrow> usize \<Rightarrow> usize \<Rightarrow> kernel \<Rightarrow> syscall_state option" where
  "sys_read c fd buf len k = (case current_task k of
     Panic e \<Rightarrow> Some (Panic e)
   | Ok t \<Rightarrow>
       if unat fd \<ge> length (fd_table t) then Some (Ok (Value (- 1), k))
       else (case fd_table t ! unat fd of
           None \<Rightarrow> Some (Ok (Value (- 1), k))
         | Some f \<Rightarrow> (case file_readable f k of
               Panic e \<Rightarrow> Some (Panic e)
             | Ok False \<Rightarrow> Some (Ok (Value (- 1), k))
             | Ok True \<Rightarrow> with_buffers (get_user_token t) buf len k (\<lambda>bs. file_read c f bs k))))"

definition install_fd :: "kfile \<Rightarrow> TaskControlBlock \<Rightarrow> nat \<times> TaskControlBlock" where
  "install_fd f t = (case alloc_fd (fd_table t) of (fd, table) \<Rightarrow> (fd, t\<lparr>fd_table := table[fd := Some f]\<rparr>))"

definition sys_open :: "usize \<Rightarrow> u32 \<Rightarrow> kernel \<Rightarrow> syscall_state option" where
  "sys_open path flags k = (case current_task k of
     Panic e \<Rightarrow> Some (Panic e)
   | Ok t \<Rightarrow> with_str (get_user_token t) path k (\<lambda>path. Some (
       bind_res (unwrap (of_from_bits flags)) (\<lambda>flags.
       bind_res (run_cached (open_file path flags (root_fs k)) (block_cache k)) (\<lambda>(r, st). let
         k = k\<lparr>block_cache := st\<rparr>
       in case r of
           None \<Rightarrow> Ok (Value (- 1), k)
         | Some os \<Rightarrow> (case install_fd (InodeFile (next_object k)) t of (fd, t) \<Rightarrow>
             Ok (Value (int fd), set_task t (k\<lparr>open_inodes := (open_inodes k)(next_object k \<mapsto> os),
               next_object := next_object k + 1\<rparr>))))))))"

definition sys_close :: "usize \<Rightarrow> kernel \<Rightarrow> syscall_state" where
  "sys_close fd k =
     bind_res (current_task k) (\<lambda>t.
     if unat fd \<ge> length (fd_table t) then Ok (Value (- 1), k)
     else if fd_table t ! unat fd = None then Ok (Value (- 1), k)
     else Ok (Value 0, set_task (t\<lparr>fd_table := (fd_table t)[unat fd := None]\<rparr>) k))"

definition AT_FDCWD :: "32 word" where "AT_FDCWD = - 100"

definition sys_linkat :: "32 word \<Rightarrow> usize \<Rightarrow> 32 word \<Rightarrow> usize \<Rightarrow> u32 \<Rightarrow> kernel \<Rightarrow> syscall_state option" where
  "sys_linkat olddirfd oldpath newdirfd newpath flags k =
     (if olddirfd \<noteq> AT_FDCWD \<or> newdirfd \<noteq> AT_FDCWD \<or> flags \<noteq> 0 then Some (Panic AssertFailed)
      else case current_user_token k of
        Panic e \<Rightarrow> Some (Panic e)
      | Ok tok \<Rightarrow> with_str tok oldpath k (\<lambda>oldpath. with_str tok newpath k (\<lambda>newpath. Some (
          bind_res (run_cached (fs_linkat oldpath newpath flags (root_fs k)) (block_cache k)) (\<lambda>(v, st).
          Ok (Value v, k\<lparr>block_cache := st\<rparr>))))))"

definition sys_unlinkat :: "32 word \<Rightarrow> usize \<Rightarrow> u32 \<Rightarrow> kernel \<Rightarrow> syscall_state option" where
  "sys_unlinkat dirfd path flags k =
     (if dirfd \<noteq> AT_FDCWD \<or> flags \<noteq> 0 then Some (Panic AssertFailed)
      else case current_user_token k of
        Panic e \<Rightarrow> Some (Panic e)
      | Ok tok \<Rightarrow> with_str tok path k (\<lambda>path. Some (
          bind_res (run_cached (fs_unlinkat path flags (root_fs k)) (block_cache k)) (\<lambda>(v, st).
          Ok (Value v, k\<lparr>block_cache := st\<rparr>)))))"

text \<open>The bytes of a \<^verbatim>\<open>Stat\<close> (\<^verbatim>\<open>repr(C)\<close>). They are written from the start of the first slice on, wherever it ends.\<close>

definition stat_bytes :: "Stat \<Rightarrow> u8 list" where
  "stat_bytes st = le_bytes 8 (st_dev st) @ le_bytes 8 (st_ino st) @ le_bytes 4 (st_mode st) @ le_bytes 4 (st_nlink st) @
     concat (map (le_bytes 8) (st_pad st))"

definition sys_fstat :: "usize \<Rightarrow> usize \<Rightarrow> kernel \<Rightarrow> syscall_state option" where
  "sys_fstat fd st k = (case current_task k of
     Panic e \<Rightarrow> Some (Panic e)
   | Ok t \<Rightarrow>
       if unat fd \<ge> length (fd_table t) then Some (Ok (Value (- 1), k))
       else with_buffers (get_user_token t) st 80 k (\<lambda>bs. case bs of
           [] \<Rightarrow> Ok (Value (- 1), k)
         | b # _ \<Rightarrow> (case fd_table t ! unat fd of
               None \<Rightarrow> Ok (Value (- 1), k)
             | Some f \<Rightarrow> bind_res (file_fstat f k) (\<lambda>(stat, k).
                 Ok (Value 0, k\<lparr>memory := (memory k)\<lparr>mem := store_bytes (mem (memory k)) (fst b) (stat_bytes stat)\<rparr>\<rparr>)))))"

definition sys_pipe :: "usize \<Rightarrow> kernel \<Rightarrow> syscall_state" where
  "sys_pipe pipe k =
     bind_res (current_task k) (\<lambda>t. case make_pipe k of (rd_end, wr_end, k) \<Rightarrow>
     case install_fd rd_end t of (read_fd, t) \<Rightarrow>
     case install_fd wr_end t of (write_fd, t) \<Rightarrow> let k = set_task t k in
     bind_res (translated_refmut (get_user_token t) pipe (memory k)) (\<lambda>pa. let
       s = (memory k)\<lparr>mem := store_u64 (mem (memory k)) pa (of_nat read_fd)\<rparr>
     in
     bind_res (translated_refmut (get_user_token t) (pipe + 8) s) (\<lambda>pa.
     Ok (Value 0, k\<lparr>memory := s\<lparr>mem := store_u64 (mem s) pa (of_nat write_fd)\<rparr>\<rparr>))))"

definition sys_dup :: "usize \<Rightarrow> kernel \<Rightarrow> syscall_state" where
  "sys_dup fd k =
     bind_res (current_task k) (\<lambda>t.
     if unat fd \<ge> length (fd_table t) then Ok (Value (- 1), k)
     else (case fd_table t ! unat fd of
         None \<Rightarrow> Ok (Value (- 1), k)
       | Some f \<Rightarrow> (case install_fd f t of (new_fd, t) \<Rightarrow> Ok (Value (int new_fd), set_task t k))))"

end
