(* ===== verification/Trap.thy ===== *)
theory Trap
  imports SyscallFs
begin

text \<open>
  \<^verbatim>\<open>os/src/syscall/mod.rs\<close> and \<^verbatim>\<open>os/src/trap/mod.rs\<close>: the dispatch of system calls, the trap handler, and the
  steps of the machine. The handler runs on the kernel stack of the task and may give up the
  processor in the middle; what is left of it is a continuation, which stands for the saved kernel
  stack and task context.
\<close>

section \<open>System calls\<close>

text \<open>\<^verbatim>\<open>sys_mmap\<close> and \<^verbatim>\<open>sys_munmap\<close> work on the memory set of the current task.\<close>

definition with_memory_set :: "(ms_state \<Rightarrow> (int \<times> ms_state) res) \<Rightarrow> kernel \<Rightarrow> syscall_state" where
  "with_memory_set f k =
     bind_res (current_task k) (\<lambda>t.
     bind_res (f (memory_set t, memory k)) (\<lambda>(v, ms, s).
     Ok (Value v, set_task (t\<lparr>memory_set := ms\<rparr>) (k\<lparr>memory := s\<rparr>))))"

text \<open>What the devices give during a trap: the character at the console and the time.\<close>

record inputs =
  char_in :: usize
  time_us :: usize

definition syscall :: "platform \<Rightarrow> inputs \<Rightarrow> usize \<Rightarrow> usize list \<Rightarrow> kernel \<Rightarrow> syscall_state option" where
  "syscall pl inp syscall_id args k =
     (if syscall_id = 24 then Some (sys_dup (args ! 0) k)
      else if syscall_id = 35 then sys_unlinkat (ucast (args ! 0)) (args ! 1) (ucast (args ! 2)) k
      else if syscall_id = 37 then
        sys_linkat (ucast (args ! 0)) (args ! 1) (ucast (args ! 2)) (args ! 3) (ucast (args ! 4)) k
      else if syscall_id = 1024 then sys_open (args ! 0) (ucast (args ! 1)) k
      else if syscall_id = 57 then Some (sys_close (args ! 0) k)
      else if syscall_id = 59 then Some (sys_pipe (args ! 0) k)
      else if syscall_id = 63 then sys_read (char_in inp) (args ! 0) (args ! 1) (args ! 2) k
      else if syscall_id = 64 then sys_write (args ! 0) (args ! 1) (args ! 2) k
      else if syscall_id = 80 then sys_fstat (args ! 0) (args ! 1) k
      else if syscall_id = 93 then Some (sys_exit (ucast (args ! 0)) k)
      else if syscall_id = 124 then Some (sys_yield k)
      else if syscall_id = 129 then Some (sys_kill (args ! 0) (ucast (args ! 1)) k)
      else if syscall_id = 134 then Some (sys_sigaction (ucast (args ! 0)) (args ! 1) (args ! 2) k)
      else if syscall_id = 135 then Some (sys_sigprocmask_current (ucast (args ! 0)) k)
      else if syscall_id = 139 then Some (sys_sigreturn_current k)
      else if syscall_id = 140 then Some (sys_set_priority (args ! 0) k)
      else if syscall_id = 169 then sys_get_time (time_us inp) (args ! 0) k
      else if syscall_id = 172 then Some (sys_getpid k)
      else if syscall_id = 220 then Some (sys_fork pl k)
      else if syscall_id = 221 then sys_exec pl (args ! 0) (args ! 1) k
      else if syscall_id = 215 then Some (with_memory_set (sys_munmap (args ! 0) (args ! 1)) k)
      else if syscall_id = 222 then Some (with_memory_set (sys_mmap (args ! 0) (args ! 1) (args ! 2)) k)
      else if syscall_id = 260 then Some (sys_waitpid (args ! 0) (args ! 1) k)
      else Some (Panic ExplicitPanic))"

section \<open>The trap handler\<close>

datatype trap_cause =
    UserEnvCall | StoreFault | StorePageFault | InstructionFault | InstructionPageFault
  | LoadFault | LoadPageFault | IllegalInstruction | SupervisorTimer | OtherTrap

text \<open>Where a task was when it gave up the processor, and how a trap ends.\<close>

datatype kcont = InCall file_call | CallDone int | TimerDone | InSignals

datatype trap_end = User | Wait kcont | Dead

type_synonym trap_result = "(trap_end \<times> kernel) res"

text \<open>The end of \<^verbatim>\<open>trap_handler\<close>: the loop of \<^verbatim>\<open>handle_signals\<close>, then \<^verbatim>\<open>check_signals_error_of_current\<close>.\<close>

definition leave_kernel :: "kernel \<Rightarrow> trap_result" where
  "leave_kernel k =
     bind_res (check_signals_error_of_current k) (\<lambda>err. case err of
       Some (errno, msg) \<Rightarrow> bind_res (exit_current_and_run_next (of_int errno) k) (\<lambda>k. Ok (Dead, k))
     | None \<Rightarrow> Ok (User, k))"

definition signals_loop :: "kernel \<Rightarrow> trap_result" where
  "signals_loop k =
     bind_res (handle_signals_loop k) (\<lambda>r. case r of
       Inl k \<Rightarrow> leave_kernel k
     | Inr k \<Rightarrow> Ok (Wait InSignals, k))"

definition after_trap :: "kernel \<Rightarrow> trap_result" where
  "after_trap k = bind_res (handle_signals_start k) signals_loop"

text \<open>The result of a call goes to \<^verbatim>\<open>a0\<close> of the trap context that the task has then.\<close>

definition finish_call :: "int \<Rightarrow> kernel \<Rightarrow> trap_result" where
  "finish_call v k =
     bind_res (with_current (\<lambda>(t, cx). Ok (t, cx\<lparr>regs := (regs cx)[10 := of_int v]\<rparr>)) k) after_trap"

definition after_call :: "call_result \<times> kernel \<Rightarrow> trap_result" where
  "after_call r = (case r of
     (Value v, k) \<Rightarrow> finish_call v k
   | (Suspended v, k) \<Rightarrow> Ok (Wait (CallDone v), k)
   | (Blocked c, k) \<Rightarrow> Ok (Wait (InCall c), k)
   | (Gone, k) \<Rightarrow> Ok (Dead, k))"

definition ecall :: "platform \<Rightarrow> inputs \<Rightarrow> kernel \<Rightarrow> trap_result option" where
  "ecall pl inp k = (case current_task k of
     Panic e \<Rightarrow> Some (Panic e)
   | Ok t \<Rightarrow> let
       cx = get_trap_cx t k;
       cx = cx\<lparr>sepc := sepc cx + 4\<rparr>;
       k = put_trap_cx t cx k;
       args = map (\<lambda>i. regs cx ! i) [10, 11, 12, 13, 14, 15]
     in map_option (\<lambda>r. bind_res r after_call) (syscall pl inp (regs cx ! 17) args k))"

definition trap_handler :: "platform \<Rightarrow> inputs \<Rightarrow> trap_cause \<Rightarrow> kernel \<Rightarrow> trap_result option" where
  "trap_handler pl inp cause k = (case cause of
     UserEnvCall \<Rightarrow> ecall pl inp k
   | IllegalInstruction \<Rightarrow> Some (bind_res (current_add_signal SIGILL k) after_trap)
   | SupervisorTimer \<Rightarrow> Some (bind_res (suspend_current_and_run_next k) (\<lambda>k. Ok (Wait TimerDone, k)))
   | OtherTrap \<Rightarrow> Some (Panic ExplicitPanic)
   | _ \<Rightarrow> Some (bind_res (current_add_signal SIGSEGV k) after_trap))"

text \<open>A task that gave up the processor runs again. A new task starts in \<^verbatim>\<open>trap_return\<close>.\<close>

definition resume :: "inputs \<Rightarrow> kcont option \<Rightarrow> kernel \<Rightarrow> trap_result" where
  "resume inp c k = (case c of
     None \<Rightarrow> Ok (User, k)
   | Some (InCall call) \<Rightarrow> bind_res (resume_file_call (char_in inp) call k) after_call
   | Some (CallDone v) \<Rightarrow> finish_call v k
   | Some TimerDone \<Rightarrow> after_trap k
   | Some InSignals \<Rightarrow> signals_loop k)"

section \<open>Steps of the machine\<close>

type_synonym machine = "kernel \<times> (usize \<rightharpoonup> kcont)"

definition settle :: "usize \<Rightarrow> (usize \<rightharpoonup> kcont) \<Rightarrow> trap_end \<times> kernel \<Rightarrow> machine" where
  "settle p conts r = (case r of
     (Wait c, k) \<Rightarrow> (k, conts(p \<mapsto> c))
   | (_, k) \<Rightarrow> (k, conts(p := None)))"

text \<open>
  The running task traps into the kernel; or it runs in user mode, where it may change memory; or the
  idle loop of \<^verbatim>\<open>run_tasks\<close> goes round, and the task it fetches goes on where it gave up the processor.
\<close>

inductive kstep :: "platform \<Rightarrow> machine \<Rightarrow> machine \<Rightarrow> bool" for pl :: platform where
  trap: "\<lbrakk>cpu_current k = Some p; trap_handler pl inp cause k = Some (Ok r)\<rbrakk> \<Longrightarrow> kstep pl (k, conts) (settle p conts r)"
| user: "cpu_current k = Some p \<Longrightarrow> kstep pl (k, conts) (k\<lparr>memory := (memory k)\<lparr>mem := m\<rparr>\<rparr>, conts)"
| idle: "\<lbrakk>cpu_current k = None; run_tasks_round k = Ok k'; cpu_current k' = None\<rbrakk> \<Longrightarrow> kstep pl (k, conts) (k', conts)"
| fetch: "\<lbrakk>cpu_current k = None; run_tasks_round k = Ok k'; cpu_current k' = Some p;
    resume inp (conts p) k' = Ok r\<rbrakk> \<Longrightarrow> kstep pl (k, conts) (settle p conts r)"

end
