(* ===== verification/ProcTable.thy ===== *)
theory ProcTable
  imports Trap
begin

text \<open>
  The process table: what the kernel promises about processes, whatever their memory and files do.
  Processes form a tree below \<^verbatim>\<open>INITPROC\<close>; they are forked, suspended, dispatched, exit and are waited for.
  The invariant of the table is proved here for the abstract steps; \<open>ProcRefine\<close> shows that the kernel
  only makes such steps.
\<close>

section \<open>States and steps\<close>

record proc =
  p_status :: TaskStatus
  p_parent :: "usize option"
  p_children :: "usize list"
  p_exit :: "32 word"

record proc_table =
  procs :: "usize \<rightharpoonup> proc"
  running :: "usize option"
  ready :: "usize set"
  pids :: PidAllocator
  init :: usize

text \<open>The processes after the exit of \<open>p\<close>: \<open>cs\<close> were its children.\<close>

definition exit_procs :: "usize \<Rightarrow> usize \<Rightarrow> 32 word \<Rightarrow> usize list \<Rightarrow> (usize \<rightharpoonup> proc) \<Rightarrow> usize \<rightharpoonup> proc" where
  "exit_procs i p code cs P q =
     (if q = p then map_option (\<lambda>x. x\<lparr>p_status := Zombie, p_children := [], p_exit := code\<rparr>) (P q)
      else if q = i then map_option (\<lambda>x. x\<lparr>p_children := p_children x @ cs\<rparr>) (P q)
      else if q \<in> set cs then map_option (\<lambda>x. x\<lparr>p_parent := Some i\<rparr>) (P q)
      else P q)"

inductive pt_step :: "proc_table \<Rightarrow> proc_table \<Rightarrow> bool" where
  suspend: "\<lbrakk>running T = Some p; procs T p = Some x\<rbrakk> \<Longrightarrow>
    pt_step T (T\<lparr>procs := (procs T)(p \<mapsto> x\<lparr>p_status := Ready\<rparr>), running := None, ready := insert p (ready T)\<rparr>)"
| dispatch: "\<lbrakk>running T = None; p \<in> ready T; procs T p = Some x\<rbrakk> \<Longrightarrow>
    pt_step T (T\<lparr>procs := (procs T)(p \<mapsto> x\<lparr>p_status := Running\<rparr>), running := Some p, ready := ready T - {p}\<rparr>)"
| fork: "\<lbrakk>running T = Some p; procs T p = Some x; pid_alloc_opt (pids T) = Some (c, a)\<rbrakk> \<Longrightarrow>
    pt_step T (T\<lparr>procs := (procs T)(c \<mapsto> \<lparr>p_status = Ready, p_parent = Some p, p_children = [], p_exit = 0\<rparr>,
      p \<mapsto> x\<lparr>p_children := p_children x @ [c]\<rparr>), ready := insert c (ready T), pids := a\<rparr>)"
| exit: "\<lbrakk>running T = Some p; procs T p = Some x; p \<noteq> init T\<rbrakk> \<Longrightarrow>
    pt_step T (T\<lparr>procs := exit_procs (init T) p code (p_children x) (procs T), running := None\<rparr>)"
| wait: "\<lbrakk>running T = Some p; procs T p = Some x; p_children x = cs @ c # cs'; procs T c = Some y; p_status y = Zombie;
    pid_dealloc c (pids T) = Ok a\<rbrakk> \<Longrightarrow>
    pt_step T (T\<lparr>procs := (procs T)(p \<mapsto> x\<lparr>p_children := cs @ cs'\<rparr>, c := None), pids := a\<rparr>)"

section \<open>The tree of processes\<close>

text \<open>
  Parents and children, by process. They agree, \<^verbatim>\<open>INITPROC\<close> alone has no parent, and the way up from every
  process ends there.
\<close>

type_synonym family = "usize \<rightharpoonup> usize option \<times> usize list"

definition parent_of :: "family \<Rightarrow> usize \<Rightarrow> usize \<Rightarrow> bool" where
  "parent_of F p q = (\<exists>cs. F p = Some (Some q, cs))"

definition tree_ok :: "usize \<Rightarrow> family \<Rightarrow> bool" where
  "tree_ok i F =
     (i \<in> dom F \<and>
      (\<forall>p par cs. F p = Some (par, cs) \<longrightarrow> distinct cs) \<and>
      (\<forall>p par cs c. F p = Some (par, cs) \<longrightarrow> c \<in> set cs \<longrightarrow> c \<noteq> i \<and> parent_of F c p) \<and>
      (\<forall>p cs. F p = Some (None, cs) \<longrightarrow> p = i) \<and>
      (\<forall>p q cs. F p = Some (Some q, cs) \<longrightarrow> (\<exists>r ps. F q = Some (r, ps) \<and> p \<in> set ps)) \<and>
      (\<forall>p \<in> dom F. (parent_of F)\<^sup>*\<^sup>* p i))"

lemma tree_okI:
  assumes "i \<in> dom F"
    and "\<And>p par cs. F p = Some (par, cs) \<Longrightarrow> distinct cs"
    and "\<And>p par cs c. F p = Some (par, cs) \<Longrightarrow> c \<in> set cs \<Longrightarrow> c \<noteq> i \<and> parent_of F c p"
    and "\<And>p cs. F p = Some (None, cs) \<Longrightarrow> p = i"
    and "\<And>p q cs. F p = Some (Some q, cs) \<Longrightarrow> \<exists>r ps. F q = Some (r, ps) \<and> p \<in> set ps"
    and "\<And>p. p \<in> dom F \<Longrightarrow> (parent_of F)\<^sup>*\<^sup>* p i"
  shows "tree_ok i F"
  using assms unfolding tree_ok_def by blast

lemma tree_okD:
  assumes "tree_ok i F"
  shows "i \<in> dom F"
    and "F p = Some (par, cs) \<Longrightarrow> distinct cs"
    and "F p = Some (par, cs) \<Longrightarrow> c \<in> set cs \<Longrightarrow> c \<noteq> i \<and> parent_of F c p"
    and "F p = Some (None, cs) \<Longrightarrow> p = i"
    and "F p = Some (Some q, cs) \<Longrightarrow> \<exists>r ps. F q = Some (r, ps) \<and> p \<in> set ps"
    and "p \<in> dom F \<Longrightarrow> (parent_of F)\<^sup>*\<^sup>* p i"
  using assms unfolding tree_ok_def by blast+

lemma parent_of_fun: "\<lbrakk>parent_of F c p; parent_of F c q\<rbrakk> \<Longrightarrow> p = q"
  by (auto simp: parent_of_def)

lemma init_no_parent:
  assumes ok: "tree_ok i F" and i: "F i = Some (par, cs)"
  shows "par = None"
proof (rule ccontr)
  assume "par \<noteq> None"
  then obtain q where "F i = Some (Some q, cs)" using i by auto
  from tree_okD(5) [OF ok this] obtain r ps where "F q = Some (r, ps)" "i \<in> set ps" by blast
  from tree_okD(3) [OF ok this] show False by simp
qed

lemma not_own_child:
  assumes ok: "tree_ok i F" and p: "F p = Some (par, cs)"
  shows "p \<notin> set cs"
proof
  assume "p \<in> set cs"
  from tree_okD(3) [OF ok p this] have i: "p \<noteq> i" and own: "parent_of F p p" by auto
  have "q = p" if "(parent_of F)\<^sup>*\<^sup>* p q" for q
    using that by (induction rule: rtranclp_induct) (auto dest: parent_of_fun [OF own])
  moreover have "(parent_of F)\<^sup>*\<^sup>* p i" using tree_okD(6) [OF ok] p by auto
  ultimately show False using i by auto
qed

lemma tree_ok_root: "tree_ok i [i \<mapsto> (None, [])]"
  by (rule tree_okI) (auto split: if_split_asm)

subsection \<open>A new leaf\<close>

lemma tree_ok_fork:
  assumes ok: "tree_ok i F" and p: "F p = Some (par, cs)" and c: "F c = None"
  shows "tree_ok i (F(c \<mapsto> (Some p, []), p \<mapsto> (par, cs @ [c])))" (is "tree_ok i ?F")
proof (rule tree_okI)
  have cp: "c \<noteq> p" using p c by auto
  have fresh: "c \<notin> set ds" if "F q = Some (r, ds)" for q r ds
    using tree_okD(3) [OF ok that, of c] c by (auto simp: parent_of_def)
  have keep: "parent_of ?F q r" if "parent_of F q r" for q r
    using that p c cp by (auto simp: parent_of_def)
  have new: "parent_of ?F c p" using cp by (simp add: parent_of_def)
  show "i \<in> dom ?F" using tree_okD(1) [OF ok] by auto
  fix q r ds assume q: "?F q = Some (r, ds)"
  consider "q = c" "r = Some p" "ds = []" | "q = p" "r = par" "ds = cs @ [c]" | "q \<noteq> c" "q \<noteq> p" "F q = Some (r, ds)"
    using q cp by (auto split: if_splits)
  note cs = this
  show "distinct ds" using cs by cases (use tree_okD(2) [OF ok] fresh [OF p] p in auto)
  show "d \<noteq> i \<and> parent_of ?F d q" if d: "d \<in> set ds" for d
    using cs by cases (use d tree_okD(1,3) [OF ok] keep new p c in auto)
next
  show "q = i" if "?F q = Some (None, ds)" for q ds
    using that tree_okD(4) [OF ok] p by (auto split: if_splits)
next
  fix q r ds assume q: "?F q = Some (Some r, ds)"
  show "\<exists>r' ps. ?F r = Some (r', ps) \<and> q \<in> set ps"
  proof (cases "q = c")
    case False
    have "\<exists>ds. F q = Some (Some r, ds)" using q False p by (auto split: if_splits)
    then obtain r' ps where "F r = Some (r', ps)" "q \<in> set ps" using tree_okD(5) [OF ok] by blast
    then show ?thesis using p c by auto
  next
    case True
    have "c \<noteq> p" using p c by auto
    with True q have "r = p" by simp
    with True show ?thesis by simp
  qed
next
  fix q assume q: "q \<in> dom ?F"
  have keep: "parent_of F \<le> parent_of ?F" using p c by (auto simp: parent_of_def)
  have old: "(parent_of ?F)\<^sup>*\<^sup>* q i" if "q \<in> dom F" for q
    using rtranclp_mono [OF keep] tree_okD(6) [OF ok that] by blast
  have "parent_of ?F c p" using p c by (auto simp: parent_of_def)
  then show "(parent_of ?F)\<^sup>*\<^sup>* q i"
    using q old [of q] old [of p] p by (auto intro: converse_rtranclp_into_rtranclp split: if_splits)
qed

subsection \<open>An exit\<close>

definition exit_family :: "usize \<Rightarrow> usize \<Rightarrow> usize option \<Rightarrow> usize list \<Rightarrow> family \<Rightarrow> family" where
  "exit_family i p par cs F q =
     (if q = p then Some (par, [])
      else if q = i then map_option (\<lambda>(r, ds). (r, ds @ cs)) (F q)
      else if q \<in> set cs then map_option (\<lambda>(_, ds). (Some i, ds)) (F q)
      else F q)"

lemma tree_ok_exit:
  assumes ok: "tree_ok i F" and p: "F p = Some (par, cs)" and pi: "p \<noteq> i"
  shows "tree_ok i (exit_family i p par cs F)" (is "tree_ok i ?F")
proof (rule tree_okI)
  obtain ci where i: "F i = Some (None, ci)"
    using tree_okD(1) [OF ok] init_no_parent [OF ok] by (auto simp: dom_def)
  have own: "p \<notin> set cs" by (rule not_own_child [OF ok p])
  have mine: "d \<noteq> i" "parent_of F d p" if "d \<in> set cs" for d using tree_okD(3) [OF ok p that] by auto
  have keep: "parent_of ?F d q" if "parent_of F d q" "d \<notin> set cs" for d q
    using that p i pi by (auto simp: parent_of_def exit_family_def)
  have adopted: "parent_of ?F d i" if "d \<in> set cs" for d
    using mine [OF that] own that by (auto simp: parent_of_def exit_family_def)
  have split: "distinct ds \<and> (\<forall>d \<in> set ds. d \<noteq> i \<and> parent_of ?F d q)" if q: "?F q = Some (r, ds)" for q r ds
  proof -
    consider "q = p" "ds = []" | "q = i" "ds = ci @ cs" | "q \<noteq> p" "q \<noteq> i" "\<exists>r'. F q = Some (r', ds)"
      using q i by (fastforce simp: exit_family_def split: if_splits)
    then show ?thesis
    proof cases
      case 2
      have apart: "d \<notin> set cs" if "d \<in> set ci" for d
        using tree_okD(3) [OF ok i that] mine [of d] pi parent_of_fun [of F d i p] by auto
      with tree_okD(2) [OF ok i] tree_okD(2) [OF ok p] have "distinct ds" by (auto simp: 2)
      moreover have "d \<noteq> i \<and> parent_of ?F d i" if "d \<in> set ci" for d
        using tree_okD(3) [OF ok i that] keep apart [OF that] by auto
      moreover have "d \<noteq> i \<and> parent_of ?F d i" if "d \<in> set cs" for d using mine [OF that] adopted [OF that] by simp
      ultimately show ?thesis unfolding 2 by auto
    next
      case 3
      then obtain r' where r': "F q = Some (r', ds)" by blast
      have "d \<noteq> i \<and> parent_of ?F d q" if d: "d \<in> set ds" for d
        using tree_okD(3) [OF ok r' d] keep [of d q] mine [of d] parent_of_fun [of F d q p] 3(1) by auto
      then show ?thesis using tree_okD(2) [OF ok r'] by simp
    qed simp
  qed
  show "i \<in> dom ?F" using i pi by (simp add: exit_family_def dom_def)
  show "distinct ds" if "?F q = Some (r, ds)" for q r ds using split [OF that] by simp
  show "d \<noteq> i \<and> parent_of ?F d q" if "?F q = Some (r, ds)" "d \<in> set ds" for q r ds d using split [OF that(1)] that(2) by simp
  show "q = i" if "?F q = Some (None, ds)" for q ds
    using that tree_okD(4) [OF ok] p by (auto simp: exit_family_def split: if_splits)
  have more: "\<exists>r ds'. ?F q = Some (r, ds') \<and> d \<in> set ds'" if "F q = Some (r, ds)" "d \<in> set ds" "q \<noteq> p" for q r ds d
    using that by (cases "q = i"; cases "q \<in> set cs") (auto simp: exit_family_def)
  show "\<exists>r ps. ?F q = Some (r, ps) \<and> d \<in> set ps" if d: "?F d = Some (Some q, ds)" for d q ds
  proof (cases "d \<in> set cs")
    case True
    then have "q = i" using d own mine by (auto simp: exit_family_def split: if_splits)
    then show ?thesis using True i pi by (simp add: exit_family_def)
  next
    case False
    then obtain ds' where d': "F d = Some (Some q, ds')" using d p i by (auto simp: exit_family_def split: if_splits)
    from tree_okD(5) [OF ok this] obtain r ps where q: "F q = Some (r, ps)" "d \<in> set ps" by blast
    then have "q \<noteq> p" using False p by auto
    from more [OF q this] show ?thesis .
  qed
  show "(parent_of ?F)\<^sup>*\<^sup>* q i" if "q \<in> dom ?F" for q
  proof -
    have "q \<in> dom F" using that p by (auto simp: exit_family_def split: if_splits)
    from tree_okD(6) [OF ok this] show ?thesis
    proof (induction rule: converse_rtranclp_induct)
      case (step q q')
      then show ?case
        using keep [of q q'] adopted [of q] by (cases "q \<in> set cs") (auto intro: converse_rtranclp_into_rtranclp)
    qed simp
  qed
qed

subsection \<open>A leaf that is taken away\<close>

lemma tree_ok_wait:
  assumes ok: "tree_ok i F" and p: "F p = Some (par, cs @ c # cs')" and c: "F c = Some (up, [])"
  shows "tree_ok i (F(p \<mapsto> (par, cs @ cs'), c := None))" (is "tree_ok i ?F")
proof (rule tree_okI)
  have ci: "c \<noteq> i" and cp: "parent_of F c p" using tree_okD(3) [OF ok p, of c] by auto
  have d: "c \<notin> set (cs @ cs')" "distinct (cs @ cs')" using tree_okD(2) [OF ok p] by auto
  have pc: "p \<noteq> c" using p c by auto
  have keep: "parent_of ?F q r" if "parent_of F q r" "q \<noteq> c" for q r
    using that p pc by (auto simp: parent_of_def)
  have elsewhere: "c \<notin> set ds" if "F q = Some (r, ds)" "q \<noteq> p" for q r ds
    using tree_okD(3) [OF ok that(1), of c] parent_of_fun [OF cp, of q] that(2) by auto
  show "i \<in> dom ?F" using tree_okD(1) [OF ok] ci by auto
  have old: "\<exists>ds'. F q = Some (r, ds') \<and> set ds \<subseteq> set ds' \<and> c \<notin> set ds \<and> distinct ds" if "?F q = Some (r, ds)" for q r ds
    using that p d elsewhere [of q] tree_okD(2) [OF ok, of q] by (cases "q = p") (auto split: if_splits)
  show "distinct ds" if "?F q = Some (r, ds)" for q r ds using old [OF that] by blast
  show "e \<noteq> i \<and> parent_of ?F e q" if q: "?F q = Some (r, ds)" and e: "e \<in> set ds" for q r ds e
  proof -
    from old [OF q] e obtain ds' where "F q = Some (r, ds')" "e \<in> set ds'" "e \<noteq> c" by blast
    from tree_okD(3) [OF ok this(1,2)] keep [of e q] this(3) show ?thesis by blast
  qed
  show "q = i" if "?F q = Some (None, ds)" for q ds using old [OF that] tree_okD(4) [OF ok] by blast
  show "\<exists>r ps. ?F q = Some (r, ps) \<and> e \<in> set ps" if e: "?F e = Some (Some q, ds)" for e q ds
  proof -
    from old [OF e] obtain ds' where "F e = Some (Some q, ds')" by blast
    from tree_okD(5) [OF ok this] obtain r ps where q: "F q = Some (r, ps)" "e \<in> set ps" by blast
    have "e \<noteq> c" using e by auto
    then show ?thesis using q p c by (cases "q = p"; cases "q = c") auto
  qed
  have path: "q \<noteq> c \<longrightarrow> (parent_of ?F)\<^sup>*\<^sup>* q i" if "(parent_of F)\<^sup>*\<^sup>* q i" for q
    using that
  proof (induction rule: converse_rtranclp_induct)
    case (step q q')
    have "q' \<noteq> c" using step(1) c by (auto simp: parent_of_def dest!: tree_okD(5) [OF ok])
    then have "(parent_of ?F)\<^sup>*\<^sup>* q' i" using step.IH by blast
    then show ?case using keep [OF step(1)] converse_rtranclp_into_rtranclp [of "parent_of ?F" q q' i] by blast
  qed simp
  show "(parent_of ?F)\<^sup>*\<^sup>* q i" if "q \<in> dom ?F" for q
    using that path [of q] tree_okD(6) [OF ok, of q] p by (auto split: if_splits)
qed

section \<open>The invariant of the table\<close>

text \<open>
  Every process is running, ready or a zombie, as the processor and the ready queue say; a zombie has no
  children and is not \<^verbatim>\<open>INITPROC\<close>; the processes are those whose identifiers are in use, and form a tree.
\<close>

definition family_of :: "proc_table \<Rightarrow> family" where
  "family_of T p = map_option (\<lambda>x. (p_parent x, p_children x)) (procs T p)"

definition status_ok :: "proc_table \<Rightarrow> bool" where
  "status_ok T = (\<forall>p x. procs T p = Some x \<longrightarrow>
     (p_status x = Running \<longleftrightarrow> running T = Some p) \<and> (p_status x = Ready \<longleftrightarrow> p \<in> ready T) \<and>
     p_status x \<in> {Ready, Running, Zombie} \<and> (p_status x = Zombie \<longrightarrow> p_children x = [] \<and> p \<noteq> init T))"

definition pt_inv :: "proc_table \<Rightarrow> bool" where
  "pt_inv T =
     (pid_inv (pids T) \<and> dom (procs T) = pid_used (pids T) \<and> ready T \<subseteq> dom (procs T) \<and>
      set_option (running T) \<subseteq> dom (procs T) \<and> status_ok T \<and> tree_ok (init T) (family_of T))"

lemma dom_family_of [simp]: "dom (family_of T) = dom (procs T)"
  by (auto simp: family_of_def)

lemma status_okD:
  assumes "status_ok T" and "procs T p = Some x"
  shows "(p_status x = Running \<longleftrightarrow> running T = Some p) \<and> (p_status x = Ready \<longleftrightarrow> p \<in> ready T) \<and>
     p_status x \<in> {Ready, Running, Zombie} \<and> (p_status x = Zombie \<longrightarrow> p_children x = [] \<and> p \<noteq> init T)"
  using assms unfolding status_ok_def by blast

lemma pt_step_inv:
  assumes "pt_step T T'" and inv: "pt_inv T"
  shows "pt_inv T'"
  using assms(1)
proof cases
  case (suspend p x)
  have f: "family_of T' = family_of T" using suspend by (auto simp: family_of_def fun_eq_iff)
  have "status_ok T'"
    using inv suspend by (auto simp: pt_inv_def status_ok_def)
  then show ?thesis using inv suspend(1,2,3) f by (auto simp: pt_inv_def)
next
  case (dispatch p x)
  have f: "family_of T' = family_of T" using dispatch by (auto simp: family_of_def fun_eq_iff)
  have "status_ok T'" using inv dispatch by (auto simp: pt_inv_def status_ok_def)
  then show ?thesis using inv dispatch f by (auto simp: pt_inv_def)
next
  case (fork p x c a)
  have c: "pid_inv a" "c \<notin> dom (procs T)" "pid_used a = insert c (dom (procs T))"
    using pid_alloc_spec [OF _ fork(4)] inv by (auto simp: pt_inv_def)
  have cp: "c \<noteq> p" using c fork(3) by auto
  have f: "family_of T' = (family_of T)(c \<mapsto> (Some p, []), p \<mapsto> (p_parent x, p_children x @ [c]))"
    using fork cp by (auto simp: family_of_def fun_eq_iff)
  have "tree_ok (init T') (family_of T')"
    unfolding f using inv fork c by (auto simp: pt_inv_def family_of_def intro!: tree_ok_fork)
  moreover have "p_status x \<noteq> Zombie" using inv fork status_okD [of T p x] by (simp add: pt_inv_def)
  then have "status_ok T'" using inv fork c by (auto simp: pt_inv_def status_ok_def)
  ultimately show ?thesis using inv fork c by (auto simp: pt_inv_def)
next
  case (exit p x code)
  have f: "family_of T' = exit_family (init T) p (p_parent x) (p_children x) (family_of T)"
    using exit by (auto simp: family_of_def fun_eq_iff exit_family_def exit_procs_def option.map_comp comp_def)
  have "tree_ok (init T') (family_of T')"
    unfolding f using inv exit by (auto simp: pt_inv_def family_of_def intro!: tree_ok_exit)
  moreover have "status_ok T'"
    unfolding status_ok_def
  proof (intro allI impI)
    fix q y' assume q: "procs T' q = Some y'"
    then obtain y where y: "procs T q = Some y" using exit by (auto simp: exit_procs_def split: if_splits)
    have "status_ok T" using inv by (simp add: pt_inv_def)
    note ok = status_okD [OF this y]
    show "(p_status y' = Running \<longleftrightarrow> running T' = Some q) \<and> (p_status y' = Ready \<longleftrightarrow> q \<in> ready T') \<and>
      p_status y' \<in> {Ready, Running, Zombie} \<and> (p_status y' = Zombie \<longrightarrow> p_children y' = [] \<and> q \<noteq> init T')"
      using ok q y exit by (auto simp: exit_procs_def split: if_splits)
  qed
  moreover have "dom (procs T') = dom (procs T)" using exit by (auto simp: exit_procs_def split: if_splits)
  ultimately show ?thesis using inv exit by (auto simp: pt_inv_def)
next
  case (wait p x cs c cs' y a)
  have z: "p_children y = []" "c \<noteq> p" "c \<noteq> init T" "c \<notin> ready T"
    using inv wait status_okD [of T c y] by (auto simp: pt_inv_def)
  have u: "pid_inv a" "pid_used a = pid_used (pids T) - {c}"
    using pid_dealloc_used [of "pids T" c] inv wait(5,7) domI [of "procs T" c y] by (auto simp: pt_inv_def)
  have f: "family_of T' = (family_of T)(p \<mapsto> (p_parent x, cs @ cs'), c := None)"
    using wait by (auto simp: family_of_def fun_eq_iff)
  have "tree_ok (init T') (family_of T')"
    unfolding f using inv wait z by (auto simp: pt_inv_def family_of_def intro!: tree_ok_wait [where up = "p_parent y"])
  moreover have "status_ok T'" using inv wait z by (auto simp: pt_inv_def status_ok_def)
  ultimately show ?thesis using inv wait u z by (auto simp: pt_inv_def)
qed

lemma pt_steps_inv: "pt_step\<^sup>*\<^sup>* T T' \<Longrightarrow> pt_inv T \<Longrightarrow> pt_inv T'"
  by (induction rule: rtranclp_induct) (auto intro: pt_step_inv)

end
