(* ===== verification/ProcRefine.thy ===== *)
theory ProcRefine
  imports ProcTable
begin

text \<open>
  The kernel refines the process table: what a trap, a system call or a round of the idle loop does to
  the task control blocks, the processor, the ready queue and the identifiers is a sequence of steps of
  the table.
\<close>

section \<open>The table of a kernel\<close>

definition proc_of :: "TaskControlBlock \<Rightarrow> proc" where
  "proc_of t = \<lparr>p_status = task_status t, p_parent = tcb_parent t, p_children = children t, p_exit = exit_code t\<rparr>"

definition ptable :: "kernel \<Rightarrow> proc_table" where
  "ptable k = \<lparr>procs = (\<lambda>p. map_option proc_of (tasks k p)), running = cpu_current k, ready = dom (ready_queue (manager k)),
     pids = pid_allocator k, init = initproc k\<rparr>"

text \<open>Tasks are filed under their own identifiers.\<close>

definition keyed :: "kernel \<Rightarrow> bool" where
  "keyed k = ((\<forall>p t. tasks k p = Some t \<longrightarrow> tcb_pid t = p) \<and> (\<forall>p q. ready_queue (manager k) p = Some q \<longrightarrow> q = p))"

definition good :: "kernel \<Rightarrow> bool" where
  "good k = (keyed k \<and> pt_inv (ptable k))"

definition sim :: "kernel \<Rightarrow> kernel \<Rightarrow> bool" where
  "sim k k' = (good k \<longrightarrow> good k' \<and> pt_step\<^sup>*\<^sup>* (ptable k) (ptable k'))"

text \<open>Most of what the kernel does leaves the table alone.\<close>

definition quiet :: "kernel \<Rightarrow> kernel \<Rightarrow> bool" where
  "quiet k k' = (keyed k \<longrightarrow> keyed k' \<and> ptable k' = ptable k)"

named_theorems quiet_intros "operations that leave the process table alone"

lemma quiet_refl [quiet_intros]: "quiet k k"
  by (simp add: quiet_def)

lemma quiet_trans: "\<lbrakk>quiet k k'; quiet k' k''\<rbrakk> \<Longrightarrow> quiet k k''"
  by (auto simp: quiet_def)

lemma quiet_sim: "quiet k k' \<Longrightarrow> sim k k'"
  by (auto simp: quiet_def sim_def good_def)

lemma sim_refl [simp]: "sim k k"
  by (simp add: sim_def)

lemma sim_trans: "\<lbrakk>sim k k'; sim k' k''\<rbrakk> \<Longrightarrow> sim k k''"
  by (auto simp: sim_def)

lemma sim_step:
  assumes "\<And>T. good k \<Longrightarrow> keyed k' \<and> pt_step (ptable k) (ptable k')"
  shows "sim k k'"
  using assms pt_step_inv [of "ptable k" "ptable k'"] by (auto simp: sim_def good_def)

lemma quiet_fields:
  assumes "tasks k' = tasks k" "cpu_current k' = cpu_current k" "manager k' = manager k"
    "pid_allocator k' = pid_allocator k" "initproc k' = initproc k"
  shows "quiet k k'"
  using assms by (simp add: quiet_def ptable_def keyed_def)

lemma quiet_updates [quiet_intros]:
  "quiet k k' \<Longrightarrow> quiet k (k'\<lparr>memory := s\<rparr>)"
  "quiet k k' \<Longrightarrow> quiet k (k'\<lparr>block_cache := c\<rparr>)"
  "quiet k k' \<Longrightarrow> quiet k (k'\<lparr>open_inodes := oi\<rparr>)"
  "quiet k k' \<Longrightarrow> quiet k (k'\<lparr>pipe_buffers := pb\<rparr>)"
  "quiet k k' \<Longrightarrow> quiet k (k'\<lparr>next_object := n\<rparr>)"
  "quiet k k' \<Longrightarrow> quiet k (k'\<lparr>console := con\<rparr>)"
  "quiet k k' \<Longrightarrow> quiet k (put_trap_cx t cx k')"
  by (erule quiet_trans, rule quiet_fields; simp add: put_trap_cx_def)+

lemma quiet_set_task:
  assumes "tasks k (tcb_pid t) = Some t" and "tcb_pid t' = tcb_pid t" and "proc_of t' = proc_of t"
  shows "quiet k (set_task t' k)"
proof -
  have e: "(\<lambda>q. map_option proc_of (((tasks k)(tcb_pid t' \<mapsto> t')) q)) = (\<lambda>q. map_option proc_of (tasks k q))"
    using assms by (intro ext) simp
  have "ptable (set_task t' k) = ptable k" by (simp add: ptable_def set_task_def e del: fun_upd_apply)
  moreover have "keyed (set_task t' k)" if "keyed k" using that by (auto simp: keyed_def set_task_def)
  ultimately show ?thesis by (simp add: quiet_def)
qed

lemma current_task_Ok:
  "current_task k = Ok t \<longleftrightarrow> (\<exists>p. cpu_current k = Some p \<and> tasks k p = Some t)"
  by (auto simp: current_task_def the_task_def res_simps)

text \<open>A block that is current or was looked up, and is put back with the same place in the table.\<close>

lemma quiet_put [quiet_intros]:
  assumes "tasks k p = Some t" and "tcb_pid t' = tcb_pid t" and "proc_of t' = proc_of t" and "quiet k k'"
  shows "quiet k (set_task t' k')"
proof (cases "keyed k")
  case True
  with assms(4) have k': "keyed k'" "ptable k' = ptable k" by (auto simp: quiet_def)
  have p: "tcb_pid t = p" using True assms(1) by (auto simp: keyed_def)
  have "map_option proc_of (tasks k' p) = map_option proc_of (tasks k p)"
    using fun_cong [of _ _ p, OF arg_cong [OF k'(2), of procs]] by (simp add: ptable_def)
  then obtain t0 where t0: "tasks k' p = Some t0" "proc_of t0 = proc_of t" using assms(1) by auto
  then have "tcb_pid t0 = p" using k'(1) by (auto simp: keyed_def)
  with t0 assms(2,3) p have "quiet k' (set_task t' k')" by (intro quiet_set_task [of _ t0]) auto
  with assms(4) show ?thesis by (rule quiet_trans)
qed (simp add: quiet_def)

section \<open>Calls that leave the table alone\<close>

lemma proc_of_updates [simp]:
  "proc_of (t\<lparr>priority := pr\<rparr>) = proc_of t" "proc_of (t\<lparr>pass := pa\<rparr>) = proc_of t"
  "proc_of (t\<lparr>signals := sg\<rparr>) = proc_of t" "proc_of (t\<lparr>signal_mask := sg\<rparr>) = proc_of t"
  "proc_of (t\<lparr>signal_actions := ac\<rparr>) = proc_of t" "proc_of (t\<lparr>handling_sig := h\<rparr>) = proc_of t"
  "proc_of (t\<lparr>memory_set := ms\<rparr>) = proc_of t" "proc_of (t\<lparr>trap_cx_ppn := pp\<rparr>) = proc_of t"
  "proc_of (t\<lparr>fd_table := ft\<rparr>) = proc_of t"
  by (simp_all add: proc_of_def)

text \<open>The functions on signals keep what extends \<open>signal_info\<close>.\<close>

lemma more_proc_of:
  assumes "signal_info.more t' = signal_info.more t"
  shows "tcb_pid t' = tcb_pid t \<and> proc_of t' = proc_of t"
  using assms by (cases t; cases t') (simp add: proc_of_def)

lemma handler_more [simp]:
  "signal_info.more (fst (call_kernel_signal_handler s st)) = signal_info.more (fst st)"
  "signal_info.more (fst (call_user_signal_handler sig s st)) = signal_info.more (fst st)"
  by (cases st; simp add: call_kernel_signal_handler_def call_user_signal_handler_def Let_def)+

lemma pending_loop_more: "pending_loop sig st = Ok st' \<Longrightarrow> signal_info.more (fst st') = signal_info.more (fst st)"
proof (induction sig st rule: pending_loop.induct)
  case (1 sig st)
  show ?case
  proof (cases "MAX_SIG < sig")
    case True
    with 1(3) show ?thesis by (simp add: pending_loop.simps)
  next
    case False
    with 1(3) obtain b where b: "to_handle (sig_bit sig) (fst st) = Ok b" by (auto simp: pending_loop.simps [of sig] res_simps)
    consider "\<not> b" | "b" "is_kernel_signal (sig_bit sig)" | "b" "\<not> is_kernel_signal (sig_bit sig)" by blast
    then show ?thesis
    proof cases
      case 1
      then show ?thesis using False b "1.IH"(1) [OF False b] "1.prems" by (simp add: pending_loop.simps [of sig])
    next
      case 2
      then show ?thesis using False b "1.IH"(2) [OF False b] "1.prems" by (simp add: pending_loop.simps [of sig])
    next
      case 3
      then show ?thesis using False b "1.prems" by (auto simp: pending_loop.simps [of sig])
    qed
  qed
qed

lemma check_pending_more:
  "check_pending_signals st = Ok st' \<Longrightarrow> signal_info.more (fst st') = signal_info.more (fst st)"
  by (simp add: check_pending_signals_def pending_loop_more)

lemma quiet_with_current:
  assumes "with_current f k = Ok k'"
    and "\<And>t cx st'. f (t, cx) = Ok st' \<Longrightarrow> signal_info.more (fst st') = signal_info.more t"
  shows "quiet k k'"
proof -
  from assms(1) obtain p t t' cx' where t: "tasks k p = Some t" "f (t, get_trap_cx t k) = Ok (t', cx')"
    "k' = put_trap_cx t' cx' (set_task t' k)"
    by (auto simp: with_current_def current_task_Ok res_simps)
  from more_proc_of [of t' t] assms(2) [OF t(2)] have "tcb_pid t' = tcb_pid t" "proc_of t' = proc_of t" by auto
  then show ?thesis unfolding t(3) by (intro quiet_updates quiet_put [OF t(1)] quiet_refl)
qed

lemmas quiet_defs = current_task_Ok res_simps the_task_def Let_def install_fd_def put_pipe_def store_slices_def

lemma quiet_signals:
  "handle_signals_start k = Ok k' \<Longrightarrow> quiet k k'"
  "current_add_signal s k = Ok k' \<Longrightarrow> quiet k k'"
  "sys_sigprocmask_current m k = Ok (r, k') \<Longrightarrow> quiet k k'"
  "sys_sigaction signum act old k = Ok (r, k') \<Longrightarrow> quiet k k'"
proof -
  show "handle_signals_start k = Ok k' \<Longrightarrow> quiet k k'"
    unfolding handle_signals_start_def by (erule quiet_with_current) (auto dest: check_pending_more)
  show "current_add_signal s k = Ok k' \<Longrightarrow> quiet k k'"
    by (auto simp: current_add_signal_def quiet_defs intro!: quiet_intros)
  show "sys_sigprocmask_current m k = Ok (r, k') \<Longrightarrow> quiet k k'"
    by (auto simp: sys_sigprocmask_current_def sys_sigprocmask_def quiet_defs intro!: quiet_intros)
  show "sys_sigaction signum act old k = Ok (r, k') \<Longrightarrow> quiet k k'"
    by (auto simp: sys_sigaction_def quiet_defs split: if_splits option.splits intro!: quiet_intros)
qed

lemma quiet_process_calls:
  "sys_set_priority prio k = Ok (r, k') \<Longrightarrow> quiet k k'"
  "sys_get_time us ts k = Some (Ok (r, k')) \<Longrightarrow> quiet k k'"
  "sys_getpid k = Ok (r, k') \<Longrightarrow> quiet k k'"
  "sys_kill pid signum k = Ok (r, k') \<Longrightarrow> quiet k k'"
  "sys_sigreturn_current k = Ok (r, k') \<Longrightarrow> quiet k k'"
  "sys_exec pl path args k = Some (Ok (r, k')) \<Longrightarrow> quiet k k'"
  "with_memory_set f k = Ok (r, k') \<Longrightarrow> quiet k k'"
proof -
  show "sys_set_priority prio k = Ok (r, k') \<Longrightarrow> quiet k k'"
    by (auto simp: sys_set_priority_def set_prio_def quiet_defs split: if_splits intro!: quiet_intros)
  show "sys_get_time us ts k = Some (Ok (r, k')) \<Longrightarrow> quiet k k'"
    by (auto simp: sys_get_time_def Let_def split: res.splits option.splits list.splits intro!: quiet_intros)
  show "sys_getpid k = Ok (r, k') \<Longrightarrow> quiet k k'"
    by (auto simp: sys_getpid_def quiet_defs intro: quiet_refl)
  show "sys_kill pid signum k = Ok (r, k') \<Longrightarrow> quiet k k'"
    by (auto simp: sys_kill_def kill_task_def quiet_defs split: option.splits if_splits intro!: quiet_intros)
  show "sys_sigreturn_current k = Ok (r, k') \<Longrightarrow> quiet k k'"
    by (auto simp: sys_sigreturn_current_def sys_sigreturn_def quiet_defs intro!: quiet_intros)
  show "sys_exec pl path args k = Some (Ok (r, k')) \<Longrightarrow> quiet k k'"
    by (auto simp: sys_exec_def task_exec_def quiet_defs split: res.splits option.splits prod.splits intro!: quiet_intros)
  show "with_memory_set f k = Ok (r, k') \<Longrightarrow> quiet k k'"
    by (auto simp: with_memory_set_def quiet_defs intro!: quiet_intros)
qed

lemma with_buffers_Ok:
  "with_buffers tok ptr len k f = Some (Ok r) \<longleftrightarrow>
     (\<exists>bs. translated_byte_buffers tok ptr len (memory k) = Some (Ok bs) \<and> f bs = Ok r)"
  by (auto simp: with_buffers_def res_simps)

lemma file_fstat_quiet: "file_fstat f k = Ok (st, k') \<Longrightarrow> quiet k k'"
  by (cases f) (auto simp: file_fstat_def res_simps intro!: quiet_intros)

lemma quiet_file_calls:
  "sys_open path flags k = Some (Ok (r, k')) \<Longrightarrow> quiet k k'"
  "sys_close fd k = Ok (r, k') \<Longrightarrow> quiet k k'"
  "sys_linkat a b c d fl k = Some (Ok (r, k')) \<Longrightarrow> quiet k k'"
  "sys_unlinkat a b fl k = Some (Ok (r, k')) \<Longrightarrow> quiet k k'"
  "sys_fstat fd st k = Some (Ok (r, k')) \<Longrightarrow> quiet k k'"
  "sys_pipe pp k = Ok (r, k') \<Longrightarrow> quiet k k'"
  "sys_dup fd k = Ok (r, k') \<Longrightarrow> quiet k k'"
proof -
  show "sys_open path flags k = Some (Ok (r, k')) \<Longrightarrow> quiet k k'"
    by (auto simp: sys_open_def with_str_def quiet_defs split: res.splits option.splits prod.splits intro!: quiet_intros)
  show "sys_close fd k = Ok (r, k') \<Longrightarrow> quiet k k'"
    by (auto simp: sys_close_def quiet_defs split: if_splits intro!: quiet_intros)
  show "sys_linkat a b c d fl k = Some (Ok (r, k')) \<Longrightarrow> quiet k k'"
    by (auto simp: sys_linkat_def with_str_def res_simps split: if_splits res.splits option.splits intro!: quiet_intros)
  show "sys_unlinkat a b fl k = Some (Ok (r, k')) \<Longrightarrow> quiet k k'"
    by (auto simp: sys_unlinkat_def with_str_def res_simps split: if_splits res.splits option.splits intro!: quiet_intros)
  show "sys_fstat fd st k = Some (Ok (r, k')) \<Longrightarrow> quiet k k'"
    by (clarsimp simp: sys_fstat_def with_buffers_Ok split: res.split_asm if_split_asm)
       (auto simp: res_simps dest!: file_fstat_quiet split: option.split_asm list.split_asm intro!: quiet_intros)
  show "sys_pipe pp k = Ok (r, k') \<Longrightarrow> quiet k k'"
    by (auto simp: sys_pipe_def make_pipe_def quiet_defs split: prod.splits intro!: quiet_intros)
  show "sys_dup fd k = Ok (r, k') \<Longrightarrow> quiet k k'"
    by (auto simp: sys_dup_def quiet_defs split: if_splits option.splits prod.splits intro!: quiet_intros)
qed

section \<open>Calls that change the table\<close>

text \<open>The table of a kernel from its fields.\<close>

lemma ptable_procs: "procs (ptable k) p = map_option proc_of (tasks k p)"
  and ptable_running: "running (ptable k) = cpu_current k"
  and ptable_init: "init (ptable k) = initproc k"
  and ptable_pids: "pids (ptable k) = pid_allocator k"
  and ptable_ready: "ready (ptable k) = dom (ready_queue (manager k))"
  by (simp_all add: ptable_def)

lemmas ptable_sel = ptable_procs ptable_running ptable_init ptable_pids ptable_ready

lemma ptable_eqI:
  assumes "\<And>p. procs T p = map_option proc_of (tasks k p)" "running T = cpu_current k"
    "ready T = dom (ready_queue (manager k))" "pids T = pid_allocator k" "init T = initproc k"
  shows "T = ptable k"
  using assms by (cases T) (auto simp: ptable_def)

lemma keyedI:
  assumes "\<And>p t. tasks k p = Some t \<Longrightarrow> tcb_pid t = p" and "\<And>p q. ready_queue (manager k) p = Some q \<Longrightarrow> q = p"
  shows "keyed k"
  using assms by (simp add: keyed_def)

lemma keyedD:
  assumes "keyed k"
  shows "tasks k p = Some t \<Longrightarrow> tcb_pid t = p" and "ready_queue (manager k) p = Some q \<Longrightarrow> q = p"
  using assms by (auto simp: keyed_def)

lemma suspend_Ok:
  assumes "suspend_current_and_run_next k = Ok k'" and "keyed k"
  shows "\<exists>p t v. cpu_current k = Some p \<and> tasks k p = Some t \<and>
    tasks k' = (tasks k)(p \<mapsto> t\<lparr>task_status := Ready, pass := v\<rparr>) \<and> cpu_current k' = None \<and>
    ready_queue (manager k') = (ready_queue (manager k))(p \<mapsto> p) \<and> pid_allocator k' = pid_allocator k \<and> initproc k' = initproc k"
proof -
  from assms(1) obtain p t where p: "cpu_current k = Some p" "tasks k p = Some t"
    and a: "add_task p (set_task (t\<lparr>task_status := Ready\<rparr>) (k\<lparr>cpu_current := None\<rparr>)) = Ok k'"
    by (auto simp: suspend_current_and_run_next_def take_current_task_def the_task_def res_simps)
  have pid: "tcb_pid t = p" using assms(2) p(2) by (rule keyedD)
  show ?thesis
    using a p pid
    by (auto simp: add_task_def the_task_def set_task_def tm_add_def Let_def res_simps split: if_split_asm)
qed

lemma sim_suspend:
  assumes "suspend_current_and_run_next k = Ok k'"
  shows "sim k k'"
proof (rule sim_step)
  assume g: "good k"
  then have key: "keyed k" by (simp add: good_def)
  from suspend_Ok [OF assms key] obtain p t v where s: "cpu_current k = Some p" "tasks k p = Some t"
    "tasks k' = (tasks k)(p \<mapsto> t\<lparr>task_status := Ready, pass := v\<rparr>)" "cpu_current k' = None"
    "ready_queue (manager k') = (ready_queue (manager k))(p \<mapsto> p)" "pid_allocator k' = pid_allocator k" "initproc k' = initproc k"
    by blast
  have "keyed k'" by (rule keyedI) (use s keyedD [OF key] in \<open>auto split: if_split_asm\<close>)
  moreover have "pt_step (ptable k) ((ptable k)\<lparr>procs := (procs (ptable k))(p \<mapsto> (proc_of t)\<lparr>p_status := Ready\<rparr>),
      running := None, ready := insert p (ready (ptable k))\<rparr>)"
    by (rule pt_step.suspend) (simp_all add: s ptable_sel)
  moreover have "\<dots> = ptable k'"
    by (rule ptable_eqI) (auto simp: s ptable_sel proc_of_def)
  ultimately show "keyed k' \<and> pt_step (ptable k) (ptable k')" by simp
qed

lemma fetch_loop_ready: "fetch_loop rq s = (Some p, s') \<Longrightarrow> p \<in> dom rq"
proof (induction rq s rule: fetch_loop.induct)
  case (1 rq s)
  show ?case
  proof (cases "find_next_task s")
    case (Pair r s1)
    then show ?thesis using 1 by (cases r) (auto simp: fetch_loop.simps [of rq s] split: if_split_asm)
  qed
qed

lemma sim_round:
  assumes "run_tasks_round k = Ok k'" and "cpu_current k = None"
  shows "sim k k'"
proof (cases "fst (tm_fetch (manager k))")
  case None
  then have k': "k' = k\<lparr>manager := snd (tm_fetch (manager k))\<rparr>" "ready_queue (snd (tm_fetch (manager k))) = ready_queue (manager k)"
    using assms(1) by (auto simp: run_tasks_round_def tm_fetch_def split: prod.splits option.splits)
  then have "quiet k k'" by (simp add: quiet_def keyed_def ptable_def)
  then show ?thesis by (rule quiet_sim)
next
  case (Some p)
  show ?thesis
  proof (rule sim_step)
    assume g: "good k"
    then have key: "keyed k" by (simp add: good_def)
    obtain tm t where s: "tm_fetch (manager k) = (Some p, tm)" "tasks k p = Some t"
      "k' = (set_task (t\<lparr>task_status := Running\<rparr>) (k\<lparr>manager := tm\<rparr>))\<lparr>cpu_current := Some p\<rparr>"
      using assms(1) Some by (auto simp: run_tasks_round_def the_task_def res_simps split: prod.splits option.splits)
    have rq: "p \<in> dom (ready_queue (manager k))" "ready_queue tm = (ready_queue (manager k))(p := None)"
      using s(1) fetch_loop_ready [of "ready_queue (manager k)" "scheduler (manager k)" p]
      by (auto simp: tm_fetch_def split: prod.splits option.splits)
    have pid: "tcb_pid t = p" using key s(2) by (rule keyedD)
    have "keyed k'" by (rule keyedI) (use s(3) rq pid keyedD [OF key] in \<open>auto simp: set_task_def split: if_split_asm\<close>)
    moreover have "pt_step (ptable k) ((ptable k)\<lparr>procs := (procs (ptable k))(p \<mapsto> (proc_of t)\<lparr>p_status := Running\<rparr>),
        running := Some p, ready := ready (ptable k) - {p}\<rparr>)"
      by (rule pt_step.dispatch) (use s(2) rq(1) assms(2) in \<open>auto simp: ptable_sel\<close>)
    moreover have "\<dots> = ptable k'"
      by (rule ptable_eqI)
         (use s(2,3) rq pid in \<open>auto simp: ptable_sel proc_of_def set_task_def\<close>)
    ultimately show "keyed k' \<and> pt_step (ptable k) (ptable k')" by simp
  qed
qed

subsection \<open>Exit\<close>

text \<open>The blocks after \<^verbatim>\<open>INITPROC\<close>, whose block is \<open>i\<close>, has adopted \<open>cs\<close>.\<close>

definition adopted :: "usize list \<Rightarrow> TaskControlBlock \<Rightarrow> kernel \<Rightarrow> usize \<rightharpoonup> TaskControlBlock" where
  "adopted cs i k q =
     (if q = initproc k then Some (i\<lparr>children := children i @ cs\<rparr>)
      else if q \<in> set cs then map_option (\<lambda>c. c\<lparr>tcb_parent := Some (initproc k)\<rparr>) (tasks k q)
      else tasks k q)"

lemma fold_adopt:
  assumes "\<And>q t. tasks k q = Some t \<Longrightarrow> tcb_pid t = q" and "set cs \<subseteq> dom (tasks k)" and "initproc k \<notin> set cs"
    and "tasks k (initproc k) = Some i" and "distinct cs"
  shows "fold_res adopt cs k = Ok (k\<lparr>tasks := adopted cs i k\<rparr>)"
  using assms
proof (induction cs arbitrary: k i)
  case Nil
  have "adopted [] i k = tasks k" using Nil by (auto simp: adopted_def fun_eq_iff)
  then show ?case by simp
next
  case (Cons c cs)
  then obtain ct where ct: "tasks k c = Some ct" "tcb_pid ct = c" by auto
  have ini: "tcb_pid i = initproc k" "c \<noteq> initproc k" using Cons.prems by auto
  define i1 where "i1 = i\<lparr>children := children i @ [c]\<rparr>"
  define k1 where "k1 = k\<lparr>tasks := (tasks k)(c \<mapsto> ct\<lparr>tcb_parent := Some (initproc k)\<rparr>, initproc k \<mapsto> i1)\<rparr>"
  have step: "adopt c k = Ok k1"
    using ct ini Cons.prems(4) by (simp add: adopt_def the_task_def set_task_def Let_def k1_def i1_def)
  have "fold_res adopt cs k1 = Ok (k1\<lparr>tasks := adopted cs i1 k1\<rparr>)"
    by (rule Cons.IH) (use Cons.prems ct ini in \<open>auto simp: k1_def i1_def split: if_split_asm\<close>)
  moreover have "adopted cs i1 k1 = adopted (c # cs) i k"
    using Cons.prems(3,5) ct ini by (auto simp: adopted_def k1_def i1_def fun_eq_iff)
  ultimately show ?case using step by (simp add: k1_def)
qed

lemma good_family:
  assumes "good k" and "tasks k p = Some t"
  shows "distinct (children t)" "set (children t) \<subseteq> dom (tasks k)" "initproc k \<notin> set (children t)" "p \<notin> set (children t)"
    "initproc k \<in> dom (tasks k)"
proof -
  have tr: "tree_ok (initproc k) (family_of (ptable k))" using assms(1) by (simp add: good_def pt_inv_def ptable_init)
  have f: "family_of (ptable k) p = Some (tcb_parent t, children t)"
    using assms(2) by (simp add: family_of_def ptable_sel proc_of_def)
  show "distinct (children t)" by (rule tree_okD(2) [OF tr f])
  show "p \<notin> set (children t)" by (rule not_own_child [OF tr f])
  show "initproc k \<notin> set (children t)" using tree_okD(3) [OF tr f, of "initproc k"] by auto
  show "set (children t) \<subseteq> dom (tasks k)"
    using tree_okD(3) [OF tr f] by (fastforce simp: parent_of_def family_of_def ptable_sel)
  show "initproc k \<in> dom (tasks k)" using tree_okD(1) [OF tr] by (auto simp: ptable_sel)
qed

lemma exit_eq:
  assumes g: "good k" and p: "cpu_current k = Some p" "tasks k p = Some t" "p \<noteq> initproc k"
    and i: "tasks k (initproc k) = Some i"
  shows "exit_current_and_run_next code k =
    bind_res (recycle_data_pages (memory_set t, memory k)) (\<lambda>(ms, s). Ok (k\<lparr>cpu_current := None, memory := s,
      tasks := (adopted (children t) i k)
        (p \<mapsto> t\<lparr>task_status := Zombie, exit_code := code, children := [], memory_set := ms\<rparr>)\<rparr>))"
proof -
  have key: "tcb_pid u = q" if "tasks k q = Some u" for q u using g keyedD(1) [OF _ that] by (simp add: good_def)
  note fam = good_family [OF g p(2)]
  define k2 where "k2 = set_task (t\<lparr>task_status := Zombie, exit_code := code\<rparr>) (k\<lparr>cpu_current := None\<rparr>)"
  have a: "fold_res adopt (children t) k2 = Ok (k2\<lparr>tasks := adopted (children t) i k2\<rparr>)"
    by (rule fold_adopt) (use key p fam i in \<open>auto simp: k2_def set_task_def split: if_split_asm\<close>)
  have k2: "tasks k2 = (tasks k)(p \<mapsto> t\<lparr>task_status := Zombie, exit_code := code\<rparr>)" "initproc k2 = initproc k" "memory k2 = memory k"
    using key [OF p(2)] by (auto simp: k2_def set_task_def)
  have at: "adopted (children t) i k2 p = Some (t\<lparr>task_status := Zombie, exit_code := code\<rparr>)"
    using fam(4) p(3) by (simp add: adopted_def k2)
  have rest: "(adopted (children t) i k2)(p \<mapsto> u) = (adopted (children t) i k)(p \<mapsto> u)" for u
    using p(3) by (auto simp: adopted_def k2 fun_eq_iff)
  have fin: "set_task (t\<lparr>task_status := Zombie, exit_code := code, children := [], memory_set := ms\<rparr>)
      (k2\<lparr>tasks := adopted (children t) i k2, memory := s\<rparr>) = k\<lparr>cpu_current := None, memory := s,
      tasks := (adopted (children t) i k)(p \<mapsto> t\<lparr>task_status := Zombie, exit_code := code, children := [], memory_set := ms\<rparr>)\<rparr>" for ms s
    using key [OF p(2)] by (simp add: set_task_def rest del: fun_upd_apply) (simp add: k2_def set_task_def)
  show ?thesis
    using p a by (simp add: exit_current_and_run_next_def take_current_task_def the_task_def k2_def [symmetric] at k2 fin split_def)
qed

lemma exit_current: "exit_current_and_run_next code k = Ok k' \<Longrightarrow>
    \<exists>p t. cpu_current k = Some p \<and> tasks k p = Some t \<and> p \<noteq> initproc k"
  by (auto simp: exit_current_and_run_next_def take_current_task_def the_task_def res_simps split: if_split_asm)

lemma sim_exit:
  assumes "exit_current_and_run_next code k = Ok k'"
  shows "sim k k'"
proof (rule sim_step)
  assume g: "good k"
  then have key: "keyed k" by (simp add: good_def)
  from exit_current [OF assms] obtain p t where pt: "cpu_current k = Some p" "tasks k p = Some t" "p \<noteq> initproc k" by blast
  obtain i where i: "tasks k (initproc k) = Some i" using good_family(5) [OF g pt(2)] by auto
  note e = pt i
  from assms obtain ms s where k': "k' = k\<lparr>cpu_current := None, memory := s, tasks := (adopted (children t) i k)
      (p \<mapsto> t\<lparr>task_status := Zombie, exit_code := code, children := [], memory_set := ms\<rparr>)\<rparr>"
    by (auto simp: exit_eq [OF g e] res_simps)
  have "keyed k'"
    by (rule keyedI) (use e keyedD [OF key] in \<open>auto simp: k' adopted_def split: if_split_asm\<close>)
  moreover have "pt_step (ptable k) ((ptable k)\<lparr>procs := exit_procs (init (ptable k)) p code (p_children (proc_of t)) (procs (ptable k)),
      running := None\<rparr>)"
    by (rule pt_step.exit) (simp_all add: e ptable_sel)
  moreover have "\<dots> = ptable k'"
    by (rule ptable_eqI) (use e in \<open>auto simp: k' ptable_sel proc_of_def exit_procs_def adopted_def option.map_comp comp_def\<close>)
  ultimately show "keyed k' \<and> pt_step (ptable k) (ptable k')" by simp
qed

subsection \<open>Fork and wait\<close>

lemma new_kernel_stack_Ok:
  assumes "new_kernel_stack k = Ok (c, stack, k')"
  shows "\<exists>a ks s. pid_alloc (pid_allocator k) = (c, a) \<and> k' = k\<lparr>pid_allocator := a, kernel_space := ks, memory := s\<rparr>"
  using assms by (auto simp: new_kernel_stack_def res_simps split: prod.split_asm)

definition child_of :: "TaskControlBlock \<Rightarrow> usize \<Rightarrow> TaskControlBlock \<Rightarrow> bool" where
  "child_of t c ct = (tcb_pid ct = c \<and> fd_table ct = fd_table t \<and>
     proc_of ct = \<lparr>p_status = Ready, p_parent = Some (tcb_pid t), p_children = [], p_exit = 0\<rparr>)"

lemma fork_block_child: "child_of t c (fork_block pl t ms c stack ppn)"
  by (simp add: child_of_def fork_block_def proc_of_def)

lemma task_fork_Ok:
  assumes "task_fork pl t k = Ok (c, k')"
  shows "\<exists>a ct ks s. pid_alloc (pid_allocator k) = (c, a) \<and> child_of t c ct \<and>
    k' = k\<lparr>pid_allocator := a, kernel_space := ks, memory := s,
      tasks := (tasks k)(c \<mapsto> ct, tcb_pid t \<mapsto> t\<lparr>children := children t @ [c]\<rparr>)\<rparr>"
proof -
  from assms obtain ms s stack k1 ppn where k1: "new_kernel_stack (k\<lparr>memory := s\<rparr>) = Ok (c, stack, k1)"
    and k': "\<exists>ct cx. child_of t c ct \<and> k' = set_task (t\<lparr>children := children t @ [c]\<rparr>) (set_task ct (put_trap_cx ct cx k1))"
    using fork_block_child [of t c] by (auto simp: task_fork_def res_simps Let_def) blast
  from new_kernel_stack_Ok [OF k1] obtain a ks s' where "pid_alloc (pid_allocator k) = (c, a)"
    "k1 = k\<lparr>pid_allocator := a, kernel_space := ks, memory := s'\<rparr>" by auto
  with k' show ?thesis by (fastforce simp: set_task_def put_trap_cx_def child_of_def)
qed

lemma sim_fork:
  assumes f: "sys_fork pl k = Ok (r, k')" and room: "pid_current (pid_allocator k) \<noteq> - 1"
  shows "sim k k'"
proof (rule sim_step)
  assume g: "good k"
  then have key: "keyed k" by (simp add: good_def)
  from f obtain p t c k1 ct cx where p: "cpu_current k = Some p" "tasks k p = Some t" and tf: "task_fork pl t k = Ok (c, k1)"
    and ad: "tasks k1 c = Some ct" "add_task c (put_trap_cx ct cx k1) = Ok k'"
    by (auto simp: sys_fork_def current_task_Ok the_task_def res_simps Let_def)
  have pid: "tcb_pid t = p" using key p(2) by (rule keyedD)
  from task_fork_Ok [OF tf] obtain a c0 ks s where al: "pid_alloc (pid_allocator k) = (c, a)" and c0: "child_of t c c0"
    and k1: "k1 = k\<lparr>pid_allocator := a, kernel_space := ks, memory := s,
      tasks := (tasks k)(c \<mapsto> c0, p \<mapsto> t\<lparr>children := children t @ [c]\<rparr>)\<rparr>" unfolding pid by blast
  have opt: "pid_alloc_opt (pid_allocator k) = Some (c, a)" using al room by (simp add: pid_alloc_opt_def)
  have "tasks k c = None"
    using pid_alloc_spec [OF _ opt] g by (auto simp: good_def pt_inv_def ptable_sel)
  then have cp: "c \<noteq> p" using p(2) by auto
  have ct: "ct = c0" using ad(1) cp by (simp add: k1)
  obtain v where v: "tasks k' = (tasks k1)(c \<mapsto> c0\<lparr>pass := v\<rparr>)" "ready_queue (manager k') = (ready_queue (manager k1))(c \<mapsto> c)"
    "cpu_current k' = cpu_current k1" "pid_allocator k' = pid_allocator k1" "initproc k' = initproc k1"
    using ad c0 ct by (auto simp: add_task_def the_task_def set_task_def put_trap_cx_def tm_add_def child_of_def Let_def res_simps
      split: if_split_asm)
  have new: "proc_of c0 = \<lparr>p_status = Ready, p_parent = Some p, p_children = [], p_exit = 0\<rparr>" "tcb_pid c0 = c"
    using c0 pid by (auto simp: child_of_def)
  have "keyed k'" by (rule keyedI) (use v k1 pid new keyedD [OF key] in \<open>auto split: if_split_asm\<close>)
  moreover have "pt_step (ptable k) ((ptable k)\<lparr>procs := (procs (ptable k))
      (c \<mapsto> \<lparr>p_status = Ready, p_parent = Some p, p_children = [], p_exit = 0\<rparr>, p \<mapsto> (proc_of t)\<lparr>p_children := p_children (proc_of t) @ [c]\<rparr>),
      ready := insert c (ready (ptable k)), pids := a\<rparr>)"
    by (rule pt_step.fork) (simp_all add: p ptable_sel opt)
  moreover have "\<dots> = ptable k'"
    by (rule ptable_eqI) (use cp in \<open>auto simp: v k1 ptable_sel new\<close>, auto simp: proc_of_def)
  ultimately show "keyed k' \<and> pt_step (ptable k) (ptable k')" by simp
qed

lemma waitpid_Ok:
  assumes w: "sys_waitpid pid ptr k = Ok (r, k')" and key: "keyed k"
  shows "k' = k \<or> (\<exists>p t cs c cs' ct a ks s. cpu_current k = Some p \<and> tasks k p = Some t \<and> children t = cs @ c # cs' \<and>
    tasks k c = Some ct \<and> task_status ct = Zombie \<and> pid_dealloc c (pid_allocator k) = Ok a \<and> r = Value (sint c) \<and>
    k' = k\<lparr>tasks := (tasks k)(p \<mapsto> t\<lparr>children := cs @ cs'\<rparr>, c := None), pid_allocator := a, kernel_space := ks, memory := s\<rparr>)"
proof -
  from w obtain p t where p: "cpu_current k = Some p" "tasks k p = Some t"
    by (auto simp: sys_waitpid_def current_task_Ok res_simps)
  have cur: "current_task k = Ok t" using p by (simp add: current_task_Ok)
  have pid: "tcb_pid t = p" using key p(2) by (rule keyedD)
  let ?P = "\<lambda>c. (case tasks k c of Some ct \<Rightarrow> is_zombie ct | None \<Rightarrow> False) \<and> wait_matches pid c"
  show ?thesis
  proof (cases "list_ex (wait_matches pid) (children t) \<and> find_index ?P (children t) \<noteq> None")
    case False
    then have "k' = k" using w by (auto simp: sys_waitpid_def cur split: if_split_asm option.split_asm)
    then show ?thesis by simp
  next
    case True
    then obtain idx where idx: "find_index ?P (children t) = Some idx" by auto
    define c where "c = children t ! idx"
    from find_index_Some [OF idx] have lt: "idx < length (children t)" and z: "?P c" by (auto simp: c_def)
    then obtain ct where ct: "tasks k c = Some ct" "task_status ct = Zombie" by (auto simp: is_zombie_def split: option.split_asm)
    have cs: "children t = take idx (children t) @ c # drop (Suc idx) (children t)"
      unfolding c_def by (rule id_take_nth_drop [OF lt])
    define k1 where "k1 = set_task (t\<lparr>children := remove_nth idx (children t)\<rparr>) k"
    from w True idx obtain pa where "drop_task c (k1\<lparr>memory := (memory k1)\<lparr>mem := store_bytes (mem (memory k1)) pa
        (le_bytes 4 (exit_code (the (tasks k1 c))))\<rparr>\<rparr>) = Ok k'" and r: "r = Value (sint c)"
      by (auto simp: sys_waitpid_def cur Let_def res_simps the_task_def c_def [symmetric] k1_def [symmetric])
    then obtain a ks s where a: "pid_dealloc c (pid_allocator k) = Ok a"
      "k' = k1\<lparr>tasks := (tasks k1)(c := None), pid_allocator := a, kernel_space := ks, memory := s\<rparr>"
      by (auto simp: drop_task_def the_task_def res_simps k1_def set_task_def)
    have "k' = k\<lparr>tasks := (tasks k)(p \<mapsto> t\<lparr>children := take idx (children t) @ drop (Suc idx) (children t)\<rparr>, c := None),
        pid_allocator := a, kernel_space := ks, memory := s\<rparr>"
      unfolding a(2) k1_def set_task_def by (simp add: pid remove_nth_def)
    with p ct cs a(1) r show ?thesis by blast
  qed
qed

lemma sim_waitpid:
  assumes w: "sys_waitpid pid ptr k = Ok (r, k')"
  shows "sim k k'"
proof (cases "keyed k \<and> k' \<noteq> k")
  case False
  then show ?thesis by (auto simp: sim_def good_def)
next
  case True
  then have key: "keyed k" by simp
  from waitpid_Ok [OF w key] True obtain p t cs c cs' ct a ks s where s: "cpu_current k = Some p" "tasks k p = Some t"
    "children t = cs @ c # cs'" "tasks k c = Some ct" "task_status ct = Zombie" "pid_dealloc c (pid_allocator k) = Ok a"
    and k': "k' = k\<lparr>tasks := (tasks k)(p \<mapsto> t\<lparr>children := cs @ cs'\<rparr>, c := None), pid_allocator := a, kernel_space := ks, memory := s\<rparr>"
    by blast
  show ?thesis
  proof (rule sim_step)
    assume "good k"
    have "keyed k'" by (rule keyedI) (use s(2) keyedD [OF key] in \<open>auto simp: k' split: if_split_asm\<close>)
    moreover have "pt_step (ptable k) ((ptable k)\<lparr>procs := (procs (ptable k))(p \<mapsto> (proc_of t)\<lparr>p_children := cs @ cs'\<rparr>, c := None),
        pids := a\<rparr>)"
      by (rule pt_step.wait [of _ _ _ cs c cs' "proc_of ct"]) (use s in \<open>simp_all add: ptable_sel proc_of_def\<close>)
    moreover have "\<dots> = ptable k'"
      by (rule ptable_eqI) (auto simp: k' ptable_sel proc_of_def)
    ultimately show "keyed k' \<and> pt_step (ptable k) (ptable k')" by simp
  qed
qed

subsection \<open>Reads and writes\<close>

lemma sim_suspend_after: "\<lbrakk>quiet k k1; suspend_current_and_run_next k1 = Ok k'\<rbrakk> \<Longrightarrow> sim k k'"
  by (blast intro: sim_trans quiet_sim sim_suspend)

lemma quiet_put_pipe: "quiet k (put_pipe p st k)"
  by (simp add: put_pipe_def quiet_intros)

lemma sim_stdin_round: "stdin_round c bs k = Ok (r, k') \<Longrightarrow> sim k k'"
  by (auto simp: stdin_round_def res_simps sim_suspend split: if_split_asm dest!: quiet_signals(2) intro!: quiet_sim quiet_intros)

lemma sim_pipe_read: "pipe_read p addrs n k = Ok (r, k') \<Longrightarrow> sim k k'"
  by (clarsimp simp: pipe_read_def res_simps)
     (auto simp: res_simps split: round_result.split_asm intro: sim_suspend_after [OF quiet_put_pipe] quiet_sim [OF quiet_put_pipe])

lemma sim_pipe_write: "pipe_write p addrs n k = Ok (r, k') \<Longrightarrow> sim k k'"
  by (clarsimp simp: pipe_write_def res_simps)
     (auto simp: res_simps split: round_result.split_asm intro: sim_suspend_after [OF quiet_put_pipe] quiet_sim [OF quiet_put_pipe])

lemma quiet_inode_io:
  "inode_read i bs k = Ok (r, k') \<Longrightarrow> quiet k k'"
  "inode_write i bs k = Ok (r, k') \<Longrightarrow> quiet k k'"
  by (auto simp: inode_read_def inode_write_def store_slices_def res_simps intro!: quiet_intros)

lemma quiet_stdout_write: 
  assumes "stdout_write bs k = Ok (r, k')"
  shows "quiet k k'"
proof -
  from assms have f: "fold_res (\<lambda>d k. if utf8_valid d then Ok (k\<lparr>console := console k @ d\<rparr>) else Panic UnwrapErr)
      (load_slices bs k) k = Ok k'" by (auto simp: stdout_write_def res_simps)
  show ?thesis
    by (rule fold_res_invariant [OF f, of "quiet k"]) (auto simp: quiet_intros split: if_split_asm)
qed

lemma sim_file_read: "file_read c f bs k = Ok (r, k') \<Longrightarrow> sim k k'"
  by (cases f)
     (auto simp: file_read_def stdin_read_def res_simps
       intro: sim_stdin_round sim_pipe_read quiet_sim [OF quiet_inode_io(1)])

lemma sim_file_write: "file_write f bs k = Ok (r, k') \<Longrightarrow> sim k k'"
  by (cases f)
     (auto simp: file_write_def res_simps
       intro: sim_pipe_write quiet_sim [OF quiet_inode_io(2)] quiet_sim [OF quiet_stdout_write])

lemma sim_read: "sys_read c fd buf len k = Some (Ok (r, k')) \<Longrightarrow> sim k k'"
  by (auto simp: sys_read_def with_buffers_Ok split: res.split_asm option.split_asm if_split_asm bool.split_asm
      intro: sim_file_read)

lemma sim_write: "sys_write fd buf len k = Some (Ok (r, k')) \<Longrightarrow> sim k k'"
  by (auto simp: sys_write_def with_buffers_Ok split: res.split_asm option.split_asm if_split_asm bool.split_asm
      intro: sim_file_write)

section \<open>The kernel refines the process table\<close>

lemma sim_syscall:
  assumes "syscall pl inp n args k = Some (Ok (r, k'))" and "pid_current (pid_allocator k) \<noteq> - 1"
  shows "sim k k'"
proof -
  have q: "sim k k'" if "quiet k k'" using that by (rule quiet_sim)
  show ?thesis
    using assms(1)
    unfolding syscall_def sys_exit_def sys_yield_def
    by (auto split: if_split_asm simp: res_simps
        intro: quiet_process_calls quiet_file_calls quiet_signals q sim_read sim_write sim_fork [OF _ assms(2)] sim_waitpid
          sim_exit sim_suspend)
qed

lemma sim_leave: "leave_kernel k = Ok (e, k') \<Longrightarrow> sim k k'"
  by (auto simp: leave_kernel_def res_simps split: option.split_asm intro: sim_exit)

lemma sim_signals_loop:
  assumes "signals_loop k = Ok (e, k')"
  shows "sim k k'"
proof -
  from assms obtain r where r: "handle_signals_loop k = Ok r"
    "(case r of Inl k \<Rightarrow> leave_kernel k | Inr k \<Rightarrow> Ok (Wait InSignals, k)) = Ok (e, k')"
    by (auto simp: signals_loop_def res_simps)
  from r(1) obtain p t h where t: "tasks k p = Some t" "handle_signals_round (t, get_trap_cx t k) = Ok h"
    and h: "(case h of Inl _ \<Rightarrow> Ok (Inl k)
      | Inr (t, cx) \<Rightarrow> bind_res (suspend_current_and_run_next (put_trap_cx t cx (set_task t k))) (\<lambda>k. Ok (Inr k))) = Ok r"
    by (auto simp: handle_signals_loop_def current_task_Ok res_simps)
  show ?thesis
  proof (cases h)
    case (Inl st)
    then show ?thesis using h r(2) sim_leave by auto
  next
    case (Inr st)
    obtain t' cx' where st: "st = (t', cx')" by (cases st)
    from t(2) Inr st have "check_pending_signals (t, get_trap_cx t k) = Ok (t', cx')"
      by (auto simp: handle_signals_round_def res_simps split: if_split_asm)
    from check_pending_more [OF this] more_proc_of [of t' t] have m: "tcb_pid t' = tcb_pid t" "proc_of t' = proc_of t" by auto
    have "quiet k (put_trap_cx t' cx' (set_task t' k))" by (intro quiet_updates quiet_put [OF t(1)] m quiet_refl)
    moreover have "suspend_current_and_run_next (put_trap_cx t' cx' (set_task t' k)) = Ok k'"
      using h Inr st r(2) by (auto simp: res_simps)
    ultimately show ?thesis by (rule sim_suspend_after)
  qed
qed

lemma sim_after_trap: "after_trap k = Ok (e, k') \<Longrightarrow> sim k k'"
  by (auto simp: after_trap_def res_simps intro: sim_trans quiet_sim quiet_signals(1) sim_signals_loop)

lemma sim_finish_call:
  assumes "finish_call v k = Ok (e, k')"
  shows "sim k k'"
proof -
  from assms obtain k1 where k1: "with_current (\<lambda>(t, cx). Ok (t, cx\<lparr>regs := (regs cx)[10 := of_int v]\<rparr>)) k = Ok k1"
    "after_trap k1 = Ok (e, k')" by (auto simp: finish_call_def res_simps)
  have "quiet k k1" by (rule quiet_with_current [OF k1(1)]) auto
  then show ?thesis using sim_after_trap [OF k1(2)] by (blast intro: quiet_sim sim_trans)
qed

lemma sim_after_call:
  assumes "after_call (r, k) = Ok (e, k')"
  shows "sim k k'"
  using assms by (cases r) (auto simp: after_call_def intro: sim_finish_call)

lemma sim_trap:
  assumes "trap_handler pl inp cause k = Some (Ok (e, k'))" and "pid_current (pid_allocator k) \<noteq> - 1"
  shows "sim k k'"
proof (cases "cause = UserEnvCall")
  case True
  with assms(1) obtain t cx n args r k1 where c: "syscall pl inp n args (put_trap_cx t cx k) = Some (Ok (r, k1))"
    "after_call (r, k1) = Ok (e, k')"
    by (auto simp: trap_handler_def ecall_def Let_def res_simps split: res.split_asm)
  have "sim (put_trap_cx t cx k) k1" by (rule sim_syscall [OF c(1)]) (simp add: assms(2) put_trap_cx_def)
  moreover have "sim k (put_trap_cx t cx k)" by (intro quiet_sim quiet_intros)
  ultimately show ?thesis using sim_after_call [OF c(2)] by (blast intro: sim_trans)
next
  case False
  then show ?thesis
    using assms(1)
    by (cases cause) (auto simp: trap_handler_def res_simps intro: sim_suspend sim_trans quiet_sim quiet_signals(2) sim_after_trap)
qed

lemma sim_resume:
  assumes "resume inp c k = Ok (e, k')"
  shows "sim k k'"
proof -
  have "sim k k'" if "resume_file_call ch call k = Ok (r, k1)" "after_call (r, k1) = Ok (e, k')" for ch call r k1
    using that(1) sim_after_call [OF that(2)]
    by (cases call) (auto simp: resume_file_call_def intro: sim_trans sim_stdin_round sim_pipe_read sim_pipe_write)
  then show ?thesis
    using assms
    by (auto simp: resume_def res_simps split: option.split_asm kcont.split_asm
        intro: sim_finish_call sim_after_trap sim_signals_loop)
qed

lemma settle_kernel: "fst (settle p conts r) = snd r"
  by (auto simp: settle_def split: prod.split trap_end.split)

lemma kstep_sim:
  assumes "kstep pl M M'" and "pid_current (pid_allocator (fst M)) \<noteq> - 1"
  shows "sim (fst M) (fst M')"
  using assms
proof cases
  case (trap k p inp cause r conts)
  then show ?thesis using sim_trap [of pl inp cause k "fst r" "snd r"] assms(2) by (simp add: settle_kernel)
next
  case (user k p conts m)
  then show ?thesis by (auto intro!: quiet_sim quiet_intros)
next
  case (idle k k' conts)
  then show ?thesis using sim_round by simp
next
  case (fetch k k' p inp conts r)
  then show ?thesis
    using sim_round [of k k'] sim_resume [of inp "conts p" k' "fst r" "snd r"] by (auto simp: settle_kernel intro: sim_trans)
qed

end
