(* ===== verification/ProcSpec.thy ===== *)
theory ProcSpec
  imports ProcRefine
begin

text \<open>
  What the calls on processes do, in a kernel whose process table is well formed: boot, exit, wait.
\<close>

section \<open>Runs\<close>

text \<open>A concrete system whose steps are sequences of abstract steps, as long as an invariant holds.\<close>

locale simulation =
  fixes cstep :: "'c \<Rightarrow> 'c \<Rightarrow> bool" and astep :: "'a \<Rightarrow> 'a \<Rightarrow> bool" and abs :: "'c \<Rightarrow> 'a" and inv :: "'c \<Rightarrow> bool"
  assumes step: "\<lbrakk>inv c; cstep c c'\<rbrakk> \<Longrightarrow> inv c' \<and> astep\<^sup>*\<^sup>* (abs c) (abs c')"
begin

lemma run: "\<lbrakk>cstep\<^sup>*\<^sup>* c c'; inv c\<rbrakk> \<Longrightarrow> inv c' \<and> astep\<^sup>*\<^sup>* (abs c) (abs c')"
proof (induction rule: rtranclp_induct)
  case (step c' c'')
  from step.IH [OF step.prems] have "inv c'" "astep\<^sup>*\<^sup>* (abs c) (abs c')" by auto
  with simulation_axioms step(2) show ?case unfolding simulation_def by (meson rtranclp_trans)
qed simp

end

text \<open>Steps of a machine that has not used up the \<open>2 ^ 64 - 1\<close> process identifiers.\<close>

definition bounded_step :: "platform \<Rightarrow> machine \<Rightarrow> machine \<Rightarrow> bool" where
  "bounded_step pl M M' = (kstep pl M M' \<and> pid_current (pid_allocator (fst M)) \<noteq> - 1)"

interpretation kernel_procs: simulation "bounded_step pl" pt_step "\<lambda>M. ptable (fst M)" "\<lambda>M. good (fst M)" for pl
  by unfold_locales (auto simp: bounded_step_def sim_def dest!: kstep_sim)

section \<open>Wait\<close>

lemma good_status:
  assumes "good k" and "tasks k p = Some t"
  shows "(task_status t = Running \<longleftrightarrow> cpu_current k = Some p) \<and> (task_status t = Ready \<longleftrightarrow> p \<in> dom (ready_queue (manager k))) \<and>
     task_status t \<in> {Ready, Running, Zombie} \<and> (task_status t = Zombie \<longrightarrow> children t = [] \<and> p \<noteq> initproc k)"
proof -
  have "status_ok (ptable k)" using assms(1) by (simp add: good_def pt_inv_def)
  from status_okD [OF this, of p "proc_of t"] assms(2) show ?thesis by (auto simp: ptable_sel proc_of_def)
qed

lemma good_one_parent:
  assumes "good k" and "tasks k p = Some t" "tasks k q = Some u" "c \<in> set (children t)" "c \<in> set (children u)"
  shows "p = q"
proof -
  have tr: "tree_ok (initproc k) (family_of (ptable k))" using assms(1) by (simp add: good_def pt_inv_def ptable_init)
  have f: "family_of (ptable k) p = Some (tcb_parent t, children t)" "family_of (ptable k) q = Some (tcb_parent u, children u)"
    using assms(2,3) by (simp_all add: family_of_def ptable_sel proc_of_def)
  show ?thesis
    using tree_okD(3) [OF tr f(1) assms(4)] tree_okD(3) [OF tr f(2) assms(5)] by (blast dest: parent_of_fun)
qed

text \<open>The only reference to a zombie is in the children of its parent.\<close>

lemma zombie_unreferenced:
  assumes g: "good k" and p: "tasks k p = Some t" and cs: "children t = cs @ c # cs'"
    and c: "tasks k c = Some ct" "task_status ct = Zombie"
  shows "strong_count c (set_task (t\<lparr>children := cs @ cs'\<rparr>) k) = 0" (is "strong_count c ?k = 0")
proof -
  have pid: "tcb_pid t = p" using g p by (auto simp: good_def dest: keyedD)
  note st = good_status [OF g c(1)]
  have "c \<notin> set (cs @ cs')" using good_family(1) [OF g p] by (auto simp: cs)
  then have none: "c \<notin> set (children u)" if "tasks ?k q = Some u" for q u
    using that good_one_parent [OF g p, of q u c] by (auto simp: set_task_def pid cs split: if_split_asm)
  have "count_list (children (the (tasks ?k q))) c = 0" if "q \<in> set (live_pids ?k)" for q
    using that none [of q] by (auto simp: live_pids_def count_list_0_iff)
  then have "(\<Sum>q \<leftarrow> live_pids ?k. count_list (children (the (tasks ?k q))) c) = 0"
    by (simp add: sum_list_eq_0_iff)
  moreover have "cpu_current k \<noteq> Some c" "ready_queue (manager k) c = None" "c \<noteq> initproc k" using st c(2) by auto
  ultimately show ?thesis by (simp add: strong_count_def set_task_def)
qed

text \<open>The children that a call of \<^verbatim>\<open>waitpid\<close> may take, and the kernel in which the child at \<open>idx\<close> was taken from the list.\<close>

definition takeable :: "usize \<Rightarrow> kernel \<Rightarrow> usize \<Rightarrow> bool" where
  "takeable pid k c = ((case tasks k c of Some ct \<Rightarrow> is_zombie ct | None \<Rightarrow> False) \<and> wait_matches pid c)"

definition take_child :: "TaskControlBlock \<Rightarrow> usize \<Rightarrow> kernel \<Rightarrow> kernel" where
  "take_child t c k = set_task (t\<lparr>children := remove1 c (children t)\<rparr>) k"

definition put_i32 :: "usize \<Rightarrow> 32 word \<Rightarrow> kernel \<Rightarrow> kernel" where
  "put_i32 pa v k = k\<lparr>memory := (memory k)\<lparr>mem := store_bytes (mem (memory k)) pa (le_bytes 4 v)\<rparr>\<rparr>"

lemma waitpid_spec:
  assumes g: "good k" and p: "cpu_current k = Some p" "tasks k p = Some t"
  shows "sys_waitpid pid ptr k =
    (case find (takeable pid k) (children t) of
       Some c \<Rightarrow>
         bind_res (translated_refmut (get_user_token t) ptr (memory k)) (\<lambda>pa.
         bind_res (drop_task c (put_i32 pa (exit_code (the (tasks k c))) (take_child t c k))) (\<lambda>k.
         Ok (Value (sint c), k)))
     | None \<Rightarrow> Ok (Value (if list_ex (wait_matches pid) (children t) then - 2 else - 1), k))"
proof -
  have cur: "current_task k = Ok t" using p by (simp add: current_task_Ok)
  have pid: "tcb_pid t = p" using g p(2) by (auto simp: good_def dest: keyedD)
  have P: "(\<lambda>c. (case tasks k c of Some ct \<Rightarrow> is_zombie ct | None \<Rightarrow> False) \<and> wait_matches pid c) = takeable pid k"
    by (simp add: takeable_def fun_eq_iff)
  show ?thesis
  proof (cases "find_index (takeable pid k) (children t)")
    case None
    then have "find (takeable pid k) (children t) = None" by (simp add: find_index_None find_None_iff)
    then show ?thesis using None by (simp add: sys_waitpid_def cur P)
  next
    case (Some idx)
    define c where "c = children t ! idx"
    from find_index_Some [OF Some] have lt: "idx < length (children t)" and tk: "takeable pid k c" by (auto simp: c_def)
    then obtain ct where ct: "tasks k c = Some ct" "task_status ct = Zombie" and m: "wait_matches pid c"
      by (auto simp: takeable_def is_zombie_def split: option.split_asm)
    have split: "children t = take idx (children t) @ c # drop (Suc idx) (children t)"
      unfolding c_def by (rule id_take_nth_drop [OF lt])
    have mem: "c \<in> set (children t)" using lt by (simp add: c_def)
    have fnd: "find (takeable pid k) (children t) = Some c"
      using Some lt tk find_index_least [OF Some] unfolding c_def find_Some_iff by auto
    have rem: "remove1 c (children t) = remove_nth idx (children t)"
    proof -
      have "c \<notin> set (take idx (children t))"
        using good_family(1) [OF g p(2)] split by (metis distinct_append not_distinct_conv_prefix disjoint_insert(1) list.simps(15))
      then show ?thesis using arg_cong [OF split, of "remove1 c"] by (simp add: remove1_append remove_nth_def)
    qed
    have any: "list_ex (wait_matches pid) (children t)" using m mem by (auto simp: list_ex_iff)
    have "strong_count c (take_child t c k) = 0"
      using zombie_unreferenced [OF g p(2) split ct] by (simp add: take_child_def rem remove_nth_def)
    moreover have "tasks (take_child t c k) c = Some ct"
    proof -
      have "c \<noteq> p" using good_family(4) [OF g p(2)] mem by auto
      then show ?thesis using ct by (simp add: take_child_def set_task_def pid)
    qed
    moreover have "memory (take_child t c k) = memory k" by (simp add: take_child_def set_task_def)
    ultimately show ?thesis
      using Some any fnd ct
      by (simp add: sys_waitpid_def cur P Let_def c_def [symmetric] rem [symmetric] take_child_def [symmetric] the_task_def put_i32_def)
  qed
qed

section \<open>Boot\<close>

lemma new_block_root: "tcb_pid (new_block pl ms p stack ppn sp) = p \<and>
    proc_of (new_block pl ms p stack ppn sp) = \<lparr>p_status = Ready, p_parent = None, p_children = [], p_exit = 0\<rparr>"
  by (simp add: new_block_def proc_of_def)

lemma boot_good:
  assumes "add_initproc pl k = Some (Ok k')" and k: "tasks k = Map.empty" "cpu_current k = None"
    "manager k = TaskManager_new" "pid_allocator k = PidAllocator_new"
  shows "good k'"
proof -
  from assms(1) obtain v st p k1 where t: "TaskControlBlock_new pl v (k\<lparr>block_cache := st\<rparr>) = Ok (p, k1)"
    and ad: "add_task p (k1\<lparr>initproc := p\<rparr>) = Ok k'"
    by (auto simp: add_initproc_def res_simps split: res.split_asm option.split_asm prod.split_asm)
  from t obtain s stack k2 where k2: "new_kernel_stack (k\<lparr>block_cache := st, memory := s\<rparr>) = Ok (p, stack, k2)"
    and k1: "\<exists>t cx. tcb_pid t = p \<and> proc_of t = \<lparr>p_status = Ready, p_parent = None, p_children = [], p_exit = 0\<rparr> \<and>
      k1 = put_trap_cx t cx (set_task t k2)"
    using new_block_root by (auto simp: TaskControlBlock_new_def res_simps Let_def) blast
  from new_kernel_stack_Ok [OF k2] k(4) obtain ks s' where p: "p = 0"
    and k2': "k2 = k\<lparr>block_cache := st, pid_allocator := \<lparr>pid_current = 1, pid_recycled = []\<rparr>, kernel_space := ks, memory := s'\<rparr>"
    by (auto simp: pid_alloc_def PidAllocator_new_def)
  from k1 obtain t where tp: "tcb_pid t = 0"
    and po: "proc_of t = \<lparr>p_status = Ready, p_parent = None, p_children = [], p_exit = 0\<rparr>"
    and tk: "tasks k1 = [0 \<mapsto> t]" "manager k1 = TaskManager_new" "cpu_current k1 = None"
      "pid_allocator k1 = \<lparr>pid_current = 1, pid_recycled = []\<rparr>"
    using p k by (auto simp: put_trap_cx_def set_task_def k2')
  obtain v where k': "tasks k' = [0 \<mapsto> t\<lparr>pass := v\<rparr>]" "ready_queue (manager k') = [0 \<mapsto> 0]" "cpu_current k' = None"
    "pid_allocator k' = \<lparr>pid_current = 1, pid_recycled = []\<rparr>" "initproc k' = 0"
    using ad p tk tp
    by (auto simp: add_task_def the_task_def set_task_def tm_add_def TaskManager_new_def Let_def res_simps split: if_split_asm)
  have "keyed k'" by (rule keyedI) (use k' tp in \<open>auto split: if_split_asm\<close>)
  moreover have "family_of (ptable k') = [0 \<mapsto> (None, [])]"
    using k' po by (auto simp: family_of_def ptable_sel fun_eq_iff)
  then have "tree_ok 0 (family_of (ptable k'))" by (simp add: tree_ok_root)
  moreover have "{q :: usize. q < 1} = {0}" by (auto simp: word_less_nat_alt word_unat_eq_iff)
  ultimately show ?thesis
    using k' po by (auto simp: good_def pt_inv_def ptable_sel status_ok_def pid_inv_def pid_used_def split: if_split_asm)
qed

end
