(* ===== verification/ProcProperties.thy ===== *)
theory ProcProperties
  imports ProcSpec Boot
begin

text \<open>
  The properties of processes: the kernel keeps its processes in a tree whatever traps occur, and \<^verbatim>\<open>exit\<close>
  and \<^verbatim>\<open>waitpid\<close> hand over children and exit codes.
\<close>

section \<open>An example\<close>

text \<open>\<^verbatim>\<open>INITPROC\<close> is ready; its child 1 runs and has the zombie 2 and the ready process 3 as children.\<close>

definition ex_task :: "usize \<Rightarrow> TaskStatus \<Rightarrow> usize option \<Rightarrow> usize list \<Rightarrow> 32 word \<Rightarrow> TaskControlBlock" where
  "ex_task p st par cs code =
     \<lparr>priority = 16, pass = 0, signals = 0, signal_mask = 0, handling_sig = -1,
      signal_actions = SignalActions_default, killed = False, frozen = False, trap_ctx_backup = None,
      tcb_pid = p, kernel_stack = p, trap_cx_ppn = PhysPageNum 0, base_size = 0,
      task_cx = TaskContext_zero_init, task_status = st,
      memory_set = \<lparr>page_table = \<lparr>root_ppn = PhysPageNum 0, pt_frames = []\<rparr>, areas = []\<rparr>,
      tcb_parent = par, children = cs, exit_code = code, fd_table = [Some Stdin, Some Stdout, Some Stdout]\<rparr>"

definition ex_kernel :: kernel where
  "ex_kernel =
     \<lparr>tasks = [0 \<mapsto> ex_task 0 Ready None [1] 0, 1 \<mapsto> ex_task 1 Running (Some 0) [2, 3] 0,
       2 \<mapsto> ex_task 2 Zombie (Some 1) [] 7, 3 \<mapsto> ex_task 3 Ready (Some 1) [] 0],
      cpu_current = Some 1, manager = \<lparr>ready_queue = [0 \<mapsto> 0, 3 \<mapsto> 3], scheduler = StrideScheduler_new\<rparr>,
      pid_allocator = \<lparr>pid_current = 4, pid_recycled = []\<rparr>,
      kernel_space = \<lparr>page_table = \<lparr>root_ppn = PhysPageNum 0, pt_frames = []\<rparr>, areas = []\<rparr>,
      memory = boot_mm 0x80400000, open_inodes = Map.empty, pipe_buffers = Map.empty, next_object = 0, initproc = 0,
      root_fs = new_fs 0x4000 1, block_cache = \<lparr>cache_queue = [], block_device = \<lambda>_. replicate 512 0\<rparr>, console = []\<rparr>"

lemma ex_tasks [simp]:
  "tasks ex_kernel = [0 \<mapsto> ex_task 0 Ready None [1] 0, 1 \<mapsto> ex_task 1 Running (Some 0) [2, 3] 0,
     2 \<mapsto> ex_task 2 Zombie (Some 1) [] 7, 3 \<mapsto> ex_task 3 Ready (Some 1) [] 0]"
  "cpu_current ex_kernel = Some 1" "ready_queue (manager ex_kernel) = [0 \<mapsto> 0, 3 \<mapsto> 3]"
  "pid_allocator ex_kernel = \<lparr>pid_current = 4, pid_recycled = []\<rparr>" "initproc ex_kernel = 0"
  by (simp_all add: ex_kernel_def)

lemma ex_task_sel [simp]:
  "tcb_pid (ex_task p st par cs code) = p" "task_status (ex_task p st par cs code) = st"
  "children (ex_task p st par cs code) = cs" "exit_code (ex_task p st par cs code) = code"
  "priority (ex_task p st par cs code) = 16" "pass (ex_task p st par cs code) = 0"
  "proc_of (ex_task p st par cs code) = \<lparr>p_status = st, p_parent = par, p_children = cs, p_exit = code\<rparr>"
  by (simp_all add: ex_task_def proc_of_def)

lemma ex_pids: "{q :: usize. q < 4} = {0, 1, 2, 3}"
proof -
  have "unat q < 4 \<longleftrightarrow> unat q = 0 \<or> unat q = 1 \<or> unat q = 2 \<or> unat q = 3" for q :: usize by linarith
  then show ?thesis by (auto simp: word_less_nat_alt word_unat_eq_iff)
qed

lemma ex_family: "family_of (ptable ex_kernel) = [0 \<mapsto> (None, [1]), 1 \<mapsto> (Some 0, [2, 3]), 2 \<mapsto> (Some 1, []), 3 \<mapsto> (Some 1, [])]"
  by (simp add: family_of_def ptable_sel fun_eq_iff)

lemma ex_good: "good ex_kernel"
proof -
  have "tree_ok 0 [0 \<mapsto> (None, [1]), 1 \<mapsto> (Some 0, []) :: usize option \<times> usize list]"
    using tree_ok_fork [OF tree_ok_root [of 0], of 0 None "[]" 1] by (simp add: fun_upd_twist)
  from tree_ok_fork [OF this, of 1 "Some 0" "[]" 2]
  have "tree_ok 0 [0 \<mapsto> (None, [1]), 1 \<mapsto> (Some 0, [2]), 2 \<mapsto> (Some 1, [])]" by (simp add: fun_upd_twist)
  from tree_ok_fork [OF this, of 1 "Some 0" "[2]" 3] have "tree_ok 0 (family_of (ptable ex_kernel))"
    unfolding ex_family by (simp add: fun_upd_twist)
  moreover have "keyed ex_kernel" by (rule keyedI) (auto split: if_split_asm)
  ultimately show ?thesis
    by (auto simp: good_def pt_inv_def ptable_sel status_ok_def pid_inv_def pid_used_def ex_pids split: if_split_asm)
qed

section \<open>Properties\<close>

text \<open>
  C2: Whatever traps, system calls, switches and user code occur, the kernel makes only steps of the
  process table: it forks, suspends, dispatches, lets exit and reaps. So its processes stay a tree
  below \<^verbatim>\<open>INITPROC\<close>, each of them is running on the processor, in the ready queue or a zombie without
  children, and its pids are those the allocator has given out.
\<close>

theorem kernel_refines_process_table:
  assumes "(bounded_step pl)\<^sup>*\<^sup>* M M'" and "good (fst M)"
  shows "good (fst M') \<and> pt_step\<^sup>*\<^sup>* (ptable (fst M)) (ptable (fst M'))"
  using assms by (rule kernel_procs.run)

theorem kernel_refines_process_table_witness:
  "\<exists>pl M. bounded_step pl (ex_kernel, Map.empty) M \<and> cpu_current (fst M) = None \<and>
     good (fst M) \<and> pt_step\<^sup>*\<^sup>* (ptable ex_kernel) (ptable (fst M))"
proof -
  obtain k' where k': "suspend_current_and_run_next ex_kernel = Ok k'" "cpu_current k' = None"
    by (auto simp: suspend_current_and_run_next_def take_current_task_def the_task_def set_task_def add_task_def tm_add_def Let_def)
  have "kstep pl (ex_kernel, Map.empty) (settle 1 Map.empty (Wait TimerDone, k'))" for pl
    by (rule kstep.trap [where cause = SupervisorTimer]) (simp_all add: trap_handler_def k')
  then have b: "bounded_step pl (ex_kernel, Map.empty) (k', [1 \<mapsto> TimerDone])" for pl
    by (simp add: bounded_step_def settle_def)
  from kernel_refines_process_table [OF r_into_rtranclp [of "bounded_step pl" for pl, OF b]] ex_good k'(2) b show ?thesis by force
qed

text \<open>
  C11: \<^verbatim>\<open>sys_waitpid\<close>. With no child that \<open>pid\<close> means it returns -1, with none of them a zombie -2, and both
  leave the kernel as it was. Otherwise it takes the first such zombie from the list of children,
  writes the exit code of the zombie to user memory, drops its block and returns its pid: the
  assertion that no one else refers to the block never fails.
\<close>

theorem sys_waitpid_correct:
  assumes "good k" and "cpu_current k = Some p" and "tasks k p = Some t"
  shows "sys_waitpid pid ptr k =
    (case find (takeable pid k) (children t) of
       Some c \<Rightarrow>
         bind_res (translated_refmut (get_user_token t) ptr (memory k)) (\<lambda>pa.
         bind_res (drop_task c (put_i32 pa (exit_code (the (tasks k c))) (take_child t c k))) (\<lambda>k.
         Ok (Value (sint c), k)))
     | None \<Rightarrow> Ok (Value (if list_ex (wait_matches pid) (children t) then - 2 else - 1), k))"
  using assms by (rule waitpid_spec)

theorem sys_waitpid_correct_witness:
  "sys_waitpid 3 0 ex_kernel = Ok (Value (- 2), ex_kernel) \<and> sys_waitpid 9 0 ex_kernel = Ok (Value (- 1), ex_kernel) \<and>
   find (takeable (- 1) ex_kernel) [2, 3] = Some 2"
  using sys_waitpid_correct [OF ex_good, of 1 _ 3 0] sys_waitpid_correct [OF ex_good, of 1 _ 9 0]
  by (simp add: takeable_def wait_matches_def is_zombie_def)

text \<open>
  C16: \<^verbatim>\<open>exit_current_and_run_next\<close> on a process other than \<^verbatim>\<open>INITPROC\<close>. The process becomes a zombie with the
  exit code and without children, its data pages go back, and the processor is free. Its children, in
  order, become children of \<^verbatim>\<open>INITPROC\<close>; no other process changes. The zombie keeps its open files.
\<close>

theorem exit_current_correct:
  assumes "good k" and "cpu_current k = Some p" and "tasks k p = Some t" and "p \<noteq> initproc k"
    and "tasks k (initproc k) = Some i"
  shows "exit_current_and_run_next code k =
    bind_res (recycle_data_pages (memory_set t, memory k)) (\<lambda>(ms, s). Ok (k\<lparr>cpu_current := None, memory := s,
      tasks := (\<lambda>q.
        if q = p then Some (t\<lparr>task_status := Zombie, exit_code := code, children := [], memory_set := ms\<rparr>)
        else if q = initproc k then Some (i\<lparr>children := children i @ children t\<rparr>)
        else if q \<in> set (children t) then map_option (\<lambda>c. c\<lparr>tcb_parent := Some (initproc k)\<rparr>) (tasks k q)
        else tasks k q)\<rparr>))"
  using exit_eq [OF assms, of code] by (simp add: adopted_def [abs_def] fun_upd_def)

theorem exit_current_correct_witness:
  "\<exists>k. exit_current_and_run_next 5 ex_kernel = Ok k \<and> map_option task_status (tasks k 1) = Some Zombie \<and>
     map_option children (tasks k 0) = Some [1, 2, 3] \<and> map_option tcb_parent (tasks k 3) = Some (Some 0)"
  using exit_current_correct [OF ex_good, of 1 "ex_task 1 Running (Some 0) [2, 3] 0" "ex_task 0 Ready None [1] 0" 5]
  by (simp add: recycle_data_pages_def ex_task_def)

end
