(* ===== verification/UserSyscall.thy ===== *)
theory UserSyscall
  imports Trap
begin

text \<open>
  \<^verbatim>\<open>user/src/syscall.rs\<close>: the system calls as a user program makes them. A call loads registers and executes
  \<^verbatim>\<open>ecall\<close>; the trampoline (\<^verbatim>\<open>os/src/trap/trap.S\<close>) saves the registers in the trap context and, on the way
  back, loads them from it. A pointer to a slice or a string is its address. The registers \<^verbatim>\<open>x0\<close> to \<^verbatim>\<open>x31\<close> are a
  list of 32 words.
\<close>

section \<open>Calls as register files\<close>

definition USER_AT_FDCWD :: usize where "USER_AT_FDCWD = - 100"

definition syscall3 :: "usize \<Rightarrow> usize list \<Rightarrow> usize list \<Rightarrow> usize list" where
  "syscall3 nr args xs = xs[10 := args ! 0, 11 := args ! 1, 12 := args ! 2, 17 := nr]"

definition syscall6 :: "usize \<Rightarrow> usize list \<Rightarrow> usize list \<Rightarrow> usize list" where
  "syscall6 nr args xs =
     xs[10 := args ! 0, 11 := args ! 1, 12 := args ! 2, 13 := args ! 3, 14 := args ! 4, 15 := args ! 5, 17 := nr]"

text \<open>The wrappers with their arguments; \<^verbatim>\<open>i32\<close> and \<^verbatim>\<open>isize\<close> arguments are words that \<^verbatim>\<open>as usize\<close> extends by the sign.\<close>

datatype user_call =
    UOpen usize u32
  | UOpenat usize usize u32 u32
  | UClose usize
  | URead usize usize usize
  | UWrite usize usize usize
  | ULinkat usize usize usize usize usize
  | UUnlinkat usize usize usize
  | UFstat usize usize
  | UMailRead usize usize
  | UMailWrite usize usize usize
  | UExit "32 word"
  | UYield
  | UGetTime usize usize
  | UGetpid
  | UFork
  | UExec usize usize
  | UWaitpid usize usize
  | USetPriority usize
  | UMmap usize usize usize
  | UMunmap usize usize
  | USpawn usize
  | UDup usize
  | UPipe usize
  | UKill usize "32 word"
  | USigaction "32 word" usize usize
  | USigprocmask u32
  | USigreturn

fun call_regs :: "user_call \<Rightarrow> usize list \<Rightarrow> usize list" where
  "call_regs (UOpen path flags) = syscall3 1024 [path, ucast flags, 0]"
| "call_regs (UOpenat dirfd path flags mode) = syscall6 56 [dirfd, path, ucast flags, ucast mode, 0, 0]"
| "call_regs (UClose fd) = syscall3 57 [fd, 0, 0]"
| "call_regs (URead fd buf len) = syscall3 63 [fd, buf, len]"
| "call_regs (UWrite fd buf len) = syscall3 64 [fd, buf, len]"
| "call_regs (ULinkat old_dirfd old_path new_dirfd new_path flags) =
     syscall6 37 [old_dirfd, old_path, new_dirfd, new_path, flags, 0]"
| "call_regs (UUnlinkat dirfd path flags) = syscall3 35 [dirfd, path, flags]"
| "call_regs (UFstat fd st) = syscall3 80 [fd, st, 0]"
| "call_regs (UMailRead buf len) = syscall3 401 [buf, len, 0]"
| "call_regs (UMailWrite pid buf len) = syscall3 402 [pid, buf, len]"
| "call_regs (UExit code) = syscall3 93 [scast code, 0, 0]"
| "call_regs UYield = syscall3 124 [0, 0, 0]"
| "call_regs (UGetTime time tz) = syscall3 169 [time, tz, 0]"
| "call_regs UGetpid = syscall3 172 [0, 0, 0]"
| "call_regs UFork = syscall3 220 [0, 0, 0]"
| "call_regs (UExec path args) = syscall3 221 [path, args, 0]"
| "call_regs (UWaitpid pid xstatus) = syscall3 260 [pid, xstatus, 0]"
| "call_regs (USetPriority prio) = syscall3 140 [prio, 0, 0]"
| "call_regs (UMmap start len prot) = syscall3 222 [start, len, prot]"
| "call_regs (UMunmap start len) = syscall3 215 [start, len, 0]"
| "call_regs (USpawn path) = syscall3 400 [path, 0, 0]"
| "call_regs (UDup fd) = syscall3 24 [fd, 0, 0]"
| "call_regs (UPipe pipe) = syscall3 59 [pipe, 0, 0]"
| "call_regs (UKill pid signal) = syscall3 129 [pid, scast signal, 0]"
| "call_regs (USigaction signum action old_action) = syscall3 134 [scast signum, action, old_action]"
| "call_regs (USigprocmask bits) = syscall3 135 [ucast bits, 0, 0]"
| "call_regs USigreturn = syscall3 139 [0, 0, 0]"

text \<open>The value of a call, an \<^verbatim>\<open>isize\<close>, is in \<^verbatim>\<open>x10\<close>.\<close>

definition call_value :: "usize list \<Rightarrow> int" where
  "call_value xs = sint (xs ! 10)"

section \<open>The trampoline\<close>

text \<open>
  \<^verbatim>\<open>__alltraps\<close> saves all registers but \<^verbatim>\<open>x0\<close> and \<^verbatim>\<open>x4\<close>, and \<^verbatim>\<open>sstatus\<close> and \<^verbatim>\<open>sepc\<close>; \<^verbatim>\<open>__restore\<close> loads the same.
  The page \<^verbatim>\<open>TRAP_CONTEXT\<close> of the running process, to which they are saved, is the frame \<^verbatim>\<open>trap_cx_ppn\<close>.
\<close>

definition alltraps :: "usize list \<Rightarrow> usize \<Rightarrow> usize \<Rightarrow> TrapContext \<Rightarrow> TrapContext" where
  "alltraps xs sst pc cx =
     cx\<lparr>regs := map (\<lambda>i. if i = 0 \<or> i = 4 then regs cx ! i else xs ! i) [0..<32], sstatus := sst, sepc := pc\<rparr>"

definition restore_regs :: "TrapContext \<Rightarrow> usize list \<Rightarrow> usize list" where
  "restore_regs cx xs = map (\<lambda>i. if i = 0 \<or> i = 4 then xs ! i else regs cx ! i) [0..<32]"

definition save_user :: "usize list \<Rightarrow> usize \<Rightarrow> usize \<Rightarrow> TaskControlBlock \<Rightarrow> kernel \<Rightarrow> kernel" where
  "save_user xs sst pc t k = put_trap_cx t (alltraps xs sst pc (get_trap_cx t k)) k"

lemma alltraps_simps [simp]:
  "length (regs (alltraps xs sst pc cx)) = 32" "sepc (alltraps xs sst pc cx) = pc"
  "sstatus (alltraps xs sst pc cx) = sst" "kernel_sp (alltraps xs sst pc cx) = kernel_sp cx"
  "0 < i \<Longrightarrow> i \<noteq> 4 \<Longrightarrow> i < 32 \<Longrightarrow> regs (alltraps xs sst pc cx) ! i = xs ! i"
  by (simp_all add: alltraps_def)

text \<open>A context stored over another is the context stored.\<close>

lemma store_words_cong:
  assumes "length ws < 2 ^ 32" and "\<And>y. (\<And>i j. i < length ws \<Longrightarrow> j < 8 \<Longrightarrow> y \<noteq> a + 8 * of_nat i + of_nat j) \<Longrightarrow> m y = m' y"
  shows "store_words m a ws = store_words m' a ws"
  using assms
proof (induction ws arbitrary: m m' a)
  case (Cons w ws)
  have "store_words (store_u64 m a w) (a + 8) ws = store_words (store_u64 m' a w) (a + 8) ws"
  proof (rule Cons.IH)
    fix y assume y: "\<And>i j. i < length ws \<Longrightarrow> j < 8 \<Longrightarrow> y \<noteq> a + 8 + 8 * of_nat i + of_nat j"
    show "store_u64 m a w y = store_u64 m' a w y"
    proof (cases "unat (y - a) < 8")
      case False
      have "m y = m' y"
      proof (rule Cons.prems(2))
        fix i j :: nat assume i: "i < length (w # ws)" "j < 8"
        show "y \<noteq> a + 8 * of_nat i + of_nat j"
        proof (cases i)
          case 0
          have "unat (of_nat j :: usize) = j" using i(2) by (intro unat_of_nat_64) simp
          with False i(2) 0 show ?thesis by auto
        next
          case (Suc i')
          then show ?thesis using y [of i' j] i by (simp add: algebra_simps)
        qed
      qed
      with False show ?thesis by (simp add: store_u64_def Let_def)
    qed (simp add: store_u64_def Let_def)
  qed (use Cons.prems(1) in simp)
  then show ?case by simp
qed (auto simp: fun_eq_iff)

lemma store_trap_cx_twice:
  assumes "length (regs cx) = 32" and "length (regs cx') = 32"
  shows "store_trap_cx (store_trap_cx m p cx) p cx' = store_trap_cx m p cx'"
  unfolding store_trap_cx_def
proof (rule store_words_cong)
  fix y assume y: "\<And>i j. i < length (cx_words cx') \<Longrightarrow> j < 8 \<Longrightarrow> y \<noteq> page_base p + 8 * of_nat i + of_nat j"
  show "store_words m (page_base p) (cx_words cx) y = m y"
    by (rule store_words_other) (use y assms in \<open>simp_all add: cx_words_def\<close>)
qed (simp add: cx_words_def assms)

lemma put_trap_cx_twice:
  "\<lbrakk>length (regs cx) = 32; length (regs cx') = 32\<rbrakk> \<Longrightarrow> put_trap_cx t cx' (put_trap_cx t cx k) = put_trap_cx t cx' k"
  by (simp add: put_trap_cx_def store_trap_cx_twice)

lemma get_put_trap_cx: "length (regs cx) = 32 \<Longrightarrow> get_trap_cx t (put_trap_cx t cx k) = cx"
  by (simp add: get_trap_cx_def put_trap_cx_def load_store_trap_cx)

lemma length_get_trap_cx [simp]: "length (regs (get_trap_cx t k)) = 32"
  by (simp add: get_trap_cx_def)

lemma current_task_put_trap_cx [simp]: "current_task (put_trap_cx t cx k) = current_task k"
  by (simp add: current_task_def put_trap_cx_def the_task_def)

section \<open>What a call does in the kernel\<close>

text \<open>The handler that the wrapper is for, with the arguments of the wrapper.\<close>

fun call_handler :: "platform \<Rightarrow> inputs \<Rightarrow> user_call \<Rightarrow> kernel \<Rightarrow> syscall_state option" where
  "call_handler pl inp (UOpen path flags) = sys_open path flags"
| "call_handler pl inp (UClose fd) = (\<lambda>k. Some (sys_close fd k))"
| "call_handler pl inp (URead fd buf len) = sys_read (char_in inp) fd buf len"
| "call_handler pl inp (UWrite fd buf len) = sys_write fd buf len"
| "call_handler pl inp (ULinkat old_dirfd old_path new_dirfd new_path flags) =
     sys_linkat (ucast old_dirfd) old_path (ucast new_dirfd) new_path (ucast flags)"
| "call_handler pl inp (UUnlinkat dirfd path flags) = sys_unlinkat (ucast dirfd) path (ucast flags)"
| "call_handler pl inp (UFstat fd st) = sys_fstat fd st"
| "call_handler pl inp (UExit code) = (\<lambda>k. Some (sys_exit code k))"
| "call_handler pl inp UYield = (\<lambda>k. Some (sys_yield k))"
| "call_handler pl inp (UGetTime time tz) = sys_get_time (time_us inp) time"
| "call_handler pl inp UGetpid = (\<lambda>k. Some (sys_getpid k))"
| "call_handler pl inp UFork = (\<lambda>k. Some (sys_fork pl k))"
| "call_handler pl inp (UExec path args) = sys_exec pl path args"
| "call_handler pl inp (UWaitpid pid xstatus) = (\<lambda>k. Some (sys_waitpid pid xstatus k))"
| "call_handler pl inp (USetPriority prio) = (\<lambda>k. Some (sys_set_priority prio k))"
| "call_handler pl inp (UMmap start len prot) = (\<lambda>k. Some (with_memory_set (sys_mmap start len prot) k))"
| "call_handler pl inp (UMunmap start len) = (\<lambda>k. Some (with_memory_set (sys_munmap start len) k))"
| "call_handler pl inp (UDup fd) = (\<lambda>k. Some (sys_dup fd k))"
| "call_handler pl inp (UPipe pipe) = (\<lambda>k. Some (sys_pipe pipe k))"
| "call_handler pl inp (UKill pid signal) = (\<lambda>k. Some (sys_kill pid signal k))"
| "call_handler pl inp (USigaction signum action old_action) = (\<lambda>k. Some (sys_sigaction signum action old_action k))"
| "call_handler pl inp (USigprocmask bits) = (\<lambda>k. Some (sys_sigprocmask_current bits k))"
| "call_handler pl inp USigreturn = (\<lambda>k. Some (sys_sigreturn_current k))"
| "call_handler pl inp _ = (\<lambda>k. Some (Panic ExplicitPanic))"

lemma ucast_ucast_u32 [simp]: "ucast (ucast (x :: u32) :: usize) = x"
  by (rule bit_word_eqI) (auto simp: bit_simps)

lemma ucast_scast_i32 [simp]: "ucast (scast (x :: 32 word) :: usize) = x"
  by (rule bit_word_eqI) (auto simp: bit_simps)

lemma ecall_saved:
  assumes "current_task k = Ok t"
  shows "ecall pl inp (save_user xs sst pc t k) =
    map_option (\<lambda>r. bind_res r after_call)
      (syscall pl inp (xs ! 17) (map (\<lambda>i. xs ! i) [10, 11, 12, 13, 14, 15]) (save_user xs sst (pc + 4) t k))"
proof -
  let ?cx = "alltraps xs sst pc (get_trap_cx t k)"
  have "?cx\<lparr>sepc := pc + 4\<rparr> = alltraps xs sst (pc + 4) (get_trap_cx t k)" by (simp add: alltraps_def)
  then have "put_trap_cx t (?cx\<lparr>sepc := pc + 4\<rparr>) (put_trap_cx t ?cx k) = save_user xs sst (pc + 4) t k"
    by (simp add: save_user_def put_trap_cx_twice)
  then show ?thesis
    using assms by (simp add: ecall_def save_user_def get_put_trap_cx Let_def)
qed

lemma syscall_call_regs:
  assumes "length xs = 32"
  shows "syscall pl inp (call_regs c xs ! 17) (map (\<lambda>i. call_regs c xs ! i) [10, 11, 12, 13, 14, 15]) k = call_handler pl inp c k"
  using assms by (cases c) (simp_all add: syscall_def syscall3_def syscall6_def)

text \<open>The trap of a call runs the handler of the call.\<close>

lemma call_trap:
  assumes "current_task k = Ok t" and "length xs = 32"
  shows "trap_handler pl inp UserEnvCall (save_user (call_regs c xs) sst pc t k) =
    map_option (\<lambda>r. bind_res r after_call) (call_handler pl inp c (save_user (call_regs c xs) sst (pc + 4) t k))"
  unfolding Trap.trap_handler_def trap_cause.case ecall_saved [OF assms(1)] syscall_call_regs [OF assms(2)] ..

end
