(* ===== verification/ElfMemory.thy ===== *)
theory ElfMemory
  imports ForkMemory
begin

text \<open>
  The address space of a new program (\<^verbatim>\<open>MemorySet::from_elf\<close>): it is well-formed, it has the pages of the user
  stack and of the trap context, and making it keeps every other address space.
\<close>

section \<open>Areas with data\<close>

lemma push_Some_Ok:
  assumes "push a (Some d) (ms, s) = Ok (Inr u, ms', s')"
  obtains a' s1 where "push a None (ms, s) = Ok (Inr (), ms', s1)" and "areas ms' = areas ms @ [a']"
    and "copy_data a' (page_table ms') d s1 = Ok s'"
proof -
  obtain r a' pt' s1 where am: "area_map (a, page_table ms, s) = Ok (r, a', pt', s1)"
  proof (cases "area_map (a, page_table ms, s)")
    case (Ok t)
    then show ?thesis using that by (cases t) auto
  qed (use assms in \<open>simp add: push_def\<close>)
  show thesis
  proof (cases r)
    case (Inl e)
    then show ?thesis using assms am by (auto simp: push_def res_simps Let_def)
  next
    case (Inr v)
    then have "copy_data a' pt' d s1 = Ok s'" "ms' = ms\<lparr>page_table := pt', areas := areas ms @ [a']\<rparr>"
      using assms am by (auto simp: push_def res_simps Let_def)
    then show ?thesis using that [of s1 a'] am Inr by (simp add: push_def Let_def)
  qed
qed

text \<open>The loop that copies the data writes only to frames of the area, when the data is not longer than the area.\<close>

lemma copy_loop_frames:
  assumes "ms_inv l (ms, s)" and "a \<in> set (areas ms)" and "whole a"
    and "copy_loop vpn d (page_table ms) s = Ok s'"
    and "range_l (vpn_range a) \<le> vpn" and "unat (vpn0 vpn) + n = unat (vpn0 (range_r (vpn_range a)))" and "length d \<le> 4096 * n"
  shows "\<exists>m. s' = s\<lparr>mem := m\<rparr> \<and> (\<forall>x. (\<forall>f \<in> snd ` set (data_frames a). \<not> in_page f x) \<longrightarrow> m x = mem s x)"
  using assms
proof (induction "length d" arbitrary: vpn d s n rule: less_induct)
  case less
  show ?case
  proof (cases "d = []")
    case True
    have nil: "store_bytes m b [] = m" for m b by (simp add: store_bytes_def)
    show ?thesis
      using less.prems(4) unfolding copy_loop.simps [of vpn] by (auto simp: True nil res_simps Let_def intro!: exI [of _ "mem s"])
  next
    case False
    then have n: "0 < n" using less.prems(7) by (cases n) auto
    then have "vpn \<in> area_pages a" using less.prems(5,6) by (simp add: area_pages_def page_order_defs word_nat)
    then have "vpn \<in> fst ` set (data_frames a)" using less.prems(3) by (simp add: whole_def)
    then obtain g where g: "(vpn, g) \<in> set (data_frames a)" by auto
    note b = binding_view [OF less.prems(1,2) g]
    define s1 where "s1 = s\<lparr>mem := store_bytes (mem s) (page_base g) (take 4096 d)\<rparr>"
    have run: "(if drop 4096 d = [] then Ok s1 else copy_loop (vpn_step vpn) (drop 4096 d) (page_table ms) s1) = Ok s'"
      using less.prems(4) unfolding copy_loop.simps [of vpn] by (cases "drop 4096 d = []") (simp_all add: b(1,3) s1_def Let_def)
    have gf: "g \<in> set (area_frames (areas ms))" using in_area_frames [OF less.prems(2) g] by simp
    have gok: "ppn_ok g" using frames_used_ok [OF ms_invD(2) [OF less.prems(1)]] ms_invD(5) [OF less.prems(1)] gf by blast
    have out: "mem s1 x = mem s x" if "\<not> in_page g x" for x
      using that by (simp add: s1_def store_bytes_def in_page_def Let_def)
    have pt: "mem s1 x = mem s x" if "p \<in> set (pt_frames (page_table ms))" "in_page p x" for p x
    proof (rule out, rule notI)
      assume "in_page g x"
      moreover have "ppn_ok p" using frames_used_ok [OF ms_invD(2) [OF less.prems(1)]] ms_invD(7) [OF less.prems(1)] that(1) by blast
      ultimately have "p = g" using in_page_unique [OF _ gok that(2)] by blast
      then show False using gf that(1) ms_invD(6) [OF less.prems(1)] by blast
    qed
    have inv1: "ms_inv l (ms, s1)"
      using ms_inv_write(1) [OF less.prems(1), of "mem s1"] pt by (simp add: s1_def)
    have gin: "g \<in> snd ` set (data_frames a)" using g by force
    show ?thesis
    proof (cases "drop 4096 d = []")
      case True
      then show ?thesis using run out gin by (intro exI [of _ "mem s1"]) (auto simp: s1_def)
    next
      case False
      then have nd: "4096 < length d" by simp
      then have n1: "1 < n" using less.prems(7) by (cases n) auto
      have st: "unat (vpn0 (vpn_step vpn)) = unat (vpn0 vpn) + 1"
        using less.prems(6) n1 unat_less_64 [of "vpn0 (range_r (vpn_range a))"] by (simp add: vpn_step_def unat_word_ariths)
      have "\<exists>m. s' = s1\<lparr>mem := m\<rparr> \<and> (\<forall>x. (\<forall>f \<in> snd ` set (data_frames a). \<not> in_page f x) \<longrightarrow> m x = mem s1 x)"
      proof (rule less.hyps [OF _ inv1 less.prems(2,3)])
        show "length (drop 4096 d) < length d" using nd by simp
        show "copy_loop (vpn_step vpn) (drop 4096 d) (page_table ms) s1 = Ok s'" using run False by simp
        show "range_l (vpn_range a) \<le> vpn_step vpn" using less.prems(5) st by (simp add: page_order_defs word_nat)
        show "unat (vpn0 (vpn_step vpn)) + (n - 1) = unat (vpn0 (range_r (vpn_range a)))" using st less.prems(6) n1 by simp
        show "length (drop 4096 d) \<le> 4096 * (n - 1)" using less.prems(7) by simp
      qed
      then obtain m where m: "s' = s1\<lparr>mem := m\<rparr>" "\<forall>x. (\<forall>f \<in> snd ` set (data_frames a). \<not> in_page f x) \<longrightarrow> m x = mem s1 x"
        by blast
      then show ?thesis using out gin by (intro exI [of _ m]) (auto simp: s1_def)
    qed
  qed
qed


lemma push_data_keeps:
  assumes inv: "ms_inv l (ms, s)" and fresh: "data_frames a = []" "map_type a = Framed"
    and rng: "range_l (vpn_range a) \<le> range_r (vpn_range a)"
    and len: "length d \<le> 4096 * (unat (vpn0 (range_r (vpn_range a))) - unat (vpn0 (range_l (vpn_range a))))"
    and ok: "push a (Some d) (ms, s) = Ok (Inr u, ms', s')"
  shows "keeps l ms s ms' s'"
proof -
  obtain a1 s1 where p: "push a None (ms, s) = Ok (Inr (), ms', s1)" "areas ms' = areas ms @ [a1]"
    "copy_data a1 (page_table ms') d s1 = Ok s'" by (rule push_Some_Ok [OF ok])
  obtain a' where a': "areas ms' = areas ms @ [a']" "vpn_range a' = vpn_range a" "map_type a' = Framed"
    "fst ` set (data_frames a') = area_pages a" "snd ` set (data_frames a') \<inter> frames_used l s = {}" "keeps l ms s ms' s1"
    by (rule push_fresh [OF inv fresh rng p(1)]) (rule that)
  have e: "a1 = a'" using p(2) a'(1) by simp
  have inv1: "ms_inv l (ms', s1)" using a'(6) by (simp add: keeps_def)
  have wh: "whole a'" using a'(2,4) by (simp add: whole_def area_pages_def)
  have am: "a' \<in> set (areas ms')" using a'(1) by simp
  have cl: "copy_loop (range_l (vpn_range a')) d (page_table ms') s1 = Ok s'" using p(3) by (simp add: copy_data_def e a'(3))
  have n: "unat (vpn0 (range_l (vpn_range a'))) + (unat (vpn0 (range_r (vpn_range a))) - unat (vpn0 (range_l (vpn_range a)))) =
      unat (vpn0 (range_r (vpn_range a')))" using rng a'(2) by (simp add: page_order_defs word_nat)
  obtain m where m: "s' = s1\<lparr>mem := m\<rparr>" "\<And>x. \<forall>f \<in> snd ` set (data_frames a'). \<not> in_page f x \<Longrightarrow> m x = mem s1 x"
    using copy_loop_frames [OF inv1 am wh cl _ n len] by auto
  have used: "snd ` set (data_frames a') \<subseteq> set (area_frames (areas ms'))" by (auto simp: a'(1))
  have ok1: "ppn_ok f" if "f \<in> frames_used l s1" for f using frames_used_ok [OF ms_invD(2) [OF inv1] that] .
  have out: "m x = mem s1 x" if "p \<in> frames_used l s1" "p \<notin> snd ` set (data_frames a')" "in_page p x" for p x
  proof (rule m(2), rule ballI, rule notI)
    fix f assume f: "f \<in> snd ` set (data_frames a')" "in_page f x"
    have "f \<in> frames_used l s1" using f(1) used ms_invD(5) [OF inv1] by blast
    then have "f = p" using in_page_unique [OF ok1 ok1 f(2) that(3)] that(1) by blast
    then show False using f(1) that(2) by simp
  qed
  have pt: "m x = mem s1 x" if "p \<in> set (pt_frames (page_table ms'))" "in_page p x" for p x
    by (rule out [OF _ _ that(2)]) (use that(1) ms_invD(6,7) [OF inv1] used in blast)+
  have "ms_inv l (ms', s')" unfolding m(1) by (rule ms_inv_write(1) [OF inv1 pt])
  moreover have "m x = mem s x" if q: "q \<in> frames_used l s - owned_frames ms" "in_page q x" for q x
  proof -
    have "q \<in> frames_used l s1" using a'(6) q(1) by (auto simp: keeps_def)
    then have "m x = mem s1 x" by (rule out [OF _ _ q(2)]) (use a'(5) q(1) in blast)
    then show ?thesis using a'(6) q by (auto simp: keeps_def)
  qed
  ultimately show ?thesis using a'(6) by (auto simp: keeps_def m(1))
qed

section \<open>Loading a program\<close>

text \<open>
  The segments of a program fit into their areas: the size in the file is at most that of the pages the
  segment covers in memory (the format requires the size in the file to be at most the size in memory).
\<close>

definition segment_pages :: "program_header \<Rightarrow> nat" where
  "segment_pages ph =
     unat (vpn0 (va_ceil (VirtAddr_from (ph_virtual_addr ph + ph_mem_size ph)))) - unat (vpn0 (va_floor (VirtAddr_from (ph_virtual_addr ph))))"

definition segments_fit :: "elf_file \<Rightarrow> bool" where
  "segments_fit elf = (\<forall>ph. Some ph \<in> set (elf_headers elf) \<longrightarrow> ph_is_load ph \<longrightarrow> unat (ph_file_size ph) \<le> 4096 * segment_pages ph)"

lemma push_unwrap_Ok:
  assumes "push_unwrap a d st = Ok (ms', s')"
  shows "\<exists>u. push a d st = Ok (Inr u, ms', s')"
proof (cases "push a d st")
  case (Ok t)
  then show ?thesis using assms by (cases t; cases "fst t") (auto simp: push_unwrap_def)
qed (use assms in \<open>simp add: push_unwrap_def\<close>)

lemma keeps_trans:
  assumes "keeps l ms s ms1 s1" and "keeps l ms1 s1 ms2 s2"
  shows "keeps l ms s ms2 s2"
proof -
  note a = assms(1)[unfolded keeps_def] and b = assms(2)[unfolded keeps_def]
  have sub: "frames_used l s - owned_frames ms \<subseteq> frames_used l s1 - owned_frames ms1" using a by blast
  show ?thesis unfolding keeps_def using a b sub by (intro conjI ballI allI impI) (blast, blast, blast, metis subsetD)
qed

lemma va_ceil_le: "unat (vpn0 (va_ceil (VirtAddr_from a))) \<le> 2 ^ 27"
proof -
  have v: "unat (va0 (VirtAddr_from a)) < 2 ^ 39" by (simp add: VirtAddr_from_take_bit unat_take_bit)
  show ?thesis
  proof (cases "va0 (VirtAddr_from a) = 0")
    case True
    then show ?thesis by (simp add: va_ceil_def PAGE_SIZE_def)
  next
    case False
    then have "unat (va0 (VirtAddr_from a)) \<noteq> 0" by (simp add: unat_eq_0)
    then have "unat (va0 (VirtAddr_from a) - 1 + PAGE_SIZE) = unat (va0 (VirtAddr_from a)) - 1 + 4096"
      using v False by (simp add: PAGE_SIZE_def unat_word_ariths unat_minus_one)
    then show ?thesis using v by (simp add: va_ceil_def div_PAGE_SIZE unat_drop_bit)
  qed
qed

lemma load_segment_keeps:
  assumes inv: "ms_inv l (ms, s)" and v: "unat (vpn0 v) \<le> 2 ^ 27"
    and fit: "\<And>ph. \<lbrakk>h = Some ph; ph_is_load ph\<rbrakk> \<Longrightarrow> unat (ph_file_size ph) \<le> 4096 * segment_pages ph"
    and run: "load_segment elf_data h (v, ms, s) = Ok (v', ms', s')"
  shows "keeps l ms s ms' s'" and "unat (vpn0 v') \<le> 2 ^ 27"
proof -
  have "keeps l ms s ms' s' \<and> unat (vpn0 v') \<le> 2 ^ 27"
  proof (cases "\<exists>ph. h = Some ph \<and> ph_is_load ph")
    case False
    then have "ms' = ms" "s' = s" "v' = v" using run by (auto simp: load_segment_def res_simps unwrap_def split: option.splits if_split_asm)
    then show ?thesis using keeps_refl [OF inv] v by simp
  next
    case True
    then obtain ph where h: "h = Some ph" "ph_is_load ph" by blast
    let ?lo = "va_floor (VirtAddr_from (ph_virtual_addr ph))" and ?hi = "va_ceil (VirtAddr_from (ph_virtual_addr ph + ph_mem_size ph))"
    define a where "a = \<lparr>vpn_range = \<lparr>range_l = ?lo, range_r = ?hi\<rparr>, data_frames = [], map_type = Framed, map_perm = ph_perm ph\<rparr>"
    have le: "?lo \<le> ?hi" using run by (auto simp: load_segment_def h MapArea_new_def VPNRange_new_def assert_that_def split: if_split_asm)
    then have A: "MapArea_new (VirtAddr_from (ph_virtual_addr ph)) (VirtAddr_from (ph_virtual_addr ph + ph_mem_size ph)) Framed (ph_perm ph) = Ok a"
      by (simp add: MapArea_new_def VPNRange_new_def a_def)
    from run obtain d where d: "slice elf_data (ph_offset ph) (ph_offset ph + ph_file_size ph) = Ok d"
      and pu: "push_unwrap a (Some d) (ms, s) = Ok (ms', s')" and v': "v' = ?hi"
      by (auto simp: load_segment_def h A res_simps a_def)
    have p: "\<exists>u. push a (Some d) (ms, s) = Ok (Inr u, ms', s')" by (rule push_unwrap_Ok [OF pu])
    have "length d \<le> unat (ph_offset ph + ph_file_size ph) - unat (ph_offset ph)"
      using d by (auto simp: slice_def split: if_split_asm)
    also have "\<dots> \<le> unat (ph_file_size ph)" by (simp add: unat_word_ariths)
    also have "\<dots> \<le> 4096 * segment_pages ph" by (rule fit [OF h])
    finally have len: "length d \<le> 4096 * (unat (vpn0 (range_r (vpn_range a))) - unat (vpn0 (range_l (vpn_range a))))"
      by (simp add: segment_pages_def a_def)
    from p obtain u where "push a (Some d) (ms, s) = Ok (Inr u, ms', s')" by blast
    from push_data_keeps [OF inv _ _ _ len this] le have "keeps l ms s ms' s'" by (simp add: a_def)
    then show ?thesis using va_ceil_le v' by simp
  qed
  then show "keeps l ms s ms' s'" "unat (vpn0 v') \<le> 2 ^ 27" by simp_all
qed


text \<open>An area without data, as \<^verbatim>\<open>from_elf\<close> pushes the stack and the trap context.\<close>

lemma push_unwrap_fresh:
  assumes inv: "ms_inv l (ms, s)" and a: "MapArea_new lo hi Framed perm = Ok a" and pu: "push_unwrap a None (ms, s) = Ok (ms', s')"
  shows "keeps l ms s ms' s'" and "set (bindings (areas ms)) \<subseteq> set (bindings (areas ms'))"
    and "{v. va_floor lo \<le> v \<and> v < va_ceil hi} \<subseteq> fst ` set (bindings (areas ms'))"
proof -
  have le: "va_floor lo \<le> va_ceil hi" and e: "vpn_range a = \<lparr>range_l = va_floor lo, range_r = va_ceil hi\<rparr>"
    and f: "data_frames a = []" "map_type a = Framed"
    using a by (auto simp: MapArea_new_def VPNRange_new_def assert_that_def split: if_split_asm)
  obtain u where p: "push a None (ms, s) = Ok (Inr u, ms', s')" using push_unwrap_Ok [OF pu] by blast
  have le': "range_l (vpn_range a) \<le> range_r (vpn_range a)" using le e by simp
  obtain a' where a': "areas ms' = areas ms @ [a']" "fst ` set (data_frames a') = area_pages a" "keeps l ms s ms' s'"
    by (rule push_fresh [OF inv f le' p]) (rule that)
  then show "keeps l ms s ms' s'" "set (bindings (areas ms)) \<subseteq> set (bindings (areas ms'))" by auto
  show "{v. va_floor lo \<le> v \<and> v < va_ceil hi} \<subseteq> fst ` set (bindings (areas ms'))"
    using a'(1,2) e by (auto simp: area_pages_def)
qed

definition trap_page :: VirtPageNum where
  "trap_page = VirtPageNum 0x7FFFFFE"

lemma trap_vpn:
  "VirtPageNum_from_va (VirtAddr_from TRAP_CONTEXT) = Ok trap_page" "va_floor (VirtAddr_from TRAP_CONTEXT) = trap_page"
  "va_ceil (VirtAddr_from TRAMPOLINE) = VirtPageNum 0x7FFFFFF"
  by (simp_all add: VirtPageNum_from_va_def VirtAddr_from_take_bit take_bit_eq_mod va_page_offset_def va_floor_def va_ceil_def
    trap_page_def TRAP_CONTEXT_def TRAMPOLINE_def PAGE_SIZE_def)

lemma from_elf_spec:
  assumes inv: "frames_inv l s" and fit: "\<forall>elf. parse elf_data = Some elf \<longrightarrow> segments_fit elf"
    and run: "from_elf parse tramp elf_data s = Ok ((ms, sp, entry), s')"
  shows "ms_inv l (ms, s')" and "unat sp mod 4096 = 0" and "8192 \<le> unat sp" and "unat sp \<le> 2 ^ 39 + 3 * 4096"
    and "{v. va_floor (VirtAddr_from (sp - 8192)) \<le> v \<and> v < va_ceil (VirtAddr_from sp)} \<subseteq> fst ` set (bindings (areas ms))"
    and "trap_page \<in> fst ` set (bindings (areas ms))"
    and "\<And>ot. ms_inv l (ot, s) \<Longrightarrow> ms_inv l (ot, s') \<and> owned_frames ot \<inter> owned_frames ms = {}"
proof -
  from run obtain st0 st1 elf v st2 stack st3 trap where r: "new_bare s = Ok st0" "map_trampoline tramp st0 = Ok st1"
    "parse elf_data = Some elf" "fold_res (load_segment elf_data) (elf_headers elf) (VirtPageNum 0, st1) = Ok (v, st2)"
    "sp = va0 (VirtAddr_from_vpn v) + PAGE_SIZE + USER_STACK_SIZE"
    "MapArea_new (VirtAddr_from (va0 (VirtAddr_from_vpn v) + PAGE_SIZE)) (VirtAddr_from sp) Framed (MP_R OR MP_W OR MP_U) = Ok stack"
    "push_unwrap stack None st2 = Ok st3" "MapArea_new (VirtAddr_from TRAP_CONTEXT) (VirtAddr_from TRAMPOLINE) Framed (MP_R OR MP_W) = Ok trap"
    "push_unwrap trap None st3 = Ok (ms, s')"
    by (auto simp: from_elf_def res_simps unwrap_def Let_def split: option.splits)
  obtain ms0 s0 ms1 s1 ms3 s3 where st: "st0 = (ms0, s0)" "st1 = (ms1, s1)" "st3 = (ms3, s3)" by (cases st0; cases st1; cases st3)
  obtain ms2 s2 where st2: "st2 = (ms2, s2)" by (cases st2)
  note n = new_bare_spec [OF inv r(1) [unfolded st]]
  have k1: "keeps l ms0 s0 ms1 s1" using map_trampoline_Ok(1) [OF r(2) [unfolded st] n(1)] .
  define I where "I = (\<lambda>c :: VirtPageNum \<times> ms_state. unat (vpn0 (fst c)) \<le> 2 ^ 27 \<and> keeps l ms0 s0 (fst (snd c)) (snd (snd c)))"
  have "I (v, st2)"
  proof (rule fold_res_invariant [where I = I, OF r(4)])
    show "I (VirtPageNum 0, st1)" using k1 by (simp add: I_def st)
    fix h c c' assume h: "h \<in> set (elf_headers elf)" "I c" "load_segment elf_data h c = Ok c'"
    have i: "ms_inv l (fst (snd c), snd (snd c))" using h(2) by (simp add: I_def keeps_def)
    have ft: "unat (ph_file_size ph) \<le> 4096 * segment_pages ph" if "h = Some ph" "ph_is_load ph" for ph
      using fit r(3) h(1) that by (auto simp: segments_fit_def)
    have v: "unat (vpn0 (fst c)) \<le> 2 ^ 27" using h(2) by (simp add: I_def)
    have ls: "load_segment elf_data h (fst c, fst (snd c), snd (snd c)) = Ok (fst c', fst (snd c'), snd (snd c'))" using h(3) by simp
    have "keeps l (fst (snd c)) (snd (snd c)) (fst (snd c')) (snd (snd c'))" "unat (vpn0 (fst c')) \<le> 2 ^ 27"
      by (rule load_segment_keeps [OF i v _ ls]; rule ft; assumption)+
    then show "I c'" using h(2) keeps_trans by (auto simp: I_def)
  qed
  then have v: "unat (vpn0 v) \<le> 2 ^ 27" and k2: "keeps l ms0 s0 ms2 s2" by (simp_all add: I_def st2)
  have i2: "ms_inv l (ms2, s2)" using k2 by (simp add: keeps_def)
  note p3 = push_unwrap_fresh [OF i2 r(6) r(7) [unfolded st st2]]
  have i3: "ms_inv l (ms3, s3)" using p3(1) by (simp add: keeps_def)
  note p4 = push_unwrap_fresh [OF i3 r(8) r(9) [unfolded st]]
  have k: "keeps l ms0 s0 ms s'" using keeps_trans [OF keeps_trans [OF k2 p3(1)] p4(1)] .
  show "ms_inv l (ms, s')" using k by (simp add: keeps_def)
  show "ms_inv l (ot, s') \<and> owned_frames ot \<inter> owned_frames ms = {}" if "ms_inv l (ot, s)" for ot
    using n(4) [OF that] keeps_other(1,2) [OF k] by auto
  have b: "unat (va0 (VirtAddr_from_vpn v)) = unat (vpn0 v) * 4096"
    using v by (simp add: VirtAddr_from_vpn_def push_bit_eq_mult unat_word_ariths)
  have sp: "unat sp = unat (vpn0 v) * 4096 + 3 * 4096"
    unfolding r(5) using v by (simp add: unat_word_ariths b PAGE_SIZE_def USER_STACK_SIZE_def)
  show "unat sp mod 4096 = 0" "8192 \<le> unat sp" "unat sp \<le> 2 ^ 39 + 3 * 4096" using sp v by simp_all
  have "sp - 8192 = va0 (VirtAddr_from_vpn v) + PAGE_SIZE" by (simp add: r(5) USER_STACK_SIZE_def)
  then show "{v. va_floor (VirtAddr_from (sp - 8192)) \<le> v \<and> v < va_ceil (VirtAddr_from sp)} \<subseteq> fst ` set (bindings (areas ms))"
    using p3(3) p4(2) by force
  have "trap_page < VirtPageNum 0x7FFFFFF" by (simp add: trap_page_def less_VirtPageNum_def)
  then show "trap_page \<in> fst ` set (bindings (areas ms))" using p4(3) by (auto simp: trap_vpn)
qed

end
