(* ===== verification/TaskMemory.thy ===== *)
theory TaskMemory
  imports ElfMemory ForkMemory Task
begin

text \<open>
  The memory of tasks: an address space that is dropped or kept while others change, the frame of the trap
  context, and the kernel stack of a new task.
\<close>

section \<open>Replacing an address space\<close>

lemma fold_drop_area: "fold_res drop_area as = drop_frames (area_frames as)"
proof (induction as)
  case (Cons a as)
  show ?case
    by (rule ext) (simp add: Cons.IH, simp add: drop_area_def drop_frames_def area_frames_def fold_res_append)
qed (simp add: fun_eq_iff drop_frames_def area_frames_def)

lemma drop_memory_set_spec:
  assumes "ms_inv l (ms, s)"
  obtains s' where "drop_memory_set (ms, s) = Ok s'" and "frames_inv l s'"
    and "frames_used l s' = frames_used l s - owned_frames ms" and "mem s' = mem s"
proof -
  note d = ms_invD [OF assms]
  have e: "drop_memory_set (ms, s) = drop_frames (pt_frames (page_table ms) @ area_frames (areas ms)) s"
    by (simp add: drop_memory_set_def fold_drop_area drop_frames_def fold_res_append)
  have "distinct (pt_frames (page_table ms))" using d(1) by (simp add: PageTable.pt_inv_def)
  then have "distinct (pt_frames (page_table ms) @ area_frames (areas ms))"
    "set (pt_frames (page_table ms) @ area_frames (areas ms)) \<subseteq> frames_used l s" using d(4-7) by auto
  from drop_frames_spec [OF d(2) this] that show thesis unfolding e by (auto simp: owned_frames_def)
qed

text \<open>A memory set stays well-formed when others give frames back and its own pages are written.\<close>

lemma ms_inv_other:
  assumes inv: "ms_inv l (ms, s)" and s': "frames_inv l s'" "owned_frames ms \<subseteq> frames_used l s'"
    and m: "\<And>p x. p \<in> set (pt_frames (page_table ms)) \<Longrightarrow> in_page p x \<Longrightarrow> mem s' x = mem s x"
  shows "ms_inv l (ms, s')" and "translate (page_table ms) v s' = translate (page_table ms) v s"
proof -
  note d = ms_invD [OF inv]
  show tr: "translate (page_table ms) v s' = translate (page_table ms) v s" for v
    by (rule translate_mem_cong [OF d(1)]) (simp add: m)
  have sub: "set (pt_frames (page_table ms)) \<subseteq> frames_used l s'" "set (area_frames (areas ms)) \<subseteq> frames_used l s'"
    using s'(2) by (auto simp: owned_frames_def)
  have "PageTable.pt_inv l (page_table ms, s')" by (rule pt_inv_mem_cong [OF d(1) s'(1) sub(1) m])
  moreover have "area_ok (page_table ms) s' a" if "a \<in> set (areas ms)" for a by (rule area_ok_cong [OF d(3) [OF that] tr])
  ultimately show "ms_inv l (ms, s')" using d(4,6) sub(2) by (simp add: ms_inv_def)
qed

section \<open>The trap context and the kernel stack\<close>

lemma va_ceil_aligned:
  assumes "unat a mod 4096 = 0" and "unat a < 2 ^ 39"
  shows "unat (vpn0 (va_ceil (VirtAddr_from a))) = unat a div 4096"
proof (cases "a = 0")
  case True
  then show ?thesis by (simp add: va_ceil_def VirtAddr_from_take_bit PAGE_SIZE_def)
next
  case False
  then have nz: "unat a \<noteq> 0" by (simp add: unat_eq_0)
  have v: "VirtAddr_from a = VirtAddr a" by (rule va_small(1) [OF assms(2)])
  have u: "unat (a - 1 + PAGE_SIZE) = unat a + 4095"
    using False nz assms(2) by (simp add: PAGE_SIZE_def unat_word_ariths unat_minus_one)
  obtain q where q: "unat a = 4096 * q" using assms(1) by auto
  have "unat (vpn0 (va_ceil (VirtAddr a))) = (unat a + 4095) div 4096"
    using u by (simp add: va_ceil_def div_PAGE_SIZE unat_drop_bit)
  also have "\<dots> = unat a div 4096" unfolding q by simp
  finally show ?thesis unfolding v .
qed

text \<open>Where the trap context of a memory set lies.\<close>

lemma trap_frame_binding:
  assumes inv: "ms_inv l (ms, s)" and own: "trap_page \<in> fst ` set (bindings (areas ms))"
  obtains f where "trap_frame ms s = Ok f" and "(trap_page, f) \<in> set (bindings (areas ms))" and "ppn_ok f"
    and "f \<notin> set (pt_frames (page_table ms))"
proof -
  from own obtain f where f: "(trap_page, f) \<in> set (bindings (areas ms))" by auto
  obtain p where t: "translate (page_table ms) trap_page s = Some (PTE_new f (p OR PTE_V))" "ppn_ok f"
    by (rule binding_translate [OF inv f])
  have "f \<in> set (area_frames (areas ms))" using f by (force simp: area_frames_bindings)
  then have "f \<notin> set (pt_frames (page_table ms))" using ms_invD(6) [OF inv] by blast
  then show thesis using that [OF _ f] t by (simp add: trap_frame_def trap_vpn ms_translate_def)
qed


text \<open>A trap context is stored in a data frame, which changes no page table.\<close>

lemma put_trap_cx_memory: "memory (put_trap_cx t cx k) = (memory k)\<lparr>mem := store_trap_cx (mem (memory k)) (trap_cx_ppn t) cx\<rparr>"
  by (simp add: put_trap_cx_def)

lemma ms_inv_put_trap_cx:
  assumes inv: "ms_inv l (ms, memory k)" and f: "ppn_ok (trap_cx_ppn t)" "trap_cx_ppn t \<notin> set (pt_frames (page_table ms))"
    and cx: "length (regs cx) = 32"
  shows "ms_inv l (ms, memory (put_trap_cx t cx k))"
    and "translate (page_table ms) v (memory (put_trap_cx t cx k)) = translate (page_table ms) v (memory k)"
proof -
  note d = ms_invD [OF inv]
  have fi: "frames_inv l (memory (put_trap_cx t cx k))" "owned_frames ms \<subseteq> frames_used l (memory (put_trap_cx t cx k))"
    using d(2) ms_inv_owned [OF inv] by (simp_all add: put_trap_cx_memory)
  have m: "mem (memory (put_trap_cx t cx k)) x = mem (memory k) x" if p: "p \<in> set (pt_frames (page_table ms))" "in_page p x" for p x
  proof -
    have "ppn_ok p" using p(1) d(7) frames_used_ok [OF d(2)] by auto
    then have "\<not> in_page (trap_cx_ppn t) x" using in_page_unique [OF _ f(1) p(2)] f(2) p(1) by auto
    then show ?thesis by (simp add: put_trap_cx_memory store_trap_cx_outside [OF f(1) cx])
  qed
  show "ms_inv l (ms, memory (put_trap_cx t cx k))" by (rule ms_inv_other(1) [OF inv fi]) (rule m)
  show "translate (page_table ms) v (memory (put_trap_cx t cx k)) = translate (page_table ms) v (memory k)"
    by (rule ms_inv_other(2) [OF inv fi]) (rule m)
qed

text \<open>The pages of the kernel stack of a pid.\<close>

definition stack_vpns :: "usize \<Rightarrow> VirtPageNum set" where
  "stack_vpns c = {v. 2 ^ 27 - 3 * (unat c + 1) \<le> unat (vpn0 v) \<and> unat (vpn0 v) < 2 ^ 27 - 1 - 3 * unat c}"

lemma mod_2_39:
  assumes "(b :: nat) + r = 2 ^ 64" and "r < 2 ^ 39" and "0 < r"
  shows "b mod 2 ^ 39 = 2 ^ 39 - r"
proof -
  have "b = (2 ^ 39 - r) + 2 ^ 39 * (2 ^ 25 - 1)" using assms by simp
  then have "b mod 2 ^ 39 = (2 ^ 39 - r) mod 2 ^ 39" by (simp only: mod_mult_self2)
  also have "\<dots> = 2 ^ 39 - r" using assms(3) by (intro mod_less) simp
  finally show ?thesis .
qed

lemma kernel_stack_vpns:
  assumes c: "unat c < 2 ^ 25"
  shows "unat (vpn0 (va_floor (VirtAddr_from (fst (kernel_stack_position c))))) = 2 ^ 27 - 3 * (unat c + 1)"
    and "unat (vpn0 (va_ceil (VirtAddr_from (snd (kernel_stack_position c))))) = 2 ^ 27 - 1 - 3 * unat c"
proof -
  note n = kernel_stack_nat [of c]
  have u: "unat (take_bit 39 (a :: usize)) = unat a mod 2 ^ 39" for a by (subst unat_take_bit) (simp add: take_bit_eq_mod)
  have b: "unat (take_bit 39 (fst (kernel_stack_position c))) = 4096 * (2 ^ 27 - 3 * (unat c + 1))"
    unfolding u by (subst mod_2_39 [of _ "12288 * (unat c + 1)"]) (use n(2) c in simp_all)
  have t: "unat (take_bit 39 (snd (kernel_stack_position c))) = 4096 * (2 ^ 27 - 1 - 3 * unat c)"
    unfolding u by (subst mod_2_39 [of _ "4096 + 12288 * unat c"]) (use n(1) c in simp_all)
  have e: "VirtAddr_from (take_bit 39 a) = VirtAddr_from a" for a by (simp add: VirtAddr_from_take_bit)
  show "unat (vpn0 (va_floor (VirtAddr_from (fst (kernel_stack_position c))))) = 2 ^ 27 - 3 * (unat c + 1)"
    using va_small(2) [of "take_bit 39 (fst (kernel_stack_position c))"] unfolding b e by simp
  show "unat (vpn0 (va_ceil (VirtAddr_from (snd (kernel_stack_position c))))) = 2 ^ 27 - 1 - 3 * unat c"
    using va_ceil_aligned [of "take_bit 39 (snd (kernel_stack_position c))"] unfolding t e by simp
qed

lemma new_kernel_stack_total:
  assumes inv: "ms_inv l (kernel_space k, memory k)" and al: "pid_alloc (pid_allocator k) = (c, a)" and c: "unat c < 2 ^ 25"
    and none: "\<forall>v \<in> stack_vpns c. translate (page_table (kernel_space k)) v (memory k) = None"
    and free: "6 \<le> card (frames_free l (memory k))"
  obtains ks s where "new_kernel_stack k = Ok (c, c, k\<lparr>pid_allocator := a, kernel_space := ks, memory := s\<rparr>)"
    and "keeps l (kernel_space k) (memory k) ks s"
proof -
  obtain lo hi where p: "kernel_stack_position c = (lo, hi)" by (cases "kernel_stack_position c")
  note v = kernel_stack_vpns [OF c, unfolded p fst_conv snd_conv]
  have le: "va_floor (VirtAddr_from lo) \<le> va_ceil (VirtAddr_from hi)" using c by (simp add: page_order_defs word_nat v)
  obtain ks s where i: "insert_framed_area (VirtAddr_from lo) (VirtAddr_from hi) (MP_R OR MP_W) (kernel_space k, memory k) = Ok (Inr (), ks, s)"
  proof -
    have "\<exists>ks s. insert_framed_area (VirtAddr_from lo) (VirtAddr_from hi) (MP_R OR MP_W) (kernel_space k, memory k) = Ok (Inr (), ks, s)"
    proof (rule insert_framed_area_total [OF inv le])
      show "unat (vpn0 (va_ceil (VirtAddr_from hi))) \<le> 2 ^ 27" by (simp add: v)
      show "translate (page_table (kernel_space k)) w (memory k) = None"
        if "va_floor (VirtAddr_from lo) \<le> w" "w < va_ceil (VirtAddr_from hi)" for w
        using none that by (auto simp: stack_vpns_def page_order_defs word_nat v)
      show "3 * (unat (vpn0 (va_ceil (VirtAddr_from hi))) - unat (vpn0 (va_floor (VirtAddr_from lo)))) \<le> card (frames_free l (memory k))"
        using free c by (simp add: v)
    qed
    then show thesis using that by blast
  qed
  have "new_kernel_stack k = Ok (c, c, k\<lparr>pid_allocator := a, kernel_space := ks, memory := s\<rparr>)"
    by (simp add: new_kernel_stack_def al KernelStack_new_def p i)
  then show thesis using that insert_framed_area_keeps [OF inv i] by blast
qed

end
