(* ===== verification/ForkCall.thy ===== *)
theory ForkCall
  imports UserSyscall TaskMemory
begin

text \<open>
  The system call \<^verbatim>\<open>fork\<close> as a whole: from the registers of the caller, through the copy of its address space and
  the kernel stack of the child, to the two trap contexts.
\<close>

section \<open>Returning from a call\<close>

definition no_signals :: "TaskControlBlock \<Rightarrow> bool" where
  "no_signals t = (handling_sig t = - 1 \<and> deliverable t = {} \<and> \<not> frozen t \<and> check_error (signals t) = None)"

lemma set_task_same: "tasks k (tcb_pid t) = Some t \<Longrightarrow> set_task t k = k"
  by (simp add: set_task_def fun_upd_idem)

lemma task_lookups [simp]:
  "tasks (put_trap_cx t cx k) = tasks k" "cpu_current (put_trap_cx t cx k) = cpu_current k"
  "manager (put_trap_cx t cx k) = manager k" "kernel_space (put_trap_cx t cx k) = kernel_space k"
  "pid_allocator (put_trap_cx t cx k) = pid_allocator k"
  by (simp_all add: put_trap_cx_def)

lemma finish_call_quiet:
  assumes cur: "cpu_current k = Some (tcb_pid t)" "tasks k (tcb_pid t) = Some t" and q: "no_signals t"
  shows "finish_call v k = Ok (User, put_trap_cx t ((get_trap_cx t k)\<lparr>regs := (regs (get_trap_cx t k))[10 := of_int v]\<rparr>) k)"
proof -
  define cx where "cx = (get_trap_cx t k)\<lparr>regs := (regs (get_trap_cx t k))[10 := of_int v]\<rparr>"
  have len: "length (regs cx) = 32" by (simp add: cx_def)
  let ?k = "put_trap_cx t cx k"
  have ct: "current_task k = Ok t" "current_task ?k = Ok t" using cur by (simp_all add: current_task_def the_task_def)
  have st: "set_task t k = k" "set_task t ?k = ?k" using cur by (simp_all add: set_task_same)
  have g: "get_trap_cx t ?k = cx" by (rule get_put_trap_cx [OF len])
  have "with_current (\<lambda>(t, cx). Ok (t, cx\<lparr>regs := (regs cx)[10 := of_int v]\<rparr>)) k = Ok ?k"
    by (simp add: with_current_def ct st cx_def)
  moreover have "handle_signals_start ?k = Ok ?k"
    using check_pending_none [of t cx] q by (simp add: handle_signals_start_def with_current_def ct st g no_signals_def put_trap_cx_twice [OF len len])
  moreover have "signals_loop ?k = Ok (User, ?k)"
    using q by (simp add: signals_loop_def handle_signals_loop_def handle_signals_round_def leave_kernel_def
        check_signals_error_of_current_def ct no_signals_def)
  ultimately show ?thesis by (simp add: finish_call_def after_trap_def cx_def)
qed

section \<open>Memory\<close>

lemma load_u64_shift:
  assumes "\<And>j. j < 8 \<Longrightarrow> m (a + of_nat j) = m' (b + of_nat j)"
  shows "load_u64 m a = load_u64 m' b"
  using assms [of 0] assms [of 1] assms [of 2] assms [of 3] assms [of 4] assms [of 5] assms [of 6] assms [of 7]
  by (simp add: load_u64_def)

text \<open>Pages with the same bytes hold the same trap context.\<close>

lemma load_trap_cx_bytes:
  assumes "get_bytes_array m p = get_bytes_array m' p'"
  shows "load_trap_cx m p = load_trap_cx m' p'"
proof -
  have b: "m (page_base p + of_nat i) = m' (page_base p' + of_nat i)" if "i < 4096" for i
  proof -
    have "get_bytes_array m p ! i = get_bytes_array m' p' ! i" using assms by simp
    with that show ?thesis by (simp add: get_bytes_array_def load_bytes_def)
  qed
  have "load_u64 m (page_base p + 8 * of_nat i) = load_u64 m' (page_base p' + 8 * of_nat i)" if "i < 37" for i
  proof (rule load_u64_shift)
    fix j :: nat assume "j < 8"
    with that b [of "8 * i + j"] show "m (page_base p + 8 * of_nat i + of_nat j) = m' (page_base p' + 8 * of_nat i + of_nat j)"
      by (simp add: add.assoc)
  qed
  then have "load_words m (page_base p) 37 = load_words m' (page_base p') 37" by (simp add: load_words_def)
  then show ?thesis by (simp add: load_trap_cx_def)
qed

lemma binding_view':
  assumes inv: "ms_inv l (us, s)" and b: "(v, g) \<in> set (bindings (areas us))"
  obtains fl where "user_view us s v = Some (fl, get_bytes_array (mem s) g)" and "g \<in> owned_frames us" and "ppn_ok g"
    and "g \<notin> set (pt_frames (page_table us))"
proof -
  from b obtain a where a: "a \<in> set (areas us)" "(v, g) \<in> set (data_frames a)" by (auto simp: set_bindings)
  note w = binding_view [OF inv a]
  have "g \<in> set (area_frames (areas us))" using b by (force simp: area_frames_bindings)
  then have "g \<notin> set (pt_frames (page_table us))" using ms_invD(6) [OF inv] by blast
  moreover have "ppn_ok g" using frames_used_ok [OF ms_invD(2) [OF inv]] ms_inv_owned [OF inv] w(2) by blast
  ultimately show thesis using that w by blast
qed

lemma user_view_put:
  assumes inv: "ms_inv l (us, memory k)" and b: "(v, g) \<in> set (bindings (areas us))"
    and f: "ppn_ok (trap_cx_ppn t)" "trap_cx_ppn t \<notin> set (pt_frames (page_table us))" "trap_cx_ppn t \<noteq> g"
    and cx: "length (regs cx) = 32"
  shows "user_view us (memory (put_trap_cx t cx k)) v = user_view us (memory k) v"
proof -
  obtain fl where "user_view us (memory k) v = Some (fl, get_bytes_array (mem (memory k)) g)" and g: "ppn_ok g"
    by (rule binding_view' [OF inv b])
  then obtain e where e: "translate (page_table us) v (memory k) = Some e" "get_bytes_array (mem (memory k)) (pte_ppn e) = get_bytes_array (mem (memory k)) g"
    by (auto simp: user_view_def)
  obtain a where a: "a \<in> set (areas us)" "(v, g) \<in> set (data_frames a)" using b by (auto simp: set_bindings)
  have "pte_ppn e = g" using binding_view(1,3) [OF inv a] e(1) by simp
  moreover have "get_bytes_array (mem (memory (put_trap_cx t cx k))) g = get_bytes_array (mem (memory k)) g"
  proof (rule get_bytes_array_cong [OF g])
    fix x assume "in_page g x"
    then have "\<not> in_page (trap_cx_ppn t) x" using in_page_unique [OF g f(1)] f(3) by auto
    then show "mem (memory (put_trap_cx t cx k)) x = mem (memory k) x"
      by (simp add: put_trap_cx_memory store_trap_cx_outside [OF f(1) cx])
  qed
  ultimately show ?thesis
    using e(1) ms_inv_put_trap_cx(2) [OF inv f(1,2) cx] by (simp add: user_view_def)
qed

lemma binding_page:
  assumes inv: "ms_inv l (us, s)" and b: "(v, g) \<in> set (bindings (areas us))" "(w, g) \<in> set (bindings (areas us))"
  shows "v = w"
proof -
  have "distinct (map snd (bindings (areas us)))" using ms_invD(4) [OF inv] by (simp add: area_frames_bindings)
  then have "(v, g) = (w, g)" using b inj_onD [of snd "set (bindings (areas us))" "(v, g)" "(w, g)"] by (simp add: distinct_map)
  then show ?thesis by simp
qed

lemma user_view_same:
  assumes inv: "ms_inv l (us, s)" and b: "(v, g) \<in> set (bindings (areas us))"
    and tr: "translate (page_table us) v s' = translate (page_table us) v s"
    and m: "\<And>p x. \<lbrakk>p \<in> owned_frames us; in_page p x\<rbrakk> \<Longrightarrow> mem s' x = mem s x"
  shows "user_view us s' v = user_view us s v"
proof -
  obtain a where a: "a \<in> set (areas us)" "(v, g) \<in> set (data_frames a)" using b by (auto simp: set_bindings)
  note w = binding_view [OF inv a]
  have "ppn_ok g" using frames_used_ok [OF ms_invD(2) [OF inv]] ms_inv_owned [OF inv] w(2) by blast
  then have "get_bytes_array (mem s') g = get_bytes_array (mem s) g" by (rule get_bytes_array_cong) (rule m [OF w(2)])
  then show ?thesis using w(1,3) tr by (simp add: user_view_def)
qed

section \<open>What \<^verbatim>\<open>fork\<close> needs\<close>

text \<open>
  The address space of the process is whole, its trap context is where the block says, the pages of the kernel stack
  of the pid that comes next are free, and there are frames for all.
\<close>

definition next_pid :: "kernel \<Rightarrow> usize" where
  "next_pid k = fst (pid_alloc (pid_allocator k))"

definition fork_ready :: "usize \<Rightarrow> usize \<Rightarrow> TaskControlBlock \<Rightarrow> kernel \<Rightarrow> bool" where
  "fork_ready l tramp t k =
     (ms_inv l (memory_set t, memory k) \<and> user_areas (memory_set t) \<and> (\<forall>a \<in> set (areas (memory_set t)). whole a) \<and>
      (trap_page, trap_cx_ppn t) \<in> set (bindings (areas (memory_set t))) \<and> pa_page_offset (PhysAddr_from tramp) = 0 \<and>
      ms_inv l (kernel_space k, memory k) \<and> owned_frames (kernel_space k) \<inter> owned_frames (memory_set t) = {} \<and>
      unat (next_pid k) < 2 ^ 25 \<and> next_pid k \<noteq> tcb_pid t \<and>
      (\<forall>v \<in> stack_vpns (next_pid k). translate (page_table (kernel_space k)) v (memory k) = None) \<and>
      9 + 3 * fork_pages (areas (memory_set t)) \<le> card (frames_free l (memory k)) \<and> priority t \<noteq> 0)"

lemma fork_readyD:
  assumes "fork_ready l tramp t k"
  shows "ms_inv l (memory_set t, memory k)" "user_areas (memory_set t)" "\<forall>a \<in> set (areas (memory_set t)). whole a"
    "(trap_page, trap_cx_ppn t) \<in> set (bindings (areas (memory_set t)))" "pa_page_offset (PhysAddr_from tramp) = 0"
    "ms_inv l (kernel_space k, memory k)" "owned_frames (kernel_space k) \<inter> owned_frames (memory_set t) = {}"
    "unat (next_pid k) < 2 ^ 25" "next_pid k \<noteq> tcb_pid t"
    "\<forall>v \<in> stack_vpns (next_pid k). translate (page_table (kernel_space k)) v (memory k) = None"
    "9 + 3 * fork_pages (areas (memory_set t)) \<le> card (frames_free l (memory k))" "priority t \<noteq> 0"
  using assms by (simp_all add: fork_ready_def)

text \<open>The frame of the trap context is a data frame of the process.\<close>

lemma trap_cx_frame:
  assumes "ms_inv l (memory_set t, memory k)" and "(trap_page, trap_cx_ppn t) \<in> set (bindings (areas (memory_set t)))"
  shows "ppn_ok (trap_cx_ppn t)" and "trap_cx_ppn t \<in> owned_frames (memory_set t)"
    and "trap_cx_ppn t \<notin> set (pt_frames (page_table (memory_set t)))"
    and "\<lbrakk>ms_inv l (ot, s); owned_frames ot \<inter> owned_frames (memory_set t) = {}\<rbrakk> \<Longrightarrow> trap_cx_ppn t \<notin> set (pt_frames (page_table ot))"
  by (rule binding_view' [OF assms], auto simp: owned_frames_def)+

lemma fork_ready_save:
  assumes "fork_ready l tramp t k"
  shows "fork_ready l tramp t (save_user xs sst pc t k)"
proof -
  note r = fork_readyD [OF assms]
  note f = trap_cx_frame [OF r(1,4)]
  let ?cx = "alltraps xs sst pc (get_trap_cx t k)"
  have len: "length (regs ?cx) = 32" by simp
  note u = ms_inv_put_trap_cx [OF r(1) f(1,3) len] and ks = ms_inv_put_trap_cx [OF r(6) f(1) f(4) [OF r(6,7)] len]
  show ?thesis
    using r u ks by (simp add: fork_ready_def next_pid_def save_user_def) (simp add: put_trap_cx_memory)
qed

section \<open>The child\<close>

lemma whole_binding:
  assumes "\<forall>a \<in> set (areas us). whole a" and "a \<in> set (areas us)" and "v \<in> area_pages a"
  obtains g where "(v, g) \<in> set (bindings (areas us))"
proof -
  have "v \<in> fst ` set (data_frames a)" using assms by (simp add: whole_def)
  then obtain g where "(v, g) \<in> set (data_frames a)" by auto
  then have "(v, g) \<in> set (bindings (areas us))" using assms(2) by (auto simp: set_bindings)
  then show thesis by (rule that)
qed

text \<open>The child's address space after its kernel stack has been made, and the parent's.\<close>

definition forked :: "usize \<Rightarrow> MemorySet \<Rightarrow> mm_state \<Rightarrow> MemorySet \<Rightarrow> PhysPageNum \<Rightarrow> mm_state \<Rightarrow> bool" where
  "forked l us s0 ms f s =
     (ms_inv l (ms, s) \<and> ms_inv l (us, s) \<and> owned_frames us \<inter> owned_frames ms = {} \<and>
      trap_frame ms s = Ok f \<and> (trap_page, f) \<in> set (bindings (areas ms)) \<and>
      (\<forall>a \<in> set (areas us). \<forall>v \<in> area_pages a. v \<in> fst ` set (bindings (areas ms)) \<and>
         user_view ms s v = user_view us s0 v \<and> user_view us s v = user_view us s0 v))"

text \<open>A memory set that nothing happened to: its table, its translations and the bytes of all its frames are as before.\<close>

definition untouched :: "usize \<Rightarrow> MemorySet \<Rightarrow> mm_state \<Rightarrow> mm_state \<Rightarrow> bool" where
  "untouched l ot s s' =
     (ms_inv l (ot, s') \<and> (\<forall>v. translate (page_table ot) v s' = translate (page_table ot) v s) \<and>
      (\<forall>p \<in> owned_frames ot. \<forall>x. in_page p x \<longrightarrow> mem s' x = mem s x))"

lemma untouched_trans: "\<lbrakk>untouched l ot s s'; untouched l ot s' s''\<rbrakk> \<Longrightarrow> untouched l ot s s''"
  by (simp add: untouched_def)

lemma untouched_put_trap_cx:
  assumes inv: "ms_inv l (ot, memory k)" and f: "ppn_ok (trap_cx_ppn t)" "trap_cx_ppn t \<notin> owned_frames ot"
    and cx: "length (regs cx) = 32"
  shows "untouched l ot (memory k) (memory (put_trap_cx t cx k))"
proof -
  have n: "trap_cx_ppn t \<notin> set (pt_frames (page_table ot))" using f(2) by (simp add: owned_frames_def)
  have "mem (memory (put_trap_cx t cx k)) x = mem (memory k) x" if p: "p \<in> owned_frames ot" "in_page p x" for p x
  proof -
    have "ppn_ok p" using frames_used_ok [OF ms_invD(2) [OF inv]] ms_inv_owned [OF inv] p(1) by blast
    then have "\<not> in_page (trap_cx_ppn t) x" using in_page_unique [of p "trap_cx_ppn t" x] f p by auto
    then show ?thesis by (simp add: put_trap_cx_memory store_trap_cx_outside [OF f(1) cx])
  qed
  then show ?thesis using ms_inv_put_trap_cx [OF inv f(1) n cx] by (simp add: untouched_def)
qed

text \<open>The memory sets that are disjoint from the caller's and the kernel's.\<close>

definition others :: "usize \<Rightarrow> TaskControlBlock \<Rightarrow> kernel \<Rightarrow> MemorySet set" where
  "others l t k = {ot. ms_inv l (ot, memory k) \<and> owned_frames ot \<inter> owned_frames (memory_set t) = {} \<and>
     owned_frames ot \<inter> owned_frames (kernel_space k) = {}}"

lemma fork_memory:
  assumes r: "fork_ready l tramp t k"
  obtains ms s ks a s2 f where "from_existed_userspace tramp (memory_set t) (memory k) = Ok (ms, s)"
    and "new_kernel_stack (k\<lparr>memory := s\<rparr>) = Ok (next_pid k, next_pid k, k\<lparr>memory := s2, pid_allocator := a, kernel_space := ks\<rparr>)"
    and "forked l (memory_set t) (memory k) ms f s2"
    and "\<forall>ot \<in> others l t k. untouched l ot (memory k) s2 \<and> owned_frames ot \<inter> owned_frames ms = {}"
proof -
  note d = fork_readyD [OF r]
  let ?us = "memory_set t" and ?s0 = "memory k"
  obtain ms s where run: "from_existed_userspace tramp ?us ?s0 = Ok (ms, s)" and f: "forking l tramp ?us ?s0 (areas ?us) (ms, s)"
    and kept: "\<And>ot. ms_inv l (ot, ?s0) \<Longrightarrow> kept l ot ?s0 (ms, s)"
    and free: "card (frames_free l ?s0) \<le> card (frames_free l s) + 3 + 3 * fork_pages (areas ?us)"
    using fork_total [OF d(1,2,3,5)] d(11) by fastforce
  note ku = keptD [OF kept [OF d(1)]] and kk = keptD [OF kept [OF d(6)]]
  let ?k = "k\<lparr>memory := s\<rparr>"
  obtain a where al: "pid_alloc (pid_allocator ?k) = (next_pid k, a)" by (cases "pid_alloc (pid_allocator k)") (simp add: next_pid_def)
  have "ms_inv l (kernel_space ?k, memory ?k)" "\<forall>v \<in> stack_vpns (next_pid k). translate (page_table (kernel_space ?k)) v (memory ?k) = None"
    "6 \<le> card (frames_free l (memory ?k))" using kk(2,4) d(10,11) free by simp_all
  then obtain ks s2 where
    ns: "new_kernel_stack ?k = Ok (next_pid k, next_pid k, ?k\<lparr>pid_allocator := a, kernel_space := ks, memory := s2\<rparr>)"
    and "keeps l (kernel_space ?k) (memory ?k) ks s2"
    by (rule new_kernel_stack_total [OF _ al d(8)])
  then have kp: "keeps l (kernel_space k) s ks s2" by simp
  have mk: "owned_frames ms \<inter> owned_frames (kernel_space k) = {}" using kk(3) by blast
  have uk: "owned_frames ?us \<inter> owned_frames (kernel_space k) = {}" using d(7) by blast
  note om = keeps_other [OF kp ku(1) mk] and ou = keeps_other [OF kp ku(2) uk]
  obtain aa where "aa \<in> set (areas ?us)" "(trap_page, trap_cx_ppn t) \<in> set (data_frames aa)" using d(4) by (auto simp: set_bindings)
  then have tp: "aa \<in> set (areas ?us)" "trap_page \<in> area_pages aa" using d(3) by (force simp: whole_def)+
  have "trap_page \<in> fst ` set (bindings (areas ms))" by (rule forkingD(2) [OF f tp])
  then obtain g where g: "trap_frame ms s2 = Ok g" "(trap_page, g) \<in> set (bindings (areas ms))"
    by (rule trap_frame_binding [OF om(1)])
  have view: "v \<in> fst ` set (bindings (areas ms)) \<and> user_view ms s2 v = user_view ?us ?s0 v \<and> user_view ?us s2 v = user_view ?us ?s0 v"
    if v: "b \<in> set (areas ?us)" "v \<in> area_pages b" for b v
  proof -
    have m: "v \<in> fst ` set (bindings (areas ms))" by (rule forkingD(2) [OF f v])
    then obtain h where h: "(v, h) \<in> set (bindings (areas ms))" by auto
    obtain h' where h': "(v, h') \<in> set (bindings (areas ?us))" by (rule whole_binding [OF d(3) v])
    have "user_view ms s2 v = user_view ms s v" by (rule user_view_same [OF ku(1) h om(3) om(4)])
    moreover have "user_view ?us s2 v = user_view ?us s v" by (rule user_view_same [OF ku(2) h' ou(3) ou(4)])
    moreover have "user_view ?us s v = user_view ?us ?s0 v" by (rule user_view_same [OF d(1) h' ku(4) ku(5)])
    ultimately show ?thesis using m forkingD(3) [OF f v] by simp
  qed
  have "owned_frames ?us \<inter> owned_frames ms = {}" by (rule ku(3))
  then have "forked l ?us ?s0 ms g s2" using om(1) ou(1) g view by (simp add: forked_def)
  moreover have "?k\<lparr>pid_allocator := a, kernel_space := ks, memory := s2\<rparr> = k\<lparr>memory := s2, pid_allocator := a, kernel_space := ks\<rparr>" by simp
  moreover have "\<forall>ot \<in> others l t k. untouched l ot ?s0 s2 \<and> owned_frames ot \<inter> owned_frames ms = {}"
  proof
    fix ot assume "ot \<in> others l t k"
    then have o: "ms_inv l (ot, ?s0)" "owned_frames ot \<inter> owned_frames (kernel_space k) = {}" by (simp_all add: others_def)
    note ko = keptD [OF kept [OF o(1)]]
    have "untouched l ot ?s0 s" using ko by (simp add: untouched_def)
    moreover have "untouched l ot s s2" using keeps_other [OF kp ko(2) o(2)] by (simp add: untouched_def)
    ultimately have "untouched l ot ?s0 s2" by (rule untouched_trans)
    with ko(3) show "untouched l ot ?s0 s2 \<and> owned_frames ot \<inter> owned_frames ms = {}" by simp
  qed
  ultimately show thesis using that [OF run] ns by metis
qed

lemma get_trap_cx_other:
  assumes "ppn_ok (trap_cx_ppn t)" and "ppn_ok (trap_cx_ppn u)" and "trap_cx_ppn t \<noteq> trap_cx_ppn u" and "length (regs cx) = 32"
  shows "get_trap_cx t (put_trap_cx u cx k) = get_trap_cx t k"
  unfolding get_trap_cx_def
proof (rule load_trap_cx_bytes, rule get_bytes_array_cong [OF assms(1)])
  fix x assume "in_page (trap_cx_ppn t) x"
  then have "\<not> in_page (trap_cx_ppn u) x" using in_page_unique [OF assms(1,2)] assms(3) by blast
  then show "mem (memory (put_trap_cx u cx k)) x = mem (memory k) x"
    by (simp add: put_trap_cx_memory store_trap_cx_outside [OF assms(2,4)])
qed

lemma get_trap_cx_task: "get_trap_cx t (set_task u k) = get_trap_cx t k"
  by (simp add: get_trap_cx_def set_task_def)

lemma put_set_task: "put_trap_cx t cx (set_task u k) = set_task u (put_trap_cx t cx k)"
  by (simp add: put_trap_cx_def set_task_def)

text \<open>The block and the trap context of the child.\<close>

definition child_block :: "platform \<Rightarrow> usize \<Rightarrow> TaskControlBlock \<Rightarrow> TaskControlBlock \<Rightarrow> bool" where
  "child_block pl c t ct = (\<exists>ms f. ct = (fork_block pl t ms c c f)\<lparr>pass := pass t + BIG_STRIDE div priority t\<rparr>)"

definition child_cx :: "usize \<Rightarrow> TrapContext \<Rightarrow> TrapContext" where
  "child_cx c cx = cx\<lparr>kernel_sp := ks_get_top c, regs := (regs cx)[10 := 0]\<rparr>"

text \<open>
  What \<^verbatim>\<open>fork\<close> leaves alone: the blocks of all processes but the caller and the child, the rest of the ready queue,
  the open files and pipes, the block cache, and the memory sets of others.
\<close>

definition bystanders :: "usize \<Rightarrow> TaskControlBlock \<Rightarrow> usize \<Rightarrow> kernel \<Rightarrow> kernel \<Rightarrow> bool" where
  "bystanders l t c k k' =
     ((\<forall>q. q \<noteq> tcb_pid t \<longrightarrow> q \<noteq> c \<longrightarrow> tasks k' q = tasks k q) \<and>
      (\<forall>q. q \<noteq> c \<longrightarrow> ready_queue (manager k') q = ready_queue (manager k) q) \<and>
      open_inodes k' = open_inodes k \<and> pipe_buffers k' = pipe_buffers k \<and> block_cache k' = block_cache k \<and>
      console k' = console k \<and> initproc k' = initproc k \<and>
      (\<forall>ot \<in> others l t k. untouched l ot (memory k) (memory k')))"

lemma sys_fork_spec:
  assumes r: "fork_ready l (strampoline_addr pl) t k"
    and cur: "cpu_current k = Some (tcb_pid t)" "tasks k (tcb_pid t) = Some t"
  obtains k' ct where "sys_fork pl k = Ok (Value (sint (next_pid k)), k')"
    and "cpu_current k' = Some (tcb_pid t)" and "tasks k' (tcb_pid t) = Some (t\<lparr>children := children t @ [next_pid k]\<rparr>)"
    and "tasks k' (next_pid k) = Some ct" and "child_block pl (next_pid k) t ct"
    and "ready_queue (manager k') (next_pid k) = Some (next_pid k)"
    and "get_trap_cx t k' = get_trap_cx t k" and "get_trap_cx ct k' = child_cx (next_pid k) (get_trap_cx t k)"
    and "ppn_ok (trap_cx_ppn ct)" and "trap_cx_ppn ct \<noteq> trap_cx_ppn t"
    and "\<And>a v. \<lbrakk>a \<in> set (areas (memory_set t)); v \<in> area_pages a; v \<noteq> trap_page\<rbrakk> \<Longrightarrow>
       v \<in> fst ` set (bindings (areas (memory_set ct))) \<and>
       user_view (memory_set ct) (memory k') v = user_view (memory_set t) (memory k) v \<and>
       user_view (memory_set t) (memory k') v = user_view (memory_set t) (memory k) v"
    and "ms_inv l (memory_set ct, memory k')" and "ms_inv l (memory_set t, memory k')"
    and "owned_frames (memory_set t) \<inter> owned_frames (memory_set ct) = {}"
    and "bystanders l t (next_pid k) k k'"
    and "\<forall>ot \<in> others l t k. owned_frames ot \<inter> owned_frames (memory_set ct) = {}"
proof -
  note d = fork_readyD [OF r]
  let ?c = "next_pid k" and ?us = "memory_set t" and ?s0 = "memory k"
  obtain ms s ks a s2 f where run: "from_existed_userspace (strampoline_addr pl) ?us ?s0 = Ok (ms, s)"
    and ns: "new_kernel_stack (k\<lparr>memory := s\<rparr>) = Ok (?c, ?c, k\<lparr>memory := s2, pid_allocator := a, kernel_space := ks\<rparr>)"
    and fk: "forked l ?us ?s0 ms f s2"
    and oth: "\<forall>ot \<in> others l t k. untouched l ot ?s0 s2 \<and> owned_frames ot \<inter> owned_frames ms = {}" by (rule fork_memory [OF r])
  from fk have fk': "ms_inv l (ms, s2)" "ms_inv l (?us, s2)" "owned_frames ?us \<inter> owned_frames ms = {}"
    "trap_frame ms s2 = Ok f" "(trap_page, f) \<in> set (bindings (areas ms))"
    and view: "\<And>a v. \<lbrakk>a \<in> set (areas ?us); v \<in> area_pages a\<rbrakk> \<Longrightarrow> v \<in> fst ` set (bindings (areas ms)) \<and>
         user_view ms s2 v = user_view ?us ?s0 v \<and> user_view ?us s2 v = user_view ?us ?s0 v"
    by (auto simp: forked_def)
  note fo = trap_cx_frame [OF d(1,4)]
  define b where "b = fork_block pl t ms ?c ?c f"
  define k2 where "k2 = k\<lparr>memory := s2, pid_allocator := a, kernel_space := ks\<rparr>"
  have b: "tcb_pid b = ?c" "trap_cx_ppn b = f" "memory_set b = ms" by (simp_all add: b_def fork_block_def)
  define cx where "cx = get_trap_cx t k"
  have cl: "length (regs cx) = 32" by (simp add: cx_def)
  obtain aa where "aa \<in> set (areas ?us)" "(trap_page, trap_cx_ppn t) \<in> set (data_frames aa)" using d(4) by (auto simp: set_bindings)
  then have tp: "aa \<in> set (areas ?us)" "trap_page \<in> area_pages aa" using d(3) by (force simp: whole_def)+
  obtain fl where v1: "user_view ms s2 trap_page = Some (fl, get_bytes_array (mem s2) f)"
    and f: "f \<in> owned_frames ms" "ppn_ok f" "f \<notin> set (pt_frames (page_table ms))" by (rule binding_view' [OF fk'(1,5)])
  obtain fl2 where v2: "user_view ?us ?s0 trap_page = Some (fl2, get_bytes_array (mem ?s0) (trap_cx_ppn t))"
    by (rule binding_view' [OF d(1,4)])
  obtain fl3 where v3: "user_view ?us s2 trap_page = Some (fl3, get_bytes_array (mem s2) (trap_cx_ppn t))"
    by (rule binding_view' [OF fk'(2) d(4)])
  have "get_trap_cx b k2 = cx" "get_trap_cx t k2 = cx"
    using view [OF tp] v1 v2 v3 by (auto simp: get_trap_cx_def cx_def k2_def b intro!: load_trap_cx_bytes)
  note g = this
  have ne: "f \<noteq> trap_cx_ppn t" using f(1) fo(2) fk'(3) by auto
  let ?cx1 = "cx\<lparr>kernel_sp := ks_get_top ?c\<rparr>" and ?cx2 = "child_cx ?c cx" and ?par = "t\<lparr>children := children t @ [?c]\<rparr>"
  have c2: "length (regs ?cx2) = 32" "length (regs ?cx1) = 32" by (simp_all add: child_cx_def cl)
  have tf: "task_fork pl t k = Ok (?c, set_task ?par (set_task b (put_trap_cx b ?cx1 k2)))"
    unfolding task_fork_def run bind_res.simps prod.case ns using fk'(4) g(1) by (simp add: b_def k2_def Let_def)
  define ct where "ct = b\<lparr>pass := pass b + BIG_STRIDE div priority b\<rparr>"
  define k5 where "k5 = set_task ?par (set_task b (put_trap_cx b ?cx2 k2))"
  define k6 where "k6 = set_task ct (k5\<lparr>manager := (manager k5)\<lparr>scheduler := insert_task ?c (pass ct) (scheduler (manager k5)),
     ready_queue := (ready_queue (manager k5))(?c \<mapsto> ?c)\<rparr>\<rparr>)"
  have k5: "put_trap_cx b ?cx2 (set_task ?par (set_task b (put_trap_cx b ?cx1 k2))) = k5"
    by (simp add: put_set_task put_trap_cx_twice [OF c2(2,1)] k5_def)
  have cxb: "get_trap_cx b (set_task ?par (set_task b (put_trap_cx b ?cx1 k2))) = ?cx1"
    by (simp add: get_trap_cx_task get_put_trap_cx [OF c2(2)])
  have cc: "?cx1\<lparr>regs := (regs ?cx1)[10 := 0]\<rparr> = ?cx2" by (simp add: child_cx_def)
  have pr: "priority b \<noteq> 0" using d(12) by (simp add: b_def fork_block_def)
  have bt: "the_task ?c (set_task ?par (set_task b (put_trap_cx b ?cx1 k2))) = Ok b" "the_task ?c k5 = Ok b"
    using d(9) by (simp_all add: the_task_def set_task_def b k5_def)
  have add: "add_task ?c k5 = Ok k6"
    using bt(2) pr by (simp add: add_task_def tm_add_def Let_def k6_def ct_def)
  have cct: "current_task k = Ok t" using cur by (simp add: current_task_def the_task_def)
  have run: "sys_fork pl k = Ok (Value (sint ?c), k6)"
    unfolding sys_fork_def cct bind_res.simps tf prod.case bt(1) Let_def cxb cc k5 add ..
  have mem6: "memory k6 = memory (put_trap_cx b ?cx2 k2)" by (simp add: k6_def k5_def set_task_def)
  have inv2: "ms_inv l (ms, memory k2)" "ms_inv l (?us, memory k2)" using fk'(1,2) by (simp_all add: k2_def)
  have fb: "ppn_ok (trap_cx_ppn b)" "trap_cx_ppn b \<notin> set (pt_frames (page_table ms))"
    "trap_cx_ppn b \<notin> set (pt_frames (page_table ?us))" using f fk'(3) by (auto simp: b owned_frames_def)
  have views: "v \<in> fst ` set (bindings (areas ms)) \<and> user_view ms (memory k6) v = user_view ?us ?s0 v \<and> user_view ?us (memory k6) v = user_view ?us ?s0 v"
    if v: "aa \<in> set (areas ?us)" "v \<in> area_pages aa" "v \<noteq> trap_page" for aa v
  proof -
    note w = view [OF v(1,2)]
    then obtain g where g: "(v, g) \<in> set (bindings (areas ms))" by auto
    obtain h where h: "(v, h) \<in> set (bindings (areas ?us))" by (rule whole_binding [OF d(3) v(1,2)])
    have "g \<noteq> f" using binding_page [OF fk'(1) _ fk'(5), of v] g v(3) by auto
    then have gf: "trap_cx_ppn b \<noteq> g" by (simp add: b)
    have "h \<in> owned_frames ?us" by (rule binding_view' [OF fk'(2) h])
    then have hf: "trap_cx_ppn b \<noteq> h" using f(1) fk'(3) by (auto simp: b)
    show ?thesis unfolding mem6
      using user_view_put [OF inv2(1) g fb(1,2) gf c2(1)] user_view_put [OF inv2(2) h fb(1,3) hf c2(1)] w by (simp add: k2_def)
  qed
  have gt: "get_trap_cx t k6 = cx" "get_trap_cx ct k6 = ?cx2"
  proof -
    have n: "trap_cx_ppn t \<noteq> trap_cx_ppn b" using ne by (simp add: b)
    show "get_trap_cx t k6 = cx" using get_trap_cx_other [OF fo(1) fb(1) n c2(1), of k2] g(2) by (simp add: get_trap_cx_def mem6)
    show "get_trap_cx ct k6 = ?cx2" using get_put_trap_cx [OF c2(1), of b k2] by (simp add: get_trap_cx_def mem6 ct_def)
  qed
  have lk: "cpu_current k6 = Some (tcb_pid t)" "tasks k6 (tcb_pid t) = Some ?par" "tasks k6 ?c = Some ct"
    "ready_queue (manager k6) ?c = Some ?c"
    using cur d(9) by (simp_all add: k6_def k5_def k2_def set_task_def ct_def b)
  have ch: "child_block pl ?c t ct" by (auto simp: child_block_def ct_def b_def fork_block_def)
  have "untouched l ot ?s0 (memory k6)" if ot: "ot \<in> others l t k" for ot
  proof -
    have o: "untouched l ot ?s0 (memory k2)" "owned_frames ot \<inter> owned_frames ms = {}" using oth ot by (simp_all add: k2_def)
    then have "trap_cx_ppn b \<notin> owned_frames ot" using f(1) by (auto simp: b)
    then have "untouched l ot (memory k2) (memory k6)"
      unfolding mem6 using o(1) by (intro untouched_put_trap_cx [OF _ fb(1) _ c2(1)]) (simp_all add: untouched_def)
    with o(1) show ?thesis by (rule untouched_trans)
  qed
  then have bys: "bystanders l t ?c k k6"
    by (simp add: bystanders_def k6_def k5_def k2_def set_task_def b ct_def put_trap_cx_def)
  show thesis
  proof (rule that [OF run lk(1,2,3) ch lk(4)])
    show "get_trap_cx t k6 = get_trap_cx t k" "get_trap_cx ct k6 = child_cx ?c (get_trap_cx t k)" using gt by (simp_all add: cx_def)
    show "ppn_ok (trap_cx_ppn ct)" "trap_cx_ppn ct \<noteq> trap_cx_ppn t" using f(2) ne by (simp_all add: ct_def b)
    show "v \<in> fst ` set (bindings (areas (memory_set ct))) \<and> user_view (memory_set ct) (memory k6) v = user_view ?us ?s0 v \<and> user_view ?us (memory k6) v = user_view ?us ?s0 v"
      if "aa \<in> set (areas ?us)" "v \<in> area_pages aa" "v \<noteq> trap_page" for aa v using views [OF that] by (simp add: ct_def b)
    show "ms_inv l (memory_set ct, memory k6)" "ms_inv l (?us, memory k6)"
      unfolding mem6 using ms_inv_put_trap_cx(1) [OF inv2(1) fb(1,2) c2(1)] ms_inv_put_trap_cx(1) [OF inv2(2) fb(1,3) c2(1)]
      by (simp_all add: ct_def b)
    show "owned_frames ?us \<inter> owned_frames (memory_set ct) = {}" using fk'(3) by (simp add: ct_def b)
    show "\<forall>ot \<in> others l t k. owned_frames ot \<inter> owned_frames (memory_set ct) = {}" using oth by (simp add: ct_def b)
    show "bystanders l t ?c k k6" by (rule bys)
  qed
qed

text \<open>The whole trap of a process that calls \<^verbatim>\<open>fork\<close> and has no signal to handle.\<close>

lemma fork_trap:
  assumes r: "fork_ready l (strampoline_addr pl) t k"
    and cur: "cpu_current k = Some (tcb_pid t)" "tasks k (tcb_pid t) = Some t" and q: "no_signals t" and xs: "length xs = 32"
  obtains k' ct where "trap_handler pl inp UserEnvCall (save_user (call_regs UFork xs) sst pc t k) = Some (Ok (User, k'))"
    and "cpu_current k' = Some (tcb_pid t)" and "tasks k' (tcb_pid t) = Some (t\<lparr>children := children t @ [next_pid k]\<rparr>)"
    and "tasks k' (next_pid k) = Some ct" and "child_block pl (next_pid k) t ct"
    and "ready_queue (manager k') (next_pid k) = Some (next_pid k)"
    and "get_trap_cx t k' = (let cx = alltraps (call_regs UFork xs) sst (pc + 4) (get_trap_cx t k) in cx\<lparr>regs := (regs cx)[10 := next_pid k]\<rparr>)"
    and "get_trap_cx ct k' = child_cx (next_pid k) (alltraps (call_regs UFork xs) sst (pc + 4) (get_trap_cx t k))"
    and "\<And>a v. \<lbrakk>a \<in> set (areas (memory_set t)); v \<in> area_pages a; v \<noteq> trap_page\<rbrakk> \<Longrightarrow>
       user_view (memory_set ct) (memory k') v = user_view (memory_set t) (memory k) v \<and>
       user_view (memory_set t) (memory k') v = user_view (memory_set t) (memory k) v"
    and "bystanders l t (next_pid k) k k'"
proof -
  let ?xs = "call_regs UFork xs" and ?c = "next_pid k" and ?us = "memory_set t"
  define cx where "cx = alltraps ?xs sst (pc + 4) (get_trap_cx t k)"
  define K where "K = save_user ?xs sst (pc + 4) t k"
  have cl: "length (regs cx) = 32" by (simp add: cx_def)
  note d = fork_readyD [OF r]
  note fo = trap_cx_frame [OF d(1,4)]
  have K: "K = put_trap_cx t cx k" by (simp add: K_def save_user_def cx_def)
  have c: "next_pid K = ?c" "cpu_current K = Some (tcb_pid t)" "tasks K (tcb_pid t) = Some t" "get_trap_cx t K = cx"
    using cur by (simp_all add: K next_pid_def get_put_trap_cx [OF cl])
  have ct: "current_task k = Ok t" using cur by (simp add: current_task_def the_task_def)
  obtain k1 b where f: "sys_fork pl K = Ok (Value (sint ?c), k1)" "cpu_current k1 = Some (tcb_pid t)"
    "tasks k1 (tcb_pid t) = Some (t\<lparr>children := children t @ [?c]\<rparr>)" "tasks k1 ?c = Some b" "child_block pl ?c t b"
    "ready_queue (manager k1) ?c = Some ?c" "get_trap_cx t k1 = cx" "get_trap_cx b k1 = child_cx ?c cx"
    "ppn_ok (trap_cx_ppn b)" "trap_cx_ppn b \<noteq> trap_cx_ppn t"
    and v: "\<And>a v. \<lbrakk>a \<in> set (areas ?us); v \<in> area_pages a; v \<noteq> trap_page\<rbrakk> \<Longrightarrow> v \<in> fst ` set (bindings (areas (memory_set b))) \<and>
       user_view (memory_set b) (memory k1) v = user_view ?us (memory K) v \<and> user_view ?us (memory k1) v = user_view ?us (memory K) v"
    and inv: "ms_inv l (memory_set b, memory k1)" "ms_inv l (?us, memory k1)" "owned_frames ?us \<inter> owned_frames (memory_set b) = {}"
    and bys: "bystanders l t ?c K k1"
    using sys_fork_spec [OF fork_ready_save [OF r, of ?xs sst "pc + 4", folded K_def] c(2,3)] unfolding c(1,4) by blast
  let ?par = "t\<lparr>children := children t @ [?c]\<rparr>" and ?cx = "cx\<lparr>regs := (regs cx)[10 := ?c]\<rparr>"
  have pc: "get_trap_cx ?par k1 = cx" "no_signals ?par" "put_trap_cx ?par ?cx k1 = put_trap_cx t ?cx k1"
    using f(7) q by (simp_all add: get_trap_cx_def no_signals_def deliverable_def put_trap_cx_def)
  define k' where "k' = put_trap_cx t ?cx k1"
  have cl': "length (regs ?cx) = 32" by (simp add: cl)
  have "finish_call (sint ?c) k1 = Ok (User, k')"
    using finish_call_quiet [of k1 ?par "sint ?c", OF _ _ pc(2)] f(2,3) pc(1,3) by (simp add: k'_def)
  then have th: "trap_handler pl inp UserEnvCall (save_user ?xs sst pc t k) = Some (Ok (User, k'))"
    unfolding call_trap [OF ct xs] K_def [symmetric] call_handler.simps f(1) by (simp add: after_call_def)
  have views: "user_view (memory_set b) (memory k') v = user_view ?us (memory k) v \<and> user_view ?us (memory k') v = user_view ?us (memory k) v"
    if w: "a \<in> set (areas ?us)" "v \<in> area_pages a" "v \<noteq> trap_page" for a v
  proof -
    obtain h where h: "(v, h) \<in> set (bindings (areas ?us))" by (rule whole_binding [OF d(3) w(1,2)])
    obtain g where g: "(v, g) \<in> set (bindings (areas (memory_set b)))" using v [OF w] by auto
    have hf: "trap_cx_ppn t \<noteq> h" using binding_page [OF d(1) h] d(4) w(3) by auto
    have "g \<in> owned_frames (memory_set b)" by (rule binding_view' [OF inv(1) g])
    then have gf: "trap_cx_ppn t \<noteq> g" using fo(2) inv(3) by auto
    have bt: "trap_cx_ppn t \<notin> set (pt_frames (page_table (memory_set b)))" by (rule fo(4) [OF inv(1)]) (use inv(3) in blast)
    show ?thesis
      using v [OF w] user_view_put [OF inv(1) g fo(1) bt gf cl'] user_view_put [OF inv(2) h fo(1,3) hf cl']
        user_view_put [OF d(1) h fo(1,3) hf cl] by (simp add: k'_def K)
  qed
  have "untouched l ot (memory k) (memory k')" if ot: "ot \<in> others l t k" for ot
  proof -
    have o: "ms_inv l (ot, memory k)" "owned_frames ot \<inter> owned_frames ?us = {}" "owned_frames ot \<inter> owned_frames (kernel_space k) = {}"
      using ot by (simp_all add: others_def)
    have nf: "trap_cx_ppn t \<notin> owned_frames ot" using o(2) fo(2) by auto
    have s1: "untouched l ot (memory k) (memory K)" unfolding K by (rule untouched_put_trap_cx [OF o(1) fo(1) nf cl])
    then have "ot \<in> others l t K" using o by (simp add: others_def K untouched_def)
    then have s2: "untouched l ot (memory K) (memory k1)" using bys by (simp add: bystanders_def)
    then have "ms_inv l (ot, memory k1)" by (simp add: untouched_def)
    then have "untouched l ot (memory k1) (memory k')" unfolding k'_def by (rule untouched_put_trap_cx [OF _ fo(1) nf cl'])
    then show ?thesis using untouched_trans [OF s1 untouched_trans [OF s2]] by blast
  qed
  then have bys': "bystanders l t ?c k k'"
    using bys by (simp add: bystanders_def k'_def K) (simp add: put_trap_cx_def)
  show thesis
  proof (rule that [OF th _ _ _ f(5) _ _ _ views bys'])
    show "get_trap_cx t k' = (let cx = alltraps ?xs sst (pc + 4) (get_trap_cx t k) in cx\<lparr>regs := (regs cx)[10 := ?c]\<rparr>)"
      by (simp add: k'_def get_put_trap_cx [OF cl']) (simp add: cx_def Let_def)
    show "get_trap_cx b k' = child_cx ?c (alltraps ?xs sst (pc + 4) (get_trap_cx t k))"
      using get_trap_cx_other [OF f(9) fo(1) f(10) cl', of k1] f(8) by (simp add: k'_def cx_def)
  qed (use f in \<open>simp_all add: k'_def\<close>)
qed

end
