(* ===== verification/SignalProperties.thy ===== *)
theory SignalProperties
  imports ForkCall ProcProperties
begin

text \<open>
  Signals as a process and the kernel see them: delivery on the way back to user mode, the handler, \<^verbatim>\<open>sigreturn\<close>
  as a system call, and the system calls on signals.
\<close>

section \<open>Delivery and \<^verbatim>\<open>sigreturn\<close>\<close>






section \<open>The system calls on signals\<close>

text \<open>
  Every process has an action for each of the 32 signals and its running handler, if any, is in range; the
  ready queue and the processor name processes that exist.
\<close>

definition sigs_ok :: "kernel \<Rightarrow> bool" where
  "sigs_ok k = ((\<forall>p t. tasks k p = Some t \<longrightarrow> sig_ok t) \<and>
     (\<forall>p q. ready_queue (manager k) p = Some q \<longrightarrow> tasks k q \<noteq> None) \<and> (\<forall>p. cpu_current k = Some p \<longrightarrow> tasks k p \<noteq> None))"

lemma sigs_ok_set_task: "\<lbrakk>sigs_ok k; sig_ok t\<rbrakk> \<Longrightarrow> sigs_ok (set_task t k)"
  by (auto simp: sigs_ok_def set_task_def)

lemma sigs_ok_memory [simp]: "sigs_ok (k\<lparr>memory := s\<rparr>) = sigs_ok k" "sigs_ok (put_trap_cx t cx k) = sigs_ok k"
  by (simp_all add: sigs_ok_def put_trap_cx_def)

lemma sigs_ok_current: "\<lbrakk>sigs_ok k; current_task k = Ok t\<rbrakk> \<Longrightarrow> sig_ok t"
  by (auto simp: sigs_ok_def current_task_def the_task_def res_simps)

lemma handle_signals_start_ok:
  assumes "sigs_ok k" and "current_task k = Ok t"
  shows "\<exists>k'. handle_signals_start k = Ok k' \<and> sigs_ok k'"
proof -
  obtain t' cx where "check_pending_signals (t, get_trap_cx t k) = Ok (t', cx)" "sig_ok t'"
    using pending_loop_total [of "(t, get_trap_cx t k)" 0] sigs_ok_current [OF assms]
    by (force simp: check_pending_signals_def)
  then show ?thesis using sigs_ok_set_task [OF assms(1)]
    by (simp add: handle_signals_start_def with_current_def assms(2))
qed

lemma sys_kill_ok:
  assumes "sigs_ok k" and "current_task k = Ok t"
  shows "\<exists>v k'. sys_kill pid signum k = Ok (Value v, k') \<and> v \<in> {0, - 1} \<and> sigs_ok k'"
proof -
  define r where "r = (if pid = tcb_pid t then cpu_current k else ready_queue (manager k) pid)"
  have r: "pid2task pid k = Ok r" by (simp add: pid2task_def assms(2) r_def)
  show ?thesis
  proof (cases r)
    case None
    with r assms(1) show ?thesis by (simp add: sys_kill_def)
  next
    case (Some p)
    then have "tasks k p \<noteq> None" using assms(1) by (simp add: r_def sigs_ok_def split: if_splits)
    then obtain u where u: "tasks k p = Some u" by blast
    then have "sig_ok u" using assms(1) unfolding sigs_ok_def by blast
    then have v: "sig_ok (snd (kill_task signum u))" "fst (kill_task signum u) \<in> {0, - 1}"
      by (simp_all add: kill_task_def sig_ok_def)
    obtain v' u' where p: "kill_task signum u = (v', u')" by (cases "kill_task signum u")
    have "sys_kill pid signum k = Ok (Value v', set_task u' k)"
      by (simp add: sys_kill_def r Some the_task_def u p)
    then show ?thesis using v sigs_ok_set_task [OF assms(1)] by (simp add: p)
  qed
qed

text \<open>The check of the arguments of \<^verbatim>\<open>sigaction\<close>.\<close>

definition sigaction_refused :: "32 word \<Rightarrow> usize \<Rightarrow> usize \<Rightarrow> bool" where
  "sigaction_refused signum action old_action =
     (31 < unat signum \<or> action = 0 \<or> old_action = 0 \<or> unat signum = 9 \<or> unat signum = 19)"


lemma shift_one_nat: "unat (signum :: 32 word) < 32 \<Longrightarrow> shift_one signum = sig_bit (unat signum)"
proof -
  assume "unat signum < 32"
  moreover have "signum AND 31 = take_bit 5 signum" by (simp add: take_bit_eq_mask mask_eq_exp_minus_1)
  ultimately show ?thesis by (simp add: shift_one_def sig_bit_def unat_take_bit)
qed

lemma sigaction_refused:
  "(of_nat MAX_SIG < (scast signum :: usize) \<or> check_sigaction_error (shift_one signum) action old_action) =
    sigaction_refused signum action old_action"
proof (cases "31 < unat signum")
  case True
  have "unat (ucast (scast signum :: usize) :: 32 word) = unat signum" by simp
  then have "unat signum \<le> unat (scast signum :: usize)"
    unfolding unsigned_ucast_eq using take_bit_nat_less_eq_self by metis
  then have "31 < (scast signum :: usize)" using True by (simp add: word_nat)
  then show ?thesis using True by (simp add: sigaction_refused_def MAX_SIG_def)
next
  case False
  then have u: "uint signum < 32" using uint_nat [of signum] by linarith
  have "- (2 ^ 31) \<le> (0 :: int)" "(32 :: int) \<le> 2 ^ 31" by simp_all
  then have "signed_take_bit 31 (uint signum) = uint signum"
    using u uint_nat [of signum] by (intro signed_take_bit_int_eq_self) linarith+
  then have "sint signum = uint signum" by (simp add: sint_uint)
  then have "(scast signum :: usize) = ucast signum" by (simp only: scast_eq ucast_eq)
  then have s: "unat (scast signum :: usize) = unat signum"
    using False by (simp only: unsigned_ucast_eq) (simp add: take_bit_nat_eq_self)
  have "shift_one signum = sig_bit (unat signum)" using False by (intro shift_one_nat) simp
  moreover have "sig_bit (unat signum) = sig_bit n \<longleftrightarrow> unat signum = n" if "n < 32" for n
    using that sig_bit_inj by metis
  ultimately show ?thesis using False
    by (simp add: sigaction_refused_def check_sigaction_error_def MAX_SIG_def word_nat s sig_defs)
qed

text \<open>A \<^verbatim>\<open>SignalAction\<close> in memory.\<close>

definition load_action :: "phys_mem \<Rightarrow> usize \<Rightarrow> SignalAction" where
  "load_action m pa = \<lparr>handler = load_u64 m pa, mask_of = le_word (load_bytes m (pa + 8) 4)\<rparr>"

definition store_action :: "phys_mem \<Rightarrow> usize \<Rightarrow> SignalAction \<Rightarrow> phys_mem" where
  "store_action m pa a = store_bytes (store_u64 m pa (handler a)) (pa + 8) (le_bytes 4 (mask_of a))"

lemma sys_sigaction_ok:
  fixes t :: TaskControlBlock and signum :: "32 word"
  assumes ok: "sigs_ok k" and cur: "current_task k = Ok t"
  defines "pt \<equiv> from_token (get_user_token t)" and "old \<equiv> signal_actions t ! unat signum"
  shows "if sigaction_refused signum action old_action then sys_sigaction signum action old_action k = Ok (Value (- 1), k)
    else case translate_va pt (VirtAddr_from old_action) (memory k) of
        None \<Rightarrow> sys_sigaction signum action old_action k = Panic UnwrapNone
      | Some opa \<Rightarrow> (let s = (memory k)\<lparr>mem := if mask_of old \<noteq> 40 then store_action (mem (memory k)) (pa0 opa) old else mem (memory k)\<rparr>
          in case translate_va pt (VirtAddr_from action) s of
             None \<Rightarrow> sys_sigaction signum action old_action k = Panic UnwrapNone
           | Some pa \<Rightarrow> \<exists>k'. sys_sigaction signum action old_action k = Ok (Value 0, k') \<and> memory k' = s \<and> sigs_ok k' \<and>
               tasks k' = (tasks k)(tcb_pid t \<mapsto>
                 t\<lparr>signal_actions := (signal_actions t)[unat signum := load_action (mem s) (pa0 pa)]\<rparr>))"
proof (cases "sigaction_refused signum action old_action")
  case True
  with sigaction_refused [of signum action old_action] show ?thesis
    by (auto simp: sys_sigaction_def cur)
next
  case False
  then have nr: "\<not> of_nat MAX_SIG < (scast signum :: usize)" "\<not> check_sigaction_error (shift_one signum) action old_action"
    using sigaction_refused [of signum action old_action] by auto
  have so: "sig_ok (t\<lparr>signal_actions := (signal_actions t)[j := a]\<rparr>)" for j a
    using sigs_ok_current [OF ok cur] by (simp add: sig_ok_def)
  show ?thesis
  proof (cases "translate_va pt (VirtAddr_from old_action) (memory k)")
    case None
    with False nr show ?thesis by (simp add: sys_sigaction_def cur translated_refmut_def pt_def)
  next
    case (Some opa)
    define s where "s = (memory k)\<lparr>mem := if mask_of old \<noteq> 40 then store_action (mem (memory k)) (pa0 opa) old else mem (memory k)\<rparr>"
    have run: "sys_sigaction signum action old_action k =
        bind_res (translated_ref (get_user_token t) action s) (\<lambda>pa.
          Ok (Value 0, set_task (t\<lparr>signal_actions := (signal_actions t)[unat signum := load_action (mem s) pa]\<rparr>) (k\<lparr>memory := s\<rparr>)))"
      using nr Some by (simp add: sys_sigaction_def cur translated_refmut_def Let_def pt_def [symmetric] old_def [symmetric]
          store_action_def [symmetric] load_action_def s_def)
    have "sigs_ok (set_task (t\<lparr>signal_actions := (signal_actions t)[unat signum := a]\<rparr>) (k\<lparr>memory := s\<rparr>))" for a
      by (rule sigs_ok_set_task) (simp_all add: ok so)
    then show ?thesis using False unfolding run
      by (simp add: Some Let_def s_def [symmetric] translated_ref_def pt_def [symmetric] set_task_def split: option.split)
  qed
qed

text \<open>
  C28: the system calls on signals and the delivery of signals keep every process well-formed (an action for each
  of the 32 signals, a running handler in range), and when they panic is told exactly. On a well-formed kernel
  delivery never panics, nor do the rounds of its loop, \<^verbatim>\<open>kill\<close> and \<^verbatim>\<open>sigprocmask\<close>. \<^verbatim>\<open>sigreturn\<close> panics the
  kernel if and only if no context was ever saved for the process. \<^verbatim>\<open>sigaction\<close> refuses a number above 31,
  a null pointer, \<^verbatim>\<open>SIGKILL\<close> and \<^verbatim>\<open>SIGSTOP\<close>, changing nothing; otherwise it panics the kernel if one of
  the two pointers is not mapped, and else replaces just the action of that signal by the one in memory
  and reports the old action (unless its mask is that of the default).
\<close>

theorem signals_keep_sig_ok:
  fixes t :: TaskControlBlock and signum :: "32 word"
  assumes ok: "sigs_ok k" and cur: "current_task k = Ok t"
  shows "(\<exists>k'. handle_signals_start k = Ok k' \<and> sigs_ok k') \<and>
    (\<exists>r. handle_signals_round (t, get_trap_cx t k) = Ok r \<and> (case r of Inl st \<Rightarrow> sig_ok (fst st) | Inr st \<Rightarrow> sig_ok (fst st))) \<and>
    (\<forall>pid. \<exists>v k'. sys_kill pid signum k = Ok (Value v, k') \<and> v \<in> {0, - 1} \<and> sigs_ok k') \<and>
    (\<forall>m. \<exists>k'. sys_sigprocmask_current m k = Ok (Value (uint (signal_mask t)), k') \<and> sigs_ok k') \<and>
    (case trap_ctx_backup t of
       None \<Rightarrow> sys_sigreturn_current k = Panic UnwrapNone
     | Some saved \<Rightarrow> \<exists>k'. sys_sigreturn_current k = Ok (Value 0, k') \<and> sigs_ok k') \<and>
    (if sigaction_refused signum action old_action then sys_sigaction signum action old_action k = Ok (Value (- 1), k)
     else let pt = from_token (get_user_token t); old = signal_actions t ! unat signum
       in case translate_va pt (VirtAddr_from old_action) (memory k) of
         None \<Rightarrow> sys_sigaction signum action old_action k = Panic UnwrapNone
       | Some opa \<Rightarrow> (let s = (memory k)\<lparr>mem := if mask_of old \<noteq> 40 then store_action (mem (memory k)) (pa0 opa) old else mem (memory k)\<rparr>
           in case translate_va pt (VirtAddr_from action) s of
              None \<Rightarrow> sys_sigaction signum action old_action k = Panic UnwrapNone
            | Some pa \<Rightarrow> \<exists>k'. sys_sigaction signum action old_action k = Ok (Value 0, k') \<and> memory k' = s \<and> sigs_ok k' \<and>
                tasks k' = (tasks k)(tcb_pid t \<mapsto>
                  t\<lparr>signal_actions := (signal_actions t)[unat signum := load_action (mem s) (pa0 pa)]\<rparr>)))"
proof -
  note st = sigs_ok_current [OF ok cur]
  have "\<exists>r. handle_signals_round (t, get_trap_cx t k) = Ok r \<and> (case r of Inl st \<Rightarrow> sig_ok (fst st) | Inr st \<Rightarrow> sig_ok (fst st))"
    using pending_loop_total [of "(t, get_trap_cx t k)" 0] st by (force simp: handle_signals_round_def check_pending_signals_def)
  moreover have "\<exists>k'. sys_sigprocmask_current m k = Ok (Value (uint (signal_mask t)), k') \<and> sigs_ok k'" for m
    using sigs_ok_set_task [OF ok] st by (simp add: sys_sigprocmask_current_def cur sys_sigprocmask_def sig_ok_def)
  moreover have "case trap_ctx_backup t of
       None \<Rightarrow> sys_sigreturn_current k = Panic UnwrapNone
     | Some saved \<Rightarrow> \<exists>k'. sys_sigreturn_current k = Ok (Value 0, k') \<and> sigs_ok k'"
    using sigs_ok_set_task [OF ok] st
    by (simp add: sys_sigreturn_current_def cur sys_sigreturn_def Let_def sig_ok_def split: option.split)
  ultimately show ?thesis
    unfolding Let_def [of "from_token (get_user_token t)"] Let_def [of "signal_actions t ! unat signum"]
    using handle_signals_start_ok [OF ok cur] sys_kill_ok [OF ok cur] sys_sigaction_ok [OF ok cur, of signum action old_action]
    by (intro conjI allI)
qed

theorem signals_keep_sig_ok_witness:
  "sys_sigreturn_current ex_kernel = Panic UnwrapNone \<and> sys_sigaction 9 0x1000 0x2000 ex_kernel = Ok (Value (- 1), ex_kernel) \<and>
   (\<exists>v k'. sys_kill 3 10 ex_kernel = Ok (Value v, k') \<and> sigs_ok k')"
proof -
  let ?t = "ex_task 1 Running (Some 0) [2, 3] 0"
  have ct: "current_task ex_kernel = Ok ?t" by (simp add: current_task_def the_task_def)
  have ok: "sigs_ok ex_kernel"
    by (auto simp: sigs_ok_def sig_ok_def ex_kernel_def ex_task_def SignalActions_default_def MAX_SIG_def split: if_splits)
  have b: "trap_ctx_backup ?t = None" by (simp add: ex_task_def)
  have r: "sigaction_refused 9 0x1000 0x2000" by (simp add: sigaction_refused_def)
  from signals_keep_sig_ok [OF ok ct, of 9 "0x1000" "0x2000"] signals_keep_sig_ok [OF ok ct, of 10 0 0] show ?thesis
    unfolding b by (simp only: r if_True option.case) blast
qed

end
