(* ===== verification/UserRegion.thy ===== *)
theory UserRegion
  imports SyscallMemory UserMem
begin

text \<open>
  A range of user addresses whose pages the process owns, seen as memory of its own: the physical addresses
  of different user addresses differ, none lies in a page table, so that bytes written through the page
  table are read back through it.
\<close>

section \<open>Physical addresses of the range\<close>

definition user_region :: "usize \<Rightarrow> MemorySet \<Rightarrow> mm_state \<Rightarrow> nat \<Rightarrow> nat \<Rightarrow> bool" where
  "user_region l ms s lo hi = (ms_inv l (ms, s) \<and> hi \<le> 2 ^ 38 \<and>
     (\<forall>x. lo \<le> x \<and> x < hi \<longrightarrow> VirtPageNum (of_nat (x div 4096)) \<in> fst ` set (bindings (areas ms))))"

definition upage :: "nat \<Rightarrow> VirtPageNum" where
  "upage x = VirtPageNum (of_nat (x div 4096))"

definition uframe :: "MemorySet \<Rightarrow> nat \<Rightarrow> PhysPageNum" where
  "uframe ms x = the (map_of (bindings (areas ms)) (upage x))"

definition upa :: "MemorySet \<Rightarrow> nat \<Rightarrow> usize" where
  "upa ms x = page_base (uframe ms x) + of_nat (x mod 4096)"

lemma user_regionD:
  assumes "user_region l ms s lo hi"
  shows "ms_inv l (ms, s)" and "hi \<le> 2 ^ 38" and "\<lbrakk>lo \<le> x; x < hi\<rbrakk> \<Longrightarrow> upage x \<in> fst ` set (bindings (areas ms))"
  using assms by (auto simp: user_region_def upage_def)

lemma user_region_frame:
  assumes r: "user_region l ms s lo hi" and x: "lo \<le> x" "x < hi"
  shows "(upage x, uframe ms x) \<in> set (bindings (areas ms))" and "ppn_ok (uframe ms x)"
    and "uframe ms x \<in> frames_used l s" and "uframe ms x \<notin> set (pt_frames (page_table ms))"
proof -
  note inv = user_regionD(1) [OF r]
  from user_regionD(3) [OF r x] obtain f where f: "(upage x, f) \<in> set (bindings (areas ms))" by auto
  with bindings_distinct [OF inv] have "uframe ms x = f" by (simp add: uframe_def)
  with f show b: "(upage x, uframe ms x) \<in> set (bindings (areas ms))" by simp
  then have "uframe ms x \<in> set (area_frames (areas ms))" by (force simp: area_frames_bindings)
  with ms_invD(5,6) [OF inv] show "uframe ms x \<in> frames_used l s" "uframe ms x \<notin> set (pt_frames (page_table ms))" by auto
  then show "ppn_ok (uframe ms x)" using frames_used_ok [OF ms_invD(2) [OF inv]] by simp
qed

lemma upa_in_page:
  assumes "user_region l ms s lo hi" and "lo \<le> x" "x < hi"
  shows "in_page (uframe ms x) (upa ms x)"
  unfolding upa_def by (rule in_page_offset [OF user_region_frame(2) [OF assms]]) simp

lemma upa_translate:
  assumes r: "user_region l ms s lo hi" and x: "lo \<le> x" "x < hi"
  shows "translate_va (from_token (ms_token ms)) (VirtAddr_from (of_nat x)) s = Some (PhysAddr (upa ms x))"
proof -
  note inv = user_regionD(1) [OF r]
  have small: "x < 2 ^ 38" using user_regionD(2) [OF r] x(2) by simp
  have ux: "unat (of_nat x :: usize) = x" using small by (simp add: unat_of_nat_64)
  then have va: "unat (vpn0 (va_floor (VirtAddr_from (of_nat x)))) = x div 4096"
    "unat (va_page_offset (VirtAddr_from (of_nat x))) = x mod 4096"
    using va_small(2,3) [of "of_nat x"] small by simp_all
  have "unat (of_nat (x div 4096) :: usize) = x div 4096" using small by (simp add: unat_of_nat_64)
  then have p: "va_floor (VirtAddr_from (of_nat x)) = upage x"
    unfolding upage_def using va(1) by (simp add: word_unat_eq_iff VirtPageNum.expand)
  have o: "va_page_offset (VirtAddr_from (of_nat x)) = of_nat (x mod 4096)"
    using va(2) by (simp add: word_unat_eq_iff unat_of_nat_64)
  obtain q where "translate (page_table ms) (upage x) s = Some (PTE_new (uframe ms x) (q OR PTE_V))"
    by (rule binding_translate [OF inv user_region_frame(1) [OF assms]])
  moreover have "pte_ppn (PTE_new (uframe ms x) f) = uframe ms x" for f
    using user_region_frame(2) [OF assms] by simp
  ultimately show ?thesis
    using from_token_translate [OF ms_invD(1) [OF inv]] by (simp add: translate_va_eq p o ms_token_def upa_def)
qed

lemma upa_inj:
  assumes r: "user_region l ms s lo hi" and x: "lo \<le> x" "x < hi" and y: "lo \<le> y" "y < hi"
  shows "upa ms x = upa ms y \<longleftrightarrow> x = y"
proof
  assume eq: "upa ms x = upa ms y"
  have small: "x div 4096 < 2 ^ 64" "y div 4096 < 2 ^ 64" using user_regionD(2) [OF r] x(2) y(2) by simp_all
  note fx = user_region_frame [OF r x] and fy = user_region_frame [OF r y]
  have f: "uframe ms x = uframe ms y"
    using in_page_unique [OF fx(2) fy(2) upa_in_page [OF r x]] upa_in_page [OF r y] eq by simp
  have "distinct (map snd (bindings (areas ms)))"
    using ms_invD(4) [OF user_regionD(1) [OF r]] by (simp add: area_frames_bindings)
  then have "upage x = upage y" using fx(1) fy(1) f
    by (metis (no_types, lifting) distinct_map fst_conv inj_on_def snd_conv)
  then have "unat (of_nat (x div 4096) :: usize) = unat (of_nat (y div 4096) :: usize)" by (simp add: upage_def)
  then have d: "x div 4096 = y div 4096" using small by (simp only: unat_of_nat_64)
  have "unat (of_nat (x mod 4096) :: usize) = unat (of_nat (y mod 4096) :: usize)"
    using eq f by (simp add: upa_def)
  then have "x mod 4096 = y mod 4096" by (simp add: unat_of_nat_64)
  with d show "x = y" by (metis div_mult_mod_eq)
qed simp

lemma upa_next:
  assumes "x mod 4096 + k < 4096"
  shows "upa ms (x + k) = upa ms x + of_nat k"
proof -
  define q r where "q = x div 4096" and "r = x mod 4096"
  have e: "x + k = (r + k) + q * 4096" "r + k < 4096" using assms by (simp_all add: q_def r_def)
  have "(x + k) div 4096 = x div 4096" "(x + k) mod 4096 = x mod 4096 + k"
    unfolding q_def [symmetric] r_def [symmetric] e(1) using e(2) by simp_all
  then show ?thesis by (simp add: upa_def uframe_def upage_def)
qed

section \<open>Writing to the range\<close>

text \<open>The memory \<open>m\<close> differs from that of \<open>s\<close> only in the range.\<close>

definition region_mem :: "MemorySet \<Rightarrow> mm_state \<Rightarrow> nat \<Rightarrow> nat \<Rightarrow> phys_mem \<Rightarrow> bool" where
  "region_mem ms s lo hi m = (\<forall>a. (\<forall>x. lo \<le> x \<and> x < hi \<longrightarrow> upa ms x \<noteq> a) \<longrightarrow> m a = mem s a)"

lemma region_mem_self [simp]: "region_mem ms s lo hi (mem s)"
  by (simp add: region_mem_def)

lemma region_mem_upd:
  assumes "region_mem ms s lo hi m" and "lo \<le> x" "x < hi"
  shows "region_mem ms s lo hi (m(upa ms x := c))"
  using assms by (auto simp: region_mem_def)

lemma region_mem_region:
  assumes r: "user_region l ms s lo hi" and m: "region_mem ms s lo hi m"
  shows "user_region l ms (s\<lparr>mem := m\<rparr>) lo hi"
proof -
  have "m a = mem s a" if "p \<in> set (pt_frames (page_table ms))" "in_page p a" for p a
  proof -
    have "upa ms x \<noteq> a" if x: "lo \<le> x" "x < hi" for x
    proof
      assume e: "upa ms x = a"
      have "ppn_ok p" using frames_used_ok [OF ms_invD(2)] ms_invD(7) [OF user_regionD(1) [OF r]] user_regionD(1) [OF r] \<open>p \<in> _\<close> by blast
      then have "p = uframe ms x"
        using in_page_unique [OF _ user_region_frame(2) [OF r x] _ upa_in_page [OF r x]] \<open>in_page p a\<close> e by blast
      then show False using user_region_frame(4) [OF r x] \<open>p \<in> _\<close> by simp
    qed
    then show ?thesis using m by (simp add: region_mem_def)
  qed
  from ms_inv_write(1) [OF user_regionD(1) [OF r] this] r show ?thesis by (simp add: user_region_def)
qed

lemma translated_region:
  assumes "user_region l ms s lo hi" and "region_mem ms s lo hi m" and "lo \<le> x" "x < hi"
  shows "translated_refmut (ms_token ms) (of_nat x) (s\<lparr>mem := m\<rparr>) = Ok (upa ms x)"
  using upa_translate [OF region_mem_region [OF assms(1,2)] assms(3,4)] by (simp add: translated_refmut_def)

end
