(* ===== verification/UserArgs.thy ===== *)
theory UserArgs
  imports SyscallFs UserRegion
begin

text \<open>
  The arguments of a program: \<^verbatim>\<open>exec\<close> pushes them on the user stack (\<^verbatim>\<open>os/src/task/task.rs\<close>), and \<^verbatim>\<open>_start\<close>
  (\<^verbatim>\<open>user/src/lib.rs\<close>) collects them there before it calls \<^verbatim>\<open>main\<close>.
\<close>

section \<open>The start of a user program\<close>

text \<open>Loads in user mode go through the page table; \<^const>\<open>None\<close> is a page fault. The words that are read are aligned.\<close>

definition user_load8 :: "usize \<Rightarrow> mm_state \<Rightarrow> usize \<Rightarrow> u8 option" where
  "user_load8 tok s va = map_option (\<lambda>pa. mem s (pa0 pa)) (translate_va (from_token tok) (VirtAddr_from va) s)"

definition user_load64 :: "usize \<Rightarrow> mm_state \<Rightarrow> usize \<Rightarrow> u64 option" where
  "user_load64 tok s va = map_option (\<lambda>pa. load_u64 (mem s) (pa0 pa)) (translate_va (from_token tok) (VirtAddr_from va) s)"

text \<open>A page fault or a panic ends the program before \<^verbatim>\<open>main\<close>.\<close>

datatype start_result = Started "u8 list list" | Aborted

text \<open>\<^verbatim>\<open>(0usize..).find(..)\<close>: the offset of the first zero byte.\<close>

partial_function (option) start_strlen :: "usize \<Rightarrow> mm_state \<Rightarrow> usize \<Rightarrow> usize \<Rightarrow> usize option option" where
  "start_strlen tok s str_start i =
     (case user_load8 tok s (str_start + i) of
        None \<Rightarrow> Some None
      | Some b \<Rightarrow> if b = 0 then Some (Some i) else start_strlen tok s str_start (i + 1))"

declare start_strlen.simps [code]

fun start_loop :: "usize \<Rightarrow> mm_state \<Rightarrow> usize \<Rightarrow> nat list \<Rightarrow> u8 list list \<Rightarrow> start_result option" where
  "start_loop tok s argv [] v = Some (Started v)"
| "start_loop tok s argv (i # is) v =
     (case user_load64 tok s (argv + of_nat i * 8) of
        None \<Rightarrow> Some Aborted
      | Some str_start \<Rightarrow> (case start_strlen tok s str_start 0 of
            None \<Rightarrow> None
          | Some None \<Rightarrow> Some Aborted
          | Some (Some len) \<Rightarrow> (case those (map (\<lambda>j. user_load8 tok s (str_start + of_nat j)) [0..<unat len]) of
                None \<Rightarrow> Some Aborted
              | Some bytes \<Rightarrow>
                  if utf8_valid bytes then start_loop tok s argv is (v @ [bytes]) else Some Aborted)))"

definition start_args :: "usize \<Rightarrow> mm_state \<Rightarrow> usize \<Rightarrow> usize \<Rightarrow> start_result option" where
  "start_args tok s argc argv = start_loop tok s argv [0..<unat argc] []"

section \<open>Strings and words in a region\<close>

definition in_region :: "nat \<Rightarrow> nat \<Rightarrow> nat \<Rightarrow> bool" where
  "in_region lo hi x = (lo \<le> x \<and> x < hi)"

lemma put_user_string_spec:
  assumes r: "user_region l ms s lo hi" and m: "region_mem ms s lo hi m" and p: "lo \<le> p" "p + length bytes < hi"
  shows "\<exists>m'. put_user_string (ms_token ms) (of_nat p) bytes (s\<lparr>mem := m\<rparr>) = Ok (s\<lparr>mem := m'\<rparr>) \<and> region_mem ms s lo hi m' \<and>
    (\<forall>j \<le> length bytes. m' (upa ms (p + j)) = (bytes @ [0]) ! j) \<and>
    (\<forall>x. in_region lo hi x \<longrightarrow> x < p \<or> p + length bytes < x \<longrightarrow> m' (upa ms x) = m (upa ms x))"
proof -
  define I where "I = (\<lambda>(is :: nat list) st. \<exists>m'. st = s\<lparr>mem := m'\<rparr> \<and> region_mem ms s lo hi m' \<and>
    (\<forall>j < length is. m' (upa ms (p + j)) = (bytes @ [0]) ! j) \<and>
    (\<forall>x. in_region lo hi x \<longrightarrow> x < p \<or> p + length is \<le> x \<longrightarrow> m' (upa ms x) = m (upa ms x)))"
  have "\<exists>st. fold_res (\<lambda>i. put_user_byte (ms_token ms) (of_nat p + of_nat i) ((bytes @ [0]) ! i)) [0..<length bytes + 1] (s\<lparr>mem := m\<rparr>) =
      Ok st \<and> I [0..<length bytes + 1] st"
  proof (rule fold_res_total)
    show "I [] (s\<lparr>mem := m\<rparr>)" using m by (auto simp: I_def intro!: exI [of _ m])
    fix ys x zs st assume sp: "[0..<length bytes + 1] = ys @ x # zs" and i: "I ys st"
    have x: "x = length ys" "x \<le> length bytes"
    proof -
      have l: "length ys < length bytes + 1" using arg_cong [OF sp, of length] by simp
      have "[0..<length bytes + 1] ! length ys = x" by (simp only: sp nth_append_length)
      moreover have "[0..<length bytes + 1] ! length ys = length ys" using nth_upt [of 0 "length ys" "length bytes + 1"] l by simp
      ultimately show "x = length ys" "x \<le> length bytes" using l by simp_all
    qed
    from i obtain m1 where m1: "st = s\<lparr>mem := m1\<rparr>" "region_mem ms s lo hi m1"
      "\<And>j. j < length ys \<Longrightarrow> m1 (upa ms (p + j)) = (bytes @ [0]) ! j"
      "\<And>x. \<lbrakk>in_region lo hi x; x < p \<or> p + length ys \<le> x\<rbrakk> \<Longrightarrow> m1 (upa ms x) = m (upa ms x)"
      by (auto simp: I_def)
    let ?a = "p + x"
    have a: "lo \<le> ?a" "?a < hi" using p x by simp_all
    let ?m = "m1(upa ms ?a := (bytes @ [0]) ! x)"
    have "put_user_byte (ms_token ms) (of_nat p + of_nat x) ((bytes @ [0]) ! x) st = Ok (s\<lparr>mem := ?m\<rparr>)"
      using translated_region [OF r m1(2) a] by (simp add: put_user_byte_def m1(1))
    moreover have "I (ys @ [x]) (s\<lparr>mem := ?m\<rparr>)"
      unfolding I_def
    proof (intro exI [of _ ?m] conjI allI impI)
      show "region_mem ms s lo hi ?m" by (rule region_mem_upd [OF m1(2) a])
      show "?m (upa ms (p + j)) = (bytes @ [0]) ! j" if "j < length (ys @ [x])" for j
      proof -
        have "upa ms (p + j) = upa ms ?a \<longleftrightarrow> j = x"
          using upa_inj [OF r _ _ a, of "p + j"] that p x by simp
        then show ?thesis using m1(3) [of j] that x by (cases "j = x") auto
      qed
      show "?m (upa ms y) = m (upa ms y)" if "in_region lo hi y" "y < p \<or> p + length (ys @ [x]) \<le> y" for y
        using upa_inj [OF r _ _ a, of y] m1(4) [of y] that x by (auto simp: in_region_def)
    qed simp
    ultimately show "\<exists>st'. put_user_byte (ms_token ms) (of_nat p + of_nat x) ((bytes @ [0]) ! x) st = Ok st' \<and> I (ys @ [x]) st'" by blast
  qed
  then show ?thesis unfolding put_user_string_def I_def by (force simp: in_region_def less_Suc_eq_le)
qed

text \<open>An aligned word of the region lies in one page.\<close>

lemma upa_word:
  assumes "a mod 8 = 0" and "k < 8"
  shows "upa ms (a + k) = upa ms a + of_nat k"
proof (rule upa_next)
  obtain q where "a = 8 * q" using assms(1) by auto
  then have "a mod 4096 = 8 * (q mod 512)" using mult_mod_right [of 8 q 512] by simp
  moreover have "q mod 512 < 512" by simp
  ultimately have "a mod 4096 \<le> 4088" by simp
  then show "a mod 4096 + k < 4096" using assms(2) by simp
qed

lemma load_word_cong:
  assumes "a mod 8 = 0" and "\<And>k. k < 8 \<Longrightarrow> m' (upa ms (a + k)) = m (upa ms (a + k))"
  shows "load_u64 m' (upa ms a) = load_u64 m (upa ms a)"
  by (rule load_u64_cong) (use assms(2) upa_word [OF assms(1)] in auto)

lemma store_word_spec:
  assumes r: "user_region l ms s lo hi" and m: "region_mem ms s lo hi m" and a: "a mod 8 = 0" "lo \<le> a" "a + 8 \<le> hi"
  shows "region_mem ms s lo hi (store_u64 m (upa ms a) w)"
    and "\<lbrakk>in_region lo hi x; x < a \<or> a + 8 \<le> x\<rbrakk> \<Longrightarrow> store_u64 m (upa ms a) w (upa ms x) = m (upa ms x)"
proof -
  have other: "store_u64 m (upa ms a) w y = m y" if "\<And>k. k < 8 \<Longrightarrow> y \<noteq> upa ms (a + k)" for y
  proof -
    have "\<not> unat (y - upa ms a) < 8"
    proof
      assume k: "unat (y - upa ms a) < 8"
      then have "upa ms (a + unat (y - upa ms a)) = y" by (simp add: upa_word [OF a(1)])
      then show False using that [OF k] by simp
    qed
    then show ?thesis by (simp add: store_u64_def Let_def)
  qed
  show "region_mem ms s lo hi (store_u64 m (upa ms a) w)"
    unfolding region_mem_def
  proof (intro allI impI)
    fix y assume y: "\<forall>x. lo \<le> x \<and> x < hi \<longrightarrow> upa ms x \<noteq> y"
    have "y \<noteq> upa ms (a + k)" if "k < 8" for k using y [rule_format, of "a + k"] that a by auto
    then have "store_u64 m (upa ms a) w y = m y" by (rule other)
    then show "store_u64 m (upa ms a) w y = mem s y" using m y by (simp add: region_mem_def)
  qed
  show "store_u64 m (upa ms a) w (upa ms x) = m (upa ms x)" if "in_region lo hi x" "x < a \<or> a + 8 \<le> x"
    by (rule other) (use upa_inj [OF r, of x] that a in \<open>auto simp: in_region_def\<close>)
qed


section \<open>Pushing the arguments\<close>

definition args_size :: "u8 list list \<Rightarrow> nat" where
  "args_size args = sum_list (map (\<lambda>a. length a + 1) args)"

lemma args_size_simps [simp]: "args_size [] = 0" "args_size (a # as) = length a + 1 + args_size as"
  by (simp_all add: args_size_def)

text \<open>Where the arguments lie when the stack pointer is \<open>sp\<close>.\<close>

fun arg_ptrs :: "nat \<Rightarrow> u8 list list \<Rightarrow> nat list" where
  "arg_ptrs sp [] = []"
| "arg_ptrs sp (a # as) = (sp - (length a + 1)) # arg_ptrs (sp - (length a + 1)) as"

lemma length_arg_ptrs [simp]: "length (arg_ptrs sp as) = length as"
  by (induction as arbitrary: sp) auto

lemma push_args_spec:
  assumes r: "user_region l ms s lo hi" and b: "base mod 8 = 0" "base + 8 * n \<le> hi"
    and "region_mem ms s lo hi m" and "lo + args_size args \<le> sp" "sp \<le> base" and "k + length args \<le> n"
  shows "\<exists>m'. push_args (ms_token ms) (map (\<lambda>i. upa ms (base + 8 * i)) [k..<n]) args (of_nat sp, s\<lparr>mem := m\<rparr>) =
      Ok (of_nat (sp - args_size args), s\<lparr>mem := m'\<rparr>) \<and> region_mem ms s lo hi m' \<and>
    (\<forall>x. in_region lo hi x \<longrightarrow> \<not> (sp - args_size args \<le> x \<and> x < sp) \<longrightarrow>
       \<not> (base + 8 * k \<le> x \<and> x < base + 8 * (k + length args)) \<longrightarrow> m' (upa ms x) = m (upa ms x)) \<and>
    (\<forall>i < length args. load_u64 m' (upa ms (base + 8 * (k + i))) = of_nat (arg_ptrs sp args ! i) \<and>
       lo \<le> arg_ptrs sp args ! i \<and> arg_ptrs sp args ! i + length (args ! i) < sp \<and>
       (\<forall>j \<le> length (args ! i). m' (upa ms (arg_ptrs sp args ! i + j)) = (args ! i @ [0]) ! j))"
  using assms(4-)
proof (induction args arbitrary: sp k m)
  case Nil
  then show ?case by (cases "map (\<lambda>i. upa ms (base + 8 * i)) [k..<n]") (auto intro!: exI [of _ m])
next
  case (Cons a as)
  let ?sp = "sp - (length a + 1)" and ?slot = "base + 8 * k"
  have k: "[k..<n] = k # [Suc k..<n]" using Cons.prems(4) by (simp add: upt_conv_Cons)
  have slot: "?slot mod 8 = 0" "lo \<le> ?slot" "?slot + 8 \<le> hi" using b Cons.prems by auto
  define m1 where "m1 = store_u64 m (upa ms ?slot) (of_nat ?sp)"
  note w = store_word_spec [OF r Cons.prems(1) slot, where w = "of_nat ?sp", folded m1_def]
  have "sp \<le> hi" using Cons.prems(3) b(2) by simp
  then have p: "lo \<le> ?sp" "?sp + length a < hi" "?sp + length a < sp" using Cons.prems(2) by auto
  obtain m2 where m2: "put_user_string (ms_token ms) (of_nat ?sp) a (s\<lparr>mem := m1\<rparr>) = Ok (s\<lparr>mem := m2\<rparr>)"
    "region_mem ms s lo hi m2" "\<And>j. j \<le> length a \<Longrightarrow> m2 (upa ms (?sp + j)) = (a @ [0]) ! j"
    "\<And>x. \<lbrakk>in_region lo hi x; x < ?sp \<or> ?sp + length a < x\<rbrakk> \<Longrightarrow> m2 (upa ms x) = m1 (upa ms x)"
    using put_user_string_spec [OF r w(1) p(1,2)] by blast
  have pre: "lo + args_size as \<le> ?sp" "?sp \<le> base" "Suc k + length as \<le> n" using Cons.prems by auto
  obtain m3 where m3: "push_args (ms_token ms) (map (\<lambda>i. upa ms (base + 8 * i)) [Suc k..<n]) as (of_nat ?sp, s\<lparr>mem := m2\<rparr>) =
      Ok (of_nat (?sp - args_size as), s\<lparr>mem := m3\<rparr>)" "region_mem ms s lo hi m3"
    "\<And>x. \<lbrakk>in_region lo hi x; \<not> (?sp - args_size as \<le> x \<and> x < ?sp); \<not> (base + 8 * Suc k \<le> x \<and> x < base + 8 * (Suc k + length as))\<rbrakk> \<Longrightarrow>
       m3 (upa ms x) = m2 (upa ms x)"
    "\<And>i. i < length as \<Longrightarrow> load_u64 m3 (upa ms (base + 8 * (Suc k + i))) = of_nat (arg_ptrs ?sp as ! i) \<and>
       lo \<le> arg_ptrs ?sp as ! i \<and> arg_ptrs ?sp as ! i + length (as ! i) < ?sp \<and>
       (\<forall>j \<le> length (as ! i). m3 (upa ms (arg_ptrs ?sp as ! i + j)) = (as ! i @ [0]) ! j)"
    using Cons.IH [OF m2(2) pre] by blast
  have e: "(of_nat sp :: usize) - of_nat (length a + 1) = of_nat ?sp" using Cons.prems(2) by (simp add: of_nat_diff)
  have run: "push_args (ms_token ms) (map (\<lambda>i. upa ms (base + 8 * i)) [k..<n]) (a # as) (of_nat sp, s\<lparr>mem := m\<rparr>) =
      Ok (of_nat (sp - args_size (a # as)), s\<lparr>mem := m3\<rparr>)"
    using m2(1) m3(1) unfolding k list.map push_args.simps Let_def e by (simp add: m1_def)
  show ?case
  proof (intro exI [of _ m3] conjI allI impI)
    show "push_args (ms_token ms) (map (\<lambda>i. upa ms (base + 8 * i)) [k..<n]) (a # as) (of_nat sp, s\<lparr>mem := m\<rparr>) =
      Ok (of_nat (sp - args_size (a # as)), s\<lparr>mem := m3\<rparr>)" by (rule run)
    show "region_mem ms s lo hi m3" by (rule m3(2))
    show "m3 (upa ms x) = m (upa ms x)"
      if x: "in_region lo hi x" "\<not> (sp - args_size (a # as) \<le> x \<and> x < sp)"
        "\<not> (base + 8 * k \<le> x \<and> x < base + 8 * (k + length (a # as)))" for x
    proof -
      have "m3 (upa ms x) = m2 (upa ms x)" by (rule m3(3)) (use x in auto)
      also have "\<dots> = m1 (upa ms x)" by (rule m2(4)) (use x p in auto)
      also have "\<dots> = m (upa ms x)" by (rule w(2)) (use x in auto)
      finally show ?thesis .
    qed
    fix i assume i: "i < length (a # as)"
    show "load_u64 m3 (upa ms (base + 8 * (k + i))) = of_nat (arg_ptrs sp (a # as) ! i)"
    proof (cases i)
      case 0
      have "m3 (upa ms (?slot + j)) = m1 (upa ms (?slot + j))" if "j < 8" for j
      proof -
        have x: "in_region lo hi (?slot + j)" using slot that by (simp add: in_region_def)
        have "m3 (upa ms (?slot + j)) = m2 (upa ms (?slot + j))" by (rule m3(3) [OF x]) (use that Cons.prems in auto)
        also have "\<dots> = m1 (upa ms (?slot + j))" by (rule m2(4) [OF x]) (use p Cons.prems in auto)
        finally show ?thesis .
      qed
      then have "load_u64 m3 (upa ms ?slot) = load_u64 m1 (upa ms ?slot)" by (rule load_word_cong [OF slot(1)])
      then show ?thesis using 0 by (simp add: m1_def)
    next
      case (Suc i')
      then show ?thesis using m3(4) [of i'] i by simp
    qed
    show "lo \<le> arg_ptrs sp (a # as) ! i" using m3(4) [of "i - 1"] p i by (cases i) auto
    show "arg_ptrs sp (a # as) ! i + length ((a # as) ! i) < sp"
      using m3(4) [of "i - 1"] p i by (cases i) (auto intro: less_le_trans)
    fix j assume j: "j \<le> length ((a # as) ! i)"
    show "m3 (upa ms (arg_ptrs sp (a # as) ! i + j)) = ((a # as) ! i @ [0]) ! j"
    proof (cases i)
      case 0
      have "m3 (upa ms (?sp + j)) = m2 (upa ms (?sp + j))"
        by (rule m3(3)) (use j 0 p Cons.prems in \<open>auto simp: in_region_def\<close>)
      then show ?thesis using m2(3) [of j] j 0 by simp
    next
      case (Suc i')
      then show ?thesis using m3(4) [of i'] i j by simp
    qed
  qed
qed


lemma argv_slots_spec:
  assumes r: "user_region l ms s lo hi" and m: "region_mem ms s lo hi m" and b: "lo \<le> base" "base + 8 * (n + 1) \<le> hi"
  shows "argv_slots (ms_token ms) (of_nat base) n (s\<lparr>mem := m\<rparr>) = Ok (map (\<lambda>i. upa ms (base + 8 * i)) [0..<n + 1])"
proof -
  have "fold_res (\<lambda>i v. bind_res (translated_refmut (ms_token ms) (of_nat base + of_nat i * 8) (s\<lparr>mem := m\<rparr>)) (\<lambda>pa. Ok (v @ [pa]))) [0..<j] [] =
      Ok (map (\<lambda>i. upa ms (base + 8 * i)) [0..<j])" if "j \<le> n + 1" for j
    using that
  proof (induction j)
    case (Suc j)
    have e: "of_nat base + of_nat j * 8 = (of_nat (base + 8 * j) :: usize)" by simp
    have "translated_refmut (ms_token ms) (of_nat base + of_nat j * 8) (s\<lparr>mem := m\<rparr>) = Ok (upa ms (base + 8 * j))"
      unfolding e by (rule translated_region [OF r m]) (use b Suc.prems in auto)
    then show ?case using Suc by (simp add: fold_res_append)
  qed simp
  from this [of "n + 1"] show ?thesis unfolding argv_slots_def by blast
qed

section \<open>Reading the arguments back\<close>

lemma user_load8_region:
  assumes "user_region l ms s lo hi" and "region_mem ms s lo hi m" and "lo \<le> x" "x < hi"
  shows "user_load8 (ms_token ms) (s\<lparr>mem := m\<rparr>) (of_nat x) = Some (m (upa ms x))"
  using upa_translate [OF region_mem_region [OF assms(1,2)] assms(3,4)] by (simp add: user_load8_def)

lemma user_load64_region:
  assumes "user_region l ms s lo hi" and "region_mem ms s lo hi m" and "lo \<le> x" "x < hi"
  shows "user_load64 (ms_token ms) (s\<lparr>mem := m\<rparr>) (of_nat x) = Some (load_u64 m (upa ms x))"
  using upa_translate [OF region_mem_region [OF assms(1,2)] assms(3,4)] by (simp add: user_load64_def)

lemma start_strlen_spec:
  assumes r: "user_region l ms s lo hi" and m: "region_mem ms s lo hi m" and p: "lo \<le> p" "p + n < hi"
    and z: "m (upa ms (p + n)) = 0" and nz: "\<And>j. j < n \<Longrightarrow> m (upa ms (p + j)) \<noteq> 0" and "i \<le> n"
  shows "start_strlen (ms_token ms) (s\<lparr>mem := m\<rparr>) (of_nat p) (of_nat i) = Some (Some (of_nat n))"
  using \<open>i \<le> n\<close>
proof (induction "n - i" arbitrary: i)
  case 0
  then show ?case
    using user_load8_region [OF r m, of "p + i"] p z by (subst start_strlen.simps) simp
next
  case (Suc d)
  have "start_strlen (ms_token ms) (s\<lparr>mem := m\<rparr>) (of_nat p) (of_nat (Suc i)) = Some (Some (of_nat n))"
    by (rule Suc.hyps(1)) (use Suc.hyps(2) in auto)
  moreover have "user_load8 (ms_token ms) (s\<lparr>mem := m\<rparr>) (of_nat p + of_nat i) = Some (m (upa ms (p + i)))"
    using user_load8_region [OF r m, of "p + i"] p Suc by simp
  moreover have "m (upa ms (p + i)) \<noteq> 0" using nz [of i] Suc by simp
  ultimately show ?case by (subst start_strlen.simps) (simp add: add.commute)
qed

lemma those_Some: "those (map (\<lambda>j. Some (f j)) js) = Some (map f js)"
  by (induction js) auto

text \<open>What a string needs to survive: no zero byte, and valid UTF-8.\<close>

definition arg_ok :: "u8 list \<Rightarrow> bool" where
  "arg_ok a = (0 \<notin> set a \<and> utf8_valid a)"

lemma start_loop_spec:
  assumes r: "user_region l ms s lo hi" and m: "region_mem ms s lo hi m" and b: "lo \<le> base" "base + 8 * n \<le> hi"
    and ok: "\<forall>a \<in> set args. arg_ok a" and len: "length args = n"
    and ptr: "\<And>i. i < n \<Longrightarrow> load_u64 m (upa ms (base + 8 * i)) = of_nat (ptrs ! i)"
    and str: "\<And>i. i < n \<Longrightarrow> lo \<le> ptrs ! i \<and> ptrs ! i + length (args ! i) < hi \<and>
      (\<forall>j \<le> length (args ! i). m (upa ms (ptrs ! i + j)) = (args ! i @ [0]) ! j)"
    and "i \<le> n"
  shows "start_loop (ms_token ms) (s\<lparr>mem := m\<rparr>) (of_nat base) [i..<n] v = Some (Started (v @ drop i args))"
  using \<open>i \<le> n\<close>
proof (induction "n - i" arbitrary: i v)
  case 0
  then show ?case using len by simp
next
  case (Suc d)
  then have i: "i < n" and up: "[i..<n] = i # [Suc i..<n]" by (simp_all add: upt_conv_Cons)
  let ?a = "args ! i" and ?p = "ptrs ! i"
  have a: "arg_ok ?a" using ok i len by simp
  have st: "lo \<le> ?p" "?p + length ?a < hi" "\<And>j. j \<le> length ?a \<Longrightarrow> m (upa ms (?p + j)) = (?a @ [0]) ! j"
    using str [OF i] by auto
  have e: "of_nat base + of_nat i * 8 = (of_nat (base + 8 * i) :: usize)" by simp
  have l64: "user_load64 (ms_token ms) (s\<lparr>mem := m\<rparr>) (of_nat base + of_nat i * 8) = Some (of_nat ?p)"
    unfolding e using user_load64_region [OF r m, of "base + 8 * i"] b i ptr [OF i] by simp
  have nz: "m (upa ms (?p + j)) \<noteq> 0" if "j < length ?a" for j
  proof -
    have "?a ! j \<noteq> 0" using nth_mem [OF that] a by (metis arg_ok_def)
    then show ?thesis using st(3) [of j] that by (simp add: nth_append)
  qed
  have sl: "start_strlen (ms_token ms) (s\<lparr>mem := m\<rparr>) (of_nat ?p) 0 = Some (Some (of_nat (length ?a)))"
    using start_strlen_spec [OF r m st(1,2) _ nz, of 0] st(3) [of "length ?a"] by simp
  have "length ?a < 2 ^ 38" using st(2) user_regionD(2) [OF r] by simp
  then have ul: "unat (of_nat (length ?a) :: usize) = length ?a" by (simp add: unat_of_nat_64)
  have "user_load8 (ms_token ms) (s\<lparr>mem := m\<rparr>) (of_nat ?p + of_nat j) = Some (?a ! j)" if "j < length ?a" for j
    using user_load8_region [OF r m, of "?p + j"] st that by (simp add: nth_append)
  then have "map (\<lambda>j. user_load8 (ms_token ms) (s\<lparr>mem := m\<rparr>) (of_nat ?p + of_nat j)) [0..<length ?a] =
      map (\<lambda>j. Some (?a ! j)) [0..<length ?a]" by simp
  then have th: "those (map (\<lambda>j. user_load8 (ms_token ms) (s\<lparr>mem := m\<rparr>) (of_nat ?p + of_nat j)) [0..<length ?a]) = Some ?a"
    by (simp only: those_Some map_nth)
  have "start_loop (ms_token ms) (s\<lparr>mem := m\<rparr>) (of_nat base) [Suc i..<n] (v @ [?a]) = Some (Started ((v @ [?a]) @ drop (Suc i) args))"
    by (rule Suc.hyps(1)) (use Suc.hyps(2) i in auto)
  then show ?case
    using a unfolding up start_loop.simps l64 option.case sl ul th
    by (simp add: arg_ok_def Cons_nth_drop_Suc len i)
qed

section \<open>The stack that exec builds\<close>

text \<open>The array of pointers at \<open>base\<close> and the strings they point to.\<close>

definition argv_layout :: "MemorySet \<Rightarrow> phys_mem \<Rightarrow> nat \<Rightarrow> nat \<Rightarrow> nat \<Rightarrow> u8 list list \<Rightarrow> bool" where
  "argv_layout ms m lo hi base args = (base mod 8 = 0 \<and> lo \<le> base \<and> base + 8 * (length args + 1) \<le> hi \<and>
     (\<exists>ptrs. \<forall>i < length args. load_u64 m (upa ms (base + 8 * i)) = of_nat (ptrs ! i) \<and>
        lo \<le> ptrs ! i \<and> ptrs ! i + length (args ! i) < hi \<and>
        (\<forall>j \<le> length (args ! i). m (upa ms (ptrs ! i + j)) = (args ! i @ [0]) ! j)))"

lemma argv_layout_cong:
  assumes a: "argv_layout ms m lo hi base args" and eq: "\<And>x. \<lbrakk>lo \<le> x; x < hi\<rbrakk> \<Longrightarrow> m' (upa ms x) = m (upa ms x)"
  shows "argv_layout ms m' lo hi base args"
proof -
  from a have b: "base mod 8 = 0" "lo \<le> base" "base + 8 * (length args + 1) \<le> hi" by (auto simp: argv_layout_def)
  from a obtain ptrs where p: "\<And>i. i < length args \<Longrightarrow> load_u64 m (upa ms (base + 8 * i)) = of_nat (ptrs ! i) \<and>
        lo \<le> ptrs ! i \<and> ptrs ! i + length (args ! i) < hi \<and>
        (\<forall>j \<le> length (args ! i). m (upa ms (ptrs ! i + j)) = (args ! i @ [0]) ! j)"
    by (auto simp: argv_layout_def)
  have w: "load_u64 m' (upa ms (base + 8 * i)) = load_u64 m (upa ms (base + 8 * i))" if "i < length args" for i
    by (rule load_word_cong) (use b that eq in auto)
  have c: "m' (upa ms (ptrs ! i + j)) = m (upa ms (ptrs ! i + j))" if "i < length args" "j \<le> length (args ! i)" for i j
    by (rule eq) (use p [OF that(1)] that(2) in auto)
  show ?thesis unfolding argv_layout_def using b p w c by (intro conjI exI [of _ ptrs] allI impI) auto
qed

lemma start_args_layout:
  assumes r: "user_region l ms s lo hi" and a: "argv_layout ms (mem s) lo hi base args" and ok: "\<forall>a \<in> set args. arg_ok a"
  shows "start_args (ms_token ms) s (of_nat (length args)) (of_nat base) = Some (Started args)"
proof -
  let ?n = "length args"
  from a have b: "lo \<le> base" "base + 8 * ?n \<le> hi" by (auto simp: argv_layout_def)
  from a obtain ptrs where p: "\<And>i. i < ?n \<Longrightarrow> load_u64 (mem s) (upa ms (base + 8 * i)) = of_nat (ptrs ! i)"
    "\<And>i. i < ?n \<Longrightarrow> lo \<le> ptrs ! i \<and> ptrs ! i + length (args ! i) < hi \<and>
        (\<forall>j \<le> length (args ! i). mem s (upa ms (ptrs ! i + j)) = (args ! i @ [0]) ! j)"
    by (auto simp: argv_layout_def)
  have "start_loop (ms_token ms) (s\<lparr>mem := mem s\<rparr>) (of_nat base) [0..<?n] [] = Some (Started ([] @ drop 0 args))"
    by (rule start_loop_spec [OF r region_mem_self b ok refl p]) auto
  moreover have "unat (of_nat ?n :: usize) = ?n" using b(2) user_regionD(2) [OF r] by (simp add: unat_of_nat_64)
  ultimately show ?thesis by (simp add: start_args_def)
qed

text \<open>
  The part of \<^verbatim>\<open>exec\<close> that builds the stack: \<open>tp\<close> is the stack pointer that \<^verbatim>\<open>from_elf\<close> returns.
\<close>

lemma exec_stack:
  assumes r: "user_region l ms s lo tp" and tp: "tp mod 8 = 0"
    and fits: "lo + args_size args + 8 * (length args + 1) \<le> tp" and base: "base = tp - 8 * (length args + 1)"
  obtains argv m where "argv_slots (ms_token ms) (of_nat base) (length args) s = Ok argv"
    and "push_args (ms_token ms) argv args (of_nat base, s\<lparr>mem := store_u64 (mem s) (argv ! length args) 0\<rparr>) =
      Ok (of_nat (base - args_size args), s\<lparr>mem := m\<rparr>)"
    and "region_mem ms s lo tp m" and "argv_layout ms m lo tp base args"
proof -
  let ?n = "length args"
  have b: "lo \<le> base" "base + 8 * (?n + 1) \<le> tp" "base mod 8 = 0" using fits tp by (auto simp: base)
  have slots: "argv_slots (ms_token ms) (of_nat base) ?n s = Ok (map (\<lambda>i. upa ms (base + 8 * i)) [0..<?n + 1])"
    using argv_slots_spec [OF r region_mem_self b(1,2)] by simp
  have a: "(base + 8 * ?n) mod 8 = 0" "lo \<le> base + 8 * ?n" "base + 8 * ?n + 8 \<le> tp" using b by auto
  let ?m0 = "store_u64 (mem s) (upa ms (base + 8 * ?n)) 0"
  have m0: "region_mem ms s lo tp ?m0" by (rule store_word_spec(1) [OF r region_mem_self a])
  have pre: "lo + args_size args \<le> base" "base \<le> base" "0 + ?n \<le> ?n + 1" using fits by (auto simp: base)
  obtain m where m: "push_args (ms_token ms) (map (\<lambda>i. upa ms (base + 8 * i)) [0..<?n + 1]) args (of_nat base, s\<lparr>mem := ?m0\<rparr>) =
      Ok (of_nat (base - args_size args), s\<lparr>mem := m\<rparr>)" "region_mem ms s lo tp m"
    "\<And>i. i < ?n \<Longrightarrow> load_u64 m (upa ms (base + 8 * (0 + i))) = of_nat (arg_ptrs base args ! i) \<and>
       lo \<le> arg_ptrs base args ! i \<and> arg_ptrs base args ! i + length (args ! i) < base \<and>
       (\<forall>j \<le> length (args ! i). m (upa ms (arg_ptrs base args ! i + j)) = (args ! i @ [0]) ! j)"
    using push_args_spec [OF r b(3,2) m0 pre] by blast
  have lay: "argv_layout ms m lo tp base args"
    unfolding argv_layout_def using b m(3) by (intro conjI exI [of _ "arg_ptrs base args"]) fastforce+
  have nth: "map (\<lambda>i. upa ms (base + 8 * i)) [0..<?n + 1] ! ?n = upa ms (base + 8 * ?n)" by (simp add: nth_append)
  show thesis by (rule that [OF slots _ m(2) lay]) (simp only: nth m(1))
qed

end
