(* ===== verification/ExecProperties.thy ===== *)
theory ExecProperties
  imports UserArgs TaskMemory ProcProperties
begin

text \<open>
  What \<^verbatim>\<open>exec\<close> promises: a well-formed address space in the place of the old one, and arguments that the
  start of the new program reads as they were given.
\<close>

section \<open>The user stack\<close>

lemma stack_region:
  assumes inv: "ms_inv l (ms, s)" and sp: "unat sp mod 4096 = 0" "8192 \<le> unat sp" "unat sp \<le> 2 ^ 38"
    and own: "{v. va_floor (VirtAddr_from (sp - 8192)) \<le> v \<and> v < va_ceil (VirtAddr_from sp)} \<subseteq> fst ` set (bindings (areas ms))"
  shows "user_region l ms s (unat sp - 8192) (unat sp)"
proof -
  have lo: "unat (sp - 8192) = unat sp - 8192" using sp(2) by (simp add: unat_sub word_le_nat_alt)
  have f: "unat (vpn0 (va_floor (VirtAddr_from (sp - 8192)))) = (unat sp - 8192) div 4096"
    using va_small(2) [of "sp - 8192"] lo sp(3) by simp
  have c: "unat (vpn0 (va_ceil (VirtAddr_from sp))) = unat sp div 4096" by (rule va_ceil_aligned [OF sp(1)]) (use sp(3) in simp)
  have "upage x \<in> fst ` set (bindings (areas ms))" if x: "unat sp - 8192 \<le> x" "x < unat sp" for x
  proof -
    have u: "unat (vpn0 (upage x)) = x div 4096" using x sp(3) by (simp add: upage_def unat_of_nat_64)
    have "(unat sp - 8192) div 4096 \<le> x div 4096" by (rule div_le_mono [OF x(1)])
    moreover have "x div 4096 < unat sp div 4096"
    proof -
      obtain q where "unat sp = 4096 * q" using sp(1) by auto
      then show ?thesis using x(2) by (simp add: less_mult_imp_div_less mult.commute)
    qed
    ultimately have "va_floor (VirtAddr_from (sp - 8192)) \<le> upage x \<and> upage x < va_ceil (VirtAddr_from sp)"
      by (simp add: page_order_defs word_nat f c u)
    then show ?thesis using own by blast
  qed
  then show ?thesis using inv sp(3) by (auto simp: user_region_def upage_def)
qed


section \<open>exec\<close>

lemma region_mem_frame:
  assumes r: "user_region l ms s lo hi" and m: "region_mem ms s lo hi m" and p: "ppn_ok p" "p \<notin> owned_frames ms" "in_page p a"
  shows "m a = mem s a"
proof -
  have "upa ms x \<noteq> a" if x: "lo \<le> x" "x < hi" for x
  proof
    assume "upa ms x = a"
    then have "uframe ms x = p" using in_page_unique [OF user_region_frame(2) [OF r x] p(1) upa_in_page [OF r x]] p(3) by simp
    moreover have "uframe ms x \<in> set (area_frames (areas ms))" using user_region_frame(1) [OF r x] by (force simp: area_frames_bindings)
    ultimately show False using p(2) by (simp add: owned_frames_def)
  qed
  then show ?thesis using m by (simp add: region_mem_def)
qed

lemma stack_not_trap:
  assumes r: "user_region l ms s lo hi" and f: "(trap_page, f) \<in> set (bindings (areas ms))" "ppn_ok f" and x: "lo \<le> x" "x < hi"
  shows "\<not> in_page f (upa ms x)"
proof
  assume "in_page f (upa ms x)"
  then have "uframe ms x = f" using in_page_unique [OF user_region_frame(2) [OF r x] f(2) upa_in_page [OF r x]] by simp
  then have b: "(upage x, f) \<in> set (bindings (areas ms))" using user_region_frame(1) [OF r x] by simp
  have "distinct (map snd (bindings (areas ms)))"
    using ms_invD(4) [OF user_regionD(1) [OF r]] by (simp add: area_frames_bindings)
  then have "upage x = trap_page" using b f(1) by (metis (no_types, lifting) distinct_map fst_conv inj_on_def snd_conv)
  then have "(of_nat (x div 4096) :: usize) = 0x7FFFFFE" by (simp add: upage_def trap_page_def)
  then have "unat (of_nat (x div 4096) :: usize) = 0x7FFFFFE" by simp
  then have "x div 4096 = 0x7FFFFFE" using x(2) user_regionD(2) [OF r] by (simp add: unat_of_nat_64)
  moreover have "x div 4096 < 2 ^ 26" using x(2) user_regionD(2) [OF r] by simp
  ultimately show False by simp
qed

text \<open>
  C5: \<^verbatim>\<open>exec\<close> hands its arguments over. When the program loads and the arguments fit on its stack of two pages,
  \<^verbatim>\<open>exec\<close> returns: the process has the new address space, well-formed, and has given back exactly the frames of the
  old one; it starts at the entry point; and \<^verbatim>\<open>_start\<close>, run on the registers and the memory that \<^verbatim>\<open>exec\<close> leaves,
  collects exactly the strings that \<^verbatim>\<open>exec\<close> was given, in their order (strings of UTF-8 without zero bytes).
\<close>

theorem exec_args_roundtrip:
  assumes old: "ms_inv l (memory_set t, memory k)"
    and elf: "from_elf (parse_elf pl) (strampoline_addr pl) elf_data (memory k) = Ok ((ms, sp, entry0), s1)"
    and fit: "\<forall>elf. parse_elf pl elf_data = Some elf \<longrightarrow> segments_fit elf" and sp38: "unat sp \<le> 2 ^ 38"
    and args: "args_size args + 8 * (length args + 1) \<le> 8192" "\<forall>a \<in> set args. arg_ok a"
  shows "\<exists>k' t'. task_exec pl elf_data args t k = Ok k' \<and> tasks k' (tcb_pid t) = Some t' \<and> memory_set t' = ms \<and>
    ms_inv l (ms, memory k') \<and> frames_used l (memory k') = frames_used l s1 - owned_frames (memory_set t) \<and>
    sepc (get_trap_cx t' k') = entry0 \<and>
    start_args (get_user_token t') (memory k') (regs (get_trap_cx t' k') ! 10) (regs (get_trap_cx t' k') ! 11) = Some (Started args)"
proof -
  note e = from_elf_spec [OF ms_invD(2) [OF old] fit elf]
  let ?lo = "unat sp - 8192" and ?hi = "unat sp" and ?n = "length args"
  define base where "base = ?hi - 8 * (?n + 1)"
  have r: "user_region l ms s1 ?lo ?hi" by (rule stack_region [OF e(1,2,3) sp38 e(5)])
  obtain q where "unat sp = 8 * (512 * q)" using e(2) by (auto simp: dvd_def)
  then have hi8: "?hi mod 8 = 0" by simp
  have fits: "?lo + args_size args + 8 * (?n + 1) \<le> ?hi" using args(1) e(3) by simp
  obtain argv m where a: "argv_slots (ms_token ms) (of_nat base) ?n s1 = Ok argv"
    "push_args (ms_token ms) argv args (of_nat base, s1\<lparr>mem := store_u64 (mem s1) (argv ! ?n) 0\<rparr>) =
      Ok (of_nat (base - args_size args), s1\<lparr>mem := m\<rparr>)"
    "region_mem ms s1 ?lo ?hi m" "argv_layout ms m ?lo ?hi base args"
    by (rule exec_stack [OF r hi8 fits base_def])
  let ?s2 = "s1\<lparr>mem := m\<rparr>"
  have r2: "user_region l ms ?s2 ?lo ?hi" by (rule region_mem_region [OF r a(3)])
  note inv2 = user_regionD(1) [OF r2]
  obtain f where f: "trap_frame ms ?s2 = Ok f" "(trap_page, f) \<in> set (bindings (areas ms))" "ppn_ok f" "f \<notin> set (pt_frames (page_table ms))"
    by (rule trap_frame_binding [OF inv2 e(6)])
  have old1: "ms_inv l (memory_set t, s1)" "owned_frames (memory_set t) \<inter> owned_frames ms = {}" using e(7) [OF old] by auto
  have ok1: "ppn_ok p" if "p \<in> frames_used l s1" for p using frames_used_ok [OF ms_invD(2) [OF e(1)] that] .
  have old2: "ms_inv l (memory_set t, ?s2)"
  proof (rule ms_inv_other(1) [OF old1(1)])
    show "frames_inv l ?s2" by (rule ms_invD(2) [OF inv2])
    show "owned_frames (memory_set t) \<subseteq> frames_used l ?s2" using ms_inv_owned [OF old1(1)] by simp
    fix p x assume p: "p \<in> set (pt_frames (page_table (memory_set t)))" "in_page p x"
    then have "p \<in> owned_frames (memory_set t)" by (simp add: owned_frames_def)
    then show "mem ?s2 x = mem s1 x"
      using region_mem_frame [OF r a(3) ok1 _ p(2)] ms_inv_owned [OF old1(1)] old1(2) by auto
  qed
  obtain s3 where s3: "drop_memory_set (memory_set t, ?s2) = Ok s3" "frames_inv l s3"
    "frames_used l s3 = frames_used l ?s2 - owned_frames (memory_set t)" "mem s3 = mem ?s2"
    by (rule drop_memory_set_spec [OF old2])
  define t' where "t' = t\<lparr>memory_set := ms, trap_cx_ppn := f\<rparr>"
  define cx0 where "cx0 = app_init_context (user_sstatus pl) entry0 (of_nat (base - args_size args) - of_nat (base - args_size args) mod 8)
     (ms_token (kernel_space k)) (ks_get_top (kernel_stack t')) (trap_handler_addr pl)"
  define cx where "cx = cx0\<lparr>regs := (regs cx0)[10 := of_nat ?n, 11 := of_nat base]\<rparr>"
  define k' where "k' = put_trap_cx t' cx (set_task t' (k\<lparr>memory := s3\<rparr>))"
  have len: "length (regs cx0) = 32" by (simp add: cx0_def app_init_context_def set_sp_def)
  then have cxl: "length (regs cx) = 32" by (simp add: cx_def)
  have "(of_nat (unat sp - 8 * (?n + 1)) :: usize) = sp - of_nat ((?n + 1) * 8)"
    using fits by (simp add: of_nat_diff mult.commute)
  then have b: "sp - of_nat ((?n + 1) * 8) = of_nat base" by (simp add: base_def)
  have run: "task_exec pl elf_data args t k = Ok k'"
    unfolding task_exec_def elf bind_res.simps prod.case Let_def b a(1,2) f(1) s3(1) k'_def cx_def cx0_def t'_def ..
  have mem4: "memory k' = s3\<lparr>mem := store_trap_cx m f cx\<rparr>" by (simp add: k'_def put_trap_cx_def set_task_def t'_def s3(4))
  have own: "owned_frames ms \<subseteq> frames_used l s3" using ms_inv_owned [OF inv2] old1(2) s3(3) by auto
  have inv4: "ms_inv l (ms, memory k')"
  proof (rule ms_inv_other(1) [OF inv2])
    show "frames_inv l (memory k')" "owned_frames ms \<subseteq> frames_used l (memory k')" using s3(2) own by (simp_all add: mem4)
    fix p x assume p: "p \<in> set (pt_frames (page_table ms))" "in_page p x"
    then have "p \<noteq> f" "ppn_ok p" using f(4) ok1 ms_invD(7) [OF e(1)] by auto
    then have "\<not> in_page f x" using in_page_unique [OF _ f(3) p(2)] by blast
    then show "mem (memory k') x = mem ?s2 x" using store_trap_cx_outside [OF f(3) cxl] by (simp add: mem4)
  qed
  have r4: "user_region l ms (memory k') ?lo ?hi" using inv4 r by (simp add: user_region_def)
  have "argv_layout ms (mem (memory k')) ?lo ?hi base args"
    by (rule argv_layout_cong [OF a(4)])
       (simp add: mem4 store_trap_cx_outside [OF f(3) cxl] stack_not_trap [OF r f(2,3)])
  from start_args_layout [OF r4 this args(2)]
  have st: "start_args (ms_token ms) (memory k') (of_nat ?n) (of_nat base) = Some (Started args)" .
  have tk: "tasks k' (tcb_pid t) = Some t'" by (simp add: k'_def put_trap_cx_def set_task_def t'_def)
  have gcx: "get_trap_cx t' k' = cx" using load_store_trap_cx [OF cxl] by (simp add: get_trap_cx_def mem4 t'_def)
  have "regs cx ! 10 = of_nat ?n" "regs cx ! 11 = of_nat base" "sepc cx = entry0"
    using len by (simp_all add: cx_def) (simp add: cx0_def app_init_context_def set_sp_def)
  then show ?thesis
    using run tk inv4 st s3(3) gcx by (intro exI [of _ k'] exI [of _ t']) (simp add: mem4 get_user_token_def t'_def)
qed


text \<open>A program without segments, loaded in the boot state.\<close>

definition tiny_elf :: "u8 list \<Rightarrow> elf_file option" where
  "tiny_elf bytes = Some \<lparr>elf_magic = [0x7f, 0x45, 0x4c, 0x46], elf_headers = [], elf_entry = 0x1000\<rparr>"

definition tiny_platform :: platform where
  "tiny_platform = \<lparr>trap_return_addr = 0, trap_handler_addr = 0, strampoline_addr = 0x80200000, user_sstatus = 0, parse_elf = tiny_elf\<rparr>"

lemma tiny_area:
  fixes lo hi :: usize and perm :: MapPermission
  assumes inv: "ms_inv l (ms, s)" and small: "unat (vpn0 (va_ceil (VirtAddr_from hi))) \<le> 2 ^ 27"
    and le: "va_floor (VirtAddr_from lo) \<le> va_ceil (VirtAddr_from hi)"
    and none: "\<And>v. \<lbrakk>va_floor (VirtAddr_from lo) \<le> v; v < va_ceil (VirtAddr_from hi)\<rbrakk> \<Longrightarrow> translate (page_table ms) v s = None"
    and free: "3 * (unat (vpn0 (va_ceil (VirtAddr_from hi))) - unat (vpn0 (va_floor (VirtAddr_from lo)))) \<le> card (frames_free l s)"
  obtains a ms' s' where "MapArea_new (VirtAddr_from lo) (VirtAddr_from hi) Framed perm = Ok a"
    and "push_unwrap a None (ms, s) = Ok (ms', s')" and "ms_inv l (ms', s')"
    and "card (frames_free l s) \<le> card (frames_free l s') +
      3 * (unat (vpn0 (va_ceil (VirtAddr_from hi))) - unat (vpn0 (va_floor (VirtAddr_from lo))))"
    and "\<And>v. (\<And>w. \<lbrakk>va_floor (VirtAddr_from lo) \<le> w; w < va_ceil (VirtAddr_from hi)\<rbrakk> \<Longrightarrow> \<not> same_page v w) \<Longrightarrow>
      translate (page_table ms') v s' = translate (page_table ms) v s"
proof -
  define a where "a = \<lparr>vpn_range = \<lparr>range_l = va_floor (VirtAddr_from lo), range_r = va_ceil (VirtAddr_from hi)\<rparr>,
    data_frames = [], map_type = Framed, map_perm = perm\<rparr>"
  have f: "data_frames a = []" "map_type a = Framed" "range_l (vpn_range a) \<le> range_r (vpn_range a)"
    "unat (vpn0 (range_r (vpn_range a))) \<le> 2 ^ 27" using le small by (simp_all add: a_def)
  have len: "length (range_vpns (vpn_range a)) = unat (vpn0 (va_ceil (VirtAddr_from hi))) - unat (vpn0 (va_floor (VirtAddr_from lo)))"
    by (simp add: range_vpns_eq [OF f(3)]) (simp add: a_def)
  have none': "translate (page_table ms) v s = None" if "v \<in> area_pages a" for v
    using none [of v] that by (simp add: area_pages_def a_def)
  obtain ms' s' where p: "push a None (ms, s) = Ok (Inr (), ms', s')"
    "card (frames_free l s) \<le> card (frames_free l s') + 3 * length (range_vpns (vpn_range a))"
    using push_total [OF inv f none'] free len by auto
  have k: "keeps l ms s ms' s' \<and> (\<forall>v. (\<forall>w \<in> area_pages a. \<not> same_page v w) \<longrightarrow> translate (page_table ms') v s' = translate (page_table ms) v s)"
    by (rule push_fresh [OF inv f(1,2,3) p(1)]) blast
  show thesis
  proof (rule that [of a ms' s'])
    show "MapArea_new (VirtAddr_from lo) (VirtAddr_from hi) Framed perm = Ok a"
      using le by (simp add: MapArea_new_def VPNRange_new_def a_def)
    show "push_unwrap a None (ms, s) = Ok (ms', s')" using p(1) by (simp add: push_unwrap_def)
    show "ms_inv l (ms', s')" using k by (simp add: keeps_def)
  qed (use p(2) len k in \<open>auto simp: area_pages_def a_def\<close>)
qed

lemma tiny_from_elf:
  assumes inv: "ms_inv l (us, s0)" and free: "12 \<le> card (frames_free l s0)"
  obtains ms s where "from_elf tiny_elf 0x80200000 bytes s0 = Ok ((ms, 0x3000, 0x1000), s)"
proof -
  have al: "pa_page_offset (PhysAddr_from 0x80200000) = 0"
    by (simp add: pa_page_offset_def PhysAddr_from_def PAGE_SIZE_def)
  have "3 \<le> card (frames_free l s0)" using free by simp
  from fork_start [OF inv al this] obtain ms s ms1 s1 where st: "new_bare s0 = Ok (ms, s)" "map_trampoline 0x80200000 (ms, s) = Ok (ms1, s1)"
    "forking l 0x80200000 us s0 [] (ms1, s1)" "card (frames_free l s0) \<le> card (frames_free l s1) + 3" by blast
  note k = keptD(1) [OF forkingD(1) [OF st(3)]]
  have un: "translate (page_table ms1) v s1 = None" if "\<not> same_page v tramp_page" for v
    using forkingD(4) [OF st(3), of v] that by (cases "translate (page_table ms1) v s1") auto
  have va: "va_floor (VirtAddr_from 0x1000) = VirtPageNum 1" "va_ceil (VirtAddr_from 0x3000) = VirtPageNum 3"
    by (simp_all add: va_floor_def va_ceil_def VirtAddr_from_take_bit take_bit_eq_mod PAGE_SIZE_def)
  have small: "\<not> same_page v tramp_page" "\<not> same_page trap_page v" if "v < VirtPageNum 3" for v
    using that same_page_small [of v tramp_page] same_page_small [of trap_page v]
    by (auto simp: tramp_page_def trap_page_def less_VirtPageNum_def word_less_nat_alt)
  obtain a ms2 s2 where a: "MapArea_new (VirtAddr_from 0x1000) (VirtAddr_from 0x3000) Framed (MP_R OR MP_W OR MP_U) = Ok a"
    "push_unwrap a None (ms1, s1) = Ok (ms2, s2)" "ms_inv l (ms2, s2)" "card (frames_free l s1) \<le> card (frames_free l s2) + 6"
    "\<And>v. (\<And>w. \<lbrakk>VirtPageNum 1 \<le> w; w < VirtPageNum 3\<rbrakk> \<Longrightarrow> \<not> same_page v w) \<Longrightarrow> translate (page_table ms2) v s2 = translate (page_table ms1) v s1"
    by (rule tiny_area [OF k, of "0x3000" "0x1000" "MP_R OR MP_W OR MP_U", unfolded va])
       (use st(4) free un small(1) in \<open>auto simp: less_eq_VirtPageNum_def\<close>)
  have one: "v = trap_page" if "trap_page \<le> v" "v < VirtPageNum 0x7FFFFFF" for v
    using that by (cases v) (simp add: trap_page_def less_VirtPageNum_def less_eq_VirtPageNum_def word_unat_eq_iff word_nat)
  have "\<not> same_page trap_page tramp_page" using same_page_small [of trap_page tramp_page] by (simp add: tramp_page_def trap_page_def)
  then have tn: "translate (page_table ms2) trap_page s2 = None" using a(5) [of trap_page] small(2) un by auto
  obtain b ms3 s3 where b: "MapArea_new (VirtAddr_from TRAP_CONTEXT) (VirtAddr_from TRAMPOLINE) Framed (MP_R OR MP_W) = Ok b"
    "push_unwrap b None (ms2, s2) = Ok (ms3, s3)"
    by (rule tiny_area [OF a(3), of TRAMPOLINE TRAP_CONTEXT "MP_R OR MP_W", unfolded trap_vpn])
       (use a(4) st(4) free tn one in \<open>auto simp: trap_page_def less_eq_VirtPageNum_def\<close>)
  have "from_elf tiny_elf 0x80200000 bytes s0 = Ok ((ms3, 0x3000, 0x1000), s3)"
    unfolding from_elf_def st(1) bind_res.simps st(2)
    using a(1,2) b by (simp add: tiny_elf_def VirtAddr_from_vpn_def PAGE_SIZE_def USER_STACK_SIZE_def)
  then show thesis by (rule that)
qed

theorem exec_args_roundtrip_witness:
  "\<exists>t k k' t'. task_exec tiny_platform [] [[0x6C, 0x73], [0x2D, 0x6C]] t k = Ok k' \<and> tasks k' (tcb_pid t) = Some t' \<and>
     start_args (get_user_token t') (memory k') (regs (get_trap_cx t' k') ! 10) (regs (get_trap_cx t' k') ! 11) =
       Some (Started [[0x6C, 0x73], [0x2D, 0x6C]])"
proof -
  obtain ms0 s0 where b: "ms_inv 0x80400 (ms0, s0)" "card (frames_free 0x80400 s0) = 1023"
    by (rule boot_memory_set) (rule that)
  define t where "t = (ex_task 1 Running (Some 0) [] 0)\<lparr>memory_set := ms0\<rparr>"
  define k where "k = ex_kernel\<lparr>memory := s0\<rparr>"
  have "12 \<le> card (frames_free 0x80400 s0)" using b(2) by simp
  then obtain ms s where f: "from_elf tiny_elf 0x80200000 [] s0 = Ok ((ms, 0x3000, 0x1000), s)"
    by (rule tiny_from_elf [OF b(1)])
  have h: "ms_inv 0x80400 (memory_set t, memory k)" "\<forall>elf. parse_elf tiny_platform [] = Some elf \<longrightarrow> segments_fit elf"
    "from_elf (parse_elf tiny_platform) (strampoline_addr tiny_platform) [] (memory k) = Ok ((ms, 0x3000, 0x1000), s)"
    using b(1) f by (simp_all add: t_def k_def tiny_platform_def tiny_elf_def segments_fit_def)
  have args: "args_size [[0x6C, 0x73], [0x2D, 0x6C]] + 8 * (length [[0x6C, 0x73], [0x2D, 0x6C :: u8]] + 1) \<le> 8192"
    "\<forall>a \<in> set [[0x6C, 0x73], [0x2D, 0x6C]]. arg_ok a" "unat (0x3000 :: usize) \<le> 2 ^ 38"
    by (simp_all add: arg_ok_def)
  from exec_args_roundtrip [OF h(1,3,2) args(3,1,2)] show ?thesis by blast
qed

end
