(* ===== verification/Shell.thy ===== *)
theory Shell
  imports SyscallFs
begin

text \<open>
  \<^verbatim>\<open>user/src/bin/user_shell.rs\<close>: the line editor, the parser of a command line, and how the shell wires
  the descriptors of the children of a pipeline. The characters of a line come from \<^verbatim>\<open>u8\<close> values, so a
  line is a list of 8-bit characters. A descriptor table changes only through the calls of its own process,
  so what a child does to its table is a function of the table; that the system calls of the kernel do
  just that is proved below.
\<close>

section \<open>The line editor\<close>

definition LF :: char where "LF = CHR 0x0A"
definition CR :: char where "CR = CHR 0x0D"
definition DL :: char where "DL = CHR 0x7F"
definition BS :: char where "BS = CHR 0x08"
definition LINE_START :: string where "LINE_START = ''>> ''"

text \<open>
  What the loop of \<^verbatim>\<open>main\<close> does with a character: the echo before and after, the new line buffer, and the
  line to run. Each \<^verbatim>\<open>print!\<close> flushes, so the console buffer of the process is empty between two calls.
\<close>

record key_result =
  echo_before :: string
  line_to_run :: "string option"
  echo_after :: string
  new_line :: string

definition shell_key :: "char \<Rightarrow> string \<Rightarrow> key_result" where
  "shell_key c line =
     (if c = LF \<or> c = CR then
        \<lparr>echo_before = [LF], line_to_run = (if line = [] then None else Some line), echo_after = LINE_START, new_line = []\<rparr>
      else if c = BS \<or> c = DL then
        (if line = [] then \<lparr>echo_before = [], line_to_run = None, echo_after = [], new_line = line\<rparr>
         else \<lparr>echo_before = [BS] @ '' '' @ [BS], line_to_run = None, echo_after = [], new_line = butlast line\<rparr>)
      else \<lparr>echo_before = [c], line_to_run = None, echo_after = [], new_line = line @ [c]\<rparr>)"

section \<open>Parsing a command line\<close>

text \<open>\<^verbatim>\<open>str::split\<close> at a character: the pieces between its occurrences, empty ones included.\<close>

fun str_split :: "char \<Rightarrow> string \<Rightarrow> string list" where
  "str_split d [] = [[]]"
| "str_split d (c # cs) =
     (if c = d then [] # str_split d cs
      else case str_split d cs of
        [] \<Rightarrow> [[c]]
      | w # ws \<Rightarrow> (c # w) # ws)"

text \<open>The pointers of \<^verbatim>\<open>args_addr\<close> are given by the strings they point to, the null pointer by \<^const>\<open>None\<close>.\<close>

record ProcessArguments =
  pa_input :: string
  pa_output :: string
  args_copy :: "string list"
  args_addr :: "string option list"

definition NUL :: char where "NUL = CHR 0x00"

text \<open>
  The two redirections of \<^verbatim>\<open>ProcessArguments::new\<close>: the argument after the first \<open>sign\<close> is taken, and both are
  drained. The index panics when nothing comes after the sign.
\<close>

definition take_redirect :: "string \<Rightarrow> string list \<Rightarrow> (string \<times> string list) res" where
  "take_redirect sign args = (case find_index (\<lambda>a. a = sign) args of
     None \<Rightarrow> Ok ([], args)
   | Some idx \<Rightarrow>
       if idx + 1 < length args then Ok (args ! (idx + 1), take idx args @ drop (idx + 2) args)
       else Panic OutOfBounds)"

definition ProcessArguments_new :: "string \<Rightarrow> ProcessArguments res" where
  "ProcessArguments_new command =
     (let args = str_split CHR '' '' command;
          args = map (\<lambda>arg. arg @ [NUL]) (filter (\<lambda>arg. arg \<noteq> []) args)
      in bind_res (take_redirect (''<'' @ [NUL]) args) (\<lambda>(input, args).
         bind_res (take_redirect (''>'' @ [NUL]) args) (\<lambda>(output, args).
         Ok \<lparr>pa_input = input, pa_output = output, args_copy = args, args_addr = map Some args @ [None]\<rparr>)))"

fun map_res :: "('a \<Rightarrow> 'b res) \<Rightarrow> 'a list \<Rightarrow> 'b list res" where
  "map_res f [] = Ok []"
| "map_res f (x # xs) = bind_res (f x) (\<lambda>y. bind_res (map_res f xs) (\<lambda>ys. Ok (y # ys)))"

definition parse_line :: "string \<Rightarrow> ProcessArguments list res" where
  "parse_line line = map_res ProcessArguments_new (str_split CHR ''|'' line)"

text \<open>The check that only the first command redirects its input and only the last its output.\<close>

definition check_one :: "nat \<Rightarrow> nat \<times> ProcessArguments \<Rightarrow> bool \<Rightarrow> bool" where
  "check_one n ip valid = (case ip of (i, p) \<Rightarrow>
     if i = 0 then (if pa_output p \<noteq> [] then False else valid)
     else if i = n - 1 then (if pa_input p \<noteq> [] then False else valid)
     else if pa_output p \<noteq> [] \<or> pa_input p \<noteq> [] then False else valid)"

definition redirections_valid :: "ProcessArguments list \<Rightarrow> bool" where
  "redirections_valid ps =
     (let valid = fold (check_one (length ps)) (enumerate 0 ps) True
      in if length ps = 1 then True else valid)"

section \<open>Descriptors\<close>

type_synonym fds = "kfile option list"

definition fd_install :: "kfile \<Rightarrow> fds \<Rightarrow> nat \<times> fds" where
  "fd_install f t = (case alloc_fd t of (fd, t) \<Rightarrow> (fd, t[fd := Some f]))"

text \<open>The calls \<^verbatim>\<open>close\<close>, \<^verbatim>\<open>dup\<close>, \<^verbatim>\<open>pipe\<close> and \<^verbatim>\<open>open\<close> as the process sees them.\<close>

definition sh_close :: "usize \<Rightarrow> fds \<Rightarrow> int \<times> fds" where
  "sh_close fd t =
     (if unat fd \<ge> length t then (- 1, t) else if t ! unat fd = None then (- 1, t) else (0, t[unat fd := None]))"

definition sh_dup :: "usize \<Rightarrow> fds \<Rightarrow> int \<times> fds" where
  "sh_dup fd t =
     (if unat fd \<ge> length t then (- 1, t)
      else case t ! unat fd of
        None \<Rightarrow> (- 1, t)
      | Some f \<Rightarrow> (case fd_install f t of (n, t) \<Rightarrow> (int n, t)))"

definition sh_pipe :: "nat \<Rightarrow> fds \<Rightarrow> (usize \<times> usize) \<times> fds" where
  "sh_pipe p t =
     (case fd_install (PipeFile p False) t of (r, t) \<Rightarrow>
      case fd_install (PipeFile p True) t of (w, t) \<Rightarrow> ((of_nat r, of_nat w), t))"

definition sh_open :: "kfile option \<Rightarrow> fds \<Rightarrow> int \<times> fds" where
  "sh_open r t = (case r of None \<Rightarrow> (- 1, t) | Some f \<Rightarrow> (case fd_install f t of (n, t) \<Rightarrow> (int n, t)))"

section \<open>A pipeline\<close>

text \<open>The loop that creates the pipes; \<open>ps\<close> are the pipes that the kernel makes.\<close>

fun create_pipes :: "nat list \<Rightarrow> fds \<Rightarrow> (usize \<times> usize) list \<times> fds" where
  "create_pipes [] t = ([], t)"
| "create_pipes (p # ps) t =
     (case sh_pipe p t of (pipe_fd, t) \<Rightarrow>
      case create_pipes ps t of (pipes_fd, t) \<Rightarrow> (pipe_fd # pipes_fd, t))"

definition close_pipes :: "(usize \<times> usize) list \<Rightarrow> fds \<Rightarrow> fds" where
  "close_pipes pipes_fd t = fold (\<lambda>(r, w) t. snd (sh_close w (snd (sh_close r t)))) pipes_fd t"

text \<open>
  How a child ends its part of \<^verbatim>\<open>main\<close>: it prints a message and returns, or it calls \<^verbatim>\<open>exec\<close>. When \<^verbatim>\<open>exec\<close>
  fails, the child goes on as \<open>exec_failed\<close>.
\<close>

datatype child_end = Returns string int fds | Execs string "string option list" fds

fun exec_failed :: "child_end \<Rightarrow> child_end" where
  "exec_failed (Execs path args t) = Returns (''Error when executing!'' @ [LF]) (- 4) t"
| "exec_failed e = e"

text \<open>\<^verbatim>\<open>close\<close> the target, then \<^verbatim>\<open>assert_eq!(dup(fd), target)\<close>.\<close>

definition move_fd :: "usize \<Rightarrow> usize \<Rightarrow> fds \<Rightarrow> fds res" where
  "move_fd fd target t =
     (case sh_dup fd (snd (sh_close target t)) of (r, t) \<Rightarrow>
      bind_res (assert_that (r = sint target)) (\<lambda>_. Ok t))"

text \<open>
  A redirection: nothing for an empty name; otherwise the file is opened (\<open>r\<close> is what the kernel finds or
  creates), moved to the target and closed. \<^const>\<open>Inl\<close> is the early return.
\<close>

definition redirect :: "string \<Rightarrow> kfile option \<Rightarrow> usize \<Rightarrow> fds \<Rightarrow> (child_end + fds) res" where
  "redirect name r target t =
     (if name = [] then Ok (Inr t)
      else case sh_open r t of (fd, t) \<Rightarrow>
        if fd = - 1 then Ok (Inl (Returns (''Error when opening file '' @ name @ [LF]) (- 4) t))
        else bind_res (move_fd (word_of_int fd) target t) (\<lambda>t. Ok (Inr (snd (sh_close (word_of_int fd) t)))))"

text \<open>\<open>opened name flags\<close> is what \<^verbatim>\<open>open\<close> finds; \<open>n\<close> is the number of commands and \<open>i\<close> the index of this one.\<close>

definition run_child ::
    "(string \<Rightarrow> u32 \<Rightarrow> kfile option) \<Rightarrow> nat \<Rightarrow> nat \<Rightarrow> ProcessArguments \<Rightarrow> (usize \<times> usize) list \<Rightarrow> fds \<Rightarrow> child_end res" where
  "run_child opened n i p pipes_fd t =
     bind_res (redirect (pa_input p) (opened (pa_input p) RDONLY) 0 t) (\<lambda>q. case q of Inl e \<Rightarrow> Ok e | Inr t \<Rightarrow>
     bind_res (redirect (pa_output p) (opened (pa_output p) (CREATE OR WRONLY)) 1 t) (\<lambda>q. case q of Inl e \<Rightarrow> Ok e | Inr t \<Rightarrow>
     bind_res (if i > 0 then (if i - 1 < length pipes_fd then move_fd (fst (pipes_fd ! (i - 1))) 0 t else Panic UnwrapNone)
               else Ok t) (\<lambda>t.
     bind_res (if i < n - 1 then (if i < length pipes_fd then move_fd (snd (pipes_fd ! i)) 1 t else Panic UnwrapNone)
               else Ok t) (\<lambda>t.
     let t = close_pipes pipes_fd t in
     bind_res (if args_copy p = [] then Panic OutOfBounds else Ok (hd (args_copy p))) (\<lambda>path.
     Ok (Execs path (args_addr p) t))))))"

text \<open>
  A line that is run: the children in the order they are forked, each with the table that \<^verbatim>\<open>fork\<close> copies, and
  the table of the shell after it has closed its ends of the pipes. \<^const>\<open>None\<close> stands for the message that the
  redirections cannot be bound. \<open>ids j\<close> is the \<open>j\<close>-th pipe that the kernel makes.
\<close>

definition run_line ::
    "(string \<Rightarrow> u32 \<Rightarrow> kfile option) \<Rightarrow> (nat \<Rightarrow> nat) \<Rightarrow> string \<Rightarrow> fds \<Rightarrow> (child_end res list \<times> fds) option res" where
  "run_line opened ids line t =
     bind_res (parse_line line) (\<lambda>ps.
     if \<not> redirections_valid ps then Ok None
     else case create_pipes (map ids [0..<length ps - 1]) t of (pipes_fd, t) \<Rightarrow>
       Ok (Some (map (\<lambda>(i, p). run_child opened (length ps) i p pipes_fd t) (enumerate 0 ps), close_pipes pipes_fd t)))"


section \<open>The calls of the shell are the system calls\<close>

lemma sys_close_fds:
  assumes "current_task k = Ok t" and "set_task t k = k"
  shows "sys_close fd k = (case sh_close fd (fd_table t) of (r, tab) \<Rightarrow> Ok (Value r, set_task (t\<lparr>fd_table := tab\<rparr>) k))"
  using assms by (auto simp: sys_close_def sh_close_def)

lemma sys_dup_fds:
  assumes "current_task k = Ok t" and "set_task t k = k"
  shows "sys_dup fd k = (case sh_dup fd (fd_table t) of (r, tab) \<Rightarrow> Ok (Value r, set_task (t\<lparr>fd_table := tab\<rparr>) k))"
  using assms by (auto simp: sys_dup_def sh_dup_def install_fd_def fd_install_def split: option.splits prod.splits)

section \<open>Tables without gaps\<close>

lemma find_index_full: "None \<notin> set b \<Longrightarrow> find_index (\<lambda>f. f = None) (b @ None # c) = Some (length b)"
proof (induction b)
  case (Cons a b)
  then show ?case by (cases a) auto
qed simp

lemma find_index_full_None: "None \<notin> set b \<Longrightarrow> find_index (\<lambda>f. f = None) b = None"
proof (induction b)
  case (Cons a b)
  then show ?case by (cases a) auto
qed simp

lemma fd_install_full:
  assumes "None \<notin> set b"
  shows "fd_install f (b @ replicate m None) = (length b, b @ Some f # replicate (m - 1) None)"
  using assms find_index_full [OF assms, of "replicate (m - 1) None"] find_index_full_None [OF assms]
  by (cases m) (auto simp: fd_install_def alloc_fd_def)

lemma fd_install_gap:
  assumes "None \<notin> set b" and "i < length b"
  shows "fd_install f (b[i := None] @ c) = (i, b[i := Some f] @ c)"
proof -
  have e: "b[i := None] @ c = take i b @ None # (drop (Suc i) b @ c)" using assms(2) by (simp add: upd_conv_take_nth_drop)
  have "None \<notin> set (take i b)" using assms(1) by (auto dest: in_set_takeD)
  from find_index_full [OF this, of "drop (Suc i) b @ c"] have "alloc_fd (b[i := None] @ c) = (i, b[i := None] @ c)"
    unfolding e using assms(2) by (simp add: alloc_fd_def)
  then show ?thesis using assms(2) by (simp add: fd_install_def list_update_append)
qed

lemma unat_fd: "n < 2 ^ 63 \<Longrightarrow> unat (of_nat n :: usize) = n"
  by (simp add: unat_of_nat_64)

definition standard_fd :: "usize \<Rightarrow> bool" where
  "standard_fd d = (d = 0 \<or> d = 1)"

lemma move_fd_full:
  assumes full: "None \<notin> set b" and d: "standard_fd d" "unat d < j" and j: "j < length b" "j < 2 ^ 63"
  shows "move_fd (of_nat j) d (b @ c) = Ok (b[unat d := b ! j] @ c)"
proof -
  obtain f where f: "b ! j = Some f" using full j(1) by (metis nth_mem not_None_eq)
  obtain g where g: "b ! unat d = Some g" using full j(1) d(2) by (metis nth_mem not_None_eq less_trans)
  have "sh_close d (b @ c) = (0, b[unat d := None] @ c)" using d j g by (simp add: sh_close_def nth_append list_update_append)
  moreover have "sh_dup (of_nat j) (b[unat d := None] @ c) = (int (unat d), b[unat d := Some f] @ c)"
    using d j f fd_install_gap [OF full, of "unat d" f c] by (simp add: sh_dup_def unat_fd nth_append)
  moreover have "sint d = int (unat d)" using d(1) by (auto simp: standard_fd_def)
  ultimately show ?thesis using f by (simp add: move_fd_def)
qed

lemma redirect_full:
  assumes full: "None \<notin> set b" and d: "standard_fd d" "unat d < length b" and len: "length b < 2 ^ 63" and name: "name \<noteq> []"
  shows "redirect name (Some f) d (b @ replicate m None) = Ok (Inr (b[unat d := Some f] @ replicate (max m 1) None))"
proof -
  have full': "None \<notin> set (b @ [Some f])" using full by simp
  have "sh_open (Some f) (b @ replicate m None) = (int (length b), (b @ [Some f]) @ replicate (m - 1) None)"
    using fd_install_full [OF full] by (simp add: sh_open_def)
  moreover have "move_fd (of_nat (length b)) d ((b @ [Some f]) @ replicate (m - 1) None) =
      Ok ((b @ [Some f])[unat d := Some f] @ replicate (m - 1) None)"
    using move_fd_full [OF full' d(1) d(2), of "replicate (m - 1) None"] len by simp
  moreover have "sh_close (of_nat (length b)) ((b @ [Some f])[unat d := Some f] @ replicate (m - 1) None) =
      (0, b[unat d := Some f] @ None # replicate (m - 1) None)"
    using d(2) len by (simp add: sh_close_def unat_fd nth_append list_update_append)
  moreover have "None # replicate (m - 1) None = replicate (max m 1) None" by (cases m) (simp_all add: max_def)
  ultimately show ?thesis using name by (simp add: redirect_def)
qed


section \<open>Creating and closing the pipes\<close>

definition pipe_ends :: "nat list \<Rightarrow> fds" where
  "pipe_ends ps = concat (map (\<lambda>p. [Some (PipeFile p False), Some (PipeFile p True)]) ps)"

lemma pipe_ends_simps [simp]:
  "pipe_ends [] = []" "pipe_ends (p # ps) = Some (PipeFile p False) # Some (PipeFile p True) # pipe_ends ps"
  "length (pipe_ends ps) = 2 * length ps" "None \<notin> set (pipe_ends ps)"
  by (induction ps) (auto simp: pipe_ends_def)

definition fd_pairs :: "nat \<Rightarrow> nat \<Rightarrow> (usize \<times> usize) list" where
  "fd_pairs l n = map (\<lambda>j. (of_nat (l + 2 * j), of_nat (l + 2 * j + 1))) [0..<n]"

lemma fd_pairs_Suc: "fd_pairs l (Suc n) = (of_nat l, of_nat (l + 1)) # fd_pairs (l + 2) n"
  by (simp only: fd_pairs_def upt_conv_Cons [OF zero_less_Suc] map_Suc_upt [symmetric] list.map map_map) (simp add: comp_def)

lemma pipe_ends_nth:
  assumes "j < length ps"
  shows "pipe_ends ps ! (2 * j) = Some (PipeFile (ps ! j) False)" "pipe_ends ps ! Suc (2 * j) = Some (PipeFile (ps ! j) True)"
proof -
  have "pipe_ends ps ! (2 * j) = Some (PipeFile (ps ! j) False) \<and> pipe_ends ps ! Suc (2 * j) = Some (PipeFile (ps ! j) True)"
    using assms
  proof (induction ps arbitrary: j)
    case (Cons p ps)
    then show ?case by (cases j) auto
  qed simp
  then show "pipe_ends ps ! (2 * j) = Some (PipeFile (ps ! j) False)" "pipe_ends ps ! Suc (2 * j) = Some (PipeFile (ps ! j) True)"
    by auto
qed

lemma create_pipes_full:
  assumes "None \<notin> set b"
  shows "create_pipes ps (b @ replicate m None) =
    (fd_pairs (length b) (length ps), b @ pipe_ends ps @ replicate (m - 2 * length ps) None)"
  using assms
proof (induction ps arbitrary: b m)
  case Nil
  then show ?case by (simp add: fd_pairs_def)
next
  case (Cons p ps)
  let ?b = "b @ [Some (PipeFile p False), Some (PipeFile p True)]"
  have "sh_pipe p (b @ replicate m None) = ((of_nat (length b), of_nat (length b + 1)), ?b @ replicate (m - 1 - 1) None)"
    using fd_install_full [OF Cons.prems, of "PipeFile p False" m]
      fd_install_full [of "b @ [Some (PipeFile p False)]" "PipeFile p True" "m - 1"] Cons.prems
    by (simp add: sh_pipe_def)
  then show ?case using Cons.IH [of ?b "m - 1 - 1"] Cons.prems by (simp add: fd_pairs_Suc)
qed

lemma close_pipes_full:
  assumes "length b + 2 * length ps < 2 ^ 63"
  shows "close_pipes (fd_pairs (length b) (length ps)) (b @ pipe_ends ps @ c) = b @ replicate (2 * length ps) None @ c"
  using assms
proof (induction ps arbitrary: b)
  case Nil
  then show ?case by (simp add: fd_pairs_def close_pipes_def)
next
  case (Cons p ps)
  let ?t = "b @ pipe_ends (p # ps) @ c" and ?b = "b @ [None, None]"
  have "snd (sh_close (of_nat (length b)) ?t) = b @ None # Some (PipeFile p True) # pipe_ends ps @ c"
    using Cons.prems by (simp add: sh_close_def unat_fd nth_append list_update_append)
  moreover have "snd (sh_close (of_nat (length b + 1)) (b @ None # Some (PipeFile p True) # pipe_ends ps @ c)) = ?b @ pipe_ends ps @ c"
    using Cons.prems unat_fd [of "length b + 1"] by (simp add: sh_close_def nth_append list_update_append)
  ultimately have "close_pipes (fd_pairs (length b) (length (p # ps))) ?t =
      close_pipes (fd_pairs (length ?b) (length ps)) (?b @ pipe_ends ps @ c)"
    by (simp add: close_pipes_def fd_pairs_Suc)
  then show ?case using Cons.IH [of ?b] Cons.prems by simp
qed


section \<open>Wiring a child\<close>

lemma redirect_cases:
  assumes full: "None \<notin> set b" and d: "standard_fd d" "unat d < length b" and len: "length b < 2 ^ 63"
    and r: "name \<noteq> [] \<longrightarrow> r \<noteq> None"
  shows "redirect name r d (b @ replicate m None) =
    Ok (Inr (b[unat d := if name = [] then b ! unat d else r] @ replicate (if name = [] then m else max m 1) None))"
proof (cases "name = []")
  case True
  then show ?thesis by (simp add: redirect_def)
next
  case False
  then obtain f where "r = Some f" using r by auto
  then show ?thesis using redirect_full [OF full d len False, of f m] False by simp
qed

lemma redirect_fails:
  assumes "name \<noteq> []"
  shows "redirect name None d t = Ok (Inl (Returns (''Error when opening file '' @ name @ [LF]) (- 4) t))"
  using assms by (simp add: redirect_def sh_open_def)

definition child_stdin :: "(string \<Rightarrow> u32 \<Rightarrow> kfile option) \<Rightarrow> nat list \<Rightarrow> nat \<Rightarrow> ProcessArguments \<Rightarrow> kfile option" where
  "child_stdin opened ps i p =
     (if i > 0 then Some (PipeFile (ps ! (i - 1)) False)
      else if pa_input p \<noteq> [] then opened (pa_input p) RDONLY else Some Stdin)"

definition child_stdout :: "(string \<Rightarrow> u32 \<Rightarrow> kfile option) \<Rightarrow> nat list \<Rightarrow> nat \<Rightarrow> ProcessArguments \<Rightarrow> kfile option" where
  "child_stdout opened ps i p =
     (if i < length ps then Some (PipeFile (ps ! i) True)
      else if pa_output p \<noteq> [] then opened (pa_output p) (CREATE OR WRONLY) else Some Stdout)"

lemma run_child_wired:
  assumes n: "n = Suc (length ps)" "i < n" "n < 2 ^ 60" and cmd: "args_copy p \<noteq> []"
    and ri: "pa_input p \<noteq> [] \<longrightarrow> opened (pa_input p) RDONLY \<noteq> None"
    and ro: "pa_output p \<noteq> [] \<longrightarrow> opened (pa_output p) (CREATE OR WRONLY) \<noteq> None"
  shows "\<exists>k. run_child opened n i p (fd_pairs 3 (length ps)) ([Some Stdin, Some Stdout, Some Stdout] @ pipe_ends ps @ replicate m None) =
    Ok (Execs (hd (args_copy p)) (args_addr p)
      ([child_stdin opened ps i p, child_stdout opened ps i p, Some Stdout] @ replicate k None))"
proof -
  let ?E = "pipe_ends ps" and ?P = "fd_pairs 3 (length ps)"
  have len: "3 + 2 * length ps < 2 ^ 63" using n by simp
  define in0 where "in0 = (if pa_input p = [] then Some Stdin else opened (pa_input p) RDONLY)"
  define out0 where "out0 = (if pa_output p = [] then Some Stdout else opened (pa_output p) (CREATE OR WRONLY))"
  have some: "in0 \<noteq> None" "out0 \<noteq> None" using ri ro by (auto simp: in0_def out0_def)
  obtain m1 where m1: "redirect (pa_input p) (opened (pa_input p) RDONLY) 0 ([Some Stdin, Some Stdout, Some Stdout] @ ?E @ replicate m None) =
      Ok (Inr ([in0, Some Stdout, Some Stdout] @ ?E @ replicate m1 None))"
    using redirect_cases [of "[Some Stdin, Some Stdout, Some Stdout] @ ?E" 0 "pa_input p" _ m] ri len
    by (auto simp: standard_fd_def in0_def)
  obtain m2 where m2: "redirect (pa_output p) (opened (pa_output p) (CREATE OR WRONLY)) 1 ([in0, Some Stdout, Some Stdout] @ ?E @ replicate m1 None) =
      Ok (Inr ([in0, out0, Some Stdout] @ ?E @ replicate m2 None))"
    using redirect_cases [of "[in0, Some Stdout, Some Stdout] @ ?E" 1 "pa_output p" _ m1] ro len some(1)
    by (auto simp: standard_fd_def out0_def)
  have pi: "(if i > 0 then (if i - 1 < length ?P then move_fd (fst (?P ! (i - 1))) 0 ([in0, out0, Some Stdout] @ ?E @ replicate m2 None)
       else Panic UnwrapNone) else Ok ([in0, out0, Some Stdout] @ ?E @ replicate m2 None)) =
     Ok ([child_stdin opened ps i p, out0, Some Stdout] @ ?E @ replicate m2 None)"
  proof (cases "i > 0")
    case True
    have j: "i - 1 < length ps" using n True by simp
    have "move_fd (of_nat (3 + 2 * (i - 1))) 0 (([in0, out0, Some Stdout] @ ?E) @ replicate m2 None) =
        Ok (([in0, out0, Some Stdout] @ ?E)[0 := ([in0, out0, Some Stdout] @ ?E) ! (3 + 2 * (i - 1))] @ replicate m2 None)"
      by (rule move_fd_full [where d = 0, simplified]) (use some j len in \<open>auto simp: standard_fd_def\<close>)
    then show ?thesis using True j pipe_ends_nth(1) [OF j] by (simp add: fd_pairs_def child_stdin_def)
  qed (simp add: child_stdin_def in0_def)
  have some1: "child_stdin opened ps i p \<noteq> None" using ri by (simp add: child_stdin_def)
  have po: "(if i < n - 1 then (if i < length ?P then move_fd (snd (?P ! i)) 1 ([child_stdin opened ps i p, out0, Some Stdout] @ ?E @ replicate m2 None)
       else Panic UnwrapNone) else Ok ([child_stdin opened ps i p, out0, Some Stdout] @ ?E @ replicate m2 None)) =
     Ok ([child_stdin opened ps i p, child_stdout opened ps i p, Some Stdout] @ ?E @ replicate m2 None)"
  proof (cases "i < length ps")
    case True
    have "move_fd (of_nat (3 + 2 * i + 1)) 1 (([child_stdin opened ps i p, out0, Some Stdout] @ ?E) @ replicate m2 None) =
        Ok (([child_stdin opened ps i p, out0, Some Stdout] @ ?E)[1 := ([child_stdin opened ps i p, out0, Some Stdout] @ ?E) ! (3 + 2 * i + 1)] @ replicate m2 None)"
      by (rule move_fd_full [where d = 1, unfolded unat_1]) (use some some1 True len in \<open>auto simp: standard_fd_def\<close>)
    then show ?thesis using True n(1) pipe_ends_nth(2) [OF True] by (simp add: fd_pairs_def child_stdout_def)
  qed (use n in \<open>simp add: child_stdout_def out0_def\<close>)
  have cl: "close_pipes ?P ([child_stdin opened ps i p, child_stdout opened ps i p, Some Stdout] @ ?E @ replicate m2 None) =
      [child_stdin opened ps i p, child_stdout opened ps i p, Some Stdout] @ replicate (2 * length ps + m2) None"
    using close_pipes_full [of "[child_stdin opened ps i p, child_stdout opened ps i p, Some Stdout]" ps "replicate m2 None"] len
    by (simp add: replicate_add numeral_3_eq_3)
  show ?thesis
    unfolding run_child_def m1 m2 bind_res.simps sum.case pi po cl Let_def using cmd by auto
qed


section \<open>Words of a command\<close>

text \<open>The arguments that \<^verbatim>\<open>ProcessArguments::new\<close> starts from: the words between blanks.\<close>

definition words :: "string \<Rightarrow> string list" where
  "words command = filter (\<lambda>arg. arg \<noteq> []) (str_split CHR '' '' command)"

lemma str_split_ne [simp]: "str_split d cs \<noteq> []"
  by (induction cs) (auto split: list.splits)

lemma str_split_word:
  assumes "d \<notin> set w"
  shows "str_split d w = [w]" and "str_split d (w @ d # cs) = w # str_split d cs"
  using assms by (induction w) auto

lemma words_simps:
  "words [] = []" "words (CHR '' '' # cs) = words cs"
  by (simp_all add: words_def)

lemma words_word:
  assumes "CHR '' '' \<notin> set w" and "w \<noteq> []"
  shows "words w = [w]" "words (w @ CHR '' '' # cs) = w # words cs"
  using str_split_word [OF assms(1)] assms(2) by (simp_all add: words_def)

text \<open>
  Any number of blanks before and after the words, and at least one between two of them: every command is
  written like this.
\<close>

fun spaced :: "(nat \<times> string) list \<Rightarrow> nat \<Rightarrow> string" where
  "spaced [] n = replicate n CHR '' ''"
| "spaced [(k, w)] n = replicate k CHR '' '' @ w @ replicate n CHR '' ''"
| "spaced ((k, w) # kw # ws) n = replicate k CHR '' '' @ w @ CHR '' '' # spaced (kw # ws) n"

definition words_ok :: "(nat \<times> string) list \<Rightarrow> bool" where
  "words_ok ws = (\<forall>(k, w) \<in> set ws. w \<noteq> [] \<and> CHR '' '' \<notin> set w)"

lemma words_ok_simps [simp]:
  "words_ok []" "words_ok ((k, w) # ws) \<longleftrightarrow> w \<noteq> [] \<and> CHR '' '' \<notin> set w \<and> words_ok ws"
  by (auto simp: words_ok_def)

lemma words_blanks: "words (replicate n CHR '' '' @ cs) = words cs" "words (replicate n CHR '' '') = []"
  by (induction n) (simp_all add: words_simps)

lemma words_last: "\<lbrakk>CHR '' '' \<notin> set w; w \<noteq> []\<rbrakk> \<Longrightarrow> words (w @ replicate n CHR '' '') = [w]"
  by (cases n) (simp_all add: words_word words_blanks(2))

lemma words_spaced: "words_ok ws \<Longrightarrow> words (spaced ws n) = map snd ws"
  by (induction ws n rule: spaced.induct) (simp_all add: words_blanks words_last words_word)

lemma spaced_blank: "\<exists>vs m. words_ok vs \<and> CHR '' '' # spaced ws n = spaced vs m" if "words_ok ws"
proof (cases ws)
  case Nil
  then show ?thesis by (intro exI [of _ "[]"] exI [of _ "Suc n"]) simp
next
  case (Cons kw ws')
  obtain k w where "kw = (k, w)" by (cases kw)
  with Cons that show ?thesis by (intro exI [of _ "(Suc k, w) # ws'"] exI [of _ n]) (cases ws'; simp)
qed

lemma spaced_char:
  assumes "words_ok ws" and c: "c \<noteq> CHR '' ''"
  shows "\<exists>vs m. words_ok vs \<and> c # spaced ws n = spaced vs m"
proof (cases ws)
  case Nil
  then show ?thesis using c by (intro exI [of _ "[(0, [c])]"] exI [of _ n]) simp
next
  case (Cons kw ws')
  obtain k w where kw: "kw = (k, w)" by (cases kw)
  show ?thesis
  proof (cases k)
    case 0
    with Cons kw assms show ?thesis by (intro exI [of _ "(0, c # w) # ws'"] exI [of _ n]) (cases ws'; simp)
  next
    case (Suc k')
    with Cons kw assms show ?thesis
      by (intro exI [of _ "(0, [c]) # (k', w) # ws'"] exI [of _ n]) (cases ws'; simp)
  qed
qed

lemma spaced_all: "\<exists>ws n. words_ok ws \<and> command = spaced ws n"
proof (induction command)
  case Nil
  show ?case by (intro exI [of _ "[]"] exI [of _ 0]) simp
next
  case (Cons c cs)
  then show ?case using spaced_blank spaced_char by (cases "c = CHR '' ''") blast+
qed

lemma find_index_first:
  assumes "\<forall>a \<in> set as. \<not> P a" and "P x"
  shows "find_index P (as @ x # bs) = Some (length as)"
  using assms by (induction as) auto

lemma find_index_absent: "\<forall>a \<in> set as. \<not> P a \<Longrightarrow> find_index P as = None"
  by (induction as) auto

lemma take_redirect_present:
  assumes "x \<notin> set as"
  shows "take_redirect x (as @ x # f # bs) = Ok (f, as @ bs)"
proof -
  have "find_index (\<lambda>a. a = x) (as @ x # f # bs) = Some (length as)" by (rule find_index_first) (use assms in auto)
  then show ?thesis by (simp add: take_redirect_def nth_append)
qed

lemma take_redirect_absent:
  assumes "x \<notin> set as"
  shows "take_redirect x as = Ok ([], as)"
proof -
  have "find_index (\<lambda>a. a = x) as = None" by (rule find_index_absent) (use assms in auto)
  then show ?thesis by (simp add: take_redirect_def)
qed

lemma take_redirect_dangling:
  assumes "x \<notin> set as"
  shows "take_redirect x (as @ [x]) = Panic OutOfBounds"
proof -
  have "find_index (\<lambda>a. a = x) (as @ [x]) = Some (length as)" by (rule find_index_first) (use assms in auto)
  then show ?thesis by (simp add: take_redirect_def)
qed

definition zstr :: "string \<Rightarrow> string" where
  "zstr w = w @ [NUL]"

lemma zstr_mem: "zstr w \<in> zstr ` set ws \<longleftrightarrow> w \<in> set ws"
  by (auto simp: zstr_def)

lemma ProcessArguments_new_words:
  "ProcessArguments_new command =
     bind_res (take_redirect (zstr ''<'') (map zstr (words command))) (\<lambda>(input, args).
     bind_res (take_redirect (zstr ''>'') args) (\<lambda>(output, args).
     Ok \<lparr>pa_input = input, pa_output = output, args_copy = args, args_addr = map Some args @ [None]\<rparr>))"
  by (simp add: ProcessArguments_new_def words_def zstr_def [abs_def] Let_def)

end
