(* ===== verification/ShellProperties.thy ===== *)
theory ShellProperties
  imports Shell
begin

text \<open>
  What the shell promises: the arguments it makes of a line, and the descriptors it gives to the processes of
  a pipeline.
\<close>

lemma enumerate_nth: "i < length xs \<Longrightarrow> enumerate 0 xs ! i = (i, xs ! i)"
  by (simp add: nth_enumerate_eq)

text \<open>
  C12: pipelines. For a line that parses and binds its redirections, every child of the pipeline reaches
  \<^verbatim>\<open>exec\<close> with its command and arguments, none of the assertions on \<^verbatim>\<open>dup\<close> fails, and its descriptors are exactly
  these: the standard input is the read end of the pipe from its predecessor, or the file it redirects from,
  or the console; the standard output is the write end of the pipe to its successor, or the file it redirects
  to, or the console; the standard error is the console; and no other descriptor is open. So no child keeps
  an end of a pipe that is not its own, and the shell itself ends with the three descriptors it began with.
\<close>

theorem shell_pipeline_wired:
  assumes parse: "parse_line line = Ok ps" and valid: "redirections_valid ps" and small: "length ps < 2 ^ 60"
  shows "\<exists>cs k. run_line opened ids line ([Some Stdin, Some Stdout, Some Stdout] @ replicate m None) =
      Ok (Some (cs, [Some Stdin, Some Stdout, Some Stdout] @ replicate k None)) \<and> length cs = length ps \<and>
    (\<forall>i p. i < length ps \<longrightarrow> p = ps ! i \<longrightarrow> args_copy p \<noteq> [] \<longrightarrow>
       (pa_input p \<noteq> [] \<longrightarrow> opened (pa_input p) RDONLY \<noteq> None) \<longrightarrow>
       (pa_output p \<noteq> [] \<longrightarrow> opened (pa_output p) (CREATE OR WRONLY) \<noteq> None) \<longrightarrow>
       (\<exists>k. cs ! i = Ok (Execs (hd (args_copy p)) (args_addr p)
          ([if i > 0 then Some (PipeFile (ids (i - 1)) False)
            else if pa_input p \<noteq> [] then opened (pa_input p) RDONLY else Some Stdin,
            if i < length ps - 1 then Some (PipeFile (ids i) True)
            else if pa_output p \<noteq> [] then opened (pa_output p) (CREATE OR WRONLY) else Some Stdout,
            Some Stdout] @ replicate k None))))"
proof -
  let ?std = "[Some Stdin, Some Stdout, Some Stdout]" and ?ids = "map ids [0..<length ps - 1]"
  have ne: "ps \<noteq> []" using parse by (cases "str_split CHR ''|'' line") (auto simp: parse_line_def res_simps)
  then have n: "length ps = Suc (length ?ids)" by simp
  have std: "None \<notin> set ?std" "length ?std = 3" by simp_all
  have cp: "create_pipes ?ids (?std @ replicate m None) =
      (fd_pairs 3 (length ?ids), ?std @ pipe_ends ?ids @ replicate (m - 2 * length ?ids) None)"
    using create_pipes_full [OF std(1), of ?ids m] unfolding std(2) .
  have cl: "close_pipes (fd_pairs 3 (length ?ids)) (?std @ pipe_ends ?ids @ replicate (m - 2 * length ?ids) None) =
      ?std @ replicate (2 * length ?ids + (m - 2 * length ?ids)) None"
    using close_pipes_full [of ?std ?ids "replicate (m - 2 * length ?ids) None"] small unfolding std(2) replicate_add by simp
  define cs where "cs = map (\<lambda>(i, p). run_child opened (length ps) i p (fd_pairs 3 (length ?ids))
      (?std @ pipe_ends ?ids @ replicate (m - 2 * length ?ids) None)) (enumerate 0 ps)"
  have run: "run_line opened ids line (?std @ replicate m None) =
      Ok (Some (cs, ?std @ replicate (2 * length ?ids + (m - 2 * length ?ids)) None))"
    unfolding run_line_def parse bind_res.simps cp prod.case cl cs_def using valid by simp
  have "\<exists>k. cs ! i = Ok (Execs (hd (args_copy p)) (args_addr p)
          ([if i > 0 then Some (PipeFile (ids (i - 1)) False)
            else if pa_input p \<noteq> [] then opened (pa_input p) RDONLY else Some Stdin,
            if i < length ps - 1 then Some (PipeFile (ids i) True)
            else if pa_output p \<noteq> [] then opened (pa_output p) (CREATE OR WRONLY) else Some Stdout,
            Some Stdout] @ replicate k None))"
    if i: "i < length ps" "p = ps ! i" and c: "args_copy p \<noteq> []" "pa_input p \<noteq> [] \<longrightarrow> opened (pa_input p) RDONLY \<noteq> None"
      "pa_output p \<noteq> [] \<longrightarrow> opened (pa_output p) (CREATE OR WRONLY) \<noteq> None" for i p
  proof -
    have e: "cs ! i = run_child opened (length ps) i p (fd_pairs 3 (length ?ids))
        (?std @ pipe_ends ?ids @ replicate (m - 2 * length ?ids) None)"
      using i by (simp add: cs_def enumerate_nth)
    have io: "child_stdin opened ?ids i p = (if i > 0 then Some (PipeFile (ids (i - 1)) False)
            else if pa_input p \<noteq> [] then opened (pa_input p) RDONLY else Some Stdin)"
      "child_stdout opened ?ids i p = (if i < length ps - 1 then Some (PipeFile (ids i) True)
            else if pa_output p \<noteq> [] then opened (pa_output p) (CREATE OR WRONLY) else Some Stdout)"
      using i(1) by (auto simp: child_stdin_def child_stdout_def)
    show ?thesis unfolding e io [symmetric] by (rule run_child_wired [OF n i(1) small c])
  qed
  moreover have "length cs = length ps" by (simp add: cs_def)
  ultimately show ?thesis using run by blast
qed

theorem shell_pipeline_wired_witness:
  "\<exists>cs k. run_line (\<lambda>_ _. Some (InodeFile 7)) (\<lambda>j. j + 40) ''cat < a|wc > b'' [Some Stdin, Some Stdout, Some Stdout] =
      Ok (Some (cs, [Some Stdin, Some Stdout, Some Stdout] @ replicate k None)) \<and>
    (\<exists>k. cs ! 1 = Ok (Execs (zstr ''wc'') [Some (zstr ''wc''), None]
       ([Some (PipeFile 40 False), Some (InodeFile 7), Some Stdout] @ replicate k None)))"
proof -
  define ps where "ps = [\<lparr>pa_input = zstr ''a'', pa_output = [], args_copy = [zstr ''cat''], args_addr = [Some (zstr ''cat''), None]\<rparr>,
    \<lparr>pa_input = [], pa_output = zstr ''b'', args_copy = [zstr ''wc''], args_addr = [Some (zstr ''wc''), None]\<rparr>]"
  have parse: "parse_line ''cat < a|wc > b'' = Ok ps"
    by (simp add: parse_line_def ProcessArguments_new_def ps_def zstr_def NUL_def take_redirect_def)
  have valid: "redirections_valid ps" "length ps < 2 ^ 60"
    by (simp_all add: redirections_valid_def ps_def check_one_def enumerate_eq_zip)
  from shell_pipeline_wired [OF parse valid, of "\<lambda>_ _. Some (InodeFile 7)" "\<lambda>j. j + 40" 0] obtain cs k where
    r: "run_line (\<lambda>_ _. Some (InodeFile 7)) (\<lambda>j. j + 40) ''cat < a|wc > b'' ([Some Stdin, Some Stdout, Some Stdout] @ replicate 0 None) =
      Ok (Some (cs, [Some Stdin, Some Stdout, Some Stdout] @ replicate k None))"
    and c: "\<forall>i p. i < length ps \<longrightarrow> p = ps ! i \<longrightarrow> args_copy p \<noteq> [] \<longrightarrow>
       (pa_input p \<noteq> [] \<longrightarrow> Some (InodeFile 7) \<noteq> None) \<longrightarrow> (pa_output p \<noteq> [] \<longrightarrow> Some (InodeFile 7) \<noteq> None) \<longrightarrow>
       (\<exists>k. cs ! i = Ok (Execs (hd (args_copy p)) (args_addr p)
          ([if i > 0 then Some (PipeFile (i - 1 + 40) False) else if pa_input p \<noteq> [] then Some (InodeFile 7) else Some Stdin,
            if i < length ps - 1 then Some (PipeFile (i + 40) True) else if pa_output p \<noteq> [] then Some (InodeFile 7) else Some Stdout,
            Some Stdout] @ replicate k None)))" by blast
  have "\<exists>k. cs ! 1 = Ok (Execs (zstr ''wc'') [Some (zstr ''wc''), None]
       ([Some (PipeFile 40 False), Some (InodeFile 7), Some Stdout] @ replicate k None))"
    using c [rule_format, of 1 "ps ! 1"] by (simp add: ps_def zstr_def)
  with r show ?thesis by auto
qed











end
