(* ===== verification/UserLib.thy ===== *)
theory UserLib
  imports UserSyscall
begin

text \<open>
  \<^verbatim>\<open>user/src/lib.rs\<close> and \<^verbatim>\<open>user/src/console.rs\<close>: the library that programs are linked with. What the rest of the
  system does to a call is an argument, \<open>sys\<close>, from a call and the state of the world to the value that the call
  returns and the state after it; a function of the library is a function of \<open>sys\<close>.
\<close>

type_synonym 'w sys = "user_call \<Rightarrow> 'w \<Rightarrow> int \<times> 'w"

section \<open>Calls\<close>

definition user_open :: "'w sys \<Rightarrow> usize \<Rightarrow> u32 \<Rightarrow> 'w \<Rightarrow> int \<times> 'w" where
  "user_open sys path flags = sys (UOpen path flags)"

definition user_openat :: "'w sys \<Rightarrow> usize \<Rightarrow> u32 \<Rightarrow> 'w \<Rightarrow> int \<times> 'w" where
  "user_openat sys path flags = sys (UOpenat USER_AT_FDCWD path flags (push_bit 1 1))"

definition user_read :: "'w sys \<Rightarrow> usize \<Rightarrow> usize \<times> usize \<Rightarrow> 'w \<Rightarrow> int \<times> 'w" where
  "user_read sys fd buf = sys (URead fd (fst buf) (snd buf))"

definition user_write :: "'w sys \<Rightarrow> usize \<Rightarrow> usize \<times> usize \<Rightarrow> 'w \<Rightarrow> int \<times> 'w" where
  "user_write sys fd buf = sys (UWrite fd (fst buf) (snd buf))"

definition user_link :: "'w sys \<Rightarrow> usize \<Rightarrow> usize \<Rightarrow> 'w \<Rightarrow> int \<times> 'w" where
  "user_link sys old_path new_path = sys (ULinkat USER_AT_FDCWD old_path USER_AT_FDCWD new_path 0)"

definition user_unlink :: "'w sys \<Rightarrow> usize \<Rightarrow> 'w \<Rightarrow> int \<times> 'w" where
  "user_unlink sys path = sys (UUnlinkat USER_AT_FDCWD path 0)"

section \<open>Waiting\<close>

text \<open>\<^verbatim>\<open>wait\<close> and \<^verbatim>\<open>waitpid\<close>: as long as the answer is -2, the process yields and asks again.\<close>

partial_function (option) wait_loop :: "'w sys \<Rightarrow> usize \<Rightarrow> usize \<Rightarrow> 'w \<Rightarrow> (int \<times> 'w) option" where
  "wait_loop sys pid code_ptr w = (case sys (UWaitpid pid code_ptr) w of (n, w) \<Rightarrow>
     if n = - 2 then (case sys UYield w of (_, w) \<Rightarrow> wait_loop sys pid code_ptr w) else Some (n, w))"

definition user_wait :: "'w sys \<Rightarrow> usize \<Rightarrow> 'w \<Rightarrow> (int \<times> 'w) option" where
  "user_wait sys code_ptr = wait_loop sys (- 1) code_ptr"

definition user_waitpid :: "'w sys \<Rightarrow> usize \<Rightarrow> usize \<Rightarrow> 'w \<Rightarrow> (int \<times> 'w) option" where
  "user_waitpid sys pid code_ptr = wait_loop sys pid code_ptr"

text \<open>The world after one round of the loop.\<close>

definition wait_round :: "'w sys \<Rightarrow> usize \<Rightarrow> usize \<Rightarrow> 'w \<Rightarrow> 'w" where
  "wait_round sys pid code_ptr w = snd (sys UYield (snd (sys (UWaitpid pid code_ptr) w)))"

text \<open>The loop returns the first answer that is not -2.\<close>

lemma wait_loop_returns:
  assumes "\<forall>i < n. fst (sys (UWaitpid pid ptr) ((wait_round sys pid ptr ^^ i) w)) = - 2"
    and "fst (sys (UWaitpid pid ptr) ((wait_round sys pid ptr ^^ n) w)) \<noteq> - 2"
  shows "wait_loop sys pid ptr w = Some (sys (UWaitpid pid ptr) ((wait_round sys pid ptr ^^ n) w))"
  using assms
proof (induction n arbitrary: w)
  case 0
  then show ?case by (subst wait_loop.simps) (cases "sys (UWaitpid pid ptr) w"; simp)
next
  case (Suc n)
  have s: "(wait_round sys pid ptr ^^ i) (wait_round sys pid ptr w) = (wait_round sys pid ptr ^^ Suc i) w" for i
    by (simp add: funpow_swap1)
  have "fst (sys (UWaitpid pid ptr) w) = - 2" using Suc.prems(1) by (metis funpow_0 zero_less_Suc)
  then have "wait_loop sys pid ptr w = wait_loop sys pid ptr (wait_round sys pid ptr w)"
    by (subst wait_loop.simps) (cases "sys (UWaitpid pid ptr) w"; cases "sys UYield (snd (sys (UWaitpid pid ptr) w))"; simp add: wait_round_def)
  also have "\<dots> = Some (sys (UWaitpid pid ptr) ((wait_round sys pid ptr ^^ n) (wait_round sys pid ptr w)))"
    by (rule Suc.IH) (use Suc.prems in \<open>auto simp: s simp del: funpow.simps\<close>)
  finally show ?case by (simp only: s)
qed

section \<open>Time\<close>

text \<open>
  \<^verbatim>\<open>get_time\<close> in milliseconds. \<open>time\<close> is the address of the structure and \<open>tv\<close> reads its fields \<^verbatim>\<open>sec\<close> and \<^verbatim>\<open>usec\<close>.
\<close>

definition get_time :: "'w sys \<Rightarrow> ('w \<Rightarrow> usize \<times> usize) \<Rightarrow> usize \<Rightarrow> 'w \<Rightarrow> usize \<times> 'w" where
  "get_time sys tv time w = (case sys (UGetTime time 0) w of (r, w) \<Rightarrow>
     (if r = 0 then (fst (tv w) AND 0xffff) * 1000 + snd (tv w) div 1000 else - 1, w))"

partial_function (option) sleep_loop :: "'w sys \<Rightarrow> ('w \<Rightarrow> usize \<times> usize) \<Rightarrow> usize \<Rightarrow> usize \<Rightarrow> 'w \<Rightarrow> 'w option" where
  "sleep_loop sys tv time wake w = (case get_time sys tv time w of (now, w) \<Rightarrow>
     if now <s wake then (case sys UYield w of (_, w) \<Rightarrow> sleep_loop sys tv time wake w) else Some w)"

definition sleep :: "'w sys \<Rightarrow> ('w \<Rightarrow> usize \<times> usize) \<Rightarrow> usize \<Rightarrow> usize \<Rightarrow> 'w \<Rightarrow> 'w option" where
  "sleep sys tv time period_ms w = (case get_time sys tv time w of (start, w) \<Rightarrow> sleep_loop sys tv time (start + period_ms) w)"

text \<open>The clock has 65536 seconds.\<close>

lemma clock_bound:
  fixes a b :: usize
  assumes a: "unat a \<le> 65535" and b: "unat b \<le> 999"
  shows "sint (a * 1000 + b) \<le> 65535999"
proof -
  have "unat (a * 1000) = unat a * unat (1000 :: usize)" by (rule iffD1 [OF unat_mult_lem]) (use a in simp)
  then have m: "unat (a * 1000) = unat a * 1000" by simp
  have "unat (a * 1000 + b) = unat (a * 1000) + unat b" by (rule iffD1 [OF unat_add_lem]) (use a b in \<open>simp add: m\<close>)
  then have "unat (a * 1000 + b) \<le> 65535999" using a b m by linarith
  then have "uint (a * 1000 + b) \<le> 65535999" by (metis of_nat_le_iff of_nat_numeral uint_nat)
  moreover from this have "signed_take_bit 63 (uint (a * 1000 + b)) = uint (a * 1000 + b)"
    by (intro signed_take_bit_int_eq_self order.trans [OF _ uint_ge_0]) simp_all
  ultimately show ?thesis by (simp add: sint_uint)
qed

lemma get_time_bound:
  assumes "unat (snd (tv (snd (sys (UGetTime time 0) w)))) < 1000000"
  shows "sint (fst (get_time sys tv time w)) \<le> 65535999"
proof (cases "fst (sys (UGetTime time 0) w) = 0")
  case True
  let ?sec = "fst (tv (snd (sys (UGetTime time 0) w)))" and ?us = "snd (tv (snd (sys (UGetTime time 0) w)))"
  have "unat (?sec AND 0xffff) = unat ?sec mod 65536"
    using mask_word [of ?sec 16] by (simp add: unat_mod take_bit_eq_mod)
  then have s: "unat (?sec AND 0xffff) \<le> 65535" by simp
  have u: "unat (?us div 1000) \<le> 999" using assms by (simp add: unat_div)
  show ?thesis using True clock_bound [OF s u] by (cases "sys (UGetTime time 0) w") (simp add: get_time_def)
next
  case False
  then show ?thesis by (cases "sys (UGetTime time 0) w") (simp add: get_time_def)
qed

text \<open>A wake-up time that the clock cannot reach is waited for for ever.\<close>

lemma sleep_loop_hangs:
  assumes "\<forall>w. unat (snd (tv w)) < 1000000" and "65535999 < sint wake"
  shows "sleep_loop sys tv time wake w = None"
proof -
  have "\<not> (sys' = sys \<and> tv' = tv \<and> time' = time \<and> wake' = wake)" if "sleep_loop sys' tv' time' wake' w = Some r" for sys' tv' time' wake' w r
  proof (rule sleep_loop.raw_induct [OF _ that, where P = "\<lambda>sys' tv' time' wake' w r. \<not> (sys' = sys \<and> tv' = tv \<and> time' = time \<and> wake' = wake)"])
    fix loop sys' tv' time' wake' w r
    assume ih: "\<And>sys' tv' time' wake' w r. loop sys' tv' time' wake' w = Some r \<Longrightarrow> \<not> (sys' = sys \<and> tv' = tv \<and> time' = time \<and> wake' = wake)"
      and run: "(case get_time sys' tv' time' w of (now, w) \<Rightarrow>
        if now <s wake' then (case sys' UYield w of (_, w) \<Rightarrow> loop sys' tv' time' wake' w) else Some w) = Some r"
    show "\<not> (sys' = sys \<and> tv' = tv \<and> time' = time \<and> wake' = wake)"
    proof
      assume e: "sys' = sys \<and> tv' = tv \<and> time' = time \<and> wake' = wake"
      have "sint (fst (get_time sys tv time w)) \<le> 65535999" by (rule get_time_bound) (use assms(1) in simp)
      then have lt: "fst (get_time sys tv time w) <s wake" using assms(2) by (simp add: word_sless_alt)
      obtain now w1 where g: "get_time sys tv time w = (now, w1)" by (cases "get_time sys tv time w")
      obtain x w2 where y: "sys UYield w1 = (x, w2)" by (cases "sys UYield w1")
      from lt g have "now <s wake" by simp
      then have "loop sys tv time wake w2 = Some r" using run g y e by simp
      from ih [OF this] show False by simp
    qed
  qed
  from this [of sys tv time wake w] show ?thesis by (cases "sleep_loop sys tv time wake w") blast+
qed

text \<open>The loop returns at the first reading of the clock that is not before the wake-up time.\<close>

definition sleep_round :: "'w sys \<Rightarrow> ('w \<Rightarrow> usize \<times> usize) \<Rightarrow> usize \<Rightarrow> 'w \<Rightarrow> 'w" where
  "sleep_round sys tv time w = snd (sys UYield (snd (get_time sys tv time w)))"

lemma sleep_loop_returns:
  assumes "\<forall>i < n. fst (get_time sys tv time ((sleep_round sys tv time ^^ i) w)) <s wake"
    and "\<not> fst (get_time sys tv time ((sleep_round sys tv time ^^ n) w)) <s wake"
  shows "sleep_loop sys tv time wake w = Some (snd (get_time sys tv time ((sleep_round sys tv time ^^ n) w)))"
  using assms
proof (induction n arbitrary: w)
  case 0
  then show ?case by (subst sleep_loop.simps) (cases "get_time sys tv time w"; simp)
next
  case (Suc n)
  have s: "(sleep_round sys tv time ^^ i) (sleep_round sys tv time w) = (sleep_round sys tv time ^^ Suc i) w" for i
    by (simp add: funpow_swap1)
  have "fst (get_time sys tv time w) <s wake" using Suc.prems(1) by (metis funpow_0 zero_less_Suc)
  then have "sleep_loop sys tv time wake w = sleep_loop sys tv time wake (sleep_round sys tv time w)"
    by (subst sleep_loop.simps)
       (cases "get_time sys tv time w"; cases "sys UYield (snd (get_time sys tv time w))"; simp add: sleep_round_def)
  also have "\<dots> = Some (snd (get_time sys tv time ((sleep_round sys tv time ^^ n) (sleep_round sys tv time w))))"
    by (rule Suc.IH) (use Suc.prems in \<open>auto simp: s simp del: funpow.simps\<close>)
  finally show ?case by (simp only: s)
qed

section \<open>The console\<close>

text \<open>
  \<^verbatim>\<open>ConsoleBuffer\<close>: the bytes that have been printed and not yet written. \<open>wr\<close> is \<^verbatim>\<open>write(STDOUT, _)\<close> on the bytes of a
  slice. The result of \<^verbatim>\<open>write_str\<close> says whether it was \<^verbatim>\<open>Ok\<close>.
\<close>

definition CONSOLE_BUFFER_SIZE :: nat where "CONSOLE_BUFFER_SIZE = 256 * 10"

type_synonym 'w console_writer = "u8 list \<Rightarrow> 'w \<Rightarrow> int \<times> 'w"

definition cb_flush :: "'w console_writer \<Rightarrow> u8 list \<times> 'w \<Rightarrow> int \<times> u8 list \<times> 'w" where
  "cb_flush wr st = (case st of (buf, w) \<Rightarrow> (case wr buf w of (ret, w) \<Rightarrow> (ret, [], w)))"

fun write_str :: "'w console_writer \<Rightarrow> u8 list \<Rightarrow> u8 list \<times> 'w \<Rightarrow> bool \<times> u8 list \<times> 'w" where
  "write_str wr [] st = (True, st)"
| "write_str wr (c # cs) (buf, w) = (let buf = buf @ [c] in
     if c = 10 \<or> length buf = CONSOLE_BUFFER_SIZE then (case cb_flush wr (buf, w) of (ret, st) \<Rightarrow>
       if ret = - 1 then (False, st) else write_str wr cs st)
     else write_str wr cs (buf, w))"

text \<open>\<^verbatim>\<open>write_fmt\<close> writes the pieces of the arguments and stops at the first error, which \<^verbatim>\<open>print\<close> drops.\<close>

fun write_fmt :: "'w console_writer \<Rightarrow> u8 list list \<Rightarrow> u8 list \<times> 'w \<Rightarrow> bool \<times> u8 list \<times> 'w" where
  "write_fmt wr [] st = (True, st)"
| "write_fmt wr (p # ps) st = (case write_str wr p st of (ok, st) \<Rightarrow> if ok then write_fmt wr ps st else (False, st))"

definition print :: "'w console_writer \<Rightarrow> u8 list list \<Rightarrow> u8 list \<times> 'w \<Rightarrow> u8 list \<times> 'w" where
  "print wr args st = (case write_fmt wr args st of (_, st) \<Rightarrow> snd (cb_flush wr st))"

definition console_flush :: "'w console_writer \<Rightarrow> u8 list \<times> 'w \<Rightarrow> u8 list \<times> 'w" where
  "console_flush wr st = snd (cb_flush wr st)"

text \<open>\<^verbatim>\<open>close\<close> and \<^verbatim>\<open>exit\<close> flush the console; \<open>st\<close> is the buffer with the world.\<close>

definition user_close :: "'w console_writer \<Rightarrow> 'w sys \<Rightarrow> usize \<Rightarrow> u8 list \<times> 'w \<Rightarrow> int \<times> u8 list \<times> 'w" where
  "user_close wr sys fd st = (case (if fd = 1 then console_flush wr st else st) of (buf, w) \<Rightarrow>
     (case sys (UClose fd) w of (r, w) \<Rightarrow> (r, buf, w)))"

definition user_exit :: "'w console_writer \<Rightarrow> 'w sys \<Rightarrow> 32 word \<Rightarrow> u8 list \<times> 'w \<Rightarrow> 'w" where
  "user_exit wr sys code st = (case console_flush wr st of (buf, w) \<Rightarrow> snd (sys (UExit code) w))"

text \<open>A world that remembers what was written; \<open>f\<close> gives the answer to each write.\<close>

definition logging :: "(u8 list list \<Rightarrow> u8 list \<Rightarrow> int) \<Rightarrow> u8 list list console_writer" where
  "logging f bytes log = (f log bytes, log @ [bytes])"

text \<open>What has been written and what is still in the buffer are together the bytes so far.\<close>

lemma cb_flush_logging: "cb_flush (logging f) (buf, log) = (f log buf, [], log @ [buf])"
  by (simp add: cb_flush_def logging_def)

lemma write_str_logging:
  assumes "write_str (logging f) cs (buf, log) = (ok, buf', log')" and "length buf < CONSOLE_BUFFER_SIZE"
  shows "\<exists>chunks. log' = log @ chunks \<and> length buf' < CONSOLE_BUFFER_SIZE \<and> (\<forall>c \<in> set chunks. length c \<le> CONSOLE_BUFFER_SIZE) \<and>
    (\<exists>rest. buf @ cs = concat chunks @ buf' @ rest \<and> (ok \<longrightarrow> rest = [])) \<and> (\<not> ok \<longrightarrow> buf' = []) \<and>
    ((\<forall>log b. f log b \<noteq> - 1) \<longrightarrow> ok)"
  using assms
proof (induction cs arbitrary: buf log)
  case (Cons c cs)
  let ?b = "buf @ [c]"
  show ?case
  proof (cases "c = 10 \<or> length ?b = CONSOLE_BUFFER_SIZE")
    case False
    then have "write_str (logging f) cs (?b, log) = (ok, buf', log')" using Cons.prems(1) by (auto simp: Let_def)
    moreover have "length ?b < CONSOLE_BUFFER_SIZE" using False Cons.prems(2) by auto
    ultimately show ?thesis using Cons.IH [of ?b log] by simp
  next
    case fl: True
    show ?thesis
    proof (cases "f log ?b = - 1")
      case True
      then have "ok = False" "buf' = []" "log' = log @ [?b]"
        using fl Cons.prems(1) by (auto simp: Let_def cb_flush_logging)
      then show ?thesis using True Cons.prems(2) by (intro exI [of _ "[?b]"]) auto
    next
      case False
      then have "write_str (logging f) cs ([], log @ [?b]) = (ok, buf', log')"
        using fl Cons.prems(1) by (auto simp: Let_def cb_flush_logging)
      from Cons.IH [OF this] obtain chunks where c: "log' = (log @ [?b]) @ chunks" "length buf' < CONSOLE_BUFFER_SIZE"
        "\<forall>c \<in> set chunks. length c \<le> CONSOLE_BUFFER_SIZE" "\<exists>rest. cs = concat chunks @ buf' @ rest \<and> (ok \<longrightarrow> rest = [])"
        "\<not> ok \<longrightarrow> buf' = []" "(\<forall>log b. f log b \<noteq> - 1) \<longrightarrow> ok" by (auto simp: CONSOLE_BUFFER_SIZE_def)
      then show ?thesis using Cons.prems(2) by (intro exI [of _ "?b # chunks"]) auto
    qed
  qed
qed (auto intro: exI [of _ "[]"])

lemma write_fmt_logging:
  assumes "write_fmt (logging f) ps (buf, log) = (ok, buf', log')" and "length buf < CONSOLE_BUFFER_SIZE"
  shows "\<exists>chunks. log' = log @ chunks \<and> length buf' < CONSOLE_BUFFER_SIZE \<and> (\<forall>c \<in> set chunks. length c \<le> CONSOLE_BUFFER_SIZE) \<and>
    (\<exists>rest. buf @ concat ps = concat chunks @ buf' @ rest \<and> (ok \<longrightarrow> rest = [])) \<and> (\<not> ok \<longrightarrow> buf' = []) \<and>
    ((\<forall>log b. f log b \<noteq> - 1) \<longrightarrow> ok)"
  using assms
proof (induction ps arbitrary: buf log)
  case (Cons p ps)
  obtain ok1 b1 l1 where w: "write_str (logging f) p (buf, log) = (ok1, b1, l1)" by (cases "write_str (logging f) p (buf, log)") auto
  from write_str_logging [OF w Cons.prems(2)] obtain c1 r1 where c1: "l1 = log @ c1" "length b1 < CONSOLE_BUFFER_SIZE"
    "\<forall>c \<in> set c1. length c \<le> CONSOLE_BUFFER_SIZE" "buf @ p = concat c1 @ b1 @ r1" "ok1 \<longrightarrow> r1 = []" "\<not> ok1 \<longrightarrow> b1 = []"
    "(\<forall>log b. f log b \<noteq> - 1) \<longrightarrow> ok1" by blast
  show ?case
  proof (cases ok1)
    case True
    then have "write_fmt (logging f) ps (b1, l1) = (ok, buf', log')" using Cons.prems(1) w by simp
    from Cons.IH [OF this c1(2)] obtain c2 r2 where c2: "log' = l1 @ c2" "length buf' < CONSOLE_BUFFER_SIZE"
      "\<forall>c \<in> set c2. length c \<le> CONSOLE_BUFFER_SIZE" "b1 @ concat ps = concat c2 @ buf' @ r2" "ok \<longrightarrow> r2 = []" "\<not> ok \<longrightarrow> buf' = []"
      "(\<forall>log b. f log b \<noteq> - 1) \<longrightarrow> ok" by blast
    have "buf @ concat (p # ps) = concat c1 @ (b1 @ concat ps)" using c1(4,5) True by simp
    then have "buf @ concat (p # ps) = concat (c1 @ c2) @ buf' @ r2" using c2(4) by simp
    then show ?thesis using c1(1,3) c2 by (intro exI [of _ "c1 @ c2"]) auto
  next
    case False
    then have "ok = False" "buf' = b1" "log' = l1" using Cons.prems(1) w by simp_all
    moreover have "\<exists>rest. buf @ concat (p # ps) = concat c1 @ b1 @ rest"
      by (rule exI [of _ "r1 @ concat ps"]) (use c1(4) in \<open>simp flip: append_assoc\<close>)
    ultimately show ?thesis using False c1(1-3,6,7) by (intro exI [of _ c1]) (simp del: concat.simps)
  qed
qed (auto intro: exI [of _ "[]"])

end
