(* ===== verification/UserProperties.thy ===== *)
theory UserProperties
  imports ForkCall UserLib ProcProperties
begin

text \<open>
  What user programs can rely on: their system calls reach the handlers they mean, and \<^verbatim>\<open>fork\<close> returns twice.
\<close>

section \<open>A process that can fork\<close>

text \<open>A kernel with an empty kernel space, whose process 1 has one page, that of its trap context.\<close>

definition trap_area :: MapArea where
  "trap_area = \<lparr>vpn_range = \<lparr>range_l = trap_page, range_r = VirtPageNum 0x7FFFFFF\<rparr>, data_frames = [], map_type = Framed, map_perm = PTE_R OR PTE_W\<rparr>"

lemma trap_area:
  "data_frames trap_area = []" "map_type trap_area = Framed" "range_l (vpn_range trap_area) \<le> range_r (vpn_range trap_area)"
  "unat (vpn0 (range_r (vpn_range trap_area))) < 2 ^ 27" "area_pages trap_area = {trap_page}"
  "length (range_vpns (vpn_range trap_area)) = 1"
proof -
  show r: "range_l (vpn_range trap_area) \<le> range_r (vpn_range trap_area)"
    by (simp add: trap_area_def trap_page_def page_order_defs)
  have "unat (vpn0 v) = 0x7FFFFFE \<longleftrightarrow> v = trap_page" for v by (cases v) (simp add: trap_page_def word_unat_eq_iff)
  moreover have "v \<in> area_pages trap_area \<longleftrightarrow> unat (vpn0 v) = 0x7FFFFFE" for v
    by (auto simp: area_pages_def trap_area_def trap_page_def page_order_defs word_nat)
  ultimately show "area_pages trap_area = {trap_page}" by blast
  show "length (range_vpns (vpn_range trap_area)) = 1"
    by (simp add: range_vpns_eq [OF r]) (simp add: trap_area_def trap_page_def)
qed (simp_all add: trap_area_def)

lemma boot_forker:
  obtains k t where "fork_ready 0x80400 0x80200000 t k" and "cpu_current k = Some 1" and "tasks k 1 = Some t" and "tcb_pid t = 1"
    and "no_signals t" and "next_pid k = 4" and "fd_table t = [Some Stdin, Some Stdout, Some Stdout]"
proof -
  obtain ks s0 where b: "ms_inv 0x80400 (ks, s0)" "\<And>v. translate (page_table ks) v s0 = None"
    "card (frames_free 0x80400 s0) = 1023" "areas ks = []" by (rule boot_memory_set) (rule that)
  have fi: "frames_inv 0x80400 s0" by (rule ms_invD(2) [OF b(1)])
  have "frames_free 0x80400 s0 \<noteq> {}" using b(3) by auto
  then obtain pt s1 where pt: "PageTable_new s0 = Ok (pt, s1)" "card (frames_free 0x80400 s1) = card (frames_free 0x80400 s0) - 1"
    by (rule PageTable_new_total [OF fi])
  define m1 where "m1 = \<lparr>page_table = pt, areas = []\<rparr>"
  have nb: "new_bare s0 = Ok (m1, s1)" by (simp add: new_bare_def pt(1) m1_def)
  note n = new_bare_spec [OF fi nb]
  have k1: "ms_inv 0x80400 (ks, s1)" "owned_frames ks \<inter> owned_frames m1 = {}" "\<And>v. translate (page_table ks) v s1 = None"
    using n(4,5) [OF b(1)] b(2) by auto
  have small: "unat (vpn0 (range_r (vpn_range trap_area))) \<le> 2 ^ 27" using trap_area(4) by simp
  have none: "\<And>v. v \<in> area_pages trap_area \<Longrightarrow> translate (page_table m1) v s1 = None" by (rule n(2))
  have free: "3 * length (range_vpns (vpn_range trap_area)) \<le> card (frames_free 0x80400 s1)" using pt(2) b(3) trap_area(6) by simp
  obtain ms s where p: "push trap_area None (m1, s1) = Ok (Inr (), ms, s)" "card (frames_free 0x80400 s1) \<le> card (frames_free 0x80400 s) + 3"
    using push_total [OF n(1) trap_area(1,2,3) small none free] trap_area(6) by auto
  obtain a' where a': "areas ms = areas m1 @ [a']" "vpn_range a' = vpn_range trap_area" "map_type a' = Framed"
    "fst ` set (data_frames a') = area_pages trap_area" "keeps 0x80400 m1 s1 ms s"
    by (rule push_fresh [OF n(1) trap_area(1,2,3) p(1)])
  note o = keeps_other [OF a'(5) k1(1,2)]
  have ar: "areas ms = [a']" using a'(1) n(3) by simp
  have ap: "area_pages a' = {trap_page}" using trap_area(5) a'(2) by (simp add: area_pages_def)
  have "trap_page \<in> fst ` set (data_frames a')" using a'(4) trap_area(5) by simp
  then obtain f where "(trap_page, f) \<in> set (data_frames a')" by auto
  then have f: "(trap_page, f) \<in> set (bindings (areas ms))" using ar by (simp add: set_bindings)
  define t where "t = (ex_task 1 Running (Some 0) [2, 3] 0)\<lparr>memory_set := ms, trap_cx_ppn := f\<rparr>"
  define k where "k = ex_kernel\<lparr>kernel_space := ks, memory := s, tasks := (tasks ex_kernel)(1 \<mapsto> t)\<rparr>"
  have t: "memory_set t = ms" "trap_cx_ppn t = f" "tcb_pid t = 1" "priority t = 16" "fd_table t = [Some Stdin, Some Stdout, Some Stdout]"
    by (simp_all add: t_def ex_task_def)
  have np: "next_pid k = 4" by (simp add: next_pid_def k_def pid_alloc_def)
  have fp: "fork_pages (areas ms) = 1" using ar a'(2) trap_area(6) by simp
  have "fork_ready 0x80400 0x80200000 t k"
    unfolding fork_ready_def t np
  proof (intro conjI)
    show "ms_inv 0x80400 (ms, memory k)" using a'(5) by (simp add: keeps_def k_def)
    show "user_areas ms" using ar a'(2,3) trap_area(3,4) by (simp add: user_areas_def)
    show "\<forall>a \<in> set (areas ms). whole a" using ar a'(4) ap trap_area(5) by (simp add: whole_def)
    show "(trap_page, f) \<in> set (bindings (areas ms))" by (rule f)
    show "pa_page_offset (PhysAddr_from 0x80200000) = 0" by (simp add: pa_page_offset_def PhysAddr_from_def PAGE_SIZE_def)
    show "ms_inv 0x80400 (kernel_space k, memory k)" using o(1) by (simp add: k_def)
    show "owned_frames (kernel_space k) \<inter> owned_frames ms = {}" using o(2) by (simp add: k_def)
    show "\<forall>v \<in> stack_vpns 4. translate (page_table (kernel_space k)) v (memory k) = None" using o(3) k1(3) by (simp add: k_def)
    show "9 + 3 * fork_pages (areas ms) \<le> card (frames_free 0x80400 (memory k))" using fp p(2) pt(2) b(3) by (simp add: k_def)
  qed simp_all
  moreover have "no_signals t" by (simp add: no_signals_def t_def ex_task_def deliverable_def check_error_def sf_contains_def sig_defs sig_bit_def)
  ultimately show thesis using that np t by (simp add: k_def)
qed

section \<open>Properties\<close>

text \<open>
  C21: system calls reach their handlers. The registers that a wrapper of the user library loads, whatever the other
  registers hold, make the trap handler run the kernel function that the wrapper is for, with the arguments of
  the wrapper, on the saved context whose program counter is past the \<^verbatim>\<open>ecall\<close>; restoring that context would give
  back all registers. Only the wrappers of \<^verbatim>\<open>openat\<close>, \<^verbatim>\<open>spawn\<close>, \<^verbatim>\<open>mail_read\<close> and \<^verbatim>\<open>mail_write\<close> have no handler: the
  kernel panics on them.
\<close>

theorem user_call_reaches_handler:
  assumes cur: "current_task k = Ok t" and xs: "length xs = 32"
  shows "(\<exists>k1. trap_handler pl inp UserEnvCall (save_user (call_regs c xs) sst pc t k) =
        map_option (\<lambda>r. bind_res r after_call) (call_handler pl inp c k1) \<and>
      current_task k1 = Ok t \<and> restore_regs (get_trap_cx t k1) xs = call_regs c xs \<and> sepc (get_trap_cx t k1) = pc + 4) \<and>
    (c \<in> range USpawn \<union> range (\<lambda>(d, p, f, m). UOpenat d p f m) \<union> range (\<lambda>(b, n). UMailRead b n) \<union> range (\<lambda>(p, b, n). UMailWrite p b n) \<longrightarrow>
      trap_handler pl inp UserEnvCall (save_user (call_regs c xs) sst pc t k) = Some (Panic ExplicitPanic))"
proof -
  have len: "length (call_regs c xs) = 32" using xs by (cases c) (simp_all add: syscall3_def syscall6_def)
  let ?cx = "alltraps (call_regs c xs) sst (pc + 4) (get_trap_cx t k)"
  have g: "get_trap_cx t (save_user (call_regs c xs) sst (pc + 4) t k) = ?cx" by (simp add: save_user_def get_put_trap_cx)
  have z: "call_regs c xs ! 0 = xs ! 0" "call_regs c xs ! 4 = xs ! 4" by (cases c; simp add: syscall3_def syscall6_def)+
  have "restore_regs ?cx xs = call_regs c xs"
    by (rule nth_equalityI) (use len z in \<open>auto simp: restore_regs_def\<close>)
  moreover have "current_task (save_user (call_regs c xs) sst (pc + 4) t k) = Ok t" using cur by (simp add: save_user_def)
  ultimately show ?thesis unfolding call_trap [OF cur xs] using g by auto
qed

theorem user_call_reaches_handler_witness:
  "\<forall>pl inp. \<exists>k1. trap_handler pl inp UserEnvCall
       (save_user (call_regs UGetpid (replicate 32 7)) 0 0x1000 (ex_task 1 Running (Some 0) [2, 3] 0) ex_kernel) = Some (finish_call 1 k1) \<and>
     sepc (get_trap_cx (ex_task 1 Running (Some 0) [2, 3] 0) k1) = 0x1004"
proof (intro allI)
  fix pl :: platform and inp :: inputs
  let ?t = "ex_task 1 Running (Some 0) [2, 3] 0"
  have ct: "current_task ex_kernel = Ok ?t" by (simp add: current_task_def the_task_def)
  obtain k1 where k1: "trap_handler pl inp UserEnvCall (save_user (call_regs UGetpid (replicate 32 7)) 0 0x1000 ?t ex_kernel) =
      map_option (\<lambda>r. bind_res r after_call) (call_handler pl inp UGetpid k1)"
    "current_task k1 = Ok ?t" "sepc (get_trap_cx ?t k1) = 0x1004"
    using user_call_reaches_handler [OF ct, where xs = "replicate 32 7" and pl = pl and inp = inp and c = UGetpid and sst = 0 and pc = "0x1000"] by auto
  have "call_handler pl inp UGetpid k1 = Some (Ok (Value 1, k1))" using k1(2) by (simp add: sys_getpid_def)
  then have "trap_handler pl inp UserEnvCall (save_user (call_regs UGetpid (replicate 32 7)) 0 0x1000 ?t ex_kernel) = Some (finish_call 1 k1)"
    unfolding k1(1) by (simp add: after_call_def)
  with k1(3) show "\<exists>k1. trap_handler pl inp UserEnvCall (save_user (call_regs UGetpid (replicate 32 7)) 0 0x1000 ?t ex_kernel) = Some (finish_call 1 k1) \<and>
     sepc (get_trap_cx ?t k1) = 0x1004" by blast
qed

text \<open>
  C20: \<^verbatim>\<open>fork\<close> returns twice. A process that calls \<^verbatim>\<open>fork\<close> resumes after the \<^verbatim>\<open>ecall\<close> with all its registers and the
  pid of the child in \<^verbatim>\<open>x10\<close>, and has the child as its last child. The child is ready, a child of the caller with
  its open files, and when it is first run, resumes at the same point with the same registers and 0 in \<^verbatim>\<open>x10\<close>, on a
  kernel stack of its own; and on every page but that of the trap context both processes see the flags and bytes
  that the caller had. Nobody else changes: the blocks of all other processes, the other entries of the ready
  queue, the open files, pipes and cached blocks are as before, and every memory set that shares no frame with the
  caller or the kernel keeps its page table, its translations and all its bytes (\<open>bystanders\<close>).
\<close>

theorem fork_returns_twice:
  assumes ready: "fork_ready l (strampoline_addr pl) t k" and cur: "cpu_current k = Some (tcb_pid t)" "tasks k (tcb_pid t) = Some t"
    and idle: "no_signals t" and xs: "length xs = 32"
  shows "\<exists>k' t' ct. trap_handler pl inp UserEnvCall (save_user (call_regs UFork xs) sst pc t k) = Some (Ok (User, k')) \<and>
    cpu_current k' = Some (tcb_pid t) \<and> tasks k' (tcb_pid t) = Some t' \<and> children t' = children t @ [next_pid k] \<and>
    restore_regs (get_trap_cx t' k') xs = (call_regs UFork xs)[10 := next_pid k] \<and> sepc (get_trap_cx t' k') = pc + 4 \<and>
    tasks k' (next_pid k) = Some ct \<and> task_status ct = Ready \<and> ready_queue (manager k') (next_pid k) = Some (next_pid k) \<and>
    tcb_parent ct = Some (tcb_pid t) \<and> fd_table ct = fd_table t \<and>
    restore_regs (get_trap_cx ct k') xs = (call_regs UFork xs)[10 := 0] \<and> sepc (get_trap_cx ct k') = pc + 4 \<and>
    kernel_sp (get_trap_cx ct k') = ks_get_top (next_pid k) \<and>
    (\<forall>a \<in> set (areas (memory_set t)). \<forall>v \<in> area_pages a. v \<noteq> trap_page \<longrightarrow>
       user_view (memory_set ct) (memory k') v = user_view (memory_set t) (memory k) v \<and>
       user_view (memory_set t') (memory k') v = user_view (memory_set t) (memory k) v) \<and>
    bystanders l t (next_pid k) k k'"
proof -
  let ?xs = "call_regs UFork xs" and ?c = "next_pid k" and ?par = "t\<lparr>children := children t @ [next_pid k]\<rparr>"
  obtain k' ct where f: "trap_handler pl inp UserEnvCall (save_user ?xs sst pc t k) = Some (Ok (User, k'))"
    "cpu_current k' = Some (tcb_pid t)" "tasks k' (tcb_pid t) = Some ?par" "tasks k' ?c = Some ct" "child_block pl ?c t ct"
    "ready_queue (manager k') ?c = Some ?c"
    "get_trap_cx t k' = (let cx = alltraps ?xs sst (pc + 4) (get_trap_cx t k) in cx\<lparr>regs := (regs cx)[10 := ?c]\<rparr>)"
    "get_trap_cx ct k' = child_cx ?c (alltraps ?xs sst (pc + 4) (get_trap_cx t k))"
    and v: "\<And>a v. \<lbrakk>a \<in> set (areas (memory_set t)); v \<in> area_pages a; v \<noteq> trap_page\<rbrakk> \<Longrightarrow>
       user_view (memory_set ct) (memory k') v = user_view (memory_set t) (memory k) v \<and>
       user_view (memory_set t) (memory k') v = user_view (memory_set t) (memory k) v"
    and by1: "bystanders l t ?c k k'"
    by (rule fork_trap [OF ready cur idle xs, where inp = inp and sst = sst and pc = pc]) (rule that; (assumption | blast))
  have g: "get_trap_cx ?par k' = get_trap_cx t k'" by (simp add: get_trap_cx_def)
  have r: "restore_regs (get_trap_cx t k') xs = ?xs[10 := ?c]" "restore_regs (get_trap_cx ct k') xs = ?xs[10 := 0]"
    by (rule nth_equalityI; use xs in \<open>auto simp: f(7,8) Let_def child_cx_def restore_regs_def syscall3_def nth_list_update\<close>)+
  show ?thesis
    using f(1-6) r v by1 f(7,8)
    by (intro exI [of _ k'] exI [of _ ?par] exI [of _ ct])
       (auto simp: g Let_def child_cx_def child_block_def fork_block_def simp del: call_regs.simps)
qed

theorem fork_returns_twice_witness:
  "\<exists>pl k t k' t' ct.
     trap_handler pl \<lparr>char_in = 0, time_us = 0\<rparr> UserEnvCall (save_user (call_regs UFork (replicate 32 9)) 0 0x1000 t k) = Some (Ok (User, k')) \<and>
     tasks k' 1 = Some t' \<and> restore_regs (get_trap_cx t' k') (replicate 32 9) ! 10 = 4 \<and>
     tasks k' 4 = Some ct \<and> restore_regs (get_trap_cx ct k') (replicate 32 9) ! 10 = 0 \<and>
     restore_regs (get_trap_cx ct k') (replicate 32 9) ! 5 = 9 \<and> sepc (get_trap_cx ct k') = 0x1004 \<and>
     fd_table ct = [Some Stdin, Some Stdout, Some Stdout]"
proof -
  obtain k t where f: "fork_ready 0x80400 0x80200000 t k" "cpu_current k = Some 1" "tasks k 1 = Some t" "tcb_pid t = 1"
    "no_signals t" "next_pid k = 4" "fd_table t = [Some Stdin, Some Stdout, Some Stdout]" by (rule boot_forker)
  define pl where "pl = \<lparr>trap_return_addr = 0, trap_handler_addr = 0, strampoline_addr = 0x80200000, user_sstatus = 0, parse_elf = \<lambda>_. None\<rparr>"
  have r: "fork_ready 0x80400 (strampoline_addr pl) t k" using f(1) by (simp add: pl_def)
  have c: "cpu_current k = Some (tcb_pid t)" "tasks k (tcb_pid t) = Some t" using f by simp_all
  have len: "length (replicate 32 9 :: usize list) = 32" by simp
  from fork_returns_twice [OF r c f(5) len, where inp = "\<lparr>char_in = 0, time_us = 0\<rparr>" and sst = 0 and pc = "0x1000"] obtain k' t' ct where
    w: "trap_handler pl \<lparr>char_in = 0, time_us = 0\<rparr> UserEnvCall (save_user (call_regs UFork (replicate 32 9)) 0 0x1000 t k) = Some (Ok (User, k'))"
    "tasks k' 1 = Some t'" "tasks k' 4 = Some ct"
    "restore_regs (get_trap_cx t' k') (replicate 32 9) = (call_regs UFork (replicate 32 9))[10 := 4]"
    "restore_regs (get_trap_cx ct k') (replicate 32 9) = (call_regs UFork (replicate 32 9))[10 := 0]"
    "sepc (get_trap_cx ct k') = 0x1004" "fd_table ct = [Some Stdin, Some Stdout, Some Stdout]"
    unfolding f(4,6,7) by auto
  have n: "(call_regs UFork (replicate 32 9))[10 := v] ! 10 = v" "(call_regs UFork (replicate 32 9))[10 := 0] ! 5 = 9" for v
    by (simp_all add: syscall3_def)
  have "restore_regs (get_trap_cx t' k') (replicate 32 9) ! 10 = 4" "restore_regs (get_trap_cx ct k') (replicate 32 9) ! 10 = 0"
    "restore_regs (get_trap_cx ct k') (replicate 32 9) ! 5 = 9"
    unfolding w(4,5) by (rule n)+
  with w(1-3,6,7) show ?thesis by blast
qed

text \<open>
  C23: printing. \<^verbatim>\<open>print\<close> leaves the console buffer empty; the slices it writes, each of at most 2560 bytes, are together
  exactly what was in the buffer and the text, in order, when no write fails; when a write returns -1, what follows
  it is dropped and \<^verbatim>\<open>print\<close> still returns.
\<close>

theorem print_writes_text:
  assumes "length buf < CONSOLE_BUFFER_SIZE"
  shows "\<exists>chunks. print (logging f) pieces (buf, log) = ([], log @ chunks) \<and>
    (\<forall>c \<in> set chunks. length c \<le> CONSOLE_BUFFER_SIZE) \<and>
    (\<exists>rest. buf @ concat pieces = concat chunks @ rest \<and> ((\<forall>log b. f log b \<noteq> - 1) \<longrightarrow> rest = []))"
proof -
  obtain ok b1 l1 where w: "write_fmt (logging f) pieces (buf, log) = (ok, b1, l1)" by (cases "write_fmt (logging f) pieces (buf, log)") auto
  from write_fmt_logging [OF w assms] obtain chunks rest where c: "l1 = log @ chunks" "length b1 < CONSOLE_BUFFER_SIZE"
    "\<forall>c \<in> set chunks. length c \<le> CONSOLE_BUFFER_SIZE" "buf @ concat pieces = concat chunks @ b1 @ rest" "ok \<longrightarrow> rest = []"
    "(\<forall>log b. f log b \<noteq> - 1) \<longrightarrow> ok" by blast
  then show ?thesis using w by (intro exI [of _ "chunks @ [b1]"]) (auto simp: print_def cb_flush_logging)
qed

theorem print_writes_text_witness:
  "print (logging (\<lambda>_ _. 0)) [[104, 10], [105]] ([33], []) = ([], [[33, 104, 10], [105]]) \<and>
   (\<exists>chunks. print (logging (\<lambda>_ _. - 1)) [[104, 10], [105]] ([33], []) = ([], chunks) \<and> (\<exists>rest. [33, 104, 10, 105] = concat chunks @ rest))"
proof -
  have "length [33 :: u8] < CONSOLE_BUFFER_SIZE" by (simp add: CONSOLE_BUFFER_SIZE_def)
  from print_writes_text [OF this, of "\<lambda>_ _. - 1" "[[104, 10], [105]]" "[]"]
  have "\<exists>chunks. print (logging (\<lambda>_ _. - 1)) [[104, 10], [105]] ([33], []) = ([], chunks) \<and> (\<exists>rest. [33, 104, 10, 105] = concat chunks @ rest)"
    by auto
  moreover have "print (logging (\<lambda>_ _. 0)) [[104, 10], [105]] ([33], []) = ([], [[33, 104, 10], [105]])"
    by (simp add: print_def cb_flush_def logging_def CONSOLE_BUFFER_SIZE_def)
  ultimately show ?thesis by blast
qed

text \<open>
  C39: \<^verbatim>\<open>sleep\<close>. It returns at the first reading of the clock that is not before the wake-up time; but \<^verbatim>\<open>get_time\<close> keeps
  16 bits of the seconds, so its readings stay below 65536 seconds, and a \<^verbatim>\<open>sleep\<close> whose wake-up time is later than
  that never returns. (The kernel writes a number of microseconds below 1000000.)
\<close>

theorem sleep_past_wrap_hangs:
  assumes usec: "\<forall>w. unat (snd (tv w)) < 1000000" and start: "get_time sys tv time w = (start, w0)"
  shows "(\<forall>n. (\<forall>i < n. fst (get_time sys tv time ((sleep_round sys tv time ^^ i) w0)) <s start + period) \<longrightarrow>
      \<not> fst (get_time sys tv time ((sleep_round sys tv time ^^ n) w0)) <s start + period \<longrightarrow>
      sleep sys tv time period w = Some (snd (get_time sys tv time ((sleep_round sys tv time ^^ n) w0)))) \<and>
    (65535999 < sint (start + period) \<longrightarrow> sleep sys tv time period w = None)"
  using sleep_loop_returns [of _ sys tv time w0 "start + period"] sleep_loop_hangs [OF usec, of "start + period" sys time w0]
  by (simp add: sleep_def start)

text \<open>A clock that goes on by a second with every call, at \<open>65535.5\<close> seconds and at 2 seconds.\<close>

theorem sleep_past_wrap_hangs_witness:
  "sleep (\<lambda>_ w. (0, w + 1000000)) (\<lambda>w. (w div 1000000, w mod 1000000)) 0 1000 65534500000 = None \<and>
   sleep (\<lambda>_ w. (0, w + 1000000)) (\<lambda>w. (w div 1000000, w mod 1000000)) 0 1000 1000000 = Some 3000000"
proof -
  let ?sys = "\<lambda>(_ :: user_call) (w :: usize). (0 :: int, w + 1000000)" and ?tv = "\<lambda>w :: usize. (w div 1000000, w mod 1000000)"
  have us: "\<forall>w. unat (snd (?tv w)) < 1000000" by (simp add: unat_mod)
  have g: "get_time ?sys ?tv 0 65534500000 = (65535500, 65535500000)" "get_time ?sys ?tv 0 1000000 = (2000, 2000000)"
    "get_time ?sys ?tv 0 2000000 = (3000, 3000000)"
    by (simp_all add: get_time_def)
  have a: "sleep ?sys ?tv 0 1000 65534500000 = None"
    using sleep_past_wrap_hangs [OF us g(1), of 1000] by simp
  have b: "sleep ?sys ?tv 0 1000 1000000 = Some 3000000"
    using conjunct1 [OF sleep_past_wrap_hangs [OF us g(2), of 1000], rule_format, of 0] g(3) by (simp add: word_sless_alt)
  from a b show ?thesis by simp
qed

end
