(* ===== verification/ImageBuilder.thy ===== *)
theory ImageBuilder
  imports FsRun
begin

text \<open>
  \<^verbatim>\<open>easy-fs-fuse/src/main.rs\<close>: the host tool that makes the disk image. The image is a file of the host; the list of
  files of the source directory and the contents of the files of the target directory are arguments.
\<close>

section \<open>A file as a block device\<close>

text \<open>
  \<^verbatim>\<open>BlockFile\<close>: \<open>f\<close> are the bytes of the file. A read takes what the file has at the offset, up to a block; a write past
  the end extends the file with zeros.
\<close>

definition bf_read_block :: "usize \<Rightarrow> u8 list \<Rightarrow> u8 list res" where
  "bf_read_block block_id f = (let buf = take BLOCK_SZ (drop (unat (block_id * of_nat BLOCK_SZ)) f) in
     bind_res (assert_that (length buf = BLOCK_SZ)) (\<lambda>_. Ok buf))"

definition bf_write_block :: "usize \<Rightarrow> u8 list \<Rightarrow> u8 list \<Rightarrow> u8 list res" where
  "bf_write_block block_id buf f = (let off = unat (block_id * of_nat BLOCK_SZ) in
     bind_res (assert_that (length buf = BLOCK_SZ)) (\<lambda>_.
     Ok (take off (f @ replicate (off - length f) 0) @ buf @ drop (off + length buf) f)))"

text \<open>The device that a file is. The file has no blocks past its end; \<open>run_image\<close> below does not let them be used.\<close>

definition dev_of :: "u8 list \<Rightarrow> device" where
  "dev_of f b = (if 512 * unat b + 512 \<le> length f then take 512 (drop (512 * unat b) f) else replicate BLOCK_SZ 0)"

lemma block_offset: "unat b < 2 ^ 32 \<Longrightarrow> unat (b * of_nat BLOCK_SZ :: usize) = 512 * unat b"
proof -
  assume b: "unat b < 2 ^ 32"
  have "unat (b * (512 :: usize)) = unat b * unat (512 :: usize)" by (rule iffD1 [OF unat_mult_lem]) (use b in simp)
  then show ?thesis by (simp add: BLOCK_SZ_def)
qed

lemma bf_read:
  assumes "unat b < 2 ^ 32"
  shows "bf_read_block b f = (if 512 * unat b + 512 \<le> length f then Ok (dev_of f b) else Panic AssertFailed)"
proof (cases "512 * unat b + 512 \<le> length f")
  case True
  then show ?thesis unfolding bf_read_block_def block_offset [OF assms] by (simp add: dev_of_def BLOCK_SZ_def Let_def)
next
  case False
  then have "length f - 512 * unat b \<noteq> 512" by linarith
  then show ?thesis using False unfolding bf_read_block_def block_offset [OF assms] by (simp add: BLOCK_SZ_def Let_def min_def)
qed

text \<open>Blocks of a file do not overlap.\<close>

lemma take_drop_nth: "\<lbrakk>n \<le> length f; length f = length g; \<And>i. \<lbrakk>m \<le> i; i < n\<rbrakk> \<Longrightarrow> f ! i = g ! i\<rbrakk> \<Longrightarrow> take (n - m) (drop m f) = take (n - m) (drop m g)"
  by (rule nth_equalityI) auto

lemma bf_write:
  assumes b: "unat b < 2 ^ 32" and buf: "length buf = 512" and inside: "512 * unat b + 512 \<le> length f"
  shows "\<exists>f'. bf_write_block b buf f = Ok f' \<and> length f' = length f \<and> dev_of f' = (dev_of f)(b := buf)"
proof -
  let ?o = "512 * unat b"
  define f' where "f' = take ?o f @ buf @ drop (?o + 512) f"
  have len: "length f' = length f" using buf inside by (simp add: f'_def)
  have nth: "f' ! i = (if ?o \<le> i \<and> i < ?o + 512 then buf ! (i - ?o) else f ! i)" if "i < length f" for i
    using that buf inside by (auto simp: f'_def nth_append)
  have "dev_of f' c = ((dev_of f)(b := buf)) c" for c
  proof (cases "c = b")
    case True
    then show ?thesis using len inside buf by (simp add: dev_of_def f'_def)
  next
    case False
    then have "unat c < unat b \<or> unat b < unat c" by (meson linorder_less_linear word_unat_eq_iff)
    then have ap: "512 * unat c + 512 \<le> ?o \<or> ?o + 512 \<le> 512 * unat c" by auto
    have "take (512 * unat c + 512 - 512 * unat c) (drop (512 * unat c) f') = take (512 * unat c + 512 - 512 * unat c) (drop (512 * unat c) f)"
      if "512 * unat c + 512 \<le> length f"
      by (rule take_drop_nth) (use that len nth ap in auto)
    then show ?thesis using False len by (simp add: dev_of_def)
  qed
  moreover have "bf_write_block b buf f = Ok f'"
    unfolding bf_write_block_def block_offset [OF b] using buf inside by (simp add: BLOCK_SZ_def f'_def Let_def)
  ultimately show ?thesis using len by blast
qed

text \<open>Accesses to blocks, on a file and on a device; the result is what was read.\<close>

datatype block_op = ReadBlock usize | WriteBlock usize "u8 list"

fun file_ops :: "block_op list \<Rightarrow> u8 list \<Rightarrow> (block list \<times> u8 list) res" where
  "file_ops [] f = Ok ([], f)"
| "file_ops (ReadBlock b # ops) f =
     bind_res (bf_read_block b f) (\<lambda>buf. bind_res (file_ops ops f) (\<lambda>(bufs, f). Ok (buf # bufs, f)))"
| "file_ops (WriteBlock b buf # ops) f = bind_res (bf_write_block b buf f) (file_ops ops)"

fun device_ops :: "block_op list \<Rightarrow> device \<Rightarrow> block list \<times> device" where
  "device_ops [] d = ([], d)"
| "device_ops (ReadBlock b # ops) d = (case device_ops ops d of (bufs, d') \<Rightarrow> (d b # bufs, d'))"
| "device_ops (WriteBlock b buf # ops) d = device_ops ops (d(b := buf))"

fun op_inside :: "nat \<Rightarrow> block_op \<Rightarrow> bool" where
  "op_inside n (ReadBlock b) = (unat b < n)"
| "op_inside n (WriteBlock b buf) = (unat b < n \<and> length buf = 512)"

lemma file_ops_device:
  assumes "length f = 512 * n" and "n \<le> 2 ^ 32" and "\<forall>a \<in> set ops. op_inside n a"
  shows "\<exists>f'. file_ops ops f = Ok (fst (device_ops ops (dev_of f)), f') \<and> length f' = length f \<and>
    dev_of f' = snd (device_ops ops (dev_of f))"
  using assms
proof (induction ops arbitrary: f)
  case (Cons a ops)
  have rest: "\<forall>a \<in> set ops. op_inside n a" using Cons.prems(3) by simp
  show ?case
  proof (cases a)
    case (ReadBlock b)
    then have b: "unat b < n" "unat b < 2 ^ 32" using Cons.prems(2,3) by auto
    have "bf_read_block b f = Ok (dev_of f b)" using bf_read [OF b(2), of f] b(1) Cons.prems(1) by auto
    with Cons.IH [OF Cons.prems(1,2) rest] show ?thesis by (auto simp: ReadBlock split: prod.splits)
  next
    case (WriteBlock b buf)
    then have b: "unat b < n" "unat b < 2 ^ 32" "length buf = 512" using Cons.prems(2,3) by auto
    have ins: "512 * unat b + 512 \<le> length f" using b(1) Cons.prems(1) by simp
    obtain f1 where f1: "bf_write_block b buf f = Ok f1" "length f1 = length f" "dev_of f1 = (dev_of f)(b := buf)"
      using bf_write [OF b(2,3) ins] by blast
    have "length f1 = 512 * n" using f1(2) Cons.prems(1) by simp
    from Cons.IH [OF this Cons.prems(2) rest] show ?thesis unfolding f1(3) by (simp add: WriteBlock f1(1,2) del: fun_upd_apply)
  qed
qed simp

text \<open>
  A run on an image of \<open>n\<close> blocks. A block past the end of the file is never in the cache, since \<^verbatim>\<open>get_block_cache\<close> would
  have to read it first, and the assertion of \<^verbatim>\<open>read_block\<close> fails: every access to such a block panics.
\<close>

definition image_read :: "nat \<Rightarrow> usize set \<Rightarrow> usize \<Rightarrow> nat \<Rightarrow> nat \<Rightarrow> cache_state \<Rightarrow> (u8 list \<times> cache_state) res" where
  "image_read n held b off sz st = (if unat b < n then cache_read held b off sz st else Panic AssertFailed)"

definition image_modify :: "nat \<Rightarrow> usize set \<Rightarrow> usize \<Rightarrow> nat \<Rightarrow> u8 list \<Rightarrow> cache_state \<Rightarrow> cache_state res" where
  "image_modify n held b off bytes st = (if unat b < n then cache_modify held b off bytes st else Panic AssertFailed)"

definition run_image :: "nat \<Rightarrow> 'a prog \<Rightarrow> cache_state \<Rightarrow> ('a \<times> cache_state) res" where
  "run_image n p st = run_store (image_read n) (image_modify n) block_cache_sync_all p [] st"

section \<open>Packing\<close>

definition TOTAL_BLOCKS :: nat where "TOTAL_BLOCKS = 0x4000"

text \<open>The name of an application: the name of the source file up to its first dot.\<close>

definition app_name :: "u8 list \<Rightarrow> u8 list res" where
  "app_name name_with_ext =
     bind_res (unwrap (find_index (\<lambda>c. c = 46) name_with_ext)) (\<lambda>i. Ok (take i name_with_ext))"

fun app_names :: "u8 list list \<Rightarrow> u8 list list res" where
  "app_names [] = Ok []"
| "app_names (e # es) = bind_res (app_name e) (\<lambda>n. bind_res (app_names es) (\<lambda>ns. Ok (n # ns)))"

text \<open>\<open>host\<close> gives the contents of a file of the target directory, if there is one.\<close>

definition pack_app :: "EasyFileSystem \<Rightarrow> (u8 list \<Rightarrow> u8 list option) \<Rightarrow> u8 list \<Rightarrow> unit prog" where
  "pack_app fs host app =
     bind_prog (lift_res (unwrap (host app))) (\<lambda>all_data.
     bind_prog (vfs_create app fs (root_inode fs)) (\<lambda>r.
     bind_prog (lift_res (unwrap r)) (\<lambda>inode.
     bind_prog (vfs_write_at 0 all_data fs inode) (\<lambda>_. Done ()))))"

definition pack_apps :: "(u8 list \<Rightarrow> u8 list option) \<Rightarrow> u8 list list \<Rightarrow> EasyFileSystem prog" where
  "pack_apps host entries =
     bind_prog (efs_create (of_nat TOTAL_BLOCKS) 1) (\<lambda>fs.
     bind_prog (lift_res (app_names entries)) (\<lambda>apps.
     bind_prog (fold_prog (\<lambda>app _. pack_app fs host app) apps ()) (\<lambda>_. Done fs)))"

text \<open>The whole of \<^verbatim>\<open>easy_fs_pack\<close>; the result is what it prints at the end.\<close>

definition easy_fs_pack :: "(u8 list \<Rightarrow> u8 list option) \<Rightarrow> u8 list list \<Rightarrow> u8 list list prog" where
  "easy_fs_pack host entries = bind_prog (pack_apps host entries) (\<lambda>fs. vfs_ls (root_inode fs))"

section \<open>The image\<close>

text \<open>The files of an image: the applications in their order, from inode 1 on, and a directory that names them.\<close>

definition holds_apps :: "(nat \<rightharpoonup> file_abs) \<Rightarrow> (u8 list \<times> u8 list) list \<Rightarrow> bool" where
  "holds_apps A apps =
     ((\<exists>r. A 0 = Some r \<and> directory r \<and> dir_list (fa_bytes r) = map (\<lambda>i. (fst (apps ! i), of_nat (Suc i))) [0..<length apps]) \<and>
      (\<forall>i. A (Suc i) = (if i < length apps then Some \<lparr>fa_bytes = snd (apps ! i), fa_nlink = 1, fa_type = File\<rparr> else None)))"

definition file_blocks :: "nat \<Rightarrow> nat" where
  "file_blocks s = tot (nblk s)"

definition image_blocks :: "(u8 list \<times> u8 list) list \<Rightarrow> nat" where
  "image_blocks apps = file_blocks (DIRENT_SZ * length apps) + sum_list (map (\<lambda>(_, data). file_blocks (length data)) apps)"

definition image_inv :: "(nat \<rightharpoonup> file_abs) \<Rightarrow> (u8 list \<times> u8 list) list \<Rightarrow> bool" where
  "image_inv A apps = (holds_apps A apps \<and> finite (dom A) \<and> used_blocks A = image_blocks apps \<and>
     (\<forall>r. A 0 = Some r \<longrightarrow> length (fa_bytes r) = DIRENT_SZ * length apps))"

lemma image_inv_new: "image_inv [0 \<mapsto> new_file Directory] []"
  by (simp add: image_inv_def holds_apps_def new_file_def directory_def dir_ok_def dir_list_def used_blocks_def image_blocks_def file_blocks_def)

abbreviation image_fs :: EasyFileSystem where
  "image_fs \<equiv> new_fs (of_nat TOTAL_BLOCKS) 1"

lemma image_geometry: "fs_ok image_fs" "in_area image_fs i \<longleftrightarrow> i < 3264" "bm_pool (inode_bitmap image_fs) = {..<4096}"
  "unat (bm_blocks (data_bitmap image_fs)) = 4"
proof -
  have t: "2 + 1089 * unat (1 :: u32) \<le> unat (of_nat TOTAL_BLOCKS :: u32)" "unat (of_nat TOTAL_BLOCKS :: u32) < 2 ^ 29" "0 < unat (1 :: u32)"
    by (simp_all add: TOTAL_BLOCKS_def)
  show "fs_ok image_fs" "in_area image_fs i \<longleftrightarrow> i < 3264" "bm_pool (inode_bitmap image_fs) = {..<4096}" using new_fs_ok [OF t] by simp_all
  show "unat (bm_blocks (data_bitmap image_fs)) = 4" using new_fs_geometry(4) [OF t(1,2)] by (simp add: db_def TOTAL_BLOCKS_def)
qed

lemma image_free: "free_blocks image_fs A = 16384 - used_blocks A"
  by (simp add: free_blocks_def image_geometry(4) BLOCK_BITS_def BLOCK_SZ_def)

lemma file_blocks_mono: "s \<le> s' \<Longrightarrow> file_blocks s \<le> file_blocks s'"
  unfolding file_blocks_def by (intro tot_mono nblk_mono)

lemma image_blocks_snoc:
  "image_blocks (apps @ [(nm, data)]) = file_blocks (DIRENT_SZ * Suc (length apps)) +
     sum_list (map (\<lambda>(_, data). file_blocks (length data)) apps) + file_blocks (length data)"
  by (simp add: image_blocks_def)

lemma run_image_bind: "run_image n (bind_prog p f) st = bind_res (run_image n p st) (\<lambda>(a, st). run_image n (f a) st)"
  by (simp add: run_image_def run_store_bind)

lemma run_image_lift: "run_image n (lift_res r) st = bind_res r (\<lambda>a. Ok (a, st))"
  by (cases r) (simp_all add: run_image_def lift_res_def)

lemma run_image_Done: "run_image n (Done a) st = Ok (a, st)"
  by (simp add: run_image_def)

lemma image_blocks_le: "image_blocks apps \<le> image_blocks (apps @ rest)"
  using file_blocks_mono [of "DIRENT_SZ * length apps" "DIRENT_SZ * length (apps @ rest)"]
  by (simp add: image_blocks_def add_mult_distrib2)

text \<open>
  The applications that are packed, and the conditions under which they fit. The image has 15290 data blocks, although
  its bitmap has 16384 bits.
\<close>

definition IMAGE_DATA :: nat where "IMAGE_DATA = 15290"

definition packable :: "(u8 list \<times> u8 list) list \<Rightarrow> bool" where
  "packable apps = (distinct (map fst apps) \<and> (\<forall>(nm, data) \<in> set apps. good_name nm \<and> data \<noteq> [] \<and> length data \<le> 512 * MAX_DATA) \<and>
     length apps \<le> 3263 \<and> image_blocks apps \<le> IMAGE_DATA)"

lemma app_names_dots:
  assumes "list_all2 (\<lambda>e nm. \<exists>ext. e = nm @ 46 # ext \<and> 46 \<notin> set nm) entries nms"
  shows "app_names entries = Ok nms"
proof -
  have f: "find_index (\<lambda>c. c = 46) (nm @ 46 # ext) = Some (length nm)" if "(46 :: u8) \<notin> set nm" for nm ext
    using that by (induction nm) auto
  show ?thesis using assms by (induction rule: list_all2_induct) (auto simp: app_name_def f)
qed

end
