(* ===== verification/ImageRun.thy ===== *)
theory ImageRun
  imports ImageBuilder
begin

text \<open>
  The file-system code stays within the image. The data bitmap of an image of 16384 blocks has 16384 bits for
  15290 data blocks, so it can hand out blocks past the end of the image; the lemmas of this theory show that nothing
  past the end is used as long as the files take at most 15290 blocks, and what packing an application does.
\<close>

section \<open>The blocks that a program uses\<close>

text \<open>All blocks that the program reads or writes, from the blocks \<open>d\<close>, are below \<open>n\<close>.\<close>

primrec inside :: "nat \<Rightarrow> 'a prog \<Rightarrow> device \<Rightarrow> bool" where
  "inside n (Done a) d = True"
| "inside n (Fail e) d = True"
| "inside n (Get h b off m k) d = (unat b < n \<and> inside n (k (take m (drop off (d b)))) d)"
| "inside n (Put h b off bytes p) d = (unat b < n \<and> inside n p (d(b := patch off bytes (d b))))"
| "inside n (Sync h p) d = inside n p d"

lemma run_Get_Ok:
  "run (Get h b off m k) H d = Ok r \<longleftrightarrow> length (h @ H) < BLOCK_CACHE_MAX_NUM \<and> b \<notin> set (h @ H) \<and> off + m \<le> BLOCK_SZ \<and>
     run (k (take m (drop off (d b)))) H d = Ok r"
  by auto

lemma run_Put_Ok:
  "run (Put h b off bytes p) H d = Ok r \<longleftrightarrow> length (h @ H) < BLOCK_CACHE_MAX_NUM \<and> b \<notin> set (h @ H) \<and> off + length bytes \<le> BLOCK_SZ \<and>
     run p H (d(b := patch off bytes (d b))) = Ok r"
  by auto

text \<open>A program that uses no block past the end of the image runs on the image as it runs on any device.\<close>

lemma run_store_inside:
  "\<lbrakk>cache_inv st; inside n p (view st); run p H (view st) = Ok r\<rbrakk> \<Longrightarrow>
    run_store (image_read n) (image_modify n) block_cache_sync_all p H st = run_store cache_read cache_modify block_cache_sync_all p H st"
proof (induction p arbitrary: st)
  case (Get h b off m k)
  note r = Get.prems(3) [unfolded run_Get_Ok]
  have "card (set (h @ H)) < BLOCK_CACHE_MAX_NUM" using r card_length [of "h @ H"] by linarith
  with cached.rd_spec [OF Get.prems(1), of "set (h @ H)" off m b] r obtain st' where
    s: "cache_read (set (h @ H)) b off m st = Ok (take m (drop off (view st b)), st')" "cache_inv st'" "view st' = view st"
    by (auto simp del: set_append)
  have i: "inside n (k (take m (drop off (view st b)))) (view st')" "run (k (take m (drop off (view st b)))) H (view st') = Ok r"
    using Get.prems(2) r s(3) by simp_all
  show ?case using Get.IH [OF rangeI s(2) i] Get.prems(2) s(1) by (simp add: image_read_def)
next
  case (Put h b off bytes p)
  note r = Put.prems(3) [unfolded run_Put_Ok]
  have "card (set (h @ H)) < BLOCK_CACHE_MAX_NUM" using r card_length [of "h @ H"] by linarith
  with cached.md_spec [OF Put.prems(1), of "set (h @ H)" off bytes b] r obtain st' where
    s: "cache_modify (set (h @ H)) b off bytes st = Ok st'" "cache_inv st'" "view st' = (view st)(b := patch off bytes (view st b))"
    by (auto simp del: set_append)
  have i: "inside n p (view st')" "run p H (view st') = Ok r" using Put.prems(2) r s(3) by simp_all
  show ?case using Put.IH [OF s(2) i] Put.prems(2) s(1) by (simp add: image_modify_def)
next
  case (Sync h p)
  then show ?case using sync_all_spec [OF Sync.prems(1)] by (auto split: if_splits)
qed simp_all

lemma run_image_Ok:
  assumes "cache_inv st" and "run p [] (view st) = Ok (r, d')" and "inside n p (view st)"
  shows "\<exists>st'. run_image n p st = Ok (r, st') \<and> run_cached p st = Ok (r, st') \<and> cache_inv st' \<and> view st' = d'"
  using run_cached_Ok [OF assms(1,2)] run_store_inside [OF assms(1,3,2)] by (auto simp: run_image_def run_cached_def)

lemma inside_bind:
  "\<lbrakk>inside n p d; run p [] d = Ok (a, d'); inside n (f a) d'\<rbrakk> \<Longrightarrow> inside n (bind_prog p f) d"
  by (induction p arbitrary: d) (auto split: if_splits)

lemma inside_lift [simp]: "inside n (lift_res r) d"
  by (cases r) (simp_all add: lift_res_def)

lemma inside_modify: "unat b < n \<Longrightarrow> inside n (block_modify b off m (\<lambda>bytes. Done (g bytes))) d"
  by (simp add: block_modify_def split: prod.splits)

text \<open>A program that returns whichever block past the end is locked uses none of them.\<close>

lemma inside_far: "\<forall>b. n \<le> unat b \<longrightarrow> (\<exists>r. run p [b] d = Ok r) \<Longrightarrow> inside n p d"
proof (induction p arbitrary: d)
  case (Get h b off m k)
  have "unat b < n" using Get.prems [rule_format, of b] by (auto simp: run_Get_Ok not_le [symmetric] simp del: run.simps(3))
  moreover have "inside n (k (take m (drop off (d b)))) d"
    using Get.prems by (intro Get.IH) (auto simp: run_Get_Ok simp del: run.simps(3))
  ultimately show ?case by simp
next
  case (Put h b off bytes p)
  have "unat b < n" using Put.prems [rule_format, of b] by (auto simp: run_Put_Ok not_le [symmetric] simp del: run.simps(4))
  moreover have "inside n p (d(b := patch off bytes (d b)))"
    using Put.prems by (intro Put.IH) (auto simp: run_Put_Ok simp del: run.simps(4) fun_upd_apply)
  ultimately show ?case by simp
next
  case (Sync h p)
  then show ?case by auto
qed simp_all

section \<open>The blocks that the files of an image use\<close>

lemma image_ds: "ds image_fs = 1094" "ia image_fs = 2"
proof -
  have t: "2 + 1089 * unat (1 :: u32) \<le> unat (of_nat TOTAL_BLOCKS :: u32)" "unat (of_nat TOTAL_BLOCKS :: u32) < 2 ^ 29"
    by (simp_all add: TOTAL_BLOCKS_def)
  show "ds image_fs = 1094" "ia image_fs = 2" using new_fs_geometry(2,5) [OF t] by (simp_all add: TOTAL_BLOCKS_def)
qed

lemma image_area: "in_area image_fs i \<Longrightarrow> unat (iblock image_fs i) < 1094"
  using inode_pos(1) [OF image_geometry(1)] fs_ok_bounds(8) [OF image_geometry(1)] by (simp add: in_area_def image_ds)

definition low :: "nat set" where "low = {..<IMAGE_DATA}"

lemma far_clear: "TOTAL_BLOCKS \<le> unat b \<Longrightarrow> clear_of image_fs low [b]"
proof -
  assume "TOTAL_BLOCKS \<le> unat b"
  then have b: "16384 \<le> unat b" by (simp add: TOTAL_BLOCKS_def)
  note fs = image_geometry(1)
  have "b \<noteq> iblock image_fs i" if "in_area image_fs i" for i using image_area [OF that] b by auto
  moreover have "b \<notin> bm_region (data_bitmap image_fs)" "b \<notin> bm_region (inode_bitmap image_fs)"
    using b data_region [OF fs] inode_region [OF fs] by (auto simp: image_ds)
  moreover have "b \<noteq> ucast (dblock image_fs i)" if "i \<in> data_pool image_fs \<inter> low" for i
    using that unat_dblock(2) [OF fs, of i] b by (auto simp: image_ds low_def IMAGE_DATA_def)
  ultimately show ?thesis by (simp add: clear_of_def)
qed

lemma first_bits_low:
  assumes "fs_inv image_fs F d" and "bm_used (data_bitmap image_fs) d \<subseteq> low" and "used_blocks (files image_fs F d) + k \<le> IMAGE_DATA"
  shows "first_bits image_fs k d \<subseteq> low"
  using assms(2,3) card_used [OF assms(1)] by (auto simp: first_bits_def low_def)

section \<open>Operations on an image\<close>

text \<open>A file system mounted from an image, whose files use data blocks of the image only.\<close>

definition image_mounted :: "cache_state \<Rightarrow> (nat \<rightharpoonup> file_abs) \<Rightarrow> bool" where
  "image_mounted st A = (cache_inv st \<and>
     (\<exists>F. fs_inv image_fs F (view st) \<and> files image_fs F (view st) = A \<and> bm_used (data_bitmap image_fs) (view st) \<subseteq> low))"

lemma image_mounted: "image_mounted st A \<Longrightarrow> mounted image_fs st A"
  by (auto simp: image_mounted_def mounted_def)

lemma image_step:
  assumes "image_mounted st A"
    and "\<And>F d. \<lbrakk>fs_inv image_fs F d; files image_fs F d = A; bm_used (data_bitmap image_fs) d \<subseteq> low\<rbrakk> \<Longrightarrow>
      \<exists>F' d'. run p [] d = Ok (r, d') \<and> inside TOTAL_BLOCKS p d \<and> fs_inv image_fs F' d' \<and> files image_fs F' d' = A' \<and>
        bm_used (data_bitmap image_fs) d' \<subseteq> low"
  shows "\<exists>st'. run_image TOTAL_BLOCKS p st = Ok (r, st') \<and> run_cached p st = Ok (r, st') \<and> image_mounted st' A'"
proof -
  obtain F where F: "cache_inv st" "fs_inv image_fs F (view st)" "files image_fs F (view st) = A"
    "bm_used (data_bitmap image_fs) (view st) \<subseteq> low" using assms(1) by (auto simp: image_mounted_def)
  from assms(2) [OF F(2-4)] obtain F' d' where r: "run p [] (view st) = Ok (r, d')" "inside TOTAL_BLOCKS p (view st)"
    "fs_inv image_fs F' d'" "files image_fs F' d' = A'" "bm_used (data_bitmap image_fs) d' \<subseteq> low" by blast
  from run_image_Ok [OF F(1) r(1,2)] r(3-5) show ?thesis by (auto simp: image_mounted_def)
qed

lemma image_write:
  fixes off :: usize
  assumes inv: "fs_inv image_fs F d" "bm_used (data_bitmap image_fs) d \<subseteq> low" and a: "files image_fs F d ino = Some a" and buf: "buf \<noteq> []"
    and sz: "unat off + length buf \<le> 512 * MAX_DATA"
    and room: "used_blocks (files image_fs F d) + need (length (fa_bytes a)) (unat off + length buf) \<le> IMAGE_DATA"
  shows "\<exists>F' d'. run (vfs_write_at off buf image_fs (inode_of image_fs ino)) [] d = Ok (length buf, d') \<and>
    inside TOTAL_BLOCKS (vfs_write_at off buf image_fs (inode_of image_fs ino)) d \<and> fs_inv image_fs F' d' \<and>
    files image_fs F' d' = (files image_fs F d)(ino \<mapsto> a\<lparr>fa_bytes := write_bytes (unat off) buf (fa_bytes a)\<rparr>) \<and>
    bm_used (data_bitmap image_fs) d' \<subseteq> low"
proof -
  let ?p = "modify_disk_inode (inode_of image_fs ino) (write_closure off buf image_fs)"
  note low = first_bits_low [OF inv room]
  have free: "need (length (fa_bytes a)) (unat off + length buf) \<le> card (free_data image_fs d)"
    using room by (simp add: card_free(1) [OF inv(1)] image_free IMAGE_DATA_def)
  note w = write_modify_spec [OF inv(1) a buf sz free]
  from w [OF clear_of_Nil low] obtain F' d' where r: "run ?p [] d = Ok (length buf, d')"
    "fs_inv image_fs F' d'" "files image_fs F' d' = (files image_fs F d)(ino \<mapsto> a\<lparr>fa_bytes := write_bytes (unat off) buf (fa_bytes a)\<rparr>)"
    "bm_used (data_bitmap image_fs) d' \<subseteq> low" using low by blast
  have "inside TOTAL_BLOCKS ?p d"
    using w [OF far_clear low] by (intro inside_far) blast
  then have "inside TOTAL_BLOCKS (vfs_write_at off buf image_fs (inode_of image_fs ino)) d"
    unfolding vfs_write_at_def by (rule inside_bind [OF _ r(1)]) simp
  moreover have "run (vfs_write_at off buf image_fs (inode_of image_fs ino)) [] d = Ok (length buf, d')"
    using r(1) by (simp add: vfs_write_at_def run_simps)
  ultimately show ?thesis using r(2-4) by blast
qed

lemma image_append:
  assumes inv: "fs_inv image_fs F d" "bm_used (data_bitmap image_fs) d \<subseteq> low" and a: "files image_fs F d ino = Some a" and dir: "directory a"
    and de: "length (de_name de) = 28" and sz: "length (fa_bytes a) + DIRENT_SZ \<le> 512 * MAX_DATA"
    and room: "used_blocks (files image_fs F d) + need (length (fa_bytes a)) (length (fa_bytes a) + DIRENT_SZ) \<le> IMAGE_DATA"
  shows "\<exists>F' d'. run (modify_disk_inode (inode_of image_fs ino) (append_dirent (Ok de) image_fs)) [] d = Ok ((), d') \<and>
    inside TOTAL_BLOCKS (modify_disk_inode (inode_of image_fs ino) (append_dirent (Ok de) image_fs)) d \<and> fs_inv image_fs F' d' \<and>
    files image_fs F' d' = (files image_fs F d)(ino \<mapsto> a\<lparr>fa_bytes := fa_bytes a @ as_bytes de\<rparr>) \<and>
    bm_used (data_bitmap image_fs) d' \<subseteq> low"
proof -
  let ?p = "modify_disk_inode (inode_of image_fs ino) (append_dirent (Ok de) image_fs)"
  note low = first_bits_low [OF inv room]
  have free: "need (length (fa_bytes a)) (length (fa_bytes a) + DIRENT_SZ) \<le> card (free_data image_fs d)"
    using room by (simp add: card_free(1) [OF inv(1)] image_free IMAGE_DATA_def)
  note w = append_dirent_held [OF inv(1) a dir de sz free]
  have "inside TOTAL_BLOCKS ?p d" using w [OF far_clear low] by (intro inside_far) blast
  with w [OF clear_of_Nil low] low show ?thesis by blast
qed

lemma image_ls:
  assumes "fs_inv image_fs F d" and "bm_used (data_bitmap image_fs) d \<subseteq> low" and "files image_fs F d ino = Some a" and "dir_ok (fa_bytes a)"
  shows "run (vfs_ls (inode_of image_fs ino)) [] d = Ok (map fst (dir_list (fa_bytes a)), d)"
    and "inside TOTAL_BLOCKS (vfs_ls (inode_of image_fs ino)) d"
  using vfs_ls_spec [OF assms(1,3,4)] vfs_ls_held [OF assms(1,3,4) far_clear assms(2)] by (auto intro!: inside_far)

lemma image_find:
  assumes "fs_inv image_fs F d" and "bm_used (data_bitmap image_fs) d \<subseteq> low" and "files image_fs F d ino = Some a" and "directory a"
  shows "inside TOTAL_BLOCKS (find_in_root name (inode_of image_fs ino)) d"
  using find_in_root_held(1) [OF assms(1,3,4) far_clear assms(2)] by (auto intro!: inside_far)

lemma image_alloc_inode:
  assumes inv: "fs_inv image_fs F d" and i: "i \<in> bm_pool (inode_bitmap image_fs)" "i \<notin> dom F" "\<And>j. j < i \<Longrightarrow> j \<in> dom F"
  shows "inside TOTAL_BLOCKS (alloc_inode image_fs) d"
proof (intro inside_far allI impI)
  fix b :: usize assume b: "TOTAL_BLOCKS \<le> unat b"
  show "\<exists>r. run (alloc_inode image_fs) [b] d = Ok r" using alloc_inode_held [OF inv i far_clear [OF b]] by blast
qed

lemma image_create_file:
  assumes inv: "fs_inv image_fs F d" "bm_used (data_bitmap image_fs) d \<subseteq> low" and a: "files image_fs F d 0 = Some a" and dir: "directory a"
    and nm: "good_name name" "map_of (dir_list (fa_bytes a)) name = None" and nx: "next_inode image_fs (files image_fs F d) i"
    and de: "DirEntry_new name (of_nat i) = Ok de" and sz: "length (fa_bytes a) + DIRENT_SZ \<le> 512 * MAX_DATA"
    and room: "used_blocks (files image_fs F d) + need (length (fa_bytes a)) (length (fa_bytes a) + DIRENT_SZ) \<le> IMAGE_DATA"
  shows "\<exists>F' d'. run (vfs_create name image_fs (root_inode image_fs)) [] d = Ok (Some (inode_of image_fs i), d') \<and>
    inside TOTAL_BLOCKS (vfs_create name image_fs (root_inode image_fs)) d \<and> fs_inv image_fs F' d' \<and>
    files image_fs F' d' = (files image_fs F d)(i \<mapsto> new_file File, 0 \<mapsto> a\<lparr>fa_bytes := fa_bytes a @ as_bytes de\<rparr>) \<and>
    bm_used (data_bitmap image_fs) d' \<subseteq> low"
proof -
  note fs = image_geometry(1)
  let ?A = "files image_fs F d"
  have root: "root_inode image_fs = inode_of image_fs 0" by (rule root_inode_eq [OF fs]) (simp add: image_geometry(2))
  have i: "i \<in> bm_pool (inode_bitmap image_fs)" "in_area image_fs i" "F i = None" "i \<notin> dom F" "\<And>j. j < i \<Longrightarrow> j \<in> dom F"
    using nx dom_files [of image_fs F d] unfolding next_inode_def by blast+
  have len: "length (de_name de) = 28" using DirEntry_new_good [OF nm(1), of "of_nat i"] de by auto
  obtain d1 where d1: "run (alloc_inode image_fs) [] d = Ok (of_nat i, d1)" "dev_ok d1"
      "bm_used (inode_bitmap image_fs) d1 = insert i (bm_used (inode_bitmap image_fs) d)"
      "\<And>b. b \<notin> bm_region (inode_bitmap image_fs) \<Longrightarrow> d1 b = d b"
    using alloc_inode_spec [OF inv(1) i(1,4,5)] by blast
  let ?init = "\<lambda>di. Done (DiskInode_initialize (of_nat i) File di, ())"
  obtain d2 where d2: "run (modify_disk_inode (inode_of image_fs i) ?init) [] d1 = Ok ((), d2)" "fs_inv image_fs (F(i \<mapsto> [])) d2"
      "files image_fs (F(i \<mapsto> [])) d2 = ?A(i \<mapsto> new_file File)" "bm_used (data_bitmap image_fs) d2 = bm_used (data_bitmap image_fs) d"
    using init_inode_spec [OF inv(1) i(3,2) d1(2-4)] by blast
  have ne: "0 \<noteq> i" using a i(3) by (cases i) (auto simp: files_eq_Some)
  have a2: "files image_fs (F(i \<mapsto> [])) d2 0 = Some a" using d2(3) a ne by simp
  have "used_blocks (?A(i \<mapsto> new_file File)) = used_blocks ?A"
    using used_blocks_new [of ?A i File] finite_dom_files [OF inv(1)] i(4) by (metis dom_files domIff)
  then have room2: "used_blocks (files image_fs (F(i \<mapsto> [])) d2) + need (length (fa_bytes a)) (length (fa_bytes a) + DIRENT_SZ) \<le> IMAGE_DATA"
    using room unfolding d2(3) by simp
  let ?app = "modify_disk_inode (inode_of image_fs 0) (append_dirent (Ok de) image_fs)"
  obtain F' d3 where d3: "run ?app [] d2 = Ok ((), d3)" "inside TOTAL_BLOCKS ?app d2" "fs_inv image_fs F' d3"
      "files image_fs F' d3 = ?A(i \<mapsto> new_file File, 0 \<mapsto> a\<lparr>fa_bytes := fa_bytes a @ as_bytes de\<rparr>)"
      "bm_used (data_bitmap image_fs) d3 \<subseteq> low"
    using image_append [OF d2(2) inv(2) [folded d2(4)] a2 dir len sz room2] unfolding d2(3) by blast
  define b off where "b = fst (get_disk_inode_pos (of_nat i) image_fs)" and "off = snd (get_disk_inode_pos (of_nat i) image_fs)"
  have pos: "get_disk_inode_pos (of_nat i) image_fs = (b, off)" by (simp add: b_def off_def)
  have new: "Inode_new b off = inode_of image_fs i" using inode_of_pos [OF fs i(2)] by (simp add: pos)
  have upd: "modify_disk_inode (inode_of image_fs i) ?init =
      block_modify (ucast b) off INODE_SZ (\<lambda>bytes. Done (encode_inode (DiskInode_initialize (of_nat i) File (decode_inode bytes)) bytes, ()))"
    unfolding new [symmetric] by (simp add: modify_disk_inode_def Inode_new_def)
  have ub: "unat (ucast b :: usize) < TOTAL_BLOCKS"
    using image_area [OF i(2)] new by (simp add: Inode_new_def inode_of_def TOTAL_BLOCKS_def)
  have found: "run (find_in_root name (inode_of image_fs 0)) [] d = Ok (None, d)"
    using find_in_root_spec(1) [OF inv(1) a dir, of name] nm(2) by simp
  have "inside TOTAL_BLOCKS (vfs_create name image_fs (inode_of image_fs 0)) d"
    unfolding vfs_create_def find_in_root_def [symmetric]
    apply (rule inside_bind [OF image_find [OF inv a dir] found])
    apply (simp only: simp_thms if_False)
    apply (rule inside_bind [OF image_alloc_inode [OF inv(1) i(1,4,5)] d1(1)])
     apply assumption
    apply (simp only: pos prod.case de)
    apply (rule inside_bind [OF inside_modify [OF ub] d2(1) [unfolded upd]])
    apply (rule inside_bind [OF d3(2,1)])
    apply (simp add: lift_res_def)
    done
  moreover have "run (vfs_create name image_fs (inode_of image_fs 0)) [] d = Ok (Some (inode_of image_fs i), d3)"
    using found d1(1) d2(1) d3(1) de
    unfolding vfs_create_def find_in_root_def upd by (simp add: run_simps pos new)
  ultimately show ?thesis using d3(3-5) unfolding root by blast
qed

text \<open>\<^verbatim>\<open>EasyFileSystem::create\<close> clears the blocks of the image and no others.\<close>

lemma image_create:
  assumes d: "dev_ok d" and z: "\<And>b. TOTAL_BLOCKS \<le> unat b \<Longrightarrow> d b = replicate BLOCK_SZ 0"
  shows "inside TOTAL_BLOCKS (efs_create (of_nat TOTAL_BLOCKS) 1) d"
proof -
  let ?total = "of_nat TOTAL_BLOCKS :: u32" and ?fs = image_fs
  have ut: "unat ?total = TOTAL_BLOCKS" by (simp add: TOTAL_BLOCKS_def)
  have t: "2 + 1089 * unat (1 :: u32) \<le> unat ?total" "unat ?total < 2 ^ 29" "0 < unat (1 :: u32)"
    by (simp_all add: TOTAL_BLOCKS_def)
  note ok = image_geometry(1)
  define iab :: u32 where "iab = ucast ((max_bits (Bitmap_new 1 (ucast (1 :: u32))) * of_nat INODE_SZ + of_nat BLOCK_SZ - 1) div of_nat BLOCK_SZ)"
  define dbb where "dbb = (?total - 1 - (1 + iab) + 4096) div 4097"
  define sb where "sb = SuperBlock_initialize ?total 1 iab dbb (?total - 1 - (1 + iab) - dbb)"
  have fs: "?fs = \<lparr>inode_bitmap = Bitmap_new 1 (ucast (1 :: u32)), data_bitmap = Bitmap_new (ucast (1 + 1 + iab)) (ucast dbb),
      inode_area_start_block = 1 + 1, data_area_start_block = 1 + (1 + iab) + dbb\<rparr>"
    by (simp only: new_fs_def Let_def iab_def dbb_def)
  let ?clear = "fold_prog (\<lambda>i _. clear_block (of_nat i)) [0..<unat ?total] ()"
  have zeros: "(\<lambda>b. if unat b < TOTAL_BLOCKS then replicate BLOCK_SZ 0 else d b) = (\<lambda>_. replicate BLOCK_SZ 0)"
    using z by (auto simp: not_less)
  have small: "TOTAL_BLOCKS < 2 ^ 64" by (simp add: TOTAL_BLOCKS_def)
  have clear: "run ?clear H d = Ok ((), \<lambda>_. replicate BLOCK_SZ 0)" if "length H < BLOCK_CACHE_MAX_NUM" "\<forall>b \<in> set H. TOTAL_BLOCKS \<le> unat b" for H
    using clear_all_spec [OF d small that] unfolding zeros ut .
  have far: "length [b] < BLOCK_CACHE_MAX_NUM" "\<forall>c \<in> set [b]. TOTAL_BLOCKS \<le> unat c" if "TOTAL_BLOCKS \<le> unat b" for b :: usize
    using that by (simp_all add: BLOCK_CACHE_MAX_NUM_def)
  have c: "inside TOTAL_BLOCKS ?clear d" "run ?clear [] d = Ok ((), \<lambda>_. replicate BLOCK_SZ 0)"
    using clear [OF far] by (blast intro: inside_far, intro clear) (simp_all add: BLOCK_CACHE_MAX_NUM_def)
  have s: "run (block_modify 0 0 24 (\<lambda>_. Done (encode_super sb, ()))) [] (\<lambda>_. replicate BLOCK_SZ 0) = Ok ((), blank sb)"
    by (rule run_super) (simp_all add: BLOCK_CACHE_MAX_NUM_def)
  have inv: "fs_inv ?fs Map.empty (blank sb)" by (rule fs_inv_blank [OF t])
  have i0: "0 \<in> bm_pool (inode_bitmap ?fs)" "0 \<notin> dom Map.empty" "\<And>j. j < (0 :: nat) \<Longrightarrow> j \<in> dom Map.empty" "in_area ?fs 0"
    by (simp_all only: image_geometry(2,3)) simp_all
  obtain d3 where a: "run (alloc_inode ?fs) [] (blank sb) = Ok (0, d3)"
    using alloc_inode_spec [OF inv i0(1)] by auto
  define bl off where "bl = fst (get_disk_inode_pos 0 ?fs)" and "off = snd (get_disk_inode_pos 0 ?fs)"
  have pos: "get_disk_inode_pos 0 ?fs = (bl, off)" by (simp add: bl_def off_def)
  have "Inode_new bl off = inode_of ?fs 0" using inode_of_pos [OF ok i0(4)] by (simp add: pos)
  then have ub: "unat (ucast bl :: usize) < TOTAL_BLOCKS"
    using image_area [OF i0(4)] by (simp add: Inode_new_def inode_of_def TOTAL_BLOCKS_def)
  have last: "inside TOTAL_BLOCKS (bind_prog (block_modify (ucast bl) off INODE_SZ (\<lambda>bytes.
        Done (encode_inode (DiskInode_initialize 0 Directory (decode_inode bytes)) bytes, ()))) (\<lambda>_. Sync [] (Done ?fs))) d3"
    using ub by (simp add: block_modify_def split: prod.splits)
  show ?thesis
    unfolding efs_create_def Let_def iab_def [symmetric] dbb_def [symmetric] fs [symmetric] sb_def [symmetric]
    apply (rule inside_bind [OF c])
    apply (rule inside_bind [OF inside_modify s])
     apply (simp add: TOTAL_BLOCKS_def)
    apply (rule inside_bind [OF image_alloc_inode [OF inv i0(1,2,3)] a])
     apply assumption
    apply (simp only: pos prod.case)
    apply (rule inside_bind [OF inside_lift, where d' = d3 and a = "()"])
     apply (simp add: run_simps)
    apply (rule last)
    done
qed

section \<open>Packing the applications\<close>

lemma image_mounted_create:
  assumes m: "image_mounted st A" and r: "A 0 = Some r" "directory r"
    and nm: "good_name name" "name \<notin> fst ` set (dir_list (fa_bytes r))" and nx: "next_inode image_fs A i"
    and sz: "length (fa_bytes r) + DIRENT_SZ \<le> 512 * MAX_DATA"
    and room: "used_blocks A + need (length (fa_bytes r)) (length (fa_bytes r) + DIRENT_SZ) \<le> IMAGE_DATA"
  shows "\<exists>de st'. DirEntry_new name (of_nat i) = Ok de \<and>
    run_image TOTAL_BLOCKS (vfs_create name image_fs (root_inode image_fs)) st = Ok (Some (inode_of image_fs i), st') \<and>
    image_mounted st' (A(i \<mapsto> new_file File, 0 \<mapsto> r\<lparr>fa_bytes := fa_bytes r @ as_bytes de\<rparr>))"
proof -
  obtain de where de: "DirEntry_new name (of_nat i) = Ok de" using DirEntry_new_good [OF nm(1)] by blast
  have fresh: "map_of (dir_list (fa_bytes r)) name = None" using nm(2) by (simp add: map_of_eq_None_iff)
  let ?A' = "A(i \<mapsto> new_file File, 0 \<mapsto> r\<lparr>fa_bytes := fa_bytes r @ as_bytes de\<rparr>)"
  let ?p = "vfs_create name image_fs (root_inode image_fs)"
  have "\<exists>st'. run_image TOTAL_BLOCKS ?p st = Ok (Some (inode_of image_fs i), st') \<and>
    run_cached ?p st = Ok (Some (inode_of image_fs i), st') \<and> image_mounted st' ?A'"
  proof (rule image_step [OF m])
    fix F d assume v: "fs_inv image_fs F d" "files image_fs F d = A" "bm_used (data_bitmap image_fs) d \<subseteq> low"
    show "\<exists>F' d'. run ?p [] d = Ok (Some (inode_of image_fs i), d') \<and> inside TOTAL_BLOCKS ?p d \<and> fs_inv image_fs F' d' \<and>
      files image_fs F' d' = ?A' \<and> bm_used (data_bitmap image_fs) d' \<subseteq> low"
      using image_create_file [OF v(1,3) _ r(2) nm(1) fresh _ de sz, unfolded v(2), OF r(1) nx room] .
  qed
  with de show ?thesis by blast
qed

lemma image_mounted_write:
  assumes m: "image_mounted st A" and f: "A ino = Some f" and buf: "buf \<noteq> []" and sz: "unat off + length buf \<le> 512 * MAX_DATA"
    and room: "used_blocks A + need (length (fa_bytes f)) (unat off + length buf) \<le> IMAGE_DATA"
  shows "\<exists>st'. run_image TOTAL_BLOCKS (vfs_write_at off buf image_fs (inode_of image_fs ino)) st = Ok (length buf, st') \<and>
    image_mounted st' (A(ino \<mapsto> f\<lparr>fa_bytes := write_bytes (unat off) buf (fa_bytes f)\<rparr>)) \<and> synced st'"
proof -
  let ?A' = "A(ino \<mapsto> f\<lparr>fa_bytes := write_bytes (unat off) buf (fa_bytes f)\<rparr>)"
  let ?p = "vfs_write_at off buf image_fs (inode_of image_fs ino)"
  have "\<exists>st'. run_image TOTAL_BLOCKS ?p st = Ok (length buf, st') \<and> run_cached ?p st = Ok (length buf, st') \<and> image_mounted st' ?A'"
  proof (rule image_step [OF m])
    fix F d assume v: "fs_inv image_fs F d" "files image_fs F d = A" "bm_used (data_bitmap image_fs) d \<subseteq> low"
    show "\<exists>F' d'. run ?p [] d = Ok (length buf, d') \<and> inside TOTAL_BLOCKS ?p d \<and> fs_inv image_fs F' d' \<and>
      files image_fs F' d' = ?A' \<and> bm_used (data_bitmap image_fs) d' \<subseteq> low"
      using image_write [OF v(1,3) _ buf sz, unfolded v(2), OF f room] .
  qed
  moreover have "fits image_fs A f (unat off + length buf)" using sz room by (simp add: fits_def image_free IMAGE_DATA_def)
  ultimately show ?thesis using mounted_write [OF image_mounted [OF m] f buf] by fastforce
qed

lemma pack_app_step:
  assumes m: "image_mounted st A" and inv: "image_inv A apps" and h: "host nm = Some data" and nm: "good_name nm" "nm \<notin> fst ` set apps"
    and data: "data \<noteq> []" "length data \<le> 512 * MAX_DATA" and room: "image_blocks (apps @ [(nm, data)]) \<le> IMAGE_DATA" "length apps < 3263"
  shows "\<exists>st' A'. run_image TOTAL_BLOCKS (pack_app image_fs host nm) st = Ok ((), st') \<and> image_mounted st' A' \<and> synced st' \<and>
    image_inv A' (apps @ [(nm, data)])"
proof -
  let ?n = "length apps" and ?i = "Suc (length apps)"
  note g = image_geometry
  from inv obtain r where r: "A 0 = Some r" "directory r" "dir_list (fa_bytes r) = map (\<lambda>i. (fst (apps ! i), of_nat (Suc i))) [0..<?n]"
    "length (fa_bytes r) = DIRENT_SZ * ?n"
    and A: "\<And>i. A (Suc i) = (if i < ?n then Some \<lparr>fa_bytes = snd (apps ! i), fa_nlink = 1, fa_type = File\<rparr> else None)"
    and fin: "finite (dom A)" and used: "used_blocks A = image_blocks apps" by (auto simp: image_inv_def holds_apps_def)
  have sum: "image_blocks apps + (file_blocks (DIRENT_SZ * ?i) - file_blocks (DIRENT_SZ * ?n)) + file_blocks (length data) = image_blocks (apps @ [(nm, data)])"
    using file_blocks_mono [of "DIRENT_SZ * ?n" "DIRENT_SZ * ?i"] by (simp add: image_blocks_snoc) (simp add: image_blocks_def)
  have "\<forall>i < ?n. fst (apps ! i) \<noteq> nm" using nm(2) by (metis imageI nth_mem)
  then have fresh: "nm \<notin> fst ` set (dir_list (fa_bytes r))" by (auto simp: r(3))
  have nx: "next_inode image_fs A ?i"
    using A r(1) room(2) g(2,3) by (auto simp: next_inode_def gr0_conv_Suc less_Suc_eq_0_disj)
  have e: "DIRENT_SZ * ?n + DIRENT_SZ = DIRENT_SZ * ?i" by simp
  have ft: "length (fa_bytes r) + DIRENT_SZ \<le> 512 * MAX_DATA"
    "used_blocks A + need (length (fa_bytes r)) (length (fa_bytes r) + DIRENT_SZ) \<le> IMAGE_DATA"
    unfolding used r(4) need_def file_blocks_def [symmetric] e using room sum by (simp_all add: MAX_DATA_def DIRENT_SZ_def)
  from image_mounted_create [OF m r(1,2) nm(1) fresh nx ft]
  obtain de st1 where c: "DirEntry_new nm (of_nat ?i) = Ok de"
    "run_image TOTAL_BLOCKS (vfs_create nm image_fs (root_inode image_fs)) st = Ok (Some (inode_of image_fs ?i), st1)"
    "image_mounted st1 (A(?i \<mapsto> new_file File, 0 \<mapsto> r\<lparr>fa_bytes := fa_bytes r @ as_bytes de\<rparr>))" by blast
  have de: "length (de_name de) = 28" "dirent_name de = Ok nm" "inode_number de = of_nat ?i"
    using DirEntry_new_good [OF nm(1), of "of_nat ?i"] c(1) by auto
  define A1 where "A1 = A(?i \<mapsto> new_file File, 0 \<mapsto> r\<lparr>fa_bytes := fa_bytes r @ as_bytes de\<rparr>)"
  define A2 where "A2 = A1(?i \<mapsto> (new_file File)\<lparr>fa_bytes := data\<rparr>)"
  have Ai: "A ?i = None" using A [of ?n] by simp
  have lde: "length (as_bytes de) = DIRENT_SZ" by (rule length_as_bytes [OF de(1)])
  have u1: "used_blocks A1 + file_blocks (DIRENT_SZ * ?n) = image_blocks apps + file_blocks (DIRENT_SZ * ?i)"
    using used_blocks_upd [of "A(?i \<mapsto> new_file File)" 0 r "r\<lparr>fa_bytes := fa_bytes r @ as_bytes de\<rparr>"] used_blocks_new [OF fin Ai, of File]
      fin r(1,4) used lde by (simp add: A1_def file_blocks_def add.commute [of DIRENT_SZ])
  have f1: "A1 ?i = Some (new_file File)" "finite (dom A1)" using fin by (simp_all add: A1_def)
  have nf: "fa_bytes (new_file File) = []" by (simp add: new_file_def)
  have z: "file_blocks 0 = 0" by (simp add: file_blocks_def nblk_def tot_def)
  have ft2: "unat (0 :: usize) + length data \<le> 512 * MAX_DATA"
    "used_blocks A1 + need (length (fa_bytes (new_file File))) (unat (0 :: usize) + length data) \<le> IMAGE_DATA"
    using room(1) sum u1 data(2) file_blocks_mono [of "DIRENT_SZ * ?n" "DIRENT_SZ * ?i"] z
    by (simp_all add: need_def nf file_blocks_def [symmetric])
  have wb: "write_bytes (unat (0 :: usize)) data (fa_bytes (new_file File)) = data"
    by (simp add: nf write_bytes_def extend_def patch_def)
  obtain st2 where w: "run_image TOTAL_BLOCKS (vfs_write_at 0 data image_fs (inode_of image_fs ?i)) st1 = Ok (length data, st2)"
    "image_mounted st2 A2" "synced st2"
    using image_mounted_write [OF c(3) [folded A1_def] f1(1) data(1) ft2] unfolding wb A2_def by blast
  have u2: "used_blocks A2 = image_blocks (apps @ [(nm, data)])"
    using used_blocks_upd [OF f1(2,1), of "(new_file File)\<lparr>fa_bytes := data\<rparr>"] u1 sum z
      file_blocks_mono [of "DIRENT_SZ * ?n" "DIRENT_SZ * ?i"] by (simp add: A2_def nf file_blocks_def [symmetric])
  have dir: "dir_ok (fa_bytes r)" using r(2) by (simp add: directory_def)
  have "holds_apps A2 (apps @ [(nm, data)])"
    using r(2,3) A dir_append [OF dir de(1,2)] de(3)
    by (auto simp: holds_apps_def A2_def A1_def directory_def new_file_def nth_append less_Suc_eq)
  then have "image_inv A2 (apps @ [(nm, data)])"
    using u2 f1(2) r(4) lde by (simp add: image_inv_def A2_def) (simp add: A1_def)
  moreover have "run_image TOTAL_BLOCKS (pack_app image_fs host nm) st = Ok ((), st2)"
    by (simp add: pack_app_def run_image_bind run_image_lift run_image_Done h c(2) w(1))
  ultimately show ?thesis using w(2,3) by blast
qed

lemma pack_loop:
  assumes "packable (apps @ rest)" and "\<forall>(nm, data) \<in> set rest. host nm = Some data"
    and "image_mounted st A" and "image_inv A apps"
  shows "\<exists>st' A'. run_image TOTAL_BLOCKS (fold_prog (\<lambda>app _. pack_app image_fs host app) (map fst rest) ()) st = Ok ((), st') \<and>
    image_mounted st' A' \<and> (rest \<noteq> [] \<or> synced st \<longrightarrow> synced st') \<and> image_inv A' (apps @ rest)"
  using assms
proof (induction rest arbitrary: apps st A)
  case Nil
  then show ?case by (auto simp: run_image_def)
next
  case (Cons x rest)
  obtain nm data where x: "x = (nm, data)" by (cases x)
  have p: "good_name nm" "nm \<notin> fst ` set apps" "data \<noteq> []" "length data \<le> 512 * MAX_DATA" "length apps < 3263" "host nm = Some data"
    using Cons.prems(1,2) by (auto simp: packable_def x)
  have b: "image_blocks (apps @ [(nm, data)]) \<le> IMAGE_DATA"
    using image_blocks_le [of "apps @ [(nm, data)]" rest] Cons.prems(1) by (simp add: packable_def x)
  obtain st1 A1 where s: "run_image TOTAL_BLOCKS (pack_app image_fs host nm) st = Ok ((), st1)" "image_mounted st1 A1" "synced st1"
    "image_inv A1 (apps @ [(nm, data)])"
    using pack_app_step [where host = host, OF Cons.prems(3,4) p(6,1,2,3,4) b p(5)] by blast
  have "packable ((apps @ [(nm, data)]) @ rest)" using Cons.prems(1) by (simp add: x)
  from Cons.IH [OF this _ s(2,4)] Cons.prems(2) s(3)
  show ?case by (simp add: x run_image_bind s(1))
qed

lemma image_created:
  assumes img: "length img = 512 * TOTAL_BLOCKS"
  shows "\<exists>st. run_image TOTAL_BLOCKS (efs_create (of_nat TOTAL_BLOCKS) 1) \<lparr>cache_queue = [], block_device = dev_of img\<rparr> = Ok (image_fs, st) \<and>
    image_mounted st [0 \<mapsto> new_file Directory]"
proof -
  let ?st = "\<lparr>cache_queue = [], block_device = dev_of img\<rparr>"
  have v: "view ?st = dev_of img" and ci: "cache_inv ?st" by (auto simp: view_def cache_inv_def dev_of_def BLOCK_SZ_def)
  have d: "dev_ok (view ?st)" by (simp add: v dev_ok_def dev_of_def BLOCK_SZ_def)
  have t: "2 + 1089 * unat (1 :: u32) \<le> unat (of_nat TOTAL_BLOCKS :: u32)" "unat (of_nat TOTAL_BLOCKS :: u32) < 2 ^ 29" "0 < unat (1 :: u32)"
    and ut: "unat (of_nat TOTAL_BLOCKS :: u32) = TOTAL_BLOCKS"
    by (simp_all add: TOTAL_BLOCKS_def)
  have z: "view ?st b = replicate BLOCK_SZ 0" if "TOTAL_BLOCKS \<le> unat b" for b
  proof -
    have "\<not> 512 * unat b + 512 \<le> length img" using that img by linarith
    then show ?thesis unfolding v dev_of_def by (rule if_not_P)
  qed
  have z': "view ?st b = replicate BLOCK_SZ 0" if "unat (of_nat TOTAL_BLOCKS :: u32) \<le> unat b" for b using z that by (simp only: ut)
  obtain d' where d': "run (efs_create (of_nat TOTAL_BLOCKS) 1) [] (view ?st) = Ok (image_fs, d')" "fs_inv image_fs [0 \<mapsto> []] d'"
      "files image_fs [0 \<mapsto> []] d' = [0 \<mapsto> new_file Directory]"
    using efs_create_spec [OF t d z'] by blast
  have "bm_used (data_bitmap image_fs) d' = {}"
    using card_used [OF d'(2)] unfolding d'(3) by (simp add: used_blocks_def new_file_def nblk_def tot_def)
  with run_image_Ok [OF ci d'(1) image_create [OF d z]] d'(2,3) show ?thesis by (auto simp: image_mounted_def)
qed

lemma image_listed:
  assumes m: "image_mounted st A" and h: "holds_apps A apps"
  shows "\<exists>st'. run_image TOTAL_BLOCKS (vfs_ls (root_inode image_fs)) st = Ok (map fst apps, st') \<and> image_mounted st' A"
proof -
  obtain r where r: "A 0 = Some r" "directory r" "dir_list (fa_bytes r) = map (\<lambda>i. (fst (apps ! i), of_nat (Suc i))) [0..<length apps]"
    using h by (auto simp: holds_apps_def)
  have names: "map fst (dir_list (fa_bytes r)) = map fst apps" by (rule nth_equalityI) (simp_all add: r(3))
  have dir: "dir_ok (fa_bytes r)" using r(2) by (simp add: directory_def)
  have root: "root_inode image_fs = inode_of image_fs 0" by (rule root_inode_eq [OF image_geometry(1)]) (simp add: image_geometry(2))
  have "\<exists>st'. run_image TOTAL_BLOCKS (vfs_ls (root_inode image_fs)) st = Ok (map fst apps, st') \<and>
    run_cached (vfs_ls (root_inode image_fs)) st = Ok (map fst apps, st') \<and> image_mounted st' A"
  proof (rule image_step [OF m])
    fix F d assume v: "fs_inv image_fs F d" "files image_fs F d = A" "bm_used (data_bitmap image_fs) d \<subseteq> low"
    have a: "files image_fs F d 0 = Some r" using v(2) r(1) by simp
    show "\<exists>F' d'. run (vfs_ls (root_inode image_fs)) [] d = Ok (map fst apps, d') \<and> inside TOTAL_BLOCKS (vfs_ls (root_inode image_fs)) d \<and>
      fs_inv image_fs F' d' \<and> files image_fs F' d' = A \<and> bm_used (data_bitmap image_fs) d' \<subseteq> low"
      using image_ls [OF v(1,3) a dir] v unfolding root names by blast
  qed
  then show ?thesis by blast
qed

end
