(* ===== verification/ImageProperties.thy ===== *)
theory ImageProperties
  imports ImageRun
begin

text \<open>What the builder of disk images promises.\<close>

text \<open>
  A file as a block device. However blocks inside an image file are read and written, every read gives the block
  that the device has, no assertion fails, and the file keeps its length and stays the image of the device.
\<close>

theorem block_file_refines_device:
  assumes "length img = 512 * n" and "n \<le> 2 ^ 32" and "\<forall>a \<in> set ops. op_inside n a"
  shows "\<exists>img'. file_ops ops img = Ok (fst (device_ops ops (dev_of img)), img') \<and> length img' = length img \<and>
    dev_of img' = snd (device_ops ops (dev_of img))"
  by (rule file_ops_device [OF assms])

theorem block_file_refines_device_witness:
  "\<exists>img'. file_ops [WriteBlock 1 (replicate 512 7), ReadBlock 0, ReadBlock 1] (replicate 1024 3) =
     Ok ([replicate 512 3, replicate 512 7], img') \<and> length img' = 1024"
proof -
  let ?ops = "[WriteBlock 1 (replicate 512 7), ReadBlock 0, ReadBlock 1]"
  have n: "length (replicate 1024 (3 :: u8)) = 512 * 2" "(2 :: nat) \<le> 2 ^ 32" "\<forall>a \<in> set ?ops. op_inside 2 a" by simp_all
  have "fst (device_ops ?ops (dev_of (replicate 1024 3))) = [replicate 512 3, replicate 512 7]" by (simp add: dev_of_def)
  with block_file_refines_device [OF n] show ?thesis by auto
qed

text \<open>
  C22: packing. When the source files have names with a dot, whose parts before the first dot are distinct names of at
  most 27 bytes, each with a file of the target directory that is neither empty nor larger than a file can be, there
  are at most 3263 of them, and the files and the directory take at most the 15290 data blocks of the image,
  \<^verbatim>\<open>easy_fs_pack\<close> returns on an image file of 16384 blocks, whatever the file held before, and uses no block past the end of
  the file, where an access panics: the file system on it holds, from inode 1 on and in the order of
  the source directory, a file for each application with exactly its bytes and a directory that names them, all
  on the device when there is an application; and the list it prints is that of the names.
\<close>

theorem pack_image_correct:
  assumes pk: "packable apps" and host: "\<forall>(nm, data) \<in> set apps. host nm = Some data"
    and entries: "list_all2 (\<lambda>e nm. \<exists>ext. e = nm @ 46 # ext \<and> 46 \<notin> set nm) entries (map fst apps)"
    and img: "length img = 512 * TOTAL_BLOCKS"
  shows "\<exists>fs st1 st2 A. run_image TOTAL_BLOCKS (pack_apps host entries) \<lparr>cache_queue = [], block_device = dev_of img\<rparr> = Ok (fs, st1) \<and>
    mounted fs st1 A \<and> holds_apps A apps \<and> (apps \<noteq> [] \<longrightarrow> synced st1) \<and>
    run_image TOTAL_BLOCKS (easy_fs_pack host entries) \<lparr>cache_queue = [], block_device = dev_of img\<rparr> = Ok (map fst apps, st2)"
proof -
  let ?st = "\<lparr>cache_queue = [], block_device = dev_of img\<rparr>"
  obtain st0 where st0: "run_image TOTAL_BLOCKS (efs_create (of_nat TOTAL_BLOCKS) 1) ?st = Ok (image_fs, st0)"
    "image_mounted st0 [0 \<mapsto> new_file Directory]" using image_created [OF img] by blast
  have pk': "packable ([] @ apps)" using pk by simp
  obtain st1 A where l: "run_image TOTAL_BLOCKS (fold_prog (\<lambda>app _. pack_app image_fs host app) (map fst apps) ()) st0 = Ok ((), st1)"
    "image_mounted st1 A" "apps \<noteq> [] \<longrightarrow> synced st1" "image_inv A apps"
    using pack_loop [OF pk' host st0(2) image_inv_new] by auto
  have run: "run_image TOTAL_BLOCKS (pack_apps host entries) ?st = Ok (image_fs, st1)"
    by (simp add: pack_apps_def run_image_bind run_image_lift run_image_Done st0(1) app_names_dots [OF entries] l(1))
  have h: "holds_apps A apps" using l(4) by (simp add: image_inv_def)
  obtain st2 where "run_image TOTAL_BLOCKS (vfs_ls (root_inode image_fs)) st1 = Ok (map fst apps, st2)"
    using image_listed [OF l(2) h] by blast
  then have "run_image TOTAL_BLOCKS (easy_fs_pack host entries) ?st = Ok (map fst apps, st2)"
    by (simp add: easy_fs_pack_def run_image_bind run)
  with run image_mounted [OF l(2)] l(3) h show ?thesis by blast
qed

theorem pack_image_correct_witness:
  "\<exists>fs st A. run_image TOTAL_BLOCKS (pack_apps [[97] \<mapsto> [1, 2], [98] \<mapsto> [3]] [[97, 46, 114], [98, 46, 114, 115]])
       \<lparr>cache_queue = [], block_device = dev_of (replicate (512 * TOTAL_BLOCKS) 9)\<rparr> = Ok (fs, st) \<and> synced st \<and>
     mounted fs st A \<and> map_option fa_bytes (A 1) = Some [1, 2] \<and> map_option fa_bytes (A 2) = Some [3] \<and> A 3 = None"
proof -
  let ?apps = "[([97], [1, 2]), ([98], [3])] :: (u8 list \<times> u8 list) list"
  let ?host = "[[97] \<mapsto> [1, 2], [98] \<mapsto> [3]] :: u8 list \<Rightarrow> u8 list option"
  have p: "packable ?apps"
    by (simp add: packable_def IMAGE_DATA_def good_name_def NAME_LENGTH_LIMIT_def MAX_DATA_def image_blocks_def file_blocks_def nblk_def tot_def DIRENT_SZ_def)
  have h: "\<forall>(nm, data) \<in> set ?apps. ?host nm = Some data" by simp
  have e: "list_all2 (\<lambda>e nm. \<exists>ext. e = nm @ 46 # ext \<and> 46 \<notin> set nm) [[97, 46, 114], [98, 46, 114, 115]] (map fst ?apps)" by simp
  have "length (replicate (512 * TOTAL_BLOCKS) (9 :: u8)) = 512 * TOTAL_BLOCKS" by simp
  from pack_image_correct [OF p h e this] obtain fs st A where
    r: "run_image TOTAL_BLOCKS (pack_apps ?host [[97, 46, 114], [98, 46, 114, 115]]) \<lparr>cache_queue = [], block_device = dev_of (replicate (512 * TOTAL_BLOCKS) 9)\<rparr> = Ok (fs, st)"
    "synced st" "mounted fs st A" and a: "holds_apps A ?apps" by blast
  have "A (Suc i) = (if i < length ?apps then Some \<lparr>fa_bytes = snd (?apps ! i), fa_nlink = 1, fa_type = File\<rparr> else None)" for i
    using a by (simp add: holds_apps_def)
  from this [of 0] this [of 1] this [of 2] r show ?thesis by (auto simp: numeral_2_eq_2 numeral_3_eq_3)
qed

end
