(* ===== verification/VirtioDma.thy ===== *)
theory VirtioDma
  imports Boot
begin

text \<open>
  \<^verbatim>\<open>os/src/drivers/block/virtio_blk.rs\<close>: the functions that the virtio driver calls for its queues. The driver itself is a
  crate. \<open>QUEUE_FRAMES\<close> keeps the trackers of the frames for ever; here it is the list of their numbers, next to the
  state of memory. The state after a failed assertion does not matter.
\<close>

type_synonym dma_state = "PhysPageNum list \<times> mm_state"

fun dma_alloc_loop :: "nat list \<Rightarrow> PhysPageNum \<Rightarrow> dma_state \<Rightarrow> (PhysPageNum \<times> dma_state) res" where
  "dma_alloc_loop [] ppn_base st = Ok (ppn_base, st)"
| "dma_alloc_loop (i # rest) ppn_base (queue_frames, s) = (case frame_alloc s of
     (None, s) \<Rightarrow> Panic UnwrapNone
   | (Some ppn, s) \<Rightarrow> (let ppn_base = (if i = 0 then ppn else ppn_base) in
       bind_res (assert_that (ppn0 ppn = ppn0 ppn_base + of_nat i)) (\<lambda>_.
       dma_alloc_loop rest ppn_base (queue_frames @ [ppn], s))))"

definition virtio_dma_alloc :: "nat \<Rightarrow> dma_state \<Rightarrow> (PhysAddr \<times> dma_state) res" where
  "virtio_dma_alloc pages st =
     bind_res (dma_alloc_loop [0..<pages] (PhysPageNum 0) st) (\<lambda>(ppn_base, st). Ok (PhysAddr_from_ppn ppn_base, st))"

fun dma_dealloc_loop :: "nat \<Rightarrow> PhysPageNum \<Rightarrow> mm_state \<Rightarrow> mm_state res" where
  "dma_dealloc_loop 0 ppn_base s = Ok s"
| "dma_dealloc_loop (Suc n) ppn_base s =
     bind_res (frame_dealloc ppn_base s) (dma_dealloc_loop n (PhysPageNum (ppn0 ppn_base + 1)))"

definition virtio_dma_dealloc :: "PhysAddr \<Rightarrow> nat \<Rightarrow> dma_state \<Rightarrow> (int \<times> dma_state) res" where
  "virtio_dma_dealloc pa pages st = (case st of (queue_frames, s) \<Rightarrow>
     bind_res (PhysPageNum_from_pa pa) (\<lambda>ppn_base.
     bind_res (dma_dealloc_loop pages ppn_base s) (\<lambda>s. Ok (0, queue_frames, s))))"

definition virtio_phys_to_virt :: "PhysAddr \<Rightarrow> VirtAddr" where
  "virtio_phys_to_virt paddr = VirtAddr (pa0 paddr)"

definition virtio_virt_to_phys :: "usize \<Rightarrow> VirtAddr \<Rightarrow> mm_state \<Rightarrow> PhysAddr res" where
  "virtio_virt_to_phys kernel_token vaddr s = unwrap (translate_va (from_token kernel_token) vaddr s)"

section \<open>Runs of frames\<close>

text \<open>The frames from \<open>c\<close> on.\<close>

definition run_of :: "usize \<Rightarrow> nat \<Rightarrow> PhysPageNum list" where
  "run_of c n = map (\<lambda>i. PhysPageNum (c + of_nat i)) [0..<n]"

lemma run_of_Suc: "run_of c (Suc n) = PhysPageNum c # run_of (c + 1) n"
  by (simp add: run_of_def upt_conv_Cons map_Suc_upt [symmetric] del: upt_Suc)

lemma frame_alloc_fresh:
  assumes inv: "frames_inv l s" and r: "fa_recycled (FRAME_ALLOCATOR s) = []"
    and c: "unat (fa_current (FRAME_ALLOCATOR s)) < unat (fa_end (FRAME_ALLOCATOR s))"
  shows "\<exists>s'. frame_alloc s = (Some (PhysPageNum (fa_current (FRAME_ALLOCATOR s))), s') \<and> frames_inv l s' \<and>
    FRAME_ALLOCATOR s' = (FRAME_ALLOCATOR s)\<lparr>fa_current := fa_current (FRAME_ALLOCATOR s) + 1\<rparr> \<and>
    unat (fa_current (FRAME_ALLOCATOR s')) = unat (fa_current (FRAME_ALLOCATOR s)) + 1"
proof -
  have "fa_current (FRAME_ALLOCATOR s) \<noteq> fa_end (FRAME_ALLOCATOR s)" using c by auto
  note f = fa_alloc_fresh [OF inv [unfolded frames_inv_def] r this]
  then have al: "frame_alloc s = (Some (PhysPageNum (fa_current (FRAME_ALLOCATOR s))),
      FrameTracker_new (PhysPageNum (fa_current (FRAME_ALLOCATOR s))) (s\<lparr>FRAME_ALLOCATOR := (FRAME_ALLOCATOR s)\<lparr>fa_current := fa_current (FRAME_ALLOCATOR s) + 1\<rparr>\<rparr>))"
    by (simp add: frame_alloc_def)
  then show ?thesis using frame_alloc_Some(1) [OF inv al] f(2) by simp
qed

lemma dma_alloc_loop_fresh:
  assumes "frames_inv l s" and "fa_recycled (FRAME_ALLOCATOR s) = []" and "k = 0 \<or> fa_current (FRAME_ALLOCATOR s) = ppn0 base + of_nat k"
    and "unat (fa_current (FRAME_ALLOCATOR s)) + n \<le> unat (fa_end (FRAME_ALLOCATOR s))"
  shows "\<exists>s'. dma_alloc_loop [k..<k + n] base (q, s) =
      Ok (if n = 0 then base else PhysPageNum (fa_current (FRAME_ALLOCATOR s) - of_nat k), q @ run_of (fa_current (FRAME_ALLOCATOR s)) n, s') \<and> frames_inv l s' \<and>
    FRAME_ALLOCATOR s' = (FRAME_ALLOCATOR s)\<lparr>fa_current := fa_current (FRAME_ALLOCATOR s) + of_nat n\<rparr> \<and>
    unat (fa_current (FRAME_ALLOCATOR s')) = unat (fa_current (FRAME_ALLOCATOR s)) + n \<and>
    (\<forall>p \<in> set (run_of (fa_current (FRAME_ALLOCATOR s)) n). \<forall>x. in_page p x \<longrightarrow> mem s' x = 0) \<and>
    (\<forall>p \<in> frames_used l s. \<forall>x. in_page p x \<longrightarrow> mem s' x = mem s x)"
  using assms
proof (induction n arbitrary: k base q s)
  case 0
  then show ?case by (simp add: run_of_def)
next
  case (Suc n)
  let ?c = "fa_current (FRAME_ALLOCATOR s)"
  obtain s1 where s1: "frame_alloc s = (Some (PhysPageNum ?c), s1)" "frames_inv l s1"
    "FRAME_ALLOCATOR s1 = (FRAME_ALLOCATOR s)\<lparr>fa_current := ?c + 1\<rparr>" "unat (fa_current (FRAME_ALLOCATOR s1)) = unat ?c + 1"
    using frame_alloc_fresh [OF Suc.prems(1,2)] Suc.prems(4) by auto
  note fs = frame_alloc_Some [OF Suc.prems(1) s1(1)]
  define b where "b = PhysPageNum (?c - of_nat k)"
  have b: "(if k = 0 then PhysPageNum ?c else base) = b" "?c = ppn0 b + of_nat k" using Suc.prems(3) by (auto simp: b_def)
  have pre: "fa_recycled (FRAME_ALLOCATOR s1) = []" "Suc k = 0 \<or> fa_current (FRAME_ALLOCATOR s1) = ppn0 b + of_nat (Suc k)"
    "unat (fa_current (FRAME_ALLOCATOR s1)) + n \<le> unat (fa_end (FRAME_ALLOCATOR s1))"
    using Suc.prems(2,4) s1(3,4) b(2) by simp_all
  obtain s' where s': "dma_alloc_loop [Suc k..<Suc k + n] b (q @ [PhysPageNum ?c], s1) =
      Ok (if n = 0 then b else PhysPageNum (fa_current (FRAME_ALLOCATOR s1) - of_nat (Suc k)), (q @ [PhysPageNum ?c]) @ run_of (fa_current (FRAME_ALLOCATOR s1)) n, s')" "frames_inv l s'"
    "FRAME_ALLOCATOR s' = (FRAME_ALLOCATOR s1)\<lparr>fa_current := fa_current (FRAME_ALLOCATOR s1) + of_nat n\<rparr>"
    "unat (fa_current (FRAME_ALLOCATOR s')) = unat (fa_current (FRAME_ALLOCATOR s1)) + n"
    "\<forall>p \<in> set (run_of (fa_current (FRAME_ALLOCATOR s1)) n). \<forall>x. in_page p x \<longrightarrow> mem s' x = 0"
    "\<forall>p \<in> frames_used l s1. \<forall>x. in_page p x \<longrightarrow> mem s' x = mem s1 x"
    using Suc.IH [OF s1(2) pre, of "q @ [PhysPageNum ?c]"] by blast
  have c1: "fa_current (FRAME_ALLOCATOR s1) = ?c + 1" using s1(3) by simp
  have e: "[k..<k + Suc n] = k # [Suc k..<Suc k + n]" by (simp add: upt_conv_Cons)
  have last: "(if n = 0 then b else PhysPageNum (fa_current (FRAME_ALLOCATOR s1) - of_nat (Suc k))) = b" by (simp add: c1 b_def)
  have asr: "assert_that (ppn0 (PhysPageNum ?c) = ppn0 b + of_nat k) = Ok ()" using b(2) by simp
  have run: "dma_alloc_loop [k..<k + Suc n] base (q, s) = Ok (b, q @ run_of ?c (Suc n), s')"
    unfolding e dma_alloc_loop.simps s1(1) prod.case option.case Let_def b(1) asr bind_res.simps s'(1) last run_of_Suc c1 by (simp add: b_def)
  have "mem s' x = 0" if "p \<in> set (run_of ?c (Suc n))" "in_page p x" for p x
    using that s'(5,6) fs(3,5) by (auto simp: run_of_Suc c1)
  moreover have "mem s' x = mem s x" if p: "p \<in> frames_used l s" "in_page p x" for p x
  proof -
    have "\<not> in_page (PhysPageNum ?c) x" using in_page_unique [OF _ fs(4) p(2)] frames_used_ok [OF Suc.prems(1) p(1)] fs(2) p(1) by auto
    then show ?thesis using s'(6) fs(3,6) p by auto
  qed
  ultimately show ?case
    using run s'(2-4) s1(3,4) by (intro exI [of _ s']) (simp add: add.assoc b_def)
qed

text \<open>From an allocator that has not recycled any frame.\<close>

lemma virtio_dma_alloc_fresh:
  assumes inv: "frames_inv l s" and r: "fa_recycled (FRAME_ALLOCATOR s) = []" and n: "0 < n"
    and room: "unat (fa_current (FRAME_ALLOCATOR s)) + n \<le> unat (fa_end (FRAME_ALLOCATOR s))"
  shows "\<exists>s'. virtio_dma_alloc n (q, s) =
      Ok (PhysAddr_from_ppn (PhysPageNum (fa_current (FRAME_ALLOCATOR s))), q @ run_of (fa_current (FRAME_ALLOCATOR s)) n, s') \<and> frames_inv l s' \<and>
    FRAME_ALLOCATOR s' = (FRAME_ALLOCATOR s)\<lparr>fa_current := fa_current (FRAME_ALLOCATOR s) + of_nat n\<rparr> \<and>
    unat (fa_current (FRAME_ALLOCATOR s')) = unat (fa_current (FRAME_ALLOCATOR s)) + n \<and>
    (\<forall>p \<in> set (run_of (fa_current (FRAME_ALLOCATOR s)) n). \<forall>x. in_page p x \<longrightarrow> mem s' x = 0) \<and>
    (\<forall>p \<in> frames_used l s. \<forall>x. in_page p x \<longrightarrow> mem s' x = mem s x)"
  using dma_alloc_loop_fresh [OF inv r _ room, of 0 "PhysPageNum 0" q] n by (auto simp: virtio_dma_alloc_def)

section \<open>Giving frames back\<close>

lemma ppn_of_base:
  assumes "ppn_ok p"
  shows "PhysPageNum_from_pa (PhysAddr_from_ppn p) = Ok p"
proof -
  have "take_bit 12 (push_bit 12 (ppn0 p)) = 0" by (rule bit_word_eqI) (auto simp: bit_simps)
  then have o: "pa_page_offset (PhysAddr_from_ppn p) = 0"
    by (simp add: pa_page_offset_def PhysAddr_from_ppn_def and_PAGE_SIZE)
  have t: "take_bit 44 (ppn0 p) = ppn0 p" using assms by (simp add: ppn_ok_def word_unat_eq_iff unat_take_bit)
  have b: "\<not> bit (ppn0 p) m" if "52 \<le> m" for m
    using that by (subst t [symmetric]) (simp add: bit_take_bit_iff)
  have "drop_bit 12 (push_bit 12 (ppn0 p)) = ppn0 p"
  proof (rule bit_word_eqI)
    fix m assume "m < LENGTH(64)"
    then show "bit (drop_bit 12 (push_bit 12 (ppn0 p))) m = bit (ppn0 p) m"
      using b [of m] by (cases "52 \<le> m") (simp_all add: bit_simps)
  qed
  then have "pa_floor (PhysAddr_from_ppn p) = p"
    by (simp add: pa_floor_def PhysAddr_from_ppn_def div_PAGE_SIZE)
  with o show ?thesis by (simp add: PhysPageNum_from_pa_def)
qed

text \<open>The frames of a run go to the list of recycled frames in order, so the last is the first to come out.\<close>

lemma run_of_above: "\<lbrakk>p \<in> set (run_of (c + 1) n); unat c + n < 2 ^ 64\<rbrakk> \<Longrightarrow> ppn0 p \<noteq> c"
proof
  assume p: "p \<in> set (run_of (c + 1) n)" "unat c + n < 2 ^ 64" and e: "ppn0 p = c"
  then obtain i where i: "i < n" "p = PhysPageNum (c + 1 + of_nat i)" by (auto simp: run_of_def)
  then have "c + 1 + of_nat i = c" using e by simp
  then have "(of_nat (Suc i) :: usize) = 0" by (simp add: add.assoc)
  moreover have "unat (of_nat (Suc i) :: usize) = Suc i" by (rule unat_of_nat_64) (use i(1) p(2) in simp)
  ultimately show False by simp
qed

lemma dma_dealloc_loop_run:
  assumes "unat c + n \<le> unat (fa_current (FRAME_ALLOCATOR s))" and "\<forall>p \<in> set (run_of c n). ppn0 p \<notin> set (fa_recycled (FRAME_ALLOCATOR s))"
  shows "dma_dealloc_loop n (PhysPageNum c) s = Ok (s\<lparr>FRAME_ALLOCATOR := (FRAME_ALLOCATOR s)\<lparr>fa_recycled :=
    fa_recycled (FRAME_ALLOCATOR s) @ map ppn0 (run_of c n)\<rparr>\<rparr>)"
  using assms
proof (induction n arbitrary: c s)
  case 0
  then show ?case by (simp add: run_of_def)
next
  case (Suc n)
  let ?a = "FRAME_ALLOCATOR s"
  let ?s = "s\<lparr>FRAME_ALLOCATOR := ?a\<lparr>fa_recycled := fa_recycled ?a @ [c]\<rparr>\<rparr>"
  have lt: "unat c + n < 2 ^ 64" using Suc.prems(1) unat_less_64 [of "fa_current ?a"] by simp
  have "unat c + 1 < 2 ^ 64" using Suc.prems(1) unat_less_64 [of "fa_current ?a"] by simp
  then have c1: "unat (c + 1) = unat c + 1" using iffD1 [OF unat_add_lem, of c 1] by simp
  have "c < fa_current ?a" "c \<notin> set (fa_recycled ?a)" using Suc.prems by (auto simp: word_nat run_of_Suc)
  then have d: "frame_dealloc (PhysPageNum c) s = Ok ?s" by (simp add: frame_dealloc_def fa_dealloc_eq_Ok [THEN iffD2])
  have "dma_dealloc_loop n (PhysPageNum (c + 1)) ?s = Ok (?s\<lparr>FRAME_ALLOCATOR := (FRAME_ALLOCATOR ?s)\<lparr>fa_recycled :=
    fa_recycled (FRAME_ALLOCATOR ?s) @ map ppn0 (run_of (c + 1) n)\<rparr>\<rparr>)"
  proof (rule Suc.IH)
    show "unat (c + 1) + n \<le> unat (fa_current (FRAME_ALLOCATOR ?s))" using Suc.prems(1) c1 by simp
    show "\<forall>p \<in> set (run_of (c + 1) n). ppn0 p \<notin> set (fa_recycled (FRAME_ALLOCATOR ?s))"
      using Suc.prems(2) run_of_above [OF _ lt] by (auto simp: run_of_Suc)
  qed
  then show ?case by (simp add: d run_of_Suc)
qed

text \<open>The frames of a run, and its last two.\<close>

lemma unat_run: "\<lbrakk>i < n; unat c + n < 2 ^ 64\<rbrakk> \<Longrightarrow> unat (c + of_nat i :: usize) = unat c + i"
proof -
  assume a: "i < n" "unat c + n < 2 ^ 64"
  then have u: "unat (of_nat i :: usize) = i" by (intro unat_of_nat_64) simp
  have "unat c + unat (of_nat i :: usize) < 2 ^ 64" using a by (simp add: u)
  then show ?thesis using iffD1 [OF unat_add_lem, of c "of_nat i"] by (simp add: u)
qed

lemma set_run_of:
  assumes "unat c + n < 2 ^ 64"
  shows "p \<in> set (run_of c n) \<longleftrightarrow> unat c \<le> unat (ppn0 p) \<and> unat (ppn0 p) < unat c + n"
proof
  assume "p \<in> set (run_of c n)"
  then show "unat c \<le> unat (ppn0 p) \<and> unat (ppn0 p) < unat c + n"
    using unat_run [OF _ assms] by (auto simp: run_of_def)
next
  assume b: "unat c \<le> unat (ppn0 p) \<and> unat (ppn0 p) < unat c + n"
  define i where "i = unat (ppn0 p) - unat c"
  have i: "i < n" "unat (ppn0 p) = unat c + i" using b unfolding i_def by linarith+
  have "ppn0 p = c + of_nat i" using unat_run [OF i(1) assms] i(2) by (simp add: word_unat_eq_iff)
  then have "p = PhysPageNum (c + of_nat i)" by (simp add: PhysPageNum.expand)
  then show "p \<in> set (run_of c n)" using i(1) by (auto simp: run_of_def)
qed

lemma distinct_run_of:
  assumes "unat c + n < 2 ^ 64"
  shows "distinct (map ppn0 (run_of c n))"
  unfolding run_of_def map_map comp_def distinct_map
proof (intro conjI inj_onI)
  fix i j assume ij: "i \<in> set [0..<n]" "j \<in> set [0..<n]" "ppn0 (PhysPageNum (c + of_nat i)) = ppn0 (PhysPageNum (c + of_nat j))"
  from ij have l: "i < n" "j < n" and e: "c + of_nat i = c + of_nat j" by simp_all
  have "unat c + i = unat c + j"
    using arg_cong [OF e, of unat] unfolding unat_run [OF l(1) assms] unat_run [OF l(2) assms] .
  then show "i = j" by simp
qed simp

lemma run_of_snoc: "map ppn0 (run_of c (Suc (Suc k))) = map ppn0 (run_of c k) @ [c + of_nat k, c + of_nat k + 1]"
  unfolding run_of_def upt_Suc_append [OF le0] map_append list.map append_assoc append.simps of_nat_Suc PhysPageNum.sel
  by (simp only: add.assoc add.commute [of 1])

text \<open>Two frames that come out of the recycled ones in falling order fail the assertion.\<close>

lemma virtio_dma_alloc_falling:
  assumes inv: "frames_inv l s" and r: "fa_recycled (FRAME_ALLOCATOR s) = ps @ [c, c + 1]" and n: "2 \<le> n"
  shows "virtio_dma_alloc n (q, s) = Panic AssertFailed"
proof -
  let ?a = "FRAME_ALLOCATOR s"
  have i: "fa_inv l ?a" using inv by (simp add: frames_inv_def)
  have r1: "fa_recycled ?a = (ps @ [c]) @ [c + 1]" using r by simp
  define s1 where "s1 = FrameTracker_new (PhysPageNum (c + 1)) (s\<lparr>FRAME_ALLOCATOR := ?a\<lparr>fa_recycled := ps @ [c]\<rparr>\<rparr>)"
  have a1: "frame_alloc s = (Some (PhysPageNum (c + 1)), s1)"
    using fa_alloc_recycled [OF i r1] by (simp add: frame_alloc_def s1_def)
  have i1: "fa_inv l (FRAME_ALLOCATOR s1)" "fa_recycled (FRAME_ALLOCATOR s1) = ps @ [c]"
    using frame_alloc_Some(1) [OF inv a1] by (simp_all add: frames_inv_def) (simp add: s1_def)
  obtain s2 where a2: "frame_alloc s1 = (Some (PhysPageNum c), s2)"
    using fa_alloc_recycled [OF i1] by (simp add: frame_alloc_def)
  have "c \<noteq> c + 1 + 1"
  proof
    assume "c = c + 1 + 1"
    then have "(2 :: usize) = 0" by (metis add.assoc add_cancel_right_right one_add_one)
    then show False by simp
  qed
  moreover obtain m where "n = Suc (Suc m)" using n by (metis One_nat_def Suc_1 Suc_le_D Suc_le_mono)
  then have "[0..<n] = 0 # 1 # [2..<n]" by (simp add: upt_conv_Cons numeral_2_eq_2 del: upt_Suc)
  ultimately show ?thesis
    using a1 a2 by (simp add: virtio_dma_alloc_def Let_def)
qed


end
