(* ===== verification/VirtioProperties.thy ===== *)
theory VirtioProperties
  imports VirtioDma
begin

text \<open>The queues of the virtio driver.\<close>

text \<open>
  C40: the memory of the driver. As long as no frame has been recycled and enough are left, \<^verbatim>\<open>virtio_dma_alloc\<close> returns the
  address of as many zeroed frames in a row, which were free, and changes no frame in use. But when the driver gives
  such a range of two frames or more back, \<^verbatim>\<open>QUEUE_FRAMES\<close> keeps it although its frames are free again, and the next
  request of two frames or more fails its assertion: the frames come out of the allocator in falling order.
\<close>

theorem virtio_dma_reuse_panics:
  assumes inv: "frames_inv l s" and r: "fa_recycled (FRAME_ALLOCATOR s) = []" and n: "2 \<le> n" "2 \<le> m"
    and room: "unat (fa_current (FRAME_ALLOCATOR s)) + n \<le> unat (fa_end (FRAME_ALLOCATOR s))"
  shows "\<exists>pa s1 s2. virtio_dma_alloc n (q, s) = Ok (pa, q @ run_of (ppn0 (pa_floor pa)) n, s1) \<and>
    pa_page_offset pa = 0 \<and> frames_inv l s1 \<and> set (run_of (ppn0 (pa_floor pa)) n) \<inter> frames_used l s = {} \<and>
    frames_used l s1 = frames_used l s \<union> set (run_of (ppn0 (pa_floor pa)) n) \<and>
    (\<forall>p \<in> set (run_of (ppn0 (pa_floor pa)) n). \<forall>x. in_page p x \<longrightarrow> mem s1 x = 0) \<and>
    (\<forall>p \<in> frames_used l s. \<forall>x. in_page p x \<longrightarrow> mem s1 x = mem s x) \<and>
    virtio_dma_dealloc pa n (q @ run_of (ppn0 (pa_floor pa)) n, s1) = Ok (0, q @ run_of (ppn0 (pa_floor pa)) n, s2) \<and>
    frames_used l s2 = frames_used l s \<and>
    virtio_dma_alloc m (q @ run_of (ppn0 (pa_floor pa)) n, s2) = Panic AssertFailed"
proof -
  let ?c = "fa_current (FRAME_ALLOCATOR s)"
  let ?run = "run_of ?c n"
  have n0: "0 < n" using n(1) by simp
  obtain s1 where s1: "virtio_dma_alloc n (q, s) = Ok (PhysAddr_from_ppn (PhysPageNum ?c), q @ ?run, s1)" "frames_inv l s1"
    "FRAME_ALLOCATOR s1 = (FRAME_ALLOCATOR s)\<lparr>fa_current := ?c + of_nat n\<rparr>" "unat (fa_current (FRAME_ALLOCATOR s1)) = unat ?c + n"
    "\<forall>p \<in> set ?run. \<forall>x. in_page p x \<longrightarrow> mem s1 x = 0" "\<forall>p \<in> frames_used l s. \<forall>x. in_page p x \<longrightarrow> mem s1 x = mem s x"
    using virtio_dma_alloc_fresh [OF inv r n0 room] by blast
  have i: "l \<le> ?c" "unat (fa_end (FRAME_ALLOCATOR s)) \<le> 2 ^ 44" using inv by (simp_all add: frames_inv_def fa_inv_def)
  have "ppn_ok (PhysPageNum ?c)" using room n0 i(2) by (simp add: ppn_ok_def)
  note pb = ppn_of_base [OF this]
  then have pa: "pa_page_offset (PhysAddr_from_ppn (PhysPageNum ?c)) = 0" "pa_floor (PhysAddr_from_ppn (PhysPageNum ?c)) = PhysPageNum ?c"
    by (auto simp: PhysPageNum_from_pa_def res_simps)
  have lt: "unat ?c + n < 2 ^ 64" using room unat_less_64 [of "fa_end (FRAME_ALLOCATOR s)"] by simp
  have run: "p \<in> set ?run \<longleftrightarrow> ?c \<le> ppn0 p \<and> ppn0 p < fa_current (FRAME_ALLOCATOR s1)" for p
    unfolding set_run_of [OF lt] word_nat s1(4) ..
  have le: "?c \<le> fa_current (FRAME_ALLOCATOR s1)" unfolding word_nat s1(4) by simp
  have ru: "fa_recycled (FRAME_ALLOCATOR s1) = []" using s1(3) r by simp
  have mem_used: "p \<in> frames_used l s \<longleftrightarrow> l \<le> ppn0 p \<and> ppn0 p < ?c" "p \<in> frames_used l s1 \<longleftrightarrow> l \<le> ppn0 p \<and> ppn0 p < fa_current (FRAME_ALLOCATOR s1)" for p
    by (simp_all add: frames_used_def fa_used_def r ru)
  have used: "frames_used l s1 = frames_used l s \<union> set ?run" "set ?run \<inter> frames_used l s = {}"
  proof -
    have "l \<le> v \<and> v < fa_current (FRAME_ALLOCATOR s1) \<longleftrightarrow> l \<le> v \<and> v < ?c \<or> ?c \<le> v \<and> v < fa_current (FRAME_ALLOCATOR s1)" for v
      using i(1) le unfolding word_nat by linarith
    then show "frames_used l s1 = frames_used l s \<union> set ?run" unfolding set_eq_iff Un_iff mem_used run by blast
    show "set ?run \<inter> frames_used l s = {}" unfolding disjoint_iff mem_used run by (meson linorder_not_less)
  qed
  define s2 where "s2 = s1\<lparr>FRAME_ALLOCATOR := (FRAME_ALLOCATOR s1)\<lparr>fa_recycled := map ppn0 ?run\<rparr>\<rparr>"
  have "dma_dealloc_loop n (PhysPageNum ?c) s1 = Ok s2"
    using dma_dealloc_loop_run [of ?c n s1] s1(4) ru by (simp add: s2_def)
  then have d: "virtio_dma_dealloc (PhysAddr_from_ppn (PhysPageNum ?c)) n (q @ ?run, s1) = Ok (0, q @ ?run, s2)"
    by (simp add: virtio_dma_dealloc_def pb)
  have mapped: "x \<in> set (map ppn0 ?run) \<longleftrightarrow> ?c \<le> x \<and> x < fa_current (FRAME_ALLOCATOR s1)" for x
  proof
    assume "x \<in> set (map ppn0 ?run)"
    then obtain p where "p \<in> set ?run" "x = ppn0 p" by auto
    then show "?c \<le> x \<and> x < fa_current (FRAME_ALLOCATOR s1)" by (simp add: run)
  next
    assume "?c \<le> x \<and> x < fa_current (FRAME_ALLOCATOR s1)"
    then have "PhysPageNum x \<in> set ?run" by (simp add: run)
    then show "x \<in> set (map ppn0 ?run)" by (auto intro: rev_image_eqI)
  qed
  have fi: "frames_inv l s2"
  proof -
    have "\<forall>x \<in> set (map ppn0 ?run). l \<le> x \<and> x < fa_current (FRAME_ALLOCATOR s1)"
      unfolding Ball_def mapped using i(1) unfolding word_nat by (meson le_trans)
    moreover have "fa_recycled (FRAME_ALLOCATOR s2) = map ppn0 ?run" "fa_current (FRAME_ALLOCATOR s2) = fa_current (FRAME_ALLOCATOR s1)"
      "fa_end (FRAME_ALLOCATOR s2) = fa_end (FRAME_ALLOCATOR s1)" by (simp_all add: s2_def)
    ultimately show ?thesis
      using s1(2) distinct_run_of [OF lt] unfolding frames_inv_def fa_inv_def by metis
  qed
  have "frames_used l s2 = frames_used l s1 - set ?run"
  proof (rule set_eqI)
    fix p
    have "fa_current (FRAME_ALLOCATOR s2) = fa_current (FRAME_ALLOCATOR s1)" "fa_recycled (FRAME_ALLOCATOR s2) = map ppn0 ?run"
      by (simp_all add: s2_def)
    then have "p \<in> frames_used l s2 \<longleftrightarrow> (l \<le> ppn0 p \<and> ppn0 p < fa_current (FRAME_ALLOCATOR s1)) \<and> ppn0 p \<notin> set (map ppn0 ?run)"
      unfolding frames_used_def fa_used_def mem_Collect_eq by metis
    then show "p \<in> frames_used l s2 \<longleftrightarrow> p \<in> frames_used l s1 - set ?run"
      unfolding mapped Diff_iff mem_used run by blast
  qed
  then have u2: "frames_used l s2 = frames_used l s" using used by blast
  obtain k where k: "n = Suc (Suc k)" using n(1) by (metis One_nat_def Suc_1 Suc_le_D Suc_le_mono)
  have "fa_recycled (FRAME_ALLOCATOR s2) = map ppn0 (run_of ?c k) @ [?c + of_nat k, ?c + of_nat k + 1]"
    unfolding run_of_snoc [symmetric] k [symmetric] by (simp add: s2_def)
  note panic = virtio_dma_alloc_falling [OF fi this n(2)]
  show ?thesis
    by (rule exI [of _ "PhysAddr_from_ppn (PhysPageNum ?c)"], rule exI [of _ s1], rule exI [of _ s2])
      (use s1 used d u2 panic in \<open>simp add: pa\<close>)
qed

lemma virtio_dma_reuse_panics_witness:
  "\<exists>pa s1 s2. virtio_dma_alloc 2 ([], boot_mm 0x80400000) = Ok (pa, run_of (ppn0 (pa_floor pa)) 2, s1) \<and>
    virtio_dma_dealloc pa 2 (run_of (ppn0 (pa_floor pa)) 2, s1) = Ok (0, run_of (ppn0 (pa_floor pa)) 2, s2) \<and>
    virtio_dma_alloc 2 (run_of (ppn0 (pa_floor pa)) 2, s2) = Panic AssertFailed"
proof -
  have "fa_recycled (FRAME_ALLOCATOR (boot_mm 0x80400000)) = []"
    "unat (fa_current (FRAME_ALLOCATOR (boot_mm 0x80400000))) + 2 \<le> unat (fa_end (FRAME_ALLOCATOR (boot_mm 0x80400000)))"
    by (simp_all add: boot_alloc)
  from virtio_dma_reuse_panics [OF boot_frames(1) this(1) _ _ this(2), of 2 "[]"] show ?thesis by auto
qed

end
