(* ===== verification/Spec2Isabelle.thy ===== *)
theory Spec2Isabelle
  imports MemoryProperties ForkProperties TaskProperties FsProperties ProcProperties SignalProperties ExecProperties ShellProperties UserProperties ImageProperties VirtioProperties
begin

text \<open>
  A verification library for rCore: a Unix-like teaching kernel for RISC-V (\<^verbatim>\<open>os/\<close>), the file system it
  mounts (\<^verbatim>\<open>easy-fs/\<close>), the tool that builds its disk image (\<^verbatim>\<open>easy-fs-fuse/\<close>), the library of user programs
  (\<^verbatim>\<open>user/src\<close>), and the shell that runs on it (\<^verbatim>\<open>user/src/bin/user_shell.rs\<close>).

  \<^bold>\<open>The program.\<close> User processes run in address spaces of their own and enter the kernel by traps. The trap
  handler dispatches system calls; these work on the memory set of the process (SV39 page tables over frames
  of a frame allocator), on its task control block (a tree of processes below \<^verbatim>\<open>initproc\<close>, a stride
  scheduler, signals), and on its file descriptors (console, pipes, files). Files live in an inode file
  system on a block device, behind a write-back cache of 16 blocks.

  \<^bold>\<open>Conventions.\<close> Machine integers are words of the width of the source, with the wrap-around of release
  builds; \<^verbatim>\<open>isize\<close> and \<^verbatim>\<open>i32\<close> results are integers where they are only returned. A panic (failed assertion,
  \<^verbatim>\<open>unwrap\<close>, index out of range, lock taken twice) is the value \<^const>\<open>Panic\<close> of the type \<^verbatim>\<open>res\<close>. A loop
  that may run for ever is an option, with \<^const>\<open>None\<close> for not returning. State is passed explicitly; a
  \<^verbatim>\<open>Drop\<close> implementation is a call where the value goes out of scope. An \<^verbatim>\<open>Arc\<close> is the key of its object (a pid,
  a number of an open file or pipe) and its count is the number of places that hold the key.

  \<^bold>\<open>Shared.\<close> \<^verbatim>\<open>Prelude\<close>: results, loops over them, words. \<^verbatim>\<open>Codec\<close>: little-endian values. \<^verbatim>\<open>Allocator\<close>: the
  contract of a recycling allocator as a locale, with the theorem on its runs; it is interpreted on the frame
  allocator, on the allocator of process identifiers and on the bitmaps of the file system.

  \<^bold>\<open>Memory\<close> (\<^verbatim>\<open>os/src/mm\<close>, \<^verbatim>\<open>os/src/syscall/memory.rs\<close>). \<^verbatim>\<open>Address\<close>: \<^verbatim>\<open>address.rs\<close> and \<^verbatim>\<open>config.rs\<close>. \<^verbatim>\<open>FrameAllocator\<close> and
  \<^verbatim>\<open>PhysMem\<close>: \<^verbatim>\<open>frame_allocator.rs\<close> over byte-addressed physical memory. \<^verbatim>\<open>PageTable\<close>: the entries, the three-level
  walk, map and unmap; the invariant says that the tables form a tree of frames that the table owns. \<^verbatim>\<open>UserMem\<close>:
  the \<^verbatim>\<open>translated_*\<close> functions and \<^verbatim>\<open>UserBuffer\<close>. \<^verbatim>\<open>MemorySet\<close>, \<^verbatim>\<open>MemorySetOps\<close>: map areas and memory sets;
  the invariant \<^const>\<open>ms_inv\<close> ties areas, page table and allocator together. \<^verbatim>\<open>Isolation\<close>: operations on one memory
  set keep every other. \<^verbatim>\<open>ForkMemory\<close>: the copy of an address space. \<^verbatim>\<open>OutOfFrames\<close>: what is left when the frames
  run out. \<^verbatim>\<open>ElfMemory\<close>: the address space of a new program. \<^verbatim>\<open>UserRegion\<close>: pages of a process as memory of its own.
  \<^verbatim>\<open>Boot\<close>: the state after \<^verbatim>\<open>mm::init\<close>. \<^verbatim>\<open>SyscallMemory\<close>: mmap and munmap. \<^verbatim>\<open>MemoryProperties\<close> and
  \<^verbatim>\<open>ForkProperties\<close> state what follows: correctness of mmap, munmap and fork, their round trip, isolation,
  the translation of user buffers, and the requests on which the kernel panics, hangs or leaves stale entries.

  \<^bold>\<open>Processes\<close> (\<^verbatim>\<open>os/src/task\<close>, \<^verbatim>\<open>os/src/trap\<close>, \<^verbatim>\<open>os/src/syscall\<close>). \<^verbatim>\<open>BinaryHeap\<close>: the heap of the standard library
  over an order that is total on a window only (a locale). \<^verbatim>\<open>Scheduler\<close>, \<^verbatim>\<open>SchedRun\<close>: strides on the circle of
  \<^verbatim>\<open>usize\<close>, the task manager, its runs. \<^verbatim>\<open>Pid\<close>: identifiers and kernel stacks. \<^verbatim>\<open>TrapContext\<close>, \<^verbatim>\<open>Signal\<close>: contexts,
  actions, delivery of signals and the changes that the system calls on them make to a task. \<^verbatim>\<open>Pipe\<close>: the ring buffer, which implements the locale of bounded queues, and the rounds of
  read and write between two suspensions. \<^verbatim>\<open>Task\<close>: the state of the kernel as the record \<^verbatim>\<open>kernel\<close>, task control
  blocks, fork, exec, exit. \<^verbatim>\<open>SyscallProcess\<close>, \<^verbatim>\<open>SyscallFs\<close>: the system calls. \<^verbatim>\<open>Trap\<close>: dispatch, the trap handler,
  and \<^const>\<open>kstep\<close>, the steps of the machine: a trap of the running process, the idle loop, or user code,
  which may change memory in any way (the invariants of processes do not depend on memory). A call that waits inside the kernel is a value that says where it goes on, in the place of
  its kernel stack. \<^verbatim>\<open>ProcTable\<close> is the specification, an abstract table of processes with its steps and
  invariant; \<^verbatim>\<open>ProcRefine\<close> proves that every step of the kernel is a sequence of steps of the table, and
  \<^verbatim>\<open>ProcSpec\<close> interprets the locale of simulations on it. \<^verbatim>\<open>UserArgs\<close> has the stack that exec builds and \<^verbatim>\<open>_start\<close> of
  \<^verbatim>\<open>user/src/lib.rs\<close>, which reads it; \<^verbatim>\<open>ExecProperties\<close> puts the two together. \<^verbatim>\<open>TaskMemory\<close> and \<^verbatim>\<open>ForkCall\<close>:
  memory sets and kernel stacks that a process gives back or gets, and the whole of \<^verbatim>\<open>fork\<close>, from the trap to the
  new entry in the ready queue. \<^verbatim>\<open>TaskProperties\<close> and \<^verbatim>\<open>ProcProperties\<close> state fairness of
  the scheduler, separation of kernel stacks, first-in first-out pipes, the refinement,
  wait and exit, and where nested handlers and pipes do not do what they are meant to. \<^verbatim>\<open>SignalProperties\<close> follows a
  signal from the end of a trap into its handler and back by \<^verbatim>\<open>sigreturn\<close>, whose result the trap handler stores over
  the restored \<^verbatim>\<open>a0\<close>, and says exactly when the system calls on signals panic.

  \<^bold>\<open>Files\<close> (\<^verbatim>\<open>easy-fs/src\<close>, \<^verbatim>\<open>os/src/fs\<close>). \<^verbatim>\<open>BlockCache\<close>: the caches and their manager. \<^verbatim>\<open>BlockProg\<close>: programs of
  block accesses, and the locale of block stores: a program gives on the cache what it gives on plain blocks.
  \<^verbatim>\<open>Bitmap\<close>, \<^verbatim>\<open>Layout\<close>, \<^verbatim>\<open>DirEntry\<close>, \<^verbatim>\<open>Efs\<close>, \<^verbatim>\<open>Vfs\<close>: the source files of the same names. \<^verbatim>\<open>FileBlocks\<close>, \<^verbatim>\<open>FileData\<close>,
  \<^verbatim>\<open>FileGrow\<close>, \<^verbatim>\<open>FileClear\<close>: direct, indirect and doubly indirect blocks as one list. \<^verbatim>\<open>FsInv\<close>, \<^verbatim>\<open>FsWrite\<close>, \<^verbatim>\<open>FsGrow\<close>,
  \<^verbatim>\<open>FsFile\<close>, \<^verbatim>\<open>FsDir\<close>, \<^verbatim>\<open>FsLink\<close>, \<^verbatim>\<open>FsCreate\<close>, \<^verbatim>\<open>FsRun\<close>: the invariant of the whole file system, the abstract state (a
  map from inode numbers to files), each operation on it, and runs of operations through the cache. \<^verbatim>\<open>OSInode\<close>:
  open files with their offsets. \<^verbatim>\<open>FsProperties\<close> states the refinement, the transparency of the cache, what each
  operation does, round trips, and the limits of names, inode numbers and \<^verbatim>\<open>unlinkat\<close>.

  \<^bold>\<open>User library\<close> (\<^verbatim>\<open>user/src/lib.rs\<close>, \<^verbatim>\<open>syscall.rs\<close>, \<^verbatim>\<open>console.rs\<close>, and \<^verbatim>\<open>os/src/trap/trap.S\<close>). \<^verbatim>\<open>UserSyscall\<close>: every
  wrapper of a system call as the registers that it loads, and what the trampoline saves and restores; a call then
  reaches its handler in \<^verbatim>\<open>Trap\<close>. \<^verbatim>\<open>UserLib\<close>: the loops of wait, waitpid and sleep over any system, the clock of the
  library, the console buffer. \<^verbatim>\<open>UserProperties\<close> states that every wrapper reaches the handler it is for, that \<^verbatim>\<open>fork\<close>
  returns in both processes, that \<^verbatim>\<open>print\<close> writes the text, and when \<^verbatim>\<open>sleep\<close> returns.

  \<^bold>\<open>Disk images\<close> (\<^verbatim>\<open>easy-fs-fuse/src/main.rs\<close>). \<^verbatim>\<open>ImageBuilder\<close>: a file as a block device, runs in which a block past the
  end of the file panics (\<^const>\<open>run_image\<close>), and the packing of the applications over the operations of \<^verbatim>\<open>Efs\<close> and
  \<^verbatim>\<open>Vfs\<close>. \<^verbatim>\<open>ImageRun\<close>: the blocks that a program uses (\<^const>\<open>inside\<close>), and that the operations of the file system use
  none past the end of the image, although the bitmap of data blocks has bits for them: locking such a block does
  not keep an operation from returning. \<^verbatim>\<open>ImageProperties\<close> states that the file behaves as the device and
  that the image holds exactly the applications.

  \<^bold>\<open>Driver\<close> (\<^verbatim>\<open>os/src/drivers/block/virtio_blk.rs\<close>). \<^verbatim>\<open>VirtioDma\<close>: the memory that the virtio driver asks for, over the
  frame allocator; \<^verbatim>\<open>VirtioProperties\<close> states what it gets and what happens when it gives memory back.

  \<^bold>\<open>Shell\<close> (\<^verbatim>\<open>user/src/bin/user_shell.rs\<close>). \<^verbatim>\<open>Shell\<close>: the line editor, the parser, and the descriptors of the
  children of a pipeline, with the lemmas that \<^verbatim>\<open>sys_close\<close> and \<^verbatim>\<open>sys_dup\<close> change a table in the same way;
  \<^verbatim>\<open>ShellProperties\<close> states that pipelines are wired as written and what the parser makes of a command.

  \<^bold>\<open>Bounds.\<close> A file system is created on a device of less than \<open>2 ^ 29\<close> blocks and then stays below block \<open>2 ^ 30\<close>,
  which keeps the \<^verbatim>\<open>u32\<close> sums of the source from wrapping; a file has at most 16540 data blocks in any case.
  \<^verbatim>\<open>read_all\<close> has \<open>2 ^ 23 + 1\<close> rounds, more than the 512-byte rounds of any \<^verbatim>\<open>u32\<close> size. The refinement of the process
  table excludes the step that would allocate the \<open>2 ^ 64\<close>-th identifier, on which the counter wraps.
  Time, console input, the ELF parser (the crate \<^verbatim>\<open>xmas_elf\<close>) and the addresses of linker symbols are arguments.

  An image has 16384 blocks, of which 15290 hold data; that all its files fit is a hypothesis, stated by counting
  their data and index blocks.

  \<^bold>\<open>Not modelled.\<close> The context switch and writes to control registers, the virtio driver and the firmware calls (a
  block device is a total function from block numbers to blocks of 512 bytes; the end of the device is modelled for the
  image builder only), the kernel heap and that of user programs (the crate
  \<^verbatim>\<open>buddy_system_allocator\<close>), start-up order, formatting and log output, \<^verbatim>\<open>initproc\<close> and the test programs. Of these,
  what is left of the source is calls of crates, assembly, tables of constants and programs that print.
\<close>

end
